(* ===== verification/Prelude.thy ===== *)
theory Prelude
  imports Main "HOL-Library.Word" "HOL-Library.Monad_Syntax"
begin

text \<open>
  Shared vocabulary of the development: the fixed-width integer types of
  \<^verbatim>\<open>CommonLib/inc/data_type.h\<close>, the status codes of \<^verbatim>\<open>CommonLib/inc/status.h\<close>, the
  alignment, flag and bounds macros of \<^verbatim>\<open>CommonLib/inc/base.h\<close>, the integer
  helpers of \<^verbatim>\<open>CommonLib/inc/intutils.h\<close>, the outcome convention used by every
  operation, and the generic lemmas on options and words the component theories rely on.

  Outcomes. An operation of the C code either returns or stops the machine: a failed
  \<^verbatim>\<open>ASSERT\<close> calls the registered assert function, which halts the system, and a read or
  write through a pointer to no object is a fault. Both are the value \<open>None\<close> of the
  option type; \<open>Some r\<close> is a return with result \<open>r\<close>. A loop that never ends
  has the value \<open>None\<close> too. The \<open>do\<close> notation of
  \<open>HOL-Library.Monad_Syntax\<close> sequences operations, so every assertion of the
  source appears where the source has it.
\<close>

unbundle bit_operations_syntax

section \<open>Fixed-width integers and pointers\<close>

type_synonym BYTE = "8 word"
type_synonym WORD = "16 word"
type_synonym DWORD = "32 word"
type_synonym QWORD = "64 word"
type_synonym ADDR = "64 word"
type_synonym STATUS = "32 word"

abbreviation NULL :: ADDR where "NULL \<equiv> 0"

definition MAX_BYTE :: BYTE where "MAX_BYTE = 0xFF"
definition MAX_WORD :: WORD where "MAX_WORD = 0xFFFF"
definition MAX_DWORD :: DWORD where "MAX_DWORD = 0xFFFFFFFF"
definition MAX_QWORD :: QWORD where "MAX_QWORD = 0xFFFFFFFFFFFFFFFF"

definition KB_SIZE :: QWORD where "KB_SIZE = 1024"
definition MB_SIZE :: QWORD where "MB_SIZE = 1024 * KB_SIZE"
definition PAGE_SIZE :: QWORD where "PAGE_SIZE = 0x1000"

section \<open>Assertions\<close>

definition ASSERT :: "bool \<Rightarrow> unit option" where
  "ASSERT c = (if c then Some () else None)"

lemma ASSERT_True [simp]: "ASSERT True = Some ()"
  by (simp add: ASSERT_def)

lemma ASSERT_False [simp]: "ASSERT False = None"
  by (simp add: ASSERT_def)

lemma ASSERT_eq_Some [simp]: "ASSERT c = Some u \<longleftrightarrow> c"
  by (simp add: ASSERT_def)

lemma ASSERT_eq_None [simp]: "ASSERT c = None \<longleftrightarrow> \<not> c"
  by (simp add: ASSERT_def)

lemma ASSERT_bind [simp]: "c \<Longrightarrow> Option.bind (ASSERT c) f = f ()"
  by (simp add: ASSERT_def)

lemma ASSERT_bind_None [simp]: "\<not> c \<Longrightarrow> Option.bind (ASSERT c) f = None"
  by (simp add: ASSERT_def)

section \<open>Status codes\<close>

definition FAIL_MASK :: DWORD where "FAIL_MASK = push_bit 31 1"
definition ERROR_MASK :: DWORD where "ERROR_MASK = push_bit 30 3"
definition CUSTOMER_BIT :: DWORD where "CUSTOMER_BIT = push_bit 29 1"
definition GENERAL_MASK :: DWORD where "GENERAL_MASK = push_bit 27 1"
definition HEAP_MASK :: DWORD where "HEAP_MASK = push_bit 21 1"
definition MEMORY_MASK :: DWORD where "MEMORY_MASK = push_bit 20 1"

definition STATUS_SUCCESS :: STATUS where "STATUS_SUCCESS = 0"

definition STATUS_INVALID_PARAMETER1 :: STATUS where
  "STATUS_INVALID_PARAMETER1 = (ERROR_MASK OR CUSTOMER_BIT OR GENERAL_MASK OR 0x0011)"
definition STATUS_INVALID_PARAMETER2 :: STATUS where
  "STATUS_INVALID_PARAMETER2 = (ERROR_MASK OR CUSTOMER_BIT OR GENERAL_MASK OR 0x0012)"
definition STATUS_INVALID_PARAMETER3 :: STATUS where
  "STATUS_INVALID_PARAMETER3 = (ERROR_MASK OR CUSTOMER_BIT OR GENERAL_MASK OR 0x0013)"
definition STATUS_INVALID_PARAMETER4 :: STATUS where
  "STATUS_INVALID_PARAMETER4 = (ERROR_MASK OR CUSTOMER_BIT OR GENERAL_MASK OR 0x0014)"
definition STATUS_ELEMENT_NOT_FOUND :: STATUS where
  "STATUS_ELEMENT_NOT_FOUND = (ERROR_MASK OR CUSTOMER_BIT OR GENERAL_MASK OR 0x0004)"

definition SUCCEEDED :: "STATUS \<Rightarrow> bool" where
  "SUCCEEDED x \<longleftrightarrow> 0 = (x AND FAIL_MASK)"

lemmas status_mask_defs =
  FAIL_MASK_def ERROR_MASK_def CUSTOMER_BIT_def GENERAL_MASK_def HEAP_MASK_def MEMORY_MASK_def

lemmas status_defs = status_mask_defs STATUS_SUCCESS_def STATUS_INVALID_PARAMETER1_def
  STATUS_INVALID_PARAMETER2_def STATUS_INVALID_PARAMETER3_def STATUS_INVALID_PARAMETER4_def

lemma SUCCEEDED_SUCCESS [simp]: "SUCCEEDED STATUS_SUCCESS"
  by (simp add: SUCCEEDED_def STATUS_SUCCESS_def)

lemma not_SUCCEEDED_INVALID_PARAMETER [simp]:
  "\<not> SUCCEEDED STATUS_INVALID_PARAMETER1"
  "\<not> SUCCEEDED STATUS_INVALID_PARAMETER2"
  "\<not> SUCCEEDED STATUS_INVALID_PARAMETER3"
  "\<not> SUCCEEDED STATUS_INVALID_PARAMETER4"
  by (simp_all add: SUCCEEDED_def status_defs)

section \<open>Alignment, flags and bounds\<close>

definition IsFlagOn :: "'a::len word \<Rightarrow> 'a word \<Rightarrow> bool" where
  "IsFlagOn x f \<longleftrightarrow> 0 \<noteq> (x AND f)"

definition IsBooleanFlagOn :: "'a::len word \<Rightarrow> 'a word \<Rightarrow> bool" where
  "IsBooleanFlagOn x f \<longleftrightarrow> f = (x AND f)"

definition AlignAddressLower :: "QWORD \<Rightarrow> QWORD \<Rightarrow> QWORD" where
  "AlignAddressLower addr alig = (addr AND NOT (alig - 1))"

definition AlignAddressUpper :: "QWORD \<Rightarrow> QWORD \<Rightarrow> QWORD" where
  "AlignAddressUpper addr alig = AlignAddressLower (addr + alig - 1) alig"

definition IsAddressAligned :: "QWORD \<Rightarrow> QWORD \<Rightarrow> bool" where
  "IsAddressAligned addr alig \<longleftrightarrow> 0 = (addr AND (alig - 1))"

definition AddressOffset :: "QWORD \<Rightarrow> QWORD \<Rightarrow> QWORD" where
  "AddressOffset addr alig = (addr AND (alig - 1))"

lemma unat_of_nat_small: "n < 2 ^ LENGTH('a) \<Longrightarrow> unat (of_nat n :: 'a::len word) = n"
  by (simp add: unat_of_nat)

lemma MAX_BYTE_minus_one: "MAX_BYTE = - 1"
  by (simp add: MAX_BYTE_def)

lemma bit_MAX_BYTE: "bit MAX_BYTE j \<longleftrightarrow> j < 8"
  unfolding MAX_BYTE_minus_one by simp

lemma unat_bound [simp]: "unat (x::'a::len word) < 2 ^ LENGTH('a)"
  by (rule unsigned_less)

lemma unat32_bound: "unat (x::DWORD) < 4294967296"
  using unat_bound [of x] by simp

lemma unat64_bound: "unat (x::QWORD) < 18446744073709551616"
  using unat_bound [of x] by simp

lemma unat_ucast_mod: "unat (ucast (x::'a::len word) :: 'b::len word) = unat x mod 2 ^ LENGTH('b)"
  by (simp only: unsigned_ucast_eq) (simp add: take_bit_eq_mod)

lemma unat_ucast_up [simp]: "unat (ucast (x::DWORD) :: QWORD) = unat x"
  using unat32_bound [of x] by (simp add: unat_ucast_mod)

lemma all_range_split:
  "(a::nat) < b \<Longrightarrow> (\<forall>k. a \<le> k \<and> k < b \<longrightarrow> P k) \<longleftrightarrow> P a \<and> (\<forall>k. Suc a \<le> k \<and> k < b \<longrightarrow> P k)"
  by (auto simp: Suc_le_eq) (metis le_neq_implies_less)

lemma all_less_two: "(\<forall>i < (2::nat). P i) \<longleftrightarrow> P 0 \<and> P 1"
  by (auto simp: less_2_cases_iff)

text \<open>Counting up below a bound never wraps around.\<close>

lemma unat_inc_below: "(i::'a::len word) < c \<Longrightarrow> unat (i + 1) = Suc (unat i)"
proof -
  assume "i < c"
  then have "unat i < unat c" by (simp add: word_less_nat_alt)
  then have "Suc (unat i) < 2 ^ LENGTH('a)"
    using unsigned_less [of c] by (metis Suc_leI le_less_trans)
  then show ?thesis by (simp add: unat_word_ariths)
qed

lemma minus_take_bit_eq_and_not:
  fixes x :: "'a::len word"
  shows "x AND NOT (mask k) = x - take_bit k x"
proof -
  have "(x AND mask k) + (x AND NOT (mask k)) = x"
    by (subst disjunctive_add) (auto simp: bit_simps intro!: bit_word_eqI)
  then show ?thesis
    by (simp add: take_bit_eq_mask algebra_simps)
qed

lemma unat_take_bit_mod: "unat (take_bit k (x::'a::len word)) = unat x mod 2 ^ k"
  by (simp only: unsigned_take_bit_eq) (simp add: take_bit_eq_mod)

lemma AlignAddressLower_unat:
  assumes "alig = 2 ^ k"
  shows "unat (AlignAddressLower x alig) = unat x - unat x mod 2 ^ k"
proof -
  have "AlignAddressLower x alig = x - take_bit k x"
    using assms minus_take_bit_eq_and_not [of x k]
    by (simp add: AlignAddressLower_def mask_eq_exp_minus_1)
  moreover have "take_bit k x \<le> x"
    by (simp add: word_le_nat_alt unat_take_bit_mod)
  ultimately show ?thesis
    by (simp add: unat_sub unat_take_bit_mod)
qed

lemma IsAddressAligned_unat:
  assumes "alig = 2 ^ k"
  shows "IsAddressAligned x alig \<longleftrightarrow> unat x mod 2 ^ k = 0"
proof -
  have "IsAddressAligned x alig \<longleftrightarrow> take_bit k x = 0"
    using assms by (auto simp: IsAddressAligned_def take_bit_eq_mask mask_eq_exp_minus_1)
  also have "\<dots> \<longleftrightarrow> unat (take_bit k x) = 0"
    by (simp add: unat_eq_0)
  finally show ?thesis
    by (simp add: unat_take_bit_mod)
qed

section \<open>Arithmetic of addresses\<close>

lemma unat_add_below: "unat x + unat y < 2 ^ 64 \<Longrightarrow> unat (x + y :: QWORD) = unat x + unat y"
  by (simp add: unat_word_ariths)

lemma unat_sub_above: "unat y \<le> unat x \<Longrightarrow> unat (x - y :: QWORD) = unat x - unat y"
  by (simp add: unat_sub word_le_nat_alt)

lemma unat_sub_wraps: "unat (x - y :: QWORD) = (if unat y \<le> unat x then unat x - unat y else 2 ^ 64 + unat x - unat y)"
  by (auto simp: unat_sub_if' word_le_nat_alt)

lemma unat_ucast_dword: "unat (ucast (d::DWORD) :: QWORD) = unat d"
  using unsigned_less [of d] by (simp add: unsigned_ucast_eq take_bit_nat_eq_self)

lemma dword_bound: "unat (d::DWORD) < 2 ^ 32"
  using unsigned_less [of d] by simp

lemma sint_small:
  assumes "unat (x::QWORD) < 2 ^ 63"
  shows "sint x = int (unat x)"
proof -
  have u: "uint x = int (unat x)" by (rule uint_nat)
  have "int (unat x) < int (2 ^ 63)" using assms by (simp only: of_nat_less_iff)
  then have "- (2 ^ 63) \<le> uint x" "uint x < 2 ^ 63" by (simp_all add: order_trans [OF _ uint_ge_0])
  then have "signed_take_bit 63 (uint x) = uint x" by (rule signed_take_bit_int_eq_self)
  moreover have "sint x = signed_take_bit 63 (uint x)" by (simp add: sint_uint)
  ultimately have "sint x = uint x" by metis
  then show ?thesis unfolding u .
qed

lemma sint_negative:
  assumes "2 ^ 63 \<le> unat (x::QWORD)"
  shows "sint x < 0"
proof -
  have "unat x < 2 ^ 64" using unsigned_less [of x] by simp
  with assms have "unat x div 2 ^ 63 = 1" by (intro div_nat_eqI) simp_all
  then have "bit (unat x) 63" by (simp add: bit_iff_odd)
  then have "bit x 63" by (simp add: bit_unsigned_iff)
  then show ?thesis using bit_last_iff [of x] by simp
qed

lemma AlignAddressUpper_unat:
  assumes "alig = 2 ^ k" "k < 64" "unat x + 2 ^ k < 2 ^ 64"
  shows "unat x \<le> unat (AlignAddressUpper x alig)" "unat (AlignAddressUpper x alig) mod 2 ^ k = 0"
    "unat (AlignAddressUpper x alig) < unat x + 2 ^ k"
proof -
  have "of_nat (2 ^ k) = (2::64 word) ^ k" by simp
  then have a: "unat alig = 2 ^ k" using unat_of_nat [of "2 ^ k", where 'a = 64] assms(1,3) by simp
  have "unat (x + alig) = unat x + 2 ^ k" using unat_add_below [of x alig] a assms(3) by simp
  then have e: "unat (x + alig - 1) = unat x + 2 ^ k - 1" using unat_sub_above [of 1 "x + alig"] by (simp add: Suc_le_eq)
  let ?n = "unat x + 2 ^ k - 1"
  have n: "unat (AlignAddressUpper x alig) = ?n - ?n mod 2 ^ k"
    unfolding AlignAddressUpper_def AlignAddressLower_unat [OF assms(1)] e ..
  have "?n mod 2 ^ k < 2 ^ k" by simp
  then show "unat x \<le> unat (AlignAddressUpper x alig)" "unat (AlignAddressUpper x alig) < unat x + 2 ^ k"
    unfolding n by linarith+
  show "unat (AlignAddressUpper x alig) mod 2 ^ k = 0" unfolding n by (metis minus_mod_eq_mult_div mod_mult_self1_is_0)
qed

end
