(* ===== verification/CL_List.thy ===== *)
theory CL_List
  imports Prelude
begin

text \<open>
  \<^verbatim>\<open>CommonLib/src/list.c\<close>: the intrusive doubly linked list on which the hash table,
  the pool allocator and the waiting lists of the kernel are built.

  The list memory maps the address of a \<^verbatim>\<open>LIST_ENTRY\<close> to its two fields; an address
  with no entry is not readable or writable, and an access to it is the outcome
  \<open>None\<close>. The model follows the DEBUG configuration of \<^verbatim>\<open>CommonLib.vcxproj\<close>, in
  which every operation first validates the entry it is given. The loops over a list follow
  \<^verbatim>\<open>Flink\<close> until they are back at the head, so on a corrupted list they may never end:
  they are \<open>partial_function\<close>s.

  The abstraction is \<open>is_list m h xs\<close>: in memory \<open>m\<close> the ring that starts at the
  head \<open>h\<close> visits exactly the addresses \<open>xs\<close>, forwards through \<open>Flink\<close> and
  backwards through \<open>Blink\<close>.
\<close>

section \<open>Entries and list memory\<close>

record LIST_ENTRY =
  Flink :: ADDR
  Blink :: ADDR

type_synonym lmem = "ADDR \<rightharpoonup> LIST_ENTRY"

definition rd_Flink :: "lmem \<Rightarrow> ADDR \<Rightarrow> ADDR option" where
  "rd_Flink m p = map_option Flink (m p)"

definition rd_Blink :: "lmem \<Rightarrow> ADDR \<Rightarrow> ADDR option" where
  "rd_Blink m p = map_option Blink (m p)"

definition wr_Flink :: "lmem \<Rightarrow> ADDR \<Rightarrow> ADDR \<Rightarrow> lmem option" where
  "wr_Flink m p v = (case m p of None \<Rightarrow> None | Some e \<Rightarrow> Some (m(p \<mapsto> e\<lparr>Flink := v\<rparr>)))"

definition wr_Blink :: "lmem \<Rightarrow> ADDR \<Rightarrow> ADDR \<Rightarrow> lmem option" where
  "wr_Blink m p v = (case m p of None \<Rightarrow> None | Some e \<Rightarrow> Some (m(p \<mapsto> e\<lparr>Blink := v\<rparr>)))"

section \<open>The operations of list.c\<close>

definition ValidateListEntry :: "lmem \<Rightarrow> ADDR \<Rightarrow> bool option" where
  "ValidateListEntry m Entry = do {
     f \<leftarrow> rd_Flink m Entry;
     fb \<leftarrow> rd_Blink m f;
     if fb \<noteq> Entry then Some False
     else do {
       b \<leftarrow> rd_Blink m Entry;
       bf \<leftarrow> rd_Flink m b;
       if bf \<noteq> Entry then Some False else Some True
     }
   }"

definition ASSERT_valid :: "lmem \<Rightarrow> ADDR \<Rightarrow> unit option" where
  "ASSERT_valid m e = do { v \<leftarrow> ValidateListEntry m e; ASSERT v }"

definition InitializeListHead :: "lmem \<Rightarrow> ADDR \<Rightarrow> lmem option" where
  "InitializeListHead m ListHead = do {
     m \<leftarrow> wr_Blink m ListHead ListHead;
     wr_Flink m ListHead ListHead
   }"

definition IsListEmpty :: "lmem \<Rightarrow> ADDR \<Rightarrow> bool option" where
  "IsListEmpty m ListHead = do {
     ASSERT_valid m ListHead;
     f \<leftarrow> rd_Flink m ListHead;
     Some (f = ListHead)
   }"

definition RemoveEntryList :: "lmem \<Rightarrow> ADDR \<Rightarrow> (bool \<times> lmem) option" where
  "RemoveEntryList m Entry = do {
     ASSERT_valid m Entry;
     fl \<leftarrow> rd_Flink m Entry;
     bl \<leftarrow> rd_Blink m Entry;
     m \<leftarrow> wr_Flink m bl fl;
     m \<leftarrow> wr_Blink m fl bl;
     Some (fl = bl, m)
   }"

definition RemoveHeadList :: "lmem \<Rightarrow> ADDR \<Rightarrow> (ADDR \<times> lmem) option" where
  "RemoveHeadList m ListHead = do {
     ASSERT_valid m ListHead;
     Entry \<leftarrow> rd_Flink m ListHead;
     fl \<leftarrow> rd_Flink m Entry;
     m \<leftarrow> wr_Flink m ListHead fl;
     m \<leftarrow> wr_Blink m fl ListHead;
     Some (Entry, m)
   }"

definition RemoveTailList :: "lmem \<Rightarrow> ADDR \<Rightarrow> (ADDR \<times> lmem) option" where
  "RemoveTailList m ListHead = do {
     ASSERT_valid m ListHead;
     Entry \<leftarrow> rd_Blink m ListHead;
     bl \<leftarrow> rd_Blink m Entry;
     m \<leftarrow> wr_Blink m ListHead bl;
     m \<leftarrow> wr_Flink m bl ListHead;
     Some (Entry, m)
   }"

definition InsertTailList :: "lmem \<Rightarrow> ADDR \<Rightarrow> ADDR \<Rightarrow> lmem option" where
  "InsertTailList m ListHead Entry = do {
     ASSERT_valid m ListHead;
     bl \<leftarrow> rd_Blink m ListHead;
     m \<leftarrow> wr_Flink m Entry ListHead;
     m \<leftarrow> wr_Blink m Entry bl;
     m \<leftarrow> wr_Flink m bl Entry;
     wr_Blink m ListHead Entry
   }"

definition InsertHeadList :: "lmem \<Rightarrow> ADDR \<Rightarrow> ADDR \<Rightarrow> lmem option" where
  "InsertHeadList m ListHead Entry = do {
     ASSERT_valid m ListHead;
     fl \<leftarrow> rd_Flink m ListHead;
     m \<leftarrow> wr_Flink m Entry fl;
     m \<leftarrow> wr_Blink m Entry ListHead;
     m \<leftarrow> wr_Blink m fl Entry;
     wr_Flink m ListHead Entry
   }"

text \<open>
  A compare function gets two entries and the context; it may update the context (the hash
  table's does) and may assert. Its \<^verbatim>\<open>INT64\<close> result is read as a signed value.
\<close>

type_synonym 'c FUNC_CompareFunction = "ADDR \<Rightarrow> ADDR \<Rightarrow> 'c \<Rightarrow> (int \<times> 'c) option"

partial_function (option) InsertOrderedList_loop ::
  "lmem \<Rightarrow> ADDR \<Rightarrow> ADDR \<Rightarrow> 'c FUNC_CompareFunction \<Rightarrow> 'c \<Rightarrow> ADDR \<Rightarrow> (ADDR \<times> 'c) option" where
  "InsertOrderedList_loop m ListHead Entry cmp ctx cur =
     (if cur \<noteq> ListHead then do {
        (r, ctx) \<leftarrow> cmp Entry cur ctx;
        if r < 0 then Some (cur, ctx)
        else do {
          nxt \<leftarrow> rd_Flink m cur;
          InsertOrderedList_loop m ListHead Entry cmp ctx nxt
        }
      }
      else Some (cur, ctx))"

definition InsertOrderedList ::
  "lmem \<Rightarrow> ADDR \<Rightarrow> ADDR \<Rightarrow> 'c FUNC_CompareFunction \<Rightarrow> 'c \<Rightarrow> (lmem \<times> 'c) option" where
  "InsertOrderedList m ListHead Entry cmp ctx = do {
     ASSERT_valid m ListHead;
     cur \<leftarrow> rd_Flink m ListHead;
     (cur, ctx) \<leftarrow> InsertOrderedList_loop m ListHead Entry cmp ctx cur;
     m \<leftarrow> InsertTailList m cur Entry;
     Some (m, ctx)
   }"

partial_function (option) GetListElemByIndex_loop ::
  "lmem \<Rightarrow> ADDR \<Rightarrow> DWORD \<Rightarrow> ADDR \<Rightarrow> DWORD \<Rightarrow> ADDR option" where
  "GetListElemByIndex_loop m ListHead ListIndex cur index =
     (if cur \<noteq> ListHead then do {
        ASSERT (cur \<noteq> NULL);
        if index = ListIndex then Some cur
        else do {
          nxt \<leftarrow> rd_Flink m cur;
          GetListElemByIndex_loop m ListHead ListIndex nxt (index + 1)
        }
      }
      else Some NULL)"

definition GetListElemByIndex :: "lmem \<Rightarrow> ADDR \<Rightarrow> DWORD \<Rightarrow> ADDR option" where
  "GetListElemByIndex m ListHead ListIndex =
     (if ListHead = NULL then Some NULL
      else do {
        ASSERT_valid m ListHead;
        cur \<leftarrow> rd_Flink m ListHead;
        GetListElemByIndex_loop m ListHead ListIndex cur 0
      })"

definition INVALID_LIST_SIZE :: DWORD where "INVALID_LIST_SIZE = MAX_DWORD"

partial_function (option) ListSize_loop ::
  "lmem \<Rightarrow> ADDR \<Rightarrow> ADDR \<Rightarrow> DWORD \<Rightarrow> DWORD option" where
  "ListSize_loop m ListHead cur count =
     (if cur \<noteq> ListHead then do {
        ASSERT (cur \<noteq> NULL);
        nxt \<leftarrow> rd_Flink m cur;
        ListSize_loop m ListHead nxt (count + 1)
      }
      else Some count)"

definition ListSize :: "lmem \<Rightarrow> ADDR \<Rightarrow> DWORD option" where
  "ListSize m ListHead =
     (if ListHead = NULL then Some INVALID_LIST_SIZE
      else do {
        ASSERT_valid m ListHead;
        cur \<leftarrow> rd_Flink m ListHead;
        ListSize_loop m ListHead cur 0
      })"

text \<open>
  \<^verbatim>\<open>ForEachElementExecute\<close>: the callback sees the entry and its context and may change
  both the context and the list memory; \<open>None\<close> stands for a null function pointer.
\<close>

type_synonym 'c FUNC_ListFunction = "ADDR \<Rightarrow> 'c \<Rightarrow> lmem \<Rightarrow> (STATUS \<times> 'c \<times> lmem) option"

partial_function (option) ForEach_loop ::
  "ADDR \<Rightarrow> 'c FUNC_ListFunction \<Rightarrow> bool \<Rightarrow> lmem \<Rightarrow> 'c \<Rightarrow> STATUS \<Rightarrow> ADDR
     \<Rightarrow> (STATUS \<times> 'c \<times> lmem) option" where
  "ForEach_loop ListHead f AllMustSucceed m ctx status cur =
     (if cur \<noteq> ListHead then do {
        ASSERT (cur \<noteq> NULL);
        (status, ctx, m) \<leftarrow> f cur ctx m;
        if AllMustSucceed \<and> \<not> SUCCEEDED status then Some (status, ctx, m)
        else do {
          nxt \<leftarrow> rd_Flink m cur;
          ForEach_loop ListHead f AllMustSucceed m ctx status nxt
        }
      }
      else Some (status, ctx, m))"

definition ForEachElementExecute ::
  "lmem \<Rightarrow> ADDR \<Rightarrow> 'c FUNC_ListFunction option \<Rightarrow> 'c \<Rightarrow> bool \<Rightarrow> (STATUS \<times> 'c \<times> lmem) option" where
  "ForEachElementExecute m ListHead Function ctx AllMustSucceed =
     (if ListHead = NULL then Some (STATUS_INVALID_PARAMETER1, ctx, m)
      else case Function of
        None \<Rightarrow> Some (STATUS_INVALID_PARAMETER2, ctx, m)
      | Some f \<Rightarrow> do {
          ASSERT_valid m ListHead;
          cur \<leftarrow> rd_Flink m ListHead;
          ForEach_loop ListHead f AllMustSucceed m ctx STATUS_SUCCESS cur
        })"

partial_function (option) ListSearch_loop ::
  "lmem \<Rightarrow> ADDR \<Rightarrow> ADDR \<Rightarrow> bool \<Rightarrow> 'c FUNC_CompareFunction \<Rightarrow> 'c \<Rightarrow> ADDR
     \<Rightarrow> (ADDR \<times> 'c) option" where
  "ListSearch_loop m ListHead Elem IsListOrdered cmp ctx cur =
     (if cur \<noteq> ListHead then do {
        (r, ctx) \<leftarrow> cmp cur Elem ctx;
        if r = 0 then Some (cur, ctx)
        else if IsListOrdered \<and> r > 0 then Some (NULL, ctx)
        else do {
          nxt \<leftarrow> rd_Flink m cur;
          ListSearch_loop m ListHead Elem IsListOrdered cmp ctx nxt
        }
      }
      else Some (NULL, ctx))"

definition ListSearchForElement ::
  "lmem \<Rightarrow> ADDR \<Rightarrow> ADDR \<Rightarrow> bool \<Rightarrow> 'c FUNC_CompareFunction option \<Rightarrow> 'c
     \<Rightarrow> (ADDR \<times> 'c) option" where
  "ListSearchForElement m ListHead Elem IsListOrdered CompareFunction ctx =
     (if ListHead = NULL then Some (NULL, ctx)
      else if Elem = NULL then Some (NULL, ctx)
      else case CompareFunction of
        None \<Rightarrow> Some (NULL, ctx)
      | Some cmp \<Rightarrow> do {
          ASSERT_valid m ListHead;
          cur \<leftarrow> rd_Flink m ListHead;
          ListSearch_loop m ListHead Elem IsListOrdered cmp ctx cur
        })"

record LIST_ITERATOR =
  li_ListHead :: ADDR
  li_CurrentEntry :: ADDR

definition ListIteratorInit :: "lmem \<Rightarrow> ADDR \<Rightarrow> LIST_ITERATOR option" where
  "ListIteratorInit m List = do {
     ASSERT (List \<noteq> NULL);
     f \<leftarrow> rd_Flink m List;
     Some \<lparr>li_ListHead = List, li_CurrentEntry = f\<rparr>
   }"

definition ListIteratorNext :: "lmem \<Rightarrow> LIST_ITERATOR \<Rightarrow> (ADDR \<times> LIST_ITERATOR) option" where
  "ListIteratorNext m it =
     (if li_CurrentEntry it \<noteq> li_ListHead it then do {
        f \<leftarrow> rd_Flink m (li_CurrentEntry it);
        Some (li_CurrentEntry it, it\<lparr>li_CurrentEntry := f\<rparr>)
      }
      else Some (NULL, it))"


section \<open>Rings: the abstraction of a list\<close>

definition links :: "lmem \<Rightarrow> ADDR \<Rightarrow> ADDR \<Rightarrow> bool" where
  "links m a b \<longleftrightarrow> rd_Flink m a = Some b \<and> rd_Blink m b = Some a"

fun chain :: "lmem \<Rightarrow> ADDR list \<Rightarrow> bool" where
  "chain m (a # b # xs) = (links m a b \<and> chain m (b # xs))"
| "chain m _ = True"

definition is_list :: "lmem \<Rightarrow> ADDR \<Rightarrow> ADDR list \<Rightarrow> bool" where
  "is_list m h xs \<longleftrightarrow> chain m (h # xs @ [h]) \<and> distinct (h # xs) \<and> NULL \<notin> set (h # xs)"

definition untouched :: "lmem \<Rightarrow> lmem \<Rightarrow> ADDR set \<Rightarrow> bool" where
  "untouched m m' A \<longleftrightarrow> (\<forall>a. a \<notin> A \<longrightarrow> m' a = m a) \<and> dom m' = dom m"

subsection \<open>Reads after writes\<close>

named_theorems lmem_simps \<open>reads of list memory after writes\<close>

lemma wr_Flink_Some [lmem_simps]:
  "m p = Some e \<Longrightarrow> wr_Flink m p v = Some (m(p \<mapsto> e\<lparr>Flink := v\<rparr>))"
  by (simp add: wr_Flink_def)

lemma wr_Blink_Some [lmem_simps]:
  "m p = Some e \<Longrightarrow> wr_Blink m p v = Some (m(p \<mapsto> e\<lparr>Blink := v\<rparr>))"
  by (simp add: wr_Blink_def)

lemma rd_upd [lmem_simps]:
  "rd_Flink (m(p \<mapsto> e)) q = (if q = p then Some (Flink e) else rd_Flink m q)"
  "rd_Blink (m(p \<mapsto> e)) q = (if q = p then Some (Blink e) else rd_Blink m q)"
  by (simp_all add: rd_Flink_def rd_Blink_def)

lemma rd_Some_mapped:
  "rd_Flink m p = Some v \<Longrightarrow> \<exists>e. m p = Some e \<and> Flink e = v"
  "rd_Blink m p = Some v \<Longrightarrow> \<exists>e. m p = Some e \<and> Blink e = v"
  by (auto simp: rd_Flink_def rd_Blink_def)

lemma rd_of_Some [lmem_simps]:
  "m p = Some e \<Longrightarrow> rd_Flink m p = Some (Flink e)"
  "m p = Some e \<Longrightarrow> rd_Blink m p = Some (Blink e)"
  by (simp_all add: rd_Flink_def rd_Blink_def)

lemma untouched_refl [simp]: "untouched m m A"
  by (simp add: untouched_def)

lemma untouched_trans:
  "untouched m m' A \<Longrightarrow> untouched m' m'' B \<Longrightarrow> untouched m m'' (A \<union> B)"
  by (simp add: untouched_def)

lemma untouched_mono: "untouched m m' A \<Longrightarrow> A \<subseteq> B \<Longrightarrow> untouched m m' B"
  by (auto simp: untouched_def)

lemma untouched_mapped: "untouched m m' A \<Longrightarrow> m a \<noteq> None \<Longrightarrow> m' a \<noteq> None"
  by (auto simp: untouched_def dom_def set_eq_iff)

subsection \<open>Chains\<close>

lemma chain_append:
  "chain m (xs @ a # ys) \<longleftrightarrow> chain m (xs @ [a]) \<and> chain m (a # ys)"
proof (induction xs)
  case Nil
  then show ?case by (cases ys) auto
next
  case (Cons x xs)
  then show ?case by (cases xs) auto
qed

lemma chain_cong:
  assumes "\<And>x. x \<in> set (butlast xs) \<Longrightarrow> rd_Flink m' x = rd_Flink m x"
    and "\<And>x. x \<in> set (tl xs) \<Longrightarrow> rd_Blink m' x = rd_Blink m x"
  shows "chain m' xs = chain m xs"
  using assms by (induction m xs rule: chain.induct) (auto simp: links_def)

lemma chain_frame:
  assumes "\<And>x. x \<in> set xs \<Longrightarrow> m' x = m x"
  shows "chain m' xs = chain m xs"
proof (rule chain_cong)
  fix x
  show "x \<in> set (butlast xs) \<Longrightarrow> rd_Flink m' x = rd_Flink m x"
    using assms by (simp add: rd_Flink_def in_set_butlastD)
  show "x \<in> set (tl xs) \<Longrightarrow> rd_Blink m' x = rd_Blink m x"
    using assms by (cases xs) (simp_all add: rd_Blink_def)
qed

subsection \<open>Rings\<close>

lemma is_list_frame:
  assumes "\<And>x. x \<in> set (h # xs) \<Longrightarrow> m' x = m x"
  shows "is_list m' h xs = is_list m h xs"
  using assms chain_frame [of "h # xs @ [h]" m' m] by (auto simp: is_list_def)

lemma is_list_untouched:
  assumes "is_list m h xs" "untouched m m' A" "A \<inter> set (h # xs) = {}"
  shows "is_list m' h xs"
proof -
  have "m' x = m x" if "x \<in> set (h # xs)" for x
    using assms(2,3) that by (auto simp: untouched_def)
  then have "is_list m' h xs = is_list m h xs" by (rule is_list_frame)
  with assms(1) show ?thesis by simp
qed

lemma is_list_rotate:
  assumes "is_list m h (xs @ y # ys)"
  shows "is_list m y (ys @ h # xs)"
proof -
  have c: "chain m ((h # xs) @ y # (ys @ [h]))"
    using assms by (simp add: is_list_def)
  then have "chain m (h # xs @ [y])" "chain m (y # ys @ [h])"
    using chain_append [of m "h # xs" y "ys @ [h]"] by simp_all
  then have "chain m ((y # ys) @ h # (xs @ [y]))"
    using chain_append [of m "y # ys" h "xs @ [y]"] by simp
  with assms show ?thesis by (auto simp: is_list_def)
qed

lemma is_list_mapped:
  assumes "is_list m h xs" "a \<in> set (h # xs)"
  shows "\<exists>e. m a = Some e"
proof -
  have *: "chain m zs \<Longrightarrow> a \<in> set (butlast zs) \<Longrightarrow> \<exists>e. m a = Some e" for zs
    by (induction m zs rule: chain.induct) (auto simp: links_def rd_Flink_def split: if_splits)
  show ?thesis
    using * [of "h # xs @ [h]"] assms by (auto simp: is_list_def butlast_append)
qed

lemma is_list_Nil: "is_list m h [] \<longleftrightarrow> links m h h \<and> h \<noteq> NULL"
  by (auto simp: is_list_def)

lemma is_list_first:
  assumes "is_list m h xs"
  shows "rd_Flink m h = Some (hd (xs @ [h]))" "rd_Blink m (hd (xs @ [h])) = Some h"
  using assms by (cases xs; simp add: is_list_def links_def)+

lemma is_list_last:
  assumes "is_list m h xs"
  shows "rd_Blink m h = Some (last (h # xs))" "rd_Flink m (last (h # xs)) = Some h"
proof -
  have "chain m (butlast (h # xs) @ last (h # xs) # [h])"
    using assms append_butlast_last_id [of "h # xs"] unfolding is_list_def
    by (metis append.assoc append_Cons append_Nil list.distinct(1))
  then have "chain m [last (h # xs), h]"
    using chain_append [of m "butlast (h # xs)" "last (h # xs)" "[h]"] by blast
  then show "rd_Blink m h = Some (last (h # xs))" "rd_Flink m (last (h # xs)) = Some h"
    by (simp_all add: links_def)
qed

lemma is_list_next:
  assumes "is_list m h (xs @ a # ys)"
  shows "rd_Flink m a = Some (hd (ys @ [h]))"
  using is_list_first(1) [OF is_list_rotate [OF assms]] by (cases ys) auto

lemma is_list_not_NULL: "is_list m h xs \<Longrightarrow> h \<noteq> NULL"
  by (simp add: is_list_def)

lemma is_list_ASSERT_valid [simp]: "is_list m h xs \<Longrightarrow> ASSERT_valid m h = Some ()"
  using is_list_first [of m h xs] is_list_last [of m h xs]
  by (simp add: ASSERT_valid_def ValidateListEntry_def)

lemma is_list_ASSERT_valid_elem:
  "is_list m h (xs @ a # ys) \<Longrightarrow> ASSERT_valid m a = Some ()"
  by (drule is_list_rotate) simp

text \<open>The ring seen from the head is unique.\<close>

lemma is_list_unique:
  assumes "is_list m h xs" "is_list m h ys"
  shows "xs = ys"
proof -
  have "chain m (a # xs @ [h]) \<Longrightarrow> chain m (a # ys @ [h]) \<Longrightarrow> h \<notin> set xs \<Longrightarrow> h \<notin> set ys
      \<Longrightarrow> xs = ys" for a
  proof (induction xs arbitrary: a ys)
    case Nil
    then show ?case by (cases ys) (auto simp: links_def)
  next
    case (Cons x xs)
    then show ?case by (cases ys) (auto simp: links_def)
  qed
  then show ?thesis using assms by (auto simp: is_list_def)
qed


subsection \<open>Splicing an entry in and out\<close>

definition spliced :: "lmem \<Rightarrow> lmem \<Rightarrow> ADDR \<Rightarrow> ADDR \<Rightarrow> ADDR \<Rightarrow> bool" where
  "spliced m m' a e b \<longleftrightarrow>
     links m' a e \<and> links m' e b
     \<and> (\<forall>x. x \<noteq> a \<longrightarrow> x \<noteq> e \<longrightarrow> rd_Flink m' x = rd_Flink m x)
     \<and> (\<forall>x. x \<noteq> b \<longrightarrow> x \<noteq> e \<longrightarrow> rd_Blink m' x = rd_Blink m x)
     \<and> untouched m m' {a, e, b}"

definition unspliced :: "lmem \<Rightarrow> lmem \<Rightarrow> ADDR \<Rightarrow> ADDR \<Rightarrow> bool" where
  "unspliced m m' a b \<longleftrightarrow>
     links m' a b
     \<and> (\<forall>x. x \<noteq> a \<longrightarrow> rd_Flink m' x = rd_Flink m x)
     \<and> (\<forall>x. x \<noteq> b \<longrightarrow> rd_Blink m' x = rd_Blink m x)
     \<and> untouched m m' {a, b}"

lemma distinct_last_butlast: "distinct xs \<Longrightarrow> xs \<noteq> [] \<Longrightarrow> last xs \<notin> set (butlast xs)"
  by (metis append_butlast_last_id distinct_butlast not_distinct_conv_prefix)

lemma splice_tail:
  assumes r: "is_list m h xs" and e: "e \<notin> set (h # xs)" "e \<noteq> NULL"
    and sp: "spliced m m' (last (h # xs)) e h"
  shows "is_list m' h (xs @ [e])"
proof -
  let ?l = "last (h # xs)"
  have d: "distinct (h # xs)" and c: "chain m (h # xs @ [h])"
    using r by (auto simp: is_list_def)
  have "chain m (h # xs)"
    using c chain_append [of m "butlast (h # xs)" ?l "[h]"] append_butlast_last_id [of "h # xs"]
    by (metis append.assoc append_Cons append_Nil list.distinct(1))
  moreover have "chain m' (h # xs) = chain m (h # xs)"
  proof (rule chain_cong)
    fix x
    assume "x \<in> set (butlast (h # xs))"
    moreover have "x \<noteq> ?l"
      using calculation distinct_last_butlast [OF d] by (metis list.distinct(1))
    moreover have "x \<noteq> e"
      using calculation e(1) by (meson in_set_butlastD)
    ultimately show "rd_Flink m' x = rd_Flink m x"
      using sp by (simp add: spliced_def)
  next
    fix x
    assume "x \<in> set (tl (h # xs))"
    then have "x \<noteq> h" "x \<noteq> e"
      using d e(1) by auto
    then show "rd_Blink m' x = rd_Blink m x"
      using sp by (simp add: spliced_def)
  qed
  ultimately have "chain m' (butlast (h # xs) @ ?l # [e, h])"
    using sp chain_append [of m' "butlast (h # xs)" ?l "[e, h]"] append_butlast_last_id [of "h # xs"]
    by (simp add: spliced_def)
  then have "chain m' (h # (xs @ [e]) @ [h])"
    using append_butlast_last_id [of "h # xs"]
    by (metis append.assoc append_Cons append_Nil list.distinct(1))
  with d e r show ?thesis by (auto simp: is_list_def)
qed

lemma splice_head:
  assumes r: "is_list m h xs" and e: "e \<notin> set (h # xs)" "e \<noteq> NULL"
    and sp: "spliced m m' h e (hd (xs @ [h]))"
  shows "is_list m' h (e # xs)"
proof (cases xs)
  case Nil
  with splice_tail [OF r e] sp show ?thesis by simp
next
  case (Cons f ys)
  have "is_list m f (ys @ [h])"
    using is_list_rotate [of m h "[]" f ys] r Cons by simp
  then have "is_list m' f ((ys @ [h]) @ [e])"
    by (rule splice_tail) (use e sp Cons in auto)
  then show ?thesis
    using is_list_rotate [of m' f ys h "[e]"] Cons by simp
qed

lemma unsplice_entry:
  assumes r: "is_list m e zs" and ne: "zs \<noteq> []"
    and un: "unspliced m m' (last zs) (hd zs)"
  shows "is_list m' (hd zs) (tl zs)"
proof -
  obtain b ys where zs: "zs = b # ys" using ne by (cases zs) auto
  have d: "distinct (e # zs)" and c: "chain m (e # zs @ [e])"
    using r by (auto simp: is_list_def)
  have "chain m zs"
    using c chain_append [of m "butlast zs" "last zs" "[e]"] append_butlast_last_id [OF ne]
      chain_append [of m "[e]" b "ys @ [e]"] zs
    by (metis append.assoc append_Cons append_Nil)
  moreover have "chain m' zs = chain m zs"
  proof (rule chain_cong)
    fix x
    assume "x \<in> set (butlast zs)"
    then have "x \<noteq> last zs"
      using distinct_last_butlast [of zs] d ne by auto
    then show "rd_Flink m' x = rd_Flink m x"
      using un by (simp add: unspliced_def)
  next
    fix x
    assume "x \<in> set (tl zs)"
    then have "x \<noteq> hd zs"
      using d zs by auto
    then show "rd_Blink m' x = rd_Blink m x"
      using un by (simp add: unspliced_def)
  qed
  ultimately have "chain m' (butlast zs @ last zs # [b])"
    using un zs chain_append [of m' "butlast zs" "last zs" "[b]"] append_butlast_last_id [OF ne]
    by (simp add: unspliced_def)
  then have "chain m' (b # ys @ [b])"
    using append_butlast_last_id [OF ne] zs by (metis append.assoc append_Cons append_Nil)
  with d r zs show ?thesis by (auto simp: is_list_def)
qed

lemma InsertTailList_spliced:
  assumes "is_list m h xs" "e \<notin> set (h # xs)" "m e \<noteq> None"
  shows "\<exists>m'. InsertTailList m h e = Some m' \<and> spliced m m' (last (h # xs)) e h"
proof -
  let ?l = "last (h # xs)"
  obtain eh where eh: "m h = Some eh" "Blink eh = ?l"
    using is_list_last(1) [OF assms(1)] by (auto simp: rd_Blink_def)
  obtain el where el: "m ?l = Some el" "Flink el = h"
    using is_list_last(2) [OF assms(1)] by (auto simp: rd_Flink_def)
  obtain ee where ee: "m e = Some ee" using assms(3) by auto
  have neq: "e \<noteq> h" "e \<noteq> ?l"
    using assms(2) last_in_set [of "h # xs"] by auto
  show ?thesis
    using assms(1) eh el ee neq
    by (cases "?l = h")
      (auto simp: InsertTailList_def lmem_simps spliced_def links_def untouched_def simp del: last.simps)
qed


lemma InsertHeadList_spliced:
  assumes "is_list m h xs" "e \<notin> set (h # xs)" "m e \<noteq> None"
  shows "\<exists>m'. InsertHeadList m h e = Some m' \<and> spliced m m' h e (hd (xs @ [h]))"
proof -
  let ?f = "hd (xs @ [h])"
  obtain eh where eh: "m h = Some eh" "Flink eh = ?f"
    using is_list_first(1) [OF assms(1)] by (auto simp: rd_Flink_def)
  obtain ef where ef: "m ?f = Some ef" "Blink ef = h"
    using is_list_first(2) [OF assms(1)] by (auto simp: rd_Blink_def)
  obtain ee where ee: "m e = Some ee" using assms(3) by auto
  have neq: "e \<noteq> h" "e \<noteq> ?f"
    using assms(2) by (cases xs; auto)+
  show ?thesis
    using assms(1) eh ef ee neq
    by (cases "?f = h")
      (auto simp: InsertHeadList_def lmem_simps spliced_def links_def untouched_def)
qed

lemma RemoveEntryList_unspliced:
  assumes "is_list m e zs" "zs \<noteq> []"
  shows "\<exists>m'. RemoveEntryList m e = Some (hd zs = last zs, m') \<and> unspliced m m' (last zs) (hd zs)"
proof -
  let ?f = "hd zs" let ?l = "last zs"
  obtain ee where ee: "m e = Some ee" "Flink ee = ?f" "Blink ee = ?l"
    using is_list_first(1) [OF assms(1)] is_list_last(1) [OF assms(1)] assms(2)
    by (auto simp: rd_Flink_def rd_Blink_def)
  obtain ef where ef: "m ?f = Some ef"
    using is_list_mapped [OF assms(1), of ?f] assms(2) by auto
  obtain el where el: "m ?l = Some el"
    using is_list_mapped [OF assms(1), of ?l] assms(2) by auto
  show ?thesis
    using assms(1) ee ef el
    by (cases "?f = ?l")
      (auto simp: RemoveEntryList_def lmem_simps unspliced_def links_def untouched_def)
qed

lemma RemoveHeadList_unspliced:
  assumes "is_list m h (e # ys)"
  shows "\<exists>m'. RemoveHeadList m h = Some (e, m') \<and> unspliced m m' h (hd (ys @ [h]))"
proof -
  let ?f = "hd (ys @ [h])"
  obtain eh where eh: "m h = Some eh" "Flink eh = e"
    using is_list_first(1) [OF assms(1)] by (auto simp: rd_Flink_def)
  obtain ee where ee: "m e = Some ee" "Flink ee = ?f"
    using is_list_next [of m h "[]" e ys] assms by (auto simp: rd_Flink_def)
  obtain ef where ef: "m ?f = Some ef"
    using is_list_mapped [OF assms(1), of ?f] by (cases ys) auto
  show ?thesis
    using assms(1) ee ef eh
    by (cases "?f = h")
      (auto simp: RemoveHeadList_def lmem_simps unspliced_def links_def untouched_def)
qed

lemma RemoveTailList_unspliced:
  assumes "is_list m h (ys @ [e])"
  shows "\<exists>m'. RemoveTailList m h = Some (e, m') \<and> unspliced m m' (last (h # ys)) h"
proof -
  let ?l = "last (h # ys)"
  obtain eh where eh: "m h = Some eh" "Blink eh = e"
    using is_list_last(1) [OF assms(1)] by (auto simp: rd_Blink_def)
  have "is_list m e (h # ys)"
    using is_list_rotate [of m h ys e "[]"] assms by simp
  from is_list_last(1) [OF this] obtain ee where ee: "m e = Some ee" "Blink ee = ?l"
    by (auto simp: rd_Blink_def)
  obtain el where el: "m ?l = Some el"
    using is_list_mapped [OF assms(1), of ?l] by (cases ys rule: rev_cases) auto
  show ?thesis
    using assms(1) ee el eh
    by (cases "?l = h")
      (auto simp: RemoveTailList_def lmem_simps unspliced_def links_def untouched_def
        simp del: last.simps)
qed

section \<open>What the operations do to the list\<close>

lemma InitializeListHead_correct:
  assumes "m h \<noteq> None" "h \<noteq> NULL"
  shows "\<exists>m'. InitializeListHead m h = Some m' \<and> is_list m' h [] \<and> untouched m m' {h}"
  using assms
  by (auto simp: InitializeListHead_def lmem_simps is_list_Nil links_def untouched_def)

lemma IsListEmpty_correct:
  assumes "is_list m h xs"
  shows "IsListEmpty m h = Some (xs = [])"
proof -
  have "hd (xs @ [h]) = h \<longleftrightarrow> xs = []"
    using assms by (cases xs) (auto simp: is_list_def)
  then show ?thesis
    using assms is_list_first(1) [OF assms] by (simp add: IsListEmpty_def)
qed

lemma InsertTailList_correct:
  assumes "is_list m h xs" "e \<notin> set (h # xs)" "e \<noteq> NULL" "m e \<noteq> None"
  shows "\<exists>m'. InsertTailList m h e = Some m' \<and> is_list m' h (xs @ [e])
            \<and> untouched m m' (insert e (set (h # xs)))"
proof -
  obtain m' where m': "InsertTailList m h e = Some m'" "spliced m m' (last (h # xs)) e h"
    using InsertTailList_spliced assms by blast
  then have "untouched m m' {last (h # xs), e, h}"
    by (simp add: spliced_def)
  then have "untouched m m' (insert e (set (h # xs)))"
    by (rule untouched_mono) auto
  with m' splice_tail [OF assms(1-3) m'(2)] show ?thesis by blast
qed

lemma InsertHeadList_correct:
  assumes "is_list m h xs" "e \<notin> set (h # xs)" "e \<noteq> NULL" "m e \<noteq> None"
  shows "\<exists>m'. InsertHeadList m h e = Some m' \<and> is_list m' h (e # xs)
            \<and> untouched m m' (insert e (set (h # xs)))"
proof -
  obtain m' where m': "InsertHeadList m h e = Some m'" "spliced m m' h e (hd (xs @ [h]))"
    using InsertHeadList_spliced assms by blast
  then have "untouched m m' {h, e, hd (xs @ [h])}"
    by (simp add: spliced_def)
  then have "untouched m m' (insert e (set (h # xs)))"
    by (rule untouched_mono) (cases xs, auto)
  with m' splice_head [OF assms(1-3) m'(2)] show ?thesis by blast
qed

text \<open>Insertion next to an arbitrary entry of the ring, seen from the head.\<close>

lemma InsertTailList_before:
  assumes r: "is_list m h (xs @ ys)" and e: "e \<notin> set (h # xs @ ys)" "e \<noteq> NULL" "m e \<noteq> None"
  shows "\<exists>m'. InsertTailList m (hd (ys @ [h])) e = Some m' \<and> is_list m' h (xs @ e # ys)
            \<and> untouched m m' (insert e (set (h # xs @ ys)))"
proof (cases ys)
  case Nil
  with InsertTailList_correct [of m h xs e] r e show ?thesis by simp
next
  case (Cons y zs)
  have "is_list m y (zs @ h # xs)"
    using is_list_rotate [of m h xs y zs] r Cons by simp
  from InsertTailList_correct [OF this, of e] e Cons
  obtain m' where m': "InsertTailList m y e = Some m'" "is_list m' y ((zs @ h # xs) @ [e])"
    "untouched m m' (insert e (set (y # zs @ h # xs)))" by auto
  then have "is_list m' h ((xs @ [e]) @ y # zs)"
    using is_list_rotate [of m' y zs h "xs @ [e]"] by simp
  with m' Cons show ?thesis
    by (auto intro!: exI [of _ m'] elim: untouched_mono)
qed

lemma InsertHeadList_after:
  assumes r: "is_list m h (xs @ ys)" and e: "e \<notin> set (h # xs @ ys)" "e \<noteq> NULL" "m e \<noteq> None"
  shows "\<exists>m'. InsertHeadList m (last (h # xs)) e = Some m' \<and> is_list m' h (xs @ e # ys)
            \<and> untouched m m' (insert e (set (h # xs @ ys)))"
proof (cases xs rule: rev_cases)
  case Nil
  with InsertHeadList_correct [of m h ys e] r e show ?thesis by simp
next
  case (snoc zs x)
  have "is_list m x (ys @ h # zs)"
    using is_list_rotate [of m h zs x ys] r snoc by simp
  from InsertHeadList_correct [OF this, of e] e snoc
  obtain m' where m': "InsertHeadList m x e = Some m'" "is_list m' x (e # ys @ h # zs)"
    "untouched m m' (insert e (set (x # ys @ h # zs)))" by auto
  then have "is_list m' h (zs @ x # e # ys)"
    using is_list_rotate [of m' x "e # ys" h zs] by simp
  with m' snoc show ?thesis
    by (auto intro!: exI [of _ m'] elim: untouched_mono)
qed

lemma RemoveEntryList_correct:
  assumes "is_list m h (xs @ e # ys)"
  shows "\<exists>m'. RemoveEntryList m e = Some (xs @ ys = [], m') \<and> is_list m' h (xs @ ys)
            \<and> untouched m m' (set (h # xs @ ys))"
proof -
  let ?zs = "ys @ h # xs"
  have r: "is_list m e ?zs" by (rule is_list_rotate [OF assms])
  obtain m' where m': "RemoveEntryList m e = Some (hd ?zs = last ?zs, m')"
    "unspliced m m' (last ?zs) (hd ?zs)"
    using RemoveEntryList_unspliced [OF r] by blast
  have l: "is_list m' (hd ?zs) (tl ?zs)"
    by (rule unsplice_entry [OF r _ m'(2)]) simp
  have "is_list m' h (xs @ ys)"
  proof (cases ys)
    case Nil
    with l show ?thesis by simp
  next
    case (Cons y zs)
    with l is_list_rotate [of m' y zs h xs] show ?thesis by simp
  qed
  moreover have "(hd ?zs = last ?zs) = (xs @ ys = [])"
    using assms by (cases ys; cases xs rule: rev_cases) (auto simp: is_list_def)
  moreover have "untouched m m' (set (h # xs @ ys))"
    using m'(2) by (auto simp: unspliced_def elim!: untouched_mono) (cases ys; auto)+
  ultimately show ?thesis using m'(1) by auto
qed


lemma RemoveHeadList_correct:
  assumes "is_list m h (e # ys)"
  shows "\<exists>m'. RemoveHeadList m h = Some (e, m') \<and> is_list m' h ys \<and> untouched m m' (set (h # ys))"
proof -
  obtain m' where m': "RemoveHeadList m h = Some (e, m')" "unspliced m m' h (hd (ys @ [h]))"
    using RemoveHeadList_unspliced [OF assms] by blast
  have r: "is_list m e (ys @ [h])"
    using is_list_rotate [of m h "[]" e ys] assms by simp
  have "is_list m' (hd (ys @ [h])) (tl (ys @ [h]))"
    by (rule unsplice_entry [OF r]) (use m' in auto)
  then have "is_list m' h ys"
    using is_list_rotate [of m' "hd ys" "tl ys" h "[]"] by (cases ys) auto
  moreover have "untouched m m' (set (h # ys))"
    using m'(2) by (auto simp: unspliced_def elim!: untouched_mono) (cases ys; auto)+
  ultimately show ?thesis using m'(1) by blast
qed

lemma RemoveHeadList_empty:
  assumes "is_list m h []"
  shows "RemoveHeadList m h = Some (h, m)"
proof -
  obtain e where "m h = Some e" "Flink e = h" "Blink e = h"
    using assms by (auto simp: is_list_Nil links_def rd_Flink_def rd_Blink_def)
  then have "m(h \<mapsto> e\<lparr>Flink := h, Blink := h\<rparr>) = m"
    by (cases e) (auto simp: fun_eq_iff)
  with \<open>m h = Some e\<close> \<open>Flink e = h\<close> assms show ?thesis
    by (simp add: RemoveHeadList_def lmem_simps)
qed

lemma RemoveTailList_correct:
  assumes "is_list m h (ys @ [e])"
  shows "\<exists>m'. RemoveTailList m h = Some (e, m') \<and> is_list m' h ys \<and> untouched m m' (set (h # ys))"
proof -
  obtain m' where m': "RemoveTailList m h = Some (e, m')" "unspliced m m' (last (h # ys)) h"
    using RemoveTailList_unspliced [OF assms] by blast
  have r: "is_list m e (h # ys)"
    using is_list_rotate [of m h ys e "[]"] assms by simp
  have "is_list m' (hd (h # ys)) (tl (h # ys))"
    by (rule unsplice_entry [OF r]) (use m' in auto)
  moreover have "untouched m m' (set (h # ys))"
    using m'(2) by (auto simp: unspliced_def elim!: untouched_mono)
  ultimately show ?thesis using m'(1) by simp
qed

section \<open>Traversals\<close>

lemma is_list_elem:
  assumes "is_list m h (xs @ y # ys)"
  shows "y \<noteq> h" "y \<noteq> NULL"
  using assms by (auto simp: is_list_def)

lemmas walk_simps = is_list_next is_list_elem

lemma ListSize_loop_correct:
  "is_list m h (xs @ ys) \<Longrightarrow> ListSize_loop m h (hd (ys @ [h])) c = Some (c + of_nat (length ys))"
proof (induction ys arbitrary: xs c)
  case Nil
  then show ?case by (simp add: ListSize_loop.simps)
next
  case (Cons y ys)
  from Cons.IH [of "xs @ [y]"] Cons.prems walk_simps [OF Cons.prems] show ?case
    by (subst ListSize_loop.simps) (simp add: algebra_simps)
qed

lemma ListSize_correct: "is_list m h xs \<Longrightarrow> ListSize m h = Some (of_nat (length xs))"
  using ListSize_loop_correct [of m h "[]" xs 0]
  by (simp add: ListSize_def is_list_not_NULL is_list_first)

lemma GetListElemByIndex_loop_correct:
  "is_list m h (xs @ ys) \<Longrightarrow> length (xs @ ys) < 2 ^ 32 \<Longrightarrow> length xs \<le> unat i \<Longrightarrow>
   GetListElemByIndex_loop m h i (hd (ys @ [h])) (of_nat (length xs)) =
     Some (if unat i < length (xs @ ys) then (xs @ ys) ! unat i else NULL)"
proof (induction ys arbitrary: xs)
  case Nil
  then show ?case by (simp add: GetListElemByIndex_loop.simps)
next
  case (Cons y ys)
  have idx: "of_nat (length xs) = i \<longleftrightarrow> length xs = unat i"
    using Cons.prems unat_of_nat_small [of "length xs", where 'a = 32] by auto
  show ?case
  proof (cases "length xs = unat i")
    case True
    then show ?thesis
      using idx walk_simps [OF Cons.prems(1)]
      by (subst GetListElemByIndex_loop.simps) (simp add: nth_append)
  next
    case False
    then show ?thesis
      using idx Cons.IH [of "xs @ [y]"] Cons.prems walk_simps [OF Cons.prems(1)]
      by (subst GetListElemByIndex_loop.simps) (simp add: algebra_simps)
  qed
qed

lemma GetListElemByIndex_correct:
  assumes "is_list m h xs" "length xs < 2 ^ 32"
  shows "GetListElemByIndex m h i = Some (if unat i < length xs then xs ! unat i else NULL)"
  using assms GetListElemByIndex_loop_correct [of m h "[]" xs i]
  by (simp add: GetListElemByIndex_def is_list_not_NULL is_list_first)

text \<open>
  \<^verbatim>\<open>ForEachElementExecute\<close> on a callback that leaves the list memory alone: the
  callback's status and its effect on the context are \<open>st\<close> and \<open>up\<close>.
\<close>

fun foreach_spec :: "(ADDR \<Rightarrow> 'c \<Rightarrow> STATUS) \<Rightarrow> (ADDR \<Rightarrow> 'c \<Rightarrow> 'c) \<Rightarrow> bool \<Rightarrow> STATUS \<Rightarrow> 'c
     \<Rightarrow> ADDR list \<Rightarrow> STATUS \<times> 'c" where
  "foreach_spec st up allmust status ctx [] = (status, ctx)"
| "foreach_spec st up allmust status ctx (x # xs) =
     (if allmust \<and> \<not> SUCCEEDED (st x ctx) then (st x ctx, up x ctx)
      else foreach_spec st up allmust (st x ctx) (up x ctx) xs)"

lemma ForEach_loop_correct:
  assumes f: "\<And>x ctx. f x ctx m = Some (st x ctx, up x ctx, m)"
  shows "is_list m h (xs @ ys) \<Longrightarrow>
    ForEach_loop h f allmust m ctx status (hd (ys @ [h])) =
      (let (s, c) = foreach_spec st up allmust status ctx ys in Some (s, c, m))"
proof (induction ys arbitrary: xs ctx status)
  case Nil
  then show ?case by (simp add: ForEach_loop.simps)
next
  case (Cons y ys)
  from Cons.IH [of "xs @ [y]"] Cons.prems walk_simps [OF Cons.prems] f show ?case
    by (subst ForEach_loop.simps) (simp add: Let_def)
qed

lemma ForEachElementExecute_correct:
  assumes "is_list m h xs" "\<And>x ctx. f x ctx m = Some (st x ctx, up x ctx, m)"
  shows "ForEachElementExecute m h (Some f) ctx allmust =
    (let (s, c) = foreach_spec st up allmust STATUS_SUCCESS ctx xs in Some (s, c, m))"
  using assms(1) ForEach_loop_correct [of f m st up h "[]" xs] assms
  by (simp add: ForEachElementExecute_def is_list_not_NULL is_list_first)

text \<open>The iterator yields the entries one after the other and then \<^verbatim>\<open>NULL\<close>.\<close>

definition iter_at :: "lmem \<Rightarrow> LIST_ITERATOR \<Rightarrow> ADDR \<Rightarrow> ADDR list \<Rightarrow> bool" where
  "iter_at m it h ys \<longleftrightarrow> li_ListHead it = h \<and> li_CurrentEntry it = hd (ys @ [h])
     \<and> (\<exists>xs. is_list m h (xs @ ys))"

lemma ListIteratorInit_correct:
  assumes "is_list m h xs"
  shows "\<exists>it. ListIteratorInit m h = Some it \<and> iter_at m it h xs"
proof -
  have "\<exists>ys. is_list m h (ys @ xs)"
    using assms by (intro exI [of _ "[]"]) simp
  then show ?thesis
    using assms by (simp add: ListIteratorInit_def is_list_not_NULL is_list_first iter_at_def)
qed

lemma ListIteratorNext_end: "iter_at m it h [] \<Longrightarrow> ListIteratorNext m it = Some (NULL, it)"
  by (simp add: iter_at_def ListIteratorNext_def)

lemma ListIteratorNext_step:
  assumes "iter_at m it h (y # ys)"
  shows "\<exists>it'. ListIteratorNext m it = Some (y, it') \<and> iter_at m it' h ys"
proof -
  obtain xs where xs: "is_list m h (xs @ y # ys)"
    using assms by (auto simp: iter_at_def)
  then have "\<exists>zs. is_list m h (zs @ ys)"
    by (intro exI [of _ "xs @ [y]"]) simp
  with walk_simps [OF xs] assms show ?thesis
    by (simp add: iter_at_def ListIteratorNext_def)
qed


section \<open>Ordered lists: the contract between list.c and its compare functions\<close>

text \<open>
  \<^verbatim>\<open>InsertOrderedList\<close> and \<^verbatim>\<open>ListSearchForElement\<close> rely on the compare function's
  documented contract: a negative, zero or positive result as the first element is smaller than,
  equal to or greater than the second. \<open>key\<close> is the value the elements are compared by.
\<close>

locale key_compare =
  fixes cmp :: "'c FUNC_CompareFunction"
    and key :: "ADDR \<Rightarrow> int"
    and valid :: "ADDR \<Rightarrow> bool"
    and c0 :: 'c
  assumes cmp_total: "valid a \<Longrightarrow> valid b \<Longrightarrow> \<exists>r. cmp a b c0 = Some (r, c0)"
    and cmp_less: "valid a \<Longrightarrow> valid b \<Longrightarrow> cmp a b c0 = Some (r, c0) \<Longrightarrow> r < 0 \<longleftrightarrow> key a < key b"
    and cmp_equal: "valid a \<Longrightarrow> valid b \<Longrightarrow> cmp a b c0 = Some (r, c0) \<Longrightarrow> r = 0 \<longleftrightarrow> key a = key b"
begin

lemma cmp_cases:
  assumes "valid a" "valid b"
  obtains r where "cmp a b c0 = Some (r, c0)" "r < 0 \<longleftrightarrow> key a < key b" "r = 0 \<longleftrightarrow> key a = key b"
    "r > 0 \<longleftrightarrow> key a > key b"
proof -
  obtain r where r: "cmp a b c0 = Some (r, c0)" using cmp_total assms by blast
  show ?thesis
    using that [OF r] cmp_less [OF assms r] cmp_equal [OF assms r] by force
qed

lemma InsertOrderedList_loop_correct:
  "is_list m h (xs @ ys) \<Longrightarrow> valid e \<Longrightarrow> list_all valid ys \<Longrightarrow>
   InsertOrderedList_loop m h e cmp c0 (hd (ys @ [h])) =
     Some (hd (dropWhile (\<lambda>x. key x \<le> key e) ys @ [h]), c0)"
proof (induction ys arbitrary: xs)
  case Nil
  then show ?case by (simp add: InsertOrderedList_loop.simps)
next
  case (Cons y ys)
  obtain r where r: "cmp e y c0 = Some (r, c0)" "r < 0 \<longleftrightarrow> key e < key y"
    using cmp_cases [of e y] Cons.prems by auto
  from Cons.IH [of "xs @ [y]"] Cons.prems walk_simps [OF Cons.prems(1)] r show ?case
    by (subst InsertOrderedList_loop.simps) auto
qed

lemma InsertOrderedList_position:
  assumes r: "is_list m h xs" and e: "e \<notin> set (h # xs)" "e \<noteq> NULL" "m e \<noteq> None"
    and v: "valid e" "list_all valid xs"
  shows "\<exists>m'. InsertOrderedList m h e cmp c0 = Some (m', c0)
    \<and> is_list m' h (takeWhile (\<lambda>x. key x \<le> key e) xs @ e # dropWhile (\<lambda>x. key x \<le> key e) xs)
    \<and> untouched m m' (insert e (set (h # xs)))"
proof -
  let ?P = "\<lambda>x. key x \<le> key e"
  have split: "takeWhile ?P xs @ dropWhile ?P xs = xs" by simp
  obtain m' where m': "InsertTailList m (hd (dropWhile ?P xs @ [h])) e = Some m'"
    "is_list m' h (takeWhile ?P xs @ e # dropWhile ?P xs)" "untouched m m' (insert e (set (h # xs)))"
    using InsertTailList_before [of m h "takeWhile ?P xs" "dropWhile ?P xs" e] r e
    by (auto simp: split)
  then show ?thesis
    using InsertOrderedList_loop_correct [of m h "[]" xs e] r v
    by (simp add: InsertOrderedList_def is_list_first)
qed

lemma sorted_insert_position:
  "sorted (map key xs) \<Longrightarrow>
   sorted (map key (takeWhile (\<lambda>x. key x \<le> key e) xs @ e # dropWhile (\<lambda>x. key x \<le> key e) xs))"
proof (induction xs)
  case Nil
  then show ?case by simp
next
  case (Cons x xs)
  let ?P = "\<lambda>x. key x \<le> key e"
  have "set xs = set (takeWhile ?P xs @ dropWhile ?P xs)" by simp
  then have s: "set (takeWhile ?P xs) \<union> set (dropWhile ?P xs) = set xs"
    by (simp del: takeWhile_dropWhile_id)
  show ?case
  proof (cases "?P x")
    case True
    with Cons s show ?thesis by fastforce
  next
    case False
    with Cons.prems show ?thesis by force
  qed
qed

lemma ListSearch_loop_correct:
  "is_list m h (xs @ ys) \<Longrightarrow> valid e \<Longrightarrow> list_all valid ys \<Longrightarrow> ordered \<longrightarrow> sorted (map key ys) \<Longrightarrow>
   ListSearch_loop m h e ordered cmp c0 (hd (ys @ [h])) =
     Some (case find (\<lambda>x. key x = key e) ys of None \<Rightarrow> NULL | Some x \<Rightarrow> x, c0)"
proof (induction ys arbitrary: xs)
  case Nil
  then show ?case by (simp add: ListSearch_loop.simps)
next
  case (Cons y ys)
  obtain r where r: "cmp y e c0 = Some (r, c0)" "r < 0 \<longleftrightarrow> key y < key e"
    "r = 0 \<longleftrightarrow> key y = key e" "r > 0 \<longleftrightarrow> key y > key e"
    using cmp_cases [of y e] Cons.prems by auto
  show ?case
  proof (cases "ordered \<and> r > 0")
    case True
    then have "find (\<lambda>x. key x = key e) ys = None"
      using Cons.prems(4) r(4) by (auto simp: find_None_iff)
    with True show ?thesis
      using walk_simps [OF Cons.prems(1)] r by (subst ListSearch_loop.simps) simp
  next
    case False
    then show ?thesis
      using Cons.IH [of "xs @ [y]"] Cons.prems walk_simps [OF Cons.prems(1)] r
      by (subst ListSearch_loop.simps) (cases "r = 0"; simp; blast)
  qed
qed

lemma ListSearchForElement_finds:
  assumes "is_list m h xs" "valid e" "e \<noteq> NULL" "list_all valid xs" "ordered \<longrightarrow> sorted (map key xs)"
  shows "ListSearchForElement m h e ordered (Some cmp) c0 =
    Some (case find (\<lambda>x. key x = key e) xs of None \<Rightarrow> NULL | Some x \<Rightarrow> x, c0)"
  using assms ListSearch_loop_correct [of m h "[]" xs e ordered]
  by (simp add: ListSearchForElement_def is_list_not_NULL is_list_first)

end

section \<open>Sequences of list operations\<close>

datatype list_op = InsTail ADDR | InsHead ADDR | RemHead | RemTail | RemEntry ADDR

fun list_step :: "ADDR \<Rightarrow> list_op \<Rightarrow> lmem \<Rightarrow> lmem option" where
  "list_step h (InsTail e) m = InsertTailList m h e"
| "list_step h (InsHead e) m = InsertHeadList m h e"
| "list_step h RemHead m = map_option snd (RemoveHeadList m h)"
| "list_step h RemTail m = map_option snd (RemoveTailList m h)"
| "list_step h (RemEntry e) m = map_option snd (RemoveEntryList m e)"

fun list_run :: "ADDR \<Rightarrow> list_op list \<Rightarrow> lmem \<Rightarrow> lmem option" where
  "list_run h [] m = Some m"
| "list_run h (op # ops) m = do { m \<leftarrow> list_step h op m; list_run h ops m }"

text \<open>
  The same operations on the abstract list; an entry may be inserted only when it is not
  linked already and has memory, and only a linked entry may be removed.
\<close>

fun spec_step :: "ADDR \<Rightarrow> ADDR set \<Rightarrow> list_op \<Rightarrow> ADDR list \<Rightarrow> ADDR list option" where
  "spec_step h A (InsTail e) xs = (if e \<in> A - set (h # xs) \<and> e \<noteq> NULL then Some (xs @ [e]) else None)"
| "spec_step h A (InsHead e) xs = (if e \<in> A - set (h # xs) \<and> e \<noteq> NULL then Some (e # xs) else None)"
| "spec_step h A RemHead xs = Some (tl xs)"
| "spec_step h A RemTail xs = Some (butlast xs)"
| "spec_step h A (RemEntry e) xs = (if e \<in> set xs then Some (remove1 e xs) else None)"

fun spec_run :: "ADDR \<Rightarrow> ADDR set \<Rightarrow> list_op list \<Rightarrow> ADDR list \<Rightarrow> ADDR list option" where
  "spec_run h A [] xs = Some xs"
| "spec_run h A (op # ops) xs = do { xs \<leftarrow> spec_step h A op xs; spec_run h A ops xs }"

lemma RemoveTailList_empty:
  assumes "is_list m h []"
  shows "RemoveTailList m h = Some (h, m)"
proof -
  obtain e where "m h = Some e" "Flink e = h" "Blink e = h"
    using assms by (auto simp: is_list_Nil links_def rd_Flink_def rd_Blink_def)
  then have "m(h \<mapsto> e\<lparr>Blink := h, Flink := h\<rparr>) = m"
    by (cases e) (auto simp: fun_eq_iff)
  with \<open>m h = Some e\<close> \<open>Blink e = h\<close> assms show ?thesis
    by (simp add: RemoveTailList_def lmem_simps)
qed

lemma list_step_simulates:
  assumes r: "is_list m h xs" and s: "spec_step h (dom m) op xs = Some ys"
  shows "\<exists>m'. list_step h op m = Some m' \<and> is_list m' h ys \<and> dom m' = dom m"
proof (cases op)
  case (InsTail e)
  with s InsertTailList_correct [OF r, of e] show ?thesis
    by (auto simp: untouched_def dom_def split: if_splits)
next
  case (InsHead e)
  with s InsertHeadList_correct [OF r, of e] show ?thesis
    by (auto simp: untouched_def dom_def split: if_splits)
next
  case RemHead
  with r s RemoveHeadList_empty [of m h] RemoveHeadList_correct [of m h "hd xs" "tl xs"] show ?thesis
    by (cases xs) (auto simp: untouched_def)
next
  case RemTail
  with r s RemoveTailList_empty [of m h] RemoveTailList_correct [of m h "butlast xs" "last xs"]
  show ?thesis by (cases xs rule: rev_cases) (auto simp: untouched_def)
next
  case (RemEntry e)
  with s obtain us vs where xs: "xs = us @ e # vs" "e \<notin> set us"
    by (auto split: if_splits dest: split_list_first)
  with RemEntry s r RemoveEntryList_correct [of m h us e vs] show ?thesis
    by (auto simp: untouched_def remove1_append)
qed


lemma list_run_spec:
  "is_list m h xs \<Longrightarrow> spec_run h (dom m) ops xs = Some ys \<Longrightarrow>
   \<exists>m'. list_run h ops m = Some m' \<and> is_list m' h ys \<and> dom m' = dom m"
proof (induction ops arbitrary: m xs)
  case Nil
  then show ?case by simp
next
  case (Cons op ops)
  from Cons.prems(2) obtain zs where
    zs: "spec_step h (dom m) op xs = Some zs" "spec_run h (dom m) ops zs = Some ys"
    by (auto split: bind_splits)
  from list_step_simulates [OF Cons.prems(1) zs(1)] obtain m' where
    m': "list_step h op m = Some m'" "is_list m' h zs" "dom m' = dom m" by blast
  with Cons.IH [OF m'(2)] zs(2) show ?case by simp
qed

lemma foreach_last_status:
  "xs \<noteq> [] \<Longrightarrow> foreach_spec (\<lambda>x _. st x) (\<lambda>_ c. c) False s ctx xs = (st (last xs), ctx)"
  by (induction xs arbitrary: s) auto

lemma foreach_first_failure:
  "\<forall>x \<in> set us. SUCCEEDED (st x) \<Longrightarrow> \<not> SUCCEEDED (st y) \<Longrightarrow>
   foreach_spec (\<lambda>x _. st x) (\<lambda>x c. x # c) True s ctx (us @ y # vs) = (st y, y # rev us @ ctx)"
  by (induction us arbitrary: s ctx) auto

section \<open>Properties\<close>

definition sample_list_mem :: lmem where
  "sample_list_mem = [0x1000 \<mapsto> \<lparr>Flink = 0x1000, Blink = 0x1000\<rparr>, 0x2000 \<mapsto> \<lparr>Flink = 0, Blink = 0\<rparr>,
     0x3000 \<mapsto> \<lparr>Flink = 0, Blink = 0\<rparr>, 0x4000 \<mapsto> \<lparr>Flink = 0, Blink = 0\<rparr>]"

lemma sample_list_mem_empty: "is_list sample_list_mem 0x1000 []"
  by (simp add: sample_list_mem_def is_list_Nil links_def rd_Flink_def rd_Blink_def)

text \<open>
  C28. Any sequence of insertions at either end, removals at either end and removals of a
  linked entry runs through list.c without a failed assertion or a fault, as long as entries are
  inserted only when unlinked and removed only when linked, and the ring afterwards holds exactly
  what the same operations on a plain list of addresses give.
\<close>

theorem list_operations_refine_sequence:
  assumes "is_list m h xs" and "spec_run h (dom m) ops xs = Some ys"
  shows "\<exists>m'. list_run h ops m = Some m' \<and> is_list m' h ys"
  using list_run_spec [OF assms] by blast

theorem list_operations_refine_sequence_witness:
  "\<exists>m'. list_run 0x1000 [InsTail 0x2000, InsHead 0x3000, InsTail 0x4000, RemEntry 0x2000, RemHead]
      sample_list_mem = Some m' \<and> is_list m' 0x1000 [0x4000]"
  by (rule list_operations_refine_sequence [OF sample_list_mem_empty])
    (simp add: sample_list_mem_def)


text \<open>
  With \<^verbatim>\<open>AllMustSucceed\<close> set, \<^verbatim>\<open>ForEachElementExecute\<close> calls the function on
  the elements in list order, stops at the first element whose call fails and returns that call's
  status; later elements are not visited. The context records the calls made.
\<close>

theorem foreach_stops_at_first_failure:
  assumes "is_list m h (us @ y # vs)"
    and "\<forall>x c. f x c m = Some (st x, x # c, m)"
    and "\<forall>x \<in> set us. SUCCEEDED (st x)" and "\<not> SUCCEEDED (st y)"
  shows "ForEachElementExecute m h (Some f) ctx True = Some (st y, y # rev us @ ctx, m)"
  using assms ForEachElementExecute_correct [of m h "us @ y # vs" f "\<lambda>x _. st x" "\<lambda>x c. x # c"]
  by (simp add: foreach_first_failure)

definition sample_list_mem2 :: lmem where
  "sample_list_mem2 = [0x1000 \<mapsto> \<lparr>Flink = 0x2000, Blink = 0x3000\<rparr>,
     0x2000 \<mapsto> \<lparr>Flink = 0x3000, Blink = 0x1000\<rparr>, 0x3000 \<mapsto> \<lparr>Flink = 0x1000, Blink = 0x2000\<rparr>]"

lemma sample_list_mem2_list: "is_list sample_list_mem2 0x1000 [0x2000, 0x3000]"
  by (simp add: sample_list_mem2_def is_list_def links_def rd_Flink_def rd_Blink_def)

definition sample_status :: "ADDR \<Rightarrow> STATUS" where
  "sample_status x = (if x = 0x3000 then STATUS_INVALID_PARAMETER1 else STATUS_SUCCESS)"

definition sample_callback :: "ADDR list FUNC_ListFunction" where
  "sample_callback x c m = Some (sample_status x, x # c, m)"

theorem foreach_stops_at_first_failure_witness:
  "ForEachElementExecute sample_list_mem2 0x1000 (Some sample_callback) [] True =
     Some (STATUS_INVALID_PARAMETER1, [0x3000, 0x2000], sample_list_mem2)"
proof -
  have "is_list sample_list_mem2 0x1000 ([0x2000] @ 0x3000 # [])"
    using sample_list_mem2_list by simp
  moreover have "\<forall>x c. sample_callback x c sample_list_mem2 = Some (sample_status x, x # c, sample_list_mem2)"
    by (simp add: sample_callback_def)
  moreover have "\<forall>x \<in> set [0x2000]. SUCCEEDED (sample_status x)" "\<not> SUCCEEDED (sample_status 0x3000)"
    by (simp_all add: sample_status_def)
  ultimately have "ForEachElementExecute sample_list_mem2 0x1000 (Some sample_callback) [] True =
     Some (sample_status 0x3000, 0x3000 # rev [0x2000] @ [], sample_list_mem2)"
    by (rule foreach_stops_at_first_failure)
  then show ?thesis by (simp add: sample_status_def)
qed

text \<open>
  Without \<^verbatim>\<open>AllMustSucceed\<close> every element is visited and the returned status is the
  one of the last call alone: the call fails whenever the last element's call fails, even if
  another element succeeded.
\<close>

theorem foreach_returns_last_status:
  assumes "is_list m h xs" and "xs \<noteq> []" and "\<forall>x c. f x c m = Some (st x, c, m)"
  shows "ForEachElementExecute m h (Some f) ctx False = Some (st (last xs), ctx, m)"
  using assms ForEachElementExecute_correct [of m h xs f "\<lambda>x _. st x" "\<lambda>_ c. c"]
  by (simp add: foreach_last_status)

theorem foreach_returns_last_status_witness:
  "ForEachElementExecute sample_list_mem2 0x1000 (Some (\<lambda>x c m. Some (sample_status x, c, m))) () False
     = Some (STATUS_INVALID_PARAMETER1, (), sample_list_mem2)"
  using foreach_returns_last_status [OF sample_list_mem2_list, of "\<lambda>x c m. Some (sample_status x, c, m)"
      sample_status "()"]
  by (simp add: sample_status_def)

end
