(* ===== verification/CL_Bitmap.thy ===== *)
theory CL_Bitmap
  imports Prelude
begin

text \<open>
  \<^verbatim>\<open>CommonLib/src/bitmap.c\<close>: the bitmap behind the physical frame allocator, the process
  identifiers and the reserved virtual memory.

  The buffer a bitmap points to is the list of its bytes, \<open>None\<close> for the null pointer left
  by \<^verbatim>\<open>BitmapPreinit\<close> and \<^verbatim>\<open>BitmapUninit\<close>; an access outside the buffer is a fault.
  Indices and counts are 32-bit words and wrap around as the source's do. The loops count up to
  a 32-bit bound that stays fixed, so their termination measure is the distance to it.
\<close>

section \<open>Structure and initialisation\<close>

record BITMAP =
  BitmapBuffer :: "BYTE list option"
  BufferSize :: DWORD
  BitCount :: DWORD

definition BITMAP_ENTRY_BITS :: DWORD where "BITMAP_ENTRY_BITS = 8"

definition BitmapPreinit :: "DWORD \<Rightarrow> (DWORD \<times> BITMAP) option" where
  "BitmapPreinit NumberOfElements = do {
     ASSERT (NumberOfElements \<noteq> 0);
     let size = ucast (AlignAddressUpper (ucast NumberOfElements) (ucast BITMAP_ENTRY_BITS)
                        div ucast BITMAP_ENTRY_BITS);
     Some (size, \<lparr>BitmapBuffer = None, BufferSize = size, BitCount = NumberOfElements\<rparr>)
   }"

text \<open>\<open>buf\<close> is the memory the caller passes; it must hold \<^verbatim>\<open>BufferSize\<close> bytes.\<close>

definition BitmapInitEx :: "BITMAP \<Rightarrow> BYTE list \<Rightarrow> bool \<Rightarrow> BITMAP option" where
  "BitmapInitEx Bitmap buf Set = do {
     ASSERT (unat (BufferSize Bitmap) \<le> length buf);
     let n = unat (BufferSize Bitmap);
     Some (Bitmap\<lparr>BitmapBuffer := Some (replicate n (if Set then MAX_BYTE else 0) @ drop n buf)\<rparr>)
   }"

definition BitmapUninit :: "BITMAP \<Rightarrow> BITMAP" where
  "BitmapUninit Bitmap = \<lparr>BitmapBuffer = None, BufferSize = 0, BitCount = 0\<rparr>"

definition BitmapGetMaxElementCount :: "BITMAP \<Rightarrow> DWORD" where
  "BitmapGetMaxElementCount Bitmap = BitCount Bitmap"

section \<open>Single bits\<close>

definition rd_byte :: "BYTE list \<Rightarrow> DWORD \<Rightarrow> BYTE option" where
  "rd_byte buf i = (if unat i < length buf then Some (buf ! unat i) else None)"

definition wr_byte :: "BYTE list \<Rightarrow> DWORD \<Rightarrow> BYTE \<Rightarrow> BYTE list option" where
  "wr_byte buf i v = (if unat i < length buf then Some (buf[unat i := v]) else None)"

type_synonym pbuf = "BYTE list option"

definition BitmapChangeBit :: "pbuf \<Rightarrow> DWORD \<Rightarrow> bool \<Rightarrow> pbuf option" where
  "BitmapChangeBit Buffer Index Set = do {
     ASSERT (Buffer \<noteq> None);
     buf \<leftarrow> Buffer;
     let byteIndex = Index div BITMAP_ENTRY_BITS;
     let bitIndex = Index mod BITMAP_ENTRY_BITS;
     v \<leftarrow> rd_byte buf byteIndex;
     buf \<leftarrow> (if Set then wr_byte buf byteIndex (v OR push_bit (unat bitIndex) 1)
            else wr_byte buf byteIndex (v AND NOT (push_bit (unat bitIndex) 1)));
     Some (Some buf)
   }"

function BitmapChangeBits_loop :: "pbuf \<Rightarrow> DWORD \<Rightarrow> bool \<Rightarrow> DWORD \<Rightarrow> DWORD \<Rightarrow> pbuf option" where
  "BitmapChangeBits_loop Buffer Index Set Count i =
     (if i < Count then do {
        Buffer \<leftarrow> BitmapChangeBit Buffer (Index + i) Set;
        BitmapChangeBits_loop Buffer Index Set Count (i + 1)
      }
      else Some Buffer)"
  by pat_completeness auto
termination
  by (relation "measure (\<lambda>(Buffer, Index, Set, Count, i). unat Count - unat i)")
    (auto simp: word_less_nat_alt unat_inc_below)

definition BitmapChangeBits :: "pbuf \<Rightarrow> DWORD \<Rightarrow> bool \<Rightarrow> DWORD \<Rightarrow> pbuf option" where
  "BitmapChangeBits Buffer Index Set Count = BitmapChangeBits_loop Buffer Index Set Count 0"

definition BitmapGetBit :: "pbuf \<Rightarrow> DWORD \<Rightarrow> bool option" where
  "BitmapGetBit Buffer Index = do {
     ASSERT (Buffer \<noteq> None);
     buf \<leftarrow> Buffer;
     let byteIndex = Index div BITMAP_ENTRY_BITS;
     let bitIndex = Index mod BITMAP_ENTRY_BITS;
     v \<leftarrow> rd_byte buf byteIndex;
     Some (IsBooleanFlagOn v (push_bit (unat bitIndex) 1))
   }"

definition BitmapSetBitValue :: "BITMAP \<Rightarrow> DWORD \<Rightarrow> bool \<Rightarrow> BITMAP option" where
  "BitmapSetBitValue Bitmap Index Set = do {
     ASSERT (Index < BitCount Bitmap);
     Buffer \<leftarrow> BitmapChangeBit (BitmapBuffer Bitmap) Index Set;
     Some (Bitmap\<lparr>BitmapBuffer := Buffer\<rparr>)
   }"

definition BitmapGetBitValue :: "BITMAP \<Rightarrow> DWORD \<Rightarrow> bool option" where
  "BitmapGetBitValue Bitmap Index = do {
     ASSERT (Index < BitCount Bitmap);
     BitmapGetBit (BitmapBuffer Bitmap) Index
   }"

definition BitmapSetBitsValue :: "BITMAP \<Rightarrow> DWORD \<Rightarrow> DWORD \<Rightarrow> bool \<Rightarrow> BITMAP option" where
  "BitmapSetBitsValue Bitmap Index Count Set = do {
     ASSERT (Index < BitCount Bitmap);
     ASSERT (BitCount Bitmap - Count \<ge> Index);
     Buffer \<leftarrow> BitmapChangeBits (BitmapBuffer Bitmap) Index Set Count;
     Some (Bitmap\<lparr>BitmapBuffer := Buffer\<rparr>)
   }"

abbreviation BitmapSetBits :: "BITMAP \<Rightarrow> DWORD \<Rightarrow> DWORD \<Rightarrow> BITMAP option" where
  "BitmapSetBits Bitmap Index Count \<equiv> BitmapSetBitsValue Bitmap Index Count True"

abbreviation BitmapClearBits :: "BITMAP \<Rightarrow> DWORD \<Rightarrow> DWORD \<Rightarrow> BITMAP option" where
  "BitmapClearBits Bitmap Index Count \<equiv> BitmapSetBitsValue Bitmap Index Count False"

section \<open>Scanning\<close>

function BitmapMatch_loop :: "pbuf \<Rightarrow> DWORD \<Rightarrow> DWORD \<Rightarrow> bool \<Rightarrow> DWORD \<Rightarrow> bool option" where
  "BitmapMatch_loop Buffer i ConsecutiveBits Set j =
     (if j < ConsecutiveBits then do {
        b \<leftarrow> BitmapGetBit Buffer (i + j);
        if Set \<noteq> b then Some False
        else BitmapMatch_loop Buffer i ConsecutiveBits Set (j + 1)
      }
      else Some True)"
  by pat_completeness auto
termination
  by (relation "measure (\<lambda>(Buffer, i, ConsecutiveBits, Set, j). unat ConsecutiveBits - unat j)")
    (auto simp: word_less_nat_alt unat_inc_below)

text \<open>
  The outer loop runs while \<open>i \<le> lastIndex\<close>, which alone does not end it: for the largest
  32-bit \<open>lastIndex\<close> the counter would wrap around. \<open>scan_loop_result\<close> below shows
  that it ends under what \<^verbatim>\<open>_BitmapScanInternal\<close> asserts.
\<close>

partial_function (option) BitmapScan_loop ::
  "pbuf \<Rightarrow> DWORD \<Rightarrow> DWORD \<Rightarrow> bool \<Rightarrow> DWORD \<Rightarrow> DWORD option" where
  "BitmapScan_loop Buffer lastIndex ConsecutiveBits Set i =
     (if i \<le> lastIndex then do {
        found \<leftarrow> BitmapMatch_loop Buffer i ConsecutiveBits Set 0;
        if found then Some i
        else BitmapScan_loop Buffer lastIndex ConsecutiveBits Set (i + 1)
      }
      else Some MAX_DWORD)"

definition BitmapScanInternal :: "BITMAP \<Rightarrow> DWORD \<Rightarrow> DWORD \<Rightarrow> DWORD \<Rightarrow> bool \<Rightarrow> DWORD option" where
  "BitmapScanInternal Bitmap StartIndex FirstInvalidBitIndex ConsecutiveBits Set = do {
     ASSERT (ConsecutiveBits \<noteq> 0);
     ASSERT (StartIndex \<le> FirstInvalidBitIndex);
     ASSERT (FirstInvalidBitIndex \<le> BitCount Bitmap);
     if FirstInvalidBitIndex - StartIndex < ConsecutiveBits then Some MAX_DWORD
     else do {
       let lastIndex = FirstInvalidBitIndex - ConsecutiveBits;
       let firstIndex = StartIndex;
       BitmapScan_loop (BitmapBuffer Bitmap) lastIndex ConsecutiveBits Set firstIndex
     }
   }"

definition BitmapScanFromTo :: "BITMAP \<Rightarrow> DWORD \<Rightarrow> DWORD \<Rightarrow> DWORD \<Rightarrow> bool \<Rightarrow> DWORD option" where
  "BitmapScanFromTo Bitmap Index FirstInvalidBitIndex ConsecutiveBits Set =
     (if ConsecutiveBits = 0 then Some MAX_DWORD
      else if Index > FirstInvalidBitIndex \<or> FirstInvalidBitIndex > BitCount Bitmap then Some MAX_DWORD
      else BitmapScanInternal Bitmap Index FirstInvalidBitIndex ConsecutiveBits Set)"

definition BitmapScanFrom :: "BITMAP \<Rightarrow> DWORD \<Rightarrow> DWORD \<Rightarrow> bool \<Rightarrow> DWORD option" where
  "BitmapScanFrom Bitmap Index ConsecutiveBits Set =
     BitmapScanFromTo Bitmap Index (BitCount Bitmap) ConsecutiveBits Set"

definition BitmapScan :: "BITMAP \<Rightarrow> DWORD \<Rightarrow> bool \<Rightarrow> DWORD option" where
  "BitmapScan Bitmap ConsecutiveBits Set =
     BitmapScanFromTo Bitmap 0 (BitCount Bitmap) ConsecutiveBits Set"

definition BitmapScanFromToAndFlip ::
  "BITMAP \<Rightarrow> DWORD \<Rightarrow> DWORD \<Rightarrow> DWORD \<Rightarrow> bool \<Rightarrow> (DWORD \<times> BITMAP) option" where
  "BitmapScanFromToAndFlip Bitmap Index FirstInvalidBitIndex ConsecutiveBits Set =
     (if ConsecutiveBits = 0 then Some (MAX_DWORD, Bitmap)
      else if Index > FirstInvalidBitIndex \<or> FirstInvalidBitIndex > BitCount Bitmap
           then Some (MAX_DWORD, Bitmap)
      else do {
        bitmapIndex \<leftarrow> BitmapScanInternal Bitmap Index FirstInvalidBitIndex ConsecutiveBits Set;
        if bitmapIndex = MAX_DWORD then Some (MAX_DWORD, Bitmap)
        else do {
          Buffer \<leftarrow> BitmapChangeBits (BitmapBuffer Bitmap) bitmapIndex (\<not> Set) ConsecutiveBits;
          Some (bitmapIndex, Bitmap\<lparr>BitmapBuffer := Buffer\<rparr>)
        }
      })"

definition BitmapScanFromAndFlip :: "BITMAP \<Rightarrow> DWORD \<Rightarrow> DWORD \<Rightarrow> bool \<Rightarrow> (DWORD \<times> BITMAP) option" where
  "BitmapScanFromAndFlip Bitmap Index ConsecutiveBits Set =
     BitmapScanFromToAndFlip Bitmap Index (BitCount Bitmap) ConsecutiveBits Set"

definition BitmapScanAndFlip :: "BITMAP \<Rightarrow> DWORD \<Rightarrow> bool \<Rightarrow> (DWORD \<times> BITMAP) option" where
  "BitmapScanAndFlip Bitmap ConsecutiveBits Set =
     BitmapScanFromToAndFlip Bitmap 0 (BitCount Bitmap) ConsecutiveBits Set"

section \<open>The bits of a bitmap\<close>

declare BitmapChangeBits_loop.simps [simp del] BitmapMatch_loop.simps [simp del]

definition bits_of :: "BYTE list \<Rightarrow> nat \<Rightarrow> bool" where
  "bits_of buf k \<longleftrightarrow> bit (buf ! (k div 8)) (k mod 8)"

definition bitmap_ok :: "BITMAP \<Rightarrow> bool" where
  "bitmap_ok b \<longleftrightarrow> (case BitmapBuffer b of
     None \<Rightarrow> False | Some buf \<Rightarrow> unat (BitCount b) \<le> 8 * length buf)"

definition bm_bit :: "BITMAP \<Rightarrow> nat \<Rightarrow> bool" where
  "bm_bit b k \<longleftrightarrow> bits_of (the (BitmapBuffer b)) k"

definition bm_used :: "BITMAP \<Rightarrow> nat set" where
  "bm_used b = {k. k < unat (BitCount b) \<and> bm_bit b k}"

definition run_at :: "BITMAP \<Rightarrow> bool \<Rightarrow> nat \<Rightarrow> nat \<Rightarrow> bool" where
  "run_at b v i n \<longleftrightarrow> (\<forall>k. i \<le> k \<and> k < i + n \<longrightarrow> bm_bit b k = v)"

lemma unat_index_split:
  "unat ((i::DWORD) div BITMAP_ENTRY_BITS) = unat i div 8"
  "unat (i mod BITMAP_ENTRY_BITS) = unat i mod 8"
  by (simp_all add: BITMAP_ENTRY_BITS_def unat_div unat_mod)

lemma flag_on_bit: "IsBooleanFlagOn (v::BYTE) (2 ^ k) \<longleftrightarrow> (k < 8 \<longrightarrow> bit v k)"
proof -
  have "((2::BYTE) ^ k = v AND 2 ^ k) \<longleftrightarrow> (\<forall>j < 8. j = k \<longrightarrow> bit v j)"
    by (auto simp: bit_eq_iff bit_simps)
  then show ?thesis by (auto simp: IsBooleanFlagOn_def)
qed

lemma BitmapGetBit_result:
  assumes "unat i < 8 * length buf"
  shows "BitmapGetBit (Some buf) i = Some (bits_of buf (unat i))"
proof -
  have "unat i div 8 < length buf" using assms by (simp add: less_mult_imp_div_less mult.commute)
  then show ?thesis
    by (simp add: BitmapGetBit_def unat_index_split rd_byte_def flag_on_bit bits_of_def)
qed

lemma BitmapChangeBit_result:
  assumes "unat i < 8 * length buf"
  shows "\<exists>buf'. BitmapChangeBit (Some buf) i v = Some (Some buf') \<and> length buf' = length buf
    \<and> (\<forall>k < 8 * length buf. bits_of buf' k = (if k = unat i then v else bits_of buf k))"
proof -
  let ?B = "unat i div 8" let ?b = "unat i mod 8"
  have B: "?B < length buf" using assms by (simp add: less_mult_imp_div_less mult.commute)
  have "bits_of (buf[?B := (if v then buf ! ?B OR push_bit ?b 1 else buf ! ?B AND NOT (push_bit ?b 1))]) k
      = (if k = unat i then v else bits_of buf k)" for k
  proof (cases "k div 8 = ?B")
    case True
    then have "k = unat i \<longleftrightarrow> k mod 8 = ?b" by (metis div_mult_mod_eq)
    then show ?thesis
      using True B by (auto simp: bits_of_def bit_simps)
  next
    case False
    then show ?thesis by (auto simp: bits_of_def)
  qed
  with B show ?thesis
    by (cases v) (simp_all add: BitmapChangeBit_def unat_index_split rd_byte_def wr_byte_def)
qed

lemma BitmapChangeBits_loop_result:
  "unat Index + unat Count \<le> 8 * length buf \<Longrightarrow> unat Index + unat Count < 2 ^ 32 \<Longrightarrow> i \<le> Count \<Longrightarrow>
   \<exists>buf'. BitmapChangeBits_loop (Some buf) Index v Count i = Some (Some buf') \<and> length buf' = length buf
    \<and> (\<forall>k < 8 * length buf. bits_of buf' k =
         (if unat Index + unat i \<le> k \<and> k < unat Index + unat Count then v else bits_of buf k))"
proof (induction "unat Count - unat i" arbitrary: i buf)
  case 0
  then have "i = Count" by (simp add: word_le_nat_alt word_unat_eq_iff)
  then show ?case by (subst BitmapChangeBits_loop.simps) auto
next
  case (Suc n)
  then have lt: "i < Count" by (simp add: word_less_nat_alt)
  then have inc: "unat (i + 1) = Suc (unat i)" by (rule unat_inc_below)
  have idx: "unat (Index + i) = unat Index + unat i"
    using Suc.prems lt by (simp add: unat_word_ariths word_less_nat_alt)
  obtain buf1 where b1: "BitmapChangeBit (Some buf) (Index + i) v = Some (Some buf1)"
    "length buf1 = length buf"
    "\<forall>k < 8 * length buf. bits_of buf1 k = (if k = unat Index + unat i then v else bits_of buf k)"
    using BitmapChangeBit_result [of "Index + i" buf v] Suc.prems lt idx
    by (auto simp: word_less_nat_alt)
  have "n = unat Count - unat (i + 1)" "i + 1 \<le> Count"
    using Suc.hyps(2) inc lt by (auto simp: word_le_nat_alt word_less_nat_alt)
  with Suc.hyps(1) [of "i + 1" buf1] b1(2) Suc.prems obtain buf2 where
    b2: "BitmapChangeBits_loop (Some buf1) Index v Count (i + 1) = Some (Some buf2)"
    "length buf2 = length buf"
    "\<forall>k < 8 * length buf. bits_of buf2 k =
       (if Suc (unat Index + unat i) \<le> k \<and> k < unat Index + unat Count then v else bits_of buf1 k)"
    by (auto simp: inc)
  show ?case
    using lt b1 b2 by (subst BitmapChangeBits_loop.simps) (auto simp: word_less_nat_alt)
qed


lemma BitmapMatch_loop_result:
  "unat i + unat n \<le> 8 * length buf \<Longrightarrow> unat i + unat n < 2 ^ 32 \<Longrightarrow> j \<le> n \<Longrightarrow>
   BitmapMatch_loop (Some buf) i n v j =
     Some (\<forall>k. unat i + unat j \<le> k \<and> k < unat i + unat n \<longrightarrow> bits_of buf k = v)"
proof (induction "unat n - unat j" arbitrary: j)
  case 0
  then have "j = n" by (simp add: word_le_nat_alt word_unat_eq_iff)
  then show ?case by (subst BitmapMatch_loop.simps) auto
next
  case (Suc d)
  then have lt: "j < n" by (simp add: word_less_nat_alt)
  then have inc: "unat (j + 1) = Suc (unat j)" by (rule unat_inc_below)
  have idx: "unat (i + j) = unat i + unat j"
    using Suc.prems lt by (simp add: unat_word_ariths word_less_nat_alt)
  then have get: "BitmapGetBit (Some buf) (i + j) = Some (bits_of buf (unat i + unat j))"
    using BitmapGetBit_result [of "i + j" buf] Suc.prems lt by (simp add: word_less_nat_alt)
  have "d = unat n - unat (j + 1)" "j + 1 \<le> n"
    using Suc.hyps(2) inc lt by (auto simp: word_le_nat_alt word_less_nat_alt)
  then have IH: "BitmapMatch_loop (Some buf) i n v (j + 1) =
      Some (\<forall>k. Suc (unat i + unat j) \<le> k \<and> k < unat i + unat n \<longrightarrow> bits_of buf k = v)"
    using Suc.hyps(1) [of "j + 1"] Suc.prems by (simp add: inc)
  have split: "(\<forall>k. unat i + unat j \<le> k \<and> k < unat i + unat n \<longrightarrow> bits_of buf k = v) \<longleftrightarrow>
      bits_of buf (unat i + unat j) = v
      \<and> (\<forall>k. Suc (unat i + unat j) \<le> k \<and> k < unat i + unat n \<longrightarrow> bits_of buf k = v)"
    using lt by (intro all_range_split) (simp add: word_less_nat_alt)
  show ?case
    using lt get IH by (subst BitmapMatch_loop.simps) (auto simp: split)
qed

text \<open>The result of a scan: the first position from \<open>i\<close> on where a run starts.\<close>

lemma scan_loop_result:
  assumes n: "n \<noteq> 0" and cap: "unat l + unat n \<le> 8 * length buf" "unat l + unat n < 2 ^ 32"
  shows "\<exists>r. BitmapScan_loop (Some buf) l n v i = Some r
    \<and> (r = MAX_DWORD \<and> (\<forall>p. unat i \<le> p \<and> p \<le> unat l \<longrightarrow> (\<exists>k. p \<le> k \<and> k < p + unat n \<and> bits_of buf k \<noteq> v))
       \<or> i \<le> r \<and> r \<le> l \<and> (\<forall>k. unat r \<le> k \<and> k < unat r + unat n \<longrightarrow> bits_of buf k = v)
         \<and> (\<forall>p. unat i \<le> p \<and> p < unat r \<longrightarrow> (\<exists>k. p \<le> k \<and> k < p + unat n \<and> bits_of buf k \<noteq> v)))"
proof (induction "Suc (unat l) - unat i" arbitrary: i)
  case 0
  then have "\<not> i \<le> l" by (simp add: word_le_nat_alt)
  then show ?case by (subst BitmapScan_loop.simps) (auto simp: word_le_nat_alt)
next
  case (Suc d)
  then have le: "i \<le> l" by (simp add: word_le_nat_alt)
  have "unat n \<noteq> 0" using n by (simp add: unat_eq_0)
  then have "unat i < unat (MAX_DWORD :: DWORD)"
    using le cap(2) by (simp add: word_le_nat_alt MAX_DWORD_def)
  then have inc: "unat (i + 1) = Suc (unat i)"
    by (intro unat_inc_below [of i MAX_DWORD]) (simp add: word_less_nat_alt)
  have m: "BitmapMatch_loop (Some buf) i n v 0 =
      Some (\<forall>k. unat i \<le> k \<and> k < unat i + unat n \<longrightarrow> bits_of buf k = v)"
    using BitmapMatch_loop_result [of i n buf 0 v] cap le by (simp add: word_le_nat_alt)
  show ?case
  proof (cases "\<forall>k. unat i \<le> k \<and> k < unat i + unat n \<longrightarrow> bits_of buf k = v")
    case True
    with le m show ?thesis by (subst BitmapScan_loop.simps) auto
  next
    case False
    have "d = Suc (unat l) - unat (i + 1)" using Suc.hyps(2) inc by simp
    from Suc.hyps(1) [OF this] obtain r where
      r: "BitmapScan_loop (Some buf) l n v (i + 1) = Some r"
        "r = MAX_DWORD \<and> (\<forall>p. unat i < p \<and> p \<le> unat l \<longrightarrow> (\<exists>k. p \<le> k \<and> k < p + unat n \<and> bits_of buf k \<noteq> v))
         \<or> unat i < unat r \<and> r \<le> l \<and> (\<forall>k. unat r \<le> k \<and> k < unat r + unat n \<longrightarrow> bits_of buf k = v)
           \<and> (\<forall>p. unat i < p \<and> p < unat r \<longrightarrow> (\<exists>k. p \<le> k \<and> k < p + unat n \<and> bits_of buf k \<noteq> v))"
      by (auto simp: inc word_le_nat_alt Suc_le_eq)
    have step: "BitmapScan_loop (Some buf) l n v i = Some r"
      using le m False r(1) by (subst BitmapScan_loop.simps) auto
    have bad: "\<exists>k. p \<le> k \<and> k < p + unat n \<and> bits_of buf k \<noteq> v" if "p = unat i" for p
      using False that by auto
    from r(2) show ?thesis
    proof
      assume "r = MAX_DWORD \<and> (\<forall>p. unat i < p \<and> p \<le> unat l \<longrightarrow> (\<exists>k. p \<le> k \<and> k < p + unat n \<and> bits_of buf k \<noteq> v))"
      then show ?thesis using step bad by (metis le_neq_implies_less)
    next
      assume "unat i < unat r \<and> r \<le> l \<and> (\<forall>k. unat r \<le> k \<and> k < unat r + unat n \<longrightarrow> bits_of buf k = v)
           \<and> (\<forall>p. unat i < p \<and> p < unat r \<longrightarrow> (\<exists>k. p \<le> k \<and> k < p + unat n \<and> bits_of buf k \<noteq> v))"
      then show ?thesis using step bad by (metis le_neq_implies_less less_imp_le word_le_nat_alt)
    qed
  qed
qed


section \<open>What the operations do to the bits\<close>

definition same_shape :: "BITMAP \<Rightarrow> BITMAP \<Rightarrow> bool" where
  "same_shape b b' \<longleftrightarrow> BitCount b' = BitCount b \<and> BufferSize b' = BufferSize b
     \<and> map_option length (BitmapBuffer b') = map_option length (BitmapBuffer b)"

lemma bitmap_okE:
  assumes "bitmap_ok b"
  obtains buf where "BitmapBuffer b = Some buf" "unat (BitCount b) \<le> 8 * length buf"
    "bm_bit b = bits_of buf"
  using assms by (cases "BitmapBuffer b") (auto simp: bitmap_ok_def bm_bit_def fun_eq_iff)

lemma bitmap_ok_same_shape: "bitmap_ok b \<Longrightarrow> same_shape b b' \<Longrightarrow> bitmap_ok b'"
  by (auto simp: bitmap_ok_def same_shape_def split: option.splits)

lemma BitmapPreinit_size:
  assumes "n \<noteq> 0" "BitmapPreinit n = Some (sz, b)"
  shows "unat sz = (unat n + 7) div 8"
proof -
  have e3: "(ucast BITMAP_ENTRY_BITS :: QWORD) = 2 ^ 3"
    by (simp add: BITMAP_ENTRY_BITS_def)
  have up: "unat (ucast n + (8::QWORD) - 1) = unat n + 7"
  proof -
    have "unat (ucast n + (7::QWORD)) = unat n + 7"
      using unat32_bound [of n] by (simp add: unat_word_ariths)
    then show ?thesis by (simp add: add.commute)
  qed
  have "unat (AlignAddressUpper (ucast n) (ucast BITMAP_ENTRY_BITS)) = (unat n + 7) - (unat n + 7) mod 8"
    using AlignAddressLower_unat [OF e3, of "ucast n + 8 - 1"] up e3 by (simp add: AlignAddressUpper_def)
  then have "unat (AlignAddressUpper (ucast n) (ucast BITMAP_ENTRY_BITS) div ucast BITMAP_ENTRY_BITS)
      = (unat n + 7) div 8"
    by (simp add: e3 unat_div minus_mod_eq_div_mult)
  moreover have "(unat n + 7) div 8 < 2 ^ 32"
    using unat32_bound [of n] by simp
  ultimately show ?thesis
    using assms by (auto simp: BitmapPreinit_def Let_def unat_ucast_mod)
qed

lemma BitmapPreinit_Init_ok:
  assumes "n \<noteq> 0" "BitmapPreinit n = Some (sz, b)" "unat sz \<le> length buf" "BitmapInitEx b buf v = Some b'"
  shows "bitmap_ok b' \<and> BitCount b' = n \<and> (\<forall>k < unat n. bm_bit b' k = v)"
proof -
  note sz = BitmapPreinit_size [OF assms(1,2)]
  have b': "BitmapBuffer b' = Some (replicate (unat sz) (if v then MAX_BYTE else 0) @ drop (unat sz) buf)"
    "BitCount b' = n"
    using assms by (auto simp: BitmapPreinit_def BitmapInitEx_def Let_def)
  have "bit (if v then MAX_BYTE else 0) (k mod 8) = v" for k
    by (simp add: bit_MAX_BYTE)
  then have "\<forall>k < unat n. bm_bit b' k = v"
    using b' sz by (auto simp: bm_bit_def bits_of_def nth_append)
  moreover have "bitmap_ok b'"
    using b' sz assms(3) by (simp add: bitmap_ok_def)
  ultimately show ?thesis using b' by blast
qed

lemma BitmapChangeBits_bm:
  assumes ok: "bitmap_ok b" and r: "unat i + unat n \<le> unat (BitCount b)"
  shows "\<exists>buf'. BitmapChangeBits (BitmapBuffer b) i v n = Some buf'
    \<and> same_shape b (b\<lparr>BitmapBuffer := buf'\<rparr>)
    \<and> (\<forall>k < unat (BitCount b). bm_bit (b\<lparr>BitmapBuffer := buf'\<rparr>) k =
         (if unat i \<le> k \<and> k < unat i + unat n then v else bm_bit b k))"
proof -
  obtain buf where buf: "BitmapBuffer b = Some buf" "unat (BitCount b) \<le> 8 * length buf"
    "bm_bit b = bits_of buf" using ok by (rule bitmap_okE)
  have "unat i + unat n \<le> 8 * length buf" "unat i + unat n < 2 ^ 32"
    using r buf(2) unat32_bound [of "BitCount b"] by simp_all
  from BitmapChangeBits_loop_result [OF this, of 0 v] obtain buf' where
    "BitmapChangeBits_loop (Some buf) i v n 0 = Some (Some buf')" "length buf' = length buf"
    "\<forall>k < 8 * length buf. bits_of buf' k = (if unat i \<le> k \<and> k < unat i + unat n then v else bits_of buf k)"
    by auto
  with buf show ?thesis
    by (auto simp: BitmapChangeBits_def same_shape_def bm_bit_def)
qed

lemma BitmapSetBitsValue_result:
  assumes ok: "bitmap_ok b" and i: "i < BitCount b" and r: "unat i + unat n \<le> unat (BitCount b)"
  shows "\<exists>b'. BitmapSetBitsValue b i n v = Some b' \<and> same_shape b b' \<and> bitmap_ok b'
    \<and> (\<forall>k < unat (BitCount b). bm_bit b' k = (if unat i \<le> k \<and> k < unat i + unat n then v else bm_bit b k))"
proof -
  have "n \<le> BitCount b" using r by (simp add: word_le_nat_alt)
  then have "unat (BitCount b - n) = unat (BitCount b) - unat n" by (rule unat_sub)
  then have "BitCount b - n \<ge> i" using r by (simp add: word_le_nat_alt)
  with BitmapChangeBits_bm [OF ok r, of v] i bitmap_ok_same_shape [OF ok] show ?thesis
    by (auto simp: BitmapSetBitsValue_def)
qed

lemma BitmapScanInternal_result:
  assumes ok: "bitmap_ok b" and n: "n \<noteq> 0" and se: "s \<le> e" and e: "e \<le> BitCount b"
  shows "\<exists>r. BitmapScanInternal b s e n v = Some r
    \<and> (r = MAX_DWORD \<and> (\<forall>p. unat s \<le> p \<and> p + unat n \<le> unat e \<longrightarrow> \<not> run_at b v p (unat n))
       \<or> r \<noteq> MAX_DWORD \<and> s \<le> r \<and> unat r + unat n \<le> unat e \<and> run_at b v (unat r) (unat n)
         \<and> (\<forall>p. unat s \<le> p \<and> p < unat r \<longrightarrow> \<not> run_at b v p (unat n)))"
proof (cases "e - s < n")
  case True
  then have "unat e - unat s < unat n"
    using se by (simp add: word_less_nat_alt unat_sub)
  then have "\<forall>p. unat s \<le> p \<and> p + unat n \<le> unat e \<longrightarrow> \<not> run_at b v p (unat n)" by auto
  with True n se e show ?thesis by (simp add: BitmapScanInternal_def)
next
  case False
  obtain buf where buf: "BitmapBuffer b = Some buf" "unat (BitCount b) \<le> 8 * length buf"
    "bm_bit b = bits_of buf" using ok by (rule bitmap_okE)
  have ne: "unat n \<le> unat e - unat s"
    using False se by (simp add: word_less_nat_alt unat_sub)
  then have "unat (e - n) = unat e - unat n"
    by (intro unat_sub) (simp add: word_le_nat_alt)
  then have last: "unat (e - n) + unat n = unat e" using ne by simp
  have "unat e \<le> 8 * length buf" "unat e < 2 ^ 32"
    using e buf(2) unat32_bound [of e] by (simp_all add: word_le_nat_alt)
  with scan_loop_result [OF n, of "e - n" buf v s] last obtain r where
    r: "BitmapScan_loop (Some buf) (e - n) n v s = Some r"
      "r = MAX_DWORD \<and> (\<forall>p. unat s \<le> p \<and> p \<le> unat (e - n) \<longrightarrow> \<not> run_at b v p (unat n))
       \<or> s \<le> r \<and> r \<le> e - n \<and> run_at b v (unat r) (unat n)
         \<and> (\<forall>p. unat s \<le> p \<and> p < unat r \<longrightarrow> \<not> run_at b v p (unat n))"
    unfolding run_at_def buf(3) by (metis (no_types, lifting))
  have "unat n \<noteq> 0" using n by (simp add: unat_eq_0)
  then have "r \<le> e - n \<Longrightarrow> r \<noteq> MAX_DWORD"
    using last \<open>unat e < 2 ^ 32\<close> by (auto simp: word_le_nat_alt MAX_DWORD_def)
  moreover have "r \<le> e - n \<longleftrightarrow> unat r + unat n \<le> unat e"
    using last by (auto simp: word_le_nat_alt)
  moreover have "p \<le> unat (e - n) \<longleftrightarrow> p + unat n \<le> unat e" for p
    using last by auto
  moreover have "BitmapScanInternal b s e n v = Some r"
    using False n se e r(1) buf(1) by (simp add: BitmapScanInternal_def)
  ultimately show ?thesis using r(2) by auto
qed


lemma run_at_free:
  assumes "run_at b False i n" "i + n \<le> unat (BitCount b)"
  shows "{i..<i + n} \<inter> bm_used b = {}"
  using assms by (auto simp: run_at_def bm_used_def)

lemma bm_used_changed:
  assumes "BitCount b' = BitCount b"
    and "\<forall>k < unat (BitCount b). bm_bit b' k = (if i \<le> k \<and> k < i + n then v else bm_bit b k)"
    and "i + n \<le> unat (BitCount b)"
  shows "bm_used b' = (if v then bm_used b \<union> {i..<i + n} else bm_used b - {i..<i + n})"
  using assms by (auto simp: bm_used_def split: if_splits)

text \<open>Taking the first run of free bits from \<open>s\<close> on.\<close>

lemma BitmapScanFromAndFlip_result:
  assumes ok: "bitmap_ok b" and n: "n \<noteq> 0"
  shows "\<exists>r b'. BitmapScanFromAndFlip b s n False = Some (r, b') \<and> bitmap_ok b' \<and> same_shape b b'
    \<and> (r = MAX_DWORD \<and> b' = b
         \<and> (\<forall>p. unat s \<le> p \<and> p + unat n \<le> unat (BitCount b) \<longrightarrow> {p..<p + unat n} \<inter> bm_used b \<noteq> {})
       \<or> r \<noteq> MAX_DWORD \<and> s \<le> r \<and> unat r + unat n \<le> unat (BitCount b)
         \<and> {unat r..<unat r + unat n} \<inter> bm_used b = {}
         \<and> bm_used b' = bm_used b \<union> {unat r..<unat r + unat n}
         \<and> (\<forall>p. unat s \<le> p \<and> p < unat r \<longrightarrow> {p..<p + unat n} \<inter> bm_used b \<noteq> {}))"
proof (cases "s > BitCount b")
  case True
  then have "BitmapScanFromAndFlip b s n False = Some (MAX_DWORD, b)"
    using n by (simp add: BitmapScanFromAndFlip_def BitmapScanFromToAndFlip_def)
  moreover have "unat n \<noteq> 0" using n by (simp add: unat_eq_0)
  ultimately show ?thesis
    using True ok by (auto simp: same_shape_def word_less_nat_alt)
next
  case False
  have no_run: "{p..<p + unat n} \<inter> bm_used b \<noteq> {}"
    if "\<not> run_at b False p (unat n)" "p + unat n \<le> unat (BitCount b)" for p
    using that by (fastforce simp: run_at_def bm_used_def)
  obtain r where r: "BitmapScanInternal b s (BitCount b) n False = Some r"
    "r = MAX_DWORD \<and> (\<forall>p. unat s \<le> p \<and> p + unat n \<le> unat (BitCount b) \<longrightarrow> \<not> run_at b False p (unat n))
       \<or> r \<noteq> MAX_DWORD \<and> s \<le> r \<and> unat r + unat n \<le> unat (BitCount b) \<and> run_at b False (unat r) (unat n)
         \<and> (\<forall>p. unat s \<le> p \<and> p < unat r \<longrightarrow> \<not> run_at b False p (unat n))"
    using BitmapScanInternal_result [OF ok n, of s "BitCount b" False] False
    by (meson linorder_not_less order_refl)
  show ?thesis
  proof (cases "r = MAX_DWORD")
    case True
    then have "BitmapScanFromAndFlip b s n False = Some (MAX_DWORD, b)"
      using False n r(1) by (simp add: BitmapScanFromAndFlip_def BitmapScanFromToAndFlip_def)
    then show ?thesis using True r(2) ok no_run by (auto simp: same_shape_def)
  next
    case ne: False
    with r(2) have f: "s \<le> r" "unat r + unat n \<le> unat (BitCount b)" "run_at b False (unat r) (unat n)"
      "\<forall>p. unat s \<le> p \<and> p < unat r \<longrightarrow> \<not> run_at b False p (unat n)" by auto
    obtain buf' where buf': "BitmapChangeBits (BitmapBuffer b) r True n = Some buf'"
      "same_shape b (b\<lparr>BitmapBuffer := buf'\<rparr>)"
      "\<forall>k < unat (BitCount b). bm_bit (b\<lparr>BitmapBuffer := buf'\<rparr>) k =
         (if unat r \<le> k \<and> k < unat r + unat n then True else bm_bit b k)"
      using BitmapChangeBits_bm [OF ok f(2), of True] by blast
    have run: "BitmapScanFromAndFlip b s n False = Some (r, b\<lparr>BitmapBuffer := buf'\<rparr>)"
      using False n r(1) ne buf'(1) by (simp add: BitmapScanFromAndFlip_def BitmapScanFromToAndFlip_def)
    have "bm_used (b\<lparr>BitmapBuffer := buf'\<rparr>) = bm_used b \<union> {unat r..<unat r + unat n}"
      using bm_used_changed [OF _ buf'(3) f(2)] by simp
    moreover have "\<forall>p. unat s \<le> p \<and> p < unat r \<longrightarrow> {p..<p + unat n} \<inter> bm_used b \<noteq> {}"
      using f(2,4) no_run by auto
    ultimately show ?thesis
      using run ne f(1,2) run_at_free [OF f(3,2)] buf'(2) bitmap_ok_same_shape [OF ok buf'(2)]
      by blast
  qed
qed

lemma BitmapClearBits_result:
  assumes ok: "bitmap_ok b" and i: "i < BitCount b" and r: "unat i + unat n \<le> unat (BitCount b)"
  shows "\<exists>b'. BitmapClearBits b i n = Some b' \<and> bitmap_ok b' \<and> same_shape b b'
    \<and> bm_used b' = bm_used b - {unat i..<unat i + unat n}"
proof -
  obtain b' where b': "BitmapClearBits b i n = Some b'" "same_shape b b'" "bitmap_ok b'"
    "\<forall>k < unat (BitCount b). bm_bit b' k = (if unat i \<le> k \<and> k < unat i + unat n then False else bm_bit b k)"
    using BitmapSetBitsValue_result [OF assms, of False] by blast
  then show ?thesis
    using bm_used_changed [OF _ b'(4) r] by (simp add: same_shape_def)
qed


section \<open>The contract towards the allocators\<close>

text \<open>
  The frame allocator and the process identifiers use a bitmap as an allocator of runs:
  \<open>reserve s n\<close> takes the first run of \<open>n\<close> unused positions from \<open>s\<close> on, or
  reports \<^verbatim>\<open>MAX_DWORD\<close>; \<open>release i n\<close> gives a run back.
\<close>

locale run_allocator =
  fixes ok :: "'b \<Rightarrow> bool"
    and cap :: "'b \<Rightarrow> nat"
    and used :: "'b \<Rightarrow> nat set"
    and reserve :: "'b \<Rightarrow> DWORD \<Rightarrow> DWORD \<Rightarrow> (DWORD \<times> 'b) option"
    and release :: "'b \<Rightarrow> DWORD \<Rightarrow> DWORD \<Rightarrow> 'b option"
  assumes reserve_returns: "ok b \<Longrightarrow> n \<noteq> 0 \<Longrightarrow> \<exists>r b'. reserve b s n = Some (r, b')"
    and reserve_frame: "ok b \<Longrightarrow> n \<noteq> 0 \<Longrightarrow> reserve b s n = Some (r, b') \<Longrightarrow> ok b' \<and> cap b' = cap b"
    and reserve_success: "ok b \<Longrightarrow> n \<noteq> 0 \<Longrightarrow> reserve b s n = Some (r, b') \<Longrightarrow> r \<noteq> MAX_DWORD \<Longrightarrow>
      s \<le> r \<and> unat r + unat n \<le> cap b \<and> {unat r..<unat r + unat n} \<inter> used b = {}
      \<and> used b' = used b \<union> {unat r..<unat r + unat n}"
    and reserve_failure: "ok b \<Longrightarrow> n \<noteq> 0 \<Longrightarrow> reserve b s n = Some (MAX_DWORD, b') \<Longrightarrow> used b' = used b
      \<and> (\<forall>p. unat s \<le> p \<and> p + unat n \<le> cap b \<longrightarrow> {p..<p + unat n} \<inter> used b \<noteq> {})"
    and release_success: "ok b \<Longrightarrow> unat i < cap b \<Longrightarrow> unat i + unat n \<le> cap b \<Longrightarrow>
      \<exists>b'. release b i n = Some b' \<and> ok b' \<and> cap b' = cap b
        \<and> used b' = used b - {unat i..<unat i + unat n}"
begin

text \<open>A reservation fails only when no run of that length is free.\<close>

lemma reserve_complete:
  assumes "ok b" "n \<noteq> 0" "unat s \<le> p" "p + unat n \<le> cap b" "{p..<p + unat n} \<inter> used b = {}"
  shows "\<exists>r b'. reserve b s n = Some (r, b') \<and> r \<noteq> MAX_DWORD"
  using assms reserve_returns [of b n s] reserve_failure [of b n s] by blast

text \<open>Reserving and releasing the same run gives back the set of used positions.\<close>

lemma reserve_release:
  assumes "ok b" "n \<noteq> 0" "reserve b s n = Some (r, b')" "r \<noteq> MAX_DWORD"
  shows "\<exists>b''. release b' r n = Some b'' \<and> ok b'' \<and> used b'' = used b"
proof -
  have s: "unat r + unat n \<le> cap b" "{unat r..<unat r + unat n} \<inter> used b = {}"
    "used b' = used b \<union> {unat r..<unat r + unat n}" "ok b'" "cap b' = cap b"
    using reserve_success [OF assms] reserve_frame [OF assms(1-3)] by auto
  have "unat n \<noteq> 0" using assms(2) by (simp add: unat_eq_0)
  with s release_success [of b' r n] obtain b'' where
    "release b' r n = Some b''" "ok b''" "used b'' = used b' - {unat r..<unat r + unat n}" by auto
  with s show ?thesis by auto
qed

end

lemma bitmap_reserve_cases:
  assumes "bitmap_ok b" "n \<noteq> 0" "BitmapScanFromAndFlip b s n False = Some (r, b')"
  shows "bitmap_ok b' \<and> same_shape b b'
    \<and> (r = MAX_DWORD \<longrightarrow> b' = b \<and> (\<forall>p. unat s \<le> p \<and> p + unat n \<le> unat (BitCount b)
          \<longrightarrow> {p..<p + unat n} \<inter> bm_used b \<noteq> {}))
    \<and> (r \<noteq> MAX_DWORD \<longrightarrow> s \<le> r \<and> unat r + unat n \<le> unat (BitCount b)
         \<and> {unat r..<unat r + unat n} \<inter> bm_used b = {}
         \<and> bm_used b' = bm_used b \<union> {unat r..<unat r + unat n})"
  using BitmapScanFromAndFlip_result [OF assms(1,2), of s] assms(3) by auto

interpretation bm: run_allocator bitmap_ok "\<lambda>b. unat (BitCount b)" bm_used
  "\<lambda>b s n. BitmapScanFromAndFlip b s n False" BitmapClearBits
proof (unfold_locales, goal_cases)
  case (1 b n s)
  then show ?case using BitmapScanFromAndFlip_result [of b n s] by blast
next
  case (2 b n s r b')
  then show ?case using bitmap_reserve_cases [of b n s r b'] by (simp add: same_shape_def)
next
  case (3 b n s r b')
  then show ?case using bitmap_reserve_cases [of b n s r b'] by simp
next
  case (4 b n s b')
  then show ?case using bitmap_reserve_cases [of b n s MAX_DWORD b'] by simp
next
  case (5 b i n)
  then show ?case using BitmapClearBits_result [of b i n] by (auto simp: word_less_nat_alt same_shape_def)
qed


section \<open>Properties\<close>

definition sample_bitmap :: BITMAP where
  "sample_bitmap = \<lparr>BitmapBuffer = Some [0x6D, 0x01], BufferSize = 2, BitCount = 12\<rparr>"

lemma sample_bitmap_ok: "bitmap_ok sample_bitmap"
  by (simp add: sample_bitmap_def bitmap_ok_def)

text \<open>
  C31. A scan between two valid positions always returns; it returns \<^verbatim>\<open>MAX_DWORD\<close> exactly
  when no run of \<open>n\<close> bits of the wanted value fits between them, and otherwise the lowest
  position at which such a run starts.
\<close>

theorem bitmap_scan_first_fit:
  assumes "bitmap_ok b" and "n \<noteq> 0" and "s \<le> e" and "e \<le> BitCount b"
  shows "\<exists>r. BitmapScanFromTo b s e n v = Some r
    \<and> (r = MAX_DWORD \<longleftrightarrow> (\<forall>p. unat s \<le> p \<and> p + unat n \<le> unat e \<longrightarrow> \<not> run_at b v p (unat n)))
    \<and> (r \<noteq> MAX_DWORD \<longrightarrow> s \<le> r \<and> unat r + unat n \<le> unat e \<and> run_at b v (unat r) (unat n)
         \<and> (\<forall>p. unat s \<le> p \<and> p < unat r \<longrightarrow> \<not> run_at b v p (unat n)))"
proof -
  have "BitmapScanFromTo b s e n v = BitmapScanInternal b s e n v"
    using assms by (auto simp: BitmapScanFromTo_def dest: leD)
  then show ?thesis
    using BitmapScanInternal_result [OF assms, of v] by (auto simp: word_le_nat_alt)
qed

theorem bitmap_scan_first_fit_witness:
  "\<exists>r. BitmapScanFromTo sample_bitmap 2 12 3 False = Some r
    \<and> (r \<noteq> MAX_DWORD \<longrightarrow> 2 \<le> r \<and> run_at sample_bitmap False (unat r) 3)"
  using bitmap_scan_first_fit [OF sample_bitmap_ok, of 3 2 12 False]
  by (auto simp: sample_bitmap_def)

text \<open>
  Writing a run of bits that lies inside the bitmap passes both assertions, changes exactly
  the bits of that run, and keeps the sizes of the bitmap and of its buffer.
\<close>

theorem bitmap_set_bits_exact:
  assumes "bitmap_ok b" and "i < BitCount b" and "unat i + unat n \<le> unat (BitCount b)"
  shows "\<exists>b'. BitmapSetBitsValue b i n v = Some b' \<and> bitmap_ok b' \<and> same_shape b b'
    \<and> (\<forall>k < unat (BitCount b). bm_bit b' k = (if unat i \<le> k \<and> k < unat i + unat n then v else bm_bit b k))"
  using BitmapSetBitsValue_result [OF assms, of v] by blast

theorem bitmap_set_bits_exact_witness:
  "\<exists>b'. BitmapSetBitsValue sample_bitmap 3 4 True = Some b' \<and> bitmap_ok b' \<and> bm_bit b' 4 = True
    \<and> bm_bit b' 9 = bm_bit sample_bitmap 9"
  using bitmap_set_bits_exact [OF sample_bitmap_ok, of 3 4 True]
  by (auto simp: sample_bitmap_def)

text \<open>
  The buffer size computed by \<^verbatim>\<open>BitmapPreinit\<close> is enough for the number of elements,
  for every 32-bit count: initialising a buffer of that size gives a bitmap of that many bits,
  all with the chosen value.
\<close>

theorem bitmap_init_all_bits:
  assumes "n \<noteq> 0"
  shows "\<exists>sz b. BitmapPreinit n = Some (sz, b)
    \<and> (\<forall>buf. length buf = unat sz \<longrightarrow>
         (\<exists>b'. BitmapInitEx b buf v = Some b' \<and> bitmap_ok b' \<and> BitCount b' = n
               \<and> (\<forall>k < unat n. bm_bit b' k = v)))"
proof -
  obtain sz b where b: "BitmapPreinit n = Some (sz, b)" "BufferSize b = sz"
    using assms by (auto simp: BitmapPreinit_def Let_def)
  have "\<exists>b'. BitmapInitEx b buf v = Some b' \<and> bitmap_ok b' \<and> BitCount b' = n
      \<and> (\<forall>k < unat n. bm_bit b' k = v)" if "length buf = unat sz" for buf
  proof -
    have "unat (BufferSize b) \<le> length buf" using that b(2) by simp
    then obtain b' where "BitmapInitEx b buf v = Some b'"
      by (auto simp: BitmapInitEx_def Let_def)
    with BitmapPreinit_Init_ok [OF assms b(1), of buf v b'] that show ?thesis by auto
  qed
  with b(1) show ?thesis by blast
qed

theorem bitmap_init_all_bits_witness:
  "\<exists>sz b. BitmapPreinit 12 = Some (sz, b) \<and> (\<forall>buf. length buf = unat sz \<longrightarrow>
     (\<exists>b'. BitmapInitEx b buf True = Some b' \<and> (\<forall>k < 12. bm_bit b' k = True)))"
  using bitmap_init_all_bits [of 12 True] by (force simp: unat_numeral)

text \<open>
  The range check of \<^verbatim>\<open>BitmapSetBitsValue\<close> subtracts the count from the bit count in
  32-bit arithmetic, so a count larger than the whole bitmap passes it: the operation returns and
  has overwritten the first bit after the bitmap whenever the memory behind the buffer is
  accessible.
\<close>

theorem bitmap_set_bits_overrun:
  assumes "BitmapBuffer b = Some buf" and "i < BitCount b" and "BitCount b < n"
    and "unat i + unat n \<le> 8 * length buf" and "unat i + unat n < 2 ^ 32"
  shows "\<exists>buf'. BitmapSetBitsValue b i n v = Some (b\<lparr>BitmapBuffer := Some buf'\<rparr>)
    \<and> bits_of buf' (unat (BitCount b)) = v"
proof -
  have "unat (BitCount b - n) = 2 ^ 32 + unat (BitCount b) - unat n"
    using assms(3) by (simp add: unat_sub_if' word_less_nat_alt)
  then have "BitCount b - n \<ge> i"
    using assms(2,5) by (simp add: word_le_nat_alt word_less_nat_alt)
  moreover obtain buf' where "BitmapChangeBits_loop (Some buf) i v n 0 = Some (Some buf')"
    "\<forall>k < 8 * length buf. bits_of buf' k = (if unat i \<le> k \<and> k < unat i + unat n then v else bits_of buf k)"
    using BitmapChangeBits_loop_result [OF assms(4,5), of 0 v] by auto
  ultimately show ?thesis
    using assms by (auto simp: BitmapSetBitsValue_def BitmapChangeBits_def word_less_nat_alt)
qed

theorem bitmap_set_bits_overrun_witness:
  "\<exists>buf'. BitmapSetBitsValue \<lparr>BitmapBuffer = Some [0, 0], BufferSize = 1, BitCount = 8\<rparr> 0 9 True
      = Some \<lparr>BitmapBuffer = Some buf', BufferSize = 1, BitCount = 8\<rparr> \<and> bits_of buf' 8"
  using bitmap_set_bits_overrun
    [of "\<lparr>BitmapBuffer = Some [0, 0], BufferSize = 1, BitCount = 8\<rparr>" "[0, 0]" 0 9 True]
  by simp

end
