(* ===== verification/CL_Memory.thy ===== *)
theory CL_Memory
  imports Prelude
begin

text \<open>
  \<^verbatim>\<open>CommonLib/src/cl_memory.c\<close>: filling, copying and comparing bytes.

  Memory is a map from 64-bit addresses to bytes; an access to an address outside its domain is
  a fault (\<open>None\<close>). Addresses wrap around at 64 bits. A wide move of the source (a
  \<^verbatim>\<open>DWORD\<close>, \<^verbatim>\<open>WORD\<close> or \<^verbatim>\<open>QWORD\<close> assignment, one step of \<^verbatim>\<open>__movsq\<close>) reads all
  its bytes before it writes any. An \<^verbatim>\<open>int\<close> result is the integer it denotes.
\<close>

section \<open>Byte memory\<close>

type_synonym bmem = "ADDR \<rightharpoonup> BYTE"

definition wr8 :: "bmem \<Rightarrow> ADDR \<Rightarrow> BYTE \<Rightarrow> bmem option" where
  "wr8 m a v = (if m a = None then None else Some (m(a \<mapsto> v)))"

fun rd_bytes :: "bmem \<Rightarrow> ADDR \<Rightarrow> nat \<Rightarrow> BYTE list option" where
  "rd_bytes m a 0 = Some []"
| "rd_bytes m a (Suc n) = do { b \<leftarrow> m a; bs \<leftarrow> rd_bytes m (a + 1) n; Some (b # bs) }"

fun wr_bytes :: "bmem \<Rightarrow> ADDR \<Rightarrow> BYTE list \<Rightarrow> bmem option" where
  "wr_bytes m a [] = Some m"
| "wr_bytes m a (b # bs) = do { m \<leftarrow> wr8 m a b; wr_bytes m (a + 1) bs }"

section \<open>Operations\<close>

function memset_loop :: "bmem \<Rightarrow> ADDR \<Rightarrow> BYTE \<Rightarrow> DWORD \<Rightarrow> DWORD \<Rightarrow> bmem option" where
  "memset_loop m address v sz i =
     (if i < sz then do {
        m \<leftarrow> wr8 m (address + ucast i) v;
        memset_loop m address v sz (i + 1)
      }
      else Some m)"
  by pat_completeness auto
termination
  by (relation "measure (\<lambda>(m, address, v, sz, i). unat sz - unat i)")
    (auto simp: word_less_nat_alt unat_inc_below)

definition cl_memset :: "bmem \<Rightarrow> ADDR \<Rightarrow> BYTE \<Rightarrow> DWORD \<Rightarrow> bmem option" where
  "cl_memset m address v sz = (if address = NULL then Some m else memset_loop m address v sz 0)"

abbreviation cl_memzero :: "bmem \<Rightarrow> ADDR \<Rightarrow> DWORD \<Rightarrow> bmem option" where
  "cl_memzero m addr sz \<equiv> cl_memset m addr 0 sz"

definition move :: "bmem \<Rightarrow> ADDR \<Rightarrow> ADDR \<Rightarrow> nat \<Rightarrow> bmem option" where
  "move m dst src n = do { bs \<leftarrow> rd_bytes m src n; wr_bytes m dst bs }"

fun movsq :: "bmem \<Rightarrow> ADDR \<Rightarrow> ADDR \<Rightarrow> nat \<Rightarrow> bmem option" where
  "movsq m dst src 0 = Some m"
| "movsq m dst src (Suc n) = do { m \<leftarrow> move m dst src 8; movsq m (dst + 8) (src + 8) n }"

definition cl_memcpy :: "bmem \<Rightarrow> ADDR \<Rightarrow> ADDR \<Rightarrow> QWORD \<Rightarrow> bmem option" where
  "cl_memcpy m Destination Source Count =
     (if Destination = NULL \<or> Source = NULL then Some m
      else do {
        let unalignedCount = Count AND 0x7;
        let alignedCount = Count - unalignedCount;
        let dst = Destination; let src = Source;
        (m, dst, src) \<leftarrow> (if unalignedCount AND 0x4 \<noteq> 0
            then do { m \<leftarrow> move m dst src 4; Some (m, dst + 4, src + 4) } else Some (m, dst, src));
        (m, dst, src) \<leftarrow> (if unalignedCount AND 0x2 \<noteq> 0
            then do { m \<leftarrow> move m dst src 2; Some (m, dst + 2, src + 2) } else Some (m, dst, src));
        (m, dst, src) \<leftarrow> (if unalignedCount AND 0x1 \<noteq> 0
            then do { m \<leftarrow> move m dst src 1; Some (m, dst + 1, src + 1) } else Some (m, dst, src));
        if alignedCount \<noteq> 0 then do {
          ASSERT (IsAddressAligned alignedCount 8);
          movsq m (Destination + unalignedCount) (Source + unalignedCount) (unat (alignedCount div 8))
        }
        else Some m
      })"

function memmove_loop :: "bmem \<Rightarrow> ADDR \<Rightarrow> ADDR \<Rightarrow> QWORD \<Rightarrow> QWORD \<Rightarrow> bmem option" where
  "memmove_loop m dst src Count i =
     (if i < Count then do {
        v \<leftarrow> m (src + i);
        m \<leftarrow> wr8 m (dst + i) v;
        memmove_loop m dst src Count (i + 1)
      }
      else Some m)"
  by pat_completeness auto
termination
  by (relation "measure (\<lambda>(m, dst, src, Count, i). unat Count - unat i)")
    (auto simp: word_less_nat_alt unat_inc_below)

definition cl_memmove :: "bmem \<Rightarrow> ADDR \<Rightarrow> ADDR \<Rightarrow> QWORD \<Rightarrow> bmem option" where
  "cl_memmove m Destination Source Count =
     (if Destination = NULL \<or> Source = NULL then Some m
      else memmove_loop m Destination Source Count 0)"

text \<open>The index of the comparisons is an \<^verbatim>\<open>INT64\<close>; it stays between -1 and 2^32.\<close>

definition byte_diff :: "BYTE \<Rightarrow> BYTE \<Rightarrow> int" where
  "byte_diff a b = uint a - uint b"

function memcmp_loop :: "bmem \<Rightarrow> ADDR \<Rightarrow> ADDR \<Rightarrow> int \<Rightarrow> int \<Rightarrow> int option" where
  "memcmp_loop m p1 p2 sz i =
     (if i < sz then do {
        a \<leftarrow> m (p1 + of_int i);
        b \<leftarrow> m (p2 + of_int i);
        if a \<noteq> b then Some (byte_diff a b) else memcmp_loop m p1 p2 sz (i + 1)
      }
      else Some 0)"
  by pat_completeness auto
termination
  by (relation "measure (\<lambda>(m, p1, p2, sz, i). nat (sz - i))") auto

definition cl_memcmp :: "bmem \<Rightarrow> ADDR \<Rightarrow> ADDR \<Rightarrow> DWORD \<Rightarrow> int option" where
  "cl_memcmp m ptr1 ptr2 sz =
     (if ptr1 = NULL \<or> ptr2 = NULL then Some (sint sz)
      else memcmp_loop m ptr1 ptr2 (uint sz) 0)"

function rmemcmp_loop :: "bmem \<Rightarrow> ADDR \<Rightarrow> ADDR \<Rightarrow> int \<Rightarrow> int option" where
  "rmemcmp_loop m p1 p2 i =
     (if i \<ge> 0 then do {
        a \<leftarrow> m (p1 + of_int i);
        b \<leftarrow> m (p2 + of_int i);
        if a \<noteq> b then Some (byte_diff a b) else rmemcmp_loop m p1 p2 (i - 1)
      }
      else Some 0)"
  by pat_completeness auto
termination
  by (relation "measure (\<lambda>(m, p1, p2, i). nat (i + 1))") auto

text \<open>\<open>sz - 1\<close> is computed on the \<^verbatim>\<open>DWORD\<close> before it is widened to the index.\<close>

definition cl_rmemcmp :: "bmem \<Rightarrow> ADDR \<Rightarrow> ADDR \<Rightarrow> DWORD \<Rightarrow> int option" where
  "cl_rmemcmp m ptr1 ptr2 sz =
     (if ptr1 = NULL \<or> ptr2 = NULL then Some (sint sz)
      else rmemcmp_loop m ptr1 ptr2 (uint (sz - 1)))"

function memscan_loop :: "bmem \<Rightarrow> ADDR \<Rightarrow> DWORD \<Rightarrow> BYTE \<Rightarrow> DWORD \<Rightarrow> DWORD option" where
  "memscan_loop m pData sz v i =
     (if i < sz then do {
        b \<leftarrow> m (pData + ucast i);
        if b \<noteq> v then Some i else memscan_loop m pData sz v (i + 1)
      }
      else Some i)"
  by pat_completeness auto
termination
  by (relation "measure (\<lambda>(m, pData, sz, v, i). unat sz - unat i)")
    (auto simp: word_less_nat_alt unat_inc_below)

definition cl_memscan :: "bmem \<Rightarrow> ADDR \<Rightarrow> DWORD \<Rightarrow> BYTE \<Rightarrow> int option" where
  "cl_memscan m buffer sz v =
     (if buffer = NULL then Some 0 else map_option sint (memscan_loop m buffer sz v 0))"

declare memset_loop.simps [simp del] memmove_loop.simps [simp del] memcmp_loop.simps [simp del]
  rmemcmp_loop.simps [simp del] memscan_loop.simps [simp del]

section \<open>Ranges of memory\<close>

definition mapped :: "bmem \<Rightarrow> ADDR \<Rightarrow> nat \<Rightarrow> bool" where
  "mapped m a n \<longleftrightarrow> (\<forall>i < n. m (a + of_nat i) \<noteq> None)"

text \<open>The memory after the \<open>n\<close> bytes at \<open>s\<close> have been copied to \<open>d\<close>.\<close>

definition copied :: "bmem \<Rightarrow> ADDR \<Rightarrow> ADDR \<Rightarrow> nat \<Rightarrow> bmem" where
  "copied m d s n = (\<lambda>a. if unat (a - d) < n then m (s + (a - d)) else m a)"

text \<open>The memory after the bytes \<open>bs\<close> have been written at \<open>d\<close>.\<close>

definition written :: "bmem \<Rightarrow> ADDR \<Rightarrow> BYTE list \<Rightarrow> bmem" where
  "written m d bs = (\<lambda>a. if unat (a - d) < length bs then Some (bs ! unat (a - d)) else m a)"

lemma mapped_0 [simp]: "mapped m a 0"
  by (simp add: mapped_def)

lemma mapped_Suc: "mapped m a (Suc n) \<longleftrightarrow> m a \<noteq> None \<and> mapped m (a + 1) n"
  by (simp add: mapped_def All_less_Suc2 add.assoc)

lemma mapped_mono: "mapped m a n \<Longrightarrow> k \<le> n \<Longrightarrow> mapped m a k"
  by (auto simp: mapped_def)

lemma mapped_add: "mapped m a (k + n) \<longleftrightarrow> mapped m a k \<and> mapped m (a + of_nat k) n"
  by (induction k arbitrary: a) (auto simp: mapped_Suc add.assoc)

lemma mappedD: "mapped m a n \<Longrightarrow> unat i < n \<Longrightarrow> \<exists>v. m (a + i) = Some v"
  unfolding mapped_def by (drule spec [of _ "unat i"]) simp

lemma rd_bytes_mapped:
  "mapped m a n \<Longrightarrow> rd_bytes m a n = Some (map (\<lambda>i. the (m (a + of_nat i))) [0..<n])"
proof (induction n arbitrary: a)
  case (Suc n)
  have "map (\<lambda>i. the (m (a + of_nat i))) [0..<Suc n]
      = the (m a) # map (\<lambda>i. the (m (a + 1 + of_nat i))) [0..<n]"
    by (simp add: upt_conv_Cons map_Suc_upt [symmetric] add.assoc del: upt_Suc)
  with Suc show ?case by (auto simp: mapped_Suc)
qed simp

lemma written_Cons:
  assumes "Suc (length bs) \<le> 2 ^ 64"
  shows "written (m(a \<mapsto> b)) (a + 1) bs = written m a (b # bs)"
proof
  fix x
  show "written (m(a \<mapsto> b)) (a + 1) bs x = written m a (b # bs) x"
  proof (cases "x = a")
    case True
    have "unat (- 1 :: ADDR) = 2 ^ 64 - 1" by (simp add: unsigned_minus_1_eq_mask mask_eq_exp_minus_1)
    with True assms show ?thesis by (simp add: written_def)
  next
    case False
    then have "unat (x - (a + 1)) = unat (x - a) - 1" "unat (x - a) \<noteq> 0"
      using unat_minus_one [of "x - a"] by (auto simp: algebra_simps unat_eq_0)
    with False show ?thesis by (cases "unat (x - a)") (auto simp: written_def)
  qed
qed

lemma wr_bytes_written:
  "mapped m a (length bs) \<Longrightarrow> length bs \<le> 2 ^ 64 \<Longrightarrow> wr_bytes m a bs = Some (written m a bs)"
proof (induction bs arbitrary: m a)
  case Nil
  then show ?case by (simp add: written_def)
next
  case (Cons b bs)
  from Cons.prems have "mapped (m(a \<mapsto> b)) (a + 1) (length bs)"
    by (auto simp: mapped_def) (metis Suc_mono add.assoc add.commute of_nat_Suc)
  then have "wr_bytes (m(a \<mapsto> b)) (a + 1) bs = Some (written m a (b # bs))"
    using Cons.IH [of "m(a \<mapsto> b)" "a + 1"] Cons.prems(2) written_Cons [of bs m a b] by (metis Suc_leD length_Cons)
  with Cons.prems show ?case
    by (auto simp: mapped_Suc wr8_def)
qed

lemma move_copied:
  assumes "mapped m s n" "mapped m d n" "n \<le> 2 ^ 64"
  shows "move m d s n = Some (copied m d s n)"
proof -
  let ?bs = "map (\<lambda>i. the (m (s + of_nat i))) [0..<n]"
  have "written m d ?bs = copied m d s n"
    using mappedD [OF assms(1)] by (fastforce simp: written_def copied_def fun_eq_iff)
  then show ?thesis
    using assms rd_bytes_mapped [OF assms(1)] wr_bytes_written [of m d ?bs] by (simp add: move_def)
qed


text \<open>Copying in pieces: the next piece may start where the last one ended, when the source of
  the whole copy is not in the bytes already written.\<close>

lemma copied_add:
  assumes "\<forall>i < n. k \<le> unat (s + of_nat k + of_nat i - d)" "k + n \<le> 2 ^ 64"
  shows "copied (copied m d s k) (d + of_nat k) (s + of_nat k) n = copied m d s (k + n)"
proof
  fix a
  let ?x = "a - d"
  show "copied (copied m d s k) (d + of_nat k) (s + of_nat k) n a = copied m d s (k + n) a"
  proof (cases "unat ?x < k")
    case True
    then have "unat ?x < 2 ^ 64" "k < 2 ^ 64 \<or> n = 0" using assms(2) by auto
    have "\<not> unat (a - (d + of_nat k)) < n"
    proof
      assume lt: "unat (a - (d + of_nat k)) < n"
      then have k: "unat (of_nat k :: ADDR) = k" using assms(2) by (intro unat_of_nat_small) simp
      have "?x = (a - (d + of_nat k)) + of_nat k" by simp
      then have "unat ?x = (unat (a - (d + of_nat k)) + k) mod 2 ^ 64" using k by (simp only: unat_word_ariths) simp
      also have "\<dots> = unat (a - (d + of_nat k)) + k" using lt assms(2) by simp
      finally show False using True by simp
    qed
    with True show ?thesis by (simp add: copied_def)
  next
    case False
    let ?y = "a - (d + of_nat k)"
    have xy: "s + of_nat k + ?y = s + ?x" by simp
    show ?thesis
    proof (cases "unat ?y < n")
      case True
      then have k: "unat (of_nat k :: ADDR) = k" using assms(2) by (intro unat_of_nat_small) simp
      have "?x = ?y + of_nat k" by simp
      then have "unat ?x = (unat ?y + k) mod 2 ^ 64" using k by (simp only: unat_word_ariths) simp
      then have x: "unat ?x = unat ?y + k" using True assms(2) by simp
      have "k \<le> unat (s + of_nat k + ?y - d)"
        using assms(1) [rule_format, OF True] by simp
      then have "\<not> unat (s + ?x - d) < k" using xy by simp
      with True False x xy show ?thesis by (simp add: copied_def)
    next
      case nlt: False
      have "\<not> unat ?x < k + n"
      proof
        assume lt: "unat ?x < k + n"
        have k: "unat (of_nat k :: ADDR) = k"
          using False unat_bound [of ?x] by (intro unat_of_nat_small) simp
        have "of_nat k \<le> ?x" using False k by (simp add: word_le_nat_alt)
        then have "unat (?x - of_nat k) = unat ?x - k" using k by (simp add: unat_sub)
        moreover have "?x - of_nat k = ?y" by simp
        ultimately show False using nlt lt False by simp
      qed
      with False nlt show ?thesis by (simp add: copied_def)
    qed
  qed
qed


text \<open>
  A copy that goes upwards is right when its source does not start below its destination and
  overlap it. The destination may overlap the source from below.
\<close>

definition copy_safe :: "ADDR \<Rightarrow> ADDR \<Rightarrow> nat \<Rightarrow> bool" where
  "copy_safe d s n \<longleftrightarrow> unat (s - d) + n \<le> 2 ^ 64"

lemma copy_safe_above:
  assumes "copy_safe d s N" "j < N"
  shows "j \<le> unat (s + of_nat j - d)"
proof -
  have j: "unat (of_nat j :: ADDR) = j" using assms by (intro unat_of_nat_small) (simp add: copy_safe_def)
  have "s + of_nat j - d = (s - d) + of_nat j" by simp
  then have "unat (s + of_nat j - d) = (unat (s - d) + j) mod 2 ^ 64"
    using j by (simp only: unat_word_ariths) simp
  also have "\<dots> = unat (s - d) + j" using assms by (simp add: copy_safe_def)
  finally show ?thesis by simp
qed

lemma copied_0 [simp]: "copied m d s 0 = m"
  by (simp add: copied_def)

lemma mapped_copied: "mapped m s k \<Longrightarrow> mapped m a n \<Longrightarrow> mapped (copied m d s k) a n"
  using mappedD [of m s k] by (fastforce simp: mapped_def copied_def)

text \<open>A copy of \<open>N\<close> bytes under way: the source and destination are accessible and safe.\<close>

definition copy_ok :: "bmem \<Rightarrow> ADDR \<Rightarrow> ADDR \<Rightarrow> nat \<Rightarrow> bool" where
  "copy_ok m d s N \<longleftrightarrow> mapped m s N \<and> mapped m d N \<and> copy_safe d s N \<and> N \<le> 2 ^ 64"

lemma copy_step:
  assumes ok: "copy_ok m d s N" and kn: "k + n \<le> N"
  shows "move (copied m d s k) (d + of_nat k) (s + of_nat k) n = Some (copied m d s (k + n))"
proof -
  have "mapped m s (k + n)" "mapped m d (k + n)" and N: "N \<le> 2 ^ 64" and safe: "copy_safe d s N"
    using ok kn by (auto simp: copy_ok_def intro: mapped_mono)
  then have "mapped m s k" "mapped m (s + of_nat k) n" "mapped m (d + of_nat k) n"
    by (simp_all add: mapped_add)
  then have mv: "move (copied m d s k) (d + of_nat k) (s + of_nat k) n
      = Some (copied (copied m d s k) (d + of_nat k) (s + of_nat k) n)"
    using kn N by (intro move_copied mapped_copied) auto
  have "k \<le> unat (s + of_nat k + of_nat i - d)" if "i < n" for i
    using copy_safe_above [OF safe, of "k + i"] that kn by (simp add: add.assoc)
  then show ?thesis
    using mv copied_add [of n k s d m] kn N by simp
qed

lemma movsq_step:
  "copy_ok m d s N \<Longrightarrow> k + 8 * n \<le> N \<Longrightarrow>
   movsq (copied m d s k) (d + of_nat k) (s + of_nat k) n = Some (copied m d s (k + 8 * n))"
proof (induction n arbitrary: k)
  case (Suc n)
  then have "move (copied m d s k) (d + of_nat k) (s + of_nat k) 8 = Some (copied m d s (k + 8))"
    by (intro copy_step) auto
  with Suc.IH [of "k + 8"] Suc.prems show ?case by (simp add: add.assoc)
qed simp

lemma and_7_cases:
  fixes x :: QWORD
  shows "unat (x AND 7) = unat x mod 8"
    and "x AND 7 = 0 \<or> x AND 7 = 1 \<or> x AND 7 = 2 \<or> x AND 7 = 3
       \<or> x AND 7 = 4 \<or> x AND 7 = 5 \<or> x AND 7 = 6 \<or> x AND 7 = 7"
proof -
  have "x AND 7 = take_bit 3 x" by (simp add: take_bit_eq_mask mask_eq_exp_minus_1)
  then show u: "unat (x AND 7) = unat x mod 8" using unat_take_bit_mod [of 3 x] by simp
  have "unat x mod 8 < 8" by simp
  then show "x AND 7 = 0 \<or> x AND 7 = 1 \<or> x AND 7 = 2 \<or> x AND 7 = 3
       \<or> x AND 7 = 4 \<or> x AND 7 = 5 \<or> x AND 7 = 6 \<or> x AND 7 = 7"
    unfolding word_unat_eq_iff u by simp presburger
qed

lemma memcpy_head:
  assumes ok: "copy_ok m d s N" and u: "unat u \<le> N" and
    c: "u = 0 \<or> u = 1 \<or> u = 2 \<or> u = 3 \<or> u = 4 \<or> u = 5 \<or> u = 6 \<or> u = (7::QWORD)"
  shows "do { (m, d, s) \<leftarrow> (if u AND 0x4 \<noteq> 0
            then do { m \<leftarrow> move m d s 4; Some (m, d + 4, s + 4) } else Some (m, d, s));
        (m, d, s) \<leftarrow> (if u AND 0x2 \<noteq> 0
            then do { m \<leftarrow> move m d s 2; Some (m, d + 2, s + 2) } else Some (m, d, s));
        (m, d, s) \<leftarrow> (if u AND 0x1 \<noteq> 0
            then do { m \<leftarrow> move m d s 1; Some (m, d + 1, s + 1) } else Some (m, d, s));
        f m } = f (copied m d s (unat u))"
  using c u copy_step [OF ok, of 0 4] copy_step [OF ok, of 4 2] copy_step [OF ok, of 6 1]
    copy_step [OF ok, of 4 1] copy_step [OF ok, of 0 2] copy_step [OF ok, of 2 1] copy_step [OF ok, of 0 1]
  by (elim disjE) (simp_all add: add.assoc numeral_2_eq_2 [symmetric])


lemma cl_memcpy_copied:
  assumes ok: "copy_ok m d s (unat n)" and p: "d \<noteq> NULL" "s \<noteq> NULL"
  shows "cl_memcpy m d s n = Some (copied m d s (unat n))"
proof -
  let ?u = "n AND 7" let ?a = "n - (n AND 7)"
  have le: "unat ?u \<le> unat n" by (simp add: and_7_cases)
  then have a: "unat ?a = unat n - unat n mod 8"
    by (simp add: unat_sub word_le_nat_alt and_7_cases)
  then have al: "IsAddressAligned ?a 8"
    using IsAddressAligned_unat [of 8 3 ?a] by (simp add: minus_mod_eq_mult_div)
  have tail: "unat ?u + 8 * unat (?a div 8) = unat n"
    using a by (simp add: unat_div and_7_cases minus_mod_eq_mult_div)
  have "(if ?a \<noteq> 0 then do { ASSERT (IsAddressAligned ?a 8);
            movsq (copied m d s (unat ?u)) (d + ?u) (s + ?u) (unat (?a div 8)) }
         else Some (copied m d s (unat ?u))) = Some (copied m d s (unat n))"
  proof (cases "?a = 0")
    case True
    then have "unat n = unat ?u" by (metis add_cancel_right_left diff_eq_eq)
    with True show ?thesis by simp
  next
    case False
    then show ?thesis
      using al tail movsq_step [OF ok, of "unat ?u" "unat (?a div 8)"] by simp
  qed
  moreover have "cl_memcpy m d s n = (if ?a \<noteq> 0 then do { ASSERT (IsAddressAligned ?a 8);
            movsq (copied m d s (unat ?u)) (d + ?u) (s + ?u) (unat (?a div 8)) }
         else Some (copied m d s (unat ?u)))"
    unfolding cl_memcpy_def Let_def
    using p memcpy_head [OF ok le and_7_cases(2), where f = "\<lambda>m'. if ?a \<noteq> 0 then do { ASSERT (IsAddressAligned ?a 8);
            movsq m' (d + ?u) (s + ?u) (unat (?a div 8)) } else Some m'"] by simp
  ultimately show ?thesis by simp
qed

lemma memmove_loop_copied:
  assumes ok: "copy_ok m d s (unat n)"
  shows "i \<le> n \<Longrightarrow> memmove_loop (copied m d s (unat i)) d s n i = Some (copied m d s (unat n))"
proof (induction "unat n - unat i" arbitrary: i)
  case 0
  then have "i = n" by (simp add: word_le_nat_alt word_unat_eq_iff)
  then show ?case by (simp add: memmove_loop.simps)
next
  case (Suc k)
  then have lt: "i < n" by (simp add: word_less_nat_alt)
  then have i1: "unat (i + 1) = unat i + 1" by (simp add: unat_inc_below)
  then have "move (copied m d s (unat i)) (d + i) (s + i) 1 = Some (copied m d s (unat (i + 1)))"
    using copy_step [OF ok, of "unat i" 1] lt by (simp add: word_less_nat_alt)
  moreover have "move m' d' s' 1 = do { v \<leftarrow> m' s'; wr8 m' d' v }" for m' d' s'
    by (cases "m' s'") (simp_all add: move_def)
  ultimately have "do { v \<leftarrow> copied m d s (unat i) (s + i); wr8 (copied m d s (unat i)) (d + i) v }
      = Some (copied m d s (unat (i + 1)))" by simp
  moreover have "memmove_loop (copied m d s (unat (i + 1))) d s n (i + 1) = Some (copied m d s (unat n))"
    using Suc.hyps(1) [of "i + 1"] Suc.hyps(2) i1 lt by (simp add: word_le_nat_alt word_less_nat_alt)
  ultimately show ?case
    using lt by (subst memmove_loop.simps) (auto split: bind_splits)
qed

lemma cl_memmove_copied:
  assumes "copy_ok m d s (unat n)" "d \<noteq> NULL" "s \<noteq> NULL"
  shows "cl_memmove m d s n = Some (copied m d s (unat n))"
  using assms memmove_loop_copied [OF assms(1), of 0] by (simp add: cl_memmove_def)

section \<open>Comparing\<close>

text \<open>The unsigned value of a little-endian byte string.\<close>

fun le_value :: "BYTE list \<Rightarrow> nat" where
  "le_value [] = 0"
| "le_value (b # bs) = unat b + 256 * le_value bs"

lemma le_value_bound: "le_value bs < 256 ^ length bs"
proof (induction bs)
  case (Cons b bs)
  have "unat b < 256" using unat_bound [of b] by simp
  with Cons show ?case by simp
qed simp

lemma le_value_append: "le_value (xs @ ys) = le_value xs + 256 ^ length xs * le_value ys"
  by (induction xs) (simp_all add: algebra_simps)

lemma digit_eq:
  fixes a b p q :: nat
  assumes "a < 256" "b < 256"
  shows "a + 256 * p = b + 256 * q \<longleftrightarrow> a = b \<and> p = q"
proof
  assume eq: "a + 256 * p = b + 256 * q"
  have "a = (a + 256 * p) mod 256" "b = (b + 256 * q) mod 256" using assms by simp_all
  with eq show "a = b \<and> p = q" by simp
qed simp

lemma le_value_eq: "length xs = length ys \<Longrightarrow> le_value xs = le_value ys \<longleftrightarrow> xs = ys"
proof (induction xs ys rule: list_induct2)
  case (Cons x xs y ys)
  have "unat x < 256" "unat y < 256" using unat_bound [of x] unat_bound [of y] by simp_all
  then have "unat x + 256 * le_value xs = unat y + 256 * le_value ys
      \<longleftrightarrow> unat x = unat y \<and> le_value xs = le_value ys" by (rule digit_eq)
  with Cons show ?case by (simp add: word_unat_eq_iff)
qed simp

text \<open>The most significant byte decides.\<close>

lemma le_value_snoc_less:
  assumes "length xs = length ys" "unat a < unat b"
  shows "le_value (xs @ [a]) < le_value (ys @ [b])"
proof -
  have "le_value xs < 256 ^ length xs" by (rule le_value_bound)
  then have "le_value (xs @ [a]) < 256 ^ length xs * (unat a + 1)"
    by (simp add: le_value_append algebra_simps)
  also have "\<dots> \<le> 256 ^ length xs * unat b" using assms(2) by (intro mult_le_mono2) simp
  also have "\<dots> \<le> le_value (ys @ [b])" using assms(1) by (simp add: le_value_append)
  finally show ?thesis .
qed

definition bytes_at :: "bmem \<Rightarrow> ADDR \<Rightarrow> nat \<Rightarrow> BYTE list" where
  "bytes_at m a n = map (\<lambda>i. the (m (a + of_nat i))) [0..<n]"

lemma bytes_at_Suc: "bytes_at m a (Suc n) = bytes_at m a n @ [the (m (a + of_nat n))]"
  by (simp add: bytes_at_def)

lemma length_bytes_at [simp]: "length (bytes_at m a n) = n"
  by (simp add: bytes_at_def)

lemma rmemcmp_loop_result:
  "mapped m p n \<Longrightarrow> mapped m q n \<Longrightarrow>
   \<exists>r. rmemcmp_loop m p q (int n - 1) = Some r
     \<and> (r < 0 \<longleftrightarrow> le_value (bytes_at m p n) < le_value (bytes_at m q n))
     \<and> (r = 0 \<longleftrightarrow> bytes_at m p n = bytes_at m q n)"
proof (induction n)
  case 0
  then show ?case by (subst rmemcmp_loop.simps) (simp add: bytes_at_def)
next
  case (Suc n)
  have "m (p + of_nat n) \<noteq> None" "m (q + of_nat n) \<noteq> None" using Suc.prems by (simp_all add: mapped_def)
  then obtain a b where ab: "m (p + of_nat n) = Some a" "m (q + of_nat n) = Some b" by blast
  have m: "mapped m p n" "mapped m q n" using Suc.prems by (auto intro: mapped_mono)
  show ?case
  proof (cases "a = b")
    case True
    then show ?thesis
      using Suc.IH [OF m] ab by (subst rmemcmp_loop.simps) (simp add: bytes_at_Suc le_value_append)
  next
    case False
    then have "unat a < unat b \<or> unat b < unat a" by (metis linorder_neqE_nat word_unat_eq_iff)
    moreover have "byte_diff a b < 0 \<longleftrightarrow> unat a < unat b" "byte_diff a b = 0 \<longleftrightarrow> a = b"
      by (auto simp: byte_diff_def word_uint_eq_iff word_less_def simp flip: word_less_nat_alt)
    ultimately show ?thesis
      using False ab le_value_snoc_less [of "bytes_at m p n" "bytes_at m q n" a b]
        le_value_snoc_less [of "bytes_at m q n" "bytes_at m p n" b a]
      by (subst rmemcmp_loop.simps) (auto simp: bytes_at_Suc)
  qed
qed

lemma cl_rmemcmp_result:
  assumes "mapped m p (unat n)" "mapped m q (unat n)" "p \<noteq> NULL" "q \<noteq> NULL" "n \<noteq> 0"
  shows "\<exists>r. cl_rmemcmp m p q n = Some r
     \<and> (r < 0 \<longleftrightarrow> le_value (bytes_at m p (unat n)) < le_value (bytes_at m q (unat n)))
     \<and> (r = 0 \<longleftrightarrow> bytes_at m p (unat n) = bytes_at m q (unat n))"
proof -
  have "1 \<le> unat n" using assms(5) by (simp add: unat_gt_0 Suc_leI)
  then have "uint (n - 1) = int (unat n) - 1"
    unfolding uint_nat unat_minus_one [OF assms(5)] by (simp only: of_nat_diff of_nat_1)
  then show ?thesis
    using rmemcmp_loop_result [OF assms(1,2)] assms(3,4) by (simp add: cl_rmemcmp_def)
qed


text \<open>Without bytes to compare the index starts at 2^32 - 1.\<close>

lemma cl_rmemcmp_size_0:
  assumes "p \<noteq> NULL" "q \<noteq> NULL" "m (p + 0xFFFFFFFF) = None"
  shows "cl_rmemcmp m p q 0 = None"
proof -
  have "uint (0 - 1 :: DWORD) = 0xFFFFFFFF"
    by (simp add: unsigned_minus_1_eq_mask mask_eq_exp_minus_1)
  then show ?thesis using assms by (subst cl_rmemcmp_def, subst rmemcmp_loop.simps) simp
qed

lemma memcmp_loop_result:
  "i \<le> n \<Longrightarrow> mapped m p n \<Longrightarrow> mapped m q n \<Longrightarrow> take i (bytes_at m p n) = take i (bytes_at m q n) \<Longrightarrow>
   \<exists>r. memcmp_loop m p q (int n) (int i) = Some r
     \<and> (r = 0 \<longleftrightarrow> bytes_at m p n = bytes_at m q n)
     \<and> (r \<noteq> 0 \<longrightarrow> (\<exists>k < n. take k (bytes_at m p n) = take k (bytes_at m q n)
          \<and> r = byte_diff (bytes_at m p n ! k) (bytes_at m q n ! k)))"
proof (induction "n - i" arbitrary: i)
  case 0
  then show ?case by (subst memcmp_loop.simps) simp
next
  case (Suc k)
  then have lt: "i < n" by simp
  have "m (p + of_nat i) \<noteq> None" "m (q + of_nat i) \<noteq> None" using Suc.prems lt by (simp_all add: mapped_def)
  then obtain a b where ab: "m (p + of_nat i) = Some a" "m (q + of_nat i) = Some b" by blast
  have nth: "bytes_at m p n ! i = a" "bytes_at m q n ! i = b" using ab lt by (simp_all add: bytes_at_def)
  show ?case
  proof (cases "a = b")
    case True
    then have "take (Suc i) (bytes_at m p n) = take (Suc i) (bytes_at m q n)"
      using Suc.prems(4) nth lt by (simp add: take_Suc_conv_app_nth)
    then have "\<exists>r. memcmp_loop m p q (int n) (int (Suc i)) = Some r
     \<and> (r = 0 \<longleftrightarrow> bytes_at m p n = bytes_at m q n)
     \<and> (r \<noteq> 0 \<longrightarrow> (\<exists>k < n. take k (bytes_at m p n) = take k (bytes_at m q n)
          \<and> r = byte_diff (bytes_at m p n ! k) (bytes_at m q n ! k)))"
      using Suc.hyps(2) Suc.prems lt by (intro Suc.hyps(1)) auto
    then show ?thesis
      using True ab lt by (subst memcmp_loop.simps) (simp add: add.commute)
  next
    case False
    moreover have "byte_diff a b \<noteq> 0" using False by (simp add: byte_diff_def word_uint_eq_iff)
    moreover have "bytes_at m p n \<noteq> bytes_at m q n" using False nth by auto
    ultimately show ?thesis
      using ab lt nth Suc.prems(4) by (subst memcmp_loop.simps) auto
  qed
qed

lemma cl_memcmp_result:
  assumes "mapped m p (unat n)" "mapped m q (unat n)" "p \<noteq> NULL" "q \<noteq> NULL"
  shows "\<exists>r. cl_memcmp m p q n = Some r
     \<and> (r = 0 \<longleftrightarrow> bytes_at m p (unat n) = bytes_at m q (unat n))
     \<and> (r \<noteq> 0 \<longrightarrow> (\<exists>k < unat n. take k (bytes_at m p (unat n)) = take k (bytes_at m q (unat n))
          \<and> r = byte_diff (bytes_at m p (unat n) ! k) (bytes_at m q (unat n) ! k)))"
  using memcmp_loop_result [of 0 "unat n" m p q] assms by (simp add: cl_memcmp_def)

lemma cl_memset_written:
  assumes "mapped m a (unat n)" "a \<noteq> NULL"
  shows "cl_memset m a v n = Some (written m a (replicate (unat n) v))"
proof -
  have "memset_loop (written m a (replicate (unat i) v)) a v n i = Some (written m a (replicate (unat n) v))"
    if "i \<le> n" for i
    using that
  proof (induction "unat n - unat i" arbitrary: i)
    case 0
    then have "i = n" by (simp add: word_le_nat_alt word_unat_eq_iff)
    then show ?case by (simp add: memset_loop.simps)
  next
    case (Suc k)
    then have lt: "i < n" by (simp add: word_less_nat_alt)
    then have i1: "unat (i + 1) = unat i + 1" by (simp add: unat_inc_below)
    have len: "unat i < 2 ^ 32" using unat32_bound [of i] by simp
    let ?w = "written m a (replicate (unat i) v)"
    have a: "unat (a + ucast i - a) = unat i" by simp
    obtain x where "m (a + ucast i) = Some x"
      using mappedD [OF assms(1), of "ucast i"] lt by (auto simp: word_less_nat_alt)
    then have "wr8 ?w (a + ucast i) v = Some (?w(a + ucast i \<mapsto> v))"
      by (auto simp: wr8_def written_def)
    moreover have "?w(a + ucast i \<mapsto> v) = written m a (replicate (unat (i + 1)) v)"
    proof
      fix x
      have "x = a + ucast i \<longleftrightarrow> unat (x - a) = unat i"
        by (metis a add_diff_cancel_left' diff_add_cancel word_unat_eq_iff add.commute)
      then show "(?w(a + ucast i \<mapsto> v)) x = written m a (replicate (unat (i + 1)) v) x"
        using i1 by (auto simp: written_def simp del: replicate.simps)
    qed
    moreover have "memset_loop (written m a (replicate (unat (i + 1)) v)) a v n (i + 1)
        = Some (written m a (replicate (unat n) v))"
      using Suc.hyps(1) [of "i + 1"] Suc.hyps(2) i1 lt by (simp add: word_le_nat_alt word_less_nat_alt)
    ultimately show ?case using lt by (subst memset_loop.simps) simp
  qed
  from this [of 0] assms(2) show ?thesis by (simp add: cl_memset_def written_def)
qed

lemma memscan_loop_result:
  "i \<le> n \<Longrightarrow> mapped m p (unat n) \<Longrightarrow> memscan_loop m p n v i =
     Some (i + of_nat (length (takeWhile (\<lambda>b. b = v) (drop (unat i) (bytes_at m p (unat n))))))"
proof (induction "unat n - unat i" arbitrary: i)
  case 0
  then have "i = n" by (simp add: word_le_nat_alt word_unat_eq_iff)
  then show ?case by (simp add: memscan_loop.simps)
next
  case (Suc k)
  then have lt: "i < n" by (simp add: word_less_nat_alt)
  then have i1: "unat (i + 1) = Suc (unat i)" and il: "unat i < unat n"
    by (simp_all add: unat_inc_below word_less_nat_alt)
  obtain b where b: "m (p + ucast i) = Some b"
    using mappedD [OF Suc.prems(2), of "ucast i"] il by auto
  then have "drop (unat i) (bytes_at m p (unat n)) = b # drop (unat (i + 1)) (bytes_at m p (unat n))"
    using il i1 by (simp add: Cons_nth_drop_Suc [symmetric] bytes_at_def)
  with Suc.hyps(1) [of "i + 1"] Suc.hyps(2) Suc.prems i1 lt b show ?case
    by (subst memscan_loop.simps) (simp add: word_le_nat_alt word_less_nat_alt add.assoc)
qed

lemma offset_inj:
  assumes "N \<le> 2 ^ 64" "i < N" "j < N"
  shows "s + of_nat i = (s + of_nat j :: ADDR) \<longleftrightarrow> i = j"
proof -
  have "unat (of_nat i :: ADDR) = i" "unat (of_nat j :: ADDR) = j"
    using assms by (auto intro: unat_of_nat_small)
  then show ?thesis by (metis add_left_cancel)
qed

text \<open>Copying upwards by \<open>k\<close> inside one range repeats its first \<open>k\<close> bytes.\<close>

lemma memmove_loop_repeats:
  assumes k: "0 < k" and N: "k + unat n \<le> 2 ^ 64"
  shows "i \<le> n \<Longrightarrow> mapped mi s (k + unat n) \<Longrightarrow> \<forall>j < k + unat i. mi (s + of_nat j) = m (s + of_nat (j mod k)) \<Longrightarrow>
    \<exists>m'. memmove_loop mi (s + of_nat k) s n i = Some m'
      \<and> (\<forall>j < k + unat n. m' (s + of_nat j) = m (s + of_nat (j mod k)))"
proof (induction "unat n - unat i" arbitrary: i mi)
  case 0
  then have "i = n" by (simp add: word_le_nat_alt word_unat_eq_iff)
  with 0 show ?case by (simp add: memmove_loop.simps)
next
  case (Suc r)
  then have lt: "i < n" "unat i < unat n" by (simp_all add: word_less_nat_alt)
  then have i1: "unat (i + 1) = unat i + 1" by (simp add: unat_inc_below)
  let ?a = "(s + of_nat k) + i"
  have a: "?a = s + of_nat (k + unat i)" by (simp add: add.assoc)
  obtain v where v: "mi (s + i) = Some v"
    using mappedD [OF Suc.prems(2), of i] lt(2) by auto
  then have v2: "m (s + of_nat (unat i mod k)) = Some v"
    using Suc.prems(3) [rule_format, of "unat i"] k by simp
  let ?m = "mi(?a \<mapsto> v)"
  have m1: "mapped ?m s (k + unat n)" using Suc.prems(2) by (auto simp: mapped_def)
  have "mi (s + of_nat (k + unat i)) \<noteq> None"
    using Suc.prems(2) [unfolded mapped_def, rule_format, of "k + unat i"] lt(2) by simp
  then have "mi ?a \<noteq> None" by (simp only: a not_False_eq_True)
  then have wr: "wr8 mi ?a v = Some ?m" by (simp add: wr8_def)
  have "?m (s + of_nat j) = m (s + of_nat (j mod k))" if "j < k + unat (i + 1)" for j
  proof (cases "j = k + unat i")
    case True
    with v2 a show ?thesis by simp
  next
    case False
    then have j: "j < k + unat i" using that i1 by simp
    then have "s + of_nat j \<noteq> ?a" unfolding a using offset_inj [OF N, of j "k + unat i" s] lt(2) by simp
    with Suc.prems(3) j show ?thesis by simp
  qed
  with Suc.hyps(1) [of "i + 1" ?m] Suc.hyps(2) m1 i1 lt
  have "\<exists>m'. memmove_loop ?m (s + of_nat k) s n (i + 1) = Some m'
      \<and> (\<forall>j < k + unat n. m' (s + of_nat j) = m (s + of_nat (j mod k)))"
    by (simp add: word_le_nat_alt)
  with lt(1) v wr show ?case by (subst memmove_loop.simps) simp
qed

section \<open>Properties\<close>

text \<open>
  \<^verbatim>\<open>cl_memcpy\<close>, which moves the odd bytes first and the rest in quadwords, copies: for
  accessible ranges with the destination not above the source inside the range it returns, every
  byte of the destination is the old byte of the source, and no other byte changes.
\<close>

theorem memcpy_copies:
  assumes "mapped m s (unat n)" and "mapped m d (unat n)" and "d \<noteq> NULL" and "s \<noteq> NULL"
    and "unat (s - d) + unat n \<le> 2 ^ 64"
  shows "\<exists>m'. cl_memcpy m d s n = Some m' \<and> cl_memmove m d s n = Some m'
    \<and> (\<forall>i < unat n. m' (d + of_nat i) = m (s + of_nat i))
    \<and> (\<forall>a. (\<forall>i < unat n. a \<noteq> d + of_nat i) \<longrightarrow> m' a = m a)"
proof -
  have ok: "copy_ok m d s (unat n)"
    using assms unat64_bound [of n] by (simp add: copy_ok_def copy_safe_def)
  have "copied m d s (unat n) (d + of_nat i) = m (s + of_nat i)" if "i < unat n" for i
  proof -
    have "unat (of_nat i :: ADDR) = i" using that unat_bound [of n] by (intro unat_of_nat_small) simp
    with that show ?thesis by (simp add: copied_def)
  qed
  moreover have "copied m d s (unat n) a = m a" if "\<forall>i < unat n. a \<noteq> d + of_nat i" for a
    using that [rule_format, of "unat (a - d)"] by (auto simp: copied_def)
  ultimately show ?thesis
    using cl_memcpy_copied [OF ok] cl_memmove_copied [OF ok] assms by blast
qed

definition sample_bytes :: bmem where
  "sample_bytes = (\<lambda>a. if 0x1000 \<le> a \<and> a < 0x1020 then Some (ucast (a - 0xFFF)) else None)"

lemma sample_bytes_mapped:
  assumes "0x1000 \<le> unat a" "unat a + n \<le> 0x1020"
  shows "mapped sample_bytes a n"
proof -
  have "unat (a + of_nat i) = unat a + i" if "i < n" for i
    using that assms unat_of_nat_small [of i, where 'a = 64] by (simp add: unat_word_ariths)
  with assms show ?thesis
    by (auto simp: mapped_def sample_bytes_def word_le_nat_alt word_less_nat_alt)
qed

theorem memcpy_copies_witness:
  "\<exists>m'. cl_memcpy sample_bytes 0x1000 0x1003 13 = Some m' \<and> m' 0x100C = Some 16 \<and> m' 0x1010 = Some 17"
proof -
  have "mapped sample_bytes 0x1003 13" "mapped sample_bytes 0x1000 13"
    by (simp_all add: sample_bytes_mapped)
  with memcpy_copies [of sample_bytes "0x1003" 13 "0x1000"] have "\<exists>m'. cl_memcpy sample_bytes 0x1000 0x1003 13 = Some m'
    \<and> (\<forall>i < 13. m' (0x1000 + of_nat i) = sample_bytes (0x1003 + of_nat i))
    \<and> (\<forall>a. (\<forall>i < 13. a \<noteq> 0x1000 + of_nat i) \<longrightarrow> m' a = sample_bytes a)" by simp blast
  then obtain m' where m':
    "cl_memcpy sample_bytes 0x1000 0x1003 13 = Some m'"
    "\<forall>i < 13. m' (0x1000 + of_nat i) = sample_bytes (0x1003 + of_nat i)"
    "\<forall>a. (\<forall>i < 13. a \<noteq> 0x1000 + of_nat i) \<longrightarrow> m' a = sample_bytes a"
    by blast
  have "\<forall>i < 13. 0x1010 \<noteq> (0x1000 + of_nat i :: ADDR)"
    by (auto simp: word_unat_eq_iff unat_word_ariths unat_of_nat_small)
  then have "m' 0x1010 = sample_bytes 0x1010" using m'(3) by blast
  moreover have "m' 0x100C = sample_bytes 0x100F" using m'(2) [rule_format, of 12] by simp
  moreover have "sample_bytes 0x1010 = Some 17" "sample_bytes 0x100F = Some 16" by (simp_all add: sample_bytes_def)
  ultimately show ?thesis using m'(1) by simp
qed


text \<open>
  When the destination starts inside the source, \<open>k\<close> bytes above its start,
  \<^verbatim>\<open>cl_memmove\<close> does not move: it repeats the first \<open>k\<close> bytes of the source over the
  whole destination.
\<close>

theorem memmove_overlap_repeats:
  assumes "s \<noteq> NULL" and "s + of_nat k \<noteq> NULL" and "0 < k" and "mapped m s (k + unat n)"
    and "k + unat n \<le> 2 ^ 64"
  shows "\<exists>m'. cl_memmove m (s + of_nat k) s n = Some m'
    \<and> (\<forall>j < k + unat n. m' (s + of_nat j) = m (s + of_nat (j mod k)))"
  using memmove_loop_repeats [OF assms(3,5), of 0 m s m] assms(1,2,4) by (simp add: cl_memmove_def)

theorem memmove_overlap_repeats_witness:
  "\<exists>m'. cl_memmove sample_bytes 0x1001 0x1000 4 = Some m' \<and> m' 0x1004 = Some 1 \<and> sample_bytes 0x1003 = Some 4"
proof -
  have "mapped sample_bytes 0x1000 (1 + 4)" by (simp add: sample_bytes_mapped)
  with memmove_overlap_repeats [of "0x1000" 1 sample_bytes 4] have
    "\<exists>m'. cl_memmove sample_bytes 0x1001 0x1000 4 = Some m'
       \<and> (\<forall>j < 5. m' (0x1000 + of_nat j) = sample_bytes 0x1000)" by simp
  then obtain m' where m': "cl_memmove sample_bytes 0x1001 0x1000 4 = Some m'"
    "\<forall>j < 5. m' (0x1000 + of_nat j) = sample_bytes 0x1000" by blast
  have "m' 0x1004 = sample_bytes 0x1000" using m'(2) [rule_format, of 4] by simp
  with m'(1) show ?thesis by (simp add: sample_bytes_def)
qed

text \<open>
  C34. \<^verbatim>\<open>cl_rmemcmp\<close> orders byte strings of equal, positive length by their value as
  little-endian numbers: negative, zero or positive as the first value is smaller, equal or
  greater.
\<close>

theorem rmemcmp_orders_values:
  assumes "mapped m p (unat n)" and "mapped m q (unat n)" and "p \<noteq> NULL" and "q \<noteq> NULL" and "n \<noteq> 0"
  shows "\<exists>r. cl_rmemcmp m p q n = Some r
    \<and> sgn r = sgn (int (le_value (bytes_at m p (unat n))) - int (le_value (bytes_at m q (unat n))))"
proof -
  let ?x = "le_value (bytes_at m p (unat n))" let ?y = "le_value (bytes_at m q (unat n))"
  obtain r where r: "cl_rmemcmp m p q n = Some r" "r < 0 \<longleftrightarrow> ?x < ?y" "r = 0 \<longleftrightarrow> ?x = ?y"
    using cl_rmemcmp_result [OF assms] by (auto simp: le_value_eq)
  then show ?thesis by (cases ?x ?y rule: linorder_cases) (auto simp: sgn_if)
qed

theorem rmemcmp_orders_values_witness:
  "\<exists>r. cl_rmemcmp sample_bytes 0x1000 0x1002 2 = Some r \<and> sgn r = - 1"
proof -
  have "mapped sample_bytes 0x1000 2" "mapped sample_bytes 0x1002 2"
    by (simp_all add: sample_bytes_mapped)
  moreover have "bytes_at sample_bytes 0x1000 2 = [1, 2]" "bytes_at sample_bytes 0x1002 2 = [3, 4]"
    by (simp_all add: bytes_at_def upt_rec sample_bytes_def)
  ultimately show ?thesis
    using rmemcmp_orders_values [of sample_bytes "0x1000" 2 "0x1002"] by simp
qed

end
