(* ===== verification/CL_String.thy ===== *)
theory CL_String
  imports CL_Memory
begin

text \<open>
  \<^verbatim>\<open>CommonLib/src/cl_string.c\<close> without the formatted output: comparing, searching, copying,
  measuring, splitting and trimming NUL-terminated strings.

  Strings live in the byte memory of \<open>CL_Memory\<close>. A \<^verbatim>\<open>char\<close> is signed, and every index is a
  \<^verbatim>\<open>DWORD\<close> that wraps around; a loop that looks for a terminator that is not there runs into a
  fault or does not end, which is \<open>None\<close>. An \<^verbatim>\<open>int\<close> result is the integer it denotes, a status
  returned as one is its signed value.
\<close>

section \<open>Characters\<close>

definition LOWER_UPPER_DIFF :: BYTE where
  "LOWER_UPPER_DIFF = 0x20"

definition cl_tolower :: "BYTE \<Rightarrow> BYTE" where
  "cl_tolower c = (c OR LOWER_UPPER_DIFF)"

definition isspace :: "BYTE \<Rightarrow> bool" where
  "isspace c \<longleftrightarrow> c = 0x20 \<or> c = 0x09 \<or> c = 0x0A \<or> c = 0x0D"

definition INVALID_STRING_SIZE :: DWORD where "INVALID_STRING_SIZE = MAX_DWORD"

text \<open>The character \<^verbatim>\<open>s[i]\<close>.\<close>

definition ch :: "bmem \<Rightarrow> ADDR \<Rightarrow> DWORD \<Rightarrow> BYTE option" where
  "ch m s i = m (s + ucast i)"

section \<open>Comparing\<close>

text \<open>The end of a comparison: which string has characters left at index \<open>i\<close>?\<close>

definition strcmp_end :: "bmem \<Rightarrow> ADDR \<Rightarrow> ADDR \<Rightarrow> DWORD \<Rightarrow> int option" where
  "strcmp_end m str1 str2 i = do {
     a \<leftarrow> ch m str1 i;
     if a \<noteq> 0 then Some 1
     else do {
       b \<leftarrow> ch m str2 i;
       if b \<noteq> 0 then Some (-1) else Some 0
     }
   }"

text \<open>The loop of \<^verbatim>\<open>cl_strcmp\<close>, and of \<^verbatim>\<open>cl_stricmp\<close> with \<open>f\<close> the conversion to lower case.\<close>

partial_function (option) strcmp_loop :: "(BYTE \<Rightarrow> BYTE) \<Rightarrow> bmem \<Rightarrow> ADDR \<Rightarrow> ADDR \<Rightarrow> DWORD \<Rightarrow> int option" where
  "strcmp_loop f m str1 str2 i = do {
     a \<leftarrow> ch m str1 i;
     if a = 0 then strcmp_end m str1 str2 i
     else do {
       b \<leftarrow> ch m str2 i;
       if b = 0 then strcmp_end m str1 str2 i
       else if sint (f a) > sint (f b) then Some 1
       else if sint (f a) < sint (f b) then Some (-1)
       else strcmp_loop f m str1 str2 (i + 1)
     }
   }"

definition cl_strcmp :: "bmem \<Rightarrow> ADDR \<Rightarrow> ADDR \<Rightarrow> int option" where
  "cl_strcmp m str1 str2 =
     (if str1 = NULL then Some (sint STATUS_INVALID_PARAMETER1)
      else if str2 = NULL then Some (sint STATUS_INVALID_PARAMETER2)
      else strcmp_loop (\<lambda>c. c) m str1 str2 0)"

definition cl_stricmp :: "bmem \<Rightarrow> ADDR \<Rightarrow> ADDR \<Rightarrow> int option" where
  "cl_stricmp m str1 str2 =
     (if str1 = NULL then Some (sint STATUS_INVALID_PARAMETER1)
      else if str2 = NULL then Some (sint STATUS_INVALID_PARAMETER2)
      else strcmp_loop cl_tolower m str1 str2 0)"

text \<open>The end of a bounded comparison, after the test for \<^verbatim>\<open>i == length\<close>.\<close>

definition strncmp_end :: "bmem \<Rightarrow> ADDR \<Rightarrow> DWORD \<Rightarrow> DWORD \<Rightarrow> int option" where
  "strncmp_end m str1 len i =
     (if i = len then Some 0
      else do { a \<leftarrow> ch m str1 i; if a \<noteq> 0 then Some 1 else Some (-1) })"

function strncmp_loop :: "(BYTE \<Rightarrow> BYTE) \<Rightarrow> bmem \<Rightarrow> ADDR \<Rightarrow> ADDR \<Rightarrow> DWORD \<Rightarrow> DWORD \<Rightarrow> int option" where
  "strncmp_loop f m str1 str2 len i =
     (if i < len then do {
        a \<leftarrow> ch m str1 i;
        if a = 0 then strncmp_end m str1 len i
        else do {
          b \<leftarrow> ch m str2 i;
          if b = 0 then strncmp_end m str1 len i
          else if sint (f a) > sint (f b) then Some 1
          else if sint (f a) < sint (f b) then Some (-1)
          else strncmp_loop f m str1 str2 len (i + 1)
        }
      }
      else strncmp_end m str1 len i)"
  by pat_completeness auto
termination
  by (relation "measure (\<lambda>(f, m, str1, str2, len, i). unat len - unat i)")
    (auto simp: word_less_nat_alt unat_inc_below)

definition cl_strncmp :: "bmem \<Rightarrow> ADDR \<Rightarrow> ADDR \<Rightarrow> DWORD \<Rightarrow> int option" where
  "cl_strncmp m str1 str2 len =
     (if str1 = NULL then Some (sint STATUS_INVALID_PARAMETER1)
      else if str2 = NULL then Some (sint STATUS_INVALID_PARAMETER2)
      else if len = 0 then Some (sint STATUS_INVALID_PARAMETER3)
      else strncmp_loop (\<lambda>c. c) m str1 str2 len 0)"

definition cl_strnicmp :: "bmem \<Rightarrow> ADDR \<Rightarrow> ADDR \<Rightarrow> DWORD \<Rightarrow> int option" where
  "cl_strnicmp m str1 str2 len =
     (if str1 = NULL then Some (sint STATUS_INVALID_PARAMETER1)
      else if str2 = NULL then Some (sint STATUS_INVALID_PARAMETER2)
      else if len = 0 then Some (sint STATUS_INVALID_PARAMETER3)
      else strncmp_loop cl_tolower m str1 str2 len 0)"

section \<open>Searching\<close>

partial_function (option) strchr_loop :: "bmem \<Rightarrow> ADDR \<Rightarrow> BYTE \<Rightarrow> DWORD \<Rightarrow> ADDR option" where
  "strchr_loop m str c i = do {
     a \<leftarrow> ch m str i;
     if a = 0 then Some str
     else if a = c then Some (str + ucast i)
     else strchr_loop m str c (i + 1)
   }"

definition cl_strchr :: "bmem \<Rightarrow> ADDR \<Rightarrow> BYTE \<Rightarrow> ADDR option" where
  "cl_strchr m str c = (if str = NULL then Some NULL else strchr_loop m str c 0)"

partial_function (option) strrchr_loop :: "bmem \<Rightarrow> ADDR \<Rightarrow> BYTE \<Rightarrow> ADDR \<Rightarrow> DWORD \<Rightarrow> ADDR option" where
  "strrchr_loop m str c charIndex i = do {
     a \<leftarrow> ch m str i;
     if a = 0 then Some charIndex
     else strrchr_loop m str c (if a = c then str + ucast i else charIndex) (i + 1)
   }"

definition cl_strrchr :: "bmem \<Rightarrow> ADDR \<Rightarrow> BYTE \<Rightarrow> ADDR option" where
  "cl_strrchr m str c = (if str = NULL then Some NULL else strrchr_loop m str c str 0)"

section \<open>Copying and measuring\<close>

partial_function (option) strcpy_loop :: "bmem \<Rightarrow> ADDR \<Rightarrow> ADDR \<Rightarrow> DWORD \<Rightarrow> bmem option" where
  "strcpy_loop m dst src i = do {
     a \<leftarrow> ch m src i;
     if a \<noteq> 0 then do {
       m \<leftarrow> wr8 m (dst + ucast i) a;
       strcpy_loop m dst src (i + 1)
     }
     else wr8 m (dst + ucast i) 0
   }"

definition cl_strcpy :: "bmem \<Rightarrow> ADDR \<Rightarrow> ADDR \<Rightarrow> bmem option" where
  "cl_strcpy m dst src = do {
     ASSERT (NULL \<noteq> dst);
     ASSERT (NULL \<noteq> src);
     strcpy_loop m dst src 0
   }"

function strncpy_loop :: "bmem \<Rightarrow> ADDR \<Rightarrow> ADDR \<Rightarrow> DWORD \<Rightarrow> DWORD \<Rightarrow> bmem option" where
  "strncpy_loop m dst src len i =
     (if i < len then do {
        a \<leftarrow> ch m src i;
        if a \<noteq> 0 then do {
          m \<leftarrow> wr8 m (dst + ucast i) a;
          strncpy_loop m dst src len (i + 1)
        }
        else wr8 m (dst + ucast i) 0
      }
      else wr8 m (dst + ucast i) 0)"
  by pat_completeness auto
termination
  by (relation "measure (\<lambda>(m, dst, src, len, i). unat len - unat i)")
    (auto simp: word_less_nat_alt unat_inc_below)

definition cl_strncpy :: "bmem \<Rightarrow> ADDR \<Rightarrow> ADDR \<Rightarrow> DWORD \<Rightarrow> bmem option" where
  "cl_strncpy m dst src len = do {
     ASSERT (NULL \<noteq> dst);
     ASSERT (NULL \<noteq> src);
     ASSERT (0 \<noteq> len);
     strncpy_loop m dst src len 0
   }"

partial_function (option) strlen_loop :: "bmem \<Rightarrow> ADDR \<Rightarrow> DWORD \<Rightarrow> DWORD option" where
  "strlen_loop m str i = do {
     a \<leftarrow> ch m str i;
     if a \<noteq> 0 then strlen_loop m str (i + 1) else Some i
   }"

definition cl_strlen :: "bmem \<Rightarrow> ADDR \<Rightarrow> DWORD option" where
  "cl_strlen m str = (if str = NULL then Some INVALID_STRING_SIZE else strlen_loop m str 0)"

function strlen_s_loop :: "bmem \<Rightarrow> ADDR \<Rightarrow> DWORD \<Rightarrow> DWORD \<Rightarrow> DWORD option" where
  "strlen_s_loop m str maxLen i =
     (if i < maxLen then do {
        a \<leftarrow> ch m str i;
        if a \<noteq> 0 then strlen_s_loop m str maxLen (i + 1) else Some i
      }
      else Some i)"
  by pat_completeness auto
termination
  by (relation "measure (\<lambda>(m, str, maxLen, i). unat maxLen - unat i)")
    (auto simp: word_less_nat_alt unat_inc_below)

definition cl_strlen_s :: "bmem \<Rightarrow> ADDR \<Rightarrow> DWORD \<Rightarrow> DWORD option" where
  "cl_strlen_s m str maxLen = (if str = NULL then Some INVALID_STRING_SIZE else strlen_s_loop m str maxLen 0)"

section \<open>Splitting and trimming\<close>

text \<open>The inner loop of \<^verbatim>\<open>cl_strtok_s\<close>: is \<open>c\<close> one of the delimiters?\<close>

partial_function (option) strtok_delim_loop :: "bmem \<Rightarrow> ADDR \<Rightarrow> BYTE \<Rightarrow> DWORD \<Rightarrow> bool option" where
  "strtok_delim_loop m delimiters c j = do {
     d \<leftarrow> ch m delimiters j;
     if d = 0 then Some False
     else if c = d then Some True
     else strtok_delim_loop m delimiters c (j + 1)
   }"

text \<open>The outer loop: the index of the first delimiter (\<open>True\<close>) or of the terminator (\<open>False\<close>).\<close>

partial_function (option) strtok_loop :: "bmem \<Rightarrow> ADDR \<Rightarrow> ADDR \<Rightarrow> DWORD \<Rightarrow> (DWORD \<times> bool) option" where
  "strtok_loop m pStr delimiters i = do {
     c \<leftarrow> ch m pStr i;
     if c = 0 then Some (i, False)
     else do {
       b \<leftarrow> strtok_delim_loop m delimiters c 0;
       if b then Some (i, True) else strtok_loop m pStr delimiters (i + 1)
     }
   }"

text \<open>The result, the memory and the \<^verbatim>\<open>*context\<close>; \<open>None\<close> is a null \<^verbatim>\<open>context\<close>.\<close>

definition cl_strtok_s :: "bmem \<Rightarrow> ADDR \<Rightarrow> ADDR \<Rightarrow> ADDR option \<Rightarrow> (ADDR \<times> bmem \<times> ADDR option) option" where
  "cl_strtok_s m strToken delimiters ctx =
     (if delimiters = NULL then Some (NULL, m, ctx)
      else case ctx of
        None \<Rightarrow> Some (NULL, m, ctx)
      | Some context \<Rightarrow>
          if context = NULL \<and> strToken = NULL then Some (NULL, m, ctx)
          else do {
            let pStr = (if context = NULL then strToken else context);
            c \<leftarrow> ch m pStr 0;
            if c = 0 then Some (NULL, m, ctx)
            else do {
              (i, found) \<leftarrow> strtok_loop m pStr delimiters 0;
              if found then do {
                m \<leftarrow> wr8 m (pStr + ucast i) 0;
                Some (pStr, m, Some (pStr + ucast (i + 1)))
              }
              else do {
                c \<leftarrow> ch m pStr i;
                Some (pStr, m, Some (if c = 0 then pStr + ucast i else pStr + ucast (i + 1)))
              }
            }
          })"

partial_function (option) strcelem_loop :: "bmem \<Rightarrow> BYTE \<Rightarrow> ADDR \<Rightarrow> ADDR \<Rightarrow> DWORD \<Rightarrow> DWORD option" where
  "strcelem_loop m delimiter curPosition pPrevValue noOfElements =
     (if curPosition = pPrevValue then Some noOfElements
      else do {
        p \<leftarrow> cl_strchr m (curPosition + 1) delimiter;
        strcelem_loop m delimiter p (curPosition + 1) (noOfElements + 1)
      })"

definition cl_strcelem :: "bmem \<Rightarrow> ADDR \<Rightarrow> BYTE \<Rightarrow> DWORD option" where
  "cl_strcelem m string delimiter =
     (if string = NULL then Some INVALID_STRING_SIZE
      else do {
        p \<leftarrow> cl_strchr m string delimiter;
        strcelem_loop m delimiter p string 1
      })"

text \<open>The first loop of \<^verbatim>\<open>cl_strtrim\<close> and the one from the right.\<close>

partial_function (option) strtrim_left :: "bmem \<Rightarrow> ADDR \<Rightarrow> DWORD \<Rightarrow> DWORD option" where
  "strtrim_left m string i = do {
     c \<leftarrow> ch m string i;
     if c = 0 then Some MAX_DWORD
     else if \<not> isspace c then Some i
     else strtrim_left m string (i + 1)
   }"

function strtrim_right :: "bmem \<Rightarrow> ADDR \<Rightarrow> DWORD \<Rightarrow> DWORD \<Rightarrow> DWORD \<Rightarrow> (bmem \<times> DWORD) option" where
  "strtrim_right m string startIndex lengthAfterRightTrim i =
     (if i > startIndex then do {
        c \<leftarrow> ch m string (i - 1);
        if \<not> isspace c then do {
          m \<leftarrow> wr8 m (string + ucast i) 0;
          Some (m, i)
        }
        else strtrim_right m string startIndex lengthAfterRightTrim (i - 1)
      }
      else Some (m, lengthAfterRightTrim))"
  by pat_completeness auto
termination
proof (relation "measure (\<lambda>(m, string, startIndex, l, i). unat i)")
  fix i startIndex :: DWORD
  assume "startIndex < i"
  then have "i \<noteq> 0" by auto
  then show "((m :: bmem, string :: ADDR, startIndex, l :: DWORD, i - 1), (m, string, startIndex, l, i))
      \<in> measure (\<lambda>(m, string, startIndex, l, i). unat i)" for m string l
    using unat_minus_one [of i] unat_gt_0 [of i] by simp
qed simp

definition cl_strtrim :: "bmem \<Rightarrow> ADDR \<Rightarrow> bmem option" where
  "cl_strtrim m string = do {
     ASSERT (NULL \<noteq> string);
     startIndex \<leftarrow> strtrim_left m string 0;
     if startIndex = MAX_DWORD then wr8 m string 0
     else do {
       lengthAfterRightTrim \<leftarrow> cl_strlen m string;
       n \<leftarrow> cl_strlen m string;
       (m, lengthAfterRightTrim) \<leftarrow> strtrim_right m string startIndex lengthAfterRightTrim n;
       if startIndex \<noteq> 0 then do {
         ASSERT (lengthAfterRightTrim \<noteq> 0);
         cl_memmove m string (string + ucast startIndex) (ucast lengthAfterRightTrim)
       }
       else Some m
     }
   }"

declare strncmp_loop.simps [simp del] strncpy_loop.simps [simp del] strlen_s_loop.simps [simp del]
  strtrim_right.simps [simp del]

section \<open>Strings in memory\<close>

text \<open>The characters \<open>s\<close>, none of them NUL, followed by a terminator, at address \<open>a\<close>.\<close>

definition cstr :: "bmem \<Rightarrow> ADDR \<Rightarrow> BYTE list \<Rightarrow> bool" where
  "cstr m a s \<longleftrightarrow> length s < 2 ^ 32 \<and> 0 \<notin> set s
     \<and> (\<forall>i < length s. m (a + of_nat i) = Some (s ! i)) \<and> m (a + of_nat (length s)) = Some 0"

lemma ucast_of_nat_DWORD: "k < 2 ^ 32 \<Longrightarrow> (ucast (of_nat k :: DWORD) :: ADDR) = of_nat k"
  by (simp add: word_unat_eq_iff unat_of_nat_small)

lemma ch_of_nat: "k < 2 ^ 32 \<Longrightarrow> ch m a (of_nat k) = m (a + of_nat k)"
  by (simp add: ch_def ucast_of_nat_DWORD)

lemma cstr_ch: "cstr m a s \<Longrightarrow> k < length s \<Longrightarrow> ch m a (of_nat k) = Some (s ! k)"
  by (simp add: cstr_def ch_of_nat)

lemma cstr_ch_end: "cstr m a s \<Longrightarrow> ch m a (of_nat (length s)) = Some 0"
  by (simp add: cstr_def ch_of_nat)

lemma cstr_ch_0: "cstr m a s \<Longrightarrow> ch m a 0 = Some (if s = [] then 0 else s ! 0)"
  using cstr_ch [of m a s 0] cstr_ch_end [of m a s] by auto

lemma cstr_nz: "cstr m a s \<Longrightarrow> k < length s \<Longrightarrow> s ! k \<noteq> 0"
  unfolding cstr_def by (metis nth_mem)

lemma cstr_len: "cstr m a s \<Longrightarrow> k \<le> length s \<Longrightarrow> k < 2 ^ 32"
  by (auto simp: cstr_def)

lemmas cstr_rules = cstr_ch cstr_ch_end cstr_nz

lemma of_nat_Suc_word: "(of_nat k :: 'a::len word) + 1 = of_nat (Suc k)"
  by simp

text \<open>Induction over the rest of a string from index \<open>k\<close>.\<close>

lemma index_induct [consumes 1, case_names stop step]:
  assumes "k \<le> n" "P n" "\<And>k. k < n \<Longrightarrow> P (Suc k) \<Longrightarrow> P k"
  shows "P k"
  using assms by (rule inc_induct)

section \<open>Comparing strings\<close>

fun strcmp_spec :: "(BYTE \<Rightarrow> BYTE) \<Rightarrow> BYTE list \<Rightarrow> BYTE list \<Rightarrow> int" where
  "strcmp_spec f [] [] = 0"
| "strcmp_spec f [] (b # t) = -1"
| "strcmp_spec f (a # s) [] = 1"
| "strcmp_spec f (a # s) (b # t) =
     (if sint (f a) > sint (f b) then 1 else if sint (f a) < sint (f b) then -1 else strcmp_spec f s t)"

lemma strcmp_end_spec:
  assumes "cstr m a s" "cstr m b t" "k \<le> length s" "k \<le> length t" "k = length s \<or> k = length t"
  shows "strcmp_end m a b (of_nat k) = Some (strcmp_spec f (drop k s) (drop k t))"
proof -
  have b: "ch m b (of_nat k) = Some (if k = length t then 0 else t ! k)"
    using assms(2,4) cstr_ch [of m b t k] cstr_ch_end [of m b t] by auto
  show ?thesis
  proof (cases "k = length s")
    case True
    with assms(1) have "ch m a (of_nat k) = Some 0" using cstr_ch_end [of m a s] by simp
    with True b show ?thesis using assms(2,4) cstr_nz [of m b t k]
      by (cases "drop k t") (auto simp: strcmp_end_def)
  next
    case False
    with assms have "ch m a (of_nat k) = Some (s ! k)" "s ! k \<noteq> 0" "k < length s" "k = length t"
      using cstr_ch cstr_nz by auto
    then show ?thesis by (simp add: strcmp_end_def Cons_nth_drop_Suc [symmetric])
  qed
qed

lemma strcmp_loop_spec:
  assumes s: "cstr m a s" "cstr m b t" and k: "k \<le> min (length s) (length t)"
  shows "strcmp_loop f m a b (of_nat k) = Some (strcmp_spec f (drop k s) (drop k t))"
  using k
proof (induction rule: index_induct)
  case stop
  let ?n = "min (length s) (length t)"
  have "strcmp_loop f m a b (of_nat ?n) = strcmp_end m a b (of_nat ?n)"
  proof (cases "length s \<le> length t")
    case True
    then show ?thesis using cstr_ch_end [OF s(1)] by (subst strcmp_loop.simps) (simp add: min_def)
  next
    case False
    then have "ch m a (of_nat ?n) = Some (s ! ?n)" "s ! ?n \<noteq> 0" "ch m b (of_nat ?n) = Some 0"
      using s cstr_ch [of m a s ?n] cstr_nz [of m a s ?n] cstr_ch_end [of m b t] by (auto simp: min_def)
    then show ?thesis by (subst strcmp_loop.simps) simp
  qed
  then show ?case using strcmp_end_spec [OF s, of ?n] by (simp add: min_def split: if_splits)
next
  case (step k)
  then have k: "k < length s" "k < length t" by simp_all
  then have "ch m a (of_nat k) = Some (s ! k)" "ch m b (of_nat k) = Some (t ! k)" "s ! k \<noteq> 0" "t ! k \<noteq> 0"
    using s cstr_rules by blast+
  then show ?case using step k
    by (subst strcmp_loop.simps) (simp add: Cons_nth_drop_Suc [symmetric] add.commute)
qed

text \<open>The order of the comparison: lexicographic on the signed values.\<close>

definition str_less :: "(BYTE \<Rightarrow> BYTE) \<Rightarrow> BYTE list \<Rightarrow> BYTE list \<Rightarrow> bool" where
  "str_less f s t \<longleftrightarrow> (map (sint \<circ> f) s, map (sint \<circ> f) t) \<in> lexord {(x, y). x < y}"

lemma strcmp_spec_order:
  "strcmp_spec f s t = (if map f s = map f t then 0 else if str_less f s t then -1 else 1)"
  by (induction f s t rule: strcmp_spec.induct) (auto simp: str_less_def signed_word_eqI)

fun strncmp_spec :: "(BYTE \<Rightarrow> BYTE) \<Rightarrow> nat \<Rightarrow> BYTE list \<Rightarrow> BYTE list \<Rightarrow> int" where
  "strncmp_spec f 0 s t = 0"
| "strncmp_spec f (Suc n) [] t = -1"
| "strncmp_spec f (Suc n) (a # s) [] = 1"
| "strncmp_spec f (Suc n) (a # s) (b # t) =
     (if sint (f a) > sint (f b) then 1 else if sint (f a) < sint (f b) then -1 else strncmp_spec f n s t)"

lemma strncmp_loop_spec:
  assumes s: "cstr m a s" "cstr m b t" and k: "k \<le> unat len" "k \<le> length s" "k \<le> length t"
  shows "strncmp_loop f m a b len (of_nat k) = Some (strncmp_spec f (unat len - k) (drop k s) (drop k t))"
  using k
proof (induction "unat len - k" arbitrary: k)
  case 0
  then have "unat len = k" by simp
  then have "of_nat k = len" by auto
  then show ?case using 0 by (subst strncmp_loop.simps) (simp add: strncmp_end_def)
next
  case (Suc n)
  then have k: "(of_nat k :: DWORD) < len" "k < unat len" "unat len - k = Suc n"
    using unat32_bound [of len] by (auto simp: word_less_nat_alt unat_of_nat_small)
  then have ne: "of_nat k \<noteq> len" by auto
  show ?case
  proof (cases "k = length s")
    case True
    with s have "ch m a (of_nat k) = Some 0" using cstr_ch_end by blast
    with k ne True show ?thesis by (subst strncmp_loop.simps) (simp add: strncmp_end_def)
  next
    case ks: False
    with Suc.prems have ks: "k < length s" by simp
    then have a: "ch m a (of_nat k) = Some (s ! k)" "s ! k \<noteq> 0" using s cstr_rules by blast+
    show ?thesis
    proof (cases "k = length t")
      case True
      with s have "ch m b (of_nat k) = Some 0" using cstr_ch_end by blast
      with k ne a ks True show ?thesis
        by (subst strncmp_loop.simps) (simp add: strncmp_end_def Cons_nth_drop_Suc [symmetric])
    next
      case False
      with Suc.prems have kt: "k < length t" by simp
      then have "ch m b (of_nat k) = Some (t ! k)" "t ! k \<noteq> 0" using s cstr_rules by blast+
      moreover have "strncmp_loop f m a b len (of_nat (Suc k)) = Some (strncmp_spec f n (drop (Suc k) s) (drop (Suc k) t))"
      proof -
        have n: "n = unat len - Suc k" using k(3) by simp
        show ?thesis unfolding n by (rule Suc.hyps(1) [OF n]) (use ks kt k(2) in auto)
      qed
      ultimately show ?thesis using k a ks kt
        by (subst strncmp_loop.simps) (simp add: Cons_nth_drop_Suc [symmetric] add.commute)
    qed
  qed
qed

lemma strncmp_spec_order:
  "n \<le> length s \<Longrightarrow> n \<le> length t \<Longrightarrow> strncmp_spec f n s t = strcmp_spec f (take n s) (take n t)"
  by (induction f n s t rule: strncmp_spec.induct) auto

lemma strncmp_spec_short: "length s < n \<Longrightarrow> strncmp_spec f n s s = -1"
proof (induction s arbitrary: n)
  case Nil
  then show ?case by (cases n) simp_all
next
  case (Cons a s)
  then show ?case by (cases n) simp_all
qed

section \<open>Searching and measuring\<close>

lemma strlen_loop_spec: "cstr m a s \<Longrightarrow> k \<le> length s \<Longrightarrow> strlen_loop m a (of_nat k) = Some (of_nat (length s))"
proof (rotate_tac 1, induction rule: index_induct)
  case stop
  then show ?case using cstr_ch_end by (subst strlen_loop.simps) simp
next
  case (step k)
  then show ?case using cstr_ch [of m a s k] cstr_nz [of m a s k] by (subst strlen_loop.simps) (simp add: add.commute)
qed

lemma cl_strlen_cstr: "cstr m a s \<Longrightarrow> a \<noteq> NULL \<Longrightarrow> cl_strlen m a = Some (of_nat (length s))"
  using strlen_loop_spec [of m a s 0] by (simp add: cl_strlen_def)

lemma strlen_s_loop_spec:
  "cstr m a s \<Longrightarrow> k \<le> length s \<Longrightarrow> k \<le> unat n \<Longrightarrow> strlen_s_loop m a n (of_nat k) = Some (of_nat (min (length s) (unat n)))"
proof (induction "unat n - k" arbitrary: k)
  case 0
  then have "unat n = k" by simp
  then have "of_nat k = n" by auto
  with 0 show ?case by (subst strlen_s_loop.simps) (simp add: min_def)
next
  case (Suc x)
  then have k: "(of_nat k :: DWORD) < n" "k < unat n" "x = unat n - Suc k"
    using unat32_bound [of n] by (auto simp: word_less_nat_alt unat_of_nat_small)
  show ?case
  proof (cases "k = length s")
    case True
    with Suc.prems k show ?thesis using cstr_ch_end [of m a s] by (subst strlen_s_loop.simps) (simp add: min_def)
  next
    case False
    with Suc.prems have "k < length s" by simp
    with Suc.prems k Suc.hyps(1) [OF k(3)] show ?thesis using cstr_ch [of m a s k] cstr_nz [of m a s k]
      by (subst strlen_s_loop.simps) (simp add: add.commute)
  qed
qed

text \<open>The index of the first and of the last \<open>c\<close> of a string, if there is one.\<close>

definition first_index :: "BYTE \<Rightarrow> BYTE list \<Rightarrow> nat" where
  "first_index c s = length (takeWhile (\<lambda>x. x \<noteq> c) s)"

lemma first_index_Cons: "first_index c (x # s) = (if x = c then 0 else Suc (first_index c s))"
  by (simp add: first_index_def)

lemma strchr_loop_spec:
  assumes "cstr m a s"
  shows "k \<le> length s \<Longrightarrow> strchr_loop m a c (of_nat k)
    = Some (if c \<in> set (drop k s) then a + of_nat (k + first_index c (drop k s)) else a)"
proof (induction rule: index_induct)
  case stop
  then show ?case using cstr_ch_end [OF assms] by (subst strchr_loop.simps) simp
next
  case (step k)
  have "drop k s = s ! k # drop (Suc k) s" using step by (simp add: Cons_nth_drop_Suc)
  moreover have "(ucast (of_nat k :: DWORD) :: ADDR) = of_nat k"
    using cstr_len [OF assms, of k] step by (intro ucast_of_nat_DWORD) simp
  ultimately show ?case using step cstr_ch [OF assms, of k] cstr_nz [OF assms, of k]
    by (subst strchr_loop.simps) (auto simp: first_index_Cons add.commute)
qed

lemma strrchr_loop_spec:
  assumes "cstr m a s"
  shows "k \<le> length s \<Longrightarrow> strrchr_loop m a c p (of_nat k)
    = Some (if c \<in> set (drop k s) then a + of_nat (length s - Suc (first_index c (rev (drop k s)))) else p)"
proof (induction arbitrary: p rule: index_induct)
  case stop
  then show ?case using cstr_ch_end [OF assms] by (subst strrchr_loop.simps) simp
next
  case (step k)
  have d: "drop k s = s ! k # drop (Suc k) s" using step by (simp add: Cons_nth_drop_Suc)
  have "first_index c (rev (drop (Suc k) s) @ [s ! k])
      = (if c \<in> set (drop (Suc k) s) then first_index c (rev (drop (Suc k) s)) else length s - Suc k + of_bool (s ! k \<noteq> c))"
    by (auto simp: first_index_def takeWhile_append)
  moreover have "(ucast (of_nat k :: DWORD) :: ADDR) = of_nat k"
    using cstr_len [OF assms, of k] step by (intro ucast_of_nat_DWORD) simp
  moreover have "length s - Suc (length s - Suc k) = k" using step.hyps by simp
  ultimately show ?case using step cstr_ch [OF assms, of k] cstr_nz [OF assms, of k]
    by (subst strrchr_loop.simps) (auto simp: d add.commute)
qed

lemma cl_strchr_cstr:
  "cstr m a s \<Longrightarrow> a \<noteq> NULL \<Longrightarrow> cl_strchr m a c = Some (if c \<in> set s then a + of_nat (first_index c s) else a)"
  using strchr_loop_spec [of m a s 0 c] by (simp add: cl_strchr_def)

lemma cl_strrchr_cstr:
  "cstr m a s \<Longrightarrow> a \<noteq> NULL
    \<Longrightarrow> cl_strrchr m a c = Some (if c \<in> set s then a + of_nat (length s - Suc (first_index c (rev s))) else a)"
  using strrchr_loop_spec [of m a s 0 c a] by (simp add: cl_strrchr_def)

section \<open>Copying strings\<close>

text \<open>The \<open>n\<close> bytes at \<open>a\<close> and the \<open>k\<close> bytes at \<open>b\<close> have no byte in common.\<close>

definition apart :: "ADDR \<Rightarrow> nat \<Rightarrow> ADDR \<Rightarrow> nat \<Rightarrow> bool" where
  "apart a n b k \<longleftrightarrow> (\<forall>i < n. \<forall>j < k. a + of_nat i \<noteq> b + of_nat j)"

lemma written_outside: "\<not> unat (x - d) < length bs \<Longrightarrow> written m d bs x = m x"
  by (simp add: written_def)

lemma written_inside:
  assumes "i < length bs" "length bs \<le> 2 ^ 64"
  shows "written m d bs (d + of_nat i) = Some (bs ! i)"
proof -
  have "unat (d + of_nat i - d) = i" using assms by (simp add: unat_of_nat_small)
  then show ?thesis using assms by (simp add: written_def)
qed

lemma apart_outside: "apart a n b k \<Longrightarrow> i < n \<Longrightarrow> \<not> unat (a + of_nat i - b) < k"
proof
  assume *: "apart a n b k" "i < n" "unat (a + of_nat i - b) < k"
  have "a + of_nat i = b + of_nat (unat (a + of_nat i - b))" by simp
  with * show False unfolding apart_def by blast
qed

lemma written_apart:
  "apart a n b (length bs) \<Longrightarrow> i < n \<Longrightarrow> written m b bs (a + of_nat i) = m (a + of_nat i)"
  using apart_outside [of a n b "length bs" i] by (simp add: written_outside)

lemma written_Nil [simp]: "written m d [] = m"
  by (simp add: written_def)

lemma written_snoc:
  assumes "length bs < 2 ^ 64"
  shows "(written m d bs)(d + of_nat (length bs) \<mapsto> v) = written m d (bs @ [v])"
proof
  fix x
  have l: "unat (of_nat (length bs) :: ADDR) = length bs" using assms by (intro unat_of_nat_small) simp
  show "((written m d bs)(d + of_nat (length bs) \<mapsto> v)) x = written m d (bs @ [v]) x"
  proof (cases "x = d + of_nat (length bs)")
    case True
    with l show ?thesis by (simp add: written_def)
  next
    case False
    then have "unat (x - d) \<noteq> length bs" by (metis add.commute diff_add_cancel of_nat_unat ucast_id)
    with False show ?thesis by (auto simp: written_def nth_append)
  qed
qed

lemma wr8_written:
  assumes "mapped m d (Suc (length bs))" "length bs < 2 ^ 32"
  shows "wr8 (written m d bs) (d + of_nat (length bs)) v = Some (written m d (bs @ [v]))"
proof -
  have "m (d + of_nat (length bs)) \<noteq> None" using assms(1) by (auto simp: mapped_def)
  moreover have "unat (of_nat (length bs) :: ADDR) = length bs" using assms(2) by (intro unat_of_nat_small) simp
  ultimately have "written m d bs (d + of_nat (length bs)) \<noteq> None" by (simp add: written_outside)
  moreover have "length bs < 2 ^ 64" using assms(2) by simp
  ultimately show ?thesis using written_snoc [of bs m d v] by (simp add: wr8_def)
qed

lemma ch_written_apart:
  assumes "cstr m a s" "apart a (Suc (length s)) d (length bs)" "k \<le> length s"
  shows "ch (written m d bs) a (of_nat k) = ch m a (of_nat k)"
  using cstr_len [OF assms(1,3)] written_apart [OF assms(2), of k m] assms(3) by (simp add: ch_of_nat)

lemma apart_mono: "apart a n b k \<Longrightarrow> n' \<le> n \<Longrightarrow> k' \<le> k \<Longrightarrow> apart a n' b k'"
  by (auto simp: apart_def)

lemma strcpy_loop_spec:
  assumes s: "cstr m a s" and d: "mapped m d (Suc (length s))" and ap: "apart a (Suc (length s)) d (Suc (length s))"
  shows "k \<le> length s \<Longrightarrow> strcpy_loop (written m d (take k s)) d a (of_nat k) = Some (written m d (s @ [0]))"
proof (induction rule: index_induct)
  case stop
  have "ch (written m d s) a (of_nat (length s)) = Some 0"
    using ch_written_apart [OF s, of d s "length s"] ap cstr_ch_end [OF s] by (simp add: apart_def)
  then show ?case using wr8_written [OF d, of 0] cstr_len [OF s, of "length s"]
    by (subst strcpy_loop.simps) (simp add: ucast_of_nat_DWORD)
next
  case (step k)
  have l: "length (take k s) = k" "k < 2 ^ 32" using step cstr_len [OF s, of k] by simp_all
  have "ch (written m d (take k s)) a (of_nat k) = Some (s ! k)" "s ! k \<noteq> 0"
    using ch_written_apart [OF s apart_mono [OF ap], of "take k s" k] cstr_ch [OF s step.hyps] cstr_nz [OF s step.hyps] step.hyps
    by simp_all
  moreover have "mapped m d (Suc (length (take k s)))" using d step.hyps by (auto intro: mapped_mono)
  then have "wr8 (written m d (take k s)) (d + of_nat k) (s ! k) = Some (written m d (take (Suc k) s))"
    using wr8_written [of m d "take k s" "s ! k"] l step.hyps by (simp add: take_Suc_conv_app_nth)
  ultimately show ?case using step.IH l by (subst strcpy_loop.simps) (simp add: ucast_of_nat_DWORD add.commute)
qed

lemma cl_strcpy_cstr:
  assumes "cstr m a s" "mapped m d (Suc (length s))" "apart a (Suc (length s)) d (Suc (length s))" "a \<noteq> NULL" "d \<noteq> NULL"
  shows "cl_strcpy m d a = Some (written m d (s @ [0]))"
  using strcpy_loop_spec [OF assms(1-3), of 0] assms(4,5) by (simp add: cl_strcpy_def)

lemma cstr_written:
  assumes "0 \<notin> set s" "length s < 2 ^ 32"
  shows "cstr (written m d (s @ [0])) d s"
proof -
  have l: "length (s @ [0]) \<le> 2 ^ 64" using assms(2) by simp
  have "written m d (s @ [0]) (d + of_nat i) = Some (s ! i)" if "i < length s" for i
    using written_inside [OF _ l, of i m d] that by (simp add: nth_append)
  moreover have "written m d (s @ [0]) (d + of_nat (length s)) = Some 0"
    using written_inside [OF _ l, of "length s" m d] by simp
  ultimately show ?thesis using assms by (simp add: cstr_def)
qed

lemma strncpy_loop_spec:
  assumes s: "cstr m a s" and n: "n = min (length s) (unat len)" and d: "mapped m d (Suc n)"
    and ap: "apart a (Suc (length s)) d (Suc n)"
  shows "k \<le> n \<Longrightarrow> strncpy_loop (written m d (take k s)) d a len (of_nat k) = Some (written m d (take n s @ [0]))"
proof (induction rule: index_induct)
  case stop
  have l: "length (take n s) = n" "n < 2 ^ 32" using n cstr_len [OF s, of n] by simp_all
  have w: "wr8 (written m d (take n s)) (d + of_nat n) 0 = Some (written m d (take n s @ [0]))"
    using wr8_written [of m d "take n s" 0] d l by simp
  show ?case
  proof (cases "(of_nat n :: DWORD) < len")
    case True
    then have nl: "n = length s" using n l(2) by (simp add: word_less_nat_alt unat_of_nat_small min_def split: if_splits)
    then have "ch (written m d (take n s)) a (of_nat n) = Some 0"
      using ch_written_apart [OF s apart_mono [OF ap], of "take n s" n] cstr_ch_end [OF s] by simp
    with w l True show ?thesis by (subst strncpy_loop.simps) (simp add: ucast_of_nat_DWORD)
  next
    case False
    with w l show ?thesis by (subst strncpy_loop.simps) (simp add: ucast_of_nat_DWORD)
  qed
next
  case (step k)
  have k: "k < length s" "k < unat len" using step.hyps n by simp_all
  have l: "length (take k s) = k" "k < 2 ^ 32" using k cstr_len [OF s, of k] by simp_all
  then have lt: "(of_nat k :: DWORD) < len" using k by (simp add: word_less_nat_alt unat_of_nat_small)
  have "ch (written m d (take k s)) a (of_nat k) = Some (s ! k)" "s ! k \<noteq> 0"
    using ch_written_apart [OF s apart_mono [OF ap], of "take k s" k] cstr_ch [OF s k(1)] cstr_nz [OF s k(1)] step.hyps k
    by simp_all
  moreover have "mapped m d (Suc (length (take k s)))" using d step.hyps l by (auto intro: mapped_mono)
  then have "wr8 (written m d (take k s)) (d + of_nat k) (s ! k) = Some (written m d (take (Suc k) s))"
    using wr8_written [of m d "take k s" "s ! k"] l k by (simp add: take_Suc_conv_app_nth)
  ultimately show ?case using step.IH l lt by (subst strncpy_loop.simps) (simp add: ucast_of_nat_DWORD add.commute)
qed

lemma cl_strncpy_cstr:
  assumes "cstr m a s" "n = min (length s) (unat len)" "mapped m d (Suc n)" "apart a (Suc (length s)) d (Suc n)"
    "a \<noteq> NULL" "d \<noteq> NULL" "len \<noteq> 0"
  shows "cl_strncpy m d a len = Some (written m d (take n s @ [0]))"
  using strncpy_loop_spec [OF assms(1-4), of 0] assms(5-7) by (simp add: cl_strncpy_def)

section \<open>Splitting\<close>

text \<open>The tokens of a string: it is cut at every delimiter, and an empty rest is no token.\<close>

function (sequential) str_tokens :: "BYTE set \<Rightarrow> BYTE list \<Rightarrow> BYTE list list" where
  "str_tokens D [] = []"
| "str_tokens D (c # s) = takeWhile (\<lambda>x. x \<notin> D) (c # s) #
     (case dropWhile (\<lambda>x. x \<notin> D) (c # s) of [] \<Rightarrow> [] | _ # r \<Rightarrow> str_tokens D r)"
  by pat_completeness auto
termination
proof (relation "measure (\<lambda>(D, s). length s)")
  fix D c s x r
  assume "dropWhile (\<lambda>x. x \<notin> D) (c # s) = (x :: BYTE) # r"
  then have "length (x # r) \<le> length (c # s)" by (metis length_dropWhile_le)
  then show "((D, r), (D, c # s)) \<in> measure (\<lambda>(D, s). length s)" by simp
qed simp

text \<open>Calling \<^verbatim>\<open>cl_strtok_s\<close> until it returns null, at most \<open>n\<close> times: the tokens it returned.\<close>

fun strtok_run :: "nat \<Rightarrow> bmem \<Rightarrow> ADDR \<Rightarrow> ADDR \<Rightarrow> ADDR \<Rightarrow> (ADDR list \<times> bmem) option" where
  "strtok_run 0 m str D context = None"
| "strtok_run (Suc n) m str D context = do {
     (p, m, ctx) \<leftarrow> cl_strtok_s m str D (Some context);
     if p = NULL then Some ([], m)
     else do {
       context \<leftarrow> ctx;
       (ps, m) \<leftarrow> strtok_run n m str D context;
       Some (p # ps, m)
     }
   }"

lemma strtok_delim_loop_spec:
  assumes "cstr m D ds"
  shows "j \<le> length ds \<Longrightarrow> strtok_delim_loop m D c (of_nat j) = Some (c \<in> set (drop j ds))"
proof (induction rule: index_induct)
  case stop
  then show ?case using cstr_ch_end [OF assms] by (subst strtok_delim_loop.simps) simp
next
  case (step j)
  then show ?case using cstr_ch [OF assms step.hyps] cstr_nz [OF assms step.hyps]
    by (subst strtok_delim_loop.simps) (auto simp: Cons_nth_drop_Suc [symmetric] add.commute)
qed

text \<open>The length of the first token.\<close>

definition tok_len :: "BYTE set \<Rightarrow> BYTE list \<Rightarrow> nat" where
  "tok_len D s = length (takeWhile (\<lambda>x. x \<notin> D) s)"

lemma strtok_loop_spec:
  assumes D: "cstr m D ds" and s: "cstr m a s"
  shows "k \<le> length s \<Longrightarrow> strtok_loop m a D (of_nat k)
    = Some (of_nat (k + tok_len (set ds) (drop k s)), tok_len (set ds) (drop k s) < length (drop k s))"
proof (induction rule: index_induct)
  case stop
  then show ?case using cstr_ch_end [OF s] by (subst strtok_loop.simps) (simp add: tok_len_def)
next
  case (step k)
  have d: "drop k s = s ! k # drop (Suc k) s" using step by (simp add: Cons_nth_drop_Suc)
  have "strtok_delim_loop m D (s ! k) 0 = Some (s ! k \<in> set ds)" using strtok_delim_loop_spec [OF D, of 0] by simp
  then show ?case using step cstr_ch [OF s step.hyps] cstr_nz [OF s step.hyps]
    by (subst strtok_loop.simps) (auto simp: d tok_len_def add.commute)
qed

lemma str_tokens_unfold:
  assumes "s \<noteq> []"
  shows "str_tokens D s = take (tok_len D s) s #
    (if tok_len D s < length s then str_tokens D (drop (Suc (tok_len D s)) s) else [])"
proof -
  have tw: "takeWhile (\<lambda>x. x \<notin> D) s = take (tok_len D s) s" unfolding tok_len_def by (metis takeWhile_eq_take)
  have dw: "dropWhile (\<lambda>x. x \<notin> D) s = drop (tok_len D s) s" unfolding tok_len_def by (rule dropWhile_eq_drop)
  obtain c s' where s: "s = c # s'" using assms by (cases s) auto
  show ?thesis
  proof (cases "tok_len D s < length s")
    case True
    then have "dropWhile (\<lambda>x. x \<notin> D) s = s ! tok_len D s # drop (Suc (tok_len D s)) s"
      using dw by (simp add: Cons_nth_drop_Suc)
    with tw True show ?thesis by (simp only: s str_tokens.simps) simp
  next
    case False
    with tw dw show ?thesis by (simp only: s str_tokens.simps) simp
  qed
qed

text \<open>Memory \<open>m'\<close> differs from \<open>m\<close> at most in the \<open>n\<close> bytes at \<open>a\<close>.\<close>

definition only_changes :: "bmem \<Rightarrow> bmem \<Rightarrow> ADDR \<Rightarrow> nat \<Rightarrow> bool" where
  "only_changes m m' a n \<longleftrightarrow> (\<forall>x. (\<forall>j < n. x \<noteq> a + of_nat j) \<longrightarrow> m' x = m x)"

lemma only_changes_cstr:
  assumes "only_changes m m' b n" "cstr m a s" "apart a (Suc (length s)) b n"
  shows "cstr m' a s"
proof -
  have "m' (a + of_nat i) = m (a + of_nat i)" if "i \<le> length s" for i
    using assms(1,3) that by (auto simp: only_changes_def apart_def)
  then show ?thesis using assms(2) by (simp add: cstr_def)
qed

lemma of_nat_ADDR_inj: "i < 2 ^ 64 \<Longrightarrow> j < 2 ^ 64 \<Longrightarrow> (of_nat i :: ADDR) = of_nat j \<longleftrightarrow> i = j"
proof
  assume ij: "i < 2 ^ 64" "j < 2 ^ 64" and eq: "(of_nat i :: ADDR) = of_nat j"
  have "unat (of_nat i :: ADDR) = i" "unat (of_nat j :: ADDR) = j"
    using ij by (intro unat_of_nat_small; simp)+
  then show "i = j" unfolding eq by simp
qed simp

lemma apart_prefix: "i + n \<le> j \<Longrightarrow> j + k \<le> 2 ^ 64 \<Longrightarrow> apart (a + of_nat i) n (a + of_nat j) k"
proof -
  assume *: "i + n \<le> j" "j + k \<le> 2 ^ 64"
  have "(of_nat (i + x) :: ADDR) \<noteq> of_nat (j + y)" if "x < n" "y < k" for x y
    using * that of_nat_ADDR_inj [of "i + x" "j + y"] by simp
  then show ?thesis unfolding apart_def by (simp add: add.assoc)
qed

lemma cstr_upd:
  assumes "cstr m a s" "\<forall>i \<le> length s. a + of_nat i \<noteq> x"
  shows "cstr (m(x \<mapsto> v)) a s"
  using assms by (simp add: cstr_def)

lemma cstrD: "cstr m a s \<Longrightarrow> i < length s \<Longrightarrow> m (a + of_nat i) = Some (s ! i)"
  by (simp add: cstr_def)

lemma cstr_cut:
  assumes "cstr m a s" "t < length s"
  shows "cstr (m(a + of_nat t \<mapsto> 0)) a (take t s)" "cstr (m(a + of_nat t \<mapsto> 0)) (a + of_nat (Suc t)) (drop (Suc t) s)"
proof -
  have ne: "(of_nat i :: ADDR) = of_nat t \<longleftrightarrow> i = t" if "i \<le> length s" for i
    using of_nat_ADDR_inj [of i t] assms that by (simp add: cstr_def)
  show "cstr (m(a + of_nat t \<mapsto> 0)) a (take t s)"
    using assms ne by (auto simp: cstr_def dest: in_set_takeD)
  have "a + of_nat (Suc t) + of_nat i \<noteq> a + of_nat t" if "i \<le> length s - Suc t" for i
    using ne [of "Suc t + i"] that assms(2) by (simp add: add.assoc)
  moreover have "cstr m (a + of_nat (Suc t)) (drop (Suc t) s)"
  proof -
    have "m (a + of_nat (Suc t) + of_nat i) = Some (s ! (Suc t + i))" if "i < length s - Suc t" for i
      using cstrD [OF assms(1), of "Suc t + i"] that by (simp add: add.assoc)
    moreover have "m (a + of_nat (Suc t) + of_nat (length s - Suc t)) = Some 0"
    proof -
      have "of_nat (Suc t) + of_nat (length s - Suc t) = (of_nat (length s) :: ADDR)"
        using assms(2) by (simp only: of_nat_add [symmetric]) simp
      then show ?thesis using assms(1) by (simp add: cstr_def add.assoc del: of_nat_Suc)
    qed
    ultimately show ?thesis using assms by (auto simp: cstr_def dest: in_set_dropD)
  qed
  ultimately show "cstr (m(a + of_nat t \<mapsto> 0)) (a + of_nat (Suc t)) (drop (Suc t) s)"
    by (intro cstr_upd) simp_all
qed

lemma cl_strtok_cstr:
  assumes s: "cstr m a s" and D: "cstr m D ds" and p: "D \<noteq> NULL" "a \<noteq> NULL" "(if cx = NULL then str else cx) = a"
    and t: "t = tok_len (set ds) s"
  shows "cl_strtok_s m str D (Some cx) =
    (if s = [] then Some (NULL, m, Some cx)
     else if t < length s then Some (a, m(a + of_nat t \<mapsto> 0), Some (a + of_nat (Suc t)))
     else Some (a, m, Some (a + of_nat (length s))))"
proof -
  have p': "\<not> (cx = NULL \<and> str = NULL)" using p by auto
  show ?thesis
  proof (cases "s = []")
    case True
    with s have "ch m a 0 = Some 0" using cstr_ch_0 [OF s] by simp
    with p p' True show ?thesis by (simp add: cl_strtok_s_def)
  next
    case False
    then have c0: "ch m a 0 = Some (s ! 0)" "s ! 0 \<noteq> 0" using cstr_ch_0 [OF s] cstr_nz [OF s, of 0] by simp_all
    have loop: "strtok_loop m a D 0 = Some (of_nat t, t < length s)"
      using strtok_loop_spec [OF D s, of 0] t by simp
    have tl: "t \<le> length s" using t by (simp add: tok_len_def length_takeWhile_le)
    then have u: "(ucast (of_nat t :: DWORD) :: ADDR) = of_nat t" using cstr_len [OF s] by (intro ucast_of_nat_DWORD) simp
    show ?thesis
    proof (cases "t < length s")
      case True
      then have "m (a + of_nat t) = Some (s ! t)" "(ucast (of_nat (Suc t) :: DWORD) :: ADDR) = of_nat (Suc t)"
        using s cstr_len [OF s, of "Suc t"] by (auto simp: cstr_def ucast_of_nat_DWORD simp del: of_nat_Suc)
      with c0 loop u True False p p' show ?thesis
        by (simp add: cl_strtok_s_def wr8_def of_nat_Suc_word del: of_nat_Suc)
    next
      case False
      with tl have "t = length s" by simp
      moreover from this have "ch m a (of_nat t) = Some 0" using cstr_ch_end [OF s] by simp
      ultimately show ?thesis using c0 loop u False \<open>s \<noteq> []\<close> p p' by (simp add: cl_strtok_s_def)
    qed
  qed
qed

lemma strtok_run_spec:
  assumes "cstr m a s" "cstr m D ds" "D \<noteq> NULL" "\<forall>i \<le> length s. a + of_nat i \<noteq> NULL"
    "(if cx = NULL then str else cx) = a" "apart D (Suc (length ds)) a (length s)" "length s < n"
  shows "\<exists>ps m'. strtok_run n m str D cx = Some (ps, m')
    \<and> list_all2 (cstr m') ps (str_tokens (set ds) s) \<and> only_changes m m' a (length s)"
  using assms
proof (induction n arbitrary: m a s cx)
  case (Suc n)
  define t where "t = tok_len (set ds) s"
  have a0: "a \<noteq> NULL" using Suc.prems(4) [rule_format, of 0] by simp
  note call = cl_strtok_cstr [OF Suc.prems(1,2,3) a0 Suc.prems(5) t_def]
  have tl: "t \<le> length s" by (simp add: t_def tok_len_def length_takeWhile_le)
  consider "s = []" | "s \<noteq> []" "t < length s" | "s \<noteq> []" "t = length s" using tl by linarith
  then show ?case
  proof cases
    case 1
    with call show ?thesis by (simp add: only_changes_def)
  next
    case 2
    let ?m = "m(a + of_nat t \<mapsto> 0)" and ?b = "a + of_nat (Suc t)" and ?r = "drop (Suc t) s"
    note cut = cstr_cut [OF Suc.prems(1) 2(2)]
    have D': "cstr ?m D ds"
      using cstr_upd [OF Suc.prems(2), of "a + of_nat t"] Suc.prems(6) 2(2) by (auto simp: apart_def)
    have idx: "a + of_nat (Suc t) + of_nat i = a + of_nat (Suc t + i)" for i by (simp add: add.assoc)
    have nn: "\<forall>i \<le> length ?r. ?b + of_nat i \<noteq> NULL"
      unfolding idx using Suc.prems(4) 2(2) by (auto simp del: of_nat_add of_nat_Suc)
    then have b0: "?b \<noteq> NULL" using nn [rule_format, of 0] by simp
    have ap: "apart D (Suc (length ds)) ?b (length ?r)"
      unfolding apart_def idx using Suc.prems(6) by (auto simp: apart_def simp del: of_nat_add of_nat_Suc)
    have fuel: "length ?r < n" using Suc.prems(7) 2(2) by simp
    obtain ps m' where run: "strtok_run n ?m str D ?b = Some (ps, m')" "list_all2 (cstr m') ps (str_tokens (set ds) ?r)"
      "only_changes ?m m' ?b (length ?r)"
      using Suc.IH [where m = ?m and a = ?b and s = ?r and cx = ?b, OF cut(2) D' Suc.prems(3) nn if_not_P [OF b0] ap fuel]
      by blast
    have "apart a (Suc (length (take t s))) ?b (length ?r)"
    proof -
      have "Suc t + length ?r \<le> 2 ^ 64" using cstr_len [OF Suc.prems(1), of "length s"] 2(2) by simp
      from apart_prefix [OF _ this, of 0 "Suc t" a] show ?thesis using 2(2) by simp
    qed
    then have "cstr m' a (take t s)" by (rule only_changes_cstr [OF run(3) cut(1)])
    moreover have "only_changes m m' a (length s)"
      unfolding only_changes_def
    proof (intro allI impI)
      fix x assume x: "\<forall>j < length s. x \<noteq> a + of_nat j"
      then have "m' x = ?m x" using run(3) unfolding only_changes_def idx by (auto simp del: of_nat_add of_nat_Suc)
      then show "m' x = m x" using x 2(2) by simp
    qed
    moreover have "str_tokens (set ds) s = take t s # str_tokens (set ds) ?r"
      using str_tokens_unfold [OF 2(1), of "set ds"] 2(2) by (simp add: t_def)
    ultimately show ?thesis using call 2 run a0 by (simp del: of_nat_Suc)
  next
    case 3
    let ?b = "a + of_nat (length s)"
    have e: "cstr m ?b []" using Suc.prems(1) by (simp add: cstr_def)
    have b0: "?b \<noteq> NULL" using Suc.prems(4) by blast
    have "0 < n" using Suc.prems(7) 3(1) by (cases n) auto
    then obtain k where n: "n = Suc k" by (cases n) auto
    have "strtok_run n m str D ?b = Some ([], m)"
      using cl_strtok_cstr [OF e Suc.prems(2,3) b0 _ refl, of ?b str] b0 by (simp add: n)
    moreover have "str_tokens (set ds) s = [s]"
      using str_tokens_unfold [OF 3(1), of "set ds"] 3(2) by (simp add: t_def)
    ultimately show ?thesis using call 3 a0 Suc.prems(1) by (simp add: only_changes_def)
  qed
qed simp

section \<open>Counting elements\<close>

lemma cstr_drop:
  assumes "cstr m a s" "k \<le> length s"
  shows "cstr m (a + of_nat k) (drop k s)"
proof -
  have "m (a + of_nat k + of_nat i) = Some (s ! (k + i))" if "i < length s - k" for i
    using cstrD [OF assms(1), of "k + i"] that by (simp add: add.assoc)
  moreover have "of_nat k + of_nat (length s - k) = (of_nat (length s) :: ADDR)"
    using assms(2) by (simp only: of_nat_add [symmetric]) simp
  ultimately show ?thesis using assms by (auto simp: cstr_def add.assoc dest: in_set_dropD)
qed

text \<open>What \<^verbatim>\<open>cl_strcelem\<close> computes: it stops where no delimiter follows, and also where one follows at once.\<close>

function elements :: "BYTE \<Rightarrow> BYTE list \<Rightarrow> nat" where
  "elements d s = (if d \<in> set s \<and> first_index d s \<noteq> 0 then Suc (elements d (drop (Suc (first_index d s)) s)) else 1)"
  by pat_completeness auto
termination
  by (relation "measure (\<lambda>(d, s). length s)") (auto dest: length_pos_if_in_set intro: diff_less)

declare elements.simps [simp del]

lemma first_index_less: "d \<in> set s \<Longrightarrow> first_index d s < length s"
  by (induction s) (auto simp: first_index_Cons)

lemma elements_pos: "1 \<le> elements d s"
  by (subst elements.simps) simp

lemma strcelem_loop_spec:
  assumes "cstr m a s" "\<forall>i \<le> length s. a + of_nat i \<noteq> NULL"
  shows "strcelem_loop m d (if d \<in> set s then a + of_nat (first_index d s) else a) a n = Some (n + of_nat (elements d s - 1))"
  using assms
proof (induction d s arbitrary: a n rule: elements.induct)
  case (1 d s)
  show ?case
  proof (cases "d \<in> set s \<and> first_index d s \<noteq> 0")
    case True
    let ?f = "first_index d s" and ?r = "drop (Suc (first_index d s)) s"
    have lt: "?f < length s" using True first_index_less by blast
    have ne: "a + of_nat ?f \<noteq> a"
      using of_nat_ADDR_inj [of ?f 0] True cstr_len [OF 1(2), of ?f] lt by simp
    have r: "cstr m (a + of_nat (Suc ?f)) ?r" using cstr_drop [OF 1(2), of "Suc ?f"] lt by simp
    have idx: "a + of_nat (Suc ?f) + of_nat i = a + of_nat (Suc ?f + i)" for i by (simp add: add.assoc)
    have nn: "\<forall>i \<le> length ?r. a + of_nat (Suc ?f) + of_nat i \<noteq> NULL"
      unfolding idx using 1(3) lt by (auto simp del: of_nat_add of_nat_Suc)
    have "a + of_nat (Suc ?f) \<noteq> NULL" using 1(3) lt by (auto simp del: of_nat_Suc)
    then have "cl_strchr m (a + of_nat ?f + 1) d
        = Some (if d \<in> set ?r then a + of_nat (Suc ?f) + of_nat (first_index d ?r) else a + of_nat (Suc ?f))"
      using cl_strchr_cstr [OF r] by (simp add: ac_simps)
    moreover have "elements d s - 1 = Suc (elements d ?r - 1)"
      using True elements_pos [of d ?r] by (subst elements.simps) simp
    moreover have "a + of_nat ?f + 1 = a + of_nat (Suc ?f)" by simp
    ultimately show ?thesis using True ne 1(1) [OF True r nn, of "n + 1"]
      by (subst strcelem_loop.simps) (simp add: ac_simps)
  next
    case False
    then have "(if d \<in> set s then a + of_nat (first_index d s) else a) = a" by auto
    moreover have "elements d s = 1" using False by (subst elements.simps) auto
    ultimately show ?thesis by (subst strcelem_loop.simps) simp
  qed
qed

lemma elements_separated:
  assumes "\<forall>i < length s. s ! i = d \<longrightarrow> 0 < i \<and> s ! (i - 1) \<noteq> d"
  shows "elements d s = Suc (count_list s d)"
proof -
  have "elements d s = Suc (count_list s d)"
    if "\<forall>i. Suc i < length s \<longrightarrow> s ! Suc i = d \<longrightarrow> s ! i \<noteq> d" "s = [] \<or> s ! 0 \<noteq> d" for s
    using that
  proof (induction d s rule: elements.induct)
    case (1 d s)
    show ?case
    proof (cases "d \<in> set s")
      case True
      let ?f = "first_index d s" and ?r = "drop (Suc (first_index d s)) s"
      have lt: "?f < length s" using True first_index_less by blast
      have at: "s ! ?f = d" using lt nth_length_takeWhile [of "\<lambda>x. x \<noteq> d" s] by (simp add: first_index_def)
      have f0: "?f \<noteq> 0" using at 1(3) lt by (metis length_0_conv not_less0)
      have r: "\<forall>i. Suc i < length ?r \<longrightarrow> ?r ! Suc i = d \<longrightarrow> ?r ! i \<noteq> d" using 1(2) by simp
      have r0: "?r = [] \<or> ?r ! 0 \<noteq> d" using 1(2) at lt by (cases "Suc ?f < length s") auto
      have sp: "s = takeWhile (\<lambda>x. x \<noteq> d) s @ d # ?r"
        using lt at id_take_nth_drop [of ?f s] takeWhile_eq_take [of "\<lambda>x. x \<noteq> d" s] by (simp add: first_index_def)
      have "count_list (takeWhile (\<lambda>x. x \<noteq> d) s) d = 0" by (auto simp: count_list_0_iff dest: set_takeWhileD)
      with arg_cong [OF sp, of "\<lambda>x. count_list x d"] have "count_list s d = Suc (count_list ?r d)" by simp
      then show ?thesis using 1(1) [OF _ r r0] True f0 by (subst elements.simps) simp
    next
      case False
      then show ?thesis by (subst elements.simps) (simp add: count_list_0_iff)
    qed
  qed
  moreover have "\<forall>i. Suc i < length s \<longrightarrow> s ! Suc i = d \<longrightarrow> s ! i \<noteq> d" using assms by (metis diff_Suc_1)
  moreover have "s = [] \<or> s ! 0 \<noteq> d" using assms by (metis length_greater_0_conv less_irrefl)
  ultimately show ?thesis by blast
qed

lemma cl_strcelem_cstr:
  assumes "cstr m a s" "\<forall>i \<le> length s. a + of_nat i \<noteq> NULL"
  shows "cl_strcelem m a d = Some (of_nat (elements d s))"
proof -
  have a: "a \<noteq> NULL" using assms(2) [rule_format, of 0] by simp
  have "1 + of_nat (elements d s - 1) = (of_nat (elements d s) :: DWORD)"
    using elements_pos [of d s] by (simp add: of_nat_diff)
  then show ?thesis
    using a cl_strchr_cstr [OF assms(1) a, of d] strcelem_loop_spec [OF assms, of d 1]
    by (simp add: cl_strcelem_def)
qed

section \<open>Trimming\<close>

definition trim :: "BYTE list \<Rightarrow> BYTE list" where
  "trim s = rev (dropWhile isspace (rev (dropWhile isspace s)))"

lemma trim_split:
  obtains l r where "s = l @ trim s @ r" "\<forall>c \<in> set l \<union> set r. isspace c"
    "trim s = [] \<longrightarrow> r = []" "trim s \<noteq> [] \<longrightarrow> \<not> isspace (hd (trim s)) \<and> \<not> isspace (last (trim s))"
proof -
  let ?u = "dropWhile isspace s"
  let ?l = "takeWhile isspace s" and ?r = "rev (takeWhile isspace (rev ?u))"
  have u: "?u = trim s @ ?r"
    unfolding trim_def by (metis rev_append rev_rev_ident takeWhile_dropWhile_id)
  have s: "s = ?l @ trim s @ ?r" using u by (metis takeWhile_dropWhile_id)
  have hd_u: "?u \<noteq> [] \<longrightarrow> \<not> isspace (hd ?u)" by (simp add: hd_dropWhile)
  have e: "trim s = [] \<longrightarrow> ?r = []"
  proof
    assume "trim s = []"
    then have "dropWhile isspace (rev ?u) = []" by (simp add: trim_def)
    then have "\<forall>c \<in> set (rev ?u). isspace c" by (simp only: dropWhile_eq_Nil_conv)
    then have "?u = []" using hd_u by (metis list.set_sel(1) set_rev)
    then show "?r = []" by (metis rev.simps(1) takeWhile.simps(1))
  qed
  have "trim s \<noteq> [] \<longrightarrow> \<not> isspace (last (trim s))"
    unfolding trim_def by (simp add: last_rev hd_dropWhile)
  moreover have "trim s \<noteq> [] \<longrightarrow> \<not> isspace (hd (trim s))" using hd_u u by (metis hd_append2 append_is_Nil_conv)
  ultimately show thesis using that [of ?l ?r] s e by (auto dest: set_takeWhileD)
qed

lemma strtrim_left_spec:
  assumes "cstr m a s"
  shows "k \<le> length s \<Longrightarrow> strtrim_left m a (of_nat k)
    = Some (if \<forall>c \<in> set (drop k s). isspace c then MAX_DWORD else of_nat (k + length (takeWhile isspace (drop k s))))"
proof (induction rule: index_induct)
  case stop
  then show ?case using cstr_ch_end [OF assms] by (subst strtrim_left.simps) simp
next
  case (step k)
  have "drop k s = s ! k # drop (Suc k) s" using step by (simp add: Cons_nth_drop_Suc)
  then show ?case using step cstr_ch [OF assms step.hyps] cstr_nz [OF assms step.hyps]
    by (subst strtrim_left.simps) (auto simp: add.commute)
qed

lemma strtrim_right_spec:
  assumes s: "cstr m a s" and R: "st < R" "R \<le> length s" "\<not> isspace (s ! (R - 1))"
    and sp: "\<forall>i. R \<le> i \<and> i < length s \<longrightarrow> isspace (s ! i)"
  shows "R \<le> i \<Longrightarrow> i \<le> length s
    \<Longrightarrow> strtrim_right m a (of_nat st) x (of_nat i) = Some (m(a + of_nat R \<mapsto> 0), of_nat R)"
proof (induction i)
  case 0
  then show ?case using R by simp
next
  case (Suc i)
  have b: "Suc i < 2 ^ 32" "st < 2 ^ 32" using cstr_len [OF s, of "Suc i"] R Suc.prems by simp_all
  have gt: "(of_nat (Suc i) :: DWORD) > of_nat st"
    using R(1) Suc.prems(1) b unat_of_nat_small [of "Suc i", where 'a = 32] unat_of_nat_small [of st, where 'a = 32]
    by (simp add: word_less_nat_alt del: of_nat_Suc)
  have prev: "(of_nat (Suc i) :: DWORD) - 1 = of_nat i" by simp
  have c: "ch m a (of_nat i) = Some (s ! i)" using cstr_ch [OF s] Suc.prems(2) by simp
  show ?case
  proof (cases "R = Suc i")
    case True
    have "m (a + of_nat (Suc i)) \<noteq> None" using s Suc.prems(2) unfolding cstr_def
      by (cases "Suc i = length s") (auto simp del: of_nat_Suc)
    moreover have "(ucast (of_nat (Suc i) :: DWORD) :: ADDR) = of_nat (Suc i)" using b(1) by (rule ucast_of_nat_DWORD)
    ultimately show ?thesis using gt c R(3) True unfolding prev
      by (subst strtrim_right.simps) (simp add: prev wr8_def del: of_nat_Suc)
  next
    case False
    then have Ri: "R \<le> i" "isspace (s ! i)" using Suc.prems sp by auto
    have "strtrim_right m a (of_nat st) x (of_nat i) = Some (m(a + of_nat R \<mapsto> 0), of_nat R)"
      by (rule Suc.IH) (use Ri Suc.prems(2) in auto)
    note IH = this
    show ?thesis by (subst strtrim_right.simps) (simp add: gt c Ri IH prev del: of_nat_Suc)
  qed
qed

lemma cstr_take_0:
  assumes "cstr m a s" "t \<le> length s"
  shows "cstr (m(a + of_nat t \<mapsto> 0)) a (take t s)"
proof (cases "t = length s")
  case True
  with assms have "m(a + of_nat t \<mapsto> 0) = m" by (auto simp: cstr_def fun_upd_idem)
  with True assms show ?thesis by simp
next
  case False
  with assms show ?thesis using cstr_cut(1) by simp
qed

text \<open>The state after the two loops: the string of \<open>l\<close> and \<open>c\<close> is terminated after \<open>c\<close>.\<close>

lemma strtrim_before_move:
  assumes s: "cstr m a s" "s = l @ c @ r" "\<forall>x \<in> set l \<union> set r. isspace x" "c \<noteq> []"
    "\<not> isspace (hd c)" "\<not> isspace (last c)" and a: "a \<noteq> NULL"
  shows "cl_strtrim m a = (let m1 = m(a + of_nat (length l + length c) \<mapsto> 0) in
    if l = [] then Some m1 else cl_memmove m1 a (a + of_nat (length l)) (of_nat (length l + length c)))"
proof -
  let ?R = "length l + length c"
  have R: "length l < ?R" "?R \<le> length s" using s(2,4) by simp_all
  have n: "length s < 2 ^ 32" using s(1) by (simp add: cstr_def)
  have "takeWhile isspace s = l" using s(2-5) by (cases c) (auto simp: takeWhile_append)
  moreover have "\<not> (\<forall>x \<in> set s. isspace x)" using s(2,4,5) by (metis UnCI list.set_sel(1) set_append)
  ultimately have left: "strtrim_left m a 0 = Some (of_nat (length l))"
    using strtrim_left_spec [OF s(1), of 0] by auto
  have "s ! (?R - 1) = last c" using s(2,4) by (cases c rule: rev_cases) (simp_all add: nth_append)
  moreover have "\<forall>i. ?R \<le> i \<and> i < length s \<longrightarrow> isspace (s ! i)"
    using s(2,3) by (auto simp: nth_append)
  ultimately have right: "strtrim_right m a (of_nat (length l)) (of_nat (length s)) (of_nat (length s))
      = Some (m(a + of_nat ?R \<mapsto> 0), of_nat ?R)"
    using strtrim_right_spec [OF s(1) R] s(6) R(2) by auto
  have ne: "(of_nat (length l) :: DWORD) \<noteq> MAX_DWORD"
  proof
    assume "(of_nat (length l) :: DWORD) = MAX_DWORD"
    then have "unat (of_nat (length l) :: DWORD) = 4294967295" by (simp add: MAX_DWORD_def)
    then have "length l = 4294967295" using R(2) n unat_of_nat_small [of "length l", where 'a = 32] by simp
    moreover have "length s < 4294967296" using n by simp
    ultimately show False using R by linarith
  qed
  have z: "(of_nat (length l) :: DWORD) = 0 \<longleftrightarrow> l = []" "(of_nat ?R :: DWORD) \<noteq> 0"
    using R n unat_of_nat_small [of "length l", where 'a = 32] unat_of_nat_small [of ?R, where 'a = 32]
    by (auto dest!: arg_cong [of _ _ unat] simp del: of_nat_add)
  have u: "(ucast (of_nat (length l) :: DWORD) :: ADDR) = of_nat (length l)" "(ucast (of_nat ?R :: DWORD) :: QWORD) = of_nat ?R"
    using R n by (intro ucast_of_nat_DWORD; simp)+
  show ?thesis
    unfolding cl_strtrim_def
    using a left right ne z u cl_strlen_cstr [OF s(1) a] by (simp add: Let_def del: of_nat_add)
qed

lemma strtrim_nonblank:
  assumes s: "cstr m a s" "s = l @ c @ r" "\<forall>x \<in> set l \<union> set r. isspace x" "c \<noteq> []"
    "\<not> isspace (hd c)" "\<not> isspace (last c)" and nn: "\<forall>i \<le> length s. a + of_nat i \<noteq> NULL"
    and mp: "mapped m a (2 * length s)"
  shows "\<exists>m'. cl_strtrim m a = Some m' \<and> cstr m' a c"
proof -
  let ?L = "length l" and ?R = "length l + length c"
  let ?m1 = "m(a + of_nat ?R \<mapsto> 0)"
  have a: "a \<noteq> NULL" "a + of_nat ?L \<noteq> NULL" using nn [rule_format, of 0] nn [rule_format, of ?L] s(2) by simp_all
  have c1: "cstr ?m1 a (l @ c)" using cstr_take_0 [OF s(1), of ?R] s(2) by simp
  have n: "length s < 2 ^ 32" using s(1) by (simp add: cstr_def)
  show ?thesis
  proof (cases "l = []")
    case True
    with strtrim_before_move [OF s a(1)] c1 show ?thesis by simp
  next
    case False
    have mp': "mapped ?m1 a (?L + ?R)"
      using mapped_mono [OF mp, of "?L + ?R"] s(2) by (auto simp: mapped_def)
    have uR: "unat (of_nat ?R :: QWORD) = ?R" "unat (of_nat ?L :: ADDR) = ?L"
      using n s(2) by (intro unat_of_nat_small; simp)+
    have "mapped ?m1 (a + of_nat ?L) ?R" "mapped ?m1 a ?R"
      using mapped_add [of ?m1 a ?L ?R] mp' mapped_mono [OF mp', of ?R] by simp_all
    then have "copy_ok ?m1 a (a + of_nat ?L) ?R"
      unfolding copy_ok_def copy_safe_def using n s(2) uR by simp
    then have mv: "cl_memmove ?m1 a (a + of_nat ?L) (of_nat ?R) = Some (copied ?m1 a (a + of_nat ?L) ?R)"
      using cl_memmove_copied [of ?m1 a "a + of_nat ?L" "of_nat ?R"] uR a by (simp add: cl_memmove_def)
    have "copied ?m1 a (a + of_nat ?L) ?R (a + of_nat i) = ?m1 (a + of_nat (?L + i))" if "i \<le> length c" for i
    proof -
      have "unat (of_nat i :: ADDR) = i" using that n s(2) by (intro unat_of_nat_small) simp
      moreover have "i < ?R" using that False by (cases l) simp_all
      ultimately show ?thesis by (simp only: copied_def add_diff_cancel_left' if_True of_nat_add add.assoc)
    qed
    moreover have "?m1 (a + of_nat (?L + i)) = Some (c ! i)" if "i < length c" for i
      using cstrD [OF c1, of "?L + i"] that by (simp add: nth_append)
    moreover have "?m1 (a + of_nat (?L + length c)) = Some 0" by simp
    ultimately have "cstr (copied ?m1 a (a + of_nat ?L) ?R) a c"
      using c1 by (simp add: cstr_def)
    with mv False strtrim_before_move [OF s a(1)] show ?thesis by (simp add: Let_def)
  qed
qed

lemma strtrim_blank:
  assumes "cstr m a s" "\<forall>x \<in> set s. isspace x" "a \<noteq> NULL"
  shows "\<exists>m'. cl_strtrim m a = Some m' \<and> cstr m' a []"
proof -
  have "strtrim_left m a 0 = Some MAX_DWORD" using strtrim_left_spec [OF assms(1), of 0] assms(2) by simp
  moreover have "m a \<noteq> None" using assms(1) by (cases s) (auto simp: cstr_def)
  ultimately show ?thesis using assms(3) by (simp add: cl_strtrim_def wr8_def cstr_def)
qed

text \<open>
  \<^verbatim>\<open>cl_strtrim\<close> moves as many bytes as the right-trimmed string has, counted from its start and
  not from its first non-blank character: with two or more leading blanks it reads past the
  terminator.
\<close>

lemma memmove_loop_fault:
  "m (s + j) = None \<Longrightarrow> i \<le> j \<Longrightarrow> j < n \<Longrightarrow> memmove_loop m d s n i = None"
proof (induction m d s n i rule: memmove_loop.induct)
  case (1 m d s n i)
  then have i: "i < n" by simp
  show ?case
  proof (cases "m (s + i)")
    case None
    with i show ?thesis by (subst memmove_loop.simps) simp
  next
    case (Some v)
    with 1(2,3) have "i < j" by (metis le_less option.distinct(1))
    then have le: "i + 1 \<le> j" by (simp add: word_le_nat_alt unat_inc_below word_less_nat_alt)
    show ?thesis
    proof (cases "wr8 m (d + i) v")
      case None
      with Some i show ?thesis by (subst memmove_loop.simps) simp
    next
      case w: (Some m')
      with 1(2) have "m' (s + j) = None" by (auto simp: wr8_def split: if_splits)
      with 1(1) [OF i Some w _ le 1(4)] Some w i show ?thesis by (subst memmove_loop.simps) simp
    qed
  qed
qed

lemma strtrim_reads_past_end:
  assumes s: "cstr m a (l @ c)" "\<forall>x \<in> set l. isspace x" "c \<noteq> []" "\<not> isspace (hd c)" "\<not> isspace (last c)"
    and l: "2 \<le> length l" and a: "a \<noteq> NULL" "a + of_nat (length l) \<noteq> NULL"
    and past: "m (a + of_nat (Suc (length l + length c))) = None"
  shows "cl_strtrim m a = None"
proof -
  let ?R = "length l + length c" and ?n = "Suc (length c)"
  have n: "?R < 2 ^ 32" using s(1) by (simp add: cstr_def)
  have "(of_nat ?R :: ADDR) \<noteq> of_nat (Suc ?R)" by simp
  then have none: "(m(a + of_nat ?R \<mapsto> 0)) (a + of_nat (length l) + of_nat ?n) = None"
    using past by (simp add: ac_simps)
  have "(of_nat ?n :: QWORD) < of_nat ?R"
    using n l unat_of_nat_small [of ?n, where 'a = 64] unat_of_nat_small [of ?R, where 'a = 64]
    by (simp add: word_less_nat_alt del: of_nat_Suc of_nat_add)
  then have "cl_memmove (m(a + of_nat ?R \<mapsto> 0)) a (a + of_nat (length l)) (of_nat ?R) = None"
    using memmove_loop_fault [where m = "m(a + of_nat ?R \<mapsto> 0)" and s = "a + of_nat (length l)" and j = "of_nat ?n" and i = 0,
      OF none] a by (simp add: cl_memmove_def del: of_nat_Suc of_nat_add)
  moreover have "cl_strtrim m a = (let m1 = m(a + of_nat ?R \<mapsto> 0) in
      if l = [] then Some m1 else cl_memmove m1 a (a + of_nat (length l)) (of_nat ?R))"
    by (rule strtrim_before_move [OF s(1), where r = "[]"]) (use s(2-5) a(1) in auto)
  moreover have "l \<noteq> []" using l by auto
  ultimately show ?thesis by (simp only: Let_def if_False)
qed

section \<open>Properties\<close>

text \<open>Ignoring case means comparing after the conversion of the upper-case letters, and of nothing
  else, to lower case. The code sets bit 5 instead, which is the same on the characters that have it
  set already and on the letters, but also maps the characters around the upper-case letters and the
  control characters to others.\<close>

definition lower_case :: "BYTE \<Rightarrow> BYTE" where
  "lower_case c = (if 0x41 \<le> c \<and> c \<le> 0x5A then c + 0x20 else c)"

definition case_plain :: "BYTE \<Rightarrow> bool" where
  "case_plain c \<longleftrightarrow> bit c 5 \<or> 0x41 \<le> c \<and> c \<le> 0x5A"

lemma cl_tolower_lower_case:
  assumes "case_plain c"
  shows "cl_tolower c = lower_case c"
proof -
  have "list_all (\<lambda>n. case_plain (of_nat n) \<longrightarrow> cl_tolower (of_nat n) = lower_case (of_nat n)) [0..<256]"
    by code_simp
  moreover have "unat c \<in> set [0..<256]" using unsigned_less [where 'b = 8 and w = c and 'a = nat] by simp
  ultimately have "case_plain (of_nat (unat c)) \<longrightarrow> cl_tolower (of_nat (unat c)) = lower_case (of_nat (unat c))"
    unfolding list_all_iff by blast
  with assms show ?thesis by simp
qed

lemma map_cl_tolower:
  "\<forall>c \<in> set s. case_plain c \<Longrightarrow> map cl_tolower s = map lower_case s"
  by (simp add: cl_tolower_lower_case)

lemma str_less_map: "str_less f s t \<longleftrightarrow> str_less (\<lambda>c. c) (map f s) (map f t)"
  by (simp add: str_less_def o_def)

text \<open>C19.
  \<^verbatim>\<open>cl_strcmp\<close> and \<^verbatim>\<open>cl_stricmp\<close> on two NUL-terminated strings always return. \<^verbatim>\<open>cl_strcmp\<close> returns 0
  exactly when the strings are equal, and otherwise -1 or 1 as the first is lexicographically below or
  above the second on the signed character values. \<^verbatim>\<open>cl_stricmp\<close> does the same after setting bit 5 of
  every character, the library's conversion to lower case; on strings whose characters all have bit 5
  set or are upper-case letters, this is the comparison with the letters' case ignored.
\<close>

theorem strcmp_orders:
  assumes "cstr m a s" "cstr m b t" "a \<noteq> NULL" "b \<noteq> NULL"
  shows "cl_strcmp m a b = Some (if s = t then 0 else if str_less (\<lambda>c. c) s t then -1 else 1)
    \<and> cl_stricmp m a b = Some (if map cl_tolower s = map cl_tolower t then 0
        else if str_less cl_tolower s t then -1 else 1)
    \<and> (list_all case_plain (s @ t) \<longrightarrow> cl_stricmp m a b = Some (if map lower_case s = map lower_case t then 0
        else if str_less (\<lambda>c. c) (map lower_case s) (map lower_case t) then -1 else 1))"
proof -
  have c: "cl_strcmp m a b = Some (if s = t then 0 else if str_less (\<lambda>c. c) s t then -1 else 1)"
    "cl_stricmp m a b = Some (if map cl_tolower s = map cl_tolower t then 0
        else if str_less cl_tolower s t then -1 else 1)"
    using strcmp_loop_spec [OF assms(1,2), of 0] assms(3,4)
    by (simp_all add: cl_strcmp_def cl_stricmp_def strcmp_spec_order)
  show ?thesis
  proof (cases "list_all case_plain (s @ t)")
    case True
    then have e: "map cl_tolower s = map lower_case s" "map cl_tolower t = map lower_case t"
      using map_cl_tolower [of s] map_cl_tolower [of t] by (simp_all add: list_all_iff)
    have "cl_stricmp m a b = Some (if map lower_case s = map lower_case t then 0
        else if str_less (\<lambda>c. c) (map lower_case s) (map lower_case t) then -1 else 1)"
      using c(2) unfolding str_less_map [of cl_tolower] e .
    with c show ?thesis by blast
  qed (use c in simp)
qed

text \<open>A memory holding the strings \<open>Ab\<close>, \<open>aB\<close>, a delimiter and a padded string.\<close>

definition sample_strings :: bmem where
  "sample_strings = [1000 \<mapsto> 0x41, 1001 \<mapsto> 0x62, 1002 \<mapsto> 0, 2000 \<mapsto> 0x61, 2001 \<mapsto> 0x42, 2002 \<mapsto> 0,
     3000 \<mapsto> 0x2C, 3001 \<mapsto> 0, 4000 \<mapsto> 0x20, 4001 \<mapsto> 0x20, 4002 \<mapsto> 0x61, 4003 \<mapsto> 0x20, 4004 \<mapsto> 0, 4005 \<mapsto> 7, 4006 \<mapsto> 7, 4007 \<mapsto> 7,
     5000 \<mapsto> 0x61, 5001 \<mapsto> 0x2C, 5002 \<mapsto> 0x62, 5003 \<mapsto> 0]"

lemma sample_strings_cstr:
  "cstr sample_strings 1000 [0x41, 0x62]" "cstr sample_strings 2000 [0x61, 0x42]"
  "cstr sample_strings 3000 [0x2C]" "cstr sample_strings 4000 [0x20, 0x20, 0x61, 0x20]"
  "cstr sample_strings 5000 [0x61, 0x2C, 0x62]"
  by (simp_all add: cstr_def sample_strings_def All_less_Suc2)

theorem strcmp_orders_witness:
  "cl_strcmp sample_strings 1000 2000 = Some (-1) \<and> cl_stricmp sample_strings 1000 2000 = Some 0"
  using strcmp_orders [OF sample_strings_cstr(1,2)] by (simp add: str_less_def cl_tolower_def LOWER_UPPER_DIFF_def)

text \<open>The conversion identifies characters that are no letters: the strings \<^verbatim>\<open>[\<close> and \<^verbatim>\<open>{\<close> compare equal.\<close>

lemma stricmp_identifies_brackets:
  assumes "cstr m a [0x5B]" "cstr m b [0x7B]" "a \<noteq> NULL" "b \<noteq> NULL"
  shows "cl_stricmp m a b = Some 0 \<and> lower_case 0x5B \<noteq> lower_case 0x7B"
  using strcmp_loop_spec [OF assms(1,2), of 0] assms(3,4)
  by (simp add: cl_stricmp_def strcmp_spec_order cl_tolower_def LOWER_UPPER_DIFF_def lower_case_def)

lemma stricmp_identifies_brackets_witness:
  "cl_stricmp [1000 \<mapsto> 0x5B, 1001 \<mapsto> 0, 2000 \<mapsto> 0x7B, 2001 \<mapsto> 0] 1000 2000 = Some 0"
proof -
  have "cstr [1000 \<mapsto> 0x5B, 1001 \<mapsto> 0, 2000 \<mapsto> 0x7B, 2001 \<mapsto> 0] 1000 [0x5B]"
    "cstr [1000 \<mapsto> 0x5B, 1001 \<mapsto> 0, 2000 \<mapsto> 0x7B, 2001 \<mapsto> 0] 2000 [0x7B]"
    by (simp_all add: cstr_def All_less_Suc2)
  from stricmp_identifies_brackets [OF this] show ?thesis by simp
qed

text \<open>
  \<^verbatim>\<open>cl_strncmp\<close> on two strings that both have at least \<open>len\<close> characters compares their first \<open>len\<close>
  characters; on two equal strings shorter than \<open>len\<close> it returns -1.
\<close>

theorem strncmp_short_strings:
  assumes "cstr m a s" "cstr m b t" "a \<noteq> NULL" "b \<noteq> NULL" "len \<noteq> 0"
  shows "(unat len \<le> length s \<and> unat len \<le> length t \<longrightarrow> cl_strncmp m a b len
       = Some (if take (unat len) s = take (unat len) t then 0
               else if str_less (\<lambda>c. c) (take (unat len) s) (take (unat len) t) then -1 else 1))
    \<and> (s = t \<and> length s < unat len \<longrightarrow> cl_strncmp m a b len = Some (-1) \<and> cl_strnicmp m a b len = Some (-1))"
  using strncmp_loop_spec [OF assms(1,2), of 0 len] assms(3-5)
  by (auto simp: cl_strncmp_def cl_strnicmp_def strncmp_spec_order strncmp_spec_short strcmp_spec_order)

theorem strncmp_short_strings_witness:
  "cl_strncmp sample_strings 3000 3000 4 = Some (-1)"
  using strncmp_short_strings [OF sample_strings_cstr(3,3), of 4] by simp

text \<open>C17.
  Calling \<^verbatim>\<open>cl_strtok_s\<close> on a string until it returns null takes at most one call more than the string
  has characters. The pointers it returned are, in order, the starts of strings in the resulting
  memory that are exactly the pieces of the string between delimiters, without an empty last one;
  nothing but the string has been changed.
\<close>

theorem strtok_splits:
  assumes "cstr m a s" "cstr m D ds" "D \<noteq> NULL" "\<forall>i \<le> length s. a + of_nat i \<noteq> NULL"
    "apart D (Suc (length ds)) a (length s)" "length s < n"
  shows "\<exists>ps m'. strtok_run n m a D NULL = Some (ps, m')
    \<and> list_all2 (cstr m') ps (str_tokens (set ds) s) \<and> only_changes m m' a (length s)"
  using strtok_run_spec [OF assms(1-4) _ assms(5,6), of NULL a] by simp

theorem strtok_splits_witness:
  "\<exists>ps m'. strtok_run 4 sample_strings 5000 3000 NULL = Some (ps, m') \<and> list_all2 (cstr m') ps [[0x61], [0x62]]"
proof -
  have "\<forall>i \<le> length [0x61, 0x2C, 0x62 :: BYTE]. (5000 :: ADDR) + of_nat i \<noteq> NULL"
    by (simp add: le_Suc_eq)
  moreover have "apart 3000 (Suc (length [0x2C :: BYTE])) 5000 (length [0x61, 0x2C, 0x62 :: BYTE])"
    by (simp add: apart_def All_less_Suc2)
  ultimately show ?thesis
    using strtok_splits [OF sample_strings_cstr(5,3), of 4] by auto
qed

text \<open>
  \<^verbatim>\<open>cl_strtrim\<close> on a string inside a buffer of twice its length returns and leaves the string without
  its leading and trailing white space.
\<close>

theorem strtrim_trims:
  assumes "cstr m a s" "\<forall>i \<le> length s. a + of_nat i \<noteq> NULL" "mapped m a (2 * length s)"
  shows "\<exists>m'. cl_strtrim m a = Some m' \<and> cstr m' a (trim s)"
proof -
  have a: "a \<noteq> NULL" using assms(2) [rule_format, of 0] by simp
  obtain l r where sp: "s = l @ trim s @ r" "\<forall>c \<in> set l \<union> set r. isspace c" "trim s = [] \<longrightarrow> r = []"
    "trim s \<noteq> [] \<longrightarrow> \<not> isspace (hd (trim s)) \<and> \<not> isspace (last (trim s))"
    using trim_split by blast
  show ?thesis
  proof (cases "trim s = []")
    case True
    then have "\<forall>x \<in> set s. isspace x" using sp(1-3) by (metis Un_iff append_Nil append_Nil2)
    then show ?thesis using strtrim_blank [OF assms(1) _ a] True by simp
  next
    case False
    then show ?thesis using strtrim_nonblank [OF assms(1) sp(1,2)] sp(4) assms(2,3) by blast
  qed
qed

lemma all_less_upt: "(\<forall>i < n. P i) \<longleftrightarrow> list_all P [0..<n]"
  by (auto simp: list_all_iff)

theorem strtrim_trims_witness:
  "\<exists>m'. cl_strtrim sample_strings 4000 = Some m' \<and> cstr m' 4000 [0x61]"
proof -
  have "\<forall>i \<le> length [0x20, 0x20, 0x61, 0x20 :: BYTE]. (4000 :: ADDR) + of_nat i \<noteq> NULL"
    by (simp add: le_Suc_eq)
  moreover have "mapped sample_strings 4000 (2 * length [0x20, 0x20, 0x61, 0x20 :: BYTE])"
    by (simp add: mapped_def sample_strings_def all_less_upt upt_rec)
  ultimately show ?thesis
    using strtrim_trims [OF sample_strings_cstr(4)] by (simp add: trim_def isspace_def)
qed

text \<open>C18.
  \<^verbatim>\<open>cl_strcpy\<close> into a large enough buffer that does not overlap the source returns, and the copy has
  the length of the source by \<^verbatim>\<open>cl_strlen\<close> and compares equal to it by \<^verbatim>\<open>cl_strcmp\<close>; no byte
  outside the copy changes. \<^verbatim>\<open>cl_strncpy\<close> does the same for the first \<open>len\<close> characters.
\<close>

theorem strcpy_round_trip:
  assumes "cstr m a s" "mapped m d (Suc (length s))" "apart a (Suc (length s)) d (Suc (length s))" "a \<noteq> NULL" "d \<noteq> NULL"
  shows "(\<exists>m'. cl_strcpy m d a = Some m' \<and> cl_strlen m' d = cl_strlen m a \<and> cl_strcmp m' d a = Some 0
        \<and> (\<forall>x. \<not> unat (x - d) < Suc (length s) \<longrightarrow> m' x = m x))
    \<and> (len \<noteq> 0 \<longrightarrow> (\<exists>m'. cl_strncpy m d a len = Some m' \<and> cstr m' d (take (unat len) s)))"
proof -
  let ?m = "written m d (s @ [0])"
  have s: "0 \<notin> set s" "length s < 2 ^ 32" using assms(1) by (simp_all add: cstr_def)
  have d: "cstr ?m d s" using cstr_written [OF s] .
  have "?m (a + of_nat i) = m (a + of_nat i)" if "i \<le> length s" for i
    using written_apart [of a "Suc (length s)" d "s @ [0]" i m] assms(3) that by simp
  then have a: "cstr ?m a s" using assms(1) by (simp add: cstr_def)
  have 1: "cl_strcpy m d a = Some ?m" using cl_strcpy_cstr [OF assms] .
  have "cl_strlen ?m d = cl_strlen m a" using cl_strlen_cstr d assms by metis
  moreover have "cl_strcmp ?m d a = Some 0"
    using strcmp_loop_spec [OF d a, of 0] assms(4,5) by (simp add: cl_strcmp_def strcmp_spec_order)
  moreover have "\<forall>x. \<not> unat (x - d) < Suc (length s) \<longrightarrow> ?m x = m x" by (simp add: written_outside)
  moreover have "\<exists>m'. cl_strncpy m d a len = Some m' \<and> cstr m' d (take (unat len) s)" if "len \<noteq> 0"
  proof -
    let ?k = "min (length s) (unat len)"
    have "cl_strncpy m d a len = Some (written m d (take ?k s @ [0]))"
      using that assms mapped_mono [OF assms(2), of "Suc ?k"] apart_mono [OF assms(3), of "Suc (length s)" "Suc ?k"]
      by (intro cl_strncpy_cstr) auto
    moreover have "cstr (written m d (take ?k s @ [0])) d (take ?k s)"
      using s by (intro cstr_written) (auto dest: in_set_takeD)
    moreover have "take ?k s = take (unat len) s" by (simp add: min_def)
    ultimately show ?thesis by auto
  qed
  ultimately show ?thesis using 1 by blast
qed

theorem strcpy_round_trip_witness:
  "\<exists>m'. cl_strcpy sample_strings 4000 1000 = Some m' \<and> cl_strcmp m' 4000 1000 = Some 0
     \<and> cl_strlen m' 4000 = cl_strlen sample_strings 1000"
proof -
  have "mapped sample_strings 4000 (Suc (length [0x41, 0x62 :: BYTE]))"
    "apart 1000 (Suc (length [0x41, 0x62 :: BYTE])) 4000 (Suc (length [0x41, 0x62 :: BYTE]))"
    by (simp_all add: mapped_def apart_def sample_strings_def All_less_Suc2)
  from strcpy_round_trip [OF sample_strings_cstr(1) this, of 0] show ?thesis by auto
qed

end
