(* ===== verification/CL_Strutils.thy ===== *)
theory CL_Strutils
  imports CL_String
begin

text \<open>
  \<^verbatim>\<open>CommonLib/src/strutils.c\<close>: printing a number into a string in a given base and reading it
  back. The numbers and the strings live in the byte memory of \<open>CL_Memory\<close>; numbers are stored
  little-endian. The digits are produced last one first and then reversed in place by exchanging
  bytes with exclusive or.
\<close>

section \<open>Numbers in memory\<close>

definition rd32 :: "bmem \<Rightarrow> ADDR \<Rightarrow> DWORD option" where
  "rd32 m a = map_option (\<lambda>bs. of_nat (le_value bs)) (rd_bytes m a 4)"

definition rd64 :: "bmem \<Rightarrow> ADDR \<Rightarrow> QWORD option" where
  "rd64 m a = map_option (\<lambda>bs. of_nat (le_value bs)) (rd_bytes m a 8)"

definition le_bytes :: "nat \<Rightarrow> QWORD \<Rightarrow> BYTE list" where
  "le_bytes n v = map (\<lambda>i. of_nat (unat v div 256 ^ i)) [0..<n]"

section \<open>Printing\<close>

definition BASE_TWO :: DWORD where "BASE_TWO = 2"
definition BASE_TEN :: DWORD where "BASE_TEN = 10"
definition BASE_HEXA :: DWORD where "BASE_HEXA = 16"

definition isascii :: "BYTE \<Rightarrow> bool" where
  "isascii c \<longleftrightarrow> 0x1F < sint c \<and> sint c < 0x80"

definition swap :: "bmem \<Rightarrow> ADDR \<Rightarrow> ADDR \<Rightarrow> bmem option" where
  "swap m a b = do {
     x \<leftarrow> m a; y \<leftarrow> m b; m \<leftarrow> wr8 m a (x XOR y);
     y \<leftarrow> m b; x \<leftarrow> m a; m \<leftarrow> wr8 m b (y XOR x);
     x \<leftarrow> m a; y \<leftarrow> m b; wr8 m a (x XOR y)
   }"

text \<open>The character of one digit: the \<^verbatim>\<open>int\<close> \<open>digit\<close> is the remainder cut to 32 bits.\<close>

definition digit_char :: "QWORD \<Rightarrow> BYTE" where
  "digit_char r = (let digit = (ucast r :: DWORD) in
     if sint digit > 9 then ucast (digit - 10) + 0x41 else ucast digit + 0x30)"

partial_function (option) itoa_digits :: "bmem \<Rightarrow> ADDR \<Rightarrow> DWORD \<Rightarrow> QWORD \<Rightarrow> DWORD \<Rightarrow> (bmem \<times> DWORD) option" where
  "itoa_digits m buffer base value index =
     (if value \<noteq> 0 then do {
        m \<leftarrow> wr8 m (buffer + ucast index) (digit_char (value mod ucast base));
        itoa_digits m buffer base (value div ucast base) (index + 1)
      }
      else Some (m, index))"

function itoa_reverse :: "bmem \<Rightarrow> ADDR \<Rightarrow> DWORD \<Rightarrow> DWORD \<Rightarrow> bmem option" where
  "itoa_reverse m buffer index i =
     (if i < index div 2 then do {
        m \<leftarrow> swap m (buffer + ucast i) (buffer + ucast (index - i - 1));
        itoa_reverse m buffer index (i + 1)
      }
      else Some m)"
  by pat_completeness auto
termination
  by (relation "measure (\<lambda>(m, buffer, index, i). unat (index div 2) - unat i)")
    (auto simp: word_less_nat_alt unat_inc_below)

text \<open>The sign and the magnitude of the number at \<^verbatim>\<open>valueAddress\<close>.\<close>

definition itoa_value :: "bmem \<Rightarrow> ADDR \<Rightarrow> bool \<Rightarrow> bool \<Rightarrow> (bool \<times> QWORD) option" where
  "itoa_value m valueAddress signedValue is64BitValue =
     (if is64BitValue then do {
        v \<leftarrow> rd64 m valueAddress;
        let negative = (signedValue \<and> 0 > sint v);
        Some (negative, if negative then - v else v)
      }
      else do {
        v \<leftarrow> rd32 m valueAddress;
        let negative = (signedValue \<and> 0 > sint v);
        Some (negative, if negative then scast (- v) else ucast v)
      })"

definition itoa :: "bmem \<Rightarrow> ADDR \<Rightarrow> bool \<Rightarrow> ADDR \<Rightarrow> DWORD \<Rightarrow> bool \<Rightarrow> bmem option" where
  "itoa m valueAddress signedValue buffer base is64BitValue = do {
     ASSERT (NULL \<noteq> valueAddress);
     ASSERT (NULL \<noteq> buffer);
     ASSERT (0 \<noteq> base);
     (negative, value) \<leftarrow> itoa_value m valueAddress signedValue is64BitValue;
     (m, index) \<leftarrow> (if value = 0 then do { m \<leftarrow> wr8 m buffer 0x30; Some (m, 1) } else Some (m, 0));
     (m, index) \<leftarrow> itoa_digits m buffer base value index;
     (m, index) \<leftarrow> (if negative then do { m \<leftarrow> wr8 m (buffer + ucast index) 0x2D; Some (m, index + 1) }
                    else Some (m, index));
     m \<leftarrow> wr8 m (buffer + ucast index) 0;
     itoa_reverse m buffer index 0
   }"

section \<open>Reading\<close>

definition char_value :: "BYTE \<Rightarrow> BYTE" where
  "char_value x = (let c = cl_tolower x in
     if 0x30 \<le> sint c \<and> sint c \<le> 0x39 then c - 0x30
     else if 0x61 \<le> sint c \<and> sint c \<le> 0x7A then c - 0x61 + 10
     else MAX_BYTE)"

partial_function (option) atoi_loop :: "bmem \<Rightarrow> ADDR \<Rightarrow> DWORD \<Rightarrow> QWORD \<Rightarrow> DWORD \<Rightarrow> QWORD option" where
  "atoi_loop m buffer base value i = do {
     c \<leftarrow> ch m buffer i;
     if c \<noteq> 0 then do {
       ASSERT (isascii c);
       ASSERT (ucast (char_value c) < base);
       atoi_loop m buffer base (value * ucast base + ucast (char_value c)) (i + 1)
     }
     else Some value
   }"

definition atoi :: "bmem \<Rightarrow> ADDR \<Rightarrow> ADDR \<Rightarrow> DWORD \<Rightarrow> bool \<Rightarrow> bmem option" where
  "atoi m valueAddress buffer base is64BitValue = do {
     ASSERT (NULL \<noteq> valueAddress);
     ASSERT (NULL \<noteq> buffer);
     ASSERT (0 \<noteq> base);
     c0 \<leftarrow> ch m buffer 0;
     let negative = (c0 = 0x2D);
     value \<leftarrow> atoi_loop m buffer base 0 (if negative then 1 else 0);
     let value = (if negative then - value else value);
     if is64BitValue then wr_bytes m valueAddress (le_bytes 8 value)
     else do {
       ASSERT (negative \<or> value \<le> ucast MAX_DWORD);
       wr_bytes m valueAddress (le_bytes 4 value)
     }
   }"

declare itoa_reverse.simps [simp del]

section \<open>The digits of a number\<close>

text \<open>The characters of the digits of \<open>n\<close>, last digit first; none for 0.\<close>

function rev_digits :: "nat \<Rightarrow> nat \<Rightarrow> BYTE list" where
  "rev_digits b n = (if n = 0 \<or> b < 2 then [] else digit_char (of_nat (n mod b)) # rev_digits b (n div b))"
  by pat_completeness auto
termination
  by (relation "measure (\<lambda>(b, n). n)") auto

declare rev_digits.simps [simp del]

lemma digit_char_facts:
  assumes "d < 36"
  shows "digit_char (of_nat d) \<noteq> 0" "digit_char (of_nat d) \<noteq> 0x2D" "isascii (digit_char (of_nat d))"
    "char_value (digit_char (of_nat d)) = of_nat d"
proof -
  have "\<forall>d \<in> set [0..<36]. digit_char (of_nat d) \<noteq> 0 \<and> digit_char (of_nat d) \<noteq> 0x2D \<and> isascii (digit_char (of_nat d))
      \<and> char_value (digit_char (of_nat d)) = of_nat d"
    by code_simp
  then show "digit_char (of_nat d) \<noteq> 0" "digit_char (of_nat d) \<noteq> 0x2D" "isascii (digit_char (of_nat d))"
    "char_value (digit_char (of_nat d)) = of_nat d" using assms by simp_all
qed

lemma itoa_digits_spec:
  assumes b: "b = unat base" "2 \<le> b"
  shows "mapped m d (length pre + length (rev_digits b (unat v))) \<Longrightarrow> length pre + length (rev_digits b (unat v)) < 2 ^ 32
    \<Longrightarrow> itoa_digits (written m d pre) d base v (of_nat (length pre))
      = Some (written m d (pre @ rev_digits b (unat v)), of_nat (length pre + length (rev_digits b (unat v))))"
proof (induction "unat v" arbitrary: v pre rule: less_induct)
  case less
  show ?case
  proof (cases "v = 0")
    case True
    then show ?thesis by (subst itoa_digits.simps) (simp add: rev_digits.simps)
  next
    case False
    let ?q = "v div ucast base" and ?c = "digit_char (v mod ucast base)"
    have v0: "unat v \<noteq> 0" using False by (simp add: unat_eq_0)
    have q: "unat ?q = unat v div b" using b(1) by (simp add: unat_div_distrib)
    have r: "?c = digit_char (of_nat (unat v mod b))"
      using b(1) word_arith_nat_mod [of v "ucast base"] by simp
    have dg: "rev_digits b (unat v) = ?c # rev_digits b (unat ?q)"
      using v0 b(2) by (subst rev_digits.simps) (simp add: q r)
    have lt: "unat ?q < unat v" using q v0 b(2) by simp
    have pl: "length pre < 2 ^ 32" "mapped m d (Suc (length pre))"
      using less.prems dg by (auto intro: mapped_mono)
    have "itoa_digits (written m d (pre @ [?c])) d base ?q (of_nat (length (pre @ [?c])))
        = Some (written m d ((pre @ [?c]) @ rev_digits b (unat ?q)), of_nat (length (pre @ [?c]) + length (rev_digits b (unat ?q))))"
      by (rule less.hyps [OF lt]) (use less.prems dg in simp_all)
    with False wr8_written [OF pl(2,1), of ?c] show ?thesis
      by (subst itoa_digits.simps) (simp add: dg ucast_of_nat_DWORD [OF pl(1)] add.commute)
  qed
qed

lemma written_update:
  assumes "i < length bs" "length bs \<le> 2 ^ 64"
  shows "(written m d bs)(d + of_nat i \<mapsto> v) = written m d (bs[i := v])"
proof
  fix x
  have i: "unat (of_nat i :: ADDR) = i" using assms by (intro unat_of_nat_small) simp
  show "((written m d bs)(d + of_nat i \<mapsto> v)) x = written m d (bs[i := v]) x"
  proof (cases "x = d + of_nat i")
    case True
    with i assms show ?thesis by (simp add: written_def)
  next
    case False
    then have "unat (x - d) \<noteq> i" by (metis add.commute diff_add_cancel of_nat_unat ucast_id)
    with False show ?thesis by (simp add: written_def nth_list_update)
  qed
qed

lemma wr8_update:
  "i < length bs \<Longrightarrow> length bs \<le> 2 ^ 64 \<Longrightarrow> wr8 (written m d bs) (d + of_nat i) v = Some (written m d (bs[i := v]))"
  by (simp add: wr8_def written_inside written_update)

lemma swap_written:
  assumes "i < length bs" "j < length bs" "i \<noteq> j" "length bs \<le> 2 ^ 64"
  shows "swap (written m d bs) (d + of_nat i) (d + of_nat j) = Some (written m d (bs[i := bs ! j, j := bs ! i]))"
proof -
  have x: "(x XOR y) XOR (y XOR (x XOR y)) = y" "y XOR (x XOR y) = x" for x y :: BYTE
    by (simp_all add: bit_eq_iff bit_xor_iff) auto
  show ?thesis
    using assms by (simp add: swap_def wr8_update written_inside x list_update_swap [of i j])
qed

text \<open>The list with its first and last \<open>i\<close> elements exchanged.\<close>

definition rev_part :: "BYTE list \<Rightarrow> nat \<Rightarrow> BYTE list" where
  "rev_part xs i = map (\<lambda>j. if j < i \<or> length xs - i \<le> j then xs ! (length xs - 1 - j) else xs ! j) [0..<length xs]"

lemma length_rev_part [simp]: "length (rev_part xs i) = length xs"
  by (simp add: rev_part_def)

lemma rev_part_0: "rev_part xs 0 = xs"
  by (rule nth_equalityI) (simp_all add: rev_part_def)

lemma rev_part_half: "rev_part xs (length xs div 2) = rev xs"
proof (rule nth_equalityI)
  fix j assume "j < length (rev_part xs (length xs div 2))"
  moreover have "length xs - 1 - j = j" if "\<not> j < length xs div 2" "\<not> length xs - length xs div 2 \<le> j" using that by linarith
  ultimately show "rev_part xs (length xs div 2) ! j = rev xs ! j" by (auto simp: rev_part_def rev_nth)
qed simp

lemma rev_part_Suc:
  assumes "i < length xs div 2"
  shows "(rev_part xs i)[i := rev_part xs i ! (length xs - Suc i), length xs - Suc i := rev_part xs i ! i] = rev_part xs (Suc i)"
proof (rule nth_equalityI)
  fix j assume "j < length ((rev_part xs i)[i := rev_part xs i ! (length xs - Suc i), length xs - Suc i := rev_part xs i ! i])"
  then have j: "j < length xs" by simp
  have v: "rev_part xs i ! (length xs - Suc i) = xs ! (length xs - Suc i)" "rev_part xs i ! i = xs ! i"
    using assms by (auto simp: rev_part_def)
  consider "j = i" | "j = length xs - Suc i" | "j \<noteq> i" "j \<noteq> length xs - Suc i" by blast
  then show "(rev_part xs i)[i := rev_part xs i ! (length xs - Suc i), length xs - Suc i := rev_part xs i ! i] ! j
      = rev_part xs (Suc i) ! j"
  proof cases
    case 1
    with v assms j show ?thesis by (simp add: nth_list_update rev_part_def)
  next
    case 2
    with v assms j show ?thesis by (simp add: nth_list_update rev_part_def)
  next
    case 3
    then have "(j < Suc i \<or> length xs - Suc i \<le> j) = (j < i \<or> length xs - i \<le> j)" using j by linarith
    with 3 j show ?thesis by (simp add: nth_list_update rev_part_def)
  qed
qed simp

lemma itoa_reverse_spec:
  assumes n: "length xs < 2 ^ 32"
  shows "i \<le> length xs div 2 \<Longrightarrow> itoa_reverse (written m d (rev_part xs i @ [0])) d (of_nat (length xs)) (of_nat i)
    = Some (written m d (rev xs @ [0]))"
proof (induction rule: index_induct)
  case stop
  have "(of_nat (length xs) :: DWORD) div 2 = of_nat (length xs div 2)"
    using n by (simp add: word_unat_eq_iff unat_div_distrib unat_of_nat_small)
  then show ?case by (subst itoa_reverse.simps) (simp add: rev_part_half)
next
  case (step i)
  let ?n = "length xs" and ?j = "length xs - Suc i"
  have d2: "(of_nat ?n :: DWORD) div 2 = of_nat (?n div 2)"
    using n by (simp add: word_unat_eq_iff unat_div_distrib unat_of_nat_small)
  have lt: "(of_nat i :: DWORD) < of_nat ?n div 2"
    using step.hyps n unfolding d2 by (simp add: word_less_nat_alt unat_of_nat_small)
  have ij: "i < ?n" "?j < ?n" "i \<noteq> ?j" using step.hyps by linarith+
  have j: "(of_nat ?n :: DWORD) - of_nat i - 1 = of_nat ?j" using ij by (simp add: of_nat_diff)
  have u: "(ucast (of_nat i :: DWORD) :: ADDR) = of_nat i" "(ucast (of_nat ?j :: DWORD) :: ADDR) = of_nat ?j"
    using ij n by (intro ucast_of_nat_DWORD; simp)+
  have "swap (written m d (rev_part xs i @ [0])) (d + of_nat i) (d + of_nat ?j)
      = Some (written m d (rev_part xs (Suc i) @ [0]))"
    using swap_written [of i "rev_part xs i @ [0]" ?j m d] ij n rev_part_Suc [OF step.hyps]
    by (simp add: nth_append list_update_append)
  then show ?case using lt step.IH by (subst itoa_reverse.simps) (simp add: j u add.commute)
qed

section \<open>The printed string\<close>

definition itoa_string :: "nat \<Rightarrow> bool \<Rightarrow> nat \<Rightarrow> BYTE list" where
  "itoa_string b negative n = (if negative then [0x2D] else []) @ (if n = 0 then [0x30] else rev (rev_digits b n))"

lemma itoa_spec:
  assumes v: "itoa_value m va sg w = Some (negative, v)" and p: "va \<noteq> NULL" "d \<noteq> NULL" and b: "2 \<le> unat base"
    and s: "s = itoa_string (unat base) negative (unat v)" "length s < 2 ^ 32" "mapped m d (Suc (length s))"
  shows "itoa m va sg d base w = Some (written m d (s @ [0]))"
proof -
  define ds where "ds = (if v = 0 then [0x30] else rev_digits (unat base) (unat v))"
  define xs where "xs = ds @ (if negative then [0x2D] else [])"
  have xs: "s = rev xs" "length xs = length s"
    unfolding s(1) itoa_string_def xs_def ds_def by (simp_all add: unat_eq_0)
  have base: "base \<noteq> 0" using b by auto
  have le: "length ds \<le> length s" using xs by (simp add: xs_def)
  have l: "length ds < 2 ^ 32" "length xs < 2 ^ 32" using le s(2) xs(2) by simp_all
  have md: "mapped m d (length ds)" "mapped m d (Suc (length ds))" "mapped m d (Suc (length xs))"
    using mapped_mono [OF s(3)] le xs(2) by simp_all
  have digits: "do { (m, index) \<leftarrow> (if v = 0 then do { m \<leftarrow> wr8 m d 0x30; Some (m, 1) } else Some (m, 0));
      itoa_digits m d base v index } = Some (written m d ds, of_nat (length ds))"
  proof (cases "v = 0")
    case True
    have "wr8 m d 0x30 = Some (written m d ds)"
      using wr8_written [of m d "[]" "0x30"] md(2) True by (simp add: ds_def mapped_Suc)
    with True show ?thesis by (simp add: ds_def itoa_digits.simps)
  next
    case False
    with itoa_digits_spec [OF refl b, of m d "[]" v] md l show ?thesis by (simp add: ds_def)
  qed
  have sign: "(if negative then do { m \<leftarrow> wr8 (written m d ds) (d + ucast (of_nat (length ds) :: DWORD)) 0x2D;
      Some (m, of_nat (length ds) + 1) } else Some (written m d ds, of_nat (length ds))) = Some (written m d xs, of_nat (length xs) :: DWORD)"
  proof (cases negative)
    case True
    with wr8_written [OF md(2) l(1), of "0x2D"] l show ?thesis by (simp add: xs_def ucast_of_nat_DWORD [OF l(1)])
  qed (simp add: xs_def)
  have nul: "wr8 (written m d xs) (d + ucast (of_nat (length xs) :: DWORD)) 0 = Some (written m d (xs @ [0]))"
    using wr8_written [OF md(3) l(2), of 0] by (simp add: ucast_of_nat_DWORD [OF l(2)])
  have rev: "itoa_reverse (written m d (xs @ [0])) d (of_nat (length xs)) 0 = Some (written m d (rev xs @ [0]))"
    using itoa_reverse_spec [OF l(2), of 0 m d] by (simp add: rev_part_0)
  have "itoa m va sg d base w = do {
      (m, index) \<leftarrow> do { (m, index) \<leftarrow> (if v = 0 then do { m \<leftarrow> wr8 m d 0x30; Some (m, 1) } else Some (m, 0));
        itoa_digits m d base v index };
      (m, index) \<leftarrow> (if negative then do { m \<leftarrow> wr8 m (d + ucast index) 0x2D; Some (m, index + 1) } else Some (m, index));
      m \<leftarrow> wr8 m (d + ucast index) 0;
      itoa_reverse m d index 0 }"
    unfolding itoa_def using p base v by (simp add: case_prod_beta Option.bind_assoc)
  also have "\<dots> = Some (written m d (rev xs @ [0]))"
    unfolding digits by (simp add: sign nul rev)
  finally show ?thesis using xs by simp
qed

section \<open>The value of a string of digits\<close>

function nat_digits :: "nat \<Rightarrow> nat \<Rightarrow> nat list" where
  "nat_digits b n = (if n = 0 \<or> b < 2 then [] else n mod b # nat_digits b (n div b))"
  by pat_completeness auto
termination
  by (relation "measure (\<lambda>(b, n). n)") auto

declare nat_digits.simps [simp del]

lemma rev_digits_map: "rev_digits b n = map (\<lambda>x. digit_char (of_nat x)) (nat_digits b n)"
proof (induction b n rule: nat_digits.induct)
  case (1 b n)
  then show ?case by (subst rev_digits.simps, subst nat_digits.simps) auto
qed

lemma nat_digits_less: "\<forall>x \<in> set (nat_digits b n). x < b"
proof (induction b n rule: nat_digits.induct)
  case (1 b n)
  then show ?case by (subst nat_digits.simps) auto
qed

lemma nat_digits_value: "2 \<le> b \<Longrightarrow> foldl (\<lambda>v x. v * b + x) 0 (rev (nat_digits b n)) = n"
proof (induction b n rule: nat_digits.induct)
  case (1 b n)
  then show ?case by (subst nat_digits.simps) auto
qed

lemma nat_digits_length: "2 \<le> b \<Longrightarrow> n < b ^ k \<Longrightarrow> length (nat_digits b n) \<le> k"
proof (induction k arbitrary: n)
  case 0
  then show ?case by (simp add: nat_digits.simps)
next
  case (Suc k)
  then have "n div b < b ^ k" by (simp add: less_mult_imp_div_less mult.commute)
  then show ?case using Suc.IH Suc.prems(1) by (subst nat_digits.simps) simp
qed

lemma foldl_of_nat:
  "foldl (\<lambda>v x. v * of_nat b + of_nat x) (of_nat a :: QWORD) xs = of_nat (foldl (\<lambda>v x. v * b + x) a xs)"
proof (induction xs arbitrary: a)
  case (Cons x xs)
  have "of_nat a * of_nat b + of_nat x = (of_nat (a * b + x) :: QWORD)" by simp
  then show ?case using Cons [of "a * b + x"] by (simp only: foldl.simps)
qed simp

lemma atoi_loop_spec:
  assumes b: "unat base \<le> 36"
  shows "cstr m d (pre @ map (\<lambda>x. digit_char (of_nat x)) ds) \<Longrightarrow> \<forall>x \<in> set ds. x < unat base
    \<Longrightarrow> atoi_loop m d base v (of_nat (length pre)) = Some (foldl (\<lambda>v x. v * ucast base + of_nat x) v ds)"
proof (induction ds arbitrary: pre v)
  case Nil
  then show ?case using cstr_ch_end [of m d pre] by (subst atoi_loop.simps) simp
next
  case (Cons x ds)
  let ?c = "digit_char (of_nat x)"
  have x: "x < 36" "x < unat base" using Cons.prems(2) b by auto
  note f = digit_char_facts [OF x(1)]
  have "ch m d (of_nat (length pre)) = Some ?c"
    using cstr_ch [OF Cons.prems(1), of "length pre"] by simp
  moreover have "(ucast (of_nat x :: BYTE) :: DWORD) < base"
    using x by (simp add: word_less_nat_alt unat_ucast_mod unat_of_nat_small)
  moreover have "(ucast (of_nat x :: BYTE) :: QWORD) = of_nat x"
    using x by (simp add: word_unat_eq_iff unat_ucast_mod unat_of_nat_small)
  moreover have "atoi_loop m d base (v * ucast base + of_nat x) (of_nat (length (pre @ [?c])))
      = Some (foldl (\<lambda>v x. v * ucast base + of_nat x) (v * ucast base + of_nat x) ds)"
    by (rule Cons.IH) (use Cons.prems in simp_all)
  ultimately show ?case using f by (subst atoi_loop.simps) (simp add: add.commute)
qed

section \<open>Writing and reading numbers\<close>

lemma le_value_le_bytes: "le_value (le_bytes k v) = unat v mod 256 ^ k"
proof (induction k)
  case 0
  then show ?case by (simp add: le_bytes_def)
next
  case (Suc k)
  have "le_bytes (Suc k) v = le_bytes k v @ [of_nat (unat v div 256 ^ k)]" by (simp add: le_bytes_def)
  moreover have "unat (of_nat (unat v div 256 ^ k) :: BYTE) = (unat v div 256 ^ k) mod 256"
    by (simp add: unat_of_nat take_bit_eq_mod)
  moreover have "length (le_bytes k v) = k" by (simp add: le_bytes_def)
  ultimately show ?case using Suc mod_mult2_eq [of "unat v" "256 ^ k" 256]
    by (simp add: le_value_append mult.commute add.commute)
qed

lemma rd_bytes_written:
  assumes "length bs \<le> 2 ^ 64"
  shows "rd_bytes (written m a bs) a (length bs) = Some bs"
proof -
  have w: "written m a bs (a + of_nat i) = Some (bs ! i)" if "i < length bs" for i
    using written_inside [OF that assms] .
  then have "mapped (written m a bs) a (length bs)" by (simp add: mapped_def)
  then have "rd_bytes (written m a bs) a (length bs) = Some (map (\<lambda>i. the (written m a bs (a + of_nat i))) [0..<length bs])"
    by (rule rd_bytes_mapped)
  also have "map (\<lambda>i. the (written m a bs (a + of_nat i))) [0..<length bs] = bs"
    by (rule nth_equalityI) (simp_all add: w)
  finally show ?thesis .
qed

lemma length_le_bytes [simp]: "length (le_bytes n v) = n"
  by (simp add: le_bytes_def)

lemma write_read_number:
  assumes "mapped m a 8"
  shows "\<exists>m'. wr_bytes m a (le_bytes 8 v) = Some m' \<and> rd64 m' a = Some v"
    "\<exists>m'. wr_bytes m a (le_bytes 4 v) = Some m' \<and> rd32 m' a = Some (ucast v)"
proof -
  have "wr_bytes m a (le_bytes 8 v) = Some (written m a (le_bytes 8 v))"
    using assms by (intro wr_bytes_written) simp_all
  moreover have "rd64 (written m a (le_bytes 8 v)) a = Some v"
    using rd_bytes_written [of "le_bytes 8 v" m a] unat64_bound [of v]
    by (simp add: rd64_def le_value_le_bytes)
  ultimately show "\<exists>m'. wr_bytes m a (le_bytes 8 v) = Some m' \<and> rd64 m' a = Some v" by blast
  have "wr_bytes m a (le_bytes 4 v) = Some (written m a (le_bytes 4 v))"
    using mapped_mono [OF assms, of 4] by (intro wr_bytes_written) simp_all
  moreover have "(of_nat (unat v mod 4294967296) :: DWORD) = ucast v"
    by (simp add: word_unat_eq_iff unat_ucast_mod unat_of_nat_small)
  then have "rd32 (written m a (le_bytes 4 v)) a = Some (ucast v)"
    using rd_bytes_written [of "le_bytes 4 v" m a] by (simp add: rd32_def le_value_le_bytes)
  ultimately show "\<exists>m'. wr_bytes m a (le_bytes 4 v) = Some m' \<and> rd32 m' a = Some (ucast v)" by blast
qed

section \<open>Reading back what was printed\<close>

text \<open>The characters of a printed number, as the value of its digits.\<close>

definition printed_digits :: "nat \<Rightarrow> nat \<Rightarrow> nat list" where
  "printed_digits b n = (if n = 0 then [0] else rev (nat_digits b n))"

lemma itoa_string_digits:
  "itoa_string b negative n = (if negative then [0x2D] else []) @ map (\<lambda>x. digit_char (of_nat x)) (printed_digits b n)"
  by (simp add: itoa_string_def printed_digits_def rev_digits_map rev_map digit_char_def)

lemma printed_digits_facts:
  assumes "2 \<le> b"
  shows "\<forall>x \<in> set (printed_digits b n). x < b" "foldl (\<lambda>v x. v * b + x) 0 (printed_digits b n) = n"
    "printed_digits b n \<noteq> []" "n < b ^ k \<Longrightarrow> 0 < k \<Longrightarrow> length (printed_digits b n) \<le> k"
proof -
  show "\<forall>x \<in> set (printed_digits b n). x < b" using nat_digits_less assms by (auto simp: printed_digits_def)
  show "foldl (\<lambda>v x. v * b + x) 0 (printed_digits b n) = n" using nat_digits_value [OF assms] by (simp add: printed_digits_def)
  show "printed_digits b n \<noteq> []" using assms by (simp add: printed_digits_def) (subst nat_digits.simps, simp)
  show "length (printed_digits b n) \<le> k" if "n < b ^ k" "0 < k"
    using nat_digits_length [OF assms that(1)] that(2) by (simp add: printed_digits_def)
qed

lemma itoa_string_facts:
  assumes "2 \<le> b" "b \<le> 36" "n < 2 ^ 64"
  shows "0 \<notin> set (itoa_string b negative n)" "length (itoa_string b negative n) \<le> 64 + of_bool negative"
proof -
  have "x < 36" if "x \<in> set (printed_digits b n)" for x using printed_digits_facts(1) [OF assms(1), of n] that assms(2) by fastforce
  then show "0 \<notin> set (itoa_string b negative n)"
    using digit_char_facts(1) by (fastforce simp: itoa_string_digits dest: sym)
  have "n < b ^ 64" using assms(3) power_mono [OF assms(1), of 64] by linarith
  then show "length (itoa_string b negative n) \<le> 64 + of_bool negative"
    using printed_digits_facts(4) [OF assms(1), of n 64] by (simp add: itoa_string_digits)
qed

lemma atoi_printed:
  assumes s: "cstr m d (itoa_string (unat base) negative (unat v))" and b: "2 \<le> unat base" "unat base \<le> 36"
    and p: "out \<noteq> NULL" "d \<noteq> NULL"
  shows "atoi m out d base w = (let value = (if negative then - v else v) in
     if w then wr_bytes m out (le_bytes 8 value)
     else do { ASSERT (negative \<or> value \<le> ucast MAX_DWORD); wr_bytes m out (le_bytes 4 value) })"
proof -
  let ?ds = "printed_digits (unat base) (unat v)" and ?sg = "if negative then [0x2D :: BYTE] else []"
  note f = printed_digits_facts [OF b(1), of "unat v"]
  have s': "cstr m d (?sg @ map (\<lambda>x. digit_char (of_nat x)) ?ds)" using s by (simp add: itoa_string_digits)
  have "atoi_loop m d base 0 (of_nat (length ?sg)) = Some (foldl (\<lambda>v x. v * ucast base + of_nat x) 0 ?ds)"
    using atoi_loop_spec [OF b(2) s' f(1)] .
  also have "foldl (\<lambda>v x. v * ucast base + of_nat x) 0 ?ds = v"
  proof -
    have "(ucast base :: QWORD) = of_nat (unat base)" by simp
    then show ?thesis using foldl_of_nat [of "unat base" 0 ?ds] f(2) by simp
  qed
  finally have loop: "atoi_loop m d base 0 (if negative then 1 else 0) = Some v" by (cases negative) simp_all
  have "hd ?ds < 36" "?ds \<noteq> []" using f(1,3) b(2) hd_in_set [of ?ds] by fastforce+
  then have "ch m d 0 = Some (if negative then 0x2D else digit_char (of_nat (hd ?ds)))"
    using cstr_ch_0 [OF s'] by (cases ?ds) auto
  then have "ch m d 0 = Some c0 \<Longrightarrow> (c0 = 0x2D) = negative" for c0
    using digit_char_facts(2) [OF \<open>hd ?ds < 36\<close>] by (auto split: if_splits)
  moreover have "base \<noteq> 0" using b by auto
  moreover obtain c0 where "ch m d 0 = Some c0" using \<open>ch m d 0 = _\<close> by blast
  ultimately show ?thesis using p loop by (simp add: atoi_def Let_def)
qed

lemma ucast_of_int_down: "(ucast (of_int k :: QWORD) :: DWORD) = of_int k"
  by (rule bit_word_eqI) (simp add: bit_simps)

lemma negate_wide: "(ucast (- (scast (- x) :: QWORD)) :: DWORD) = x"
proof -
  have "- (scast (- x) :: QWORD) = of_int (- sint (- x))" by simp
  then have "(ucast (- (scast (- x) :: QWORD)) :: DWORD) = of_int (- sint (- x))" by (simp only: ucast_of_int_down)
  then show ?thesis by simp
qed

lemma mapped_written: "mapped m a n \<Longrightarrow> mapped (written m d bs) a n"
  by (auto simp: mapped_def written_def)

text \<open>C16.
  A number of 32 or 64 bits printed by \<^verbatim>\<open>itoa\<close>, signed or unsigned, in any base from 2 to 36, and
  read back by \<^verbatim>\<open>atoi\<close> with the same base is the same number. Both calls return: no assertion
  fails, and the printed string needs at most 66 bytes of the buffer. The smallest negative numbers are included.
\<close>

theorem itoa_atoi_round_trip:
  assumes "va \<noteq> NULL" "d \<noteq> NULL" "out \<noteq> NULL" "2 \<le> unat base" "unat base \<le> 36"
    "if w then rd64 m va \<noteq> None else rd32 m va \<noteq> None" "mapped m d 66" "mapped m out 8"
  shows "\<exists>m1 m2. itoa m va sg d base w = Some m1 \<and> atoi m1 out d base w = Some m2
    \<and> (if w then rd64 m2 out = rd64 m va else rd32 m2 out = rd32 m va)"
proof -
  obtain negative v where v: "itoa_value m va sg w = Some (negative, v)"
    using assms(6) by (cases w) (auto simp: itoa_value_def Let_def)
  let ?s = "itoa_string (unat base) negative (unat v)"
  let ?m = "written m d (?s @ [0])" and ?v = "if negative then - v else v"
  have n: "unat v < 2 ^ 64" using unat64_bound [of v] by simp
  note f = itoa_string_facts [OF assms(4,5) n, of negative]
  have "length ?s \<le> 65" using f(2) by (cases negative) simp_all
  then have l: "length ?s < 2 ^ 32" "mapped m d (Suc (length ?s))"
    using mapped_mono [OF assms(7), of "Suc (length ?s)"] by (simp_all split: if_splits)
  have itoa: "itoa m va sg d base w = Some ?m" by (rule itoa_spec [OF v assms(1,2,4) refl l])
  have atoi: "atoi ?m out d base w = (if w then wr_bytes ?m out (le_bytes 8 ?v)
     else do { ASSERT (negative \<or> ?v \<le> ucast MAX_DWORD); wr_bytes ?m out (le_bytes 4 ?v) })"
    using atoi_printed [OF cstr_written [OF f(1) l(1)] assms(4,5,3,2)] by (simp only: Let_def)
  have out: "mapped ?m out 8" using mapped_written [OF assms(8)] .
  show ?thesis
  proof (cases w)
    case True
    then have "rd64 m va = Some ?v" using v by (auto simp: itoa_value_def Let_def split: bind_splits)
    then show ?thesis using itoa atoi True write_read_number(1) [OF out, of ?v] by auto
  next
    case False
    then obtain x where x: "rd32 m va = Some x" "negative = (sg \<and> 0 > sint x)" "v = (if negative then scast (- x) else ucast x)"
      using v by (auto simp: itoa_value_def Let_def split: bind_splits)
    have "negative \<or> ?v \<le> ucast MAX_DWORD"
      using unat32_bound [of x] by (simp add: x(3) MAX_DWORD_def word_le_nat_alt)
    moreover have "ucast ?v = x"
    proof (cases negative)
      case True
      then show ?thesis using x(3) negate_wide [of x] by simp
    next
      case False
      then show ?thesis using x(3) unat32_bound [of x] by (simp add: word_unat_eq_iff unat_ucast_mod)
    qed
    ultimately show ?thesis using itoa atoi False x(1) write_read_number(2) [OF out, of ?v] by auto
  qed
qed

text \<open>The number -2147483648 (the smallest 32-bit one), a buffer and a place for the result.\<close>

definition sample_number :: bmem where
  "sample_number = (\<lambda>a. if a = 103 then Some 0x80 else if 100 \<le> a \<and> a < 300 then Some 0 else None)"

lemma sample_number_mapped: "n \<le> 66 \<Longrightarrow> a \<in> {100, 200, 280} \<Longrightarrow> a + of_nat n \<le> 300 \<Longrightarrow> mapped sample_number a n"
proof -
  assume n: "n \<le> 66" and a: "a \<in> {100, 200, 280}" and le: "a + of_nat n \<le> (300 :: ADDR)"
  have u: "unat a \<in> {100, 200, 280}" using a by auto
  have un: "unat (a + of_nat i) = unat a + i" if "i \<le> n" for i
  proof -
    have "unat (of_nat i :: ADDR) = i" using n that by (intro unat_of_nat_small) simp
    then show ?thesis using u n that by (auto simp: unat_word_ariths)
  qed
  have "unat a + n \<le> 300" using le un [of n] by (simp add: word_le_nat_alt)
  then have "100 \<le> a + of_nat i \<and> a + of_nat i < 300" if "i < n" for i
    using un [of i] u that by (auto simp: word_le_nat_alt word_less_nat_alt)
  then show ?thesis by (auto simp: mapped_def sample_number_def)
qed

lemma rd_bytes_numeral:
  "rd_bytes m a (numeral k) = do { b \<leftarrow> m a; bs \<leftarrow> rd_bytes m (a + 1) (pred_numeral k); Some (b # bs) }"
  by (simp add: numeral_eq_Suc)

lemma sample_number_value: "rd32 sample_number 100 = Some 0x80000000"
  by (simp add: rd32_def sample_number_def rd_bytes_numeral)

theorem itoa_atoi_round_trip_witness:
  "\<exists>m1 m2. itoa sample_number 100 True 200 10 False = Some m1 \<and> atoi m1 280 200 10 False = Some m2
     \<and> rd32 m2 280 = Some 0x80000000"
  using itoa_atoi_round_trip [of 100 200 280 10 False sample_number True]
    sample_number_mapped [of 66 200] sample_number_mapped [of 8 280] sample_number_value by simp

end
