(* ===== verification/CL_Printf.thy ===== *)
theory CL_Printf
  imports CL_Strutils
begin

text \<open>
  The formatted output of \<^verbatim>\<open>CommonLib/src/cl_string.c\<close>: \<^verbatim>\<open>cl_vsnprintf\<close> and \<^verbatim>\<open>cl_snprintf\<close>.

  The format, the output buffer and the string arguments are in the byte memory. The locals of
  \<^verbatim>\<open>cl_vsnprintf\<close> that are passed by address are in memory too: \<open>temp\<close> is the address of the
  65-byte array \<^verbatim>\<open>temp\<close>, \<open>tv\<close> that of \<^verbatim>\<open>temp_value\<close>. The variable arguments are a list of
  64-bit slots; an argument that is not there is \<open>None\<close>. \<^verbatim>\<open>DWORD\<close> sums wrap around, as in the code.
\<close>

section \<open>Operations\<close>

definition STATUS_PARSE_FAILED :: STATUS where
  "STATUS_PARSE_FAILED = (ERROR_MASK OR CUSTOMER_BIT OR GENERAL_MASK OR 0x0021)"
definition STATUS_BUFFER_TOO_SMALL :: STATUS where
  "STATUS_BUFFER_TOO_SMALL = (ERROR_MASK OR CUSTOMER_BIT OR MEMORY_MASK OR 0x0002)"

definition VSNPRINTF_BUFFER_SIZE :: DWORD where "VSNPRINTF_BUFFER_SIZE = 65"

definition isdigit :: "BYTE \<Rightarrow> bool" where
  "isdigit c \<longleftrightarrow> 0x30 \<le> sint c \<and> sint c \<le> 0x39"

text \<open>The loop over the width digits: the index, the character after the digits, the width and the
  fill character.\<close>

partial_function (option) vsnprintf_width ::
  "bmem \<Rightarrow> ADDR \<Rightarrow> DWORD \<Rightarrow> BYTE \<Rightarrow> DWORD \<Rightarrow> bool \<Rightarrow> BYTE \<Rightarrow> (DWORD \<times> BYTE \<times> DWORD \<times> BYTE) option" where
  "vsnprintf_width m inputBuffer index next digits firstSpecificator fillChar =
     (if isdigit next then do {
        next' \<leftarrow> ch m inputBuffer (index + 1 + 1);
        vsnprintf_width m inputBuffer (index + 1) next' (digits * 10 + ucast next - 0x30) False
          (if firstSpecificator \<and> next = 0x30 then 0x30 else fillChar)
      }
      else Some (index, next, digits, fillChar))"

text \<open>\<^verbatim>\<open>temp_value = va_arg(...)\<close> followed by \<^verbatim>\<open>itoa(&temp_value, ...)\<close>.\<close>

definition print_number :: "bmem \<Rightarrow> ADDR \<Rightarrow> ADDR \<Rightarrow> QWORD \<Rightarrow> bool \<Rightarrow> DWORD \<Rightarrow> bool \<Rightarrow> bmem option" where
  "print_number m temp tv v signedValue base is64 = do {
     m \<leftarrow> wr_bytes m tv (le_bytes 8 v);
     itoa m tv signedValue temp base is64
   }"

text \<open>The switch over the conversion character: the memory and \<^verbatim>\<open>temp_str\<close>, or \<open>None\<close> inside for a
  character that is no conversion.\<close>

definition vsnprintf_convert :: "bmem \<Rightarrow> ADDR \<Rightarrow> ADDR \<Rightarrow> BYTE \<Rightarrow> QWORD list \<Rightarrow> (bmem \<times> ADDR \<times> QWORD list) option option" where
  "vsnprintf_convert m temp tv next args =
     (if next \<in> {0x62, 0x42, 0x75, 0x55, 0x64, 0x44, 0x78, 0x58, 0x63, 0x73, 0x53} then
        case args of
          [] \<Rightarrow> None
        | a # args \<Rightarrow>
            let v32 = ucast (ucast a :: DWORD) in
            if next = 0x62 then do { m \<leftarrow> print_number m temp tv v32 False BASE_TWO False; Some (Some (m, temp, args)) }
            else if next = 0x42 then do { m \<leftarrow> print_number m temp tv a False BASE_TWO True; Some (Some (m, temp, args)) }
            else if next = 0x75 then do { m \<leftarrow> print_number m temp tv v32 False BASE_TEN False; Some (Some (m, temp, args)) }
            else if next = 0x55 then do { m \<leftarrow> print_number m temp tv a False BASE_TEN True; Some (Some (m, temp, args)) }
            else if next = 0x64 then do { m \<leftarrow> print_number m temp tv v32 True BASE_TEN False; Some (Some (m, temp, args)) }
            else if next = 0x44 then do { m \<leftarrow> print_number m temp tv a True BASE_TEN True; Some (Some (m, temp, args)) }
            else if next = 0x78 then do { m \<leftarrow> print_number m temp tv v32 False BASE_HEXA False; Some (Some (m, temp, args)) }
            else if next = 0x58 then do { m \<leftarrow> print_number m temp tv a False BASE_HEXA True; Some (Some (m, temp, args)) }
            else if next = 0x63 then do {
              m \<leftarrow> wr_bytes m tv (le_bytes 8 (scast (ucast a :: BYTE)));
              m \<leftarrow> cl_strncpy m temp tv 1;
              Some (Some (m, temp, args))
            }
            else Some (Some (m, a, args))
      else Some None)"

text \<open>Padding and copying one argument to the output: the memory and the new offset.\<close>

definition vsnprintf_emit :: "bmem \<Rightarrow> ADDR \<Rightarrow> DWORD \<Rightarrow> ADDR \<Rightarrow> BYTE \<Rightarrow> DWORD \<Rightarrow> DWORD \<Rightarrow> (bmem \<times> DWORD) option" where
  "vsnprintf_emit m outputBuffer off temp_str fillChar fillSpaces charsToCopy = do {
     (m, off) \<leftarrow> (if 0 \<noteq> fillSpaces then do {
         m \<leftarrow> cl_memset m (outputBuffer + ucast off) fillChar fillSpaces;
         Some (m, off + fillSpaces)
       } else Some (m, off));
     m \<leftarrow> (if charsToCopy \<noteq> 0 then cl_strncpy m (outputBuffer + ucast off) temp_str charsToCopy else Some m);
     Some (m, off + charsToCopy)
   }"

text \<open>One conversion, from the \<^verbatim>\<open>%\<close> at \<open>index\<close>: a return with a status, or the new memory, arguments,
  index and offset of the output.\<close>

definition vsnprintf_conversion ::
  "bmem \<Rightarrow> ADDR \<Rightarrow> DWORD \<Rightarrow> ADDR \<Rightarrow> ADDR \<Rightarrow> ADDR \<Rightarrow> QWORD list \<Rightarrow> DWORD \<Rightarrow> DWORD
     \<Rightarrow> (STATUS \<times> bmem + bmem \<times> QWORD list \<times> DWORD \<times> DWORD) option" where
  "vsnprintf_conversion m outputBuffer buffSize inputBuffer temp tv args index off = do {
     next \<leftarrow> ch m inputBuffer (index + 1);
     (index, next, digits, fillChar) \<leftarrow> vsnprintf_width m inputBuffer index next 0 True 0x20;
     r \<leftarrow> vsnprintf_convert m temp tv next args;
     case r of
       None \<Rightarrow> Some (Inl (STATUS_PARSE_FAILED, m))
     | Some (m, temp_str, args) \<Rightarrow> do {
         temp_len \<leftarrow> cl_strlen m temp_str;
         ASSERT (temp_len \<noteq> INVALID_STRING_SIZE);
         let charsToCopy = (if next = 0x53 then min digits temp_len else temp_len);
         if off + temp_len \<ge> buffSize then Some (Inl (STATUS_BUFFER_TOO_SMALL, m))
         else do {
           let fillSpaces = (if digits > temp_len then digits - temp_len else 0);
           if off + temp_len + fillSpaces \<ge> buffSize then Some (Inl (STATUS_BUFFER_TOO_SMALL, m))
           else do {
             (m, off) \<leftarrow> vsnprintf_emit m outputBuffer off temp_str fillChar fillSpaces charsToCopy;
             Some (Inr (m, args, index + 2, off))
           }
         }
       }
   }"

partial_function (option) vsnprintf_loop ::
  "bmem \<Rightarrow> ADDR \<Rightarrow> DWORD \<Rightarrow> ADDR \<Rightarrow> ADDR \<Rightarrow> ADDR \<Rightarrow> QWORD list \<Rightarrow> DWORD \<Rightarrow> DWORD \<Rightarrow> DWORD \<Rightarrow> (STATUS \<times> bmem) option" where
  "vsnprintf_loop m outputBuffer buffSize inputBuffer temp tv args index param_index off = do {
     c \<leftarrow> ch m inputBuffer index;
     if c = 0 then do {
       m \<leftarrow> wr8 m (outputBuffer + ucast off) 0;
       Some (param_index - 1, m)
     }
     else if c = 0x25 then do {
       r \<leftarrow> vsnprintf_conversion m outputBuffer buffSize inputBuffer temp tv args index off;
       case r of
         Inl res \<Rightarrow> Some res
       | Inr (m, args, index, off) \<Rightarrow>
           vsnprintf_loop m outputBuffer buffSize inputBuffer temp tv args index (param_index + 1) off
     }
     else if off + 1 \<ge> buffSize then do {
       m \<leftarrow> wr8 m (outputBuffer + ucast off) 0;
       Some (STATUS_BUFFER_TOO_SMALL, m)
     }
     else do {
       m \<leftarrow> wr8 m (outputBuffer + ucast off) c;
       vsnprintf_loop m outputBuffer buffSize inputBuffer temp tv args (index + 1) param_index (off + 1)
     }
   }"

definition cl_vsnprintf :: "bmem \<Rightarrow> ADDR \<Rightarrow> ADDR \<Rightarrow> ADDR \<Rightarrow> DWORD \<Rightarrow> ADDR \<Rightarrow> QWORD list \<Rightarrow> (STATUS \<times> bmem) option" where
  "cl_vsnprintf m temp tv outputBuffer buffSize inputBuffer args =
     (if outputBuffer = NULL then Some (STATUS_INVALID_PARAMETER1, m)
      else if buffSize = 0 then Some (STATUS_INVALID_PARAMETER2, m)
      else if inputBuffer = NULL then Some (STATUS_INVALID_PARAMETER3, m)
      else vsnprintf_loop m outputBuffer buffSize inputBuffer temp tv args 0 1 0)"

definition cl_snprintf :: "bmem \<Rightarrow> ADDR \<Rightarrow> ADDR \<Rightarrow> ADDR \<Rightarrow> DWORD \<Rightarrow> ADDR \<Rightarrow> QWORD list \<Rightarrow> (STATUS \<times> bmem) option" where
  "cl_snprintf m temp tv outputBuffer buffSize inputBuffer args =
     cl_vsnprintf m temp tv outputBuffer buffSize inputBuffer args"

section \<open>What a format means\<close>

text \<open>The width and the fill character of a conversion with the width digits \<open>ds\<close>.\<close>

definition fmt_width :: "BYTE list \<Rightarrow> DWORD" where
  "fmt_width ds = foldl (\<lambda>v c. v * 10 + ucast c - 0x30) 0 ds"

definition fmt_fill :: "BYTE list \<Rightarrow> BYTE" where
  "fmt_fill ds = (if ds \<noteq> [] \<and> hd ds = 0x30 then 0x30 else 0x20)"

definition conversions :: "BYTE set" where
  "conversions = {0x62, 0x42, 0x75, 0x55, 0x64, 0x44, 0x78, 0x58, 0x63, 0x73, 0x53}"

text \<open>The characters of a number: \<open>w\<close> is \<open>True\<close> for 64 bits.\<close>

definition number_string :: "bool \<Rightarrow> nat \<Rightarrow> bool \<Rightarrow> QWORD \<Rightarrow> BYTE list" where
  "number_string sg b w v =
     (if w then (let neg = (sg \<and> 0 > sint v) in itoa_string b neg (unat (if neg then - v else v)))
      else (let d = (ucast v :: DWORD); neg = (sg \<and> 0 > sint d) in
        itoa_string b neg (unat (if neg then scast (- d) else ucast d :: QWORD))))"

text \<open>The characters of one converted argument; \<open>strs\<close> gives the strings at the pointer arguments.\<close>

definition conv_string :: "(QWORD \<rightharpoonup> BYTE list) \<Rightarrow> BYTE \<Rightarrow> QWORD \<Rightarrow> BYTE list option" where
  "conv_string strs c a =
     (if c = 0x62 then Some (number_string False 2 False a)
      else if c = 0x42 then Some (number_string False 2 True a)
      else if c = 0x75 then Some (number_string False 10 False a)
      else if c = 0x55 then Some (number_string False 10 True a)
      else if c = 0x64 then Some (number_string True 10 False a)
      else if c = 0x44 then Some (number_string True 10 True a)
      else if c = 0x78 then Some (number_string False 16 False a)
      else if c = 0x58 then Some (number_string False 16 True a)
      else if c = 0x63 then Some (if (ucast a :: BYTE) = 0 then [] else [ucast a])
      else strs a)"

datatype fmt_end = Done | ParseFailed | TooSmall

text \<open>
  The text a format \<open>f\<close> produces after \<open>out\<close> in a buffer of \<open>N\<close> bytes, how it ends and how many
  arguments it has converted. No meaning is given to a missing argument, to a pointer without a
  string, and to a field that does not fit 32 bits.
\<close>

function render :: "nat \<Rightarrow> (QWORD \<rightharpoonup> BYTE list) \<Rightarrow> BYTE list \<Rightarrow> QWORD list \<Rightarrow> BYTE list \<Rightarrow> nat
    \<Rightarrow> (fmt_end \<times> BYTE list \<times> nat) option" where
  "render N strs [] args out k = Some (Done, out, k)"
| "render N strs (c # r) args out k =
     (if c \<noteq> 0x25 then
        if N \<le> length out + 1 then Some (TooSmall, out, k) else render N strs r args (out @ [c]) k
      else
        let ds = takeWhile isdigit r; w = unat (fmt_width ds) in
        case dropWhile isdigit r of
          [] \<Rightarrow> Some (ParseFailed, out, k)
        | x # r' \<Rightarrow>
            if x \<notin> conversions then Some (ParseFailed, out, k)
            else case args of
              [] \<Rightarrow> None
            | a # args \<Rightarrow> (case conv_string strs x a of
                None \<Rightarrow> None
              | Some s \<Rightarrow>
                  if 2 ^ 32 \<le> length out + max w (length s) then None
                  else if N \<le> length out + max w (length s) then Some (TooSmall, out, k)
                  else render N strs r' args
                    (out @ replicate (w - length s) (fmt_fill ds) @ (if x = 0x53 then take w s else s)) (k + 1)))"
  by pat_completeness auto
termination
proof (relation "measure (\<lambda>(N, strs, f, args, out, k). length f)", goal_cases)
  case (3 N strs c r args out k ds w x r')
  then have "length (x # r') \<le> length r" by (metis length_dropWhile_le)
  then show ?case by simp
qed auto

section \<open>Memory regions\<close>

definition region :: "ADDR \<Rightarrow> nat \<Rightarrow> ADDR set" where
  "region a n = (\<lambda>j. a + of_nat j) ` {..<n}"

text \<open>Memory \<open>m'\<close> is \<open>m\<close> with changes only inside \<open>R\<close>, and still has all its bytes.\<close>

definition changed_in :: "ADDR set \<Rightarrow> bmem \<Rightarrow> bmem \<Rightarrow> bool" where
  "changed_in R m m' \<longleftrightarrow> (\<forall>x. x \<notin> R \<longrightarrow> m' x = m x) \<and> (\<forall>x. m x \<noteq> None \<longrightarrow> m' x \<noteq> None)"

lemma changed_in_refl: "changed_in R m m"
  by (simp add: changed_in_def)

lemma changed_in_trans: "changed_in R m m' \<Longrightarrow> changed_in R m' m'' \<Longrightarrow> changed_in R m m''"
  by (simp add: changed_in_def)

lemma changed_in_mono: "changed_in R m m' \<Longrightarrow> R \<subseteq> S \<Longrightarrow> changed_in S m m'"
  by (auto simp: changed_in_def)

lemma in_region: "unat (x - a) < n \<Longrightarrow> x \<in> region a n"
  unfolding region_def by (rule image_eqI [of _ _ "unat (x - a)"]) simp_all

lemma region_mono: "n \<le> k \<Longrightarrow> region a n \<subseteq> region a k"
  by (auto simp: region_def)

lemma region_sub: "i + n \<le> k \<Longrightarrow> region (a + of_nat i) n \<subseteq> region a k"
  by (force simp: region_def add.assoc simp flip: of_nat_add)

lemma changed_in_written:
  assumes "region d (length bs) \<subseteq> R"
  shows "changed_in R m (written m d bs)"
  using assms in_region [of _ d "length bs"] by (auto simp: changed_in_def written_def)

lemma changed_in_cstr:
  assumes "changed_in R m m'" "cstr m a s" "region a (Suc (length s)) \<inter> R = {}"
  shows "cstr m' a s"
proof -
  have "m' (a + of_nat i) = m (a + of_nat i)" if "i \<le> length s" for i
  proof -
    have "a + of_nat i \<in> region a (Suc (length s))" using that by (auto simp: region_def)
    then show ?thesis using assms(1,3) by (auto simp: changed_in_def)
  qed
  then show ?thesis using assms(2) by (simp add: cstr_def)
qed

lemma changed_in_mapped: "changed_in R m m' \<Longrightarrow> mapped m a n \<Longrightarrow> mapped m' a n"
  by (simp add: changed_in_def mapped_def)

lemma apart_region: "apart a n b k \<longleftrightarrow> region a n \<inter> region b k = {}"
  by (auto simp: apart_def region_def)

section \<open>Converting an argument\<close>

lemma number_string_facts:
  assumes "b \<in> {2, 10, 16}" "sg \<longrightarrow> b = 10"
  shows "0 \<notin> set (number_string sg b w v)" "length (number_string sg b w v) \<le> 64"
proof -
  have "0 \<notin> set (itoa_string b neg (unat (x :: QWORD))) \<and> length (itoa_string b neg (unat x)) \<le> 64" if "neg \<longrightarrow> b = 10" for neg x
  proof -
    have b: "2 \<le> b" "b \<le> 36" and x: "unat x < 2 ^ 64" using assms(1) unat64_bound [of x] by auto
    note f = itoa_string_facts [OF b x, of neg]
    have "length (itoa_string 10 True (unat x)) \<le> 21"
      using printed_digits_facts(4) [of 10 "unat x" 20] x by (simp add: itoa_string_digits)
    then show ?thesis using f that by (cases neg) auto
  qed
  then show "0 \<notin> set (number_string sg b w v)" "length (number_string sg b w v) \<le> 64"
    using assms(2) by (simp_all add: number_string_def Let_def)
qed

lemma print_number_spec:
  assumes b: "unat base \<in> {2, 10, 16}" "sg \<longrightarrow> unat base = 10" and p: "temp \<noteq> NULL" "tv \<noteq> NULL"
    and mp: "mapped m temp 65" "mapped m tv 8"
    and s: "s = number_string sg (unat base) w v"
  shows "print_number m temp tv v sg base w = Some (written (written m tv (le_bytes 8 v)) temp (s @ [0]))"
proof -
  let ?m = "written m tv (le_bytes 8 v)"
  have wr: "wr_bytes m tv (le_bytes 8 v) = Some ?m" using mp(2) by (intro wr_bytes_written) simp_all
  obtain m' where m': "wr_bytes m tv (le_bytes 8 v) = Some m'" "rd64 m' tv = Some v"
    using write_read_number(1) [OF mp(2), of v] by blast
  have r64: "rd64 ?m tv = Some v" using wr m' by simp
  have r32: "rd32 ?m tv = Some (ucast v)"
  proof -
    have "?m (tv + of_nat i) = Some (le_bytes 4 v ! i)" if "i < 4" for i
      using written_inside [of i "le_bytes 8 v" m tv] that by (simp add: le_bytes_def)
    moreover from this have "rd_bytes ?m tv 4 = Some (map (\<lambda>i. the (?m (tv + of_nat i))) [0..<4])"
      by (intro rd_bytes_mapped) (simp add: mapped_def)
    moreover have "map (\<lambda>i. the (?m (tv + of_nat i))) [0..<4] = le_bytes 4 v"
      by (rule nth_equalityI) (simp_all add: calculation(1))
    ultimately have "rd_bytes ?m tv 4 = Some (le_bytes 4 v)" by simp
    moreover have "(of_nat (unat v mod 4294967296) :: DWORD) = ucast v"
      by (simp add: word_unat_eq_iff unat_ucast_mod unat_of_nat_small)
    ultimately show ?thesis by (simp add: rd32_def le_value_le_bytes)
  qed
  obtain neg x where val: "itoa_value ?m tv sg w = Some (neg, x)" "s = itoa_string (unat base) neg (unat x)"
    using r64 r32 s by (cases w) (auto simp: itoa_value_def number_string_def Let_def)
  note f = number_string_facts [OF b, of w v]
  have l: "length s < 2 ^ 32" "mapped ?m temp (Suc (length s))"
    using f(2) mapped_mono [OF mapped_written [OF mp(1)], of "Suc (length s)"] s by simp_all
  have "2 \<le> unat base" using b(1) by auto
  from itoa_spec [OF val(1) p(2,1) this val(2) l] show ?thesis by (simp add: print_number_def wr)
qed

lemma strncpy_one:
  assumes "m tv = Some c" "mapped m temp 2" "temp \<noteq> NULL" "tv \<noteq> NULL"
  shows "cl_strncpy m temp tv 1 = Some (written m temp (if c = 0 then [0] else [c, 0]))"
proof -
  have m0: "m temp \<noteq> None" "m (temp + 1) \<noteq> None" using assms(2) by (auto simp: mapped_def all_less_two)
  have w0: "written m temp [x] = m(temp \<mapsto> x)" for x using written_snoc [of "[]" m temp x] by simp
  have w1: "written m temp [c, 0] = m(temp \<mapsto> c, temp + 1 \<mapsto> 0)" using written_snoc [of "[c]" m temp 0] by (simp add: w0)
  show ?thesis
  proof (cases "c = 0")
    case True
    with assms m0 show ?thesis by (simp add: cl_strncpy_def strncpy_loop.simps [of m] ch_def wr8_def w0)
  next
    case False
    have "strncpy_loop (m(temp \<mapsto> c)) temp tv 1 1 = Some (m(temp \<mapsto> c, temp + 1 \<mapsto> 0))"
      using m0 by (subst strncpy_loop.simps) (simp add: wr8_def)
    with False assms m0 show ?thesis by (simp add: cl_strncpy_def strncpy_loop.simps [of m] ch_def wr8_def w1)
  qed
qed

lemma ucast_down_up: "(ucast (ucast (d :: DWORD) :: QWORD) :: DWORD) = d"
  using unat32_bound [of d] by (simp add: word_unat_eq_iff unat_ucast_mod)

text \<open>A buffer for one argument: the two locals are accessible and apart from the output.\<close>

definition scratch_ok :: "bmem \<Rightarrow> ADDR \<Rightarrow> ADDR \<Rightarrow> ADDR set \<Rightarrow> bool" where
  "scratch_ok m temp tv Y \<longleftrightarrow> temp \<noteq> NULL \<and> tv \<noteq> NULL \<and> mapped m temp 65 \<and> mapped m tv 8 \<and> region temp 65 \<inter> Y = {}
     \<and> region tv 8 \<inter> Y = {}"

definition scratch :: "ADDR \<Rightarrow> ADDR \<Rightarrow> ADDR set" where
  "scratch temp tv = region temp 65 \<union> region tv 8"

text \<open>What is known of a converted argument in memory.\<close>

definition arg_at :: "bmem \<Rightarrow> ADDR \<Rightarrow> BYTE list \<Rightarrow> ADDR set \<Rightarrow> bool" where
  "arg_at m p s Y \<longleftrightarrow> cstr m p s \<and> p \<noteq> NULL \<and> Suc (length s) < 2 ^ 32 \<and> region p (Suc (length s)) \<inter> Y = {}"

lemma temp_result:
  assumes "scratch_ok m temp tv Y" "0 \<notin> set s" "length s \<le> 64"
  shows "changed_in (scratch temp tv) m (written (written m tv (le_bytes 8 v)) temp (s @ [0]))
    \<and> arg_at (written (written m tv (le_bytes 8 v)) temp (s @ [0])) temp s Y"
proof -
  have "changed_in (scratch temp tv) m (written m tv (le_bytes 8 v))"
    by (rule changed_in_written) (auto simp: scratch_def)
  moreover have "region temp (length (s @ [0])) \<subseteq> scratch temp tv"
    using region_mono [of "length (s @ [0])" 65 temp] assms(3) by (auto simp: scratch_def)
  then have "changed_in (scratch temp tv) (written m tv (le_bytes 8 v)) (written (written m tv (le_bytes 8 v)) temp (s @ [0]))"
    by (rule changed_in_written)
  moreover have "region temp (Suc (length s)) \<inter> Y = {}"
    using region_mono [of "Suc (length s)" 65 temp] assms(1,3) by (auto simp: scratch_ok_def)
  ultimately show ?thesis
    using changed_in_trans cstr_written [OF assms(2)] assms by (auto simp: arg_at_def scratch_ok_def)
qed

lemma convert_number:
  assumes ok: "scratch_ok m temp tv Y" and b: "unat base \<in> {2, 10, 16}" "sg \<longrightarrow> unat base = 10"
    and s: "s = number_string sg (unat base) w v"
  shows "\<exists>m'. print_number m temp tv v sg base w = Some m' \<and> changed_in (scratch temp tv) m m' \<and> arg_at m' temp s Y"
  using print_number_spec [OF b _ _ _ _ s, of temp tv m] temp_result [OF ok, of s v] number_string_facts [OF b, of w v] ok s
  by (auto simp: scratch_ok_def)

lemma convert_char:
  assumes ok: "scratch_ok m temp tv Y"
  shows "\<exists>m'. do { m \<leftarrow> wr_bytes m tv (le_bytes 8 (scast c)); cl_strncpy m temp tv 1 } = Some m'
    \<and> changed_in (scratch temp tv) m m' \<and> arg_at m' temp (if c = 0 then [] else [c]) Y"
proof -
  let ?m = "written m tv (le_bytes 8 (scast c))" and ?s = "if c = 0 then [] else [c]"
  have wr: "wr_bytes m tv (le_bytes 8 (scast c)) = Some ?m"
    using ok by (intro wr_bytes_written) (simp_all add: scratch_ok_def)
  have "le_bytes 8 (scast c) ! 0 = c"
  proof -
    have "(of_nat (unat (scast c :: QWORD)) :: BYTE) = ucast (scast c :: QWORD)" by simp
    also have "\<dots> = c" by (rule bit_word_eqI) (auto simp: bit_simps)
    finally show ?thesis by (simp add: le_bytes_def)
  qed
  then have "?m tv = Some c" using written_inside [of 0 "le_bytes 8 (scast c)" m tv] by simp
  moreover have "mapped ?m temp 2"
    using mapped_written mapped_mono [of m temp 65 2] ok by (simp add: scratch_ok_def)
  ultimately have "cl_strncpy ?m temp tv 1 = Some (written ?m temp (?s @ [0]))"
    using strncpy_one [of ?m tv c temp] ok by (simp add: scratch_ok_def)
  then show ?thesis using wr temp_result [OF ok, of ?s "scast c"] by auto
qed

lemma convert_spec:
  assumes ok: "scratch_ok m temp tv Y" and strs: "\<forall>a s. strs a = Some s \<longrightarrow> arg_at m a s Y"
    and x: "x \<in> conversions" and s: "conv_string strs x a = Some s"
  shows "\<exists>m' p. vsnprintf_convert m temp tv x (a # args) = Some (Some (m', p, args))
    \<and> changed_in (scratch temp tv) m m' \<and> arg_at m' p s Y"
proof -
  let ?v = "ucast (ucast a :: DWORD) :: QWORD"
  have ns: "number_string sg b False ?v = number_string sg b False a" for sg b
    by (simp add: number_string_def ucast_down_up)
  have bases: "unat BASE_TWO = 2" "unat BASE_TEN = 10" "unat BASE_HEXA = 16"
    by (simp_all add: BASE_TWO_def BASE_TEN_def BASE_HEXA_def)
  have num: "\<exists>m'. print_number m temp tv v sg base w = Some m' \<and> changed_in (scratch temp tv) m m'
      \<and> arg_at m' temp (number_string sg (unat base) w v) Y" if "unat base \<in> {2, 10, 16}" "sg \<longrightarrow> unat base = 10" for v sg base w
    using convert_number [OF ok that refl] .
  note nums = num [of BASE_TWO False] num [of BASE_TEN False] num [of BASE_TEN True] num [of BASE_HEXA False]
  consider "x = 0x62" | "x = 0x42" | "x = 0x75" | "x = 0x55" | "x = 0x64" | "x = 0x44" | "x = 0x78" | "x = 0x58" | "x = 0x63"
    | "x = 0x73 \<or> x = 0x53" using x by (auto simp: conversions_def)
  then show ?thesis
  proof cases
    case 1
    then show ?thesis using s nums(1) [of ?v False] by (auto simp: vsnprintf_convert_def conv_string_def bases ns Let_def)
  next
    case 2
    then show ?thesis using s nums(1) [of a True] by (auto simp: vsnprintf_convert_def conv_string_def bases)
  next
    case 3
    then show ?thesis using s nums(2) [of ?v False] by (auto simp: vsnprintf_convert_def conv_string_def bases ns Let_def)
  next
    case 4
    then show ?thesis using s nums(2) [of a True] by (auto simp: vsnprintf_convert_def conv_string_def bases)
  next
    case 5
    then show ?thesis using s nums(3) [of ?v False] by (auto simp: vsnprintf_convert_def conv_string_def bases ns Let_def)
  next
    case 6
    then show ?thesis using s nums(3) [of a True] by (auto simp: vsnprintf_convert_def conv_string_def bases)
  next
    case 7
    then show ?thesis using s nums(4) [of ?v False] by (auto simp: vsnprintf_convert_def conv_string_def bases ns Let_def)
  next
    case 8
    then show ?thesis using s nums(4) [of a True] by (auto simp: vsnprintf_convert_def conv_string_def bases)
  next
    case 9
    obtain m' where "do { m \<leftarrow> wr_bytes m tv (le_bytes 8 (scast (ucast a :: BYTE))); cl_strncpy m temp tv 1 } = Some m'"
      "changed_in (scratch temp tv) m m'" "arg_at m' temp (if (ucast a :: BYTE) = 0 then [] else [ucast a]) Y"
      using convert_char [OF ok] by blast
    then show ?thesis using s 9 by (auto simp: vsnprintf_convert_def conv_string_def split: bind_splits)
  next
    case 10
    then have "vsnprintf_convert m temp tv x (a # args) = Some (Some (m, a, args))" "strs a = Some s"
      using s by (auto simp: vsnprintf_convert_def conv_string_def)
    then show ?thesis using strs changed_in_refl by blast
  qed
qed

text \<open>The width digits after the percent sign at index \<open>i\<close>.\<close>

lemma width_spec:
  assumes f: "cstr m inb f" and i: "i < length f"
  shows "vsnprintf_width m inb (of_nat i) (if Suc i < length f then f ! Suc i else 0) d first fc
    = Some (of_nat (i + length (takeWhile isdigit (drop (Suc i) f))),
        (case dropWhile isdigit (drop (Suc i) f) of [] \<Rightarrow> 0 | x # _ \<Rightarrow> x),
        foldl (\<lambda>v c. v * 10 + ucast c - 0x30) d (takeWhile isdigit (drop (Suc i) f)),
        (if first \<and> takeWhile isdigit (drop (Suc i) f) \<noteq> [] \<and> f ! Suc i = 0x30 then 0x30 else fc))"
  using i
proof (induction "length f - i" arbitrary: i d first fc)
  case (Suc n)
  show ?case
  proof (cases "Suc i < length f \<and> isdigit (f ! Suc i)")
    case True
    then have d: "drop (Suc i) f = f ! Suc i # drop (Suc (Suc i)) f" by (simp add: Cons_nth_drop_Suc)
    have "ch m inb (of_nat (Suc (Suc i))) = Some (if Suc (Suc i) < length f then f ! Suc (Suc i) else 0)"
      using True cstr_ch [OF f, of "Suc (Suc i)"] cstr_ch_end [OF f]
      by (cases "Suc (Suc i) < length f") (auto simp del: of_nat_Suc, metis Suc_lessI)
    moreover have "n = length f - Suc i" using Suc.hyps(2) by simp
    ultimately show ?thesis using True Suc.hyps(1) [of "Suc i"]
      by (subst vsnprintf_width.simps) (simp add: d add.commute add.left_commute)
  next
    case False
    have "\<not> isdigit 0" by (simp add: isdigit_def)
    moreover have "takeWhile isdigit (drop (Suc i) f) = []" "dropWhile isdigit (drop (Suc i) f) = drop (Suc i) f"
      using False by (cases "Suc i < length f"; simp add: Cons_nth_drop_Suc [symmetric])+
    ultimately show ?thesis using False
      by (subst vsnprintf_width.simps) (auto simp: Cons_nth_drop_Suc [symmetric])
  qed
qed simp

section \<open>The output buffer\<close>

text \<open>The buffer of \<open>N\<close> bytes at \<open>b\<close> is accessible and starts with the characters \<open>out\<close>.\<close>

definition out_ok :: "bmem \<Rightarrow> ADDR \<Rightarrow> nat \<Rightarrow> BYTE list \<Rightarrow> bool" where
  "out_ok m b N out \<longleftrightarrow> mapped m b N \<and> (\<forall>j < N. b + of_nat j \<noteq> NULL) \<and> N < 2 ^ 32 \<and> length out < N \<and> 0 \<notin> set out
     \<and> (\<forall>j < length out. m (b + of_nat j) = Some (out ! j))"

lemma out_ok_written:
  assumes ok: "out_ok m b N out" and l: "length out + length bs < N" "length out + length (bs @ z) \<le> N" "0 \<notin> set bs"
    and d: "d = b + of_nat (length out)"
  shows "out_ok (written m d (bs @ z)) b N (out @ bs)" "changed_in (region b N) m (written m d (bs @ z))"
proof -
  let ?n = "length out"
  have N: "N < 2 ^ 32" using ok by (simp add: out_ok_def)
  have before: "written m d (bs @ z) (b + of_nat j) = m (b + of_nat j)" if "j < ?n" for j
  proof -
    have "apart b ?n d (length (bs @ z))"
      using apart_prefix [of 0 ?n ?n "length (bs @ z)" b] l(2) N by (simp add: d)
    from written_apart [OF this that] show ?thesis .
  qed
  have after: "written m d (bs @ z) (b + of_nat (?n + j)) = Some (bs ! j)" if "j < length bs" for j
    using written_inside [of j "bs @ z" m d] that l(2) N by (simp add: d add.assoc nth_append)
  have "written m d (bs @ z) (b + of_nat j) = Some ((out @ bs) ! j)" if "j < length (out @ bs)" for j
  proof (cases "j < ?n")
    case True
    then show ?thesis using ok before by (simp add: out_ok_def nth_append)
  next
    case False
    with that have "?n + (j - ?n) = j" "j - ?n < length bs" by auto
    with after [of "j - ?n"] False show ?thesis by (simp add: nth_append)
  qed
  then show "out_ok (written m d (bs @ z)) b N (out @ bs)"
    using ok l by (simp add: out_ok_def mapped_written)
  show "changed_in (region b N) m (written m d (bs @ z))"
    by (rule changed_in_written) (unfold d, rule region_sub, use l(2) in simp)
qed

lemma out_ok_changed:
  assumes "out_ok m b N out" "changed_in R m m'" "R \<inter> region b N = {}"
  shows "out_ok m' b N out"
proof -
  have "m' (b + of_nat j) = m (b + of_nat j)" if "j < length out" for j
  proof -
    have "b + of_nat j \<in> region b N" using that assms(1) by (auto simp: out_ok_def region_def)
    then show ?thesis using assms(2,3) by (auto simp: changed_in_def)
  qed
  then show ?thesis using assms(1) changed_in_mapped [OF assms(2)] by (simp add: out_ok_def)
qed

lemma arg_at_changed:
  "arg_at m p s Y \<Longrightarrow> changed_in R m m' \<Longrightarrow> region p (Suc (length s)) \<inter> R = {} \<Longrightarrow> arg_at m' p s Y"
  using changed_in_cstr by (auto simp: arg_at_def)

text \<open>Padding and copying one converted argument behind the output so far.\<close>

lemma emit_spec:
  assumes ok: "out_ok m b N out" and arg: "arg_at m p s (region b N)" and fill: "fc \<noteq> 0"
    and F: "unat F = nf" and C: "unat C = nc" "nc \<le> length s" and l: "length out + nf + nc < N"
  shows "\<exists>m'. vsnprintf_emit m b (of_nat (length out)) p fc F C = Some (m', of_nat (length out + nf + nc))
    \<and> changed_in (region b N) m m' \<and> out_ok m' b N (out @ replicate nf fc @ take nc s)"
proof -
  let ?n = "length out" and ?out1 = "out @ replicate nf fc"
  let ?m1 = "written m (b + of_nat ?n) (replicate nf fc)"
  have N: "N < 2 ^ 32" and nn: "\<forall>j < N. b + of_nat j \<noteq> NULL" and mp: "mapped m b N" using ok by (simp_all add: out_ok_def)
  have u: "(ucast (of_nat k :: DWORD) :: ADDR) = of_nat k" if "k < N" for k
    using that N by (intro ucast_of_nat_DWORD) simp
  have mapn: "mapped m' (b + of_nat k) j" if "mapped m' b N" "k + j \<le> N" for m' k j
    using mapped_add [of m' b k j] mapped_mono [OF that(1), of "k + j"] that(2) by simp
  have Fw: "F = of_nat nf" "C = of_nat nc" using F C(1) by auto
  have o1: "out_ok ?m1 b N ?out1" "changed_in (region b N) m ?m1"
    using out_ok_written [OF ok, of "replicate nf fc" "[]"] l fill by simp_all
  have s1: "(if 0 \<noteq> F then do { m \<leftarrow> cl_memset m (b + ucast (of_nat ?n :: DWORD)) fc F; Some (m, of_nat ?n + F) }
      else Some (m, of_nat ?n)) = Some (?m1, of_nat (?n + nf) :: DWORD)"
  proof (cases "F = 0")
    case True
    then show ?thesis using F by simp
  next
    case False
    have "b + of_nat ?n \<noteq> NULL" using nn l by simp
    then have "cl_memset m (b + of_nat ?n) fc F = Some ?m1"
      using cl_memset_written [of m "b + of_nat ?n" F fc] mapn [OF mp, of ?n nf] F l by simp
    then show ?thesis using False u [of ?n] l Fw by simp
  qed
  have s2: "\<exists>m2. (if C \<noteq> 0 then cl_strncpy ?m1 (b + of_nat (?n + nf)) p C else Some ?m1) = Some m2
      \<and> changed_in (region b N) ?m1 m2 \<and> out_ok m2 b N (?out1 @ take nc s)"
  proof (cases "C = 0")
    case True
    then have "nc = 0" using C by simp
    then show ?thesis using True o1 changed_in_refl by simp
  next
    case False
    have arg1: "arg_at ?m1 p s (region b N)" using arg_at_changed [OF arg o1(2)] arg by (simp add: arg_at_def)
    have mp1: "mapped ?m1 b N" using mapped_written [OF mp] .
    have "region (b + of_nat (?n + nf)) (Suc nc) \<subseteq> region b N" using l by (intro region_sub) simp
    then have "apart p (Suc (length s)) (b + of_nat (?n + nf)) (Suc nc)"
      using arg by (auto simp: apart_region arg_at_def)
    moreover have "mapped ?m1 (b + of_nat (?n + nf)) (Suc nc)" using mapn [OF mp1, of "?n + nf" "Suc nc"] l by simp
    moreover have "b + of_nat (?n + nf) \<noteq> NULL" using nn [rule_format, of "?n + nf"] l by simp
    ultimately have "cl_strncpy ?m1 (b + of_nat (?n + nf)) p C = Some (written ?m1 (b + of_nat (?n + nf)) (take nc s @ [0]))"
      using arg1 C False by (intro cl_strncpy_cstr) (simp_all add: arg_at_def)
    moreover have "out_ok (written ?m1 (b + of_nat (?n + nf)) (take nc s @ [0])) b N (?out1 @ take nc s)"
      "changed_in (region b N) ?m1 (written ?m1 (b + of_nat (?n + nf)) (take nc s @ [0]))"
      using out_ok_written [OF o1(1), of "take nc s" "[0]"] l C(2) arg by (auto simp: arg_at_def cstr_def dest: in_set_takeD)
    ultimately show ?thesis using False by simp
  qed
  then obtain m2 where m2: "(if C \<noteq> 0 then cl_strncpy ?m1 (b + of_nat (?n + nf)) p C else Some ?m1) = Some m2"
    "changed_in (region b N) ?m1 m2" "out_ok m2 b N (?out1 @ take nc s)" by blast
  have "(ucast (of_nat (?n + nf) :: DWORD) :: ADDR) = of_nat (?n + nf)" using u [of "?n + nf"] l by simp
  then have "vsnprintf_emit m b (of_nat ?n) p fc F C = Some (m2, of_nat (?n + nf) + C)"
    unfolding vsnprintf_emit_def s1 by (simp only: bind.bind_lunit prod.case m2(1))
  moreover have "of_nat (?n + nf) + C = of_nat (?n + nf + nc)" using Fw(2) by simp
  ultimately show ?thesis using changed_in_trans [OF o1(2) m2(2)] m2(3) by auto
qed

section \<open>One conversion\<close>

lemma of_nat_ge_buffSize: "k < 2 ^ 32 \<Longrightarrow> (of_nat k \<ge> (n :: DWORD)) \<longleftrightarrow> unat n \<le> k"
  by (simp add: word_le_nat_alt unat_of_nat_small)

lemma next_no_conversion: "xs = [] \<or> hd xs \<notin> conversions \<Longrightarrow> (case xs of [] \<Rightarrow> 0 | x # _ \<Rightarrow> x) \<notin> conversions"
  by (cases xs) (auto simp: conversions_def)

lemma conversion_fails:
  assumes f: "cstr m inb f" and i: "i < length f"
    and x: "dropWhile isdigit (drop (Suc i) f) = [] \<or> hd (dropWhile isdigit (drop (Suc i) f)) \<notin> conversions"
  shows "vsnprintf_conversion m b n inb temp tv args (of_nat i) off = Some (Inl (STATUS_PARSE_FAILED, m))"
proof -
  have nx: "ch m inb (of_nat (Suc i)) = Some (if Suc i < length f then f ! Suc i else 0)"
    using i cstr_ch [OF f, of "Suc i"] cstr_ch_end [OF f] by (cases "Suc i < length f") (auto simp del: of_nat_Suc, metis Suc_lessI)
  have "(case dropWhile isdigit (drop (Suc i) f) of [] \<Rightarrow> 0 | x # _ \<Rightarrow> x) \<notin> conversions"
    using x by (rule next_no_conversion)
  then have "vsnprintf_convert m temp tv (case dropWhile isdigit (drop (Suc i) f) of [] \<Rightarrow> 0 | x # _ \<Rightarrow> x) args = Some None"
    unfolding vsnprintf_convert_def conversions_def by (simp only: if_False)
  then show ?thesis
    using nx width_spec [OF f i, of 0 True "0x20"] unfolding vsnprintf_conversion_def
    by (simp add: of_nat_Suc_word del: of_nat_Suc)
qed

lemma conversion_spec:
  assumes f: "cstr m inb f" and i: "i < length f" and ds: "ds = takeWhile isdigit (drop (Suc i) f)"
    and x: "dropWhile isdigit (drop (Suc i) f) = x # r" "x \<in> conversions" and s: "conv_string strs x a = Some s"
    and ok: "out_ok m b (unat n) out" "scratch_ok m temp tv (region b (unat n))"
    and strs: "\<forall>a s. strs a = Some s \<longrightarrow> arg_at m a s (region b (unat n))"
    and w: "w = unat (fmt_width ds)" and l: "length out + max w (length s) < 2 ^ 32"
  shows "if unat n \<le> length out + max w (length s)
    then \<exists>m'. vsnprintf_conversion m b n inb temp tv (a # args) (of_nat i) (of_nat (length out)) = Some (Inl (STATUS_BUFFER_TOO_SMALL, m'))
      \<and> changed_in (scratch temp tv) m m'
    else \<exists>m' out'. vsnprintf_conversion m b n inb temp tv (a # args) (of_nat i) (of_nat (length out))
        = Some (Inr (m', args, of_nat (i + length ds + 2), of_nat (length out')))
      \<and> out' = out @ replicate (w - length s) (fmt_fill ds) @ (if x = 0x53 then take w s else s)
      \<and> changed_in (scratch temp tv \<union> region b (unat n)) m m' \<and> out_ok m' b (unat n) out'"
proof -
  let ?n = "length out" and ?dg = "fmt_width ds" and ?tl = "of_nat (length s) :: DWORD"
  let ?F = "if ?dg > ?tl then ?dg - ?tl else 0" and ?C = "if x = 0x53 then min ?dg ?tl else ?tl"
  have nx: "ch m inb (of_nat (Suc i)) = Some (if Suc i < length f then f ! Suc i else 0)"
    using i cstr_ch [OF f, of "Suc i"] cstr_ch_end [OF f] by (cases "Suc i < length f") (auto simp del: of_nat_Suc, metis Suc_lessI)
  have fill: "(if True \<and> ds \<noteq> [] \<and> f ! Suc i = 0x30 then 0x30 else 0x20) = fmt_fill ds"
  proof (cases "ds = []")
    case False
    then have "hd ds = f ! Suc i" unfolding ds by (cases "Suc i < length f") (auto simp: Cons_nth_drop_Suc [symmetric] split: if_splits)
    then show ?thesis by (simp add: fmt_fill_def)
  qed (simp add: fmt_fill_def)
  have width: "vsnprintf_width m inb (of_nat i) (if Suc i < length f then f ! Suc i else 0) 0 True 0x20
      = Some (of_nat (i + length ds), x, ?dg, fmt_fill ds)"
    using width_spec [OF f i, of 0 True "0x20"] fill x(1) by (simp add: ds [symmetric] fmt_width_def)
  obtain m1 p where m1: "vsnprintf_convert m temp tv x (a # args) = Some (Some (m1, p, args))"
    "changed_in (scratch temp tv) m m1" "arg_at m1 p s (region b (unat n))"
    using convert_spec [OF ok(2) strs x(2) s] by blast
  have ok1: "out_ok m1 b (unat n) out"
    using out_ok_changed [OF ok(1) m1(2)] ok(2) by (auto simp: scratch_ok_def scratch_def)
  have ls: "Suc (length s) < 2 ^ 32" using m1(3) by (simp add: arg_at_def)
  then have utl: "unat ?tl = length s" by (intro unat_of_nat_small) simp
  have sl: "cl_strlen m1 p = Some ?tl" using m1(3) cl_strlen_cstr by (simp add: arg_at_def)
  have inv: "?tl \<noteq> INVALID_STRING_SIZE"
    using utl ls by (auto simp: INVALID_STRING_SIZE_def MAX_DWORD_def word_unat_eq_iff)
  have uF: "unat ?F = w - length s"
    using utl w by (auto simp: unat_sub word_less_nat_alt word_le_nat_alt)
  have uC: "unat ?C = length (if x = 0x53 then take w s else s)"
    using utl w by (auto simp: min_def word_le_nat_alt)
  have sum2: "of_nat ?n + ?tl + ?F = of_nat (?n + max w (length s))"
  proof -
    have F: "?F = of_nat (w - length s)" unfolding uF [symmetric] by (simp only: of_nat_unat ucast_id)
    have "?n + max w (length s) = ?n + length s + (w - length s)" by simp
    then show ?thesis unfolding F by (simp only: of_nat_add)
  qed
  have ge1: "of_nat ?n + ?tl \<ge> n \<longleftrightarrow> unat n \<le> ?n + length s"
    using of_nat_ge_buffSize [of "?n + length s" n] l by simp
  have ge2: "of_nat ?n + ?tl + ?F \<ge> n \<longleftrightarrow> unat n \<le> ?n + max w (length s)"
    using of_nat_ge_buffSize [of "?n + max w (length s)" n] l unfolding sum2 by simp
  have conv: "vsnprintf_conversion m b n inb temp tv (a # args) (of_nat i) (of_nat ?n) =
    (if of_nat ?n + ?tl \<ge> n then Some (Inl (STATUS_BUFFER_TOO_SMALL, m1))
     else if of_nat ?n + ?tl + ?F \<ge> n then Some (Inl (STATUS_BUFFER_TOO_SMALL, m1))
     else do { (m, off) \<leftarrow> vsnprintf_emit m1 b (of_nat ?n) p (fmt_fill ds) ?F ?C;
      Some (Inr (m, args, of_nat (i + length ds) + 2, off)) })"
    unfolding vsnprintf_conversion_def
    using nx width m1(1) sl inv
    by (simp add: of_nat_Suc_word Let_def case_prod_beta Option.bind_assoc del: of_nat_Suc of_nat_add)
  show ?thesis
  proof (cases "unat n \<le> ?n + max w (length s)")
    case True
    then show ?thesis unfolding conv ge1 ge2 using m1(2) by auto
  next
    case False
    let ?t = "if x = 0x53 then take w s else s"
    have lt: "\<not> unat n \<le> ?n + length s" using False by auto
    have nc: "length ?t \<le> length s" "take (length ?t) s = ?t" by (auto simp: min_def)
    have len: "?n + (w - length s) + length ?t < unat n" using False by (auto split: if_splits)
    have fc: "fmt_fill ds \<noteq> 0" by (simp add: fmt_fill_def)
    obtain m' where m': "vsnprintf_emit m1 b (of_nat ?n) p (fmt_fill ds) ?F ?C = Some (m', of_nat (?n + (w - length s) + length ?t))"
      "changed_in (region b (unat n)) m1 m'" "out_ok m' b (unat n) (out @ replicate (w - length s) (fmt_fill ds) @ ?t)"
      using emit_spec [OF ok1 m1(3) fc uF uC nc(1) len, unfolded nc(2)] by blast
    have "changed_in (scratch temp tv \<union> region b (unat n)) m m'"
      using changed_in_trans changed_in_mono [OF m1(2)] changed_in_mono [OF m'(2)] by (metis sup_ge1 sup_ge2)
    moreover have "vsnprintf_conversion m b n inb temp tv (a # args) (of_nat i) (of_nat ?n)
      = Some (Inr (m', args, of_nat (i + length ds + 2), of_nat (?n + (w - length s) + length ?t)))"
      unfolding conv ge1 ge2 m'(1) using lt False by simp
    moreover have "?n + (w - length s) + length ?t = length (out @ replicate (w - length s) (fmt_fill ds) @ ?t)" by simp
    ultimately show ?thesis using m'(3) False by (auto simp del: of_nat_add)
  qed
qed

section \<open>The whole format\<close>

text \<open>The format, the locals and the string arguments do not overlap the output buffer, and the format
  and the string arguments do not overlap the locals.\<close>

definition printf_env :: "bmem \<Rightarrow> ADDR \<Rightarrow> nat \<Rightarrow> ADDR \<Rightarrow> BYTE list \<Rightarrow> ADDR \<Rightarrow> ADDR \<Rightarrow> (QWORD \<rightharpoonup> BYTE list) \<Rightarrow> bool" where
  "printf_env m b N inb f temp tv strs \<longleftrightarrow>
     (let R = scratch temp tv \<union> region b N in
      cstr m inb f \<and> region inb (Suc (length f)) \<inter> R = {} \<and> scratch_ok m temp tv (region b N)
      \<and> (\<forall>a s. strs a = Some s \<longrightarrow> arg_at m a s (region b N) \<and> region a (Suc (length s)) \<inter> R = {}))"

lemma printf_env_changed:
  assumes "printf_env m b N inb f temp tv strs" "changed_in (scratch temp tv \<union> region b N) m m'"
  shows "printf_env m' b N inb f temp tv strs"
  using assms changed_in_cstr [OF assms(2)] arg_at_changed [OF _ assms(2)] changed_in_mapped [OF assms(2)]
  by (auto simp: printf_env_def scratch_ok_def Let_def)

definition fmt_status :: "fmt_end \<Rightarrow> nat \<Rightarrow> STATUS" where
  "fmt_status e k = (case e of Done \<Rightarrow> of_nat k | ParseFailed \<Rightarrow> STATUS_PARSE_FAILED | TooSmall \<Rightarrow> STATUS_BUFFER_TOO_SMALL)"

lemma out_ok_end:
  assumes "out_ok m b N out"
  shows "\<exists>m'. wr8 m (b + ucast (of_nat (length out) :: DWORD)) 0 = Some m' \<and> changed_in (region b N) m m' \<and> cstr m' b out"
proof -
  let ?n = "length out"
  have l: "?n < N" "N < 2 ^ 32" "mapped m b N" using assms by (simp_all add: out_ok_def)
  have u: "(ucast (of_nat ?n :: DWORD) :: ADDR) = of_nat ?n" using l by (intro ucast_of_nat_DWORD) simp
  have "m (b + of_nat ?n) \<noteq> None" using l by (auto simp: mapped_def)
  then have "wr8 m (b + of_nat ?n) 0 = Some (m(b + of_nat ?n \<mapsto> 0))" by (simp add: wr8_def)
  moreover have "changed_in (region b N) m (m(b + of_nat ?n \<mapsto> 0))"
    using l by (auto simp: changed_in_def region_def)
  moreover have "(of_nat j :: ADDR) \<noteq> of_nat ?n" if "j < ?n" for j
    using of_nat_ADDR_inj [of j ?n] that l by simp
  then have "cstr (m(b + of_nat ?n \<mapsto> 0)) b out" using assms by (simp add: cstr_def out_ok_def)
  ultimately show ?thesis unfolding u by blast
qed

lemma loop_step_char:
  assumes "ch m inb i = Some c" "c \<noteq> 0" "c \<noteq> 0x25"
  shows "vsnprintf_loop m b n inb temp tv args i k off =
    (if off + 1 \<ge> n then do { m \<leftarrow> wr8 m (b + ucast off) 0; Some (STATUS_BUFFER_TOO_SMALL, m) }
     else do { m \<leftarrow> wr8 m (b + ucast off) c; vsnprintf_loop m b n inb temp tv args (i + 1) k (off + 1) })"
  using assms by (subst vsnprintf_loop.simps) simp

lemma loop_step_conversion:
  assumes "ch m inb i = Some 0x25"
  shows "vsnprintf_loop m b n inb temp tv args i k off = do {
     r \<leftarrow> vsnprintf_conversion m b n inb temp tv args i off;
     case r of Inl res \<Rightarrow> Some res
     | Inr (m, args, i, off) \<Rightarrow> vsnprintf_loop m b n inb temp tv args i (k + 1) off }"
  using assms by (subst vsnprintf_loop.simps) simp

text \<open>What the rest of the format does, from index \<open>i\<close> with \<open>out\<close> already written.\<close>

definition renders :: "bmem \<Rightarrow> ADDR \<Rightarrow> DWORD \<Rightarrow> ADDR \<Rightarrow> ADDR \<Rightarrow> ADDR \<Rightarrow> QWORD list \<Rightarrow> nat \<Rightarrow> nat \<Rightarrow> BYTE list
    \<Rightarrow> fmt_end \<Rightarrow> BYTE list \<Rightarrow> nat \<Rightarrow> bool" where
  "renders m b n inb temp tv args i k out e out' k' \<longleftrightarrow>
     (\<exists>m'. vsnprintf_loop m b n inb temp tv args (of_nat i) (of_nat k + 1) (of_nat (length out)) = Some (fmt_status e k', m')
       \<and> changed_in (scratch temp tv \<union> region b (unat n)) m m' \<and> (e = Done \<longrightarrow> cstr m' b out' \<and> length out' < unat n))"

lemma renders_trans:
  assumes "vsnprintf_loop m b n inb temp tv args (of_nat i) (of_nat k + 1) (of_nat (length out))
      = vsnprintf_loop m1 b n inb temp tv args1 (of_nat i1) (of_nat k1 + 1) (of_nat (length out1))"
    "changed_in (scratch temp tv \<union> region b (unat n)) m m1" "renders m1 b n inb temp tv args1 i1 k1 out1 e out' k'"
  shows "renders m b n inb temp tv args i k out e out' k'"
proof -
  obtain m' where m': "vsnprintf_loop m1 b n inb temp tv args1 (of_nat i1) (of_nat k1 + 1) (of_nat (length out1)) = Some (fmt_status e k', m')"
    "changed_in (scratch temp tv \<union> region b (unat n)) m1 m'" "e = Done \<longrightarrow> cstr m' b out' \<and> length out' < unat n"
    using assms(3) unfolding renders_def by blast
  show ?thesis unfolding renders_def assms(1) using m'(1,3) changed_in_trans [OF assms(2) m'(2)] by blast
qed

lemma renders_char:
  assumes f: "cstr m inb f" "i < length f" "f ! i \<noteq> 0x25" and ok: "out_ok m b (unat n) out"
  shows "if unat n \<le> length out + 1 then renders m b n inb temp tv args i k out TooSmall out' k'
    else \<exists>m1. changed_in (scratch temp tv \<union> region b (unat n)) m m1 \<and> out_ok m1 b (unat n) (out @ [f ! i])
      \<and> (renders m1 b n inb temp tv args (Suc i) k (out @ [f ! i]) e out' k' \<longrightarrow> renders m b n inb temp tv args i k out e out' k')"
proof -
  let ?n = "length out"
  have l: "?n < unat n" "unat n < 2 ^ 32" "mapped m b (unat n)" using ok by (simp_all add: out_ok_def)
  note step = loop_step_char [OF cstr_ch [OF f(1,2)] cstr_nz [OF f(1,2)] f(3)]
  have ge: "of_nat ?n + 1 \<ge> n \<longleftrightarrow> unat n \<le> ?n + 1" using of_nat_ge_buffSize [of "Suc ?n" n] l by (simp add: add.commute)
  obtain m' where m': "wr8 m (b + ucast (of_nat ?n :: DWORD)) 0 = Some m'" "changed_in (region b (unat n)) m m'"
    using out_ok_end [OF ok] by blast
  show ?thesis
  proof (cases "unat n \<le> ?n + 1")
    case True
    then show ?thesis using step ge m' changed_in_mono [OF m'(2)] by (auto simp: renders_def fmt_status_def)
  next
    case False
    have u: "(ucast (of_nat ?n :: DWORD) :: ADDR) = of_nat ?n" using l by (intro ucast_of_nat_DWORD) simp
    let ?m = "written m (b + of_nat ?n) [f ! i]"
    have w1: "?m = m(b + of_nat ?n \<mapsto> f ! i)" using written_snoc [of "[]" m "b + of_nat ?n" "f ! i"] by simp
    have "m (b + of_nat ?n) \<noteq> None" using l by (auto simp: mapped_def)
    then have "wr8 m (b + of_nat ?n) (f ! i) = Some ?m" by (simp add: wr8_def w1)
    then have "vsnprintf_loop m b n inb temp tv args (of_nat i) (of_nat k + 1) (of_nat ?n)
        = vsnprintf_loop ?m b n inb temp tv args (of_nat (Suc i)) (of_nat k + 1) (of_nat (length (out @ [f ! i])))"
      using step False ge u by (simp add: add.commute)
    moreover have ch: "changed_in (scratch temp tv \<union> region b (unat n)) m ?m" "out_ok ?m b (unat n) (out @ [f ! i])"
      using out_ok_written [OF ok, of "[f ! i]" "[]"] False cstr_nz [OF f(1,2)] changed_in_mono by fastforce+
    ultimately show ?thesis using renders_trans False by fastforce
  qed
qed

lemma renders_conversion:
  assumes f: "cstr m inb f" "i < length f" "f ! i = 0x25"
    and ds: "ds = takeWhile isdigit (drop (Suc i) f)" and x: "dropWhile isdigit (drop (Suc i) f) = x # r" "x \<in> conversions"
    and s: "conv_string strs x a = Some s" and ok: "out_ok m b (unat n) out" "scratch_ok m temp tv (region b (unat n))"
    and strs: "\<forall>a s. strs a = Some s \<longrightarrow> arg_at m a s (region b (unat n))"
    and w: "w = unat (fmt_width ds)" and l: "length out + max w (length s) < 2 ^ 32"
    and out1: "out1 = out @ replicate (w - length s) (fmt_fill ds) @ (if x = 0x53 then take w s else s)"
  shows "if unat n \<le> length out + max w (length s) then renders m b n inb temp tv (a # args) i k out TooSmall out' k'
    else \<exists>m1. changed_in (scratch temp tv \<union> region b (unat n)) m m1 \<and> out_ok m1 b (unat n) out1
      \<and> (renders m1 b n inb temp tv args (i + length ds + 2) (Suc k) out1 e out' k' \<longrightarrow> renders m b n inb temp tv (a # args) i k out e out' k')"
proof -
  note step = loop_step_conversion [OF cstr_ch [OF f(1,2), unfolded f(3)]]
  note conv = conversion_spec [OF f(1,2) ds x s ok strs w l, of args]
  show ?thesis
  proof (cases "unat n \<le> length out + max w (length s)")
    case True
    then obtain m' where "vsnprintf_conversion m b n inb temp tv (a # args) (of_nat i) (of_nat (length out)) = Some (Inl (STATUS_BUFFER_TOO_SMALL, m'))"
      "changed_in (scratch temp tv) m m'" using conv by auto
    then show ?thesis using True step changed_in_mono by (fastforce simp: renders_def fmt_status_def)
  next
    case False
    then obtain m1 where m1: "vsnprintf_conversion m b n inb temp tv (a # args) (of_nat i) (of_nat (length out))
        = Some (Inr (m1, args, of_nat (i + length ds + 2), of_nat (length out1)))"
      "changed_in (scratch temp tv \<union> region b (unat n)) m m1" "out_ok m1 b (unat n) out1"
      using conv unfolding out1 by (simp only: if_False) blast
    have "vsnprintf_loop m b n inb temp tv (a # args) (of_nat i) (of_nat k + 1) (of_nat (length out))
      = vsnprintf_loop m1 b n inb temp tv args (of_nat (i + length ds + 2)) (of_nat (Suc k) + 1) (of_nat (length out1))"
      using step m1(1) by (simp add: add.commute del: of_nat_add)
    then show ?thesis using False m1(2,3) renders_trans by fastforce
  qed
qed

lemma printf_envD:
  assumes "printf_env m b N inb f temp tv strs"
  shows "cstr m inb f" "scratch_ok m temp tv (region b N)" "\<forall>a s. strs a = Some s \<longrightarrow> arg_at m a s (region b N)"
  using assms by (simp_all add: printf_env_def Let_def)

lemma loop_spec:
  "render N strs g args out k = Some (e, out', k') \<Longrightarrow> g = drop i f \<Longrightarrow> i \<le> length f
    \<Longrightarrow> printf_env m b N inb f temp tv strs \<Longrightarrow> out_ok m b N out \<Longrightarrow> N = unat n
    \<Longrightarrow> renders m b n inb temp tv args i k out e out' k'"
proof (induction N strs g args out k arbitrary: m i rule: render.induct)
  case (1 N strs args out k)
  then have f: "cstr m inb f" "i = length f" by (auto simp: printf_env_def Let_def)
  obtain m' where m': "wr8 m (b + ucast (of_nat (length out) :: DWORD)) 0 = Some m'" "changed_in (region b N) m m'" "cstr m' b out"
    using out_ok_end [OF 1(5)] by blast
  have "vsnprintf_loop m b n inb temp tv args (of_nat i) (of_nat k + 1) (of_nat (length out)) = Some (of_nat k, m')"
    using cstr_ch_end [OF f(1)] f(2) m'(1) by (subst vsnprintf_loop.simps) simp
  then show ?case using 1(1,5,6) m'(2,3) changed_in_mono [OF m'(2)] by (auto simp: renders_def fmt_status_def out_ok_def)
next
  case (2 N strs c r args out k)
  note env = printf_envD [OF "2.prems"(4)]
  have i: "i < length f" using "2.prems"(2,3) by (cases "i = length f") auto
  then have cr: "f ! i = c" "drop (Suc i) f = r" using "2.prems"(2) Cons_nth_drop_Suc [OF i] by (metis list.inject)+
  show ?case
  proof (cases "c = 0x25")
    case False
    note st = renders_char [OF env(1) i, where b = b and n = n and out = out and args = args and k = k
        and out' = out' and k' = k' and temp = temp and tv = tv, folded "2.prems"(6), unfolded cr(1), OF False "2.prems"(5)]
    show ?thesis
    proof (cases "N \<le> length out + 1")
      case True
      then show ?thesis using "2.prems"(1) False st by simp
    next
      case N: False
      then obtain m1 where m1: "changed_in (scratch temp tv \<union> region b N) m m1" "out_ok m1 b N (out @ [c])"
        "renders m1 b n inb temp tv args (Suc i) k (out @ [c]) e out' k' \<longrightarrow> renders m b n inb temp tv args i k out e out' k'"
        using st by auto
      have rr: "render N strs r args (out @ [c]) k = Some (e, out', k')" using "2.prems"(1) False N by simp
      have "Suc i \<le> length f" using i by simp
      from "2.IH"(1) [OF False N rr cr(2) [symmetric] this printf_env_changed [OF "2.prems"(4) m1(1)] m1(2) "2.prems"(6)]
      have "renders m1 b n inb temp tv args (Suc i) k (out @ [c]) e out' k'" .
      then show ?thesis using m1(3) by blast
    qed
  next
    case True
    define ds where "ds = takeWhile isdigit r"
    define w where "w = unat (fmt_width ds)"
    show ?thesis
    proof (cases "dropWhile isdigit r = [] \<or> hd (dropWhile isdigit r) \<notin> conversions")
      case no: True
      then have e: "e = ParseFailed" using "2.prems"(1) True
        by (cases "dropWhile isdigit r") (auto simp: Let_def simp del: dropWhile_eq_Nil_conv)
      have "vsnprintf_conversion m b n inb temp tv args (of_nat i) (of_nat (length out)) = Some (Inl (STATUS_PARSE_FAILED, m))"
        using conversion_fails [OF env(1) i] no cr(2) by blast
      then show ?thesis using loop_step_conversion [OF cstr_ch [OF env(1) i, unfolded cr(1) True]] changed_in_refl e
        by (simp add: renders_def fmt_status_def)
    next
      case False
      then obtain x r' where x: "dropWhile isdigit r = x # r'" "x \<in> conversions" by (cases "dropWhile isdigit r") auto
      obtain a args' s where a: "args = a # args'" "conv_string strs x a = Some s" "length out + max w (length s) < 2 ^ 32"
        using "2.prems"(1) True x by (auto simp: Let_def ds_def w_def split: list.splits option.splits if_splits)
      define out1 where "out1 = out @ replicate (w - length s) (fmt_fill ds) @ (if x = 0x53 then take w s else s)"
      have rc: "render N strs (c # r) args out k = (if N \<le> length out + max w (length s) then Some (TooSmall, out, k)
          else render N strs r' args' out1 (k + 1))"
        using a True x by (simp add: Let_def ds_def w_def out1_def)
      have x': "dropWhile isdigit (drop (Suc i) f) = x # r'" "ds = takeWhile isdigit (drop (Suc i) f)" using x(1) cr(2) by (simp_all add: ds_def)
      note st = renders_conversion [OF env(1) i _ x'(2,1) x(2) a(2), where b = b and n = n and out = out and args = args' and k = k
          and out' = out' and k' = k' and e = e, folded "2.prems"(6), OF _ "2.prems"(5) env(2,3) w_def a(3) out1_def]
      have pct: "f ! i = 0x25" using cr(1) True by simp
      show ?thesis
      proof (cases "N \<le> length out + max w (length s)")
        case big: True
        then have "e = TooSmall" "out' = out" "k' = k" using rc "2.prems"(1) by auto
        then show ?thesis using st [OF pct] big a(1) by simp
      next
        case small: False
        then obtain m1 where m1: "changed_in (scratch temp tv \<union> region b N) m m1" "out_ok m1 b N out1"
          "renders m1 b n inb temp tv args' (i + length ds + 2) (Suc k) out1 e out' k' \<longrightarrow> renders m b n inb temp tv args i k out e out' k'"
          using st [OF pct] a(1) by auto
        have dr: "r' = drop (i + length ds + 2) f" "i + length ds + 2 \<le> length f"
        proof -
          have "r = ds @ x # r'" unfolding ds_def using x(1) by (metis takeWhile_dropWhile_id)
          then have "drop i f = c # ds @ x # r'" using "2.prems"(2) by simp
          then have "drop (length ds + 2) (drop i f) = r'" "length (drop i f) = length ds + 2 + length r'" by simp_all
          then show "r' = drop (i + length ds + 2) f" "i + length ds + 2 \<le> length f" by (simp_all add: add.commute add.left_commute)
        qed
        have rr: "render N strs r' args' out1 (k + 1) = Some (e, out', k')" using rc "2.prems"(1) small by simp
        have c1: "\<not> c \<noteq> 0x25" "\<not> x \<notin> conversions" "\<not> 2 ^ 32 \<le> length out + max w (length s)"
          using True x(2) a(3) by simp_all
        from "2.IH"(2) [OF c1(1) ds_def w_def x(1) c1(2) a(1,2) c1(3) small, folded out1_def,
            OF rr dr printf_env_changed [OF "2.prems"(4) m1(1)] m1(2) "2.prems"(6)]
        have "renders m1 b n inb temp tv args' (i + length ds + 2) (k + 1) out1 e out' k'" .
        then show ?thesis using m1(3) by simp
      qed
    qed
  qed
qed

text \<open>C15.
  \<^verbatim>\<open>cl_vsnprintf\<close> with a format, string arguments and a buffer that do not overlap, for every format to
  which \<open>render\<close> gives a meaning (all arguments there, no field wider than 32 bits can count): the call
  returns; with a status for a bad conversion character or for a buffer that is too small exactly when
  \<open>render\<close> says so, and otherwise with the number of arguments converted and the rendered text, NUL-terminated,
  in the buffer. It writes to nothing but the buffer, whose bounds it respects, and its own locals; the
  65 bytes of \<^verbatim>\<open>temp\<close> are enough for every number.
\<close>

theorem vsnprintf_renders:
  assumes "printf_env m b (unat n) inb f temp tv strs" "out_ok m b (unat n) []" "inb \<noteq> NULL"
    "render (unat n) strs f args [] 0 = Some (e, out, k)"
  shows "\<exists>m'. cl_vsnprintf m temp tv b n inb args = Some (fmt_status e k, m')
    \<and> changed_in (scratch temp tv \<union> region b (unat n)) m m' \<and> (e = Done \<longrightarrow> cstr m' b out \<and> length out < unat n)"
proof -
  have "renders m b n inb temp tv args 0 0 [] e out k"
    using loop_spec [OF assms(4), of 0 f m b inb temp tv n] assms(1,2) by simp
  moreover have "0 < unat n" "b \<noteq> NULL" using assms(2) by (auto simp: out_ok_def dest!: spec [of _ 0])
  then have "b \<noteq> NULL" "n \<noteq> 0" by auto
  ultimately show ?thesis using assms(3) by (simp add: renders_def cl_vsnprintf_def)
qed

text \<open>Printing \<open>"%3u%s"\<close> with 7 and the string \<open>"ok"\<close> into a buffer of 16 bytes.\<close>

definition sample_printf :: bmem where
  "sample_printf a = (if 3000 \<le> a \<and> a < 3016 \<or> 4000 \<le> a \<and> a < 4065 \<or> 5000 \<le> a \<and> a < 5008 then Some 0
     else [1000 \<mapsto> 0x25, 1001 \<mapsto> 0x33, 1002 \<mapsto> 0x75, 1003 \<mapsto> 0x25, 1004 \<mapsto> 0x73, 1005 \<mapsto> 0, 2000 \<mapsto> 0x6F, 2001 \<mapsto> 0x6B, 2002 \<mapsto> 0] a)"

lemma region_bounds:
  assumes "x \<in> region a n" "unat a + n \<le> 2 ^ 64"
  shows "unat a \<le> unat x \<and> unat x < unat a + n"
proof -
  obtain j where j: "j < n" "x = a + of_nat j" using assms(1) by (auto simp: region_def)
  then have "unat (of_nat j :: ADDR) = j" using assms(2) by (intro unat_of_nat_small) simp
  then have "unat x = unat a + j" using j assms(2) by (simp add: unat_word_ariths)
  then show ?thesis using j by simp
qed

lemma region_disjoint:
  assumes "unat a + n \<le> unat b \<or> unat b + k \<le> unat a" "unat a + n \<le> 2 ^ 64" "unat b + k \<le> 2 ^ 64"
  shows "region a n \<inter> region b k = {}"
proof -
  have "x \<notin> region b k" if "x \<in> region a n" for x
    using region_bounds [OF that assms(2)] region_bounds [OF _ assms(3), of x] assms(1) by linarith
  then show ?thesis by blast
qed

lemma mapped_region: "mapped m a n \<longleftrightarrow> (\<forall>x \<in> region a n. m x \<noteq> None)"
  by (auto simp: mapped_def region_def)

lemma sample_printf_mapped: "mapped sample_printf 3000 16" "mapped sample_printf 4000 65" "mapped sample_printf 5000 8"
proof -
  have r: "lo \<le> x \<and> x < lo + of_nat n" if "x \<in> region lo n" "unat lo < 10000" "n < 10000" for lo x :: ADDR and n
  proof -
    have "unat (of_nat n :: ADDR) = n" using that(3) by (intro unat_of_nat_small) simp
    then have "unat (lo + of_nat n) = unat lo + n" using that(2,3) by (simp add: unat_word_ariths)
    then show ?thesis using region_bounds [OF that(1)] that(2,3) by (simp add: word_le_nat_alt word_less_nat_alt)
  qed
  show "mapped sample_printf 3000 16" unfolding mapped_region using r [of _ 3000 16] by (simp add: sample_printf_def)
  show "mapped sample_printf 4000 65" unfolding mapped_region using r [of _ 4000 65] by (simp add: sample_printf_def)
  show "mapped sample_printf 5000 8" unfolding mapped_region using r [of _ 5000 8] by (simp add: sample_printf_def)
qed

lemma sample_printf_strings: "cstr sample_printf 1000 [0x25, 0x33, 0x75, 0x25, 0x73]" "cstr sample_printf 2000 [0x6F, 0x6B]"
  by (simp_all add: cstr_def sample_printf_def All_less_Suc2)

lemma sample_printf_env: "printf_env sample_printf 3000 16 1000 [0x25, 0x33, 0x75, 0x25, 0x73] 4000 5000 [2000 \<mapsto> [0x6F, 0x6B]]"
proof -
  have "region 1000 (Suc (Suc (Suc (Suc (Suc (Suc 0)))))) \<inter> region 4000 65 = {}" "region 1000 (Suc (Suc (Suc (Suc (Suc (Suc 0)))))) \<inter> region 5000 8 = {}" "region 1000 (Suc (Suc (Suc (Suc (Suc (Suc 0)))))) \<inter> region 3000 16 = {}"
    "region 2000 (Suc (Suc (Suc 0))) \<inter> region 4000 65 = {}" "region 2000 (Suc (Suc (Suc 0))) \<inter> region 5000 8 = {}" "region 2000 (Suc (Suc (Suc 0))) \<inter> region 3000 16 = {}"
    "region 4000 65 \<inter> region 3000 16 = {}" "region 5000 8 \<inter> region 3000 16 = {}"
    by (rule region_disjoint; simp)+
  then show ?thesis
    using sample_printf_strings sample_printf_mapped
    by (simp add: printf_env_def Let_def scratch_ok_def scratch_def arg_at_def Int_Un_distrib)
qed

lemma sample_printf_out: "out_ok sample_printf 3000 16 []"
proof -
  have "(3000 :: ADDR) + of_nat j \<noteq> NULL" if "j < 16" for j
    using region_bounds [of "3000 + of_nat j" 3000 16] that by (force simp: region_def)
  then show ?thesis using sample_printf_mapped by (simp add: out_ok_def)
qed

lemma sample_printf_render:
  "render 16 [2000 \<mapsto> [0x6F, 0x6B]] [0x25, 0x33, 0x75, 0x25, 0x73] [7, 2000] [] 0 = Some (Done, [0x20, 0x20, 0x37, 0x6F, 0x6B], 2)"
proof -
  have "itoa_string 10 False 7 = [0x37]" by (simp add: itoa_string_def rev_digits.simps digit_char_def)
  moreover have "isdigit 0x33" "\<not> isdigit 0x75" "\<not> isdigit 0x73" by code_simp+
  moreover have "replicate 2 (0x20 :: BYTE) = [0x20, 0x20]" by (simp add: numeral_2_eq_2)
  ultimately show ?thesis
    by (simp add: conversions_def conv_string_def number_string_def fmt_width_def fmt_fill_def)
qed

theorem vsnprintf_renders_witness:
  "\<exists>m'. cl_vsnprintf sample_printf 4000 5000 3000 16 1000 [7, 2000] = Some (2, m') \<and> cstr m' 3000 [0x20, 0x20, 0x37, 0x6F, 0x6B]"
proof -
  have n: "unat (16 :: DWORD) = 16" by simp
  from vsnprintf_renders [of _ _ 16, unfolded n, OF sample_printf_env sample_printf_out _ sample_printf_render]
  show ?thesis by (auto simp: fmt_status_def)
qed

end
