(* ===== verification/CL_HashTable.thy ===== *)
theory CL_HashTable
  imports CL_List CL_Memory
begin

text \<open>
  \<^verbatim>\<open>CommonLib/src/hash_table.c\<close>: a chained hash table whose buckets are ordered lists.

  The links of the buckets live in the list memory of \<^verbatim>\<open>CL_List\<close>, the keys in the byte
  memory of \<^verbatim>\<open>CL_Memory\<close>; no operation of the table writes a key. The hash function is a
  field of the table, as in the source. The context of the search, which the compare function
  updates through a pointer, is the context the list search threads through its calls.
\<close>

section \<open>Structures\<close>

type_synonym FUNC_HashFunction = "bmem \<Rightarrow> ADDR \<Rightarrow> DWORD \<Rightarrow> DWORD \<Rightarrow> QWORD option"

record HASH_TABLE =
  MaxKeys :: DWORD
  KeySize :: DWORD
  NumberOfElements :: DWORD
  OffsetToKey :: "32 word"
  HashFunc :: FUNC_HashFunction
  TableData :: ADDR

record HASH_ELEM_SEARCH_CTX =
  PlaceholderEntry :: ADDR
  Result :: int

record HASH_ITERATOR =
  KeyIndex :: DWORD
  CurrentKeyIterator :: LIST_ITERATOR

definition sizeof_HASH_ENTRY :: nat where "sizeof_HASH_ENTRY = 16"

text \<open>The address of \<^verbatim>\<open>TableData->Entries[i]\<close>.\<close>

definition Entries :: "HASH_TABLE \<Rightarrow> QWORD \<Rightarrow> ADDR" where
  "Entries ht i = TableData ht + i * of_nat sizeof_HASH_ENTRY"

section \<open>Hash functions\<close>

text \<open>
  \<^verbatim>\<open>cl_memcpy(&keyValue, Key, KeyLength)\<close> fills the low bytes of an 8-byte local variable; a
  longer key would overwrite the stack behind it, which no assertion excludes
  (\<^verbatim>\<open>KeyLength <= MAX_QWORD\<close> holds for every 32-bit length). The division by a zero
  \<^verbatim>\<open>MaxKeys\<close> faults.
\<close>

definition read_key_value :: "bmem \<Rightarrow> ADDR \<Rightarrow> DWORD \<Rightarrow> QWORD option" where
  "read_key_value b Key KeyLength = do {
     ASSERT (Key \<noteq> NULL);
     ASSERT ((ucast KeyLength :: QWORD) \<le> MAX_QWORD);
     bs \<leftarrow> rd_bytes b Key (unat KeyLength);
     ASSERT (unat KeyLength \<le> 8);
     Some (of_nat (le_value bs))
   }"

definition HashFuncGenericIncremental :: FUNC_HashFunction where
  "HashFuncGenericIncremental b Key KeyLength maxk = do {
     keyValue \<leftarrow> read_key_value b Key KeyLength;
     ASSERT (maxk \<noteq> 0);
     Some (keyValue mod ucast maxk)
   }"

definition HASH_UNIVERSAL_A :: QWORD where "HASH_UNIVERSAL_A = 1701"
definition HASH_UNIVERSAL_B :: QWORD where "HASH_UNIVERSAL_B = 59"
definition HASH_UNIVERSAL_P :: QWORD where "HASH_UNIVERSAL_P = 10007"

definition HashFuncUniversal :: FUNC_HashFunction where
  "HashFuncUniversal b Key KeyLength maxk = do {
     keyValue \<leftarrow> read_key_value b Key KeyLength;
     let result = keyValue mod HASH_UNIVERSAL_P;
     ASSERT (result < MAX_QWORD div HASH_UNIVERSAL_A - HASH_UNIVERSAL_B);
     ASSERT (maxk \<noteq> 0);
     Some (((HASH_UNIVERSAL_A * result + HASH_UNIVERSAL_B) mod HASH_UNIVERSAL_P) mod ucast maxk)
   }"

section \<open>Initialisation\<close>

definition HashTablePreinit :: "DWORD \<Rightarrow> DWORD \<Rightarrow> (DWORD \<times> HASH_TABLE) option" where
  "HashTablePreinit maxk keysz = do {
     ASSERT (0 < maxk \<and> ucast maxk < (ucast MAX_DWORD :: QWORD) div of_nat sizeof_HASH_ENTRY);
     Some (maxk * of_nat sizeof_HASH_ENTRY,
       \<lparr>MaxKeys = maxk, KeySize = keysz, NumberOfElements = 0, OffsetToKey = 0,
        HashFunc = (\<lambda>b k l n. None), TableData = NULL\<rparr>)
   }"

function HashTableInit_loop :: "HASH_TABLE \<Rightarrow> lmem \<Rightarrow> DWORD \<Rightarrow> lmem option" where
  "HashTableInit_loop ht m i =
     (if i < MaxKeys ht then do {
        m \<leftarrow> InitializeListHead m (Entries ht (ucast i));
        HashTableInit_loop ht m (i + 1)
      }
      else Some m)"
  by pat_completeness auto
termination
  by (relation "measure (\<lambda>(ht, m, i). unat (MaxKeys ht) - unat i)")
    (auto simp: word_less_nat_alt unat_inc_below)

definition HashTableInit ::
  "HASH_TABLE \<Rightarrow> lmem \<Rightarrow> ADDR \<Rightarrow> FUNC_HashFunction \<Rightarrow> 32 word \<Rightarrow> (HASH_TABLE \<times> lmem) option" where
  "HashTableInit ht m tdata hf offset = do {
     ASSERT (tdata \<noteq> NULL);
     let ht = ht\<lparr>TableData := tdata, HashFunc := hf, OffsetToKey := offset\<rparr>;
     m \<leftarrow> HashTableInit_loop ht m 0;
     Some (ht, m)
   }"

section \<open>Searching a bucket\<close>

definition HashTableObtainKeyAddress :: "HASH_TABLE \<Rightarrow> ADDR \<Rightarrow> ADDR" where
  "HashTableObtainKeyAddress ht Element = Element + scast (OffsetToKey ht)"

definition HashTableSearchElem :: "bmem \<Rightarrow> HASH_TABLE \<Rightarrow> HASH_ELEM_SEARCH_CTX FUNC_CompareFunction" where
  "HashTableSearchElem b ht FirstElem SecondElem ctx = do {
     ASSERT (FirstElem \<noteq> NULL);
     ASSERT (SecondElem \<noteq> NULL);
     let ctx = ctx\<lparr>PlaceholderEntry := FirstElem\<rparr>;
     r \<leftarrow> cl_rmemcmp b (HashTableObtainKeyAddress ht FirstElem) SecondElem (KeySize ht);
     Some (r, ctx\<lparr>Result := r\<rparr>)
   }"

definition HashTableSearchKeyInBucket ::
  "bmem \<Rightarrow> HASH_TABLE \<Rightarrow> lmem \<Rightarrow> ADDR \<Rightarrow> ADDR \<Rightarrow> (bool \<times> ADDR) option" where
  "HashTableSearchKeyInBucket b ht m Bucket Key = do {
     ASSERT (Bucket \<noteq> NULL);
     ASSERT (Key \<noteq> NULL);
     (pResult, ctx) \<leftarrow> ListSearchForElement m Bucket Key True (Some (HashTableSearchElem b ht))
                          \<lparr>PlaceholderEntry = Bucket, Result = 0\<rparr>;
     ASSERT (pResult \<noteq> NULL \<longrightarrow> pResult = PlaceholderEntry ctx);
     ASSERT (pResult \<noteq> NULL \<longrightarrow> Result ctx = 0);
     placeholder \<leftarrow> (if Result ctx > 0 then rd_Blink m (PlaceholderEntry ctx)
                     else Some (PlaceholderEntry ctx));
     Some (pResult \<noteq> NULL, placeholder)
   }"

section \<open>Operations\<close>

definition HashTableSize :: "HASH_TABLE \<Rightarrow> DWORD" where
  "HashTableSize ht = NumberOfElements ht"

definition HashTableInsert ::
  "bmem \<Rightarrow> HASH_TABLE \<Rightarrow> lmem \<Rightarrow> ADDR \<Rightarrow> (ADDR \<times> HASH_TABLE \<times> lmem) option" where
  "HashTableInsert b ht m Element = do {
     ASSERT (Element \<noteq> NULL);
     let pKey = HashTableObtainKeyAddress ht Element;
     hIndex \<leftarrow> HashFunc ht b pKey (KeySize ht) (MaxKeys ht);
     ASSERT (hIndex < ucast (MaxKeys ht));
     (found, place) \<leftarrow> HashTableSearchKeyInBucket b ht m (Entries ht hIndex) pKey;
     m \<leftarrow> InsertHeadList m place Element;
     if found then do {
       (e, m) \<leftarrow> RemoveEntryList m place;
       Some (place, ht, m)
     }
     else Some (NULL, ht\<lparr>NumberOfElements := NumberOfElements ht + 1\<rparr>, m)
   }"

definition HashTableRemoveEntry :: "HASH_TABLE \<Rightarrow> lmem \<Rightarrow> ADDR \<Rightarrow> (HASH_TABLE \<times> lmem) option" where
  "HashTableRemoveEntry ht m Element = do {
     ASSERT (Element \<noteq> NULL);
     (e, m) \<leftarrow> RemoveEntryList m Element;
     Some (ht\<lparr>NumberOfElements := NumberOfElements ht - 1\<rparr>, m)
   }"

definition HashTableLookup :: "bmem \<Rightarrow> HASH_TABLE \<Rightarrow> lmem \<Rightarrow> ADDR \<Rightarrow> ADDR option" where
  "HashTableLookup b ht m Key = do {
     ASSERT (Key \<noteq> NULL);
     hIndex \<leftarrow> HashFunc ht b Key (KeySize ht) (MaxKeys ht);
     (found, pResult) \<leftarrow> HashTableSearchKeyInBucket b ht m (Entries ht hIndex) Key;
     Some (if found then pResult else NULL)
   }"

definition HashTableRemove ::
  "bmem \<Rightarrow> HASH_TABLE \<Rightarrow> lmem \<Rightarrow> ADDR \<Rightarrow> (ADDR \<times> HASH_TABLE \<times> lmem) option" where
  "HashTableRemove b ht m Key = do {
     ASSERT (Key \<noteq> NULL);
     pHashEntry \<leftarrow> HashTableLookup b ht m Key;
     if pHashEntry \<noteq> NULL then do {
       (ht, m) \<leftarrow> HashTableRemoveEntry ht m pHashEntry;
       Some (pHashEntry, ht, m)
     }
     else Some (NULL, ht, m)
   }"

section \<open>Iteration\<close>

definition HashTableIteratorInit :: "HASH_TABLE \<Rightarrow> lmem \<Rightarrow> HASH_ITERATOR option" where
  "HashTableIteratorInit ht m = do {
     it \<leftarrow> ListIteratorInit m (Entries ht 0);
     Some \<lparr>KeyIndex = 0, CurrentKeyIterator = it\<rparr>
   }"

text \<open>The loop stops at the latest when \<^verbatim>\<open>KeyIndex\<close> reaches \<^verbatim>\<open>MaxKeys\<close>; the iterator of the
  next bucket is started before the index is compared again.\<close>

function HashTableIteratorNext :: "HASH_TABLE \<Rightarrow> lmem \<Rightarrow> HASH_ITERATOR \<Rightarrow> (ADDR \<times> HASH_ITERATOR) option" where
  "HashTableIteratorNext ht m it =
     (if KeyIndex it < MaxKeys ht then do {
        (pResult, cur) \<leftarrow> ListIteratorNext m (CurrentKeyIterator it);
        if pResult \<noteq> NULL then Some (pResult, it\<lparr>CurrentKeyIterator := cur\<rparr>)
        else do {
          cur \<leftarrow> ListIteratorInit m (Entries ht (ucast (KeyIndex it + 1)));
          HashTableIteratorNext ht m \<lparr>KeyIndex = KeyIndex it + 1, CurrentKeyIterator = cur\<rparr>
        }
      }
      else Some (NULL, it))"
  by pat_completeness auto
termination
  by (relation "measure (\<lambda>(ht, m, it). unat (MaxKeys ht) - unat (KeyIndex it))")
    (auto simp: word_less_nat_alt unat_inc_below)

text \<open>\<^verbatim>\<open>HashTableClear\<close>: the free function gets each removed entry and its context, and may
  change the context and the memory of the entry.\<close>

partial_function (option) HashTableClear_loop ::
  "(ADDR \<Rightarrow> 'c \<Rightarrow> lmem \<Rightarrow> ('c \<times> lmem) option) option \<Rightarrow> HASH_TABLE \<Rightarrow> lmem \<Rightarrow> HASH_ITERATOR \<Rightarrow> 'c
     \<Rightarrow> (HASH_TABLE \<times> lmem \<times> 'c) option" where
  "HashTableClear_loop FreeFunction ht m it ctx = do {
     (pEntry, it) \<leftarrow> HashTableIteratorNext ht m it;
     if pEntry \<noteq> NULL then do {
       (ht, m) \<leftarrow> HashTableRemoveEntry ht m pEntry;
       (ctx, m) \<leftarrow> (case FreeFunction of None \<Rightarrow> Some (ctx, m) | Some f \<Rightarrow> f pEntry ctx m);
       HashTableClear_loop FreeFunction ht m it ctx
     }
     else Some (ht, m, ctx)
   }"

definition HashTableClear ::
  "(ADDR \<Rightarrow> 'c \<Rightarrow> lmem \<Rightarrow> ('c \<times> lmem) option) option \<Rightarrow> HASH_TABLE \<Rightarrow> lmem \<Rightarrow> 'c
     \<Rightarrow> (HASH_TABLE \<times> lmem \<times> 'c) option" where
  "HashTableClear FreeFunction ht m ctx = do {
     it \<leftarrow> HashTableIteratorInit ht m;
     HashTableClear_loop FreeFunction ht m it ctx
   }"

declare HashTableInit_loop.simps [simp del] HashTableIteratorNext.simps [simp del]


section \<open>The contract of a hash function\<close>

text \<open>
  A table relies on its hash function to return for every readable key of at most eight bytes, to
  stay below the number of buckets, and to depend on the bytes of the key only.
\<close>

definition key_ok :: "bmem \<Rightarrow> DWORD \<Rightarrow> ADDR \<Rightarrow> bool" where
  "key_ok b len k \<longleftrightarrow> k \<noteq> NULL \<and> 0 < unat len \<and> unat len \<le> 8 \<and> mapped b k (unat len)"

definition key_value :: "bmem \<Rightarrow> DWORD \<Rightarrow> ADDR \<Rightarrow> nat" where
  "key_value b len k = le_value (bytes_at b k (unat len))"

locale hash_function =
  fixes hf :: FUNC_HashFunction
  assumes hf_in_range: "key_ok b len k \<Longrightarrow> n \<noteq> 0 \<Longrightarrow> \<exists>h. hf b k len n = Some h \<and> unat h < unat n"
    and hf_of_value: "key_ok b len k \<Longrightarrow> key_ok b len k' \<Longrightarrow> key_value b len k = key_value b len k'
      \<Longrightarrow> hf b k len n = hf b k' len n"
begin

definition home :: "bmem \<Rightarrow> HASH_TABLE \<Rightarrow> ADDR \<Rightarrow> nat" where
  "home b ht k = unat (the (hf b k (KeySize ht) (MaxKeys ht)))"

lemma home_hash:
  assumes "key_ok b (KeySize ht) k" "MaxKeys ht \<noteq> 0"
  shows "hf b k (KeySize ht) (MaxKeys ht) = Some (of_nat (home b ht k))" "home b ht k < unat (MaxKeys ht)"
  using hf_in_range [OF assms] by (auto simp: home_def)

lemma home_of_value:
  "key_ok b (KeySize ht) k \<Longrightarrow> key_ok b (KeySize ht) k' \<Longrightarrow>
   key_value b (KeySize ht) k = key_value b (KeySize ht) k' \<Longrightarrow> home b ht k = home b ht k'"
  using hf_of_value [of b "KeySize ht" k k' "MaxKeys ht"] by (simp add: home_def)

end

lemma read_key_value_result:
  assumes "key_ok b len k"
  shows "read_key_value b k len = Some (of_nat (key_value b len k))"
proof -
  have "(ucast len :: QWORD) \<le> MAX_QWORD"
    using unat32_bound [of len] by (simp add: MAX_QWORD_def word_le_nat_alt)
  then show ?thesis
    using assms rd_bytes_mapped [of b k "unat len"]
    by (simp add: read_key_value_def key_ok_def key_value_def bytes_at_def)
qed

lemma unat_mod_less: "(n::DWORD) \<noteq> 0 \<Longrightarrow> unat ((x::QWORD) mod ucast n) < unat n"
  by (simp add: unat_mod unat_gt_0)

interpretation incremental: hash_function HashFuncGenericIncremental
  by unfold_locales (simp_all add: HashFuncGenericIncremental_def read_key_value_result unat_mod_less)

lemma universal_no_overflow:
  "keyValue mod HASH_UNIVERSAL_P < MAX_QWORD div HASH_UNIVERSAL_A - HASH_UNIVERSAL_B"
proof -
  have "unat (keyValue mod HASH_UNIVERSAL_P) < 10007"
    by (simp add: unat_mod HASH_UNIVERSAL_P_def)
  moreover have "unat (MAX_QWORD div HASH_UNIVERSAL_A - HASH_UNIVERSAL_B) \<ge> 10007"
    by (simp add: MAX_QWORD_def HASH_UNIVERSAL_A_def HASH_UNIVERSAL_B_def)
  ultimately show ?thesis by (simp add: word_less_nat_alt)
qed

interpretation universal: hash_function HashFuncUniversal
  by unfold_locales (simp_all add: HashFuncUniversal_def read_key_value_result unat_mod_less
      universal_no_overflow)

section \<open>The elements of a table\<close>

definition entry_value :: "bmem \<Rightarrow> HASH_TABLE \<Rightarrow> ADDR \<Rightarrow> nat" where
  "entry_value b ht e = key_value b (KeySize ht) (HashTableObtainKeyAddress ht e)"

definition entry_ok :: "bmem \<Rightarrow> HASH_TABLE \<Rightarrow> ADDR \<Rightarrow> bool" where
  "entry_ok b ht e \<longleftrightarrow> key_ok b (KeySize ht) (HashTableObtainKeyAddress ht e)"

text \<open>The list of bucket \<open>i\<close> with its head.\<close>

definition ring :: "HASH_TABLE \<Rightarrow> (nat \<Rightarrow> ADDR list) \<Rightarrow> nat \<Rightarrow> ADDR set" where
  "ring ht B i = set (Entries ht (of_nat i) # B i)"

definition elements :: "HASH_TABLE \<Rightarrow> (nat \<Rightarrow> ADDR list) \<Rightarrow> ADDR set" where
  "elements ht B = (\<Union>i < unat (MaxKeys ht). set (B i))"

lemma HashTableSearchElem_result:
  assumes "e \<noteq> NULL" "entry_ok b ht e" "key_ok b (KeySize ht) k"
  shows "\<exists>r. HashTableSearchElem b ht e k ctx = Some (r, ctx\<lparr>PlaceholderEntry := e, Result := r\<rparr>)
    \<and> (r < 0 \<longleftrightarrow> entry_value b ht e < key_value b (KeySize ht) k)
    \<and> (r = 0 \<longleftrightarrow> entry_value b ht e = key_value b (KeySize ht) k)"
proof -
  have "KeySize ht \<noteq> 0" using assms(3) by (auto simp: key_ok_def)
  then obtain r where "cl_rmemcmp b (HashTableObtainKeyAddress ht e) k (KeySize ht) = Some r"
    "r < 0 \<longleftrightarrow> entry_value b ht e < key_value b (KeySize ht) k"
    "r = 0 \<longleftrightarrow> entry_value b ht e = key_value b (KeySize ht) k"
    using cl_rmemcmp_result [of b "HashTableObtainKeyAddress ht e" "KeySize ht" k] assms(2,3)
    by (auto simp: entry_ok_def key_ok_def entry_value_def key_value_def le_value_eq)
  with assms show ?thesis by (simp add: HashTableSearchElem_def key_ok_def)
qed

lemma search_loop_result:
  assumes k: "key_ok b (KeySize ht) k"
  shows "is_list m h (xs @ ys) \<Longrightarrow> list_all (entry_ok b ht) ys \<Longrightarrow> Result ctx \<le> 0 \<Longrightarrow>
    sorted_wrt (<) (map (entry_value b ht) ys) \<Longrightarrow>
    \<exists>p ctx'. ListSearch_loop m h k True (HashTableSearchElem b ht) ctx (hd (ys @ [h])) = Some (p, ctx')
      \<and> (case dropWhile (\<lambda>e. entry_value b ht e < key_value b (KeySize ht) k) ys of
           [] \<Rightarrow> p = NULL \<and> PlaceholderEntry ctx' = last (PlaceholderEntry ctx # ys) \<and> Result ctx' \<le> 0
         | e # es \<Rightarrow> PlaceholderEntry ctx' = e
             \<and> (if entry_value b ht e = key_value b (KeySize ht) k then p = e \<and> Result ctx' = 0
                else p = NULL \<and> 0 < Result ctx'))"
proof (induction ys arbitrary: xs ctx)
  case Nil
  then show ?case by (simp add: ListSearch_loop.simps)
next
  case (Cons y ys)
  note w = walk_simps [OF Cons.prems(1)]
  obtain r where r: "HashTableSearchElem b ht y k ctx = Some (r, ctx\<lparr>PlaceholderEntry := y, Result := r\<rparr>)"
    "r < 0 \<longleftrightarrow> entry_value b ht y < key_value b (KeySize ht) k"
    "r = 0 \<longleftrightarrow> entry_value b ht y = key_value b (KeySize ht) k"
    using HashTableSearchElem_result [of y b ht k ctx] w k Cons.prems(2) by auto
  show ?case
  proof (cases "r < 0")
    case True
    let ?c = "ctx\<lparr>PlaceholderEntry := y, Result := r\<rparr>"
    have "ListSearch_loop m h k True (HashTableSearchElem b ht) ctx y
        = ListSearch_loop m h k True (HashTableSearchElem b ht) ?c (hd (ys @ [h]))"
      using True r(1) w by (subst ListSearch_loop.simps) simp
    then show ?thesis
      using Cons.IH [of "xs @ [y]" ?c] Cons.prems r(2) True by (simp cong: list.case_cong)
  next
    case False
    then show ?thesis using r w by (subst ListSearch_loop.simps) simp
  qed
qed

lemma is_list_prev:
  assumes "is_list m h (xs @ y # ys)"
  shows "rd_Blink m y = Some (last (h # xs))"
  using is_list_last(1) [OF is_list_rotate [OF assms]] by simp

text \<open>The search finds the entry with the key, or the place after which it belongs.\<close>

lemma SearchKeyInBucket_result:
  assumes l: "is_list m h xs" and ok: "list_all (entry_ok b ht) xs" and k: "key_ok b (KeySize ht) k"
    and s: "sorted_wrt (<) (map (entry_value b ht) xs)"
  shows "HashTableSearchKeyInBucket b ht m h k =
    (let v = key_value b (KeySize ht) k; ps = takeWhile (\<lambda>e. entry_value b ht e < v) xs in
     case dropWhile (\<lambda>e. entry_value b ht e < v) xs of
       [] \<Rightarrow> Some (False, last (h # ps))
     | e # es \<Rightarrow> if entry_value b ht e = v then Some (True, e) else Some (False, last (h # ps)))"
proof -
  let ?P = "\<lambda>e. entry_value b ht e < key_value b (KeySize ht) k"
  obtain p ctx where r: "ListSearchForElement m h k True (Some (HashTableSearchElem b ht))
      \<lparr>PlaceholderEntry = h, Result = 0\<rparr> = Some (p, ctx)"
    "case dropWhile ?P xs of
           [] \<Rightarrow> p = NULL \<and> PlaceholderEntry ctx = last (h # xs) \<and> Result ctx \<le> 0
         | e # es \<Rightarrow> PlaceholderEntry ctx = e
             \<and> (if entry_value b ht e = key_value b (KeySize ht) k then p = e \<and> Result ctx = 0
                else p = NULL \<and> 0 < Result ctx)"
    using search_loop_result [OF k, of m h "[]" xs "\<lparr>PlaceholderEntry = h, Result = 0\<rparr>"] l ok s k
    by (auto simp: ListSearchForElement_def is_list_not_NULL is_list_first key_ok_def cong: list.case_cong)
  show ?thesis
  proof (cases "dropWhile ?P xs")
    case Nil
    then have tw: "takeWhile ?P xs = xs" by (metis append_Nil2 takeWhile_dropWhile_id)
    show ?thesis
      using r(2) l k unfolding Let_def Nil tw HashTableSearchKeyInBucket_def r(1)
      by (simp add: is_list_not_NULL key_ok_def)
  next
    case (Cons e es)
    then have "is_list m h (takeWhile ?P xs @ e # es)" using l by (metis takeWhile_dropWhile_id)
    from is_list_prev [OF this] walk_simps [OF this] r(2) l k show ?thesis
      unfolding Let_def Cons HashTableSearchKeyInBucket_def r(1)
      by (auto simp: is_list_not_NULL key_ok_def split: if_splits)
  qed
qed


section \<open>The table invariant\<close>

text \<open>
  \<open>B i\<close> is the list of bucket \<open>i\<close>: the buckets are disjoint rings, each ordered
  strictly by key, every entry is in the bucket its key hashes to, and the counter is the number of
  entries.
\<close>

definition ht_ok :: "bmem \<Rightarrow> HASH_TABLE \<Rightarrow> lmem \<Rightarrow> (nat \<Rightarrow> ADDR list) \<Rightarrow> bool" where
  "ht_ok b ht m B \<longleftrightarrow> MaxKeys ht \<noteq> 0
     \<and> (\<forall>i < unat (MaxKeys ht). is_list m (Entries ht (of_nat i)) (B i))
     \<and> (\<forall>i < unat (MaxKeys ht). \<forall>j < unat (MaxKeys ht). i \<noteq> j \<longrightarrow> ring ht B i \<inter> ring ht B j = {})
     \<and> (\<forall>i < unat (MaxKeys ht). list_all (entry_ok b ht) (B i)
          \<and> sorted_wrt (<) (map (entry_value b ht) (B i))
          \<and> (\<forall>e \<in> set (B i). HashFunc ht b (HashTableObtainKeyAddress ht e) (KeySize ht) (MaxKeys ht)
                = Some (of_nat i)))
     \<and> NumberOfElements ht = of_nat (\<Sum>i < unat (MaxKeys ht). length (B i))"

lemma table_fields_count [simp]:
  "Entries (ht\<lparr>NumberOfElements := c\<rparr>) = Entries ht"
  "entry_ok b (ht\<lparr>NumberOfElements := c\<rparr>) = entry_ok b ht"
  "entry_value b (ht\<lparr>NumberOfElements := c\<rparr>) = entry_value b ht"
  "HashTableObtainKeyAddress (ht\<lparr>NumberOfElements := c\<rparr>) = HashTableObtainKeyAddress ht"
  "ring (ht\<lparr>NumberOfElements := c\<rparr>) = ring ht"
  "elements (ht\<lparr>NumberOfElements := c\<rparr>) = elements ht"
  by (auto simp: Entries_def entry_ok_def entry_value_def HashTableObtainKeyAddress_def ring_def
      elements_def fun_eq_iff)

lemma sum_length_upd:
  assumes "i < (n::nat)"
  shows "(\<Sum>j < n. length ((B(i := xs)) j)) + length (B i) = (\<Sum>j < n. length (B j)) + length xs"
proof -
  have s: "sum f {..<n} = f i + sum f ({..<n} - {i})" for f :: "nat \<Rightarrow> nat"
    using assms by (intro sum.remove) auto
  have "(\<Sum>j \<in> {..<n} - {i}. length ((B(i := xs)) j)) = (\<Sum>j \<in> {..<n} - {i}. length (B j))"
    by (intro sum.cong) auto
  then show ?thesis
    using s [of "\<lambda>j. length ((B(i := xs)) j)"] s [of "\<lambda>j. length (B j)"] by simp
qed

definition others :: "HASH_TABLE \<Rightarrow> (nat \<Rightarrow> ADDR list) \<Rightarrow> nat \<Rightarrow> ADDR set" where
  "others ht B i = (\<Union>j \<in> {..<unat (MaxKeys ht)} - {i}. set (B j))"

lemma elements_split: "i < unat (MaxKeys ht) \<Longrightarrow> elements ht B = set (B i) \<union> others ht B i"
  by (auto simp: elements_def others_def)

lemma others_upd [simp]: "others ht (B(i := xs)) i = others ht B i"
  by (auto simp: others_def)

lemma elements_upd: "i < unat (MaxKeys ht) \<Longrightarrow> elements ht (B(i := xs)) = set xs \<union> others ht B i"
  by (simp add: elements_split)

text \<open>Changing one bucket.\<close>

lemma ht_ok_update:
  assumes ok: "ht_ok b ht m B" and i: "i < unat (MaxKeys ht)"
    and l: "is_list m' (Entries ht (of_nat i)) xs" and u: "untouched m m' A" and A: "A \<subseteq> ring ht B i \<union> N"
    and N: "\<forall>j < unat (MaxKeys ht). j \<noteq> i \<longrightarrow> N \<inter> ring ht B j = {}"
    and xs: "set xs \<subseteq> set (B i) \<union> N" "list_all (entry_ok b ht) xs" "sorted_wrt (<) (map (entry_value b ht) xs)"
      "\<forall>e \<in> set xs. HashFunc ht b (HashTableObtainKeyAddress ht e) (KeySize ht) (MaxKeys ht) = Some (of_nat i)"
    and c: "c = of_nat (\<Sum>j < unat (MaxKeys ht). length ((B(i := xs)) j))"
  shows "ht_ok b (ht\<lparr>NumberOfElements := c\<rparr>) m' (B(i := xs))"
proof -
  have ri: "ring ht (B(i := xs)) i \<subseteq> ring ht B i \<union> N"
    using xs(1) by (auto simp: ring_def)
  have rj: "ring ht (B(i := xs)) j = ring ht B j" if "j \<noteq> i" for j
    using that by (auto simp: ring_def)
  have dis: "(ring ht B i \<union> N) \<inter> ring ht B j = {}" if "j < unat (MaxKeys ht)" "j \<noteq> i" for j
  proof -
    have "ring ht B i \<inter> ring ht B j = {}" using ok i that by (simp add: ht_ok_def)
    with N that show ?thesis by blast
  qed
  have lists: "is_list m' (Entries ht (of_nat j)) ((B(i := xs)) j)" if "j < unat (MaxKeys ht)" for j
  proof (cases "j = i")
    case False
    have "is_list m (Entries ht (of_nat j)) (B j)" using ok that by (simp add: ht_ok_def)
    moreover have "A \<inter> set (Entries ht (of_nat j) # B j) = {}"
      using dis [OF that False] A unfolding ring_def by blast
    ultimately show ?thesis using is_list_untouched [OF _ u] False by simp
  qed (simp add: l)
  have rings: "ring ht (B(i := xs)) j \<inter> ring ht (B(i := xs)) k = {}"
    if "j < unat (MaxKeys ht)" "k < unat (MaxKeys ht)" "j \<noteq> k" for j k
  proof -
    have "j \<noteq> k" by (rule that(3))
    then consider "j = i" "k \<noteq> i" | "k = i" "j \<noteq> i" | "j \<noteq> i" "k \<noteq> i" by blast
    then show ?thesis
    proof cases
      case 1
      with ri rj [of k] dis [OF that(2)] show ?thesis by auto
    next
      case 2
      with ri rj [of j] dis [OF that(1)] show ?thesis by auto
    next
      case 3
      with ok that rj show ?thesis by (simp add: ht_ok_def)
    qed
  qed
  have rest: "list_all (entry_ok b ht) ((B(i := xs)) j) \<and> sorted_wrt (<) (map (entry_value b ht) ((B(i := xs)) j))
      \<and> (\<forall>e \<in> set ((B(i := xs)) j). HashFunc ht b (HashTableObtainKeyAddress ht e) (KeySize ht) (MaxKeys ht)
            = Some (of_nat j))" if "j < unat (MaxKeys ht)" for j
    using ok that xs by (auto simp: ht_ok_def)
  show ?thesis
    using ok lists rings rest c by (simp add: ht_ok_def del: fun_upd_apply)
qed


section \<open>What the operations do to the set of entries\<close>

lemma list_replace:
  assumes l: "is_list m h (ps @ x # es)" and e: "e \<notin> set (h # ps @ x # es)" "e \<noteq> NULL" "m e \<noteq> None"
  shows "\<exists>m1 m2. InsertHeadList m x e = Some m1 \<and> RemoveEntryList m1 x = Some (False, m2)
    \<and> is_list m2 h (ps @ e # es) \<and> untouched m m2 (insert e (set (h # ps @ x # es)))"
proof -
  obtain m1 where m1: "InsertHeadList m x e = Some m1" "is_list m1 h ((ps @ [x]) @ e # es)"
    "untouched m m1 (insert e (set (h # (ps @ [x]) @ es)))"
    using InsertHeadList_after [of m h "ps @ [x]" es e] assms by auto
  obtain m2 where m2: "RemoveEntryList m1 x = Some (ps @ e # es = [], m2)" "is_list m2 h (ps @ e # es)"
    "untouched m1 m2 (set (h # ps @ e # es))"
    using RemoveEntryList_correct [of m1 h ps x "e # es"] m1(2) by auto
  have "untouched m m2 (insert e (set (h # ps @ x # es)))"
    using untouched_trans [OF m1(3) m2(3)] by (rule untouched_mono) auto
  with m1(1) m2(1,2) show ?thesis by simp
qed

lemma sorted_bucket_search:
  fixes val :: "'a \<Rightarrow> nat"
  assumes "sorted_wrt (<) (map val xs)"
  shows "dropWhile (\<lambda>e. val e < v) xs = [] \<Longrightarrow> \<forall>x \<in> set xs. val x < v"
    and "dropWhile (\<lambda>e. val e < v) xs = e # es \<Longrightarrow>
      (\<forall>x \<in> set (takeWhile (\<lambda>e. val e < v) xs). val x < v) \<and> v \<le> val e \<and> (\<forall>x \<in> set es. val e < val x)"
proof -
  show "dropWhile (\<lambda>e. val e < v) xs = [] \<Longrightarrow> \<forall>x \<in> set xs. val x < v" by simp
  assume d: "dropWhile (\<lambda>e. val e < v) xs = e # es"
  then have "\<not> val e < v" by (metis hd_dropWhile list.distinct(1) list.sel(1))
  moreover have "sorted_wrt (<) (map val (e # es))"
    using assms unfolding d [symmetric] by (metis map_append sorted_wrt_append takeWhile_dropWhile_id)
  ultimately show "(\<forall>x \<in> set (takeWhile (\<lambda>e. val e < v) xs). val x < v) \<and> v \<le> val e \<and> (\<forall>x \<in> set es. val e < val x)"
    by (auto dest: set_takeWhileD)
qed

text \<open>A table whose hash function keeps its contract.\<close>

context hash_function
begin

definition table_ok :: "bmem \<Rightarrow> HASH_TABLE \<Rightarrow> lmem \<Rightarrow> (nat \<Rightarrow> ADDR list) \<Rightarrow> bool" where
  "table_ok b ht m B \<longleftrightarrow> HashFunc ht = hf \<and> ht_ok b ht m B"

lemma table_bucket:
  assumes ok: "table_ok b ht m B" and k: "key_ok b (KeySize ht) k"
  shows "HashFunc ht b k (KeySize ht) (MaxKeys ht) = Some (of_nat (home b ht k))"
    and "home b ht k < unat (MaxKeys ht)"
    and "is_list m (Entries ht (of_nat (home b ht k))) (B (home b ht k))"
    and "list_all (entry_ok b ht) (B (home b ht k))"
    and "sorted_wrt (<) (map (entry_value b ht) (B (home b ht k)))"
    and "e \<in> others ht B (home b ht k) \<Longrightarrow> entry_value b ht e \<noteq> key_value b (KeySize ht) k"
proof -
  have n: "MaxKeys ht \<noteq> 0" and hf: "HashFunc ht = hf" using ok by (auto simp: table_ok_def ht_ok_def)
  note h = home_hash [OF k n]
  show "HashFunc ht b k (KeySize ht) (MaxKeys ht) = Some (of_nat (home b ht k))" "home b ht k < unat (MaxKeys ht)"
    using h hf by simp_all
  then show "is_list m (Entries ht (of_nat (home b ht k))) (B (home b ht k))"
    "list_all (entry_ok b ht) (B (home b ht k))"
    "sorted_wrt (<) (map (entry_value b ht) (B (home b ht k)))"
    using ok by (simp_all add: table_ok_def ht_ok_def)
  assume "e \<in> others ht B (home b ht k)"
  then obtain j where j: "j < unat (MaxKeys ht)" "j \<noteq> home b ht k" "e \<in> set (B j)" by (auto simp: others_def)
  let ?k = "HashTableObtainKeyAddress ht e"
  have e: "entry_ok b ht e" "hf b ?k (KeySize ht) (MaxKeys ht) = Some (of_nat j)"
    using ok j hf by (auto simp: table_ok_def ht_ok_def list_all_iff)
  have "unat (of_nat j :: QWORD) = j"
    using j(1) unat32_bound [of "MaxKeys ht"] by (intro unat_of_nat_small) simp
  then have "home b ht ?k = j" using e(2) by (simp add: home_def)
  with j(2) home_of_value [of b ht ?k k] e(1) k show "entry_value b ht e \<noteq> key_value b (KeySize ht) k"
    by (auto simp: entry_ok_def entry_value_def)
qed

lemma HashTableLookup_result:
  assumes ok: "table_ok b ht m B" and k: "key_ok b (KeySize ht) k"
  shows "\<exists>r. HashTableLookup b ht m k = Some r
    \<and> (r \<noteq> NULL \<longrightarrow> r \<in> elements ht B \<and> entry_value b ht r = key_value b (KeySize ht) k)
    \<and> (r = NULL \<longrightarrow> (\<forall>e \<in> elements ht B. entry_value b ht e \<noteq> key_value b (KeySize ht) k))"
proof -
  let ?i = "home b ht k" let ?v = "key_value b (KeySize ht) k"
  note t = table_bucket [OF ok k]
  let ?P = "\<lambda>e. entry_value b ht e < ?v"
  note search = SearchKeyInBucket_result [OF t(3,4) k t(5), unfolded Let_def]
  have el: "elements ht B = set (B ?i) \<union> others ht B ?i" by (rule elements_split [OF t(2)])
  have lk: "HashTableLookup b ht m k = do {
      (found, p) \<leftarrow> HashTableSearchKeyInBucket b ht m (Entries ht (of_nat ?i)) k;
      Some (if found then p else NULL) }"
    using t(1) k by (simp add: HashTableLookup_def key_ok_def)
  show ?thesis
  proof (cases "dropWhile ?P (B ?i)")
    case Nil
    then have "HashTableLookup b ht m k = Some NULL" unfolding lk search Nil by simp
    moreover have "\<forall>x \<in> set (B ?i). entry_value b ht x < ?v" using sorted_bucket_search(1) [OF t(5) Nil] .
    ultimately show ?thesis using t(6) el by auto
  next
    case (Cons e es)
    note sb = sorted_bucket_search(2) [OF t(5) Cons]
    have set: "set (B ?i) = set (takeWhile ?P (B ?i)) \<union> set (e # es)"
      by (metis Cons set_append takeWhile_dropWhile_id)
    have r: "HashTableLookup b ht m k = Some (if entry_value b ht e = ?v then e else NULL)"
      unfolding lk search Cons by simp
    have "e \<noteq> NULL" using t(3) set by (auto simp: is_list_def)
    show ?thesis
    proof (cases "entry_value b ht e = ?v")
      case True
      with r set el \<open>e \<noteq> NULL\<close> show ?thesis by auto
    next
      case False
      then have "\<forall>x \<in> set (B ?i). entry_value b ht x \<noteq> ?v" using sb unfolding set by fastforce
      with False r el t(6) show ?thesis by auto
    qed
  qed
qed

text \<open>What a bucket must be after \<open>e\<close> was put between \<open>ps\<close> and \<open>qs\<close>.\<close>

lemma bucket_insert_ok:
  assumes ok: "table_ok b ht m B" and e: "entry_ok b ht e"
    and i: "i = home b ht (HashTableObtainKeyAddress ht e)"
    and sub: "set ps \<union> set qs \<subseteq> set (B i)" and sorted: "sorted_wrt (<) (map (entry_value b ht) (ps @ qs))"
    and less: "\<forall>x \<in> set ps. entry_value b ht x < entry_value b ht e" "\<forall>x \<in> set qs. entry_value b ht e < entry_value b ht x"
    and l: "is_list m' (Entries ht (of_nat i)) (ps @ e # qs)" and u: "untouched m m' (insert e (ring ht B i))"
    and new: "\<forall>j < unat (MaxKeys ht). e \<notin> ring ht B j"
    and c: "c = of_nat (\<Sum>j < unat (MaxKeys ht). length ((B(i := ps @ e # qs)) j))"
  shows "table_ok b (ht\<lparr>NumberOfElements := c\<rparr>) m' (B(i := ps @ e # qs))"
proof -
  have k: "key_ok b (KeySize ht) (HashTableObtainKeyAddress ht e)" using e by (simp add: entry_ok_def)
  note t = table_bucket [OF ok k, folded i]
  have "list_all (entry_ok b ht) (ps @ e # qs)" using t(4) e sub by (auto simp: list_all_iff)
  moreover have "sorted_wrt (<) (map (entry_value b ht) (ps @ e # qs))"
    using sorted less by (auto simp: sorted_wrt_append)
  moreover have "\<forall>x \<in> set (ps @ e # qs).
      HashFunc ht b (HashTableObtainKeyAddress ht x) (KeySize ht) (MaxKeys ht) = Some (of_nat i)"
    using t(1,2) ok sub by (auto simp: table_ok_def ht_ok_def)
  moreover have "\<forall>j < unat (MaxKeys ht). j \<noteq> i \<longrightarrow> {e} \<inter> ring ht B j = {}" using new by blast
  moreover have "set (ps @ e # qs) \<subseteq> set (B i) \<union> {e}" using sub by auto
  moreover have "insert e (ring ht B i) \<subseteq> ring ht B i \<union> {e}" by blast
  moreover have "ht_ok b ht m B" using ok by (simp add: table_ok_def)
  ultimately have "ht_ok b (ht\<lparr>NumberOfElements := c\<rparr>) m' (B(i := ps @ e # qs))"
    using t(2) l u c by (intro ht_ok_update [where N = "{e}" and A = "insert e (ring ht B i)" and m = m]) auto
  with ok show ?thesis by (simp add: table_ok_def)
qed

definition insert_spec :: "bmem \<Rightarrow> HASH_TABLE \<Rightarrow> (nat \<Rightarrow> ADDR list) \<Rightarrow> ADDR \<Rightarrow> ADDR \<Rightarrow> ADDR set \<Rightarrow> bool" where
  "insert_spec b ht B e old S \<longleftrightarrow>
     S = insert e {x \<in> elements ht B. entry_value b ht x \<noteq> entry_value b ht e}
     \<and> (old \<noteq> NULL \<longrightarrow> old \<in> elements ht B \<and> entry_value b ht old = entry_value b ht e)
     \<and> (old = NULL \<longrightarrow> (\<forall>x \<in> elements ht B. entry_value b ht x \<noteq> entry_value b ht e))"

lemma HashTableInsert_result:
  assumes ok: "table_ok b ht m B" and e: "entry_ok b ht e" "e \<noteq> NULL" "m e \<noteq> None"
    and new: "\<forall>j < unat (MaxKeys ht). e \<notin> ring ht B j"
  shows "\<exists>old c m' B'. HashTableInsert b ht m e = Some (old, ht\<lparr>NumberOfElements := c\<rparr>, m')
    \<and> table_ok b (ht\<lparr>NumberOfElements := c\<rparr>) m' B' \<and> dom m' = dom m
    \<and> insert_spec b ht B e old (elements ht B')"
proof -
  let ?k = "HashTableObtainKeyAddress ht e" let ?v = "entry_value b ht e"
  define i where "i = home b ht ?k"
  have k: "key_ok b (KeySize ht) ?k" and v: "key_value b (KeySize ht) ?k = ?v"
    using e(1) by (simp_all add: entry_ok_def entry_value_def)
  note t = table_bucket [OF ok k, folded i_def, unfolded v]
  let ?h = "Entries ht (of_nat i)" let ?P = "\<lambda>x. entry_value b ht x < ?v"
  define ps rest where "ps = takeWhile ?P (B i)" and "rest = dropWhile ?P (B i)"
  have Bi: "B i = ps @ rest" by (simp add: ps_def rest_def)
  note search = SearchKeyInBucket_result [OF t(3,4) k t(5), unfolded Let_def v, folded ps_def rest_def]
  have range: "(of_nat i :: QWORD) < ucast (MaxKeys ht)"
  proof -
    have "unat (of_nat i :: QWORD) = i"
      using t(2) unat32_bound [of "MaxKeys ht"] by (intro unat_of_nat_small) simp
    with t(2) show ?thesis by (simp add: word_less_nat_alt)
  qed
  have ins: "HashTableInsert b ht m e = do {
      (found, place) \<leftarrow> HashTableSearchKeyInBucket b ht m ?h ?k;
      m \<leftarrow> InsertHeadList m place e;
      if found then do { (z, m) \<leftarrow> RemoveEntryList m place; Some (place, ht, m) }
      else Some (NULL, ht\<lparr>NumberOfElements := NumberOfElements ht + 1\<rparr>, m) }"
    using t(1) e(2) range by (simp add: HashTableInsert_def)
  have el: "elements ht B = set (B i) \<union> others ht B i" by (rule elements_split [OF t(2)])
  have ps: "\<forall>x \<in> set ps. entry_value b ht x < ?v" by (auto simp: ps_def dest: set_takeWhileD)
  have fresh: "e \<notin> set (?h # B i)" using new t(2) by (auto simp: ring_def)
  have cnt: "NumberOfElements ht = of_nat (\<Sum>j < unat (MaxKeys ht). length (B j))"
    using ok by (simp add: table_ok_def ht_ok_def)
  show ?thesis
  proof (cases "rest \<noteq> [] \<and> entry_value b ht (hd rest) = ?v")
    case True
    then obtain x es where rest: "rest = x # es" "entry_value b ht x = ?v" by (cases rest) auto
    have gt: "\<forall>y \<in> set es. ?v < entry_value b ht y"
      using t(5) rest by (auto simp: Bi sorted_wrt_append)
    obtain m1 m2 where m2: "InsertHeadList m x e = Some m1" "RemoveEntryList m1 x = Some (False, m2)"
      "is_list m2 ?h (ps @ e # es)" "untouched m m2 (insert e (set (?h # ps @ x # es)))"
      using list_replace [of m ?h ps x es e] t(3) e fresh by (auto simp: Bi rest)
    then have u: "untouched m m2 (insert e (ring ht B i))" by (simp add: ring_def Bi rest)
    have "(\<Sum>j < unat (MaxKeys ht). length ((B(i := ps @ e # es)) j)) = (\<Sum>j < unat (MaxKeys ht). length (B j))"
      using sum_length_upd [OF t(2), of B "ps @ e # es"] by (simp add: Bi rest)
    then have "table_ok b (ht\<lparr>NumberOfElements := NumberOfElements ht\<rparr>) m2 (B(i := ps @ e # es))"
      using t(5) ps gt m2(3) u new cnt e(1) ok
      by (intro bucket_insert_ok) (auto simp: i_def [symmetric] Bi rest sorted_wrt_append)
    moreover have "HashTableInsert b ht m e = Some (x, ht\<lparr>NumberOfElements := NumberOfElements ht\<rparr>, m2)"
      unfolding ins search by (simp add: rest m2(1,2))
    moreover have "x \<noteq> NULL" using t(3) by (auto simp: is_list_def Bi rest)
    moreover have "insert_spec b ht B e x (elements ht (B(i := ps @ e # es)))"
      using t(6) ps gt rest el \<open>x \<noteq> NULL\<close>
      by (auto simp: insert_spec_def elements_upd [OF t(2)] Bi)
    moreover have "dom m2 = dom m" using u by (simp add: untouched_def)
    ultimately show ?thesis by blast
  next
    case False
    have gt: "\<forall>y \<in> set rest. ?v < entry_value b ht y"
    proof (cases rest)
      case (Cons x es)
      then show ?thesis
        using sorted_bucket_search(2) [OF t(5), of ?v x es] False by (auto simp: rest_def [symmetric])
    qed simp
    have s: "HashTableSearchKeyInBucket b ht m ?h ?k = Some (False, last (?h # ps))"
      using search False by (auto split: list.splits)
    obtain m1 where m1: "InsertHeadList m (last (?h # ps)) e = Some m1" "is_list m1 ?h (ps @ e # rest)"
      "untouched m m1 (insert e (set (?h # ps @ rest)))"
      using InsertHeadList_after [of m ?h ps rest e] t(3) e fresh by (auto simp: Bi)
    have u: "untouched m m1 (insert e (ring ht B i))" using m1(3) by (simp add: ring_def Bi)
    have "(\<Sum>j < unat (MaxKeys ht). length ((B(i := ps @ e # rest)) j)) = (\<Sum>j < unat (MaxKeys ht). length (B j)) + 1"
      using sum_length_upd [OF t(2), of B "ps @ e # rest"] by (simp add: Bi)
    then have "table_ok b (ht\<lparr>NumberOfElements := NumberOfElements ht + 1\<rparr>) m1 (B(i := ps @ e # rest))"
      using t(5) ps gt m1(2) u new cnt e(1) ok
      by (intro bucket_insert_ok) (auto simp: i_def [symmetric] Bi)
    moreover have "HashTableInsert b ht m e = Some (NULL, ht\<lparr>NumberOfElements := NumberOfElements ht + 1\<rparr>, m1)"
      unfolding ins s using m1(1) by simp
    moreover have "insert_spec b ht B e NULL (elements ht (B(i := ps @ e # rest)))"
      using t(6) ps gt el by (auto simp: insert_spec_def elements_upd [OF t(2)] Bi)
    moreover have "dom m1 = dom m" using u by (simp add: untouched_def)
    ultimately show ?thesis by blast
  qed
qed

lemma RemoveEntry_at:
  assumes ok: "table_ok b ht m B" and i: "i < unat (MaxKeys ht)" and Bi: "B i = ps @ e # qs"
  shows "\<exists>c m'. HashTableRemoveEntry ht m e = Some (ht\<lparr>NumberOfElements := c\<rparr>, m')
    \<and> table_ok b (ht\<lparr>NumberOfElements := c\<rparr>) m' (B(i := ps @ qs)) \<and> untouched m m' (ring ht B i)
    \<and> elements ht (B(i := ps @ qs)) = elements ht B - {e}"
proof -
  let ?h = "Entries ht (of_nat i)"
  have hok: "ht_ok b ht m B" using ok by (simp add: table_ok_def)
  then have l: "is_list m ?h (ps @ e # qs)" and le: "list_all (entry_ok b ht) (ps @ e # qs)"
    and so: "sorted_wrt (<) (map (entry_value b ht) (ps @ e # qs))"
    and ha: "\<forall>x \<in> set (B i). HashFunc ht b (HashTableObtainKeyAddress ht x) (KeySize ht) (MaxKeys ht) = Some (of_nat i)"
    and cnt: "NumberOfElements ht = of_nat (\<Sum>j < unat (MaxKeys ht). length (B j))"
    using i Bi unfolding ht_ok_def by metis+
  obtain m' where m': "RemoveEntryList m e = Some (ps @ qs = [], m')" "is_list m' ?h (ps @ qs)"
    "untouched m m' (set (?h # ps @ qs))" using RemoveEntryList_correct [OF l] by blast
  have sum: "(\<Sum>j < unat (MaxKeys ht). length (B j)) = Suc (\<Sum>j < unat (MaxKeys ht). length ((B(i := ps @ qs)) j))"
    using sum_length_upd [OF i, of B "ps @ qs"] by (simp add: Bi)
  have "ht_ok b (ht\<lparr>NumberOfElements := NumberOfElements ht - 1\<rparr>) m' (B(i := ps @ qs))"
  proof (rule ht_ok_update [OF hok i m'(2,3), where N = "{}"])
    show "NumberOfElements ht - 1 = of_nat (\<Sum>j < unat (MaxKeys ht). length ((B(i := ps @ qs)) j))"
      unfolding cnt sum by simp
  qed (use Bi le so ha in \<open>auto simp: ring_def sorted_wrt_append\<close>)
  moreover have "untouched m m' (ring ht B i)"
    using m'(3) by (rule untouched_mono) (auto simp: ring_def Bi)
  moreover have "e \<notin> set (ps @ qs)" using l by (auto simp: is_list_def)
  moreover have "e \<notin> others ht B i"
    using hok i Bi by (fastforce simp: ht_ok_def others_def ring_def)
  moreover have "e \<noteq> NULL" using l by (auto simp: is_list_def)
  ultimately show ?thesis
    using ok m'(1) by (auto simp: HashTableRemoveEntry_def table_ok_def elements_upd [OF i] elements_split [OF i] Bi)
qed

lemma HashTableRemoveEntry_result:
  assumes ok: "table_ok b ht m B" and e: "e \<in> elements ht B"
  shows "\<exists>c m' B'. HashTableRemoveEntry ht m e = Some (ht\<lparr>NumberOfElements := c\<rparr>, m')
    \<and> table_ok b (ht\<lparr>NumberOfElements := c\<rparr>) m' B' \<and> dom m' = dom m \<and> elements ht B' = elements ht B - {e}"
proof -
  obtain i where i: "i < unat (MaxKeys ht)" "e \<in> set (B i)" using e by (auto simp: elements_def)
  then obtain ps qs where "B i = ps @ e # qs" by (meson split_list)
  from RemoveEntry_at [OF ok i(1) this] show ?thesis unfolding untouched_def by blast
qed

lemma elements_same_value:
  assumes "table_ok b ht m B" "x \<in> elements ht B" "y \<in> elements ht B" "entry_value b ht x = entry_value b ht y"
  shows "x = y"
proof -
  obtain i where i: "i < unat (MaxKeys ht)" "x \<in> set (B i)" using assms(2) by (auto simp: elements_def)
  have k: "key_ok b (KeySize ht) (HashTableObtainKeyAddress ht x)" and
    h: "hf b (HashTableObtainKeyAddress ht x) (KeySize ht) (MaxKeys ht) = Some (of_nat i)"
    using assms(1) i by (auto simp: table_ok_def ht_ok_def list_all_iff entry_ok_def)
  have "unat (of_nat i :: QWORD) = i"
    using i(1) unat32_bound [of "MaxKeys ht"] by (intro unat_of_nat_small) simp
  then have home: "home b ht (HashTableObtainKeyAddress ht x) = i" using h by (simp add: home_def)
  note t = table_bucket [OF assms(1) k, unfolded home]
  have "y \<in> set (B i)" using t(6) [of y] assms(3,4) elements_split [OF i(1), of B] by (auto simp: entry_value_def)
  moreover have "distinct (map (entry_value b ht) (B i))" using t(5) by (simp add: strict_sorted_iff)
  ultimately show ?thesis using i(2) assms(4) by (auto simp: distinct_map inj_on_def)
qed

lemma HashTableRemove_result:
  assumes ok: "table_ok b ht m B" and k: "key_ok b (KeySize ht) k"
  shows "\<exists>r c m' B'. HashTableRemove b ht m k = Some (r, ht\<lparr>NumberOfElements := c\<rparr>, m')
    \<and> table_ok b (ht\<lparr>NumberOfElements := c\<rparr>) m' B' \<and> dom m' = dom m
    \<and> elements ht B' = {x \<in> elements ht B. entry_value b ht x \<noteq> key_value b (KeySize ht) k}
    \<and> (r \<noteq> NULL \<longrightarrow> r \<in> elements ht B \<and> entry_value b ht r = key_value b (KeySize ht) k)
    \<and> (r = NULL \<longrightarrow> (\<forall>x \<in> elements ht B. entry_value b ht x \<noteq> key_value b (KeySize ht) k))"
proof -
  let ?v = "key_value b (KeySize ht) k"
  have kn: "k \<noteq> NULL" using k by (simp add: key_ok_def)
  obtain r where r: "HashTableLookup b ht m k = Some r"
    "r \<noteq> NULL \<longrightarrow> r \<in> elements ht B \<and> entry_value b ht r = ?v"
    "r = NULL \<longrightarrow> (\<forall>e \<in> elements ht B. entry_value b ht e \<noteq> ?v)"
    using HashTableLookup_result [OF ok k] by blast
  show ?thesis
  proof (cases "r = NULL")
    case True
    then have "HashTableRemove b ht m k = Some (NULL, ht\<lparr>NumberOfElements := NumberOfElements ht\<rparr>, m)"
      using r(1) kn by (simp add: HashTableRemove_def)
    moreover have "elements ht B = {x \<in> elements ht B. entry_value b ht x \<noteq> ?v}" using True r(3) by auto
    moreover have "table_ok b (ht\<lparr>NumberOfElements := NumberOfElements ht\<rparr>) m B" using ok by simp
    ultimately show ?thesis using True r(3) by blast
  next
    case False
    with r obtain c m' B' where m': "HashTableRemoveEntry ht m r = Some (ht\<lparr>NumberOfElements := c\<rparr>, m')"
      "table_ok b (ht\<lparr>NumberOfElements := c\<rparr>) m' B'" "dom m' = dom m" "elements ht B' = elements ht B - {r}"
      using HashTableRemoveEntry_result [OF ok] by blast
    have "elements ht B' = {x \<in> elements ht B. entry_value b ht x \<noteq> ?v}"
      using m'(4) r(2) False elements_same_value [OF ok] by auto
    moreover have "HashTableRemove b ht m k = Some (r, ht\<lparr>NumberOfElements := c\<rparr>, m')"
      using r(1) kn False m'(1) by (simp add: HashTableRemove_def)
    ultimately show ?thesis using m' r(2) False by blast
  qed
qed

end


section \<open>Initialisation\<close>

lemma Entries_distinct:
  assumes "i < n" "j < n" "16 * n \<le> 2 ^ 64"
  shows "Entries ht (of_nat i) = Entries ht (of_nat j) \<longleftrightarrow> i = j"
proof -
  have "unat (of_nat (16 * i) :: QWORD) = 16 * i" "unat (of_nat (16 * j) :: QWORD) = 16 * j"
    using assms by (intro unat_of_nat_small; simp)+
  then have "(of_nat (16 * i) :: QWORD) = of_nat (16 * j) \<longleftrightarrow> i = j" by (metis mult_left_cancel zero_neq_numeral)
  then show ?thesis by (simp add: Entries_def sizeof_HASH_ENTRY_def mult.commute)
qed

lemma HashTableInit_loop_result:
  assumes "\<forall>j < unat (MaxKeys ht). Entries ht (of_nat j) \<noteq> NULL"
  shows "i \<le> MaxKeys ht \<Longrightarrow> \<forall>j < unat (MaxKeys ht). m (Entries ht (of_nat j)) \<noteq> None \<Longrightarrow>
    \<forall>j < unat i. is_list m (Entries ht (of_nat j)) [] \<Longrightarrow>
    \<exists>m'. HashTableInit_loop ht m i = Some m' \<and> (\<forall>j < unat (MaxKeys ht). is_list m' (Entries ht (of_nat j)) [])
      \<and> dom m' = dom m"
proof (induction "unat (MaxKeys ht) - unat i" arbitrary: i m)
  case 0
  then have "i = MaxKeys ht" by (simp add: word_le_nat_alt word_unat_eq_iff)
  with 0 show ?case by (simp add: HashTableInit_loop.simps)
next
  case (Suc k)
  then have lt: "i < MaxKeys ht" "unat i < unat (MaxKeys ht)" by (simp_all add: word_less_nat_alt)
  then have i1: "unat (i + 1) = Suc (unat i)" by (simp add: unat_inc_below)
  have e: "Entries ht (of_nat (unat i)) = Entries ht (ucast i)" by simp
  obtain m1 where m1: "InitializeListHead m (Entries ht (ucast i)) = Some m1"
    "is_list m1 (Entries ht (ucast i)) []" "untouched m m1 {Entries ht (ucast i)}"
    using InitializeListHead_correct [of m "Entries ht (ucast i)"] Suc.prems(2) assms lt(2) unfolding e [symmetric]
    by blast
  have N: "16 * unat (MaxKeys ht) \<le> 2 ^ 64" using unat32_bound [of "MaxKeys ht"] by simp
  have "is_list m1 (Entries ht (of_nat j)) []" if "j < unat (i + 1)" for j
  proof (cases "j = unat i")
    case False
    then have "Entries ht (of_nat j) \<noteq> Entries ht (ucast i)"
      using Entries_distinct [OF _ _ N, of j "unat i" ht] that lt(2) i1 by simp
    moreover have "is_list m (Entries ht (of_nat j)) []" using False that i1 Suc.prems(3) by simp
    ultimately show ?thesis using is_list_untouched [OF _ m1(3)] by simp
  qed (use m1(2) in simp)
  moreover have "m1 (Entries ht (of_nat j)) \<noteq> None" if "j < unat (MaxKeys ht)" for j
    using untouched_mapped [OF m1(3)] Suc.prems(2) that by blast
  moreover have "k = unat (MaxKeys ht) - unat (i + 1)" "i + 1 \<le> MaxKeys ht"
    using Suc.hyps(2) i1 lt(2) by (auto simp: word_le_nat_alt)
  ultimately obtain m' where m': "HashTableInit_loop ht m1 (i + 1) = Some m'"
    "\<forall>j < unat (MaxKeys ht). is_list m' (Entries ht (of_nat j)) []" "dom m' = dom m1"
    using Suc.hyps(1) [of "i + 1" m1] by blast
  moreover have "dom m1 = dom m" using m1(3) by (simp add: untouched_def)
  ultimately show ?case
    using lt(1) m1(1) by (subst HashTableInit_loop.simps) simp
qed

lemma HashTableInit_result:
  assumes pre: "HashTablePreinit n len = Some (sz, ht0)"
    and td: "td \<noteq> NULL" "unat td + 16 * unat n \<le> 2 ^ 64"
    and mem: "\<forall>j < unat n. m (td + of_nat (16 * j)) \<noteq> None"
  shows "\<exists>ht m'. HashTableInit ht0 m td hf off = Some (ht, m') \<and> ht_ok b ht m' (\<lambda>_. []) \<and> dom m' = dom m
    \<and> MaxKeys ht = n \<and> KeySize ht = len \<and> HashFunc ht = hf \<and> OffsetToKey ht = off \<and> TableData ht = td
    \<and> unat sz = 16 * unat n"
proof -
  let ?ht = "ht0\<lparr>TableData := td, HashFunc := hf, OffsetToKey := off\<rparr>"
  have n: "0 < n" "ucast n < (ucast MAX_DWORD :: QWORD) div 16" and
    ht0: "MaxKeys ht0 = n" "KeySize ht0 = len" "NumberOfElements ht0 = 0" "sz = n * 16"
    using pre by (auto simp: HashTablePreinit_def sizeof_HASH_ENTRY_def split: bind_splits)
  have nb: "unat n * 16 < 2 ^ 32"
    using n(2) by (simp add: word_less_nat_alt unat_div MAX_DWORD_def)
  have ent: "Entries ?ht (of_nat j) = td + of_nat (16 * j)" for j
    by (simp add: Entries_def sizeof_HASH_ENTRY_def mult.commute)
  have nn: "Entries ?ht (of_nat j) \<noteq> NULL" if "j < unat n" for j
  proof -
    have "unat (of_nat (16 * j) :: QWORD) = 16 * j" using that nb by (intro unat_of_nat_small) simp
    then have "unat (td + of_nat (16 * j)) = unat td + 16 * j" using td(2) that by (simp add: unat_word_ariths)
    moreover have "0 < unat td" using td(1) by (simp add: unat_gt_0)
    ultimately show ?thesis unfolding ent by (metis add_gr_0 less_numeral_extra(3) unat_0)
  qed
  have mp: "\<forall>j < unat (MaxKeys ?ht). m (Entries ?ht (of_nat j)) \<noteq> None" using mem ht0(1) unfolding ent by simp
  obtain m' where m': "HashTableInit_loop ?ht m 0 = Some m'"
    "\<forall>j < unat (MaxKeys ?ht). is_list m' (Entries ?ht (of_nat j)) []" "dom m' = dom m"
    using HashTableInit_loop_result [of ?ht 0 m] nn mp ht0(1) by auto
  have "ring ?ht (\<lambda>_. []) i \<inter> ring ?ht (\<lambda>_. []) j = {}" if "i < unat n" "j < unat n" "i \<noteq> j" for i j
    using Entries_distinct [of i "unat n" j ?ht] that nb by (auto simp: ring_def)
  with m'(2) n(1) ht0 have "ht_ok b ?ht m' (\<lambda>_. [])" by (simp add: ht_ok_def)
  moreover have "unat sz = 16 * unat n" using nb ht0(4) by (simp add: unat_word_ariths)
  ultimately show ?thesis using m'(1,3) td(1) ht0 by (simp add: HashTableInit_def)
qed


section \<open>Iteration\<close>

text \<open>The iterator stands in bucket \<open>i\<close> before \<open>ys\<close>.\<close>

definition hit_at :: "HASH_TABLE \<Rightarrow> lmem \<Rightarrow> HASH_ITERATOR \<Rightarrow> nat \<Rightarrow> ADDR list \<Rightarrow> bool" where
  "hit_at ht m it i ys \<longleftrightarrow> i < unat (MaxKeys ht) \<and> unat (KeyIndex it) = i
     \<and> iter_at m (CurrentKeyIterator it) (Entries ht (of_nat i)) ys"

lemma iter_at_elem: "iter_at m it h (y # ys) \<Longrightarrow> y \<noteq> NULL"
  by (auto simp: iter_at_def is_list_def)

lemma hit_at_here:
  assumes "hit_at ht m it i (y # ys)"
  shows "\<exists>it'. HashTableIteratorNext ht m it = Some (y, it') \<and> hit_at ht m it' i ys"
proof -
  obtain cur where "ListIteratorNext m (CurrentKeyIterator it) = Some (y, cur)" "iter_at m cur (Entries ht (of_nat i)) ys"
    using ListIteratorNext_step assms unfolding hit_at_def by blast
  moreover have "y \<noteq> NULL" using assms iter_at_elem unfolding hit_at_def by blast
  ultimately show ?thesis
    using assms by (subst HashTableIteratorNext.simps) (simp add: hit_at_def word_less_nat_alt)
qed

lemma hit_at_skip:
  assumes "hit_at ht m it i []"
  shows "HashTableIteratorNext ht m it = do {
      cur \<leftarrow> ListIteratorInit m (Entries ht (of_nat (Suc i)));
      HashTableIteratorNext ht m \<lparr>KeyIndex = KeyIndex it + 1, CurrentKeyIterator = cur\<rparr> }"
    and "unat (KeyIndex it + 1) = Suc i"
proof -
  have lt: "KeyIndex it < MaxKeys ht" using assms by (simp add: hit_at_def word_less_nat_alt)
  show i1: "unat (KeyIndex it + 1) = Suc i" using unat_inc_below [OF lt] assms by (simp add: hit_at_def)
  have "ucast (KeyIndex it + 1) = (of_nat (Suc i) :: QWORD)"
    using i1 by (metis unsigned_of_nat unat_ucast_up word_unat_eq_iff of_nat_unat)
  moreover have "ListIteratorNext m (CurrentKeyIterator it) = Some (NULL, CurrentKeyIterator it)"
    using assms ListIteratorNext_end unfolding hit_at_def by blast
  ultimately show "HashTableIteratorNext ht m it = do {
      cur \<leftarrow> ListIteratorInit m (Entries ht (of_nat (Suc i)));
      HashTableIteratorNext ht m \<lparr>KeyIndex = KeyIndex it + 1, CurrentKeyIterator = cur\<rparr> }"
    using lt by (subst HashTableIteratorNext.simps) simp
qed

text \<open>The buckets after \<open>i\<close>, in order.\<close>

definition later :: "HASH_TABLE \<Rightarrow> (nat \<Rightarrow> ADDR list) \<Rightarrow> nat \<Rightarrow> ADDR list" where
  "later ht B i = concat (map B [Suc i..<unat (MaxKeys ht)])"

lemma later_Suc: "Suc i < unat (MaxKeys ht) \<Longrightarrow> later ht B i = B (Suc i) @ later ht B (Suc i)"
  by (simp add: later_def upt_conv_Cons)

lemma later_last: "Suc i \<ge> unat (MaxKeys ht) \<Longrightarrow> later ht B i = []"
  by (simp add: later_def)

lemma hit_at_next:
  assumes lists: "\<forall>i < unat (MaxKeys ht). is_list m (Entries ht (of_nat i)) (B i)"
  shows "hit_at ht m it i ys \<Longrightarrow> ys @ later ht B i = r # R \<Longrightarrow>
    \<exists>it' i' ys'. HashTableIteratorNext ht m it = Some (r, it') \<and> hit_at ht m it' i' ys' \<and> ys' @ later ht B i' = R
      \<and> (i' = i \<and> ys = r # ys' \<or> i < i' \<and> ys = [] \<and> B i' = r # ys' \<and> (\<forall>j. i < j \<and> j < i' \<longrightarrow> B j = []))"
proof (induction "unat (MaxKeys ht) - i" arbitrary: i it ys)
  case 0
  then show ?case by (simp add: hit_at_def)
next
  case (Suc n)
  show ?case
  proof (cases ys)
    case (Cons y zs)
    then show ?thesis using hit_at_here [of ht m it i y zs] Suc.prems by auto
  next
    case Nil
    note sk = hit_at_skip [OF Suc.prems(1) [unfolded Nil]]
    have lt: "Suc i < unat (MaxKeys ht)"
      using Suc.prems(2) later_last [of ht i B] Nil by (cases "unat (MaxKeys ht) \<le> Suc i") auto
    then obtain cur where cur: "ListIteratorInit m (Entries ht (of_nat (Suc i))) = Some cur"
      "iter_at m cur (Entries ht (of_nat (Suc i))) (B (Suc i))"
      using ListIteratorInit_correct lists by blast
    let ?it = "\<lparr>KeyIndex = KeyIndex it + 1, CurrentKeyIterator = cur\<rparr>"
    have hit: "hit_at ht m ?it (Suc i) (B (Suc i))" using cur(2) sk(2) lt by (simp add: hit_at_def)
    have R: "B (Suc i) @ later ht B (Suc i) = r # R" using Suc.prems(2) Nil later_Suc [OF lt] by simp
    have "n = unat (MaxKeys ht) - Suc i" using Suc.hyps(2) by simp
    from Suc.hyps(1) [OF this hit R] obtain it' i' ys' where
      r: "HashTableIteratorNext ht m ?it = Some (r, it')" "hit_at ht m it' i' ys'" "ys' @ later ht B i' = R"
      "i' = Suc i \<and> B (Suc i) = r # ys' \<or>
       Suc i < i' \<and> B (Suc i) = [] \<and> B i' = r # ys' \<and> (\<forall>j. Suc i < j \<and> j < i' \<longrightarrow> B j = [])"
      by blast
    have "i < i' \<and> B i' = r # ys' \<and> (\<forall>j. i < j \<and> j < i' \<longrightarrow> B j = [])"
      using r(4) by (auto simp: Suc_lessI) (metis Suc_lessI)
    with r Nil sk(1) cur(1) show ?thesis by auto
  qed
qed

text \<open>At the end the iterator starts on the bucket after the last one.\<close>

lemma hit_at_end:
  "hit_at ht m it i ys \<Longrightarrow> ys @ later ht B i = [] \<Longrightarrow>
   \<forall>i < unat (MaxKeys ht). is_list m (Entries ht (of_nat i)) (B i) \<Longrightarrow>
   HashTableIteratorNext ht m it = do {
     cur \<leftarrow> ListIteratorInit m (Entries ht (of_nat (unat (MaxKeys ht))));
     Some (NULL, \<lparr>KeyIndex = MaxKeys ht, CurrentKeyIterator = cur\<rparr>) }"
proof (induction "unat (MaxKeys ht) - i" arbitrary: i it ys)
  case 0
  then show ?case by (simp add: hit_at_def)
next
  case (Suc n)
  then have ys: "ys = []" and lt: "i < unat (MaxKeys ht)" by (simp_all add: hit_at_def)
  note sk = hit_at_skip [OF Suc.prems(1) [unfolded ys]]
  show ?case
  proof (cases "Suc i < unat (MaxKeys ht)")
    case True
    then obtain cur where cur: "ListIteratorInit m (Entries ht (of_nat (Suc i))) = Some cur"
      "iter_at m cur (Entries ht (of_nat (Suc i))) (B (Suc i))"
      using ListIteratorInit_correct Suc.prems(3) by blast
    then have "hit_at ht m \<lparr>KeyIndex = KeyIndex it + 1, CurrentKeyIterator = cur\<rparr> (Suc i) (B (Suc i))"
      using sk(2) True by (simp add: hit_at_def)
    moreover have "B (Suc i) @ later ht B (Suc i) = []" using Suc.prems(2) later_Suc [OF True, of B] by simp
    moreover have "n = unat (MaxKeys ht) - Suc i" using Suc.hyps(2) by simp
    ultimately have "HashTableIteratorNext ht m \<lparr>KeyIndex = KeyIndex it + 1, CurrentKeyIterator = cur\<rparr> = do {
     cur \<leftarrow> ListIteratorInit m (Entries ht (of_nat (unat (MaxKeys ht))));
     Some (NULL, \<lparr>KeyIndex = MaxKeys ht, CurrentKeyIterator = cur\<rparr>) }"
      using Suc.hyps(1) Suc.prems(3) by blast
    with sk(1) cur(1) show ?thesis by simp
  next
    case False
    with lt have e: "Suc i = unat (MaxKeys ht)" by simp
    then have "KeyIndex it + 1 = MaxKeys ht" using sk(2) by (simp add: word_unat_eq_iff)
    then show ?thesis
      using sk(1) unfolding e by (subst (asm) (2) HashTableIteratorNext.simps) simp
  qed
qed


text \<open>The entries a client sees when it calls the iterator \<open>n\<close> times.\<close>

fun iterate :: "HASH_TABLE \<Rightarrow> lmem \<Rightarrow> nat \<Rightarrow> HASH_ITERATOR \<Rightarrow> (ADDR list \<times> HASH_ITERATOR) option" where
  "iterate ht m 0 it = Some ([], it)"
| "iterate ht m (Suc n) it = do {
     (p, it) \<leftarrow> HashTableIteratorNext ht m it;
     (ps, it) \<leftarrow> iterate ht m n it;
     Some (p # ps, it)
   }"

lemma iterate_snoc:
  "iterate ht m n it = Some (ps, it') \<Longrightarrow>
   iterate ht m (Suc n) it = do { (p, it'') \<leftarrow> HashTableIteratorNext ht m it'; Some (ps @ [p], it'') }"
proof (induction n arbitrary: it ps)
  case (Suc n)
  then obtain p it1 qs where p: "HashTableIteratorNext ht m it = Some (p, it1)"
    "iterate ht m n it1 = Some (qs, it')" "ps = p # qs"
    by (auto split: bind_splits)
  have "iterate ht m (Suc (Suc n)) it = do { (ps, it) \<leftarrow> iterate ht m (Suc n) it1; Some (p # ps, it) }"
    using p(1) by simp
  then show ?case
    unfolding Suc.IH [OF p(2)] using p(3) by (cases "HashTableIteratorNext ht m it'") auto
qed simp

definition all_entries :: "HASH_TABLE \<Rightarrow> (nat \<Rightarrow> ADDR list) \<Rightarrow> ADDR list" where
  "all_entries ht B = concat (map B [0..<unat (MaxKeys ht)])"

lemma all_entries_split: "MaxKeys ht \<noteq> 0 \<Longrightarrow> all_entries ht B = B 0 @ later ht B 0"
  by (simp add: all_entries_def later_def upt_conv_Cons unat_gt_0)

lemma set_all_entries: "set (all_entries ht B) = elements ht B"
  by (auto simp: all_entries_def elements_def)

lemma iterate_all:
  assumes "\<forall>i < unat (MaxKeys ht). is_list m (Entries ht (of_nat i)) (B i)"
  shows "hit_at ht m it i ys \<Longrightarrow> ys @ later ht B i = R \<Longrightarrow>
    \<exists>it' i'. iterate ht m (length R) it = Some (R, it') \<and> hit_at ht m it' i' [] \<and> later ht B i' = []"
proof (induction R arbitrary: it i ys)
  case Nil
  then show ?case by auto
next
  case (Cons r R)
  from hit_at_next [OF assms Cons.prems] obtain it' i' ys' where
    "HashTableIteratorNext ht m it = Some (r, it')" "hit_at ht m it' i' ys'" "ys' @ later ht B i' = R" by blast
  with Cons.IH show ?case by fastforce
qed

lemma HashTableIteratorInit_result:
  assumes "ht_ok b ht m B"
  shows "\<exists>it. HashTableIteratorInit ht m = Some it \<and> hit_at ht m it 0 (B 0)"
proof -
  have "0 < unat (MaxKeys ht)" using assms by (simp add: ht_ok_def unat_gt_0)
  moreover from this have "is_list m (Entries ht (of_nat 0)) (B 0)" using assms unfolding ht_ok_def by blast
  ultimately have n: "0 < unat (MaxKeys ht)" "is_list m (Entries ht (of_nat 0)) (B 0)" by blast+
  with ListIteratorInit_correct [OF n(2)] show ?thesis
    by (auto simp: HashTableIteratorInit_def hit_at_def)
qed

section \<open>Clearing\<close>

lemma later_upd: "i' \<le> i \<Longrightarrow> later ht (B(i' := xs)) i = later ht B i"
  by (auto simp: later_def intro!: arg_cong [where f = concat] map_cong)

lemma ht_ok_empty:
  assumes ok: "ht_ok b ht m B" and B: "\<forall>j < unat (MaxKeys ht). B j = []"
  shows "ht_ok b ht m (\<lambda>_. [])"
proof -
  have r: "ring ht (\<lambda>_. []) j = ring ht B j" if "j < unat (MaxKeys ht)" for j using B that by (simp add: ring_def)
  have "(\<Sum>j < unat (MaxKeys ht). length (B j)) = 0" using B by simp
  then have "NumberOfElements ht = 0" using ok unfolding ht_ok_def by simp
  moreover have "is_list m (Entries ht (of_nat j)) []" if "j < unat (MaxKeys ht)" for j
    using ok B that unfolding ht_ok_def by metis
  ultimately show ?thesis using ok r unfolding ht_ok_def by simp
qed

context hash_function
begin

lemma Clear_loop_result:
  assumes free: "\<And>f e ctx m. FreeFunction = Some f \<Longrightarrow> f e ctx m = Some (up e ctx, m)"
    and up: "FreeFunction = None \<Longrightarrow> up = (\<lambda>e ctx. ctx)"
    and slot: "Entries ht (of_nat (unat (MaxKeys ht))) \<noteq> NULL" "m0 (Entries ht (of_nat (unat (MaxKeys ht)))) \<noteq> None"
  shows "table_ok b (ht\<lparr>NumberOfElements := c\<rparr>) m B \<Longrightarrow> dom m = dom m0 \<Longrightarrow> hit_at ht m it i (B i) \<Longrightarrow>
    \<forall>j < i. B j = [] \<Longrightarrow> B i @ later ht B i = R \<Longrightarrow>
    \<exists>c' m'. HashTableClear_loop FreeFunction (ht\<lparr>NumberOfElements := c\<rparr>) m it ctx
        = Some (ht\<lparr>NumberOfElements := c'\<rparr>, m', fold up R ctx)
      \<and> table_ok b (ht\<lparr>NumberOfElements := c'\<rparr>) m' (\<lambda>_. [])"
proof (induction R arbitrary: c m B it i ctx)
  case Nil
  let ?ht = "ht\<lparr>NumberOfElements := c\<rparr>" let ?e = "Entries ht (of_nat (unat (MaxKeys ht)))"
  have lists: "\<forall>i < unat (MaxKeys ?ht). is_list m (Entries ?ht (of_nat i)) (B i)"
    using Nil.prems(1) by (simp add: table_ok_def ht_ok_def)
  have hit: "hit_at ?ht m it i (B i)" "B i @ later ?ht B i = []" using Nil.prems by (simp_all add: hit_at_def later_def)
  obtain l where "m ?e = Some l" using slot(2) Nil.prems(2) by (metis domD domIff)
  then obtain cur where "ListIteratorInit m ?e = Some cur" using slot(1) by (simp add: ListIteratorInit_def rd_Flink_def)
  then have "HashTableIteratorNext ?ht m it = Some (NULL, \<lparr>KeyIndex = MaxKeys ht, CurrentKeyIterator = cur\<rparr>)"
    using hit_at_end [OF hit lists] by simp
  then have "HashTableClear_loop FreeFunction ?ht m it ctx = Some (?ht, m, ctx)"
    by (subst HashTableClear_loop.simps) simp
  moreover have "\<forall>j < unat (MaxKeys ?ht). B j = []"
    using Nil.prems(4,5) by (auto simp: later_def) (metis Suc_leI atLeastLessThan_iff linorder_neqE_nat)
  then have "table_ok b ?ht m (\<lambda>_. [])" using Nil.prems(1) ht_ok_empty unfolding table_ok_def by blast
  ultimately show ?case by auto
next
  case (Cons r R)
  let ?ht = "ht\<lparr>NumberOfElements := c\<rparr>"
  have lists: "\<forall>i < unat (MaxKeys ?ht). is_list m (Entries ?ht (of_nat i)) (B i)"
    using Cons.prems(1) by (simp add: table_ok_def ht_ok_def)
  have hit: "hit_at ?ht m it i (B i)" "B i @ later ?ht B i = r # R" using Cons.prems by (simp_all add: hit_at_def later_def)
  obtain it' i' ys' where nx: "HashTableIteratorNext ?ht m it = Some (r, it')" "hit_at ?ht m it' i' ys'"
      "ys' @ later ?ht B i' = R" and pos: "i' = i \<and> B i = r # ys' \<or>
        i < i' \<and> B i = [] \<and> B i' = r # ys' \<and> (\<forall>j. i < j \<and> j < i' \<longrightarrow> B j = [])"
    using hit_at_next [OF lists hit] by blast
  have Bi: "B i' = [] @ r # ys'" and before: "\<forall>j < i'. B j = []" and i': "i' < unat (MaxKeys ?ht)"
    using pos Cons.prems(4) nx(2) by (auto simp: hit_at_def) (metis linorder_neqE_nat)
  obtain c' m' where m': "HashTableRemoveEntry ?ht m r = Some (ht\<lparr>NumberOfElements := c'\<rparr>, m')"
    "table_ok b (ht\<lparr>NumberOfElements := c'\<rparr>) m' (B(i' := ys'))" "untouched m m' (ring ht B i')"
    using RemoveEntry_at [OF Cons.prems(1) i' Bi] by auto
  have "is_list m' (Entries ht (of_nat i')) ys'"
    using m'(2) i' by (auto simp: table_ok_def ht_ok_def dest!: spec [of _ i'])
  then have "iter_at m' (CurrentKeyIterator it') (Entries ht (of_nat i')) ys'"
    using nx(2) by (auto simp: hit_at_def iter_at_def intro: exI [of _ "[]"])
  then have "hit_at ht m' it' i' ((B(i' := ys')) i')" using nx(2) by (simp add: hit_at_def)
  moreover have "dom m' = dom m0" using m'(3) Cons.prems(2) by (simp add: untouched_def)
  moreover have "(B(i' := ys')) i' @ later ht (B(i' := ys')) i' = R" using nx(3) by (simp add: later_upd) (simp add: later_def)
  moreover have "\<forall>j < i'. (B(i' := ys')) j = []" using before by simp
  ultimately obtain c2 m2 where fin: "HashTableClear_loop FreeFunction (ht\<lparr>NumberOfElements := c'\<rparr>) m' it' (up r ctx)
      = Some (ht\<lparr>NumberOfElements := c2\<rparr>, m2, fold up R (up r ctx))"
    "table_ok b (ht\<lparr>NumberOfElements := c2\<rparr>) m2 (\<lambda>_. [])"
    using Cons.IH [OF m'(2), of it' i' "up r ctx"] by blast
  have "r \<noteq> NULL" using lists i' Bi by (auto simp: is_list_def dest!: spec [of _ i'])
  moreover have "(case FreeFunction of None \<Rightarrow> Some (ctx, m') | Some f \<Rightarrow> f r ctx m') = Some (up r ctx, m')"
    using free up by (cases FreeFunction) auto
  ultimately have "HashTableClear_loop FreeFunction ?ht m it ctx
      = Some (ht\<lparr>NumberOfElements := c2\<rparr>, m2, fold up (r # R) ctx)"
    using fin(1) nx(1) m'(1) by (subst HashTableClear_loop.simps) simp
  with fin(2) show ?case by blast
qed

text \<open>
  Sequences of calls. \<open>S\<close> is the set of entries in the table, as a client sees it; the client
  inserts only entries that are not in it and not bucket heads.
\<close>

lemma elements_not_heads:
  assumes "table_ok b ht m B" "e \<in> elements ht B" "i < unat (MaxKeys ht)"
  shows "e \<noteq> Entries ht (of_nat i)"
proof -
  obtain j where j: "j < unat (MaxKeys ht)" "e \<in> set (B j)" using assms(2) by (auto simp: elements_def)
  show ?thesis
  proof (cases "i = j")
    case True
    then show ?thesis using assms j by (auto simp: table_ok_def ht_ok_def is_list_def)
  next
    case False
    then have "ring ht B i \<inter> ring ht B j = {}" using assms j by (simp add: table_ok_def ht_ok_def)
    with j(2) show ?thesis by (auto simp: ring_def)
  qed
qed

end

datatype hash_op = HInsert ADDR | HLookup ADDR | HRemove ADDR | HRemoveEntry ADDR

fun hash_step :: "bmem \<Rightarrow> hash_op \<Rightarrow> HASH_TABLE \<times> lmem \<Rightarrow> (ADDR \<times> HASH_TABLE \<times> lmem) option" where
  "hash_step b (HInsert e) (ht, m) = HashTableInsert b ht m e"
| "hash_step b (HLookup k) (ht, m) = do { r \<leftarrow> HashTableLookup b ht m k; Some (r, ht, m) }"
| "hash_step b (HRemove k) (ht, m) = HashTableRemove b ht m k"
| "hash_step b (HRemoveEntry e) (ht, m) = do { (ht, m) \<leftarrow> HashTableRemoveEntry ht m e; Some (e, ht, m) }"

fun hash_run :: "bmem \<Rightarrow> hash_op list \<Rightarrow> HASH_TABLE \<times> lmem \<Rightarrow> (ADDR list \<times> HASH_TABLE \<times> lmem) option" where
  "hash_run b [] s = Some ([], s)"
| "hash_run b (op # ops) s = do {
     (r, s) \<leftarrow> hash_step b op s;
     (rs, s) \<leftarrow> hash_run b ops s;
     Some (r # rs, s)
   }"

text \<open>The same calls on the set of entries: a call is allowed, what it may return, and the new set.\<close>

definition holds_key :: "bmem \<Rightarrow> HASH_TABLE \<Rightarrow> ADDR set \<Rightarrow> nat \<Rightarrow> ADDR \<Rightarrow> bool" where
  "holds_key b ht S v r \<longleftrightarrow> (if r = NULL then (\<forall>x \<in> S. entry_value b ht x \<noteq> v) else r \<in> S \<and> entry_value b ht r = v)"

fun op_allowed :: "bmem \<Rightarrow> HASH_TABLE \<Rightarrow> ADDR set \<Rightarrow> ADDR set \<Rightarrow> hash_op \<Rightarrow> bool" where
  "op_allowed b ht D S (HInsert e) \<longleftrightarrow> entry_ok b ht e \<and> e \<noteq> NULL \<and> e \<in> D \<and> e \<notin> S
     \<and> (\<forall>i < unat (MaxKeys ht). e \<noteq> Entries ht (of_nat i))"
| "op_allowed b ht D S (HLookup k) \<longleftrightarrow> key_ok b (KeySize ht) k"
| "op_allowed b ht D S (HRemove k) \<longleftrightarrow> key_ok b (KeySize ht) k"
| "op_allowed b ht D S (HRemoveEntry e) \<longleftrightarrow> e \<in> S"

fun op_result :: "bmem \<Rightarrow> HASH_TABLE \<Rightarrow> ADDR set \<Rightarrow> hash_op \<Rightarrow> ADDR \<Rightarrow> bool" where
  "op_result b ht S (HInsert e) r = holds_key b ht S (entry_value b ht e) r"
| "op_result b ht S (HLookup k) r = holds_key b ht S (key_value b (KeySize ht) k) r"
| "op_result b ht S (HRemove k) r = holds_key b ht S (key_value b (KeySize ht) k) r"
| "op_result b ht S (HRemoveEntry e) r = (r = e)"

fun op_next :: "bmem \<Rightarrow> HASH_TABLE \<Rightarrow> ADDR set \<Rightarrow> hash_op \<Rightarrow> ADDR set" where
  "op_next b ht S (HInsert e) = insert e {x \<in> S. entry_value b ht x \<noteq> entry_value b ht e}"
| "op_next b ht S (HLookup k) = S"
| "op_next b ht S (HRemove k) = {x \<in> S. entry_value b ht x \<noteq> key_value b (KeySize ht) k}"
| "op_next b ht S (HRemoveEntry e) = S - {e}"

fun ops_allowed :: "bmem \<Rightarrow> HASH_TABLE \<Rightarrow> ADDR set \<Rightarrow> ADDR set \<Rightarrow> hash_op list \<Rightarrow> bool" where
  "ops_allowed b ht D S [] \<longleftrightarrow> True"
| "ops_allowed b ht D S (op # ops) \<longleftrightarrow> op_allowed b ht D S op \<and> ops_allowed b ht D (op_next b ht S op) ops"

fun ops_results :: "bmem \<Rightarrow> HASH_TABLE \<Rightarrow> ADDR set \<Rightarrow> hash_op list \<Rightarrow> ADDR list \<Rightarrow> bool" where
  "ops_results b ht S [] rs \<longleftrightarrow> rs = []"
| "ops_results b ht S (op # ops) rs \<longleftrightarrow>
     (\<exists>r rs'. rs = r # rs' \<and> op_result b ht S op r \<and> ops_results b ht (op_next b ht S op) ops rs')"

fun ops_next :: "bmem \<Rightarrow> HASH_TABLE \<Rightarrow> ADDR set \<Rightarrow> hash_op list \<Rightarrow> ADDR set" where
  "ops_next b ht S [] = S"
| "ops_next b ht S (op # ops) = ops_next b ht (op_next b ht S op) ops"

lemma spec_fields_count [simp]:
  "holds_key b (ht\<lparr>NumberOfElements := c\<rparr>) = holds_key b ht"
  "op_allowed b (ht\<lparr>NumberOfElements := c\<rparr>) D S op = op_allowed b ht D S op"
  "op_result b (ht\<lparr>NumberOfElements := c\<rparr>) S op r = op_result b ht S op r"
  "op_next b (ht\<lparr>NumberOfElements := c\<rparr>) S op = op_next b ht S op"
  by (cases op; simp add: holds_key_def fun_eq_iff)+

lemma spec_run_fields_count [simp]:
  "ops_allowed b (ht\<lparr>NumberOfElements := c\<rparr>) D S ops = ops_allowed b ht D S ops"
  "ops_results b (ht\<lparr>NumberOfElements := c\<rparr>) S ops rs = ops_results b ht S ops rs"
  "ops_next b (ht\<lparr>NumberOfElements := c\<rparr>) S ops = ops_next b ht S ops"
  by (induction ops arbitrary: S rs) simp_all

context hash_function
begin

lemma hash_step_refines:
  assumes ok: "table_ok b ht m B" and al: "op_allowed b ht (dom m) (elements ht B) op"
  shows "\<exists>r c m' B'. hash_step b op (ht, m) = Some (r, ht\<lparr>NumberOfElements := c\<rparr>, m')
    \<and> table_ok b (ht\<lparr>NumberOfElements := c\<rparr>) m' B' \<and> dom m' = dom m
    \<and> elements ht B' = op_next b ht (elements ht B) op \<and> op_result b ht (elements ht B) op r"
proof (cases op)
  case (HInsert e)
  then have "\<forall>j < unat (MaxKeys ht). e \<notin> ring ht B j" using al by (auto simp: ring_def elements_def)
  with HashTableInsert_result [OF ok, of e] al HInsert obtain old c m' B' where
    r: "HashTableInsert b ht m e = Some (old, ht\<lparr>NumberOfElements := c\<rparr>, m')"
    "table_ok b (ht\<lparr>NumberOfElements := c\<rparr>) m' B'" "dom m' = dom m" "insert_spec b ht B e old (elements ht B')"
    by auto
  then have "elements ht B' = op_next b ht (elements ht B) op" "op_result b ht (elements ht B) op old"
    using HInsert by (auto simp: insert_spec_def holds_key_def)
  with r show ?thesis unfolding HInsert hash_step.simps by blast
next
  case (HLookup k)
  with HashTableLookup_result [OF ok, of k] al obtain r where
    "HashTableLookup b ht m k = Some r" "op_result b ht (elements ht B) op r" by (auto simp: holds_key_def)
  then have "hash_step b op (ht, m) = Some (r, ht\<lparr>NumberOfElements := NumberOfElements ht\<rparr>, m)"
    "table_ok b (ht\<lparr>NumberOfElements := NumberOfElements ht\<rparr>) m B" "op_result b ht (elements ht B) op r"
    "elements ht B = op_next b ht (elements ht B) op" using ok HLookup by simp_all
  then show ?thesis by blast
next
  case (HRemove k)
  then have k: "key_ok b (KeySize ht) k" using al by simp
  obtain r c m' B' where
    r: "HashTableRemove b ht m k = Some (r, ht\<lparr>NumberOfElements := c\<rparr>, m')"
    "table_ok b (ht\<lparr>NumberOfElements := c\<rparr>) m' B'" "dom m' = dom m"
    "elements ht B' = {x \<in> elements ht B. entry_value b ht x \<noteq> key_value b (KeySize ht) k}"
    "r \<noteq> NULL \<longrightarrow> r \<in> elements ht B \<and> entry_value b ht r = key_value b (KeySize ht) k"
    "r = NULL \<longrightarrow> (\<forall>x \<in> elements ht B. entry_value b ht x \<noteq> key_value b (KeySize ht) k)"
    using HashTableRemove_result [OF ok k] by blast
  then have "elements ht B' = op_next b ht (elements ht B) op" "op_result b ht (elements ht B) op r"
    using HRemove by (auto simp: holds_key_def)
  with r show ?thesis unfolding HRemove hash_step.simps by blast
next
  case (HRemoveEntry e)
  with HashTableRemoveEntry_result [OF ok, of e] al obtain c m' B' where
    r: "HashTableRemoveEntry ht m e = Some (ht\<lparr>NumberOfElements := c\<rparr>, m')"
    "table_ok b (ht\<lparr>NumberOfElements := c\<rparr>) m' B'" "dom m' = dom m" "elements ht B' = elements ht B - {e}"
    by auto
  then have "hash_step b op (ht, m) = Some (e, ht\<lparr>NumberOfElements := c\<rparr>, m')"
    "elements ht B' = op_next b ht (elements ht B) op" "op_result b ht (elements ht B) op e"
    using HRemoveEntry by simp_all
  with r show ?thesis by blast
qed

lemma hash_run_refines:
  "table_ok b ht m B \<Longrightarrow> ops_allowed b ht (dom m) (elements ht B) ops \<Longrightarrow>
   \<exists>rs ht' m' B'. hash_run b ops (ht, m) = Some (rs, ht', m') \<and> table_ok b ht' m' B'
    \<and> elements ht' B' = ops_next b ht (elements ht B) ops \<and> ops_results b ht (elements ht B) ops rs"
proof (induction ops arbitrary: ht m B)
  case Nil
  then show ?case by auto
next
  case (Cons op ops)
  from Cons.prems(2) have al: "op_allowed b ht (dom m) (elements ht B) op" by simp
  from hash_step_refines [OF Cons.prems(1) al] obtain r c m1 B1 where
    s: "hash_step b op (ht, m) = Some (r, ht\<lparr>NumberOfElements := c\<rparr>, m1)"
    "table_ok b (ht\<lparr>NumberOfElements := c\<rparr>) m1 B1" "dom m1 = dom m"
    "elements ht B1 = op_next b ht (elements ht B) op" "op_result b ht (elements ht B) op r" by blast
  from Cons.IH [OF s(2)] s(3,4) Cons.prems(2) obtain rs ht' m' B' where
    "hash_run b ops (ht\<lparr>NumberOfElements := c\<rparr>, m1) = Some (rs, ht', m')" "table_ok b ht' m' B'"
    "elements ht' B' = ops_next b ht (op_next b ht (elements ht B) op) ops"
    "ops_results b ht (op_next b ht (elements ht B) op) ops rs" by auto
  with s show ?case by auto
qed

lemma card_elements:
  assumes ok: "table_ok b ht m B"
  shows "HashTableSize ht = of_nat (card (elements ht B))" "distinct (all_entries ht B)"
proof -
  have d: "distinct (map (entry_value b ht) (B i))" if "i < unat (MaxKeys ht)" for i
    using ok that by (simp add: table_ok_def ht_ok_def strict_sorted_iff)
  have dj: "set (B i) \<inter> set (B j) = {}" if "i < unat (MaxKeys ht)" "j < unat (MaxKeys ht)" "i \<noteq> j" for i j
  proof -
    have "ring ht B i \<inter> ring ht B j = {}" using ok that by (simp add: table_ok_def ht_ok_def)
    then show ?thesis by (auto simp: ring_def)
  qed
  show "distinct (all_entries ht B)"
  proof -
    have "distinct (concat (map B [0..<n]))" if "n \<le> unat (MaxKeys ht)" for n
      using that
    proof (induction n)
      case (Suc n)
      have "x \<notin> set (B n)" if "i < n" "x \<in> set (B i)" for i x using dj [of i n] that Suc.prems by auto
      then have "set (concat (map B [0..<n])) \<inter> set (B n) = {}" by auto
      with Suc d [of n] show ?case by (auto simp: distinct_map)
    qed simp
    then show ?thesis by (simp add: all_entries_def)
  qed
  then have "card (elements ht B) = length (all_entries ht B)" by (metis distinct_card set_all_entries)
  also have "\<dots> = (\<Sum>i < unat (MaxKeys ht). length (B i))"
    by (simp add: all_entries_def length_concat o_def interv_sum_list_conv_sum_set_nat lessThan_atLeast0)
  finally show "HashTableSize ht = of_nat (card (elements ht B))"
    using ok by (simp add: HashTableSize_def table_ok_def ht_ok_def)
qed

end


section \<open>Properties\<close>

text \<open>The two hash functions the library offers.\<close>

definition library_hash :: "FUNC_HashFunction \<Rightarrow> bool" where
  "library_hash hf \<longleftrightarrow> hf = HashFuncUniversal \<or> hf = HashFuncGenericIncremental"

text \<open>
  C23. A table built by \<^verbatim>\<open>HashTablePreinit\<close> and \<^verbatim>\<open>HashTableInit\<close> on accessible memory, with
  either hash function, behaves as the set of the entries put into it: any sequence of legal
  calls runs to the end without tripping an assertion, every insertion, lookup and removal
  returns the entry that holds the key (\<^verbatim>\<open>NULL\<close> if there is none), a key is held by at most one
  entry, and the element counter is the number of entries.
\<close>

theorem hash_table_refines_set:
  assumes "library_hash hf" and "HashTablePreinit n len = Some (sz, ht0)"
    and "td \<noteq> NULL" and "unat td + 16 * unat n \<le> 2 ^ 64"
    and "\<forall>j < unat n. m (td + of_nat (16 * j)) \<noteq> None"
    and "HashTableInit ht0 m td hf off = Some (ht, m1)"
    and "ops_allowed b ht (dom m) {} ops"
  shows "\<exists>rs ht' m'. hash_run b ops (ht, m1) = Some (rs, ht', m')
    \<and> ops_results b ht {} ops rs
    \<and> HashTableSize ht' = of_nat (card (ops_next b ht {} ops))"
proof -
  have init: "ht_ok b ht m1 (\<lambda>_. [])" "dom m1 = dom m" "HashFunc ht = hf"
    using HashTableInit_result [OF assms(2-5), of hf off b] assms(6) by auto
  have "hash_function hf"
    using assms(1) incremental.hash_function_axioms universal.hash_function_axioms
    by (auto simp: library_hash_def)
  then have run: "\<exists>rs ht' m' B'. hash_run b ops (ht, m1) = Some (rs, ht', m')
      \<and> hash_function.table_ok hf b ht' m' B'
      \<and> elements ht' B' = ops_next b ht {} ops \<and> ops_results b ht {} ops rs"
    using hash_function.hash_run_refines [of hf b ht m1 "\<lambda>_. []" ops] init assms(7)
    by (simp add: hash_function.table_ok_def elements_def)
  then show ?thesis
    using hash_function.card_elements(1) [OF \<open>hash_function hf\<close>] by metis
qed


definition sample_hash_mem :: lmem where
  "sample_hash_mem = map_of [(0x1000, \<lparr>Flink = 0, Blink = 0\<rparr>), (0x1010, \<lparr>Flink = 0, Blink = 0\<rparr>),
                             (0x2000, \<lparr>Flink = 0, Blink = 0\<rparr>), (0x3000, \<lparr>Flink = 0, Blink = 0\<rparr>)]"

definition sample_keys :: bmem where
  "sample_keys = map_of [(0x2010, 7), (0x2011, 0), (0x3010, 9), (0x3011, 0)]"

lemma sample_key_ok: "key_ok sample_keys 2 0x2010" "key_ok sample_keys 2 0x3010"
  by (simp_all add: key_ok_def mapped_def sample_keys_def all_less_two)

theorem hash_table_refines_set_witness:
  "\<exists>sz ht0 ht m1 rs ht' m'. HashTablePreinit 2 2 = Some (sz, ht0)
     \<and> HashTableInit ht0 sample_hash_mem 0x1000 HashFuncUniversal 16 = Some (ht, m1)
     \<and> hash_run sample_keys [HInsert 0x2000, HLookup 0x2010] (ht, m1) = Some (rs, ht', m')
     \<and> ops_results sample_keys ht {} [HInsert 0x2000, HLookup 0x2010] rs \<and> HashTableSize ht' = 1"
proof -
  obtain sz ht0 where pre: "HashTablePreinit 2 2 = Some (sz, ht0)"
    by (simp add: HashTablePreinit_def sizeof_HASH_ENTRY_def MAX_DWORD_def)
  have mem: "\<forall>j < unat (2::DWORD). sample_hash_mem (0x1000 + of_nat (16 * j)) \<noteq> None"
    by (simp add: all_less_two sample_hash_mem_def)
  obtain ht m1 where ht: "HashTableInit ht0 sample_hash_mem 0x1000 HashFuncUniversal 16 = Some (ht, m1)"
    "MaxKeys ht = 2" "KeySize ht = 2" "OffsetToKey ht = 16" "TableData ht = 0x1000"
    using HashTableInit_result [OF pre _ _ mem, of HashFuncUniversal 16 sample_keys] by auto
  have allowed: "ops_allowed sample_keys ht (dom sample_hash_mem) {} [HInsert 0x2000, HLookup 0x2010]"
    using ht sample_key_ok
    by (auto simp: entry_ok_def HashTableObtainKeyAddress_def Entries_def sizeof_HASH_ENTRY_def
        sample_hash_mem_def all_less_two)
  have "library_hash HashFuncUniversal" by (simp add: library_hash_def)
  from hash_table_refines_set [OF this pre _ _ mem ht(1) allowed] pre ht(1) show ?thesis by auto
qed

text \<open>The call after the last entry: it starts a list iterator on the bucket behind the array, so it
  fails when there is no list head there, and otherwise returns \<^verbatim>\<open>NULL\<close>, as does every later call.\<close>

lemma hit_at_terminating_call:
  assumes "hit_at ht m it i []" and "later ht B i = []"
    and "\<forall>i < unat (MaxKeys ht). is_list m (Entries ht (of_nat i)) (B i)"
  shows "if Entries ht (of_nat (unat (MaxKeys ht))) = NULL \<or> m (Entries ht (of_nat (unat (MaxKeys ht)))) = None
      then HashTableIteratorNext ht m it = None
      else \<exists>it'. HashTableIteratorNext ht m it = Some (NULL, it') \<and> KeyIndex it' = MaxKeys ht
        \<and> HashTableIteratorNext ht m it' = Some (NULL, it')"
proof -
  have e: "HashTableIteratorNext ht m it = do {
     cur \<leftarrow> ListIteratorInit m (Entries ht (of_nat (unat (MaxKeys ht))));
     Some (NULL, \<lparr>KeyIndex = MaxKeys ht, CurrentKeyIterator = cur\<rparr>) }"
    using hit_at_end [OF assms(1) _ assms(3)] assms(2) by simp
  have stop: "HashTableIteratorNext ht m \<lparr>KeyIndex = MaxKeys ht, CurrentKeyIterator = cur\<rparr>
      = Some (NULL, \<lparr>KeyIndex = MaxKeys ht, CurrentKeyIterator = cur\<rparr>)" for cur
    by (subst HashTableIteratorNext.simps) simp
  show ?thesis
    unfolding e by (auto simp: ListIteratorInit_def rd_Flink_def ASSERT_def stop)
qed

text \<open>
  C35. Iterating a table yields every entry exactly once, bucket by bucket, and none of them is
  \<^verbatim>\<open>NULL\<close>. The call after the last entry returns \<^verbatim>\<open>NULL\<close>, and so does every later call, provided the
  memory right behind the bucket array can be read as a list head; otherwise that call fails, because
  the iterator of the next bucket is started before the index is compared with \<^verbatim>\<open>MaxKeys\<close>.
\<close>

theorem hash_iteration_complete:
  assumes "library_hash (HashFunc ht)" and "ht_ok b ht m B"
  shows "\<exists>it it' L. HashTableIteratorInit ht m = Some it
    \<and> iterate ht m (card (elements ht B)) it = Some (L, it')
    \<and> distinct L \<and> set L = elements ht B \<and> NULL \<notin> set L
    \<and> (if Entries ht (of_nat (unat (MaxKeys ht))) = NULL \<or> m (Entries ht (of_nat (unat (MaxKeys ht)))) = None
       then HashTableIteratorNext ht m it' = None
       else \<exists>it''. HashTableIteratorNext ht m it' = Some (NULL, it'') \<and> KeyIndex it'' = MaxKeys ht
         \<and> HashTableIteratorNext ht m it'' = Some (NULL, it''))"
proof -
  have hf: "hash_function (HashFunc ht)"
    using assms(1) incremental.hash_function_axioms universal.hash_function_axioms
    by (auto simp: library_hash_def)
  have d: "distinct (all_entries ht B)"
    using hash_function.card_elements(2) [OF hf, of b ht m B] assms(2)
    by (simp add: hash_function.table_ok_def [OF hf])
  have c: "card (elements ht B) = length (all_entries ht B)" by (metis d distinct_card set_all_entries)
  have lists: "\<forall>i < unat (MaxKeys ht). is_list m (Entries ht (of_nat i)) (B i)" and n: "MaxKeys ht \<noteq> 0"
    using assms(2) by (auto simp: ht_ok_def)
  then have nn: "NULL \<notin> set (all_entries ht B)"
    unfolding set_all_entries by (auto simp: elements_def is_list_def)
  obtain it where it: "HashTableIteratorInit ht m = Some it" "hit_at ht m it 0 (B 0)"
    using HashTableIteratorInit_result [OF assms(2)] by blast
  from iterate_all [OF lists it(2) all_entries_split [OF n, symmetric]] obtain it' i' where
    e: "iterate ht m (card (elements ht B)) it = Some (all_entries ht B, it')" "hit_at ht m it' i' []"
      "later ht B i' = []" unfolding c by blast
  show ?thesis
    using it(1) e(1) d nn set_all_entries hit_at_terminating_call [OF e(2,3) lists] by metis
qed

definition sample_table :: HASH_TABLE where
  "sample_table = \<lparr>MaxKeys = 2, KeySize = 2, NumberOfElements = 1, OffsetToKey = 16,
     HashFunc = HashFuncGenericIncremental, TableData = 0x1000\<rparr>"

definition sample_table_mem :: lmem where
  "sample_table_mem = map_of [(0x1000, \<lparr>Flink = 0x1000, Blink = 0x1000\<rparr>), (0x1010, \<lparr>Flink = 0x2000, Blink = 0x2000\<rparr>),
                             (0x2000, \<lparr>Flink = 0x1010, Blink = 0x1010\<rparr>)]"

definition sample_buckets :: "nat \<Rightarrow> ADDR list" where
  "sample_buckets i = (if i = 1 then [0x2000] else [])"

lemma sample_table_ok: "ht_ok sample_keys sample_table sample_table_mem sample_buckets"
proof -
  have "is_list sample_table_mem 0x1000 []" "is_list sample_table_mem 0x1010 [0x2000]"
    by (simp_all add: is_list_def links_def sample_table_mem_def rd_Flink_def rd_Blink_def)
  moreover have "HashFuncGenericIncremental sample_keys 0x2010 2 2 = Some 1"
    using sample_key_ok(1)
    by (simp add: HashFuncGenericIncremental_def read_key_value_result key_value_def bytes_at_def upt_rec sample_keys_def)
  moreover have "{..<2::nat} = {0, 1}" by auto
  ultimately show ?thesis
    using sample_key_ok
    by (auto simp: ht_ok_def sample_table_def sample_buckets_def Entries_def sizeof_HASH_ENTRY_def ring_def
        entry_ok_def HashTableObtainKeyAddress_def all_less_two)
qed

lemma sample_elements: "elements sample_table sample_buckets = {0x2000}"
  by (auto simp: elements_def sample_table_def sample_buckets_def intro!: bexI [of _ 1])

text \<open>The same table with accessible memory behind its bucket array.\<close>

definition sample_table_mem2 :: lmem where
  "sample_table_mem2 = sample_table_mem(0x1020 \<mapsto> \<lparr>Flink = 0, Blink = 0\<rparr>)"

lemma sample_table_ok2: "ht_ok sample_keys sample_table sample_table_mem2 sample_buckets"
proof -
  have u: "is_list sample_table_mem2 h xs = is_list sample_table_mem h xs" if "0x1020 \<notin> set (h # xs)" for h xs
    using that by (intro is_list_frame) (auto simp: sample_table_mem2_def)
  show ?thesis
    using sample_table_ok u [of "0x1000" "[]"] u [of "0x1010" "[0x2000]"]
    by (simp add: ht_ok_def sample_table_def sample_buckets_def Entries_def sizeof_HASH_ENTRY_def all_less_two)
qed

lemma sample_table_end: "Entries sample_table (of_nat (unat (MaxKeys sample_table))) = 0x1020"
  by (simp add: sample_table_def Entries_def sizeof_HASH_ENTRY_def)

theorem hash_iteration_complete_witness:
  "\<exists>it it' it''. HashTableIteratorInit sample_table sample_table_mem2 = Some it
    \<and> iterate sample_table sample_table_mem2 1 it = Some ([0x2000], it')
    \<and> HashTableIteratorNext sample_table sample_table_mem2 it' = Some (NULL, it'')"
proof -
  have "library_hash (HashFunc sample_table)" by (simp add: library_hash_def sample_table_def)
  from hash_iteration_complete [OF this sample_table_ok2] obtain it it' it'' L where
    r: "HashTableIteratorInit sample_table sample_table_mem2 = Some it"
    "iterate sample_table sample_table_mem2 1 it = Some (L, it')" "set L = {0x2000}" "distinct L"
    "HashTableIteratorNext sample_table sample_table_mem2 it' = Some (NULL, it'')"
    unfolding sample_table_end sample_elements by (auto simp: sample_table_mem2_def)
  from r(3,4) have "L = [0x2000]" by (cases L; cases "tl L") auto
  with r show ?thesis by auto
qed

text \<open>
  The call that ends an iteration starts a list iterator on the bucket after the last one:
  when the memory behind the table is not accessible, it faults instead of returning \<^verbatim>\<open>NULL\<close>.
\<close>

theorem hash_iterator_reads_past_end:
  assumes "ht_ok b ht m B" and "m (Entries ht (of_nat (unat (MaxKeys ht)))) = None"
  shows "\<exists>it. HashTableIteratorInit ht m = Some it
    \<and> iterate ht m (Suc (length (all_entries ht B))) it = None"
proof -
  have lists: "\<forall>i < unat (MaxKeys ht). is_list m (Entries ht (of_nat i)) (B i)" and n: "MaxKeys ht \<noteq> 0"
    using assms(1) by (auto simp: ht_ok_def)
  obtain it where it: "HashTableIteratorInit ht m = Some it" "hit_at ht m it 0 (B 0)"
    using HashTableIteratorInit_result [OF assms(1)] by blast
  from iterate_all [OF lists it(2) all_entries_split [OF n, symmetric]] obtain it' i' where
    e: "iterate ht m (length (all_entries ht B)) it = Some (all_entries ht B, it')" "hit_at ht m it' i' []"
    "later ht B i' = []" by blast
  have "HashTableIteratorNext ht m it' = None"
    using hit_at_terminating_call [OF e(2,3) lists] assms(2) by simp
  with it(1) e(1) iterate_snoc show ?thesis by fastforce
qed

theorem hash_iterator_reads_past_end_witness:
  "\<exists>it. HashTableIteratorInit sample_table sample_table_mem = Some it \<and> iterate sample_table sample_table_mem 2 it = None"
proof -
  have "sample_table_mem (Entries sample_table (of_nat (unat (MaxKeys sample_table)))) = None"
    by (simp add: sample_table_mem_def sample_table_def Entries_def sizeof_HASH_ENTRY_def)
  moreover have "length (all_entries sample_table sample_buckets) = 1"
    by (simp add: all_entries_def sample_table_def sample_buckets_def upt_rec)
  ultimately show ?thesis
    using hash_iterator_reads_past_end [OF sample_table_ok] by (simp add: eval_nat_numeral)
qed

text \<open>
  Clearing a table whose bucket array is followed by accessible memory hands every entry
  once to the free function, in iteration order, and leaves a valid empty table.
\<close>

theorem hash_clear_frees_all:
  assumes "library_hash (HashFunc ht)" and "ht_ok b ht m B"
    and "Entries ht (of_nat (unat (MaxKeys ht))) \<noteq> NULL"
    and "m (Entries ht (of_nat (unat (MaxKeys ht)))) \<noteq> None"
    and "\<And>e ctx m. f e ctx m = Some (up e ctx, m)"
  shows "\<exists>ht' m'. HashTableClear (Some f) ht m ctx = Some (ht', m', fold up (all_entries ht B) ctx)
    \<and> ht_ok b ht' m' (\<lambda>_. []) \<and> HashTableSize ht' = 0"
proof -
  have hf: "hash_function (HashFunc ht)"
    using assms(1) incremental.hash_function_axioms universal.hash_function_axioms
    by (auto simp: library_hash_def)
  note tdef = hash_function.table_ok_def [OF hf]
  have free: "\<And>g e ctx m. Some f = Some g \<Longrightarrow> g e ctx m = Some (up e ctx, m)" using assms(5) by simp
  have n: "MaxKeys ht \<noteq> 0" using assms(2) by (simp add: ht_ok_def)
  obtain it where it: "HashTableIteratorInit ht m = Some it" "hit_at ht m it 0 (B 0)"
    using HashTableIteratorInit_result [OF assms(2)] by blast
  have ok: "hash_function.table_ok (HashFunc ht) b (ht\<lparr>NumberOfElements := NumberOfElements ht\<rparr>) m B"
    using assms(2) by (simp add: tdef)
  obtain c m' where c: "HashTableClear_loop (Some f) (ht\<lparr>NumberOfElements := NumberOfElements ht\<rparr>) m it ctx
      = Some (ht\<lparr>NumberOfElements := c\<rparr>, m', fold up (all_entries ht B) ctx)"
    "hash_function.table_ok (HashFunc ht) b (ht\<lparr>NumberOfElements := c\<rparr>) m' (\<lambda>_. [])"
    using hash_function.Clear_loop_result [OF hf, where FreeFunction = "Some f" and up = up and ht = ht
        and ?m0.0 = m and b = b and c = "NumberOfElements ht" and m = m and B = B and it = it and i = 0
        and R = "all_entries ht B" and ctx = ctx] assms(3,4) ok it(2) all_entries_split [OF n, of B] free
    by auto
  then have "ht_ok b (ht\<lparr>NumberOfElements := c\<rparr>) m' (\<lambda>_. [])" by (simp add: tdef)
  with it(1) c(1) show ?thesis by (auto simp: HashTableClear_def HashTableSize_def ht_ok_def)
qed


theorem hash_clear_frees_all_witness:
  "\<exists>ht' m'. HashTableClear (Some (\<lambda>e ctx m. Some (e # ctx, m))) sample_table
       (sample_table_mem(0x1020 \<mapsto> \<lparr>Flink = 0, Blink = 0\<rparr>)) [] = Some (ht', m', [0x2000]) \<and> HashTableSize ht' = 0"
proof -
  let ?m = "sample_table_mem(0x1020 \<mapsto> \<lparr>Flink = 0, Blink = 0\<rparr>)"
  have "ht_ok sample_keys sample_table ?m sample_buckets"
    using sample_table_ok2 by (simp add: sample_table_mem2_def)
  moreover have "library_hash (HashFunc sample_table)" by (simp add: library_hash_def sample_table_def)
  moreover have "all_entries sample_table sample_buckets = [0x2000]"
    by (simp add: all_entries_def sample_table_def sample_buckets_def upt_rec)
  moreover note sample_table_end
  ultimately show ?thesis
    using hash_clear_frees_all [of sample_table sample_keys ?m sample_buckets
        "\<lambda>e ctx m. Some (e # ctx, m)" "\<lambda>e ctx. e # ctx" "[]"]
    by auto
qed

end
