(* ===== verification/CL_Lock.thy ===== *)
theory CL_Lock
  imports Prelude
begin

text \<open>
  \<^verbatim>\<open>CommonLib/src/spinlock.c\<close>, \<^verbatim>\<open>monlock.c\<close> and \<^verbatim>\<open>lock_common.c\<close>: the two
  implementations of the kernel's basic lock and the choice between them.

  Any number of processors run the lock functions at the same time. A processor is named by the
  pointer \<^verbatim>\<open>CpuGetCurrent\<close> returns on it. The world holds the lock, and for each processor the
  place it has reached (\<open>lock_pc\<close>), its interrupt flag and the \<^verbatim>\<open>INTR_STATE\<close> local of the
  caller. Each of the functions below performs the next memory access of one C function on one
  processor: an interlocked operation is one step, each plain write is a step of its own.
  Interleaving the steps in any order gives every execution of the code on sequentially
  consistent memory. A failed assertion is \<open>None\<close>.
\<close>

section \<open>The lock and the world\<close>

definition LOCK_TAKEN :: BYTE where "LOCK_TAKEN = 1"
definition LOCK_FREE :: BYTE where "LOCK_FREE = 0"

record SPINLOCK =
  State :: BYTE
  Holder :: ADDR
  FunctionWhichTookLock :: ADDR

datatype lock_pc = Outside
  | AcqCheck | AcqMonitor | AcqTry | AcqWait | AcqTaken | AcqHolder | AcqDone
  | TryTry | TryFail | TryTaken | TryHolder | TryDone
  | Inside
  | RelHolder | RelFunction | RelFree | RelIntr

record lock_world =
  Lock :: SPINLOCK
  pc :: "ADDR \<Rightarrow> lock_pc"
  intr :: "ADDR \<Rightarrow> bool"
  IntrState :: "ADDR \<Rightarrow> bool"

definition goto :: "ADDR \<Rightarrow> lock_pc \<Rightarrow> lock_world \<Rightarrow> lock_world" where
  "goto c l w = w\<lparr>pc := (pc w)(c := l)\<rparr>"

section \<open>Primitives of the processor\<close>

text \<open>\<^verbatim>\<open>*IntrState = CpuIntrDisable()\<close> and \<^verbatim>\<open>CpuIntrSetState(IntrState)\<close>.\<close>

definition CpuIntrDisable :: "ADDR \<Rightarrow> lock_world \<Rightarrow> lock_world" where
  "CpuIntrDisable c w = w\<lparr>IntrState := (IntrState w)(c := intr w c), intr := (intr w)(c := False)\<rparr>"

definition CpuIntrSetState :: "ADDR \<Rightarrow> lock_world \<Rightarrow> lock_world" where
  "CpuIntrSetState c w = w\<lparr>intr := (intr w)(c := IntrState w c)\<rparr>"

text \<open>\<^verbatim>\<open>_InterlockedCompareExchange8(&Lock->State, LOCK_TAKEN, LOCK_FREE)\<close>: the old value and the new lock.\<close>

definition cas_State :: "SPINLOCK \<Rightarrow> BYTE \<times> SPINLOCK" where
  "cas_State l = (State l, if State l = LOCK_FREE then l\<lparr>State := LOCK_TAKEN\<rparr> else l)"

section \<open>The spinlock\<close>

definition SpinlockInit :: SPINLOCK where
  "SpinlockInit = \<lparr>State = LOCK_FREE, Holder = NULL, FunctionWhichTookLock = NULL\<rparr>"

fun SpinlockAcquire_step :: "ADDR \<Rightarrow> ADDR \<Rightarrow> lock_world \<Rightarrow> lock_world option" where
  "SpinlockAcquire_step c ra w = (case pc w c of
     Outside \<Rightarrow> Some (goto c AcqCheck (CpuIntrDisable c w))
   | AcqCheck \<Rightarrow> do {
       ASSERT (c \<noteq> Holder (Lock w));
       Some (goto c AcqTry w)
     }
   | AcqTry \<Rightarrow> (let (old, l) = cas_State (Lock w) in
       Some (goto c (if old = LOCK_TAKEN then AcqWait else AcqTaken) (w\<lparr>Lock := l\<rparr>)))
   | AcqWait \<Rightarrow> Some (goto c AcqTry w)
   | AcqTaken \<Rightarrow> do {
       ASSERT (FunctionWhichTookLock (Lock w) = NULL);
       ASSERT (Holder (Lock w) = NULL);
       Some (goto c AcqHolder (w\<lparr>Lock := (Lock w)\<lparr>Holder := c\<rparr>\<rparr>))
     }
   | AcqHolder \<Rightarrow> Some (goto c AcqDone (w\<lparr>Lock := (Lock w)\<lparr>FunctionWhichTookLock := ra\<rparr>\<rparr>))
   | AcqDone \<Rightarrow> do {
       ASSERT (State (Lock w) = LOCK_TAKEN);
       Some (goto c Inside w)
     }
   | _ \<Rightarrow> None)"

fun SpinlockTryAcquire_step :: "ADDR \<Rightarrow> ADDR \<Rightarrow> lock_world \<Rightarrow> lock_world option" where
  "SpinlockTryAcquire_step c ra w = (case pc w c of
     Outside \<Rightarrow> Some (goto c TryTry (CpuIntrDisable c w))
   | TryTry \<Rightarrow> (let (old, l) = cas_State (Lock w) in
       Some (goto c (if old = LOCK_FREE then TryTaken else TryFail) (w\<lparr>Lock := l\<rparr>)))
   | TryFail \<Rightarrow> Some (goto c Outside (CpuIntrSetState c w))
   | TryTaken \<Rightarrow> do {
       ASSERT (FunctionWhichTookLock (Lock w) = NULL);
       ASSERT (Holder (Lock w) = NULL);
       Some (goto c TryHolder (w\<lparr>Lock := (Lock w)\<lparr>Holder := c\<rparr>\<rparr>))
     }
   | TryHolder \<Rightarrow> Some (goto c TryDone (w\<lparr>Lock := (Lock w)\<lparr>FunctionWhichTookLock := ra\<rparr>\<rparr>))
   | TryDone \<Rightarrow> do {
       ASSERT (State (Lock w) = LOCK_TAKEN);
       Some (goto c Inside w)
     }
   | _ \<Rightarrow> None)"

definition SpinlockIsOwner :: "ADDR \<Rightarrow> lock_world \<Rightarrow> bool" where
  "SpinlockIsOwner c w \<longleftrightarrow> c = Holder (Lock w)"

fun SpinlockRelease_step :: "ADDR \<Rightarrow> ADDR \<Rightarrow> lock_world \<Rightarrow> lock_world option" where
  "SpinlockRelease_step c ra w = (case pc w c of
     Inside \<Rightarrow> do {
       ASSERT (c = Holder (Lock w));
       ASSERT (\<not> intr w c);
       Some (goto c RelHolder w)
     }
   | RelHolder \<Rightarrow> Some (goto c RelFunction (w\<lparr>Lock := (Lock w)\<lparr>Holder := NULL\<rparr>\<rparr>))
   | RelFunction \<Rightarrow> Some (goto c RelFree (w\<lparr>Lock := (Lock w)\<lparr>FunctionWhichTookLock := NULL\<rparr>\<rparr>))
   | RelFree \<Rightarrow> Some (goto c RelIntr (w\<lparr>Lock := (Lock w)\<lparr>State := LOCK_FREE\<rparr>\<rparr>))
   | RelIntr \<Rightarrow> Some (goto c Outside (CpuIntrSetState c w))
   | _ \<Rightarrow> None)"

section \<open>The monitor lock\<close>

text \<open>
  The same structure in a 64-byte monitored line: acquiring arms the monitor before each attempt
  and sleeps in \<^verbatim>\<open>mwait\<close> after a failed one, which may return at any time.
\<close>

definition MonitorLockInit :: SPINLOCK where
  "MonitorLockInit = \<lparr>State = LOCK_FREE, Holder = NULL, FunctionWhichTookLock = NULL\<rparr>"

fun MonitorLockAcquire_step :: "ADDR \<Rightarrow> ADDR \<Rightarrow> lock_world \<Rightarrow> lock_world option" where
  "MonitorLockAcquire_step c ra w = (case pc w c of
     Outside \<Rightarrow> Some (goto c AcqCheck (CpuIntrDisable c w))
   | AcqCheck \<Rightarrow> do {
       ASSERT (c \<noteq> Holder (Lock w));
       Some (goto c AcqMonitor w)
     }
   | AcqMonitor \<Rightarrow> Some (goto c AcqTry w)
   | AcqTry \<Rightarrow> (let (old, l) = cas_State (Lock w) in
       Some (goto c (if old = LOCK_FREE then AcqTaken else AcqWait) (w\<lparr>Lock := l\<rparr>)))
   | AcqWait \<Rightarrow> Some (goto c AcqMonitor w)
   | AcqTaken \<Rightarrow> do {
       ASSERT (FunctionWhichTookLock (Lock w) = NULL);
       ASSERT (Holder (Lock w) = NULL);
       Some (goto c AcqHolder (w\<lparr>Lock := (Lock w)\<lparr>Holder := c\<rparr>\<rparr>))
     }
   | AcqHolder \<Rightarrow> Some (goto c AcqDone (w\<lparr>Lock := (Lock w)\<lparr>FunctionWhichTookLock := ra\<rparr>\<rparr>))
   | AcqDone \<Rightarrow> do {
       ASSERT (State (Lock w) = LOCK_TAKEN);
       Some (goto c Inside w)
     }
   | _ \<Rightarrow> None)"

fun MonitorLockTryAcquire_step :: "ADDR \<Rightarrow> ADDR \<Rightarrow> lock_world \<Rightarrow> lock_world option" where
  "MonitorLockTryAcquire_step c ra w = (case pc w c of
     Outside \<Rightarrow> Some (goto c TryTry (CpuIntrDisable c w))
   | TryTry \<Rightarrow> (let (old, l) = cas_State (Lock w) in
       Some (goto c (if old = LOCK_FREE then TryTaken else TryFail) (w\<lparr>Lock := l\<rparr>)))
   | TryFail \<Rightarrow> Some (goto c Outside (CpuIntrSetState c w))
   | TryTaken \<Rightarrow> do {
       ASSERT (FunctionWhichTookLock (Lock w) = NULL);
       ASSERT (Holder (Lock w) = NULL);
       Some (goto c TryHolder (w\<lparr>Lock := (Lock w)\<lparr>Holder := c\<rparr>\<rparr>))
     }
   | TryHolder \<Rightarrow> Some (goto c TryDone (w\<lparr>Lock := (Lock w)\<lparr>FunctionWhichTookLock := ra\<rparr>\<rparr>))
   | TryDone \<Rightarrow> do {
       ASSERT (State (Lock w) = LOCK_TAKEN);
       Some (goto c Inside w)
     }
   | _ \<Rightarrow> None)"

definition MonitorLockIsOwner :: "ADDR \<Rightarrow> lock_world \<Rightarrow> bool" where
  "MonitorLockIsOwner c w \<longleftrightarrow> c = Holder (Lock w)"

fun MonitorLockRelease_step :: "ADDR \<Rightarrow> ADDR \<Rightarrow> lock_world \<Rightarrow> lock_world option" where
  "MonitorLockRelease_step c ra w = (case pc w c of
     Inside \<Rightarrow> do {
       ASSERT (c = Holder (Lock w));
       ASSERT (\<not> intr w c);
       Some (goto c RelHolder w)
     }
   | RelHolder \<Rightarrow> Some (goto c RelFunction (w\<lparr>Lock := (Lock w)\<lparr>Holder := NULL\<rparr>\<rparr>))
   | RelFunction \<Rightarrow> Some (goto c RelFree (w\<lparr>Lock := (Lock w)\<lparr>FunctionWhichTookLock := NULL\<rparr>\<rparr>))
   | RelFree \<Rightarrow> Some (goto c RelIntr (w\<lparr>Lock := (Lock w)\<lparr>State := LOCK_FREE\<rparr>\<rparr>))
   | RelIntr \<Rightarrow> Some (goto c Outside (CpuIntrSetState c w))
   | _ \<Rightarrow> None)"

section \<open>The lock chosen at boot\<close>

type_synonym lock_function = "ADDR \<Rightarrow> ADDR \<Rightarrow> lock_world \<Rightarrow> lock_world option"

record lock_functions =
  LockInit :: SPINLOCK
  LockAcquire :: lock_function
  LockTryAcquire :: lock_function
  LockIsOwner :: "ADDR \<Rightarrow> lock_world \<Rightarrow> bool"
  LockRelease :: lock_function

definition LockSystemInit :: "bool \<Rightarrow> lock_functions" where
  "LockSystemInit MonitorSupport =
     (if MonitorSupport then
        \<lparr>LockInit = MonitorLockInit, LockAcquire = MonitorLockAcquire_step,
         LockTryAcquire = MonitorLockTryAcquire_step, LockIsOwner = MonitorLockIsOwner,
         LockRelease = MonitorLockRelease_step\<rparr>
      else
        \<lparr>LockInit = SpinlockInit, LockAcquire = SpinlockAcquire_step,
         LockTryAcquire = SpinlockTryAcquire_step, LockIsOwner = SpinlockIsOwner,
         LockRelease = SpinlockRelease_step\<rparr>)"

declare SpinlockAcquire_step.simps [simp del] SpinlockTryAcquire_step.simps [simp del]
  SpinlockRelease_step.simps [simp del] MonitorLockAcquire_step.simps [simp del]
  MonitorLockTryAcquire_step.simps [simp del] MonitorLockRelease_step.simps [simp del]

section \<open>Where a processor may be\<close>

definition owning :: "lock_pc set" where
  "owning = {AcqTaken, AcqHolder, AcqDone, TryTaken, TryHolder, TryDone, Inside, RelHolder, RelFunction, RelFree}"

definition holder_set :: "lock_pc set" where
  "holder_set = {AcqHolder, AcqDone, TryHolder, TryDone, Inside, RelHolder}"

definition function_null :: "lock_pc set" where
  "function_null = {AcqTaken, TryTaken, RelFree}"

definition acquiring :: "lock_pc set" where
  "acquiring = {AcqCheck, AcqMonitor, AcqTry, AcqWait, AcqTaken, AcqHolder, AcqDone}"

definition trying :: "lock_pc set" where
  "trying = {TryTry, TryFail, TryTaken, TryHolder, TryDone}"

definition releasing :: "lock_pc set" where
  "releasing = {RelHolder, RelFunction, RelFree, RelIntr}"

lemmas pc_sets = owning_def holder_set_def function_null_def acquiring_def trying_def releasing_def

text \<open>
  The invariant of the lock: at most one owner, the state byte says whether there is one, the
  holder field is the owner between the two writes to it, and interrupts are off on every
  processor that is inside one of the functions. \<open>orig\<close> is each processor's interrupt flag
  outside.
\<close>

definition intr_ok :: "(ADDR \<Rightarrow> bool) \<Rightarrow> lock_world \<Rightarrow> ADDR \<Rightarrow> bool" where
  "intr_ok orig w c \<longleftrightarrow> (if pc w c = Outside then intr w c = orig c else \<not> intr w c \<and> IntrState w c = orig c)"

definition owned_by :: "lock_world \<Rightarrow> ADDR \<Rightarrow> bool" where
  "owned_by w c \<longleftrightarrow> pc w c \<in> owning \<and> (\<forall>d. d \<noteq> c \<longrightarrow> pc w d \<notin> owning) \<and> State (Lock w) = LOCK_TAKEN
    \<and> Holder (Lock w) = (if pc w c \<in> holder_set then c else NULL)
    \<and> (pc w c \<in> function_null \<longrightarrow> FunctionWhichTookLock (Lock w) = NULL)"

definition unowned :: "lock_world \<Rightarrow> bool" where
  "unowned w \<longleftrightarrow> (\<forall>d. pc w d \<notin> owning) \<and> State (Lock w) = LOCK_FREE \<and> Holder (Lock w) = NULL
    \<and> FunctionWhichTookLock (Lock w) = NULL"

definition lock_inv :: "(ADDR \<Rightarrow> bool) \<Rightarrow> lock_world \<Rightarrow> bool" where
  "lock_inv orig w \<longleftrightarrow> (unowned w \<or> (\<exists>c. owned_by w c)) \<and> (\<forall>d. intr_ok orig w d)"

lemma pc_goto [simp]: "pc (goto c l w) d = (if d = c then l else pc w d)"
  by (simp add: goto_def)

lemma fields_goto [simp]:
  "Lock (goto c l w) = Lock w" "intr (goto c l w) = intr w" "IntrState (goto c l w) = IntrState w"
  by (simp_all add: goto_def)

lemma fields_intr [simp]:
  "Lock (CpuIntrDisable c w) = Lock w" "pc (CpuIntrDisable c w) = pc w"
  "intr (CpuIntrDisable c w) d = (if d = c then False else intr w d)"
  "IntrState (CpuIntrDisable c w) d = (if d = c then intr w c else IntrState w d)"
  "Lock (CpuIntrSetState c w) = Lock w" "pc (CpuIntrSetState c w) = pc w"
  "intr (CpuIntrSetState c w) d = (if d = c then IntrState w c else intr w d)"
  "IntrState (CpuIntrSetState c w) = IntrState w"
  by (simp_all add: CpuIntrDisable_def CpuIntrSetState_def)

lemma LOCK_values [simp]: "LOCK_FREE \<noteq> LOCK_TAKEN" "LOCK_TAKEN \<noteq> LOCK_FREE"
  by (simp_all add: LOCK_FREE_def LOCK_TAKEN_def)

section \<open>Steps and the invariant\<close>

lemma owning_subsets: "holder_set \<subseteq> owning" "function_null \<subseteq> owning" "Outside \<notin> owning"
  by (auto simp: pc_sets)

lemma lock_inv_intr: "lock_inv orig w \<Longrightarrow> intr_ok orig w c"
  by (simp add: lock_inv_def)

lemma lock_inv_owner:
  assumes "lock_inv orig w" "pc w c \<in> owning"
  shows "owned_by w c"
proof -
  from assms obtain d where d: "owned_by w d" by (auto simp: lock_inv_def unowned_def)
  with assms(2) have "c = d" by (auto simp: owned_by_def)
  with d show ?thesis by simp
qed

lemma lock_inv_free: "lock_inv orig w \<Longrightarrow> State (Lock w) = LOCK_FREE \<Longrightarrow> unowned w"
  by (auto simp: lock_inv_def owned_by_def)

text \<open>A step of a processor that does not own the lock before or after it.\<close>

lemma inv_step_free:
  assumes inv: "lock_inv orig w" and c: "pc w c \<notin> owning" and l: "l \<notin> owning"
    and w': "Lock w' = Lock w" "\<forall>d. pc w' d = (if d = c then l else pc w d)"
      "\<forall>d. d \<noteq> c \<longrightarrow> intr w' d = intr w d \<and> IntrState w' d = IntrState w d"
    and i: "intr_ok orig w' c"
  shows "lock_inv orig w'"
proof -
  have io: "\<forall>d. intr_ok orig w' d"
    using i lock_inv_intr [OF inv] w'(2,3) by (metis (no_types, lifting) intr_ok_def)
  from inv consider "unowned w" | o' where "owned_by w o'" by (auto simp: lock_inv_def)
  then show ?thesis
  proof cases
    case 1
    then have "unowned w'" using w' l by (simp add: unowned_def)
    with io show ?thesis by (simp add: lock_inv_def)
  next
    case 2
    then have "o' \<noteq> c" using c by (auto simp: owned_by_def)
    with 2 w' l have "owned_by w' o'" by (simp add: owned_by_def)
    with io show ?thesis by (auto simp: lock_inv_def)
  qed
qed

text \<open>The step with which a processor becomes the owner.\<close>

lemma inv_step_take:
  assumes inv: "lock_inv orig w" and free: "State (Lock w) = LOCK_FREE" and c: "pc w c \<noteq> Outside"
    and l: "l = AcqTaken \<or> l = TryTaken"
  shows "lock_inv orig (goto c l (w\<lparr>Lock := (Lock w)\<lparr>State := LOCK_TAKEN\<rparr>\<rparr>))" (is "lock_inv orig ?w")
proof -
  have "unowned w" using inv free by (rule lock_inv_free)
  moreover have "l \<in> owning" "l \<notin> holder_set" "l \<noteq> Outside" using l by (auto simp: pc_sets)
  ultimately have "owned_by ?w c" by (auto simp: unowned_def owned_by_def)
  moreover have "\<forall>d. intr_ok orig ?w d"
    using lock_inv_intr [OF inv] c \<open>l \<noteq> Outside\<close> by (auto simp: intr_ok_def)
  ultimately show ?thesis by (auto simp: lock_inv_def)
qed

text \<open>A step of the owner that keeps the lock.\<close>

lemma inv_step_owner:
  assumes inv: "lock_inv orig w" and c: "pc w c \<in> owning" and l: "l \<in> owning"
    and w': "w' = goto c l (w\<lparr>Lock := lk\<rparr>)" "State lk = State (Lock w)"
    and h: "Holder lk = (if l \<in> holder_set then c else NULL)"
    and f: "l \<in> function_null \<longrightarrow> FunctionWhichTookLock lk = NULL"
  shows "lock_inv orig w'"
proof -
  have "owned_by w c" using inv c by (rule lock_inv_owner)
  then have "owned_by w' c" using l h f w' by (auto simp: owned_by_def)
  moreover have "pc w c \<noteq> Outside" "l \<noteq> Outside" using c l owning_subsets(3) by auto
  then have "\<forall>d. intr_ok orig w' d"
    using lock_inv_intr [OF inv] w'(1) by (auto simp: intr_ok_def)
  ultimately show ?thesis by (auto simp: lock_inv_def)
qed

text \<open>The step with which the owner frees the lock.\<close>

lemma inv_step_free_lock:
  assumes inv: "lock_inv orig w" and c: "pc w c = RelFree"
  shows "lock_inv orig (goto c RelIntr (w\<lparr>Lock := (Lock w)\<lparr>State := LOCK_FREE\<rparr>\<rparr>))" (is "lock_inv orig ?w")
proof -
  have "owned_by w c" using lock_inv_owner [OF inv, of c] c by (simp add: pc_sets)
  then have "unowned ?w" using c by (auto simp: owned_by_def unowned_def pc_sets)
  moreover have "\<forall>d. intr_ok orig ?w d"
    using lock_inv_intr [OF inv] c by (simp add: intr_ok_def)
  ultimately show ?thesis by (simp add: lock_inv_def)
qed


section \<open>The contract of a lock\<close>

text \<open>
  A lock is a set of functions; each of their steps, taken by a processor that is in that
  function, trips no assertion, keeps the invariant, moves no other processor and stays in the
  function or leaves it. \<open>acq\<close> are the places inside the acquire function.
\<close>

definition step_ok ::
  "(ADDR \<Rightarrow> bool) \<Rightarrow> lock_world \<Rightarrow> ADDR \<Rightarrow> lock_world option \<Rightarrow> lock_pc set \<Rightarrow> bool" where
  "step_ok orig w c r L \<longleftrightarrow> (\<exists>w'. r = Some w' \<and> lock_inv orig w' \<and> pc w' c \<in> L
     \<and> (\<forall>d. d \<noteq> c \<longrightarrow> pc w' d = pc w d))"

locale cpu_lock =
  fixes F :: lock_functions and acq :: "lock_pc set"
  assumes init: "LockInit F = \<lparr>State = LOCK_FREE, Holder = NULL, FunctionWhichTookLock = NULL\<rparr>"
    and acq: "acq \<subseteq> acquiring"
    and acquire_step: "lock_inv orig w \<Longrightarrow> c \<noteq> NULL \<Longrightarrow> pc w c \<in> insert Outside acq
      \<Longrightarrow> step_ok orig w c (LockAcquire F c ra w) (insert Inside acq)"
    and try_step: "lock_inv orig w \<Longrightarrow> c \<noteq> NULL \<Longrightarrow> pc w c \<in> insert Outside trying
      \<Longrightarrow> step_ok orig w c (LockTryAcquire F c ra w) (trying \<union> {Outside, Inside})"
    and release_step: "lock_inv orig w \<Longrightarrow> c \<noteq> NULL \<Longrightarrow> pc w c \<in> insert Inside releasing
      \<Longrightarrow> step_ok orig w c (LockRelease F c ra w) (insert Outside releasing)"
    and take_free: "lock_inv orig w \<Longrightarrow> pc w c = AcqTry \<Longrightarrow> State (Lock w) = LOCK_FREE
      \<Longrightarrow> \<exists>w'. LockAcquire F c ra w = Some w' \<and> pc w' c = AcqTaken"
    and is_owner: "LockIsOwner F c w \<longleftrightarrow> c = Holder (Lock w)"

text \<open>All executions: the processors call and run the functions in any interleaving.\<close>

inductive lock_reach :: "lock_functions \<Rightarrow> (ADDR \<Rightarrow> bool) \<Rightarrow> lock_world \<Rightarrow> bool" for F orig where
  boot: "lock_reach F orig \<lparr>Lock = LockInit F, pc = (\<lambda>_. Outside), intr = orig, IntrState = s\<rparr>"
| acquire: "lock_reach F orig w \<Longrightarrow> c \<noteq> NULL \<Longrightarrow> pc w c \<in> insert Outside acquiring
    \<Longrightarrow> LockAcquire F c ra w = Some w' \<Longrightarrow> lock_reach F orig w'"
| try_acquire: "lock_reach F orig w \<Longrightarrow> c \<noteq> NULL \<Longrightarrow> pc w c \<in> insert Outside trying
    \<Longrightarrow> LockTryAcquire F c ra w = Some w' \<Longrightarrow> lock_reach F orig w'"
| release: "lock_reach F orig w \<Longrightarrow> c \<noteq> NULL \<Longrightarrow> pc w c \<in> insert Inside releasing
    \<Longrightarrow> LockRelease F c ra w = Some w' \<Longrightarrow> lock_reach F orig w'"

lemma step_ok_places:
  "step_ok orig w c (Some w') L \<Longrightarrow> \<forall>d. pc w d \<in> P \<Longrightarrow> L \<subseteq> P \<Longrightarrow> lock_inv orig w' \<and> (\<forall>d. pc w' d \<in> P)"
  unfolding step_ok_def by (metis option.inject subsetD)

context cpu_lock
begin

definition places :: "lock_pc set" where
  "places = {Outside, Inside} \<union> acq \<union> trying \<union> releasing"

lemma reach_inv: "lock_reach F orig w \<Longrightarrow> lock_inv orig w \<and> (\<forall>c. pc w c \<in> places)"
proof (induction rule: lock_reach.induct)
  case (boot s)
  then show ?case by (simp add: lock_inv_def unowned_def init intr_ok_def places_def pc_sets)
next
  case (acquire w c ra w')
  have "pc w c \<in> places" using acquire.IH by blast
  with acquire.hyps(3) have "pc w c \<in> insert Outside acq"
    by (fastforce simp: places_def pc_sets)
  with acquire have "step_ok orig w c (Some w') (insert Inside acq)"
    using acquire_step [of orig w c ra] by simp
  with acquire.IH show ?case by (intro step_ok_places) (auto simp: places_def)
next
  case (try_acquire w c ra w')
  then have "step_ok orig w c (Some w') (trying \<union> {Outside, Inside})" using try_step [of orig w c ra] by simp
  with try_acquire.IH show ?case by (intro step_ok_places) (auto simp: places_def)
next
  case (release w c ra w')
  then have "step_ok orig w c (Some w') (insert Outside releasing)" using release_step [of orig w c ra] by simp
  with release.IH show ?case by (intro step_ok_places) (auto simp: places_def)
qed

lemma reach_mutex:
  assumes "lock_reach F orig w" "pc w c = Inside"
  shows "pc w d = Inside \<Longrightarrow> d = c" "LockIsOwner F c w" "\<not> intr w c"
proof -
  have inv: "lock_inv orig w" using reach_inv [OF assms(1)] by blast
  have own: "owned_by w c" using lock_inv_owner [OF inv, of c] assms(2) by (simp add: pc_sets)
  show "d = c" if "pc w d = Inside" using own that by (force simp: owned_by_def pc_sets)
  show "LockIsOwner F c w" using own assms(2) by (simp add: is_owner owned_by_def pc_sets)
  show "\<not> intr w c" using lock_inv_intr [OF inv, of c] assms(2) by (simp add: intr_ok_def)
qed

lemma reach_no_assert:
  assumes "lock_reach F orig w" "c \<noteq> NULL"
  shows "pc w c \<in> insert Outside acquiring \<Longrightarrow> LockAcquire F c ra w \<noteq> None"
    "pc w c \<in> insert Outside trying \<Longrightarrow> LockTryAcquire F c ra w \<noteq> None"
    "pc w c \<in> insert Inside releasing \<Longrightarrow> LockRelease F c ra w \<noteq> None"
proof -
  have inv: "lock_inv orig w" and pl: "pc w c \<in> places" using reach_inv [OF assms(1)] by auto
  show "LockAcquire F c ra w \<noteq> None" if "pc w c \<in> insert Outside acquiring"
  proof -
    have "pc w c \<in> insert Outside acq" using pl that by (fastforce simp: places_def pc_sets)
    with acquire_step [OF inv assms(2)] show ?thesis by (auto simp: step_ok_def)
  qed
  show "LockTryAcquire F c ra w \<noteq> None" if "pc w c \<in> insert Outside trying"
    using try_step [OF inv assms(2) that] by (auto simp: step_ok_def)
  show "LockRelease F c ra w \<noteq> None" if "pc w c \<in> insert Inside releasing"
    using release_step [OF inv assms(2) that] by (auto simp: step_ok_def)
qed

end


section \<open>Both locks keep the contract\<close>

lemma step_ok_free:
  assumes "lock_inv orig w" "pc w c \<notin> owning" "l \<notin> owning" "l \<in> L"
    "Lock w' = Lock w" "\<forall>d. pc w' d = (if d = c then l else pc w d)"
    "\<forall>d. d \<noteq> c \<longrightarrow> intr w' d = intr w d \<and> IntrState w' d = IntrState w d" "intr_ok orig w' c"
  shows "step_ok orig w c (Some w') L"
  using inv_step_free [OF assms(1-3,5-8)] assms(4,6) by (simp add: step_ok_def)

text \<open>A move of a processor that is inside a function, changes nothing else and owns nothing.\<close>

lemma step_ok_goto:
  assumes "lock_inv orig w" "pc w c \<notin> owning" "pc w c \<noteq> Outside" "l \<notin> owning" "l \<noteq> Outside" "l \<in> L"
  shows "step_ok orig w c (Some (goto c l w)) L"
  using assms lock_inv_intr [OF assms(1), of c] by (intro step_ok_free) (auto simp: intr_ok_def)

lemma step_ok_disable:
  assumes "lock_inv orig w" "pc w c = Outside" "l \<notin> owning" "l \<noteq> Outside" "l \<in> L"
  shows "step_ok orig w c (Some (goto c l (CpuIntrDisable c w))) L"
  using assms lock_inv_intr [OF assms(1), of c]
  by (intro step_ok_free [where l = l]) (auto simp: intr_ok_def owning_subsets)

lemma step_ok_restore:
  assumes "lock_inv orig w" "pc w c \<notin> owning" "pc w c \<noteq> Outside" "Outside \<in> L"
  shows "step_ok orig w c (Some (goto c Outside (CpuIntrSetState c w))) L"
  using assms lock_inv_intr [OF assms(1), of c]
  by (intro step_ok_free [where l = Outside]) (auto simp: intr_ok_def owning_subsets)

lemma step_ok_cas:
  assumes "lock_inv orig w" "pc w c \<notin> owning" "pc w c \<noteq> Outside"
    "l1 = AcqTaken \<or> l1 = TryTaken" "l2 \<notin> owning" "l2 \<noteq> Outside" "l1 \<in> L" "l2 \<in> L"
  shows "step_ok orig w c (let (old, l) = cas_State (Lock w) in
      Some (goto c (if old = LOCK_FREE then l1 else l2) (w\<lparr>Lock := l\<rparr>))) L"
proof (cases "State (Lock w) = LOCK_FREE")
  case True
  with inv_step_take [OF assms(1) True assms(3,4)] assms(7) show ?thesis
    by (simp add: cas_State_def step_ok_def)
next
  case False
  with step_ok_goto [OF assms(1-3,5,6,8)] show ?thesis by (simp add: cas_State_def)
qed

lemmas step_ok_cas_case = step_ok_cas [unfolded Let_def]

lemma step_ok_owner:
  assumes "lock_inv orig w" "pc w c \<in> owning" "l \<in> owning" "l \<in> L" "State lk = State (Lock w)"
    "Holder lk = (if l \<in> holder_set then c else NULL)"
    "l \<in> function_null \<longrightarrow> FunctionWhichTookLock lk = NULL"
  shows "step_ok orig w c (Some (goto c l (w\<lparr>Lock := lk\<rparr>))) L"
  using inv_step_owner [OF assms(1-3) refl assms(5-7)] assms(4) by (simp add: step_ok_def)

lemma step_ok_owner_goto:
  assumes "lock_inv orig w" "pc w c \<in> holder_set" "l \<in> holder_set" "l \<in> L"
  shows "step_ok orig w c (Some (goto c l w)) L"
proof -
  have own: "owned_by w c" using lock_inv_owner assms owning_subsets(1) by blast
  moreover have "l \<notin> function_null" using assms(3) by (auto simp: pc_sets)
  ultimately have "step_ok orig w c (Some (goto c l (w\<lparr>Lock := Lock w\<rparr>))) L"
    using assms owning_subsets(1) by (intro step_ok_owner) (auto simp: owned_by_def)
  then show ?thesis by simp
qed

lemma lock_values_cases:
  assumes "lock_inv orig w"
  shows "State (Lock w) = LOCK_TAKEN \<longleftrightarrow> State (Lock w) \<noteq> LOCK_FREE"
  using assms by (auto simp: lock_inv_def unowned_def owned_by_def)

lemma cas_branches:
  assumes "lock_inv orig w"
  shows "(let (old, l) = cas_State (Lock w) in Some (goto c (if old = LOCK_TAKEN then l2 else l1) (w\<lparr>Lock := l\<rparr>)))
    = (let (old, l) = cas_State (Lock w) in Some (goto c (if old = LOCK_FREE then l1 else l2) (w\<lparr>Lock := l\<rparr>)))"
  using lock_values_cases [OF assms] by (auto simp: cas_State_def)

text \<open>What the assertions of an owner need.\<close>

lemma owner_facts:
  assumes "lock_inv orig w" "pc w c \<in> owning"
  shows "State (Lock w) = LOCK_TAKEN" "pc w c \<in> holder_set \<Longrightarrow> Holder (Lock w) = c"
    "pc w c \<notin> holder_set \<Longrightarrow> Holder (Lock w) = NULL"
    "pc w c \<in> function_null \<Longrightarrow> FunctionWhichTookLock (Lock w) = NULL" "\<not> intr w c"
proof -
  have "pc w c \<noteq> Outside" using assms(2) owning_subsets(3) by auto
  then show "State (Lock w) = LOCK_TAKEN" "pc w c \<in> holder_set \<Longrightarrow> Holder (Lock w) = c"
    "pc w c \<notin> holder_set \<Longrightarrow> Holder (Lock w) = NULL"
    "pc w c \<in> function_null \<Longrightarrow> FunctionWhichTookLock (Lock w) = NULL" "\<not> intr w c"
    using lock_inv_owner [OF assms] lock_inv_intr [OF assms(1), of c]
    by (simp_all add: owned_by_def intr_ok_def)
qed

lemma not_holder:
  assumes "lock_inv orig w" "pc w c \<notin> owning" "c \<noteq> NULL"
  shows "c \<noteq> Holder (Lock w)"
  using assms by (auto simp: lock_inv_def unowned_def owned_by_def split: if_splits)

lemma step_ok_freed:
  assumes "lock_inv orig w" "pc w c = RelFree" "RelIntr \<in> L"
  shows "step_ok orig w c (Some (goto c RelIntr (w\<lparr>Lock := (Lock w)\<lparr>State := LOCK_FREE\<rparr>\<rparr>))) L"
  using inv_step_free_lock [OF assms(1,2)] assms(3) by (simp add: step_ok_def)


lemma acquire_steps:
  assumes inv: "lock_inv orig w" and c: "c \<noteq> NULL"
  shows "pc w c \<in> insert Outside (acquiring - {AcqMonitor})
      \<Longrightarrow> step_ok orig w c (SpinlockAcquire_step c ra w) (insert Inside (acquiring - {AcqMonitor}))"
    and "pc w c \<in> insert Outside acquiring
      \<Longrightarrow> step_ok orig w c (MonitorLockAcquire_step c ra w) (insert Inside acquiring)"
proof -
  note f = owner_facts [OF inv, of c]
  assume "pc w c \<in> insert Outside (acquiring - {AcqMonitor})"
  then consider "pc w c = Outside" | "pc w c = AcqCheck" | "pc w c = AcqTry" | "pc w c = AcqWait"
    | "pc w c = AcqTaken" | "pc w c = AcqHolder" | "pc w c = AcqDone" by (auto simp: acquiring_def)
  then show "step_ok orig w c (SpinlockAcquire_step c ra w) (insert Inside (acquiring - {AcqMonitor}))"
  proof cases
    case 7
    with f show ?thesis by (auto simp: SpinlockAcquire_step.simps pc_sets intro!: step_ok_owner_goto [OF inv])
  qed (use inv c f not_holder [OF inv _ c] in \<open>auto simp: SpinlockAcquire_step.simps Let_def cas_branches [unfolded Let_def] pc_sets
        intro!: step_ok_goto step_ok_disable step_ok_cas_case step_ok_owner\<close>)
next
  note f = owner_facts [OF inv, of c]
  assume "pc w c \<in> insert Outside acquiring"
  then consider "pc w c = Outside" | "pc w c = AcqCheck" | "pc w c = AcqMonitor" | "pc w c = AcqTry" | "pc w c = AcqWait"
    | "pc w c = AcqTaken" | "pc w c = AcqHolder" | "pc w c = AcqDone" by (auto simp: acquiring_def)
  then show "step_ok orig w c (MonitorLockAcquire_step c ra w) (insert Inside acquiring)"
  proof cases
    case 8
    with f show ?thesis by (auto simp: MonitorLockAcquire_step.simps pc_sets intro!: step_ok_owner_goto [OF inv])
  qed (use inv c f not_holder [OF inv _ c] in \<open>auto simp: MonitorLockAcquire_step.simps Let_def pc_sets
        intro!: step_ok_goto step_ok_disable step_ok_cas_case step_ok_owner\<close>)
qed

lemma try_steps:
  assumes inv: "lock_inv orig w" and p: "pc w c \<in> insert Outside trying"
  shows "step_ok orig w c (SpinlockTryAcquire_step c ra w) (trying \<union> {Outside, Inside})"
proof -
  note f = owner_facts [OF inv, of c]
  from p consider "pc w c = Outside" | "pc w c = TryTry" | "pc w c = TryFail"
    | "pc w c = TryTaken" | "pc w c = TryHolder" | "pc w c = TryDone" by (auto simp: trying_def)
  then show ?thesis
  proof cases
    case 6
    with f show ?thesis by (auto simp: SpinlockTryAcquire_step.simps pc_sets intro!: step_ok_owner_goto [OF inv])
  qed (use inv f in \<open>auto simp: SpinlockTryAcquire_step.simps Let_def pc_sets
        intro!: step_ok_goto step_ok_disable step_ok_cas_case step_ok_restore step_ok_owner\<close>)
qed

lemma release_steps:
  assumes inv: "lock_inv orig w" and p: "pc w c \<in> insert Inside releasing"
  shows "step_ok orig w c (SpinlockRelease_step c ra w) (insert Outside releasing)"
proof -
  note f = owner_facts [OF inv, of c]
  from p consider "pc w c = Inside" | "pc w c = RelHolder" | "pc w c = RelFunction"
    | "pc w c = RelFree" | "pc w c = RelIntr" by (auto simp: releasing_def)
  then show ?thesis
  proof cases
    case 1
    with f show ?thesis by (auto simp: SpinlockRelease_step.simps pc_sets intro!: step_ok_owner_goto [OF inv])
  qed (use inv f in \<open>auto simp: SpinlockRelease_step.simps pc_sets
        intro!: step_ok_restore step_ok_freed step_ok_owner\<close>)
qed

lemma monitor_same_steps:
  "MonitorLockTryAcquire_step c ra w = SpinlockTryAcquire_step c ra w"
  "MonitorLockRelease_step c ra w = SpinlockRelease_step c ra w"
  by (simp_all add: MonitorLockTryAcquire_step.simps SpinlockTryAcquire_step.simps
      MonitorLockRelease_step.simps SpinlockRelease_step.simps)

lemma acquire_takes_free:
  assumes "pc w c = AcqTry" "State (Lock w) = LOCK_FREE"
  shows "\<exists>w'. SpinlockAcquire_step c ra w = Some w' \<and> pc w' c = AcqTaken"
    "\<exists>w'. MonitorLockAcquire_step c ra w = Some w' \<and> pc w' c = AcqTaken"
  using assms by (simp_all add: SpinlockAcquire_step.simps MonitorLockAcquire_step.simps cas_State_def)

lemma LockSystemInit_fields:
  "LockAcquire (LockSystemInit b) = (if b then MonitorLockAcquire_step else SpinlockAcquire_step)"
  "LockTryAcquire (LockSystemInit b) c ra w = SpinlockTryAcquire_step c ra w"
  "LockRelease (LockSystemInit b) c ra w = SpinlockRelease_step c ra w"
  "LockIsOwner (LockSystemInit b) c w \<longleftrightarrow> c = Holder (Lock w)"
  "LockInit (LockSystemInit b) = \<lparr>State = LOCK_FREE, Holder = NULL, FunctionWhichTookLock = NULL\<rparr>"
  by (simp_all add: LockSystemInit_def monitor_same_steps SpinlockIsOwner_def MonitorLockIsOwner_def
      SpinlockInit_def MonitorLockInit_def)

interpretation spin: cpu_lock "LockSystemInit False" "acquiring - {AcqMonitor}"
  by (unfold_locales, unfold LockSystemInit_fields if_False)
    (blast intro: acquire_steps try_steps release_steps acquire_takes_free)+

interpretation mon: cpu_lock "LockSystemInit True" acquiring
  by (unfold_locales, unfold LockSystemInit_fields if_True)
    (blast intro: acquire_steps try_steps release_steps acquire_takes_free)+

section \<open>Properties\<close>

text \<open>
  C20. Whichever lock is chosen at boot, in every interleaving of the processors at most one is
  inside; it is the one \<^verbatim>\<open>LockIsOwner\<close> accepts and its interrupts are off; no assertion of
  acquire, try or release can fail; outside, every processor has the interrupt state it had
  before; and a waiting processor takes the lock as soon as it tries while nobody owns it.
\<close>

theorem lock_mutual_exclusion:
  assumes "lock_reach (LockSystemInit MonitorSupport) orig w"
  shows "(\<forall>c d. pc w c = Inside \<and> pc w d = Inside \<longrightarrow> c = d)
    \<and> (\<forall>c. pc w c = Inside \<longrightarrow> LockIsOwner (LockSystemInit MonitorSupport) c w \<and> \<not> intr w c)
    \<and> (\<forall>c. pc w c = Outside \<longrightarrow> intr w c = orig c)
    \<and> (\<forall>c ra. c \<noteq> NULL \<and> pc w c \<in> insert Outside acquiring
          \<longrightarrow> LockAcquire (LockSystemInit MonitorSupport) c ra w \<noteq> None)
    \<and> (\<forall>c ra. c \<noteq> NULL \<and> pc w c \<in> insert Outside trying
          \<longrightarrow> LockTryAcquire (LockSystemInit MonitorSupport) c ra w \<noteq> None)
    \<and> (\<forall>c ra. c \<noteq> NULL \<and> pc w c \<in> insert Inside releasing
          \<longrightarrow> LockRelease (LockSystemInit MonitorSupport) c ra w \<noteq> None)
    \<and> (\<forall>c ra. pc w c = AcqTry \<and> (\<forall>d. pc w d \<notin> owning)
          \<longrightarrow> (\<exists>w'. LockAcquire (LockSystemInit MonitorSupport) c ra w = Some w' \<and> pc w' c = AcqTaken))"
proof -
  obtain acq where l: "cpu_lock (LockSystemInit MonitorSupport) acq"
    using spin.cpu_lock_axioms mon.cpu_lock_axioms by (cases MonitorSupport) auto
  note r = cpu_lock.reach_inv [OF l assms] and m = cpu_lock.reach_mutex [OF l assms]
    and a = cpu_lock.reach_no_assert [OF l assms]
  have inv: "lock_inv orig w" using r by blast
  have out: "intr w c = orig c" if "pc w c = Outside" for c
    using lock_inv_intr [OF inv, of c] that by (simp add: intr_ok_def)
  have take: "\<exists>w'. LockAcquire (LockSystemInit MonitorSupport) c ra w = Some w' \<and> pc w' c = AcqTaken"
    if "pc w c = AcqTry" "\<forall>d. pc w d \<notin> owning" for c ra
  proof -
    have "State (Lock w) = LOCK_FREE" using inv that(2) by (auto simp: lock_inv_def unowned_def owned_by_def)
    then show ?thesis using cpu_lock.take_free [OF l inv that(1)] by blast
  qed
  show ?thesis using m a out take by blast
qed


text \<open>Processor 16 of a machine with monitor support after its first four steps: it owns the lock.\<close>

definition sample_lock_world :: lock_world where
  "sample_lock_world = \<lparr>Lock = \<lparr>State = LOCK_TAKEN, Holder = NULL, FunctionWhichTookLock = NULL\<rparr>,
     pc = (\<lambda>_. Outside)(16 := AcqTaken), intr = (\<lambda>_. True)(16 := False), IntrState = (\<lambda>_. False)(16 := True)\<rparr>"

lemma sample_lock_world_reach: "lock_reach (LockSystemInit True) (\<lambda>_. True) sample_lock_world"
proof -
  let ?F = "LockSystemInit True" let ?o = "\<lambda>_. True"
  define w0 where "w0 = \<lparr>Lock = LockInit ?F, pc = (\<lambda>_. Outside), intr = ?o, IntrState = (\<lambda>_. False)\<rparr>"
  define w1 where "w1 = goto 16 AcqCheck (CpuIntrDisable 16 w0)"
  define w2 where "w2 = goto 16 AcqMonitor w1"
  define w3 where "w3 = goto 16 AcqTry w2"
  have L: "Lock w3 = SpinlockInit" "pc w3 16 = AcqTry"
    by (simp_all add: w3_def w2_def w1_def w0_def LockSystemInit_fields SpinlockInit_def)
  note defs = LockSystemInit_fields MonitorLockAcquire_step.simps acquiring_def
  have "lock_reach ?F ?o w0" unfolding w0_def by (rule lock_reach.boot)
  then have "lock_reach ?F ?o w1"
    by (rule lock_reach.acquire [where c = 16]) (simp_all add: defs w1_def, simp_all add: w0_def)
  then have "lock_reach ?F ?o w2"
    by (rule lock_reach.acquire [where c = 16])
      (simp_all add: defs w2_def w1_def, simp_all add: w0_def LockSystemInit_fields)
  then have "lock_reach ?F ?o w3"
    by (rule lock_reach.acquire [where c = 16]) (simp_all add: defs w3_def w2_def)
  then have "lock_reach ?F ?o (goto 16 AcqTaken (w3\<lparr>Lock := SpinlockInit\<lparr>State := LOCK_TAKEN\<rparr>\<rparr>))"
    by (rule lock_reach.acquire [where c = 16]) (simp_all add: defs L cas_State_def, simp add: SpinlockInit_def)
  moreover have "goto 16 AcqTaken (w3\<lparr>Lock := SpinlockInit\<lparr>State := LOCK_TAKEN\<rparr>\<rparr>) = sample_lock_world"
    by (simp add: w3_def w2_def w1_def w0_def sample_lock_world_def goto_def CpuIntrDisable_def SpinlockInit_def)
  ultimately show ?thesis by simp
qed

theorem lock_mutual_exclusion_witness:
  "LockAcquire (LockSystemInit True) 16 0x7000 sample_lock_world \<noteq> None
   \<and> LockTryAcquire (LockSystemInit True) 32 0x7000 sample_lock_world \<noteq> None \<and> intr sample_lock_world 32"
  using lock_mutual_exclusion [OF sample_lock_world_reach]
  by (simp add: sample_lock_world_def acquiring_def trying_def)

end
