(* ===== verification/CL_RwLock.thy ===== *)
theory CL_RwLock
  imports Prelude
begin

text \<open>
  \<^verbatim>\<open>CommonLib/src/rw_spinlock.c\<close>: the reader-writer spinlock.

  The lock is three adjacent 16-bit counters. A writer compares and exchanges the 32 bits of
  \<^verbatim>\<open>ActiveWriter\<close> and \<^verbatim>\<open>ActiveReaders\<close>, a reader those of \<^verbatim>\<open>WaitingWriters\<close> and
  \<^verbatim>\<open>ActiveWriter\<close>; both are modelled on the 32-bit value the two words form. As in
  \<^verbatim>\<open>CL_Lock\<close>, each processor performs one memory access at a time, in any interleaving.
\<close>

section \<open>The lock and the world\<close>

record RW_SPINLOCK =
  WaitingWriters :: WORD
  ActiveWriter :: WORD
  ActiveReaders :: WORD

datatype rw_pc = ROut
  | WInc | WCas | WDec | WIn
  | RCas | RInc | RAssert | RDec | RIn
  | WRel | RelIntr

record rw_world =
  Spinlock :: RW_SPINLOCK
  rpc :: "ADDR \<Rightarrow> rw_pc"
  rintr :: "ADDR \<Rightarrow> bool"
  rIntrState :: "ADDR \<Rightarrow> bool"

definition rgoto :: "ADDR \<Rightarrow> rw_pc \<Rightarrow> rw_world \<Rightarrow> rw_world" where
  "rgoto c l w = w\<lparr>rpc := (rpc w)(c := l)\<rparr>"

definition rw_disable :: "ADDR \<Rightarrow> rw_world \<Rightarrow> rw_world" where
  "rw_disable c w = w\<lparr>rIntrState := (rIntrState w)(c := rintr w c), rintr := (rintr w)(c := False)\<rparr>"

definition rw_set_intr :: "ADDR \<Rightarrow> rw_world \<Rightarrow> rw_world" where
  "rw_set_intr c w = w\<lparr>rintr := (rintr w)(c := rIntrState w c)\<rparr>"

text \<open>The little-endian \<^verbatim>\<open>DWORD\<close> that starts at a word and includes the next one.\<close>

definition dword_at :: "WORD \<Rightarrow> WORD \<Rightarrow> DWORD" where
  "dword_at lo hi = ucast lo OR push_bit 16 (ucast hi)"

definition low_word :: "DWORD \<Rightarrow> WORD" where "low_word d = ucast d"
definition high_word :: "DWORD \<Rightarrow> WORD" where "high_word d = ucast (drop_bit 16 d)"

text \<open>\<^verbatim>\<open>_InterlockedCompareExchange((volatile DWORD*) &ActiveWriter, 1, 0)\<close> and the reader's
  \<^verbatim>\<open>_InterlockedCompareExchange((volatile DWORD*) &WaitingWriters, MAX_WORD + 1, 0)\<close>.\<close>

definition cas_writer :: "RW_SPINLOCK \<Rightarrow> DWORD \<times> RW_SPINLOCK" where
  "cas_writer s = (let old = dword_at (ActiveWriter s) (ActiveReaders s) in
     (old, if old = 0 then s\<lparr>ActiveWriter := low_word 1, ActiveReaders := high_word 1\<rparr> else s))"

definition cas_reader :: "RW_SPINLOCK \<Rightarrow> DWORD \<times> RW_SPINLOCK" where
  "cas_reader s = (let old = dword_at (WaitingWriters s) (ActiveWriter s); v = ucast MAX_WORD + 1 in
     (old, if old = 0 then s\<lparr>WaitingWriters := low_word v, ActiveWriter := high_word v\<rparr> else s))"

section \<open>Operations\<close>

definition RwSpinlockInit :: RW_SPINLOCK where
  "RwSpinlockInit = \<lparr>WaitingWriters = 0, ActiveWriter = 0, ActiveReaders = 0\<rparr>"

fun RwSpinlockAcquire_step :: "ADDR \<Rightarrow> bool \<Rightarrow> rw_world \<Rightarrow> rw_world option" where
  "RwSpinlockAcquire_step c Exclusive w = (let s = Spinlock w in case rpc w c of
     ROut \<Rightarrow> Some (rgoto c (if Exclusive then WInc else RCas) (rw_disable c w))
   | WInc \<Rightarrow> Some (rgoto c WCas (w\<lparr>Spinlock := s\<lparr>WaitingWriters := WaitingWriters s + 1\<rparr>\<rparr>))
   | WCas \<Rightarrow> (let (old, s) = cas_writer s in
       Some (rgoto c (if old \<noteq> 0 then WCas else WDec) (w\<lparr>Spinlock := s\<rparr>)))
   | WDec \<Rightarrow> Some (rgoto c WIn (w\<lparr>Spinlock := s\<lparr>WaitingWriters := WaitingWriters s - 1\<rparr>\<rparr>))
   | RCas \<Rightarrow> (let (old, s) = cas_reader s in
       Some (rgoto c (if old \<noteq> 0 then RCas else RInc) (w\<lparr>Spinlock := s\<rparr>)))
   | RInc \<Rightarrow> Some (rgoto c RAssert (w\<lparr>Spinlock := s\<lparr>ActiveReaders := ActiveReaders s + 1\<rparr>\<rparr>))
   | RAssert \<Rightarrow> do {
       ASSERT (1 = ActiveWriter s);
       Some (rgoto c RDec w)
     }
   | RDec \<Rightarrow> Some (rgoto c RIn (w\<lparr>Spinlock := s\<lparr>ActiveWriter := ActiveWriter s - 1\<rparr>\<rparr>))
   | _ \<Rightarrow> None)"

fun RwSpinlockRelease_step :: "ADDR \<Rightarrow> rw_world \<Rightarrow> rw_world option" where
  "RwSpinlockRelease_step c w = (let s = Spinlock w in case rpc w c of
     WIn \<Rightarrow> do {
       ASSERT (1 = ActiveWriter s);
       Some (rgoto c WRel w)
     }
   | WRel \<Rightarrow> Some (rgoto c RelIntr (w\<lparr>Spinlock := s\<lparr>ActiveWriter := ActiveWriter s - 1\<rparr>\<rparr>))
   | RIn \<Rightarrow> Some (rgoto c RelIntr (w\<lparr>Spinlock := s\<lparr>ActiveReaders := ActiveReaders s - 1\<rparr>\<rparr>))
   | RelIntr \<Rightarrow> Some (rgoto c ROut (rw_set_intr c w))
   | _ \<Rightarrow> None)"

declare RwSpinlockAcquire_step.simps [simp del] RwSpinlockRelease_step.simps [simp del]

text \<open>The processors \<open>P\<close> acquire and release the lock, shared or exclusive, in any interleaving.\<close>

definition rw_acquiring :: "rw_pc set" where
  "rw_acquiring = {ROut, WInc, WCas, WDec, RCas, RInc, RAssert, RDec}"

definition rw_releasing :: "rw_pc set" where
  "rw_releasing = {WIn, RIn, WRel, RelIntr}"

inductive rw_reach :: "ADDR set \<Rightarrow> (ADDR \<Rightarrow> bool) \<Rightarrow> rw_world \<Rightarrow> bool" for P orig where
  boot: "rw_reach P orig \<lparr>Spinlock = RwSpinlockInit, rpc = (\<lambda>_. ROut), rintr = orig, rIntrState = i\<rparr>"
| acquire: "rw_reach P orig w \<Longrightarrow> c \<in> P \<Longrightarrow> rpc w c \<in> rw_acquiring
    \<Longrightarrow> RwSpinlockAcquire_step c ex w = Some w' \<Longrightarrow> rw_reach P orig w'"
| release: "rw_reach P orig w \<Longrightarrow> c \<in> P \<Longrightarrow> rpc w c \<in> rw_releasing
    \<Longrightarrow> RwSpinlockRelease_step c w = Some w' \<Longrightarrow> rw_reach P orig w'"

section \<open>Counting processors\<close>

definition cnt :: "ADDR set \<Rightarrow> rw_world \<Rightarrow> rw_pc set \<Rightarrow> nat" where
  "cnt P w S = card {c \<in> P. rpc w c \<in> S}"

definition waiting :: "rw_pc set" where "waiting = {WCas, WDec}"
definition readers :: "rw_pc set" where "readers = {RAssert, RDec, RIn}"
definition writer :: "rw_pc set" where "writer = {WDec, WIn, WRel}"
definition pseudo :: "rw_pc set" where "pseudo = {RInc, RAssert, RDec}"

lemma rw_sets:
  "l \<in> waiting \<longleftrightarrow> l = WCas \<or> l = WDec" "l \<in> readers \<longleftrightarrow> l = RAssert \<or> l = RDec \<or> l = RIn"
  "l \<in> writer \<longleftrightarrow> l = WDec \<or> l = WIn \<or> l = WRel" "l \<in> pseudo \<longleftrightarrow> l = RInc \<or> l = RAssert \<or> l = RDec"
  by (auto simp: waiting_def readers_def writer_def pseudo_def)

lemma rpc_rgoto [simp]:
  "rpc (rgoto c l w) d = (if d = c then l else rpc w d)" "Spinlock (rgoto c l w) = Spinlock w"
  "rintr (rgoto c l w) = rintr w" "rIntrState (rgoto c l w) = rIntrState w"
  by (simp_all add: rgoto_def)

lemma fields_rw_intr [simp]:
  "rpc (rw_disable c w) = rpc w" "Spinlock (rw_disable c w) = Spinlock w"
  "rpc (rw_set_intr c w) = rpc w" "Spinlock (rw_set_intr c w) = Spinlock w"
  by (simp_all add: rw_disable_def rw_set_intr_def)

lemma cnt_move:
  assumes "finite P" "c \<in> P" "\<forall>d. rpc w' d = (if d = c then l else rpc w d)"
  shows "cnt P w' S + (if rpc w c \<in> S then 1 else 0) = cnt P w S + (if l \<in> S then 1 else 0)"
proof -
  let ?A = "{d \<in> P. d \<noteq> c \<and> rpc w d \<in> S}"
  have f: "finite ?A" using assms(1) by simp
  have "{d \<in> P. rpc w' d \<in> S} = (if l \<in> S then insert c ?A else ?A)"
    using assms(2,3) by auto
  moreover have "{d \<in> P. rpc w d \<in> S} = (if rpc w c \<in> S then insert c ?A else ?A)"
    using assms(2) by auto
  ultimately show ?thesis using f by (simp add: cnt_def)
qed

lemma cnt_bound: "finite P \<Longrightarrow> cnt P w S \<le> card P"
  unfolding cnt_def by (intro card_mono) auto

lemma cnt_zero: "finite P \<Longrightarrow> cnt P w S = 0 \<longleftrightarrow> (\<forall>c \<in> P. rpc w c \<notin> S)"
  by (auto simp: cnt_def)

lemma cnt_one:
  assumes "finite P" "cnt P w S \<le> 1" "c \<in> P" "d \<in> P" "rpc w c \<in> S" "rpc w d \<in> S"
  shows "c = d"
proof -
  have "finite {x \<in> P. rpc w x \<in> S}" "card {x \<in> P. rpc w x \<in> S} \<le> 1" using assms(1,2) by (simp_all add: cnt_def)
  then have "\<forall>x \<in> {x \<in> P. rpc w x \<in> S}. \<forall>y \<in> {x \<in> P. rpc w x \<in> S}. x = y"
    by (simp only: card_le_Suc0_iff_eq One_nat_def)
  then show ?thesis using assms(3-6) by blast
qed

text \<open>
  The invariant: the counters count the processors at the places that have raised and not yet
  lowered them; at most one processor has raised \<^verbatim>\<open>ActiveWriter\<close>; with a true writer there is no
  reader.
\<close>

definition rw_inv :: "ADDR set \<Rightarrow> rw_world \<Rightarrow> bool" where
  "rw_inv P w \<longleftrightarrow> (\<forall>c. c \<notin> P \<longrightarrow> rpc w c = ROut)
    \<and> WaitingWriters (Spinlock w) = of_nat (cnt P w waiting)
    \<and> ActiveReaders (Spinlock w) = of_nat (cnt P w readers)
    \<and> ActiveWriter (Spinlock w) = of_nat (cnt P w writer + cnt P w pseudo)
    \<and> cnt P w writer + cnt P w pseudo \<le> 1
    \<and> (cnt P w writer = 0 \<or> cnt P w readers = 0)"

lemma dword_at_zero: "dword_at lo hi = 0 \<longleftrightarrow> lo = 0 \<and> hi = 0"
proof -
  have "bit (dword_at lo hi) n \<longleftrightarrow> bit lo n \<or> (16 \<le> n \<and> n < 32 \<and> bit hi (n - 16))" for n
    by (auto simp: dword_at_def bit_simps dest: bit_imp_le_length)
  note b = this
  show ?thesis
  proof
    assume z: "dword_at lo hi = 0"
    have "\<not> bit lo n" for n using b [of n] z by simp
    moreover have "\<not> bit hi n" for n
      using b [of "n + 16"] z by (cases "n < 16") (auto dest: bit_imp_le_length)
    ultimately show "lo = 0 \<and> hi = 0" by (auto intro!: bit_word_eqI)
  qed (simp add: dword_at_def)
qed

lemma of_nat_WORD_0: "n < 65536 \<Longrightarrow> (of_nat n :: WORD) = 0 \<longleftrightarrow> n = 0"
  by (auto simp: word_of_nat_eq_0_iff dest: dvd_imp_le)

lemma cas_word_values:
  "low_word 1 = 1" "high_word 1 = 0" "low_word (ucast MAX_WORD + 1) = 0" "high_word (ucast MAX_WORD + 1) = 1"
  by (simp_all add: low_word_def high_word_def MAX_WORD_def)

section \<open>Every step keeps the invariant\<close>

text \<open>The count of each set after processor \<open>c\<close> has moved to \<open>l\<close>.\<close>

lemma rw_inv_step:
  assumes inv: "rw_inv P w" and fin: "finite P" and c: "c \<in> P"
    and w': "\<forall>d. rpc w' d = (if d = c then l else rpc w d)"
  shows "rw_inv P w' \<longleftrightarrow> WaitingWriters (Spinlock w') = of_nat (cnt P w' waiting)
    \<and> ActiveReaders (Spinlock w') = of_nat (cnt P w' readers)
    \<and> ActiveWriter (Spinlock w') = of_nat (cnt P w' writer + cnt P w' pseudo)
    \<and> cnt P w' writer + cnt P w' pseudo \<le> 1 \<and> (cnt P w' writer = 0 \<or> cnt P w' readers = 0)"
  using inv c w' by (auto simp: rw_inv_def)

lemma of_nat_pred: "0 < n \<Longrightarrow> (of_nat n :: 'a::len word) - 1 = of_nat (n - 1)"
  by (cases n) simp_all

lemma cnt_moves:
  assumes "finite P" "c \<in> P" "\<forall>d. rpc w' d = (if d = c then l else rpc w d)"
  shows "cnt P w' waiting = cnt P w waiting + (if l \<in> waiting then 1 else 0) - (if rpc w c \<in> waiting then 1 else 0)"
    "cnt P w' readers = cnt P w readers + (if l \<in> readers then 1 else 0) - (if rpc w c \<in> readers then 1 else 0)"
    "cnt P w' writer = cnt P w writer + (if l \<in> writer then 1 else 0) - (if rpc w c \<in> writer then 1 else 0)"
    "cnt P w' pseudo = cnt P w pseudo + (if l \<in> pseudo then 1 else 0) - (if rpc w c \<in> pseudo then 1 else 0)"
  using cnt_move [OF assms, of waiting] cnt_move [OF assms, of readers] cnt_move [OF assms, of writer]
    cnt_move [OF assms, of pseudo] by (auto split: if_splits)

lemma cnt_pos:
  assumes "finite P" "c \<in> P" "rpc w c \<in> S"
  shows "0 < cnt P w S"
  using cnt_zero [OF assms(1), of w S] assms(2,3) by (cases "cnt P w S") auto

lemma rgoto_same: "rpc w c = l \<Longrightarrow> rgoto c l w = w"
  by (auto simp: rgoto_def)

text \<open>One step that moves \<open>c\<close> to \<open>l\<close>, in terms of the counts before it.\<close>

lemma rw_inv_move:
  assumes inv: "rw_inv P w" and fin: "finite P" and c: "c \<in> P" and w1: "rpc w1 = rpc w"
  shows "rw_inv P (rgoto c l w1) \<longleftrightarrow> (\<exists>nw nr na np. WaitingWriters (Spinlock w1) = of_nat nw \<and> ActiveReaders (Spinlock w1) = of_nat nr
    \<and> ActiveWriter (Spinlock w1) = of_nat (na + np) \<and> na + np \<le> 1 \<and> (na = 0 \<or> nr = 0)
    \<and> nw = cnt P w waiting + (if l \<in> waiting then 1 else 0) - (if rpc w c \<in> waiting then 1 else 0)
    \<and> nr = cnt P w readers + (if l \<in> readers then 1 else 0) - (if rpc w c \<in> readers then 1 else 0)
    \<and> na = cnt P w writer + (if l \<in> writer then 1 else 0) - (if rpc w c \<in> writer then 1 else 0)
    \<and> np = cnt P w pseudo + (if l \<in> pseudo then 1 else 0) - (if rpc w c \<in> pseudo then 1 else 0))"
proof -
  have m: "\<forall>d. rpc (rgoto c l w1) d = (if d = c then l else rpc w d)" using w1 by simp
  show ?thesis
    unfolding rw_inv_step [OF inv fin c m] cnt_moves [OF fin c m] by auto
qed

lemma acquire_step_ok:
  assumes inv: "rw_inv P w" and fin: "finite P" "card P < 65536" and c: "c \<in> P" "rpc w c \<in> rw_acquiring"
  shows "\<exists>w' l. RwSpinlockAcquire_step c ex w = Some w' \<and> rw_inv P w'
     \<and> (\<forall>d. rpc w' d = (if d = c then l else rpc w d))"
proof -
  have b: "cnt P w S < 65536" for S using cnt_bound [OF fin(1), of w S] fin(2) by simp
  note I = inv [unfolded rw_inv_def]
  note pos = cnt_pos [OF fin(1) c(1), of w]
  note mv = rw_inv_move [OF inv fin(1) c(1)]
  note S = RwSpinlockAcquire_step.simps cas_writer_def cas_reader_def Let_def dword_at_zero cas_word_values
    of_nat_WORD_0 b
  have step: ?thesis if "RwSpinlockAcquire_step c ex w = Some (rgoto c l w1)" "rpc w1 = rpc w"
    "rw_inv P (rgoto c l w1)" for l w1 using that by auto
  from c(2) consider "rpc w c = ROut" | "rpc w c = WInc" | "rpc w c = WCas" | "rpc w c = WDec" | "rpc w c = RCas"
    | "rpc w c = RInc" | "rpc w c = RAssert" | "rpc w c = RDec" by (auto simp: rw_acquiring_def)
  then show ?thesis
  proof cases
    case 1
    show ?thesis by (rule step [of "if ex then WInc else RCas" "rw_disable c w"]) (use 1 I in \<open>auto simp: S mv rw_sets\<close>)
  next
    case 2
    show ?thesis by (rule step [of WCas "w\<lparr>Spinlock := (Spinlock w)\<lparr>WaitingWriters := WaitingWriters (Spinlock w) + 1\<rparr>\<rparr>"]) (use 2 I in \<open>auto simp: S mv rw_sets add.commute\<close>)
  next
    case 3
    show ?thesis
    proof (cases "cnt P w writer + cnt P w pseudo = 0 \<and> cnt P w readers = 0")
      case True
      show ?thesis by (rule step [of WDec "w\<lparr>Spinlock := (Spinlock w)\<lparr>ActiveWriter := 1, ActiveReaders := 0\<rparr>\<rparr>"]) (use 3 I True pos [of waiting] in \<open>auto simp: S mv rw_sets\<close>)
    next
      case False
      then have "dword_at (ActiveWriter (Spinlock w)) (ActiveReaders (Spinlock w)) \<noteq> 0"
        using I b [of readers] by (auto simp: dword_at_zero of_nat_WORD_0 b simp del: of_nat_add)
      then show ?thesis by (intro step [of WCas w]) (use 3 inv in \<open>simp_all add: S rgoto_same del: dword_at_zero\<close>)
    qed
  next
    case 4
    then have n: "cnt P w writer = 1" "cnt P w pseudo = 0" "cnt P w readers = 0" "0 < cnt P w waiting"
      using I pos [of waiting] pos [of writer] by (auto simp: rw_sets)
    obtain k where k: "cnt P w waiting = Suc k" using n(4) by (cases "cnt P w waiting") auto
    have "WaitingWriters (Spinlock w) = of_nat (Suc k)" "ActiveWriter (Spinlock w) = 1" "ActiveReaders (Spinlock w) = 0"
      using I n k by simp_all
    with 4 n k show ?thesis
      by (intro step [of WIn "w\<lparr>Spinlock := (Spinlock w)\<lparr>WaitingWriters := WaitingWriters (Spinlock w) - 1\<rparr>\<rparr>"])
        (simp_all add: S mv rw_sets)
  next
    case 5
    show ?thesis
    proof (cases "cnt P w writer + cnt P w pseudo = 0 \<and> cnt P w waiting = 0")
      case True
      show ?thesis by (rule step [of RInc "w\<lparr>Spinlock := (Spinlock w)\<lparr>WaitingWriters := 0, ActiveWriter := 1\<rparr>\<rparr>"]) (use 5 I True in \<open>auto simp: S mv rw_sets\<close>)
    next
      case False
      then have "dword_at (WaitingWriters (Spinlock w)) (ActiveWriter (Spinlock w)) \<noteq> 0"
        using I b [of waiting] by (auto simp: dword_at_zero of_nat_WORD_0 b simp del: of_nat_add)
      then show ?thesis by (intro step [of RCas w]) (use 5 inv in \<open>simp_all add: S rgoto_same del: dword_at_zero\<close>)
    qed
  next
    case 6
    show ?thesis by (rule step [of RAssert "w\<lparr>Spinlock := (Spinlock w)\<lparr>ActiveReaders := ActiveReaders (Spinlock w) + 1\<rparr>\<rparr>"]) (use 6 I pos [of pseudo] in \<open>auto simp: S mv rw_sets add.commute\<close>)
  next
    case 7
    then have "cnt P w pseudo = 1" "cnt P w writer = 0" using I pos [of pseudo] by (auto simp: rw_sets)
    then show ?thesis by (intro step [of RDec w]) (use 7 I pos [of readers] in \<open>auto simp: S mv rw_sets\<close>)
  next
    case 8
    then have "cnt P w pseudo = 1" "cnt P w writer = 0" using I pos [of pseudo] by (auto simp: rw_sets)
    then show ?thesis by (intro step [of RIn "w\<lparr>Spinlock := (Spinlock w)\<lparr>ActiveWriter := ActiveWriter (Spinlock w) - 1\<rparr>\<rparr>"]) (use 8 I pos [of readers] in \<open>auto simp: S mv rw_sets\<close>)
  qed
qed

lemma release_step_ok:
  assumes inv: "rw_inv P w" and fin: "finite P" and c: "c \<in> P" "rpc w c \<in> rw_releasing"
  shows "\<exists>w' l. RwSpinlockRelease_step c w = Some w' \<and> rw_inv P w'
     \<and> (\<forall>d. rpc w' d = (if d = c then l else rpc w d))"
proof -
  note I = inv [unfolded rw_inv_def]
  note pos = cnt_pos [OF fin(1) c(1), of w]
  note S = RwSpinlockRelease_step.simps Let_def rw_inv_move [OF inv fin(1) c(1)] rw_sets
  have step: ?thesis if "RwSpinlockRelease_step c w = Some (rgoto c l w1)" "rpc w1 = rpc w"
    "rw_inv P (rgoto c l w1)" for l w1 using that by auto
  have one: "cnt P w writer = 1 \<and> cnt P w pseudo = 0 \<and> ActiveWriter (Spinlock w) = 1" if "rpc w c \<in> writer"
  proof -
    have "cnt P w writer = 1" "cnt P w pseudo = 0" using I pos [OF that] by auto
    then show ?thesis using I by simp
  qed
  from c(2) consider "rpc w c = WIn" | "rpc w c = WRel" | "rpc w c = RIn" | "rpc w c = RelIntr"
    by (auto simp: rw_releasing_def)
  then show ?thesis
  proof cases
    case 1
    then show ?thesis by (intro step [of WRel w]) (use one I in \<open>auto simp: S\<close>)
  next
    case 2
    then show ?thesis
      by (intro step [of RelIntr "w\<lparr>Spinlock := (Spinlock w)\<lparr>ActiveWriter := ActiveWriter (Spinlock w) - 1\<rparr>\<rparr>"])
        (use one I in \<open>auto simp: S\<close>)
  next
    case 3
    then obtain k where "cnt P w readers = Suc k" using pos [of readers] by (cases "cnt P w readers") (auto simp: rw_sets)
    moreover from this have "ActiveReaders (Spinlock w) = of_nat (Suc k)" using I by metis
    ultimately show ?thesis
      by (intro step [of RelIntr "w\<lparr>Spinlock := (Spinlock w)\<lparr>ActiveReaders := ActiveReaders (Spinlock w) - 1\<rparr>\<rparr>"])
        (use 3 I in \<open>auto simp: S\<close>)
  next
    case 4
    then show ?thesis by (intro step [of ROut "rw_set_intr c w"]) (use I in \<open>auto simp: S\<close>)
  qed
qed

section \<open>Reachable worlds\<close>

lemma rw_reach_inv:
  assumes "rw_reach P orig w" "finite P" "card P < 65536"
  shows "rw_inv P w"
  using assms
proof (induction rule: rw_reach.induct)
  case (boot i)
  then show ?case by (simp add: rw_inv_def RwSpinlockInit_def cnt_def waiting_def readers_def writer_def pseudo_def)
next
  case (acquire w c ex w')
  then show ?case using acquire_step_ok [of P w c ex] by auto
next
  case (release w c w')
  then show ?case using release_step_ok [of P w c] by auto
qed

text \<open>A processor outside the lock has its own interrupt state; any other one has interrupts disabled
  and its state saved.\<close>

definition rw_intr_inv :: "(ADDR \<Rightarrow> bool) \<Rightarrow> rw_world \<Rightarrow> bool" where
  "rw_intr_inv orig w \<longleftrightarrow> (\<forall>c. if rpc w c = ROut then rintr w c = orig c else \<not> rintr w c \<and> rIntrState w c = orig c)"

lemma fields_rw_pointwise:
  "rintr (rw_disable c w) d = (d \<noteq> c \<and> rintr w d)"
  "rIntrState (rw_disable c w) d = (if d = c then rintr w c else rIntrState w d)"
  "rintr (rw_set_intr c w) d = (if d = c then rIntrState w c else rintr w d)"
  "rIntrState (rw_set_intr c w) = rIntrState w"
  by (simp_all add: rw_disable_def rw_set_intr_def)

lemma acquire_intr:
  assumes "RwSpinlockAcquire_step c ex w = Some w'"
  shows "rpc w' c \<noteq> ROut \<and> (\<forall>d. d \<noteq> c \<longrightarrow> rpc w' d = rpc w d \<and> rintr w' d = rintr w d \<and> rIntrState w' d = rIntrState w d)
    \<and> (if rpc w c = ROut then \<not> rintr w' c \<and> rIntrState w' c = rintr w c
       else rintr w' c = rintr w c \<and> rIntrState w' c = rIntrState w c)"
  using assms [symmetric] unfolding RwSpinlockAcquire_step.simps Let_def cas_writer_def cas_reader_def ASSERT_def
  by (cases "rpc w c") (simp_all add: fields_rw_pointwise split: if_splits)

lemma release_intr:
  assumes "RwSpinlockRelease_step c w = Some w'"
  shows "rpc w c \<noteq> ROut \<and> (\<forall>d. d \<noteq> c \<longrightarrow> rpc w' d = rpc w d \<and> rintr w' d = rintr w d) \<and> rIntrState w' = rIntrState w
    \<and> rintr w' c = (if rpc w' c = ROut then rIntrState w c else rintr w c)"
  using assms [symmetric] unfolding RwSpinlockRelease_step.simps Let_def ASSERT_def
  by (cases "rpc w c") (simp_all add: fields_rw_pointwise split: if_splits)

lemma rw_reach_intr: "rw_reach P orig w \<Longrightarrow> rw_intr_inv orig w"
proof (induction rule: rw_reach.induct)
  case (acquire w c ex w')
  note I = acquire_intr [OF acquire.hyps(4)]
  show ?case unfolding rw_intr_inv_def
  proof
    fix d
    show "if rpc w' d = ROut then rintr w' d = orig d else \<not> rintr w' d \<and> rIntrState w' d = orig d"
      using acquire.IH [unfolded rw_intr_inv_def, rule_format, of d] I
      by (cases "d = c") (simp_all split: if_splits)
  qed
next
  case (release w c w')
  note I = release_intr [OF release.hyps(4)]
  show ?case unfolding rw_intr_inv_def
  proof
    fix d
    show "if rpc w' d = ROut then rintr w' d = orig d else \<not> rintr w' d \<and> rIntrState w' d = orig d"
      using release.IH [unfolded rw_intr_inv_def, rule_format, of d] I
      by (cases "d = c") (simp_all split: if_splits)
  qed
qed (simp add: rw_intr_inv_def)

lemma rw_inv_excl:
  assumes inv: "rw_inv P w" and fin: "finite P" and c: "c \<in> P" "rpc w c = WIn" and d: "d \<in> P" "d \<noteq> c"
  shows "rpc w d \<noteq> WIn \<and> rpc w d \<noteq> RIn"
proof -
  have "0 < cnt P w writer" using cnt_pos [OF fin c(1), of w writer] c(2) by (simp add: rw_sets)
  then have "cnt P w writer \<le> 1" "cnt P w readers = 0" using inv by (auto simp: rw_inv_def)
  then show ?thesis
    using cnt_one [OF fin _ c(1) d(1), of w writer] cnt_zero [OF fin, of w readers] c d by (auto simp: rw_sets)
qed

text \<open>A processor at a place where it holds, takes or gives back the lock.\<close>

definition rw_busy :: "rw_pc set" where
  "rw_busy = {WDec, WIn, WRel, RInc, RAssert, RDec, RIn}"

lemma reader_cas_waits:
  assumes inv: "rw_inv P w" and fin: "finite P" "card P < 65536" and c: "rpc w c = RCas"
    and d: "d \<in> P" "rpc w d = WCas"
  shows "RwSpinlockAcquire_step c ex w = Some w"
proof -
  have "0 < cnt P w waiting" using cnt_pos [OF fin(1) d(1), of w waiting] d(2) by (simp add: rw_sets)
  moreover have "cnt P w waiting < 65536" using cnt_bound [OF fin(1), of w waiting] fin(2) by simp
  ultimately have "WaitingWriters (Spinlock w) \<noteq> 0" using inv by (simp add: rw_inv_def of_nat_WORD_0)
  then show ?thesis using c by (simp add: RwSpinlockAcquire_step.simps cas_reader_def dword_at_zero Let_def rgoto_same)
qed

lemma writer_cas_enters:
  assumes inv: "rw_inv P w" and fin: "finite P" and c: "rpc w c = WCas" and n: "\<forall>d \<in> P. rpc w d \<notin> rw_busy"
  shows "\<exists>w'. RwSpinlockAcquire_step c ex w = Some w' \<and> rpc w' c = WDec"
proof -
  have "cnt P w writer = 0" "cnt P w pseudo = 0" "cnt P w readers = 0"
    using n by (auto simp: cnt_zero [OF fin] rw_sets rw_busy_def)
  then have "ActiveWriter (Spinlock w) = 0" "ActiveReaders (Spinlock w) = 0" using inv by (auto simp: rw_inv_def)
  then show ?thesis using c by (simp add: RwSpinlockAcquire_step.simps cas_writer_def dword_at_zero Let_def)
qed

text \<open>C21.
  The reader-writer spinlock, run by any set of fewer than 65536 processors in any interleaving of
  their memory accesses: while a writer is inside, no other processor is inside as reader or
  writer; every next access of \<^verbatim>\<open>RwSpinlockAcquire\<close> and \<^verbatim>\<open>RwSpinlockRelease\<close> is possible, so none
  of their assertions fails; a reader is not let in while a writer waits; a waiting writer is let
  in at its next attempt when nobody is inside; a processor that has left the lock runs again with
  the interrupt state it had, and one inside runs with interrupts disabled.
\<close>

theorem rw_exclusion:
  assumes "finite P" "card P < 65536" "rw_reach P orig w"
  shows "(\<forall>c \<in> P. \<forall>d \<in> P. rpc w c = WIn \<and> d \<noteq> c \<longrightarrow> rpc w d \<noteq> WIn \<and> rpc w d \<noteq> RIn)
    \<and> (\<forall>c \<in> P. rpc w c \<in> rw_acquiring \<longrightarrow> RwSpinlockAcquire_step c ex w \<noteq> None)
    \<and> (\<forall>c \<in> P. rpc w c \<in> rw_releasing \<longrightarrow> RwSpinlockRelease_step c w \<noteq> None)
    \<and> (\<forall>c \<in> P. \<forall>d \<in> P. rpc w c = RCas \<and> rpc w d = WCas \<longrightarrow> RwSpinlockAcquire_step c ex w = Some w)
    \<and> (\<forall>c \<in> P. rpc w c = WCas \<and> (\<forall>d \<in> P. rpc w d \<notin> rw_busy)
         \<longrightarrow> (\<exists>w'. RwSpinlockAcquire_step c ex w = Some w' \<and> rpc w' c = WDec))
    \<and> (\<forall>c. rintr w c = (rpc w c = ROut \<and> orig c))"
proof -
  have inv: "rw_inv P w" using assms rw_reach_inv by blast
  have "rw_intr_inv orig w" using assms(3) by (rule rw_reach_intr)
  then have i: "\<forall>c. rintr w c = (rpc w c = ROut \<and> orig c)" by (auto simp: rw_intr_inv_def split: if_splits)
  have a: "RwSpinlockAcquire_step c ex w \<noteq> None" if "c \<in> P" "rpc w c \<in> rw_acquiring" for c
    using acquire_step_ok [OF inv assms(1,2) that, of ex] by auto
  have r: "RwSpinlockRelease_step c w \<noteq> None" if "c \<in> P" "rpc w c \<in> rw_releasing" for c
    using release_step_ok [OF inv assms(1) that] by auto
  show ?thesis
    using rw_inv_excl [OF inv assms(1)] reader_cas_waits [OF inv assms(1,2)] writer_cas_enters [OF inv assms(1)] i a r
    by blast
qed

text \<open>Two processors: processor 1 takes the lock as a writer while processor 2 starts to read.\<close>

definition rw_demo :: "rw_world option" where
  "rw_demo = do {
     w \<leftarrow> RwSpinlockAcquire_step 1 True \<lparr>Spinlock = RwSpinlockInit, rpc = (\<lambda>_. ROut), rintr = (\<lambda>_. True), rIntrState = (\<lambda>_. False)\<rparr>;
     w \<leftarrow> RwSpinlockAcquire_step 2 False w;
     w \<leftarrow> RwSpinlockAcquire_step 1 True w;
     RwSpinlockAcquire_step 1 True w
   }"

lemma rw_demo_reach: "\<exists>w. rw_demo = Some w \<and> rw_reach {1, 2} (\<lambda>_. True) w \<and> rpc w 1 = WDec \<and> rpc w 2 = RCas"
proof -
  let ?R = "rw_reach {1, 2} (\<lambda>_. True)"
  define w0 where "w0 = \<lparr>Spinlock = RwSpinlockInit, rpc = (\<lambda>_. ROut), rintr = (\<lambda>_. True), rIntrState = (\<lambda>_. False)\<rparr>"
  define w1 where "w1 = rgoto 1 WInc (rw_disable 1 w0)"
  define w2 where "w2 = rgoto 2 RCas (rw_disable 2 w1)"
  define w3 where "w3 = rgoto 1 WCas (w2\<lparr>Spinlock := (Spinlock w2)\<lparr>WaitingWriters := WaitingWriters (Spinlock w2) + 1\<rparr>\<rparr>)"
  define w4 where "w4 = rgoto 1 WDec (w3\<lparr>Spinlock := (Spinlock w3)\<lparr>ActiveWriter := 1, ActiveReaders := 0\<rparr>\<rparr>)"
  have "RwSpinlockAcquire_step 1 True w0 = Some w1" "rpc w0 1 = ROut" "?R w0"
    using rw_reach.boot by (simp_all add: RwSpinlockAcquire_step.simps w1_def w0_def)
  moreover have "RwSpinlockAcquire_step 2 False w1 = Some w2" "rpc w1 2 = ROut"
    by (simp_all add: RwSpinlockAcquire_step.simps w2_def w1_def w0_def)
  moreover have "RwSpinlockAcquire_step 1 True w2 = Some w3" "rpc w2 1 = WInc"
    by (simp_all add: RwSpinlockAcquire_step.simps w3_def w2_def w1_def Let_def)
  moreover have "Spinlock w3 = RwSpinlockInit\<lparr>WaitingWriters := 1\<rparr>" "rpc w3 1 = WCas"
    by (simp_all add: w3_def w2_def w1_def w0_def RwSpinlockInit_def)
  moreover from this have "RwSpinlockAcquire_step 1 True w3 = Some w4"
    by (simp add: RwSpinlockAcquire_step.simps w4_def cas_writer_def dword_at_zero RwSpinlockInit_def cas_word_values)
  moreover have "rpc w4 1 = WDec" "rpc w4 2 = RCas" by (simp_all add: w4_def w3_def w2_def)
  moreover have "?R w1" by (rule rw_reach.acquire [OF calculation(3) _ _ calculation(1)]) (simp_all add: calculation rw_acquiring_def)
  moreover have "?R w2" by (rule rw_reach.acquire [OF calculation(13) _ _ calculation(4)]) (simp_all add: calculation rw_acquiring_def)
  moreover have "?R w3" by (rule rw_reach.acquire [OF calculation(14) _ _ calculation(6)]) (simp_all add: calculation rw_acquiring_def)
  moreover have "?R w4" by (rule rw_reach.acquire [OF calculation(15) _ _ calculation(10)]) (simp_all add: calculation rw_acquiring_def)
  ultimately show ?thesis by (simp add: rw_demo_def w0_def [symmetric])
qed

theorem rw_exclusion_witness:
  "\<exists>w. rw_demo = Some w \<and> rpc w 1 = WDec \<and> rpc w 2 = RCas \<and> \<not> rintr w 1 \<and> \<not> rintr w 2
     \<and> RwSpinlockAcquire_step 1 True w \<noteq> None \<and> RwSpinlockAcquire_step 2 True w \<noteq> None"
proof -
  obtain w where w: "rw_demo = Some w" "rw_reach {1, 2} (\<lambda>_. True) w" "rpc w 1 = WDec" "rpc w 2 = RCas"
    using rw_demo_reach by blast
  have "finite {1, 2 :: ADDR}" "card {1, 2 :: ADDR} < 65536" by simp_all
  from rw_exclusion [OF this w(2), where ex = True] w show ?thesis by (auto simp: rw_acquiring_def)
qed

end
