(* ===== verification/CL_Event.thy ===== *)
theory CL_Event
  imports Prelude
begin

text \<open>
  \<^verbatim>\<open>CommonLib/src/event.c\<close> and \<^verbatim>\<open>CommonLib/src/checkin_queue.c\<close>: the two busy-wait
  synchronisation objects that are not locks.

  An event is one byte accessed by interlocked operations only, so each of its functions is one
  atomic step; \<^verbatim>\<open>EvtWaitForSignal\<close> is a loop of such steps and the model has one attempt of it.
  A check-in queue is an array of flags: the threads that check in and the one that waits for
  them perform one interlocked access at a time, in any interleaving.
\<close>

section \<open>Events\<close>

type_synonym EVENT_TYPE = int

definition EventTypeNotification :: EVENT_TYPE where "EventTypeNotification = 0"
definition EventTypeSynchronization :: EVENT_TYPE where "EventTypeSynchronization = 1"
definition EventTypeReserved :: EVENT_TYPE where "EventTypeReserved = 2"

definition EVENT_STATE_NOT_SIGNALED :: BYTE where "EVENT_STATE_NOT_SIGNALED = 0"
definition EVENT_STATE_SIGNALED :: BYTE where "EVENT_STATE_SIGNALED = 1"

record EVENT =
  EvState :: BYTE
  EventType :: EVENT_TYPE

type_synonym event_mem = "ADDR \<rightharpoonup> EVENT"

definition EvtInitialize :: "ADDR \<Rightarrow> EVENT_TYPE \<Rightarrow> bool \<Rightarrow> event_mem \<Rightarrow> (STATUS \<times> event_mem) option" where
  "EvtInitialize Event ty Signaled m =
     (if Event = NULL then Some (STATUS_INVALID_PARAMETER1, m)
      else if ty \<ge> EventTypeReserved then Some (STATUS_INVALID_PARAMETER2, m)
      else do {
        _ \<leftarrow> m Event;
        let eventState = (if Signaled then EVENT_STATE_SIGNALED else EVENT_STATE_NOT_SIGNALED);
        Some (STATUS_SUCCESS, m(Event \<mapsto> \<lparr>EvState = eventState, EventType = ty\<rparr>))
      })"

definition EvtSignal :: "ADDR \<Rightarrow> event_mem \<Rightarrow> event_mem option" where
  "EvtSignal Event m = do {
     ASSERT (NULL \<noteq> Event);
     e \<leftarrow> m Event;
     Some (m(Event \<mapsto> e\<lparr>EvState := EVENT_STATE_SIGNALED\<rparr>))
   }"

definition EvtClearSignal :: "ADDR \<Rightarrow> event_mem \<Rightarrow> event_mem option" where
  "EvtClearSignal Event m = do {
     ASSERT (NULL \<noteq> Event);
     e \<leftarrow> m Event;
     Some (m(Event \<mapsto> e\<lparr>EvState := EVENT_STATE_NOT_SIGNALED\<rparr>))
   }"

text \<open>\<^verbatim>\<open>_InterlockedCompareExchange8(&Event->State, exchangeValue, EVENT_STATE_SIGNALED)\<close> with the
  exchange value chosen by the type of the event.\<close>

definition cas_event :: "EVENT \<Rightarrow> BYTE \<times> EVENT" where
  "cas_event e = (let exchangeValue = (if EventTypeNotification = EventType e then EVENT_STATE_SIGNALED
                                       else EVENT_STATE_NOT_SIGNALED) in
     (EvState e, if EvState e = EVENT_STATE_SIGNALED then e\<lparr>EvState := exchangeValue\<rparr> else e))"

text \<open>One round of the loop of \<^verbatim>\<open>EvtWaitForSignal\<close>: does it leave the loop?\<close>

definition EvtWaitForSignal_attempt :: "ADDR \<Rightarrow> event_mem \<Rightarrow> (bool \<times> event_mem) option" where
  "EvtWaitForSignal_attempt Event m = do {
     ASSERT (NULL \<noteq> Event);
     e \<leftarrow> m Event;
     let (old, e') = cas_event e;
     Some (\<not> EVENT_STATE_SIGNALED \<noteq> old, m(Event \<mapsto> e'))
   }"

definition EvtIsSignaled :: "ADDR \<Rightarrow> event_mem \<Rightarrow> (bool \<times> event_mem) option" where
  "EvtIsSignaled Event m = do {
     ASSERT (NULL \<noteq> Event);
     e \<leftarrow> m Event;
     let (initialValue, e') = cas_event e;
     Some (initialValue = EVENT_STATE_SIGNALED, m(Event \<mapsto> e'))
   }"

text \<open>What any number of processors do to one event: a sequence of atomic calls. The results of the
  attempts and tests are collected in order.\<close>

datatype evt_op = OpSignal | OpClear | OpWait | OpTest

fun run_event :: "ADDR \<Rightarrow> evt_op list \<Rightarrow> event_mem \<Rightarrow> (bool list \<times> event_mem) option" where
  "run_event E [] m = Some ([], m)"
| "run_event E (OpSignal # ops) m = do { m \<leftarrow> EvtSignal E m; run_event E ops m }"
| "run_event E (OpClear # ops) m = do { m \<leftarrow> EvtClearSignal E m; run_event E ops m }"
| "run_event E (OpWait # ops) m = do {
     (b, m) \<leftarrow> EvtWaitForSignal_attempt E m; (bs, m) \<leftarrow> run_event E ops m; Some (b # bs, m) }"
| "run_event E (OpTest # ops) m = do {
     (b, m) \<leftarrow> EvtIsSignaled E m; (bs, m) \<leftarrow> run_event E ops m; Some (b # bs, m) }"

lemmas event_defs = EvtSignal_def EvtClearSignal_def EvtWaitForSignal_attempt_def EvtIsSignaled_def cas_event_def
  EVENT_STATE_SIGNALED_def EVENT_STATE_NOT_SIGNALED_def EventTypeNotification_def

text \<open>The level of the event after a sequence of calls: a signal raises it, a clear lowers it, and for a
  synchronisation event a successful wait or test lowers it too.\<close>

fun level :: "EVENT_TYPE \<Rightarrow> bool \<Rightarrow> evt_op list \<Rightarrow> bool" where
  "level ty b [] = b"
| "level ty b (OpSignal # ops) = level ty True ops"
| "level ty b (OpClear # ops) = level ty False ops"
| "level ty b (OpWait # ops) = level ty (ty = EventTypeNotification \<and> b) ops"
| "level ty b (OpTest # ops) = level ty (ty = EventTypeNotification \<and> b) ops"

definition event_level :: "EVENT_TYPE \<Rightarrow> bool \<Rightarrow> EVENT" where
  "event_level ty b = \<lparr>EvState = (if b then 1 else 0), EventType = ty\<rparr>"

lemma run_event_level:
  assumes "E \<noteq> NULL" "m E = Some (event_level ty b)"
  shows "\<exists>rs. run_event E ops m = Some (rs, m(E \<mapsto> event_level ty (level ty b ops)))
    \<and> (ty \<noteq> EventTypeNotification \<longrightarrow> count_list rs True + of_bool (level ty b ops) \<le> of_bool b + count_list ops OpSignal)"
  using assms
proof (induction ty b ops arbitrary: m rule: level.induct)
  case (1 ty b)
  then show ?case by (auto simp: fun_upd_idem)
next
  case (2 ty b ops)
  have "EvtSignal E m = Some (m(E \<mapsto> event_level ty True))"
    using "2.prems" by (simp add: event_defs event_level_def)
  moreover obtain rs where "run_event E ops (m(E \<mapsto> event_level ty (True))) = Some (rs, m(E \<mapsto> event_level ty (level ty (True) ops)))"
    "ty \<noteq> EventTypeNotification \<longrightarrow> count_list rs True + of_bool (level ty (True) ops) \<le> of_bool (True) + count_list ops OpSignal"
    using "2.IH" [of "m(E \<mapsto> event_level ty (True))", OF "2.prems"(1) fun_upd_same] unfolding fun_upd_upd by blast
  ultimately show ?case by (auto intro!: exI [of _ rs])
next
  case (3 ty b ops)
  have "EvtClearSignal E m = Some (m(E \<mapsto> event_level ty False))"
    using "3.prems" by (simp add: event_defs event_level_def)
  moreover obtain rs where "run_event E ops (m(E \<mapsto> event_level ty (False))) = Some (rs, m(E \<mapsto> event_level ty (level ty (False) ops)))"
    "ty \<noteq> EventTypeNotification \<longrightarrow> count_list rs True + of_bool (level ty (False) ops) \<le> of_bool (False) + count_list ops OpSignal"
    using "3.IH" [of "m(E \<mapsto> event_level ty (False))", OF "3.prems"(1) fun_upd_same] unfolding fun_upd_upd by blast
  ultimately show ?case by (auto intro!: exI [of _ rs])
next
  case (4 ty b ops)
  let ?b = "ty = EventTypeNotification \<and> b"
  have "EvtWaitForSignal_attempt E m = Some (b, m(E \<mapsto> event_level ty ?b))"
    using "4.prems" by (auto simp: event_defs event_level_def)
  moreover obtain rs where "run_event E ops (m(E \<mapsto> event_level ty (?b))) = Some (rs, m(E \<mapsto> event_level ty (level ty (?b) ops)))"
    "ty \<noteq> EventTypeNotification \<longrightarrow> count_list rs True + of_bool (level ty (?b) ops) \<le> of_bool (?b) + count_list ops OpSignal"
    using "4.IH" [of "m(E \<mapsto> event_level ty (?b))", OF "4.prems"(1) fun_upd_same] unfolding fun_upd_upd by blast
  ultimately show ?case by (auto intro!: exI [of _ "(#) b rs"])
next
  case (5 ty b ops)
  let ?b = "ty = EventTypeNotification \<and> b"
  have "EvtIsSignaled E m = Some (b, m(E \<mapsto> event_level ty ?b))"
    using "5.prems" by (auto simp: event_defs event_level_def)
  moreover obtain rs where "run_event E ops (m(E \<mapsto> event_level ty (?b))) = Some (rs, m(E \<mapsto> event_level ty (level ty (?b) ops)))"
    "ty \<noteq> EventTypeNotification \<longrightarrow> count_list rs True + of_bool (level ty (?b) ops) \<le> of_bool (?b) + count_list ops OpSignal"
    using "5.IH" [of "m(E \<mapsto> event_level ty (?b))", OF "5.prems"(1) fun_upd_same] unfolding fun_upd_upd by blast
  ultimately show ?case by (auto intro!: exI [of _ "(#) b rs"])
qed

text \<open>
  Any sequence of atomic calls of any number of processors on an initialised event returns. A wait
  attempt succeeds exactly when the event is signalled at that moment: for a notification event when
  the last signal comes after the last clear, for a synchronisation event when moreover no attempt
  came in between. A synchronisation event therefore lets at most one waiter through per signal.
\<close>

theorem event_acknowledged:
  assumes "E \<noteq> NULL" "m E \<noteq> None" "ty < EventTypeReserved" "EvtInitialize E ty sig m = Some (s, m0)"
  shows "s = STATUS_SUCCESS
    \<and> (\<exists>rs m1. run_event E ops m0 = Some (rs, m1)
        \<and> (\<exists>m2. EvtWaitForSignal_attempt E m1 = Some (level ty sig ops, m2))
        \<and> (ty \<noteq> EventTypeNotification \<longrightarrow> count_list rs True \<le> of_bool sig + count_list ops OpSignal))"
proof -
  have 0: "s = STATUS_SUCCESS" "m0 E = Some (event_level ty sig)"
    using assms by (auto simp: EvtInitialize_def event_level_def event_defs not_le split: if_splits)
  obtain rs where rs: "run_event E ops m0 = Some (rs, m0(E \<mapsto> event_level ty (level ty sig ops)))"
    "ty \<noteq> EventTypeNotification \<longrightarrow> count_list rs True + of_bool (level ty sig ops) \<le> of_bool sig + count_list ops OpSignal"
    using run_event_level [of E m0 ty sig ops] assms(1) 0(2) by blast
  have "\<exists>m2. EvtWaitForSignal_attempt E (m0(E \<mapsto> event_level ty (level ty sig ops))) = Some (level ty sig ops, m2)"
    using assms(1) by (auto simp: event_defs event_level_def)
  with 0 rs show ?thesis by auto
qed

definition ev_mem :: event_mem where
  "ev_mem = [4096 \<mapsto> \<lparr>EvState = 7, EventType = 0\<rparr>]"

theorem event_acknowledged_witness:
  "\<exists>rs m1 m2. run_event 4096 [OpWait, OpSignal, OpWait, OpWait] (ev_mem(4096 \<mapsto> \<lparr>EvState = 0, EventType = 1\<rparr>)) = Some (rs, m1)
     \<and> EvtWaitForSignal_attempt 4096 m1 = Some (False, m2) \<and> count_list rs True \<le> 1"
proof -
  have i: "EvtInitialize 4096 EventTypeSynchronization False ev_mem
    = Some (STATUS_SUCCESS, ev_mem(4096 \<mapsto> \<lparr>EvState = 0, EventType = 1\<rparr>))"
    by (simp add: EvtInitialize_def ev_mem_def event_defs EventTypeSynchronization_def EventTypeReserved_def)
  from event_acknowledged [OF _ _ _ i, of "[OpWait, OpSignal, OpWait, OpWait]"] show ?thesis
    by (auto simp: ev_mem_def EventTypeSynchronization_def EventTypeReserved_def EventTypeNotification_def)
qed

section \<open>The check-in queue\<close>

record CHECKIN_QUEUE =
  Array :: "BYTE list option"
  NumberOfThreads :: DWORD
  BufferSize :: DWORD

definition checkin_zero :: CHECKIN_QUEUE where
  "checkin_zero = \<lparr>Array = None, NumberOfThreads = 0, BufferSize = 0\<rparr>"

definition CheckinQueuePreInit :: "DWORD \<Rightarrow> (DWORD \<times> CHECKIN_QUEUE) option" where
  "CheckinQueuePreInit n = do {
     ASSERT (0 < n);
     let Queue = checkin_zero\<lparr>NumberOfThreads := n, BufferSize := n * 1\<rparr>;
     Some (BufferSize Queue, Queue)
   }"

text \<open>The buffer is the list of its bytes; \<open>None\<close> is the null pointer. \<^verbatim>\<open>memset\<close> beyond its end faults.\<close>

definition CheckinQueueInit :: "CHECKIN_QUEUE \<Rightarrow> BYTE list option \<Rightarrow> CHECKIN_QUEUE option" where
  "CheckinQueueInit Queue QueueBuffer = do {
     buf \<leftarrow> QueueBuffer;
     ASSERT (0 < NumberOfThreads Queue);
     let n = unat (NumberOfThreads Queue);
     if n \<le> length buf then Some (Queue\<lparr>Array := Some (replicate n 0 @ drop n buf)\<rparr>) else None
   }"

definition CheckinQueueUninit :: "CHECKIN_QUEUE \<Rightarrow> CHECKIN_QUEUE" where
  "CheckinQueueUninit Queue = checkin_zero"

text \<open>\<^verbatim>\<open>_InterlockedCompareExchange8(&Queue->Array[i], new, expected)\<close>: the old value and the queue.\<close>

definition cas_slot :: "CHECKIN_QUEUE \<Rightarrow> nat \<Rightarrow> BYTE \<Rightarrow> BYTE \<Rightarrow> (BYTE \<times> CHECKIN_QUEUE) option" where
  "cas_slot Queue i new expected = do {
     a \<leftarrow> Array Queue;
     if i < length a
     then Some (a ! i, if a ! i = expected then Queue\<lparr>Array := Some (a[i := new])\<rparr> else Queue)
     else None
   }"

text \<open>A thread in \<^verbatim>\<open>CheckinQueueMarkPresence\<close> is at slot \<open>i\<close> of its loop, or has left the loop with a
  slot or without one. The waiting thread is at slot \<open>i\<close> of a pass with its \<^verbatim>\<open>semaphoreGreen\<close>, or has
  returned; the assertion at the entry of \<^verbatim>\<open>CheckinQueueWaitOn\<close>, the one of \<^verbatim>\<open>CheckinQueuePreInit\<close> again, and
  the interrupt state around its loop are left out.\<close>

datatype mark_pc = Absent | MarkAt DWORD | Marked | Unmarked
datatype wait_pc = WaitAt DWORD bool | WaitDone

fun CheckinQueueMarkPresence_step :: "CHECKIN_QUEUE \<Rightarrow> mark_pc \<Rightarrow> (CHECKIN_QUEUE \<times> mark_pc) option" where
  "CheckinQueueMarkPresence_step Queue Absent = do {
     ASSERT (0 < NumberOfThreads Queue);
     Some (Queue, MarkAt 0)
   }"
| "CheckinQueueMarkPresence_step Queue (MarkAt i) =
     (if i < NumberOfThreads Queue then do {
        (old, Queue) \<leftarrow> cas_slot Queue (unat i) 1 0;
        Some (Queue, if old = 0 then Marked else MarkAt (i + 1))
      }
      else Some (Queue, Unmarked))"
| "CheckinQueueMarkPresence_step Queue _ = None"

fun CheckinQueueWaitOn_step :: "bool \<Rightarrow> DWORD \<Rightarrow> CHECKIN_QUEUE \<Rightarrow> wait_pc \<Rightarrow> (CHECKIN_QUEUE \<times> wait_pc) option" where
  "CheckinQueueWaitOn_step WaitAll NumberOfCheckinsToWait Queue (WaitAt i semaphoreGreen) =
     (let numberOfThreads = (if WaitAll then NumberOfThreads Queue else NumberOfCheckinsToWait) in
      if i < numberOfThreads then do {
        (old, Queue) \<leftarrow> cas_slot Queue (unat i) 1 1;
        Some (Queue, WaitAt (i + 1) (semaphoreGreen \<and> old \<noteq> 0))
      }
      else Some (Queue, if semaphoreGreen then WaitDone else WaitAt 0 True))"
| "CheckinQueueWaitOn_step WaitAll k Queue WaitDone = None"

record checkin_world =
  Queue :: CHECKIN_QUEUE
  mark :: "ADDR \<Rightarrow> mark_pc"
  wait :: wait_pc

inductive checkin_reach :: "ADDR set \<Rightarrow> bool \<Rightarrow> DWORD \<Rightarrow> CHECKIN_QUEUE \<Rightarrow> checkin_world \<Rightarrow> bool" for T all k q where
  start: "checkin_reach T all k q \<lparr>Queue = q, mark = (\<lambda>_. Absent), wait = WaitAt 0 True\<rparr>"
| check_in: "checkin_reach T all k q w \<Longrightarrow> t \<in> T \<Longrightarrow> CheckinQueueMarkPresence_step (Queue w) (mark w t) = Some (q', l)
    \<Longrightarrow> checkin_reach T all k q (w\<lparr>Queue := q', mark := (mark w)(t := l)\<rparr>)"
| wait_on: "checkin_reach T all k q w \<Longrightarrow> CheckinQueueWaitOn_step all k (Queue w) (wait w) = Some (q', l)
    \<Longrightarrow> checkin_reach T all k q (w\<lparr>Queue := q', wait := l\<rparr>)"

text \<open>The number of flags set and of threads that have checked in.\<close>

definition flags :: "BYTE list \<Rightarrow> nat \<Rightarrow> nat" where
  "flags a n = card {i. i < n \<and> a ! i \<noteq> 0}"

definition checked_in :: "ADDR set \<Rightarrow> checkin_world \<Rightarrow> nat" where
  "checked_in T w = card {t \<in> T. mark w t = Marked}"

definition all_set :: "BYTE list \<Rightarrow> nat \<Rightarrow> bool" where
  "all_set a i \<longleftrightarrow> (\<forall>j < i. a ! j \<noteq> 0)"

definition checkin_inv :: "ADDR set \<Rightarrow> DWORD \<Rightarrow> nat \<Rightarrow> checkin_world \<Rightarrow> bool" where
  "checkin_inv T n wn w \<longleftrightarrow> NumberOfThreads (Queue w) = n
    \<and> (\<exists>a. Array (Queue w) = Some a \<and> unat n \<le> length a
        \<and> (\<forall>i < unat n. a ! i = 0 \<or> a ! i = 1)
        \<and> flags a (unat n) = checked_in T w
        \<and> (\<forall>t i. mark w t = MarkAt i \<longrightarrow> i \<le> n \<and> all_set a (unat i))
        \<and> (\<forall>t. mark w t = Unmarked \<longrightarrow> all_set a (unat n))
        \<and> (case wait w of WaitAt i g \<Rightarrow> unat i \<le> wn \<and> (g \<longrightarrow> all_set a (unat i))
            | WaitDone \<Rightarrow> all_set a wn))"

lemma flags_set:
  assumes "i < n" "a ! i = 0" "v \<noteq> 0" "n \<le> length a"
  shows "flags (a[i := v]) n = Suc (flags a n)"
proof -
  have "{j. j < n \<and> a[i := v] ! j \<noteq> 0} = insert i {j. j < n \<and> a ! j \<noteq> 0}"
    using assms by (auto simp: nth_list_update)
  then show ?thesis using assms(2) by (simp add: flags_def)
qed

lemma all_set_update: "all_set a i \<Longrightarrow> v \<noteq> 0 \<Longrightarrow> all_set (a[j := v]) i"
  unfolding all_set_def by (metis nth_list_update list_update_beyond not_le)

lemma all_set_Suc: "all_set a (Suc i) \<longleftrightarrow> all_set a i \<and> a ! i \<noteq> 0"
  by (auto simp: all_set_def less_Suc_eq)

lemma all_set_flags: "all_set a i \<Longrightarrow> i \<le> n \<Longrightarrow> i \<le> flags a n"
proof -
  assume "all_set a i" "i \<le> n"
  then have "{..< i} \<subseteq> {j. j < n \<and> a ! j \<noteq> 0}" by (auto simp: all_set_def)
  then have "card {..< i} \<le> flags a n" unfolding flags_def by (intro card_mono) auto
  then show ?thesis by simp
qed

lemma checked_in_upd:
  assumes "finite T" "t \<in> T" "mark w t \<noteq> Marked"
  shows "checked_in T (w\<lparr>Queue := q, mark := (mark w)(t := l)\<rparr>) = checked_in T w + of_bool (l = Marked)"
proof -
  have "{s \<in> T. ((mark w)(t := l)) s = Marked} = (if l = Marked then insert t {s \<in> T. mark w s = Marked} else {s \<in> T. mark w s = Marked})"
    using assms(2,3) by auto
  then show ?thesis using assms(1,3) by (simp add: checked_in_def)
qed

lemma mark_step_inv:
  assumes inv: "checkin_inv T n wn w" and T: "finite T" "t \<in> T"
    and st: "CheckinQueueMarkPresence_step (Queue w) (mark w t) = Some (q', l)"
  shows "checkin_inv T n wn (w\<lparr>Queue := q', mark := (mark w)(t := l)\<rparr>)"
proof -
  obtain a where q: "NumberOfThreads (Queue w) = n" "Array (Queue w) = Some a" "unat n \<le> length a"
    "\<forall>i < unat n. a ! i = 0 \<or> a ! i = 1" "flags a (unat n) = checked_in T w"
    and m: "\<forall>t i. mark w t = MarkAt i \<longrightarrow> i \<le> n \<and> all_set a (unat i)" "\<forall>t. mark w t = Unmarked \<longrightarrow> all_set a (unat n)"
    and wt: "case wait w of WaitAt i g \<Rightarrow> unat i \<le> wn \<and> (g \<longrightarrow> all_set a (unat i)) | WaitDone \<Rightarrow> all_set a wn"
    using inv by (auto simp: checkin_inv_def)
  show ?thesis
  proof (cases "mark w t")
    case Absent
    with st have "q' = Queue w" "l = MarkAt 0" by (auto simp: Option.bind_eq_Some_conv)
    with q m wt checked_in_upd [OF T, where w = w and q = q' and l = l] Absent show ?thesis
      by (auto simp: checkin_inv_def all_set_def [of _ 0])
  next
    case (MarkAt i)
    note ck = checked_in_upd [OF T, where w = w and q = q' and l = l]
    show ?thesis
    proof (cases "i < n")
      case i: True
      then have ui: "unat i < unat n" "unat (i + 1) = Suc (unat i)" "i + 1 \<le> n"
        by (simp_all add: unat_inc_below [OF i] word_less_nat_alt word_le_nat_alt)
      show ?thesis
      proof (cases "a ! unat i = 0")
        case True
        with st MarkAt i q ui have "q' = (Queue w)\<lparr>Array := Some (a[unat i := 1])\<rparr>" "l = Marked"
          by (auto simp: cas_slot_def)
        moreover have "\<forall>j < unat n. a[unat i := 1] ! j = 0 \<or> a[unat i := 1] ! j = 1"
          using q(3,4) ui(1) by (auto simp: nth_list_update)
        ultimately show ?thesis using q m wt ck MarkAt flags_set [OF ui(1) True _ q(3), of 1]
          by (auto simp: checkin_inv_def all_set_update split: wait_pc.splits)
      next
        case False
        with st MarkAt i q ui have "q' = Queue w" "l = MarkAt (i + 1)" by (auto simp: cas_slot_def)
        with q m wt ck MarkAt ui False show ?thesis by (auto simp: checkin_inv_def all_set_Suc)
      qed
    next
      case False
      with st MarkAt q have "q' = Queue w" "l = Unmarked" by auto
      moreover from False m MarkAt have "all_set a (unat n)" by (metis order_le_imp_less_or_eq)
      ultimately show ?thesis using q m wt ck MarkAt by (auto simp: checkin_inv_def)
    qed
  qed (use st in auto)
qed

lemma wait_step_inv:
  assumes inv: "checkin_inv T n wn w" and wn: "wn = unat (if all then n else k)" "wn \<le> unat n"
    and st: "CheckinQueueWaitOn_step all k (Queue w) (wait w) = Some (q', l)"
  shows "checkin_inv T n wn (w\<lparr>Queue := q', wait := l\<rparr>)"
proof -
  obtain a where q: "NumberOfThreads (Queue w) = n" "Array (Queue w) = Some a" "unat n \<le> length a"
    and wt: "case wait w of WaitAt i g \<Rightarrow> unat i \<le> wn \<and> (g \<longrightarrow> all_set a (unat i)) | WaitDone \<Rightarrow> all_set a wn"
    using inv by (auto simp: checkin_inv_def)
  obtain i g where w: "wait w = WaitAt i g" using st by (cases "wait w") auto
  have ck: "checked_in T (w\<lparr>Queue := q', wait := l\<rparr>) = checked_in T w" by (simp add: checked_in_def)
  have "q' = Queue w" "case l of WaitAt i g \<Rightarrow> unat i \<le> wn \<and> (g \<longrightarrow> all_set a (unat i)) | WaitDone \<Rightarrow> all_set a wn"
  proof -
    have "q' = Queue w \<and> (case l of WaitAt i g \<Rightarrow> unat i \<le> wn \<and> (g \<longrightarrow> all_set a (unat i)) | WaitDone \<Rightarrow> all_set a wn)"
    proof (cases "unat i < wn")
      case True
      then have i: "i < (if all then n else k)" using wn(1) by (simp add: word_less_nat_alt)
      have "unat (i + 1) = Suc (unat i)" using unat_inc_below [OF i] .
      moreover have "(if a ! unat i = 1 then (Queue w)\<lparr>Array := Some (a[unat i := 1])\<rparr> else Queue w) = Queue w"
        using q(2) list_update_id [of a "unat i"] by (cases "Queue w") (auto simp del: list_update_id)
      ultimately show ?thesis using st w wt q i True wn(2)
        by (auto simp: cas_slot_def Let_def all_set_Suc split: if_splits)
    next
      case False
      then have i: "\<not> i < (if all then n else k)" using wn(1) by (simp add: word_less_nat_alt)
      moreover have "unat i = wn" using False wt w by simp
      ultimately show ?thesis using st w wt q by (auto simp: all_set_def [of _ 0])
    qed
    then show "q' = Queue w" "case l of WaitAt i g \<Rightarrow> unat i \<le> wn \<and> (g \<longrightarrow> all_set a (unat i)) | WaitDone \<Rightarrow> all_set a wn"
      by simp_all
  qed
  with inv q(2) ck show ?thesis by (auto simp: checkin_inv_def)
qed

lemma checkin_reach_inv:
  assumes "checkin_reach T all k q w" "finite T" "0 < NumberOfThreads q"
    "Array q = Some (replicate (unat (NumberOfThreads q)) 0 @ rest)"
    "wn = unat (if all then NumberOfThreads q else k)" "wn \<le> unat (NumberOfThreads q)"
  shows "checkin_inv T (NumberOfThreads q) wn w"
  using assms(1)
proof (induction rule: checkin_reach.induct)
  case start
  show ?case using assms(4)
    by (auto simp: checkin_inv_def flags_def checked_in_def all_set_def nth_append)
next
  case (check_in w t q' l)
  then show ?case using mark_step_inv assms(2) by blast
next
  case (wait_on w q' l)
  then show ?case using wait_step_inv assms(5,6) by blast
qed

lemma checkin_inv_results:
  assumes inv: "checkin_inv T n wn w" and wn: "wn \<le> unat n" and T: "finite T" "card T \<le> unat n" and t: "t \<in> T"
  shows "mark w t \<noteq> Unmarked" "wait w = WaitDone \<Longrightarrow> wn \<le> checked_in T w"
proof -
  obtain a where a: "flags a (unat n) = checked_in T w" "mark w t = Unmarked \<Longrightarrow> all_set a (unat n)"
    "wait w = WaitDone \<Longrightarrow> all_set a wn"
    using inv by (fastforce simp: checkin_inv_def)
  show "mark w t \<noteq> Unmarked"
  proof
    assume u: "mark w t = Unmarked"
    have "t \<notin> {s \<in> T. mark w s = Marked}" using u by simp
    then have "{s \<in> T. mark w s = Marked} \<subset> T" using t by blast
    then have "checked_in T w < card T" unfolding checked_in_def by (rule psubset_card_mono [OF T(1)])
    moreover have "unat n \<le> flags a (unat n)" using all_set_flags [of a "unat n" "unat n"] a(2) u by simp
    ultimately show False using a(1) T(2) by simp
  qed
  show "wn \<le> checked_in T w" if "wait w = WaitDone"
    using all_set_flags [of a wn "unat n"] a(1,3) that wn by simp
qed

lemma checkin_step_total:
  assumes inv: "checkin_inv T n wn w" and wn: "wn = unat (if all then n else k)" "wn \<le> unat n" and n: "0 < n"
  shows "mark w t \<notin> {Marked, Unmarked} \<Longrightarrow> CheckinQueueMarkPresence_step (Queue w) (mark w t) \<noteq> None"
    "wait w \<noteq> WaitDone \<Longrightarrow> CheckinQueueWaitOn_step all k (Queue w) (wait w) \<noteq> None"
proof -
  obtain a where q: "NumberOfThreads (Queue w) = n" "Array (Queue w) = Some a" "unat n \<le> length a"
    using inv by (auto simp: checkin_inv_def)
  have idx: "unat i < length a" if "i < n" for i using that q(3) by (simp add: word_less_nat_alt)
  show "CheckinQueueMarkPresence_step (Queue w) (mark w t) \<noteq> None" if "mark w t \<notin> {Marked, Unmarked}"
    using that n q idx by (cases "mark w t") (simp_all add: cas_slot_def)
  show "CheckinQueueWaitOn_step all k (Queue w) (wait w) \<noteq> None" if nd: "wait w \<noteq> WaitDone"
  proof -
    obtain i g where w: "wait w = WaitAt i g" using nd by (cases "wait w") simp_all
    have "unat i < length a" if "i < (if all then n else k)"
      using that wn q(3) by (simp add: word_less_nat_alt split: if_splits)
    then show ?thesis using q w by (auto simp: cas_slot_def Let_def)
  qed
qed

lemma checkin_prepared:
  assumes "CheckinQueuePreInit n = Some (sz, q0)" "CheckinQueueInit q0 (Some buf) = Some q"
  shows "sz = n \<and> NumberOfThreads q = n \<and> 0 < n \<and> Array q = Some (replicate (unat n) 0 @ drop (unat n) buf)"
proof -
  have "0 < n" "sz = n" "q0 = \<lparr>Array = None, NumberOfThreads = n, BufferSize = n\<rparr>"
    using assms(1) by (auto simp: CheckinQueuePreInit_def checkin_zero_def ASSERT_def split: if_splits)
  with assms(2) show ?thesis by (auto simp: CheckinQueueInit_def Let_def split: if_splits)
qed

text \<open>C22.
  A check-in queue prepared by \<^verbatim>\<open>CheckinQueuePreInit\<close> and \<^verbatim>\<open>CheckinQueueInit\<close>, with at most
  \<^verbatim>\<open>NumberOfThreads\<close> threads checking in and one thread waiting for a number of check-ins not larger
  than the queue, in any interleaving: every next access is inside the buffer, no thread leaves
  \<^verbatim>\<open>CheckinQueueMarkPresence\<close> without a slot, there are exactly as many slots set as threads that
  have left it, so that each has marked a slot of its own, and \<^verbatim>\<open>CheckinQueueWaitOn\<close> has
  returned only if at least the requested number of threads (all of the queue's slots with
  \<^verbatim>\<open>WaitAll\<close>) have checked in.
\<close>

theorem checkin_wait_sound:
  assumes "CheckinQueuePreInit n = Some (sz, q0)" "CheckinQueueInit q0 (Some buf) = Some q"
    "checkin_reach T all k q w" "finite T" "card T \<le> unat n" "all \<or> k \<le> n"
  shows "(\<forall>t \<in> T. mark w t \<noteq> Unmarked)
    \<and> (\<exists>a. Array (Queue w) = Some a \<and> unat n \<le> length a
        \<and> card {i. i < unat n \<and> a ! i \<noteq> 0} = card {t \<in> T. mark w t = Marked})
    \<and> (wait w = WaitDone \<longrightarrow> unat (if all then n else k) \<le> card {t \<in> T. mark w t = Marked})
    \<and> (\<forall>t. mark w t \<notin> {Marked, Unmarked} \<longrightarrow> CheckinQueueMarkPresence_step (Queue w) (mark w t) \<noteq> None)
    \<and> (wait w \<noteq> WaitDone \<longrightarrow> CheckinQueueWaitOn_step all k (Queue w) (wait w) \<noteq> None)"
proof -
  let ?wn = "unat (if all then n else k)"
  have q: "NumberOfThreads q = n" "0 < n" "Array q = Some (replicate (unat n) 0 @ drop (unat n) buf)"
    using checkin_prepared [OF assms(1,2)] by simp_all
  have wn: "?wn \<le> unat n" using assms(6) by (auto simp: word_le_nat_alt)
  have inv: "checkin_inv T n ?wn w"
    using checkin_reach_inv [OF assms(3,4), unfolded q(1), OF q(2,3) refl wn] .
  have "wait w = WaitDone \<longrightarrow> ?wn \<le> card {t \<in> T. mark w t = Marked}"
  proof (cases "T = {}")
    case True
    then show ?thesis using inv all_set_flags [of _ ?wn "unat n"] wn
      by (fastforce simp: checkin_inv_def checked_in_def)
  next
    case False
    then show ?thesis using checkin_inv_results(2) [OF inv wn assms(4,5)] by (auto simp: checked_in_def)
  qed
  moreover have "\<exists>a. Array (Queue w) = Some a \<and> unat n \<le> length a
      \<and> card {i. i < unat n \<and> a ! i \<noteq> 0} = card {t \<in> T. mark w t = Marked}"
    using inv unfolding checkin_inv_def flags_def checked_in_def by blast
  ultimately show ?thesis
    using checkin_inv_results(1) [OF inv wn assms(4,5)] checkin_step_total [OF inv refl wn q(2)] by blast
qed

lemma replicate_two: "replicate 2 x = [x, x]"
  by (simp add: numeral_2_eq_2)

theorem checkin_wait_sound_witness:
  "\<exists>q. CheckinQueuePreInit 2 = Some (2, checkin_zero\<lparr>NumberOfThreads := 2, BufferSize := 2\<rparr>)
    \<and> CheckinQueueInit (checkin_zero\<lparr>NumberOfThreads := 2, BufferSize := 2\<rparr>) (Some [9, 9]) = Some q
    \<and> CheckinQueueWaitOn_step True 0 q (WaitAt 0 True) \<noteq> None
    \<and> CheckinQueueMarkPresence_step q Absent \<noteq> None"
proof -
  let ?p = "checkin_zero\<lparr>NumberOfThreads := 2, BufferSize := 2\<rparr>" and ?q = "\<lparr>Array = Some [0, 0], NumberOfThreads = 2, BufferSize = 2\<rparr>"
  have i: "CheckinQueuePreInit 2 = Some (2, ?p)" "CheckinQueueInit ?p (Some [9, 9]) = Some ?q"
    by (simp add: CheckinQueuePreInit_def checkin_zero_def) (simp add: CheckinQueueInit_def checkin_zero_def replicate_two)
  from checkin_wait_sound [OF i checkin_reach.start [of "{1, 2}" True 0]] i show ?thesis by fastforce
qed

text \<open>
  Waiting for more check-ins than the queue has slots does not stop at the end of the queue: with a
  buffer of exactly the size \<^verbatim>\<open>CheckinQueuePreInit\<close> asks for, the pass of \<^verbatim>\<open>CheckinQueueWaitOn\<close>
  over slot \<^verbatim>\<open>NumberOfThreads\<close> accesses the byte after the buffer.
\<close>

theorem checkin_wait_past_end:
  assumes "CheckinQueuePreInit n = Some (sz, q0)" "CheckinQueueInit q0 (Some buf) = Some q" "length buf = unat sz" "n < k"
  shows "CheckinQueueWaitOn_step False k q (WaitAt n g) = None"
proof -
  have "Array q = Some (replicate (unat n) 0)"
    using checkin_prepared [OF assms(1,2)] assms(3) by simp
  with assms(4) show ?thesis by (simp add: cas_slot_def)
qed

theorem checkin_wait_past_end_witness:
  "\<exists>q. CheckinQueueInit (checkin_zero\<lparr>NumberOfThreads := 2, BufferSize := 2\<rparr>) (Some [9, 9]) = Some q
     \<and> CheckinQueueWaitOn_step False 3 q (WaitAt 2 True) = None"
proof -
  let ?p = "checkin_zero\<lparr>NumberOfThreads := 2, BufferSize := 2\<rparr>" and ?q = "\<lparr>Array = Some [0, 0], NumberOfThreads = 2, BufferSize = 2\<rparr>"
  have i: "CheckinQueuePreInit 2 = Some (2, ?p)" "CheckinQueueInit ?p (Some [9, 9]) = Some ?q"
    by (simp add: CheckinQueuePreInit_def checkin_zero_def) (simp add: CheckinQueueInit_def checkin_zero_def replicate_two)
  from checkin_wait_past_end [OF i, of 3 True] i show ?thesis by simp
qed

end
