(* ===== verification/CL_Heap.thy ===== *)
theory CL_Heap
  imports CL_List
begin

unbundle bit_operations_syntax

text \<open>
  \<^verbatim>\<open>CommonLib/src/cl_heap.c\<close>: the heap. A region of memory starts with the header; behind it the blocks follow
  in the order of their addresses, each with an entry in front of its data and a magic tail behind it, all
  linked in one list of \<open>CL_List\<close>. New blocks go to the end of the region, or, when there is no
  room left, into the first hole between two blocks that is large enough.

  The memory is typed: it holds an entry, a tail and a pair of links at every address of the region.
  Writing one does not change the others; that blocks never overlap is part of the invariant
  below. \<^verbatim>\<open>memset\<close> overwrites every cell that starts in its range.
\<close>

section \<open>Data\<close>

definition HEAP_MINIMUM_SIZE :: QWORD where "HEAP_MINIMUM_SIZE = 64 * KB_SIZE"
definition HEAP_MAGIC :: DWORD where "HEAP_MAGIC = 0xACE2302E"
definition HEAP_FREE_PATTERN :: BYTE where "HEAP_FREE_PATTERN = 0xAF"
definition HEAP_DEFAULT_ALIGNMENT :: DWORD where "HEAP_DEFAULT_ALIGNMENT = 16"
definition PoolAllocateZeroMemory :: DWORD where "PoolAllocateZeroMemory = 2"
definition PoolAllocatePanicIfFail :: DWORD where "PoolAllocatePanicIfFail = 4"
definition STATUS_HEAP_TOO_SMALL :: STATUS where
  "STATUS_HEAP_TOO_SMALL = (ERROR_MASK OR CUSTOMER_BIT OR HEAP_MASK OR 0x0001)"

record HEAP_ENTRY =
  Magic :: DWORD
  Tag :: DWORD
  Size :: DWORD
  Offset :: DWORD

record HEAP_HEADER =
  HeapMagic :: DWORD
  HeapSizeMaximum :: QWORD
  HeapSizeRemaining :: QWORD
  BaseAddress :: QWORD
  FreeAddress :: QWORD
  HeapNumberOfAllocations :: QWORD
  EntryToRestartSearch :: ADDR

record heapmem =
  hentry :: "ADDR \<rightharpoonup> HEAP_ENTRY"
  htail :: "ADDR \<rightharpoonup> DWORD"
  hlink :: lmem

definition sizeof_HEAP_ENTRY :: QWORD where "sizeof_HEAP_ENTRY = 32"
definition sizeof_HEAP_TAIL :: QWORD where "sizeof_HEAP_TAIL = 4"
definition sizeof_HEAP_HEADER :: QWORD where "sizeof_HEAP_HEADER = 72"

text \<open>The addresses of the list head in the header, of the links in an entry, and back.\<close>

definition HeapAllocations :: "HEAP_HEADER \<Rightarrow> ADDR" where "HeapAllocations h = BaseAddress h + 56"
definition ListEntry :: "ADDR \<Rightarrow> ADDR" where "ListEntry e = e + 16"
definition HEAP_ENTRY_of :: "ADDR \<Rightarrow> ADDR" where "HEAP_ENTRY_of l = l - 16"

definition dword_of :: "BYTE \<Rightarrow> DWORD" where "dword_of b = ucast b * 0x01010101"
definition qword_of :: "BYTE \<Rightarrow> QWORD" where "qword_of b = ucast b * 0x0101010101010101"

definition heap_memset :: "heapmem \<Rightarrow> ADDR \<Rightarrow> BYTE \<Rightarrow> DWORD \<Rightarrow> heapmem" where
  "heap_memset m a b n = (let d = dword_of b; x = qword_of b in
     \<lparr>hentry = (\<lambda>p. if p - a < ucast n then map_option (\<lambda>_. \<lparr>Magic = d, Tag = d, Size = d, Offset = d\<rparr>) (hentry m p) else hentry m p),
      htail = (\<lambda>p. if p - a < ucast n then map_option (\<lambda>_. d) (htail m p) else htail m p),
      hlink = (\<lambda>p. if p - a < ucast n then map_option (\<lambda>_. \<lparr>Flink = x, Blink = x\<rparr>) (hlink m p) else hlink m p)\<rparr>)"

definition wr_entry :: "heapmem \<Rightarrow> ADDR \<Rightarrow> (HEAP_ENTRY \<Rightarrow> HEAP_ENTRY) \<Rightarrow> heapmem option" where
  "wr_entry m a f = do { e \<leftarrow> hentry m a; Some (m\<lparr>hentry := (hentry m)(a \<mapsto> f e)\<rparr>) }"

definition wr_tail :: "heapmem \<Rightarrow> ADDR \<Rightarrow> DWORD \<Rightarrow> heapmem option" where
  "wr_tail m a v = do { htail m a; Some (m\<lparr>htail := (htail m)(a \<mapsto> v)\<rparr>) }"

section \<open>Operations\<close>

text \<open>\<open>ok\<close> says that the output pointer \<^verbatim>\<open>HeapHeader\<close> is not null.\<close>

definition ClHeapInit :: "ADDR \<Rightarrow> QWORD \<Rightarrow> bool \<Rightarrow> heapmem \<Rightarrow> (STATUS \<times> (HEAP_HEADER \<times> heapmem) option) option" where
  "ClHeapInit Base MemoryAvailable ok m =
     (if Base = NULL then Some (STATUS_INVALID_PARAMETER1, None)
      else if MemoryAvailable < HEAP_MINIMUM_SIZE then Some (STATUS_HEAP_TOO_SMALL, None)
      else if \<not> ok then Some (STATUS_INVALID_PARAMETER3, None)
      else do {
        let h = \<lparr>HeapMagic = HEAP_MAGIC, HeapSizeMaximum = MemoryAvailable,
                 HeapSizeRemaining = MemoryAvailable - sizeof_HEAP_HEADER, BaseAddress = Base,
                 FreeAddress = Base + sizeof_HEAP_HEADER, HeapNumberOfAllocations = 0,
                 EntryToRestartSearch = Base + 56\<rparr>;
        l \<leftarrow> InitializeListHead (hlink m) (HeapAllocations h);
        Some (STATUS_SUCCESS, Some (h, m\<lparr>hlink := l\<rparr>))
      })"

text \<open>\<^verbatim>\<open>_InitHeapEntry\<close>: the returned address, the value left in \<^verbatim>\<open>*HeapEntry\<close>, and the heap.\<close>

definition InitHeapEntry :: "HEAP_HEADER \<Rightarrow> heapmem \<Rightarrow> ADDR \<Rightarrow> DWORD \<Rightarrow> DWORD \<Rightarrow> DWORD \<Rightarrow> bool \<Rightarrow> QWORD
    \<Rightarrow> (QWORD \<times> ADDR \<times> HEAP_HEADER \<times> heapmem) option" where
  "InitHeapEntry h m HeapEntry Tg Sz Alignment AddToLinkedList SizeAvailable = do {
     let unalignedDataAddress = HeapEntry + sizeof_HEAP_ENTRY;
     let dataAddress = AlignAddressUpper unalignedDataAddress (ucast Alignment);
     let heapEntrySize = (ucast (ucast Sz + sizeof_HEAP_ENTRY + sizeof_HEAP_TAIL) :: DWORD);
     if SizeAvailable < dataAddress - unalignedDataAddress + ucast heapEntrySize then Some (0, HeapEntry, h, m)
     else do {
       let pHeapEntry = dataAddress - sizeof_HEAP_ENTRY;
       m1 \<leftarrow> wr_entry m pHeapEntry (\<lambda>e. e\<lparr>Magic := HEAP_MAGIC, Size := Sz, Tag := Tg\<rparr>);
       l \<leftarrow> (if AddToLinkedList then InsertTailList (hlink m1) (HeapAllocations h) (ListEntry pHeapEntry) else Some (hlink m1));
       m2 \<leftarrow> wr_entry (m1\<lparr>hlink := l\<rparr>) pHeapEntry (\<lambda>e. e\<lparr>Offset := ucast (dataAddress - pHeapEntry)\<rparr>);
       let pHeapTail = dataAddress + ucast Sz;
       m3 \<leftarrow> wr_tail m2 pHeapTail HEAP_MAGIC;
       Some (pHeapTail + sizeof_HEAP_TAIL, pHeapEntry,
         h\<lparr>HeapSizeRemaining := HeapSizeRemaining h - ucast heapEntrySize,
           HeapNumberOfAllocations := HeapNumberOfAllocations h + 1\<rparr>, m3)
     }
   }"

definition ValidateHeapEntry :: "heapmem \<Rightarrow> ADDR \<Rightarrow> DWORD \<Rightarrow> bool option" where
  "ValidateHeapEntry m HeapEntry Tg = do {
     ASSERT (NULL \<noteq> HeapEntry);
     ASSERT (0 \<noteq> Tg);
     e \<leftarrow> hentry m HeapEntry;
     let totalSize = (ucast (sizeof_HEAP_ENTRY + ucast (Size e) + sizeof_HEAP_TAIL) :: DWORD);
     t \<leftarrow> htail m (HeapEntry + ucast totalSize - sizeof_HEAP_TAIL);
     Some (HEAP_MAGIC = Magic e \<and> HEAP_MAGIC = t \<and> 0 \<noteq> Tag e \<and> Tg = Tag e)
   }"

text \<open>The search for a hole. The result is the new entry, or null when the search came back to where it
  began.\<close>

partial_function (option) heap_search :: "HEAP_HEADER \<Rightarrow> heapmem \<Rightarrow> QWORD \<Rightarrow> DWORD \<Rightarrow> DWORD \<Rightarrow> DWORD
    \<Rightarrow> ADDR \<Rightarrow> ADDR \<Rightarrow> ADDR \<Rightarrow> ADDR \<Rightarrow> (ADDR \<times> HEAP_HEADER \<times> heapmem) option" where
  "heap_search h m sizeRequired Tg Sz alignment pPreviousEntry pPreviousHeapEntry pCurEntry pCurHeapEntry =
     (if EntryToRestartSearch h = pCurEntry then Some (NULL, h, m)
      else if pCurEntry = HeapAllocations h \<or> pPreviousEntry = HeapAllocations h then do {
        nx \<leftarrow> rd_Flink (hlink m) pCurEntry;
        heap_search h m sizeRequired Tg Sz alignment pCurEntry pCurHeapEntry nx pCurHeapEntry
      }
      else do {
        ASSERT (NULL \<noteq> pPreviousHeapEntry);
        let cH = HEAP_ENTRY_of pCurEntry;
        pE \<leftarrow> hentry m pPreviousHeapEntry;
        let startAddress = pPreviousHeapEntry + sizeof_HEAP_ENTRY + ucast (Size pE) + sizeof_HEAP_TAIL;
        let sizeBetweenEntries = cH - startAddress;
        r \<leftarrow> (if sint sizeBetweenEntries \<ge> sint sizeRequired
              then InitHeapEntry h m startAddress Tg Sz alignment False sizeBetweenEntries
              else Some (0, NULL, h, m));
        case r of (tempAddress, pNew, h', m') \<Rightarrow>
          if tempAddress = 0 then do {
            nx \<leftarrow> rd_Flink (hlink m) pCurEntry;
            heap_search h m sizeRequired Tg Sz alignment pCurEntry cH nx cH
          }
          else do {
            pE' \<leftarrow> hentry m' pPreviousHeapEntry;
            v \<leftarrow> ValidateHeapEntry m' pPreviousHeapEntry (Tag pE');
            ASSERT v;
            l \<leftarrow> InsertHeadList (hlink m') pPreviousEntry (ListEntry pNew);
            Some (pNew, h'\<lparr>EntryToRestartSearch := ListEntry pNew\<rparr>, m'\<lparr>hlink := l\<rparr>)
          }
      })"

declare heap_search.simps [code]

text \<open>The choice of the place: the end of the region, or a hole. The result is the new entry, or null.\<close>

definition heap_place :: "HEAP_HEADER \<Rightarrow> heapmem \<Rightarrow> DWORD \<Rightarrow> DWORD \<Rightarrow> DWORD \<Rightarrow> (ADDR \<times> HEAP_HEADER \<times> heapmem) option" where
  "heap_place h m AllocationSize Tg alignment = do {
     let sizeRequired = ucast AllocationSize + sizeof_HEAP_ENTRY + sizeof_HEAP_TAIL;
     if sizeRequired > HeapSizeRemaining h then Some (NULL, h, m)
     else do {
       let remainingSizeUntilEnd = BaseAddress h + HeapSizeMaximum h - FreeAddress h - sizeof_HEAP_ENTRY;
       r \<leftarrow> (if sint sizeRequired \<le> sint remainingSizeUntilEnd
             then InitHeapEntry h m (FreeAddress h) Tg AllocationSize alignment True remainingSizeUntilEnd
             else Some (0, NULL, h, m));
       case r of (tempAddress, pNew, h', m') \<Rightarrow>
         if tempAddress \<noteq> 0 then Some (pNew, h'\<lparr>FreeAddress := tempAddress\<rparr>, m')
         else do {
           let remainingSizeBeforeCurrent = HeapSizeRemaining h - remainingSizeUntilEnd - sizeof_HEAP_ENTRY;
           if sint sizeRequired > sint remainingSizeBeforeCurrent then Some (NULL, h, m)
           else do {
             em \<leftarrow> IsListEmpty (hlink m) (HeapAllocations h);
             ASSERT (\<not> em);
             pPreviousEntry \<leftarrow> rd_Flink (hlink m) (EntryToRestartSearch h);
             pCurEntry \<leftarrow> rd_Flink (hlink m) pPreviousEntry;
             heap_search h m sizeRequired Tg AllocationSize alignment pPreviousEntry (HEAP_ENTRY_of pPreviousEntry) pCurEntry NULL
           }
         }
     }
   }"

definition ClHeapAllocatePoolWithTag :: "HEAP_HEADER \<Rightarrow> heapmem \<Rightarrow> DWORD \<Rightarrow> DWORD \<Rightarrow> DWORD \<Rightarrow> DWORD
    \<Rightarrow> (ADDR \<times> HEAP_HEADER \<times> heapmem) option" where
  "ClHeapAllocatePoolWithTag h m Fl AllocationSize Tg AllocationAlignment = do {
     (pNew, h', m') \<leftarrow> (if AllocationSize = 0 \<or> Tg = 0 then Some (NULL, h, m)
        else heap_place h m AllocationSize Tg (if AllocationAlignment = 0 then HEAP_DEFAULT_ALIGNMENT else AllocationAlignment));
     if pNew = NULL then do {
       ASSERT (\<not> IsFlagOn Fl PoolAllocatePanicIfFail);
       Some (NULL, h', m')
     }
     else do {
       e \<leftarrow> hentry m' pNew;
       let mappedAddress = pNew + ucast (Offset e);
       ASSERT (IsFlagOn Fl PoolAllocatePanicIfFail \<longrightarrow> mappedAddress \<noteq> NULL);
       Some (mappedAddress, h',
         if IsFlagOn Fl PoolAllocateZeroMemory then heap_memset m' mappedAddress 0 AllocationSize else m')
     }
   }"

definition ClHeapFreePoolWithTag :: "HEAP_HEADER \<Rightarrow> heapmem \<Rightarrow> ADDR \<Rightarrow> DWORD \<Rightarrow> (HEAP_HEADER \<times> heapmem) option" where
  "ClHeapFreePoolWithTag h m MemoryAddress Tg = do {
     ASSERT (NULL \<noteq> MemoryAddress);
     ASSERT (0 \<noteq> Tg);
     let pHeapEntry = MemoryAddress - sizeof_HEAP_ENTRY;
     e \<leftarrow> hentry m pHeapEntry;
     let endAddress = MemoryAddress + ucast (Size e) + sizeof_HEAP_TAIL;
     v \<leftarrow> ValidateHeapEntry m pHeapEntry Tg;
     ASSERT v;
     pListEntry \<leftarrow> rd_Blink (hlink m) (ListEntry pHeapEntry);
     previousAddress \<leftarrow> (if HeapAllocations h = pListEntry then Some (BaseAddress h + sizeof_HEAP_HEADER)
        else do {
          let pPreviousHeapEntry = HEAP_ENTRY_of pListEntry;
          pE \<leftarrow> hentry m pPreviousHeapEntry;
          Some (pPreviousHeapEntry + sizeof_HEAP_ENTRY + ucast (Size pE) + sizeof_HEAP_TAIL)
        });
     (_, l) \<leftarrow> RemoveEntryList (hlink m) (ListEntry pHeapEntry);
     let heapEntrySize = ucast (Size e) + sizeof_HEAP_ENTRY + sizeof_HEAP_TAIL;
     ASSERT (heapEntrySize \<le> ucast MAX_DWORD);
     let m = heap_memset (m\<lparr>hlink := l\<rparr>) pHeapEntry HEAP_FREE_PATTERN (ucast heapEntrySize);
     let h = h\<lparr>HeapSizeRemaining := HeapSizeRemaining h + heapEntrySize,
               HeapNumberOfAllocations := HeapNumberOfAllocations h - 1\<rparr>;
     Some (if endAddress = FreeAddress h then h\<lparr>FreeAddress := previousAddress\<rparr> else h, m)
   }"

text \<open>The kernel's addresses lie in the upper half of the 64-bit space; only its last 4 GB are excluded, so that
  rounding up an address of the heap does not wrap around.\<close>

abbreviation ADDR_LIMIT :: nat where "ADDR_LIMIT \<equiv> 0xFFFFFFFF00000000"

section \<open>The invariant\<close>

text \<open>The block of an entry: from its address to the end of its tail.\<close>

definition esize :: "heapmem \<Rightarrow> ADDR \<Rightarrow> nat" where
  "esize m e = unat (Size (the (hentry m e)))"

definition block_end :: "heapmem \<Rightarrow> ADDR \<Rightarrow> nat" where
  "block_end m e = unat e + esize m e + 36"

definition heap_entry_ok :: "heapmem \<Rightarrow> ADDR \<Rightarrow> bool" where
  "heap_entry_ok m e \<longleftrightarrow> (\<exists>E. hentry m e = Some E \<and> Magic E = HEAP_MAGIC \<and> Tag E \<noteq> 0 \<and> Offset E = 32
     \<and> htail m (e + 32 + ucast (Size E)) = Some HEAP_MAGIC)"

definition heap_base :: "HEAP_HEADER \<Rightarrow> nat" where "heap_base h = unat (BaseAddress h)"
definition heap_top :: "HEAP_HEADER \<Rightarrow> nat" where "heap_top h = unat (BaseAddress h) + unat (HeapSizeMaximum h)"

definition heap_mapped :: "HEAP_HEADER \<Rightarrow> heapmem \<Rightarrow> bool" where
  "heap_mapped h m \<longleftrightarrow> (\<forall>a. heap_base h \<le> unat a \<longrightarrow> unat a < heap_top h \<longrightarrow>
     hentry m a \<noteq> None \<and> htail m a \<noteq> None \<and> hlink m a \<noteq> None)"

definition heap_ok :: "HEAP_HEADER \<Rightarrow> bool" where
  "heap_ok h \<longleftrightarrow> 0 < heap_base h \<and> heap_top h < ADDR_LIMIT \<and> 104 \<le> unat (HeapSizeMaximum h) \<and> unat (HeapSizeMaximum h) < 2 ^ 32"

definition heap_inv :: "HEAP_HEADER \<Rightarrow> heapmem \<Rightarrow> ADDR list \<Rightarrow> bool" where
  "heap_inv h m es \<longleftrightarrow> heap_ok h \<and> heap_mapped h m
     \<and> is_list (hlink m) (HeapAllocations h) (map ListEntry es)
     \<and> (\<forall>e\<in>set es. heap_entry_ok m e \<and> heap_base h + 72 \<le> unat e)
     \<and> sorted_wrt (\<lambda>e f. block_end m e \<le> unat f) es
     \<and> unat (FreeAddress h) = (if es = [] then heap_base h + 72 else block_end m (last es))
     \<and> unat (FreeAddress h) \<le> heap_top h
     \<and> unat (HeapSizeRemaining h) + 72 + (\<Sum>e\<leftarrow>es. esize m e + 36) = unat (HeapSizeMaximum h)
     \<and> HeapNumberOfAllocations h = of_nat (length es)
     \<and> EntryToRestartSearch h \<in> insert (HeapAllocations h) (ListEntry ` set es)"

lemmas heap_sizes = sizeof_HEAP_ENTRY_def sizeof_HEAP_TAIL_def sizeof_HEAP_HEADER_def

lemma ListEntry_inj [simp]: "ListEntry a = ListEntry b \<longleftrightarrow> a = b"
  by (simp add: ListEntry_def)

lemma HEAP_ENTRY_of_ListEntry [simp]: "HEAP_ENTRY_of (ListEntry e) = e"
  by (simp add: HEAP_ENTRY_of_def ListEntry_def)

text \<open>Setting up a block in the room \<open>avail\<close> behind address \<open>p\<close>.\<close>

definition new_entry :: "ADDR \<Rightarrow> DWORD \<Rightarrow> ADDR" where
  "new_entry p al = AlignAddressUpper (p + 32) (ucast al) - 32"

definition block_fits :: "ADDR \<Rightarrow> nat \<Rightarrow> DWORD \<Rightarrow> DWORD \<Rightarrow> bool" where
  "block_fits p avail al Sz \<longleftrightarrow> unat (new_entry p al) + unat Sz + 36 \<le> unat p + avail"

definition set_block :: "heapmem \<Rightarrow> ADDR \<Rightarrow> DWORD \<Rightarrow> DWORD \<Rightarrow> lmem \<Rightarrow> heapmem" where
  "set_block m e Tg Sz l = m\<lparr>hlink := l, hentry := (hentry m)(e \<mapsto> \<lparr>Magic = HEAP_MAGIC, Tag = Tg, Size = Sz, Offset = 32\<rparr>),
     htail := (htail m)(e + 32 + ucast Sz \<mapsto> HEAP_MAGIC)\<rparr>"

definition count_block :: "HEAP_HEADER \<Rightarrow> DWORD \<Rightarrow> HEAP_HEADER" where
  "count_block h Sz = h\<lparr>HeapSizeRemaining := HeapSizeRemaining h - ucast (Sz + 36),
     HeapNumberOfAllocations := HeapNumberOfAllocations h + 1\<rparr>"

definition power_of_2 :: "DWORD \<Rightarrow> bool" where
  "power_of_2 al \<longleftrightarrow> (\<exists>k<32. al = 2 ^ k)"

lemma power_of_2_ucast:
  assumes "power_of_2 al"
  obtains k where "k < 32" "(ucast al :: QWORD) = 2 ^ k" "unat al = 2 ^ k"
proof -
  obtain k where k: "k < 32" "al = 2 ^ k" using assms by (auto simp: power_of_2_def)
  have b: "(2::nat) ^ k \<le> 2 ^ 31" using k(1) by (intro power_increasing) auto
  have u: "unat al = 2 ^ k" using unat_of_nat [of "2 ^ k", where 'a = 32] b k(2) by simp
  have "(ucast al :: QWORD) = of_nat (unat al)" by simp
  then have "(ucast al :: QWORD) = 2 ^ k" using u by simp
  with k(1) u that show ?thesis by blast
qed

lemma new_entry_bounds:
  assumes al: "power_of_2 al" and p: "unat p + 32 < ADDR_LIMIT"
  shows "unat p \<le> unat (new_entry p al)" "unat (new_entry p al + 32) = unat (new_entry p al) + 32"
    "unat (new_entry p al + 32) mod unat al = 0" "AlignAddressUpper (p + 32) (ucast al) = new_entry p al + 32"
    "unat (new_entry p al) < unat p + unat al"
proof -
  obtain k where k: "k < 32" "(ucast al :: QWORD) = 2 ^ k" "unat al = 2 ^ k" using power_of_2_ucast [OF al] .
  have u: "unat (p + 32) = unat p + 32" using unat_add_below [of p 32] p by simp
  have "(2::nat) ^ k \<le> 2 ^ 31" using k(1) by (intro power_increasing) auto
  then have ov: "unat (p + 32) + 2 ^ k < 2 ^ 64" using p u by simp
  have k64: "k < 64" using k(1) by simp
  note a = AlignAddressUpper_unat [OF k(2) k64 ov]
  have lo: "unat p + 32 \<le> unat (AlignAddressUpper (p + 32) (ucast al))" using a(1) k(1) p u by simp
  have e: "unat (new_entry p al) = unat (AlignAddressUpper (p + 32) (ucast al)) - 32"
    unfolding new_entry_def using unat_sub_above [of 32] lo by simp
  show "unat p \<le> unat (new_entry p al)" "unat (new_entry p al) < unat p + unat al" using e lo a(3) p u k(3) by simp_all
  show n: "AlignAddressUpper (p + 32) (ucast al) = new_entry p al + 32" by (simp add: new_entry_def)
  show "unat (new_entry p al + 32) = unat (new_entry p al) + 32" using n e lo by simp
  show "unat (new_entry p al + 32) mod unat al = 0" using a(2) n k p u by simp
qed

lemma InitHeapEntry_result:
  assumes al: "power_of_2 al" and p: "unat p + unat avail < ADDR_LIMIT" "unat p + 32 < ADDR_LIMIT" and Sz: "unat Sz + 36 < 2 ^ 32"
  shows "\<not> block_fits p (unat avail) al Sz \<Longrightarrow> InitHeapEntry h m p Tg Sz al add avail = Some (0, p, h, m)"
    "block_fits p (unat avail) al Sz \<Longrightarrow> hentry m (new_entry p al) \<noteq> None \<Longrightarrow> htail m (new_entry p al + 32 + ucast Sz) \<noteq> None
      \<Longrightarrow> InitHeapEntry h m p Tg Sz al add avail = do {
        l \<leftarrow> (if add then InsertTailList (hlink m) (HeapAllocations h) (ListEntry (new_entry p al)) else Some (hlink m));
        Some (new_entry p al + ucast (Sz + 36), new_entry p al, count_block h Sz, set_block m (new_entry p al) Tg Sz l)
      }"
proof -
  let ?e = "new_entry p al"
  note b = new_entry_bounds [OF al p(2)]
  have s36: "unat (Sz + 36) = unat Sz + 36" using Sz by (simp add: unat_word_ariths)
  have "unat (ucast Sz + 36 :: QWORD) = unat Sz + 36" using Sz unat_add_below [of "ucast Sz" 36] by (simp add: unat_ucast_dword)
  then have c: "(ucast (ucast Sz + 36 :: QWORD) :: DWORD) = Sz + 36"
    using s36 Sz by (simp add: word_unat_eq_iff unsigned_ucast_eq take_bit_nat_eq_self)
  have c': "(ucast (36 + ucast Sz :: QWORD) :: DWORD) = Sz + 36" using c by (simp add: add.commute)
  have c2: "(ucast (Sz + 36) :: QWORD) = ucast Sz + 36"
    using \<open>unat (ucast Sz + 36 :: QWORD) = unat Sz + 36\<close> s36 by (simp add: word_unat_eq_iff unat_ucast_dword)
  have lt: "avail < ?e - p + ucast (Sz + 36) \<longleftrightarrow> \<not> block_fits p (unat avail) al Sz"
  proof -
    have "unat (?e - p) = unat ?e - unat p" by (rule unat_sub_above [OF b(1)])
    moreover have "unat (?e - p + ucast (Sz + 36)) = unat (?e - p) + unat (Sz + 36)"
      using unat_add_below [of "?e - p" "ucast (Sz + 36)"] b(1,5) p dword_bound [of al] calculation s36 Sz
      by (simp add: unat_ucast_dword)
    ultimately show ?thesis using b(1) s36 by (auto simp: word_less_nat_alt block_fits_def)
  qed
  show "\<not> block_fits p (unat avail) al Sz \<Longrightarrow> InitHeapEntry h m p Tg Sz al add avail = Some (0, p, h, m)"
    using lt by (simp add: InitHeapEntry_def Let_def heap_sizes b(4) c')
  show "block_fits p (unat avail) al Sz \<Longrightarrow> hentry m (new_entry p al) \<noteq> None \<Longrightarrow> htail m (new_entry p al + 32 + ucast Sz) \<noteq> None
      \<Longrightarrow> InitHeapEntry h m p Tg Sz al add avail = do {
        l \<leftarrow> (if add then InsertTailList (hlink m) (HeapAllocations h) (ListEntry (new_entry p al)) else Some (hlink m));
        Some (new_entry p al + ucast (Sz + 36), new_entry p al, count_block h Sz, set_block m (new_entry p al) Tg Sz l)
      }"
  proof -
    assume f: "block_fits p (unat avail) al Sz" and "hentry m ?e \<noteq> None" "htail m (?e + 32 + ucast Sz) \<noteq> None"
    then obtain E t where E: "hentry m ?e = Some E" "htail m (?e + 32 + ucast Sz) = Some t" by blast
    have r: "36 + (?e + ucast Sz) = ?e + ucast (Sz + 36)" by (simp add: c2)
    have E': "E\<lparr>Magic := HEAP_MAGIC, Size := Sz, Tag := Tg, Offset := 32\<rparr> = \<lparr>Magic = HEAP_MAGIC, Tag = Tg, Size = Sz, Offset = 32\<rparr>"
      by (cases E) simp
    show ?thesis
      by (cases add) (use lt f E in \<open>simp_all add: InitHeapEntry_def Let_def heap_sizes b(4) c' r E' wr_entry_def wr_tail_def set_block_def count_block_def cong: if_cong\<close>)
  qed
qed

lemma heap_invD:
  assumes "heap_inv h m es"
  shows "heap_ok h" "heap_mapped h m" "is_list (hlink m) (HeapAllocations h) (map ListEntry es)"
    "e \<in> set es \<Longrightarrow> heap_entry_ok m e" "e \<in> set es \<Longrightarrow> heap_base h + 72 \<le> unat e"
    "sorted_wrt (\<lambda>e f. block_end m e \<le> unat f) es"
    "unat (FreeAddress h) = (if es = [] then heap_base h + 72 else block_end m (last es))"
    "unat (FreeAddress h) \<le> heap_top h"
    "unat (HeapSizeRemaining h) + 72 + (\<Sum>e\<leftarrow>es. esize m e + 36) = unat (HeapSizeMaximum h)"
    "HeapNumberOfAllocations h = of_nat (length es)"
    "EntryToRestartSearch h \<in> insert (HeapAllocations h) (ListEntry ` set es)"
  using assms by (simp_all add: heap_inv_def)

lemma block_end_gt: "unat e + 36 \<le> block_end m e"
  by (simp add: block_end_def)

lemma block_below_free:
  assumes i: "heap_inv h m es" and e: "e \<in> set es"
  shows "block_end m e \<le> unat (FreeAddress h)" "block_end m e \<le> heap_top h"
proof -
  obtain as x where es: "es = as @ [x]" using e by (cases es rule: rev_cases) auto
  have "block_end m e \<le> block_end m x"
    using heap_invD(6) [OF i] e block_end_gt [of x m] by (auto simp: es sorted_wrt_append)
  then show "block_end m e \<le> unat (FreeAddress h)" using heap_invD(7) [OF i] es by simp
  then show "block_end m e \<le> heap_top h" using heap_invD(8) [OF i] by simp
qed

lemma tail_address:
  assumes "unat (e::ADDR) + unat Sz + 36 < ADDR_LIMIT"
  shows "unat (e + 32 + ucast (Sz::DWORD)) = unat e + unat Sz + 32"
  using unat_add_below [of e 32] unat_add_below [of "e + 32" "ucast Sz"] assms by (simp add: unat_ucast_dword)

lemma set_block_other:
  assumes f: "heap_entry_ok m f" "f \<noteq> e" "block_end m f < ADDR_LIMIT" "block_end m f \<noteq> unat e + unat Sz + 36" "unat e + unat Sz + 36 < ADDR_LIMIT"
  shows "heap_entry_ok (set_block m e Tg Sz l) f" "esize (set_block m e Tg Sz l) f = esize m f" "block_end (set_block m e Tg Sz l) f = block_end m f"
proof -
  obtain F where F: "hentry m f = Some F" "Magic F = HEAP_MAGIC" "Tag F \<noteq> 0" "Offset F = 32"
    "htail m (f + 32 + ucast (Size F)) = Some HEAP_MAGIC" using f(1) by (auto simp: heap_entry_ok_def)
  have "unat f + unat (Size F) + 36 = block_end m f" by (simp add: block_end_def esize_def F)
  then have "unat (f + 32 + ucast (Size F)) \<noteq> unat (e + 32 + ucast Sz)" using tail_address [of f "Size F"] tail_address [of e Sz] f by simp
  then show "heap_entry_ok (set_block m e Tg Sz l) f" using F f(2) by (auto simp: heap_entry_ok_def set_block_def)
  show "esize (set_block m e Tg Sz l) f = esize m f" using f(2) by (simp add: esize_def set_block_def)
  then show "block_end (set_block m e Tg Sz l) f = block_end m f" by (simp add: block_end_def)
qed

lemma set_block_new:
  "Tg \<noteq> 0 \<Longrightarrow> heap_entry_ok (set_block m e Tg Sz l) e" "esize (set_block m e Tg Sz l) e = unat Sz"
  "block_end (set_block m e Tg Sz l) e = unat e + unat Sz + 36"
  by (simp_all add: heap_entry_ok_def set_block_def esize_def block_end_def)

lemma heap_inv_insert:
  assumes i: "heap_inv h m (as @ bs)"
    and e: "heap_base h + 72 \<le> unat e" "as \<noteq> [] \<Longrightarrow> block_end m (last as) \<le> unat e"
      "bs \<noteq> [] \<Longrightarrow> unat e + unat Sz + 36 \<le> unat (hd bs)" "unat e + unat Sz + 36 \<le> heap_top h"
    and Sz: "unat Sz + 36 < 2 ^ 32" "unat Sz + 36 \<le> unat (HeapSizeRemaining h)" "Tg \<noteq> 0"
    and l: "is_list l (HeapAllocations h) (map ListEntry (as @ e # bs))" "dom l = dom (hlink m)"
    and f: "unat f = (if bs = [] then unat e + unat Sz + 36 else unat (FreeAddress h))"
    and r: "r \<in> insert (HeapAllocations h) (ListEntry ` set (as @ e # bs))"
  shows "heap_inv ((count_block h Sz)\<lparr>FreeAddress := f, EntryToRestartSearch := r\<rparr>) (set_block m e Tg Sz l) (as @ e # bs)"
proof -
  let ?m = "set_block m e Tg Sz l" and ?h = "(count_block h Sz)\<lparr>FreeAddress := f, EntryToRestartSearch := r\<rparr>"
  note d = heap_invD [OF i]
  have h': "heap_base ?h = heap_base h" "heap_top ?h = heap_top h" "HeapAllocations ?h = HeapAllocations h" "heap_ok ?h"
    "HeapSizeMaximum ?h = HeapSizeMaximum h"
    using d(1) by (simp_all add: count_block_def heap_base_def heap_top_def HeapAllocations_def heap_ok_def)
  have top: "heap_top h < ADDR_LIMIT" using d(1) by (simp add: heap_ok_def)
  have A: "block_end m x \<le> unat e" if "x \<in> set as" for x
  proof -
    have "block_end m x \<le> block_end m (last as)"
      using that d(6) block_end_gt [of "last as" m] by (cases as rule: rev_cases) (auto simp: sorted_wrt_append)
    then show ?thesis using e(2) that by fastforce
  qed
  have B: "unat e + unat Sz + 36 \<le> unat x" if "x \<in> set bs" for x
  proof -
    have "unat (hd bs) \<le> unat x"
      using that d(6) block_end_gt [of "hd bs" m] by (cases bs) (auto simp: sorted_wrt_append)
    then show ?thesis using e(3) that by fastforce
  qed
  have o: "heap_entry_ok ?m x" "esize ?m x = esize m x" "block_end ?m x = block_end m x" if "x \<in> set (as @ bs)" for x
  proof -
    have "block_end m x \<le> heap_top h" by (rule block_below_free(2) [OF i that])
    moreover have "x \<noteq> e" "block_end m x \<noteq> unat e + unat Sz + 36"
      using that A [of x] B [of x] block_end_gt [of x m] by auto
    ultimately show "heap_entry_ok ?m x" "esize ?m x = esize m x" "block_end ?m x = block_end m x"
      using set_block_other [OF d(4) [OF that], of e Sz Tg l] top e(4) by auto
  qed
  have "sorted_wrt (\<lambda>x y. block_end ?m x \<le> unat y) (as @ bs)"
    by (rule sorted_wrt_mono_rel [OF _ d(6)]) (simp add: o(3))
  then have so: "sorted_wrt (\<lambda>x y. block_end ?m x \<le> unat y) (as @ e # bs)"
    using A B o(3) by (auto simp: sorted_wrt_append set_block_new)
  have "(\<Sum>x\<leftarrow>as @ bs. esize ?m x + 36) = (\<Sum>x\<leftarrow>as @ bs. esize m x + 36)"
    using o(2) by (intro arg_cong [of _ _ sum_list] map_cong) auto
  then have su: "(\<Sum>x\<leftarrow>as @ e # bs. esize ?m x + 36) = (\<Sum>x\<leftarrow>as @ bs. esize m x + 36) + unat Sz + 36"
    by (simp add: set_block_new)
  have s36: "unat (Sz + 36) = unat Sz + 36" using Sz(1) by (simp add: unat_word_ariths)
  then have re: "unat (HeapSizeRemaining ?h) = unat (HeapSizeRemaining h) - (unat Sz + 36)"
    using Sz(2) unat_sub_above [of "ucast (Sz + 36)" "HeapSizeRemaining h"] by (simp add: count_block_def unat_ucast_dword)
  have ma: "heap_mapped ?h ?m"
    using d(2) l(2) by (auto simp: heap_mapped_def h' set_block_def dom_def set_eq_iff)
  have fr: "unat f = block_end ?m (last (as @ e # bs))" "unat f \<le> heap_top h"
    using f d(7,8) o(3) [of "last bs"] e(4) by (auto simp: set_block_new)
  show ?thesis unfolding heap_inv_def h'
  proof (intro conjI ballI)
    show "heap_entry_ok ?m x" if "x \<in> set (as @ e # bs)" for x
      using that o(1) set_block_new(1) [OF Sz(3)] by auto
    show "heap_base h + 72 \<le> unat x" if "x \<in> set (as @ e # bs)" for x
      using that d(5) [of x] e(1) by auto
    show "unat (HeapSizeRemaining ?h) + 72 + (\<Sum>x\<leftarrow>as @ e # bs. esize ?m x + 36) = unat (HeapSizeMaximum h)"
      using d(9) su re Sz(2) by simp
    show "HeapNumberOfAllocations ?h = of_nat (length (as @ e # bs))" using d(10) by (simp add: count_block_def)
  qed (use h' ma l so fr r in \<open>simp_all add: set_block_def\<close>)
qed

end
