(* ===== verification/CL_Heap_Ops.thy ===== *)
theory CL_Heap_Ops
  imports CL_Heap
begin

text \<open>
  What the operations of \<^verbatim>\<open>CommonLib/src/cl_heap.c\<close> do on a well-formed heap: the search for a hole, allocation, freeing
  and initialisation, and two runs in which the search fails.
\<close>

section \<open>Allocation\<close>

lemma entry_in_heap:
  assumes i: "heap_inv h m es" and e: "e \<in> set es"
  shows "heap_base h \<le> unat e" "unat e \<le> heap_base h + unat (HeapSizeMaximum h)" "block_end m e \<le> heap_base h + unat (HeapSizeMaximum h)"
  using heap_invD(5) [OF i e] block_below_free(2) [OF i e] block_end_gt [of e m] by (simp_all add: heap_top_def heap_base_def)

lemma entry_size:
  assumes i: "heap_inv h m es" and e: "e \<in> set es" and E: "hentry m e = Some E"
  shows "block_end m e = unat e + unat (Size E) + 36" "unat e + unat (Size E) + 36 < ADDR_LIMIT" "unat (Size E) + 36 < 2 ^ 32" "e \<noteq> NULL"
proof -
  show b: "block_end m e = unat e + unat (Size E) + 36" by (simp add: block_end_def esize_def E)
  note d = heap_invD [OF i] and t = block_below_free(2) [OF i e]
  then show "unat e + unat (Size E) + 36 < ADDR_LIMIT" using b by (simp add: heap_ok_def)
  show "unat (Size E) + 36 < 2 ^ 32" using b t d(1) d(5) [OF e] by (simp add: heap_ok_def heap_top_def heap_base_def)
  show "e \<noteq> NULL" using d(1) d(5) [OF e] by (auto simp: heap_ok_def)
qed

lemma ValidateHeapEntry_live:
  assumes i: "heap_inv h m es" and e: "e \<in> set es" and E: "hentry m e = Some E" and T: "Tg \<noteq> 0"
  shows "ValidateHeapEntry m e Tg = Some (Tg = Tag E)"
proof -
  note s = entry_size [OF i e E]
  have o: "Magic E = HEAP_MAGIC" "Tag E \<noteq> 0" "htail m (e + 32 + ucast (Size E)) = Some HEAP_MAGIC"
    using heap_invD(4) [OF i e] E by (auto simp: heap_entry_ok_def)
  have "unat (36 + ucast (Size E) :: QWORD) = 36 + unat (Size E)"
    using unat_add_below [of 36 "ucast (Size E)"] s(3) by (simp add: unat_ucast_dword)
  then have "(ucast (ucast (36 + ucast (Size E) :: QWORD) :: DWORD) :: QWORD) = 36 + ucast (Size E)"
    using s(3) by (simp add: word_unat_eq_iff unsigned_ucast_eq take_bit_nat_eq_self unat_take_bit_mod)
  moreover have "e + (36 + ucast (Size E)) - 4 = e + 32 + ucast (Size E)" by simp
  moreover have "htail m (32 + (e + ucast (Size E))) = Some HEAP_MAGIC" using o(3) by (simp add: ac_simps)
  ultimately show ?thesis using o E T s(4) by (auto simp: ValidateHeapEntry_def Let_def heap_sizes)
qed

lemma ListEntry_mem [simp]: "ListEntry x \<in> ListEntry ` A \<longleftrightarrow> x \<in> A"
  by auto

lemma ListEntry_unat: "unat e + 36 < ADDR_LIMIT \<Longrightarrow> unat (ListEntry e) = unat e + 16"
  unfolding ListEntry_def using unat_add_below [of e 16] by simp

lemma HeapAllocations_unat: "heap_ok h \<Longrightarrow> unat (HeapAllocations h) = heap_base h + 56"
  unfolding HeapAllocations_def heap_base_def using unat_add_below [of "BaseAddress h" 56]
  by (simp add: heap_ok_def heap_top_def)

lemma ListEntry_new:
  assumes "heap_ok h" "heap_base h + 72 \<le> unat e" "unat e + 36 < ADDR_LIMIT"
  shows "ListEntry e \<noteq> HeapAllocations h" "ListEntry e \<noteq> NULL"
proof -
  have "unat (ListEntry e) \<noteq> unat (HeapAllocations h)" "unat (ListEntry e) \<noteq> 0"
    using ListEntry_unat [OF assms(3)] HeapAllocations_unat [OF assms(1)] assms(2) by simp_all
  then show "ListEntry e \<noteq> HeapAllocations h" "ListEntry e \<noteq> NULL" by auto
qed

lemma set_block_links [simp]: "hlink (set_block m e Tg Sz l) = l" "(set_block m e Tg Sz l)\<lparr>hlink := l'\<rparr> = set_block m e Tg Sz l'"
  by (simp_all add: set_block_def)

lemma Validate_links: "ValidateHeapEntry (set_block m e Tg Sz l) p T = ValidateHeapEntry (set_block m e Tg Sz l') p T"
  by (simp add: ValidateHeapEntry_def set_block_def)

definition new_block :: "HEAP_HEADER \<Rightarrow> heapmem \<Rightarrow> ADDR list \<Rightarrow> DWORD \<Rightarrow> DWORD \<Rightarrow> DWORD \<Rightarrow> ADDR \<Rightarrow> HEAP_HEADER \<Rightarrow> heapmem \<Rightarrow> bool" where
  "new_block h m es Sz Tg al e h' m' \<longleftrightarrow> (\<exists>as bs l. es = as @ bs \<and> heap_inv h' m' (as @ e # bs) \<and> m' = set_block m e Tg Sz l
     \<and> BaseAddress h' = BaseAddress h \<and> HeapSizeMaximum h' = HeapSizeMaximum h \<and> e \<noteq> NULL \<and> unat (e + 32) mod unat al = 0)"

definition placed :: "HEAP_HEADER \<Rightarrow> heapmem \<Rightarrow> ADDR list \<Rightarrow> DWORD \<Rightarrow> DWORD \<Rightarrow> DWORD \<Rightarrow> (ADDR \<times> HEAP_HEADER \<times> heapmem) option \<Rightarrow> bool" where
  "placed h m es Sz Tg al r \<longleftrightarrow> (\<exists>e h' m'. r = Some (e, h', m') \<and> (e = NULL \<and> h' = h \<and> m' = m \<or> new_block h m es Sz Tg al e h' m'))"

definition start_of :: "heapmem \<Rightarrow> ADDR \<Rightarrow> ADDR" where
  "start_of m p = p + 32 + ucast (Size (the (hentry m p))) + 4"

lemma start_of_unat:
  assumes i: "heap_inv h m es" and p: "p \<in> set es"
  shows "unat (start_of m p) = block_end m p"
proof -
  obtain P where P: "hentry m p = Some P" using heap_invD(4) [OF i p] by (auto simp: heap_entry_ok_def)
  note s = entry_size [OF i p P]
  show ?thesis using tail_address [OF s(2)] unat_add_below [of "p + 32 + ucast (Size P)" 4] s by (simp add: start_of_def P)
qed

text \<open>The hole between two neighbours.\<close>

lemma hole_step:
  assumes i: "heap_inv h m (as @ p # q # bs)" and r: "EntryToRestartSearch h \<noteq> ListEntry q"
    and al: "power_of_2 al" and Sz: "unat Sz + 36 < 2 ^ 32" "unat Sz + 36 \<le> unat (HeapSizeRemaining h)" "Tg \<noteq> 0"
    and req: "req = ucast Sz + sizeof_HEAP_ENTRY + sizeof_HEAP_TAIL"
  shows "block_fits (start_of m p) (unat q - block_end m p) al Sz \<Longrightarrow>
      placed h m (as @ p # q # bs) Sz Tg al (heap_search h m req Tg Sz al (ListEntry p) p (ListEntry q) c)"
    "\<not> block_fits (start_of m p) (unat q - block_end m p) al Sz \<Longrightarrow> heap_search h m req Tg Sz al (ListEntry p) p (ListEntry q) c
      = heap_search h m req Tg Sz al (ListEntry q) q (hd (map ListEntry bs @ [HeapAllocations h])) q"
proof -
  let ?es = "as @ p # q # bs" and ?s = "start_of m p" and ?e = "new_entry (start_of m p) al"
  note d = heap_invD [OF i]
  have pq: "p \<in> set ?es" "q \<in> set ?es" by simp_all
  obtain P where P: "hentry m p = Some P" using d(4) [OF pq(1)] by (auto simp: heap_entry_ok_def)
  note sp = entry_size [OF i pq(1) P]
  have top: "heap_top h < ADDR_LIMIT" using d(1) by (simp add: heap_ok_def)
  have qt: "unat q + 36 \<le> heap_top h" using block_below_free(2) [OF i pq(2)] block_end_gt [of q m] by simp
  have us: "unat ?s = block_end m p" by (rule start_of_unat [OF i pq(1)])
  have le: "block_end m p \<le> unat q" using d(6) by (simp add: sorted_wrt_append)
  have bw: "unat (q - ?s) = unat q - block_end m p" using unat_sub_above [of ?s q] us le by simp
  have ur: "unat req = unat Sz + 36" unfolding req heap_sizes
    using unat_add_below [of 36 "ucast Sz"] Sz(1) by (simp add: unat_ucast_dword)
  have "unat q - block_end m p < 2 ^ 32" using entry_in_heap(2,3) [OF i pq(2)] entry_in_heap(1) [OF i pq(1)] block_end_gt [of p m] d(1)
    unfolding heap_ok_def by linarith
  then have sb: "sint (q - ?s) = int (unat q - block_end m p)" using sint_small [of "q - ?s"] bw by simp
  have sr: "sint req = int (unat Sz + 36)" using sint_small [of req] ur Sz(1) by simp
  have hd: "ListEntry p \<noteq> HeapAllocations h" "ListEntry q \<noteq> HeapAllocations h" using d(3) by (auto simp: is_list_def)
  have nx: "rd_Flink (hlink m) (ListEntry q) = Some (hd (map ListEntry bs @ [HeapAllocations h]))"
    using is_list_next [of "hlink m" "HeapAllocations h" "map ListEntry (as @ [p])" "ListEntry q" "map ListEntry bs"] d(3) by simp
  have pr: "unat ?s + unat (q - ?s) < ADDR_LIMIT" "unat ?s + 32 < ADDR_LIMIT" using us bw le qt top by auto
  note ie = InitHeapEntry_result [OF al pr Sz(1), unfolded bw]
  note nb = new_entry_bounds [OF al pr(2)]
  have st: "p + sizeof_HEAP_ENTRY + ucast (Size P) + sizeof_HEAP_TAIL = ?s" by (simp add: start_of_def P heap_sizes)
  have cmp: "sint req \<le> sint (q - ?s) \<longleftrightarrow> unat Sz + 36 \<le> unat q - block_end m p"
    unfolding sb sr by (rule of_nat_le_iff)
  have f1: "unat Sz + 36 \<le> unat q - block_end m p" if "block_fits ?s (unat q - block_end m p) al Sz"
    using that nb(1) us le by (simp add: block_fits_def)
  show "heap_search h m req Tg Sz al (ListEntry p) p (ListEntry q) c
      = heap_search h m req Tg Sz al (ListEntry q) q (hd (map ListEntry bs @ [HeapAllocations h])) q"
    if nf: "\<not> block_fits ?s (unat q - block_end m p) al Sz"
    using ie(1) [OF nf, of h m Tg False] by (subst heap_search.simps) (simp add: r hd P st sp(4) cmp nx Let_def)
  show "placed h m ?es Sz Tg al (heap_search h m req Tg Sz al (ListEntry p) p (ListEntry q) c)"
    if f: "block_fits ?s (unat q - block_end m p) al Sz"
  proof -
    have e1: "block_end m p \<le> unat ?e" "unat ?e + unat Sz + 36 \<le> unat q" using nb(1) us f le by (auto simp: block_fits_def)
    have base: "heap_base h + 72 \<le> unat ?e" using d(5) [OF pq(1)] e1(1) block_end_gt [of p m] by simp
    have et: "unat (?e + 32 + ucast Sz) = unat ?e + unat Sz + 32" by (rule tail_address) (use e1 qt top in simp)
    have mp: "hentry m ?e \<noteq> None" "htail m (?e + 32 + ucast Sz) \<noteq> None" "hlink m (ListEntry ?e) \<noteq> None"
    proof -
      have "unat (ListEntry ?e) = unat ?e + 16" using ListEntry_unat [of ?e] e1 qt top by simp
      then show "hentry m ?e \<noteq> None" "htail m (?e + 32 + ucast Sz) \<noteq> None" "hlink m (ListEntry ?e) \<noteq> None"
        using d(2) base e1 qt et by (auto simp: heap_mapped_def)
    qed
    let ?m1 = "set_block m ?e Tg Sz (hlink m)"
    have ne: "?e \<notin> set ?es"
    proof
      assume "?e \<in> set ?es"
      then consider "?e \<in> set as" | "?e = p" | "?e = q" | "?e \<in> set bs" by auto
      then show False
      proof cases
        case 1
        then have "block_end m ?e \<le> unat p" using d(6) by (auto simp: sorted_wrt_append)
        then show ?thesis using e1 block_end_gt [of ?e m] block_end_gt [of p m] by simp
      next
        case 2 then show ?thesis using e1(1) block_end_gt [of p m] by simp
      next
        case 3 then show ?thesis using e1(2) by simp
      next
        case 4
        then have "block_end m q \<le> unat ?e" using d(6) by (auto simp: sorted_wrt_append)
        then show ?thesis using e1(2) block_end_gt [of q m] by simp
      qed
    qed
    have e2: "unat ?e + 36 < ADDR_LIMIT" using e1 qt top by simp
    note ln = ListEntry_new [OF d(1) base e2]
    obtain l where l: "InsertHeadList (hlink m) (ListEntry p) (ListEntry ?e) = Some l"
      "is_list l (HeapAllocations h) (map ListEntry (as @ [p]) @ ListEntry ?e # map ListEntry (q # bs))"
      "untouched (hlink m) l (insert (ListEntry ?e) (set (HeapAllocations h # map ListEntry (as @ [p]) @ map ListEntry (q # bs))))"
      using InsertHeadList_after [of "hlink m" "HeapAllocations h" "map ListEntry (as @ [p])" "map ListEntry (q # bs)" "ListEntry ?e"]
        d(3) ne ln mp(3) by auto
    let ?h = "(count_block h Sz)\<lparr>EntryToRestartSearch := ListEntry ?e\<rparr>"
    have inv: "heap_inv ((count_block h Sz)\<lparr>FreeAddress := FreeAddress h, EntryToRestartSearch := ListEntry ?e\<rparr>)
        (set_block m ?e Tg Sz l) ((as @ [p]) @ ?e # q # bs)"
      by (rule heap_inv_insert) (use i base e1 qt Sz l in \<open>auto simp: untouched_def\<close>)
    have pe: "p \<noteq> ?e" using ne by auto
    have P1: "hentry ?m1 p = Some P" "hentry (set_block m ?e Tg Sz l) p = Some P" using P pe by (simp_all add: set_block_def)
    have "Tag P \<noteq> 0" using d(4) [OF pq(1)] P by (auto simp: heap_entry_ok_def)
    then have v: "ValidateHeapEntry ?m1 p (Tag P) = Some True"
      using ValidateHeapEntry_live [OF inv _ P1(2)] Validate_links [of m ?e Tg Sz "hlink m" p "Tag P" l] by simp
    have "unat (Sz + 36) = unat Sz + 36" using Sz(1) by (simp add: unat_word_ariths)
    then have "unat (?e + ucast (Sz + 36)) = unat ?e + unat Sz + 36"
      using unat_add_below [of ?e "ucast (Sz + 36)"] e1(2) qt top by (simp add: unat_ucast_dword)
    then have un: "?e + ucast (Sz + 36) \<noteq> 0" by auto
    have "heap_search h m req Tg Sz al (ListEntry p) p (ListEntry q) c = Some (?e, ?h, set_block m ?e Tg Sz l)"
      using ie(2) [OF f mp(1,2)] f1 [OF f] un
      by (subst heap_search.simps) (simp add: r hd P st sp(4) cmp P1 v l(1) Let_def)
    moreover have "?h = (count_block h Sz)\<lparr>FreeAddress := FreeAddress h, EntryToRestartSearch := ListEntry ?e\<rparr>"
      by (cases h) (simp add: count_block_def)
    moreover have "new_block h m ?es Sz Tg al ?e ((count_block h Sz)\<lparr>FreeAddress := FreeAddress h, EntryToRestartSearch := ListEntry ?e\<rparr>) (set_block m ?e Tg Sz l)"
      unfolding new_block_def
      by (rule exI [of _ "as @ [p]"], rule exI [of _ "q # bs"], rule exI [of _ l])
        (use inv nb(3) entry_size(4) [OF inv _ P1(2)] base d(1) in \<open>auto simp: count_block_def heap_ok_def\<close>)
    ultimately show ?thesis by (auto simp: placed_def)
  qed
qed

lemma placed_NULL: "placed h m es Sz Tg al (Some (NULL, h, m))"
  by (simp add: placed_def)

lemma search_stops: "EntryToRestartSearch h = cu \<Longrightarrow> heap_search h m req Tg Sz al pr pH cu c = Some (NULL, h, m)"
  by (subst heap_search.simps) simp

lemma search_segment:
  assumes i: "heap_inv h m (as @ p # bs @ cs)" and r: "EntryToRestartSearch h \<notin> ListEntry ` set bs"
    and al: "power_of_2 al" and Sz: "unat Sz + 36 < 2 ^ 32" "unat Sz + 36 \<le> unat (HeapSizeRemaining h)" "Tg \<noteq> 0"
    and req: "req = ucast Sz + sizeof_HEAP_ENTRY + sizeof_HEAP_TAIL"
    and fin: "placed h m (as @ p # bs @ cs) Sz Tg al (heap_search h m req Tg Sz al (ListEntry (last (p # bs))) (last (p # bs))
      (hd (map ListEntry cs @ [HeapAllocations h])) (if bs = [] then c else last bs))"
  shows "placed h m (as @ p # bs @ cs) Sz Tg al
    (heap_search h m req Tg Sz al (ListEntry p) p (hd (map ListEntry (bs @ cs) @ [HeapAllocations h])) c)"
  using i r fin
proof (induction bs arbitrary: as p c)
  case Nil
  then show ?case by simp
next
  case (Cons q bs)
  have i': "heap_inv h m (as @ p # q # (bs @ cs))" "heap_inv h m ((as @ [p]) @ q # bs @ cs)" using Cons.prems(1) by simp_all
  have rq: "EntryToRestartSearch h \<noteq> ListEntry q" using Cons.prems(2) by auto
  note hs = hole_step [OF i'(1) rq al Sz req, of c]
  show ?case
  proof (cases "block_fits (start_of m p) (unat q - block_end m p) al Sz")
    case True then show ?thesis using hs(1) by simp
  next
    case False
    have "placed h m ((as @ [p]) @ q # bs @ cs) Sz Tg al
      (heap_search h m req Tg Sz al (ListEntry q) q (hd (map ListEntry (bs @ cs) @ [HeapAllocations h])) q)"
      by (rule Cons.IH [OF i'(2)]) (use Cons.prems(2,3) in \<open>auto split: if_splits\<close>)
    then show ?thesis using hs(2) [OF False] by simp
  qed
qed

text \<open>A stale previous entry, left over from before the list head: the distance is negative.\<close>

lemma stale_step:
  assumes i: "heap_inv h m (as @ p # q # bs)" and r: "EntryToRestartSearch h \<noteq> ListEntry q"
    and x: "x \<in> set (as @ p # q # bs)" "unat q < block_end m x" and Sz: "unat Sz + 36 < 2 ^ 32"
    and req: "req = ucast Sz + sizeof_HEAP_ENTRY + sizeof_HEAP_TAIL"
  shows "heap_search h m req Tg Sz al (ListEntry p) x (ListEntry q) c
      = heap_search h m req Tg Sz al (ListEntry q) q (hd (map ListEntry bs @ [HeapAllocations h])) q"
proof -
  note d = heap_invD [OF i]
  obtain X where X: "hentry m x = Some X" using d(4) [OF x(1)] by (auto simp: heap_entry_ok_def)
  have us: "unat (start_of m x) = block_end m x" by (rule start_of_unat [OF i x(1)])
  have top: "block_end m x < ADDR_LIMIT" using block_below_free(2) [OF i x(1)] d(1) by (simp add: heap_ok_def)
  have "unat (q - start_of m x) = 2 ^ 64 + unat q - block_end m x" using unat_sub_wraps [of q "start_of m x"] us x(2) by simp
  moreover have "block_end m x < unat q + 2 ^ 32"
    using entry_in_heap(3) [OF i x(1)] entry_in_heap(1) [OF i, of q] d(1) by (simp add: heap_ok_def)
  ultimately have neg: "sint (q - start_of m x) < 0" using sint_negative [of "q - start_of m x"] by simp
  have "unat req = unat Sz + 36" unfolding req heap_sizes
    using unat_add_below [of 36 "ucast Sz"] Sz(1) by (simp add: unat_ucast_dword)
  then have "0 \<le> sint req" using sint_small [of req] Sz by simp
  with neg have nc: "\<not> sint req \<le> sint (q - start_of m x)" by simp
  have hd: "ListEntry p \<noteq> HeapAllocations h" "ListEntry q \<noteq> HeapAllocations h" using d(3) by (auto simp: is_list_def)
  have nx: "rd_Flink (hlink m) (ListEntry q) = Some (hd (map ListEntry bs @ [HeapAllocations h]))"
    using is_list_next [of "hlink m" "HeapAllocations h" "map ListEntry (as @ [p])" "ListEntry q" "map ListEntry bs"] d(3) by simp
  have st: "x + sizeof_HEAP_ENTRY + ucast (Size X) + sizeof_HEAP_TAIL = start_of m x" by (simp add: start_of_def X heap_sizes)
  show ?thesis by (subst heap_search.simps) (simp add: r hd X st entry_size(4) [OF i x(1) X] nc nx Let_def)
qed

text \<open>Past the list head without a last visited entry, two entries in front of the one where the search began.\<close>

lemma search_wrap_fails:
  assumes i: "heap_inv h m (as @ e # bs)" and r: "EntryToRestartSearch h = ListEntry e" and as: "2 \<le> length as"
  shows "heap_search h m req Tg Sz al (HeapAllocations h) g (hd (map ListEntry (as @ e # bs))) NULL = None"
proof -
  note d = heap_invD [OF i]
  obtain e1 e2 as' where as': "as = e1 # e2 # as'" using as by (auto simp: Suc_le_length_iff numeral_2_eq_2)
  have "rd_Flink (hlink m) (ListEntry e1) = Some (ListEntry e2)"
    using is_list_next [of "hlink m" "HeapAllocations h" "[]" "ListEntry e1" "map ListEntry (e2 # as' @ e # bs)"] d(3) as' by simp
  moreover have ne: "e1 \<noteq> e" "e2 \<noteq> e" using d(3) as' by (auto simp: is_list_def)
  ultimately have s1: "heap_search h m req Tg Sz al (HeapAllocations h) g (ListEntry e1) NULL
      = heap_search h m req Tg Sz al (ListEntry e1) NULL (ListEntry e2) NULL"
    using r by (subst heap_search.simps) simp
  have "ListEntry e1 \<noteq> HeapAllocations h" "ListEntry e2 \<noteq> HeapAllocations h" using d(3) as' by (auto simp: is_list_def)
  then have "heap_search h m req Tg Sz al (ListEntry e1) NULL (ListEntry e2) NULL = None"
    using r ne by (subst heap_search.simps) simp
  then show ?thesis using s1 as' by simp
qed

text \<open>The search past the list head, to the entry where it began. Without a last visited entry
  (\<open>x\<close> null) it may fail its assertion.\<close>

lemma search_wrap:
  assumes i: "heap_inv h m (as @ e # bs)" and r: "EntryToRestartSearch h = ListEntry e"
    and x: "x = NULL \<or> x = last (as @ e # bs)"
    and al: "power_of_2 al" and Sz: "unat Sz + 36 < 2 ^ 32" "unat Sz + 36 \<le> unat (HeapSizeRemaining h)" "Tg \<noteq> 0"
    and req: "req = ucast Sz + sizeof_HEAP_ENTRY + sizeof_HEAP_TAIL"
  shows "let R = heap_search h m req Tg Sz al (HeapAllocations h) g (hd (map ListEntry (as @ e # bs))) x in
    placed h m (as @ e # bs) Sz Tg al R \<or> x = NULL \<and> R = None"
proof -
  let ?P = "placed h m (as @ e # bs) Sz Tg al" and ?S = "heap_search h m req Tg Sz al"
  note d = heap_invD [OF i]
  consider "as = []" | e1 where "as = [e1]" | e1 e2 as' where "as = e1 # e2 # as'"
    by (metis list.exhaust)
  then show ?thesis
  proof cases
    case 1 then show ?thesis using r by (simp add: search_stops placed_NULL)
  next
    case 2
    have "rd_Flink (hlink m) (ListEntry e1) = Some (ListEntry e)"
      using is_list_next [of "hlink m" "HeapAllocations h" "[]" "ListEntry e1" "map ListEntry (e # bs)"] d(3) 2 by simp
    moreover have "e1 \<noteq> e" using d(3) 2 by (auto simp: is_list_def)
    ultimately have "?S (HeapAllocations h) g (ListEntry e1) x = ?S (ListEntry e1) x (ListEntry e) x"
      using r by (subst heap_search.simps) simp
    then show ?thesis using r 2 by (simp add: search_stops placed_NULL)
  next
    case 3
    have "rd_Flink (hlink m) (ListEntry e1) = Some (ListEntry e2)"
      using is_list_next [of "hlink m" "HeapAllocations h" "[]" "ListEntry e1" "map ListEntry (e2 # as' @ e # bs)"] d(3) 3 by simp
    moreover have ne: "e1 \<noteq> e" "e2 \<noteq> e" "e \<notin> set as'" using d(3) 3 by (auto simp: is_list_def)
    ultimately have s1: "?S (HeapAllocations h) g (ListEntry e1) x = ?S (ListEntry e1) x (ListEntry e2) x"
      using r by (subst heap_search.simps) simp
    have i2: "heap_inv h m ([] @ e1 # e2 # (as' @ e # bs))" "heap_inv h m ([e1] @ e2 # as' @ (e # bs))" using i 3 by simp_all
    show ?thesis
    proof (cases "x = NULL")
      case True
      then show ?thesis using search_wrap_fails [OF i r] 3 by simp
    next
      case False
      then have xl: "x = last (as @ e # bs)" using x by simp
      have xi: "x \<in> set (as @ e # bs)" unfolding xl by (rule last_in_set) simp
      have e2i: "e2 \<in> set (as @ e # bs)" using 3 by simp
      have "block_end m e2 \<le> block_end m x"
        using block_below_free(1) [OF i e2i] d(7) xl by simp
      then have gt: "unat e2 < block_end m x" using block_end_gt [of e2 m] by simp
      have s2: "?S (ListEntry e1) x (ListEntry e2) x = ?S (ListEntry e2) e2 (hd (map ListEntry (as' @ e # bs) @ [HeapAllocations h])) e2"
        by (rule stale_step [OF i2(1) _ _ gt Sz(1) req]) (use r ne xi 3 in auto)
      have "placed h m ([e1] @ e2 # as' @ (e # bs)) Sz Tg al (?S (ListEntry e2) e2 (hd (map ListEntry (as' @ e # bs) @ [HeapAllocations h])) e2)"
        by (rule search_segment [OF i2(2) _ al Sz req]) (use r ne in \<open>auto simp: search_stops placed_NULL\<close>)
      then show ?thesis using s1 s2 3 by simp
    qed
  qed
qed

text \<open>From these places the search can start without failing an assertion: the list head, or an entry
  with two entries behind it.\<close>

definition restart_ok :: "HEAP_HEADER \<Rightarrow> ADDR list \<Rightarrow> bool" where
  "restart_ok h es \<longleftrightarrow> EntryToRestartSearch h = HeapAllocations h
     \<or> (\<exists>as e p q bs. es = as @ e # p # q # bs \<and> EntryToRestartSearch h = ListEntry e)"

lemma search_result:
  assumes i: "heap_inv h m es" and ne: "es \<noteq> []"
    and al: "power_of_2 al" and Sz: "unat Sz + 36 < 2 ^ 32" "unat Sz + 36 \<le> unat (HeapSizeRemaining h)" "Tg \<noteq> 0"
    and req: "req = ucast Sz + sizeof_HEAP_ENTRY + sizeof_HEAP_TAIL"
  shows "let R = do { pr \<leftarrow> rd_Flink (hlink m) (EntryToRestartSearch h); cu \<leftarrow> rd_Flink (hlink m) pr;
      heap_search h m req Tg Sz al pr (HEAP_ENTRY_of pr) cu NULL } in placed h m es Sz Tg al R \<or> \<not> restart_ok h es \<and> R = None"
proof -
  let ?H = "HeapAllocations h" and ?S = "heap_search h m req Tg Sz al"
  note d = heap_invD [OF i]
  have first: "rd_Flink (hlink m) ?H = Some (hd (map ListEntry es))" using is_list_first(1) [OF d(3)] ne by (cases es) auto
  show ?thesis
  proof (cases "EntryToRestartSearch h = ?H")
    case True
    obtain p bs where es: "es = p # bs" using ne by (cases es) auto
    have "rd_Flink (hlink m) (ListEntry p) = Some (hd (map ListEntry bs @ [?H]))"
      using is_list_next [of "hlink m" ?H "[]" "ListEntry p" "map ListEntry bs"] d(3) es by simp
    moreover have "placed h m ([] @ p # bs @ []) Sz Tg al (?S (ListEntry p) p (hd (map ListEntry (bs @ []) @ [?H])) NULL)"
      by (rule search_segment [OF _ _ al Sz req]) (use i d(3) es True in \<open>auto simp: search_stops placed_NULL is_list_def\<close>)
    ultimately show ?thesis using True first es by simp
  next
    case False
    then obtain e where e: "e \<in> set es" "EntryToRestartSearch h = ListEntry e" using d(11) by auto
    then obtain as bs where es: "es = as @ e # bs" by (meson split_list)
    have ie: "heap_inv h m (as @ e # bs)" using i es by simp
    have "distinct es" using d(3) by (auto simp: is_list_def distinct_map)
    then have dis: "e \<notin> set as" "e \<notin> set bs" using es by auto
    have nx: "rd_Flink (hlink m) (ListEntry e) = Some (hd (map ListEntry bs @ [?H]))"
      using is_list_next [of "hlink m" ?H "map ListEntry as" "ListEntry e" "map ListEntry bs"] d(3) es by simp
    have nok: "\<not> restart_ok h es" if "length bs < 2"
    proof
      assume "restart_ok h es"
      then obtain as' p q bs' where "as @ e # bs = as' @ e # p # q # bs'" using False e(2) es by (auto simp: restart_ok_def)
      then have "bs = p # q # bs'" using dis by (auto simp: append_Cons_eq_iff)
      then show False using that by simp
    qed
    have head: "?S pr pH ?H x = ?S ?H x (hd (map ListEntry es)) x" for pr pH x
      using False first by (subst heap_search.simps) simp
    note wrap = search_wrap [OF ie e(2) _ al Sz req, unfolded Let_def]
    consider "bs = []" | p where "bs = [p]" | p q bs' where "bs = p # q # bs'" by (metis list.exhaust)
    then show ?thesis
    proof cases
      case 1
      then show ?thesis using nok nx e(2) first wrap [of NULL "HEAP_ENTRY_of ?H"] es by (auto simp: Let_def)
    next
      case 2
      have "rd_Flink (hlink m) (ListEntry p) = Some ?H"
        using is_list_next [of "hlink m" ?H "map ListEntry (as @ [e])" "ListEntry p" "[]"] d(3) es 2 by simp
      then show ?thesis using nok nx e(2) wrap [of NULL NULL] es 2 head by (auto simp: Let_def)
    next
      case 3
      let ?x = "last (as @ e # bs)"
      have xn: "?x \<noteq> NULL"
      proof -
        have xi: "?x \<in> set es" unfolding es by (rule last_in_set) simp
        then obtain X where "hentry m ?x = Some X" using d(4) by (auto simp: heap_entry_ok_def)
        then show ?thesis using entry_size(4) [OF i xi] by simp
      qed
      have nxp: "rd_Flink (hlink m) (ListEntry p) = Some (hd (map ListEntry ((q # bs') @ []) @ [?H]))"
        using is_list_next [of "hlink m" ?H "map ListEntry (as @ [e])" "ListEntry p" "map ListEntry (q # bs')"] d(3) es 3 by simp
      have fin: "placed h m es Sz Tg al (?S ?H ?x (hd (map ListEntry es)) ?x)"
        using wrap [of ?x ?x] xn es by auto
      have "placed h m ((as @ [e]) @ p # (q # bs') @ []) Sz Tg al (?S (ListEntry p) p (hd (map ListEntry ((q # bs') @ []) @ [?H])) NULL)"
        by (rule search_segment [OF _ _ al Sz req]) (use i es 3 e(2) dis fin head in auto)
      then show ?thesis using nx nxp e(2) es 3 by simp
    qed
  qed
qed

lemma search_restart_fails:
  assumes i: "heap_inv h m (as @ e # bs)" and r: "EntryToRestartSearch h = ListEntry e" and n: "2 \<le> length as" "length bs < 2"
  shows "do { pr \<leftarrow> rd_Flink (hlink m) (EntryToRestartSearch h); cu \<leftarrow> rd_Flink (hlink m) pr;
      heap_search h m req Tg Sz al pr (HEAP_ENTRY_of pr) cu NULL } = None"
proof -
  let ?H = "HeapAllocations h"
  note d = heap_invD [OF i] and w = search_wrap_fails [OF i r n(1)]
  have first: "rd_Flink (hlink m) ?H = Some (hd (map ListEntry (as @ e # bs)))"
    using is_list_first(1) [OF d(3)] by (cases as) auto
  have eH: "ListEntry e \<noteq> ?H" using d(3) by (auto simp: is_list_def)
  have nx: "rd_Flink (hlink m) (ListEntry e) = Some (hd (map ListEntry bs @ [?H]))"
    using is_list_next [of "hlink m" ?H "map ListEntry as" "ListEntry e" "map ListEntry bs"] d(3) by simp
  show ?thesis
  proof (cases bs)
    case Nil
    then show ?thesis using r nx first w by simp
  next
    case (Cons p bs')
    then have bs: "bs = [p]" using n(2) by simp
    have "rd_Flink (hlink m) (ListEntry p) = Some ?H"
      using is_list_next [of "hlink m" ?H "map ListEntry (as @ [e])" "ListEntry p" "[]"] d(3) bs by simp
    moreover have "heap_search h m req Tg Sz al pr pH ?H x = heap_search h m req Tg Sz al ?H x (hd (map ListEntry (as @ e # bs))) x" for pr pH x
      using eH first r by (subst heap_search.simps) simp
    ultimately show ?thesis using r nx w bs by simp
  qed
qed

lemma end_block:
  assumes i: "heap_inv h m es" and al: "power_of_2 al" and Sz: "unat Sz + 36 < 2 ^ 32" "unat Sz + 36 \<le> unat (HeapSizeRemaining h)" "Tg \<noteq> 0"
    and av: "unat (FreeAddress h) + unat avail + 32 = heap_top h" and f: "block_fits (FreeAddress h) (unat avail) al Sz"
  shows "\<exists>t e h' m'. InitHeapEntry h m (FreeAddress h) Tg Sz al True avail = Some (t, e, h', m') \<and> t \<noteq> 0
    \<and> new_block h m es Sz Tg al e (h'\<lparr>FreeAddress := t\<rparr>) m'"
proof -
  let ?p = "FreeAddress h" and ?e = "new_entry (FreeAddress h) al"
  note d = heap_invD [OF i]
  have top: "heap_top h < ADDR_LIMIT" using d(1) by (simp add: heap_ok_def)
  have pr: "unat ?p + unat avail < ADDR_LIMIT" "unat ?p + 32 < ADDR_LIMIT" using av top by auto
  note nb = new_entry_bounds [OF al pr(2)]
  have e1: "unat ?p \<le> unat ?e" "unat ?e + unat Sz + 36 \<le> heap_top h" using nb(1) f av by (auto simp: block_fits_def)
  have fb: "heap_base h + 72 \<le> unat ?p"
  proof (cases "es = []")
    case False
    then have "last es \<in> set es" by simp
    from block_below_free(1) [OF i this] d(5) [OF this] block_end_gt [of "last es" m] show ?thesis by simp
  qed (use d(7) in simp)
  have base: "heap_base h + 72 \<le> unat ?e" using fb e1 by simp
  have ne: "?e \<notin> set es"
  proof
    assume "?e \<in> set es"
    from block_below_free(1) [OF i this] block_end_gt [of ?e m] e1 show False by simp
  qed
  have e2: "unat ?e + 36 < ADDR_LIMIT" using e1 top by simp
  note ln = ListEntry_new [OF d(1) base e2]
  have et: "unat (?e + 32 + ucast Sz) = unat ?e + unat Sz + 32" by (rule tail_address) (use e1 top in simp)
  have mp: "hentry m ?e \<noteq> None" "htail m (?e + 32 + ucast Sz) \<noteq> None" "hlink m (ListEntry ?e) \<noteq> None"
    using d(2) base e1 et ListEntry_unat [OF e2] by (auto simp: heap_mapped_def)
  obtain l where l: "InsertTailList (hlink m) (HeapAllocations h) (ListEntry ?e) = Some l"
    "is_list l (HeapAllocations h) (map ListEntry es @ [ListEntry ?e])"
    "untouched (hlink m) l (insert (ListEntry ?e) (set (HeapAllocations h # map ListEntry es)))"
    using InsertTailList_correct [OF d(3), of "ListEntry ?e"] ne ln mp(3) by auto
  let ?t = "?e + ucast (Sz + 36)"
  have "unat (Sz + 36) = unat Sz + 36" using Sz(1) by (simp add: unat_word_ariths)
  then have ut: "unat ?t = unat ?e + unat Sz + 36"
    using unat_add_below [of ?e "ucast (Sz + 36)"] e1(2) top by (simp add: unat_ucast_dword)
  have inv: "heap_inv ((count_block h Sz)\<lparr>FreeAddress := ?t, EntryToRestartSearch := EntryToRestartSearch h\<rparr>) (set_block m ?e Tg Sz l) (es @ ?e # [])"
    by (rule heap_inv_insert) (use i base e1 Sz l ut d(7,11) in \<open>auto simp: untouched_def\<close>)
  moreover have "(count_block h Sz)\<lparr>FreeAddress := ?t, EntryToRestartSearch := EntryToRestartSearch h\<rparr> = (count_block h Sz)\<lparr>FreeAddress := ?t\<rparr>"
    by (cases h) (simp add: count_block_def)
  ultimately have inv': "heap_inv ((count_block h Sz)\<lparr>FreeAddress := ?t\<rparr>) (set_block m ?e Tg Sz l) (es @ ?e # [])" by simp
  have "?e \<noteq> NULL" using base d(1) by (auto simp: heap_ok_def)
  then have "new_block h m es Sz Tg al ?e ((count_block h Sz)\<lparr>FreeAddress := ?t\<rparr>) (set_block m ?e Tg Sz l)"
    unfolding new_block_def using inv' nb(3)
    by (intro exI [of _ es] exI [of _ "[]"] exI [of _ l]) (simp add: count_block_def)
  moreover have "?t \<noteq> 0" using ut by auto
  moreover have "InitHeapEntry h m ?p Tg Sz al True avail = Some (?t, ?e, count_block h Sz, set_block m ?e Tg Sz l)"
    using InitHeapEntry_result(2) [OF al pr Sz(1) f mp(1,2), where add = True and Tg = Tg and h = h] l(1) by simp
  ultimately show ?thesis by blast
qed

lemma qword_bound: "unat (x::QWORD) < 2 ^ 64"
  using unsigned_less [of x] by simp

lemma heap_place_result:
  assumes i: "heap_inv h m es" and al: "power_of_2 al" and Tg: "Tg \<noteq> 0"
  shows "placed h m es Sz Tg al (heap_place h m Sz Tg al) \<or> \<not> restart_ok h es \<and> heap_place h m Sz Tg al = None"
proof -
  note d = heap_invD [OF i]
  let ?req = "ucast Sz + sizeof_HEAP_ENTRY + sizeof_HEAP_TAIL"
  let ?av = "BaseAddress h + HeapSizeMaximum h - FreeAddress h - sizeof_HEAP_ENTRY"
  have ur: "unat ?req = unat Sz + 36" unfolding heap_sizes
    using unat_add_below [of 36 "ucast Sz"] dword_bound [of Sz] by (simp add: unat_ucast_dword)
  have sr: "sint ?req = int (unat Sz + 36)" using sint_small [of ?req] ur dword_bound [of Sz] by simp
  show ?thesis
  proof (cases "?req > HeapSizeRemaining h")
    case True then show ?thesis by (simp add: heap_place_def placed_NULL)
  next
    case False
    then have Sz: "unat Sz + 36 \<le> unat (HeapSizeRemaining h)" using ur by (simp add: word_less_nat_alt)
    then have Sz': "unat Sz + 36 < 2 ^ 32" using d(1,9) by (simp add: heap_ok_def)
    have top: "unat (BaseAddress h + HeapSizeMaximum h) = heap_top h" "heap_top h < ADDR_LIMIT"
      using unat_add_below [of "BaseAddress h" "HeapSizeMaximum h"] d(1) by (simp_all add: heap_ok_def heap_top_def)
    then have u1: "unat (BaseAddress h + HeapSizeMaximum h - FreeAddress h) = heap_top h - unat (FreeAddress h)"
      using unat_sub_above [of "FreeAddress h"] d(8) by simp
    have big: "unat (FreeAddress h) + unat ?av + 32 = heap_top h" if "unat (FreeAddress h) + 32 \<le> heap_top h"
      using that u1 unat_sub_above [of 32 "BaseAddress h + HeapSizeMaximum h - FreeAddress h"] by (simp add: heap_sizes)
    have neg: "sint ?av < 0" if "\<not> unat (FreeAddress h) + 32 \<le> heap_top h"
    proof (rule sint_negative)
      have "\<not> 32 \<le> heap_top h - unat (FreeAddress h)" using that d(8) by linarith
      then have "unat ?av = 2 ^ 64 + (heap_top h - unat (FreeAddress h)) - 32"
        using u1 unat_sub_wraps [of "BaseAddress h + HeapSizeMaximum h - FreeAddress h" 32] by (simp add: heap_sizes)
      then show "2 ^ 63 \<le> unat ?av" by simp
    qed
    have room: "unat (FreeAddress h) + 32 \<le> heap_top h" if "sint ?req \<le> sint ?av"
    proof (rule ccontr)
      assume "\<not> unat (FreeAddress h) + 32 \<le> heap_top h"
      from neg [OF this] that show False unfolding sr by linarith
    qed
    show ?thesis
    proof (cases "sint ?req \<le> sint ?av \<and> block_fits (FreeAddress h) (unat ?av) al Sz")
      case True
      then have "unat (FreeAddress h) + 32 \<le> heap_top h" using room by blast
      from end_block [OF i al Sz' Sz Tg big [OF this]] True obtain t e h' m'
        where x: "InitHeapEntry h m (FreeAddress h) Tg Sz al True ?av = Some (t, e, h', m')" "t \<noteq> 0"
          "new_block h m es Sz Tg al e (h'\<lparr>FreeAddress := t\<rparr>) m'" by blast
      then have "heap_place h m Sz Tg al = Some (e, h'\<lparr>FreeAddress := t\<rparr>, m')"
        using False True unfolding heap_place_def Let_def by simp
      then show ?thesis using x(3) by (auto simp: placed_def)
    next
      case nf: False
      let ?T = "if sint ?req > sint (HeapSizeRemaining h - ?av - sizeof_HEAP_ENTRY) then Some (NULL, h, m)
           else do {
             em \<leftarrow> IsListEmpty (hlink m) (HeapAllocations h);
             ASSERT (\<not> em);
             pr \<leftarrow> rd_Flink (hlink m) (EntryToRestartSearch h);
             cu \<leftarrow> rd_Flink (hlink m) pr;
             heap_search h m ?req Tg Sz al pr (HEAP_ENTRY_of pr) cu NULL
           }"
      have e: "heap_place h m Sz Tg al = ?T"
      proof (cases "sint ?req \<le> sint ?av")
        case True
        then have b: "unat (FreeAddress h) + 32 \<le> heap_top h" by (rule room)
        have "InitHeapEntry h m (FreeAddress h) Tg Sz al True ?av = Some (0, FreeAddress h, h, m)"
          by (rule InitHeapEntry_result(1) [OF al _ _ Sz']) (use big [OF b] top nf True in auto)
        then show ?thesis using False True unfolding heap_place_def Let_def by simp
      next
        case le: False then show ?thesis using False unfolding heap_place_def Let_def by simp
      qed
      show ?thesis
      proof (cases "es = []")
        case True
        then have f: "unat (FreeAddress h) = heap_base h + 72" "unat (HeapSizeRemaining h) + 72 = unat (HeapSizeMaximum h)"
          using d(7,9) by auto
        have "unat ?av + 32 = unat (HeapSizeRemaining h)" using big f d(1) by (simp add: heap_ok_def heap_top_def heap_base_def)
        then have "HeapSizeRemaining h = ?av + sizeof_HEAP_ENTRY"
          using unat_add_below [of ?av 32] qword_bound [of "HeapSizeRemaining h"] by (simp add: word_unat_eq_iff heap_sizes)
        then have z: "HeapSizeRemaining h - ?av - sizeof_HEAP_ENTRY = 0" by simp
        have "sint (HeapSizeRemaining h - ?av - sizeof_HEAP_ENTRY) < sint ?req" unfolding z sr by (simp add: add_nonneg_pos)
        then have "heap_place h m Sz Tg al = Some (NULL, h, m)" unfolding e by (rule if_P)
        then show ?thesis by (simp add: placed_NULL)
      next
        case False
        have "IsListEmpty (hlink m) (HeapAllocations h) = Some False" using IsListEmpty_correct [OF d(3)] False by simp
        then show ?thesis using search_result [OF i False al Sz' Sz Tg refl] e unfolding Let_def
          by (cases "sint ?req > sint (HeapSizeRemaining h - ?av - sizeof_HEAP_ENTRY)") (simp_all add: placed_NULL)
      qed
    qed
  qed
qed

text \<open>When the block does not fit behind the last one, although enough bytes are free elsewhere, the search decides.\<close>

lemma heap_place_no_room:
  assumes i: "heap_inv h m es" and ne: "es \<noteq> []"
    and top: "heap_top h < unat (FreeAddress h) + unat Sz + 68"
    and free: "unat Sz + 36 + (heap_top h - unat (FreeAddress h)) \<le> unat (HeapSizeRemaining h)"
  shows "heap_place h m Sz Tg al = do {
      pr \<leftarrow> rd_Flink (hlink m) (EntryToRestartSearch h); cu \<leftarrow> rd_Flink (hlink m) pr;
      heap_search h m (ucast Sz + sizeof_HEAP_ENTRY + sizeof_HEAP_TAIL) Tg Sz al pr (HEAP_ENTRY_of pr) cu NULL }"
proof -
  note d = heap_invD [OF i]
  let ?req = "ucast Sz + sizeof_HEAP_ENTRY + sizeof_HEAP_TAIL"
  let ?x = "BaseAddress h + HeapSizeMaximum h - FreeAddress h"
  have ur: "unat ?req = unat Sz + 36" unfolding heap_sizes
    using unat_add_below [of 36 "ucast Sz"] dword_bound [of Sz] by (simp add: unat_ucast_dword)
  have sr: "sint ?req = int (unat Sz + 36)" using sint_small [of ?req] ur dword_bound [of Sz] by simp
  have "unat (BaseAddress h + HeapSizeMaximum h) = heap_top h"
    using unat_add_below [of "BaseAddress h" "HeapSizeMaximum h"] d(1) by (simp add: heap_ok_def heap_top_def)
  then have ux: "unat ?x = heap_top h - unat (FreeAddress h)" using unat_sub_above [of "FreeAddress h"] d(8) by simp
  have av: "sint (?x - sizeof_HEAP_ENTRY) < sint ?req"
  proof (cases "32 \<le> unat ?x")
    case True
    then have "unat (?x - sizeof_HEAP_ENTRY) = unat ?x - 32" using unat_sub_above [of 32 ?x] by (simp add: heap_sizes)
    moreover have "unat ?x - 32 < unat Sz + 36" using True ux top by linarith
    ultimately have "unat (?x - sizeof_HEAP_ENTRY) < unat Sz + 36" by simp
    moreover from this have "sint (?x - sizeof_HEAP_ENTRY) = int (unat (?x - sizeof_HEAP_ENTRY))"
      using sint_small [of "?x - sizeof_HEAP_ENTRY"] dword_bound [of Sz] by simp
    ultimately show ?thesis using sr by linarith
  next
    case False
    then have "unat (?x - sizeof_HEAP_ENTRY) = 2 ^ 64 + unat ?x - 32" using unat_sub_wraps [of ?x 32] by (simp add: heap_sizes)
    then have "sint (?x - sizeof_HEAP_ENTRY) < 0" using sint_negative [of "?x - sizeof_HEAP_ENTRY"] by simp
    then show ?thesis using sr by linarith
  qed
  have ub: "unat (HeapSizeRemaining h) < 2 ^ 32" using d(1,9) by (simp add: heap_ok_def)
  have us: "unat (HeapSizeRemaining h - ?x) = unat (HeapSizeRemaining h) - unat ?x"
    using unat_sub_above [of ?x "HeapSizeRemaining h"] free ux by simp
  then have "unat (HeapSizeRemaining h - ?x) < 2 ^ 63" using ub by simp
  then have "sint (HeapSizeRemaining h - ?x) = int (unat (HeapSizeRemaining h - ?x))" by (rule sint_small)
  moreover have "unat Sz + 36 \<le> unat (HeapSizeRemaining h - ?x)" using us ux free by linarith
  ultimately have "\<not> sint (HeapSizeRemaining h - ?x) < sint ?req" using sr by linarith
  moreover have "HeapSizeRemaining h - (?x - sizeof_HEAP_ENTRY) - sizeof_HEAP_ENTRY = HeapSizeRemaining h - ?x" by simp
  ultimately have before: "\<not> sint (HeapSizeRemaining h - (?x - sizeof_HEAP_ENTRY) - sizeof_HEAP_ENTRY) < sint ?req" by (simp only: not_False_eq_True)
  have rem: "\<not> HeapSizeRemaining h < ?req" using ur free by (simp add: word_less_nat_alt)
  have em: "IsListEmpty (hlink m) (HeapAllocations h) = Some False" using IsListEmpty_correct [OF d(3)] ne by simp
  have "\<not> sint ?req \<le> sint (?x - sizeof_HEAP_ENTRY)" using av by linarith
  then show ?thesis using rem before em by (simp add: heap_place_def Let_def)
qed

section \<open>Filling memory\<close>

lemma in_range_iff:
  assumes "unat a + unat n < ADDR_LIMIT" "unat p < ADDR_LIMIT"
  shows "(p - a :: ADDR) < ucast (n :: DWORD) \<longleftrightarrow> unat a \<le> unat p \<and> unat p < unat a + unat n"
  using unat_sub_wraps [of p a] assms by (auto simp: word_less_nat_alt unat_ucast_dword split: if_splits)

lemma memset_other:
  assumes "unat a + unat n < ADDR_LIMIT" "unat p < ADDR_LIMIT" "unat p < unat a \<or> unat a + unat n \<le> unat p"
  shows "hentry (heap_memset m a b n) p = hentry m p" "htail (heap_memset m a b n) p = htail m p" "hlink (heap_memset m a b n) p = hlink m p"
  using in_range_iff [OF assms(1,2)] assms(3) by (auto simp: heap_memset_def Let_def)

lemma memset_mapped: "heap_mapped h m \<Longrightarrow> heap_mapped h (heap_memset m a b n)"
  by (auto simp: heap_mapped_def heap_memset_def Let_def)

lemma memset_entry:
  assumes n: "unat a + unat n < ADDR_LIMIT" and x: "heap_entry_ok m x" "block_end m x < ADDR_LIMIT"
    and o: "unat a + unat n \<le> unat x \<or> block_end m x \<le> unat a \<or> unat x + 32 \<le> unat a \<and> unat a + unat n + 4 \<le> block_end m x"
  shows "heap_entry_ok (heap_memset m a b n) x" "esize (heap_memset m a b n) x = esize m x" "block_end (heap_memset m a b n) x = block_end m x"
    "hlink (heap_memset m a b n) (ListEntry x) = hlink m (ListEntry x)"
proof -
  obtain X where X: "hentry m x = Some X" "Magic X = HEAP_MAGIC" "Tag X \<noteq> 0" "Offset X = 32"
    "htail m (x + 32 + ucast (Size X)) = Some HEAP_MAGIC" using x(1) by (auto simp: heap_entry_ok_def)
  have b: "block_end m x = unat x + unat (Size X) + 36" by (simp add: block_end_def esize_def X)
  have t: "unat (x + 32 + ucast (Size X)) = unat x + unat (Size X) + 32" by (rule tail_address) (use b x(2) in simp)
  have e: "hentry (heap_memset m a b n) x = Some X" using memset_other(1) [OF n, of x m b] o b x(2) X by auto
  have "htail (heap_memset m a b n) (x + 32 + ucast (Size X)) = Some HEAP_MAGIC"
    using memset_other(2) [OF n, of "x + 32 + ucast (Size X)" m b] o b t x(2) X by auto
  with e X show "heap_entry_ok (heap_memset m a b n) x" by (auto simp: heap_entry_ok_def)
  show s: "esize (heap_memset m a b n) x = esize m x" using e X by (simp add: esize_def)
  then show "block_end (heap_memset m a b n) x = block_end m x" by (simp add: block_end_def)
  have "unat (ListEntry x) = unat x + 16" by (rule ListEntry_unat) (use b x(2) in simp)
  then show "hlink (heap_memset m a b n) (ListEntry x) = hlink m (ListEntry x)"
    using memset_other(3) [OF n, of "ListEntry x" m b] o b x(2) by auto
qed

lemma memset_inv:
  assumes i: "heap_inv h m es" and n: "heap_base h + 72 \<le> unat a" "unat a + unat n < ADDR_LIMIT"
    and o: "\<And>x. x \<in> set es \<Longrightarrow> unat a + unat n \<le> unat x \<or> block_end m x \<le> unat a \<or> unat x + 32 \<le> unat a \<and> unat a + unat n + 4 \<le> block_end m x"
  shows "heap_inv h (heap_memset m a b n) es"
proof -
  note d = heap_invD [OF i]
  let ?m = "heap_memset m a b n"
  have x: "heap_entry_ok ?m x" "esize ?m x = esize m x" "block_end ?m x = block_end m x" "hlink ?m (ListEntry x) = hlink m (ListEntry x)"
    if "x \<in> set es" for x
    using memset_entry [OF n(2) d(4) [OF that] _ o [OF that], where b = b] block_below_free(2) [OF i that] d(1) by (auto simp: heap_ok_def)
  have "hlink ?m (HeapAllocations h) = hlink m (HeapAllocations h)"
    by (rule memset_other(3) [OF n(2)]) (use HeapAllocations_unat [OF d(1)] n d(1) in \<open>auto simp: heap_ok_def heap_top_def heap_base_def\<close>)
  then have l: "is_list (hlink ?m) (HeapAllocations h) (map ListEntry es)"
    using d(3) x(4) is_list_frame [of "HeapAllocations h" "map ListEntry es" "hlink ?m" "hlink m"] by auto
  have "sorted_wrt (\<lambda>e f. block_end ?m e \<le> unat f) es" by (rule sorted_wrt_mono_rel [OF _ d(6)]) (simp add: x(3))
  moreover have "(\<Sum>e\<leftarrow>es. esize ?m e + 36) = (\<Sum>e\<leftarrow>es. esize m e + 36)"
    by (intro arg_cong [of _ _ sum_list] map_cong) (auto simp: x(2))
  moreover have "unat (FreeAddress h) = (if es = [] then heap_base h + 72 else block_end ?m (last es))" using d(7) x(3) by simp
  ultimately show ?thesis unfolding heap_inv_def using d l x(1) memset_mapped [OF d(2)] by simp
qed

section \<open>What the operations do\<close>

lemma default_alignment: "power_of_2 HEAP_DEFAULT_ALIGNMENT" "unat HEAP_DEFAULT_ALIGNMENT = 16"
  unfolding power_of_2_def HEAP_DEFAULT_ALIGNMENT_def by (intro exI [of _ 4]) simp_all

lemma entry_disjoint:
  assumes i: "heap_inv h m (as @ e # bs)" and x: "x \<in> set (as @ bs)"
  shows "block_end m e \<le> unat x \<or> block_end m x \<le> unat e"
  using heap_invD(6) [OF i] x by (auto simp: sorted_wrt_append)

lemma new_block_zero:
  assumes nb: "new_block h m es Sz Tg al e h' m'"
    and m2_def: "m2 = (if z then heap_memset m' (e + 32) 0 Sz else m')"
  shows "\<exists>as bs. es = as @ bs \<and> heap_inv h' m2 (as @ e # bs)" "esize m2 e = unat Sz" "Tag (the (hentry m2 e)) = Tg"
    "unat (e + 32) = unat e + 32" "heap_base h + 72 \<le> unat e" "unat e + unat Sz + 36 \<le> heap_top h"
    "x \<in> set es \<Longrightarrow> esize m2 x = esize m x \<and> (unat e + unat Sz + 36 \<le> unat x \<or> block_end m x \<le> unat e)"
    "hentry m' e = Some \<lparr>Magic = HEAP_MAGIC, Tag = Tg, Size = Sz, Offset = 32\<rparr>" "unat (e + 32) mod unat al = 0"
proof -
  obtain as bs l where es: "es = as @ bs" and i: "heap_inv h' m' (as @ e # bs)" and m': "m' = set_block m e Tg Sz l"
    and b: "BaseAddress h' = BaseAddress h" "HeapSizeMaximum h' = HeapSizeMaximum h" and a: "unat (e + 32) mod unat al = 0"
    using nb unfolding new_block_def by (elim exE conjE) (rule that)
  show "unat (e + 32) mod unat al = 0" by fact
  show E: "hentry m' e = Some \<lparr>Magic = HEAP_MAGIC, Tag = Tg, Size = Sz, Offset = 32\<rparr>" by (simp add: m' set_block_def)
  have es': "esize m' e = unat Sz" "block_end m' e = unat e + unat Sz + 36" unfolding m' by (rule set_block_new)+
  have hb: "heap_base h' = heap_base h" "heap_top h' = heap_top h" by (simp_all add: heap_base_def heap_top_def b)
  have ei: "e \<in> set (as @ e # bs)" by simp
  show b1: "heap_base h + 72 \<le> unat e" "unat e + unat Sz + 36 \<le> heap_top h"
    using heap_invD(5) [OF i ei] block_below_free(2) [OF i ei] es' hb by auto
  have top: "heap_top h < ADDR_LIMIT" using heap_invD(1) [OF i] hb by (simp add: heap_ok_def)
  show u: "unat (e + 32) = unat e + 32" using unat_add_below [of e 32] b1 top by simp
  have x: "esize m' x = esize m x" "block_end m' x = block_end m x" "unat e + unat Sz + 36 \<le> unat x \<or> block_end m x \<le> unat e"
    if "x \<in> set es" for x
  proof -
    have dj: "block_end m' e \<le> unat x \<or> block_end m' x \<le> unat e" using entry_disjoint [OF i] that es by auto
    then have "x \<noteq> e" using es'(2) block_end_gt [of e m'] by auto
    then show "esize m' x = esize m x" by (simp add: m' esize_def set_block_def)
    then show "block_end m' x = block_end m x" by (simp add: block_end_def)
    with dj es'(2) show "unat e + unat Sz + 36 \<le> unat x \<or> block_end m x \<le> unat e" by simp
  qed
  have o: "unat (e + 32) + unat Sz \<le> unat y \<or> block_end m' y \<le> unat (e + 32)
      \<or> unat y + 32 \<le> unat (e + 32) \<and> unat (e + 32) + unat Sz + 4 \<le> block_end m' y" if "y \<in> set (as @ e # bs)" for y
    using that x [of y] es'(2) u es by auto
  have n: "heap_base h' + 72 \<le> unat (e + 32)" "unat (e + 32) + unat Sz < ADDR_LIMIT" using b1 top u hb by auto
  have z: "heap_inv h' (heap_memset m' (e + 32) 0 Sz) (as @ e # bs)" by (rule memset_inv [OF i n o])
  then show "\<exists>as bs. es = as @ bs \<and> heap_inv h' m2 (as @ e # bs)" unfolding m2_def using es i by auto
  have me: "hentry (heap_memset m' (e + 32) 0 Sz) y = hentry m' y" if "y \<in> set (as @ e # bs)" for y
    by (rule memset_other(1) [OF n(2)])
      (use that x [of y] es'(2) u es block_below_free(2) [OF i that] block_end_gt [of y m'] top hb in auto)
  have m2e: "hentry m2 y = hentry m' y" if "y \<in> set (as @ e # bs)" for y using me [OF that] by (simp add: m2_def)
  show "esize m2 e = unat Sz" "Tag (the (hentry m2 e)) = Tg" using m2e [OF ei] E by (simp_all add: esize_def)
  show "esize m2 x = esize m x \<and> (unat e + unat Sz + 36 \<le> unat x \<or> block_end m x \<le> unat e)" if "x \<in> set es"
    using x [OF that] m2e [of x] that es by (simp add: esize_def)
qed

lemma allocate_result:
  assumes i: "heap_inv h m es" and al: "al = 0 \<or> power_of_2 al"
  shows "case ClHeapAllocatePoolWithTag h m fl sz tg al of
     None \<Rightarrow> IsFlagOn fl PoolAllocatePanicIfFail \<or> \<not> restart_ok h es
   | Some (p, h', m') \<Rightarrow> p = NULL \<and> h' = h \<and> m' = m
       \<or> p \<noteq> NULL \<and> (\<exists>as bs. es = as @ bs \<and> heap_inv h' m' (as @ (p - 32) # bs))
         \<and> esize m' (p - 32) = unat sz \<and> Tag (the (hentry m' (p - 32))) = tg
         \<and> unat p mod (if al = 0 then 16 else unat al) = 0
         \<and> heap_base h + 104 \<le> unat p \<and> unat p + unat sz + 4 \<le> heap_top h
         \<and> (\<forall>e\<in>set es. esize m' e = esize m e \<and> (unat p + unat sz + 4 \<le> unat e \<or> block_end m e \<le> unat p - 32))"
proof -
  define a where "a = (if al = 0 then HEAP_DEFAULT_ALIGNMENT else al)"
  have pa: "power_of_2 a" "unat a = (if al = 0 then 16 else unat al)" using al default_alignment by (auto simp: a_def)
  show ?thesis
  proof (cases "sz = 0 \<or> tg = 0")
    case True then show ?thesis by (cases "IsFlagOn fl PoolAllocatePanicIfFail") (simp_all add: ClHeapAllocatePoolWithTag_def)
  next
    case False
    then have tg: "tg \<noteq> 0" by simp
    from heap_place_result [OF i pa(1) tg, of sz]
    consider "heap_place h m sz tg a = Some (NULL, h, m)"
      | e h' m' where "heap_place h m sz tg a = Some (e, h', m')" "new_block h m es sz tg a e h' m'"
      | "heap_place h m sz tg a = None" "\<not> restart_ok h es"
      unfolding placed_def by metis
    then show ?thesis
    proof cases
      case 1
      then show ?thesis using False
        by (cases "IsFlagOn fl PoolAllocatePanicIfFail") (simp_all add: ClHeapAllocatePoolWithTag_def a_def [symmetric])
    next
      case 3 then show ?thesis using False by (simp add: ClHeapAllocatePoolWithTag_def a_def [symmetric])
    next
      case 2
      let ?m2 = "if IsFlagOn fl PoolAllocateZeroMemory then heap_memset m' (e + 32) 0 sz else m'"
      note nz = new_block_zero [OF 2(2), where z = "IsFlagOn fl PoolAllocateZeroMemory", OF refl]
      have en: "e \<noteq> NULL" using 2(2) by (auto simp: new_block_def)
      have pn: "e + 32 \<noteq> NULL" using nz(4) by auto
      have r: "ClHeapAllocatePoolWithTag h m fl sz tg al = Some (e + 32, h', ?m2)"
        using False 2(1) nz(8) en pn by (simp add: ClHeapAllocatePoolWithTag_def a_def [symmetric] Let_def)
      have o: "\<forall>x\<in>set es. esize ?m2 x = esize m x \<and> (unat (e + 32) + unat sz + 4 \<le> unat x \<or> block_end m x \<le> unat (e + 32) - 32)"
      proof
        fix x assume "x \<in> set es"
        from nz(7) [OF this] nz(4)
        show "esize ?m2 x = esize m x \<and> (unat (e + 32) + unat sz + 4 \<le> unat x \<or> block_end m x \<le> unat (e + 32) - 32)" by linarith
      qed
      have b: "heap_base h + 104 \<le> unat (e + 32)" "unat (e + 32) + unat sz + 4 \<le> heap_top h" using nz(4-6) by linarith+
      have d: "unat (e + 32) mod (if al = 0 then 16 else unat al) = 0" using nz(9) unfolding pa(2) .
      show ?thesis unfolding r option.case prod.case add_diff_cancel_right' using o b d nz(1-3) pn by blast
    qed
  qed
qed

section \<open>Freeing\<close>

definition uncount_block :: "HEAP_HEADER \<Rightarrow> DWORD \<Rightarrow> HEAP_HEADER" where
  "uncount_block h Sz = h\<lparr>HeapSizeRemaining := HeapSizeRemaining h + (ucast Sz + 36),
     HeapNumberOfAllocations := HeapNumberOfAllocations h - 1\<rparr>"

lemma heap_inv_remove:
  assumes i: "heap_inv h m (as @ e # bs)" and r: "EntryToRestartSearch h \<noteq> ListEntry e"
    and l: "is_list l (HeapAllocations h) (map ListEntry (as @ bs))" "dom l = dom (hlink m)"
    and Sz: "esize m e = unat Sz"
    and f: "unat f = (if bs = [] then (if as = [] then heap_base h + 72 else block_end m (last as)) else unat (FreeAddress h))"
  shows "heap_inv ((uncount_block h Sz)\<lparr>FreeAddress := f\<rparr>) (m\<lparr>hlink := l\<rparr>) (as @ bs)"
proof -
  let ?m = "m\<lparr>hlink := l\<rparr>" and ?h = "(uncount_block h Sz)\<lparr>FreeAddress := f\<rparr>"
  note d = heap_invD [OF i]
  have e: "e \<in> set (as @ e # bs)" by simp
  have h': "heap_base ?h = heap_base h" "heap_top ?h = heap_top h" "HeapAllocations ?h = HeapAllocations h" "heap_ok ?h"
    "HeapSizeMaximum ?h = HeapSizeMaximum h" "EntryToRestartSearch ?h = EntryToRestartSearch h"
    using d(1) by (simp_all add: uncount_block_def heap_base_def heap_top_def HeapAllocations_def heap_ok_def)
  have o: "heap_entry_ok ?m = heap_entry_ok m" "esize ?m = esize m" "block_end ?m = block_end m"
    by (auto simp: fun_eq_iff heap_entry_ok_def esize_def block_end_def)
  have s: "unat (HeapSizeRemaining h) + unat Sz + 36 < 2 ^ 64" using d(1,9) Sz by (simp add: heap_ok_def)
  have "unat (ucast Sz + 36 :: QWORD) = unat Sz + 36"
    using unat_add_below [of "ucast Sz" 36] dword_bound [of Sz] by (simp add: unat_ucast_dword)
  then have re: "unat (HeapSizeRemaining ?h) = unat (HeapSizeRemaining h) + unat Sz + 36"
    using unat_add_below [of "HeapSizeRemaining h" "ucast Sz + 36"] s by (simp add: uncount_block_def)
  show ?thesis unfolding heap_inv_def h' o
  proof (intro conjI ballI)
    show "heap_ok ?h" by (rule h'(4))
    show "heap_mapped ?h ?m" using d(2) l(2) by (auto simp: heap_mapped_def h' dom_def set_eq_iff)
    show "is_list (hlink ?m) (HeapAllocations h) (map ListEntry (as @ bs))" using l(1) by simp
    show "heap_entry_ok m x" "heap_base h + 72 \<le> unat x" if "x \<in> set (as @ bs)" for x using that d(4,5) [of x] by auto
    show "sorted_wrt (\<lambda>x y. block_end m x \<le> unat y) (as @ bs)" using d(6) by (simp add: sorted_wrt_append)
    show "unat (FreeAddress ?h) = (if as @ bs = [] then heap_base h + 72 else block_end m (last (as @ bs)))"
      using f d(7) by auto
    show "unat (FreeAddress ?h) \<le> heap_top h"
      using f d(8) d(5) [OF e] block_below_free(2) [OF i, of "last as"] block_below_free(2) [OF i e] block_end_gt [of e m] by auto
    show "unat (HeapSizeRemaining ?h) + 72 + (\<Sum>x\<leftarrow>as @ bs. esize m x + 36) = unat (HeapSizeMaximum h)" using re d(9) Sz by simp
    show "HeapNumberOfAllocations ?h = of_nat (length (as @ bs))" using d(10) by (simp add: uncount_block_def)
    show "EntryToRestartSearch h \<in> insert (HeapAllocations h) (ListEntry ` set (as @ bs))" using d(11) r by auto
  qed
qed

text \<open>The links of the freed block and the address behind its predecessor.\<close>

lemma free_previous:
  assumes i: "heap_inv h m (as @ e # bs)"
  shows "\<exists>b q. rd_Blink (hlink m) (ListEntry e) = Some b
    \<and> (if HeapAllocations h = b then Some (BaseAddress h + sizeof_HEAP_HEADER)
       else do { pE \<leftarrow> hentry m (HEAP_ENTRY_of b); Some (HEAP_ENTRY_of b + sizeof_HEAP_ENTRY + ucast (Size pE) + sizeof_HEAP_TAIL) }) = Some q
    \<and> unat q = (if as = [] then heap_base h + 72 else block_end m (last as))"
proof -
  note d = heap_invD [OF i]
  have "is_list (hlink m) (ListEntry e) (map ListEntry bs @ HeapAllocations h # map ListEntry as)"
    using is_list_rotate [of "hlink m" "HeapAllocations h" "map ListEntry as" "ListEntry e" "map ListEntry bs"] d(3) by simp
  from is_list_last(1) [OF this]
  have b: "rd_Blink (hlink m) (ListEntry e) = Some (if as = [] then HeapAllocations h else ListEntry (last as))" by (simp add: last_map)
  show ?thesis
  proof (cases "as = []")
    case True
    have "unat (BaseAddress h + 72) = heap_base h + 72"
      using unat_add_below [of "BaseAddress h" 72] d(1) by (simp add: heap_ok_def heap_top_def heap_base_def)
    with b True show ?thesis by (simp add: heap_sizes)
  next
    case False
    let ?p = "last as"
    have p: "?p \<in> set (as @ e # bs)" using False by simp
    obtain E where E: "hentry m ?p = Some E" using d(4) [OF p] by (auto simp: heap_entry_ok_def)
    note s = entry_size [OF i p E]
    have "ListEntry ?p \<in> ListEntry ` set as" using False by simp
    then have "ListEntry ?p \<noteq> HeapAllocations h" using d(3) unfolding is_list_def by (metis Un_iff distinct.simps(2) list.set_map map_append set_append)
    moreover have "unat (?p + 32 + ucast (Size E) + 4) = block_end m ?p"
      using tail_address [OF s(2)] unat_add_below [of "?p + 32 + ucast (Size E)" 4] s by simp
    ultimately show ?thesis using b False E by (auto simp: heap_sizes)
  qed
qed

lemma free_result:
  assumes i: "heap_inv h m (as @ e # bs)" and r: "EntryToRestartSearch h \<noteq> ListEntry e" and T: "Tg = Tag (the (hentry m e))"
  shows "\<exists>h' m'. ClHeapFreePoolWithTag h m (e + 32) Tg = Some (h', m') \<and> heap_inv h' m' (as @ bs)
    \<and> unat (HeapSizeRemaining h') = unat (HeapSizeRemaining h) + esize m e + 36
    \<and> (\<forall>x\<in>set (as @ bs). hentry m' x = hentry m x)
    \<and> (\<forall>g. ClHeapFreePoolWithTag h' m' (e + 32) g = None)"
proof -
  have e: "e \<in> set (as @ e # bs)" by simp
  note d = heap_invD [OF i]
  obtain E where E: "hentry m e = Some E" "Magic E = HEAP_MAGIC" "Tag E \<noteq> 0" using d(4) [OF e] by (auto simp: heap_entry_ok_def)
  note s = entry_size [OF i e E(1)]
  have T0: "Tg \<noteq> 0" "Tg = Tag E" using T E by simp_all
  have v: "ValidateHeapEntry m e Tg = Some True" using ValidateHeapEntry_live [OF i e E(1) T0(1)] T0(2) by simp
  obtain b q where b: "rd_Blink (hlink m) (ListEntry e) = Some b"
    and q: "(if HeapAllocations h = b then Some (BaseAddress h + sizeof_HEAP_HEADER)
       else do { pE \<leftarrow> hentry m (HEAP_ENTRY_of b); Some (HEAP_ENTRY_of b + sizeof_HEAP_ENTRY + ucast (Size pE) + sizeof_HEAP_TAIL) }) = Some q"
      "unat q = (if as = [] then heap_base h + 72 else block_end m (last as))" using free_previous [OF i] by blast
  obtain l where l: "RemoveEntryList (hlink m) (ListEntry e) = Some (as @ bs = [], l)"
    "is_list l (HeapAllocations h) (map ListEntry (as @ bs))" "dom l = dom (hlink m)"
    using RemoveEntryList_correct [of "hlink m" "HeapAllocations h" "map ListEntry as" "ListEntry e" "map ListEntry bs"] d(3)
    by (auto simp: untouched_def)
  have s36: "unat (ucast (Size E) + 36 :: QWORD) = unat (Size E) + 36"
    using unat_add_below [of "ucast (Size E)" 36] s(3) by (simp add: unat_ucast_dword)
  then have n: "unat (ucast (ucast (Size E) + 36 :: QWORD) :: DWORD) = unat (Size E) + 36"
    using s(3) by (simp add: unsigned_ucast_eq take_bit_nat_eq_self)
  have fits: "ucast (Size E) + 36 \<le> (ucast MAX_DWORD :: QWORD)" using s36 s(3) by (simp add: word_le_nat_alt MAX_DWORD_def)
  have ea: "unat (e + 32 + ucast (Size E) + 4) = block_end m e"
    using tail_address [OF s(2)] unat_add_below [of "e + 32 + ucast (Size E)" 4] s by simp
  have fe: "e + 32 + ucast (Size E) + 4 = FreeAddress h \<longleftrightarrow> bs = []"
  proof (cases "bs = []")
    case False
    have "block_end m e \<le> unat (last bs)" using d(6) False by (simp add: sorted_wrt_append)
    then have "block_end m e \<noteq> unat (FreeAddress h)" using d(7) False block_end_gt [of "last bs" m] by simp
    then show ?thesis using False ea by auto
  qed (use d(7) ea in \<open>simp add: word_unat_eq_iff\<close>)
  let ?f = "if bs = [] then q else FreeAddress h"
  let ?h = "(uncount_block h (Size E))\<lparr>FreeAddress := ?f\<rparr>"
  let ?m = "heap_memset (m\<lparr>hlink := l\<rparr>) e HEAP_FREE_PATTERN (ucast (ucast (Size E) + 36 :: QWORD))"
  have "heap_inv ?h (m\<lparr>hlink := l\<rparr>) (as @ bs)"
    by (rule heap_inv_remove [OF i r l(2,3)]) (simp_all add: esize_def E q(2))
  moreover have me: "block_end (m\<lparr>hlink := l\<rparr>) = block_end m" by (auto simp: fun_eq_iff block_end_def esize_def)
  moreover have "heap_base ?h = heap_base h" by (simp add: heap_base_def uncount_block_def)
  ultimately have inv: "heap_inv ?h ?m (as @ bs)"
  proof (intro memset_inv)
    show "unat e + unat (ucast (ucast (Size E) + 36 :: QWORD) :: DWORD) \<le> unat x \<or> block_end (m\<lparr>hlink := l\<rparr>) x \<le> unat e \<or>
        unat x + 32 \<le> unat e \<and> unat e + unat (ucast (ucast (Size E) + 36 :: QWORD) :: DWORD) + 4 \<le> block_end (m\<lparr>hlink := l\<rparr>) x"
      if "x \<in> set (as @ bs)" for x using entry_disjoint [OF i that] n s(1) by (auto simp: me add.assoc)
  qed (use d(5) [OF e] n s(2) in simp_all)
  have run: "ClHeapFreePoolWithTag h m (e + 32) Tg = Some (?h, ?m)"
  proof -
    have "e + 32 \<noteq> NULL" using unat_add_below [of e 32] s(2) by auto
    then show ?thesis using E(1) v b q(1) l(1) fits fe T0(1)
      by (cases "HeapAllocations h = b"; cases "hentry m (HEAP_ENTRY_of b)")
        (auto simp: ClHeapFreePoolWithTag_def Let_def heap_sizes uncount_block_def add.assoc)
  qed
  have u: "unat (HeapSizeRemaining ?h) = unat (HeapSizeRemaining h) + esize m e + 36"
    using unat_add_below [of "HeapSizeRemaining h" "ucast (Size E) + 36"] s36 d(1,9) E(1)
    by (simp add: uncount_block_def esize_def heap_ok_def)
  have o: "hentry ?m x = hentry m x" if "x \<in> set (as @ bs)" for x
    using memset_other(1) [of e "ucast (ucast (Size E) + 36 :: QWORD)" x "m\<lparr>hlink := l\<rparr>" HEAP_FREE_PATTERN] n s(1,2) that
      entry_disjoint [OF i that] block_end_gt [of x m] block_below_free(2) [OF i, of x] d(1) by (auto simp: heap_ok_def)
  have g: "ClHeapFreePoolWithTag ?h ?m (e + 32) g = None" for g
  proof -
    have "(e - e :: ADDR) < ucast (ucast (ucast (Size E) + 36 :: QWORD) :: DWORD)" using n by (simp add: word_less_nat_alt unat_ucast_dword)
    then have "hentry ?m e = Some \<lparr>Magic = 0xAFAFAFAF, Tag = 0xAFAFAFAF, Size = 0xAFAFAFAF, Offset = 0xAFAFAFAF\<rparr>"
      using E(1) by (simp add: heap_memset_def Let_def dword_of_def HEAP_FREE_PATTERN_def)
    then show ?thesis by (auto simp: ClHeapFreePoolWithTag_def ValidateHeapEntry_def HEAP_MAGIC_def heap_sizes Let_def ASSERT_def split: bind_splits)
  qed
  show ?thesis using run inv u o g by blast
qed

lemma free_wrong_tag:
  assumes i: "heap_inv h m es" and e: "e \<in> set es" and T: "Tg \<noteq> Tag (the (hentry m e))"
  shows "ClHeapFreePoolWithTag h m (e + 32) Tg = None"
proof -
  obtain E where E: "hentry m e = Some E" using heap_invD(4) [OF i e] by (auto simp: heap_entry_ok_def)
  show ?thesis using ValidateHeapEntry_live [OF i e E, of Tg] E T
    by (cases "Tg = 0") (auto simp: ClHeapFreePoolWithTag_def heap_sizes ASSERT_def)
qed

lemma not_SUCCEEDED_HEAP_TOO_SMALL: "\<not> SUCCEEDED STATUS_HEAP_TOO_SMALL"
  by (simp add: STATUS_HEAP_TOO_SMALL_def SUCCEEDED_def status_defs HEAP_MASK_def)

lemma ClHeapInit_result:
  assumes b: "unat Base + unat n < ADDR_LIMIT" "unat n < 2 ^ 32"
    and m: "\<And>a. unat Base \<le> unat a \<Longrightarrow> unat a < unat Base + unat n \<Longrightarrow> hentry m a \<noteq> None \<and> htail m a \<noteq> None \<and> hlink m a \<noteq> None"
  shows "case ClHeapInit Base n ok m of None \<Rightarrow> False
    | Some (s, None) \<Rightarrow> \<not> SUCCEEDED s \<and> (Base = NULL \<or> n < HEAP_MINIMUM_SIZE \<or> \<not> ok)
    | Some (s, Some (h, m')) \<Rightarrow> s = STATUS_SUCCESS \<and> heap_inv h m' [] \<and> restart_ok h []"
proof (cases "Base = NULL \<or> n < HEAP_MINIMUM_SIZE \<or> \<not> ok")
  case True
  then show ?thesis by (auto simp: ClHeapInit_def not_SUCCEEDED_HEAP_TOO_SMALL)
next
  case False
  have n: "65536 \<le> unat n" using False by (simp add: HEAP_MINIMUM_SIZE_def KB_SIZE_def word_le_nat_alt not_less)
  define h where "h = \<lparr>HeapMagic = HEAP_MAGIC, HeapSizeMaximum = n, HeapSizeRemaining = n - sizeof_HEAP_HEADER, BaseAddress = Base,
    FreeAddress = Base + sizeof_HEAP_HEADER, HeapNumberOfAllocations = 0, EntryToRestartSearch = Base + 56\<rparr>"
  have hb: "heap_base h = unat Base" "heap_top h = unat Base + unat n" by (simp_all add: h_def heap_base_def heap_top_def)
  have b0: "0 < unat Base" using False by (simp add: unat_gt_0)
  have ok: "heap_ok h" using b n b0 by (simp add: heap_ok_def hb) (simp add: h_def)
  note a = HeapAllocations_unat [OF ok]
  have "HeapAllocations h \<noteq> NULL" using a by auto
  moreover have "hlink m (HeapAllocations h) \<noteq> None" using m [of "HeapAllocations h"] a hb n by simp
  ultimately obtain l where l: "InitializeListHead (hlink m) (HeapAllocations h) = Some l" "is_list l (HeapAllocations h) []"
    "dom l = dom (hlink m)" using InitializeListHead_correct [of "hlink m" "HeapAllocations h"] by (auto simp: untouched_def)
  have "ClHeapInit Base n ok m = Some (STATUS_SUCCESS, Some (h, m\<lparr>hlink := l\<rparr>))"
    using False l(1) by (simp add: ClHeapInit_def h_def [symmetric])
  moreover have "heap_mapped h (m\<lparr>hlink := l\<rparr>)"
    using m l(3) by (auto simp: heap_mapped_def hb dom_def set_eq_iff)
  moreover have "unat (FreeAddress h) = unat Base + 72" "unat (HeapSizeRemaining h) + 72 = unat n"
    using unat_add_below [of Base 72] unat_sub_above [of 72 n] b n by (simp_all add: h_def heap_sizes)
  moreover have "EntryToRestartSearch h = HeapAllocations h" by (simp add: h_def HeapAllocations_def)
  moreover have "HeapSizeMaximum h = n" "HeapNumberOfAllocations h = 0" by (simp_all add: h_def)
  ultimately show ?thesis using ok l(2) n by (simp add: heap_inv_def restart_ok_def hb)
qed

definition blank_region :: "ADDR \<Rightarrow> QWORD \<Rightarrow> heapmem" where
  "blank_region b n = \<lparr>hentry = (\<lambda>a. if a - b < n then Some \<lparr>Magic = 0, Tag = 0, Size = 0, Offset = 0\<rparr> else None),
    htail = (\<lambda>a. if a - b < n then Some 0 else None), hlink = (\<lambda>a. if a - b < n then Some \<lparr>Flink = 0, Blink = 0\<rparr> else None)\<rparr>"

datatype heap_call = Alloc DWORD | Free ADDR

fun heap_calls :: "heap_call list \<Rightarrow> HEAP_HEADER \<times> heapmem \<Rightarrow> (ADDR list \<times> HEAP_HEADER \<times> heapmem) option" where
  "heap_calls [] s = Some ([], s)"
| "heap_calls (Alloc n # cs) (h, m) = do { (p, s) \<leftarrow> ClHeapAllocatePoolWithTag h m 0 n 7 0; (ps, s') \<leftarrow> heap_calls cs s; Some (p # ps, s') }"
| "heap_calls (Free p # cs) (h, m) = do { s \<leftarrow> ClHeapFreePoolWithTag h m p 7; heap_calls cs s }"

definition first_heap :: "HEAP_HEADER \<times> heapmem" where
  "first_heap = the (snd (the (ClHeapInit 0x10000 0x10000 True (blank_region 0x10000 0x10000))))"

lemma blank_region_mapped:
  assumes "unat b + unat n < ADDR_LIMIT" "unat b \<le> unat a" "unat a < unat b + unat n"
  shows "hentry (blank_region b n) a \<noteq> None \<and> htail (blank_region b n) a \<noteq> None \<and> hlink (blank_region b n) a \<noteq> None"
  using unat_sub_above [OF assms(2)] assms(2,3) by (auto simp: blank_region_def word_less_nat_alt)

lemma first_heap_inv: "heap_inv (fst first_heap) (snd first_heap) []"
proof -
  have "map_option (map_option (\<lambda>_. ()) \<circ> snd) (ClHeapInit 0x10000 0x10000 True (blank_region 0x10000 0x10000)) = Some (Some ())" by code_simp
  then obtain s h m where r: "ClHeapInit 0x10000 0x10000 True (blank_region 0x10000 0x10000) = Some (s, Some (h, m))" by auto
  have "heap_inv h m []" using ClHeapInit_result [where Base = "0x10000" and n = "0x10000" and m = "blank_region 0x10000 0x10000" and ok = True]
      blank_region_mapped [where b = "0x10000" and n = "0x10000"] r by simp
  then show ?thesis by (simp add: first_heap_def r)
qed

text \<open>The heap after one allocation of 100 bytes.\<close>

definition one_block :: "ADDR \<times> HEAP_HEADER \<times> heapmem" where
  "one_block = the (ClHeapAllocatePoolWithTag (fst first_heap) (snd first_heap) 0 100 7 0)"

lemma one_block_facts:
  "fst one_block = 0x10070" "EntryToRestartSearch (fst (snd one_block)) \<noteq> ListEntry 0x10050"
  "Tag (the (hentry (snd (snd one_block)) 0x10050)) = 7" "esize (snd (snd one_block)) 0x10050 = 100"
  by code_simp+

lemma one_block_inv: "heap_inv (fst (snd one_block)) (snd (snd one_block)) [0x10050]"
proof -
  have "map_option (\<lambda>_. ()) (ClHeapAllocatePoolWithTag (fst first_heap) (snd first_heap) 0 100 7 0) = Some ()" by code_simp
  then obtain p h m where r: "ClHeapAllocatePoolWithTag (fst first_heap) (snd first_heap) 0 100 7 0 = Some (p, h, m)" by auto
  then have o: "one_block = (p, h, m)" by (simp add: one_block_def)
  then have "p = 0x10070" using one_block_facts(1) by (metis fst_conv)
  then show ?thesis unfolding o using allocate_result [OF first_heap_inv, of 0 0 100 7] r by simp
qed

text \<open>C29. A call of the allocator on a well-formed heap with an alignment that is a power of two (or 0, for 16)
  either returns null and leaves the heap as it was, or returns a block of the requested size inside the
  region, aligned as asked, apart from every block in use, whose sizes are kept, and leaves a well-formed heap
  in which the block stands in the list at the place of its address, with its tag. It fails an assertion
  only when the caller asked for that on failure or the search for a hole restarts at one of the last two
  blocks.\<close>

theorem heap_allocate_sound:
  assumes "heap_inv h m es" "al = 0 \<or> power_of_2 al"
  shows "case ClHeapAllocatePoolWithTag h m fl sz tg al of
     None \<Rightarrow> IsFlagOn fl PoolAllocatePanicIfFail \<or> \<not> restart_ok h es
   | Some (p, h', m') \<Rightarrow> p = NULL \<and> h' = h \<and> m' = m
       \<or> p \<noteq> NULL \<and> (\<exists>as bs. es = as @ bs \<and> heap_inv h' m' (as @ (p - 32) # bs))
         \<and> esize m' (p - 32) = unat sz \<and> Tag (the (hentry m' (p - 32))) = tg
         \<and> unat p mod (if al = 0 then 16 else unat al) = 0
         \<and> heap_base h + 104 \<le> unat p \<and> unat p + unat sz + 4 \<le> heap_top h
         \<and> (\<forall>e\<in>set es. esize m' e = esize m e \<and> (unat p + unat sz + 4 \<le> unat e \<or> block_end m e \<le> unat p - 32))"
  using assms by (rule allocate_result)

theorem heap_allocate_sound_witness:
  "heap_inv (fst (snd one_block)) (snd (snd one_block)) [0x10050]
   \<and> (case ClHeapAllocatePoolWithTag (fst (snd one_block)) (snd (snd one_block)) 0 24 9 0 of None \<Rightarrow> False
      | Some (p, h, m) \<Rightarrow> p = NULL \<or> unat p mod 16 = 0 \<and> 0x10050 + 136 \<le> unat p - 32 \<and> esize m 0x10050 = 100)"
proof -
  have "map_option fst (ClHeapAllocatePoolWithTag (fst (snd one_block)) (snd (snd one_block)) 0 24 9 0) = Some 0x10100" by code_simp
  then obtain h m where r: "ClHeapAllocatePoolWithTag (fst (snd one_block)) (snd (snd one_block)) 0 24 9 0 = Some (0x10100, h, m)" by auto
  then have "esize m 0x10050 = 100" "unat (0x10100 :: ADDR) mod 16 = 0"
    using heap_allocate_sound [OF one_block_inv, of 0 0 24 9] one_block_facts(4) by simp_all
  then show ?thesis using one_block_inv r by simp
qed

text \<open>C30. Freeing a block in use with its tag removes it from the heap and keeps the heap well-formed: its
  bytes are available again, the other entries are unchanged, and freeing it a second time
  fails an assertion whatever the tag. With any other tag the assertion fails at once. The block must not
  be the one where the search for a hole restarts.\<close>

theorem heap_free_sound:
  assumes "heap_inv h m (as @ e # bs)" "EntryToRestartSearch h \<noteq> ListEntry e"
  shows "if Tg = Tag (the (hentry m e))
    then \<exists>h' m'. ClHeapFreePoolWithTag h m (e + 32) Tg = Some (h', m') \<and> heap_inv h' m' (as @ bs)
      \<and> unat (HeapSizeRemaining h') = unat (HeapSizeRemaining h) + esize m e + 36
      \<and> (\<forall>x\<in>set (as @ bs). hentry m' x = hentry m x)
      \<and> (\<forall>g. ClHeapFreePoolWithTag h' m' (e + 32) g = None)
    else ClHeapFreePoolWithTag h m (e + 32) Tg = None"
  using free_result [OF assms] free_wrong_tag [OF assms(1), of e Tg] by simp

theorem heap_free_sound_witness:
  "(\<exists>h m. ClHeapFreePoolWithTag (fst (snd one_block)) (snd (snd one_block)) 0x10070 7 = Some (h, m) \<and> heap_inv h m []
      \<and> (\<forall>g. ClHeapFreePoolWithTag h m 0x10070 g = None))
   \<and> ClHeapFreePoolWithTag (fst (snd one_block)) (snd (snd one_block)) 0x10070 8 = None"
  using heap_free_sound [where h = "fst (snd one_block)" and m = "snd (snd one_block)" and as = "[]" and e = "0x10050" and bs = "[]" and Tg = 7]
    heap_free_sound [where h = "fst (snd one_block)" and m = "snd (snd one_block)" and as = "[]" and e = "0x10050" and bs = "[]" and Tg = 8] one_block_inv one_block_facts(2,3)
  by auto

text \<open>C38. When the search for a hole restarts at one of the last two blocks and at least two blocks stand in front of
  that one, every request that does not fit behind the last block, although the free bytes elsewhere in the region
  add up to it, fails an assertion, whatever its flags: the search loses the entry in front of it when it passes the
  list head. A hole that is large enough is not found, and null is not returned.\<close>

theorem heap_restart_asserts:
  assumes "heap_inv h m (as @ e # bs)" "EntryToRestartSearch h = ListEntry e" "2 \<le> length as" "length bs < 2"
    and "sz \<noteq> 0" "tg \<noteq> 0" "heap_top h < unat (FreeAddress h) + unat sz + 68"
    and "unat sz + 36 + (heap_top h - unat (FreeAddress h)) \<le> unat (HeapSizeRemaining h)"
  shows "ClHeapAllocatePoolWithTag h m fl sz tg al = None"
proof -
  have "heap_place h m sz tg a = None" for a
    using heap_place_no_room [OF assms(1) _ assms(7,8), of tg a]
      search_restart_fails [OF assms(1-4), of "ucast sz + sizeof_HEAP_ENTRY + sizeof_HEAP_TAIL" tg sz a] by simp
  then show ?thesis using assms(5,6) by (simp add: ClHeapAllocatePoolWithTag_def)
qed

text \<open>Four blocks, of which the third was put into the hole that a freed block had left.\<close>

definition after_alloc :: "DWORD \<Rightarrow> HEAP_HEADER \<times> heapmem \<Rightarrow> HEAP_HEADER \<times> heapmem" where
  "after_alloc n s = snd (the (ClHeapAllocatePoolWithTag (fst s) (snd s) 0 n 7 0))"

definition after_free :: "ADDR \<Rightarrow> HEAP_HEADER \<times> heapmem \<Rightarrow> HEAP_HEADER \<times> heapmem" where
  "after_free p s = the (ClHeapFreePoolWithTag (fst s) (snd s) p 7)"

lemma heap_inv_sorted:
  assumes "heap_inv h m es"
  shows "sorted_wrt (<) es"
proof -
  have "e < f" if "block_end m e \<le> unat f" for e f
    using block_end_gt [of e m] that by (simp add: word_less_nat_alt)
  then show ?thesis by (rule sorted_wrt_mono_rel [OF _ heap_invD(6) [OF assms]])
qed

lemma after_alloc_inv:
  assumes i: "heap_inv (fst s) (snd s) es" and p: "map_option fst (ClHeapAllocatePoolWithTag (fst s) (snd s) 0 n 7 0) = Some p" "p \<noteq> NULL"
    and f: "sorted_wrt (<) fs" "set fs = insert (p - 32) (set es)"
  shows "heap_inv (fst (after_alloc n s)) (snd (after_alloc n s)) fs"
proof -
  obtain h' m' where r: "ClHeapAllocatePoolWithTag (fst s) (snd s) 0 n 7 0 = Some (p, h', m')" using p(1) by auto
  from allocate_result [OF i, of 0 0 n 7] p(2) obtain as bs where a: "es = as @ bs" "heap_inv h' m' (as @ (p - 32) # bs)"
    unfolding r by auto
  have "as @ (p - 32) # bs = fs"
    by (rule strict_sorted_equal [OF f(1) heap_inv_sorted [OF a(2)]]) (use f(2) a(1) in auto)
  then show ?thesis using a(2) by (simp add: after_alloc_def r)
qed

lemma after_free_inv:
  assumes i: "heap_inv (fst s) (snd s) (as @ e # bs)" and r: "EntryToRestartSearch (fst s) \<noteq> ListEntry e"
    and ok: "map_option (\<lambda>_. ()) (ClHeapFreePoolWithTag (fst s) (snd s) (e + 32) 7) = Some ()"
  shows "heap_inv (fst (after_free (e + 32) s)) (snd (after_free (e + 32) s)) (as @ bs)"
proof -
  have "7 = Tag (the (hentry (snd s) e))"
    using free_wrong_tag [OF i, of e 7] ok by (metis in_set_conv_decomp option.simps(3,8))
  from free_result [OF i r this] show ?thesis by (auto simp: after_free_def)
qed

definition three_blocks :: "HEAP_HEADER \<times> heapmem" where
  "three_blocks = after_alloc 0x6000 (after_alloc 0x100 (after_alloc 0x6000 first_heap))"

definition four_blocks :: "HEAP_HEADER \<times> heapmem" where
  "four_blocks = after_alloc 0x1000 (after_free 0x161d0 (after_alloc 0x3B00 three_blocks))"

lemma three_blocks_inv: "heap_inv (fst three_blocks) (snd three_blocks) [0x10050, 0x16080, 0x161b0]"
proof -
  let ?s1 = "after_alloc 0x6000 first_heap" and ?s2 = "after_alloc 0x100 (after_alloc 0x6000 first_heap)"
  have a: "map_option fst (ClHeapAllocatePoolWithTag (fst first_heap) (snd first_heap) 0 0x6000 7 0) = Some 0x10070"
    "map_option fst (ClHeapAllocatePoolWithTag (fst ?s1) (snd ?s1) 0 0x100 7 0) = Some 0x160a0"
    "map_option fst (ClHeapAllocatePoolWithTag (fst ?s2) (snd ?s2) 0 0x6000 7 0) = Some 0x161d0" by code_simp+
  have "heap_inv (fst ?s1) (snd ?s1) [0x10050]" by (rule after_alloc_inv [OF first_heap_inv a(1)]) simp_all
  from after_alloc_inv [OF this a(2), of "[0x10050, 0x16080]"] have "heap_inv (fst ?s2) (snd ?s2) [0x10050, 0x16080]" by auto
  from after_alloc_inv [OF this a(3), of "[0x10050, 0x16080, 0x161b0]"] show ?thesis unfolding three_blocks_def by auto
qed

lemma four_blocks_inv: "heap_inv (fst four_blocks) (snd four_blocks) [0x10050, 0x16080, 0x161b0, 0x1c1e0]"
proof -
  let ?s1 = "after_alloc 0x3B00 three_blocks" and ?s2 = "after_free 0x161d0 (after_alloc 0x3B00 three_blocks)"
  have a: "map_option fst (ClHeapAllocatePoolWithTag (fst three_blocks) (snd three_blocks) 0 0x3B00 7 0) = Some 0x1c200"
    and f: "map_option (\<lambda>_. ()) (ClHeapFreePoolWithTag (fst ?s1) (snd ?s1) 0x161d0 7) = Some ()" "EntryToRestartSearch (fst ?s1) = 0x10038"
    and b: "map_option fst (ClHeapAllocatePoolWithTag (fst ?s2) (snd ?s2) 0 0x1000 7 0) = Some 0x161d0" by code_simp+
  from after_alloc_inv [OF three_blocks_inv a, of "[0x10050, 0x16080] @ 0x161b0 # [0x1c1e0]"]
  have i: "heap_inv (fst ?s1) (snd ?s1) ([0x10050, 0x16080] @ 0x161b0 # [0x1c1e0])" by auto
  have "heap_inv (fst ?s2) (snd ?s2) ([0x10050, 0x16080] @ [0x1c1e0])"
    using after_free_inv [OF i] f by (simp add: ListEntry_def)
  from after_alloc_inv [OF this b, of "[0x10050, 0x16080, 0x161b0, 0x1c1e0]"] show ?thesis unfolding four_blocks_def by auto
qed

theorem heap_restart_asserts_witness:
  "heap_inv (fst four_blocks) (snd four_blocks) [0x10050, 0x16080, 0x161b0, 0x1c1e0]
   \<and> ClHeapAllocatePoolWithTag (fst four_blocks) (snd four_blocks) 0 0x1000 7 0 = None"
proof -
  have v: "EntryToRestartSearch (fst four_blocks) = ListEntry 0x161b0" "FreeAddress (fst four_blocks) = 0x1fd04"
    "HeapSizeRemaining (fst four_blocks) = 21288" "BaseAddress (fst four_blocks) = 0x10000" "HeapSizeMaximum (fst four_blocks) = 0x10000"
    by code_simp+
  have i: "heap_inv (fst four_blocks) (snd four_blocks) ([0x10050, 0x16080] @ 0x161b0 # [0x1c1e0])" using four_blocks_inv by simp
  have "ClHeapAllocatePoolWithTag (fst four_blocks) (snd four_blocks) 0 0x1000 7 0 = None"
    by (rule heap_restart_asserts [OF i v(1)]) (simp_all add: v heap_top_def)
  then show ?thesis using four_blocks_inv by blast
qed

lemma freed_restart_entry_faults:
  "map_option (\<lambda>_. ()) (heap_calls [Alloc 0x6000, Alloc 0x100, Alloc 0x6000, Alloc 0x3B00, Free 0x161d0, Alloc 0x1000, Free 0x161d0] first_heap) = Some ()
   \<and> map_option (\<lambda>_. ()) (heap_calls [Alloc 0x6000, Alloc 0x100, Alloc 0x6000, Alloc 0x3B00, Free 0x161d0, Alloc 0x1000, Free 0x161d0, Alloc 0x1000] first_heap) = None"
  by code_simp

end
