(* ===== verification/CL_Stack.thy ===== *)
theory CL_Stack
  imports Prelude
begin

text \<open>
  \<^verbatim>\<open>CommonLib/inc/slist.h\<close>, \<^verbatim>\<open>CommonLib/src/stack_dynamic.c\<close> and \<^verbatim>\<open>CommonLib/src/stack_interface.c\<close>: the stack as a singly linked list of
  the items themselves. The memory maps the address of a \<^verbatim>\<open>CL_SLIST_ENTRY\<close> to its \<^verbatim>\<open>Next\<close> pointer. The
  locale \<open>stack_functions\<close> is the contract of the function table \<^verbatim>\<open>STACK_INTERFACE_FUNCS\<close>.
\<close>

section \<open>Operations\<close>

type_synonym smem = "ADDR \<rightharpoonup> ADDR"

definition wr_Next :: "smem \<Rightarrow> ADDR \<Rightarrow> ADDR \<Rightarrow> smem option" where
  "wr_Next m p v = do { m p; Some (m(p \<mapsto> v)) }"

definition ClInitializeSListHead :: "smem \<Rightarrow> ADDR \<Rightarrow> smem option" where
  "ClInitializeSListHead m ListHead = wr_Next m ListHead NULL"

definition ClPopEntryList :: "smem \<Rightarrow> ADDR \<Rightarrow> (ADDR \<times> smem) option" where
  "ClPopEntryList m ListHead = do {
     FirstEntry \<leftarrow> m ListHead;
     if FirstEntry \<noteq> NULL then do {
       n \<leftarrow> m FirstEntry;
       m' \<leftarrow> wr_Next m ListHead n;
       Some (FirstEntry, m')
     }
     else Some (FirstEntry, m)
   }"

definition ClPushEntryList :: "smem \<Rightarrow> ADDR \<Rightarrow> ADDR \<Rightarrow> smem option" where
  "ClPushEntryList m ListHead Entry = do {
     n \<leftarrow> m ListHead;
     m \<leftarrow> wr_Next m Entry n;
     wr_Next m ListHead Entry
   }"

text \<open>The stack: the address of its list head and the counter behind it.\<close>

record STACK =
  TopOfStack :: ADDR
  StackElements :: DWORD

type_synonym stack_state = "STACK \<times> smem"

definition StackDynamicPush :: "stack_state \<Rightarrow> ADDR \<Rightarrow> (bool \<times> stack_state) option" where
  "StackDynamicPush st Item = (case st of (s, m) \<Rightarrow> do {
     ASSERT (Item \<noteq> NULL);
     m \<leftarrow> ClPushEntryList m (TopOfStack s) Item;
     ASSERT (StackElements s < MAX_DWORD);
     Some (True, s\<lparr>StackElements := StackElements s + 1\<rparr>, m)
   })"

definition StackDynamicPop :: "stack_state \<Rightarrow> (ADDR \<times> stack_state) option" where
  "StackDynamicPop st = (case st of (s, m) \<Rightarrow> do {
     (pStackEntry, m) \<leftarrow> ClPopEntryList m (TopOfStack s);
     if pStackEntry = NULL then Some (NULL, s, m)
     else do {
       ASSERT (StackElements s > 0);
       Some (pStackEntry, s\<lparr>StackElements := StackElements s - 1\<rparr>, m)
     }
   })"

function StackPeek_loop :: "smem \<Rightarrow> DWORD \<Rightarrow> ADDR \<Rightarrow> DWORD \<Rightarrow> ADDR option" where
  "StackPeek_loop m Index pItem currentIndex =
     (if pItem \<noteq> NULL \<and> currentIndex < Index then do {
        n \<leftarrow> m pItem;
        StackPeek_loop m Index n (currentIndex + 1)
      }
      else Some pItem)"
  by pat_completeness auto
termination
  by (relation "measure (\<lambda>(m, Index, p, i). unat Index - unat i)") (auto simp: word_less_nat_alt unat_inc_below)

definition StackDynamicPeek :: "stack_state \<Rightarrow> DWORD \<Rightarrow> ADDR option" where
  "StackDynamicPeek st Index = (case st of (s, m) \<Rightarrow>
     if Index \<ge> StackElements s then Some NULL
     else do {
       n \<leftarrow> m (TopOfStack s);
       pItem \<leftarrow> StackPeek_loop m Index n 0;
       ASSERT (pItem \<noteq> NULL);
       Some pItem
     })"

definition StackDynamicIsEmpty :: "stack_state \<Rightarrow> bool option" where
  "StackDynamicIsEmpty st = (case st of (s, m) \<Rightarrow> map_option (\<lambda>n. n = NULL) (m (TopOfStack s)))"

definition StackDynamicSize :: "stack_state \<Rightarrow> DWORD" where
  "StackDynamicSize st = StackElements (fst st)"

text \<open>\<open>free\<close> is the free function with its context: what it does to the memory when it gets an item. The first
  component of the result lists the items it got.\<close>

partial_function (option) StackDynamicClear :: "(ADDR \<Rightarrow> smem \<Rightarrow> smem) option \<Rightarrow> stack_state \<Rightarrow> (ADDR list \<times> stack_state) option" where
  "StackDynamicClear free st = do {
     e \<leftarrow> StackDynamicIsEmpty st;
     if e then Some ([], st)
     else do {
       (pItem, s, m) \<leftarrow> StackDynamicPop st;
       ASSERT (pItem \<noteq> NULL);
       case free of
         None \<Rightarrow> StackDynamicClear free (s, m)
       | Some f \<Rightarrow> do { (fs, st') \<leftarrow> StackDynamicClear free (s, f pItem m); Some (pItem # fs, st') }
     }
   }"

definition sizeof_STACK :: DWORD where "sizeof_STACK = 16"

definition StackDynamicGetRequiredSize :: "DWORD \<Rightarrow> DWORD" where
  "StackDynamicGetRequiredSize MaxElements = sizeof_STACK"

definition StackDynamicInit :: "ADDR \<Rightarrow> smem \<Rightarrow> (STATUS \<times> stack_state) option" where
  "StackDynamicInit p m = do {
     m \<leftarrow> ClInitializeSListHead m p;
     Some (STATUS_SUCCESS, \<lparr>TopOfStack = p, StackElements = 0\<rparr>, m)
   }"

definition StackTypeDynamic :: nat where "StackTypeDynamic = 0"
definition StackTypeInterlocked :: nat where "StackTypeInterlocked = 1"
definition StackTypeReserved :: nat where "StackTypeReserved = 2"

text \<open>The table \<^verbatim>\<open>STACK_FUNCS\<close>: only the row of the dynamic stack holds functions; calling a function of
  the other row is a fault.\<close>

definition StackGetRequiredSize :: "DWORD \<Rightarrow> nat \<Rightarrow> DWORD option" where
  "StackGetRequiredSize MaxElements Type = do {
     ASSERT (MaxElements > 0);
     ASSERT (Type < StackTypeReserved);
     if Type = StackTypeDynamic then Some (StackDynamicGetRequiredSize MaxElements) else None
   }"

text \<open>\<open>StackInterface\<close> says that the output pointer is not null; the interface gets the row of the table.\<close>

definition StackCreate :: "bool \<Rightarrow> nat \<Rightarrow> ADDR \<Rightarrow> smem \<Rightarrow> (STATUS \<times> stack_state option) option" where
  "StackCreate StackInterface Type Stack m =
     (if \<not> StackInterface then Some (STATUS_INVALID_PARAMETER1, None)
      else if Type \<ge> StackTypeReserved then Some (STATUS_INVALID_PARAMETER2, None)
      else if Stack = NULL then Some (STATUS_INVALID_PARAMETER3, None)
      else do {
        (status, st) \<leftarrow> (if Type = StackTypeDynamic then StackDynamicInit Stack m else None);
        if \<not> SUCCEEDED status then Some (status, None) else Some (STATUS_SUCCESS, Some st)
      })"

declare StackPeek_loop.simps [simp del]

section \<open>The contract of the function table\<close>

text \<open>Runs of pushes (\<open>Some x\<close>) and pops (\<open>None\<close>) with the results of the pops, on a table of functions and on the
  mathematical stack, whose top comes first.\<close>

fun stack_run :: "('s \<Rightarrow> ADDR \<Rightarrow> (bool \<times> 's) option) \<Rightarrow> ('s \<Rightarrow> (ADDR \<times> 's) option) \<Rightarrow> ADDR option list \<Rightarrow> 's \<Rightarrow> (ADDR list \<times> 's) option" where
  "stack_run push pop [] s = Some ([], s)"
| "stack_run push pop (Some x # cs) s = do { (_, s) \<leftarrow> push s x; stack_run push pop cs s }"
| "stack_run push pop (None # cs) s = do { (p, s) \<leftarrow> pop s; (ps, s) \<leftarrow> stack_run push pop cs s; Some (p # ps, s) }"

fun spec_pops :: "ADDR option list \<Rightarrow> ADDR list \<Rightarrow> ADDR list" where
  "spec_pops [] xs = []"
| "spec_pops (Some x # cs) xs = spec_pops cs (x # xs)"
| "spec_pops (None # cs) xs = (case xs of [] \<Rightarrow> NULL | x # _ \<Rightarrow> x) # spec_pops cs (tl xs)"

fun spec_stack :: "ADDR option list \<Rightarrow> ADDR list \<Rightarrow> ADDR list" where
  "spec_stack [] xs = xs"
| "spec_stack (Some x # cs) xs = spec_stack cs (x # xs)"
| "spec_stack (None # cs) xs = spec_stack cs (tl xs)"

text \<open>The calls are legal when no item is pushed while it is on the stack and every item satisfies \<open>P\<close>.\<close>

fun stack_legal :: "(ADDR \<Rightarrow> bool) \<Rightarrow> ADDR option list \<Rightarrow> ADDR list \<Rightarrow> bool" where
  "stack_legal P [] xs = True"
| "stack_legal P (Some x # cs) xs = (P x \<and> x \<notin> set xs \<and> stack_legal P cs (x # xs))"
| "stack_legal P (None # cs) xs = stack_legal P cs (tl xs)"

text \<open>\<open>rep s xs\<close>: the stack holds the items \<open>xs\<close>. The set of items \<open>fresh\<close> accepts does not change.\<close>

locale stack_functions =
  fixes rep :: "'s \<Rightarrow> ADDR list \<Rightarrow> bool"
    and fresh :: "'s \<Rightarrow> ADDR \<Rightarrow> bool"
    and push :: "'s \<Rightarrow> ADDR \<Rightarrow> (bool \<times> 's) option"
    and pop :: "'s \<Rightarrow> (ADDR \<times> 's) option"
  assumes push: "rep s xs \<Longrightarrow> fresh s x \<Longrightarrow> x \<notin> set xs \<Longrightarrow> length xs < 2 ^ 32 - 1 \<Longrightarrow>
      \<exists>s'. push s x = Some (True, s') \<and> rep s' (x # xs) \<and> fresh s' = fresh s"
    and pop: "rep s xs \<Longrightarrow> \<exists>s'. pop s = Some (case xs of [] \<Rightarrow> NULL | x # _ \<Rightarrow> x, s') \<and> rep s' (tl xs) \<and> fresh s' = fresh s"
begin

lemma run_refines:
  "rep s xs \<Longrightarrow> stack_legal (fresh s) cs xs \<Longrightarrow> length xs + length cs < 2 ^ 32 \<Longrightarrow>
   \<exists>s'. stack_run push pop cs s = Some (spec_pops cs xs, s') \<and> rep s' (spec_stack cs xs)"
proof (induction cs arbitrary: s xs)
  case (Cons c cs)
  show ?case
  proof (cases c)
    case None
    obtain s' where "pop s = Some (case xs of [] \<Rightarrow> NULL | x # _ \<Rightarrow> x, s')" "rep s' (tl xs)" "fresh s' = fresh s"
      using pop [OF Cons.prems(1)] by blast
    moreover have "length (tl xs) + length cs < 2 ^ 32" using Cons.prems(3) by (cases xs) auto
    ultimately show ?thesis using Cons.IH [of s' "tl xs"] Cons.prems None by auto
  next
    case (Some x)
    obtain s' where "push s x = Some (True, s')" "rep s' (x # xs)" "fresh s' = fresh s"
      using push [OF Cons.prems(1), of x] Cons.prems Some by auto
    with Cons.IH [of s' "x # xs"] Cons.prems Some show ?thesis by auto
  qed
qed simp

end

section \<open>The dynamic stack meets the contract\<close>

fun next_path :: "smem \<Rightarrow> ADDR \<Rightarrow> ADDR list \<Rightarrow> bool" where
  "next_path m p [] = (p = NULL)"
| "next_path m p (x # xs) = (p = x \<and> x \<noteq> NULL \<and> (\<exists>n. m x = Some n \<and> next_path m n xs))"

definition is_stack :: "stack_state \<Rightarrow> ADDR list \<Rightarrow> bool" where
  "is_stack st xs \<longleftrightarrow> (case st of (s, m) \<Rightarrow> (\<exists>n. m (TopOfStack s) = Some n \<and> next_path m n xs)
     \<and> distinct (TopOfStack s # xs) \<and> length xs < 2 ^ 32 \<and> StackElements s = of_nat (length xs))"

definition stack_item :: "stack_state \<Rightarrow> ADDR \<Rightarrow> bool" where
  "stack_item st x \<longleftrightarrow> x \<noteq> NULL \<and> x \<noteq> TopOfStack (fst st) \<and> snd st x \<noteq> None"

lemma next_path_frame: "(\<And>x. x \<in> set xs \<Longrightarrow> m' x = m x) \<Longrightarrow> next_path m' p xs = next_path m p xs"
  by (induction xs arbitrary: p) auto

lemma next_path_update [simp]: "p \<notin> set xs \<Longrightarrow> next_path (m(p \<mapsto> v)) q xs = next_path m q xs"
  by (rule next_path_frame) auto

lemma count_of_nat: "n < 2 ^ 32 \<Longrightarrow> unat (of_nat n :: DWORD) = n"
  by (simp add: unat_of_nat)

lemma StackDynamicPush_result:
  assumes r: "is_stack st xs" and x: "stack_item st x" "x \<notin> set xs" and l: "length xs < 2 ^ 32 - 1"
  shows "\<exists>st'. StackDynamicPush st x = Some (True, st') \<and> is_stack st' (x # xs) \<and> stack_item st' = stack_item st"
proof -
  obtain s m where st: "st = (s, m)" by (cases st)
  obtain n where n: "m (TopOfStack s) = Some n" "next_path m n xs" "distinct (TopOfStack s # xs)" "StackElements s = of_nat (length xs)"
    using r by (auto simp: is_stack_def st)
  have x': "x \<noteq> NULL" "x \<noteq> TopOfStack s" "m x \<noteq> None" using x(1) by (simp_all add: stack_item_def st)
  have "StackElements s < MAX_DWORD" using l by (simp add: n(4) word_less_nat_alt count_of_nat MAX_DWORD_def)
  then have "StackDynamicPush st x = Some (True, s\<lparr>StackElements := StackElements s + 1\<rparr>, m(x \<mapsto> n, TopOfStack s \<mapsto> x))"
    using n(1) x' by (auto simp: StackDynamicPush_def st ClPushEntryList_def wr_Next_def)
  moreover have "is_stack (s\<lparr>StackElements := StackElements s + 1\<rparr>, m(x \<mapsto> n, TopOfStack s \<mapsto> x)) (x # xs)"
    using n x x' l by (auto simp: is_stack_def)
  moreover have "stack_item (s\<lparr>StackElements := StackElements s + 1\<rparr>, m(x \<mapsto> n, TopOfStack s \<mapsto> x)) = stack_item st"
    using x' by (auto simp: stack_item_def fun_eq_iff st)
  ultimately show ?thesis by blast
qed

lemma StackDynamicPop_result:
  assumes r: "is_stack st xs"
  shows "\<exists>st'. StackDynamicPop st = Some (case xs of [] \<Rightarrow> NULL | x # _ \<Rightarrow> x, st') \<and> is_stack st' (tl xs) \<and> stack_item st' = stack_item st
    \<and> (\<forall>p. p \<noteq> TopOfStack (fst st) \<longrightarrow> snd st' p = snd st p) \<and> TopOfStack (fst st') = TopOfStack (fst st)"
proof -
  obtain s m where st: "st = (s, m)" by (cases st)
  obtain n where n: "m (TopOfStack s) = Some n" "next_path m n xs" "distinct (TopOfStack s # xs)" "StackElements s = of_nat (length xs)"
    "length xs < 2 ^ 32" using r by (auto simp: is_stack_def st)
  show ?thesis
  proof (cases xs)
    case Nil then show ?thesis using n r by (auto simp: StackDynamicPop_def st ClPopEntryList_def)
  next
    case (Cons x ys)
    obtain k where k: "n = x" "x \<noteq> NULL" "m x = Some k" "next_path m k ys" using n(2) Cons by auto
    have "StackElements s > 0" using n(4,5) Cons count_of_nat [of "length xs"] by (simp add: word_less_nat_alt)
    then have "StackDynamicPop st = Some (x, s\<lparr>StackElements := StackElements s - 1\<rparr>, m(TopOfStack s \<mapsto> k))"
      using n(1) k by (simp add: StackDynamicPop_def st ClPopEntryList_def wr_Next_def)
    moreover have "is_stack (s\<lparr>StackElements := StackElements s - 1\<rparr>, m(TopOfStack s \<mapsto> k)) ys"
      using n k Cons by (simp add: is_stack_def)
    moreover have "stack_item (s\<lparr>StackElements := StackElements s - 1\<rparr>, m(TopOfStack s \<mapsto> k)) = stack_item st"
      by (auto simp: stack_item_def fun_eq_iff st)
    ultimately show ?thesis using Cons by (simp add: st)
  qed
qed

interpretation dynamic: stack_functions is_stack stack_item StackDynamicPush StackDynamicPop
proof
  show "\<exists>s'. StackDynamicPush s x = Some (True, s') \<and> is_stack s' (x # xs) \<and> stack_item s' = stack_item s"
    if "is_stack s xs" "stack_item s x" "x \<notin> set xs" "length xs < 2 ^ 32 - 1" for s xs x
    by (rule StackDynamicPush_result [OF that])
  show "\<exists>s'. StackDynamicPop s = Some (case xs of [] \<Rightarrow> NULL | x # _ \<Rightarrow> x, s') \<and> is_stack s' (tl xs) \<and> stack_item s' = stack_item s"
    if "is_stack s xs" for s xs using StackDynamicPop_result [OF that] by blast
qed

lemma StackPeek_loop_result:
  "next_path m p xs \<Longrightarrow> unat i \<le> unat j \<Longrightarrow> unat j - unat i < length xs \<Longrightarrow>
   StackPeek_loop m j p i = Some (xs ! (unat j - unat i))"
proof (induction xs arbitrary: p i)
  case (Cons x xs)
  show ?case
  proof (cases "i < j")
    case True
    then have u: "unat (i + 1) = Suc (unat i)" by (rule unat_inc_below)
    have lt: "unat i < unat j" using True by (simp add: word_less_nat_alt)
    then have "unat j - unat i = Suc (unat j - unat (i + 1))" using u by simp
    then show ?thesis using Cons True u lt by (subst StackPeek_loop.simps) auto
  next
    case False
    then show ?thesis using Cons.prems by (subst StackPeek_loop.simps) (auto simp: word_less_nat_alt)
  qed
qed simp

lemma StackDynamicPeek_result:
  assumes r: "is_stack st xs"
  shows "StackDynamicPeek st i = Some (if unat i < length xs then xs ! unat i else NULL)"
proof -
  obtain s m n where st: "st = (s, m)" and n: "m (TopOfStack s) = Some n" "next_path m n xs" "StackElements s = of_nat (length xs)"
    "length xs < 2 ^ 32" using r by (cases st) (auto simp: is_stack_def)
  have c: "StackElements s \<le> i \<longleftrightarrow> \<not> unat i < length xs" using n(3,4) by (auto simp: word_le_nat_alt count_of_nat)
  have nz: "xs ! k \<noteq> NULL" if "k < length xs" for k
    using n(2) that by (induction xs arbitrary: n k) (auto simp: nth_Cons split: nat.splits)
  show ?thesis using c n StackPeek_loop_result [OF n(2), of 0 i] nz by (auto simp: StackDynamicPeek_def st)
qed

text \<open>A free function that touches only the item it gets.\<close>

definition frees_only :: "(ADDR \<Rightarrow> smem \<Rightarrow> smem) \<Rightarrow> bool" where
  "frees_only f \<longleftrightarrow> (\<forall>x m p. p \<noteq> x \<longrightarrow> f x m p = m p)"

lemma is_stack_frame:
  assumes "is_stack (s, m) xs" "\<And>p. p \<in> set (TopOfStack s # xs) \<Longrightarrow> m' p = m p"
  shows "is_stack (s, m') xs"
proof -
  have "next_path m' n xs = next_path m n xs" for n using assms(2) by (intro next_path_frame) auto
  then show ?thesis using assms by (auto simp: is_stack_def)
qed

lemma StackDynamicClear_result:
  assumes "is_stack st xs" "\<forall>f. free = Some f \<longrightarrow> frees_only f"
  shows "\<exists>st'. StackDynamicClear free st = Some (if free = None then [] else xs, st') \<and> is_stack st' []"
  using assms
proof (induction xs arbitrary: st)
  case Nil
  then have "StackDynamicIsEmpty st = Some True" by (cases st) (auto simp: is_stack_def StackDynamicIsEmpty_def)
  then show ?case using Nil by (subst StackDynamicClear.simps) simp
next
  case (Cons x xs)
  then have e: "StackDynamicIsEmpty st = Some False" by (cases st) (auto simp: is_stack_def StackDynamicIsEmpty_def)
  have x: "x \<noteq> NULL" "x \<notin> set xs" "x \<noteq> TopOfStack (fst st)" using Cons.prems(1) by (cases st, auto simp: is_stack_def)+
  obtain s m where p: "StackDynamicPop st = Some (x, s, m)" "is_stack (s, m) xs" "TopOfStack s = TopOfStack (fst st)"
    using StackDynamicPop_result [OF Cons.prems(1)] by auto
  show ?case
  proof (cases free)
    case None
    then show ?thesis using Cons.IH [OF p(2)] Cons.prems(2) e p(1) x(1) by (subst StackDynamicClear.simps) simp
  next
    case (Some f)
    have "is_stack (s, f x m) xs"
    proof (rule is_stack_frame [OF p(2)])
      fix q assume "q \<in> set (TopOfStack s # xs)"
      then have "q \<noteq> x" using x p(3) by auto
      then show "f x m q = m q" using Cons.prems(2) Some by (simp add: frees_only_def)
    qed
    from Cons.IH [OF this] Cons.prems(2) Some e p(1) x(1) show ?thesis by (subst StackDynamicClear.simps) auto
  qed
qed

section \<open>Properties\<close>

text \<open>C26. A stack made by \<^verbatim>\<open>StackCreate\<close> behaves as a last-in first-out sequence: any sequence of pushes and pops in
  which no item is pushed twice runs without failing an assertion and pops what the
  mathematical stack pops, null when it is empty; afterwards peeking at an index, the size and the emptiness
  test describe the remaining items, and clearing returns, passing each of them once to the free function.\<close>

theorem stack_refines_sequence:
  assumes "m p \<noteq> None" "p \<noteq> NULL" "stack_legal (\<lambda>x. x \<noteq> NULL \<and> x \<noteq> p \<and> m x \<noteq> None) cs []" "length cs < 2 ^ 32" "frees_only f"
  shows "\<exists>st st'. StackCreate True StackTypeDynamic p m = Some (STATUS_SUCCESS, Some st)
    \<and> stack_run StackDynamicPush StackDynamicPop cs st = Some (spec_pops cs [], st')
    \<and> (\<forall>i. StackDynamicPeek st' i = Some (if unat i < length (spec_stack cs []) then spec_stack cs [] ! unat i else NULL))
    \<and> unat (StackDynamicSize st') = length (spec_stack cs []) \<and> StackDynamicIsEmpty st' = Some (spec_stack cs [] = [])
    \<and> (\<exists>st''. StackDynamicClear (Some f) st' = Some (spec_stack cs [], st'') \<and> StackDynamicIsEmpty st'' = Some True)"
proof -
  let ?st = "(\<lparr>TopOfStack = p, StackElements = 0\<rparr>, m(p \<mapsto> NULL))" and ?xs = "spec_stack cs []"
  have c: "StackCreate True StackTypeDynamic p m = Some (STATUS_SUCCESS, Some ?st)"
    using assms(1,2) by (auto simp: StackCreate_def StackTypeDynamic_def StackTypeReserved_def StackDynamicInit_def
        ClInitializeSListHead_def wr_Next_def)
  have i: "is_stack ?st []" by (simp add: is_stack_def)
  have f: "stack_item ?st = (\<lambda>x. x \<noteq> NULL \<and> x \<noteq> p \<and> m x \<noteq> None)" by (auto simp: stack_item_def fun_eq_iff)
  obtain st' where st': "stack_run StackDynamicPush StackDynamicPop cs ?st = Some (spec_pops cs [], st')" "is_stack st' ?xs"
    using dynamic.run_refines [OF i, of cs] assms(3,4) by (auto simp: f)
  have "StackElements (fst st') = of_nat (length ?xs)" "length ?xs < 2 ^ 32" using st'(2) by (cases st', simp add: is_stack_def)+
  then have s: "unat (StackDynamicSize st') = length ?xs" by (simp add: StackDynamicSize_def count_of_nat)
  have e: "StackDynamicIsEmpty t = Some (xs = [])" if "is_stack t xs" for t xs
    using that by (cases t; cases xs) (auto simp: is_stack_def StackDynamicIsEmpty_def)
  obtain st'' where d: "StackDynamicClear (Some f) st' = Some (?xs, st'')" "is_stack st'' []"
    using StackDynamicClear_result [OF st'(2), of "Some f"] assms(5) by auto
  have "StackDynamicIsEmpty st'' = Some True" using e [OF d(2)] by simp
  with c st'(1) s e [OF st'(2)] d(1) StackDynamicPeek_result [OF st'(2)] show ?thesis by blast
qed

theorem stack_refines_sequence_witness:
  "\<exists>st st'. StackCreate True StackTypeDynamic 8 (\<lambda>_. Some 0) = Some (STATUS_SUCCESS, Some st)
    \<and> stack_run StackDynamicPush StackDynamicPop [Some 16, Some 24, None, None, None, Some 32] st = Some ([24, 16, NULL], st')
    \<and> StackDynamicPeek st' 0 = Some 32 \<and> StackDynamicPeek st' 1 = Some NULL"
proof -
  have "frees_only (\<lambda>x m. m(x := None))" by (simp add: frees_only_def)
  from stack_refines_sequence [of "\<lambda>_. Some 0" 8 "[Some 16, Some 24, None, None, None, Some 32]", OF _ _ _ _ this]
  show ?thesis by force
qed

text \<open>The row of the interlocked stack in the table is empty: asking for its size or creating it calls a null
  function pointer, although the type passes the checks.\<close>

lemma stack_interlocked_faults:
  "StackGetRequiredSize 4 StackTypeInterlocked = None" "p \<noteq> NULL \<Longrightarrow> StackCreate True StackTypeInterlocked p m = None"
  by (simp_all add: StackGetRequiredSize_def StackCreate_def StackTypeInterlocked_def StackTypeReserved_def StackTypeDynamic_def)

end
