(* ===== verification/CL_Utils.thy ===== *)
theory CL_Utils
  imports Prelude
begin

unbundle bit_operations_syntax

text \<open>
  \<^verbatim>\<open>CommonLib/src/intutils.c\<close>, the byte order macros of \<^verbatim>\<open>inc/intutils.h\<close> and \<^verbatim>\<open>CommonLib/src/ref_cnt.c\<close>: percentages
  without overflow, conversion between byte orders, and reference counted objects.
\<close>

section \<open>Integers\<close>

definition CalculatePercentage :: "QWORD \<Rightarrow> WORD \<Rightarrow> QWORD option" where
  "CalculatePercentage WholeValue HundredsOfPercentage = do {
     ASSERT (HundredsOfPercentage \<le> 10000);
     \<comment> \<open>the division by zero is a fault\<close>
     ASSERT (HundredsOfPercentage \<noteq> 0);
     ASSERT (MAX_QWORD div ucast HundredsOfPercentage \<ge> WholeValue);
     Some (WholeValue * ucast HundredsOfPercentage div 10000)
   }"

definition ntohd :: "DWORD \<Rightarrow> DWORD" where
  "ntohd x = ((drop_bit 24 x AND 0x000000FF) OR (push_bit 8 x AND 0x00FF0000)
     OR (drop_bit 8 x AND 0x0000FF00) OR (push_bit 24 x AND 0xFF000000))"

definition ntohw :: "WORD \<Rightarrow> WORD" where
  "ntohw x = (drop_bit 8 x OR push_bit 8 x)"

section \<open>Reference counts\<close>

text \<open>A null \<^verbatim>\<open>FreeFunction\<close> is \<open>False\<close>; the context it gets is opaque. Each operation is one interlocked access.\<close>

record REF_COUNT =
  ReferenceCount :: DWORD
  FreeFunction :: bool
  FreeContext :: ADDR

definition RfcPreInit :: "REF_COUNT" where
  "RfcPreInit = \<lparr>ReferenceCount = 0, FreeFunction = False, FreeContext = NULL\<rparr>"

definition RfcInit :: "REF_COUNT option \<Rightarrow> bool \<Rightarrow> ADDR \<Rightarrow> STATUS \<times> REF_COUNT option" where
  "RfcInit Object Fn Ctx = (case Object of
     None \<Rightarrow> (STATUS_INVALID_PARAMETER1, None)
   | Some r \<Rightarrow> (STATUS_SUCCESS, Some (r\<lparr>FreeFunction := Fn, FreeContext := Ctx, ReferenceCount := 1\<rparr>)))"

definition RfcReference :: "REF_COUNT \<Rightarrow> (DWORD \<times> REF_COUNT) option" where
  "RfcReference r = do {
     let newRefCount = ReferenceCount r + 1;
     ASSERT (MAX_DWORD > newRefCount);
     ASSERT (1 \<le> newRefCount);
     Some (newRefCount, r\<lparr>ReferenceCount := newRefCount\<rparr>)
   }"

text \<open>The second component of the result: the context the free function was called with, if it was called.\<close>

definition RfcDereference :: "REF_COUNT \<Rightarrow> (DWORD \<times> ADDR option \<times> REF_COUNT) option" where
  "RfcDereference r = do {
     let newRefCount = ReferenceCount r - 1;
     ASSERT (MAX_DWORD \<noteq> newRefCount);
     let r' = r\<lparr>ReferenceCount := newRefCount\<rparr>;
     if newRefCount = 0 then
       if FreeFunction r then Some (newRefCount, Some (FreeContext r), r') else Some (newRefCount, None, r')
     else Some (newRefCount, None, r')
   }"

section \<open>What they compute\<close>

lemma unat_ucast_word [simp]: "unat (ucast (x::WORD) :: QWORD) = unat x"
  using unat_bound [of x] by (simp add: unat_ucast_mod)

lemma CalculatePercentage_Some:
  assumes "0 < unat h" "unat h \<le> 10000" "unat w * unat h < 2 ^ 64"
  shows "\<exists>r. CalculatePercentage w h = Some r \<and> unat r = unat w * unat h div 10000"
proof -
  have h: "h \<le> 10000" "h \<noteq> 0" using assms by (auto simp: word_le_nat_alt)
  have "unat w \<le> (2 ^ 64 - 1) div unat h" using assms(1,3) by (simp add: less_eq_div_iff_mult_less_eq)
  then have d: "w \<le> MAX_QWORD div ucast h" by (simp add: word_le_nat_alt unat_div MAX_QWORD_def)
  have "unat (w * ucast h) = unat w * unat h" using assms(3) by (simp add: unat_word_ariths)
  then show ?thesis using h d by (simp add: CalculatePercentage_def unat_div)
qed

lemma CalculatePercentage_None:
  assumes "\<not> (0 < unat h \<and> unat h \<le> 10000 \<and> unat w * unat h < 2 ^ 64)"
  shows "CalculatePercentage w h = None"
proof -
  have "unat h = 0 \<or> 10000 < unat h \<or> \<not> w \<le> MAX_QWORD div ucast h"
  proof (cases "0 < unat h \<and> unat h \<le> 10000")
    case True
    then have "\<not> unat w \<le> (2 ^ 64 - 1) div unat h" using assms by (simp add: less_eq_div_iff_mult_less_eq)
    then show ?thesis by (simp add: word_le_nat_alt unat_div MAX_QWORD_def)
  qed auto
  then show ?thesis by (auto simp: CalculatePercentage_def word_le_nat_alt unat_eq_0)
qed

lemma CalculatePercentage_value:
  assumes "CalculatePercentage w h = Some r"
  shows "unat r = unat w * unat h div 10000" "r \<le> w"
proof -
  have c: "0 < unat h \<and> unat h \<le> 10000 \<and> unat w * unat h < 2 ^ 64" using CalculatePercentage_None [of h w] assms by fastforce
  then show r: "unat r = unat w * unat h div 10000" using CalculatePercentage_Some [of h w] assms by auto
  have "unat w * unat h div 10000 \<le> unat w * 10000 div 10000" by (intro div_le_mono) (use c in simp)
  then show "r \<le> w" using r by (simp add: word_le_nat_alt)
qed

lemma ntohd_bit:
  assumes "n < 32"
  shows "bit (ntohd x) n \<longleftrightarrow> bit x (if n < 8 then n + 24 else if n < 16 then n + 8 else if n < 24 then n - 8 else n - 24)"
proof -
  have m: "(0x000000FF :: DWORD) = mask 8" "(0x00FF0000 :: DWORD) = push_bit 16 (mask 8)"
    "(0x0000FF00 :: DWORD) = push_bit 8 (mask 8)" "(0xFF000000 :: DWORD) = push_bit 24 (mask 8)"
    by (simp_all add: mask_eq_exp_minus_1 push_bit_eq_mult)
  show ?thesis using assms unfolding ntohd_def m
    by (auto simp: bit_and_iff bit_or_iff bit_push_bit_iff bit_drop_bit_eq bit_mask_iff add.commute)
qed

lemma ntohd_involutive: "ntohd (ntohd x) = x"
proof (rule bit_word_eqI)
  fix n :: nat assume "n < LENGTH(32)"
  then consider "n < 8" | "8 \<le> n" "n < 16" | "16 \<le> n" "n < 24" | "24 \<le> n" "n < 32" by force
  then show "bit (ntohd (ntohd x)) n = bit x n" by cases (auto simp: ntohd_bit)
qed

lemma ntohw_involutive: "ntohw (ntohw x) = x"
proof (rule bit_word_eqI)
  fix n :: nat assume "n < LENGTH(16)"
  then consider "n < 8" | "8 \<le> n" "n < 16" by force
  then show "bit (ntohw (ntohw x)) n = bit x n"
    by cases (auto simp: ntohw_def bit_or_iff bit_push_bit_iff bit_drop_bit_eq dest: bit_imp_le_length)
qed

text \<open>Runs of a reference counted object: \<open>True\<close> takes a reference, \<open>False\<close> drops one. The result is the list of
  contexts the free function was called with.\<close>

fun rfc_run :: "bool list \<Rightarrow> REF_COUNT \<Rightarrow> (ADDR list \<times> REF_COUNT) option" where
  "rfc_run [] r = Some ([], r)"
| "rfc_run (True # cs) r = do { (_, r) \<leftarrow> RfcReference r; rfc_run cs r }"
| "rfc_run (False # cs) r = do { (_, f, r) \<leftarrow> RfcDereference r; (fs, r) \<leftarrow> rfc_run cs r; Some ((case f of None \<Rightarrow> fs | Some c \<Rightarrow> c # fs), r) }"

text \<open>The calls keep to the rule that only a holder of a reference uses the object: there is a reference
  before every call.\<close>

fun rfc_held :: "nat \<Rightarrow> bool list \<Rightarrow> bool" where
  "rfc_held n [] = True"
| "rfc_held n (c # cs) = (0 < n \<and> rfc_held (if c then Suc n else n - 1) cs)"

lemma RfcReference_step:
  assumes "unat (ReferenceCount r) + 2 < 2 ^ 32"
  shows "\<exists>r'. RfcReference r = Some (ReferenceCount r', r') \<and> unat (ReferenceCount r') = unat (ReferenceCount r) + 1
    \<and> FreeFunction r' = FreeFunction r \<and> FreeContext r' = FreeContext r"
proof -
  have u: "unat (ReferenceCount r + 1) = unat (ReferenceCount r) + 1" using assms by (simp add: unat_word_ariths)
  then have "MAX_DWORD > ReferenceCount r + 1" "1 \<le> ReferenceCount r + 1"
    using assms by (simp_all add: word_less_nat_alt word_le_nat_alt MAX_DWORD_def)
  then show ?thesis using u by (simp add: RfcReference_def Let_def)
qed

lemma RfcDereference_step:
  assumes "0 < unat (ReferenceCount r)"
  shows "\<exists>r'. RfcDereference r = Some (ReferenceCount r', (if unat (ReferenceCount r) = 1 \<and> FreeFunction r then Some (FreeContext r) else None), r')
    \<and> unat (ReferenceCount r') = unat (ReferenceCount r) - 1 \<and> FreeFunction r' = FreeFunction r \<and> FreeContext r' = FreeContext r"
proof -
  have u: "unat (ReferenceCount r - 1) = unat (ReferenceCount r) - 1" using assms by (simp add: unat_minus_one unat_gt_0)
  then have "MAX_DWORD \<noteq> ReferenceCount r - 1" "ReferenceCount r - 1 = 0 \<longleftrightarrow> unat (ReferenceCount r) = 1"
    using assms unat32_bound [of "ReferenceCount r"] by (auto simp: word_unat_eq_iff MAX_DWORD_def)
  then show ?thesis using u by (simp add: RfcDereference_def Let_def)
qed

lemma rfc_run_result:
  assumes "rfc_held (unat (ReferenceCount r)) cs" "unat (ReferenceCount r) + length cs + 1 < 2 ^ 32" "0 < unat (ReferenceCount r)"
  shows "\<exists>r'. rfc_run cs r = Some ((if unat (ReferenceCount r') = 0 \<and> FreeFunction r then [FreeContext r] else []), r')
    \<and> unat (ReferenceCount r') + length (filter Not cs) = unat (ReferenceCount r) + length (filter id cs)"
  using assms
proof (induction cs arbitrary: r)
  case (Cons c cs)
  show ?case
  proof (cases c)
    case True
    obtain r1 where r1: "RfcReference r = Some (ReferenceCount r1, r1)" "unat (ReferenceCount r1) = unat (ReferenceCount r) + 1"
      "FreeFunction r1 = FreeFunction r" "FreeContext r1 = FreeContext r" using RfcReference_step [of r] Cons.prems by auto
    with Cons.IH [of r1] Cons.prems True show ?thesis by auto
  next
    case False
    obtain r1 where r1: "RfcDereference r = Some (ReferenceCount r1, (if unat (ReferenceCount r) = 1 \<and> FreeFunction r then Some (FreeContext r) else None), r1)"
      "unat (ReferenceCount r1) = unat (ReferenceCount r) - 1" "FreeFunction r1 = FreeFunction r" "FreeContext r1 = FreeContext r"
      using RfcDereference_step [OF Cons.prems(3)] by auto
    show ?thesis
    proof (cases "unat (ReferenceCount r) = 1")
      case True
      then have "cs = []" using Cons.prems(1) False by (cases cs) auto
      with r1 True False show ?thesis by simp
    next
      case nz: False
      with r1 Cons.prems Cons.IH [of r1] False show ?thesis by auto
    qed
  qed
qed simp

section \<open>Properties\<close>

text \<open>\<^verbatim>\<open>CalculatePercentage\<close> returns exactly when the share is positive, at most the whole and the
  product fits 64 bits; the result is then the exact quotient, rounded down, and at most the whole value. In
  every other case an assertion fails, or the share 0 divides by zero.\<close>

lemma calculate_percentage_exact:
  "case CalculatePercentage w h of
     None \<Rightarrow> unat h = 0 \<or> 10000 < unat h \<or> 2 ^ 64 \<le> unat w * unat h
   | Some r \<Rightarrow> 0 < unat h \<and> unat h \<le> 10000 \<and> unat r = unat w * unat h div 10000 \<and> r \<le> w"
proof (cases "CalculatePercentage w h")
  case None
  then show ?thesis using CalculatePercentage_Some [of h w] by fastforce
next
  case (Some r)
  then show ?thesis using CalculatePercentage_value [OF Some] CalculatePercentage_None [of h w] by fastforce
qed

text \<open>C27. A reference counted object lives exactly as long as it is referenced: when every caller holds a
  reference and the count cannot overflow, no call fails an assertion, the count is the number of references
  held, and the free function is called once, with its context, by the call that drops the last one.\<close>

theorem rfc_freed_once:
  assumes "RfcInit (Some r0) True ctx = (STATUS_SUCCESS, Some r)" "rfc_held 1 cs" "length cs + 2 < 2 ^ 32"
  shows "\<exists>r'. rfc_run cs r = Some ((if unat (ReferenceCount r') = 0 then [ctx] else []), r')
    \<and> unat (ReferenceCount r') + length (filter Not cs) = 1 + length (filter id cs)"
proof -
  have r: "ReferenceCount r = 1" "FreeFunction r = True" "FreeContext r = ctx" using assms(1) by (auto simp: RfcInit_def)
  show ?thesis using rfc_run_result [of r cs, unfolded r] assms(2,3) by simp
qed

theorem rfc_freed_once_witness:
  "\<exists>r'. rfc_run [True, False, True, False, False] \<lparr>ReferenceCount = 1, FreeFunction = True, FreeContext = 7\<rparr> = Some ([7], r')"
  using rfc_freed_once [of RfcPreInit 7 "\<lparr>ReferenceCount = 1, FreeFunction = True, FreeContext = 7\<rparr>" "[True, False, True, False, False]"]
  by (auto simp: RfcInit_def RfcPreInit_def)

text \<open>The assertion of \<^verbatim>\<open>RfcReference\<close> that the object still has references looks at the new count: it
  accepts an object whose last reference is gone.\<close>

lemma rfc_reference_dead_object: "ReferenceCount r = 0 \<Longrightarrow> RfcReference r = Some (1, r\<lparr>ReferenceCount := 1\<rparr>)"
  by (simp add: RfcReference_def MAX_DWORD_def)

text \<open>Converting between host and network byte order twice gives back the number.\<close>

lemma byte_order_round_trip: "ntohd (ntohd x) = x \<and> ntohw (ntohw y) = y"
  by (simp add: ntohd_involutive ntohw_involutive)

end
