(* ===== verification/Pmm.thy ===== *)
theory Pmm
  imports CL_Bitmap
begin

text \<open>
  \<^verbatim>\<open>HAL9000/src/pmm.c\<close>: the physical memory manager, an allocator of page frames on top of
  \<^verbatim>\<open>CL_Bitmap\<close>; and the process identifiers of \<^verbatim>\<open>HAL9000/src/process.c\<close>, which use a
  bitmap the same way.

  The static \<^verbatim>\<open>m_pmmData\<close> is the explicit state \<open>PMM_DATA\<close>. Its lock protects only the
  bitmap; every operation holds it for its whole access to the bitmap, so an operation is one
  step of the state. The memory at \<^verbatim>\<open>BaseAddress\<close>, where the bitmap's buffer is placed, is
  the byte list \<open>mem\<close>; the memory map is the list of its entries.
\<close>

section \<open>State\<close>

record INT15_MEMORY_MAP_ENTRY =
  BaseAddress :: QWORD
  Length :: QWORD
  Type :: DWORD
  ExtendedAttributes :: DWORD

record MEMORY_REGION_LIST =
  RegionType :: DWORD
  NumberOfEntries :: DWORD

record PMM_DATA =
  HighestPhysicalAddressAvailable :: QWORD
  HighestPhysicalAddressPresent :: QWORD
  PhysicalMemorySize :: QWORD
  MemoryRegionList :: "MEMORY_REGION_LIST list"
  AllocationBitmap :: BITMAP

definition MemoryMapTypeUsableRAM :: DWORD where "MemoryMapTypeUsableRAM = 1"
definition MemoryMapTypeMax :: DWORD where "MemoryMapTypeMax = 6"
definition MEMORY_MAP_ENTRY_EA_VALID_ENTRY :: DWORD where "MEMORY_MAP_ENTRY_EA_VALID_ENTRY = 1"

text \<open>\<^verbatim>\<open>memzero\<close> leaves type 0 in the region list's first element, which the loop from
  \<^verbatim>\<open>MemoryMapTypeUsableRAM\<close> does not reach.\<close>

definition PmmPreinitSystem :: PMM_DATA where
  "PmmPreinitSystem = \<lparr>HighestPhysicalAddressAvailable = 0, HighestPhysicalAddressPresent = 0,
     PhysicalMemorySize = 0,
     MemoryRegionList = map (\<lambda>i. \<lparr>RegionType = (if unat MemoryMapTypeUsableRAM \<le> i then of_nat i else 0),
                                  NumberOfEntries = 0\<rparr>) [0..<unat MemoryMapTypeMax],
     AllocationBitmap = \<lparr>BitmapBuffer = None, BufferSize = 0, BitCount = 0\<rparr>\<rparr>"

section \<open>Reserving and releasing frames\<close>

definition PmmReserveMemoryEx :: "PMM_DATA \<Rightarrow> DWORD \<Rightarrow> QWORD \<Rightarrow> (QWORD \<times> PMM_DATA) option" where
  "PmmReserveMemoryEx p NoOfFrames MinPhysAddr =
     (if NoOfFrames = 0 then Some (NULL, p)
      else if \<not> IsAddressAligned MinPhysAddr PAGE_SIZE then Some (NULL, p)
      else do {
        let startIdx = MinPhysAddr div PAGE_SIZE;
        if startIdx > ucast MAX_DWORD then Some (NULL, p)
        else do {
          (idx, bm) \<leftarrow> BitmapScanFromAndFlip (AllocationBitmap p) (ucast startIdx) NoOfFrames False;
          if idx = MAX_DWORD then Some (NULL, p\<lparr>AllocationBitmap := bm\<rparr>)
          else Some (ucast idx * PAGE_SIZE, p\<lparr>AllocationBitmap := bm\<rparr>)
        }
      })"

abbreviation PmmReserveMemory :: "PMM_DATA \<Rightarrow> DWORD \<Rightarrow> (QWORD \<times> PMM_DATA) option" where
  "PmmReserveMemory p Frames \<equiv> PmmReserveMemoryEx p Frames NULL"

definition PmmReleaseMemory :: "PMM_DATA \<Rightarrow> QWORD \<Rightarrow> DWORD \<Rightarrow> PMM_DATA option" where
  "PmmReleaseMemory p PhysicalAddr NoOfFrames = do {
     ASSERT (IsAddressAligned PhysicalAddr PAGE_SIZE);
     let index = PhysicalAddr div PAGE_SIZE;
     ASSERT (index \<le> ucast MAX_DWORD);
     bm \<leftarrow> BitmapClearBits (AllocationBitmap p) (ucast index) NoOfFrames;
     Some (p\<lparr>AllocationBitmap := bm\<rparr>)
   }"

definition PmmGetTotalSystemMemory :: "PMM_DATA \<Rightarrow> QWORD" where
  "PmmGetTotalSystemMemory p = PhysicalMemorySize p"

definition PmmGetHighestPhysicalMemoryAddressPresent :: "PMM_DATA \<Rightarrow> QWORD" where
  "PmmGetHighestPhysicalMemoryAddressPresent p = HighestPhysicalAddressPresent p"

definition PmmGetHighestPhysicalMemoryAddressAvailable :: "PMM_DATA \<Rightarrow> QWORD" where
  "PmmGetHighestPhysicalMemoryAddressAvailable p = HighestPhysicalAddressAvailable p"

section \<open>Initialisation from the memory map\<close>

record MEMORY_LIMITS =
  sizeOfAvailableMemory :: QWORD
  highestMemoryAddressPresent :: QWORD
  highestMemoryAddressAvailable :: QWORD
  MemoryRegions :: "MEMORY_REGION_LIST list"

definition entry_end :: "INT15_MEMORY_MAP_ENTRY \<Rightarrow> QWORD" where
  "entry_end e = BaseAddress e + Length e"

definition entry_valid :: "INT15_MEMORY_MAP_ENTRY \<Rightarrow> bool" where
  "entry_valid e \<longleftrightarrow> IsBooleanFlagOn (ExtendedAttributes e) MEMORY_MAP_ENTRY_EA_VALID_ENTRY"

definition PmmLimits_step :: "INT15_MEMORY_MAP_ENTRY \<Rightarrow> MEMORY_LIMITS \<Rightarrow> MEMORY_LIMITS option" where
  "PmmLimits_step e l = do {
     let memoryType = Type e;
     let l = (if entry_end e > highestMemoryAddressPresent l
              then l\<lparr>highestMemoryAddressPresent := entry_end e\<rparr> else l);
     if \<not> entry_valid e then Some l
     else do {
       ASSERT (unat memoryType < length (MemoryRegions l));
       let r = MemoryRegions l ! unat memoryType;
       let l = l\<lparr>MemoryRegions := (MemoryRegions l)
                  [unat memoryType := r\<lparr>NumberOfEntries := NumberOfEntries r + 1\<rparr>]\<rparr>;
       if memoryType \<noteq> MemoryMapTypeUsableRAM then Some l
       else do {
         let l = (if entry_end e > highestMemoryAddressAvailable l
                  then l\<lparr>highestMemoryAddressAvailable := entry_end e\<rparr> else l);
         Some (l\<lparr>sizeOfAvailableMemory := sizeOfAvailableMemory l + Length e\<rparr>)
       }
     }
   }"

fun PmmLimits_loop :: "INT15_MEMORY_MAP_ENTRY list \<Rightarrow> MEMORY_LIMITS \<Rightarrow> MEMORY_LIMITS option" where
  "PmmLimits_loop [] l = Some l"
| "PmmLimits_loop (e # es) l = do { l \<leftarrow> PmmLimits_step e l; PmmLimits_loop es l }"

definition PmmDetermineMemoryLimits ::
  "INT15_MEMORY_MAP_ENTRY list \<Rightarrow> MEMORY_REGION_LIST list \<Rightarrow> MEMORY_LIMITS option" where
  "PmmDetermineMemoryLimits MemoryMap regions = do {
     ASSERT (MemoryMap \<noteq> []);
     PmmLimits_loop MemoryMap \<lparr>sizeOfAvailableMemory = 0, highestMemoryAddressPresent = 0,
       highestMemoryAddressAvailable = 0, MemoryRegions = regions\<rparr>
   }"

fun PmmReleaseUsable_loop :: "INT15_MEMORY_MAP_ENTRY list \<Rightarrow> PMM_DATA \<Rightarrow> PMM_DATA option" where
  "PmmReleaseUsable_loop [] p = Some p"
| "PmmReleaseUsable_loop (e # es) p =
     (if \<not> entry_valid e then PmmReleaseUsable_loop es p
      else if Type e \<noteq> MemoryMapTypeUsableRAM then PmmReleaseUsable_loop es p
      else if BaseAddress e < 1 * MB_SIZE then PmmReleaseUsable_loop es p
      else do {
        let physAddr = AlignAddressUpper (BaseAddress e) PAGE_SIZE;
        let noOfFrames = Length e div PAGE_SIZE;
        ASSERT (noOfFrames \<le> ucast MAX_DWORD);
        p \<leftarrow> PmmReleaseMemory p physAddr (ucast noOfFrames);
        PmmReleaseUsable_loop es p
      })"

text \<open>The source passes \<^verbatim>\<open>&m_pmmData.AllocationBitmap\<close> as \<^verbatim>\<open>Bitmap\<close>, the very bitmap
  \<^verbatim>\<open>PmmReserveMemory\<close> and \<^verbatim>\<open>PmmReleaseMemory\<close> work on.\<close>

definition PmmInitializeAllocationBitmap ::
  "BYTE list \<Rightarrow> QWORD \<Rightarrow> INT15_MEMORY_MAP_ENTRY list \<Rightarrow> PMM_DATA \<Rightarrow> (DWORD \<times> PMM_DATA) option" where
  "PmmInitializeAllocationBitmap mem HighestMemoryAddress MemoryEntries p = do {
     ASSERT (HighestMemoryAddress \<noteq> 0);
     let noOfPhysicalFrames = HighestMemoryAddress div PAGE_SIZE;
     ASSERT (noOfPhysicalFrames \<le> ucast MAX_DWORD);
     (bitmapSize, bm) \<leftarrow> BitmapPreinit (ucast noOfPhysicalFrames);
     bm \<leftarrow> BitmapInitEx bm mem False;
     let p = p\<lparr>AllocationBitmap := bm\<rparr>;
     (pa, p) \<leftarrow> PmmReserveMemory p (BitmapGetMaxElementCount bm);
     p \<leftarrow> PmmReleaseUsable_loop MemoryEntries p;
     Some (bitmapSize, p)
   }"

text \<open>The word stored through \<^verbatim>\<open>SizeReserved\<close> is the second component of the result; on
  the error paths the source stores nothing there and the component is 0.\<close>

definition PmmInitSystem ::
  "ADDR \<Rightarrow> BYTE list \<Rightarrow> INT15_MEMORY_MAP_ENTRY list option \<Rightarrow> ADDR \<Rightarrow> PMM_DATA
     \<Rightarrow> (STATUS \<times> DWORD \<times> PMM_DATA) option" where
  "PmmInitSystem base mem MemoryEntries SizeReserved p =
     (if base = NULL then Some (STATUS_INVALID_PARAMETER1, 0, p)
      else case MemoryEntries of
        None \<Rightarrow> Some (STATUS_INVALID_PARAMETER2, 0, p)
      | Some es \<Rightarrow>
          if es = [] then Some (STATUS_INVALID_PARAMETER3, 0, p)
          else if SizeReserved = NULL then Some (STATUS_INVALID_PARAMETER4, 0, p)
          else do {
            l \<leftarrow> PmmDetermineMemoryLimits es (MemoryRegionList p);
            let p = p\<lparr>PhysicalMemorySize := sizeOfAvailableMemory l,
                      HighestPhysicalAddressPresent := highestMemoryAddressPresent l,
                      HighestPhysicalAddressAvailable := highestMemoryAddressAvailable l,
                      MemoryRegionList := MemoryRegions l\<rparr>;
            (sizeReserved, p) \<leftarrow> PmmInitializeAllocationBitmap mem (HighestPhysicalAddressPresent p) es p;
            Some (STATUS_SUCCESS, ucast (AlignAddressUpper (ucast sizeReserved) PAGE_SIZE), p)
          })"


section \<open>Process identifiers\<close>

definition PCID_TOTAL_NO_OF_VALUES :: DWORD where "PCID_TOTAL_NO_OF_VALUES = push_bit 12 1"

definition PCID_IS_VALID :: "QWORD \<Rightarrow> bool" where
  "PCID_IS_VALID pcid \<longleftrightarrow> 1 \<le> pcid \<and> pcid < ucast PCID_TOTAL_NO_OF_VALUES"

text \<open>\<open>PidBitmapBuffer\<close> is an array of 512 bytes inside the zeroed static structure.\<close>

definition PidBitmapInit :: "BITMAP option" where
  "PidBitmapInit = do {
     (size, bm) \<leftarrow> BitmapPreinit PCID_TOTAL_NO_OF_VALUES;
     ASSERT (unat PCID_TOTAL_NO_OF_VALUES div 8 = unat size);
     bm \<leftarrow> BitmapInitEx bm (replicate (unat PCID_TOTAL_NO_OF_VALUES div 8) 0) False;
     BitmapSetBitValue bm 0 True
   }"

definition ProcessSystemRetrieveNextPid :: "BITMAP \<Rightarrow> (QWORD \<times> BITMAP) option" where
  "ProcessSystemRetrieveNextPid PidBitmap = do {
     (idx, bm) \<leftarrow> BitmapScanAndFlip PidBitmap 1 False;
     ASSERT (PCID_IS_VALID (ucast idx));
     Some (ucast idx, bm)
   }"

definition ProcessSystemFreePid :: "BITMAP \<Rightarrow> QWORD \<Rightarrow> BITMAP option" where
  "ProcessSystemFreePid PidBitmap ProcessId = do {
     ASSERT (PCID_IS_VALID ProcessId);
     v \<leftarrow> BitmapGetBitValue PidBitmap (ucast ProcessId);
     ASSERT v;
     BitmapSetBitValue PidBitmap (ucast ProcessId) False
   }"

section \<open>Frames and blocks\<close>

definition pmm_ok :: "PMM_DATA \<Rightarrow> bool" where
  "pmm_ok p \<longleftrightarrow> bitmap_ok (AllocationBitmap p)"

definition pmm_used :: "PMM_DATA \<Rightarrow> nat set" where
  "pmm_used p = bm_used (AllocationBitmap p)"

definition pmm_frames :: "PMM_DATA \<Rightarrow> nat" where
  "pmm_frames p = unat (BitCount (AllocationBitmap p))"

text \<open>The frames of the block that starts at the physical address \<open>a\<close>.\<close>

definition block :: "QWORD \<Rightarrow> DWORD \<Rightarrow> nat set" where
  "block a n = {unat a div 4096..<unat a div 4096 + unat n}"

lemmas pmm_defs = pmm_ok_def pmm_used_def pmm_frames_def

lemma PAGE_SIZE_pow: "PAGE_SIZE = 2 ^ 12"
  by (simp add: PAGE_SIZE_def)

lemma unat_PAGE_SIZE [simp]: "unat PAGE_SIZE = 4096"
  by (simp add: PAGE_SIZE_def)

lemma IsPageAligned: "IsAddressAligned a PAGE_SIZE \<longleftrightarrow> unat a mod 4096 = 0"
  using IsAddressAligned_unat [OF PAGE_SIZE_pow, of a] by simp

lemma unat_MAX_DWORD [simp]: "unat MAX_DWORD = 4294967295" "unat (ucast MAX_DWORD :: QWORD) = 4294967295"
  by (simp_all add: MAX_DWORD_def)

lemma le_MAX_DWORD: "(x::QWORD) \<le> ucast MAX_DWORD \<longleftrightarrow> unat x < 2 ^ 32"
  by (auto simp: word_le_nat_alt)

lemma unat_ucast_down: "unat (x::QWORD) < 2 ^ 32 \<Longrightarrow> unat (ucast x :: DWORD) = unat x"
  by (simp add: unat_ucast_mod)

lemma frame_address: "unat (ucast (i::DWORD) * PAGE_SIZE) = unat i * 4096"
  using unat32_bound [of i] by (simp add: unat_word_ariths)

lemma frame_address_nonzero: "(ucast (i::DWORD) * PAGE_SIZE = NULL) \<longleftrightarrow> i = 0"
  by (metis frame_address mult_eq_0_iff unat_eq_0 zero_neq_numeral)

lemma block_frame_address [simp]: "block (ucast (i::DWORD) * PAGE_SIZE) n = {unat i..<unat i + unat n}"
  by (simp add: block_def frame_address)

lemma block_nonempty: "n \<noteq> 0 \<Longrightarrow> unat a div 4096 \<in> block a n"
  by (auto simp: block_def unat_gt_0 unat_eq_0)

text \<open>What a reservation does, on every branch.\<close>

lemma PmmReserveMemoryEx_result:
  assumes ok: "pmm_ok p" and zero: "0 \<in> pmm_used p"
  shows "\<exists>a p'. PmmReserveMemoryEx p n lo = Some (a, p') \<and> pmm_ok p' \<and> pmm_frames p' = pmm_frames p
    \<and> (a = NULL \<longrightarrow> pmm_used p' = pmm_used p)
    \<and> (a \<noteq> NULL \<longrightarrow> n \<noteq> 0 \<and> IsAddressAligned a PAGE_SIZE \<and> lo \<le> a \<and> block a n \<subseteq> {..<pmm_frames p}
         \<and> block a n \<inter> pmm_used p = {} \<and> pmm_used p' = pmm_used p \<union> block a n)
    \<and> (a = NULL \<longrightarrow> n \<noteq> 0 \<longrightarrow> IsAddressAligned lo PAGE_SIZE \<longrightarrow>
         (\<forall>f. unat lo \<le> f * 4096 \<and> f + unat n \<le> pmm_frames p \<longrightarrow> {f..<f + unat n} \<inter> pmm_used p \<noteq> {}))"
proof (cases "n = 0 \<or> \<not> IsAddressAligned lo PAGE_SIZE")
  case True
  then show ?thesis using ok by (auto simp: PmmReserveMemoryEx_def)
next
  case False
  then have n: "n \<noteq> 0" and al: "IsAddressAligned lo PAGE_SIZE" by auto
  let ?s = "lo div PAGE_SIZE"
  have lo: "unat lo = unat ?s * 4096"
    using al by (auto simp: IsPageAligned unat_div)
  show ?thesis
  proof (cases "?s > ucast MAX_DWORD")
    case True
    then have "4294967295 < unat ?s" by (simp add: word_less_nat_alt)
    moreover have "pmm_frames p < 4294967296" by (simp add: pmm_frames_def unat32_bound)
    ultimately show ?thesis
      using True n al lo ok by (auto simp: PmmReserveMemoryEx_def)
  next
    case False
    then have s: "unat (ucast ?s :: DWORD) = unat ?s"
      by (intro unat_ucast_down) (simp add: word_less_nat_alt)
    have bok: "bitmap_ok (AllocationBitmap p)" using ok by (simp add: pmm_ok_def)
    obtain i bm where i: "BitmapScanFromAndFlip (AllocationBitmap p) (ucast ?s) n False = Some (i, bm)"
      using bm.reserve_returns [OF bok n] by blast
    have fr: "bitmap_ok bm" "BitCount bm = BitCount (AllocationBitmap p)"
      using bm.reserve_frame [OF bok n i] by (auto simp: word_unat_eq_iff)
    show ?thesis
    proof (cases "i = MAX_DWORD")
      case True
      then show ?thesis
        using False n al i fr lo s bm.reserve_failure [OF bok n, of "ucast ?s" bm]
        by (auto simp: PmmReserveMemoryEx_def pmm_defs)
    next
      case ne: False
      note su = bm.reserve_success [OF bok n i ne]
      have "unat n > 0" using n by (simp add: unat_gt_0)
      then have "i \<noteq> 0" using su zero by (auto simp: pmm_used_def)
      moreover have "lo \<le> ucast i * PAGE_SIZE"
        using su s lo by (simp add: word_le_nat_alt frame_address)
      moreover have "unat (ucast i * PAGE_SIZE) mod 4096 = 0" by (simp add: frame_address)
      ultimately show ?thesis
        using False n al i fr ne su
        by (auto simp: PmmReserveMemoryEx_def pmm_defs frame_address_nonzero IsPageAligned)
    qed
  qed
qed

lemma PmmReleaseMemory_result:
  assumes ok: "pmm_ok p" and al: "IsAddressAligned a PAGE_SIZE"
    and a: "unat a div 4096 < pmm_frames p" and r: "unat a div 4096 + unat n \<le> pmm_frames p"
  shows "\<exists>p'. PmmReleaseMemory p a n = Some p' \<and> pmm_ok p' \<and> pmm_frames p' = pmm_frames p
    \<and> pmm_used p' = pmm_used p - block a n"
proof -
  let ?i = "a div PAGE_SIZE"
  have i: "unat ?i = unat a div 4096" by (simp add: unat_div)
  have lt: "unat ?i < 2 ^ 32" using a i unat32_bound [of "BitCount (AllocationBitmap p)"] by (simp add: pmm_frames_def)
  then have "unat (ucast ?i :: DWORD) = unat a div 4096" using i unat_ucast_down by simp
  with ok a r obtain bm where
    "BitmapClearBits (AllocationBitmap p) (ucast ?i) n = Some bm" "bitmap_ok bm"
    "unat (BitCount bm) = pmm_frames p" "bm_used bm = pmm_used p - block a n"
    using bm.release_success [of "AllocationBitmap p" "ucast ?i" n] by (auto simp: pmm_defs block_def)
  with al lt show ?thesis
    by (simp add: PmmReleaseMemory_def le_MAX_DWORD pmm_defs)
qed


section \<open>Every owner of a block\<close>

text \<open>
  The frame allocator used by any number of clients: \<open>own\<close> is the set of blocks handed out
  and not yet given back. A client releases only a block it owns.
\<close>

inductive pmm_reach :: "PMM_DATA \<Rightarrow> PMM_DATA \<Rightarrow> (QWORD \<times> DWORD) set \<Rightarrow> bool" for p0 where
  start: "pmm_reach p0 p0 {}"
| reserve: "pmm_reach p0 p own \<Longrightarrow> PmmReserveMemoryEx p n lo = Some (a, p') \<Longrightarrow> a \<noteq> NULL
    \<Longrightarrow> pmm_reach p0 p' (insert (a, n) own)"
| reserve_none: "pmm_reach p0 p own \<Longrightarrow> PmmReserveMemoryEx p n lo = Some (NULL, p')
    \<Longrightarrow> pmm_reach p0 p' own"
| release: "pmm_reach p0 p own \<Longrightarrow> (a, n) \<in> own \<Longrightarrow> PmmReleaseMemory p a n = Some p'
    \<Longrightarrow> pmm_reach p0 p' (own - {(a, n)})"

definition blocks_disjoint :: "(QWORD \<times> DWORD) set \<Rightarrow> bool" where
  "blocks_disjoint own \<longleftrightarrow>
     (\<forall>a n b m. (a, n) \<in> own \<and> (b, m) \<in> own \<and> (a, n) \<noteq> (b, m) \<longrightarrow> block a n \<inter> block b m = {})"

lemma blocks_disjoint_insert:
  "blocks_disjoint own \<Longrightarrow> block a n \<inter> (\<Union>(b, m) \<in> own. block b m) = {} \<Longrightarrow> blocks_disjoint (insert (a, n) own)"
  unfolding blocks_disjoint_def by blast

lemma blocks_disjoint_Diff: "blocks_disjoint own \<Longrightarrow> blocks_disjoint (own - A)"
  unfolding blocks_disjoint_def by blast

lemma blocks_disjoint_empty: "blocks_disjoint {}"
  by (simp add: blocks_disjoint_def)

definition pmm_inv :: "PMM_DATA \<Rightarrow> PMM_DATA \<Rightarrow> (QWORD \<times> DWORD) set \<Rightarrow> bool" where
  "pmm_inv p0 p own \<longleftrightarrow> pmm_ok p \<and> pmm_frames p = pmm_frames p0
    \<and> (\<forall>a n. (a, n) \<in> own \<longrightarrow> n \<noteq> 0 \<and> IsAddressAligned a PAGE_SIZE \<and> block a n \<subseteq> {..<pmm_frames p0}
         \<and> block a n \<inter> pmm_used p0 = {})
    \<and> blocks_disjoint own
    \<and> pmm_used p = pmm_used p0 \<union> (\<Union>(a, n) \<in> own. block a n)"

lemma pmm_inv_reserve:
  assumes inv: "pmm_inv p0 p own" and zero: "0 \<in> pmm_used p0"
    and step: "PmmReserveMemoryEx p n lo = Some (a, p')" and a: "a \<noteq> NULL"
  shows "pmm_inv p0 p' (insert (a, n) own)"
proof -
  have "pmm_ok p" "0 \<in> pmm_used p" using inv zero by (auto simp: pmm_inv_def)
  with PmmReserveMemoryEx_result [of p n lo] step a have r: "pmm_ok p'" "pmm_frames p' = pmm_frames p"
    "n \<noteq> 0" "IsAddressAligned a PAGE_SIZE" "block a n \<subseteq> {..<pmm_frames p}"
    "block a n \<inter> pmm_used p = {}" "pmm_used p' = pmm_used p \<union> block a n"
    by auto
  have new: "block a n \<inter> (\<Union>(a, n) \<in> own. block a n) = {}" "block a n \<inter> pmm_used p0 = {}"
    using inv r(6) by (auto simp: pmm_inv_def)
  have "blocks_disjoint (insert (a, n) own)"
    using inv new(1) by (simp add: pmm_inv_def blocks_disjoint_insert)
  with inv r new(2) show ?thesis
    by (auto simp: pmm_inv_def)
qed

lemma pmm_inv_block_bounds:
  assumes "pmm_inv p0 p own" "(a, n) \<in> own"
  shows "unat a div 4096 < pmm_frames p" "unat a div 4096 + unat n \<le> pmm_frames p"
proof -
  have b: "block a n \<subseteq> {..<pmm_frames p}" "n \<noteq> 0" using assms by (auto simp: pmm_inv_def)
  then show "unat a div 4096 < pmm_frames p" using block_nonempty [of n a] by auto
  then show "unat a div 4096 + unat n \<le> pmm_frames p"
    using b by (auto simp: block_def unat_eq_0 dest!: subsetD [of _ _ "unat a div 4096 + unat n - 1"])
qed

lemma pmm_inv_release:
  assumes inv: "pmm_inv p0 p own" and own: "(a, n) \<in> own"
  shows "\<exists>p'. PmmReleaseMemory p a n = Some p' \<and> pmm_inv p0 p' (own - {(a, n)})"
proof -
  have "pmm_ok p" "IsAddressAligned a PAGE_SIZE" "block a n \<inter> pmm_used p0 = {}"
    using assms by (auto simp: pmm_inv_def)
  with PmmReleaseMemory_result [of p a n] pmm_inv_block_bounds [OF assms] obtain p' where
    p': "PmmReleaseMemory p a n = Some p'" "pmm_ok p'" "pmm_frames p' = pmm_frames p"
    "pmm_used p' = pmm_used p - block a n" by blast
  have "block b m \<inter> block a n = {}" if "(b, m) \<in> own - {(a, n)}" for b m
    using inv own that unfolding pmm_inv_def blocks_disjoint_def by blast
  then have "(\<Union>(b, m) \<in> own - {(a, n)}. block b m) \<inter> block a n = {}" by auto
  moreover have "(\<Union>(b, m) \<in> own. block b m) = (\<Union>(b, m) \<in> own - {(a, n)}. block b m) \<union> block a n"
    using own by auto
  moreover have "pmm_used p = pmm_used p0 \<union> (\<Union>(b, m) \<in> own. block b m)"
    using inv by (simp add: pmm_inv_def)
  ultimately have "pmm_used p' = pmm_used p0 \<union> (\<Union>(b, m) \<in> own - {(a, n)}. block b m)"
    using p'(4) \<open>block a n \<inter> pmm_used p0 = {}\<close> by auto
  with inv p' show ?thesis
    by (auto simp: pmm_inv_def blocks_disjoint_Diff)
qed

lemma pmm_reach_inv:
  assumes "pmm_reach p0 p own" "pmm_ok p0" "0 \<in> pmm_used p0"
  shows "pmm_inv p0 p own"
  using assms
proof (induction rule: pmm_reach.induct)
  case start
  then show ?case by (simp add: pmm_inv_def blocks_disjoint_empty)
next
  case (reserve p own n lo a p')
  then show ?case using pmm_inv_reserve by blast
next
  case (reserve_none p own n lo p')
  then have "pmm_inv p0 p own" "pmm_ok p" "0 \<in> pmm_used p" by (auto simp: pmm_inv_def)
  with PmmReserveMemoryEx_result [of p n lo] reserve_none.hyps show ?case
    by (auto simp: pmm_inv_def)
next
  case (release p own a n p')
  then show ?case using pmm_inv_release [of p0 p own a n] by auto
qed


section \<open>Initialisation\<close>

definition usable :: "INT15_MEMORY_MAP_ENTRY \<Rightarrow> bool" where
  "usable e \<longleftrightarrow> entry_valid e \<and> Type e = MemoryMapTypeUsableRAM \<and> \<not> BaseAddress e < MB_SIZE"

text \<open>The frames released for an entry: from the first page boundary in it, as many as its length holds.\<close>

definition released :: "INT15_MEMORY_MAP_ENTRY \<Rightarrow> nat set" where
  "released e = (let s = unat (AlignAddressUpper (BaseAddress e) PAGE_SIZE) div 4096
                 in {s..<s + unat (Length e) div 4096})"

definition fits :: "nat \<Rightarrow> INT15_MEMORY_MAP_ENTRY \<Rightarrow> bool" where
  "fits n e \<longleftrightarrow> (let s = unat (AlignAddressUpper (BaseAddress e) PAGE_SIZE) div 4096
                in s < n \<and> s + unat (Length e) div 4096 \<le> n)"

lemma AlignUpper_page: "unat (AlignAddressUpper a PAGE_SIZE) mod 4096 = 0"
  using AlignAddressLower_unat [OF PAGE_SIZE_pow, of "a + PAGE_SIZE - 1"]
  by (simp add: AlignAddressUpper_def minus_mod_eq_mult_div)

lemma PmmReleaseUsable_loop_result:
  "pmm_ok p \<Longrightarrow> \<forall>e \<in> set es. usable e \<longrightarrow> fits (pmm_frames p) e \<Longrightarrow>
   \<exists>p'. PmmReleaseUsable_loop es p = Some p' \<and> pmm_ok p' \<and> pmm_frames p' = pmm_frames p
     \<and> pmm_used p' = pmm_used p - (\<Union>e \<in> {e \<in> set es. usable e}. released e)"
proof (induction es arbitrary: p)
  case (Cons e es)
  show ?case
  proof (cases "usable e")
    case False
    then have "PmmReleaseUsable_loop (e # es) p = PmmReleaseUsable_loop es p"
      by (auto simp: usable_def)
    moreover have "{x \<in> set (e # es). usable x} = {x \<in> set es. usable x}" using False by auto
    ultimately show ?thesis using Cons by simp
  next
    case True
    let ?a = "AlignAddressUpper (BaseAddress e) PAGE_SIZE" let ?n = "Length e div PAGE_SIZE"
    have f: "fits (pmm_frames p) e" using Cons.prems True by auto
    have "unat ?n < 2 ^ 32"
      using f unat32_bound [of "BitCount (AllocationBitmap p)"]
      by (simp add: fits_def Let_def unat_div pmm_frames_def)
    then have n: "?n \<le> ucast MAX_DWORD" "unat (ucast ?n :: DWORD) = unat (Length e) div 4096"
      by (simp_all only: le_MAX_DWORD unat_ucast_down) (simp add: unat_div)
    obtain p1 where p1: "PmmReleaseMemory p ?a (ucast ?n) = Some p1" "pmm_ok p1"
      "pmm_frames p1 = pmm_frames p" "pmm_used p1 = pmm_used p - released e"
      using PmmReleaseMemory_result [of p ?a "ucast ?n"] Cons.prems(1) f n(2)
      by (auto simp: IsPageAligned AlignUpper_page fits_def Let_def block_def released_def)
    with Cons.IH [of p1] Cons.prems obtain p' where p': "PmmReleaseUsable_loop es p1 = Some p'" "pmm_ok p'"
      "pmm_frames p' = pmm_frames p" "pmm_used p' = pmm_used p1 - (\<Union>e \<in> {e \<in> set es. usable e}. released e)"
      by auto
    have "PmmReleaseUsable_loop (e # es) p = Some p'"
      using True n(1) p1(1) p'(1) by (simp add: usable_def Let_def)
    moreover have "pmm_used p' = pmm_used p - (\<Union>e \<in> {x \<in> set (e # es). usable x}. released e)"
      using p1(4) p'(4) True by auto
    ultimately show ?thesis using p' by blast
  qed
qed auto

text \<open>Reserving as many frames as there are on an empty bitmap takes them all.\<close>

lemma PmmReserve_all:
  assumes ok: "pmm_ok p" and free: "pmm_used p = {}" and n: "BitCount (AllocationBitmap p) \<noteq> 0"
  shows "\<exists>a p'. PmmReserveMemory p (BitCount (AllocationBitmap p)) = Some (a, p') \<and> pmm_ok p'
    \<and> pmm_frames p' = pmm_frames p \<and> pmm_used p' = {..<pmm_frames p}"
proof -
  let ?b = "AllocationBitmap p" let ?n = "BitCount (AllocationBitmap p)"
  have bok: "bitmap_ok ?b" using ok by (simp add: pmm_ok_def)
  obtain i bm where i: "BitmapScanFromAndFlip ?b 0 ?n False = Some (i, bm)" "i \<noteq> MAX_DWORD"
    using bm.reserve_complete [OF bok n, of 0 0] free by (auto simp: pmm_used_def)
  have "bitmap_ok bm \<and> unat (BitCount bm) = unat ?n" using bm.reserve_frame [OF bok n i(1)] .
  moreover have "unat i = 0" "bm_used bm = {..<unat ?n}"
    using bm.reserve_success [OF bok n i] free by (auto simp: pmm_used_def)
  moreover have "IsAddressAligned NULL PAGE_SIZE" by (simp add: IsAddressAligned_def)
  moreover have "\<not> (ucast MAX_DWORD :: QWORD) < NULL div PAGE_SIZE" by simp
  ultimately show ?thesis
    using i n by (simp add: PmmReserveMemoryEx_def pmm_defs)
qed

lemma BitmapPreinit_Init_returns:
  assumes "n \<noteq> 0" "(unat n + 7) div 8 \<le> length mem"
  shows "\<exists>sz b b'. BitmapPreinit n = Some (sz, b) \<and> BitmapInitEx b mem v = Some b' \<and> bitmap_ok b'
    \<and> BitCount b' = n \<and> (\<forall>k < unat n. bm_bit b' k = v)"
proof -
  obtain sz b where b: "BitmapPreinit n = Some (sz, b)" "BufferSize b = sz"
    using assms by (auto simp: BitmapPreinit_def Let_def)
  then have sz: "unat sz \<le> length mem" using BitmapPreinit_size [OF assms(1) b(1)] assms(2) by simp
  then obtain b' where "BitmapInitEx b mem v = Some b'" using b(2) by (auto simp: BitmapInitEx_def Let_def)
  with BitmapPreinit_Init_ok [OF assms(1) b(1) sz this] b(1) show ?thesis by blast
qed

lemma PmmInitializeAllocationBitmap_result:
  assumes H: "4096 \<le> unat H" "unat H div 4096 < 2 ^ 32" and mem: "(unat H div 4096 + 7) div 8 \<le> length mem"
    and es: "\<forall>e \<in> set es. usable e \<longrightarrow> fits (unat H div 4096) e"
  shows "\<exists>sz p'. PmmInitializeAllocationBitmap mem H es p = Some (sz, p') \<and> pmm_ok p'
    \<and> pmm_frames p' = unat H div 4096
    \<and> pmm_used p' = {..<unat H div 4096} - (\<Union>e \<in> {e \<in> set es. usable e}. released e)"
proof -
  let ?n = "ucast (H div PAGE_SIZE) :: DWORD"
  have n: "unat ?n = unat H div 4096" using H(2) by (simp add: unat_ucast_down unat_div)
  have n0: "?n \<noteq> 0" using H(1) n by (metis div_greater_zero_iff less_numeral_extra(3) unat_0 zero_less_numeral)
  obtain sz b b' where b: "BitmapPreinit ?n = Some (sz, b)" "BitmapInitEx b mem False = Some b'"
    "bitmap_ok b'" "BitCount b' = ?n" "\<forall>k < unat ?n. \<not> bm_bit b' k"
    using BitmapPreinit_Init_returns [OF n0, of mem False] mem n by auto
  let ?p = "p\<lparr>AllocationBitmap := b'\<rparr>"
  have ok: "pmm_ok ?p" "pmm_used ?p = {}" "pmm_frames ?p = unat H div 4096"
    using b n by (auto simp: pmm_defs bm_used_def)
  with PmmReserve_all [of ?p] b(4) n0 obtain a p1 where p1: "PmmReserveMemory ?p ?n = Some (a, p1)"
    "pmm_ok p1" "pmm_frames p1 = unat H div 4096" "pmm_used p1 = {..<unat H div 4096}" by auto
  with PmmReleaseUsable_loop_result [of p1 es] es obtain p2 where p2: "PmmReleaseUsable_loop es p1 = Some p2"
    "pmm_ok p2" "pmm_frames p2 = unat H div 4096"
    "pmm_used p2 = {..<unat H div 4096} - (\<Union>e \<in> {e \<in> set es. usable e}. released e)" by auto
  have "H \<noteq> 0" using H(1) by auto
  moreover have "H div PAGE_SIZE \<le> ucast MAX_DWORD" using H(2) by (simp add: le_MAX_DWORD unat_div)
  ultimately have "PmmInitializeAllocationBitmap mem H es p = Some (sz, p2)"
    using b p1(1) p2(1) by (simp add: PmmInitializeAllocationBitmap_def BitmapGetMaxElementCount_def Let_def)
  with p2 show ?thesis by blast
qed


lemma PmmReserveMemoryEx_keeps:
  "PmmReserveMemoryEx p n lo = Some (a, p') \<Longrightarrow> \<exists>b. p' = p\<lparr>AllocationBitmap := b\<rparr>"
  by (auto simp: PmmReserveMemoryEx_def Let_def split: if_splits bind_splits intro: exI [of _ "AllocationBitmap p"])

lemma PmmReleaseUsable_loop_keeps:
  "PmmReleaseUsable_loop es p = Some p' \<Longrightarrow> \<exists>b. p' = p\<lparr>AllocationBitmap := b\<rparr>"
proof (induction es arbitrary: p)
  case (Cons e es)
  then consider "PmmReleaseUsable_loop es p = Some p'"
    | b where "PmmReleaseUsable_loop es (p\<lparr>AllocationBitmap := b\<rparr>) = Some p'"
    by (auto simp: PmmReleaseMemory_def Let_def split: if_splits bind_splits)
  then show ?case
  proof cases
    case 1
    then show ?thesis by (rule Cons.IH)
  next
    case (2 b)
    then show ?thesis using Cons.IH [OF 2] by auto
  qed
qed (auto intro: exI [of _ "AllocationBitmap p'"])

lemma PmmInitializeAllocationBitmap_keeps:
  assumes "PmmInitializeAllocationBitmap mem H es p = Some (sz, p')"
  shows "PhysicalMemorySize p' = PhysicalMemorySize p
      \<and> HighestPhysicalAddressPresent p' = HighestPhysicalAddressPresent p"
  using assms PmmReserveMemoryEx_keeps PmmReleaseUsable_loop_keeps
  by (fastforce simp: PmmInitializeAllocationBitmap_def Let_def split: bind_splits)

definition usable_ram :: "INT15_MEMORY_MAP_ENTRY \<Rightarrow> bool" where
  "usable_ram e \<longleftrightarrow> entry_valid e \<and> Type e = MemoryMapTypeUsableRAM"

lemma PmmLimits_step_result:
  assumes "entry_valid e \<longrightarrow> unat (Type e) < length (MemoryRegions l)"
  shows "\<exists>l'. PmmLimits_step e l = Some l' \<and> length (MemoryRegions l') = length (MemoryRegions l)
    \<and> highestMemoryAddressPresent l' = max (entry_end e) (highestMemoryAddressPresent l)
    \<and> highestMemoryAddressAvailable l' =
        (if usable_ram e then max (entry_end e) (highestMemoryAddressAvailable l)
         else highestMemoryAddressAvailable l)
    \<and> sizeOfAvailableMemory l' = sizeOfAvailableMemory l + (if usable_ram e then Length e else 0)"
  using assms by (auto simp: PmmLimits_step_def usable_ram_def Let_def max_def)

lemma PmmLimits_loop_result:
  "\<forall>e \<in> set es. entry_valid e \<longrightarrow> unat (Type e) < length (MemoryRegions l) \<Longrightarrow>
   \<exists>l'. PmmLimits_loop es l = Some l'
    \<and> highestMemoryAddressPresent l' = fold max (map entry_end es) (highestMemoryAddressPresent l)
    \<and> highestMemoryAddressAvailable l' =
        fold max (map entry_end (filter usable_ram es)) (highestMemoryAddressAvailable l)
    \<and> sizeOfAvailableMemory l' = sizeOfAvailableMemory l + sum_list (map Length (filter usable_ram es))"
proof (induction es arbitrary: l)
  case (Cons e es)
  then have "entry_valid e \<longrightarrow> unat (Type e) < length (MemoryRegions l)" by simp
  from PmmLimits_step_result [OF this] obtain l1 where l1: "PmmLimits_step e l = Some l1"
    "length (MemoryRegions l1) = length (MemoryRegions l)"
    "highestMemoryAddressPresent l1 = max (entry_end e) (highestMemoryAddressPresent l)"
    "highestMemoryAddressAvailable l1 =
        (if usable_ram e then max (entry_end e) (highestMemoryAddressAvailable l)
         else highestMemoryAddressAvailable l)"
    "sizeOfAvailableMemory l1 = sizeOfAvailableMemory l + (if usable_ram e then Length e else 0)"
    by blast
  show ?case using Cons.IH [of l1] Cons.prems l1 by (auto simp: add.assoc)
qed auto

definition map_end :: "INT15_MEMORY_MAP_ENTRY list \<Rightarrow> QWORD" where
  "map_end es = Max (entry_end ` set es)"

lemma fold_max_map_end: "es \<noteq> [] \<Longrightarrow> fold max (map entry_end es) 0 = map_end es"
proof -
  assume "es \<noteq> []"
  then have "Max (set (0 # map entry_end es)) = map_end es"
    by (simp add: map_end_def)
  then show ?thesis by (simp only: Max.set_eq_fold)
qed

lemma entry_end_le_map_end: "e \<in> set es \<Longrightarrow> entry_end e \<le> map_end es"
  by (simp add: map_end_def)

text \<open>A memory map the code can work with: some RAM, a top frame number of 32 bits, known types.\<close>

definition map_ok :: "BYTE list \<Rightarrow> INT15_MEMORY_MAP_ENTRY list \<Rightarrow> bool" where
  "map_ok mem es \<longleftrightarrow> es \<noteq> [] \<and> 4096 \<le> unat (map_end es) \<and> unat (map_end es) div 4096 < 2 ^ 32
     \<and> (unat (map_end es) div 4096 + 7) div 8 \<le> length mem
     \<and> (\<forall>e \<in> set es. entry_valid e \<longrightarrow> unat (Type e) < 6)"

lemma PmmInitSystem_result:
  assumes ok: "map_ok mem es" and ptrs: "base \<noteq> NULL" "psz \<noteq> NULL"
    and fits: "\<forall>e \<in> set es. usable e \<longrightarrow> fits (unat (map_end es) div 4096) e"
  shows "\<exists>sz p. PmmInitSystem base mem (Some es) psz PmmPreinitSystem = Some (STATUS_SUCCESS, sz, p)
    \<and> pmm_ok p \<and> pmm_frames p = unat (map_end es) div 4096
    \<and> PmmGetHighestPhysicalMemoryAddressPresent p = map_end es
    \<and> PmmGetTotalSystemMemory p = sum_list (map Length (filter usable_ram es))
    \<and> pmm_used p = {..<unat (map_end es) div 4096} - (\<Union>e \<in> {e \<in> set es. usable e}. released e)"
proof -
  let ?r = "MemoryRegionList PmmPreinitSystem"
  have ne: "es \<noteq> []" using ok by (simp add: map_ok_def)
  have "length ?r = 6" by (simp add: PmmPreinitSystem_def MemoryMapTypeMax_def)
  then obtain l where l: "PmmDetermineMemoryLimits es ?r = Some l"
    "highestMemoryAddressPresent l = map_end es"
    "sizeOfAvailableMemory l = sum_list (map Length (filter usable_ram es))"
    using PmmLimits_loop_result [of es "\<lparr>sizeOfAvailableMemory = 0, highestMemoryAddressPresent = 0,
       highestMemoryAddressAvailable = 0, MemoryRegions = ?r\<rparr>"] ok fold_max_map_end [OF ne]
    by (auto simp: PmmDetermineMemoryLimits_def map_ok_def)
  let ?p = "PmmPreinitSystem\<lparr>PhysicalMemorySize := sizeOfAvailableMemory l,
                      HighestPhysicalAddressPresent := highestMemoryAddressPresent l,
                      HighestPhysicalAddressAvailable := highestMemoryAddressAvailable l,
                      MemoryRegionList := MemoryRegions l\<rparr>"
  from ok have m: "4096 \<le> unat (map_end es)" "unat (map_end es) div 4096 < 2 ^ 32"
    "(unat (map_end es) div 4096 + 7) div 8 \<le> length mem" by (simp_all add: map_ok_def)
  obtain sz p' where p': "PmmInitializeAllocationBitmap mem (map_end es) es ?p = Some (sz, p')"
    "pmm_ok p'" "pmm_frames p' = unat (map_end es) div 4096"
    "pmm_used p' = {..<unat (map_end es) div 4096} - (\<Union>e \<in> {e \<in> set es. usable e}. released e)"
    using PmmInitializeAllocationBitmap_result [OF m fits, of ?p] by blast
  have "PhysicalMemorySize p' = PhysicalMemorySize ?p
      \<and> HighestPhysicalAddressPresent p' = HighestPhysicalAddressPresent ?p"
    using PmmInitializeAllocationBitmap_keeps [OF p'(1)] .
  with l p' ptrs ne show ?thesis
    by (simp add: PmmInitSystem_def PmmGetHighestPhysicalMemoryAddressPresent_def
        PmmGetTotalSystemMemory_def)
qed


text \<open>For a page-aligned entry the released frames are those that lie inside it.\<close>

lemma round_up_multiple:
  fixes x :: nat
  assumes "x mod 4096 = 0"
  shows "x + 4095 - (x + 4095) mod 4096 = x"
proof -
  obtain q where "x = 4096 * q" using assms by auto
  then show ?thesis by simp
qed

lemma round_up_other:
  fixes x :: nat
  assumes "x mod 4096 \<noteq> 0"
  shows "(x + 4095 - (x + 4095) mod 4096) div 4096 = x div 4096 + 1"
proof -
  obtain r where r: "x mod 4096 = Suc r" using assms by (cases "x mod 4096") auto
  define q where "q = x div 4096"
  have "x = 4096 * q + Suc r" unfolding q_def r [symmetric] by simp
  moreover have "Suc r < 4096" unfolding r [symmetric] by simp
  ultimately have x: "x = 4096 * q + Suc r" "r < 4095" by simp_all
  then have "x + 4095 = 4096 * (q + 1) + r" by simp
  moreover have "x div 4096 = q" using x by simp
  ultimately show ?thesis using x(2) by simp
qed

lemma AlignUpper_aligned: "unat a mod 4096 = 0 \<Longrightarrow> AlignAddressUpper a PAGE_SIZE = a"
proof -
  assume al: "unat a mod 4096 = 0"
  have "unat (a + 0xFFF) = unat a + 0xFFF"
  proof -
    have "unat a + 4096 \<le> 2 ^ 64"
      using al unat64_bound [of a] by auto
    then show ?thesis by (simp add: unat_word_ariths)
  qed
  moreover have "AlignAddressUpper a PAGE_SIZE = AlignAddressLower (a + 0xFFF) PAGE_SIZE"
    by (simp add: AlignAddressUpper_def PAGE_SIZE_def add.commute)
  ultimately have "unat (AlignAddressUpper a PAGE_SIZE) = unat a"
    using AlignAddressLower_unat [OF PAGE_SIZE_pow, of "a + 0xFFF"] round_up_multiple [OF al] by simp
  then show ?thesis by (simp add: word_unat_eq_iff)
qed

lemma AlignUpper_unaligned:
  assumes "unat a mod 4096 \<noteq> 0" "unat a + 4096 < 2 ^ 64"
  shows "unat (AlignAddressUpper a PAGE_SIZE) div 4096 = unat a div 4096 + 1"
proof -
  have "unat (a + 0xFFF) = unat a + 0xFFF"
    using assms(2) by (simp add: unat_word_ariths)
  moreover have "AlignAddressUpper a PAGE_SIZE = AlignAddressLower (a + 0xFFF) PAGE_SIZE"
    by (simp add: AlignAddressUpper_def PAGE_SIZE_def add.commute)
  ultimately have "unat (AlignAddressUpper a PAGE_SIZE) = unat a + 4095 - (unat a + 4095) mod 4096"
    using AlignAddressLower_unat [OF PAGE_SIZE_pow, of "a + 0xFFF"] by simp
  with round_up_other [OF assms(1)] show ?thesis by simp
qed

lemma released_aligned:
  assumes "unat (BaseAddress e) mod 4096 = 0"
  shows "f \<in> released e \<longleftrightarrow>
    unat (BaseAddress e) \<le> 4096 * f \<and> 4096 * f + 4096 \<le> unat (BaseAddress e) + unat (Length e)"
proof -
  obtain b where b: "unat (BaseAddress e) = 4096 * b" using assms by auto
  then show ?thesis
    using AlignUpper_aligned [OF assms] by (auto simp: released_def less_eq_div_iff_mult_less_eq Suc_le_eq)
qed

lemma fits_aligned:
  assumes "unat (BaseAddress e) mod 4096 = 0" "4096 \<le> unat (Length e)"
    "unat (BaseAddress e) + unat (Length e) < 2 ^ 64" "entry_end e \<le> H"
  shows "fits (unat H div 4096) e"
proof -
  obtain b where b: "unat (BaseAddress e) = 4096 * b" using assms by auto
  have "unat (entry_end e) = 4096 * b + unat (Length e)"
    using assms(3) b by (simp add: entry_end_def unat_word_ariths)
  then have "4096 * b + unat (Length e) \<le> unat H"
    using assms(4) by (simp add: word_le_nat_alt)
  then have "b + unat (Length e) div 4096 \<le> unat H div 4096"
    by (metis div_le_mono div_mult_self4 zero_neq_numeral)
  moreover have "0 < unat (Length e) div 4096" using assms(2) by (simp add: div_greater_zero_iff)
  ultimately show ?thesis
    using AlignUpper_aligned [OF assms(1)] b by (simp add: fits_def)
qed


section \<open>Process identifiers in use\<close>

definition pids_ok :: "BITMAP \<Rightarrow> bool" where
  "pids_ok b \<longleftrightarrow> bitmap_ok b \<and> BitCount b = PCID_TOTAL_NO_OF_VALUES \<and> 0 \<in> bm_used b"

lemma unat_PCID_TOTAL: "unat PCID_TOTAL_NO_OF_VALUES = 4096"
  by (simp add: PCID_TOTAL_NO_OF_VALUES_def)

lemma PCID_IS_VALID_unat: "PCID_IS_VALID x \<longleftrightarrow> 1 \<le> unat x \<and> unat x < 4096"
  by (simp add: PCID_IS_VALID_def word_le_nat_alt word_less_nat_alt unat_PCID_TOTAL)

lemma RetrieveNextPid_result:
  assumes ok: "pids_ok b" and room: "\<exists>k < 4096. k \<notin> bm_used b"
  shows "\<exists>pid b'. ProcessSystemRetrieveNextPid b = Some (pid, b') \<and> pids_ok b' \<and> PCID_IS_VALID pid
    \<and> unat pid \<notin> bm_used b \<and> bm_used b' = insert (unat pid) (bm_used b)"
proof -
  have bok: "bitmap_ok b" and n: "unat (BitCount b) = 4096" and z: "0 \<in> bm_used b"
    using ok by (auto simp: pids_ok_def unat_PCID_TOTAL)
  obtain k where "k < 4096" "k \<notin> bm_used b" using room by auto
  with n obtain i b' where i: "BitmapScanFromAndFlip b 0 1 False = Some (i, b')" "i \<noteq> MAX_DWORD"
    using bm.reserve_complete [OF bok, of 1 0 k] by auto
  have su: "unat i + 1 \<le> 4096" "{unat i..<unat i + 1} \<inter> bm_used b = {}"
    "bm_used b' = bm_used b \<union> {unat i..<unat i + 1}"
    using bm.reserve_success [OF bok _ i] n by auto
  have fr: "bitmap_ok b' \<and> unat (BitCount b') = unat (BitCount b)" using bm.reserve_frame [OF bok _ i(1)] by simp
  have "unat i \<notin> bm_used b" using su(2) by auto
  with z have "unat i \<noteq> 0" by metis
  with su(1) have v: "PCID_IS_VALID (ucast i)" by (simp add: PCID_IS_VALID_unat)
  have "ProcessSystemRetrieveNextPid b = Some (ucast i, b')"
    using i(1) v by (simp add: ProcessSystemRetrieveNextPid_def BitmapScanAndFlip_def BitmapScanFromAndFlip_def)
  moreover have "bm_used b' = insert (unat i) (bm_used b)" using su(3) by auto
  moreover have "pids_ok b'"
    using fr n z \<open>bm_used b' = insert (unat i) (bm_used b)\<close> unat_PCID_TOTAL
    by (auto simp: pids_ok_def word_unat_eq_iff)
  ultimately show ?thesis using v \<open>unat i \<notin> bm_used b\<close> by auto
qed

lemma BitmapSetBitValue_result:
  assumes "bitmap_ok b" "i < BitCount b"
  shows "\<exists>b'. BitmapSetBitValue b i v = Some b' \<and> bitmap_ok b' \<and> BitCount b' = BitCount b
    \<and> bm_used b' = (if v then insert (unat i) (bm_used b) else bm_used b - {unat i})"
proof -
  obtain buf where buf: "BitmapBuffer b = Some buf" "unat (BitCount b) \<le> 8 * length buf"
    using assms(1) by (rule bitmap_okE)
  moreover have i: "unat i < unat (BitCount b)" using assms(2) by (simp add: word_less_nat_alt)
  ultimately obtain buf' where b': "BitmapChangeBit (Some buf) i v = Some (Some buf')" "length buf' = length buf"
    "\<forall>k < 8 * length buf. bits_of buf' k = (if k = unat i then v else bits_of buf k)"
    using BitmapChangeBit_result [of i buf v] by auto
  let ?b = "b\<lparr>BitmapBuffer := Some buf'\<rparr>"
  have bit: "bm_bit ?b k = (if k = unat i then v else bm_bit b k)" if "k < unat (BitCount b)" for k
    using that b'(3) buf by (simp add: bm_bit_def)
  have "bm_used ?b = (if v then insert (unat i) (bm_used b) else bm_used b - {unat i})"
    using bit i by (cases v) (auto simp: bm_used_def split: if_split_asm)
  moreover have "bitmap_ok ?b" using buf b'(2) by (simp add: bitmap_ok_def)
  ultimately show ?thesis
    using assms(2) buf b'(1) by (simp add: BitmapSetBitValue_def)
qed

lemma BitmapGetBitValue_result:
  assumes "bitmap_ok b" "i < BitCount b"
  shows "BitmapGetBitValue b i = Some (unat i \<in> bm_used b)"
proof -
  obtain buf where buf: "BitmapBuffer b = Some buf" "unat (BitCount b) \<le> 8 * length buf" "bm_bit b = bits_of buf"
    using assms(1) by (rule bitmap_okE)
  have "unat i < unat (BitCount b)" using assms(2) by (simp add: word_less_nat_alt)
  with buf assms(2) show ?thesis
    using BitmapGetBit_result [of i buf] by (simp add: BitmapGetBitValue_def bm_used_def)
qed

lemma FreePid_result:
  assumes ok: "pids_ok b" and pid: "PCID_IS_VALID pid" "unat pid \<in> bm_used b"
  shows "\<exists>b'. ProcessSystemFreePid b pid = Some b' \<and> pids_ok b' \<and> bm_used b' = bm_used b - {unat pid}"
proof -
  have bok: "bitmap_ok b" and n: "BitCount b = PCID_TOTAL_NO_OF_VALUES" and z: "0 \<in> bm_used b"
    using ok by (auto simp: pids_ok_def)
  have p: "unat (ucast pid :: DWORD) = unat pid" "1 \<le> unat pid" "unat pid < 4096"
    using pid(1) by (auto simp: PCID_IS_VALID_unat unat_ucast_mod)
  then have lt: "(ucast pid :: DWORD) < BitCount b" by (simp add: n word_less_nat_alt unat_PCID_TOTAL)
  obtain b' where b': "BitmapSetBitValue b (ucast pid) False = Some b'" "bitmap_ok b'"
    "BitCount b' = BitCount b" "bm_used b' = bm_used b - {unat pid}"
    using BitmapSetBitValue_result [OF bok lt, of False] p(1) by auto
  moreover have "pids_ok b'" using b' n z p(2) by (auto simp: pids_ok_def)
  ultimately show ?thesis
    using pid BitmapGetBitValue_result [OF bok lt] p(1) by (simp add: ProcessSystemFreePid_def)
qed

lemma PidBitmapInit_result: "\<exists>b. PidBitmapInit = Some b \<and> pids_ok b \<and> bm_used b = {0}"
proof -
  let ?N = PCID_TOTAL_NO_OF_VALUES let ?m = "replicate (unat ?N div 8) (0::BYTE)"
  have N: "?N \<noteq> 0" by (simp add: PCID_TOTAL_NO_OF_VALUES_def)
  obtain sz b b' where b: "BitmapPreinit ?N = Some (sz, b)" "BitmapInitEx b ?m False = Some b'" "bitmap_ok b'"
    "BitCount b' = ?N" "\<forall>k < unat ?N. bm_bit b' k = False"
    using BitmapPreinit_Init_returns [OF N, of ?m False] by (auto simp: unat_PCID_TOTAL)
  have sz: "unat sz = 512" using BitmapPreinit_size [OF N b(1)] by (simp add: unat_PCID_TOTAL)
  have u: "bm_used b' = {}" using b(4,5) by (auto simp: bm_used_def)
  have "(0::DWORD) < BitCount b'" using b(4) N by (simp add: word_neq_0_conv)
  from BitmapSetBitValue_result [OF b(3) this, of True] obtain b2 where
    "BitmapSetBitValue b' 0 True = Some b2" "bitmap_ok b2" "BitCount b2 = BitCount b'" "bm_used b2 = {0}"
    using u by auto
  with b sz show ?thesis
    by (simp add: PidBitmapInit_def pids_ok_def unat_PCID_TOTAL)
qed

text \<open>Identifiers handed out and given back by any number of processes.\<close>

inductive pid_reach :: "BITMAP \<Rightarrow> QWORD set \<Rightarrow> bool" where
  boot: "PidBitmapInit = Some b \<Longrightarrow> pid_reach b {}"
| create: "pid_reach b live \<Longrightarrow> ProcessSystemRetrieveNextPid b = Some (pid, b') \<Longrightarrow> pid_reach b' (insert pid live)"
| destroy: "pid_reach b live \<Longrightarrow> pid \<in> live \<Longrightarrow> ProcessSystemFreePid b pid = Some b'
    \<Longrightarrow> pid_reach b' (live - {pid})"


lemma RetrieveNextPid_full:
  assumes ok: "pids_ok b" and full: "\<forall>k < 4096. k \<in> bm_used b"
  shows "ProcessSystemRetrieveNextPid b = None"
proof -
  have bok: "bitmap_ok b" and n: "unat (BitCount b) = 4096"
    using ok by (auto simp: pids_ok_def unat_PCID_TOTAL)
  obtain i b' where i: "BitmapScanFromAndFlip b 0 1 False = Some (i, b')"
    using bm.reserve_returns [OF bok, of 1 0] by auto
  have "i = MAX_DWORD"
  proof (rule ccontr)
    assume "i \<noteq> MAX_DWORD"
    with bm.reserve_success [OF bok _ i] n have "unat i < 4096" "unat i \<notin> bm_used b" by auto
    with full show False by blast
  qed
  with i show ?thesis
    by (simp add: ProcessSystemRetrieveNextPid_def BitmapScanAndFlip_def BitmapScanFromAndFlip_def
        PCID_IS_VALID_unat)
qed

definition pid_inv :: "BITMAP \<Rightarrow> QWORD set \<Rightarrow> bool" where
  "pid_inv b live \<longleftrightarrow> pids_ok b \<and> bm_used b = insert 0 (unat ` live) \<and> (\<forall>pid \<in> live. PCID_IS_VALID pid)"

lemma pid_reach_inv: "pid_reach b live \<Longrightarrow> pid_inv b live"
proof (induction rule: pid_reach.induct)
  case (boot b)
  moreover obtain b0 where "PidBitmapInit = Some b0" "pids_ok b0" "bm_used b0 = {0}"
    using PidBitmapInit_result by blast
  ultimately have "b0 = b" "pids_ok b0" "bm_used b0 = {0}" by (metis option.inject, blast+)
  then show ?case by (simp add: pid_inv_def)
next
  case (create b live pid b')
  then have ok: "pids_ok b" by (simp add: pid_inv_def)
  have "\<exists>k < 4096. k \<notin> bm_used b" using RetrieveNextPid_full [OF ok] create.hyps(2) by auto
  with RetrieveNextPid_result [OF ok] create show ?case by (auto simp: pid_inv_def)
next
  case (destroy b live pid b')
  then have "pids_ok b" "PCID_IS_VALID pid" "unat pid \<in> bm_used b" "unat pid \<noteq> 0"
    by (auto simp: pid_inv_def PCID_IS_VALID_unat)
  with FreePid_result [of b pid] destroy have b': "pids_ok b'" "bm_used b' = bm_used b - {unat pid}" by auto
  moreover have "unat ` live - {unat pid} = unat ` (live - {pid})"
    by (auto simp: word_unat_eq_iff)
  ultimately show ?case using destroy.IH \<open>unat pid \<noteq> 0\<close> by (auto simp: pid_inv_def)
qed

lemma pid_room:
  assumes "pid_inv b live" "card live < 4095"
  shows "\<exists>k < 4096. k \<notin> bm_used b"
proof (rule ccontr)
  assume "\<not> (\<exists>k < 4096. k \<notin> bm_used b)"
  then have "{..<4096} \<subseteq> insert 0 (unat ` live)" using assms(1) by (auto simp: pid_inv_def)
  moreover have "finite live" by simp
  ultimately have "4096 \<le> card (insert 0 (unat ` live))"
    using card_mono [of "insert 0 (unat ` live)" "{..<4096}"] by simp
  also have "\<dots> \<le> Suc (card live)"
    using card_image_le [of live unat] by (simp add: card_insert_if)
  finally show False using assms(2) by simp
qed

lemma pid_all_used:
  assumes inv: "pid_inv b live" and card: "card live = 4095"
  shows "\<forall>k < 4096. k \<in> bm_used b"
proof -
  have used: "bm_used b = insert 0 (unat ` live)" and valid: "\<forall>pid \<in> live. PCID_IS_VALID pid"
    using inv by (auto simp: pid_inv_def)
  have "inj_on unat live" by (auto simp: inj_on_def word_unat_eq_iff)
  then have "card (unat ` live) = 4095" using card by (simp add: card_image)
  moreover have "unat ` live \<subseteq> {1..<4096}" using valid by (auto simp: PCID_IS_VALID_unat)
  ultimately have "unat ` live = {1..<4096}" by (intro card_subset_eq) auto
  then show ?thesis using used by auto
qed

section \<open>Properties\<close>

text \<open>
  C24. Whatever clients reserve and release, the blocks they own are non-empty, page aligned,
  inside the physical memory, disjoint from each other and from the memory that was never free;
  the bitmap marks exactly those frames; every reservation returns, and the release of an owned
  block never trips an assertion.
\<close>

theorem pmm_blocks_exclusive:
  assumes "pmm_reach p0 p own" and "pmm_ok p0" and "0 \<in> pmm_used p0"
  shows "(\<forall>a n. (a, n) \<in> own \<longrightarrow> n \<noteq> 0 \<and> IsAddressAligned a PAGE_SIZE \<and> block a n \<subseteq> {..<pmm_frames p}
            \<and> block a n \<inter> pmm_used p0 = {})
    \<and> (\<forall>a n b m. (a, n) \<in> own \<and> (b, m) \<in> own \<and> (a, n) \<noteq> (b, m) \<longrightarrow> block a n \<inter> block b m = {})
    \<and> pmm_used p = pmm_used p0 \<union> (\<Union>(a, n) \<in> own. block a n)
    \<and> (\<forall>n lo. PmmReserveMemoryEx p n lo \<noteq> None)
    \<and> (\<forall>a n. (a, n) \<in> own \<longrightarrow> PmmReleaseMemory p a n \<noteq> None)"
proof -
  have inv: "pmm_inv p0 p own" using pmm_reach_inv [OF assms] .
  then have ok: "pmm_ok p" "0 \<in> pmm_used p" using assms(3) by (auto simp: pmm_inv_def)
  have "PmmReserveMemoryEx p n lo \<noteq> None" for n lo
    using PmmReserveMemoryEx_result [OF ok, of n lo] by auto
  moreover have "PmmReleaseMemory p a n \<noteq> None" if "(a, n) \<in> own" for a n
    using pmm_inv_release [OF inv that] by auto
  moreover have "blocks_disjoint own" using inv by (simp add: pmm_inv_def)
  ultimately show ?thesis
    using inv by (simp add: pmm_inv_def blocks_disjoint_def)
qed

definition sample_pmm :: PMM_DATA where
  "sample_pmm = PmmPreinitSystem\<lparr>AllocationBitmap :=
     \<lparr>BitmapBuffer = Some [0x07, 0x00], BufferSize = 2, BitCount = 16\<rparr>\<rparr>"

lemma sample_pmm_ok: "pmm_ok sample_pmm" "0 \<in> pmm_used sample_pmm"
  by (simp_all add: pmm_defs sample_pmm_def bitmap_ok_def bm_used_def bm_bit_def bits_of_def)

theorem pmm_blocks_exclusive_witness:
  "\<exists>a p. PmmReserveMemoryEx sample_pmm 2 0x4000 = Some (a, p) \<and> pmm_ok sample_pmm \<and> 0 \<in> pmm_used sample_pmm
     \<and> pmm_reach sample_pmm p (if a = NULL then {} else {(a, 2)})
     \<and> (a \<noteq> NULL \<longrightarrow> block a 2 \<inter> pmm_used sample_pmm = {} \<and> PmmReleaseMemory p a 2 \<noteq> None)"
proof -
  obtain a p where r: "PmmReserveMemoryEx sample_pmm 2 0x4000 = Some (a, p)"
    using pmm_blocks_exclusive [OF pmm_reach.start sample_pmm_ok]
    by (metis not_None_eq surj_pair)
  then have reach: "pmm_reach sample_pmm p (if a = NULL then {} else {(a, 2)})"
    using pmm_reach.reserve [OF pmm_reach.start r] pmm_reach.reserve_none [OF pmm_reach.start, of sample_pmm 2 "0x4000" p]
    by auto
  show ?thesis
    using pmm_blocks_exclusive [OF reach sample_pmm_ok] r reach sample_pmm_ok by auto
qed

text \<open>
  A reservation returns \<^verbatim>\<open>NULL\<close> for a legal request only when no run of that many free
  frames exists at or above the wanted address, and it leaves the bitmap as it was.
\<close>

theorem pmm_reserve_complete:
  assumes "pmm_ok p" and "0 \<in> pmm_used p" and "n \<noteq> 0" and "IsAddressAligned lo PAGE_SIZE"
  shows "\<exists>a p'. PmmReserveMemoryEx p n lo = Some (a, p')
    \<and> (a = NULL \<longleftrightarrow> \<not> (\<exists>f. unat lo \<le> f * 4096 \<and> f + unat n \<le> pmm_frames p
          \<and> {f..<f + unat n} \<inter> pmm_used p = {}))
    \<and> (a = NULL \<longrightarrow> pmm_used p' = pmm_used p)"
proof -
  obtain a p' where r: "PmmReserveMemoryEx p n lo = Some (a, p')"
    "a = NULL \<longrightarrow> pmm_used p' = pmm_used p"
    "a \<noteq> NULL \<longrightarrow> IsAddressAligned a PAGE_SIZE \<and> lo \<le> a \<and> block a n \<subseteq> {..<pmm_frames p} \<and> block a n \<inter> pmm_used p = {}"
    "a = NULL \<longrightarrow> (\<forall>f. unat lo \<le> f * 4096 \<and> f + unat n \<le> pmm_frames p \<longrightarrow> {f..<f + unat n} \<inter> pmm_used p \<noteq> {})"
    using PmmReserveMemoryEx_result [OF assms(1,2), of n lo] assms(3,4) by auto
  have "\<exists>f. unat lo \<le> f * 4096 \<and> f + unat n \<le> pmm_frames p \<and> {f..<f + unat n} \<inter> pmm_used p = {}" if "a \<noteq> NULL"
  proof (intro exI conjI)
    let ?f = "unat a div 4096"
    show "unat lo \<le> ?f * 4096" using r(3) that by (auto simp: IsPageAligned word_le_nat_alt)
    show "{?f..<?f + unat n} \<inter> pmm_used p = {}" using r(3) that by (simp add: block_def)
    have "0 < unat n" using assms(3) by (simp add: unat_gt_0)
    then have "?f + unat n - 1 \<in> block a n" by (auto simp: block_def)
    with r(3) that have "?f + unat n - 1 < pmm_frames p" by auto
    then show "?f + unat n \<le> pmm_frames p" using \<open>0 < unat n\<close> by simp
  qed
  with r show ?thesis by blast
qed

theorem pmm_reserve_complete_witness:
  "\<exists>a p'. PmmReserveMemoryEx sample_pmm 13 0x3000 = Some (a, p')
    \<and> (a = NULL \<longleftrightarrow> \<not> (\<exists>f. 0x3000 \<le> f * 4096 \<and> f + 13 \<le> pmm_frames sample_pmm
          \<and> {f..<f + 13} \<inter> pmm_used sample_pmm = {}))"
  using pmm_reserve_complete [OF sample_pmm_ok, of 13 "0x3000"] by (auto simp: IsPageAligned)


text \<open>
  C25. Booting on a memory map whose usable regions above 1 MB are page aligned, at least a page
  long and do not wrap around succeeds, and afterwards the free frames are exactly those that lie
  entirely inside such a region: reserved, invalid, non-existent and low memory stays taken.
\<close>

theorem pmm_init_free_frames:
  assumes "map_ok mem es" and "base \<noteq> NULL" and "psz \<noteq> NULL"
    and "\<forall>e \<in> set es. usable e \<longrightarrow> unat (BaseAddress e) mod 4096 = 0 \<and> 4096 \<le> unat (Length e)
           \<and> unat (BaseAddress e) + unat (Length e) < 2 ^ 64"
  shows "\<exists>sz p. PmmInitSystem base mem (Some es) psz PmmPreinitSystem = Some (STATUS_SUCCESS, sz, p)
    \<and> pmm_ok p \<and> 0 \<in> pmm_used p \<and> pmm_frames p = unat (map_end es) div 4096
    \<and> PmmGetHighestPhysicalMemoryAddressPresent p = map_end es
    \<and> PmmGetTotalSystemMemory p = sum_list (map Length (filter usable_ram es))
    \<and> (\<forall>f < pmm_frames p. f \<notin> pmm_used p \<longleftrightarrow> (\<exists>e \<in> set es. usable e
          \<and> unat (BaseAddress e) \<le> 4096 * f
          \<and> 4096 * f + 4096 \<le> unat (BaseAddress e) + unat (Length e)))"
proof -
  have "\<forall>e \<in> set es. usable e \<longrightarrow> fits (unat (map_end es) div 4096) e"
    using assms(4) by (simp add: fits_aligned entry_end_le_map_end)
  from PmmInitSystem_result [OF assms(1-3) this] obtain sz p where
    p: "PmmInitSystem base mem (Some es) psz PmmPreinitSystem = Some (STATUS_SUCCESS, sz, p)"
    "pmm_ok p" "pmm_frames p = unat (map_end es) div 4096"
    "PmmGetHighestPhysicalMemoryAddressPresent p = map_end es"
    "PmmGetTotalSystemMemory p = sum_list (map Length (filter usable_ram es))"
    "pmm_used p = {..<unat (map_end es) div 4096} - (\<Union>e \<in> {e \<in> set es. usable e}. released e)"
    by blast
  have free: "f \<notin> pmm_used p \<longleftrightarrow> (\<exists>e \<in> set es. usable e \<and> unat (BaseAddress e) \<le> 4096 * f
      \<and> 4096 * f + 4096 \<le> unat (BaseAddress e) + unat (Length e))" if "f < pmm_frames p" for f
    using that p(3,6) released_aligned assms(4) by auto
  have "0 < pmm_frames p" using assms(1) p(3) by (simp add: map_ok_def div_greater_zero_iff)
  moreover have "unat (BaseAddress e) \<noteq> 0" if "usable e" for e
    using that by (auto simp: usable_def MB_SIZE_def KB_SIZE_def word_less_nat_alt)
  ultimately have "0 \<in> pmm_used p" using free [of 0] by fastforce
  with p free show ?thesis by blast
qed

definition sample_map :: "INT15_MEMORY_MAP_ENTRY list" where
  "sample_map =
    [\<lparr>BaseAddress = 0, Length = 0x9F000, Type = 1, ExtendedAttributes = 1\<rparr>,
     \<lparr>BaseAddress = 0x9F000, Length = 0x61000, Type = 2, ExtendedAttributes = 1\<rparr>,
     \<lparr>BaseAddress = 0x100000, Length = 0x8000, Type = 1, ExtendedAttributes = 1\<rparr>]"

lemmas entry_predicate_defs = usable_def entry_valid_def IsBooleanFlagOn_def MEMORY_MAP_ENTRY_EA_VALID_ENTRY_def
  MemoryMapTypeUsableRAM_def MB_SIZE_def KB_SIZE_def

lemma sample_map_end: "map_end sample_map = 0x108000"
  by (simp add: map_end_def sample_map_def entry_end_def)

lemma sample_map_ok: "map_ok (replicate 64 0) sample_map"
  unfolding map_ok_def sample_map_end by (simp add: sample_map_def)

theorem pmm_init_free_frames_witness:
  "\<exists>sz p. PmmInitSystem 0x200000 (replicate 64 0) (Some sample_map) 0x7000 PmmPreinitSystem
      = Some (STATUS_SUCCESS, sz, p) \<and> pmm_frames p = 264 \<and> 0x107 \<notin> pmm_used p \<and> 0x9E \<in> pmm_used p"
proof -
  have "\<forall>e \<in> set sample_map. usable e \<longrightarrow> unat (BaseAddress e) mod 4096 = 0 \<and> 4096 \<le> unat (Length e)
           \<and> unat (BaseAddress e) + unat (Length e) < 2 ^ 64"
    by (simp add: sample_map_def)
  from pmm_init_free_frames [OF sample_map_ok _ _ this, of "0x200000" "0x7000"] obtain sz p where
    p: "PmmInitSystem 0x200000 (replicate 64 0) (Some sample_map) 0x7000 PmmPreinitSystem
      = Some (STATUS_SUCCESS, sz, p)" "pmm_frames p = 264"
    "\<forall>f < pmm_frames p. f \<notin> pmm_used p \<longleftrightarrow> (\<exists>e \<in> set sample_map. usable e
          \<and> unat (BaseAddress e) \<le> 4096 * f
          \<and> 4096 * f + 4096 \<le> unat (BaseAddress e) + unat (Length e))"
    unfolding sample_map_end by auto
  have "0x107 \<notin> pmm_used p"
    using p(2) p(3) [rule_format, of "0x107"] by (simp add: sample_map_def entry_predicate_defs)
  moreover have "0x9E \<in> pmm_used p"
    using p(2) p(3) [rule_format, of "0x9E"] by (simp add: sample_map_def entry_predicate_defs)
  ultimately show ?thesis using p by blast
qed

text \<open>
  A usable region that does not start on a page boundary but has a whole number of pages:
  its start is rounded up and its page count is not reduced, so the last frame released ends
  after the region, in memory the map does not describe as usable by this entry.
\<close>

theorem pmm_init_unaligned_region:
  assumes "map_ok mem es" and "base \<noteq> NULL" and "psz \<noteq> NULL"
    and "\<forall>e \<in> set es. usable e \<longrightarrow> fits (unat (map_end es) div 4096) e"
    and "e \<in> set es" and "usable e" and "unat (BaseAddress e) mod 4096 \<noteq> 0"
    and "unat (Length e) mod 4096 = 0" and "Length e \<noteq> 0"
    and "unat (BaseAddress e) + unat (Length e) + 4096 < 2 ^ 64"
  shows "\<exists>sz p f. PmmInitSystem base mem (Some es) psz PmmPreinitSystem = Some (STATUS_SUCCESS, sz, p)
    \<and> f < pmm_frames p \<and> f \<notin> pmm_used p
    \<and> unat (BaseAddress e) + unat (Length e) < 4096 * f + 4096 \<and> unat (BaseAddress e) < 4096 * f"
proof -
  let ?b = "unat (BaseAddress e) div 4096" let ?n = "unat (Length e) div 4096"
  have up: "unat (AlignAddressUpper (BaseAddress e) PAGE_SIZE) div 4096 = ?b + 1"
    using AlignUpper_unaligned [OF assms(7)] assms(10) by simp
  have n: "unat (Length e) = 4096 * ?n" "0 < ?n"
    using assms(8,9) by (auto simp: unat_gt_0 div_greater_zero_iff dvd_imp_le)
  have b: "4096 * ?b < unat (BaseAddress e)" "unat (BaseAddress e) < 4096 * ?b + 4096"
    using assms(7) mod_less_divisor [of 4096 "unat (BaseAddress e)"]
      mult_div_mod_eq [of 4096 "unat (BaseAddress e)"] by linarith+
  let ?f = "?b + ?n"
  have "?f \<in> released e" using up n(2) by (simp add: released_def)
  moreover have "?f < unat (map_end es) div 4096"
    using assms(4-6) up by (auto simp: fits_def)
  moreover have "unat (BaseAddress e) + unat (Length e) < 4096 * ?f + 4096"
    using b(2) n(1) by (simp add: algebra_simps)
  moreover have "unat (BaseAddress e) < 4096 * ?f"
    using b(2) n(2) by (simp add: algebra_simps)
  moreover obtain sz p where
    "PmmInitSystem base mem (Some es) psz PmmPreinitSystem = Some (STATUS_SUCCESS, sz, p)"
    "pmm_frames p = unat (map_end es) div 4096"
    "pmm_used p = {..<unat (map_end es) div 4096} - (\<Union>e \<in> {e \<in> set es. usable e}. released e)"
    using PmmInitSystem_result [OF assms(1-4)] by blast
  ultimately show ?thesis
    using assms(5,6) by (intro exI [of _ sz] exI [of _ p] exI [of _ ?f]) auto
qed


theorem pmm_init_unaligned_region_witness:
  "\<exists>sz p f. PmmInitSystem 0x200000 (replicate 64 0)
       (Some [\<lparr>BaseAddress = 0x100800, Length = 0x2000, Type = 1, ExtendedAttributes = 1\<rparr>,
              \<lparr>BaseAddress = 0x102800, Length = 0x800, Type = 2, ExtendedAttributes = 1\<rparr>])
       0x7000 PmmPreinitSystem = Some (STATUS_SUCCESS, sz, p)
     \<and> f < pmm_frames p \<and> f \<notin> pmm_used p \<and> 0x102800 < 4096 * f + 4096 \<and> 0x100800 < 4096 * f"
  (is "\<exists>sz p f. PmmInitSystem _ _ (Some ?es) _ _ = _ \<and> _")
proof -
  have e: "map_end ?es = 0x103000" by (simp add: map_end_def entry_end_def)
  have ok: "map_ok (replicate 64 0) ?es" unfolding map_ok_def e by simp
  have "unat (AlignAddressUpper 0x100800 PAGE_SIZE) = 0x101000"
    by (simp add: AlignAddressUpper_def AlignAddressLower_def PAGE_SIZE_def)
  then have "\<forall>e \<in> set ?es. usable e \<longrightarrow> fits (unat (map_end ?es) div 4096) e"
    unfolding e by (simp add: entry_predicate_defs fits_def)
  from pmm_init_unaligned_region [OF ok _ _ this, of "0x200000" "0x7000" "hd ?es"] show ?thesis
    by (simp add: entry_predicate_defs)
qed

text \<open>
  C33. Process identifiers: the live ones are distinct valid identifiers, none of them 0; as long
  as fewer than 4095 processes are alive a new process gets an identifier no live process has;
  the identifier of a live process can always be freed, and with all 4095 in use the creation
  stops at the assertion.
\<close>

theorem process_ids_unique:
  assumes "pid_reach b live"
  shows "(\<forall>pid \<in> live. PCID_IS_VALID pid)
    \<and> (card live < 4095 \<longrightarrow> (\<exists>pid b'. ProcessSystemRetrieveNextPid b = Some (pid, b')
          \<and> PCID_IS_VALID pid \<and> pid \<notin> live))
    \<and> (\<forall>pid \<in> live. ProcessSystemFreePid b pid \<noteq> None)
    \<and> (card live = 4095 \<longrightarrow> ProcessSystemRetrieveNextPid b = None)"
proof -
  have inv: "pid_inv b live" using pid_reach_inv [OF assms] .
  then have ok: "pids_ok b" and used: "bm_used b = insert 0 (unat ` live)"
    and valid: "\<forall>pid \<in> live. PCID_IS_VALID pid" by (auto simp: pid_inv_def)
  have "\<exists>pid b'. ProcessSystemRetrieveNextPid b = Some (pid, b') \<and> PCID_IS_VALID pid \<and> pid \<notin> live"
    if "card live < 4095"
    using RetrieveNextPid_result [OF ok pid_room [OF inv that]] used by auto
  moreover have "ProcessSystemFreePid b pid \<noteq> None" if "pid \<in> live" for pid
    using FreePid_result [OF ok, of pid] valid used that by auto
  moreover have "ProcessSystemRetrieveNextPid b = None" if "card live = 4095"
    using RetrieveNextPid_full [OF ok] pid_all_used [OF inv that] by simp
  ultimately show ?thesis using valid by blast
qed

theorem process_ids_unique_witness:
  "\<exists>b pid b'. PidBitmapInit = Some b \<and> ProcessSystemRetrieveNextPid b = Some (pid, b') \<and> PCID_IS_VALID pid"
proof -
  obtain b where b: "PidBitmapInit = Some b" using PidBitmapInit_result by blast
  show ?thesis using process_ids_unique [OF pid_reach.boot [OF b]] b by auto
qed

end
