(* ===== verification/Vm_Reservation_Ops.thy ===== *)
theory Vm_Reservation_Ops
  imports Vm_Reservation
begin

text \<open>
  What the operations of \<^verbatim>\<open>HAL9000/src/vm_reservation_space.c\<close> do: the live reservations as a list, the invariant of a space,
  and the effect of finding, reserving, committing and allocating on them.
\<close>

section \<open>Pages\<close>

lemma PAGE_SIZE_power: "PAGE_SIZE = (2::QWORD) ^ 12"
  by (simp add: PAGE_SIZE_def)

lemma page_size_nat [simp]: "unat PAGE_SIZE = 4096"
  by (simp add: PAGE_SIZE_def)

lemma page_aligned: "IsAddressAligned x PAGE_SIZE \<longleftrightarrow> unat x mod 4096 = 0"
  using IsAddressAligned_unat [OF PAGE_SIZE_power, of x] by simp

lemma page_lower: "unat (AlignAddressLower x PAGE_SIZE) = unat x - unat x mod 4096"
  using AlignAddressLower_unat [OF PAGE_SIZE_power, of x] by simp

definition page_up :: "nat \<Rightarrow> nat" where
  "page_up n = (n + 4095) div 4096 * 4096"

lemma page_up_bounds: "n \<le> page_up n" "page_up n < n + 4096" "page_up n mod 4096 = 0"
  unfolding page_up_def using div_mult_mod_eq [of "n + 4095" 4096] mod_less_divisor [of 4096 "n + 4095"] by simp_all

lemma page_up_unique: "n \<le> k \<Longrightarrow> k < n + 4096 \<Longrightarrow> k mod 4096 = 0 \<Longrightarrow> k = page_up n"
proof -
  assume k: "n \<le> k" "k < n + 4096" "k mod 4096 = 0"
  obtain a b where "k = 4096 * a" "page_up n = 4096 * b" using k(3) page_up_bounds(3) [of n] by (metis mod_0_imp_dvd dvd_def)
  then show ?thesis using k page_up_bounds(1,2) [of n] by simp
qed

lemma page_upper: "unat x + 4096 < 2 ^ 64 \<Longrightarrow> unat (AlignAddressUpper x PAGE_SIZE) = page_up (unat x)"
  using AlignAddressUpper_unat [OF PAGE_SIZE_power, of x] by (intro page_up_unique) simp_all

lemma sdiv_nat: "int n sdiv 4096 = int (n div 4096)"
  by (cases "n = 0") (simp_all add: signed_divide_int_def zdiv_int)

lemma page_index_unat:
  assumes "unat b \<le> unat a" "unat a - unat b < 2 ^ 63"
  shows "unat (page_index a b) = (unat a - unat b) div 4096"
proof -
  obtain m where m: "unat (a - b) = m" "m = unat a - unat b" using unat_sub_above [OF assms(1)] by simp
  then have "sint (a - b) = int m" using sint_small [of "a - b"] assms(2) by simp
  then have p: "page_index a b = of_nat (m div 4096)" by (simp add: page_index_def sdiv_nat)
  have "m div 4096 < 2 ^ 64" using assms(2) m(2) by (intro le_less_trans [OF div_le_dividend]) simp
  then show ?thesis unfolding p m(2) by (simp add: unat_of_nat)
qed

section \<open>The live reservations\<close>

definition live_of :: "VMM_RESERVATION list \<Rightarrow> VMM_RESERVATION list" where
  "live_of L = filter (\<lambda>r. ReservationState r = VmmReservationStateUsed) (takeWhile (\<lambda>r. ReservationState r \<noteq> VmmReservationStateLast) L)"

abbreviation live :: "VMM_RESERVATION_SPACE \<Rightarrow> VMM_RESERVATION list" where
  "live rs \<equiv> live_of (ReservationList rs)"

abbreviation inside :: "QWORD \<Rightarrow> QWORD \<Rightarrow> VMM_RESERVATION \<Rightarrow> bool" where
  "inside a n r \<equiv> CHECK_BOUNDS a n (StartVa r) (RegionSize r)"

definition open_slots :: "VMM_RESERVATION list \<Rightarrow> bool" where
  "open_slots xs \<longleftrightarrow> (\<forall>r\<in>set xs. ReservationState r \<noteq> VmmReservationStateLast)"

lemma live_of_simps [simp]:
  "live_of [] = []"
  "ReservationState r = VmmReservationStateLast \<Longrightarrow> live_of (r # L) = []"
  "ReservationState r = VmmReservationStateFree \<Longrightarrow> live_of (r # L) = live_of L"
  "ReservationState r = VmmReservationStateUsed \<Longrightarrow> live_of (r # L) = r # live_of L"
  by (simp_all add: live_of_def)

lemma live_of_append [simp]: "open_slots xs \<Longrightarrow> live_of (xs @ L) = live_of xs @ live_of L"
  by (simp add: live_of_def open_slots_def takeWhile_append takeWhile_eq_all_conv [THEN iffD2])

lemma open_slots_simps [simp]: "open_slots []" "open_slots (r # xs) \<longleftrightarrow> ReservationState r \<noteq> VmmReservationStateLast \<and> open_slots xs"
  by (simp_all add: open_slots_def)

lemma find_loop_cases:
  "case VmFindReservation_loop a n L k of
     None \<Rightarrow> \<forall>r\<in>set (live_of L). \<not> inside a n r
   | Some j \<Rightarrow> \<exists>xs r zs. L = xs @ r # zs \<and> j = k + length xs \<and> open_slots xs \<and> ReservationState r = VmmReservationStateUsed
       \<and> inside a n r \<and> (\<forall>y\<in>set (live_of xs). \<not> inside a n y)"
proof (induction L arbitrary: k)
  case (Cons r L)
  show ?case
  proof (cases "ReservationState r = VmmReservationStateUsed \<and> inside a n r")
    case True
    then show ?thesis by (auto intro!: exI [of _ "[]"])
  next
    case f: False
    show ?thesis
    proof (cases "ReservationState r = VmmReservationStateLast")
      case False
      have e: "VmFindReservation_loop a n (r # L) k = VmFindReservation_loop a n L (Suc k)" using f False by (cases "ReservationState r") auto
      show ?thesis
      proof (cases "VmFindReservation_loop a n L (Suc k)")
        case None
        then show ?thesis using Cons.IH [of "Suc k"] e f False by (cases "ReservationState r") auto
      next
        case (Some j)
        then obtain xs s zs where x: "L = xs @ s # zs" "j = Suc k + length xs" "open_slots xs" "ReservationState s = VmmReservationStateUsed"
          "inside a n s" "\<forall>y\<in>set (live_of xs). \<not> inside a n y" using Cons.IH [of "Suc k"] by auto
        have "\<forall>y\<in>set (live_of (r # xs)). \<not> inside a n y" using x(6) f False by (cases "ReservationState r") auto
        then show ?thesis unfolding e Some option.case using x False by (intro exI [of _ "r # xs"] exI [of _ s] exI [of _ zs]) simp
      qed
    qed simp
  qed
qed simp

lemma free_loop_cases:
  "case VmFindFirstFree_loop L k of
     None \<Rightarrow> \<forall>r\<in>set L. ReservationState r = VmmReservationStateUsed
   | Some j \<Rightarrow> \<exists>xs r zs. L = xs @ r # zs \<and> j = k + length xs \<and> open_slots xs
       \<and> (\<forall>y\<in>set xs. ReservationState y = VmmReservationStateUsed) \<and> ReservationState r \<noteq> VmmReservationStateUsed"
proof (induction L arbitrary: k)
  case (Cons r L)
  show ?case
  proof (cases "ReservationState r = VmmReservationStateUsed")
    case False
    then have "VmFindFirstFree_loop (r # L) k = Some k" by (cases "ReservationState r") auto
    then show ?thesis using False by (auto intro!: exI [of _ "[]"])
  next
    case True
    then have e: "VmFindFirstFree_loop (r # L) k = VmFindFirstFree_loop L (Suc k)" by simp
    show ?thesis
    proof (cases "VmFindFirstFree_loop L (Suc k)")
      case None
      then show ?thesis using Cons.IH [of "Suc k"] e True by auto
    next
      case (Some j)
      then obtain xs s zs where x: "L = xs @ s # zs" "j = Suc k + length xs" "open_slots xs"
        "\<forall>y\<in>set xs. ReservationState y = VmmReservationStateUsed" "ReservationState s \<noteq> VmmReservationStateUsed"
        using Cons.IH [of "Suc k"] by auto
      then show ?thesis unfolding e Some option.case using True by (intro exI [of _ "r # xs"] exI [of _ s] exI [of _ zs]) simp
    qed
  qed
qed simp

section \<open>The invariant\<close>

definition region_end :: "VMM_RESERVATION \<Rightarrow> nat" where
  "region_end r = unat (StartVa r) + unat (RegionSize r)"

definition holds :: "QWORD \<Rightarrow> VMM_RESERVATION \<Rightarrow> bool" where
  "holds a r \<longleftrightarrow> unat (StartVa r) \<le> unat a \<and> unat a < region_end r"

definition committed :: "VMM_RESERVATION \<Rightarrow> QWORD \<Rightarrow> bool" where
  "committed r a \<longleftrightarrow> bm_bit (CommitBitmap r) ((unat a - unat (StartVa r)) div 4096)"

definition reservation_ok :: "VMM_RESERVATION \<Rightarrow> bool" where
  "reservation_ok r \<longleftrightarrow> 0 < unat (StartVa r) \<and> unat (StartVa r) mod 4096 = 0 \<and> unat (RegionSize r) mod 4096 = 0
     \<and> 0 < unat (RegionSize r) \<and> region_end r < 2 ^ 64 \<and> unat (RegionSize r) div 4096 < 2 ^ 32
     \<and> bitmap_ok (CommitBitmap r) \<and> unat (BitCount (CommitBitmap r)) = unat (RegionSize r) div 4096"

text \<open>The pages of the buffer of a commit bitmap.\<close>

definition buffer_start :: "VMM_RESERVATION \<Rightarrow> nat" where
  "buffer_start r = unat (CommitBitmapAddress r)"

definition buffer_end :: "VMM_RESERVATION \<Rightarrow> nat" where
  "buffer_end r = buffer_start r + page_up (unat (BufferSize (CommitBitmap r)))"

definition buffer_ok :: "VMM_RESERVATION_SPACE \<Rightarrow> VMM_RESERVATION \<Rightarrow> bool" where
  "buffer_ok rs r \<longleftrightarrow> unat (BitmapAddressStart rs) \<le> buffer_start r \<and> buffer_end r \<le> unat (FreeBitmapAddress rs)
     \<and> buffer_start r mod 4096 = 0 \<and> (\<exists>buf. BitmapBuffer (CommitBitmap r) = Some buf \<and> length buf = unat (BufferSize (CommitBitmap r)))"

definition buffers_apart :: "VMM_RESERVATION \<Rightarrow> VMM_RESERVATION \<Rightarrow> bool" where
  "buffers_apart r s \<longleftrightarrow> buffer_end r \<le> buffer_start s \<or> buffer_end s \<le> buffer_start r"

definition metadata_ok :: "VMM_RESERVATION_SPACE \<Rightarrow> bool" where
  "metadata_ok rs \<longleftrightarrow> unat (ReservationListAddress rs) + unat (ReservedAreaSize rs) + 2 ^ 32 < 2 ^ 64
     \<and> unat (ReservationListAddress rs) \<le> unat (BitmapAddressStart rs)
     \<and> unat (BitmapAddressStart rs) \<le> unat (FreeBitmapAddress rs)
     \<and> unat (FreeBitmapAddress rs) \<le> unat (ReservationListAddress rs) + unat (ReservedAreaSize rs)
     \<and> unat (FreeBitmapAddress rs) mod 4096 = 0"

definition vm_inv :: "VMM_RESERVATION_SPACE \<Rightarrow> bool" where
  "vm_inv rs \<longleftrightarrow> metadata_ok rs \<and> \<not> open_slots (ReservationList rs)
     \<and> (\<forall>r\<in>set (live rs). reservation_ok r \<and> buffer_ok rs r) \<and> sorted_wrt buffers_apart (live rs)"

lemma vm_invD:
  assumes "vm_inv rs"
  shows "metadata_ok rs" "\<not> open_slots (ReservationList rs)" "r \<in> set (live rs) \<Longrightarrow> reservation_ok r"
    "r \<in> set (live rs) \<Longrightarrow> buffer_ok rs r" "sorted_wrt buffers_apart (live rs)"
  using assms by (simp_all add: vm_inv_def)

lemma inside_nat:
  assumes "reservation_ok r" "unat a + unat n < 2 ^ 64"
  shows "inside a n r \<longleftrightarrow> unat (StartVa r) \<le> unat a \<and> unat a + unat n \<le> region_end r"
  using assms unat_add_below [of a n] unat_add_below [of "StartVa r" "RegionSize r"]
  by (simp add: CHECK_BOUNDS_def word_le_nat_alt reservation_ok_def region_end_def)

lemma inside_1:
  assumes "reservation_ok r" "unat a + 1 < 2 ^ 64"
  shows "inside a 1 r \<longleftrightarrow> holds a r"
  using inside_nat [OF assms(1), of a 1] assms(2) by (auto simp: holds_def)

lemma find_reservation_cases:
  assumes "a \<noteq> NULL" "n \<noteq> 0"
  obtains (none) "VmFindReservation rs a n = Some (STATUS_ELEMENT_NOT_FOUND, None)" "\<forall>r\<in>set (live rs). \<not> inside a n r"
  | (found) xs r zs where "ReservationList rs = xs @ r # zs" "VmFindReservation rs a n = Some (STATUS_SUCCESS, Some (length xs))"
      "open_slots xs" "ReservationState r = VmmReservationStateUsed" "inside a n r" "\<forall>y\<in>set (live_of xs). \<not> inside a n y"
proof (cases "VmFindReservation_loop a n (ReservationList rs) 0")
  case None
  then show ?thesis using none find_loop_cases [where a = a and n = n and L = "ReservationList rs" and k = 0] assms by (simp add: VmFindReservation_def)
next
  case (Some j)
  obtain xs r zs where x: "ReservationList rs = xs @ r # zs" "j = 0 + length xs" "open_slots xs" "ReservationState r = VmmReservationStateUsed"
      "inside a n r" "\<forall>y\<in>set (live_of xs). \<not> inside a n y"
    using find_loop_cases [where a = a and n = n and L = "ReservationList rs" and k = 0] unfolding Some option.case by (elim exE conjE) (rule that)
  have "VmFindReservation rs a n = Some (STATUS_SUCCESS, Some (length xs))" using Some assms x(2) by (simp add: VmFindReservation_def)
  with x found show ?thesis by blast
qed

lemma live_split:
  "ReservationList rs = xs @ r # zs \<Longrightarrow> open_slots xs \<Longrightarrow> ReservationState r = VmmReservationStateUsed
    \<Longrightarrow> live rs = live_of xs @ r # live_of zs"
  by simp

lemma not_SUCCEEDED_vm [simp]:
  "\<not> SUCCEEDED STATUS_ELEMENT_NOT_FOUND" "\<not> SUCCEEDED STATUS_MEMORY_IS_NOT_RESERVED" "\<not> SUCCEEDED STATUS_MEMORY_CANNOT_BE_RESERVED"
  "\<not> SUCCEEDED STATUS_MEMORY_CONFLICTING_ACCESS_RIGHTS" "\<not> SUCCEEDED STATUS_MEMORY_CONFLICTING_CACHEABILITY"
  "\<not> SUCCEEDED STATUS_MEMORY_ALREADY_RESERVED" "\<not> SUCCEEDED STATUS_MEMORY_IS_NOT_COMMITED"
  "\<not> SUCCEEDED STATUS_MEMORY_PREVENTS_USERMODE_ACCESS" "\<not> SUCCEEDED STATUS_MEMORY_INSUFFICIENT_ACCESS_RIGHTS"
  by (simp_all add: SUCCEEDED_def status_mask_defs STATUS_ELEMENT_NOT_FOUND_def STATUS_MEMORY_IS_NOT_RESERVED_def
      STATUS_MEMORY_CANNOT_BE_RESERVED_def STATUS_MEMORY_CONFLICTING_ACCESS_RIGHTS_def STATUS_MEMORY_CONFLICTING_CACHEABILITY_def
      STATUS_MEMORY_ALREADY_RESERVED_def STATUS_MEMORY_IS_NOT_COMMITED_def STATUS_MEMORY_PREVENTS_USERMODE_ACCESS_def
      STATUS_MEMORY_INSUFFICIENT_ACCESS_RIGHTS_def)

lemma not_found_not_success [simp]: "STATUS_SUCCESS \<noteq> STATUS_ELEMENT_NOT_FOUND"
  using not_SUCCEEDED_vm(1) SUCCEEDED_SUCCESS by metis

text \<open>The index of a page of a reservation in its bitmap.\<close>

lemma page_index_in:
  assumes r: "reservation_ok r" and a: "unat (StartVa r) \<le> unat a" "unat a < region_end r"
  defines "p \<equiv> (unat a - unat (StartVa r)) div 4096"
  shows "p < unat (RegionSize r) div 4096" "unat (page_index a (StartVa r)) = p" "page_index a (StartVa r) \<le> ucast MAX_DWORD"
    "unat (ucast (page_index a (StartVa r)) :: DWORD) = p"
proof -
  have z: "unat (RegionSize r) < 2 ^ 44" using r div_less_iff_less_mult [of 4096 "unat (RegionSize r)" "2 ^ 32"] by (simp add: reservation_ok_def)
  have d: "unat a - unat (StartVa r) < unat (RegionSize r)" using a by (simp add: region_end_def)
  have "unat (RegionSize r) mod 4096 = 0" using r by (simp add: reservation_ok_def)
  then obtain k where "unat (RegionSize r) = 4096 * k" by (metis mod_0_imp_dvd dvd_def)
  then show p: "p < unat (RegionSize r) div 4096" using d by (simp add: p_def less_mult_imp_div_less mult.commute)
  show u: "unat (page_index a (StartVa r)) = p" unfolding p_def by (rule page_index_unat) (use a d z in auto)
  have "p < 2 ^ 32" using p r by (simp add: reservation_ok_def)
  then show "page_index a (StartVa r) \<le> ucast MAX_DWORD" "unat (ucast (page_index a (StartVa r)) :: DWORD) = p"
    by (simp_all add: word_le_nat_alt u MAX_DWORD_def unat_ucast_mod)
qed

lemma commit_bit_result:
  assumes "bitmap_ok b" "i < BitCount b"
  shows "BitmapGetBitValue b i = Some (bm_bit b (unat i))"
proof -
  obtain buf where "BitmapBuffer b = Some buf" "unat (BitCount b) \<le> 8 * length buf" "bm_bit b = bits_of buf" using bitmap_okE [OF assms(1)] .
  then show ?thesis using BitmapGetBit_result [of i buf] assms(2) by (simp add: BitmapGetBitValue_def word_less_nat_alt)
qed

lemma VmIsVaCommited_result:
  assumes r: "reservation_ok r" and a: "holds a r"
  shows "VmIsVaCommited r a = Some (committed r a)"
proof -
  note h = a [unfolded holds_def]
  note p = page_index_in [OF r conjunct1 [OF h] conjunct2 [OF h]]
  have "a \<noteq> NULL" using h r by (auto simp: reservation_ok_def)
  moreover have "ucast (page_index a (StartVa r)) < BitCount (CommitBitmap r)" using p(1,4) r by (simp add: word_less_nat_alt reservation_ok_def)
  ultimately show ?thesis
    using commit_bit_result [of "CommitBitmap r" "ucast (page_index a (StartVa r))"] p(3,4) r
    by (simp add: VmIsVaCommited_def reservation_ok_def committed_def)
qed

lemma find_append: "find P (xs @ ys) = (case find P xs of None \<Rightarrow> find P ys | Some x \<Rightarrow> Some x)"
  by (induction xs) auto

lemma find_holds_cases:
  assumes i: "vm_inv rs" and a: "a \<noteq> NULL" "unat a + 1 < 2 ^ 64"
  obtains (none) "VmFindReservation rs a 1 = Some (STATUS_ELEMENT_NOT_FOUND, None)" "find (holds a) (live rs) = None"
  | (found) xs r zs where "ReservationList rs = xs @ r # zs" "VmFindReservation rs a 1 = Some (STATUS_SUCCESS, Some (length xs))"
      "open_slots xs" "ReservationState r = VmmReservationStateUsed" "find (holds a) (live rs) = Some r" "holds a r"
      "live rs = live_of xs @ r # live_of zs" "reservation_ok r"
proof (cases rule: find_reservation_cases [OF a(1) one_neq_zero, of rs, case_names n f])
  case n
  have "find (holds a) (live rs) = None" using n(2) inside_1 [OF vm_invD(3) [OF i] a(2)] by (auto simp: find_None_iff)
  with n(1) show ?thesis by (rule none)
next
  case (f xs r zs)
  note l = live_split [OF f(1,3,4)]
  have ok: "reservation_ok y" if "y \<in> set (live_of xs) \<or> y = r" for y using vm_invD(3) [OF i] l that by auto
  have h: "holds a r" using f(5) inside_1 [OF ok a(2)] by blast
  have "\<forall>y\<in>set (live_of xs). \<not> holds a y" using f(6) inside_1 [OF ok a(2)] by blast
  then have "find (holds a) (live_of xs) = None" by (simp add: find_None_iff)
  then have "find (holds a) (live rs) = Some r" using h unfolding l by (simp add: find_append)
  with f(1-4) h l ok show ?thesis by (intro found) auto
qed

lemma access_result:
  assumes i: "vm_inv rs" and a: "a \<noteq> NULL" "unat a + 1 < 2 ^ 64"
    and md: "\<not> CHECK_BOUNDS a 1 (ReservationListAddress rs) (ReservedAreaSize rs)"
  shows "VmReservationCanAddressBeAccessed rs a rights acc = Some (case find (holds a) (live rs) of
      None \<Rightarrow> None
    | Some r \<Rightarrow> if committed r a \<and> IsBooleanFlagOn (PageRights r) rights
        then Some (PageRights r, Uncacheable r, BackingFile r,
          if BackingFile r \<noteq> NULL then AlignAddressLower (a - StartVa r) PAGE_SIZE else 0)
        else None)"
proof (cases rule: find_holds_cases [OF i a, case_names none found])
  case none
  then show ?thesis using a md by (simp add: VmReservationCanAddressBeAccessed_def)
next
  case (found xs r zs)
  then show ?thesis using a md VmIsVaCommited_result [OF found(8,6)]
    by (simp add: VmReservationCanAddressBeAccessed_def Let_def)
qed

section \<open>Reserving\<close>

lemma upd_slot_at:
  "ReservationList rs = xs @ y # zs \<Longrightarrow> upd_slot rs (length xs) f = Some (rs\<lparr>ReservationList := xs @ f y # zs\<rparr>)"
  by (simp add: upd_slot_def)

text \<open>There is a slot: a free one, or room behind the last.\<close>

definition has_slot :: "VMM_RESERVATION list \<Rightarrow> bool" where
  "has_slot L \<longleftrightarrow> (let T = takeWhile (\<lambda>r. ReservationState r \<noteq> VmmReservationStateLast) L in
     (\<exists>r\<in>set T. ReservationState r = VmmReservationStateFree) \<or> Suc (length T) < length L)"

lemma takeWhile_open: "open_slots xs \<Longrightarrow> ReservationState r = VmmReservationStateLast
    \<Longrightarrow> takeWhile (\<lambda>r. ReservationState r \<noteq> VmmReservationStateLast) (xs @ r # zs) = xs"
  by (auto simp: open_slots_def takeWhile_append)

lemma has_slot_free: "open_slots xs \<Longrightarrow> ReservationState r = VmmReservationStateFree \<Longrightarrow> has_slot (xs @ r # zs)"
  by (auto simp: has_slot_def Let_def open_slots_def takeWhile_append)

lemma has_slot_last:
  assumes "open_slots xs" "\<forall>y\<in>set xs. ReservationState y = VmmReservationStateUsed" "ReservationState r = VmmReservationStateLast"
  shows "has_slot (xs @ r # zs) \<longleftrightarrow> zs \<noteq> []"
  using assms takeWhile_open [OF assms(1,3), of zs] by (auto simp: has_slot_def Let_def)

lemma free_reservation_result:
  assumes L: "\<not> open_slots (ReservationList rs)"
  shows "if has_slot (ReservationList rs) then \<exists>xs y zs. VmFindFirstFreeReservation rs = Some (Some (length xs), rs\<lparr>ReservationList := xs @ y # zs\<rparr>)
      \<and> open_slots xs \<and> \<not> open_slots zs \<and> live rs = live_of xs @ live_of zs
    else VmFindFirstFreeReservation rs = None"
proof (cases "VmFindFirstFree_loop (ReservationList rs) 0")
  case None
  then have "open_slots (ReservationList rs)"
    using free_loop_cases [where L = "ReservationList rs" and k = 0] by (auto simp: open_slots_def)
  with L show ?thesis by simp
next
  case (Some j)
  obtain xs r zs where x: "ReservationList rs = xs @ r # zs" "j = 0 + length xs" "open_slots xs"
    "\<forall>y\<in>set xs. ReservationState y = VmmReservationStateUsed" "ReservationState r \<noteq> VmmReservationStateUsed"
    using free_loop_cases [where L = "ReservationList rs" and k = 0] unfolding Some option.case by (elim exE conjE) (rule that)
  show ?thesis
  proof (cases "ReservationState r = VmmReservationStateLast")
    case False
    then have f: "ReservationState r = VmmReservationStateFree" using x(5) by (cases "ReservationState r") auto
    have "VmFindFirstFreeReservation rs = Some (Some (length xs), rs)" using Some x False by (simp add: VmFindFirstFreeReservation_def)
    moreover have "rs\<lparr>ReservationList := xs @ r # zs\<rparr> = rs" using x(1) by (cases rs) simp
    moreover have "\<not> open_slots zs" using L x(1,3) f by (auto simp: open_slots_def)
    moreover have "live rs = live_of xs @ live_of zs" using x(1,3) f by simp
    ultimately show ?thesis unfolding x(1) using x(3) has_slot_free [OF x(3) f, of zs] by (simp only: if_True) metis
  next
    case True
    note hs = has_slot_last [OF x(3,4) True, of zs]
    have u: "upd_slot rs (length xs) f = Some (rs\<lparr>ReservationList := xs @ f r # zs\<rparr>)" for f by (rule upd_slot_at [OF x(1)])
    show ?thesis
    proof (cases zs)
      case Nil
      then have "VmFindFirstFreeReservation rs = None" using Some x True u by (simp add: VmFindFirstFreeReservation_def upd_slot_def)
      then show ?thesis using hs x(1) Nil by simp
    next
      case (Cons z zs')
      let ?r = "r\<lparr>ReservationState := VmmReservationStateFree\<rparr>" and ?z = "z\<lparr>ReservationState := VmmReservationStateLast\<rparr>"
      have "upd_slot (rs\<lparr>ReservationList := xs @ ?r # zs\<rparr>) (Suc (length xs)) (\<lambda>r. r\<lparr>ReservationState := VmmReservationStateLast\<rparr>)
          = Some (rs\<lparr>ReservationList := xs @ ?r # ?z # zs'\<rparr>)"
        using upd_slot_at [of "rs\<lparr>ReservationList := xs @ ?r # zs\<rparr>" "xs @ [?r]" z zs'] Cons by simp
      then have "VmFindFirstFreeReservation rs = Some (Some (length xs), rs\<lparr>ReservationList := xs @ ?r # ?z # zs'\<rparr>)"
        using Some x True u by (simp add: VmFindFirstFreeReservation_def)
      moreover have "live rs = live_of xs @ live_of (?z # zs')" using x(1,3) True by simp
      moreover have "\<not> open_slots (?z # zs')" by simp
      ultimately show ?thesis unfolding x(1) using x(3) hs Cons by (simp only: if_True list.distinct) metis
    qed
  qed
qed

text \<open>The bytes of bitmap buffers a reservation of some pages takes.\<close>

definition bitmap_room :: "nat \<Rightarrow> nat" where
  "bitmap_room p = page_up ((p + 7) div 8)"

definition metadata_end :: "VMM_RESERVATION_SPACE \<Rightarrow> nat" where
  "metadata_end rs = unat (ReservationListAddress rs) + unat (ReservedAreaSize rs)"

definition describes :: "VMM_RESERVATION \<Rightarrow> QWORD \<Rightarrow> QWORD \<Rightarrow> DWORD \<Rightarrow> bool \<Rightarrow> ADDR \<Rightarrow> bool" where
  "describes r a n R U F \<longleftrightarrow> StartVa r = a \<and> RegionSize r = n \<and> PageRights r = R \<and> Uncacheable r = U \<and> BackingFile r = F
     \<and> ReservationState r = VmmReservationStateUsed \<and> reservation_ok r"

text \<open>Ranges the operations work on: page aligned, not empty, without wrap-around and less than 2 to the 32 pages.\<close>

definition range_ok :: "QWORD \<Rightarrow> QWORD \<Rightarrow> bool" where
  "range_ok a n \<longleftrightarrow> 0 < unat a \<and> unat a mod 4096 = 0 \<and> 0 < unat n \<and> unat n mod 4096 = 0 \<and> unat a + unat n < 2 ^ 64
     \<and> unat n div 4096 < 2 ^ 32"

lemma range_okD:
  assumes "range_ok a n"
  shows "a \<noteq> NULL" "n \<noteq> 0" "IsAddressAligned a PAGE_SIZE" "IsAddressAligned n PAGE_SIZE"
    "n div PAGE_SIZE \<le> ucast MAX_DWORD" "unat (ucast (n div PAGE_SIZE) :: DWORD) = unat n div 4096" "0 < unat n div 4096"
proof -
  have p: "unat (n div PAGE_SIZE) = unat n div 4096" by (simp add: unat_div)
  show "a \<noteq> NULL" "n \<noteq> 0" "IsAddressAligned a PAGE_SIZE" "IsAddressAligned n PAGE_SIZE"
    using assms by (auto simp: range_ok_def page_aligned)
  show "n div PAGE_SIZE \<le> ucast MAX_DWORD" "unat (ucast (n div PAGE_SIZE) :: DWORD) = unat n div 4096"
    using assms p by (simp_all add: range_ok_def word_le_nat_alt MAX_DWORD_def unat_ucast_mod)
  show "0 < unat n div 4096" using assms by (auto simp: range_ok_def div_greater_zero_iff dest!: mod_0_imp_dvd elim!: dvdE)
qed

lemma initialize_result:
  assumes md: "metadata_ok rs" and L: "ReservationList rs = xs @ y # zs" and a: "range_ok a n"
  defines "room \<equiv> unat (FreeBitmapAddress rs) + bitmap_room (unat n div 4096) \<le> metadata_end rs"
  shows "if room then \<exists>r f. VmInitializeReservation rs a n R U F (length xs) = Some (rs\<lparr>ReservationList := xs @ r # zs, FreeBitmapAddress := f\<rparr>)
      \<and> describes r a n R U F \<and> (\<forall>k < unat n div 4096. \<not> bm_bit (CommitBitmap r) k)
      \<and> unat f = unat (FreeBitmapAddress rs) + bitmap_room (unat n div 4096) \<and> buffer_start r = unat (FreeBitmapAddress rs)
      \<and> buffer_end r = unat f \<and> (\<exists>buf. BitmapBuffer (CommitBitmap r) = Some buf \<and> length buf = unat (BufferSize (CommitBitmap r)))
    else VmInitializeReservation rs a n R U F (length xs) = None"
proof -
  note d = range_okD [OF a]
  let ?p = "ucast (n div PAGE_SIZE) :: DWORD"
  have p0: "?p \<noteq> 0" using d(6,7) by auto
  obtain sz b where b: "BitmapPreinit ?p = Some (sz, b)" "BufferSize b = sz" using p0 by (simp add: BitmapPreinit_def Let_def)
  have sz: "unat sz = (unat n div 4096 + 7) div 8" using BitmapPreinit_size [OF p0 b(1)] d(6) by simp
  obtain b' where b': "BitmapInitEx b (replicate (unat sz) 0) False = Some b'" "BufferSize b' = sz"
    "\<exists>buf. BitmapBuffer b' = Some buf \<and> length buf = unat sz" using b(2) by (simp add: BitmapInitEx_def)
  have ok: "bitmap_ok b'" "BitCount b' = ?p" "\<forall>k < unat ?p. bm_bit b' k = False"
    using BitmapPreinit_Init_ok [OF p0 b(1) _ b'(1)] by auto
  have "unat n div 4096 < 2 ^ 32" using a by (simp add: range_ok_def)
  then have szb: "unat sz < 2 ^ 30" unfolding sz by (intro less_mult_imp_div_less) simp
  have up: "unat (AlignAddressUpper (ucast sz) PAGE_SIZE) = bitmap_room (unat n div 4096)"
    using page_upper [of "ucast sz"] szb sz by (simp add: bitmap_room_def)
  have rb: "bitmap_room (unat n div 4096) < 2 ^ 31" using page_up_bounds(2) [of "unat sz"] szb sz by (simp add: bitmap_room_def)
  have fb: "unat (FreeBitmapAddress rs) \<le> metadata_end rs" "metadata_end rs + 2 ^ 32 < 2 ^ 64" "unat (ReservationListAddress rs) \<le> unat (FreeBitmapAddress rs)"
    using md by (auto simp: metadata_ok_def metadata_end_def)
  have f: "unat (FreeBitmapAddress rs + AlignAddressUpper (ucast sz) PAGE_SIZE) = unat (FreeBitmapAddress rs) + bitmap_room (unat n div 4096)"
    using unat_add_below [of "FreeBitmapAddress rs" "AlignAddressUpper (ucast sz) PAGE_SIZE"] up rb fb by simp
  have cb: "CHECK_BOUNDS (FreeBitmapAddress rs) (AlignAddressUpper (ucast sz) PAGE_SIZE) (ReservationListAddress rs) (ReservedAreaSize rs) \<longleftrightarrow> room"
    using f fb unat_add_below [of "ReservationListAddress rs" "ReservedAreaSize rs"]
    by (simp add: CHECK_BOUNDS_def word_le_nat_alt room_def metadata_end_def)
  have al: "IsAddressAligned (FreeBitmapAddress rs) PAGE_SIZE" using md by (simp add: metadata_ok_def page_aligned)
  define r where "r = \<lparr>StartVa = a, RegionSize = n, PageRights = R, ReservationState = VmmReservationStateUsed, Uncacheable = U, BackingFile = F,
       CommitBitmap = b', CommitBitmapAddress = FreeBitmapAddress rs\<rparr>"
  have s0: "sz \<noteq> 0" using sz d(7) by auto
  have u: "upd_slot rs (length xs) g = Some (rs\<lparr>ReservationList := xs @ g y # zs\<rparr>)" for g by (rule upd_slot_at [OF L])
  have run: "VmInitializeReservation rs a n R U F (length xs) = (if room
      then Some (rs\<lparr>ReservationList := xs @ r # zs, FreeBitmapAddress := FreeBitmapAddress rs + AlignAddressUpper (ucast sz) PAGE_SIZE\<rparr>) else None)"
    using d(1-5) b b' al cb s0 u by (simp add: VmInitializeReservation_def Let_def r_def)
  have "describes r a n R U F" "\<forall>k < unat n div 4096. \<not> bm_bit (CommitBitmap r) k"
    using ok a d(6) by (auto simp: describes_def r_def reservation_ok_def region_end_def range_ok_def)
  moreover have "buffer_start r = unat (FreeBitmapAddress rs)" by (simp add: buffer_start_def r_def)
  moreover have "buffer_end r = unat (FreeBitmapAddress rs) + bitmap_room (unat n div 4096)"
    by (simp add: buffer_end_def buffer_start_def r_def b'(2) sz bitmap_room_def)
  moreover have "\<exists>buf. BitmapBuffer (CommitBitmap r) = Some buf \<and> length buf = unat (BufferSize (CommitBitmap r))" using b' by (simp add: r_def)
  ultimately show ?thesis using run f by simp metis
qed

lemma vm_inv_insert:
  assumes i: "vm_inv rs" and l: "live rs = as @ bs" "live_of L = as @ r # bs" "\<not> open_slots L"
    and r: "reservation_ok r" "buffer_start r = unat (FreeBitmapAddress rs)" "buffer_end r = unat f" "unat f \<le> metadata_end rs"
      "\<exists>buf. BitmapBuffer (CommitBitmap r) = Some buf \<and> length buf = unat (BufferSize (CommitBitmap r))"
  shows "vm_inv (rs\<lparr>ReservationList := L, FreeBitmapAddress := f\<rparr>)"
proof -
  let ?rs = "rs\<lparr>ReservationList := L, FreeBitmapAddress := f\<rparr>"
  note d = vm_invD [OF i]
  note m = d(1) [unfolded metadata_ok_def]
  have up: "unat (FreeBitmapAddress rs) \<le> unat f" using r(2,3) by (simp add: buffer_end_def)
  have "unat f mod 4096 = 0" using r(2,3) m page_up_bounds(3) [of "unat (BufferSize (CommitBitmap r))"]
    by (simp add: buffer_end_def mod_add_eq [symmetric, of "unat (FreeBitmapAddress rs)"] flip: r(3))
  then have md: "metadata_ok ?rs" using m r(4) up by (simp add: metadata_ok_def metadata_end_def)
  have o: "reservation_ok x" "buffer_ok ?rs x" "buffer_end x \<le> buffer_start r" if "x \<in> set (as @ bs)" for x
    using d(3,4) [of x] that l(1) up r(2) by (auto simp: buffer_ok_def)
  have "buffer_ok ?rs r" using r m by (auto simp: buffer_ok_def)
  moreover have "sorted_wrt buffers_apart (as @ r # bs)"
    using d(5) l(1) o(3) by (auto simp: sorted_wrt_append buffers_apart_def)
  ultimately show ?thesis unfolding vm_inv_def using md l(2,3) r(1) o(1,2) by auto
qed

text \<open>Changing the commit bits of a live reservation.\<close>

definition same_region :: "VMM_RESERVATION \<Rightarrow> VMM_RESERVATION \<Rightarrow> bool" where
  "same_region r r' \<longleftrightarrow> (\<exists>b. r' = r\<lparr>CommitBitmap := b\<rparr> \<and> same_shape (CommitBitmap r) b \<and> bitmap_ok b)"

lemma same_regionD:
  assumes "same_region r r'"
  shows "StartVa r' = StartVa r" "RegionSize r' = RegionSize r" "PageRights r' = PageRights r" "Uncacheable r' = Uncacheable r"
    "BackingFile r' = BackingFile r" "ReservationState r' = ReservationState r" "reservation_ok r \<Longrightarrow> reservation_ok r'"
    "buffer_ok rs r \<Longrightarrow> buffer_ok rs r'" "buffers_apart r s = buffers_apart r' s" "buffers_apart s r = buffers_apart s r'"
    "region_end r' = region_end r"
  using assms by (auto simp: same_region_def same_shape_def reservation_ok_def region_end_def buffer_ok_def buffers_apart_def
      buffer_start_def buffer_end_def)

lemma vm_inv_update:
  assumes i: "vm_inv rs" and L: "ReservationList rs = xs @ r # zs" "open_slots xs" "ReservationState r = VmmReservationStateUsed"
    and s: "same_region r r'"
  shows "vm_inv (rs\<lparr>ReservationList := xs @ r' # zs\<rparr>)" "live_of (xs @ r' # zs) = live_of xs @ r' # live_of zs"
proof -
  note d = vm_invD [OF i] and r = same_regionD [OF s] and l = live_split [OF L]
  show l': "live_of (xs @ r' # zs) = live_of xs @ r' # live_of zs" using L r(6) by simp
  have b: "buffer_ok (rs\<lparr>ReservationList := xs @ r' # zs\<rparr>) x = buffer_ok rs x" for x by (simp add: buffer_ok_def)
  have "\<not> open_slots (xs @ r' # zs)" using d(2) L r(6) by (auto simp: open_slots_def)
  moreover have "sorted_wrt buffers_apart (live_of xs @ r' # live_of zs)"
    using d(5) unfolding l by (simp add: sorted_wrt_append r(9,10) [symmetric])
  moreover have "reservation_ok x \<and> buffer_ok rs x" if "x \<in> set (live_of xs @ r' # live_of zs)" for x
    using that d(3,4) r(7,8) unfolding l by auto
  ultimately show "vm_inv (rs\<lparr>ReservationList := xs @ r' # zs\<rparr>)" unfolding vm_inv_def using l' d(1) b by (simp add: metadata_ok_def)
qed

lemma vm_inv_remove:
  assumes i: "vm_inv rs" and L: "ReservationList rs = xs @ r # zs" "open_slots xs" "ReservationState r = VmmReservationStateUsed"
    and y: "ReservationState y = VmmReservationStateFree"
  shows "vm_inv (rs\<lparr>ReservationList := xs @ y # zs\<rparr>)" "live_of (xs @ y # zs) = live_of xs @ live_of zs"
proof -
  note d = vm_invD [OF i] and l = live_split [OF L]
  show l': "live_of (xs @ y # zs) = live_of xs @ live_of zs" using L y by simp
  have b: "buffer_ok (rs\<lparr>ReservationList := xs @ y # zs\<rparr>) x = buffer_ok rs x" for x by (simp add: buffer_ok_def)
  have "\<not> open_slots (xs @ y # zs)" using d(2) L y by (auto simp: open_slots_def)
  moreover have "sorted_wrt buffers_apart (live_of xs @ live_of zs)" using d(5) unfolding l by (simp add: sorted_wrt_append)
  moreover have "reservation_ok x \<and> buffer_ok rs x" if "x \<in> set (live_of xs @ live_of zs)" for x using that d(3,4) unfolding l by auto
  ultimately show "vm_inv (rs\<lparr>ReservationList := xs @ y # zs\<rparr>)" unfolding vm_inv_def using l' d(1) b by (simp add: metadata_ok_def)
qed

lemma reserve_result:
  assumes i: "vm_inv rs" and a: "range_ok a n"
  shows "if \<exists>r\<in>set (live rs). inside a n r
    then VmChangeVaReservationState rs a n VMM_ALLOC_TYPE_RESERVE R U F = Some (STATUS_MEMORY_ALREADY_RESERVED, rs)
    else if has_slot (ReservationList rs) \<and> unat (FreeBitmapAddress rs) + bitmap_room (unat n div 4096) \<le> metadata_end rs
    then \<exists>L f as r bs. VmChangeVaReservationState rs a n VMM_ALLOC_TYPE_RESERVE R U F
           = Some (STATUS_SUCCESS, rs\<lparr>ReservationList := L, FreeBitmapAddress := f\<rparr>)
         \<and> vm_inv (rs\<lparr>ReservationList := L, FreeBitmapAddress := f\<rparr>) \<and> live rs = as @ bs \<and> live_of L = as @ r # bs
         \<and> describes r a n R U F \<and> (\<forall>k < unat n div 4096. \<not> bm_bit (CommitBitmap r) k)
    else VmChangeVaReservationState rs a n VMM_ALLOC_TYPE_RESERVE R U F = None"
proof (cases rule: find_reservation_cases [OF range_okD(1,2) [OF a], of rs, case_names none found])
  case (found xs r zs)
  then have "r \<in> set (live rs)" using live_split [OF found(1,3,4)] by simp
  then show ?thesis using found(2,5) range_okD [OF a]
    by (auto simp: VmChangeVaReservationState_def VMM_ALLOC_TYPE_RESERVE_def VMM_ALLOC_TYPE_COMMIT_def)
next
  case none
  have ch: "VmChangeVaReservationState rs a n VMM_ALLOC_TYPE_RESERVE R U F = do {
       (free, rs) \<leftarrow> VmFindFirstFreeReservation rs; i \<leftarrow> free; rs \<leftarrow> VmInitializeReservation rs a n R U F i; Some (STATUS_SUCCESS, rs) }"
    using none(1) range_okD [OF a] by (simp add: VmChangeVaReservationState_def VMM_ALLOC_TYPE_RESERVE_def VMM_ALLOC_TYPE_COMMIT_def)
  have nx: "\<not> (\<exists>r\<in>set (live rs). inside a n r)" using none(2) by blast
  note ff = free_reservation_result [OF vm_invD(2) [OF i]]
  show ?thesis
  proof (cases "has_slot (ReservationList rs)")
    case False
    then have "VmChangeVaReservationState rs a n VMM_ALLOC_TYPE_RESERVE R U F = None" using ff ch by simp
    then show ?thesis using nx False by simp
  next
    case True
    then obtain xs y zs where x: "VmFindFirstFreeReservation rs = Some (Some (length xs), rs\<lparr>ReservationList := xs @ y # zs\<rparr>)"
      "open_slots xs" "\<not> open_slots zs" "live rs = live_of xs @ live_of zs" using ff by auto
    let ?rs = "rs\<lparr>ReservationList := xs @ y # zs\<rparr>"
    have md: "metadata_ok ?rs" "metadata_end ?rs = metadata_end rs" using vm_invD(1) [OF i] by (simp_all add: metadata_ok_def metadata_end_def)
    have L: "ReservationList ?rs = xs @ y # zs" by simp
    note ini = initialize_result [OF md(1) L a, of R U F]
    show ?thesis
    proof (cases "unat (FreeBitmapAddress rs) + bitmap_room (unat n div 4096) \<le> metadata_end rs")
      case False
      then have "VmInitializeReservation ?rs a n R U F (length xs) = None" using ini md(2) by simp
      then show ?thesis using nx False ch x(1) by simp
    next
      case room: True
      then obtain r f where r: "VmInitializeReservation ?rs a n R U F (length xs) = Some (rs\<lparr>ReservationList := xs @ r # zs, FreeBitmapAddress := f\<rparr>)"
        "describes r a n R U F" "\<forall>k < unat n div 4096. \<not> bm_bit (CommitBitmap r) k"
        "unat f = unat (FreeBitmapAddress rs) + bitmap_room (unat n div 4096)" "buffer_start r = unat (FreeBitmapAddress rs)" "buffer_end r = unat f"
        "\<exists>buf. BitmapBuffer (CommitBitmap r) = Some buf \<and> length buf = unat (BufferSize (CommitBitmap r))"
        using ini md(2) by auto
      have l: "live_of (xs @ r # zs) = live_of xs @ r # live_of zs" using x(2) r(2) by (simp add: describes_def)
      have no: "\<not> open_slots (xs @ r # zs)" using x(3) by (auto simp: open_slots_def)
      have "unat f \<le> metadata_end rs" using room r(4) by simp
      from vm_inv_insert [OF i x(4) l no _ r(5,6) this r(7)] r(2)
      have "vm_inv (rs\<lparr>ReservationList := xs @ r # zs, FreeBitmapAddress := f\<rparr>)" by (simp add: describes_def)
      moreover have "VmChangeVaReservationState rs a n VMM_ALLOC_TYPE_RESERVE R U F
          = Some (STATUS_SUCCESS, rs\<lparr>ReservationList := xs @ r # zs, FreeBitmapAddress := f\<rparr>)" using ch x(1) r(1) by simp
      ultimately show ?thesis using nx True room x(4) l r(2,3) by (simp only: if_True if_False simp_thms) metis
    qed
  qed
qed

section \<open>Committing\<close>

lemma BitmapChangeBit_length: "BitmapChangeBit (Some buf) i v = Some b \<Longrightarrow> \<exists>buf'. b = Some buf' \<and> length buf' = length buf"
  by (auto simp: BitmapChangeBit_def Let_def wr_byte_def split: bind_splits if_splits)

lemma BitmapChangeBits_length:
  "BitmapChangeBits_loop (Some buf) Index v Count i = Some b \<Longrightarrow> \<exists>buf'. b = Some buf' \<and> length buf' = length buf"
proof (induction "unat Count - unat i" arbitrary: i buf)
  case 0
  then show ?case by (subst (asm) BitmapChangeBits_loop.simps) (auto simp: word_less_nat_alt)
next
  case (Suc k)
  then have lt: "i < Count" by (simp add: word_less_nat_alt)
  then obtain buf1 where b1: "BitmapChangeBit (Some buf) (Index + i) v = Some (Some buf1)" "length buf1 = length buf"
    "BitmapChangeBits_loop (Some buf1) Index v Count (i + 1) = Some b"
    using Suc.prems BitmapChangeBit_length [of buf "Index + i" v] by (subst (asm) BitmapChangeBits_loop.simps) (auto split: bind_splits)
  have "k = unat Count - unat (i + 1)" using Suc.hyps(2) unat_inc_below [OF lt] by simp
  from Suc.hyps(1) [OF this b1(3)] b1(2) show ?case by simp
qed

lemma BitmapSetBitsValue_shape:
  assumes "bitmap_ok b" "BitmapSetBitsValue b i n v = Some b'"
  shows "same_shape b b'" "bitmap_ok b'"
proof -
  obtain buf where "BitmapBuffer b = Some buf" using bitmap_okE [OF assms(1)] .
  with assms(2) BitmapChangeBits_length [of buf i v n 0] show "same_shape b b'"
    by (auto simp: BitmapSetBitsValue_def BitmapChangeBits_def same_shape_def split: bind_splits)
  then show "bitmap_ok b'" by (rule bitmap_ok_same_shape [OF assms(1)])
qed

lemma change_commit_shape:
  assumes "reservation_ok r" "VmChangeCommit v a n r = Some r'"
  shows "same_region r r'"
  using assms BitmapSetBitsValue_shape [of "CommitBitmap r"]
  by (auto simp: VmChangeCommit_def Let_def same_region_def reservation_ok_def split: bind_splits)

lemma page_multiple: "unat x mod 4096 = 0 \<Longrightarrow> \<exists>k. unat x = 4096 * k"
  by (metis mod_0_imp_dvd dvd_def)

lemma change_commit_result:
  assumes r: "reservation_ok r" and a: "range_ok a n" and i: "unat (StartVa r) \<le> unat a" "unat a + unat n \<le> region_end r"
  shows "\<exists>r'. VmChangeCommit v a n r = Some r' \<and> same_region r r'
    \<and> (\<forall>x. holds x r \<longrightarrow> committed r' x = (if unat a \<le> unat x \<and> unat x < unat a + unat n then v else committed r x))"
proof -
  note d = range_okD [OF a]
  obtain s z A c where m: "unat (StartVa r) = 4096 * s" "unat (RegionSize r) = 4096 * z" "unat a = 4096 * A" "unat n = 4096 * c"
    using r a page_multiple by (metis reservation_ok_def range_ok_def)
  have le: "s \<le> A" "A + c \<le> s + z" using i by (simp_all add: m region_end_def)
  have c0: "0 < c" using a m(4) by (auto simp: range_ok_def)
  have "unat a < region_end r" using i(2) a by (auto simp: range_ok_def)
  note p = page_index_in [OF r i(1) this]
  have pA: "(unat a - unat (StartVa r)) div 4096 = A - s" by (simp add: m flip: diff_mult_distrib2)
  have bc: "unat (BitCount (CommitBitmap r)) = z" "bitmap_ok (CommitBitmap r)" using r by (simp_all add: reservation_ok_def m)
  let ?i = "ucast (page_index a (StartVa r)) :: DWORD" and ?n = "ucast (n div PAGE_SIZE) :: DWORD"
  have u: "unat ?i = A - s" "unat ?n = c" using p(4) pA d(6) m(4) by simp_all
  have "?i < BitCount (CommitBitmap r)" "unat ?i + unat ?n \<le> unat (BitCount (CommitBitmap r))"
    using u bc(1) le c0 by (simp_all add: word_less_nat_alt)
  from BitmapSetBitsValue_result [OF bc(2) this, of v] obtain b where
    b: "BitmapSetBitsValue (CommitBitmap r) ?i ?n v = Some b" "same_shape (CommitBitmap r) b" "bitmap_ok b"
    "\<forall>k < z. bm_bit b k = (if A - s \<le> k \<and> k < A - s + c then v else bm_bit (CommitBitmap r) k)"
    using bc(1) u by auto
  have "VmChangeCommit v a n r = Some (r\<lparr>CommitBitmap := b\<rparr>)" using d p(3) b(1) by (simp add: VmChangeCommit_def Let_def)
  moreover have "committed (r\<lparr>CommitBitmap := b\<rparr>) x = (if unat a \<le> unat x \<and> unat x < unat a + unat n then v else committed r x)"
    if "holds x r" for x
  proof -
    let ?k = "(unat x - unat (StartVa r)) div 4096"
    have x: "4096 * s \<le> unat x" "unat x < 4096 * (s + z)" using that by (simp_all add: holds_def region_end_def m)
    then have "unat x - 4096 * s < 4096 * z" by (simp add: algebra_simps)
    then have "?k < z" using m by (simp add: less_mult_imp_div_less mult.commute)
    moreover have "A - s \<le> ?k \<longleftrightarrow> unat a \<le> unat x"
      using le(1) x(1) m by (simp add: less_eq_div_iff_mult_less_eq) linarith
    moreover have "?k < A - s + c \<longleftrightarrow> unat x < unat a + unat n"
      using le(1) x(1) m by (simp add: div_less_iff_less_mult) linarith
    ultimately show ?thesis using b(4) by (simp add: committed_def)
  qed
  ultimately show ?thesis using b(2,3) by (auto simp: same_region_def)
qed

lemma commit_result:
  assumes i: "vm_inv rs" and a: "range_ok a n"
  shows "case find (inside a n) (live rs) of
      None \<Rightarrow> VmChangeVaReservationState rs a n VMM_ALLOC_TYPE_COMMIT R U F = Some (STATUS_MEMORY_IS_NOT_RESERVED, rs)
    | Some r \<Rightarrow> if PageRights r \<noteq> R then VmChangeVaReservationState rs a n VMM_ALLOC_TYPE_COMMIT R U F = Some (STATUS_MEMORY_CONFLICTING_ACCESS_RIGHTS, rs)
        else if Uncacheable r \<noteq> U then VmChangeVaReservationState rs a n VMM_ALLOC_TYPE_COMMIT R U F = Some (STATUS_MEMORY_CONFLICTING_CACHEABILITY, rs)
        else \<exists>L as r' bs. VmChangeVaReservationState rs a n VMM_ALLOC_TYPE_COMMIT R U F = Some (STATUS_SUCCESS, rs\<lparr>ReservationList := L\<rparr>)
          \<and> vm_inv (rs\<lparr>ReservationList := L\<rparr>) \<and> live rs = as @ r # bs \<and> live_of L = as @ r' # bs \<and> same_region r r'
          \<and> (\<forall>y\<in>set as. \<not> inside a n y)
          \<and> (\<forall>x. holds x r \<longrightarrow> committed r' x = (unat a \<le> unat x \<and> unat x < unat a + unat n \<or> committed r x))"
proof (cases rule: find_reservation_cases [OF range_okD(1,2) [OF a], of rs, case_names none found])
  case none
  then have "find (inside a n) (live rs) = None" by (auto simp: find_None_iff)
  then show ?thesis using none(1) range_okD [OF a]
    by (simp add: VmChangeVaReservationState_def VMM_ALLOC_TYPE_RESERVE_def VMM_ALLOC_TYPE_COMMIT_def)
next
  case (found xs r zs)
  note l = live_split [OF found(1,3,4)]
  have "find (inside a n) (live_of xs) = None" using found(6) by (auto simp: find_None_iff)
  then have f: "find (inside a n) (live rs) = Some r" unfolding l using found(5) by (simp add: find_append)
  have rok: "reservation_ok r" using vm_invD(3) [OF i] l by simp
  have "unat a + unat n < 2 ^ 64" using a by (simp add: range_ok_def)
  then have "unat (StartVa r) \<le> unat a" "unat a + unat n \<le> region_end r" using inside_nat [OF rok] found(5) by auto
  from change_commit_result [OF rok a this, of True] obtain r' where
    r': "VmChangeCommit True a n r = Some r'" "same_region r r'"
    "\<forall>x. holds x r \<longrightarrow> committed r' x = (if unat a \<le> unat x \<and> unat x < unat a + unat n then True else committed r x)" by blast
  have c: "\<forall>x. holds x r \<longrightarrow> committed r' x = (unat a \<le> unat x \<and> unat x < unat a + unat n \<or> committed r x)" using r'(3) unfolding if_bool_eq_disj by blast
  note u = vm_inv_update [OF i found(1,3,4) r'(2)]
  have ch: "VmChangeVaReservationState rs a n VMM_ALLOC_TYPE_COMMIT R U F =
      (if PageRights r \<noteq> R then Some (STATUS_MEMORY_CONFLICTING_ACCESS_RIGHTS, rs)
       else if Uncacheable r \<noteq> U then Some (STATUS_MEMORY_CONFLICTING_CACHEABILITY, rs)
       else Some (STATUS_SUCCESS, rs\<lparr>ReservationList := xs @ r' # zs\<rparr>))"
    using found(1,2) range_okD [OF a] upd_slot_at [OF found(1), of "\<lambda>_. r'"] r'(1)
    by (simp add: VmChangeVaReservationState_def VMM_ALLOC_TYPE_RESERVE_def VMM_ALLOC_TYPE_COMMIT_def VmCommitReservation_def Let_def)
  show ?thesis
  proof (cases "PageRights r = R \<and> Uncacheable r = U")
    case True
    then show ?thesis unfolding f option.case ch using u l r'(2) c found(6)
      by (simp only: simp_thms if_False, intro exI [of _ "xs @ r' # zs"] exI [of _ "live_of xs"] exI [of _ r'] exI [of _ "live_of zs"]) simp_all
  qed (auto simp: f ch)
qed

section \<open>The interface\<close>

text \<open>The range an allocation works on and the space after the address has been chosen.\<close>

definition alloc_range :: "VMM_RESERVATION_SPACE \<Rightarrow> ADDR \<Rightarrow> QWORD \<Rightarrow> QWORD \<times> QWORD" where
  "alloc_range rs base sz = (if base \<noteq> NULL
     then (AlignAddressLower base PAGE_SIZE, AlignAddressUpper (sz + (base - AlignAddressLower base PAGE_SIZE)) PAGE_SIZE)
     else (FreeVirtualAddressPointer rs, AlignAddressUpper sz PAGE_SIZE))"

definition alloc_space :: "VMM_RESERVATION_SPACE \<Rightarrow> ADDR \<Rightarrow> QWORD \<Rightarrow> VMM_RESERVATION_SPACE" where
  "alloc_space rs base sz = (if base \<noteq> NULL then rs
     else rs\<lparr>FreeVirtualAddressPointer := FreeVirtualAddressPointer rs + AlignAddressUpper sz PAGE_SIZE\<rparr>)"

lemma vm_inv_pointer [simp]: "vm_inv (rs\<lparr>FreeVirtualAddressPointer := p\<rparr>) = vm_inv rs"
  by (simp add: vm_inv_def metadata_ok_def buffer_ok_def)

lemma alloc_space_simps [simp]:
  "vm_inv (alloc_space rs base sz) = vm_inv rs" "ReservationList (alloc_space rs base sz) = ReservationList rs"
  "FreeBitmapAddress (alloc_space rs base sz) = FreeBitmapAddress rs" "metadata_end (alloc_space rs base sz) = metadata_end rs"
  by (simp_all add: alloc_space_def metadata_end_def)

lemma alloc_unfold:
  assumes "sz \<noteq> 0" "IsFlagOn ty (VMM_ALLOC_TYPE_COMMIT OR VMM_ALLOC_TYPE_RESERVE)"
    "base = NULL \<or> StartOfVirtualAddressSpace rs \<le> AlignAddressLower base PAGE_SIZE" "alloc_range rs base sz = (b, n)"
  shows "VmReservationSpaceAllocRegion rs base sz ty R U F = do {
     (status, rs) \<leftarrow> (if IsBooleanFlagOn ty VMM_ALLOC_TYPE_RESERVE
        then VmChangeVaReservationState (alloc_space rs base sz) b n VMM_ALLOC_TYPE_RESERVE R U F else Some (STATUS_SUCCESS, alloc_space rs base sz));
     if \<not> SUCCEEDED status then Some (status, None, rs)
     else do {
       (status, rs) \<leftarrow> (if IsBooleanFlagOn ty VMM_ALLOC_TYPE_COMMIT
          then VmChangeVaReservationState rs b n VMM_ALLOC_TYPE_COMMIT R U F else Some (status, rs));
       Some (status, if SUCCEEDED status then Some (b, n) else None, rs)
     } }"
  using assms by (auto simp: VmReservationSpaceAllocRegion_def alloc_range_def alloc_space_def Let_def
      VmReservationSpaceDetermineNextFreeVirtualAddress_def not_less split: if_splits)

abbreviation VMM_ALLOC_TYPE_BOTH :: DWORD where
  "VMM_ALLOC_TYPE_BOTH \<equiv> VMM_ALLOC_TYPE_RESERVE OR VMM_ALLOC_TYPE_COMMIT"

lemma both_flags:
  "IsFlagOn VMM_ALLOC_TYPE_BOTH (VMM_ALLOC_TYPE_COMMIT OR VMM_ALLOC_TYPE_RESERVE)"
  "IsBooleanFlagOn VMM_ALLOC_TYPE_BOTH VMM_ALLOC_TYPE_RESERVE" "IsBooleanFlagOn VMM_ALLOC_TYPE_BOTH VMM_ALLOC_TYPE_COMMIT"
  by (simp_all add: IsFlagOn_def IsBooleanFlagOn_def VMM_ALLOC_TYPE_RESERVE_def VMM_ALLOC_TYPE_COMMIT_def)

lemma alloc_both_result:
  assumes i: "vm_inv rs" and sz: "sz \<noteq> 0" and base: "base = NULL \<or> StartOfVirtualAddressSpace rs \<le> AlignAddressLower base PAGE_SIZE"
    and bn: "alloc_range rs base sz = (b, n)" and a: "range_ok b n"
  shows "if \<exists>r\<in>set (live rs). inside b n r
    then VmReservationSpaceAllocRegion rs base sz VMM_ALLOC_TYPE_BOTH R U F = Some (STATUS_MEMORY_ALREADY_RESERVED, None, alloc_space rs base sz)
    else if has_slot (ReservationList rs) \<and> unat (FreeBitmapAddress rs) + bitmap_room (unat n div 4096) \<le> metadata_end rs
    then \<exists>L f as r bs. VmReservationSpaceAllocRegion rs base sz VMM_ALLOC_TYPE_BOTH R U F
           = Some (STATUS_SUCCESS, Some (b, n), (alloc_space rs base sz)\<lparr>ReservationList := L, FreeBitmapAddress := f\<rparr>)
         \<and> vm_inv ((alloc_space rs base sz)\<lparr>ReservationList := L, FreeBitmapAddress := f\<rparr>) \<and> live rs = as @ bs \<and> live_of L = as @ r # bs
         \<and> describes r b n R U F \<and> (\<forall>x. holds x r \<longrightarrow> committed r x)
    else VmReservationSpaceAllocRegion rs base sz VMM_ALLOC_TYPE_BOTH R U F = None"
proof -
  let ?rs = "alloc_space rs base sz"
  have i': "vm_inv ?rs" using i by simp
  note un = alloc_unfold [OF sz both_flags(1) base bn, of R U F] and res = reserve_result [OF i' a, of R U F]
  show ?thesis
  proof (cases "\<exists>r\<in>set (live rs). inside b n r")
    case True
    then show ?thesis using res un both_flags by simp
  next
    case nin: False
    show ?thesis
    proof (cases "has_slot (ReservationList rs) \<and> unat (FreeBitmapAddress rs) + bitmap_room (unat n div 4096) \<le> metadata_end rs")
      case False
      then show ?thesis using nin res un both_flags by auto
    next
      case True
      then obtain L f as r bs where
        r: "VmChangeVaReservationState ?rs b n VMM_ALLOC_TYPE_RESERVE R U F = Some (STATUS_SUCCESS, ?rs\<lparr>ReservationList := L, FreeBitmapAddress := f\<rparr>)"
         "vm_inv (?rs\<lparr>ReservationList := L, FreeBitmapAddress := f\<rparr>)" "live rs = as @ bs" "live_of L = as @ r # bs" "describes r b n R U F"
        using nin res by auto
      let ?rs2 = "?rs\<lparr>ReservationList := L, FreeBitmapAddress := f\<rparr>"
      have ab: "unat b + unat n < 2 ^ 64" using a by (simp add: range_ok_def)
      have rd: "reservation_ok r" "StartVa r = b" "RegionSize r = n" "PageRights r = R" "Uncacheable r = U" "ReservationState r = VmmReservationStateUsed"
        "BackingFile r = F" using r(5) by (simp_all add: describes_def)
      have "inside b n r" using inside_nat [OF rd(1) ab] rd(2,3) by (simp add: region_end_def)
      moreover have "find (inside b n) as = None" using nin r(3) by (auto simp: find_None_iff)
      ultimately have "find (inside b n) (live ?rs2) = Some r" using r(4) by (simp add: find_append)
      with commit_result [OF r(2) a, of R U F] rd(4,5) obtain L' as' r' bs' where
        c: "VmChangeVaReservationState ?rs2 b n VMM_ALLOC_TYPE_COMMIT R U F = Some (STATUS_SUCCESS, ?rs2\<lparr>ReservationList := L'\<rparr>)"
          "vm_inv (?rs2\<lparr>ReservationList := L'\<rparr>)" "live ?rs2 = as' @ r # bs'" "live_of L' = as' @ r' # bs'" "same_region r r'"
          "\<forall>y\<in>set as'. \<not> inside b n y" "\<forall>x. holds x r \<longrightarrow> committed r' x = (unat b \<le> unat x \<and> unat x < unat b + unat n \<or> committed r x)"
        by auto
      have eq: "?rs2\<lparr>ReservationList := L'\<rparr> = ?rs\<lparr>ReservationList := L', FreeBitmapAddress := f\<rparr>" by (cases ?rs) simp
      have ir: "inside b n r" by fact
      have "as' = as \<and> bs' = bs"
      proof -
        have e: "as' @ r # bs' = as @ r # bs" using c(3) r(4) by simp
        have "r \<notin> set as" "r \<notin> set as'" using ir nin r(3) c(6) by auto
        then have "takeWhile ((\<noteq>) r) (as @ r # bs) = as" "takeWhile ((\<noteq>) r) (as' @ r # bs') = as'"
          by (auto simp: takeWhile_append)
        then show ?thesis using e by auto
      qed
      then have l': "live_of L' = as @ r' # bs" using c(4) by simp
      note sr = same_regionD [OF c(5)]
      have "describes r' b n R U F" using rd sr by (simp add: describes_def)
      moreover have "\<forall>x. holds x r' \<longrightarrow> committed r' x" using c(7) sr rd by (simp add: holds_def region_end_def)
      moreover have "VmReservationSpaceAllocRegion rs base sz VMM_ALLOC_TYPE_BOTH R U F = Some (STATUS_SUCCESS, Some (b, n), ?rs\<lparr>ReservationList := L', FreeBitmapAddress := f\<rparr>)"
        unfolding un using r(1) c(1) [unfolded eq] both_flags by simp
      moreover have "vm_inv (?rs\<lparr>ReservationList := L', FreeBitmapAddress := f\<rparr>)" using c(2) unfolding eq .
      ultimately show ?thesis using nin True r(3) l' by (simp only: if_True if_False simp_thms) blast
    qed
  qed
qed

end
