(* ===== verification/Vm_Reservation_Reach.thy ===== *)
theory Vm_Reservation_Reach
  imports Vm_Reservation_Ops
begin

text \<open>
  The spaces that runs of the operations of \<^verbatim>\<open>HAL9000/src/vm_reservation_space.c\<close> reach, freeing, the buffer check of
  \<^verbatim>\<open>HAL9000/src/vmm.c\<close>, and the properties of all of them.
\<close>

section \<open>Runs with addresses chosen by the space\<close>

definition regions :: "VMM_RESERVATION_SPACE \<Rightarrow> (nat \<times> nat) list" where
  "regions rs = map (\<lambda>r. (unat (StartVa r), region_end r)) (live rs)"

definition regions_apart :: "(nat \<times> nat) list \<Rightarrow> bool" where
  "regions_apart = sorted_wrt (\<lambda>(a, b) (c, d). b \<le> c \<or> d \<le> a)"

lemma regions_pointer [simp]: "regions (rs\<lparr>FreeVirtualAddressPointer := p\<rparr>) = regions rs" "regions (alloc_space rs base sz) = regions rs"
  by (simp_all add: regions_def)

lemma reserve_regions:
  assumes i: "vm_inv rs" and a: "range_ok a n" and r: "VmChangeVaReservationState rs a n VMM_ALLOC_TYPE_RESERVE R U F = Some (s, rs')"
  shows "vm_inv rs'" "FreeVirtualAddressPointer rs' = FreeVirtualAddressPointer rs"
    "regions rs' = regions rs \<or> (\<exists>as bs. regions rs = as @ bs \<and> regions rs' = as @ (unat a, unat a + unat n) # bs)"
proof -
  have "vm_inv rs' \<and> FreeVirtualAddressPointer rs' = FreeVirtualAddressPointer rs
    \<and> (regions rs' = regions rs \<or> (\<exists>as bs. regions rs = as @ bs \<and> regions rs' = as @ (unat a, unat a + unat n) # bs))"
  proof (cases "\<exists>r\<in>set (live rs). inside a n r")
    case True
    then have "rs' = rs" using reserve_result [OF i a, of R U F] r by simp
    then show ?thesis using i by simp
  next
    case False
    with reserve_result [OF i a, of R U F] r obtain L f as x bs where
      x: "rs' = rs\<lparr>ReservationList := L, FreeBitmapAddress := f\<rparr>" "vm_inv rs'" "live rs = as @ bs" "live_of L = as @ x # bs" "describes x a n R U F"
      by (auto split: if_splits)
    have "regions rs = map (\<lambda>r. (unat (StartVa r), region_end r)) as @ map (\<lambda>r. (unat (StartVa r), region_end r)) bs"
      "regions rs' = map (\<lambda>r. (unat (StartVa r), region_end r)) as @ (unat a, unat a + unat n) # map (\<lambda>r. (unat (StartVa r), region_end r)) bs"
      using x by (simp_all add: regions_def describes_def region_end_def)
    then show ?thesis using x(1,2) by auto
  qed
  then show "vm_inv rs'" "FreeVirtualAddressPointer rs' = FreeVirtualAddressPointer rs"
    "regions rs' = regions rs \<or> (\<exists>as bs. regions rs = as @ bs \<and> regions rs' = as @ (unat a, unat a + unat n) # bs)" by blast+
qed

lemma commit_regions:
  assumes i: "vm_inv rs" and a: "range_ok a n" and r: "VmChangeVaReservationState rs a n VMM_ALLOC_TYPE_COMMIT R U F = Some (s, rs')"
  shows "vm_inv rs' \<and> FreeVirtualAddressPointer rs' = FreeVirtualAddressPointer rs \<and> regions rs' = regions rs"
proof (cases "find (inside a n) (live rs)")
  case None
  then have "rs' = rs" using commit_result [OF i a, of R U F] r by simp
  then show ?thesis using i by simp
next
  case (Some x)
  show ?thesis
  proof (cases "PageRights x = R \<and> Uncacheable x = U")
    case True
    with Some commit_result [OF i a, of R U F] r obtain L as y bs where
      y: "rs' = rs\<lparr>ReservationList := L\<rparr>" "vm_inv rs'" "live rs = as @ x # bs" "live_of L = as @ y # bs" "same_region x y" by auto
    then show ?thesis using same_regionD(1,11) [OF y(5)] by (simp add: regions_def)
  next
    case False
    then have "rs' = rs" using Some commit_result [OF i a, of R U F] r by (auto split: if_splits)
    then show ?thesis using i by simp
  qed
qed

lemma alloc_regions:
  assumes i: "vm_inv rs" and bn: "alloc_range rs base sz = (b, n)" and a: "range_ok b n"
    and r: "VmReservationSpaceAllocRegion rs base sz ty R U F = Some (s, ou, rs')"
    and base: "base = NULL \<or> StartOfVirtualAddressSpace rs \<le> AlignAddressLower base PAGE_SIZE"
  shows "vm_inv rs' \<and> FreeVirtualAddressPointer rs' = FreeVirtualAddressPointer (alloc_space rs base sz)
    \<and> (regions rs' = regions rs \<or> (\<exists>as bs. regions rs = as @ bs \<and> regions rs' = as @ (unat b, unat b + unat n) # bs))"
proof -
  have f: "sz \<noteq> 0" "IsFlagOn ty (VMM_ALLOC_TYPE_COMMIT OR VMM_ALLOC_TYPE_RESERVE)"
    using r by (auto simp: VmReservationSpaceAllocRegion_def ASSERT_def split: if_splits)
  let ?rs = "alloc_space rs base sz"
  have i': "vm_inv ?rs" using i by simp
  obtain s1 rs1 where s1: "(if IsBooleanFlagOn ty VMM_ALLOC_TYPE_RESERVE then VmChangeVaReservationState ?rs b n VMM_ALLOC_TYPE_RESERVE R U F
      else Some (STATUS_SUCCESS, ?rs)) = Some (s1, rs1)"
    and s2: "(if \<not> SUCCEEDED s1 then Some (s1, None, rs1)
     else do {
       (status, rs) \<leftarrow> (if IsBooleanFlagOn ty VMM_ALLOC_TYPE_COMMIT then VmChangeVaReservationState rs1 b n VMM_ALLOC_TYPE_COMMIT R U F else Some (s1, rs1));
       Some (status, if SUCCEEDED status then Some (b, n) else None, rs)
     }) = Some (s, ou, rs')"
    using r unfolding alloc_unfold [OF f base bn] by (auto split: bind_splits)
  have 1: "vm_inv rs1" "FreeVirtualAddressPointer rs1 = FreeVirtualAddressPointer ?rs"
    "regions rs1 = regions rs \<or> (\<exists>as bs. regions rs = as @ bs \<and> regions rs1 = as @ (unat b, unat b + unat n) # bs)"
    using s1 i' reserve_regions [OF i' a, of R U F s1 rs1] by (auto split: if_splits)
  have "vm_inv rs' \<and> FreeVirtualAddressPointer rs' = FreeVirtualAddressPointer rs1 \<and> regions rs' = regions rs1"
    using s2 1(1) commit_regions [OF 1(1) a, of R U F s rs'] by (auto split: if_splits bind_splits)
  then show ?thesis using 1 by auto
qed

lemma free_regions:
  assumes i: "vm_inv rs" and a: "unat a + 1 < 2 ^ 64" and r: "VmReservationSpaceFreeRegion rs a sz ty = Some (ou, u, rs')"
  shows "vm_inv rs' \<and> FreeVirtualAddressPointer rs' = FreeVirtualAddressPointer rs
    \<and> (regions rs' = regions rs \<or> (\<exists>as x bs. regions rs = as @ x # bs \<and> regions rs' = as @ bs))"
proof -
  have a0: "a \<noteq> NULL" using r by (auto simp: VmReservationSpaceFreeRegion_def ASSERT_def split: if_splits)
  show ?thesis
  proof (cases rule: find_reservation_cases [OF a0 one_neq_zero, of rs, case_names none found])
    case none
    then show ?thesis using r by (auto simp: VmReservationSpaceFreeRegion_def ASSERT_def split: if_splits)
  next
    case (found xs x zs)
    note l = live_split [OF found(1,3,4)]
    have xok: "reservation_ok x" using vm_invD(3) [OF i] l by simp
    have u: "upd_slot rs (length xs) f = Some (rs\<lparr>ReservationList := xs @ f x # zs\<rparr>)" for f by (rule upd_slot_at [OF found(1)])
    show ?thesis
    proof (cases "IsBooleanFlagOn ty VMM_FREE_TYPE_RELEASE")
      case True
      then have e: "rs' = rs\<lparr>ReservationList := xs @ zero_reservation # zs\<rparr>"
        using r found(1,2) u by (auto simp: VmReservationSpaceFreeRegion_def ASSERT_def Let_def split: if_splits bind_splits)
      have z: "ReservationState zero_reservation = VmmReservationStateFree" by (simp add: zero_reservation_def)
      note v = vm_inv_remove [OF i found(1,3,4) z]
      have "regions rs' = map (\<lambda>r. (unat (StartVa r), region_end r)) (live_of xs) @ map (\<lambda>r. (unat (StartVa r), region_end r)) (live_of zs)"
        using v(2) e by (simp add: regions_def)
      moreover have "regions rs = map (\<lambda>r. (unat (StartVa r), region_end r)) (live_of xs) @ (unat (StartVa x), region_end x)
          # map (\<lambda>r. (unat (StartVa r), region_end r)) (live_of zs)" using l by (simp add: regions_def)
      ultimately show ?thesis using v(1) e by auto
    next
      case False
      then obtain y b n where e: "rs' = rs\<lparr>ReservationList := xs @ y # zs\<rparr>" "VmDecommitReservation b n x = Some y"
        using r found(1,2) u by (auto simp: VmReservationSpaceFreeRegion_def ASSERT_def Let_def split: if_splits bind_splits)
      have s: "same_region x y" using change_commit_shape [OF xok] e(2) by (simp add: VmDecommitReservation_def)
      note v = vm_inv_update [OF i found(1,3,4) s]
      have "regions rs' = regions rs" using v(2) e l same_regionD(1,11) [OF s] by (simp add: regions_def)
      then show ?thesis using v(1) e by simp
    qed
  qed
qed

text \<open>The spaces reached from initialisation by allocations whose address the space chooses and by frees.
  The metadata area is a multiple of five pages, so that the fifth of it that holds the array ends
  at a page boundary.\<close>

inductive vm_reach :: "VMM_RESERVATION_SPACE \<Rightarrow> bool" where
  init: "VmReservationSpaceInit base first sz mem = Some rs \<Longrightarrow> VmReservationSpaceFinishInit rs = Some rs'
     \<Longrightarrow> unat sz mod 20480 = 0 \<Longrightarrow> unat base + unat sz + 2 ^ 32 < 2 ^ 64 \<Longrightarrow> unat first mod 4096 = 0 \<Longrightarrow> vm_reach rs'"
| alloc: "vm_reach rs \<Longrightarrow> VmReservationSpaceAllocRegion rs NULL sz ty R U F = Some (s, ou, rs')
     \<Longrightarrow> unat (FreeVirtualAddressPointer rs) + unat sz + 4096 < 2 ^ 64 \<Longrightarrow> unat sz + 4096 < 2 ^ 44 \<Longrightarrow> vm_reach rs'"
| free: "vm_reach rs \<Longrightarrow> VmReservationSpaceFreeRegion rs a sz ty = Some (ou, u, rs') \<Longrightarrow> unat a + 1 < 2 ^ 64 \<Longrightarrow> vm_reach rs'"

definition vm_good :: "VMM_RESERVATION_SPACE \<Rightarrow> bool" where
  "vm_good rs \<longleftrightarrow> vm_inv rs \<and> regions_apart (regions rs)
     \<and> (\<forall>(a, b)\<in>set (regions rs). b \<le> unat (FreeVirtualAddressPointer rs))
     \<and> 0 < unat (FreeVirtualAddressPointer rs) \<and> unat (FreeVirtualAddressPointer rs) mod 4096 = 0"

lemma range_auto:
  assumes p: "0 < unat p" "unat p mod 4096 = 0" "unat p + unat sz + 4096 < 2 ^ 64" and sz: "sz \<noteq> 0" "unat sz + 4096 < 2 ^ 44"
  shows "range_ok p (AlignAddressUpper sz PAGE_SIZE)" "unat (AlignAddressUpper sz PAGE_SIZE) = page_up (unat sz)"
    "unat (p + AlignAddressUpper sz PAGE_SIZE) = unat p + page_up (unat sz)"
proof -
  show u: "unat (AlignAddressUpper sz PAGE_SIZE) = page_up (unat sz)" by (rule page_upper) (use p(3) in simp)
  note b = page_up_bounds [of "unat sz"]
  have "page_up (unat sz) div 4096 < 2 ^ 32" using b(2) sz(2) by (intro less_mult_imp_div_less) simp
  moreover have "0 < unat sz" using sz(1) by (simp add: unat_gt_0)
  ultimately show "range_ok p (AlignAddressUpper sz PAGE_SIZE)" using p b u by (simp add: range_ok_def)
  show "unat (p + AlignAddressUpper sz PAGE_SIZE) = unat p + page_up (unat sz)"
    using unat_add_below [of p "AlignAddressUpper sz PAGE_SIZE"] u b p by simp
qed

lemma init_good:
  assumes r: "VmReservationSpaceInit base first sz mem = Some rs" "VmReservationSpaceFinishInit rs = Some rs'"
    and sz: "unat sz mod 20480 = 0" "unat base + unat sz + 2 ^ 32 < 2 ^ 64" and f: "unat first mod 4096 = 0"
  shows "vm_good rs'"
proof -
  obtain k where k: "unat sz = 20480 * k" using sz(1) by (metis mod_0_imp_dvd dvd_def)
  from r(1) obtain l where l: "CalculatePercentage sz RESERVATION_LIST_PERCENTAGE_IN_HUNDREDS = Some l" and b: "base \<noteq> NULL" "unat base mod 4096 = 0"
    by (auto simp: VmReservationSpaceInit_def page_aligned ASSERT_def split: if_splits bind_splits)
  have "unat l = unat sz * 2000 div 10000" "l \<le> sz"
    using CalculatePercentage_value [OF l] by (simp_all add: RESERVATION_LIST_PERCENTAGE_IN_HUNDREDS_def)
  then have ul: "unat l = 4096 * k" "unat l \<le> unat sz" by (simp_all add: k word_le_nat_alt)
  have u: "unat (base + l) = unat base + unat l" "unat (base + sz) = unat base + unat sz"
    using unat_add_below [of base l] unat_add_below [of base sz] ul(2) sz(2) by auto
  from r obtain p L where rs': "rs' = \<lparr>FreeVirtualAddressPointer = p, StartOfVirtualAddressSpace = p, BitmapAddressStart = base + l,
       ReservedAreaSize = sz, FreeBitmapAddress = base + l, ReservationListAddress = base, ReservationList = L\<rparr>"
     and p: "p = (if first = NULL then base + sz else first)" and L: "\<exists>x xs. L = x # xs \<and> ReservationState x = VmmReservationStateLast"
    by (auto simp: VmReservationSpaceInit_def VmReservationSpaceFinishInit_def upd_slot_def l Let_def ASSERT_def neq_Nil_conv
        split: if_splits bind_splits)
  have lv: "live rs' = []" "\<not> open_slots L" using L by (auto simp: rs')
  have "unat (base + l) mod 4096 = 0" using u b ul by (simp add: mod_add_left_eq [symmetric] flip: mult.commute)
  then have "metadata_ok rs'" using u ul sz(2) by (simp add: metadata_ok_def rs')
  moreover have "0 < unat p"
  proof -
    have "unat base \<noteq> 0" using b(1) by (simp add: unat_eq_0)
    then show ?thesis using p u(2) by (cases "first = NULL") (simp_all add: unat_gt_0)
  qed
  moreover have "unat p mod 4096 = 0" using p f u b k by (auto simp: mod_add_left_eq [symmetric])
  ultimately show ?thesis using lv by (simp add: vm_good_def vm_inv_def regions_def regions_apart_def rs')
qed

lemma reach_good: "vm_reach rs \<Longrightarrow> vm_good rs"
proof (induction rule: vm_reach.induct)
  case (init base first sz mem rs rs')
  then show ?case by (rule init_good)
next
  case (alloc rs sz ty R U F s ou rs')
  let ?p = "FreeVirtualAddressPointer rs" and ?n = "AlignAddressUpper sz PAGE_SIZE"
  note g = alloc.IH [unfolded vm_good_def]
  have sz: "sz \<noteq> 0" using alloc.hyps(2) by (auto simp: VmReservationSpaceAllocRegion_def ASSERT_def split: if_splits)
  note ra = range_auto [OF _ _ alloc.hyps(3) sz alloc.hyps(4)]
  have bn: "alloc_range rs NULL sz = (?p, ?n)" by (simp add: alloc_range_def)
  have v: "vm_inv rs'" "FreeVirtualAddressPointer rs' = FreeVirtualAddressPointer (alloc_space rs NULL sz)"
    "regions rs' = regions rs \<or> (\<exists>as bs. regions rs = as @ bs \<and> regions rs' = as @ (unat ?p, unat ?p + unat ?n) # bs)"
    using alloc_regions [OF _ bn _ alloc.hyps(2)] ra(1) g by auto
  have p: "unat (FreeVirtualAddressPointer rs') = unat ?p + page_up (unat sz)" using v(2) ra(3) g by (simp add: alloc_space_def)
  have n: "unat ?n = page_up (unat sz)" using ra(2) g by simp
  have "set (regions rs') \<subseteq> insert (unat ?p, unat ?p + page_up (unat sz)) (set (regions rs))" using v(3) n by auto
  moreover have "b \<le> unat (FreeVirtualAddressPointer rs')" if "(a, b) \<in> set (regions rs)" for a b using g p that by fastforce
  ultimately have below: "\<forall>(a, b)\<in>set (regions rs'). b \<le> unat (FreeVirtualAddressPointer rs')" using p by auto
  have "regions_apart (regions rs')"
    using v(3)
  proof (elim disjE exE conjE)
    fix as bs assume "regions rs = as @ bs" "regions rs' = as @ (unat ?p, unat ?p + unat ?n) # bs"
    then show ?thesis using g by (fastforce simp: regions_apart_def sorted_wrt_append)
  qed (use g in simp)
  moreover have "unat (FreeVirtualAddressPointer rs') mod 4096 = 0" using p g page_up_bounds(3) [of "unat sz"] by (simp add: mod_add_eq [symmetric])
  ultimately show ?case using v(1) below p g by (simp add: vm_good_def)
next
  case (free rs a sz ty ou u rs')
  note g = free.IH [unfolded vm_good_def]
  have v: "vm_inv rs'" "FreeVirtualAddressPointer rs' = FreeVirtualAddressPointer rs"
    "regions rs' = regions rs \<or> (\<exists>as x bs. regions rs = as @ x # bs \<and> regions rs' = as @ bs)"
    using free_regions [OF _ free.hyps(3,2)] g by auto
  have "regions_apart (regions rs') \<and> set (regions rs') \<subseteq> set (regions rs)"
    using v(3) g by (auto simp: regions_apart_def sorted_wrt_append)
  then show ?case using v(1,2) g by (auto simp: vm_good_def)
qed

lemma reach_alloc:
  assumes r: "vm_reach rs" and sz: "0 < unat sz" "unat (FreeVirtualAddressPointer rs) + unat sz + 4096 < 2 ^ 64" "unat sz + 4096 < 2 ^ 44"
  shows "if has_slot (ReservationList rs) \<and> unat (FreeBitmapAddress rs) + bitmap_room (page_up (unat sz) div 4096) \<le> metadata_end rs
    then \<exists>n rs' as r bs. VmReservationSpaceAllocRegion rs NULL sz VMM_ALLOC_TYPE_BOTH R U F = Some (STATUS_SUCCESS, Some (FreeVirtualAddressPointer rs, n), rs')
      \<and> unat n = page_up (unat sz) \<and> unat (FreeVirtualAddressPointer rs') = unat (FreeVirtualAddressPointer rs) + unat n
      \<and> live rs = as @ bs \<and> live rs' = as @ r # bs \<and> describes r (FreeVirtualAddressPointer rs) n R U F
      \<and> (\<forall>x. holds x r \<longrightarrow> committed r x) \<and> (\<forall>y\<in>set (live rs). region_end y \<le> unat (StartVa r))
    else VmReservationSpaceAllocRegion rs NULL sz VMM_ALLOC_TYPE_BOTH R U F = None"
proof -
  let ?p = "FreeVirtualAddressPointer rs" and ?n = "AlignAddressUpper sz PAGE_SIZE"
  note g = reach_good [OF r, unfolded vm_good_def]
  have s0: "sz \<noteq> 0" using sz(1) by auto
  have ra: "range_ok ?p ?n" "unat ?n = page_up (unat sz)" "unat (?p + ?n) = unat ?p + page_up (unat sz)"
    using range_auto [OF _ _ sz(2) s0 sz(3)] g by auto
  have bn: "alloc_range rs NULL sz = (?p, ?n)" by (simp add: alloc_range_def)
  have below: "region_end y \<le> unat ?p" if "y \<in> set (live rs)" for y using g that by (force simp: regions_def)
  have p: "0 < unat ?n" "unat ?p + unat ?n < 2 ^ 64" using ra(1) by (simp_all add: range_ok_def)
  have nin: "\<not> (\<exists>r\<in>set (live rs). inside ?p ?n r)"
  proof (intro notI, elim bexE)
    fix y assume y: "y \<in> set (live rs)" "inside ?p ?n y"
    have "reservation_ok y" using vm_invD(3) y(1) g by blast
    from inside_nat [OF this p(2)] y(2) have "unat ?p + unat ?n \<le> region_end y" by blast
    then show False using below [OF y(1)] p(1) by simp
  qed
  have i: "vm_inv rs" using g by blast
  note ar = alloc_both_result [OF i s0 _ bn ra(1), of R U F]
  show ?thesis
  proof (cases "has_slot (ReservationList rs) \<and> unat (FreeBitmapAddress rs) + bitmap_room (page_up (unat sz) div 4096) \<le> metadata_end rs")
    case True
    then obtain L f as x bs where x: "VmReservationSpaceAllocRegion rs NULL sz VMM_ALLOC_TYPE_BOTH R U F
           = Some (STATUS_SUCCESS, Some (?p, ?n), (alloc_space rs NULL sz)\<lparr>ReservationList := L, FreeBitmapAddress := f\<rparr>)"
      "live rs = as @ bs" "live_of L = as @ x # bs" "describes x ?p ?n R U F" "\<forall>y. holds y x \<longrightarrow> committed x y"
      using ar nin ra(2) by auto
    have "unat (FreeVirtualAddressPointer ((alloc_space rs NULL sz)\<lparr>ReservationList := L, FreeBitmapAddress := f\<rparr>)) = unat ?p + unat ?n"
      using ra(2,3) by (simp add: alloc_space_def)
    moreover have "live ((alloc_space rs NULL sz)\<lparr>ReservationList := L, FreeBitmapAddress := f\<rparr>) = as @ x # bs" using x(3) by simp
    moreover have "\<forall>y\<in>set (live rs). region_end y \<le> unat (StartVa x)" using below x(4) by (simp add: describes_def)
    ultimately show ?thesis unfolding if_P [OF True] using x(1,2,4,5) ra(2) by blast
  next
    case False
    then show ?thesis using ar nin ra(2) by auto
  qed
qed

section \<open>Freeing\<close>

lemma release_flags:
  "IsBooleanFlagOn VMM_FREE_TYPE_RELEASE VMM_FREE_TYPE_RELEASE" "\<not> IsBooleanFlagOn VMM_FREE_TYPE_RELEASE VMM_FREE_TYPE_DECOMMIT"
  "IsBooleanFlagOn VMM_FREE_TYPE_DECOMMIT VMM_FREE_TYPE_DECOMMIT" "\<not> IsBooleanFlagOn VMM_FREE_TYPE_DECOMMIT VMM_FREE_TYPE_RELEASE"
  by (simp_all add: IsBooleanFlagOn_def VMM_FREE_TYPE_RELEASE_def VMM_FREE_TYPE_DECOMMIT_def)

lemma release_result:
  assumes i: "vm_inv rs" and a: "a \<noteq> NULL" "unat a + 1 < 2 ^ 64"
  shows "case find (holds a) (live rs) of None \<Rightarrow> VmReservationSpaceFreeRegion rs a 0 VMM_FREE_TYPE_RELEASE = None
    | Some r \<Rightarrow> \<exists>L as bs. VmReservationSpaceFreeRegion rs a 0 VMM_FREE_TYPE_RELEASE = Some ((StartVa r, RegionSize r),
          Some \<lparr>unmap_address = CommitBitmapAddress r, unmap_size = BufferSize (CommitBitmap r),
            close_file = (if BackingFile r \<noteq> NULL then Some (BackingFile r) else None)\<rparr>, rs\<lparr>ReservationList := L\<rparr>)
        \<and> vm_inv (rs\<lparr>ReservationList := L\<rparr>) \<and> live rs = as @ r # bs \<and> live_of L = as @ bs"
proof (cases rule: find_holds_cases [OF i a, case_names none found])
  case none
  then show ?thesis using a release_flags by (simp add: VmReservationSpaceFreeRegion_def)
next
  case (found xs r zs)
  have z: "ReservationState zero_reservation = VmmReservationStateFree" by (simp add: zero_reservation_def)
  have al: "IsAddressAligned (CommitBitmapAddress r) PAGE_SIZE"
    using vm_invD(4) [OF i, of r] found(7) by (simp add: buffer_ok_def buffer_start_def page_aligned)
  have "VmReservationSpaceFreeRegion rs a 0 VMM_FREE_TYPE_RELEASE = Some ((StartVa r, RegionSize r),
      Some \<lparr>unmap_address = CommitBitmapAddress r, unmap_size = BufferSize (CommitBitmap r),
        close_file = (if BackingFile r \<noteq> NULL then Some (BackingFile r) else None)\<rparr>, rs\<lparr>ReservationList := xs @ zero_reservation # zs\<rparr>)"
    using found(1,2) a release_flags al upd_slot_at [OF found(1), of "\<lambda>_. zero_reservation"]
    by (simp add: VmReservationSpaceFreeRegion_def Let_def VmUninitializeReservation_def)
  with vm_inv_remove [OF i found(1,3,4) z] found(5,7) show ?thesis by auto
qed

lemma decommit_result:
  assumes i: "vm_inv rs" and a: "range_ok a n" and r: "find (holds a) (live rs) = Some r" and e: "unat a + unat n \<le> region_end r"
  shows "\<exists>L as r' bs. VmReservationSpaceFreeRegion rs a n VMM_FREE_TYPE_DECOMMIT = Some ((a, n), None, rs\<lparr>ReservationList := L\<rparr>)
    \<and> vm_inv (rs\<lparr>ReservationList := L\<rparr>) \<and> live rs = as @ r # bs \<and> live_of L = as @ r' # bs \<and> same_region r r'
    \<and> (\<forall>x. holds x r \<longrightarrow> committed r' x = (\<not> (unat a \<le> unat x \<and> unat x < unat a + unat n) \<and> committed r x))"
proof -
  note d = range_okD [OF a]
  have a1: "unat a + 1 < 2 ^ 64" "unat n mod 4096 = 0" "unat a mod 4096 = 0" using a by (auto simp: range_ok_def)
  show ?thesis
  proof (cases rule: find_holds_cases [OF i d(1) a1(1), case_names none found])
    case none
    then show ?thesis using r by simp
  next
    case (found xs s zs)
    then have s: "s = r" using r by simp
    have lo: "AlignAddressLower a PAGE_SIZE = a" using page_lower [of a] a1(3) by (simp add: word_unat_eq_iff)
    have "unat n + 4096 < 2 ^ 64"
    proof -
      have "unat n div 4096 < 2 ^ 32" using a by (simp add: range_ok_def)
      then have "unat n < 2 ^ 44" by (simp add: div_less_iff_less_mult)
      then show ?thesis by simp
    qed
    then have up: "AlignAddressUpper n PAGE_SIZE = n"
      using page_upper [of n] page_up_unique [of "unat n" "unat n"] a1(2) by (simp add: word_unat_eq_iff)
    have "unat (StartVa r) \<le> unat a" using found(6) s by (simp add: holds_def)
    from change_commit_result [OF found(8) [unfolded s] a this e, of False] obtain r' where
      r': "VmChangeCommit False a n r = Some r'" "same_region r r'"
      "\<forall>x. holds x r \<longrightarrow> committed r' x = (if unat a \<le> unat x \<and> unat x < unat a + unat n then False else committed r x)" by blast
    have c: "\<forall>x. holds x r \<longrightarrow> committed r' x = (\<not> (unat a \<le> unat x \<and> unat x < unat a + unat n) \<and> committed r x)"
      using r'(3) unfolding if_bool_eq_conj by blast
    have "VmReservationSpaceFreeRegion rs a n VMM_FREE_TYPE_DECOMMIT = Some ((a, n), None, rs\<lparr>ReservationList := xs @ r' # zs\<rparr>)"
      using found(1,2) d(1,2) release_flags r'(1) upd_slot_at [OF found(1), of "\<lambda>_. r'"] lo up s
      by (simp add: VmReservationSpaceFreeRegion_def Let_def VmDecommitReservation_def)
    moreover note vm_inv_update [OF i found(1,3,4), unfolded s, OF r'(2)]
    ultimately show ?thesis using found(7) s r'(2) c by blast
  qed
qed

section \<open>The buffer check\<close>

lemma rights_loop:
  assumes r: "reservation_ok r" and a: "unat (StartVa r) \<le> unat a" "unat a + unat n \<le> region_end r"
  shows "unat i = 4096 * k \<Longrightarrow> VmRights_loop r a n i = Some (\<forall>j\<ge>k. 4096 * j < unat n \<longrightarrow> committed r (a + of_nat (4096 * j)))"
proof (induction "unat n - unat i" arbitrary: i k rule: less_induct)
  case less
  have z: "region_end r < 2 ^ 64" "unat (RegionSize r) < 2 ^ 44" using r by (auto simp: reservation_ok_def div_less_iff_less_mult)
  show ?case
  proof (cases "i < n")
    case False
    then have "unat n \<le> 4096 * k" using less.prems by (simp add: word_less_nat_alt)
    then show ?thesis using False by (subst VmRights_loop.simps) auto
  next
    case True
    then have lt: "4096 * k < unat n" using less.prems by (simp add: word_less_nat_alt)
    have n: "unat n < 2 ^ 44" using a z by (simp add: region_end_def)
    have ie: "i = of_nat (4096 * k)" unfolding less.prems [symmetric] by simp
    have ai: "unat (a + i) = unat a + 4096 * k" using unat_add_below [of a i] less.prems lt a(2) z(1) by simp
    then have h: "holds (a + i) r" using a lt by (simp add: holds_def)
    have u: "unat (i + PAGE_SIZE) = 4096 * Suc k" using unat_add_below [of i PAGE_SIZE] less.prems lt n by simp
    have IH: "VmRights_loop r a n (i + PAGE_SIZE) = Some (\<forall>j\<ge>Suc k. 4096 * j < unat n \<longrightarrow> committed r (a + of_nat (4096 * j)))"
      by (rule less.hyps [OF _ u]) (use less.prems lt u in simp)
    have split: "(\<forall>j\<ge>k. 4096 * j < unat n \<longrightarrow> committed r (a + of_nat (4096 * j))) \<longleftrightarrow> committed r (a + i)
        \<and> (\<forall>j\<ge>Suc k. 4096 * j < unat n \<longrightarrow> committed r (a + of_nat (4096 * j)))"
      using lt ie by (auto simp: Suc_le_eq) (metis le_neq_implies_less)
    show ?thesis unfolding split using True VmIsVaCommited_result [OF r h] IH by (subst VmRights_loop.simps) auto
  qed
qed

lemma rights_result:
  assumes i: "vm_inv rs" and a: "a \<noteq> NULL" "n \<noteq> 0" "unat a + unat n < 2 ^ 64"
  shows "VmReservationReturnRightsForAddress rs a n = Some (case find (inside a n) (live rs) of
      None \<Rightarrow> (STATUS_MEMORY_IS_NOT_COMMITED, None)
    | Some r \<Rightarrow> (if \<forall>j. 4096 * j < unat n \<longrightarrow> committed r (a + of_nat (4096 * j)) then STATUS_SUCCESS else STATUS_MEMORY_IS_NOT_COMMITED,
        Some (PageRights r)))"
proof (cases rule: find_reservation_cases [OF a(1,2), of rs, case_names none found])
  case none
  then have "find (inside a n) (live rs) = None" by (auto simp: find_None_iff)
  then show ?thesis using none(1) a by (simp add: VmReservationReturnRightsForAddress_def)
next
  case (found xs r zs)
  note l = live_split [OF found(1,3,4)]
  have "find (inside a n) (live_of xs) = None" using found(6) by (auto simp: find_None_iff)
  then have f: "find (inside a n) (live rs) = Some r" unfolding l using found(5) by (simp add: find_append)
  have rok: "reservation_ok r" using vm_invD(3) [OF i] l by simp
  have "unat (StartVa r) \<le> unat a" "unat a + unat n \<le> region_end r" using inside_nat [OF rok a(3)] found(5) by auto
  from rights_loop [OF rok this, of 0 0] show ?thesis
    unfolding f using found(1,2) a by (simp add: VmReservationReturnRightsForAddress_def Let_def)
qed

lemma aligned_pages_committed:
  assumes r: "reservation_ok r" and a: "unat (StartVa r) \<le> unat a" "unat a + unat (n::QWORD) \<le> region_end r" "unat a mod 4096 = 0"
  shows "(\<forall>j. 4096 * j < unat n \<longrightarrow> committed r (a + of_nat (4096 * j)))
    \<longleftrightarrow> (\<forall>x::QWORD. unat a \<le> unat x \<and> unat x < unat a + unat n \<longrightarrow> committed r x)"
proof -
  obtain A s where m: "unat a = 4096 * A" "unat (StartVa r) = 4096 * s" using a(3) r page_multiple by (metis reservation_ok_def)
  have z: "region_end r < 2 ^ 64" using r by (simp add: reservation_ok_def)
  have u: "unat (a + of_nat (4096 * j)) = 4096 * (A + j)" if "4096 * j < unat n" for j
  proof -
    have "unat (of_nat (4096 * j) :: QWORD) = 4096 * j" by (rule unat_of_nat_small) (use that unat64_bound [of n] in simp)
    then show ?thesis using unat_add_below [of a "of_nat (4096 * j)"] that a(2) z m by simp
  qed
  show ?thesis
  proof (intro iffI allI impI)
    fix x :: QWORD assume c: "\<forall>j. 4096 * j < unat n \<longrightarrow> committed r (a + of_nat (4096 * j))" and x: "unat a \<le> unat x \<and> unat x < unat a + unat n"
    let ?j = "(unat x - unat a) div 4096"
    have j: "4096 * ?j \<le> unat x - unat a" by simp
    then have jn: "4096 * ?j < unat n" using x by linarith
    have sA: "s \<le> A" using a(1) m by simp
    have "unat x - 4096 * s = (unat x - unat a) + 4096 * (A - s)" using x m sA by (simp add: diff_mult_distrib2)
    then have "(unat x - 4096 * s) div 4096 = ?j + (A - s)" by simp
    moreover have "(4096 * (A + ?j) - 4096 * s) div 4096 = A + ?j - s" by (simp flip: diff_mult_distrib2)
    ultimately have "(unat x - unat (StartVa r)) div 4096 = (unat (a + of_nat (4096 * ?j)) - unat (StartVa r)) div 4096"
      using u [OF jn] m(2) sA by (simp add: add.commute)
    then show "committed r x" using c jn by (simp add: committed_def)
  next
    fix j assume c: "\<forall>x::QWORD. unat a \<le> unat x \<and> unat x < unat a + unat n \<longrightarrow> committed r x" and j: "4096 * j < unat n"
    show "committed r (a + of_nat (4096 * j))" using c u [OF j] m j by simp
  qed
qed

section \<open>Properties\<close>

definition sample_space :: VMM_RESERVATION_SPACE where
  "sample_space = the (Option.bind (VmReservationSpaceInit 0x10000 0x100000 20480 (\<lambda>_. zero_reservation)) VmReservationSpaceFinishInit)"

lemma sample_space_values:
  "FreeVirtualAddressPointer sample_space = 0x100000" "FreeBitmapAddress sample_space = 0x11000"
  "ReservationListAddress sample_space = 0x10000" "ReservedAreaSize sample_space = 20480" "has_slot (ReservationList sample_space)"
  by code_simp+

lemma sample_space_reach: "vm_reach sample_space"
proof -
  have "map_option (\<lambda>_. ()) (Option.bind (VmReservationSpaceInit 0x10000 0x100000 20480 (\<lambda>_. zero_reservation)) VmReservationSpaceFinishInit) = Some ()"
    by code_simp
  then obtain rs rs' where r: "VmReservationSpaceInit 0x10000 0x100000 20480 (\<lambda>_. zero_reservation) = Some rs" "VmReservationSpaceFinishInit rs = Some rs'"
    by (auto split: bind_splits)
  then have "sample_space = rs'" by (simp add: sample_space_def)
  then show ?thesis using vm_reach.init [OF r] by simp
qed

text \<open>The space after one allocation of 0x1800 bytes at an address it chooses, and the range that it returned.\<close>

definition sample_alloc :: "STATUS \<times> (QWORD \<times> QWORD) option \<times> VMM_RESERVATION_SPACE" where
  "sample_alloc = the (VmReservationSpaceAllocRegion sample_space NULL 0x1800 VMM_ALLOC_TYPE_BOTH PAGE_RIGHTS_READWRITE False NULL)"

abbreviation sample_space2 :: VMM_RESERVATION_SPACE where
  "sample_space2 \<equiv> snd (snd sample_alloc)"

lemma sample_alloc_result:
  "VmReservationSpaceAllocRegion sample_space NULL 0x1800 VMM_ALLOC_TYPE_BOTH PAGE_RIGHTS_READWRITE False NULL = Some sample_alloc"
  "fst sample_alloc = STATUS_SUCCESS" "fst (snd sample_alloc) = Some (0x100000, 0x2000)"
proof -
  have "map_option (\<lambda>_. ()) (VmReservationSpaceAllocRegion sample_space NULL 0x1800 VMM_ALLOC_TYPE_BOTH PAGE_RIGHTS_READWRITE False NULL) = Some ()"
    by code_simp
  then show "VmReservationSpaceAllocRegion sample_space NULL 0x1800 VMM_ALLOC_TYPE_BOTH PAGE_RIGHTS_READWRITE False NULL = Some sample_alloc"
    unfolding sample_alloc_def by auto
  show "fst sample_alloc = STATUS_SUCCESS" "fst (snd sample_alloc) = Some (0x100000, 0x2000)" by code_simp+
qed

lemma sample_space2_reach: "vm_reach sample_space2"
proof -
  obtain s ou rs where e: "sample_alloc = (s, ou, rs)" by (cases sample_alloc)
  show ?thesis unfolding e snd_conv
    by (rule vm_reach.alloc [OF sample_space_reach sample_alloc_result(1) [unfolded e]]) (simp_all add: sample_space_values)
qed

text \<open>C6. In every space reached from initialisation by allocations whose address the space chooses and by frees, the
  live reservations are page aligned, not empty and pairwise disjoint, and all end below the address the
  next allocation gets; the commit bitmap of each has one bit per page, and the buffers of the bitmaps do not
  overlap and lie in the metadata area behind the array.\<close>

theorem vm_regions_disjoint:
  assumes "vm_reach rs"
  shows "regions_apart (regions rs) \<and> sorted_wrt buffers_apart (live rs)
    \<and> (\<forall>r\<in>set (live rs). unat (StartVa r) mod 4096 = 0 \<and> unat (RegionSize r) mod 4096 = 0 \<and> 0 < unat (RegionSize r)
        \<and> region_end r \<le> unat (FreeVirtualAddressPointer rs) \<and> unat (BitCount (CommitBitmap r)) = unat (RegionSize r) div 4096
        \<and> unat (BitmapAddressStart rs) \<le> buffer_start r \<and> buffer_end r \<le> metadata_end rs)"
proof -
  note g = reach_good [OF assms, unfolded vm_good_def]
  then have i: "vm_inv rs" by blast
  have m: "unat (FreeBitmapAddress rs) \<le> metadata_end rs" using vm_invD(1) [OF i] by (simp add: metadata_ok_def metadata_end_def)
  have "region_end r \<le> unat (FreeVirtualAddressPointer rs)" if "r \<in> set (live rs)" for r using g that by (force simp: regions_def)
  then show ?thesis using g vm_invD(3-5) [OF i] m by (fastforce simp: reservation_ok_def buffer_ok_def)
qed

theorem vm_regions_disjoint_witness:
  "regions_apart (regions sample_space2) \<and> list_all (\<lambda>r. region_end r \<le> unat (FreeVirtualAddressPointer sample_space2)) (live sample_space2)
   \<and> map (\<lambda>r. (StartVa r, RegionSize r)) (live sample_space2) = [(0x100000, 0x2000)]"
proof -
  have "map (\<lambda>r. (StartVa r, RegionSize r)) (live sample_space2) = [(0x100000, 0x2000)]" by code_simp
  then show ?thesis using vm_regions_disjoint [OF sample_space2_reach] by (auto simp: list_all_iff)
qed

text \<open>C7. An allocation that reserves and commits at an address the space chooses succeeds in every such space while a
  slot and bitmap room are left, and fails an assertion otherwise. It returns the next free
  address and the size rounded up to pages; the new reservation starts behind all
  others, has the requested attributes, and all its bytes are committed. The next address advances by the size, so that
  addresses are never handed out twice.\<close>

theorem vm_alloc_fresh:
  assumes "vm_reach rs" "0 < unat sz" "unat (FreeVirtualAddressPointer rs) + unat sz + 4096 < 2 ^ 64" "unat sz + 4096 < 2 ^ 44"
  shows "if has_slot (ReservationList rs) \<and> unat (FreeBitmapAddress rs) + bitmap_room (page_up (unat sz) div 4096) \<le> metadata_end rs
    then \<exists>n rs' as r bs. VmReservationSpaceAllocRegion rs NULL sz VMM_ALLOC_TYPE_BOTH R U F = Some (STATUS_SUCCESS, Some (FreeVirtualAddressPointer rs, n), rs')
      \<and> unat n = page_up (unat sz) \<and> unat (FreeVirtualAddressPointer rs') = unat (FreeVirtualAddressPointer rs) + unat n
      \<and> live rs = as @ bs \<and> live rs' = as @ r # bs \<and> describes r (FreeVirtualAddressPointer rs) n R U F
      \<and> (\<forall>x. holds x r \<longrightarrow> committed r x) \<and> (\<forall>y\<in>set (live rs). region_end y \<le> unat (StartVa r))
    else VmReservationSpaceAllocRegion rs NULL sz VMM_ALLOC_TYPE_BOTH R U F = None"
  using assms by (rule reach_alloc)

theorem vm_alloc_fresh_witness:
  "\<exists>n rs' as r bs. VmReservationSpaceAllocRegion sample_space NULL 0x1800 VMM_ALLOC_TYPE_BOTH 1 True NULL = Some (STATUS_SUCCESS, Some (0x100000, n), rs')
      \<and> live rs' = as @ r # bs \<and> unat n = 0x2000 \<and> (\<forall>x. holds x r \<longrightarrow> committed r x)"
proof -
  have n: "page_up (unat (0x1800 :: QWORD)) = 0x2000" by (simp add: page_up_def)
  have f: "has_slot (ReservationList sample_space)
      \<and> unat (FreeBitmapAddress sample_space) + bitmap_room (page_up (unat (0x1800 :: QWORD)) div 4096) \<le> metadata_end sample_space"
    by (simp add: sample_space_values n bitmap_room_def metadata_end_def) (simp add: page_up_def)
  have s: "0 < unat (0x1800 :: QWORD)" "unat (FreeVirtualAddressPointer sample_space) + unat (0x1800 :: QWORD) + 4096 < 2 ^ 64"
    "unat (0x1800 :: QWORD) + 4096 < 2 ^ 44" by (simp_all add: sample_space_values)
  show ?thesis using vm_alloc_fresh [OF sample_space_reach s, of 1 True NULL] sample_space_values(1) n unfolding if_P [OF f] by metis
qed

text \<open>C8. A page fault outside the metadata area is decided by the first live reservation that holds the address: it is
  resolved exactly when the page is committed and the rights of the reservation include the requested
  ones, with the attributes of the reservation and, for a mapped file, the offset of the page. The decision
  always returns.\<close>

theorem vm_access_decision:
  assumes "vm_inv rs" "a \<noteq> NULL" "unat a + 1 < 2 ^ 64" "\<not> CHECK_BOUNDS a 1 (ReservationListAddress rs) (ReservedAreaSize rs)"
  shows "VmReservationCanAddressBeAccessed rs a rights acc = Some (case find (holds a) (live rs) of
      None \<Rightarrow> None
    | Some r \<Rightarrow> if committed r a \<and> IsBooleanFlagOn (PageRights r) rights
        then Some (PageRights r, Uncacheable r, BackingFile r,
          if BackingFile r \<noteq> NULL then AlignAddressLower (a - StartVa r) PAGE_SIZE else 0)
        else None)"
  using assms by (rule access_result)

lemma sample_space2_inv: "vm_inv sample_space2"
  using reach_good [OF sample_space2_reach] by (simp add: vm_good_def)

theorem vm_access_decision_witness:
  "VmReservationCanAddressBeAccessed sample_space2 0x101FFF PAGE_RIGHTS_WRITE False = Some (Some (PAGE_RIGHTS_READWRITE, False, NULL, 0))
   \<and> (case find (holds 0x101FFF) (live sample_space2) of None \<Rightarrow> False | Some r \<Rightarrow> committed r 0x101FFF \<and> PageRights r = PAGE_RIGHTS_READWRITE)"
proof -
  have v: "VmReservationCanAddressBeAccessed sample_space2 0x101FFF PAGE_RIGHTS_WRITE False = Some (Some (PAGE_RIGHTS_READWRITE, False, NULL, 0))"
    "\<not> CHECK_BOUNDS 0x101FFF 1 (ReservationListAddress sample_space2) (ReservedAreaSize sample_space2)"
    by code_simp+
  have "(0x101FFF :: QWORD) \<noteq> NULL" "unat (0x101FFF :: QWORD) + 1 < 2 ^ 64" by simp_all
  from vm_access_decision [OF sample_space2_inv this v(2), of PAGE_RIGHTS_WRITE False] v(1) show ?thesis
    by (auto split: option.splits if_splits)
qed

lemma find_remove: "\<not> P r \<Longrightarrow> find P (as @ r # bs) = find P (as @ bs)"
  by (cases "find P as") (simp_all add: find_append)

lemma apart_holds:
  assumes "regions_apart (map (\<lambda>r. (unat (StartVa r), region_end r)) (as @ r # bs))" "holds x r" "y \<in> set (as @ bs)"
  shows "\<not> holds x y"
  using assms by (fastforce simp: regions_apart_def sorted_wrt_append sorted_wrt_map holds_def)

text \<open>C9. Releasing a reservation through any of its addresses returns its range, asks for the pages of its bitmap to be unmapped
  and its backing file to be closed, and ends all access to it: no address of the range can be accessed
  afterwards, and every other address can be accessed as before. Releasing an address that is not reserved
  fails an assertion.\<close>

theorem vm_release_ends_access:
  assumes "vm_reach rs" "a \<noteq> NULL" "unat a + 1 < 2 ^ 64"
  shows "case find (holds a) (live rs) of None \<Rightarrow> VmReservationSpaceFreeRegion rs a 0 VMM_FREE_TYPE_RELEASE = None
    | Some r \<Rightarrow> \<exists>rs'. VmReservationSpaceFreeRegion rs a 0 VMM_FREE_TYPE_RELEASE = Some ((StartVa r, RegionSize r),
          Some \<lparr>unmap_address = CommitBitmapAddress r, unmap_size = BufferSize (CommitBitmap r),
            close_file = (if BackingFile r \<noteq> NULL then Some (BackingFile r) else None)\<rparr>, rs')
        \<and> (\<forall>x. x \<noteq> NULL \<and> unat x + 1 < 2 ^ 64 \<and> \<not> CHECK_BOUNDS x 1 (ReservationListAddress rs) (ReservedAreaSize rs)
           \<longrightarrow> VmReservationCanAddressBeAccessed rs' x rights acc
             = (if holds x r then Some None else VmReservationCanAddressBeAccessed rs x rights acc))"
proof -
  have g: "vm_inv rs" "regions_apart (regions rs)" using reach_good [OF assms(1)] by (simp_all add: vm_good_def)
  show ?thesis
  proof (cases "find (holds a) (live rs)")
    case None
    then show ?thesis using release_result [OF g(1) assms(2,3)] by simp
  next
    case (Some r)
    then obtain L as bs where r: "VmReservationSpaceFreeRegion rs a 0 VMM_FREE_TYPE_RELEASE = Some ((StartVa r, RegionSize r),
          Some \<lparr>unmap_address = CommitBitmapAddress r, unmap_size = BufferSize (CommitBitmap r),
            close_file = (if BackingFile r \<noteq> NULL then Some (BackingFile r) else None)\<rparr>, rs\<lparr>ReservationList := L\<rparr>)"
      "vm_inv (rs\<lparr>ReservationList := L\<rparr>)" "live rs = as @ r # bs" "live_of L = as @ bs"
      using release_result [OF g(1) assms(2,3)] by auto
    have "VmReservationCanAddressBeAccessed (rs\<lparr>ReservationList := L\<rparr>) x rights acc
        = (if holds x r then Some None else VmReservationCanAddressBeAccessed rs x rights acc)"
      if x: "x \<noteq> NULL" "unat x + 1 < 2 ^ 64" "\<not> CHECK_BOUNDS x 1 (ReservationListAddress rs) (ReservedAreaSize rs)" for x
    proof (cases "holds x r")
      case True
      then have "find (holds x) (as @ bs) = None"
        using apart_holds [OF g(2) [unfolded regions_def r(3)] True] by (auto simp: find_None_iff)
      then show ?thesis using access_result [OF r(2) x(1,2)] x(3) r(4) True by simp
    next
      case False
      then show ?thesis using access_result [OF r(2) x(1,2)] access_result [OF g(1) x] x(3) r(3,4) find_remove [of "holds x" r as bs] by simp
    qed
    then show ?thesis unfolding Some option.case using r(1) by blast
  qed
qed

theorem vm_release_ends_access_witness:
  "\<exists>r rs'. find (holds 0x100800) (live sample_space2) = Some r \<and> holds 0x101000 r
     \<and> map_option (snd \<circ> snd) (VmReservationSpaceFreeRegion sample_space2 0x100800 0 VMM_FREE_TYPE_RELEASE) = Some rs'
     \<and> VmReservationCanAddressBeAccessed rs' 0x101000 PAGE_RIGHTS_READ False = Some None"
proof -
  have c: "map_option (\<lambda>r. (StartVa r, RegionSize r)) (find (\<lambda>r. StartVa r \<le> 0x100800 \<and> 0x100800 < StartVa r + RegionSize r) (live sample_space2)) = Some (0x100000, 0x2000)"
    "\<not> CHECK_BOUNDS 0x101000 1 (ReservationListAddress sample_space2) (ReservedAreaSize sample_space2)" by code_simp+
  have l: "map (\<lambda>r. (StartVa r, RegionSize r)) (live sample_space2) = [(0x100000, 0x2000)]" by code_simp
  then obtain r where lr: "live sample_space2 = [r]" "StartVa r = 0x100000" "RegionSize r = 0x2000" by (cases "live sample_space2") auto
  have h: "holds 0x100800 r" "holds 0x101000 r" using lr(2,3) by (simp_all add: holds_def region_end_def)
  have f: "find (holds 0x100800) (live sample_space2) = Some r" using lr(1) h by simp
  have "(0x100800 :: QWORD) \<noteq> NULL" "unat (0x100800 :: QWORD) + 1 < 2 ^ 64" by simp_all
  from vm_release_ends_access [OF sample_space2_reach this, of PAGE_RIGHTS_READ False] f obtain ou u rs' where
    "VmReservationSpaceFreeRegion sample_space2 0x100800 0 VMM_FREE_TYPE_RELEASE = Some (ou, u, rs')"
    "VmReservationCanAddressBeAccessed rs' 0x101000 PAGE_RIGHTS_READ False = Some None" using h(2) c(2) by auto
  then show ?thesis using f h(2) by auto
qed

lemma buffer_check_samples:
  assumes "vm_inv rs" "a \<noteq> NULL" "n \<noteq> 0" "unat a + unat n < 2 ^ 64"
  shows "\<exists>s. VmmIsBufferValid a n rights rs KernelAccess = Some s
    \<and> (s = STATUS_SUCCESS \<longleftrightarrow> (KernelAccess \<or> \<not> VmIsKernelAddress a \<and> \<not> VmIsKernelAddress (a + (n - 1)))
        \<and> (case find (inside a n) (live rs) of None \<Rightarrow> False
           | Some r \<Rightarrow> (\<forall>j. 4096 * j < unat n \<longrightarrow> committed r (a + of_nat (4096 * j))) \<and> IsBooleanFlagOn (PageRights r) rights))"
proof -
  have ns: "STATUS_MEMORY_PREVENTS_USERMODE_ACCESS \<noteq> STATUS_SUCCESS" "STATUS_MEMORY_IS_NOT_COMMITED \<noteq> STATUS_SUCCESS"
    "STATUS_MEMORY_INSUFFICIENT_ACCESS_RIGHTS \<noteq> STATUS_SUCCESS" using not_SUCCEEDED_vm SUCCEEDED_SUCCESS by metis+
  show ?thesis
    using assms(2,3) rights_result [OF assms] ns
    by (cases "find (inside a n) (live rs)") (auto simp: VmmIsBufferValid_def VmIsKernelRange_def)
qed

text \<open>C10. The buffer check of the system calls, for a buffer that starts at a page boundary and does not wrap around,
  always returns, and it succeeds exactly when the caller may touch the range (a kernel caller, or both
  ends are user addresses), one reservation contains the whole buffer, all its bytes are committed and the
  requested rights are included in those of the reservation.\<close>

theorem buffer_check_exact:
  assumes "vm_inv rs" "a \<noteq> NULL" "n \<noteq> 0" "unat a + unat n < 2 ^ 64" "unat a mod 4096 = 0"
  shows "\<exists>s. VmmIsBufferValid a n rights rs KernelAccess = Some s
    \<and> (s = STATUS_SUCCESS \<longleftrightarrow> (KernelAccess \<or> \<not> VmIsKernelAddress a \<and> \<not> VmIsKernelAddress (a + (n - 1)))
        \<and> (case find (inside a n) (live rs) of None \<Rightarrow> False
           | Some r \<Rightarrow> (\<forall>x. unat a \<le> unat x \<and> unat x < unat a + unat n \<longrightarrow> committed r x) \<and> IsBooleanFlagOn (PageRights r) rights))"
proof (cases "find (inside a n) (live rs)")
  case None
  then show ?thesis using buffer_check_samples [OF assms(1-4), of rights KernelAccess] by simp
next
  case (Some r)
  then have r: "reservation_ok r" "inside a n r" using vm_invD(3) [OF assms(1)] by (auto simp: find_Some_iff in_set_conv_nth)
  then have "unat (StartVa r) \<le> unat a" "unat a + unat n \<le> region_end r" using inside_nat [OF r(1) assms(4)] by auto
  note al = aligned_pages_committed [OF r(1) this assms(5)]
  show ?thesis using buffer_check_samples [OF assms(1-4), of rights KernelAccess] unfolding Some option.case al .
qed

theorem buffer_check_exact_witness:
  "\<exists>s. VmmIsBufferValid 0x100000 0x1001 PAGE_RIGHTS_WRITE sample_space2 False = Some s \<and> s = STATUS_SUCCESS
    \<and> (case find (inside 0x100000 0x1001) (live sample_space2) of None \<Rightarrow> False | Some r \<Rightarrow> committed r 0x101000)"
proof -
  have v: "VmmIsBufferValid 0x100000 0x1001 PAGE_RIGHTS_WRITE sample_space2 False = Some STATUS_SUCCESS" by code_simp
  have "(0x100000 :: QWORD) \<noteq> NULL" "(0x1001 :: QWORD) \<noteq> 0" "unat (0x100000 :: QWORD) + unat (0x1001 :: QWORD) < 2 ^ 64" "unat (0x100000 :: QWORD) mod 4096 = 0"
    by simp_all
  from buffer_check_exact [OF sample_space2_inv this, of PAGE_RIGHTS_WRITE False] v show ?thesis
    by (auto split: option.splits)
qed

text \<open>C36. For a buffer that starts anywhere and does not wrap around, the check always returns, and it succeeds exactly
  when the caller may touch both ends, one reservation contains the whole buffer and has the requested rights, and every 4096th
  byte from the start of the buffer is committed. So the page of the last byte can be missed: when it begins behind the last byte
  looked at and all bytes before it are committed, the buffer passes, although an access to a byte of that page that is
  not committed is then denied.\<close>

theorem buffer_check_gaps:
  assumes "vm_inv rs" "a \<noteq> NULL" "n \<noteq> 0" "unat a + unat n < 2 ^ 64"
  shows "(\<exists>s. VmmIsBufferValid a n rights rs KernelAccess = Some s
      \<and> (s = STATUS_SUCCESS \<longleftrightarrow> (KernelAccess \<or> \<not> VmIsKernelAddress a \<and> \<not> VmIsKernelAddress (a + (n - 1)))
          \<and> (case find (inside a n) (live rs) of None \<Rightarrow> False
             | Some r \<Rightarrow> (\<forall>j. 4096 * j < unat n \<longrightarrow> committed r (a + of_nat (4096 * j))) \<and> IsBooleanFlagOn (PageRights r) rights)))
    \<and> ((KernelAccess \<or> \<not> VmIsKernelAddress a \<and> \<not> VmIsKernelAddress (a + (n - 1)))
        \<and> find (inside a n) (live rs) = Some r \<and> IsBooleanFlagOn (PageRights r) rights
        \<and> p = (unat a + unat n - 1) div 4096 * 4096 \<and> unat a + (unat n - 1) div 4096 * 4096 < p
        \<and> (\<forall>y. unat a \<le> unat y \<and> unat y < p \<longrightarrow> committed r y)
        \<and> p \<le> unat x \<and> unat x < unat a + unat n \<and> find (holds x) (live rs) = Some r \<and> \<not> committed r x
        \<and> \<not> CHECK_BOUNDS x 1 (ReservationListAddress rs) (ReservedAreaSize rs)
       \<longrightarrow> VmmIsBufferValid a n rights rs KernelAccess = Some STATUS_SUCCESS
         \<and> VmReservationCanAddressBeAccessed rs x rights acc = Some None)"
proof -
  note ex = buffer_check_samples [OF assms, of rights KernelAccess]
  have "VmmIsBufferValid a n rights rs KernelAccess = Some STATUS_SUCCESS
      \<and> VmReservationCanAddressBeAccessed rs x rights acc = Some None"
    if k: "KernelAccess \<or> \<not> VmIsKernelAddress a \<and> \<not> VmIsKernelAddress (a + (n - 1))"
      and r: "find (inside a n) (live rs) = Some r" "IsBooleanFlagOn (PageRights r) rights"
      and l: "unat a + (unat n - 1) div 4096 * 4096 < p" "\<forall>y. unat a \<le> unat y \<and> unat y < p \<longrightarrow> committed r y"
      and x: "p \<le> unat x" "unat x < unat a + unat n" "find (holds x) (live rs) = Some r" "\<not> committed r x"
        "\<not> CHECK_BOUNDS x 1 (ReservationListAddress rs) (ReservedAreaSize rs)"
  proof -
    have "committed r (a + of_nat (4096 * j))" if j: "4096 * j < unat n" for j
    proof -
      have "j \<le> (unat n - 1) div 4096" using j by (simp add: less_eq_div_iff_mult_less_eq mult.commute)
      then have "unat a + 4096 * j < p" using l(1) by linarith
      moreover have "unat (a + of_nat (4096 * j)) = unat a + 4096 * j"
        using unat_add_below [of a "of_nat (4096 * j)"] unat_of_nat_small [of "4096 * j", where 'a = 64] j assms(4) unat64_bound [of n]
        by simp
      ultimately show ?thesis using l(2) by simp
    qed
    moreover have "x \<noteq> NULL" using l(1) x(1) by auto
    ultimately show ?thesis
      using ex k r access_result [OF assms(1) \<open>x \<noteq> NULL\<close> _ x(5), of rights acc] x assms(4) by auto
  qed
  with ex show ?thesis by blast
qed

text \<open>The space after the second page of the sample allocation has been decommitted.\<close>

definition sample_space3 :: VMM_RESERVATION_SPACE where
  "sample_space3 = snd (snd (the (VmReservationSpaceFreeRegion sample_space2 0x101000 0x1000 VMM_FREE_TYPE_DECOMMIT)))"

lemma sample_space3_reach: "vm_reach sample_space3"
proof -
  have "map_option (\<lambda>_. ()) (VmReservationSpaceFreeRegion sample_space2 0x101000 0x1000 VMM_FREE_TYPE_DECOMMIT) = Some ()" by code_simp
  then obtain ou u where "VmReservationSpaceFreeRegion sample_space2 0x101000 0x1000 VMM_FREE_TYPE_DECOMMIT = Some (ou, u, sample_space3)"
    unfolding sample_space3_def by auto
  then show ?thesis by (rule vm_reach.free [OF sample_space2_reach]) simp
qed

theorem buffer_check_gaps_witness:
  "VmmIsBufferValid 0x100FFF 2 PAGE_RIGHTS_WRITE sample_space3 False = Some STATUS_SUCCESS
   \<and> VmReservationCanAddressBeAccessed sample_space3 0x101000 PAGE_RIGHTS_WRITE False = Some None"
proof -
  have l: "map (\<lambda>r. (StartVa r, RegionSize r, PageRights r)) (live sample_space3) = [(0x100000, 0x2000, PAGE_RIGHTS_READWRITE)]"
    "map (\<lambda>r. (bm_bit (CommitBitmap r) 0, bm_bit (CommitBitmap r) 1)) (live sample_space3) = [(True, False)]" by code_simp+
  then obtain r where r: "live sample_space3 = [r]" "StartVa r = 0x100000" "RegionSize r = 0x2000" "PageRights r = PAGE_RIGHTS_READWRITE"
    "bm_bit (CommitBitmap r) 0" "\<not> bm_bit (CommitBitmap r) 1" by (cases "live sample_space3") auto
  have f: "find (inside 0x100FFF 2) (live sample_space3) = Some r" "find (holds 0x101000) (live sample_space3) = Some r"
    using r(1-3) by (simp_all add: CHECK_BOUNDS_def holds_def region_end_def)
  have c: "committed r y" if "unat (0x100FFF :: QWORD) \<le> unat y \<and> unat y < 0x101000" for y
  proof -
    have "unat y - 0x100000 < 4096" using that by linarith
    then have "(unat y - 0x100000) div 4096 = 0" by (rule div_less)
    then show ?thesis using r(2,5) by (simp add: committed_def)
  qed
  have n: "\<not> committed r 0x101000" using r(2,6) by (simp add: committed_def)
  have k: "\<not> VmIsKernelAddress 0x100FFF" "\<not> VmIsKernelAddress (0x100FFF + (2 - 1))" "IsBooleanFlagOn PAGE_RIGHTS_READWRITE PAGE_RIGHTS_WRITE"
    "\<not> CHECK_BOUNDS 0x101000 1 (ReservationListAddress sample_space3) (ReservedAreaSize sample_space3)" by code_simp+
  have i: "vm_inv sample_space3" using reach_good [OF sample_space3_reach] by (simp add: vm_good_def)
  have "(0x100FFF :: QWORD) \<noteq> NULL" "(2 :: QWORD) \<noteq> 0" "unat (0x100FFF :: QWORD) + unat (2 :: QWORD) < 2 ^ 64" by simp_all
  from buffer_check_gaps [OF i this, of PAGE_RIGHTS_WRITE False r "0x101000" "0x101000" False] show ?thesis
    using f c n k r(4) by simp
qed

text \<open>The sum of address and size may wrap around: a user buffer that passes the check of its two ends then drives the
  loop over its pages behind the reservation, where an assertion of the kernel fails.\<close>

lemma buffer_check_wraps:
  "VmIsKernelRange 0x100000 (0x100 - 0x100000) = Some False"
  "VmmIsBufferValid 0x100000 (0x100 - 0x100000) 1 sample_space2 False = None"
  by code_simp+

text \<open>C37. Reservations at addresses chosen by the caller can overlap: the search for a conflict looks only for a reservation
  that contains the whole new range. So a request to reserve and commit a range that has an address in common with a live
  reservation, but lies inside none, succeeds while a slot and bitmap room are left; afterwards both reservations are live and
  hold a common address, so that the disjointness of the spaces that choose all addresses themselves is lost.\<close>

theorem vm_reservations_overlap:
  assumes "vm_inv rs" "sz \<noteq> 0" "base \<noteq> NULL" "StartOfVirtualAddressSpace rs \<le> AlignAddressLower base PAGE_SIZE"
    and "alloc_range rs base sz = (a, n)" "range_ok a n"
    and "y \<in> set (live rs)" "unat (StartVa y) < unat a + unat n" "unat a < region_end y"
    and "\<forall>r \<in> set (live rs). \<not> (unat (StartVa r) \<le> unat a \<and> unat a + unat n \<le> region_end r)"
    and "has_slot (ReservationList rs)" "unat (FreeBitmapAddress rs) + bitmap_room (unat n div 4096) \<le> metadata_end rs"
  shows "\<exists>rs' as r bs. VmReservationSpaceAllocRegion rs base sz VMM_ALLOC_TYPE_BOTH R U F = Some (STATUS_SUCCESS, Some (a, n), rs')
    \<and> live rs = as @ bs \<and> live rs' = as @ r # bs \<and> describes r a n R U F \<and> (\<forall>x. holds x r \<longrightarrow> committed r x)
    \<and> (\<exists>x. holds x y \<and> holds x r) \<and> \<not> regions_apart (regions rs')"
proof -
  have ab: "unat a + unat n < 2 ^ 64" "0 < unat n" using assms(6) by (simp_all add: range_ok_def)
  have nin: "\<not> (\<exists>r\<in>set (live rs). inside a n r)"
    using assms(10) inside_nat [OF vm_invD(3) [OF assms(1)] ab(1)] by blast
  have sp: "alloc_space rs base sz = rs" using assms(3) by (simp add: alloc_space_def)
  note ar = alloc_both_result [OF assms(1,2) disjI2 [OF assms(4)] assms(5,6), of R U F]
  from ar [unfolded sp if_not_P [OF nin] if_P [OF conjI [OF assms(11,12)]]] obtain L f as r bs where
    x: "VmReservationSpaceAllocRegion rs base sz VMM_ALLOC_TYPE_BOTH R U F
          = Some (STATUS_SUCCESS, Some (a, n), rs\<lparr>ReservationList := L, FreeBitmapAddress := f\<rparr>)"
      "live rs = as @ bs" "live_of L = as @ r # bs" "describes r a n R U F" "\<forall>x. holds x r \<longrightarrow> committed r x" by blast
  let ?rs = "rs\<lparr>ReservationList := L, FreeBitmapAddress := f\<rparr>"
  have lv: "live ?rs = as @ r # bs" using x(3) by simp
  have re: "StartVa r = a" "region_end r = unat a + unat n" using x(4) by (simp_all add: describes_def region_end_def)
  have yok: "0 < unat (RegionSize y)" using vm_invD(3) [OF assms(1,7)] by (simp add: reservation_ok_def)
  then have h: "holds (max a (StartVa y)) y" "holds (max a (StartVa y)) r"
    using re assms(8,9) ab(2) by (auto simp: holds_def region_end_def max_def word_le_nat_alt)
  have "\<not> regions_apart (regions ?rs)"
  proof
    assume ap: "regions_apart (regions ?rs)"
    have "y \<in> set (as @ bs)" using assms(7) x(2) by simp
    from apart_holds [OF ap [unfolded regions_def lv] h(2) this] h(1) show False by blast
  qed
  with x(1,2,4,5) lv h show ?thesis by blast
qed

theorem vm_reservations_overlap_witness:
  "\<exists>rs' r1 r2. VmReservationSpaceAllocRegion sample_space2 0x101000 0x3000 VMM_ALLOC_TYPE_BOTH PAGE_RIGHTS_READ False NULL
      = Some (STATUS_SUCCESS, Some (0x101000, 0x3000), rs')
    \<and> set (live rs') = {r1, r2} \<and> holds 0x101000 r1 \<and> holds 0x101000 r2 \<and> StartVa r1 = 0x100000 \<and> StartVa r2 = 0x101000"
proof -
  have l: "map (\<lambda>r. (StartVa r, RegionSize r)) (live sample_space2) = [(0x100000, 0x2000)]" by code_simp
  have h: "has_slot (ReservationList sample_space2)" by code_simp
  have m: "StartOfVirtualAddressSpace sample_space2 = 0x100000" "FreeBitmapAddress sample_space2 = 0x12000"
    "ReservationListAddress sample_space2 = 0x10000" "ReservedAreaSize sample_space2 = 20480" by code_simp+
  have c: "StartOfVirtualAddressSpace sample_space2 \<le> AlignAddressLower 0x101000 PAGE_SIZE"
    unfolding m by code_simp
  have d: "alloc_range sample_space2 0x101000 0x3000 = (0x101000, 0x3000)"
    unfolding alloc_range_def by code_simp
  from l obtain y where y: "live sample_space2 = [y]" "StartVa y = 0x100000" "RegionSize y = 0x2000" by (cases "live sample_space2") auto
  have a: "range_ok 0x101000 0x3000" by (simp add: range_ok_def)
  have o: "y \<in> set (live sample_space2)" "unat (StartVa y) < unat (0x101000 :: QWORD) + unat (0x3000 :: QWORD)" "unat (0x101000 :: QWORD) < region_end y"
    "\<forall>r \<in> set (live sample_space2). \<not> (unat (StartVa r) \<le> unat (0x101000 :: QWORD) \<and> unat (0x101000 :: QWORD) + unat (0x3000 :: QWORD) \<le> region_end r)"
    using y by (simp_all add: region_end_def)
  have b: "unat (FreeBitmapAddress sample_space2) + bitmap_room (unat (0x3000 :: QWORD) div 4096) \<le> metadata_end sample_space2"
    by (simp add: m metadata_end_def bitmap_room_def page_up_def)
  have z: "(0x3000 :: QWORD) \<noteq> 0" "(0x101000 :: QWORD) \<noteq> NULL" by simp_all
  note vo = vm_reservations_overlap [OF sample_space2_inv z c d a o h b, of PAGE_RIGHTS_READ False NULL]
  from vo obtain rs' as r bs where
    r: "VmReservationSpaceAllocRegion sample_space2 0x101000 0x3000 VMM_ALLOC_TYPE_BOTH PAGE_RIGHTS_READ False NULL
      = Some (STATUS_SUCCESS, Some (0x101000, 0x3000), rs')"
    "live sample_space2 = as @ bs" "live rs' = as @ r # bs" "describes r 0x101000 0x3000 PAGE_RIGHTS_READ False NULL" by blast
  have "set (live rs') = {y, r}" using r(3) arg_cong [OF r(2), of set] y(1) by auto
  moreover have "holds 0x101000 y" "holds 0x101000 r" using y r(4) by (simp_all add: holds_def region_end_def describes_def)
  moreover have "StartVa r = 0x101000" using r(4) by (simp add: describes_def)
  ultimately show ?thesis using r(1) y(2) by blast
qed

end
