(* ===== verification/Iomu_Vpb.thy ===== *)
theory Iomu_Vpb
  imports CL_List CL_String
begin

text \<open>
  The volume list of the I/O manager (\<^verbatim>\<open>HAL9000/src/iomu.c\<close>): volume letters are handed
  out in order, the volume parameter blocks (\<^verbatim>\<open>VPB\<close>) are kept in a list ordered by letter,
  and a path's drive letter is resolved by searching that list.

  A \<^verbatim>\<open>VPB\<close> is identified by its address; the letter field of every existing block is in
  \<open>VolumeLetter\<close>, its \<^verbatim>\<open>NextVpb\<close> link lies 24 bytes into the block and lives in the
  list memory of \<open>CL_List\<close>.
\<close>

section \<open>State and operations\<close>

definition NextVpb_offset :: ADDR where
  "NextVpb_offset = 24"

record IOMU_VPBS =
  VpbList :: ADDR
  VolumeLetter :: "ADDR \<rightharpoonup> BYTE"
  currentVolumeLetter :: BYTE
  vpb_links :: lmem

definition IomuGetNextVolumeLetter :: "IOMU_VPBS \<Rightarrow> (BYTE \<times> IOMU_VPBS) option" where
  "IomuGetNextVolumeLetter s = do {
     s \<leftarrow> Some (s\<lparr>currentVolumeLetter := currentVolumeLetter s + 1\<rparr>);
     ASSERT (currentVolumeLetter s \<le>s 0x5A);
     Some (currentVolumeLetter s, s)
   }"

definition VpbCompareFunction :: "(ADDR \<rightharpoonup> BYTE) \<Rightarrow> ADDR FUNC_CompareFunction" where
  "VpbCompareFunction letters FirstElem SecondElem Context = do {
     ASSERT (FirstElem \<noteq> NULL);
     ASSERT (SecondElem \<noteq> NULL);
     ASSERT (Context = NULL);
     l1 \<leftarrow> letters (FirstElem - NextVpb_offset);
     l2 \<leftarrow> letters (SecondElem - NextVpb_offset);
     Some (sint (cl_tolower l1) - sint (cl_tolower l2), Context)
   }"

definition IomuNewVpbCreated :: "ADDR \<Rightarrow> IOMU_VPBS \<Rightarrow> IOMU_VPBS option" where
  "IomuNewVpbCreated Vpb s = do {
     ASSERT (Vpb \<noteq> NULL);
     (letter, s) \<leftarrow> IomuGetNextVolumeLetter s;
     _ \<leftarrow> VolumeLetter s Vpb;
     s \<leftarrow> Some (s\<lparr>VolumeLetter := (VolumeLetter s)(Vpb \<mapsto> letter)\<rparr>);
     (m, _) \<leftarrow> InsertOrderedList (vpb_links s) (VpbList s) (Vpb + NextVpb_offset)
                 (VpbCompareFunction (VolumeLetter s)) NULL;
     Some (s\<lparr>vpb_links := m\<rparr>)
   }"

text \<open>\<open>stk\<close> is the address of the local \<^verbatim>\<open>vpbToSearchFor\<close>.\<close>

definition IomuSearchForVpb :: "ADDR \<Rightarrow> IOMU_VPBS \<Rightarrow> BYTE \<Rightarrow> ADDR option" where
  "IomuSearchForVpb stk s DriveLetter = do {
     (e, _) \<leftarrow> ListSearchForElement (vpb_links s) (VpbList s) (stk + NextVpb_offset) True
                 (Some (VpbCompareFunction ((VolumeLetter s)(stk \<mapsto> DriveLetter)))) NULL;
     Some (if e = NULL then NULL else e - NextVpb_offset)
   }"

fun IomuCreateVpbs :: "ADDR list \<Rightarrow> IOMU_VPBS \<Rightarrow> IOMU_VPBS option" where
  "IomuCreateVpbs [] s = Some s"
| "IomuCreateVpbs (v # vs) s = do { s \<leftarrow> IomuNewVpbCreated v s; IomuCreateVpbs vs s }"

section \<open>The compare function meets the contract of the ordered list\<close>

definition vpb_key :: "(ADDR \<rightharpoonup> BYTE) \<Rightarrow> ADDR \<Rightarrow> int" where
  "vpb_key letters e = (case letters (e - NextVpb_offset) of None \<Rightarrow> 0 | Some l \<Rightarrow> sint (cl_tolower l))"

definition vpb_entry :: "(ADDR \<rightharpoonup> BYTE) \<Rightarrow> ADDR \<Rightarrow> bool" where
  "vpb_entry letters e \<longleftrightarrow> e \<noteq> NULL \<and> letters (e - NextVpb_offset) \<noteq> None"

interpretation vpb: key_compare "VpbCompareFunction letters" "vpb_key letters" "vpb_entry letters" NULL
  for letters
  by unfold_locales (auto simp: VpbCompareFunction_def vpb_key_def vpb_entry_def)

section \<open>Volumes in order of creation\<close>

definition vpb_state :: "IOMU_VPBS \<Rightarrow> ADDR list \<Rightarrow> bool" where
  "vpb_state s vs \<longleftrightarrow>
     is_list (vpb_links s) (VpbList s) (map (\<lambda>v. v + NextVpb_offset) vs)
     \<and> (\<forall>i < length vs. VolumeLetter s (vs ! i) = Some (of_nat (0x43 + i)))
     \<and> currentVolumeLetter s = of_nat (0x42 + length vs) \<and> length vs \<le> 24"

definition vpb_fresh :: "IOMU_VPBS \<Rightarrow> ADDR list \<Rightarrow> ADDR \<Rightarrow> bool" where
  "vpb_fresh s vs v \<longleftrightarrow> v \<noteq> NULL \<and> v \<notin> set vs \<and> v + NextVpb_offset \<noteq> NULL
     \<and> v + NextVpb_offset \<noteq> VpbList s \<and> VolumeLetter s v \<noteq> None \<and> vpb_links s (v + NextVpb_offset) \<noteq> None"

lemma letters_all: "\<forall>i \<in> set [0..<25]. sint (cl_tolower (of_nat (0x43 + i))) = int (0x63 + i)
    \<and> (of_nat (0x43 + i) \<le>s (0x5A::BYTE)) = (i < 24)"
  by code_simp

lemma letter_lower: "i < 25 \<Longrightarrow> sint (cl_tolower (of_nat (0x43 + i))) = int (0x63 + i)"
  and letter_limit: "i < 25 \<Longrightarrow> (of_nat (0x43 + i) \<le>s (0x5A::BYTE)) = (i < 24)"
  using letters_all by (auto simp del: of_nat_add of_nat_numeral)

lemma vpb_keys:
  assumes "\<forall>i < length vs. letters (vs ! i) = Some (of_nat (0x43 + i))" "length vs \<le> 25"
  shows "map (vpb_key letters) (map (\<lambda>v. v + NextVpb_offset) vs) = map (\<lambda>i. int (0x63 + i)) [0..<length vs]"
  by (rule nth_equalityI)
    (use assms in \<open>auto simp: vpb_key_def letter_lower simp del: of_nat_add of_nat_numeral\<close>)

lemma vpb_entries:
  assumes "is_list m h (map (\<lambda>v. v + NextVpb_offset) vs)"
    and "\<forall>i < length vs. letters (vs ! i) = Some (of_nat (0x43 + i))"
  shows "list_all (vpb_entry letters) (map (\<lambda>v. v + NextVpb_offset) vs)"
proof -
  have "NULL \<notin> set (map (\<lambda>v. v + NextVpb_offset) vs)"
    using assms(1) by (simp add: is_list_def)
  then show ?thesis
    using assms(2) by (auto simp: list_all_iff vpb_entry_def in_set_conv_nth)
qed

lemma vpb_state_sorted:
  assumes "vpb_state s vs"
  shows "sorted (map (vpb_key (VolumeLetter s)) (map (\<lambda>v. v + NextVpb_offset) vs))"
  using assms vpb_keys [of vs "VolumeLetter s"]
  by (auto simp: vpb_state_def sorted_iff_nth_mono simp del: map_map)

lemma takeWhile_all: "(\<And>x. x \<in> set xs \<Longrightarrow> P x) \<Longrightarrow> takeWhile P xs = xs \<and> dropWhile P xs = []"
  by (simp add: takeWhile_eq_all_conv dropWhile_eq_Nil_conv)

lemma IomuNewVpbCreated_state:
  assumes st: "vpb_state s vs" and fr: "vpb_fresh s vs v" and room: "length vs < 24"
  shows "\<exists>s'. IomuNewVpbCreated v s = Some s' \<and> vpb_state s' (vs @ [v])
    \<and> VpbList s' = VpbList s \<and> dom (VolumeLetter s') = dom (VolumeLetter s)
    \<and> dom (vpb_links s') = dom (vpb_links s)"
proof -
  let ?off = "\<lambda>v. v + NextVpb_offset"
  define l where "l = (VolumeLetter s)(v \<mapsto> of_nat (0x43 + length vs))"
  have old: "\<forall>i < length vs. l (vs ! i) = Some (of_nat (0x43 + i))"
    using st fr by (auto simp: vpb_state_def vpb_fresh_def l_def)
  have new: "\<forall>i < length (vs @ [v]). l ((vs @ [v]) ! i) = Some (of_nat (0x43 + i))"
    using old by (auto simp: nth_append less_Suc_eq l_def)
  have r: "is_list (vpb_links s) (VpbList s) (map ?off vs)"
    using st by (simp add: vpb_state_def)
  have keys: "map (vpb_key l) (map ?off (vs @ [v])) = map (\<lambda>i. int (0x63 + i)) [0..<length (vs @ [v])]"
    by (rule vpb_keys) (use new room in simp_all)
  have le: "vpb_key l x \<le> vpb_key l (?off v)" if "x \<in> set (map ?off vs)" for x
  proof -
    have "vpb_key l x \<in> set (map (vpb_key l) (map ?off vs))" using that by auto
    moreover have "map (vpb_key l) (map ?off vs) = map (\<lambda>i. int (0x63 + i)) [0..<length vs]"
      and last: "vpb_key l (?off v) = int (0x63 + length vs)"
      using keys by simp_all
    ultimately have "vpb_key l x \<in> set (map (\<lambda>i. int (0x63 + i)) [0..<length vs])"
      by (simp only:)
    then show ?thesis unfolding last by auto
  qed
  have ent: "vpb_entry l (?off v)" "?off v \<notin> set (map ?off vs)"
    using fr by (auto simp: vpb_entry_def vpb_fresh_def l_def)
  have tw: "takeWhile (\<lambda>x. vpb_key l x \<le> vpb_key l (?off v)) (map ?off vs) = map ?off vs
      \<and> dropWhile (\<lambda>x. vpb_key l x \<le> vpb_key l (?off v)) (map ?off vs) = []"
    by (rule takeWhile_all) (rule le)
  have "\<exists>m'. InsertOrderedList (vpb_links s) (VpbList s) (?off v) (VpbCompareFunction l) NULL = Some (m', NULL)
    \<and> is_list m' (VpbList s) (map ?off vs @ [?off v])
    \<and> untouched (vpb_links s) m' (insert (?off v) (set (VpbList s # map ?off vs)))"
    using vpb.InsertOrderedList_position [OF r, of "?off v" l] fr vpb_entries [OF r old] ent
    unfolding tw [THEN conjunct1] tw [THEN conjunct2] by (auto simp: vpb_fresh_def)
  then obtain m' where m': "InsertOrderedList (vpb_links s) (VpbList s) (?off v) (VpbCompareFunction l) NULL
      = Some (m', NULL)" "is_list m' (VpbList s) (map ?off (vs @ [v]))"
    "dom m' = dom (vpb_links s)" by (auto simp: untouched_def)
  have cur: "currentVolumeLetter s + 1 = of_nat (0x43 + length vs)"
    using st by (simp add: vpb_state_def)
  have "(of_nat (0x43 + length vs) \<le>s (0x5A::BYTE))"
    using letter_limit [of "length vs"] room by simp
  then have "IomuNewVpbCreated v s = Some (s\<lparr>currentVolumeLetter := of_nat (0x43 + length vs),
      VolumeLetter := l, vpb_links := m'\<rparr>)"
    using m'(1) fr by (auto simp: IomuNewVpbCreated_def IomuGetNextVolumeLetter_def cur vpb_fresh_def l_def
        simp del: of_nat_add of_nat_numeral)
  moreover have "vpb_state (s\<lparr>currentVolumeLetter := of_nat (0x43 + length vs),
      VolumeLetter := l, vpb_links := m'\<rparr>) (vs @ [v])"
    using m'(2) new room by (simp add: vpb_state_def)
  moreover have "dom l = dom (VolumeLetter s)"
    using fr by (auto simp: vpb_fresh_def l_def)
  ultimately show ?thesis using m'(3) by simp
qed


lemma IomuCreateVpbs_state:
  "vpb_state s vs \<Longrightarrow> distinct ws \<Longrightarrow> \<forall>w \<in> set ws. vpb_fresh s vs w \<Longrightarrow> length vs + length ws \<le> 24 \<Longrightarrow>
   \<exists>s'. IomuCreateVpbs ws s = Some s' \<and> vpb_state s' (vs @ ws)"
proof (induction ws arbitrary: s vs)
  case Nil
  then show ?case by simp
next
  case (Cons w ws)
  obtain s' where s': "IomuNewVpbCreated w s = Some s'" "vpb_state s' (vs @ [w])"
    "VpbList s' = VpbList s" "dom (VolumeLetter s') = dom (VolumeLetter s)"
    "dom (vpb_links s') = dom (vpb_links s)"
    using IomuNewVpbCreated_state [of s vs w] Cons.prems by auto
  have "vpb_fresh s' (vs @ [w]) v" if "v \<in> set ws" for v
  proof -
    have "vpb_fresh s vs v" "v \<noteq> w" using Cons.prems that by auto
    then show ?thesis
      using s'(3-5) unfolding vpb_fresh_def by (metis (no_types, lifting) domIff
          Un_iff empty_iff empty_set insert_iff list.simps(15) set_append)
  qed
  with Cons.IH [OF s'(2)] Cons.prems s'(1) show ?case by auto
qed

lemma find_unique_key:
  assumes "map k xs = map (\<lambda>i. int (n + i)) [0..<length xs]"
  shows "find (\<lambda>x. k x = c) xs =
    (if int n \<le> c \<and> c < int (n + length xs) then Some (xs ! nat (c - int n)) else None)"
proof -
  have nth: "k (xs ! i) = int (n + i)" if "i < length xs" for i
    using arg_cong [OF assms, of "\<lambda>l. l ! i"] that by simp
  show ?thesis
  proof (cases "int n \<le> c \<and> c < int (n + length xs)")
    case True
    then have "nat (c - int n) < length xs" "k (xs ! nat (c - int n)) = c"
      using nth by auto
    moreover have "k (xs ! j) \<noteq> c" if "j < nat (c - int n)" for j
      using nth [of j] True that by linarith
    ultimately show ?thesis
      using True by (auto simp: find_Some_iff)
  next
    case False
    then have "\<not> (\<exists>x. x \<in> set xs \<and> k x = c)"
      using nth by (auto simp: in_set_conv_nth)
    with False show ?thesis by (auto simp: find_None_iff)
  qed
qed

lemma IomuSearchForVpb_result:
  assumes st: "vpb_state s vs" and stk: "stk \<notin> set vs" "stk + NextVpb_offset \<noteq> NULL"
  shows "IomuSearchForVpb stk s c =
    (let l = sint (cl_tolower c) in
     Some (if 0x63 \<le> l \<and> l < 0x63 + int (length vs) then vs ! nat (l - 0x63) else NULL))"
proof -
  let ?off = "\<lambda>v. v + NextVpb_offset"
  define l where "l = (VolumeLetter s)(stk \<mapsto> c)"
  have r: "is_list (vpb_links s) (VpbList s) (map ?off vs)"
    using st by (simp add: vpb_state_def)
  have ls: "\<forall>i < length vs. l (vs ! i) = Some (of_nat (0x43 + i))"
    using st stk by (auto simp: vpb_state_def l_def)
  have keys: "map (vpb_key l) (map ?off vs) = map (\<lambda>i. int (0x63 + i)) [0..<length (map ?off vs)]"
    using vpb_keys [OF ls] st by (simp add: vpb_state_def)
  have srt: "sorted (map (vpb_key l) (map ?off vs))"
    unfolding keys by (simp add: sorted_iff_nth_mono)
  have key: "vpb_key l (stk + NextVpb_offset) = sint (cl_tolower c)"
    by (simp add: vpb_key_def l_def)
  have ent: "vpb_entry l (stk + NextVpb_offset)"
    using stk by (simp add: vpb_entry_def l_def)
  have "ListSearchForElement (vpb_links s) (VpbList s) (stk + NextVpb_offset) True
      (Some (VpbCompareFunction l)) NULL =
    Some (case find (\<lambda>x. vpb_key l x = vpb_key l (stk + NextVpb_offset)) (map ?off vs) of
            None \<Rightarrow> NULL | Some x \<Rightarrow> x, NULL)"
    by (rule vpb.ListSearchForElement_finds [OF r])
      (use stk ent vpb_entries [OF r ls] srt in auto)
  moreover have "?off (vs ! i) \<noteq> NULL" if "i < length vs" for i
    using r nth_mem [OF that] by (auto simp: is_list_def)
  ultimately show ?thesis
    unfolding key find_unique_key [OF keys]
    by (auto simp: IomuSearchForVpb_def Let_def nat_less_iff l_def)
qed

section \<open>Properties\<close>

text \<open>
  C32. After the volumes \<open>ws\<close> (at most 24, each block existing and unlinked) were announced
  to the I/O manager, no assertion has failed and a search for the \<open>i\<close>-th letter from C,
  in upper or lower case, gives the \<open>i\<close>-th volume; the letter after the last volume gives
  \<^verbatim>\<open>NULL\<close>.
\<close>

theorem vpb_letters_resolve:
  assumes "vpb_state s []" and "distinct ws" and "\<forall>w \<in> set ws. vpb_fresh s [] w" and "length ws \<le> 24"
    and "stk \<notin> set ws" and "stk + NextVpb_offset \<noteq> NULL"
  shows "\<exists>s'. IomuCreateVpbs ws s = Some s'
    \<and> (\<forall>i < length ws. IomuSearchForVpb stk s' (of_nat (0x43 + i)) = Some (ws ! i)
                       \<and> IomuSearchForVpb stk s' (of_nat (0x63 + i)) = Some (ws ! i))
    \<and> IomuSearchForVpb stk s' (of_nat (0x43 + length ws)) = Some NULL"
proof -
  obtain s' where s': "IomuCreateVpbs ws s = Some s'" "vpb_state s' ws"
    using IomuCreateVpbs_state [OF assms(1-3)] assms(4) by auto
  note search = IomuSearchForVpb_result [OF s'(2) assms(5,6)]
  have "\<forall>i \<in> set [0..<25]. cl_tolower (of_nat (0x63 + i)) = cl_tolower (of_nat (0x43 + i))"
    by code_simp
  then have low: "cl_tolower (of_nat (0x63 + i)) = cl_tolower (of_nat (0x43 + i))" if "i < 25" for i
    using that by (auto simp del: of_nat_add of_nat_numeral)
  have idx: "nat (int (99 + i) - 99) = i" for i :: nat by simp
  show ?thesis
    using s'(1) assms(4) by (auto simp: idx search low letter_lower simp del: of_nat_add of_nat_numeral)
qed


definition sample_vpbs :: IOMU_VPBS where
  "sample_vpbs = \<lparr>VpbList = 0x1000, VolumeLetter = [0x2000 \<mapsto> 0, 0x3000 \<mapsto> 0],
     currentVolumeLetter = 0x42,
     vpb_links = [0x1000 \<mapsto> \<lparr>Flink = 0x1000, Blink = 0x1000\<rparr>,
       0x2018 \<mapsto> \<lparr>Flink = 0, Blink = 0\<rparr>, 0x3018 \<mapsto> \<lparr>Flink = 0, Blink = 0\<rparr>]\<rparr>"

theorem vpb_letters_resolve_witness:
  "\<exists>s'. IomuCreateVpbs [0x2000, 0x3000] sample_vpbs = Some s'
    \<and> IomuSearchForVpb 0x8000 s' 0x44 = Some 0x3000 \<and> IomuSearchForVpb 0x8000 s' 0x63 = Some 0x2000
    \<and> IomuSearchForVpb 0x8000 s' 0x45 = Some NULL"
proof -
  have "vpb_state sample_vpbs []"
    by (simp add: vpb_state_def sample_vpbs_def is_list_Nil links_def rd_Flink_def rd_Blink_def)
  moreover have "\<forall>w \<in> set [0x2000, 0x3000]. vpb_fresh sample_vpbs [] w"
    by (simp add: vpb_fresh_def sample_vpbs_def NextVpb_offset_def)
  ultimately obtain s' where "IomuCreateVpbs [0x2000, 0x3000] sample_vpbs = Some s'"
    and "\<forall>i < 2. IomuSearchForVpb 0x8000 s' (of_nat (0x43 + i)) = Some ([0x2000, 0x3000] ! i)
                 \<and> IomuSearchForVpb 0x8000 s' (of_nat (0x63 + i)) = Some ([0x2000, 0x3000] ! i)"
    and "IomuSearchForVpb 0x8000 s' (of_nat (0x43 + 2)) = Some NULL"
    using vpb_letters_resolve [of sample_vpbs "[0x2000, 0x3000]" "0x8000"]
    by (auto simp: NextVpb_offset_def)
  then show ?thesis by (force dest: spec [of _ 0] spec [of _ 1])
qed

end
