(* ===== verification/Storage.thy ===== *)
theory Storage
  imports Prelude
begin

unbundle bit_operations_syntax

text \<open>
  The path of a read or write request from \<^verbatim>\<open>IoReadDeviceEx\<close> and \<^verbatim>\<open>IoWriteDeviceEx\<close> (\<^verbatim>\<open>HAL9000/src/io_devices.c\<close>) through the
  volume (\<^verbatim>\<open>Volume/src/volume_dispatch.c\<close>) and the disk (\<^verbatim>\<open>Disk/src/disk_dispatch.c\<close>) to the ATA controller
  (\<^verbatim>\<open>Ata/src/ata_dispatch.c\<close>).

  The state is one record: the partition of the volume, the size of the disk and the bytes on it. The
  registers of the controller are not modelled: \<open>TransferStatus\<close> is the status with which \<^verbatim>\<open>AtaReadWriteSectors\<close>
  answers a request that passed its checks; its only failure, the preparation of the DMA transfer, comes before
  any sector is moved. \<open>HeapHasRoom\<close> says whether the kernel heap can serve a request of a size. An IRP is the tuple of its
  parameters on the way down and of \<^verbatim>\<open>IoStatus\<close> and the buffer on the way up.
\<close>

section \<open>Bytes and integers\<close>

definition get_word :: "BYTE list \<Rightarrow> nat \<Rightarrow> WORD option" where
  "get_word b i = (if i + 2 \<le> length b then Some (ucast (b ! i) OR push_bit 8 (ucast (b ! (i + 1)))) else None)"

definition get_dword :: "BYTE list \<Rightarrow> nat \<Rightarrow> DWORD option" where
  "get_dword b i = (if i + 4 \<le> length b
     then Some (ucast (b ! i) OR push_bit 8 (ucast (b ! (i + 1))) OR push_bit 16 (ucast (b ! (i + 2)))
       OR push_bit 24 (ucast (b ! (i + 3)))) else None)"

definition put_bytes :: "BYTE list \<Rightarrow> nat \<Rightarrow> BYTE list \<Rightarrow> BYTE list option" where
  "put_bytes b i x = (if i + length x \<le> length b then Some (take i b @ x @ drop (i + length x) b) else None)"

definition put_word :: "BYTE list \<Rightarrow> nat \<Rightarrow> WORD \<Rightarrow> BYTE list option" where
  "put_word b i w = put_bytes b i [ucast w, ucast (drop_bit 8 w)]"

definition put_dword :: "BYTE list \<Rightarrow> nat \<Rightarrow> DWORD \<Rightarrow> BYTE list option" where
  "put_dword b i w = put_bytes b i [ucast w, ucast (drop_bit 8 w), ucast (drop_bit 16 w), ucast (drop_bit 24 w)]"

section \<open>The devices\<close>

record STORAGE =
  OffsetInDisk :: QWORD
  PartitionSize :: QWORD
  DeviceAlignment :: DWORD
  IrpSize :: DWORD
  AtaInitialized :: bool
  TotalSectors :: QWORD
  TransferStatus :: "QWORD \<Rightarrow> WORD \<Rightarrow> bool \<Rightarrow> STATUS"
  HeapHasRoom :: "DWORD \<Rightarrow> bool"
  DiskBytes :: "nat \<Rightarrow> BYTE"

definition SECTOR_SIZE :: QWORD where "SECTOR_SIZE = 512"
definition LBA48_MAX_VALUE :: QWORD where "LBA48_MAX_VALUE = 0x0000FFFFFFFFFFFF"

definition DEVICE_MASK :: DWORD where "DEVICE_MASK = push_bit 16 1"

definition STATUS_DEVICE_NOT_INITIALIZED :: STATUS where
  "STATUS_DEVICE_NOT_INITIALIZED = (ERROR_MASK OR CUSTOMER_BIT OR DEVICE_MASK OR 0x0004)"
definition STATUS_DEVICE_SECTOR_OFFSET_EXCEEDED :: STATUS where
  "STATUS_DEVICE_SECTOR_OFFSET_EXCEEDED = (ERROR_MASK OR CUSTOMER_BIT OR DEVICE_MASK OR 0x0005)"
definition STATUS_DEVICE_SECTOR_COUNT_EXCEEDED :: STATUS where
  "STATUS_DEVICE_SECTOR_COUNT_EXCEEDED = (ERROR_MASK OR CUSTOMER_BIT OR DEVICE_MASK OR 0x0006)"
definition STATUS_DEVICE_DATA_ALIGNMENT_ERROR :: STATUS where
  "STATUS_DEVICE_DATA_ALIGNMENT_ERROR = (ERROR_MASK OR CUSTOMER_BIT OR DEVICE_MASK OR 0x000A)"

definition AtaCheckAlignment :: "QWORD \<Rightarrow> QWORD \<Rightarrow> STATUS" where
  "AtaCheckAlignment Size Offset =
     (if \<not> IsAddressAligned Size SECTOR_SIZE then STATUS_DEVICE_DATA_ALIGNMENT_ERROR
      else if \<not> IsAddressAligned Offset SECTOR_SIZE then STATUS_DEVICE_DATA_ALIGNMENT_ERROR
      else STATUS_SUCCESS)"

definition AtaCheckIOParameters :: "STORAGE \<Rightarrow> QWORD \<Rightarrow> WORD \<Rightarrow> STATUS" where
  "AtaCheckIOParameters s SectorIndex SectorCount =
     (if \<not> AtaInitialized s then STATUS_DEVICE_NOT_INITIALIZED
      else if SectorIndex \<ge> TotalSectors s then STATUS_DEVICE_SECTOR_OFFSET_EXCEEDED
      else if SectorIndex \<ge> LBA48_MAX_VALUE then STATUS_DEVICE_SECTOR_OFFSET_EXCEEDED
      else if TotalSectors s - SectorIndex < ucast SectorCount then STATUS_DEVICE_SECTOR_COUNT_EXCEEDED
      else STATUS_SUCCESS)"

text \<open>
  The transfer itself: the parameter checks of \<^verbatim>\<open>AtaReadWriteSectors\<close>, the answer of the controller and
  the sectors moved between the buffer and the disk.
\<close>

definition disk_write :: "(nat \<Rightarrow> BYTE) \<Rightarrow> nat \<Rightarrow> BYTE list \<Rightarrow> nat \<Rightarrow> BYTE" where
  "disk_write d p x = (\<lambda>i. if p \<le> i \<and> i < p + length x then x ! (i - p) else d i)"

definition AtaReadWriteSectors ::
  "STORAGE \<Rightarrow> QWORD \<Rightarrow> WORD \<Rightarrow> BYTE list \<Rightarrow> bool \<Rightarrow> (STATUS \<times> WORD \<times> BYTE list \<times> STORAGE) option" where
  "AtaReadWriteSectors s SectorIndex SectorCount Buffer WriteOperation =
     (if SectorCount = 0 then Some (STATUS_INVALID_PARAMETER3, 0, Buffer, s)
      else if \<not> SUCCEEDED (TransferStatus s SectorIndex SectorCount WriteOperation)
      then Some (TransferStatus s SectorIndex SectorCount WriteOperation, 0, Buffer, s)
      else let p = unat SectorIndex * 512; n = unat SectorCount * 512 in do {
        ASSERT (n \<le> length Buffer);
        if WriteOperation
        then Some (STATUS_SUCCESS, SectorCount, Buffer, s\<lparr>DiskBytes := disk_write (DiskBytes s) p (take n Buffer)\<rparr>)
        else Some (STATUS_SUCCESS, SectorCount, map (DiskBytes s) [p ..< p + n] @ drop n Buffer, s)
      })"

definition AtaDispatchReadWrite ::
  "STORAGE \<Rightarrow> QWORD \<Rightarrow> QWORD \<Rightarrow> BYTE list \<Rightarrow> bool \<Rightarrow> (STATUS \<times> QWORD \<times> BYTE list \<times> STORAGE) option" where
  "AtaDispatchReadWrite s sizeInBytes offset Buffer writeOperation =
     (let status = AtaCheckAlignment sizeInBytes offset in
      if \<not> SUCCEEDED status then Some (status, 0, Buffer, s)
      else
        let sectorIndex = offset div SECTOR_SIZE; sectorCount = sizeInBytes div SECTOR_SIZE in
        if sectorCount > ucast MAX_WORD then Some (STATUS_DEVICE_SECTOR_COUNT_EXCEEDED, 0, Buffer, s)
        else
          let status = AtaCheckIOParameters s sectorIndex (ucast sectorCount) in
          if \<not> SUCCEEDED status then Some (status, 0, Buffer, s)
          else do {
            (status, sectorsRead, Buffer, s) \<leftarrow> AtaReadWriteSectors s sectorIndex (ucast sectorCount) Buffer writeOperation;
            Some (status, ucast sectorsRead * SECTOR_SIZE, Buffer, s)
          })"

text \<open>The disk passes the request on; only the partition of the volume changes it.\<close>

definition DiskDispatchReadWrite ::
  "STORAGE \<Rightarrow> QWORD \<Rightarrow> QWORD \<Rightarrow> BYTE list \<Rightarrow> bool \<Rightarrow> (STATUS \<times> QWORD \<times> BYTE list \<times> STORAGE) option" where
  "DiskDispatchReadWrite s Length Offset Buffer Write = AtaDispatchReadWrite s Length Offset Buffer Write"

definition VolCheckIOParameters :: "STORAGE \<Rightarrow> QWORD \<Rightarrow> QWORD \<Rightarrow> STATUS" where
  "VolCheckIOParameters s SectorIndex SectorCount =
     (if SectorIndex \<ge> PartitionSize s then STATUS_DEVICE_SECTOR_OFFSET_EXCEEDED
      else if PartitionSize s - SectorIndex < SectorCount then STATUS_DEVICE_SECTOR_COUNT_EXCEEDED
      else STATUS_SUCCESS)"

definition VolDispatchReadWrite ::
  "STORAGE \<Rightarrow> QWORD \<Rightarrow> QWORD \<Rightarrow> BYTE list \<Rightarrow> bool \<Rightarrow> (STATUS \<times> QWORD \<times> BYTE list \<times> STORAGE) option" where
  "VolDispatchReadWrite s Length Offset Buffer Write =
     (let lengthInSectors = Length div SECTOR_SIZE; offsetInSectors = Offset div SECTOR_SIZE;
          status = VolCheckIOParameters s offsetInSectors lengthInSectors in
      if \<not> SUCCEEDED status then Some (status, 0, Buffer, s)
      else DiskDispatchReadWrite s Length ((offsetInSectors + OffsetInDisk s) * SECTOR_SIZE) Buffer Write)"

text \<open>
  \<^verbatim>\<open>IoReadDevice\<close> and \<^verbatim>\<open>IoWriteDevice\<close>: the status, the number of bytes moved, the buffer and the storage. The
  transfer is waited for whether or not it is asynchronous.
\<close>

definition IoReadWriteDevice ::
  "STORAGE \<Rightarrow> BYTE list \<Rightarrow> QWORD \<Rightarrow> QWORD \<Rightarrow> bool \<Rightarrow> (STATUS \<times> QWORD \<times> BYTE list \<times> STORAGE) option" where
  "IoReadWriteDevice s Buffer Length Offset Write = do {
     ASSERT (HeapHasRoom s (IrpSize s));
     VolDispatchReadWrite s Length Offset Buffer Write
   }"

definition IoReadDevice :: "STORAGE \<Rightarrow> BYTE list \<Rightarrow> QWORD \<Rightarrow> QWORD \<Rightarrow> (STATUS \<times> QWORD \<times> BYTE list \<times> STORAGE) option" where
  "IoReadDevice s Buffer Length Offset = IoReadWriteDevice s Buffer Length Offset False"

definition IoWriteDevice :: "STORAGE \<Rightarrow> BYTE list \<Rightarrow> QWORD \<Rightarrow> QWORD \<Rightarrow> (STATUS \<times> QWORD \<times> BYTE list \<times> STORAGE) option" where
  "IoWriteDevice s Buffer Length Offset = IoReadWriteDevice s Buffer Length Offset True"

section \<open>Requests that succeed\<close>

text \<open>
  A volume that answers: the partition lies on the disk, no transfer fails and the heap has room. Sectors of the
  volume are 512 bytes; \<open>vol s i\<close> is byte \<open>i\<close> of the volume.
\<close>

definition storage_ready :: "STORAGE \<Rightarrow> bool" where
  "storage_ready s \<longleftrightarrow> AtaInitialized s \<and> (\<forall>i c w. TransferStatus s i c w = STATUS_SUCCESS) \<and> (\<forall>n. HeapHasRoom s n)
     \<and> unat (OffsetInDisk s) + unat (PartitionSize s) \<le> unat (TotalSectors s) \<and> unat (TotalSectors s) < 2 ^ 48 - 1"

definition vol :: "STORAGE \<Rightarrow> nat \<Rightarrow> BYTE" where
  "vol s i = DiskBytes s (unat (OffsetInDisk s) * 512 + i)"

definition vol_range :: "STORAGE \<Rightarrow> nat \<Rightarrow> nat \<Rightarrow> BYTE list" where
  "vol_range s p n = map (vol s) [p ..< p + n]"

definition vol_write :: "STORAGE \<Rightarrow> nat \<Rightarrow> BYTE list \<Rightarrow> STORAGE" where
  "vol_write s p x = s\<lparr>DiskBytes := disk_write (DiskBytes s) (unat (OffsetInDisk s) * 512 + p) x\<rparr>"

lemma storage_ready_room [simp]: "storage_ready s \<Longrightarrow> HeapHasRoom s n"
  by (simp add: storage_ready_def)

lemma storage_ready_vol_write [simp]: "storage_ready (vol_write s p x) = storage_ready s"
  by (simp add: storage_ready_def vol_write_def)

lemma vol_write_simps [simp]:
  "PartitionSize (vol_write s p x) = PartitionSize s" "OffsetInDisk (vol_write s p x) = OffsetInDisk s"
  "TotalSectors (vol_write s p x) = TotalSectors s" "HeapHasRoom (vol_write s p x) = HeapHasRoom s"
  "DeviceAlignment (vol_write s p x) = DeviceAlignment s"
  by (simp_all add: vol_write_def)

lemma vol_vol_write [simp]: "vol (vol_write s p x) i = (if p \<le> i \<and> i < p + length x then x ! (i - p) else vol s i)"
  by (simp add: vol_def vol_write_def disk_write_def)

lemma length_vol_range [simp]: "length (vol_range s p n) = n"
  by (simp add: vol_range_def)

lemma nth_vol_range [simp]: "i < n \<Longrightarrow> vol_range s p n ! i = vol s (p + i)"
  by (simp add: vol_range_def)

lemma vol_range_vol_write_same [simp]: "length x = n \<Longrightarrow> vol_range (vol_write s p x) p n = x"
  by (rule nth_equalityI) simp_all

lemma vol_range_vol_write_other:
  "p + length x \<le> q \<or> q + n \<le> p \<Longrightarrow> vol_range (vol_write s p x) q n = vol_range s q n"
  by (rule nth_equalityI) auto

lemma vol_write_same [simp]: "vol_write s p (vol_range s p n) = s"
proof -
  have "disk_write (DiskBytes s) (unat (OffsetInDisk s) * 512 + p) (vol_range s p n) = DiskBytes s"
    by (rule ext) (auto simp: disk_write_def vol_def)
  then show ?thesis by (simp add: vol_write_def)
qed

text \<open>A range of whole sectors of the volume that one transfer can move.\<close>

definition io_range :: "STORAGE \<Rightarrow> QWORD \<Rightarrow> QWORD \<Rightarrow> bool" where
  "io_range s off len \<longleftrightarrow> unat off mod 512 = 0 \<and> unat len mod 512 = 0 \<and> len \<noteq> 0 \<and> unat len div 512 \<le> 65535
     \<and> unat off + unat len \<le> unat (PartitionSize s) * 512"

lemma IsAddressAligned_sector: "IsAddressAligned a SECTOR_SIZE \<longleftrightarrow> unat a mod 512 = 0"
  using IsAddressAligned_unat [of SECTOR_SIZE 9 a] by (simp add: SECTOR_SIZE_def)

lemma whole_sectors:
  assumes "(p::nat) mod 512 = 0" "n mod 512 = 0" "n \<noteq> 0" "p + n \<le> l * 512"
  shows "p div 512 + n div 512 \<le> l" "1 \<le> n div 512" "p div 512 * 512 = p" "n div 512 * 512 = n"
  using assms by (auto elim!: dvdE simp: mod_eq_0_iff_dvd)

lemma io_rangeD:
  assumes "io_range s off len"
  shows "unat off div 512 + unat len div 512 \<le> unat (PartitionSize s)" "1 \<le> unat len div 512"
    "unat off div 512 * 512 = unat off" "unat len div 512 * 512 = unat len" "unat len div 512 \<le> 65535"
    "unat off mod 512 = 0" "unat len mod 512 = 0"
  using assms whole_sectors [of "unat off" "unat len" "unat (PartitionSize s)"]
  by (simp_all add: io_range_def unat_eq_zero)

lemma unat_div_sector: "unat (x div SECTOR_SIZE) = unat x div 512"
  by (simp add: unat_div SECTOR_SIZE_def)

lemma unat_mult_sector: "unat x < 2 ^ 55 \<Longrightarrow> unat (x * SECTOR_SIZE) = unat x * 512"
  by (simp add: unat_word_ariths(2) SECTOR_SIZE_def)

lemma io_range_checks:
  assumes "storage_ready s" "io_range s off len"
  shows "VolCheckIOParameters s (off div SECTOR_SIZE) (len div SECTOR_SIZE) = STATUS_SUCCESS"
    "unat (off div SECTOR_SIZE + OffsetInDisk s) = unat off div 512 + unat (OffsetInDisk s)"
    "unat ((off div SECTOR_SIZE + OffsetInDisk s) * SECTOR_SIZE) = unat off + unat (OffsetInDisk s) * 512"
proof -
  note k = io_rangeD [OF assms(2)]
  have lt: "\<not> PartitionSize s \<le> off div SECTOR_SIZE" using k(1,2) by (simp add: word_le_nat_alt unat_div_sector)
  then have "unat (PartitionSize s - off div SECTOR_SIZE) = unat (PartitionSize s) - unat off div 512"
    by (subst unat_sub_above) (simp_all add: word_le_nat_alt unat_div_sector)
  then have "\<not> PartitionSize s - off div SECTOR_SIZE < len div SECTOR_SIZE"
    using k(1) by (simp add: word_less_nat_alt unat_div_sector)
  then show "VolCheckIOParameters s (off div SECTOR_SIZE) (len div SECTOR_SIZE) = STATUS_SUCCESS"
    using lt by (simp add: VolCheckIOParameters_def)
  have b: "unat (OffsetInDisk s) + unat (PartitionSize s) < 2 ^ 48" using assms(1) by (simp add: storage_ready_def)
  then show a: "unat (off div SECTOR_SIZE + OffsetInDisk s) = unat off div 512 + unat (OffsetInDisk s)"
    using k(1) by (subst unat_add_below) (simp_all add: unat_div_sector)
  have "unat ((off div SECTOR_SIZE + OffsetInDisk s) * SECTOR_SIZE) = (unat off div 512 + unat (OffsetInDisk s)) * 512"
    using a k(1) b by (subst unat_mult_sector) simp_all
  then show "unat ((off div SECTOR_SIZE + OffsetInDisk s) * SECTOR_SIZE) = unat off + unat (OffsetInDisk s) * 512"
    using k(3) by (simp add: algebra_simps)
qed

lemma io_range_ata:
  assumes "storage_ready s" "io_range s off len"
  shows "AtaDispatchReadWrite s len ((off div SECTOR_SIZE + OffsetInDisk s) * SECTOR_SIZE) b w
    = do { (status, n, b, s) \<leftarrow> AtaReadWriteSectors s (off div SECTOR_SIZE + OffsetInDisk s) (ucast (len div SECTOR_SIZE)) b w;
           Some (status, ucast n * SECTOR_SIZE, b, s) }" (is ?A)
    "unat (ucast (len div SECTOR_SIZE) :: WORD) = unat len div 512"
proof -
  let ?o = "off div SECTOR_SIZE + OffsetInDisk s" and ?c = "ucast (len div SECTOR_SIZE) :: WORD"
  note k = io_rangeD [OF assms(2)] and c = io_range_checks [OF assms]
  have t: "unat (OffsetInDisk s) + unat (PartitionSize s) \<le> unat (TotalSectors s)" "unat (TotalSectors s) < 2 ^ 48 - 1"
    "AtaInitialized s" using assms(1) by (simp_all add: storage_ready_def)
  show n: "unat ?c = unat len div 512" using k(5) by (simp add: unat_ucast_mod unat_div_sector)
  have "unat (?o * SECTOR_SIZE div SECTOR_SIZE) = unat ?o"
    unfolding unat_div_sector c(2,3) by simp
  then have e: "?o * SECTOR_SIZE div SECTOR_SIZE = ?o" by (simp only: word_unat_eq_iff)
  have i: "\<not> TotalSectors s \<le> ?o" "\<not> LBA48_MAX_VALUE \<le> ?o"
    using k(1,2) t by (simp_all add: word_le_nat_alt c(2) LBA48_MAX_VALUE_def)
  then have "unat (TotalSectors s - ?o) = unat (TotalSectors s) - unat ?o"
    by (subst unat_sub_above) (simp_all add: word_le_nat_alt)
  moreover have "unat (ucast ?c :: QWORD) = unat len div 512" using n k(5) by (simp add: unat_ucast_mod)
  ultimately have "\<not> TotalSectors s - ?o < ucast ?c"
    using k(1) t unfolding word_less_nat_alt by (simp add: c(2))
  then have p: "AtaCheckIOParameters s ?o ?c = STATUS_SUCCESS"
    using i t(3) by (simp add: AtaCheckIOParameters_def)
  have a: "AtaCheckAlignment len (?o * SECTOR_SIZE) = STATUS_SUCCESS"
    using k(6,7) by (simp add: AtaCheckAlignment_def IsAddressAligned_sector c(3))
  have m: "\<not> len div SECTOR_SIZE > ucast MAX_WORD"
    using k(5) by (simp add: word_less_nat_alt unat_div_sector MAX_WORD_def)
  show ?A unfolding AtaDispatchReadWrite_def Let_def a e p using m by simp
qed

lemma transfer_facts:
  assumes "storage_ready s" "io_range s off len"
  shows "(ucast (len div SECTOR_SIZE) :: WORD) \<noteq> 0" "ucast (ucast (len div SECTOR_SIZE) :: WORD) * SECTOR_SIZE = len"
    "unat (off div SECTOR_SIZE + OffsetInDisk s) * 512 = unat (OffsetInDisk s) * 512 + unat off"
    "unat (ucast (len div SECTOR_SIZE) :: WORD) * 512 = unat len"
proof -
  note k = io_rangeD [OF assms(2)] and c = io_range_checks [OF assms] and n = io_range_ata(2) [OF assms]
  show "(ucast (len div SECTOR_SIZE) :: WORD) \<noteq> 0" using n k(2) by (metis not_one_le_zero unat_0)
  show "unat (ucast (len div SECTOR_SIZE) :: WORD) * 512 = unat len" using n k(4) by simp
  then have "unat (ucast (ucast (len div SECTOR_SIZE) :: WORD) * SECTOR_SIZE) = unat len"
    using k(5) n by (simp add: unat_word_ariths(2) unat_ucast_mod SECTOR_SIZE_def)
  then show "ucast (ucast (len div SECTOR_SIZE) :: WORD) * SECTOR_SIZE = len" by (simp only: word_unat_eq_iff)
  show "unat (off div SECTOR_SIZE + OffsetInDisk s) * 512 = unat (OffsetInDisk s) * 512 + unat off"
    using c(2) k(3) by (simp add: algebra_simps)
qed

lemma IoReadDevice_ok:
  assumes "storage_ready s" "io_range s off len" "unat len \<le> length b"
  shows "IoReadDevice s b len off = Some (STATUS_SUCCESS, len, vol_range s (unat off) (unat len) @ drop (unat len) b, s)"
proof -
  have m: "map (DiskBytes s) [unat (OffsetInDisk s) * 512 + unat off ..< unat (OffsetInDisk s) * 512 + unat off + unat len]
    = vol_range s (unat off) (unat len)"
    by (rule nth_equalityI) (simp_all add: vol_def add.assoc)
  show ?thesis
    using assms(1,3) transfer_facts [OF assms(1,2)] m
    by (simp add: IoReadDevice_def IoReadWriteDevice_def VolDispatchReadWrite_def Let_def io_range_checks(1) [OF assms(1,2)]
        DiskDispatchReadWrite_def io_range_ata(1) [OF assms(1,2)] AtaReadWriteSectors_def storage_ready_def)
qed

lemma IoWriteDevice_ok:
  assumes "storage_ready s" "io_range s off len" "unat len \<le> length b"
  shows "IoWriteDevice s b len off = Some (STATUS_SUCCESS, len, b, vol_write s (unat off) (take (unat len) b))"
  using assms(1,3) transfer_facts [OF assms(1,2)]
  by (simp add: IoWriteDevice_def IoReadWriteDevice_def VolDispatchReadWrite_def Let_def io_range_checks(1) [OF assms(1,2)]
      DiskDispatchReadWrite_def io_range_ata(1) [OF assms(1,2)] AtaReadWriteSectors_def storage_ready_def vol_write_def)

section \<open>The contract of a sector device\<close>

text \<open>
  What a file system relies on: inside the range of the device a read returns the bytes and a write changes them
  and nothing else. \<open>usable\<close> is the range and the health of the device.
\<close>

locale sector_device =
  fixes dev_read :: "'s \<Rightarrow> BYTE list \<Rightarrow> QWORD \<Rightarrow> QWORD \<Rightarrow> (STATUS \<times> QWORD \<times> BYTE list \<times> 's) option"
    and dev_write :: "'s \<Rightarrow> BYTE list \<Rightarrow> QWORD \<Rightarrow> QWORD \<Rightarrow> (STATUS \<times> QWORD \<times> BYTE list \<times> 's) option"
    and contents :: "'s \<Rightarrow> nat \<Rightarrow> BYTE"
    and usable :: "'s \<Rightarrow> QWORD \<Rightarrow> QWORD \<Rightarrow> bool"
  assumes read_range: "usable s off len \<Longrightarrow> unat len \<le> length b \<Longrightarrow>
      dev_read s b len off = Some (STATUS_SUCCESS, len, map (contents s) [unat off ..< unat off + unat len] @ drop (unat len) b, s)"
    and write_range: "usable s off len \<Longrightarrow> unat len \<le> length b \<Longrightarrow>
      \<exists>t. dev_write s b len off = Some (STATUS_SUCCESS, len, b, t) \<and> (\<forall>o' l'. usable t o' l' = usable s o' l')
        \<and> (\<forall>i. contents t i = (if unat off \<le> i \<and> i < unat off + unat len then b ! (i - unat off) else contents s i))"
begin

lemma write_then_read:
  assumes "usable s off len" "length b = unat len" "length b' = unat len"
  shows "\<exists>t. dev_write s b len off = Some (STATUS_SUCCESS, len, b, t) \<and> dev_read t b' len off = Some (STATUS_SUCCESS, len, b, t)"
proof -
  obtain t where t: "dev_write s b len off = Some (STATUS_SUCCESS, len, b, t)" "usable t off len"
    "\<And>i. contents t i = (if unat off \<le> i \<and> i < unat off + unat len then b ! (i - unat off) else contents s i)"
    using write_range [OF assms(1), of b] assms(1,2) by auto
  have "map (contents t) [unat off ..< unat off + unat len] = b"
    using assms(2) by (intro nth_equalityI) (simp_all add: t(3))
  then show ?thesis using t(1) read_range [OF t(2), of b'] assms(3) by auto
qed

text \<open>Ranges that do not meet do not disturb each other.\<close>

lemma read_after_other_write:
  assumes "usable s off len" "length b = unat len" "usable s off' len'" "length b' = unat len'"
    and "unat off + unat len \<le> unat off' \<or> unat off' + unat len' \<le> unat off"
  shows "\<exists>t. dev_write s b len off = Some (STATUS_SUCCESS, len, b, t)
    \<and> map_option (\<lambda>(st, n, x, _). (st, n, x)) (dev_read t b' len' off') = map_option (\<lambda>(st, n, x, _). (st, n, x)) (dev_read s b' len' off')"
proof -
  obtain t where t: "dev_write s b len off = Some (STATUS_SUCCESS, len, b, t)" "usable t off' len'"
    "\<And>i. contents t i = (if unat off \<le> i \<and> i < unat off + unat len then b ! (i - unat off) else contents s i)"
    using write_range [OF assms(1), of b] assms(2,3) by auto
  have "map (contents t) [unat off' ..< unat off' + unat len'] = map (contents s) [unat off' ..< unat off' + unat len']"
    using assms(5) by (auto simp: t(3))
  then show ?thesis using t(1) read_range [OF t(2), of b'] read_range [OF assms(3), of b'] assms(4) by auto
qed

end

text \<open>The volume, through the drivers below it, is such a device.\<close>

interpretation volume: sector_device IoReadDevice IoWriteDevice vol "\<lambda>s off len. storage_ready s \<and> io_range s off len"
proof unfold_locales
  fix s off len and b :: "BYTE list"
  assume r: "storage_ready s \<and> io_range s off len" and l: "unat len \<le> length b"
  show "IoReadDevice s b len off = Some (STATUS_SUCCESS, len, map (vol s) [unat off ..< unat off + unat len] @ drop (unat len) b, s)"
    using IoReadDevice_ok [OF conjunct1 [OF r] conjunct2 [OF r] l] by (simp add: vol_range_def)
  show "\<exists>t. IoWriteDevice s b len off = Some (STATUS_SUCCESS, len, b, t)
      \<and> (\<forall>o' l'. (storage_ready t \<and> io_range t o' l') = (storage_ready s \<and> io_range s o' l'))
      \<and> (\<forall>i. vol t i = (if unat off \<le> i \<and> i < unat off + unat len then b ! (i - unat off) else vol s i))"
    using IoWriteDevice_ok [OF conjunct1 [OF r] conjunct2 [OF r] l] l by (auto simp: io_range_def)
qed

text \<open>
  A write of whole sectors of a volume, through \<^verbatim>\<open>IoWriteDeviceEx\<close>, the volume, the disk and the controller, is read back, and a read of other
  sectors is not affected.
\<close>

lemma storage_write_read:
  assumes "storage_ready s" "io_range s off len" "length b = unat len" "length b' = unat len"
  shows "\<exists>t. IoWriteDevice s b len off = Some (STATUS_SUCCESS, len, b, t) \<and> IoReadDevice t b' len off = Some (STATUS_SUCCESS, len, b, t)"
  using volume.write_then_read [of s off len b b'] assms by simp

end
