(* ===== verification/Fat_Utils.thy ===== *)
theory Fat_Utils
  imports Storage
begin

unbundle bit_operations_syntax

text \<open>
  \<^verbatim>\<open>FAT32/src/fat_utils.c\<close>: cluster chains in the file allocation table, the search for a free cluster,
  entries of directories, and dates and times on the disk.

  A sector or cluster read from the volume is a list of bytes; the packed structures
  \<^verbatim>\<open>FAT32_ENTRY\<close>, \<^verbatim>\<open>FSINFO\<close> and \<^verbatim>\<open>DIR_ENTRY\<close> are read and written at their offsets in it, and an access
  behind the buffer is a fault. Arithmetic keeps the widths of the C expressions: the fields of
  \<^verbatim>\<open>FAT_DATA\<close> are 32 bits wide, sectors and clusters 64. A division by zero is a fault.
\<close>

section \<open>Data\<close>

record FAT_DATA =
  CountOfClusters :: DWORD
  RootDirectoryStartSector :: QWORD
  ReservedSectors :: DWORD
  FirstDataSector :: DWORD
  SectorsPerCluster :: DWORD
  BytesPerSector :: DWORD
  EntriesPerSector :: DWORD
  AllocationSize :: DWORD

definition FAT32_CLUSTER_MASK :: DWORD where "FAT32_CLUSTER_MASK = 0x0FFFFFFF"
definition FAT32_EOC_MARK :: DWORD where "FAT32_EOC_MARK = 0x0FFFFFFF"
definition FAT32_BAD_CLUSTER :: DWORD where "FAT32_BAD_CLUSTER = 0x0FFFFFF7"
definition FAT32_UNKNOWN :: DWORD where "FAT32_UNKNOWN = 0xFFFFFFFF"

definition FAT32_EOC :: "QWORD \<Rightarrow> bool" where "FAT32_EOC cluster \<longleftrightarrow> cluster > ucast FAT32_BAD_CLUSTER"

definition sizeof_FAT32_ENTRY :: QWORD where "sizeof_FAT32_ENTRY = 4"
definition sizeof_FSINFO :: DWORD where "sizeof_FSINFO = 512"
definition FSI_Free_Count :: nat where "FSI_Free_Count = 488"
definition FSI_Nxt_Free :: nat where "FSI_Nxt_Free = 492"

definition DISK_MASK :: DWORD where "DISK_MASK = push_bit 18 1"

definition STATUS_UNSUCCESSFUL :: STATUS where
  "STATUS_UNSUCCESSFUL = (ERROR_MASK OR CUSTOMER_BIT OR GENERAL_MASK OR 0x0003)"
definition STATUS_TIME_INVALID :: STATUS where
  "STATUS_TIME_INVALID = (ERROR_MASK OR CUSTOMER_BIT OR GENERAL_MASK OR 0x001C)"
definition STATUS_HEAP_NO_MORE_MEMORY :: STATUS where
  "STATUS_HEAP_NO_MORE_MEMORY = (ERROR_MASK OR CUSTOMER_BIT OR HEAP_MASK OR 0x0003)"
definition STATUS_DISK_FULL :: STATUS where
  "STATUS_DISK_FULL = (ERROR_MASK OR CUSTOMER_BIT OR DISK_MASK OR 0x0002)"
definition STATUS_DEVICE_CLUSTER_INVALID :: STATUS where
  "STATUS_DEVICE_CLUSTER_INVALID = (ERROR_MASK OR CUSTOMER_BIT OR DEVICE_MASK OR 0x000D)"

definition zeros :: "DWORD \<Rightarrow> BYTE list" where "zeros n = replicate (unat n) 0"

section \<open>Clusters and sectors\<close>

definition FirstSectorOfCluster :: "FAT_DATA \<Rightarrow> QWORD \<Rightarrow> STATUS \<times> QWORD option" where
  "FirstSectorOfCluster FatData Cluster =
     (if Cluster > ucast (CountOfClusters FatData + 1) \<or> Cluster < 2 then (STATUS_DEVICE_CLUSTER_INVALID, None)
      else (STATUS_SUCCESS, Some ((Cluster - 2) * ucast (SectorsPerCluster FatData) + ucast (FirstDataSector FatData))))"

definition ClusterOfSector :: "FAT_DATA \<Rightarrow> QWORD \<Rightarrow> (STATUS \<times> QWORD) option" where
  "ClusterOfSector FatData Sector = do {
     ASSERT (SectorsPerCluster FatData \<noteq> 0);
     let Cluster = (Sector - ucast (FirstDataSector FatData)) div ucast (SectorsPerCluster FatData) + 2;
     if Cluster > ucast (CountOfClusters FatData + 1) \<or> Cluster < 2 then Some (STATUS_DEVICE_CLUSTER_INVALID, Cluster)
     else Some (STATUS_SUCCESS, Cluster)
   }"

section \<open>The file allocation table\<close>

text \<open>The sector and the index in it of the entry of a cluster.\<close>

definition fat_position :: "FAT_DATA \<Rightarrow> QWORD \<Rightarrow> (QWORD \<times> QWORD) option" where
  "fat_position FatData Cluster = do {
     ASSERT (BytesPerSector FatData \<noteq> 0);
     ASSERT (ucast (BytesPerSector FatData) div sizeof_FAT32_ENTRY \<noteq> 0);
     Some (ucast (ReservedSectors FatData) + Cluster * sizeof_FAT32_ENTRY div ucast (BytesPerSector FatData),
           Cluster mod (ucast (BytesPerSector FatData) div sizeof_FAT32_ENTRY))
   }"

text \<open>The results are the status, the next cluster and the storage.\<close>

definition NextClusterInChain :: "FAT_DATA \<Rightarrow> STORAGE \<Rightarrow> QWORD \<Rightarrow> (STATUS \<times> QWORD \<times> STORAGE) option" where
  "NextClusterInChain FatData s CurrentCluster = do {
     (sectorNumber, indexInSector) \<leftarrow> fat_position FatData CurrentCluster;
     let bps = ucast (BytesPerSector FatData);
     let offset = sectorNumber * bps;
     if \<not> HeapHasRoom s (BytesPerSector FatData) then Some (STATUS_HEAP_NO_MORE_MEMORY, 0, s)
     else do {
       (status, bytesToReadWrite, pFat32Entries, s) \<leftarrow> IoReadDevice s (zeros (BytesPerSector FatData)) bps offset;
       if \<not> SUCCEEDED status then Some (status, 0, s)
       else do {
         ASSERT (bytesToReadWrite = bps);
         entry \<leftarrow> get_dword pFat32Entries (unat indexInSector * 4);
         let nextCluster = entry AND FAT32_CLUSTER_MASK;
         if 0 = nextCluster then do {
           pFat32Entries \<leftarrow> put_dword pFat32Entries (unat indexInSector * 4)
             ((entry AND NOT FAT32_CLUSTER_MASK) OR FAT32_EOC_MARK);
           (status, bytesToReadWrite, _, s) \<leftarrow> IoWriteDevice s pFat32Entries bytesToReadWrite offset;
           if \<not> SUCCEEDED status then Some (status, ucast FAT32_EOC_MARK, s)
           else do {
             ASSERT (bytesToReadWrite = bps);
             Some (STATUS_SUCCESS, ucast FAT32_EOC_MARK, s)
           }
         }
         else if FAT32_BAD_CLUSTER = nextCluster then Some (STATUS_SUCCESS, ucast FAT32_EOC_MARK, s)
         else Some (STATUS_SUCCESS, ucast nextCluster, s)
       }
     }
   }"

text \<open>The inner loop of \<^verbatim>\<open>_FirstFreeCluster\<close>: the first entry of a sector, from an index on, that is free.\<close>

function scan_entries :: "BYTE list \<Rightarrow> QWORD \<Rightarrow> QWORD \<Rightarrow> QWORD option option" where
  "scan_entries pFat32Entries indexInSector n =
     (if indexInSector < n then do {
        entry \<leftarrow> get_dword pFat32Entries (unat indexInSector * 4);
        if 0 = (entry AND FAT32_CLUSTER_MASK) then Some (Some indexInSector)
        else scan_entries pFat32Entries (indexInSector + 1) n
      }
      else Some None)"
  by pat_completeness auto
termination
  by (relation "measure (\<lambda>(_, i, n). unat n - unat i)") (auto simp: unat_inc_below word_less_nat_alt)

declare scan_entries.simps [simp del]

text \<open>What the code does with a free entry: mark it when asked to, and number its cluster.\<close>

definition take_entry ::
  "FAT_DATA \<Rightarrow> STORAGE \<Rightarrow> bool \<Rightarrow> QWORD \<Rightarrow> BYTE list \<Rightarrow> QWORD \<Rightarrow> QWORD \<Rightarrow> STATUS \<Rightarrow> (STATUS \<times> QWORD \<times> STORAGE) option" where
  "take_entry FatData s MarkReserved entriesPerFat pFat32Entries currentSector indexInSector status = do {
     let bps = ucast (BytesPerSector FatData);
     (status, s) \<leftarrow> (if MarkReserved then do {
         entry \<leftarrow> get_dword pFat32Entries (unat indexInSector * 4);
         pFat32Entries \<leftarrow> put_dword pFat32Entries (unat indexInSector * 4)
           ((entry AND NOT FAT32_CLUSTER_MASK) OR FAT32_EOC_MARK);
         (status, bytesToReadWrite, _, s) \<leftarrow> IoWriteDevice s pFat32Entries bps (currentSector * bps);
         ASSERT (SUCCEEDED status \<longrightarrow> bytesToReadWrite = bps);
         Some (status, s)
       } else Some (status, s));
     if \<not> SUCCEEDED status then Some (status, 0, s)
     else do {
       let clusterIndex = (currentSector - ucast (ReservedSectors FatData)) * (bps div sizeof_FAT32_ENTRY) + indexInSector;
       ASSERT (2 \<le> clusterIndex \<and> clusterIndex < entriesPerFat);
       ASSERT (ucast FAT32_UNKNOWN \<noteq> clusterIndex);
       Some (status, clusterIndex, s)
     }
   }"

function scan_sectors ::
  "FAT_DATA \<Rightarrow> STORAGE \<Rightarrow> bool \<Rightarrow> QWORD \<Rightarrow> QWORD \<Rightarrow> QWORD \<Rightarrow> QWORD \<Rightarrow> STATUS \<Rightarrow> (STATUS \<times> QWORD \<times> STORAGE) option" where
  "scan_sectors FatData s MarkReserved entriesPerFat sectorsPerFat currentSector indexInSector status =
     (if currentSector < sectorsPerFat then do {
        let bps = ucast (BytesPerSector FatData);
        (status, bytesToReadWrite, pFat32Entries, s') \<leftarrow>
          IoReadDevice s (zeros (BytesPerSector FatData)) bps (currentSector * bps);
        if \<not> SUCCEEDED status then Some (status, 0, s')
        else do {
          ASSERT (bytesToReadWrite = bps);
          free \<leftarrow> scan_entries pFat32Entries indexInSector (bps div sizeof_FAT32_ENTRY);
          case free of
            Some i \<Rightarrow> take_entry FatData s' MarkReserved entriesPerFat pFat32Entries currentSector i status
          | None \<Rightarrow> scan_sectors FatData s' MarkReserved entriesPerFat sectorsPerFat (currentSector + 1) 0 status
        }
      }
      else Some (status, 0, s))"
  by pat_completeness auto
termination
  by (relation "measure (\<lambda>(_, _, _, _, n, i, _). unat n - unat i)") (auto simp: unat_inc_below word_less_nat_alt)

declare scan_sectors.simps [simp del]

definition FirstFreeCluster :: "FAT_DATA \<Rightarrow> STORAGE \<Rightarrow> QWORD \<Rightarrow> bool \<Rightarrow> (STATUS \<times> QWORD \<times> STORAGE) option" where
  "FirstFreeCluster FatData s FirstCheckedCluster MarkReserved =
     (if \<not> HeapHasRoom s (BytesPerSector FatData) then Some (STATUS_HEAP_NO_MORE_MEMORY, 0, s)
      else do {
        let entriesPerFat = ucast (CountOfClusters FatData + 2);
        ASSERT (BytesPerSector FatData \<noteq> 0);
        let sectorsPerFat = entriesPerFat * sizeof_FAT32_ENTRY div ucast (BytesPerSector FatData);
        if entriesPerFat \<le> FirstCheckedCluster then Some (STATUS_SUCCESS, 0, s)
        else do {
          let firstCheckedCluster = (if ucast FAT32_UNKNOWN = FirstCheckedCluster then 2 else FirstCheckedCluster);
          (currentSector, indexInSector) \<leftarrow> fat_position FatData firstCheckedCluster;
          scan_sectors FatData s MarkReserved entriesPerFat sectorsPerFat currentSector indexInSector STATUS_UNSUCCESSFUL
        }
      })"

text \<open>
  The loop of \<^verbatim>\<open>_AddNewClusterToChain\<close> that counts the free clusters behind the one just reserved, in the buffer that
  holds \<^verbatim>\<open>FSINFO\<close>. It has no bound in the code.
\<close>

partial_function (option) count_free_clusters ::
  "FAT_DATA \<Rightarrow> STORAGE \<Rightarrow> QWORD \<Rightarrow> BYTE list \<Rightarrow> (STATUS \<times> BYTE list \<times> STORAGE) option" where
  [code]: "count_free_clusters FatData s freeCluster pFsInfo = do {
     (status, freeCluster, s) \<leftarrow> FirstFreeCluster FatData s (freeCluster + 1) False;
     if \<not> SUCCEEDED status then Some (status, pFsInfo, s)
     else if 0 = freeCluster then Some (status, pFsInfo, s)
     else do {
       n \<leftarrow> get_dword pFsInfo FSI_Free_Count;
       pFsInfo \<leftarrow> put_dword pFsInfo FSI_Free_Count (n + 1);
       count_free_clusters FatData s freeCluster pFsInfo
     }
   }"

text \<open>The block guarded by \<^verbatim>\<open>__try\<close>: the status, the reserved cluster, the buffer of \<^verbatim>\<open>FSINFO\<close> and the storage.\<close>

definition link_cluster :: "FAT_DATA \<Rightarrow> STORAGE \<Rightarrow> QWORD \<Rightarrow> QWORD \<Rightarrow> (STATUS \<times> STORAGE) option" where
  "link_cluster FatData s LastClusterFromChain reservedCluster =
     (if \<not> HeapHasRoom s (BytesPerSector FatData) then Some (STATUS_HEAP_NO_MORE_MEMORY, s)
      else do {
        (sectorFromFat, indexInSector) \<leftarrow> fat_position FatData LastClusterFromChain;
        let bps = ucast (BytesPerSector FatData);
        (status, bytesToReadWrite, pFat32Entries, s) \<leftarrow>
          IoReadDevice s (zeros (BytesPerSector FatData)) bps (sectorFromFat * bps);
        if \<not> SUCCEEDED status then Some (status, s)
        else do {
          ASSERT (bytesToReadWrite = bps);
          entry \<leftarrow> get_dword pFat32Entries (unat indexInSector * 4);
          pFat32Entries \<leftarrow> put_dword pFat32Entries (unat indexInSector * 4)
            ((entry AND NOT FAT32_CLUSTER_MASK) OR ucast reservedCluster);
          (status, bytesToReadWrite, _, s) \<leftarrow> IoWriteDevice s pFat32Entries bytesToReadWrite (sectorFromFat * bps);
          ASSERT (SUCCEEDED status \<longrightarrow> bytesToReadWrite = bps);
          Some (status, s)
        }
      })"

definition reserve_and_link ::
  "FAT_DATA \<Rightarrow> STORAGE \<Rightarrow> QWORD \<Rightarrow> BYTE list \<Rightarrow> (STATUS \<times> QWORD \<times> BYTE list \<times> STORAGE) option" where
  "reserve_and_link FatData s LastClusterFromChain pFsInfo = do {
     freeCount \<leftarrow> get_dword pFsInfo FSI_Free_Count;
     nxtFree \<leftarrow> get_dword pFsInfo FSI_Nxt_Free;
     if 0 = freeCount then do {
       pFsInfo \<leftarrow> put_dword pFsInfo FSI_Nxt_Free FAT32_UNKNOWN;
       Some (STATUS_DISK_FULL, 0, pFsInfo, s)
     }
     else do {
       (status, reservedCluster, s) \<leftarrow> FirstFreeCluster FatData s (ucast nxtFree) True;
       if \<not> SUCCEEDED status then Some (status, reservedCluster, pFsInfo, s)
       else if 0 = reservedCluster then do {
         ASSERT (FAT32_UNKNOWN = freeCount);
         pFsInfo \<leftarrow> put_dword pFsInfo FSI_Free_Count 0;
         pFsInfo \<leftarrow> put_dword pFsInfo FSI_Nxt_Free FAT32_UNKNOWN;
         Some (STATUS_DISK_FULL, 0, pFsInfo, s)
       }
       else do {
         (status, s) \<leftarrow> link_cluster FatData s LastClusterFromChain reservedCluster;
         if \<not> SUCCEEDED status then Some (status, reservedCluster, pFsInfo, s)
         else do {
           pFsInfo \<leftarrow> put_dword pFsInfo FSI_Nxt_Free (ucast reservedCluster);
           if FAT32_UNKNOWN = freeCount then do {
             pFsInfo \<leftarrow> put_dword pFsInfo FSI_Free_Count 0;
             (status, pFsInfo, s) \<leftarrow> count_free_clusters FatData s reservedCluster pFsInfo;
             Some (status, reservedCluster, pFsInfo, s)
           }
           else do {
             pFsInfo \<leftarrow> put_dword pFsInfo FSI_Free_Count (freeCount - 1);
             Some (status, reservedCluster, pFsInfo, s)
           }
         }
       }
     }
   }"

text \<open>
  \<^verbatim>\<open>_AddNewClusterToChain\<close>. The block \<^verbatim>\<open>__finally\<close> writes \<^verbatim>\<open>FSINFO\<close> back on every path and returns the status of that
  write; without a buffer the write fails an assertion.
\<close>

definition AddNewClusterToChain :: "FAT_DATA \<Rightarrow> STORAGE \<Rightarrow> QWORD \<Rightarrow> (STATUS \<times> QWORD \<times> STORAGE) option" where
  "AddNewClusterToChain FatData s LastClusterFromChain = do {
     ASSERT (\<not> FAT32_EOC LastClusterFromChain);
     ASSERT (HeapHasRoom s sizeof_FSINFO);
     let bps = ucast (BytesPerSector FatData);
     let len = ucast sizeof_FSINFO;
     (status, bytesToReadWrite, pFsInfo, s) \<leftarrow> IoReadDevice s (zeros sizeof_FSINFO) len bps;
     (reservedCluster, pFsInfo, s) \<leftarrow> (if \<not> SUCCEEDED status then Some (0, pFsInfo, s)
       else do {
         ASSERT (bytesToReadWrite = bps);
         (_, reservedCluster, pFsInfo, s) \<leftarrow> reserve_and_link FatData s LastClusterFromChain pFsInfo;
         Some (reservedCluster, pFsInfo, s)
       });
     (status, bytesToReadWrite, _, s) \<leftarrow> IoWriteDevice s pFsInfo len bps;
     ASSERT (bytesToReadWrite = bps);
     Some (status, reservedCluster, s)
   }"

text \<open>The sector is \<open>None\<close> where the code leaves \<^verbatim>\<open>NextSector\<close> as it was.\<close>

definition NextSectorInClusterChain ::
  "FAT_DATA \<Rightarrow> STORAGE \<Rightarrow> QWORD \<Rightarrow> bool \<Rightarrow> (STATUS \<times> QWORD option \<times> STORAGE) option" where
  "NextSectorInClusterChain FatData s CurrentSector ExtendChain = do {
     (status, currentCluster) \<leftarrow> ClusterOfSector FatData CurrentSector;
     if \<not> SUCCEEDED status then Some (status, None, s)
     else do {
       (status, nextCluster, s) \<leftarrow> NextClusterInChain FatData s currentCluster;
       if \<not> SUCCEEDED status then Some (status, None, s)
       else if FAT32_EOC nextCluster \<and> \<not> ExtendChain then Some (status, Some 0, s)
       else do {
         (status, nextCluster, s) \<leftarrow> (if FAT32_EOC nextCluster then AddNewClusterToChain FatData s currentCluster
           else Some (status, nextCluster, s));
         if \<not> SUCCEEDED status then Some (status, None, s)
         else let (status, NextSector) = FirstSectorOfCluster FatData nextCluster in Some (status, NextSector, s)
       }
     }
   }"

section \<open>Directory entries\<close>

text \<open>A \<^verbatim>\<open>DIR_ENTRY\<close> is 32 bytes; these are the offsets of its fields, packed.\<close>

definition sizeof_DIR_ENTRY :: nat where "sizeof_DIR_ENTRY = 32"
definition DIR_Attr :: nat where "DIR_Attr = 0x0B"
definition DIR_LstAccDate :: nat where "DIR_LstAccDate = 0x12"
definition DIR_FstClusHI :: nat where "DIR_FstClusHI = 0x14"
definition DIR_WrtTime :: nat where "DIR_WrtTime = 0x16"
definition DIR_WrtDate :: nat where "DIR_WrtDate = 0x18"
definition DIR_FstClusLO :: nat where "DIR_FstClusLO = 0x1A"
definition DIR_FileSize :: nat where "DIR_FileSize = 0x1C"

definition FREE_ENTRY :: BYTE where "FREE_ENTRY = 0xE5"
definition FREE_JAP_ENTRY :: BYTE where "FREE_JAP_ENTRY = 0x05"
definition ATTR_LONG_NAME :: BYTE where "ATTR_LONG_NAME = 0x0F"
definition ATTR_LONG_NAME_MASK :: BYTE where "ATTR_LONG_NAME_MASK = 0x3F"

definition WORDS_TO_DWORD :: "WORD \<Rightarrow> WORD \<Rightarrow> DWORD" where
  "WORDS_TO_DWORD x y = (push_bit 16 (ucast x) OR ucast y)"

text \<open>The loop of \<^verbatim>\<open>GetDirEntryFromSector\<close>: the first entry in use, and not part of a long name, whose data starts at a cluster.\<close>

function find_dir_entry :: "BYTE list \<Rightarrow> QWORD \<Rightarrow> QWORD \<Rightarrow> QWORD \<Rightarrow> QWORD option option" where
  "find_dir_entry pDirEntryArray cluster index n =
     (if index < n then do {
        let p = unat index * sizeof_DIR_ENTRY;
        ASSERT (p + sizeof_DIR_ENTRY \<le> length pDirEntryArray);
        hi \<leftarrow> get_word pDirEntryArray (p + DIR_FstClusHI);
        lo \<leftarrow> get_word pDirEntryArray (p + DIR_FstClusLO);
        if FREE_ENTRY = pDirEntryArray ! p \<or> FREE_JAP_ENTRY = pDirEntryArray ! p
          then find_dir_entry pDirEntryArray cluster (index + 1) n
        else if pDirEntryArray ! (p + DIR_Attr) AND ATTR_LONG_NAME_MASK = ATTR_LONG_NAME
          then find_dir_entry pDirEntryArray cluster (index + 1) n
        else if cluster = ucast (WORDS_TO_DWORD hi lo) then Some (Some index)
        else find_dir_entry pDirEntryArray cluster (index + 1) n
      }
      else Some None)"
  by pat_completeness auto
termination
  by (relation "measure (\<lambda>(_, _, i, n). unat n - unat i)") (auto simp: unat_inc_below word_less_nat_alt)

declare find_dir_entry.simps [simp del]

text \<open>The index and the entry are \<open>None\<close> where the code leaves \<^verbatim>\<open>EntryIndex\<close> and \<^verbatim>\<open>DirEntry\<close> as they were.\<close>

definition GetDirEntryFromSector ::
  "FAT_DATA \<Rightarrow> STORAGE \<Rightarrow> QWORD \<Rightarrow> QWORD \<Rightarrow> (STATUS \<times> QWORD option \<times> BYTE list option \<times> STORAGE) option" where
  "GetDirEntryFromSector FatData s EntrySector DirFirstSector = do {
     let size = BytesPerSector FatData * SectorsPerCluster FatData;
     if \<not> HeapHasRoom s size then Some (STATUS_HEAP_NO_MORE_MEMORY, None, None, s)
     else do {
       (status, bytesToRead, pDirEntryArray, s) \<leftarrow>
         IoReadDevice s (zeros size) (ucast size) (EntrySector * ucast (BytesPerSector FatData));
       if \<not> SUCCEEDED status then Some (status, None, None, s)
       else do {
         ASSERT (bytesToRead = ucast size);
         (status, dirFstClusterToSearch) \<leftarrow> ClusterOfSector FatData DirFirstSector;
         if \<not> SUCCEEDED status then Some (status, None, None, s)
         else do {
           found \<leftarrow> find_dir_entry pDirEntryArray dirFstClusterToSearch 0 (bytesToRead div of_nat sizeof_DIR_ENTRY);
           case found of
             Some index \<Rightarrow> Some (STATUS_SUCCESS, Some index,
               Some (take sizeof_DIR_ENTRY (drop (unat index * sizeof_DIR_ENTRY) pDirEntryArray)), s)
           | None \<Rightarrow> Some (STATUS_ELEMENT_NOT_FOUND, Some (ucast MAX_DWORD), None, s)
         }
       }
     }
   }"

definition WriteDirEntryToSector ::
  "FAT_DATA \<Rightarrow> STORAGE \<Rightarrow> QWORD \<Rightarrow> QWORD \<Rightarrow> BYTE list \<Rightarrow> (STATUS \<times> STORAGE) option" where
  "WriteDirEntryToSector FatData s EntrySector EntryIndex DirEntry = do {
     let size = BytesPerSector FatData * SectorsPerCluster FatData;
     let offset = EntrySector * ucast (BytesPerSector FatData);
     if \<not> HeapHasRoom s size then Some (STATUS_HEAP_NO_MORE_MEMORY, s)
     else do {
       (status, bytesToReadWrite, pDirEntryArray, s) \<leftarrow> IoReadDevice s (zeros size) (ucast size) offset;
       if \<not> SUCCEEDED status then Some (status, s)
       else do {
         ASSERT (bytesToReadWrite = ucast size);
         pDirEntryArray \<leftarrow> put_bytes pDirEntryArray (unat EntryIndex * sizeof_DIR_ENTRY) DirEntry;
         (status, bytesToReadWrite, _, s) \<leftarrow> IoWriteDevice s pDirEntryArray bytesToReadWrite offset;
         if \<not> SUCCEEDED status then Some (status, s)
         else do {
           ASSERT (bytesToReadWrite = ucast size);
           Some (STATUS_SUCCESS, s)
         }
       }
     }
   }"

section \<open>Dates and times\<close>

record DATE =
  Day :: BYTE
  Month :: BYTE
  Year :: WORD

record TIME =
  Second :: BYTE
  Minute :: BYTE
  Hour :: BYTE

text \<open>The bit fields of \<^verbatim>\<open>FATDATE\<close> and \<^verbatim>\<open>FATTIME\<close>, from the least significant bit.\<close>

definition FATDATE_Day :: "WORD \<Rightarrow> WORD" where "FATDATE_Day d = take_bit 5 d"
definition FATDATE_Month :: "WORD \<Rightarrow> WORD" where "FATDATE_Month d = take_bit 4 (drop_bit 5 d)"
definition FATDATE_Year :: "WORD \<Rightarrow> WORD" where "FATDATE_Year d = take_bit 7 (drop_bit 9 d)"
definition FATTIME_Second :: "WORD \<Rightarrow> WORD" where "FATTIME_Second t = take_bit 5 t"
definition FATTIME_Minute :: "WORD \<Rightarrow> WORD" where "FATTIME_Minute t = take_bit 6 (drop_bit 5 t)"
definition FATTIME_Hour :: "WORD \<Rightarrow> WORD" where "FATTIME_Hour t = take_bit 5 (drop_bit 11 t)"

definition FAT_DAY_RANGE_MIN :: BYTE where "FAT_DAY_RANGE_MIN = 1"
definition FAT_DAY_RANGE_MAX :: BYTE where "FAT_DAY_RANGE_MAX = 31"
definition FAT_MONTH_RANGE_MIN :: BYTE where "FAT_MONTH_RANGE_MIN = 1"
definition FAT_MONTH_RANGE_MAX :: BYTE where "FAT_MONTH_RANGE_MAX = 12"
definition FAT_START_YEAR :: WORD where "FAT_START_YEAR = 1980"
definition FAT_SECOND_RANGE_MAX :: BYTE where "FAT_SECOND_RANGE_MAX = 29"
definition FAT_MINUTE_RANGE_MAX :: BYTE where "FAT_MINUTE_RANGE_MAX = 59"
definition FAT_HOUR_RANGE_MAX :: BYTE where "FAT_HOUR_RANGE_MAX = 23"

text \<open>The structure filled so far is returned with the status; the lower bounds of the times are 0.\<close>

definition ConvertFatDateToDate :: "WORD \<Rightarrow> DATE \<Rightarrow> STATUS \<times> DATE" where
  "ConvertFatDateToDate FatDate RealDate =
     (let RealDate = RealDate\<lparr>Day := ucast (FATDATE_Day FatDate)\<rparr> in
      if Day RealDate < FAT_DAY_RANGE_MIN \<or> Day RealDate > FAT_DAY_RANGE_MAX then (STATUS_TIME_INVALID, RealDate)
      else let RealDate = RealDate\<lparr>Month := ucast (FATDATE_Month FatDate)\<rparr> in
      if Month RealDate < FAT_MONTH_RANGE_MIN \<or> Month RealDate > FAT_MONTH_RANGE_MAX then (STATUS_TIME_INVALID, RealDate)
      else (STATUS_SUCCESS, RealDate\<lparr>Year := FATDATE_Year FatDate + FAT_START_YEAR\<rparr>))"

definition ConvertFatTimeToTime :: "WORD \<Rightarrow> TIME \<Rightarrow> STATUS \<times> TIME" where
  "ConvertFatTimeToTime FatTime RealTime =
     (let RealTime = RealTime\<lparr>Second := ucast (FATTIME_Second FatTime)\<rparr> in
      if Second RealTime > FAT_SECOND_RANGE_MAX then (STATUS_TIME_INVALID, RealTime)
      else let RealTime = RealTime\<lparr>Second := Second RealTime * 2\<rparr>\<lparr>Minute := ucast (FATTIME_Minute FatTime)\<rparr> in
      if Minute RealTime > FAT_MINUTE_RANGE_MAX then (STATUS_TIME_INVALID, RealTime)
      else let RealTime = RealTime\<lparr>Hour := ucast (FATTIME_Hour FatTime)\<rparr> in
      if Hour RealTime > FAT_HOUR_RANGE_MAX then (STATUS_TIME_INVALID, RealTime)
      else (STATUS_SUCCESS, RealTime))"

definition ConvertDateToFatDate :: "DATE \<Rightarrow> WORD" where
  "ConvertDateToFatDate RealDate = (push_bit 9 (take_bit 7 (Year RealDate - FAT_START_YEAR))
     OR push_bit 5 (take_bit 4 (ucast (Month RealDate))) OR take_bit 5 (ucast (Day RealDate)))"

definition ConvertTimeToFatTime :: "TIME \<Rightarrow> WORD" where
  "ConvertTimeToFatTime RealTime = (push_bit 11 (take_bit 5 (ucast (Hour RealTime)))
     OR push_bit 5 (take_bit 6 (ucast (Minute RealTime))) OR take_bit 5 (ucast (Second RealTime div 2)))"

definition ConvertFatDateTimeToDateTime :: "WORD \<Rightarrow> WORD \<Rightarrow> DATE \<times> TIME \<Rightarrow> STATUS \<times> DATE \<times> TIME" where
  "ConvertFatDateTimeToDateTime FatDate FatTime DateTime =
     (let (status, date) = ConvertFatDateToDate FatDate (fst DateTime) in
      if \<not> SUCCEEDED status then (status, date, snd DateTime)
      else let (status, time) = ConvertFatTimeToTime FatTime (snd DateTime) in (status, date, time))"

definition ConvertDateTimeToFatDateTime :: "DATE \<times> TIME \<Rightarrow> WORD \<times> WORD" where
  "ConvertDateTimeToFatDateTime DateTime = (ConvertDateToFatDate (fst DateTime), ConvertTimeToFatTime (snd DateTime))"

end
