(* ===== verification/Fat_Chain.thy ===== *)
theory Fat_Chain
  imports Fat_Utils
begin

unbundle bit_operations_syntax

text \<open>
  The volume as the operations of \<open>Fat_Utils\<close> see it: the link of each cluster in the allocation table, the
  chains they form and the bytes of each cluster.
\<close>

section \<open>Integers in the bytes of the volume\<close>

definition vol_dword :: "STORAGE \<Rightarrow> nat \<Rightarrow> DWORD" where
  "vol_dword s p = (ucast (vol s p) OR push_bit 8 (ucast (vol s (p + 1))) OR push_bit 16 (ucast (vol s (p + 2)))
     OR push_bit 24 (ucast (vol s (p + 3))))"

definition vol_put :: "STORAGE \<Rightarrow> nat \<Rightarrow> DWORD \<Rightarrow> STORAGE" where
  "vol_put s p w = vol_write s p [ucast w, ucast (drop_bit 8 w), ucast (drop_bit 16 w), ucast (drop_bit 24 w)]"

lemma get_dword_range: "i + 4 \<le> n \<Longrightarrow> get_dword (vol_range s p n) i = Some (vol_dword s (p + i))"
  by (simp add: get_dword_def vol_dword_def add.assoc)

lemma vol_write_put:
  assumes "i + length x \<le> n" "length x > 0"
  shows "vol_write s p (take i (vol_range s p n) @ x @ drop (i + length x) (vol_range s p n)) = vol_write s (p + i) x"
proof -
  have "disk_write d (q + p) (take i (vol_range s p n) @ x @ drop (i + length x) (vol_range s p n)) j = disk_write d (q + (p + i)) x j"
    if "d = DiskBytes s" "q = unat (OffsetInDisk s) * 512" for d q j
  proof (cases "q + p \<le> j")
    case True
    then obtain k where "j = q + p + k" using le_Suc_ex by blast
    then show ?thesis using assms that by (auto simp: disk_write_def nth_append vol_def add.assoc)
  qed (use assms in \<open>auto simp: disk_write_def\<close>)
  then show ?thesis by (simp add: vol_write_def fun_eq_iff)
qed

lemma put_dword_range:
  assumes "i + 4 \<le> n"
  shows "\<exists>b. put_dword (vol_range s p n) i w = Some b \<and> length b = n \<and> vol_write s p b = vol_put s (p + i) w"
  using assms vol_write_put [of i "[ucast w, ucast (drop_bit 8 w), ucast (drop_bit 16 w), ucast (drop_bit 24 w)]" n s p]
  by (simp add: put_dword_def put_bytes_def vol_put_def)

lemma bytes_of_dword:
  "(ucast (ucast (w::DWORD) :: BYTE) OR push_bit 8 (ucast (ucast (drop_bit 8 w) :: BYTE))
     OR push_bit 16 (ucast (ucast (drop_bit 16 w) :: BYTE)) OR push_bit 24 (ucast (ucast (drop_bit 24 w) :: BYTE)) :: DWORD) = w" (is "?lhs = w")
proof (rule bit_word_eqI)
  fix n assume "n < LENGTH(32)"
  then consider "n < 8" | k where "n = 8 + k" "k < 8" | k where "n = 16 + k" "k < 8" | k where "n = 24 + k" "k < 8"
    using le_Suc_ex [of 8 n] le_Suc_ex [of 16 n] le_Suc_ex [of 24 n] by fastforce
  then show "bit ?lhs n = bit w n" by cases (simp_all add: bit_simps)
qed

lemma vol_dword_put_same [simp]: "vol_dword (vol_put s p w) p = w"
  by (simp add: vol_dword_def vol_put_def nth_Cons' bytes_of_dword)

lemma vol_dword_write_other: "p + length x \<le> q \<or> q + 4 \<le> p \<Longrightarrow> vol_dword (vol_write s p x) q = vol_dword s q"
  by (auto simp: vol_dword_def)

lemma vol_dword_put_other: "p + 4 \<le> q \<or> q + 4 \<le> p \<Longrightarrow> vol_dword (vol_put s p w) q = vol_dword s q"
  unfolding vol_put_def by (rule vol_dword_write_other) auto

lemma vol_range_put_other: "p + 4 \<le> q \<or> q + n \<le> p \<Longrightarrow> vol_range (vol_put s p w) q n = vol_range s q n"
  unfolding vol_put_def by (rule vol_range_vol_write_other) auto

lemma vol_put_simps [simp]:
  "storage_ready (vol_put s p w) = storage_ready s" "PartitionSize (vol_put s p w) = PartitionSize s"
  "HeapHasRoom (vol_put s p w) = HeapHasRoom s" "OffsetInDisk (vol_put s p w) = OffsetInDisk s"
  by (simp_all add: vol_put_def)

section \<open>The layout of a volume\<close>

definition fat_layout :: "FAT_DATA \<Rightarrow> STORAGE \<Rightarrow> bool" where
  "fat_layout fd s \<longleftrightarrow> BytesPerSector fd = 512 \<and> 0 < unat (SectorsPerCluster fd) \<and> unat (SectorsPerCluster fd) \<le> 65535
     \<and> 2 \<le> unat (ReservedSectors fd)
     \<and> unat (ReservedSectors fd) * 512 + (unat (CountOfClusters fd) + 2) * 4 \<le> unat (FirstDataSector fd) * 512
     \<and> unat (FirstDataSector fd) + unat (CountOfClusters fd) * unat (SectorsPerCluster fd) \<le> unat (PartitionSize s)
     \<and> unat (CountOfClusters fd) + 2 < 0x0FFFFFF7"

definition fat_entry :: "FAT_DATA \<Rightarrow> STORAGE \<Rightarrow> nat \<Rightarrow> DWORD" where
  "fat_entry fd s c = vol_dword s (unat (ReservedSectors fd) * 512 + c * 4)"

text \<open>The link of a cluster, without the four reserved bits, and what the code sees as its successor.\<close>

definition fat_link :: "FAT_DATA \<Rightarrow> STORAGE \<Rightarrow> nat \<Rightarrow> DWORD" where
  "fat_link fd s c = (fat_entry fd s c AND FAT32_CLUSTER_MASK)"

definition set_link :: "FAT_DATA \<Rightarrow> STORAGE \<Rightarrow> nat \<Rightarrow> DWORD \<Rightarrow> STORAGE" where
  "set_link fd s c v = vol_put s (unat (ReservedSectors fd) * 512 + c * 4) ((fat_entry fd s c AND NOT FAT32_CLUSTER_MASK) OR v)"

lemma fat_layout_set_link [simp]: "fat_layout fd (set_link fd s c v) = fat_layout fd s"
  by (simp add: fat_layout_def set_link_def)

lemma set_link_simps [simp]:
  "storage_ready (set_link fd s c v) = storage_ready s" "PartitionSize (set_link fd s c v) = PartitionSize s"
  by (simp_all add: set_link_def)

lemma fat_link_set_link:
  assumes "v AND FAT32_CLUSTER_MASK = v"
  shows "fat_link fd (set_link fd s c v) d = (if d = c then v else fat_link fd s d)"
proof (cases "d = c")
  case True
  have "((e AND NOT FAT32_CLUSTER_MASK) OR v) AND FAT32_CLUSTER_MASK = v" for e
    using assms by (simp add: bit.conj_disj_distrib2 and.assoc)
  then show ?thesis using True by (simp add: fat_link_def fat_entry_def set_link_def)
next
  case False
  then have "c * 4 + 4 \<le> d * 4 \<or> d * 4 + 4 \<le> c * 4" by arith
  then show ?thesis using False by (simp add: fat_link_def fat_entry_def set_link_def vol_dword_put_other)
qed

lemma EOC_masked [simp]: "FAT32_EOC_MARK AND FAT32_CLUSTER_MASK = FAT32_EOC_MARK"
  by (simp add: FAT32_EOC_MARK_def FAT32_CLUSTER_MASK_def)

lemma fat_layoutD:
  assumes "fat_layout fd s"
  shows "ucast (BytesPerSector fd) = (512::QWORD)" "unat (CountOfClusters fd + 1) = unat (CountOfClusters fd) + 1"
    "unat (CountOfClusters fd + 2) = unat (CountOfClusters fd) + 2" "zeros (BytesPerSector fd) = replicate 512 0"
  using assms by (simp_all add: fat_layout_def unat_word_ariths zeros_def)

lemma of_nat_unat_eq: "unat (x::'a::len word) = n \<Longrightarrow> x = of_nat n"
  by auto

lemma sector_offset: "n < 2 ^ 48 \<Longrightarrow> unat (of_nat n * (512::QWORD)) = n * 512"
  by (simp add: unat_word_ariths(2) unat_of_nat_small)

lemma fat_position_result:
  assumes "fat_layout fd s" "c < unat (CountOfClusters fd) + 2"
  shows "fat_position fd (of_nat c) = Some (of_nat (unat (ReservedSectors fd) + c div 128), of_nat (c mod 128))"
proof -
  have c: "c < 2 ^ 32" using assms by (simp add: fat_layout_def)
  have "unat (of_nat c * (4::QWORD) div 512) = c div 128" using c by (simp add: unat_div unat_word_ariths unat_of_nat_small)
  then have "of_nat c * (4::QWORD) div 512 = of_nat (c div 128)" by (rule of_nat_unat_eq)
  moreover have "unat (of_nat c mod (128::QWORD)) = c mod 128" using c by (simp add: unat_mod unat_of_nat_small)
  then have "of_nat c mod (128::QWORD) = of_nat (c mod 128)" by (rule of_nat_unat_eq)
  moreover have "ucast (ReservedSectors fd) = (of_nat (unat (ReservedSectors fd)) :: QWORD)" by simp
  ultimately show ?thesis using fat_layoutD(1) [OF assms(1)] assms(1)
    by (simp add: fat_position_def sizeof_FAT32_ENTRY_def fat_layout_def)
qed

text \<open>A sector of the table lies in front of the data.\<close>

lemma fat_sector_range:
  assumes "storage_ready s" "fat_layout fd s" "c < unat (CountOfClusters fd) + 2"
  shows "unat (of_nat (unat (ReservedSectors fd) + c div 128) * (512::QWORD)) = (unat (ReservedSectors fd) + c div 128) * 512"
    "io_range s (of_nat (unat (ReservedSectors fd) + c div 128) * 512) 512"
proof -
  have l: "unat (ReservedSectors fd) * 512 + (unat (CountOfClusters fd) + 2) * 4 \<le> unat (FirstDataSector fd) * 512"
    "unat (FirstDataSector fd) \<le> unat (PartitionSize s)" using assms(2) by (simp_all add: fat_layout_def)
  have "c < (unat (FirstDataSector fd) - unat (ReservedSectors fd)) * 128" using l(1) assms(3) by simp
  then have "c div 128 < unat (FirstDataSector fd) - unat (ReservedSectors fd)" by (rule less_mult_imp_div_less)
  then have p: "unat (ReservedSectors fd) + c div 128 + 1 \<le> unat (PartitionSize s)" using l(2) by linarith
  have q: "unat (ReservedSectors fd) + c div 128 < 2 ^ 48" using p assms(1) by (simp add: storage_ready_def)
  show u: "unat (of_nat (unat (ReservedSectors fd) + c div 128) * (512::QWORD)) = (unat (ReservedSectors fd) + c div 128) * 512"
    using q by (rule sector_offset)
  show "io_range s (of_nat (unat (ReservedSectors fd) + c div 128) * 512) 512"
    using p unfolding io_range_def u by simp
qed

section \<open>Reading the table\<close>

text \<open>The access to the entry of a cluster in the sector that holds it, the same in all operations.\<close>

lemma entry_offset: "(r + c div 128) * 512 + c mod 128 * 4 = r * 512 + c * (4::nat)"
proof -
  have "(r + d) * 512 + m * 4 = r * 512 + k * 4" if "k = 128 * d + m" for k d m :: nat using that by simp
  then show ?thesis by (simp only: mult_div_mod_eq)
qed

lemma fat_entry_access:
  assumes "storage_ready s" "fat_layout fd s" "c < unat (CountOfClusters fd) + 2"
  defines "off \<equiv> of_nat (unat (ReservedSectors fd) + c div 128) * 512"
  shows "IoReadDevice s (replicate 512 0) 512 off = Some (STATUS_SUCCESS, 512, vol_range s (unat off) 512, s)"
    "get_dword (vol_range s (unat off) 512) (unat (of_nat (c mod 128) :: QWORD) * 4) = Some (fat_entry fd s c)"
    "\<exists>b. put_dword (vol_range s (unat off) 512) (unat (of_nat (c mod 128) :: QWORD) * 4) ((fat_entry fd s c AND NOT FAT32_CLUSTER_MASK) OR v) = Some b
       \<and> IoWriteDevice s b 512 off = Some (STATUS_SUCCESS, 512, b, set_link fd s c v)"
proof -
  note r = fat_sector_range [OF assms(1-3), folded off_def]
  have m: "unat (of_nat (c mod 128) :: QWORD) = c mod 128" by (rule unat_of_nat_small) (simp add: less_trans [OF mod_less_divisor])
  have p: "unat off + c mod 128 * 4 = unat (ReservedSectors fd) * 512 + c * 4"
    unfolding r(1) by (rule entry_offset)
  have i: "c mod 128 * 4 + 4 \<le> 512" using mod_less_divisor [of 128 c] by simp
  show "IoReadDevice s (replicate 512 0) 512 off = Some (STATUS_SUCCESS, 512, vol_range s (unat off) 512, s)"
    using IoReadDevice_ok [OF assms(1) r(2), of "replicate 512 0"] by simp
  show "get_dword (vol_range s (unat off) 512) (unat (of_nat (c mod 128) :: QWORD) * 4) = Some (fat_entry fd s c)"
    unfolding m using get_dword_range [OF i] p by (simp add: fat_entry_def)
  obtain b where b: "put_dword (vol_range s (unat off) 512) (c mod 128 * 4) ((fat_entry fd s c AND NOT FAT32_CLUSTER_MASK) OR v) = Some b"
    "length b = 512" "vol_write s (unat off) b = set_link fd s c v"
    using put_dword_range [OF i, of s "unat off"] p unfolding set_link_def by metis
  then show "\<exists>b. put_dword (vol_range s (unat off) 512) (unat (of_nat (c mod 128) :: QWORD) * 4) ((fat_entry fd s c AND NOT FAT32_CLUSTER_MASK) OR v) = Some b
       \<and> IoWriteDevice s b 512 off = Some (STATUS_SUCCESS, 512, b, set_link fd s c v)"
    unfolding m using IoWriteDevice_ok [OF assms(1) r(2), of b] by simp
qed

definition next_cluster :: "FAT_DATA \<Rightarrow> STORAGE \<Rightarrow> nat \<Rightarrow> DWORD" where
  "next_cluster fd s c = (if fat_link fd s c = 0 \<or> fat_link fd s c = FAT32_BAD_CLUSTER then FAT32_EOC_MARK else fat_link fd s c)"

lemma NextClusterInChain_result:
  assumes "storage_ready s" "fat_layout fd s" "c < unat (CountOfClusters fd) + 2"
  shows "NextClusterInChain fd s (of_nat c) = Some (STATUS_SUCCESS, ucast (next_cluster fd s c),
    if fat_link fd s c = 0 then set_link fd s c FAT32_EOC_MARK else s)"
proof -
  note a = fat_entry_access(1,2) [OF assms]
  obtain b where b: "put_dword (vol_range s (unat (of_nat (unat (ReservedSectors fd) + c div 128) * 512 :: QWORD)) 512)
      (unat (of_nat (c mod 128) :: QWORD) * 4) ((fat_entry fd s c AND NOT FAT32_CLUSTER_MASK) OR FAT32_EOC_MARK) = Some b"
    "IoWriteDevice s b 512 (of_nat (unat (ReservedSectors fd) + c div 128) * 512) = Some (STATUS_SUCCESS, 512, b, set_link fd s c FAT32_EOC_MARK)"
    using fat_entry_access(3) [OF assms] by blast
  show ?thesis
    using assms(1) a b
    by (auto simp: NextClusterInChain_def fat_position_result [OF assms(2,3)] Let_def fat_layoutD(1,4) [OF assms(2)]
        next_cluster_def fat_link_def simp del: of_nat_add)
qed

section \<open>The search for a free cluster\<close>

lemma scan_entries_result:
  "i \<le> 128 \<Longrightarrow> scan_entries (vol_range s p 512) (of_nat i) 128
     = Some (map_option of_nat (find (\<lambda>j. vol_dword s (p + j * 4) AND FAT32_CLUSTER_MASK = 0) [i..<128]))"
proof (induction "128 - i" arbitrary: i)
  case 0
  then show ?case by (subst scan_entries.simps) simp
next
  case (Suc n)
  then have i: "i < 128" by simp
  have u: "unat (of_nat i :: QWORD) = i" using i by (simp add: unat_of_nat_small)
  have lt: "(of_nat i :: QWORD) < 128" using i by (simp add: word_less_nat_alt u)
  have g: "get_dword (vol_range s p 512) (i * 4) = Some (vol_dword s (p + i * 4))" using i by (simp add: get_dword_range)
  have "scan_entries (vol_range s p 512) (of_nat (Suc i)) 128
     = Some (map_option of_nat (find (\<lambda>j. vol_dword s (p + j * 4) AND FAT32_CLUSTER_MASK = 0) [Suc i..<128]))"
    using Suc.hyps(1) [of "Suc i"] Suc.hyps(2) i by (simp del: of_nat_Suc)
  then show ?case using lt g u i
    by (subst scan_entries.simps) (auto simp: upt_conv_Cons [OF i] add.commute)
qed

definition first_free :: "FAT_DATA \<Rightarrow> STORAGE \<Rightarrow> nat \<Rightarrow> nat \<Rightarrow> nat option" where
  "first_free fd s a b = find (\<lambda>c. fat_link fd s c = 0) [a..<b]"

lemma first_free_Some:
  assumes "first_free fd s a b = Some c"
  shows "a \<le> c" "c < b" "fat_link fd s c = 0" "\<And>d. a \<le> d \<Longrightarrow> d < c \<Longrightarrow> fat_link fd s d \<noteq> 0"
proof -
  from assms obtain i where i: "i < b - a" "c = a + i" "fat_link fd s c = 0" "\<forall>j<i. fat_link fd s (a + j) \<noteq> 0"
    by (auto simp: first_free_def find_Some_iff)
  then show "a \<le> c" "c < b" "fat_link fd s c = 0" by auto
  fix d assume "a \<le> d" "d < c"
  then show "fat_link fd s d \<noteq> 0" using i(2,4) by (metis add_less_cancel_left le_Suc_ex)
qed

lemma first_free_split: "a \<le> m \<Longrightarrow> m \<le> b \<Longrightarrow>
  first_free fd s a b = (case first_free fd s a m of Some c \<Rightarrow> Some c | None \<Rightarrow> first_free fd s m b)"
proof -
  assume "a \<le> m" "m \<le> b"
  then have "[a..<b] = [a..<m] @ [m..<b]" by (metis le_Suc_ex upt_add_eq_append)
  moreover have "find P (xs @ ys) = (case find P xs of Some c \<Rightarrow> Some c | None \<Rightarrow> find P ys)" for P :: "nat \<Rightarrow> bool" and xs ys
    by (induction xs) auto
  ultimately show ?thesis unfolding first_free_def by (simp split: option.split)
qed

text \<open>The entries of sector \<open>k\<close> of the table, counted from the first.\<close>

lemma first_free_sector:
  assumes "p = (unat (ReservedSectors fd) + k) * 512"
  shows "first_free fd s (k * 128 + i) (k * 128 + 128)
    = map_option (\<lambda>j. k * 128 + j) (find (\<lambda>j. vol_dword s (p + j * 4) AND FAT32_CLUSTER_MASK = 0) [i..<128])"
proof -
  have "find P (map f xs) = map_option f (find (P \<circ> f) xs)" for P and f :: "nat \<Rightarrow> nat" and xs :: "nat list"
    by (induction xs) auto
  moreover have "[k * 128 + i..<k * 128 + 128] = map (\<lambda>j. k * 128 + j) [i..<128]"
    by (rule nth_equalityI) simp_all
  moreover have "(\<lambda>c. fat_link fd s c = 0) \<circ> (\<lambda>j. k * 128 + j) = (\<lambda>j. vol_dword s (p + j * 4) AND FAT32_CLUSTER_MASK = 0)"
    using assms by (simp add: fun_eq_iff fat_link_def fat_entry_def algebra_simps)
  ultimately show ?thesis by (simp add: first_free_def)
qed

lemma take_entry_result:
  assumes "storage_ready s" "fat_layout fd s" "2 \<le> c" "c < unat (CountOfClusters fd) + 2"
    and "k = unat (ReservedSectors fd) + c div 128" "j = c mod 128"
  shows "take_entry fd s mark (of_nat (unat (CountOfClusters fd) + 2)) (vol_range s (unat (of_nat k * 512 :: QWORD)) 512) (of_nat k) (of_nat j) STATUS_SUCCESS
    = Some (STATUS_SUCCESS, of_nat c, if mark then set_link fd s c FAT32_EOC_MARK else s)"
proof -
  note a = fat_entry_access(1,2) [OF assms(1,2,4), folded assms(5,6)]
  obtain b where b: "put_dword (vol_range s (unat (of_nat k * 512 :: QWORD)) 512)
      (unat (of_nat j :: QWORD) * 4) ((fat_entry fd s c AND NOT FAT32_CLUSTER_MASK) OR FAT32_EOC_MARK) = Some b"
    "IoWriteDevice s b 512 (of_nat k * 512) = Some (STATUS_SUCCESS, 512, b, set_link fd s c FAT32_EOC_MARK)"
    using fat_entry_access(3) [OF assms(1,2,4), folded assms(5,6)] by blast
  have c: "c < 2 ^ 32 - 1" using assms(2,4) by (simp add: fat_layout_def)
  have e: "(of_nat k - ucast (ReservedSectors fd)) * 128 + of_nat j = (of_nat c :: QWORD)"
  proof -
    have "(of_nat k :: QWORD) = ucast (ReservedSectors fd) + of_nat (c div 128)" using assms(5) by simp
    moreover have "of_nat (c div 128) * 128 + of_nat (c mod 128) = (of_nat (c div 128 * 128 + c mod 128) :: QWORD)"
      by (simp only: of_nat_add of_nat_mult of_nat_numeral)
    ultimately show ?thesis using assms(6) by (simp only: add_diff_cancel_left' div_mult_mod_eq)
  qed
  have u: "unat (of_nat c :: QWORD) = c" "unat (of_nat (unat (CountOfClusters fd) + 2) :: QWORD) = unat (CountOfClusters fd) + 2"
    using c assms(2) by (rule_tac [!] unat_of_nat_small) (simp_all add: fat_layout_def)
  have "2 \<le> (of_nat c :: QWORD)" "(of_nat c :: QWORD) < of_nat (unat (CountOfClusters fd) + 2)"
    using assms(3,4) u by (simp_all add: word_le_nat_alt word_less_nat_alt del: of_nat_add)
  moreover have "ucast FAT32_UNKNOWN \<noteq> (of_nat c :: QWORD)"
    using c u(1) by (auto simp: FAT32_UNKNOWN_def)
  ultimately show ?thesis
    using a b e by (simp add: take_entry_def Let_def fat_layoutD(1) [OF assms(2)] sizeof_FAT32_ENTRY_def del: of_nat_add)
qed

definition scan_end :: "FAT_DATA \<Rightarrow> nat" where
  "scan_end fd = ((unat (CountOfClusters fd) + 2) * 4 div 512 - unat (ReservedSectors fd)) * 128"

lemma scan_sectors_result:
  assumes "storage_ready s" "fat_layout fd s" and S: "S = (unat (CountOfClusters fd) + 2) * 4 div 512"
    and E: "E = of_nat (unat (CountOfClusters fd) + 2)"
  shows "k < S - unat (ReservedSectors fd) \<Longrightarrow> i < 128 \<Longrightarrow> 2 \<le> k * 128 + i \<Longrightarrow>
    scan_sectors fd s mark E (of_nat S) (of_nat (unat (ReservedSectors fd) + k)) (of_nat i) st
    = (case first_free fd s (k * 128 + i) (scan_end fd) of None \<Rightarrow> Some (STATUS_SUCCESS, 0, s)
       | Some c \<Rightarrow> Some (STATUS_SUCCESS, of_nat c, if mark then set_link fd s c FAT32_EOC_MARK else s))"
proof (induction "S - unat (ReservedSectors fd) - k" arbitrary: k i st)
  case 0
  then show ?case by simp
next
  case (Suc n)
  let ?R = "unat (ReservedSectors fd)"
  have S128: "S * 128 \<le> unat (CountOfClusters fd) + 2" unfolding S by simp
  have kS: "?R + k < S" using Suc.prems(1) by simp
  have ce: "k * 128 + 128 \<le> scan_end fd" "scan_end fd \<le> unat (CountOfClusters fd) + 2"
    using kS S128 unfolding scan_end_def S [symmetric] by (auto simp: algebra_simps)
  have small: "S < 2 ^ 48" using S128 assms(2) by (simp add: fat_layout_def)
  have u: "unat (of_nat (?R + k) :: QWORD) = ?R + k" "unat (of_nat S :: QWORD) = S"
    using small kS by (simp_all add: unat_of_nat_small del: of_nat_add)
  have lt: "(of_nat (?R + k) :: QWORD) < of_nat S" using kS u by (simp only: word_less_nat_alt)
  have c0: "k * 128 < unat (CountOfClusters fd) + 2" using ce by simp
  have d: "k * 128 div 128 = k" by simp
  note r = fat_entry_access(1) [OF assms(1,2) c0, unfolded d]
  define q where "q = (?R + k) * 512"
  have p: "unat (of_nat (?R + k) * 512 :: QWORD) = q" unfolding q_def by (rule sector_offset) (use small kS in simp)
  let ?f = "find (\<lambda>j. vol_dword s (q + j * 4) AND FAT32_CLUSTER_MASK = 0) [i..<128]"
  have ff: "first_free fd s (k * 128 + i) (scan_end fd)
     = (case map_option (\<lambda>j. k * 128 + j) ?f of Some c \<Rightarrow> Some c | None \<Rightarrow> first_free fd s (k * 128 + 128) (scan_end fd))"
    using first_free_split [of "k * 128 + i" "k * 128 + 128" "scan_end fd"] first_free_sector [OF q_def, of s i] ce Suc.prems(2) by simp
  have unf: "scan_sectors fd s mark E (of_nat S) (of_nat (?R + k)) (of_nat i) st
    = (case map_option of_nat ?f of
         Some j \<Rightarrow> take_entry fd s mark E (vol_range s q 512) (of_nat (?R + k)) j STATUS_SUCCESS
       | None \<Rightarrow> scan_sectors fd s mark E (of_nat S) (of_nat (?R + k) + 1) 0 STATUS_SUCCESS)"
    using lt r scan_entries_result [of i s q] Suc.prems(2) p
    by (subst scan_sectors.simps) (simp add: Let_def fat_layoutD(1,4) [OF assms(2)] sizeof_FAT32_ENTRY_def del: of_nat_add)
  show ?case
  proof (cases ?f)
    case (Some j)
    then have j: "j < 128" "i \<le> j" by (auto simp: find_Some_iff)
    have "2 \<le> k * 128 + j" "k * 128 + j < unat (CountOfClusters fd) + 2" using j ce Suc.prems(3) by auto
    then show ?thesis using take_entry_result [OF assms(1,2), folded E, of "k * 128 + j" "?R + k" j mark] Some j p
      unfolding unf ff by (simp del: of_nat_add)
  next
    case None
    have suc: "of_nat (?R + k) + 1 = (of_nat (?R + Suc k) :: QWORD)" by simp
    show ?thesis
    proof (cases "Suc k < S - ?R")
      case True
      have "scan_sectors fd s mark E (of_nat S) (of_nat (?R + Suc k)) (of_nat 0) STATUS_SUCCESS
        = (case first_free fd s (Suc k * 128 + 0) (scan_end fd) of None \<Rightarrow> Some (STATUS_SUCCESS, 0, s)
           | Some c \<Rightarrow> Some (STATUS_SUCCESS, of_nat c, if mark then set_link fd s c FAT32_EOC_MARK else s))"
        using Suc.hyps(1) [of "Suc k" 0] Suc.hyps(2) True by simp
      then show ?thesis using None unfolding unf ff suc by (simp del: of_nat_add add: add.commute)
    next
      case False
      then have e: "?R + Suc k = S" "scan_end fd = k * 128 + 128" using kS unfolding scan_end_def S [symmetric] by auto
      have "scan_sectors fd s mark E (of_nat S) (of_nat (?R + Suc k)) 0 STATUS_SUCCESS = Some (STATUS_SUCCESS, 0, s)"
        unfolding e by (subst scan_sectors.simps) simp
      moreover have "first_free fd s (k * 128 + 128) (scan_end fd) = None" unfolding e by (simp add: first_free_def)
      ultimately show ?thesis using None unfolding unf ff suc by simp
    qed
  qed
qed

lemma FirstFreeCluster_result:
  assumes "storage_ready s" "fat_layout fd s" "2 \<le> f" "f < 2 ^ 64"
  shows "FirstFreeCluster fd s (of_nat f) mark =
    (if unat (CountOfClusters fd) + 2 \<le> f then Some (STATUS_SUCCESS, 0, s)
     else if scan_end fd \<le> f then Some (STATUS_UNSUCCESSFUL, 0, s)
     else case first_free fd s f (scan_end fd) of None \<Rightarrow> Some (STATUS_SUCCESS, 0, s)
       | Some c \<Rightarrow> Some (STATUS_SUCCESS, of_nat c, if mark then set_link fd s c FAT32_EOC_MARK else s))"
proof -
  let ?C = "unat (CountOfClusters fd) + 2" and ?R = "unat (ReservedSectors fd)"
  define S where "S = ?C * 4 div 512"
  define E :: QWORD where "E = of_nat ?C"
  have C: "?C < 2 ^ 31" using assms(2) by (simp add: fat_layout_def)
  have "unat (ucast (CountOfClusters fd + 2) :: QWORD) = ?C" using fat_layoutD(3) [OF assms(2)] by simp
  then have e: "ucast (CountOfClusters fd + 2) = E" unfolding E_def by (rule of_nat_unat_eq)
  have eC: "unat E = ?C" unfolding E_def by (rule unat_of_nat_small) (use C in simp)
  have "unat (E * 4 div 512) = S" using eC C by (simp add: unat_div unat_word_ariths(2) S_def)
  then have s: "E * 4 div 512 = of_nat S" by (rule of_nat_unat_eq)
  have uf: "unat (of_nat f :: QWORD) = f" using assms(4) by (simp add: unat_of_nat_small)
  have le: "E \<le> of_nat f \<longleftrightarrow> ?C \<le> f" by (simp only: word_le_nat_alt eC uf)
  have b: "BytesPerSector fd \<noteq> 0" using assms(2) by (simp add: fat_layout_def)
  have sE: "scan_end fd = (S - ?R) * 128" by (simp add: scan_end_def S_def)
  show ?thesis
  proof (cases "?C \<le> f")
    case True
    then show ?thesis using assms(1) b le by (simp add: FirstFreeCluster_def Let_def e)
  next
    case False
    have nu: "ucast FAT32_UNKNOWN \<noteq> (of_nat f :: QWORD)" using uf C False by (auto simp: FAT32_UNKNOWN_def)
    have unf: "FirstFreeCluster fd s (of_nat f) mark
      = scan_sectors fd s mark E (of_nat S) (of_nat (?R + f div 128)) (of_nat (f mod 128)) STATUS_UNSUCCESSFUL"
      using False assms(1) b le nu s fat_position_result [OF assms(2), of f]
      by (simp add: FirstFreeCluster_def Let_def e fat_layoutD(1) [OF assms(2)] sizeof_FAT32_ENTRY_def del: of_nat_add)
    show ?thesis
    proof (cases "scan_end fd \<le> f")
      case True
      have "S - ?R \<le> f div 128" using True unfolding sE by (simp add: less_eq_div_iff_mult_less_eq)
      moreover have "unat (of_nat S :: QWORD) = S" by (rule unat_of_nat_small) (use C in \<open>simp add: S_def\<close>)
      moreover have "?R < 2 ^ 32" by (rule dword_bound)
      then have "unat (of_nat (?R + f div 128) :: QWORD) = ?R + f div 128"
        using False C by (intro unat_of_nat_small) simp
      ultimately have "\<not> (of_nat (?R + f div 128) :: QWORD) < of_nat S" by (simp only: word_less_nat_alt)
      then show ?thesis using False True unfolding unf by (subst scan_sectors.simps) (simp del: of_nat_add)
    next
      case nT: False
      have "f div 128 < S - ?R" using nT unfolding sE by (simp add: less_mult_imp_div_less)
      from scan_sectors_result [OF assms(1,2) S_def E_def this, of "f mod 128" mark STATUS_UNSUCCESSFUL]
      show ?thesis using False nT assms(3) unfolding unf by simp
    qed
  qed
qed

section \<open>Extending a chain\<close>

lemma link_cluster_result:
  assumes "storage_ready s" "fat_layout fd s" "c < unat (CountOfClusters fd) + 2"
  shows "link_cluster fd s (of_nat c) r = Some (STATUS_SUCCESS, set_link fd s c (ucast r))"
proof -
  note a = fat_entry_access(1,2) [OF assms]
  obtain b where b: "put_dword (vol_range s (unat (of_nat (unat (ReservedSectors fd) + c div 128) * 512 :: QWORD)) 512)
      (unat (of_nat (c mod 128) :: QWORD) * 4) ((fat_entry fd s c AND NOT FAT32_CLUSTER_MASK) OR ucast r) = Some b"
    "IoWriteDevice s b 512 (of_nat (unat (ReservedSectors fd) + c div 128) * 512) = Some (STATUS_SUCCESS, 512, b, set_link fd s c (ucast r))"
    using fat_entry_access(3) [OF assms] by blast
  show ?thesis using assms(1) a b
    by (simp add: link_cluster_def fat_position_result [OF assms(2,3)] Let_def fat_layoutD(1,4) [OF assms(2)] del: of_nat_add)
qed

text \<open>The number of free clusters the search can find behind a cluster.\<close>

definition free_behind :: "FAT_DATA \<Rightarrow> STORAGE \<Rightarrow> nat \<Rightarrow> nat" where
  "free_behind fd s c = length (filter (\<lambda>d. fat_link fd s d = 0) [Suc c..<scan_end fd])"

lemma free_behind_None: "first_free fd s (Suc c) (scan_end fd) = None \<Longrightarrow> free_behind fd s c = 0"
  by (auto simp: first_free_def free_behind_def find_None_iff filter_empty_conv)

lemma free_behind_Some:
  assumes "first_free fd s (Suc c) (scan_end fd) = Some d"
  shows "free_behind fd s c = Suc (free_behind fd s d)"
proof -
  note f = first_free_Some [OF assms]
  have "[Suc c..<scan_end fd] = [Suc c..<d] @ d # [Suc d..<scan_end fd]"
    using f(1,2) by (metis le_Suc_ex less_imp_le upt_add_eq_append upt_conv_Cons)
  moreover have "filter (\<lambda>e. fat_link fd s e = 0) [Suc c..<d] = []" using f(4) by (auto simp: filter_empty_conv)
  ultimately show ?thesis using f(3) by (simp add: free_behind_def)
qed

text \<open>Two integers in a buffer.\<close>

lemma put_dword_Some:
  assumes "i + 4 \<le> length b"
  shows "\<exists>b'. put_dword b i w = Some b' \<and> length b' = length b \<and> get_dword b' i = Some w
    \<and> (\<forall>j. i + 4 \<le> j \<or> j + 4 \<le> i \<longrightarrow> get_dword b' j = get_dword b j)"
proof -
  let ?b = "take i b @ [ucast w, ucast (drop_bit 8 w), ucast (drop_bit 16 w), ucast (drop_bit 24 w)] @ drop (i + 4) b"
  have p: "put_dword b i w = Some ?b" using assms by (simp add: put_dword_def put_bytes_def numeral_eq_Suc)
  have "?b ! i = ucast w" "?b ! (i + 1) = ucast (drop_bit 8 w)" "?b ! (i + 2) = ucast (drop_bit 16 w)" "?b ! (i + 3) = ucast (drop_bit 24 w)"
    using assms by (simp_all add: nth_append)
  then have "get_dword ?b i = Some w" using assms by (simp add: get_dword_def bytes_of_dword)
  moreover have "get_dword ?b j = get_dword b j" if "i + 4 \<le> j \<or> j + 4 \<le> i" for j
  proof -
    have "?b ! (j + m) = b ! (j + m)" if "m < 4" "j + 4 \<le> length b" for m
    proof (cases "i + 4 \<le> j")
      case True
      then obtain k where "j = i + 4 + k" using le_Suc_ex by blast
      then show ?thesis using that assms by (simp add: nth_append add.assoc)
    qed (use \<open>i + 4 \<le> j \<or> j + 4 \<le> i\<close> that assms in \<open>simp add: nth_append\<close>)
    from this [of 0] this [of 1] this [of 2] this [of 3] show ?thesis using assms by (auto simp: get_dword_def)
  qed
  ultimately show ?thesis using p assms by auto
qed

lemma count_free_result:
  assumes "storage_ready s" "fat_layout fd s"
  shows "1 \<le> c \<Longrightarrow> c < scan_end fd \<Longrightarrow> length b = 512 \<Longrightarrow> get_dword b FSI_Free_Count = Some n \<Longrightarrow>
    \<exists>st b'. count_free_clusters fd s (of_nat c) b = Some (st, b', s) \<and> length b' = 512
      \<and> get_dword b' FSI_Free_Count = Some (n + of_nat (free_behind fd s c)) \<and> get_dword b' FSI_Nxt_Free = get_dword b FSI_Nxt_Free"
proof (induction "scan_end fd - c" arbitrary: c b n rule: less_induct)
  case less
  have cb: "c < 2 ^ 63"
    using less.prems(2) assms(2) by (simp add: scan_end_def fat_layout_def) linarith
  have suc: "of_nat c + 1 = (of_nat (Suc c) :: QWORD)" by simp
  note F = FirstFreeCluster_result [OF assms, of "Suc c" False]
  show ?case
  proof (cases "first_free fd s (Suc c) (scan_end fd)")
    case None
    then have "\<exists>st. FirstFreeCluster fd s (of_nat (Suc c)) False = Some (st, 0, s)" using F less.prems(1) cb by auto
    then obtain st where st: "FirstFreeCluster fd s (of_nat (Suc c)) False = Some (st, 0, s)" by blast
    show ?thesis using free_behind_None [OF None] less.prems(3,4) st
      by (subst count_free_clusters.simps) (simp add: suc del: of_nat_Suc)
  next
    case (Some d)
    note f = first_free_Some [OF Some]
    have d: "unat (of_nat d :: QWORD) = d" "scan_end fd \<le> unat (CountOfClusters fd) + 2"
      using f(2) assms(2) by (auto simp: scan_end_def fat_layout_def intro!: unat_of_nat_small)
    have ff: "FirstFreeCluster fd s (of_nat (Suc c)) False = Some (STATUS_SUCCESS, of_nat d, s)"
      using F less.prems(1) cb Some f(1,2) d(2) by simp
    have nz: "(of_nat d :: QWORD) \<noteq> 0" using d(1) f(1) by (metis Suc_le_eq not_less_zero unat_0)
    obtain b' where b': "put_dword b FSI_Free_Count (n + 1) = Some b'" "length b' = 512" "get_dword b' FSI_Free_Count = Some (n + 1)"
      "get_dword b' FSI_Nxt_Free = get_dword b FSI_Nxt_Free"
      using put_dword_Some [of FSI_Free_Count b "n + 1"] less.prems(3) by (auto simp: FSI_Free_Count_def FSI_Nxt_Free_def)
    have "\<exists>st b''. count_free_clusters fd s (of_nat d) b' = Some (st, b'', s) \<and> length b'' = 512
      \<and> get_dword b'' FSI_Free_Count = Some (n + 1 + of_nat (free_behind fd s d)) \<and> get_dword b'' FSI_Nxt_Free = get_dword b' FSI_Nxt_Free"
      by (rule less.hyps) (use f(1,2) less.prems(1,2) b' in simp_all)
    then show ?thesis using ff nz b' less.prems(4)
      unfolding free_behind_Some [OF Some] suc [symmetric]
      by (subst count_free_clusters.simps) (auto simp: add.assoc)
  qed
qed

definition fs_free :: "STORAGE \<Rightarrow> DWORD" where "fs_free s = vol_dword s (512 + FSI_Free_Count)"
definition fs_next :: "STORAGE \<Rightarrow> DWORD" where "fs_next s = vol_dword s (512 + FSI_Nxt_Free)"

text \<open>The data of a cluster.\<close>

definition cluster_start :: "FAT_DATA \<Rightarrow> nat \<Rightarrow> nat" where
  "cluster_start fd c = (unat (FirstDataSector fd) + (c - 2) * unat (SectorsPerCluster fd)) * 512"

definition cluster_bytes :: "FAT_DATA \<Rightarrow> STORAGE \<Rightarrow> nat \<Rightarrow> BYTE list" where
  "cluster_bytes fd s c = vol_range s (cluster_start fd c) (unat (SectorsPerCluster fd) * 512)"

text \<open>Writing \<^verbatim>\<open>FSINFO\<close> back.\<close>

lemma vol_dword_vol_range: "i + 4 \<le> n \<Longrightarrow> get_dword (vol_range s p n) i = Some w \<longleftrightarrow> vol_dword s (p + i) = w"
  by (simp add: get_dword_range)

lemma fsinfo_written:
  assumes "length b = 512" "get_dword b FSI_Free_Count = Some n" "get_dword b FSI_Nxt_Free = Some m" "2 \<le> unat (ReservedSectors fd)"
  shows "fs_free (vol_write s 512 b) = n" "fs_next (vol_write s 512 b) = m" "fat_link fd (vol_write s 512 b) = fat_link fd s"
proof -
  have r: "vol_range (vol_write s 512 b) 512 512 = b" using assms(1) by simp
  show "fs_free (vol_write s 512 b) = n" "fs_next (vol_write s 512 b) = m"
    using assms(2,3) get_dword_range [of _ 512 "vol_write s 512 b" 512, unfolded r]
    by (simp_all add: fs_free_def fs_next_def FSI_Free_Count_def FSI_Nxt_Free_def)
  show "fat_link fd (vol_write s 512 b) = fat_link fd s"
    using assms(1,4) by (simp add: fun_eq_iff fat_link_def fat_entry_def vol_dword_write_other)
qed

lemma cluster_masked:
  assumes "fat_layout fd s" "c < unat (CountOfClusters fd) + 2"
  shows "(of_nat c :: DWORD) AND FAT32_CLUSTER_MASK = of_nat c" "unat (of_nat c :: DWORD) = c"
    "(ucast (of_nat c :: QWORD) :: DWORD) = of_nat c" "unat (of_nat c :: QWORD) = c"
proof -
  have c: "c < 2 ^ 28" using assms by (simp add: fat_layout_def)
  have m: "FAT32_CLUSTER_MASK = mask 28" by (simp add: FAT32_CLUSTER_MASK_def mask_eq_exp_minus_1)
  show u: "unat (of_nat c :: DWORD) = c" "unat (of_nat c :: QWORD) = c" using c by (simp_all add: unat_of_nat_small)
  have "unat (take_bit 28 (of_nat c :: DWORD)) = unat (of_nat c :: DWORD)" using c u(1) by (simp only: unat_take_bit_mod) simp
  then have "take_bit 28 (of_nat c :: DWORD) = of_nat c" by (simp only: word_unat_eq_iff)
  then show "(of_nat c :: DWORD) AND FAT32_CLUSTER_MASK = of_nat c" by (simp add: m take_bit_eq_mask)
  have "unat (ucast (of_nat c :: QWORD) :: DWORD) = c" using c u(2) by (simp add: unat_ucast_mod)
  then show "(ucast (of_nat c :: QWORD) :: DWORD) = of_nat c" by (rule of_nat_unat_eq)
qed

lemma free_behind_cong: "(\<And>d. c < d \<Longrightarrow> (fat_link fd s d = 0) = (fat_link fd t d = 0)) \<Longrightarrow> free_behind fd s c = free_behind fd t c"
  unfolding free_behind_def by (rule arg_cong [where f = length], rule filter_cong) auto

lemma scan_end_le: "scan_end fd \<le> unat (CountOfClusters fd) + 2"
  unfolding scan_end_def by simp

lemma FirstFreeCluster_found:
  assumes "storage_ready s" "fat_layout fd s" "2 \<le> f" "first_free fd s f (scan_end fd) = Some n"
  shows "FirstFreeCluster fd s (of_nat f) mark = Some (STATUS_SUCCESS, of_nat n, if mark then set_link fd s n FAT32_EOC_MARK else s)"
proof -
  note f = first_free_Some(1,2) [OF assms(4)]
  have "f < scan_end fd" using f by simp
  moreover have "f < 2 ^ 64" using f scan_end_le [of fd] assms(2) by (simp add: fat_layout_def)
  ultimately show ?thesis using FirstFreeCluster_result [OF assms(1-3)] scan_end_le [of fd] assms(4) by simp
qed

definition link_new :: "FAT_DATA \<Rightarrow> STORAGE \<Rightarrow> nat \<Rightarrow> nat \<Rightarrow> STORAGE" where
  "link_new fd s l n = set_link fd (set_link fd s n FAT32_EOC_MARK) l (of_nat n)"

lemma fat_link_link_new:
  assumes "fat_layout fd s" "n < unat (CountOfClusters fd) + 2"
  shows "fat_link fd (link_new fd s l n) = (fat_link fd s)(n := FAT32_EOC_MARK, l := of_nat n)"
  using cluster_masked(1) [OF assms] by (auto simp: link_new_def fat_link_set_link)

definition new_free_count :: "FAT_DATA \<Rightarrow> STORAGE \<Rightarrow> nat \<Rightarrow> DWORD" where
  "new_free_count fd s n = (if fs_free s = FAT32_UNKNOWN then of_nat (free_behind fd s n) else fs_free s - 1)"

lemma reserve_and_link_result:
  assumes "storage_ready s" "fat_layout fd s" "l < unat (CountOfClusters fd) + 2" "fat_link fd s l \<noteq> 0"
    and "length b = 512" "get_dword b FSI_Free_Count = Some (fs_free s)" "get_dword b FSI_Nxt_Free = Some (fs_next s)"
    and "fs_free s \<noteq> 0" "2 \<le> unat (fs_next s)" "first_free fd s (unat (fs_next s)) (scan_end fd) = Some n"
  shows "\<exists>st b'. reserve_and_link fd s (of_nat l) b = Some (st, of_nat n, b', link_new fd s l n) \<and> length b' = 512
    \<and> get_dword b' FSI_Free_Count = Some (new_free_count fd s n) \<and> get_dword b' FSI_Nxt_Free = Some (of_nat n)"
proof -
  note f = first_free_Some [OF assms(10)]
  have n: "n < unat (CountOfClusters fd) + 2" "2 \<le> n" using f(1,2) scan_end_le [of fd] assms(9) by linarith+
  note m = cluster_masked [OF assms(2) n(1)]
  have nx: "ucast (fs_next s) = (of_nat (unat (fs_next s)) :: QWORD)" by simp
  have ff: "FirstFreeCluster fd s (ucast (fs_next s)) True = Some (STATUS_SUCCESS, of_nat n, set_link fd s n FAT32_EOC_MARK)"
    unfolding nx using FirstFreeCluster_found [OF assms(1,2,9,10), of True] by simp
  have nz: "(of_nat n :: QWORD) \<noteq> 0" using m(4) n(2) by (metis not_numeral_le_zero unat_0)
  have lk: "link_cluster fd (set_link fd s n FAT32_EOC_MARK) (of_nat l) (of_nat n) = Some (STATUS_SUCCESS, link_new fd s l n)"
    using link_cluster_result [of "set_link fd s n FAT32_EOC_MARK" fd l "of_nat n"] assms(1-3) m(3) by (simp add: link_new_def)
  obtain b1 where b1: "put_dword b FSI_Nxt_Free (of_nat n) = Some b1" "length b1 = 512" "get_dword b1 FSI_Nxt_Free = Some (of_nat n)"
    "get_dword b1 FSI_Free_Count = Some (fs_free s)"
    using put_dword_Some [of FSI_Nxt_Free b "of_nat n"] assms(5,6) by (auto simp: FSI_Free_Count_def FSI_Nxt_Free_def)
  have put: "\<exists>b2. put_dword b1 FSI_Free_Count w = Some b2 \<and> length b2 = 512 \<and> get_dword b2 FSI_Free_Count = Some w
    \<and> get_dword b2 FSI_Nxt_Free = Some (of_nat n)" for w
    using put_dword_Some [of FSI_Free_Count b1 w] b1 by (auto simp: FSI_Free_Count_def FSI_Nxt_Free_def)
  show ?thesis
  proof (cases "fs_free s = FAT32_UNKNOWN")
    case True
    obtain b2 where b2: "put_dword b1 FSI_Free_Count 0 = Some b2" "length b2 = 512" "get_dword b2 FSI_Free_Count = Some 0"
      "get_dword b2 FSI_Nxt_Free = Some (of_nat n)" using put by blast
    have "free_behind fd (link_new fd s l n) n = free_behind fd s n"
      using fat_link_link_new [OF assms(2) n(1), of l] assms(4) m(2) n(2) by (intro free_behind_cong) (auto simp: unat_eq_zero)
    then obtain st b3 where "count_free_clusters fd (link_new fd s l n) (of_nat n) b2 = Some (st, b3, link_new fd s l n)" "length b3 = 512"
      "get_dword b3 FSI_Free_Count = Some (of_nat (free_behind fd s n))" "get_dword b3 FSI_Nxt_Free = Some (of_nat n)"
      using count_free_result [of "link_new fd s l n" fd n b2 0] assms(1,2) n(2) f(2) b2 by (auto simp: link_new_def)
    then show ?thesis using True assms(6-8) ff nz lk b1 b2 m(3)
      by (simp add: reserve_and_link_def new_free_count_def eq_commute [of 0])
  next
    case False
    obtain b2 where "put_dword b1 FSI_Free_Count (fs_free s - 1) = Some b2" "length b2 = 512" "get_dword b2 FSI_Free_Count = Some (fs_free s - 1)"
      "get_dword b2 FSI_Nxt_Free = Some (of_nat n)" using put by blast
    then show ?thesis using False assms(6-8) ff nz lk b1 m(3)
      by (simp add: reserve_and_link_def new_free_count_def eq_commute [of 0] eq_commute [of FAT32_UNKNOWN])
  qed
qed

lemma fat_layout_write [simp]: "fat_layout fd (vol_write s p x) = fat_layout fd s"
  by (simp add: fat_layout_def)

lemma link_new_simps [simp]:
  "storage_ready (link_new fd s l n) = storage_ready s" "fat_layout fd (link_new fd s l n) = fat_layout fd s"
  "PartitionSize (link_new fd s l n) = PartitionSize s"
  by (simp_all add: link_new_def)

lemma fsinfo_range: "fat_layout fd s \<Longrightarrow> io_range s 512 512"
  by (auto simp: fat_layout_def io_range_def)

text \<open>The bytes behind the table, and so the data of every cluster, do not change.\<close>

lemma vol_set_link:
  assumes "fat_layout fd s" "c < unat (CountOfClusters fd) + 2" "unat (FirstDataSector fd) * 512 \<le> p"
  shows "vol (set_link fd s c v) p = vol s p"
proof -
  have "c * 4 + 4 \<le> (unat (CountOfClusters fd) + 2) * 4" using assms(2) by simp
  then have "unat (ReservedSectors fd) * 512 + c * 4 + 4 \<le> p" using assms(1,3) by (simp add: fat_layout_def)
  then show ?thesis by (simp add: set_link_def vol_put_def)
qed

lemma cluster_bytes_cong:
  "(\<And>p. unat (FirstDataSector fd) * 512 \<le> p \<Longrightarrow> vol t p = vol s p) \<Longrightarrow> cluster_bytes fd t c = cluster_bytes fd s c"
  by (rule nth_equalityI) (simp_all add: cluster_bytes_def cluster_start_def)

lemma AddNewClusterToChain_result:
  assumes "storage_ready s" "fat_layout fd s" "l < unat (CountOfClusters fd) + 2" "fat_link fd s l \<noteq> 0"
    and "fs_free s \<noteq> 0" "2 \<le> unat (fs_next s)" "first_free fd s (unat (fs_next s)) (scan_end fd) = Some n"
  shows "\<exists>s'. AddNewClusterToChain fd s (of_nat l) = Some (STATUS_SUCCESS, of_nat n, s')
    \<and> storage_ready s' \<and> fat_layout fd s' \<and> fat_link fd s' = (fat_link fd s)(n := FAT32_EOC_MARK, l := of_nat n)
    \<and> fs_next s' = of_nat n \<and> fs_free s' = new_free_count fd s n
    \<and> (\<forall>p. unat (FirstDataSector fd) * 512 \<le> p \<longrightarrow> vol s' p = vol s p)"
proof -
  let ?t = "link_new fd s l n"
  note io = fsinfo_range [OF assms(2)]
  have n: "n < unat (CountOfClusters fd) + 2" using first_free_Some(2) [OF assms(7)] scan_end_le [of fd] by simp
  have rd: "IoReadDevice s (replicate 512 0) 512 512 = Some (STATUS_SUCCESS, 512, vol_range s 512 512, s)"
    using IoReadDevice_ok [OF assms(1) io, of "replicate 512 0"] by simp
  have g: "get_dword (vol_range s 512 512) FSI_Free_Count = Some (fs_free s)" "get_dword (vol_range s 512 512) FSI_Nxt_Free = Some (fs_next s)"
    by (simp_all add: get_dword_range fs_free_def fs_next_def FSI_Free_Count_def FSI_Nxt_Free_def)
  obtain st b where b: "reserve_and_link fd s (of_nat l) (vol_range s 512 512) = Some (st, of_nat n, b, ?t)" "length b = 512"
    "get_dword b FSI_Free_Count = Some (new_free_count fd s n)" "get_dword b FSI_Nxt_Free = Some (of_nat n)"
    using reserve_and_link_result [OF assms(1-4) _ g assms(5-7)] by auto
  have wr: "IoWriteDevice ?t b 512 512 = Some (STATUS_SUCCESS, 512, b, vol_write ?t 512 b)"
    using IoWriteDevice_ok [of ?t 512 512 b] assms(1) io b(2) by (simp add: io_range_def)
  have e: "\<not> FAT32_EOC (of_nat l)"
    using cluster_masked(4) [OF assms(2,3)] assms(2,3) by (simp add: FAT32_EOC_def word_less_nat_alt FAT32_BAD_CLUSTER_def fat_layout_def)
  have R: "2 \<le> unat (ReservedSectors fd)" "512 + 512 \<le> unat (FirstDataSector fd) * 512" using assms(2) by (auto simp: fat_layout_def)
  have run: "AddNewClusterToChain fd s (of_nat l) = Some (STATUS_SUCCESS, of_nat n, vol_write ?t 512 b)"
    using e assms(1) rd b(1) wr by (simp add: AddNewClusterToChain_def Let_def fat_layoutD(1) [OF assms(2)] sizeof_FSINFO_def zeros_def)
  have "vol (vol_write ?t 512 b) p = vol s p" if "unat (FirstDataSector fd) * 512 \<le> p" for p
    using that R(2) b(2) assms(2,3) n by (simp add: link_new_def vol_set_link)
  then show ?thesis
    using run assms(1,2) fsinfo_written [OF b(2-4) R(1), of ?t] fat_link_link_new [OF assms(2) n, of l] by simp
qed

text \<open>
  The search starts at the hint and does not wrap around. When it finds nothing although the count of free clusters is known
  and not zero, an assertion fails; when the count is unknown the disk is taken to be full, but the status is lost.
\<close>

lemma AddNewClusterToChain_not_found:
  assumes "storage_ready s" "fat_layout fd s" "l < unat (CountOfClusters fd) + 2"
    and "fs_free s \<noteq> 0" "2 \<le> unat (fs_next s)"
    and "FirstFreeCluster fd s (ucast (fs_next s)) True = Some (STATUS_SUCCESS, 0, s)"
  shows "fs_free s \<noteq> FAT32_UNKNOWN \<Longrightarrow> AddNewClusterToChain fd s (of_nat l) = None"
proof -
  have rd: "IoReadDevice s (replicate 512 0) 512 512 = Some (STATUS_SUCCESS, 512, vol_range s 512 512, s)"
    using IoReadDevice_ok [OF assms(1) fsinfo_range [OF assms(2)], of "replicate 512 0"] by simp
  have g: "get_dword (vol_range s 512 512) FSI_Free_Count = Some (fs_free s)" "get_dword (vol_range s 512 512) FSI_Nxt_Free = Some (fs_next s)"
    by (simp_all add: get_dword_range fs_free_def fs_next_def FSI_Free_Count_def FSI_Nxt_Free_def)
  assume "fs_free s \<noteq> FAT32_UNKNOWN"
  then have "reserve_and_link fd s (of_nat l) (vol_range s 512 512) = None"
    using g assms(4,6) by (simp add: reserve_and_link_def eq_commute [of 0] eq_commute [of FAT32_UNKNOWN])
  then show ?thesis using assms(1) rd
    by (cases "FAT32_EOC (of_nat l)") (simp_all add: AddNewClusterToChain_def Let_def fat_layoutD(1) [OF assms(2)] sizeof_FSINFO_def zeros_def)
qed

section \<open>Sectors of clusters\<close>

definition cluster_sector :: "FAT_DATA \<Rightarrow> nat \<Rightarrow> nat" where
  "cluster_sector fd c = unat (FirstDataSector fd) + (c - 2) * unat (SectorsPerCluster fd)"

definition in_volume :: "FAT_DATA \<Rightarrow> nat \<Rightarrow> bool" where
  "in_volume fd c \<longleftrightarrow> 2 \<le> c \<and> c < unat (CountOfClusters fd) + 2"

lemma cluster_start_sector: "cluster_start fd c = cluster_sector fd c * 512"
  by (simp add: cluster_start_def cluster_sector_def)

lemma cluster_sector_bound:
  assumes "fat_layout fd s" "in_volume fd c"
  shows "cluster_sector fd c + unat (SectorsPerCluster fd) \<le> unat (PartitionSize s)" "unat (FirstDataSector fd) \<le> cluster_sector fd c"
    "3 \<le> unat (FirstDataSector fd)"
proof -
  have "(c - 2 + 1) * unat (SectorsPerCluster fd) \<le> unat (CountOfClusters fd) * unat (SectorsPerCluster fd)"
    using assms(2) by (intro mult_right_mono) (auto simp: in_volume_def)
  then show "cluster_sector fd c + unat (SectorsPerCluster fd) \<le> unat (PartitionSize s)"
    using assms(1) by (simp add: fat_layout_def cluster_sector_def)
qed (use assms(1) in \<open>auto simp: fat_layout_def cluster_sector_def\<close>)

lemma FirstSectorOfCluster_result:
  assumes "storage_ready s" "fat_layout fd s" "in_volume fd c"
  shows "FirstSectorOfCluster fd (of_nat c) = (STATUS_SUCCESS, Some (of_nat (cluster_sector fd c)))"
proof -
  have c: "c < unat (CountOfClusters fd) + 2" "2 \<le> c" using assms(3) by (simp_all add: in_volume_def)
  have u: "unat (of_nat c :: QWORD) = c" by (rule cluster_masked(4) [OF assms(2) c(1)])
  have g: "\<not> (of_nat c :: QWORD) > ucast (CountOfClusters fd + 1)" "\<not> (of_nat c :: QWORD) < 2"
    using u c fat_layoutD(2) [OF assms(2)] by (simp_all add: word_less_nat_alt)
  have "(of_nat c - 2) * ucast (SectorsPerCluster fd) + ucast (FirstDataSector fd)
    = (of_nat (c - 2) * of_nat (unat (SectorsPerCluster fd)) + of_nat (unat (FirstDataSector fd)) :: QWORD)"
    using c(2) by (simp add: of_nat_diff)
  also have "\<dots> = of_nat (cluster_sector fd c)" by (simp only: cluster_sector_def of_nat_add of_nat_mult add.commute)
  finally show ?thesis using g by (simp add: FirstSectorOfCluster_def)
qed

lemma ClusterOfSector_result:
  assumes "storage_ready s" "fat_layout fd s" "in_volume fd c" "j < unat (SectorsPerCluster fd)"
  shows "ClusterOfSector fd (of_nat (cluster_sector fd c + j)) = Some (STATUS_SUCCESS, of_nat c)"
proof -
  have c: "c < unat (CountOfClusters fd) + 2" "2 \<le> c" using assms(3) by (simp_all add: in_volume_def)
  have u: "unat (of_nat c :: QWORD) = c" by (rule cluster_masked(4) [OF assms(2) c(1)])
  have g: "\<not> (of_nat c :: QWORD) > ucast (CountOfClusters fd + 1)" "\<not> (of_nat c :: QWORD) < 2"
    using u c fat_layoutD(2) [OF assms(2)] by (simp_all add: word_less_nat_alt)
  have b: "cluster_sector fd c + j < 2 ^ 48"
    using cluster_sector_bound(1) [OF assms(2,3)] assms(1,4) by (simp add: storage_ready_def)
  have q: "of_nat (cluster_sector fd c + j) - ucast (FirstDataSector fd) = (of_nat ((c - 2) * unat (SectorsPerCluster fd) + j) :: QWORD)"
    by (simp add: cluster_sector_def)
  have r: "unat (of_nat ((c - 2) * unat (SectorsPerCluster fd) + j) :: QWORD) = (c - 2) * unat (SectorsPerCluster fd) + j"
    by (rule unat_of_nat_small) (use b in \<open>simp add: cluster_sector_def\<close>)
  have "unat ((of_nat (cluster_sector fd c + j) - ucast (FirstDataSector fd)) div ucast (SectorsPerCluster fd) :: QWORD) = c - 2"
    unfolding q unat_div r using assms(4) by simp
  then have "(of_nat (cluster_sector fd c + j) - ucast (FirstDataSector fd)) div ucast (SectorsPerCluster fd) = (of_nat (c - 2) :: QWORD)"
    by (rule of_nat_unat_eq)
  then have "(of_nat (cluster_sector fd c + j) - ucast (FirstDataSector fd)) div ucast (SectorsPerCluster fd) + 2 = (of_nat c :: QWORD)"
    using c(2) by (simp add: of_nat_diff)
  moreover have "SectorsPerCluster fd \<noteq> 0" using assms(4) by auto
  ultimately show ?thesis using g unfolding ClusterOfSector_def by (simp add: Let_def del: of_nat_add)
qed

section \<open>The next sector of a chain\<close>

text \<open>A link ends a chain when it is zero, marks a bad cluster or is an end mark.\<close>

definition link_ends :: "DWORD \<Rightarrow> bool" where
  "link_ends v \<longleftrightarrow> v = 0 \<or> FAT32_BAD_CLUSTER \<le> v"

definition close_chain :: "FAT_DATA \<Rightarrow> STORAGE \<Rightarrow> nat \<Rightarrow> STORAGE" where
  "close_chain fd s c = (if fat_link fd s c = 0 then set_link fd s c FAT32_EOC_MARK else s)"

lemma next_cluster_ends:
  "FAT32_EOC (ucast (next_cluster fd s c)) \<longleftrightarrow> link_ends (fat_link fd s c)"
  by (auto simp: FAT32_EOC_def next_cluster_def link_ends_def word_less_nat_alt word_le_nat_alt FAT32_EOC_MARK_def FAT32_BAD_CLUSTER_def
      word_unat_eq_iff)

lemma NextSectorInClusterChain_follow:
  assumes "storage_ready s" "fat_layout fd s" "in_volume fd c" "in_volume fd d" "fat_link fd s c = of_nat d" "j < unat (SectorsPerCluster fd)"
  shows "NextSectorInClusterChain fd s (of_nat (cluster_sector fd c + j)) ext = Some (STATUS_SUCCESS, Some (of_nat (cluster_sector fd d)), s)"
proof -
  have c: "c < unat (CountOfClusters fd) + 2" and d: "d < unat (CountOfClusters fd) + 2" "2 \<le> d"
    using assms(3,4) by (simp_all add: in_volume_def)
  note ud = cluster_masked(2) [OF assms(2) d(1)]
  have e: "\<not> link_ends (fat_link fd s c)" using assms(2,5) ud d
    by (auto simp: link_ends_def word_le_nat_alt FAT32_BAD_CLUSTER_def fat_layout_def dest: arg_cong [where f = unat])
  have n: "ucast (next_cluster fd s c) = (of_nat d :: QWORD)"
    using e assms(5) ud by (auto simp: next_cluster_def link_ends_def intro: of_nat_unat_eq)
  show ?thesis
    using NextClusterInChain_result [OF assms(1,2) c] ClusterOfSector_result [OF assms(1-3,6)]
      FirstSectorOfCluster_result [OF assms(1,2,4)] next_cluster_ends [of fd s c] e
    by (simp add: NextSectorInClusterChain_def n link_ends_def del: of_nat_add)
qed

lemma NextSectorInClusterChain_end:
  assumes "storage_ready s" "fat_layout fd s" "in_volume fd c" "link_ends (fat_link fd s c)" "j < unat (SectorsPerCluster fd)"
  shows "NextSectorInClusterChain fd s (of_nat (cluster_sector fd c + j)) False = Some (STATUS_SUCCESS, Some 0, close_chain fd s c)"
proof -
  have c: "c < unat (CountOfClusters fd) + 2" using assms(3) by (simp add: in_volume_def)
  show ?thesis
    using NextClusterInChain_result [OF assms(1,2) c] ClusterOfSector_result [OF assms(1-3,5)] next_cluster_ends [of fd s c] assms(4)
    by (simp add: NextSectorInClusterChain_def close_chain_def del: of_nat_add)
qed

lemma close_chain_simps [simp]:
  "storage_ready (close_chain fd s c) = storage_ready s" "fat_layout fd (close_chain fd s c) = fat_layout fd s"
  "PartitionSize (close_chain fd s c) = PartitionSize s"
  by (simp_all add: close_chain_def)

lemma fat_link_close_chain: "fat_link fd (close_chain fd s c) d = (if d = c \<and> fat_link fd s c = 0 then FAT32_EOC_MARK else fat_link fd s d)"
  by (auto simp: close_chain_def fat_link_set_link)

section \<open>Chains\<close>

fun fat_chain :: "FAT_DATA \<Rightarrow> STORAGE \<Rightarrow> nat list \<Rightarrow> bool" where
  "fat_chain fd s [] \<longleftrightarrow> False"
| "fat_chain fd s [c] \<longleftrightarrow> in_volume fd c \<and> link_ends (fat_link fd s c)"
| "fat_chain fd s (c # d # xs) \<longleftrightarrow> in_volume fd c \<and> fat_link fd s c = of_nat d \<and> fat_chain fd s (d # xs)"

lemma fat_chain_nonempty: "fat_chain fd s xs \<Longrightarrow> xs \<noteq> []"
  by auto

lemma fat_chain_in_volume: "fat_chain fd s xs \<Longrightarrow> c \<in> set xs \<Longrightarrow> in_volume fd c"
  by (induction fd s xs rule: fat_chain.induct) auto

lemma fat_chain_append: "fat_chain fd s (xs @ c # ys) \<Longrightarrow> fat_chain fd s (c # ys)"
proof (induction xs)
  case (Cons a xs)
  then show ?case by (cases "xs @ c # ys") auto
qed simp

lemma fat_chain_last: "fat_chain fd s xs \<Longrightarrow> link_ends (fat_link fd s (last xs))"
  by (induction fd s xs rule: fat_chain.induct) auto

lemma fat_chain_link: "fat_chain fd s xs \<Longrightarrow> Suc i < length xs \<Longrightarrow> fat_link fd s (xs ! i) = of_nat (xs ! Suc i)"
proof (induction fd s xs arbitrary: i rule: fat_chain.induct)
  case (3 fd s c d xs)
  then show ?case by (cases i) auto
qed auto

lemma of_nat_cluster_inj:
  "fat_layout fd s \<Longrightarrow> in_volume fd c \<Longrightarrow> in_volume fd d \<Longrightarrow> (of_nat c :: DWORD) = of_nat d \<longleftrightarrow> c = d"
  using cluster_masked(2) [of fd s c] cluster_masked(2) [of fd s d] unfolding in_volume_def by metis

lemma not_link_ends: "fat_layout fd s \<Longrightarrow> in_volume fd c \<Longrightarrow> \<not> link_ends (of_nat c)"
  using cluster_masked(2) [of fd s c]
  by (auto simp: link_ends_def in_volume_def word_le_nat_alt FAT32_BAD_CLUSTER_def fat_layout_def dest: arg_cong [where f = unat])

lemma fat_chain_unique:
  "fat_layout fd s \<Longrightarrow> fat_chain fd s (c # xs) \<Longrightarrow> fat_chain fd s (c # ys) \<Longrightarrow> xs = ys"
proof (induction xs arbitrary: c ys)
  case Nil
  then show ?case
    using not_link_ends [of fd s] fat_chain_in_volume [of fd s "c # ys"] by (cases ys) auto
next
  case (Cons d xs)
  note v = fat_chain_in_volume [OF Cons.prems(2)]
  show ?case
  proof (cases ys)
    case Nil
    then show ?thesis using Cons.prems not_link_ends [OF Cons.prems(1) v, of d] by simp
  next
    case c: (Cons e zs)
    then have "d = e" using Cons.prems v of_nat_cluster_inj [OF Cons.prems(1), of d e] fat_chain_in_volume [OF Cons.prems(3)] by auto
    then show ?thesis using Cons.IH [OF Cons.prems(1), of d zs] Cons.prems c by auto
  qed
qed

lemma fat_chain_distinct: "fat_layout fd s \<Longrightarrow> fat_chain fd s xs \<Longrightarrow> distinct xs"
proof (induction xs)
  case (Cons c xs)
  have "c \<notin> set xs"
  proof
    assume "c \<in> set xs"
    then obtain as bs where xs: "xs = as @ c # bs" by (meson split_list)
    then have "fat_chain fd s (c # bs)" using Cons.prems(2) fat_chain_append [of fd s "c # as" c bs] by simp
    then have "xs = bs" using fat_chain_unique [OF Cons.prems] by simp
    then show False using xs by simp
  qed
  moreover have "fat_chain fd s xs \<or> xs = []" using Cons.prems(2) by (cases xs) auto
  ultimately show ?case using Cons.IH Cons.prems(1) by auto
qed simp

lemma fat_chain_cong:
  "(\<And>c. c \<in> set xs \<Longrightarrow> fat_link fd t c = fat_link fd s c) \<Longrightarrow> fat_chain fd t xs = fat_chain fd s xs"
  by (induction fd s xs rule: fat_chain.induct) auto

text \<open>Appending a cluster to a chain.\<close>

lemma fat_chain_extend:
  assumes "fat_chain fd s xs" "distinct (xs @ [n])" "in_volume fd n"
    and "fat_link fd t = (fat_link fd s)(n := FAT32_EOC_MARK, last xs := of_nat n)"
  shows "fat_chain fd t (xs @ [n])"
  using assms
proof (induction xs)
  case (Cons c xs)
  show ?case
  proof (cases xs)
    case Nil
    have "link_ends FAT32_EOC_MARK" by (simp add: link_ends_def FAT32_EOC_MARK_def FAT32_BAD_CLUSTER_def)
    then show ?thesis using Cons.prems Nil by (auto simp: fun_eq_iff)
  next
    case c: (Cons d ys)
    then have "fat_chain fd t (xs @ [n])" using Cons by auto
    moreover have "last xs \<in> set xs" using c by simp
    then have "c \<noteq> last xs" using Cons.prems(2) by auto
    ultimately show ?thesis using Cons.prems c by auto
  qed
qed simp

text \<open>A chain whose last link is not zero: none of its clusters is free.\<close>

definition closed_chain :: "FAT_DATA \<Rightarrow> STORAGE \<Rightarrow> nat list \<Rightarrow> bool" where
  "closed_chain fd s xs \<longleftrightarrow> fat_chain fd s xs \<and> fat_link fd s (last xs) \<noteq> 0"

lemma closed_chain_used:
  assumes "fat_layout fd s" "closed_chain fd s xs" "c \<in> set xs"
  shows "fat_link fd s c \<noteq> 0"
proof -
  from assms(3) obtain as bs where xs: "xs = as @ c # bs" by (meson split_list)
  then have ch: "fat_chain fd s (c # bs)" using assms(2) fat_chain_append by (auto simp: closed_chain_def)
  show ?thesis
  proof (cases bs)
    case Nil
    then show ?thesis using assms(2) xs by (simp add: closed_chain_def)
  next
    case (Cons d ds)
    then have "in_volume fd d" "fat_link fd s c = of_nat d" using ch fat_chain_in_volume [OF ch, of d] by auto
    then show ?thesis using not_link_ends [OF assms(1), of d] by (auto simp: link_ends_def)
  qed
qed

lemma chain_end_unique:
  assumes "fat_layout fd s" "fat_chain fd s xs" "fat_chain fd s ys" "last xs \<in> set ys"
  shows "last ys = last xs"
proof -
  from assms(4) obtain as bs where ys: "ys = as @ last xs # bs" by (meson split_list)
  have "fat_chain fd s (last xs # bs)" using assms(3) ys fat_chain_append by metis
  moreover have "fat_chain fd s [last xs]"
    using fat_chain_last [OF assms(2)] fat_chain_in_volume [OF assms(2)] fat_chain_nonempty [OF assms(2)] by simp
  ultimately have "bs = []" using fat_chain_unique [OF assms(1)] by blast
  then show ?thesis using ys by simp
qed

text \<open>The state after a chain has grown by a cluster that was free.\<close>

definition chain_grown :: "FAT_DATA \<Rightarrow> STORAGE \<Rightarrow> nat list \<Rightarrow> nat \<Rightarrow> STORAGE \<Rightarrow> bool" where
  "chain_grown fd s xs n s' \<longleftrightarrow> closed_chain fd s' (xs @ [n])
     \<and> (\<forall>ys. closed_chain fd s ys \<and> last ys \<noteq> last xs \<longrightarrow> closed_chain fd s' ys \<and> n \<notin> set ys)
     \<and> (\<forall>c. cluster_bytes fd s' c = cluster_bytes fd s c)
     \<and> fat_link fd s' = (fat_link fd s)(n := FAT32_EOC_MARK, last xs := of_nat n)
     \<and> fs_next s' = of_nat n \<and> fs_free s' = new_free_count fd s n \<and> storage_ready s' \<and> fat_layout fd s'"

lemma chain_grownI:
  assumes "fat_layout fd s" "closed_chain fd s xs" "fat_link fd s n = 0" "in_volume fd n"
    and l: "fat_link fd s' = (fat_link fd s)(n := FAT32_EOC_MARK, last xs := of_nat n)"
  shows "closed_chain fd s' (xs @ [n])" "closed_chain fd s ys \<Longrightarrow> last ys \<noteq> last xs \<Longrightarrow> closed_chain fd s' ys \<and> n \<notin> set ys"
proof -
  have ch: "fat_chain fd s xs" using assms(2) by (simp add: closed_chain_def)
  have nx: "n \<notin> set xs" using closed_chain_used [OF assms(1,2)] assms(3) by blast
  then have "distinct (xs @ [n])" using fat_chain_distinct [OF assms(1) ch] by simp
  moreover have "n \<noteq> last xs" using nx fat_chain_nonempty [OF ch] by (metis last_in_set)
  ultimately show "closed_chain fd s' (xs @ [n])"
    using fat_chain_extend [OF ch _ assms(4) l] l by (simp add: closed_chain_def FAT32_EOC_MARK_def)
  assume y: "closed_chain fd s ys" "last ys \<noteq> last xs"
  have ny: "n \<notin> set ys" using closed_chain_used [OF assms(1) y(1)] assms(3) by blast
  have ly: "last xs \<notin> set ys" using chain_end_unique [OF assms(1) ch] y by (auto simp: closed_chain_def)
  have "fat_link fd s' c = fat_link fd s c" if "c \<in> set ys" for c using that ny ly l by auto
  then have "fat_chain fd s' ys = fat_chain fd s ys" "fat_link fd s' (last ys) = fat_link fd s (last ys)"
    using fat_chain_cong [of ys fd s' s] y(1) fat_chain_nonempty by (auto simp: closed_chain_def)
  then show "closed_chain fd s' ys \<and> n \<notin> set ys" using y(1) ny by (simp add: closed_chain_def)
qed

lemma NextSectorInClusterChain_extend:
  assumes "storage_ready s" "fat_layout fd s" "closed_chain fd s xs" "j < unat (SectorsPerCluster fd)"
    and "fs_free s \<noteq> 0" "2 \<le> unat (fs_next s)" "first_free fd s (unat (fs_next s)) (scan_end fd) = Some n"
  shows "\<exists>s'. NextSectorInClusterChain fd s (of_nat (cluster_sector fd (last xs) + j)) True
      = Some (STATUS_SUCCESS, Some (of_nat (cluster_sector fd n)), s') \<and> chain_grown fd s xs n s'"
proof -
  let ?l = "last xs"
  have ch: "fat_chain fd s xs" "fat_link fd s ?l \<noteq> 0" using assms(3) by (simp_all add: closed_chain_def)
  have lin: "in_volume fd ?l" using fat_chain_in_volume [OF ch(1)] fat_chain_nonempty [OF ch(1)] by simp
  then have l: "?l < unat (CountOfClusters fd) + 2" by (simp add: in_volume_def)
  note f = first_free_Some [OF assms(7)]
  have n: "in_volume fd n" using f(1,2) scan_end_le [of fd] assms(6) by (simp add: in_volume_def)
  obtain s' where s': "AddNewClusterToChain fd s (of_nat ?l) = Some (STATUS_SUCCESS, of_nat n, s')" "storage_ready s'" "fat_layout fd s'"
    "fat_link fd s' = (fat_link fd s)(n := FAT32_EOC_MARK, ?l := of_nat n)" "fs_next s' = of_nat n" "fs_free s' = new_free_count fd s n"
    "\<And>p. unat (FirstDataSector fd) * 512 \<le> p \<Longrightarrow> vol s' p = vol s p"
    using AddNewClusterToChain_result [OF assms(1,2) l ch(2) assms(5-7)] by blast
  have "NextSectorInClusterChain fd s (of_nat (cluster_sector fd ?l + j)) True = Some (STATUS_SUCCESS, Some (of_nat (cluster_sector fd n)), s')"
    using NextClusterInChain_result [OF assms(1,2) l] ClusterOfSector_result [OF assms(1,2) lin assms(4)] next_cluster_ends [of fd s ?l]
      fat_chain_last [OF ch(1)] ch(2) s'(1) FirstSectorOfCluster_result [OF s'(2,3) n]
    by (simp add: NextSectorInClusterChain_def del: of_nat_add)
  moreover have "chain_grown fd s xs n s'"
    unfolding chain_grown_def using chain_grownI [OF assms(2,3) f(3) n s'(4)] s' cluster_bytes_cong [OF s'(7)] by blast
  ultimately show ?thesis by blast
qed

end
