(* ===== verification/Fat_Files.thy ===== *)
theory Fat_Files
  imports Fat_Utils
begin

unbundle bit_operations_syntax

text \<open>
  \<^verbatim>\<open>FAT32/src/fat_operations.c\<close>: mounting a volume, and reading and writing the sectors of a file along its cluster chain.

  The buffer of a request is the list of bytes from \<^verbatim>\<open>Buffer\<close> on, and \<^verbatim>\<open>pData\<close> the number of bytes done. The date and time
  \<^verbatim>\<open>IoGetCurrentDateTime\<close> returns is an argument. Loops that follow a chain have no bound in the code.
\<close>

section \<open>Mounting\<close>

definition sizeof_FAT_BPB :: DWORD where "sizeof_FAT_BPB = 512"
definition BPB_BytsPerSec :: nat where "BPB_BytsPerSec = 11"
definition BPB_SecPerClus :: nat where "BPB_SecPerClus = 13"
definition BPB_RsvdSecCnt :: nat where "BPB_RsvdSecCnt = 14"
definition BPB_NumFATs :: nat where "BPB_NumFATs = 16"
definition BPB_TotSec16 :: nat where "BPB_TotSec16 = 19"
definition BPB_FATSz16 :: nat where "BPB_FATSz16 = 22"
definition BPB_TotSec32 :: nat where "BPB_TotSec32 = 32"
definition BPB_FATSz32 :: nat where "BPB_FATSz32 = 36"
definition BPB_RootClus :: nat where "BPB_RootClus = 44"
definition MBR_BOOT_SIGNATURE :: WORD where "MBR_BOOT_SIGNATURE = 0xAA55"
definition FAT12_MAX_CLUSTERS :: DWORD where "FAT12_MAX_CLUSTERS = 4085"
definition FAT16_MAX_CLUSTERS :: DWORD where "FAT16_MAX_CLUSTERS = 65525"

definition STATUS_DISK_MBR_NOT_PRESENT :: STATUS where
  "STATUS_DISK_MBR_NOT_PRESENT = (ERROR_MASK OR CUSTOMER_BIT OR DISK_MASK OR 0x0001)"
definition STATUS_DEVICE_FILESYSTEM_UNSUPPORTED :: STATUS where
  "STATUS_DEVICE_FILESYSTEM_UNSUPPORTED = (ERROR_MASK OR CUSTOMER_BIT OR DEVICE_MASK OR 0x000C)"

definition FatInitVolume :: "FAT_DATA \<Rightarrow> STORAGE \<Rightarrow> (STATUS \<times> FAT_DATA \<times> STORAGE) option" where
  "FatInitVolume FatData s = do {
     (status, _, bpb, s) \<leftarrow> IoReadDevice s (zeros sizeof_FAT_BPB) (ucast sizeof_FAT_BPB) 0;
     if \<not> SUCCEEDED status then Some (status, FatData, s)
     else do {
       signature \<leftarrow> get_word bpb 510;
       bytsPerSec \<leftarrow> get_word bpb BPB_BytsPerSec;
       rsvdSecCnt \<leftarrow> get_word bpb BPB_RsvdSecCnt;
       totSec16 \<leftarrow> get_word bpb BPB_TotSec16;
       fatSz16 \<leftarrow> get_word bpb BPB_FATSz16;
       totSec32 \<leftarrow> get_dword bpb BPB_TotSec32;
       fatSz32 \<leftarrow> get_dword bpb BPB_FATSz32;
       rootClus \<leftarrow> get_dword bpb BPB_RootClus;
       let secPerClus = ucast (bpb ! BPB_SecPerClus);
       let numFATs = ucast (bpb ! BPB_NumFATs);
       if MBR_BOOT_SIGNATURE \<noteq> signature then Some (STATUS_DISK_MBR_NOT_PRESENT, FatData, s)
       else do {
         let fatSize = (if 0 \<noteq> fatSz16 then ucast fatSz16 else fatSz32);
         let totalSectors = (if 0 \<noteq> totSec16 then ucast totSec16 else totSec32);
         let dataSectors = totalSectors - (ucast rsvdSecCnt + numFATs * fatSize);
         ASSERT (secPerClus \<noteq> 0);
         let FatData = FatData\<lparr>CountOfClusters := dataSectors div secPerClus\<rparr>;
         if CountOfClusters FatData < FAT12_MAX_CLUSTERS then Some (STATUS_DEVICE_FILESYSTEM_UNSUPPORTED, FatData, s)
         else if CountOfClusters FatData < FAT16_MAX_CLUSTERS then Some (STATUS_DEVICE_FILESYSTEM_UNSUPPORTED, FatData, s)
         else do {
           let FatData = FatData\<lparr>FirstDataSector := ucast rsvdSecCnt + numFATs * fatSize, SectorsPerCluster := secPerClus\<rparr>;
           case FirstSectorOfCluster FatData (ucast rootClus) of
             (status, None) \<Rightarrow> Some (status, FatData, s)
           | (status, Some root) \<Rightarrow> do {
               let FatData = FatData\<lparr>RootDirectoryStartSector := root,
                 EntriesPerSector := ucast bytsPerSec div of_nat sizeof_DIR_ENTRY,
                 ReservedSectors := ucast rsvdSecCnt,
                 BytesPerSector := ucast bytsPerSec,
                 AllocationSize := SectorsPerCluster FatData * ucast bytsPerSec\<rparr>;
               ASSERT (AllocationSize FatData \<ge> DeviceAlignment s);
               Some (status, FatData, s)
             }
         }
       }
     }
   }"

section \<open>Reading and writing\<close>

text \<open>
  The loop, the same in both operations, that follows the chain to the cluster of the first sector. The result is the
  status, the sector and the storage.
\<close>

partial_function (option) walk_to_offset ::
  "FAT_DATA \<Rightarrow> STORAGE \<Rightarrow> QWORD \<Rightarrow> QWORD \<Rightarrow> QWORD \<Rightarrow> bool \<Rightarrow> (STATUS \<times> QWORD \<times> STORAGE) option" where
  [code]: "walk_to_offset FatData s SectorOffset currentSector sectorsTraversed ExtendChain =
     (if sectorsTraversed + ucast (SectorsPerCluster FatData) \<le> SectorOffset then do {
        ASSERT (SectorOffset \<ge> ucast (SectorsPerCluster FatData));
        (status, nextSector, s) \<leftarrow> NextSectorInClusterChain FatData s currentSector ExtendChain;
        if \<not> SUCCEEDED status then Some (status, currentSector, s)
        else do {
          currentSector \<leftarrow> nextSector;
          walk_to_offset FatData s SectorOffset currentSector (sectorsTraversed + ucast (SectorsPerCluster FatData)) ExtendChain
        }
      }
      else Some (STATUS_SUCCESS, currentSector, s))"

text \<open>The loops \<^verbatim>\<open>for (;;)\<close>: the status, the sectors that remain, the buffer and the storage.\<close>

partial_function (option) read_sectors ::
  "FAT_DATA \<Rightarrow> STORAGE \<Rightarrow> BYTE list \<Rightarrow> nat \<Rightarrow> QWORD \<Rightarrow> QWORD \<Rightarrow> QWORD \<Rightarrow> (STATUS \<times> QWORD \<times> BYTE list \<times> STORAGE) option" where
  [code]: "read_sectors FatData s Buffer pData currentSector sectorsToRead sectorsRemaining = do {
     let bps = ucast (BytesPerSector FatData);
     (status, bytesToRead, data, s) \<leftarrow> IoReadDevice s (drop pData Buffer) (sectorsToRead * bps) (currentSector * bps);
     let Buffer = take pData Buffer @ data;
     if \<not> SUCCEEDED status then Some (status, sectorsRemaining, Buffer, s)
     else do {
       ASSERT (bytesToRead = sectorsToRead * bps);
       let pData = pData + unat bytesToRead;
       let sectorsRemaining = sectorsRemaining - sectorsToRead;
       if 0 = sectorsRemaining then Some (status, sectorsRemaining, Buffer, s)
       else do {
         (status, nextSector, s) \<leftarrow> NextSectorInClusterChain FatData s currentSector False;
         if \<not> SUCCEEDED status then Some (status, sectorsRemaining, Buffer, s)
         else do {
           nextSector \<leftarrow> nextSector;
           if 0 = nextSector then Some (status, sectorsRemaining, Buffer, s)
           else read_sectors FatData s Buffer pData nextSector (min (ucast (SectorsPerCluster FatData)) sectorsRemaining) sectorsRemaining
         }
       }
     }
   }"

partial_function (option) write_sectors ::
  "FAT_DATA \<Rightarrow> STORAGE \<Rightarrow> BYTE list \<Rightarrow> nat \<Rightarrow> QWORD \<Rightarrow> QWORD \<Rightarrow> QWORD \<Rightarrow> (STATUS \<times> STORAGE) option" where
  [code]: "write_sectors FatData s Buffer pData currentSector sectorsToWrite sectorsRemaining = do {
     let bps = ucast (BytesPerSector FatData);
     (status, bytesToWrite, _, s) \<leftarrow> IoWriteDevice s (drop pData Buffer) (sectorsToWrite * bps) (currentSector * bps);
     if \<not> SUCCEEDED status then Some (status, s)
     else do {
       ASSERT (bytesToWrite = sectorsToWrite * bps);
       let pData = pData + unat bytesToWrite;
       let sectorsRemaining = sectorsRemaining - sectorsToWrite;
       if 0 = sectorsRemaining then Some (status, s)
       else do {
         (status, nextSector, s) \<leftarrow> NextSectorInClusterChain FatData s currentSector True;
         if \<not> SUCCEEDED status then Some (status, s)
         else do {
           nextSector \<leftarrow> nextSector;
           write_sectors FatData s Buffer pData nextSector (min (ucast (SectorsPerCluster FatData)) sectorsRemaining) sectorsRemaining
         }
       }
     }
   }"

definition FatReadFile ::
  "FAT_DATA \<Rightarrow> STORAGE \<Rightarrow> DATE \<times> TIME \<Rightarrow> QWORD \<Rightarrow> QWORD \<Rightarrow> QWORD \<Rightarrow> BYTE list \<Rightarrow> QWORD
     \<Rightarrow> (STATUS \<times> QWORD option \<times> BYTE list \<times> STORAGE) option" where
  "FatReadFile FatData s currentDateTime BaseFileSector SectorOffset DirEntrySector Buffer SectorsToRead = do {
     ASSERT (IsAddressAligned BaseFileSector (ucast (SectorsPerCluster FatData)));
     if 0 = SectorsToRead then Some (STATUS_SUCCESS, Some 0, Buffer, s)
     else do {
       (status, currentSector, s) \<leftarrow> walk_to_offset FatData s SectorOffset BaseFileSector 0 False;
       if \<not> SUCCEEDED status then Some (status, None, Buffer, s)
       else do {
         ASSERT (0 \<noteq> currentSector);
         ASSERT (SectorsPerCluster FatData \<noteq> 0);
         let inCluster = SectorOffset mod ucast (SectorsPerCluster FatData);
         (status, sectorsRemaining, Buffer, s) \<leftarrow> read_sectors FatData s Buffer 0 (currentSector + inCluster)
           (min SectorsToRead (ucast (SectorsPerCluster FatData) - inCluster)) SectorsToRead;
         if \<not> SUCCEEDED status then Some (status, None, Buffer, s)
         else do {
           (status, dirEntryIndex, dirEntry, s) \<leftarrow> GetDirEntryFromSector FatData s DirEntrySector BaseFileSector;
           if \<not> SUCCEEDED status then Some (status, None, Buffer, s)
           else do {
             dirEntryIndex \<leftarrow> dirEntryIndex;
             dirEntry \<leftarrow> dirEntry;
             let (fatDate, fatTime) = ConvertDateTimeToFatDateTime currentDateTime;
             dirEntry \<leftarrow> put_word dirEntry DIR_LstAccDate fatDate;
             (status, s) \<leftarrow> WriteDirEntryToSector FatData s DirEntrySector dirEntryIndex dirEntry;
             if \<not> SUCCEEDED status then Some (status, None, Buffer, s)
             else Some (status, Some (SectorsToRead - sectorsRemaining), Buffer, s)
           }
         }
       }
     }
   }"

definition FatWriteFile ::
  "FAT_DATA \<Rightarrow> STORAGE \<Rightarrow> DATE \<times> TIME \<Rightarrow> QWORD \<Rightarrow> QWORD \<Rightarrow> QWORD \<Rightarrow> BYTE list \<Rightarrow> QWORD
     \<Rightarrow> (STATUS \<times> QWORD option \<times> STORAGE) option" where
  "FatWriteFile FatData s currentDateTime BaseFileSector SectorOffset DirEntrySector Buffer SectorsToWrite = do {
     ASSERT (IsAddressAligned BaseFileSector (ucast (SectorsPerCluster FatData)));
     if 0 = SectorsToWrite then Some (STATUS_SUCCESS, Some 0, s)
     else do {
       (status, currentSector, s) \<leftarrow> walk_to_offset FatData s SectorOffset BaseFileSector 0 True;
       if \<not> SUCCEEDED status then Some (status, None, s)
       else do {
         ASSERT (0 \<noteq> currentSector);
         ASSERT (SectorsPerCluster FatData \<noteq> 0);
         let inCluster = SectorOffset mod ucast (SectorsPerCluster FatData);
         (status, s) \<leftarrow> write_sectors FatData s Buffer 0 (currentSector + inCluster)
           (min SectorsToWrite (ucast (SectorsPerCluster FatData) - inCluster)) SectorsToWrite;
         if \<not> SUCCEEDED status then Some (status, None, s)
         else do {
           (status, dirEntryIndex, dirEntry, s) \<leftarrow> GetDirEntryFromSector FatData s DirEntrySector BaseFileSector;
           if \<not> SUCCEEDED status then Some (status, None, s)
           else do {
             dirEntryIndex \<leftarrow> dirEntryIndex;
             dirEntry \<leftarrow> dirEntry;
             let nextByteToWrite = ucast (SectorOffset + SectorsToWrite) * BytesPerSector FatData;
             size \<leftarrow> get_dword dirEntry DIR_FileSize;
             dirEntry \<leftarrow> (if nextByteToWrite > size then put_dword dirEntry DIR_FileSize nextByteToWrite else Some dirEntry);
             let (fatDate, fatTime) = ConvertDateTimeToFatDateTime currentDateTime;
             dirEntry \<leftarrow> put_word dirEntry DIR_LstAccDate fatDate;
             dirEntry \<leftarrow> put_word dirEntry DIR_WrtDate fatDate;
             dirEntry \<leftarrow> put_word dirEntry DIR_WrtTime fatTime;
             (status, s) \<leftarrow> WriteDirEntryToSector FatData s DirEntrySector dirEntryIndex dirEntry;
             if \<not> SUCCEEDED status then Some (status, None, s)
             else Some (status, Some SectorsToWrite, s)
           }
         }
       }
     }
   }"

end
