(* ===== verification/Fat_File_Ops.thy ===== *)
theory Fat_File_Ops
  imports Fat_Chain Fat_Files
begin

unbundle bit_operations_syntax

text \<open>
  What reading and writing a file do: the walk along the chain, the transfer cluster by cluster and the update of the entry in the
  directory, as functions of the bytes of the file.
\<close>

section \<open>The bytes of a file\<close>

abbreviation cluster_size :: "FAT_DATA \<Rightarrow> nat" where
  "cluster_size fd \<equiv> unat (SectorsPerCluster fd) * 512"

text \<open>Byte \<open>p\<close> of the file whose clusters are \<open>xs\<close>.\<close>

definition file_byte :: "FAT_DATA \<Rightarrow> STORAGE \<Rightarrow> nat list \<Rightarrow> nat \<Rightarrow> BYTE" where
  "file_byte fd s xs p = vol s (cluster_start fd (xs ! (p div cluster_size fd)) + p mod cluster_size fd)"

lemma SPC_pos: "fat_layout fd s \<Longrightarrow> 0 < unat (SectorsPerCluster fd)" "fat_layout fd s \<Longrightarrow> unat (SectorsPerCluster fd) \<le> 65535"
  by (simp_all add: fat_layout_def)

text \<open>A run of sectors inside one cluster.\<close>

lemma run_in_cluster:
  assumes "storage_ready s" "fat_layout fd s" "in_volume fd c" "0 < m" "j + m \<le> unat (SectorsPerCluster fd)"
  shows "unat (of_nat (cluster_sector fd c + j) * (512::QWORD)) = cluster_start fd c + j * 512" "unat (of_nat m * (512::QWORD)) = m * 512"
    "io_range s (of_nat (cluster_sector fd c + j) * 512) (of_nat m * 512)"
proof -
  have b: "cluster_sector fd c + j + m \<le> unat (PartitionSize s)" "m \<le> 65535"
    using cluster_sector_bound(1) [OF assms(2,3)] assms(5) SPC_pos(2) [OF assms(2)] by linarith+
  then have q: "cluster_sector fd c + j < 2 ^ 48" "m < 2 ^ 48" using assms(1) by (auto simp: storage_ready_def)
  show u: "unat (of_nat (cluster_sector fd c + j) * (512::QWORD)) = cluster_start fd c + j * 512" "unat (of_nat m * (512::QWORD)) = m * 512"
    using sector_offset [OF q(1)] sector_offset [OF q(2)] by (simp_all add: cluster_start_sector algebra_simps)
  have "(of_nat m * 512 :: QWORD) \<noteq> 0" using u(2) assms(4) by auto
  then show "io_range s (of_nat (cluster_sector fd c + j) * 512) (of_nat m * 512)"
    unfolding io_range_def u using b by (simp add: cluster_start_sector)
qed

lemma file_byte_in_cluster:
  assumes "q < cluster_size fd"
  shows "file_byte fd s xs (i * cluster_size fd + q) = vol s (cluster_start fd (xs ! i) + q)"
  using assms by (simp add: file_byte_def)

lemma file_run:
  assumes "j + m \<le> unat (SectorsPerCluster fd)"
  shows "vol_range s (cluster_start fd (xs ! i) + j * 512) (m * 512)
    = map (file_byte fd s xs) [(i * unat (SectorsPerCluster fd) + j) * 512 ..< (i * unat (SectorsPerCluster fd) + j + m) * 512]"
proof (rule nth_equalityI)
  fix k assume "k < length (vol_range s (cluster_start fd (xs ! i) + j * 512) (m * 512))"
  then have "j * 512 + k < cluster_size fd" "k < m * 512" using assms by auto
  then show "vol_range s (cluster_start fd (xs ! i) + j * 512) (m * 512) ! k
    = map (file_byte fd s xs) [(i * unat (SectorsPerCluster fd) + j) * 512 ..< (i * unat (SectorsPerCluster fd) + j + m) * 512] ! k"
    using file_byte_in_cluster [of "j * 512 + k" fd s xs i] by (simp add: algebra_simps)
qed simp

lemma chain_sectors:
  assumes "storage_ready s" "fat_layout fd s" "fat_chain fd s xs"
  shows "length xs * unat (SectorsPerCluster fd) < 2 ^ 48"
proof -
  have "set xs \<subseteq> {2 ..< unat (CountOfClusters fd) + 2}"
    using fat_chain_in_volume [OF assms(3)] by (auto simp: in_volume_def)
  then have "card (set xs) \<le> card {2 ..< unat (CountOfClusters fd) + 2}" by (intro card_mono) simp_all
  then have "length xs \<le> unat (CountOfClusters fd)" using distinct_card [OF fat_chain_distinct [OF assms(2,3)]] by simp
  then have "length xs * unat (SectorsPerCluster fd) \<le> unat (CountOfClusters fd) * unat (SectorsPerCluster fd)" by (rule mult_right_mono) simp
  moreover have "unat (CountOfClusters fd) * unat (SectorsPerCluster fd) \<le> unat (PartitionSize s)" "unat (PartitionSize s) < 2 ^ 48"
    using assms(1,2) by (simp_all add: storage_ready_def fat_layout_def)
  ultimately show ?thesis by linarith
qed

text \<open>The test of the loop that walks along the chain, and one round of it.\<close>

lemma walk_cond:
  assumes "fat_layout fd s" "k < 2 ^ 48" "i \<le> k div c" "c = unat (SectorsPerCluster fd)"
  shows "of_nat (i * c) + ucast (SectorsPerCluster fd) \<le> (of_nat k :: QWORD) \<longleftrightarrow> i < k div c"
    "of_nat (i * c) + ucast (SectorsPerCluster fd) = (of_nat (Suc i * c) :: QWORD)"
    "i < k div c \<Longrightarrow> ucast (SectorsPerCluster fd) \<le> (of_nat k :: QWORD)"
proof -
  note c = SPC_pos [OF assms(1), folded assms(4)]
  have uk: "unat (of_nat k :: QWORD) = k" using assms(2) by (simp add: unat_of_nat_small)
  show e: "of_nat (i * c) + ucast (SectorsPerCluster fd) = (of_nat (Suc i * c) :: QWORD)" by (simp add: assms(4))
  have "i * c \<le> k" using assms(3) by (simp add: less_eq_div_iff_mult_less_eq c(1))
  then have "Suc i * c < 2 ^ 64" using assms(2) c(2) by simp
  then have "unat (of_nat (Suc i * c) :: QWORD) = Suc i * c" by (intro unat_of_nat_small) simp
  then show "of_nat (i * c) + ucast (SectorsPerCluster fd) \<le> (of_nat k :: QWORD) \<longleftrightarrow> i < k div c"
    unfolding e word_le_nat_alt uk by (simp add: less_eq_div_iff_mult_less_eq [OF c(1), symmetric] Suc_le_eq del: mult_Suc)
  assume "i < k div c"
  then have "c \<le> k div c * c" by (cases "k div c") auto
  then have "c \<le> k" using div_times_less_eq_dividend [of k c] by linarith
  then show "ucast (SectorsPerCluster fd) \<le> (of_nat k :: QWORD)" using assms(4) by (simp add: word_le_nat_alt uk)
qed

lemma walk_step:
  assumes "storage_ready s" "fat_layout fd s" "fat_chain fd s xs" "k < 2 ^ 48" "c = unat (SectorsPerCluster fd)" "i < k div c" "Suc i < length xs"
  shows "walk_to_offset fd s (of_nat k) (of_nat (cluster_sector fd (xs ! i))) (of_nat (i * c)) ext
    = walk_to_offset fd s (of_nat k) (of_nat (cluster_sector fd (xs ! Suc i))) (of_nat (Suc i * c)) ext"
proof -
  note w = walk_cond [OF assms(2,4) less_imp_le [OF assms(6)] assms(5)]
  have v: "in_volume fd (xs ! i)" "in_volume fd (xs ! Suc i)" using assms(7) fat_chain_in_volume [OF assms(3)] by auto
  have "NextSectorInClusterChain fd s (of_nat (cluster_sector fd (xs ! i))) ext = Some (STATUS_SUCCESS, Some (of_nat (cluster_sector fd (xs ! Suc i))), s)"
    using NextSectorInClusterChain_follow [OF assms(1,2) v fat_chain_link [OF assms(3,7)] SPC_pos(1) [OF assms(2)], of ext] by simp
  then show ?thesis using w assms(6) by (subst walk_to_offset.simps) (simp del: mult_Suc of_nat_mult)
qed

lemma walk_to_offset_result:
  assumes "storage_ready s" "fat_layout fd s" "fat_chain fd s xs" "c = unat (SectorsPerCluster fd)" "k < length xs * c"
  shows "i \<le> k div c \<Longrightarrow> walk_to_offset fd s (of_nat k) (of_nat (cluster_sector fd (xs ! i))) (of_nat (i * c)) ext
    = Some (STATUS_SUCCESS, of_nat (cluster_sector fd (xs ! (k div c))), s)"
proof (induction "k div c - i" arbitrary: i)
  have kb: "k < 2 ^ 48" using assms(4,5) chain_sectors [OF assms(1-3)] by simp
  {
    case 0
    then have i: "i = k div c" by simp
    show ?case using walk_cond(1) [OF assms(2) kb _ assms(4), of i] unfolding i by (subst walk_to_offset.simps) simp
  next
    case (Suc n)
    have i: "i < k div c" using Suc.hyps(2) by simp
    moreover have "Suc i < length xs" using i less_mult_imp_div_less [OF assms(5)] by simp
    ultimately show ?case using walk_step [OF assms(1-3) kb assms(4)] Suc.hyps(1) [of "Suc i"] Suc.hyps(2) by simp
  }
qed

text \<open>A walk to the sector behind the last cluster ends at sector 0.\<close>

lemma walk_past_end:
  assumes "storage_ready s" "fat_layout fd s" "fat_chain fd s xs" "c = unat (SectorsPerCluster fd)"
  shows "i < length xs \<Longrightarrow> walk_to_offset fd s (of_nat (length xs * c)) (of_nat (cluster_sector fd (xs ! i))) (of_nat (i * c)) False
    = Some (STATUS_SUCCESS, 0, close_chain fd s (last xs))"
proof (induction "length xs - i" arbitrary: i rule: less_induct)
  case less
  let ?k = "length xs * c"
  note c = SPC_pos [OF assms(2), folded assms(4)]
  have kb: "?k < 2 ^ 48" using assms(4) chain_sectors [OF assms(1-3)] by simp
  have kd: "?k div c = length xs" using c(1) by simp
  show ?case
  proof (cases "Suc i < length xs")
    case True
    have "walk_to_offset fd s (of_nat ?k) (of_nat (cluster_sector fd (xs ! Suc i))) (of_nat (Suc i * c)) False
      = Some (STATUS_SUCCESS, 0, close_chain fd s (last xs))"
      by (rule less.hyps) (use True in simp_all)
    then show ?thesis using walk_step [OF assms(1-3) kb assms(4), of i False] True kd by simp
  next
    case False
    then have "i = length xs - 1" "Suc i = length xs" using less.prems by simp_all
    then have i: "xs ! i = last xs" "Suc i = length xs" using fat_chain_nonempty [OF assms(3)] by (simp_all add: last_conv_nth)
    have v: "in_volume fd (last xs)" using fat_chain_in_volume [OF assms(3)] fat_chain_nonempty [OF assms(3)] by simp
    have e: "NextSectorInClusterChain fd s (of_nat (cluster_sector fd (last xs))) False = Some (STATUS_SUCCESS, Some 0, close_chain fd s (last xs))"
      using NextSectorInClusterChain_end [OF assms(1,2) v fat_chain_last [OF assms(3)] SPC_pos(1) [OF assms(2)]] by simp
    note w = walk_cond [OF assms(2) kb _ assms(4), unfolded kd]
    have "walk_to_offset fd (close_chain fd s (last xs)) (of_nat ?k) 0 (of_nat (length xs * c)) False = Some (STATUS_SUCCESS, 0, close_chain fd s (last xs))"
      using w(1) [of "length xs"] by (subst walk_to_offset.simps) (simp del: of_nat_mult)
    then show ?thesis using e w [of i] less.prems unfolding i by (subst walk_to_offset.simps) (simp add: i(2) del: mult_Suc of_nat_mult)
  qed
qed

lemma next_position:
  assumes "0 < (c::nat)" "m = c - k mod c"
  shows "(k + m) div c = Suc (k div c)" "(k + m) mod c = 0"
proof -
  have "k mod c < c" using assms(1) by simp
  then have "k + m = c + k div c * c" using assms(2) div_mult_mod_eq [of k c] by linarith
  then have "k + m = Suc (k div c) * c" by simp
  then show "(k + m) div c = Suc (k div c)" "(k + m) mod c = 0" using assms(1) by simp_all
qed

text \<open>What both loops know after the transfer of the sectors of one cluster.\<close>

lemma cluster_step:
  assumes "storage_ready s" "fat_layout fd s" "fat_chain fd s xs" "c = unat (SectorsPerCluster fd)"
    and "0 < r" "k + r \<le> length xs * c" "m = min r (c - k mod c)"
  shows "0 < m" "k mod c + m \<le> c" "k div c < length xs" "in_volume fd (xs ! (k div c))" "m < 2 ^ 48" "r < 2 ^ 48"
    "of_nat r - of_nat m = (of_nat (r - m) :: QWORD)"
    "m < r \<Longrightarrow> NextSectorInClusterChain fd s (of_nat (cluster_sector fd (xs ! (k div c)) + k mod c)) ext
       = Some (STATUS_SUCCESS, Some (of_nat (cluster_sector fd (xs ! ((k + m) div c)) + (k + m) mod c)), s)"
    "m < r \<Longrightarrow> (of_nat (cluster_sector fd (xs ! ((k + m) div c)) + (k + m) mod c) :: QWORD) \<noteq> 0"
    "m < r \<Longrightarrow> min (ucast (SectorsPerCluster fd)) (of_nat (r - m)) = (of_nat (min (r - m) (c - (k + m) mod c)) :: QWORD)"
    "m < r \<Longrightarrow> (of_nat (r - m) :: QWORD) \<noteq> 0"
proof -
  note c = SPC_pos [OF assms(2), folded assms(4)]
  have jc: "k mod c < c" using c(1) by simp
  then show m: "0 < m" "k mod c + m \<le> c" using assms(5,7) by auto
  have "k < length xs * c" using assms(5,6) by simp
  then show il: "k div c < length xs" by (rule less_mult_imp_div_less)
  then show v: "in_volume fd (xs ! (k div c))" using fat_chain_in_volume [OF assms(3)] by simp
  have "length xs * c < 2 ^ 48" using chain_sectors [OF assms(1-3)] assms(4) by simp
  then show r: "r < 2 ^ 48" using assms(6) by linarith
  then show "m < 2 ^ 48" using assms(7) by simp
  show "of_nat r - of_nat m = (of_nat (r - m) :: QWORD)" using assms(7) by (simp add: of_nat_diff)
  assume mr: "m < r"
  then have mc: "m = c - k mod c" using assms(7) by simp
  note np = next_position [OF c(1) mc]
  have "Suc (k div c) * c = k + m" using div_mult_mod_eq [of "k + m" c] unfolding np by simp
  then have "Suc (k div c) * c < length xs * c" using mr assms(6) by linarith
  then have sl: "Suc (k div c) < length xs" by (simp only: mult_less_cancel2)
  then have v': "in_volume fd (xs ! Suc (k div c))" using fat_chain_in_volume [OF assms(3)] by simp
  show "NextSectorInClusterChain fd s (of_nat (cluster_sector fd (xs ! (k div c)) + k mod c)) ext
       = Some (STATUS_SUCCESS, Some (of_nat (cluster_sector fd (xs ! ((k + m) div c)) + (k + m) mod c)), s)"
    using NextSectorInClusterChain_follow [OF assms(1,2) v v' fat_chain_link [OF assms(3) sl]] jc assms(4) unfolding np by simp
  note b = cluster_sector_bound [OF assms(2) v']
  have "unat (of_nat (cluster_sector fd (xs ! Suc (k div c))) :: QWORD) = cluster_sector fd (xs ! Suc (k div c))"
    using b(1) assms(1) by (intro unat_of_nat_small) (auto simp: storage_ready_def)
  then show "(of_nat (cluster_sector fd (xs ! ((k + m) div c)) + (k + m) mod c) :: QWORD) \<noteq> 0"
    unfolding np using b(2,3) by (metis add.right_neutral le_trans not_numeral_le_zero unat_0)
  have rm: "unat (of_nat (r - m) :: QWORD) = r - m" using r by (simp add: unat_of_nat_small)
  then show "(of_nat (r - m) :: QWORD) \<noteq> 0" using mr by auto
  from rm have "unat (min (ucast (SectorsPerCluster fd)) (of_nat (r - m)) :: QWORD) = min (r - m) c"
    using assms(4) by (auto simp: min_def word_le_nat_alt)
  then show "min (ucast (SectorsPerCluster fd)) (of_nat (r - m)) = (of_nat (min (r - m) (c - (k + m) mod c)) :: QWORD)"
    unfolding np by (auto intro: of_nat_unat_eq)
qed

lemma buffer_join:
  assumes "m < r" "pos + r * 512 \<le> length B" "length X = (k + m) * 512 - k * 512"
  shows "take (pos + m * 512) (take pos B @ X @ drop (pos + m * 512) B) @ Y @ drop (pos + m * 512 + (r - m) * 512) (take pos B @ X @ drop (pos + m * 512) B)
    = take pos B @ (X @ Y) @ drop (pos + r * 512) B"
proof -
  let ?B = "take pos B @ X @ drop (pos + m * 512) B"
  have p: "pos \<le> length B" "length X = m * 512" using assms by auto
  have e: "pos + m * 512 + (r - m) * 512 = pos + r * 512" using assms(1) by (simp add: diff_mult_distrib)
  have "drop (pos + m * 512) ?B = drop (pos + m * 512) B" using p by simp
  then have "drop (pos + r * 512) ?B = drop (pos + r * 512) B" using e by (metis add.commute drop_drop)
  then show ?thesis unfolding e using p by simp
qed

lemma map_run_join:
  assumes "m < r"
  shows "map f [k * 512 ..< (k + m) * 512] @ map f [(k + m) * 512 ..< (k + m + (r - m)) * 512] = map f [k * 512 ..< (k + r) * 512]"
proof -
  have e: "(k + m) * 512 + (r - m) * 512 = (k + r) * 512" "(k + m + (r - m)) * 512 = (k + r) * 512"
    using assms by (simp_all add: diff_mult_distrib)
  have "k * 512 \<le> (k + m) * 512" by simp
  from upt_add_eq_append [OF this, of "(r - m) * 512", unfolded e]
  show ?thesis unfolding e(2) map_append [symmetric] by (rule arg_cong [OF sym])
qed

text \<open>One round of each loop that is not the last.\<close>

lemma read_sectors_more:
  assumes "fat_layout fd s" "IoReadDevice s (drop pos B) (sz * 512) (cur * 512) = Some (STATUS_SUCCESS, sz * 512, dat, s)"
    "rest - sz = rest'" "rest' \<noteq> 0" "NextSectorInClusterChain fd s cur False = Some (STATUS_SUCCESS, Some nxt, s)" "nxt \<noteq> 0"
  shows "read_sectors fd s B pos cur sz rest
    = read_sectors fd s (take pos B @ dat) (pos + unat (sz * 512)) nxt (min (ucast (SectorsPerCluster fd)) rest') rest'"
  using assms by (subst read_sectors.simps) (simp add: Let_def fat_layoutD(1))

lemma read_sectors_last:
  assumes "fat_layout fd s" "IoReadDevice s (drop pos B) (sz * 512) (cur * 512) = Some (STATUS_SUCCESS, sz * 512, dat, s)"
  shows "read_sectors fd s B pos cur sz sz = Some (STATUS_SUCCESS, 0, take pos B @ dat, s)"
  using assms by (subst read_sectors.simps) (simp add: Let_def fat_layoutD(1))

lemma read_sectors_result:
  assumes "storage_ready s" "fat_layout fd s" "fat_chain fd s xs" "c = unat (SectorsPerCluster fd)"
  shows "0 < r \<Longrightarrow> k + r \<le> length xs * c \<Longrightarrow> pos + r * 512 \<le> length B \<Longrightarrow>
    read_sectors fd s B pos (of_nat (cluster_sector fd (xs ! (k div c)) + k mod c)) (of_nat (min r (c - k mod c))) (of_nat r)
    = Some (STATUS_SUCCESS, 0, take pos B @ map (file_byte fd s xs) [k * 512 ..< (k + r) * 512] @ drop (pos + r * 512) B, s)"
proof (induction r arbitrary: k pos B rule: less_induct)
  case (less r)
  define m where "m = min r (c - k mod c)"
  let ?i = "k div c" and ?j = "k mod c"
  note st = cluster_step [OF assms less.prems(1,2) m_def]
  note run = run_in_cluster [OF assms(1,2) st(4,1) st(2) [unfolded assms(4)], folded assms(4)]
  have mr: "m \<le> r" by (simp add: m_def)
  have fr: "vol_range s (cluster_start fd (xs ! ?i) + ?j * 512) (m * 512) = map (file_byte fd s xs) [k * 512 ..< (k + m) * 512]"
    using file_run [of ?j m fd s xs ?i, folded assms(4)] st(2) by simp
  have io: "IoReadDevice s (drop pos B) (of_nat m * 512) (of_nat (cluster_sector fd (xs ! ?i) + ?j) * 512)
    = Some (STATUS_SUCCESS, of_nat m * 512, map (file_byte fd s xs) [k * 512 ..< (k + m) * 512] @ drop (pos + m * 512) B, s)"
    using IoReadDevice_ok [OF assms(1) run(3), of "drop pos B"] less.prems(3) mr unfolding run(1,2) fr by (simp add: add.commute)
  let ?B = "take pos B @ map (file_byte fd s xs) [k * 512 ..< (k + m) * 512] @ drop (pos + m * 512) B"
  show ?case
  proof (cases "m = r")
    case True
    then show ?thesis using read_sectors_last [OF assms(2) io] unfolding m_def [symmetric] by simp
  next
    case False
    then have lt: "m < r" using mr by simp
    have "read_sectors fd s ?B (pos + m * 512) (of_nat (cluster_sector fd (xs ! ((k + m) div c)) + (k + m) mod c))
        (of_nat (min (r - m) (c - (k + m) mod c))) (of_nat (r - m))
      = Some (STATUS_SUCCESS, 0, take (pos + m * 512) ?B @ map (file_byte fd s xs) [(k + m) * 512 ..< (k + m + (r - m)) * 512]
          @ drop (pos + m * 512 + (r - m) * 512) ?B, s)"
      by (rule less.IH) (use st(1) lt less.prems in auto)
    then have IH: "read_sectors fd s ?B (pos + m * 512) (of_nat (cluster_sector fd (xs ! ((k + m) div c)) + (k + m) mod c))
        (of_nat (min (r - m) (c - (k + m) mod c))) (of_nat (r - m))
      = Some (STATUS_SUCCESS, 0, take pos B @ map (file_byte fd s xs) [k * 512 ..< (k + r) * 512] @ drop (pos + r * 512) B, s)"
      using buffer_join [OF lt less.prems(3)] by (simp only: length_map length_upt map_run_join [OF lt])
    show ?thesis unfolding m_def [symmetric]
        read_sectors_more [OF assms(2) io st(7) st(11) [OF lt] st(8) [OF lt] st(9) [OF lt]] run(2) st(10) [OF lt] by (rule IH)
  qed
qed

section \<open>Writing the bytes of a file\<close>

lemma cluster_disjoint:
  assumes "2 \<le> c" "2 \<le> d" "c \<noteq> d"
  shows "cluster_start fd c + cluster_size fd \<le> cluster_start fd d \<or> cluster_start fd d + cluster_size fd \<le> cluster_start fd c"
proof -
  have "cluster_start fd a + cluster_size fd \<le> cluster_start fd b" if "2 \<le> a" "a < b" for a b
  proof -
    have "(a - 2 + 1) * unat (SectorsPerCluster fd) \<le> (b - 2) * unat (SectorsPerCluster fd)" using that by (intro mult_right_mono) auto
    then show ?thesis by (simp add: cluster_start_def algebra_simps)
  qed
  then show ?thesis using assms by (metis linorder_neqE_nat)
qed

text \<open>The table of two volumes with the same bytes in front of the data is the same.\<close>

definition same_front :: "FAT_DATA \<Rightarrow> STORAGE \<Rightarrow> STORAGE \<Rightarrow> bool" where
  "same_front fd s t \<longleftrightarrow> (\<forall>p < unat (FirstDataSector fd) * 512. vol t p = vol s p)"

lemma same_front_dword:
  "same_front fd s t \<Longrightarrow> p + 4 \<le> unat (FirstDataSector fd) * 512 \<Longrightarrow> vol_dword t p = vol_dword s p"
  by (simp add: same_front_def vol_dword_def)

lemma same_front_link:
  assumes "same_front fd s t" "fat_layout fd s" "in_volume fd c"
  shows "fat_link fd t c = fat_link fd s c"
proof -
  have "c * 4 + 4 \<le> (unat (CountOfClusters fd) + 2) * 4" using assms(3) by (simp add: in_volume_def)
  then have "unat (ReservedSectors fd) * 512 + c * 4 + 4 \<le> unat (FirstDataSector fd) * 512" using assms(2) by (simp add: fat_layout_def)
  then show ?thesis using same_front_dword [OF assms(1)] by (simp add: fat_link_def fat_entry_def)
qed

lemma same_front_chain:
  assumes "same_front fd s t" "fat_layout fd s" "fat_chain fd s xs"
  shows "fat_chain fd t xs"
  using fat_chain_cong [of xs fd t s] same_front_link [OF assms(1,2)] fat_chain_in_volume [OF assms(3)] assms(3) by blast

text \<open>\<open>t\<close> is \<open>s\<close> with the bytes \<open>D\<close> written into the file \<open>xs\<close> from byte \<open>a\<close> on.\<close>

definition file_written :: "FAT_DATA \<Rightarrow> nat list \<Rightarrow> STORAGE \<Rightarrow> nat \<Rightarrow> BYTE list \<Rightarrow> STORAGE \<Rightarrow> bool" where
  "file_written fd xs s a D t \<longleftrightarrow> storage_ready t \<and> fat_layout fd t \<and> same_front fd s t
     \<and> (\<forall>d. in_volume fd d \<and> d \<notin> set xs \<longrightarrow> cluster_bytes fd t d = cluster_bytes fd s d)
     \<and> (\<forall>p < length xs * cluster_size fd. file_byte fd t xs p = (if a \<le> p \<and> p < a + length D then D ! (p - a) else file_byte fd s xs p))"

lemma file_written_append:
  assumes "file_written fd xs s a D t" "file_written fd xs t b E u" "b = a + length D"
  shows "file_written fd xs s a (D @ E) u"
  using assms unfolding file_written_def same_front_def by (auto simp: nth_append)

lemma run_written:
  assumes "storage_ready s" "fat_layout fd s" "distinct xs" "\<And>c. c \<in> set xs \<Longrightarrow> in_volume fd c" "i < length xs"
    and "j * 512 + length D \<le> cluster_size fd"
  shows "file_written fd xs s (i * cluster_size fd + j * 512) D (vol_write s (cluster_start fd (xs ! i) + j * 512) D)"
proof -
  let ?w = "cluster_start fd (xs ! i) + j * 512"
  have xi: "in_volume fd (xs ! i)" using assms(4,5) by simp
  have front: "same_front fd s (vol_write s ?w D)"
    using cluster_sector_bound(2) [OF assms(2) xi] by (simp add: same_front_def cluster_start_sector)
  have dis: "cluster_start fd (xs ! i) + cluster_size fd \<le> cluster_start fd d \<or> cluster_start fd d + cluster_size fd \<le> cluster_start fd (xs ! i)"
    if "in_volume fd d" "d \<noteq> xs ! i" for d
    using cluster_disjoint [of "xs ! i" d fd] that xi by (auto simp: in_volume_def)
  have other: "vol (vol_write s ?w D) (cluster_start fd d + q) = vol s (cluster_start fd d + q)"
    if "in_volume fd d" "d \<noteq> xs ! i" "q < cluster_size fd" for d q
    using dis [OF that(1,2)] that(3) assms(6) by auto
  have "cluster_bytes fd (vol_write s ?w D) d = cluster_bytes fd s d" if "in_volume fd d" "d \<notin> set xs" for d
  proof -
    have "d \<noteq> xs ! i" using that(2) assms(5) by auto
    then show ?thesis using other [OF that(1)] by (intro nth_equalityI) (simp_all add: cluster_bytes_def del: vol_vol_write)
  qed
  moreover have "file_byte fd (vol_write s ?w D) xs p
      = (if i * cluster_size fd + j * 512 \<le> p \<and> p < i * cluster_size fd + j * 512 + length D then D ! (p - (i * cluster_size fd + j * 512)) else file_byte fd s xs p)"
    if p: "p < length xs * cluster_size fd" for p
  proof -
    define k q where "k = p div cluster_size fd" and "q = p mod cluster_size fd"
    have cs: "0 < cluster_size fd" using SPC_pos(1) [OF assms(2)] by simp
    have kq: "p = k * cluster_size fd + q" "q < cluster_size fd" "k < length xs"
      unfolding k_def q_def using cs less_mult_imp_div_less [OF p] by (simp_all only: div_mult_mod_eq mod_less_divisor)
    have fb: "file_byte fd t xs p = vol t (cluster_start fd (xs ! k) + q)" for t by (simp add: file_byte_def k_def q_def)
    show ?thesis
    proof (cases "k = i")
      case True
      then show ?thesis unfolding fb using kq(1) by auto
    next
      case False
      have "xs ! k \<noteq> xs ! i" using False assms(3,5) kq(3) by (simp add: nth_eq_iff_index_eq)
      moreover have "p < i * cluster_size fd \<or> i * cluster_size fd + cluster_size fd \<le> p"
      proof (cases "k < i")
        case True
        then have "(k + 1) * cluster_size fd \<le> i * cluster_size fd" by (intro mult_right_mono) auto
        then show ?thesis using kq(1,2) by simp
      next
        case 2: False
        then have "(i + 1) * cluster_size fd \<le> k * cluster_size fd" using False by (intro mult_right_mono) auto
        then show ?thesis using kq(1) by simp
      qed
      ultimately show ?thesis unfolding fb using other [of "xs ! k" q] kq(2,3) assms(4,6) by auto
    qed
  qed
  ultimately show ?thesis using assms(1,2) front by (simp add: file_written_def)
qed

lemma write_sectors_more:
  assumes "fat_layout fd s" "IoWriteDevice s (drop pos B) (sz * 512) (cur * 512) = Some (STATUS_SUCCESS, sz * 512, dat, t)"
    "rest - sz = rest'" "rest' \<noteq> 0" "NextSectorInClusterChain fd t cur True = Some (STATUS_SUCCESS, Some nxt, u)"
  shows "write_sectors fd s B pos cur sz rest
    = write_sectors fd u B (pos + unat (sz * 512)) nxt (min (ucast (SectorsPerCluster fd)) rest') rest'"
  using assms by (subst write_sectors.simps) (simp add: Let_def fat_layoutD(1))

lemma write_sectors_last:
  assumes "fat_layout fd s" "IoWriteDevice s (drop pos B) (sz * 512) (cur * 512) = Some (STATUS_SUCCESS, sz * 512, dat, t)"
  shows "write_sectors fd s B pos cur sz sz = Some (STATUS_SUCCESS, t)"
  using assms by (subst write_sectors.simps) (simp add: Let_def fat_layoutD(1))

lemma write_sectors_result:
  assumes "c = unat (SectorsPerCluster fd)"
  shows "storage_ready s \<Longrightarrow> fat_layout fd s \<Longrightarrow> fat_chain fd s xs \<Longrightarrow> 0 < r \<Longrightarrow> k + r \<le> length xs * c \<Longrightarrow> pos + r * 512 \<le> length B \<Longrightarrow>
    \<exists>t. write_sectors fd s B pos (of_nat (cluster_sector fd (xs ! (k div c)) + k mod c)) (of_nat (min r (c - k mod c))) (of_nat r)
      = Some (STATUS_SUCCESS, t) \<and> file_written fd xs s (k * 512) (take (r * 512) (drop pos B)) t"
proof (induction r arbitrary: s k pos rule: less_induct)
  case (less r)
  define m where "m = min r (c - k mod c)"
  let ?i = "k div c" and ?j = "k mod c"
  note pr = less.prems
  note st = cluster_step [OF pr(1-3) assms pr(4,5) m_def]
  note run = run_in_cluster [OF pr(1,2) st(4,1) st(2) [unfolded assms], folded assms]
  have mr: "m \<le> r" by (simp add: m_def)
  define D where "D = take (m * 512) (drop pos B)"
  define t where "t = vol_write s (cluster_start fd (xs ! ?i) + ?j * 512) D"
  have lD: "length D = m * 512" using pr(6) mr by (simp add: D_def)
  have io: "IoWriteDevice s (drop pos B) (of_nat m * 512) (of_nat (cluster_sector fd (xs ! ?i) + ?j) * 512)
    = Some (STATUS_SUCCESS, of_nat m * 512, drop pos B, t)"
    using IoWriteDevice_ok [OF pr(1) run(3), of "drop pos B"] pr(6) mr unfolding run(1,2) t_def D_def by simp
  have jm: "?j * 512 + length D \<le> cluster_size fd" using st(2) lD unfolding assms by simp
  have ki: "?i * cluster_size fd + ?j * 512 = k * 512"
    using div_mult_mod_eq [of k c] unfolding assms [symmetric] by (metis distrib_right mult.assoc)
  have w: "file_written fd xs s (k * 512) D t"
    using run_written [OF pr(1,2) fat_chain_distinct [OF pr(2,3)] _ st(3) jm] fat_chain_in_volume [OF pr(3)] unfolding ki t_def by blast
  then have tw: "storage_ready t" "fat_layout fd t" "fat_chain fd t xs"
    using same_front_chain [OF _ pr(2,3)] by (auto simp: file_written_def)
  show ?case
  proof (cases "m = r")
    case True
    then show ?thesis using write_sectors_last [OF pr(2) io] w unfolding m_def [symmetric] D_def by auto
  next
    case False
    then have lt: "m < r" using mr by simp
    note st' = cluster_step [OF tw assms pr(4,5) m_def]
    have "\<exists>u. write_sectors fd t B (pos + m * 512) (of_nat (cluster_sector fd (xs ! ((k + m) div c)) + (k + m) mod c))
        (of_nat (min (r - m) (c - (k + m) mod c))) (of_nat (r - m)) = Some (STATUS_SUCCESS, u)
      \<and> file_written fd xs t ((k + m) * 512) (take ((r - m) * 512) (drop (pos + m * 512) B)) u"
      by (rule less.IH) (use tw st(1) lt pr in auto)
    then obtain u where u: "write_sectors fd t B (pos + m * 512) (of_nat (cluster_sector fd (xs ! ((k + m) div c)) + (k + m) mod c))
        (of_nat (min (r - m) (c - (k + m) mod c))) (of_nat (r - m)) = Some (STATUS_SUCCESS, u)"
      "file_written fd xs t ((k + m) * 512) (take ((r - m) * 512) (drop (pos + m * 512) B)) u" by blast
    have "D @ take ((r - m) * 512) (drop (pos + m * 512) B) = take (r * 512) (drop pos B)"
    proof -
      have "r * 512 = m * 512 + (r - m) * 512" using lt by (simp add: diff_mult_distrib)
      then show ?thesis unfolding D_def by (simp only: take_add drop_drop add.commute)
    qed
    then have "file_written fd xs s (k * 512) (take (r * 512) (drop pos B)) u"
      using file_written_append [OF w u(2)] lD by simp
    moreover have "write_sectors fd s B pos (of_nat (cluster_sector fd (xs ! ?i) + ?j)) (of_nat m) (of_nat r) = Some (STATUS_SUCCESS, u)"
      unfolding write_sectors_more [OF pr(2) io st(7) st(11) [OF lt] st'(8) [OF lt]] run(2) st(10) [OF lt] by (rule u(1))
    ultimately show ?thesis unfolding m_def [symmetric] by blast
  qed
qed

section \<open>The entry of a file in its directory\<close>

text \<open>The entry at index \<open>i\<close> of a cluster of a directory is in use, is no part of a long name and starts at cluster \<open>c\<close>.\<close>

definition entry_matches :: "BYTE list \<Rightarrow> nat \<Rightarrow> nat \<Rightarrow> bool" where
  "entry_matches b c i \<longleftrightarrow> b ! (i * 32) \<noteq> FREE_ENTRY \<and> b ! (i * 32) \<noteq> FREE_JAP_ENTRY
     \<and> b ! (i * 32 + DIR_Attr) AND ATTR_LONG_NAME_MASK \<noteq> ATTR_LONG_NAME
     \<and> of_nat c = WORDS_TO_DWORD (ucast (b ! (i * 32 + 0x14)) OR push_bit 8 (ucast (b ! (i * 32 + 0x15))))
          (ucast (b ! (i * 32 + 0x1A)) OR push_bit 8 (ucast (b ! (i * 32 + 0x1B))))"

lemma find_dir_entry_result:
  assumes "length b = n * 32" "n < 2 ^ 32" "c < 2 ^ 32"
  shows "i \<le> n \<Longrightarrow> find_dir_entry b (of_nat c) (of_nat i) (of_nat n) = Some (map_option of_nat (find (entry_matches b c) [i..<n]))"
proof (induction "n - i" arbitrary: i)
  case 0
  then show ?case by (subst find_dir_entry.simps) simp
next
  case (Suc m)
  then have i: "i < n" by simp
  have u: "unat (of_nat i :: QWORD) = i" "unat (of_nat n :: QWORD) = n" using i assms(2) by (simp_all add: unat_of_nat_small)
  have lt: "(of_nat i :: QWORD) < of_nat n" using i u by (simp only: word_less_nat_alt)
  have p: "i * 32 + 32 \<le> length b" using assms(1) i by simp
  have w: "get_word b (i * 32 + 0x14) = Some (ucast (b ! (i * 32 + 0x14)) OR push_bit 8 (ucast (b ! (i * 32 + 0x15))))"
    "get_word b (i * 32 + 0x1A) = Some (ucast (b ! (i * 32 + 0x1A)) OR push_bit 8 (ucast (b ! (i * 32 + 0x1B))))"
    using p by (simp_all add: get_word_def add.commute)
  have eq: "(of_nat c :: QWORD) = ucast x \<longleftrightarrow> of_nat c = x" for x :: DWORD
  proof -
    have "unat (of_nat c :: QWORD) = c" "unat (of_nat c :: DWORD) = c" using assms(3) by (simp_all add: unat_of_nat_small)
    then show ?thesis by (metis unat_ucast_up word_unat_eq_iff)
  qed
  have IH: "find_dir_entry b (of_nat c) (of_nat i + 1) (of_nat n) = Some (map_option of_nat (find (entry_matches b c) [Suc i..<n]))"
    using Suc.hyps(1) [of "Suc i"] Suc.hyps(2) i by (simp add: add.commute)
  show ?case using lt u p w eq IH
    by (subst find_dir_entry.simps)
      (auto simp: Let_def sizeof_DIR_ENTRY_def DIR_FstClusHI_def DIR_FstClusLO_def entry_matches_def upt_conv_Cons [OF i])
qed

text \<open>The bytes of an entry that \<open>entry_matches\<close> looks at.\<close>

definition entry_keys :: "nat set" where "entry_keys = {0, 0x0B, 0x14, 0x15, 0x1A, 0x1B}"

lemma entry_keys_less: "k \<in> entry_keys \<Longrightarrow> k < 32"
  by (auto simp: entry_keys_def)

definition same_keys :: "BYTE list \<Rightarrow> BYTE list \<Rightarrow> bool" where
  "same_keys b b' \<longleftrightarrow> length b' = length b \<and> (\<forall>i k. i * 32 + 32 \<le> length b \<and> k \<in> entry_keys \<longrightarrow> b' ! (i * 32 + k) = b ! (i * 32 + k))"

lemma same_keys_matches: "same_keys b b' \<Longrightarrow> i * 32 + 32 \<le> length b \<Longrightarrow> entry_matches b' c i = entry_matches b c i"
  unfolding entry_matches_def same_keys_def DIR_Attr_def entry_keys_def
  by (metis (no_types, lifting) add.right_neutral insertCI)

lemma same_keys_find:
  assumes "same_keys b b'" "length b = n * 32"
  shows "find (entry_matches b' c) [0..<n] = find (entry_matches b c) [0..<n]"
  by (rule find_cong) (use assms same_keys_matches in auto)

lemma put_bytes_nth:
  assumes "i + length x \<le> length b"
  shows "\<exists>b'. put_bytes b i x = Some b' \<and> length b' = length b \<and> (\<forall>k. k < length b \<longrightarrow> b' ! k = (if i \<le> k \<and> k < i + length x then x ! (k - i) else b ! k))"
  using assms by (auto simp: put_bytes_def nth_append)

text \<open>An update of an entry that changes only the bytes of an interval.\<close>

lemma put_word_nth:
  "i + 2 \<le> length b \<Longrightarrow> \<exists>b'. put_word b i w = Some b' \<and> length b' = length b \<and> (\<forall>k < length b. k < i \<or> i + 2 \<le> k \<longrightarrow> b' ! k = b ! k)"
  using put_bytes_nth [of i "[ucast w, ucast (drop_bit 8 w)]" b] by (auto simp: put_word_def)

lemma put_dword_nth:
  "i + 4 \<le> length b \<Longrightarrow> \<exists>b'. put_dword b i w = Some b' \<and> length b' = length b \<and> (\<forall>k < length b. k < i \<or> i + 4 \<le> k \<longrightarrow> b' ! k = b ! k)"
  using put_bytes_nth [of i "[ucast w, ucast (drop_bit 8 w), ucast (drop_bit 16 w), ucast (drop_bit 24 w)]" b] by (auto simp: put_dword_def)

lemma dir_cluster_io:
  assumes "storage_ready s" "fat_layout fd s" "in_volume fd d"
  defines "csz \<equiv> BytesPerSector fd * SectorsPerCluster fd"
  shows "unat csz = cluster_size fd" "of_nat (cluster_sector fd d) * ucast (BytesPerSector fd) = (of_nat (cluster_sector fd d) * 512 :: QWORD)"
    "unat (of_nat (cluster_sector fd d) * 512 :: QWORD) = cluster_start fd d"
    "io_range s (of_nat (cluster_sector fd d) * 512) (ucast csz)"
    "IoReadDevice s (zeros csz) (ucast csz) (of_nat (cluster_sector fd d) * 512) = Some (STATUS_SUCCESS, ucast csz, cluster_bytes fd s d, s)"
    "ucast csz div of_nat sizeof_DIR_ENTRY = (of_nat (unat (SectorsPerCluster fd) * 16) :: QWORD)"
proof -
  note c = SPC_pos [OF assms(2)]
  have b: "BytesPerSector fd = 512" using assms(2) by (simp add: fat_layout_def)
  show u: "unat csz = cluster_size fd" using c(2) unfolding csz_def b by (simp add: unat_word_ariths(2))
  show "of_nat (cluster_sector fd d) * ucast (BytesPerSector fd) = (of_nat (cluster_sector fd d) * 512 :: QWORD)"
    using fat_layoutD(1) [OF assms(2)] by simp
  note r = run_in_cluster [OF assms(1-3) c(1), of 0, simplified]
  show o: "unat (of_nat (cluster_sector fd d) * 512 :: QWORD) = cluster_start fd d" using r(1) by simp
  have "unat (of_nat (unat (SectorsPerCluster fd)) * 512 :: QWORD) = unat (ucast csz :: QWORD)" using r(2) u by simp
  then have sz: "(of_nat (unat (SectorsPerCluster fd)) * 512 :: QWORD) = ucast csz" by (simp only: word_unat_eq_iff)
  show io: "io_range s (of_nat (cluster_sector fd d) * 512) (ucast csz)" using r(3) unfolding sz [symmetric] by simp
  show "IoReadDevice s (zeros csz) (ucast csz) (of_nat (cluster_sector fd d) * 512) = Some (STATUS_SUCCESS, ucast csz, cluster_bytes fd s d, s)"
    using IoReadDevice_ok [OF assms(1) io, of "zeros csz"] u o by (simp add: zeros_def cluster_bytes_def)
  have "unat (ucast csz div of_nat sizeof_DIR_ENTRY :: QWORD) = unat (SectorsPerCluster fd) * 16"
    using u by (simp add: unat_div sizeof_DIR_ENTRY_def)
  then show "ucast csz div of_nat sizeof_DIR_ENTRY = (of_nat (unat (SectorsPerCluster fd) * 16) :: QWORD)" by (rule of_nat_unat_eq)
qed

text \<open>The entry of the file that starts at cluster \<open>c\<close> is entry \<open>e\<close> of cluster \<open>d\<close>, and no earlier entry of it starts there.\<close>

definition entry_of :: "FAT_DATA \<Rightarrow> STORAGE \<Rightarrow> nat \<Rightarrow> nat \<Rightarrow> nat \<Rightarrow> bool" where
  "entry_of fd s d c e \<longleftrightarrow> find (entry_matches (cluster_bytes fd s d) c) [0..<unat (SectorsPerCluster fd) * 16] = Some e"

definition entry_bytes :: "FAT_DATA \<Rightarrow> STORAGE \<Rightarrow> nat \<Rightarrow> nat \<Rightarrow> BYTE list" where
  "entry_bytes fd s d e = vol_range s (cluster_start fd d + e * 32) 32"

lemma entry_of_bound: "entry_of fd s d c e \<Longrightarrow> e * 32 + 32 \<le> cluster_size fd"
  by (auto simp: entry_of_def find_Some_iff)

lemma GetDirEntryFromSector_result:
  assumes "storage_ready s" "fat_layout fd s" "in_volume fd d" "in_volume fd c" "entry_of fd s d c e"
  shows "GetDirEntryFromSector fd s (of_nat (cluster_sector fd d)) (of_nat (cluster_sector fd c))
    = Some (STATUS_SUCCESS, Some (of_nat e), Some (entry_bytes fd s d e), s)"
proof -
  note io = dir_cluster_io [OF assms(1-3)]
  have c: "c < 2 ^ 32" using assms(2,4) by (simp add: in_volume_def fat_layout_def)
  have n: "unat (SectorsPerCluster fd) * 16 < 2 ^ 32" using SPC_pos(2) [OF assms(2)] by simp
  have "find_dir_entry (cluster_bytes fd s d) (of_nat c) (of_nat 0) (of_nat (unat (SectorsPerCluster fd) * 16)) = Some (Some (of_nat e))"
    using find_dir_entry_result [of "cluster_bytes fd s d" _ c 0, OF _ n c] assms(5) by (simp add: entry_of_def cluster_bytes_def)
  moreover have "unat (of_nat e :: QWORD) = e" using entry_of_bound [OF assms(5)] SPC_pos(2) [OF assms(2)] by (simp add: unat_of_nat_small)
  moreover have "take 32 (drop (e * 32) (cluster_bytes fd s d)) = entry_bytes fd s d e"
    using entry_of_bound [OF assms(5)] by (intro nth_equalityI) (simp_all add: cluster_bytes_def entry_bytes_def add.assoc)
  moreover have "ClusterOfSector fd (of_nat (cluster_sector fd c)) = Some (STATUS_SUCCESS, of_nat c)"
    using ClusterOfSector_result [OF assms(1,2,4) SPC_pos(1) [OF assms(2)]] by simp
  ultimately show ?thesis using assms(1) io
    by (simp add: GetDirEntryFromSector_def Let_def sizeof_DIR_ENTRY_def del: of_nat_mult)
qed

lemma WriteDirEntryToSector_result:
  assumes "storage_ready s" "fat_layout fd s" "in_volume fd d" "e * 32 + 32 \<le> cluster_size fd" "length E = 32"
  shows "WriteDirEntryToSector fd s (of_nat (cluster_sector fd d)) (of_nat e) E
    = Some (STATUS_SUCCESS, vol_write s (cluster_start fd d + e * 32) E)"
proof -
  note io = dir_cluster_io [OF assms(1-3)]
  have e: "unat (of_nat e :: QWORD) = e" using assms(4) SPC_pos(2) [OF assms(2)] by (simp add: unat_of_nat_small)
  define b where "b = take (e * 32) (cluster_bytes fd s d) @ E @ drop (e * 32 + 32) (cluster_bytes fd s d)"
  have p: "put_bytes (cluster_bytes fd s d) (e * 32) E = Some b" "length b = cluster_size fd"
    using assms(4,5) by (simp_all add: b_def put_bytes_def cluster_bytes_def)
  have "vol_write s (cluster_start fd d) b = vol_write s (cluster_start fd d + e * 32) E"
    using vol_write_put [of "e * 32" E "cluster_size fd" s "cluster_start fd d"] assms(4,5) by (simp add: b_def cluster_bytes_def)
  then have "IoWriteDevice s b (ucast (BytesPerSector fd * SectorsPerCluster fd)) (of_nat (cluster_sector fd d) * 512)
      = Some (STATUS_SUCCESS, ucast (BytesPerSector fd * SectorsPerCluster fd), b, vol_write s (cluster_start fd d + e * 32) E)"
    using IoWriteDevice_ok [OF assms(1) io(4), of b] io(1,3) p(2) by simp
  then show ?thesis using assms(1) io p(1) e by (simp add: WriteDirEntryToSector_def Let_def sizeof_DIR_ENTRY_def)
qed

text \<open>\<open>t\<close> is \<open>s\<close> with one entry of the directory cluster \<open>d\<close> updated, but for the bytes that identify it.\<close>

definition dir_touched :: "FAT_DATA \<Rightarrow> nat \<Rightarrow> STORAGE \<Rightarrow> STORAGE \<Rightarrow> bool" where
  "dir_touched fd d s t \<longleftrightarrow> storage_ready t \<and> fat_layout fd t \<and> same_front fd s t
     \<and> (\<forall>c. in_volume fd c \<and> c \<noteq> d \<longrightarrow> cluster_bytes fd t c = cluster_bytes fd s c)
     \<and> same_keys (cluster_bytes fd s d) (cluster_bytes fd t d)"

lemma entry_written:
  assumes "storage_ready s" "fat_layout fd s" "in_volume fd d" "e * 32 + 32 \<le> cluster_size fd" "length E = 32"
    and "\<And>k. k \<in> entry_keys \<Longrightarrow> E ! k = entry_bytes fd s d e ! k"
  shows "dir_touched fd d s (vol_write s (cluster_start fd d + e * 32) E)"
proof -
  let ?t = "vol_write s (cluster_start fd d + e * 32) E"
  have front: "same_front fd s ?t"
    using cluster_sector_bound(2) [OF assms(2,3)] by (simp add: same_front_def cluster_start_sector)
  have "cluster_bytes fd ?t c = cluster_bytes fd s c" if "in_volume fd c" "c \<noteq> d" for c
    using cluster_disjoint [of c d fd] that assms(3-5)
    by (intro nth_equalityI) (auto simp: cluster_bytes_def in_volume_def)
  moreover have "vol ?t (cluster_start fd d + (i * 32 + k)) = vol s (cluster_start fd d + (i * 32 + k))"
    if "k \<in> entry_keys" for i k
  proof (cases "i = e")
    case True
    have k: "k < 32" using that by (rule entry_keys_less)
    have "vol ?t (cluster_start fd d + (i * 32 + k)) = E ! k" using True k assms(5) by simp
    also have "\<dots> = vol s (cluster_start fd d + (i * 32 + k))" using assms(6) [OF that] k True by (simp add: entry_bytes_def add.assoc)
    finally show ?thesis .
  next
    case False
    then have "i * 32 + 32 \<le> e * 32 \<or> e * 32 + 32 \<le> i * 32" by arith
    moreover have "k < 32" using that by (rule entry_keys_less)
    ultimately show ?thesis using assms(5) by auto
  qed
  then have "same_keys (cluster_bytes fd s d) (cluster_bytes fd ?t d)"
    unfolding same_keys_def using entry_keys_less by (fastforce simp: cluster_bytes_def simp del: vol_vol_write)
  ultimately show ?thesis using assms(1,2) front by (simp add: dir_touched_def)
qed

lemma access_date_entry:
  assumes "length E = 32"
  shows "\<exists>E'. put_word E DIR_LstAccDate w = Some E' \<and> length E' = 32 \<and> (\<forall>k \<in> entry_keys. E' ! k = E ! k)"
  using put_word_nth [of DIR_LstAccDate E w] assms by (auto simp: DIR_LstAccDate_def entry_keys_def)

lemma written_entry:
  assumes "length E = 32" "get_dword E DIR_FileSize = Some n"
  shows "\<exists>E0 E1 E2 E3. (if w > n then put_dword E DIR_FileSize w else Some E) = Some E0 \<and> put_word E0 DIR_LstAccDate x = Some E1
    \<and> put_word E1 DIR_WrtDate x = Some E2 \<and> put_word E2 DIR_WrtTime y = Some E3 \<and> length E3 = 32
    \<and> get_dword E3 DIR_FileSize = Some (max n w) \<and> (\<forall>k \<in> entry_keys. E3 ! k = E ! k)"
proof -
  have "\<exists>E0. (if w > n then put_dword E DIR_FileSize w else Some E) = Some E0 \<and> length E0 = 32
    \<and> get_dword E0 DIR_FileSize = Some (max n w) \<and> (\<forall>k < 0x1C. E0 ! k = E ! k)"
    using put_dword_Some [of DIR_FileSize E w] put_dword_nth [of DIR_FileSize E w] assms by (auto simp: DIR_FileSize_def max_def)
  then obtain E0 where E0: "(if w > n then put_dword E DIR_FileSize w else Some E) = Some E0" "length E0 = 32"
    "get_dword E0 DIR_FileSize = Some (max n w)" "\<forall>k < 0x1C. E0 ! k = E ! k" by blast
  obtain E1 where E1: "put_word E0 DIR_LstAccDate x = Some E1" "length E1 = 32" "\<forall>k < 32. k < 0x12 \<or> 0x14 \<le> k \<longrightarrow> E1 ! k = E0 ! k"
    using put_word_nth [of DIR_LstAccDate E0 x] E0(2) by (auto simp: DIR_LstAccDate_def)
  obtain E2 where E2: "put_word E1 DIR_WrtDate x = Some E2" "length E2 = 32" "\<forall>k < 32. k < 0x18 \<or> 0x1A \<le> k \<longrightarrow> E2 ! k = E1 ! k"
    using put_word_nth [of DIR_WrtDate E1 x] E1(2) by (auto simp: DIR_WrtDate_def)
  obtain E3 where E3: "put_word E2 DIR_WrtTime y = Some E3" "length E3 = 32" "\<forall>k < 32. k < 0x16 \<or> 0x18 \<le> k \<longrightarrow> E3 ! k = E2 ! k"
    using put_word_nth [of DIR_WrtTime E2 y] E2(2) by (auto simp: DIR_WrtTime_def)
  have "get_dword E3 DIR_FileSize = get_dword E0 DIR_FileSize"
    using E0(2) E1(2,3) E2(2,3) E3(2,3) by (simp add: get_dword_def DIR_FileSize_def)
  moreover have "\<forall>k \<in> entry_keys. E3 ! k = E ! k" using E0(4) E1(3) E2(3) E3(3) by (simp add: entry_keys_def)
  ultimately show ?thesis using E0 E1 E2 E3 by auto
qed

section \<open>Reading and writing a file\<close>

text \<open>
  What the two operations need: a chain \<open>xs\<close> that holds the sectors from \<open>k\<close> to \<open>k + r\<close>, and the directory cluster \<open>d\<close>, not part of it, with
  the entry of the file. The first sector has to be aligned to the size of a cluster, as the code asserts.
\<close>

definition file_request :: "FAT_DATA \<Rightarrow> STORAGE \<Rightarrow> nat list \<Rightarrow> nat \<Rightarrow> nat \<Rightarrow> nat \<Rightarrow> nat \<Rightarrow> bool" where
  "file_request fd s xs d e k r \<longleftrightarrow> storage_ready s \<and> fat_layout fd s \<and> fat_chain fd s xs \<and> in_volume fd d \<and> d \<notin> set xs
     \<and> entry_of fd s d (hd xs) e \<and> 0 < r \<and> k + r \<le> length xs * unat (SectorsPerCluster fd)
     \<and> IsAddressAligned (of_nat (cluster_sector fd (hd xs))) (ucast (SectorsPerCluster fd))"

text \<open>The first part of both operations.\<close>

lemma request_start:
  assumes "file_request fd s xs d e k r" and "c = unat (SectorsPerCluster fd)"
  shows "walk_to_offset fd s (of_nat k) (of_nat (cluster_sector fd (hd xs))) 0 ext = Some (STATUS_SUCCESS, of_nat (cluster_sector fd (xs ! (k div c))), s)"
    "(of_nat (cluster_sector fd (xs ! (k div c))) :: QWORD) \<noteq> 0" "SectorsPerCluster fd \<noteq> 0"
    "of_nat k mod ucast (SectorsPerCluster fd) = (of_nat (k mod c) :: QWORD)"
    "min (of_nat r) (ucast (SectorsPerCluster fd) - of_nat (k mod c)) = (of_nat (min r (c - k mod c)) :: QWORD)"
    "(of_nat r :: QWORD) \<noteq> 0" "in_volume fd (hd xs)"
proof -
  have pr: "storage_ready s" "fat_layout fd s" "fat_chain fd s xs" "0 < r" "k + r \<le> length xs * c"
    using assms by (simp_all add: file_request_def)
  note c = SPC_pos [OF pr(2), folded assms(2)] and st = cluster_step [OF pr(1-3) assms(2) pr(4,5) refl]
  have kb: "k < length xs * c" "length xs * c < 2 ^ 48" using pr(4,5) chain_sectors [OF pr(1-3)] assms(2) by simp_all
  have h: "hd xs = xs ! 0" using fat_chain_nonempty [OF pr(3)] by (simp add: hd_conv_nth)
  show "walk_to_offset fd s (of_nat k) (of_nat (cluster_sector fd (hd xs))) 0 ext = Some (STATUS_SUCCESS, of_nat (cluster_sector fd (xs ! (k div c))), s)"
    using walk_to_offset_result [OF pr(1-3) assms(2) kb(1), of 0 ext] unfolding h by simp
  show "in_volume fd (hd xs)" using fat_chain_in_volume [OF pr(3)] fat_chain_nonempty [OF pr(3)] by simp
  note b = cluster_sector_bound [OF pr(2) st(4)]
  have "unat (of_nat (cluster_sector fd (xs ! (k div c))) :: QWORD) = cluster_sector fd (xs ! (k div c))"
    using b(1) pr(1) by (intro unat_of_nat_small) (auto simp: storage_ready_def)
  then show "(of_nat (cluster_sector fd (xs ! (k div c))) :: QWORD) \<noteq> 0" using b(2,3) by (metis le_trans not_numeral_le_zero unat_0)
  show "SectorsPerCluster fd \<noteq> 0" using c(1) assms(2) by auto
  have uk: "unat (of_nat k :: QWORD) = k" using kb by (simp add: unat_of_nat_small)
  have "unat (of_nat k mod ucast (SectorsPerCluster fd) :: QWORD) = k mod c" by (simp add: unat_mod uk assms(2))
  then show "of_nat k mod ucast (SectorsPerCluster fd) = (of_nat (k mod c) :: QWORD)" by (rule of_nat_unat_eq)
  have "k mod c < c" using c(1) by simp
  moreover have "unat (of_nat (k mod c) :: QWORD) = k mod c" using \<open>k mod c < c\<close> c(2) by (simp add: unat_of_nat_small)
  ultimately have "unat (ucast (SectorsPerCluster fd) - of_nat (k mod c) :: QWORD) = c - k mod c"
    by (subst unat_sub_above) (simp_all add: assms(2))
  moreover have ur: "unat (of_nat r :: QWORD) = r" using st(6) by (simp add: unat_of_nat_small)
  ultimately have "unat (min (of_nat r) (ucast (SectorsPerCluster fd) - of_nat (k mod c)) :: QWORD) = min r (c - k mod c)"
    by (simp add: min_def word_le_nat_alt)
  then show "min (of_nat r) (ucast (SectorsPerCluster fd) - of_nat (k mod c)) = (of_nat (min r (c - k mod c)) :: QWORD)" by (rule of_nat_unat_eq)
  show "(of_nat r :: QWORD) \<noteq> 0" using ur pr(4) by auto
qed

lemma FatReadFile_result:
  assumes "file_request fd s xs d e k r" "r * 512 \<le> length B"
  shows "\<exists>t. FatReadFile fd s now (of_nat (cluster_sector fd (hd xs))) (of_nat k) (of_nat (cluster_sector fd d)) B (of_nat r)
      = Some (STATUS_SUCCESS, Some (of_nat r), map (file_byte fd s xs) [k * 512 ..< (k + r) * 512] @ drop (r * 512) B, t)
    \<and> dir_touched fd d s t"
proof -
  have pr: "storage_ready s" "fat_layout fd s" "fat_chain fd s xs" "0 < r" "k + r \<le> length xs * unat (SectorsPerCluster fd)"
    "in_volume fd d" "entry_of fd s d (hd xs) e" "IsAddressAligned (of_nat (cluster_sector fd (hd xs))) (ucast (SectorsPerCluster fd))"
    using assms(1) by (simp_all add: file_request_def)
  note rs = request_start [OF assms(1) refl]
  have rd: "read_sectors fd s B 0 (of_nat (cluster_sector fd (xs ! (k div unat (SectorsPerCluster fd)))) + of_nat (k mod unat (SectorsPerCluster fd)))
      (of_nat (min r (unat (SectorsPerCluster fd) - k mod unat (SectorsPerCluster fd)))) (of_nat r)
    = Some (STATUS_SUCCESS, 0, map (file_byte fd s xs) [k * 512 ..< (k + r) * 512] @ drop (r * 512) B, s)"
    using read_sectors_result [OF pr(1-3) refl pr(4,5), of 0 B] assms(2) by simp
  note g = GetDirEntryFromSector_result [OF pr(1,2,6) rs(7) pr(7)]
  obtain E where E: "put_word (entry_bytes fd s d e) DIR_LstAccDate (fst (ConvertDateTimeToFatDateTime now)) = Some E" "length E = 32"
    "\<forall>k \<in> entry_keys. E ! k = entry_bytes fd s d e ! k"
    using access_date_entry [of "entry_bytes fd s d e"] by (auto simp: entry_bytes_def)
  note w = WriteDirEntryToSector_result [OF pr(1,2,6) entry_of_bound [OF pr(7)] E(2)]
  have "dir_touched fd d s (vol_write s (cluster_start fd d + e * 32) E)"
    using entry_written [OF pr(1,2,6) entry_of_bound [OF pr(7)] E(2)] E(3) by blast
  moreover have "FatReadFile fd s now (of_nat (cluster_sector fd (hd xs))) (of_nat k) (of_nat (cluster_sector fd d)) B (of_nat r)
      = Some (STATUS_SUCCESS, Some (of_nat r), map (file_byte fd s xs) [k * 512 ..< (k + r) * 512] @ drop (r * 512) B,
          vol_write s (cluster_start fd d + e * 32) E)"
    using pr(8) rs(1-6) rd g E(1) w by (simp add: FatReadFile_def Let_def case_prod_beta)
  ultimately show ?thesis by blast
qed

text \<open>The size in the entry of a file.\<close>

definition file_size :: "FAT_DATA \<Rightarrow> STORAGE \<Rightarrow> nat \<Rightarrow> nat \<Rightarrow> DWORD" where
  "file_size fd s d e = vol_dword s (cluster_start fd d + e * 32 + DIR_FileSize)"

lemma file_written_keeps_dir:
  assumes "file_written fd xs s a D t" "in_volume fd d" "d \<notin> set xs"
  shows "entry_of fd t d c e = entry_of fd s d c e" "e * 32 + 32 \<le> cluster_size fd \<Longrightarrow> entry_bytes fd t d e = entry_bytes fd s d e"
proof -
  have b: "cluster_bytes fd t d = cluster_bytes fd s d" using assms by (simp add: file_written_def)
  then show "entry_of fd t d c e = entry_of fd s d c e" by (simp add: entry_of_def)
  assume e: "e * 32 + 32 \<le> cluster_size fd"
  have "entry_bytes fd u d e = take 32 (drop (e * 32) (cluster_bytes fd u d))" for u
    using e by (intro nth_equalityI) (simp_all add: cluster_bytes_def entry_bytes_def add.assoc)
  then show "entry_bytes fd t d e = entry_bytes fd s d e" using b by simp
qed

lemma get_file_size: "get_dword (entry_bytes fd s d e) DIR_FileSize = Some (file_size fd s d e)"
  by (simp add: entry_bytes_def get_dword_range DIR_FileSize_def file_size_def)

lemma FatWriteFile_result:
  assumes "file_request fd s xs d e k r" "r * 512 \<le> length B"
  shows "\<exists>t u. FatWriteFile fd s now (of_nat (cluster_sector fd (hd xs))) (of_nat k) (of_nat (cluster_sector fd d)) B (of_nat r)
      = Some (STATUS_SUCCESS, Some (of_nat r), u)
    \<and> file_written fd xs s (k * 512) (take (r * 512) B) t \<and> dir_touched fd d t u
    \<and> file_size fd u d e = max (file_size fd s d e) (ucast (of_nat k + of_nat r :: QWORD) * 512)"
proof -
  have pr: "storage_ready s" "fat_layout fd s" "fat_chain fd s xs" "0 < r" "k + r \<le> length xs * unat (SectorsPerCluster fd)"
    "in_volume fd d" "entry_of fd s d (hd xs) e" "IsAddressAligned (of_nat (cluster_sector fd (hd xs))) (ucast (SectorsPerCluster fd))" "d \<notin> set xs"
    using assms(1) by (simp_all add: file_request_def)
  note rs = request_start [OF assms(1) refl]
  obtain t where t: "write_sectors fd s B 0 (of_nat (cluster_sector fd (xs ! (k div unat (SectorsPerCluster fd)))) + of_nat (k mod unat (SectorsPerCluster fd)))
      (of_nat (min r (unat (SectorsPerCluster fd) - k mod unat (SectorsPerCluster fd)))) (of_nat r) = Some (STATUS_SUCCESS, t)"
    "file_written fd xs s (k * 512) (take (r * 512) B) t"
    using write_sectors_result [OF refl pr(1-5), of 0 B] assms(2) by auto
  have tr: "storage_ready t" "fat_layout fd t" using t(2) by (simp_all add: file_written_def)
  note k = file_written_keeps_dir [OF t(2) pr(6,9)]
  have et: "entry_of fd t d (hd xs) e" using k(1) pr(7) by simp
  note b = entry_of_bound [OF et]
  note g = GetDirEntryFromSector_result [OF tr pr(6) rs(7) et]
  define w x y where "w = (ucast (of_nat k + of_nat r :: QWORD) * BytesPerSector fd :: DWORD)"
    and "x = fst (ConvertDateTimeToFatDateTime now)" and "y = snd (ConvertDateTimeToFatDateTime now)"
  obtain E0 E1 E2 E3 where E: "(if w > file_size fd t d e then put_dword (entry_bytes fd t d e) DIR_FileSize w else Some (entry_bytes fd t d e)) = Some E0"
    "put_word E0 DIR_LstAccDate x = Some E1" "put_word E1 DIR_WrtDate x = Some E2" "put_word E2 DIR_WrtTime y = Some E3" "length E3 = 32"
    "get_dword E3 DIR_FileSize = Some (max (file_size fd t d e) w)" "\<forall>k \<in> entry_keys. E3 ! k = entry_bytes fd t d e ! k"
    using written_entry [OF _ get_file_size, of fd t d e w x y] by (auto simp: entry_bytes_def)
  let ?u = "vol_write t (cluster_start fd d + e * 32) E3"
  note wr = WriteDirEntryToSector_result [OF tr pr(6) b E(5)]
  have touched: "dir_touched fd d t ?u" using entry_written [OF tr pr(6) b E(5)] E(7) by blast
  have "entry_bytes fd ?u d e = E3" using E(5) by (simp add: entry_bytes_def)
  then have "file_size fd ?u d e = max (file_size fd t d e) w" using E(6) get_file_size [of fd ?u d e] by simp
  moreover have "file_size fd t d e = file_size fd s d e" using k(2) [OF b] get_file_size [of fd t d e] get_file_size [of fd s d e] by simp
  moreover have "BytesPerSector fd = 512" using pr(2) by (simp add: fat_layout_def)
  moreover have "FatWriteFile fd s now (of_nat (cluster_sector fd (hd xs))) (of_nat k) (of_nat (cluster_sector fd d)) B (of_nat r)
      = Some (STATUS_SUCCESS, Some (of_nat r), ?u)"
    using pr(8) rs(1-6) t(1) g E(1-4) wr get_file_size [of fd t d e]
    unfolding FatWriteFile_def Let_def case_prod_beta w_def [symmetric] x_def [symmetric] y_def [symmetric] by simp
  ultimately show ?thesis using t(2) touched unfolding w_def by auto
qed

lemma dir_touched_file:
  assumes "dir_touched fd d t u" "fat_layout fd t" "fat_chain fd t xs" "d \<notin> set xs" "p < length xs * cluster_size fd"
  shows "file_byte fd u xs p = file_byte fd t xs p"
proof -
  have cs: "0 < cluster_size fd" using SPC_pos(1) [OF assms(2)] by simp
  have i: "p div cluster_size fd < length xs" using less_mult_imp_div_less [OF assms(5)] .
  have "cluster_bytes fd u (xs ! (p div cluster_size fd)) = cluster_bytes fd t (xs ! (p div cluster_size fd))"
    using assms(1,4) fat_chain_in_volume [OF assms(3)] nth_mem [OF i] unfolding dir_touched_def by metis
  then have "cluster_bytes fd u (xs ! (p div cluster_size fd)) ! (p mod cluster_size fd) = cluster_bytes fd t (xs ! (p div cluster_size fd)) ! (p mod cluster_size fd)"
    by simp
  then show ?thesis using cs by (simp add: cluster_bytes_def file_byte_def)
qed

text \<open>The request can be repeated after the two operations.\<close>

lemma file_request_after_write:
  assumes "file_request fd s xs d e k r" "file_written fd xs s a D t" "dir_touched fd d t u"
  shows "file_request fd u xs d e k r" "fat_layout fd t" "fat_chain fd t xs"
proof -
  have pr: "fat_layout fd s" "fat_chain fd s xs" "in_volume fd d" "d \<notin> set xs" "entry_of fd s d (hd xs) e"
    using assms(1) by (simp_all add: file_request_def)
  show t: "fat_layout fd t" "fat_chain fd t xs" using assms(2) same_front_chain [OF _ pr(1,2)] by (simp_all add: file_written_def)
  have u: "storage_ready u" "fat_layout fd u" "fat_chain fd u xs"
    using assms(3) same_front_chain [OF _ t] by (simp_all add: dir_touched_def)
  have "same_keys (cluster_bytes fd t d) (cluster_bytes fd u d)" using assms(3) by (simp add: dir_touched_def)
  then have "entry_of fd u d (hd xs) e = entry_of fd t d (hd xs) e"
    unfolding entry_of_def by (subst same_keys_find) (simp_all add: cluster_bytes_def)
  then have "entry_of fd u d (hd xs) e" using file_written_keeps_dir(1) [OF assms(2) pr(3,4)] pr(5) by simp
  then show "file_request fd u xs d e k r" using assms(1) u by (simp add: file_request_def)
qed

end
