(* ===== verification/Fat_Volume.thy ===== *)
theory Fat_Volume
  imports Fat_File_Ops
begin

unbundle bit_operations_syntax

text \<open>
  The properties of the FAT32 driver: mounting, chains that grow, files that are written and read back, dates, and
  the boundaries at which the code fails an assertion.
\<close>

section \<open>Mounting a volume\<close>

definition vol_word :: "STORAGE \<Rightarrow> nat \<Rightarrow> WORD" where
  "vol_word s p = (ucast (vol s p) OR push_bit 8 (ucast (vol s (p + 1))))"

lemma get_word_range: "i + 2 \<le> n \<Longrightarrow> get_word (vol_range s p n) i = Some (vol_word s (p + i))"
  by (simp add: get_word_def vol_word_def add.assoc)

text \<open>The sizes the boot sector gives, in sectors.\<close>

definition bpb_total :: "STORAGE \<Rightarrow> nat" where
  "bpb_total s = (if vol_word s BPB_TotSec16 \<noteq> 0 then unat (vol_word s BPB_TotSec16) else unat (vol_dword s BPB_TotSec32))"
definition bpb_fat_size :: "STORAGE \<Rightarrow> nat" where
  "bpb_fat_size s = (if vol_word s BPB_FATSz16 \<noteq> 0 then unat (vol_word s BPB_FATSz16) else unat (vol_dword s BPB_FATSz32))"
definition bpb_first_data :: "STORAGE \<Rightarrow> nat" where
  "bpb_first_data s = unat (vol_word s BPB_RsvdSecCnt) + unat (vol s BPB_NumFATs) * bpb_fat_size s"
definition bpb_clusters :: "STORAGE \<Rightarrow> nat" where
  "bpb_clusters s = (bpb_total s - bpb_first_data s) div unat (vol s BPB_SecPerClus)"

text \<open>A boot sector of a FAT32 volume with sectors of 512 bytes whose sizes fit each other and the partition.\<close>

definition bpb_valid :: "STORAGE \<Rightarrow> bool" where
  "bpb_valid s \<longleftrightarrow> vol_word s 510 = MBR_BOOT_SIGNATURE \<and> vol_word s BPB_BytsPerSec = 512 \<and> vol s BPB_SecPerClus \<noteq> 0
     \<and> 2 \<le> unat (vol_word s BPB_RsvdSecCnt) \<and> bpb_first_data s \<le> bpb_total s \<and> bpb_total s \<le> unat (PartitionSize s)
     \<and> 65525 \<le> bpb_clusters s \<and> bpb_clusters s + 2 < 0x0FFFFFF7
     \<and> unat (vol_word s BPB_RsvdSecCnt) * 512 + (bpb_clusters s + 2) * 4 \<le> bpb_first_data s * 512
     \<and> 2 \<le> unat (vol_dword s BPB_RootClus) \<and> unat (vol_dword s BPB_RootClus) < bpb_clusters s + 2
     \<and> unat (DeviceAlignment s) \<le> unat (vol s BPB_SecPerClus) * 512"

lemma byte_bound: "unat (b::BYTE) < 256"
  using unat_bound [of b] by simp

lemma unat_ucast_byte [simp]: "unat (ucast (b::BYTE) :: DWORD) = unat b" "unat (ucast (w::WORD) :: DWORD) = unat w"
  using unat_bound [of b] unat_bound [of w] by (simp_all add: unat_ucast_mod)

text \<open>C14. On a volume whose boot sector is that of a FAT32 volume with consistent sizes, \<^verbatim>\<open>FatInitVolume\<close> succeeds, and the
  layout it fills in is the one the other operations rely on: the table lies between the reserved sectors and the data, every cluster lies in the
  partition, and the root directory starts at the first sector of its cluster.\<close>

theorem fat_mount_layout:
  assumes "storage_ready s" "bpb_valid s"
  shows "\<exists>fd. FatInitVolume fd0 s = Some (STATUS_SUCCESS, fd, s) \<and> fat_layout fd s
    \<and> unat (CountOfClusters fd) = bpb_clusters s \<and> unat (FirstDataSector fd) = bpb_first_data s
    \<and> unat (SectorsPerCluster fd) = unat (vol s BPB_SecPerClus) \<and> unat (ReservedSectors fd) = unat (vol_word s BPB_RsvdSecCnt)
    \<and> RootDirectoryStartSector fd = of_nat (cluster_sector fd (unat (vol_dword s BPB_RootClus)))"
proof -
  note v = assms(2) [unfolded bpb_valid_def]
  define rs ft ts spc nf where "rs = (ucast (vol_word s BPB_RsvdSecCnt) :: DWORD)"
    and "ft = (if 0 \<noteq> vol_word s BPB_FATSz16 then ucast (vol_word s BPB_FATSz16) else vol_dword s BPB_FATSz32)"
    and "ts = (if 0 \<noteq> vol_word s BPB_TotSec16 then ucast (vol_word s BPB_TotSec16) else vol_dword s BPB_TotSec32)"
    and "spc = (ucast (vol s BPB_SecPerClus) :: DWORD)" and "nf = (ucast (vol s BPB_NumFATs) :: DWORD)"
  have u: "unat rs = unat (vol_word s BPB_RsvdSecCnt)" "unat ft = bpb_fat_size s" "unat ts = bpb_total s"
    "unat spc = unat (vol s BPB_SecPerClus)" "unat nf = unat (vol s BPB_NumFATs)"
    by (auto simp: rs_def ft_def ts_def spc_def nf_def bpb_fat_size_def bpb_total_def)
  have tb: "unat ts < 2 ^ 32" by (rule dword_bound)
  have fdn: "unat rs + unat nf * unat ft \<le> unat ts" using v u by (simp add: bpb_first_data_def)
  then have "unat (nf * ft) = unat nf * unat ft" using tb by (subst unat_word_ariths(2)) simp
  then have first: "unat (rs + nf * ft) = bpb_first_data s" using fdn tb u by (subst unat_word_ariths(1)) (simp add: bpb_first_data_def)
  have "rs + nf * ft \<le> ts" using v first u(3) by (simp add: word_le_nat_alt)
  then have cl: "unat ((ts - (rs + nf * ft)) div spc) = bpb_clusters s" by (simp add: unat_div unat_sub first u bpb_clusters_def)
  have spc0: "spc \<noteq> 0" using v u(4) by (metis unat_eq_zero)
  let ?fd = "fd0\<lparr>CountOfClusters := (ts - (rs + nf * ft)) div spc, FirstDataSector := rs + nf * ft, SectorsPerCluster := spc\<rparr>"
  define root where "root = unat (vol_dword s BPB_RootClus)"
  define fd where "fd = ?fd\<lparr>RootDirectoryStartSector := of_nat (cluster_sector ?fd root), EntriesPerSector := 512 div of_nat sizeof_DIR_ENTRY,
      ReservedSectors := rs, BytesPerSector := 512, AllocationSize := spc * 512\<rparr>"
  have bnd: "bpb_clusters s * unat spc \<le> bpb_total s - bpb_first_data s" using u(4) by (simp add: bpb_clusters_def div_times_less_eq_dividend)
  have lay: "fat_layout fd s"
    using v u cl first bnd byte_bound [of "vol s BPB_SecPerClus"] spc0 unfolding fat_layout_def fd_def
    by (auto simp: unat_gt_0)
  have root_in: "in_volume fd root" using v cl by (simp add: in_volume_def root_def fd_def)
  have rt: "ucast (vol_dword s BPB_RootClus) = (of_nat root :: QWORD)" by (simp add: root_def)
  have fs: "FirstSectorOfCluster ?fd (of_nat root) = (STATUS_SUCCESS, Some (of_nat (cluster_sector ?fd root)))"
  proof -
    have "CountOfClusters fd = CountOfClusters ?fd" "SectorsPerCluster fd = SectorsPerCluster ?fd" "FirstDataSector fd = FirstDataSector ?fd"
      by (simp_all add: fd_def)
    then have "FirstSectorOfCluster fd c = FirstSectorOfCluster ?fd c" "cluster_sector fd r = cluster_sector ?fd r" for c r
      unfolding FirstSectorOfCluster_def cluster_sector_def by simp_all
    then show ?thesis using FirstSectorOfCluster_result [OF assms(1) lay root_in] by simp
  qed
  have io: "IoReadDevice s (replicate 512 0) 512 0 = Some (STATUS_SUCCESS, 512, vol_range s 0 512, s)"
    using IoReadDevice_ok [OF assms(1), of 0 512 "replicate 512 0"] v by (simp add: io_range_def bpb_clusters_def)
  have w: "get_word (vol_range s 0 512) 510 = Some (vol_word s 510)" "get_word (vol_range s 0 512) BPB_BytsPerSec = Some 512"
    "get_word (vol_range s 0 512) BPB_RsvdSecCnt = Some (vol_word s BPB_RsvdSecCnt)" "get_word (vol_range s 0 512) BPB_TotSec16 = Some (vol_word s BPB_TotSec16)"
    "get_word (vol_range s 0 512) BPB_FATSz16 = Some (vol_word s BPB_FATSz16)" "get_dword (vol_range s 0 512) BPB_TotSec32 = Some (vol_dword s BPB_TotSec32)"
    "get_dword (vol_range s 0 512) BPB_FATSz32 = Some (vol_dword s BPB_FATSz32)" "get_dword (vol_range s 0 512) BPB_RootClus = Some (vol_dword s BPB_RootClus)"
    "vol_range s 0 512 ! BPB_SecPerClus = vol s BPB_SecPerClus" "vol_range s 0 512 ! BPB_NumFATs = vol s BPB_NumFATs"
    using v by (simp_all add: get_word_range get_dword_range BPB_BytsPerSec_def BPB_RsvdSecCnt_def BPB_TotSec16_def BPB_FATSz16_def BPB_TotSec32_def
        BPB_FATSz32_def BPB_RootClus_def BPB_SecPerClus_def BPB_NumFATs_def)
  have nc: "\<not> (ts - (rs + nf * ft)) div spc < FAT12_MAX_CLUSTERS" "\<not> (ts - (rs + nf * ft)) div spc < FAT16_MAX_CLUSTERS"
    using v cl by (simp_all add: word_less_nat_alt FAT12_MAX_CLUSTERS_def FAT16_MAX_CLUSTERS_def)
  have "unat (spc * 512) = unat spc * 512" using byte_bound [of "vol s BPB_SecPerClus"] u(4) by (subst unat_word_ariths(2)) simp
  then have al: "DeviceAlignment s \<le> spc * 512" using v u(4) by (simp add: word_le_nat_alt)
  have "FatInitVolume fd0 s = Some (STATUS_SUCCESS, fd, s)"
    using io w v spc0 nc fs al
    by (cases "vol_word s BPB_FATSz16 = 0"; cases "vol_word s BPB_TotSec16 = 0")
      (simp_all add: FatInitVolume_def sizeof_FAT_BPB_def zeros_def Let_def rt ft_def ts_def fd_def flip: rs_def spc_def nf_def)
  moreover have "RootDirectoryStartSector fd = of_nat (cluster_sector fd root)" by (simp add: fd_def cluster_sector_def)
  ultimately show ?thesis using lay cl first u unfolding root_def [symmetric] by (auto simp: fd_def)
qed

section \<open>Dates and times\<close>

lemma fat_fields:
  "FATDATE_Day (ConvertDateToFatDate d) = take_bit 5 (ucast (Day d))"
  "FATDATE_Month (ConvertDateToFatDate d) = take_bit 4 (ucast (Month d))"
  "FATDATE_Year (ConvertDateToFatDate d) = take_bit 7 (Year d - FAT_START_YEAR)"
  "FATTIME_Second (ConvertTimeToFatTime t) = take_bit 5 (ucast (Second t div 2))"
  "FATTIME_Minute (ConvertTimeToFatTime t) = take_bit 6 (ucast (Minute t))"
  "FATTIME_Hour (ConvertTimeToFatTime t) = take_bit 5 (ucast (Hour t))"
  by (rule bit_word_eqI; auto simp: bit_simps FATDATE_Day_def FATDATE_Month_def FATDATE_Year_def FATTIME_Second_def FATTIME_Minute_def
      FATTIME_Hour_def ConvertDateToFatDate_def ConvertTimeToFatTime_def)+

lemma field_fits: "unat (x::BYTE) < 2 ^ n \<Longrightarrow> ucast (take_bit n (ucast x :: WORD)) = x"
proof -
  assume x: "unat x < 2 ^ n"
  have "unat x < 2 ^ 8" using unat_bound [of x] by simp
  then have "unat (ucast (take_bit n (ucast x :: WORD)) :: BYTE) = unat x"
    using x by (simp add: unat_ucast_mod unat_take_bit_mod)
  then show ?thesis by (simp only: word_unat_eq_iff)
qed

definition valid_date_time :: "DATE \<Rightarrow> TIME \<Rightarrow> bool" where
  "valid_date_time d t \<longleftrightarrow> 1 \<le> Day d \<and> Day d \<le> 31 \<and> 1 \<le> Month d \<and> Month d \<le> 12 \<and> 1980 \<le> Year d \<and> Year d \<le> 2107
     \<and> Second t \<le> 59 \<and> Minute t \<le> 59 \<and> Hour t \<le> 23"

lemma date_round_trip:
  assumes "valid_date_time d t"
  shows "ConvertFatDateToDate (ConvertDateToFatDate d) d' = (STATUS_SUCCESS, d)"
proof -
  have v: "unat (Day d) < 2 ^ 5" "unat (Month d) < 2 ^ 4" "\<not> Day d < FAT_DAY_RANGE_MIN" "\<not> FAT_DAY_RANGE_MAX < Day d"
    "\<not> Month d < FAT_MONTH_RANGE_MIN" "\<not> FAT_MONTH_RANGE_MAX < Month d"
    using assms by (simp_all add: valid_date_time_def word_le_nat_alt word_less_nat_alt FAT_DAY_RANGE_MIN_def FAT_DAY_RANGE_MAX_def
        FAT_MONTH_RANGE_MIN_def FAT_MONTH_RANGE_MAX_def)
  have y: "1980 \<le> Year d" "unat (Year d) \<le> 2107" using assms by (simp_all add: valid_date_time_def word_le_nat_alt)
  then have "unat (Year d - FAT_START_YEAR) = unat (Year d) - 1980" by (simp add: unat_sub FAT_START_YEAR_def)
  then have "unat (take_bit 7 (Year d - FAT_START_YEAR)) = unat (Year d - FAT_START_YEAR)" using y(2) by (simp only: unat_take_bit_mod) simp
  then have "take_bit 7 (Year d - FAT_START_YEAR) = Year d - FAT_START_YEAR" by (simp only: word_unat_eq_iff)
  moreover have "d'\<lparr>Day := Day d, Month := Month d, Year := Year d\<rparr> = d" by (cases d; cases d') simp
  ultimately show ?thesis
    using v by (simp add: ConvertFatDateToDate_def Let_def fat_fields field_fits)
qed

lemma time_round_trip:
  assumes "valid_date_time d t"
  shows "ConvertFatTimeToTime (ConvertTimeToFatTime t) t' = (STATUS_SUCCESS, t\<lparr>Second := Second t div 2 * 2\<rparr>)"
proof -
  have "unat (Second t) \<le> 59" using assms by (simp add: valid_date_time_def word_le_nat_alt)
  then have s: "unat (Second t) div 2 \<le> 29" using div_le_mono [of "unat (Second t)" 59 2] by simp
  have v: "unat (Second t div 2) < 2 ^ 5" "unat (Minute t) < 2 ^ 6" "unat (Hour t) < 2 ^ 5" "\<not> FAT_SECOND_RANGE_MAX < Second t div 2"
    "\<not> FAT_MINUTE_RANGE_MAX < Minute t" "\<not> FAT_HOUR_RANGE_MAX < Hour t"
    using assms s by (simp_all add: valid_date_time_def word_le_nat_alt word_less_nat_alt unat_div FAT_SECOND_RANGE_MAX_def
        FAT_MINUTE_RANGE_MAX_def FAT_HOUR_RANGE_MAX_def)
  have "t'\<lparr>Second := Second t div 2 * 2, Minute := Minute t, Hour := Hour t\<rparr> = t\<lparr>Second := Second t div 2 * 2\<rparr>" by (cases t; cases t') simp
  then show ?thesis using v by (simp add: ConvertFatTimeToTime_def Let_def fat_fields field_fits)
qed

theorem fat_date_time_round_trip:
  assumes "valid_date_time d t"
  shows "ConvertFatDateTimeToDateTime (fst (ConvertDateTimeToFatDateTime (d, t))) (snd (ConvertDateTimeToFatDateTime (d, t))) before
    = (STATUS_SUCCESS, d, t\<lparr>Second := Second t div 2 * 2\<rparr>)"
  using date_round_trip [OF assms] time_round_trip [OF assms]
  by (simp add: ConvertFatDateTimeToDateTime_def ConvertDateTimeToFatDateTime_def)

section \<open>Boundaries\<close>

text \<open>
  The search for a free cluster starts at the hint in \<^verbatim>\<open>FSINFO\<close>. It finds nothing when the hint is unknown, because the test against the number
  of entries comes first, and never looks at the entries from \<open>scan_end\<close> on.
\<close>

lemma FirstFreeCluster_nothing:
  assumes "storage_ready s" "fat_layout fd s"
    and "h = FAT32_UNKNOWN \<or> 2 \<le> unat h \<and> unat h < scan_end fd \<and> first_free fd s (unat h) (scan_end fd) = None"
  shows "FirstFreeCluster fd s (ucast h) True = Some (STATUS_SUCCESS, 0, s)"
proof -
  have h: "ucast h = (of_nat (unat h) :: QWORD)" by simp
  have b: "unat h < 2 ^ 64" using dword_bound [of h] by simp
  have u: "unat FAT32_UNKNOWN = 0xFFFFFFFF" by (simp add: FAT32_UNKNOWN_def)
  have "2 \<le> unat h" using assms(3) u by auto
  moreover have "unat (CountOfClusters fd) + 2 \<le> unat h" if "h = FAT32_UNKNOWN" using that u assms(2) by (simp add: fat_layout_def)
  ultimately show ?thesis unfolding h using FirstFreeCluster_result [OF assms(1,2), of "unat h" True] assms(3) b scan_end_le [of fd] by auto
qed

text \<open>C39. When the count of free clusters is known and not zero, but the hint is unknown or no cluster between the hint and the end of the
  searched part of the table is free, \<^verbatim>\<open>_AddNewClusterToChain\<close> fails an assertion, whatever is free in front of the hint.\<close>

theorem fat_extend_asserts:
  assumes "storage_ready s" "fat_layout fd s" "fs_free s \<noteq> 0" "fs_free s \<noteq> FAT32_UNKNOWN" "l < unat (CountOfClusters fd) + 2"
    and "fs_next s = FAT32_UNKNOWN \<or> 2 \<le> unat (fs_next s) \<and> unat (fs_next s) < scan_end fd
      \<and> first_free fd s (unat (fs_next s)) (scan_end fd) = None"
  shows "AddNewClusterToChain fd s (of_nat l) = None"
proof -
  have "2 \<le> unat (fs_next s)" using assms(6) by (auto simp: FAT32_UNKNOWN_def)
  then show ?thesis
    using AddNewClusterToChain_not_found [OF assms(1,2,5,3)] FirstFreeCluster_nothing [OF assms(1,2,6)] assms(4) by blast
qed

text \<open>A request for the sector right behind the last cluster follows the chain to its end and goes on from sector 0.\<close>

text \<open>C40. Reading a file from the sector right behind its last cluster does not return an error: \<^verbatim>\<open>FatReadFile\<close> walks off the end of the chain
  and fails the assertion on the sector.\<close>

theorem fat_read_at_end_asserts:
  assumes "storage_ready s" "fat_layout fd s" "fat_chain fd s xs" "0 < r" "r < 2 ^ 64"
  shows "FatReadFile fd s now (of_nat (cluster_sector fd (hd xs))) (of_nat (length xs * unat (SectorsPerCluster fd))) DirEntrySector B (of_nat r) = None"
proof -
  have h: "hd xs = xs ! 0" "0 < length xs" using fat_chain_nonempty [OF assms(3)] by (simp_all add: hd_conv_nth)
  have "unat (of_nat r :: QWORD) = r" using assms(5) by (simp add: unat_of_nat_small)
  then have "(of_nat r :: QWORD) \<noteq> 0" using assms(4) by auto
  then show ?thesis
    using walk_past_end [OF assms(1-3) refl h(2)] unfolding h(1)
    by (cases "IsAddressAligned (of_nat (cluster_sector fd (xs ! 0))) (ucast (SectorsPerCluster fd))") (simp_all add: FatReadFile_def del: of_nat_mult)
qed

text \<open>C13. \<^verbatim>\<open>FatWriteFile\<close> changes nothing else: every file whose clusters are not those of the written file or of its directory keeps its
  chain and its bytes, the bytes of the file outside the range stay, and the size in the directory entry grows to the end of the range when it was smaller.\<close>

theorem fat_write_isolated:
  assumes "file_request fd s xs d e k r" "r * 512 \<le> length B"
    and "fat_chain fd s ys" "set ys \<inter> set xs = {}" "d \<notin> set ys"
  shows "\<exists>u. FatWriteFile fd s now (of_nat (cluster_sector fd (hd xs))) (of_nat k) (of_nat (cluster_sector fd d)) B (of_nat r)
        = Some (STATUS_SUCCESS, Some (of_nat r), u)
      \<and> fat_chain fd u ys \<and> (\<forall>p < length ys * cluster_size fd. file_byte fd u ys p = file_byte fd s ys p)
      \<and> (\<forall>p < length xs * cluster_size fd. p < k * 512 \<or> (k + r) * 512 \<le> p \<longrightarrow> file_byte fd u xs p = file_byte fd s xs p)
      \<and> file_size fd u d e = max (file_size fd s d e) (ucast (of_nat k + of_nat r :: QWORD) * 512)"
proof -
  obtain t u where w: "FatWriteFile fd s now (of_nat (cluster_sector fd (hd xs))) (of_nat k) (of_nat (cluster_sector fd d)) B (of_nat r)
      = Some (STATUS_SUCCESS, Some (of_nat r), u)"
    "file_written fd xs s (k * 512) (take (r * 512) B) t" "dir_touched fd d t u"
    "file_size fd u d e = max (file_size fd s d e) (ucast (of_nat k + of_nat r :: QWORD) * 512)"
    using FatWriteFile_result [OF assms(1,2)] by blast
  have lay: "fat_layout fd s" using assms(1) by (simp add: file_request_def)
  note a = file_request_after_write [OF assms(1) w(2,3)]
  have tys: "fat_chain fd t ys" using w(2) same_front_chain [OF _ lay assms(3)] by (simp add: file_written_def)
  then have uys: "fat_chain fd u ys" using w(3) same_front_chain [OF _ a(2)] by (simp add: dir_touched_def)
  have "file_byte fd u ys p = file_byte fd s ys p" if p: "p < length ys * cluster_size fd" for p
  proof -
    have cs: "0 < cluster_size fd" using SPC_pos(1) [OF lay] by simp
    note i = nth_mem [OF less_mult_imp_div_less [OF p]]
    have "cluster_bytes fd t (ys ! (p div cluster_size fd)) = cluster_bytes fd s (ys ! (p div cluster_size fd))"
      using w(2) i assms(4) fat_chain_in_volume [OF assms(3)] unfolding file_written_def by blast
    then have "cluster_bytes fd t (ys ! (p div cluster_size fd)) ! (p mod cluster_size fd) = cluster_bytes fd s (ys ! (p div cluster_size fd)) ! (p mod cluster_size fd)"
      by simp
    then have "file_byte fd t ys p = file_byte fd s ys p" using cs by (simp add: cluster_bytes_def file_byte_def)
    then show ?thesis using dir_touched_file [OF w(3) a(2) tys assms(5) p] by simp
  qed
  moreover have "file_byte fd u xs p = file_byte fd s xs p" if "p < length xs * cluster_size fd" "p < k * 512 \<or> (k + r) * 512 \<le> p" for p
    using dir_touched_file [OF w(3) a(2,3) _ that(1)] w(2) that assms(1,2) by (auto simp: file_written_def file_request_def)
  ultimately show ?thesis using w(1,4) uys by blast
qed

text \<open>C11. What \<^verbatim>\<open>FatWriteFile\<close> writes into the sectors of a file, \<^verbatim>\<open>FatReadFile\<close> reads back: both return
  \<^verbatim>\<open>STATUS_SUCCESS\<close> and the number of sectors asked for, for every range of sectors inside the chain of the file, at any position in its clusters.\<close>

theorem fat_write_read_round_trip:
  assumes "file_request fd s xs d e k r" "r * 512 \<le> length B" "length B' = r * 512"
  shows "\<exists>u v. FatWriteFile fd s now (of_nat (cluster_sector fd (hd xs))) (of_nat k) (of_nat (cluster_sector fd d)) B (of_nat r)
        = Some (STATUS_SUCCESS, Some (of_nat r), u)
      \<and> FatReadFile fd u now' (of_nat (cluster_sector fd (hd xs))) (of_nat k) (of_nat (cluster_sector fd d)) B' (of_nat r)
        = Some (STATUS_SUCCESS, Some (of_nat r), take (r * 512) B, v)"
proof -
  obtain t u where w: "FatWriteFile fd s now (of_nat (cluster_sector fd (hd xs))) (of_nat k) (of_nat (cluster_sector fd d)) B (of_nat r)
      = Some (STATUS_SUCCESS, Some (of_nat r), u)"
    "file_written fd xs s (k * 512) (take (r * 512) B) t" "dir_touched fd d t u"
    using FatWriteFile_result [OF assms(1,2)] by blast
  note a = file_request_after_write [OF assms(1) w(2,3)]
  have kr: "(k + r) * 512 \<le> length xs * cluster_size fd" "d \<notin> set xs"
    using assms(1) by (simp_all add: file_request_def flip: mult.assoc)
  have "map (file_byte fd u xs) [k * 512 ..< (k + r) * 512] = take (r * 512) B"
  proof (rule nth_equalityI)
    fix i assume "i < length (map (file_byte fd u xs) [k * 512 ..< (k + r) * 512])"
    then have i: "i < r * 512" by simp
    then have "k * 512 + i < length xs * cluster_size fd" using kr(1) by simp
    then have "file_byte fd u xs (k * 512 + i) = take (r * 512) B ! i"
      using dir_touched_file [OF w(3) a(2,3) kr(2)] w(2) i assms(2) by (simp add: file_written_def)
    then show "map (file_byte fd u xs) [k * 512 ..< (k + r) * 512] ! i = take (r * 512) B ! i" using i by simp
  qed (use assms(2) in simp)
  then show ?thesis using w(1) FatReadFile_result [OF a(1), of B' now'] assms(3) by auto
qed

section \<open>Samples\<close>

definition sample_storage :: "QWORD \<Rightarrow> (nat \<times> BYTE) list \<Rightarrow> STORAGE" where
  "sample_storage n bs = \<lparr>OffsetInDisk = 0, PartitionSize = n, DeviceAlignment = 512, IrpSize = 128, AtaInitialized = True, TotalSectors = n,
     TransferStatus = (\<lambda>_ _ _. STATUS_SUCCESS), HeapHasRoom = (\<lambda>_. True), DiskBytes = (\<lambda>i. case map_of bs i of Some b \<Rightarrow> b | None \<Rightarrow> 0)\<rparr>"

definition sample_fat_data :: FAT_DATA where
  "sample_fat_data = \<lparr>CountOfClusters = 382, RootDirectoryStartSector = 5, ReservedSectors = 2, FirstDataSector = 5, SectorsPerCluster = 1,
     BytesPerSector = 512, EntriesPerSector = 16, AllocationSize = 512\<rparr>"

lemma sample_fields:
  "CountOfClusters sample_fat_data = 382" "ReservedSectors sample_fat_data = 2" "FirstDataSector sample_fat_data = 5"
  "SectorsPerCluster sample_fat_data = 1" "BytesPerSector sample_fat_data = 512"
  by (simp_all add: sample_fat_data_def)

text \<open>
  Cluster 2 is a directory with one entry, for a file of the clusters 3 and 4; cluster 6 is another file. \<^verbatim>\<open>FSINFO\<close> counts 10
  free clusters, the next from 5 on.
\<close>

definition sample_fat_bytes :: "BYTE \<Rightarrow> (nat \<times> BYTE) list" where
  "sample_fat_bytes hint = [(1000, 10), (1004, hint), (1032, 0xFF), (1033, 0xFF), (1034, 0xFF), (1035, 0x0F), (1036, 4),
     (1040, 0xFF), (1041, 0xFF), (1042, 0xFF), (1043, 0x0F), (1048, 0xFF), (1049, 0xFF), (1050, 0xFF), (1051, 0x0F), (2560, 0x41), (2586, 3)]"

definition sample_volume :: STORAGE where "sample_volume = sample_storage 387 (sample_fat_bytes 5)"

lemma sample_storage_ready: "unat n < 2 ^ 48 - 1 \<Longrightarrow> storage_ready (sample_storage n bs)"
  by (simp add: storage_ready_def sample_storage_def)

lemma vol_sample: "vol (sample_storage n bs) i = (case map_of bs i of Some b \<Rightarrow> b | None \<Rightarrow> 0)"
  by (simp add: vol_def sample_storage_def)

lemma sample_volume_ready: "storage_ready sample_volume" "fat_layout sample_fat_data sample_volume"
  by (simp_all add: sample_volume_def sample_storage_ready) (simp add: fat_layout_def sample_fields sample_storage_def)

lemma sample_links:
  "fat_link sample_fat_data sample_volume 2 = 0x0FFFFFFF" "fat_link sample_fat_data sample_volume 3 = 4"
  "fat_link sample_fat_data sample_volume 4 = 0x0FFFFFFF" "fat_link sample_fat_data sample_volume 5 = 0"
  "fat_link sample_fat_data sample_volume 6 = 0x0FFFFFFF"
  by (simp_all add: fat_link_def fat_entry_def vol_dword_def sample_volume_def vol_sample sample_fat_bytes_def sample_fields FAT32_CLUSTER_MASK_def)

lemma sample_hints: "fs_free sample_volume = 10" "fs_next sample_volume = 5"
  by (simp_all add: fs_free_def fs_next_def vol_dword_def sample_volume_def vol_sample sample_fat_bytes_def FSI_Free_Count_def FSI_Nxt_Free_def)

lemma sample_chains: "closed_chain sample_fat_data sample_volume [3, 4]" "closed_chain sample_fat_data sample_volume [6]"
  by (simp_all add: closed_chain_def sample_links in_volume_def sample_fields link_ends_def FAT32_BAD_CLUSTER_def)

lemma sample_first_free: "first_free sample_fat_data sample_volume 5 (scan_end sample_fat_data) = Some 5"
proof -
  have "scan_end sample_fat_data = 128" by (simp add: scan_end_def sample_fields)
  then show ?thesis by (simp add: first_free_def upt_conv_Cons sample_links)
qed

lemma sample_entry: "entry_of sample_fat_data sample_volume 2 3 0"
proof -
  have b: "cluster_bytes sample_fat_data sample_volume 2 = vol_range sample_volume 2560 512"
    by (simp add: cluster_bytes_def cluster_start_def sample_fields)
  have "entry_matches (vol_range sample_volume 2560 512) 3 0"
    by (simp add: entry_matches_def sample_volume_def vol_sample sample_fat_bytes_def FREE_ENTRY_def FREE_JAP_ENTRY_def DIR_Attr_def
        ATTR_LONG_NAME_MASK_def ATTR_LONG_NAME_def WORDS_TO_DWORD_def)
  then show ?thesis by (simp add: entry_of_def b upt_conv_Cons sample_fields)
qed

lemma sample_request: "file_request sample_fat_data sample_volume [3, 4] 2 0 0 2"
  using sample_volume_ready sample_chains sample_entry
  by (simp add: file_request_def closed_chain_def in_volume_def sample_fields cluster_sector_def IsAddressAligned_def)

theorem fat_write_read_round_trip_witness:
  "\<exists>u v. FatWriteFile sample_fat_data sample_volume (\<lparr>Day = 1, Month = 2, Year = 2020\<rparr>, \<lparr>Second = 3, Minute = 4, Hour = 5\<rparr>) 6 0 5 (replicate 1024 7) 2
      = Some (STATUS_SUCCESS, Some 2, u)
    \<and> FatReadFile sample_fat_data u (\<lparr>Day = 2, Month = 2, Year = 2020\<rparr>, \<lparr>Second = 3, Minute = 4, Hour = 5\<rparr>) 6 0 5 (replicate 1024 0) 2
      = Some (STATUS_SUCCESS, Some 2, replicate 1024 7, v)"
  using fat_write_read_round_trip [OF sample_request, of "replicate 1024 7" "replicate 1024 0"]
  by (simp add: cluster_sector_def sample_fields)

theorem fat_write_isolated_witness:
  "\<exists>u. FatWriteFile sample_fat_data sample_volume (\<lparr>Day = 1, Month = 2, Year = 2020\<rparr>, \<lparr>Second = 3, Minute = 4, Hour = 5\<rparr>) 6 0 5 (replicate 1024 7) 2
      = Some (STATUS_SUCCESS, Some 2, u)
    \<and> fat_chain sample_fat_data u [6] \<and> file_byte sample_fat_data u [6] 9 = 0 \<and> file_size sample_fat_data u 2 0 = 1024"
proof -
  have "fat_chain sample_fat_data sample_volume [6]" using sample_chains by (simp add: closed_chain_def)
  from fat_write_isolated [OF sample_request _ this, of "replicate 1024 7" "(\<lparr>Day = 1, Month = 2, Year = 2020\<rparr>, \<lparr>Second = 3, Minute = 4, Hour = 5\<rparr>)"]
  obtain u where u: "FatWriteFile sample_fat_data sample_volume (\<lparr>Day = 1, Month = 2, Year = 2020\<rparr>, \<lparr>Second = 3, Minute = 4, Hour = 5\<rparr>) 6 0 5 (replicate 1024 7) 2
      = Some (STATUS_SUCCESS, Some 2, u)" "fat_chain sample_fat_data u [6]"
    "\<forall>p<512. file_byte sample_fat_data u [6] p = file_byte sample_fat_data sample_volume [6] p"
    "file_size sample_fat_data u 2 0 = max (file_size sample_fat_data sample_volume 2 0) 1024"
    by (auto simp: cluster_sector_def sample_fields)
  moreover have "file_byte sample_fat_data sample_volume [6] 9 = 0" "file_size sample_fat_data sample_volume 2 0 = 0"
    by (simp_all add: file_byte_def file_size_def cluster_start_def sample_fields sample_volume_def vol_sample sample_fat_bytes_def vol_dword_def DIR_FileSize_def)
  ultimately show ?thesis by auto
qed

text \<open>C12. When a chain ends at the cluster of a sector and the search from the hint in \<^verbatim>\<open>FSINFO\<close> finds a free cluster,
  \<^verbatim>\<open>NextSectorInClusterChain\<close> with \<^verbatim>\<open>ExtendChain\<close> returns the first sector of that cluster: the chain has grown by it, all other chains and
  the data of all clusters are as before, the cluster belonged to no chain, and \<^verbatim>\<open>FSINFO\<close> has the new hint and count.\<close>

theorem fat_chain_extended:
  assumes "storage_ready s" "fat_layout fd s" "closed_chain fd s xs" "j < unat (SectorsPerCluster fd)"
    and "fs_free s \<noteq> 0" "2 \<le> unat (fs_next s)" "first_free fd s (unat (fs_next s)) (scan_end fd) = Some n"
  shows "\<exists>s'. NextSectorInClusterChain fd s (of_nat (cluster_sector fd (last xs) + j)) True
      = Some (STATUS_SUCCESS, Some (of_nat (cluster_sector fd n)), s')
    \<and> closed_chain fd s' (xs @ [n]) \<and> fat_link fd s n = 0
    \<and> (\<forall>ys. closed_chain fd s ys \<and> last ys \<noteq> last xs \<longrightarrow> closed_chain fd s' ys \<and> n \<notin> set ys)
    \<and> (\<forall>c. cluster_bytes fd s' c = cluster_bytes fd s c)
    \<and> fs_next s' = of_nat n \<and> fs_free s' = (if fs_free s = FAT32_UNKNOWN then of_nat (free_behind fd s n) else fs_free s - 1)"
  using NextSectorInClusterChain_extend [OF assms] first_free_Some(3) [OF assms(7)] unfolding chain_grown_def new_free_count_def by blast

theorem fat_chain_extended_witness:
  "\<exists>s'. NextSectorInClusterChain sample_fat_data sample_volume 7 True = Some (STATUS_SUCCESS, Some 8, s')
    \<and> closed_chain sample_fat_data s' [3, 4, 5] \<and> closed_chain sample_fat_data s' [6] \<and> fs_free s' = 9 \<and> fs_next s' = 5"
proof -
  have h: "fs_free sample_volume \<noteq> 0" "2 \<le> unat (fs_next sample_volume)" "0 < unat (SectorsPerCluster sample_fat_data)"
    "first_free sample_fat_data sample_volume (unat (fs_next sample_volume)) (scan_end sample_fat_data) = Some 5"
    using sample_hints sample_first_free by (simp_all add: sample_fields)
  from fat_chain_extended [OF sample_volume_ready sample_chains(1) h(3,1,2,4)] sample_chains(2)
  show ?thesis by (auto simp: cluster_sector_def sample_fields sample_hints FAT32_UNKNOWN_def)
qed

theorem fat_date_time_round_trip_witness:
  "ConvertFatDateTimeToDateTime (fst (ConvertDateTimeToFatDateTime (\<lparr>Day = 29, Month = 2, Year = 2020\<rparr>, \<lparr>Second = 59, Minute = 58, Hour = 23\<rparr>)))
     (snd (ConvertDateTimeToFatDateTime (\<lparr>Day = 29, Month = 2, Year = 2020\<rparr>, \<lparr>Second = 59, Minute = 58, Hour = 23\<rparr>)))
     (\<lparr>Day = 0, Month = 0, Year = 0\<rparr>, \<lparr>Second = 0, Minute = 0, Hour = 0\<rparr>)
   = (STATUS_SUCCESS, \<lparr>Day = 29, Month = 2, Year = 2020\<rparr>, \<lparr>Second = 58, Minute = 58, Hour = 23\<rparr>)"
  using fat_date_time_round_trip [of "\<lparr>Day = 29, Month = 2, Year = 2020\<rparr>" "\<lparr>Second = 59, Minute = 58, Hour = 23\<rparr>"]
  by (simp add: valid_date_time_def)

theorem fat_read_at_end_asserts_witness:
  "FatReadFile sample_fat_data sample_volume (\<lparr>Day = 1, Month = 2, Year = 2020\<rparr>, \<lparr>Second = 3, Minute = 4, Hour = 5\<rparr>) 6 2 5 (replicate 512 0) 1 = None"
proof -
  have "fat_chain sample_fat_data sample_volume [3, 4]" using sample_chains by (simp add: closed_chain_def)
  from fat_read_at_end_asserts [OF sample_volume_ready this, of 1] show ?thesis by (simp add: cluster_sector_def sample_fields)
qed

text \<open>The same volume with the hint behind the free clusters at 5 and 7.\<close>

definition sample_late_hint :: STORAGE where
  "sample_late_hint = sample_storage 387 ([(1000, 10), (1004, 0xFF), (1005, 0xFF), (1006, 0xFF), (1007, 0xFF)])"

theorem fat_extend_asserts_witness:
  "AddNewClusterToChain sample_fat_data sample_late_hint 4 = None \<and> fat_link sample_fat_data sample_late_hint 5 = 0"
proof -
  have r: "storage_ready sample_late_hint" "fat_layout sample_fat_data sample_late_hint"
    by (simp_all add: sample_late_hint_def sample_storage_ready) (simp add: fat_layout_def sample_fields sample_storage_def)
  have f: "fs_free sample_late_hint = 10" "fs_next sample_late_hint = FAT32_UNKNOWN" "fat_link sample_fat_data sample_late_hint 5 = 0"
    by (simp_all add: fs_free_def fs_next_def fat_link_def fat_entry_def vol_dword_def sample_late_hint_def vol_sample FSI_Free_Count_def FSI_Nxt_Free_def
        FAT32_UNKNOWN_def sample_fields)
  then show ?thesis using fat_extend_asserts [OF r, of 4] by (simp add: sample_fields FAT32_UNKNOWN_def)
qed

text \<open>A volume of 70000 clusters of one sector and two tables of 600 sectors.\<close>

definition sample_boot :: STORAGE where
  "sample_boot = sample_storage 80000 [(12, 2), (13, 1), (14, 32), (16, 2), (32, 0x40), (33, 0x16), (34, 0x01), (36, 0x58), (37, 0x02), (44, 2), (510, 0x55), (511, 0xAA)]"

theorem fat_mount_layout_witness:
  "\<exists>fd. FatInitVolume sample_fat_data sample_boot = Some (STATUS_SUCCESS, fd, sample_boot) \<and> fat_layout fd sample_boot
    \<and> unat (CountOfClusters fd) = 70000"
proof -
  have w: "vol_word sample_boot 510 = MBR_BOOT_SIGNATURE" "vol_word sample_boot BPB_BytsPerSec = 512" "vol sample_boot BPB_SecPerClus = 1"
    "vol_word sample_boot BPB_RsvdSecCnt = 32" "vol sample_boot BPB_NumFATs = 2" "vol_word sample_boot BPB_TotSec16 = 0"
    "vol_word sample_boot BPB_FATSz16 = 0" "vol_dword sample_boot BPB_TotSec32 = 71232" "vol_dword sample_boot BPB_FATSz32 = 600"
    "vol_dword sample_boot BPB_RootClus = 2"
    by (simp_all add: vol_word_def vol_dword_def sample_boot_def vol_sample MBR_BOOT_SIGNATURE_def BPB_BytsPerSec_def BPB_SecPerClus_def
        BPB_RsvdSecCnt_def BPB_NumFATs_def BPB_TotSec16_def BPB_FATSz16_def BPB_TotSec32_def BPB_FATSz32_def BPB_RootClus_def)
  have n: "bpb_total sample_boot = 71232" "bpb_first_data sample_boot = 1232" "bpb_clusters sample_boot = 70000"
    by (simp_all add: bpb_total_def bpb_first_data_def bpb_fat_size_def bpb_clusters_def w)
  have "PartitionSize sample_boot = 80000" "DeviceAlignment sample_boot = 512" by (simp_all add: sample_boot_def sample_storage_def)
  then have "bpb_valid sample_boot" by (simp add: bpb_valid_def w n)
  moreover have "storage_ready sample_boot" by (simp add: sample_boot_def sample_storage_ready)
  ultimately show ?thesis using fat_mount_layout [of sample_boot sample_fat_data] n by auto
qed

end
