(* ===== verification/Sched.thy ===== *)
theory Sched
  imports CL_List
begin

unbundle bit_operations_syntax

text \<open>
  The scheduler of \<^verbatim>\<open>HAL9000/src/thread.c\<close> and the blocking synchronisation objects on top of it,
  the mutex of \<^verbatim>\<open>HAL9000/src/mutex.c\<close> and the event of \<^verbatim>\<open>HAL9000/src/ex_event.c\<close>.

  Several processors run at the same time, each executing its current thread. The world holds the
  threads, the per-processor scheduling data, the mutexes, the events, the links of all their
  lists (the list memory of \<open>CL_List\<close>) and for each thread the place its execution has
  reached. A step executes the current thread of one processor from one place to the next; the
  places are the acquisitions of the spinlocks and the points where another processor can see a
  difference. What runs with a lock held and takes no other lock is one step, which
  \<open>lock_mutual_exclusion\<close> of \<open>CL_Lock\<close> justifies. A lock is the processor that holds it; a
  processor that finds a lock taken spins, a step that changes nothing.

  A thread that is switched out stays at the place behind \<^verbatim>\<open>ThreadSwitch\<close> and goes on from there
  on the processor that picks it. Address spaces (\<^verbatim>\<open>MmuChangeProcessSpace\<close>), the idle-time statistics
  (\<^verbatim>\<open>CoreUpdateIdleTime\<close>) and the notification of the process
  (\<^verbatim>\<open>ProcessNotifyThreadTermination\<close>) do not touch this state and are left out.
\<close>

section \<open>Data\<close>

datatype THREAD_STATE = ThreadStateRunning | ThreadStateReady | ThreadStateBlocked | ThreadStateDying

definition THREAD_FLAG_FORCE_TERMINATE_PENDING :: DWORD where "THREAD_FLAG_FORCE_TERMINATE_PENDING = 1"
definition THREAD_FLAG_FORCE_TERMINATED :: DWORD where "THREAD_FLAG_FORCE_TERMINATED = 2"
definition THREAD_TIME_SLICE :: DWORD where "THREAD_TIME_SLICE = 1"
definition MUTEX_MAX_RECURSIVITY_DEPTH :: BYTE where "MUTEX_MAX_RECURSIVITY_DEPTH = MAX_BYTE"

record THREAD =
  State :: THREAD_STATE
  Flags :: DWORD
  ExitStatus :: STATUS
  ReferenceCount :: DWORD
  BlockLock :: ADDR
  TickCountCompleted :: QWORD
  UninterruptedTicks :: QWORD
  TickCountEarly :: QWORD

record THREADING_DATA =
  RunningThreadTicks :: DWORD
  IdleThread :: ADDR
  CurrentThread :: ADDR
  PreviousThread :: ADDR
  YieldOnInterruptReturn :: bool
  IdleTicks :: QWORD
  KernelTicks :: QWORD

record MUTEX =
  MutexLock :: ADDR
  CurrentRecursivityDepth :: BYTE
  MaxRecursivityDepth :: BYTE
  Holder :: ADDR

datatype EX_EVT_TYPE = ExEventTypeNotification | ExEventTypeSynchronization

record EX_EVENT =
  EventLock :: ADDR
  EventType :: EX_EVT_TYPE
  Signaled :: BYTE

text \<open>The addresses of the list entries and list heads inside these structures.\<close>

definition ReadyList :: "ADDR \<Rightarrow> ADDR" where "ReadyList Thread = Thread + 240"
definition THREAD_of :: "ADDR \<Rightarrow> ADDR" where "THREAD_of pEntry = pEntry - 240"
definition TerminationEvt :: "ADDR \<Rightarrow> ADDR" where "TerminationEvt Thread = Thread + 64"
definition MutexWaitingList :: "ADDR \<Rightarrow> ADDR" where "MutexWaitingList Mutex = Mutex + 72"
definition EventWaitingList :: "ADDR \<Rightarrow> ADDR" where "EventWaitingList Event = Event + 64"

text \<open>
  Where \<^verbatim>\<open>_ThreadSchedule\<close> returns to, where \<^verbatim>\<open>ExEventSignal\<close> returns to, where \<^verbatim>\<open>ThreadUnblock\<close>
  returns to, and the places of a thread. \<open>Client\<close> is code outside these files.
\<close>

datatype cont = YieldDone | BlockedOnMutex ADDR | BlockedOnEvent ADDR | IdleLoop | ThreadGone

datatype sret = SignalDone | SignalExit

datatype uret = FromMutex ADDR | FromSignal ADDR sret | UnblockDone

datatype place = Client
  | InYield bool
  | Resume cont
  | Cleanup cont
  | TakeBlockLock cont
  | InBlock cont
  | BlockLocking cont
  | MutexLocking ADDR
  | MutexRelocking ADDR
  | MutexReleasing ADDR
  | EventTest ADDR
  | EventLocking ADDR
  | SignalLocking ADDR sret
  | Signalling ADDR sret
  | Unblocking ADDR uret
  | UnblockReady ADDR uret
  | UnblockRelease ADDR uret
  | ExitLocking

record kworld =
  threads :: "ADDR \<Rightarrow> THREAD"
  cpus :: "ADDR \<Rightarrow> THREADING_DATA"
  mutexes :: "ADDR \<Rightarrow> MUTEX"
  events :: "ADDR \<Rightarrow> EX_EVENT"
  lists :: lmem
  ReadyThreadsList :: ADDR
  ReadyThreadsLock :: ADDR
  place :: "ADDR \<Rightarrow> place"
  IntrOn :: "ADDR \<Rightarrow> bool"
  oldState :: "ADDR \<Rightarrow> bool"

abbreviation cur :: "kworld \<Rightarrow> ADDR \<Rightarrow> ADDR" where
  "cur w c \<equiv> CurrentThread (cpus w c)"

definition upd_thread :: "ADDR \<Rightarrow> (THREAD \<Rightarrow> THREAD) \<Rightarrow> kworld \<Rightarrow> kworld" where
  "upd_thread t f w = w\<lparr>threads := (threads w)(t := f (threads w t))\<rparr>"

definition upd_cpu :: "ADDR \<Rightarrow> (THREADING_DATA \<Rightarrow> THREADING_DATA) \<Rightarrow> kworld \<Rightarrow> kworld" where
  "upd_cpu c f w = w\<lparr>cpus := (cpus w)(c := f (cpus w c))\<rparr>"

definition upd_mutex :: "ADDR \<Rightarrow> (MUTEX \<Rightarrow> MUTEX) \<Rightarrow> kworld \<Rightarrow> kworld" where
  "upd_mutex a f w = w\<lparr>mutexes := (mutexes w)(a := f (mutexes w a))\<rparr>"

definition upd_event :: "ADDR \<Rightarrow> (EX_EVENT \<Rightarrow> EX_EVENT) \<Rightarrow> kworld \<Rightarrow> kworld" where
  "upd_event a f w = w\<lparr>events := (events w)(a := f (events w a))\<rparr>"

definition at :: "ADDR \<Rightarrow> place \<Rightarrow> kworld \<Rightarrow> kworld" where
  "at t p w = w\<lparr>place := (place w)(t := p)\<rparr>"

definition intr_disable :: "ADDR \<Rightarrow> ADDR \<Rightarrow> kworld \<Rightarrow> kworld" where
  "intr_disable c t w = w\<lparr>oldState := (oldState w)(t := IntrOn w c), IntrOn := (IntrOn w)(c := False)\<rparr>"

definition intr_restore :: "ADDR \<Rightarrow> ADDR \<Rightarrow> kworld \<Rightarrow> kworld" where
  "intr_restore c t w = w\<lparr>IntrOn := (IntrOn w)(c := oldState w t)\<rparr>"

text \<open>\<^verbatim>\<open>LockAcquire\<close> on a lock held by \<open>h\<close>: the lock functions refuse to be re-entered; a taken lock
  means spinning on; otherwise the caller goes on with \<open>r\<close>.\<close>

definition acquire :: "ADDR \<Rightarrow> ADDR \<Rightarrow> kworld \<Rightarrow> kworld option \<Rightarrow> kworld option" where
  "acquire c h w r = (if c = h then None else if h \<noteq> NULL then Some w else r)"

section \<open>The scheduler\<close>

text \<open>\<^verbatim>\<open>_ThreadGetReadyThread\<close>: the first thread of the ready list, or the idle thread of the processor.\<close>

definition ThreadGetReadyThread :: "ADDR \<Rightarrow> kworld \<Rightarrow> (ADDR \<times> kworld) option" where
  "ThreadGetReadyThread c w = do {
     ASSERT (\<not> IntrOn w c);
     ASSERT (ReadyThreadsLock w = c);
     (pEntry, m) \<leftarrow> RemoveHeadList (lists w) (ReadyThreadsList w);
     let w = w\<lparr>lists := m\<rparr>;
     if pEntry = ReadyThreadsList w then Some (IdleThread (cpus w c), w)
     else do {
       let pNextThread = THREAD_of pEntry;
       ASSERT (State (threads w pNextThread) = ThreadStateReady);
       Some (pNextThread, w)
     }
   }"

text \<open>\<^verbatim>\<open>_ThreadSchedule\<close> up to the point behind \<^verbatim>\<open>ThreadSwitch\<close>, where the old thread is left; the
  thread that is picked goes on from its own place.\<close>

definition ThreadSchedule :: "ADDR \<Rightarrow> cont \<Rightarrow> kworld \<Rightarrow> kworld option" where
  "ThreadSchedule c k w = do {
     ASSERT (\<not> IntrOn w c);
     ASSERT (ReadyThreadsLock w = c);
     let pCurrentThread = cur w c;
     ASSERT (pCurrentThread \<noteq> NULL);
     let w = upd_cpu c (PreviousThread_update (\<lambda>_. pCurrentThread)) w;
     (pNextThread, w) \<leftarrow> ThreadGetReadyThread c w;
     ASSERT (pNextThread \<noteq> NULL);
     let w = at pCurrentThread (Resume k) w;
     if pNextThread \<noteq> pCurrentThread then
       Some (upd_cpu c (CurrentThread_update (\<lambda>_. pNextThread))
              (upd_thread pCurrentThread (UninterruptedTicks_update (\<lambda>_. 0)) w))
     else Some (upd_thread pCurrentThread (UninterruptedTicks_update (\<lambda>n. n + 1)) w)
   }"

text \<open>
  \<^verbatim>\<open>ThreadCleanupPostSchedule\<close>: up to the release of the ready lock, and the treatment of the
  previous thread behind it. \<open>finish\<close> is what the thread that was resumed does next.
\<close>

definition ThreadCleanupPostSchedule_release :: "ADDR \<Rightarrow> cont \<Rightarrow> kworld \<Rightarrow> kworld option" where
  "ThreadCleanupPostSchedule_release c k w = do {
     ASSERT (\<not> IntrOn w c);
     let w = upd_cpu c (RunningThreadTicks_update (\<lambda>_. 0)) w;
     ASSERT (ReadyThreadsLock w = c);
     Some (at (cur w c) (Cleanup k) (w\<lparr>ReadyThreadsLock := NULL\<rparr>))
   }"

definition RfcDereference_thread :: "ADDR \<Rightarrow> kworld \<Rightarrow> kworld option" where
  "RfcDereference_thread t w = do {
     let newRefCount = ReferenceCount (threads w t) - 1;
     ASSERT (newRefCount \<noteq> MAX_DWORD);
     Some (upd_thread t (ReferenceCount_update (\<lambda>_. newRefCount)) w)
   }"

definition ThreadCleanupPostSchedule_prev :: "ADDR \<Rightarrow> kworld \<Rightarrow> kworld option" where
  "ThreadCleanupPostSchedule_prev c w = (let prevThread = PreviousThread (cpus w c) in
     if prevThread \<noteq> NULL then
       if BlockLock (threads w prevThread) = c then do {
         ASSERT (State (threads w prevThread) = ThreadStateBlocked \<or> prevThread = IdleThread (cpus w c));
         Some (upd_thread prevThread (BlockLock_update (\<lambda>_. NULL)) w)
       }
       else if State (threads w prevThread) = ThreadStateDying then do {
         w \<leftarrow> RfcDereference_thread prevThread w;
         Some (upd_cpu c (PreviousThread_update (\<lambda>_. NULL)) w)
       }
       else Some w
     else Some w)"

text \<open>What follows the return of \<^verbatim>\<open>_ThreadSchedule\<close>: the end of \<^verbatim>\<open>ThreadYield\<close>, the rest of the loops of
  \<^verbatim>\<open>MutexAcquire\<close> and \<^verbatim>\<open>ExEventWaitForSignal\<close>, the \<^verbatim>\<open>__sti_and_hlt\<close> of \<^verbatim>\<open>_IdleThread\<close>. A dead thread never
  gets here (\<^verbatim>\<open>NOT_REACHED\<close>).\<close>

definition schedule_returns :: "ADDR \<Rightarrow> ADDR \<Rightarrow> cont \<Rightarrow> kworld \<Rightarrow> kworld option" where
  "schedule_returns c t k w = do {
     ASSERT (ReadyThreadsLock w \<noteq> c);
     case k of
       YieldDone \<Rightarrow> Some (at t Client (intr_restore c t w))
     | BlockedOnMutex a \<Rightarrow> Some (at t (MutexRelocking a) w)
     | BlockedOnEvent a \<Rightarrow>
         if EventType (events w a) = ExEventTypeNotification then Some (at t Client (intr_restore c t w))
         else Some (at t (EventTest a) w)
     | IdleLoop \<Rightarrow> Some (at t Client (w\<lparr>IntrOn := (IntrOn w)(c := True)\<rparr>))
     | ThreadGone \<Rightarrow> None
   }"

section \<open>Termination\<close>

text \<open>\<^verbatim>\<open>ThreadExit\<close> up to the call of \<^verbatim>\<open>ExEventSignal\<close>, and its end.\<close>

definition STATUS_JOB_INTERRUPTED :: STATUS where
  "STATUS_JOB_INTERRUPTED = (ERROR_MASK OR CUSTOMER_BIT OR GENERAL_MASK OR 0x0022)"

definition ThreadExit_enter :: "ADDR \<Rightarrow> STATUS \<Rightarrow> kworld \<Rightarrow> kworld option" where
  "ThreadExit_enter c exit w = (let t = cur w c; w = w\<lparr>IntrOn := (IntrOn w)(c := False)\<rparr>;
     w = (if BlockLock (threads w t) = c then upd_thread t (BlockLock_update (\<lambda>_. NULL)) w else w);
     w = upd_thread t (\<lambda>T. T\<lparr>State := ThreadStateDying, ExitStatus := exit\<rparr>) w
   in Some (at t (SignalLocking (TerminationEvt t) SignalExit) w))"

definition ThreadExit_schedule :: "ADDR \<Rightarrow> kworld \<Rightarrow> kworld option" where
  "ThreadExit_schedule c w = acquire c (ReadyThreadsLock w) w
     (ThreadSchedule c ThreadGone (w\<lparr>ReadyThreadsLock := c\<rparr>))"

definition ThreadForcedExit :: "ADDR \<Rightarrow> kworld \<Rightarrow> kworld option" where
  "ThreadForcedExit c w = ThreadExit_enter c STATUS_JOB_INTERRUPTED
     (upd_thread (cur w c) (Flags_update (\<lambda>f. f OR THREAD_FLAG_FORCE_TERMINATED)) w)"

definition ThreadTerminate :: "ADDR \<Rightarrow> kworld \<Rightarrow> kworld option" where
  "ThreadTerminate t w = do {
     ASSERT (t \<noteq> NULL);
     Some (upd_thread t (Flags_update (\<lambda>f. f OR THREAD_FLAG_FORCE_TERMINATE_PENDING)) w)
   }"

section \<open>Yielding, blocking and unblocking\<close>

definition ThreadTick :: "ADDR \<Rightarrow> kworld \<Rightarrow> kworld option" where
  "ThreadTick c w = do {
     ASSERT (\<not> IntrOn w c);
     let t = cur w c;
     let w = (if IdleThread (cpus w c) = t then upd_cpu c (IdleTicks_update (\<lambda>n. n + 1)) w
              else upd_cpu c (KernelTicks_update (\<lambda>n. n + 1)) w);
     let w = upd_thread t (TickCountCompleted_update (\<lambda>n. n + 1)) w;
     let w = upd_cpu c (RunningThreadTicks_update (\<lambda>n. n + 1)) w;
     if RunningThreadTicks (cpus w c) \<ge> THREAD_TIME_SLICE
     then Some (upd_cpu c (YieldOnInterruptReturn_update (\<lambda>_. True)) w)
     else Some w
   }"

definition ThreadYieldOnInterrupt :: "ADDR \<Rightarrow> kworld \<Rightarrow> bool" where
  "ThreadYieldOnInterrupt c w = YieldOnInterruptReturn (cpus w c)"

text \<open>\<^verbatim>\<open>ThreadYield\<close> up to the acquisition of the ready lock; the caller has saved the interrupt state.\<close>

definition ThreadYield_enter :: "ADDR \<Rightarrow> kworld \<Rightarrow> kworld option" where
  "ThreadYield_enter c w = do {
     let t = cur w c;
     ASSERT (t \<noteq> NULL);
     let bForcedYield = YieldOnInterruptReturn (cpus w c);
     let w = upd_cpu c (YieldOnInterruptReturn_update (\<lambda>_. False)) w;
     if Flags (threads w t) = THREAD_FLAG_FORCE_TERMINATE_PENDING then ThreadForcedExit c w
     else Some (at t (InYield bForcedYield) w)
   }"

definition ThreadYield :: "ADDR \<Rightarrow> kworld \<Rightarrow> kworld option" where
  "ThreadYield c w = ThreadYield_enter c (intr_disable c (cur w c) w)"

definition ThreadYield_schedule :: "ADDR \<Rightarrow> bool \<Rightarrow> kworld \<Rightarrow> kworld option" where
  "ThreadYield_schedule c bForcedYield w = acquire c (ReadyThreadsLock w) w (do {
     let w = w\<lparr>ReadyThreadsLock := c\<rparr>;
     let t = cur w c;
     w \<leftarrow> (if t \<noteq> IdleThread (cpus w c) then do {
            m \<leftarrow> InsertTailList (lists w) (ReadyThreadsList w) (ReadyList t);
            Some (w\<lparr>lists := m\<rparr>)
          } else Some w);
     let w = (if \<not> bForcedYield then upd_thread t (TickCountEarly_update (\<lambda>n. n + 1)) w else w);
     ThreadSchedule c YieldDone (upd_thread t (State_update (\<lambda>_. ThreadStateReady)) w)
   })"

text \<open>The timer interrupt of \<^verbatim>\<open>_IsrInterruptHandler\<close>: the handler runs with interrupts off, the
  return from it turns them on again.\<close>

definition timer_interrupt :: "ADDR \<Rightarrow> kworld \<Rightarrow> kworld option" where
  "timer_interrupt c w = do {
     let t = cur w c;
     w' \<leftarrow> ThreadTick c (intr_disable c t w);
     if ThreadYieldOnInterrupt c w' then ThreadYield_enter c w'
     else Some (intr_restore c t w')
   }"

text \<open>\<^verbatim>\<open>ThreadTakeBlockLock\<close> and the release of the lock of the object, which follows it.\<close>

definition release_object :: "ADDR \<Rightarrow> cont \<Rightarrow> kworld \<Rightarrow> kworld option" where
  "release_object c k w = (case k of
     BlockedOnMutex a \<Rightarrow> do {
       ASSERT (MutexLock (mutexes w a) = c);
       Some (upd_mutex a (MutexLock_update (\<lambda>_. NULL)) w)
     }
   | BlockedOnEvent a \<Rightarrow> do {
       ASSERT (EventLock (events w a) = c);
       Some (upd_event a (EventLock_update (\<lambda>_. NULL)) w)
     }
   | _ \<Rightarrow> Some w)"

definition ThreadTakeBlockLock :: "ADDR \<Rightarrow> cont \<Rightarrow> kworld \<Rightarrow> kworld option" where
  "ThreadTakeBlockLock c k w = (let t = cur w c in acquire c (BlockLock (threads w t)) w (do {
     w \<leftarrow> release_object c k (upd_thread t (BlockLock_update (\<lambda>_. c)) w);
     Some (at t (InBlock k) w)
   }))"

definition ThreadBlock_enter :: "ADDR \<Rightarrow> cont \<Rightarrow> kworld \<Rightarrow> kworld option" where
  "ThreadBlock_enter c k w = do {
     let t = cur w c;
     ASSERT (\<not> IntrOn w c);
     ASSERT (BlockLock (threads w t) = c);
     if Flags (threads w t) = THREAD_FLAG_FORCE_TERMINATE_PENDING then ThreadForcedExit c w
     else Some (at t (BlockLocking k)
            (upd_thread t (\<lambda>T. T\<lparr>TickCountEarly := TickCountEarly T + 1, State := ThreadStateBlocked\<rparr>) w))
   }"

definition ThreadBlock_schedule :: "ADDR \<Rightarrow> cont \<Rightarrow> kworld \<Rightarrow> kworld option" where
  "ThreadBlock_schedule c k w = acquire c (ReadyThreadsLock w) w
     (ThreadSchedule c k (w\<lparr>ReadyThreadsLock := c\<rparr>))"

definition ThreadUnblock :: "ADDR \<Rightarrow> ADDR \<Rightarrow> kworld \<Rightarrow> kworld option" where
  "ThreadUnblock c Thread w = do {
     ASSERT (Thread \<noteq> NULL);
     Some (at (cur w c) (Unblocking Thread UnblockDone) (intr_disable c (cur w c) w))
   }"

definition ThreadUnblock_enter :: "ADDR \<Rightarrow> ADDR \<Rightarrow> uret \<Rightarrow> kworld \<Rightarrow> kworld option" where
  "ThreadUnblock_enter c Thread r w = do {
     ASSERT (Thread \<noteq> NULL);
     acquire c (BlockLock (threads w Thread)) w (do {
       let w = upd_thread Thread (BlockLock_update (\<lambda>_. c)) w;
       ASSERT (State (threads w Thread) = ThreadStateBlocked);
       Some (at (cur w c) (UnblockReady Thread r) w)
     })
   }"

definition ThreadUnblock_ready :: "ADDR \<Rightarrow> ADDR \<Rightarrow> uret \<Rightarrow> kworld \<Rightarrow> kworld option" where
  "ThreadUnblock_ready c Thread r w = acquire c (ReadyThreadsLock w) w (do {
     m \<leftarrow> InsertTailList (lists w) (ReadyThreadsList w) (ReadyList Thread);
     Some (at (cur w c) (UnblockRelease Thread r)
       (upd_thread Thread (State_update (\<lambda>_. ThreadStateReady)) (w\<lparr>lists := m\<rparr>)))
   })"

definition ThreadUnblock_end :: "ADDR \<Rightarrow> ADDR \<Rightarrow> kworld \<Rightarrow> kworld option" where
  "ThreadUnblock_end c Thread w = do {
     ASSERT (BlockLock (threads w Thread) = c);
     Some (upd_thread Thread (BlockLock_update (\<lambda>_. NULL)) w)
   }"

text \<open>One round of the loop of \<^verbatim>\<open>_IdleThread\<close>.\<close>

definition IdleThread_loop :: "ADDR \<Rightarrow> kworld \<Rightarrow> kworld option" where
  "IdleThread_loop c w = (let t = cur w c in
     Some (at t (TakeBlockLock IdleLoop) (w\<lparr>IntrOn := (IntrOn w)(c := False)\<rparr>)))"

section \<open>The mutex\<close>

definition MutexInit :: "ADDR \<Rightarrow> bool \<Rightarrow> kworld \<Rightarrow> kworld option" where
  "MutexInit Mutex Recursive w = do {
     ASSERT (Mutex \<noteq> NULL);
     m \<leftarrow> InitializeListHead (lists w) (MutexWaitingList Mutex);
     Some (upd_mutex Mutex (\<lambda>_. \<lparr>MutexLock = NULL, CurrentRecursivityDepth = 0,
         MaxRecursivityDepth = (if Recursive then MUTEX_MAX_RECURSIVITY_DEPTH else 1), Holder = NULL\<rparr>)
       (w\<lparr>lists := m\<rparr>))
   }"

text \<open>\<^verbatim>\<open>MutexAcquire\<close>: the recursive case and the call; the first acquisition of the lock; the loop.\<close>

definition MutexAcquire :: "ADDR \<Rightarrow> ADDR \<Rightarrow> kworld \<Rightarrow> kworld option" where
  "MutexAcquire c Mutex w = do {
     let pCurrentThread = cur w c;
     ASSERT (Mutex \<noteq> NULL);
     ASSERT (pCurrentThread \<noteq> NULL);
     if pCurrentThread = Holder (mutexes w Mutex) then do {
       ASSERT (CurrentRecursivityDepth (mutexes w Mutex) < MaxRecursivityDepth (mutexes w Mutex));
       Some (upd_mutex Mutex (CurrentRecursivityDepth_update (\<lambda>d. d + 1)) w)
     }
     else Some (at pCurrentThread (MutexLocking Mutex) (intr_disable c pCurrentThread w))
   }"

definition MutexAcquire_loop :: "ADDR \<Rightarrow> ADDR \<Rightarrow> kworld \<Rightarrow> kworld option" where
  "MutexAcquire_loop c Mutex w = (let t = cur w c in
     if Holder (mutexes w Mutex) \<noteq> t then do {
       m \<leftarrow> InsertTailList (lists w) (MutexWaitingList Mutex) (ReadyList t);
       Some (at t (TakeBlockLock (BlockedOnMutex Mutex)) (w\<lparr>lists := m\<rparr>))
     }
     else do {
       ASSERT (MutexLock (mutexes w Mutex) = c);
       Some (at t Client (intr_restore c t (upd_mutex Mutex (MutexLock_update (\<lambda>_. NULL)) w)))
     })"

definition MutexAcquire_first :: "ADDR \<Rightarrow> ADDR \<Rightarrow> kworld \<Rightarrow> kworld option" where
  "MutexAcquire_first c Mutex w = acquire c (MutexLock (mutexes w Mutex)) w
     (let w = upd_mutex Mutex (MutexLock_update (\<lambda>_. c)) w;
          w = (if Holder (mutexes w Mutex) = NULL
               then upd_mutex Mutex (\<lambda>M. M\<lparr>Holder := cur w c, CurrentRecursivityDepth := 1\<rparr>) w else w)
      in MutexAcquire_loop c Mutex w)"

definition MutexAcquire_again :: "ADDR \<Rightarrow> ADDR \<Rightarrow> kworld \<Rightarrow> kworld option" where
  "MutexAcquire_again c Mutex w = acquire c (MutexLock (mutexes w Mutex)) w
     (MutexAcquire_loop c Mutex (upd_mutex Mutex (MutexLock_update (\<lambda>_. c)) w))"

text \<open>\<^verbatim>\<open>MutexRelease\<close>: the recursive case and the call; with the lock held, the hand-over to the first
  waiting thread; the end.\<close>

definition MutexRelease :: "ADDR \<Rightarrow> ADDR \<Rightarrow> kworld \<Rightarrow> kworld option" where
  "MutexRelease c Mutex w = do {
     ASSERT (Mutex \<noteq> NULL);
     ASSERT (cur w c = Holder (mutexes w Mutex));
     if CurrentRecursivityDepth (mutexes w Mutex) > 1
     then Some (upd_mutex Mutex (CurrentRecursivityDepth_update (\<lambda>d. d - 1)) w)
     else Some (at (cur w c) (MutexReleasing Mutex) (intr_disable c (cur w c) w))
   }"

definition MutexRelease_end :: "ADDR \<Rightarrow> ADDR \<Rightarrow> kworld \<Rightarrow> kworld option" where
  "MutexRelease_end c Mutex w = do {
     ASSERT (MutexLock (mutexes w Mutex) = c);
     let t = cur w c;
     Some (at t Client (intr_restore c t (upd_mutex Mutex (MutexLock_update (\<lambda>_. NULL)) w)))
   }"

definition MutexRelease_hand_over :: "ADDR \<Rightarrow> ADDR \<Rightarrow> kworld \<Rightarrow> kworld option" where
  "MutexRelease_hand_over c Mutex w = acquire c (MutexLock (mutexes w Mutex)) w (do {
     let w = upd_mutex Mutex (MutexLock_update (\<lambda>_. c)) w;
     (pEntry, m) \<leftarrow> RemoveHeadList (lists w) (MutexWaitingList Mutex);
     let w = w\<lparr>lists := m\<rparr>;
     if pEntry \<noteq> MutexWaitingList Mutex then do {
       let pThread = THREAD_of pEntry;
       Some (at (cur w c) (Unblocking pThread (FromMutex Mutex))
         (upd_mutex Mutex (\<lambda>M. M\<lparr>Holder := pThread, CurrentRecursivityDepth := 1\<rparr>) w))
     }
     else MutexRelease_end c Mutex (upd_mutex Mutex (Holder_update (\<lambda>_. NULL)) w)
   })"

section \<open>The executive event\<close>

definition ExEventInit :: "ADDR \<Rightarrow> EX_EVT_TYPE option \<Rightarrow> bool \<Rightarrow> kworld \<Rightarrow> (STATUS \<times> kworld) option" where
  "ExEventInit Event type Sig w =
     (if Event = NULL then Some (STATUS_INVALID_PARAMETER1, w)
      else case type of
        None \<Rightarrow> Some (STATUS_INVALID_PARAMETER2, w)
      | Some ty \<Rightarrow> do {
          m \<leftarrow> InitializeListHead (lists w) (EventWaitingList Event);
          Some (STATUS_SUCCESS, upd_event Event (\<lambda>_. \<lparr>EventLock = NULL, EventType = ty,
            Signaled = (if Sig then 1 else 0)\<rparr>) (w\<lparr>lists := m\<rparr>))
        })"

definition ExEventClearSignal :: "ADDR \<Rightarrow> kworld \<Rightarrow> kworld option" where
  "ExEventClearSignal Event w = do {
     ASSERT (Event \<noteq> NULL);
     Some (upd_event Event (Signaled_update (\<lambda>_. 0)) w)
   }"

definition ExEventSignal :: "ADDR \<Rightarrow> ADDR \<Rightarrow> kworld \<Rightarrow> kworld option" where
  "ExEventSignal c Event w = do {
     ASSERT (Event \<noteq> NULL);
     Some (at (cur w c) (SignalLocking Event SignalDone) (intr_disable c (cur w c) w))
   }"

definition ExEventSignal_end :: "ADDR \<Rightarrow> ADDR \<Rightarrow> sret \<Rightarrow> kworld \<Rightarrow> kworld option" where
  "ExEventSignal_end c Event r w = do {
     ASSERT (EventLock (events w Event) = c);
     let t = cur w c;
     let w = upd_event Event (EventLock_update (\<lambda>_. NULL)) w;
     case r of
       SignalDone \<Rightarrow> Some (at t Client (intr_restore c t w))
     | SignalExit \<Rightarrow> Some (at t ExitLocking w)
   }"

text \<open>One round of the loop: the next waiting thread is removed and unblocked.\<close>

definition ExEventSignal_loop :: "ADDR \<Rightarrow> ADDR \<Rightarrow> sret \<Rightarrow> kworld \<Rightarrow> kworld option" where
  "ExEventSignal_loop c Event r w = do {
     (pEntry, m) \<leftarrow> RemoveHeadList (lists w) (EventWaitingList Event);
     let w = w\<lparr>lists := m\<rparr>;
     if pEntry \<noteq> EventWaitingList Event
     then Some (at (cur w c) (Unblocking (THREAD_of pEntry) (FromSignal Event r)) w)
     else ExEventSignal_end c Event r w
   }"

definition ExEventSignal_first :: "ADDR \<Rightarrow> ADDR \<Rightarrow> sret \<Rightarrow> kworld \<Rightarrow> kworld option" where
  "ExEventSignal_first c Event r w = acquire c (EventLock (events w Event)) w
     (ExEventSignal_loop c Event r
       (upd_event Event (\<lambda>E. E\<lparr>EventLock := c, Signaled := 1\<rparr>) w))"

definition ExEventWaitForSignal :: "ADDR \<Rightarrow> ADDR \<Rightarrow> kworld \<Rightarrow> kworld option" where
  "ExEventWaitForSignal c Event w = do {
     let t = cur w c;
     ASSERT (Event \<noteq> NULL);
     ASSERT (t \<noteq> NULL);
     Some (at t (EventTest Event) (intr_disable c t w))
   }"

text \<open>The compare-exchange of the loop condition, and the body up to \<^verbatim>\<open>ThreadTakeBlockLock\<close>.\<close>

definition ExEventWaitForSignal_test :: "ADDR \<Rightarrow> ADDR \<Rightarrow> kworld \<Rightarrow> kworld option" where
  "ExEventWaitForSignal_test c Event w = (let t = cur w c;
     newState = (if EventType (events w Event) = ExEventTypeNotification then 1 else 0) in
     if Signaled (events w Event) = 1
     then Some (at t Client (intr_restore c t (upd_event Event (Signaled_update (\<lambda>_. newState)) w)))
     else Some (at t (EventLocking Event) w))"

definition ExEventWaitForSignal_insert :: "ADDR \<Rightarrow> ADDR \<Rightarrow> kworld \<Rightarrow> kworld option" where
  "ExEventWaitForSignal_insert c Event w = acquire c (EventLock (events w Event)) w (do {
     let w = upd_event Event (EventLock_update (\<lambda>_. c)) w;
     m \<leftarrow> InsertTailList (lists w) (EventWaitingList Event) (ReadyList (cur w c));
     Some (at (cur w c) (TakeBlockLock (BlockedOnEvent Event)) (w\<lparr>lists := m\<rparr>))
   })"

section \<open>The step of a processor\<close>

text \<open>The code behind \<^verbatim>\<open>ThreadUnblock\<close>.\<close>

definition unblock_returns :: "ADDR \<Rightarrow> uret \<Rightarrow> kworld \<Rightarrow> kworld option" where
  "unblock_returns c r w = (case r of
     FromMutex a \<Rightarrow> MutexRelease_end c a w
   | FromSignal a s \<Rightarrow>
       if EventType (events w a) = ExEventTypeSynchronization then ExEventSignal_end c a s w
       else Some (at (cur w c) (Signalling a s) w)
   | UnblockDone \<Rightarrow> Some (at (cur w c) Client (intr_restore c (cur w c) w)))"

text \<open>The next step of the processor's current thread; \<open>None\<close> is a failed assertion. A thread at \<open>Client\<close>
  is moved by the calls only.\<close>

definition kstep :: "ADDR \<Rightarrow> kworld \<Rightarrow> kworld option" where
  "kstep c w = (case place w (cur w c) of
     Client \<Rightarrow> Some w
   | InYield f \<Rightarrow> ThreadYield_schedule c f w
   | Resume k \<Rightarrow> ThreadCleanupPostSchedule_release c k w
   | Cleanup k \<Rightarrow> do {
       w \<leftarrow> ThreadCleanupPostSchedule_prev c w;
       schedule_returns c (cur w c) k w
     }
   | TakeBlockLock k \<Rightarrow> ThreadTakeBlockLock c k w
   | InBlock k \<Rightarrow> ThreadBlock_enter c k w
   | BlockLocking k \<Rightarrow> ThreadBlock_schedule c k w
   | MutexLocking a \<Rightarrow> MutexAcquire_first c a w
   | MutexRelocking a \<Rightarrow> MutexAcquire_again c a w
   | MutexReleasing a \<Rightarrow> MutexRelease_hand_over c a w
   | EventTest a \<Rightarrow> ExEventWaitForSignal_test c a w
   | EventLocking a \<Rightarrow> ExEventWaitForSignal_insert c a w
   | SignalLocking a r \<Rightarrow> ExEventSignal_first c a r w
   | Signalling a r \<Rightarrow> ExEventSignal_loop c a r w
   | Unblocking t r \<Rightarrow> ThreadUnblock_enter c t r w
   | UnblockReady t r \<Rightarrow> ThreadUnblock_ready c t r w
   | UnblockRelease t r \<Rightarrow> do {
       w \<leftarrow> ThreadUnblock_end c t w;
       unblock_returns c r w
     }
   | ExitLocking \<Rightarrow> ThreadExit_schedule c w)"

end
