(* ===== verification/Sched_Inv.thy ===== *)
theory Sched_Inv
  imports Sched
begin

text \<open>
  The invariant of the scheduler and its preservation by every step (\<open>Sched\<close>).
\<close>

section \<open>Rings of threads\<close>

text \<open>
  The list heads \<open>H\<close> and the ready links of the threads \<open>T\<close> form disjoint rings: \<open>q h\<close> are the
  threads in the ring of \<open>h\<close>.
\<close>

definition inq :: "ADDR set \<Rightarrow> (ADDR \<Rightarrow> ADDR list) \<Rightarrow> ADDR \<Rightarrow> bool" where
  "inq H q t \<longleftrightarrow> (\<exists>h\<in>H. t \<in> set (q h))"

definition rings :: "lmem \<Rightarrow> ADDR set \<Rightarrow> ADDR set \<Rightarrow> (ADDR \<Rightarrow> ADDR list) \<Rightarrow> bool" where
  "rings m H T q \<longleftrightarrow> (\<forall>h\<in>H. is_list m h (map ReadyList (q h)) \<and> set (q h) \<subseteq> T \<and> h \<notin> ReadyList ` T)
     \<and> (\<forall>h\<in>H. \<forall>k\<in>H. h \<noteq> k \<longrightarrow> set (q h) \<inter> set (q k) = {})
     \<and> (\<forall>t\<in>T. m (ReadyList t) \<noteq> None \<and> ReadyList t \<noteq> NULL)"

lemma ReadyList_inj [simp]: "ReadyList a = ReadyList b \<longleftrightarrow> a = b"
  by (simp add: ReadyList_def)

lemma THREAD_of_ReadyList [simp]: "THREAD_of (ReadyList t) = t"
  by (simp add: THREAD_of_def ReadyList_def)

lemma ReadyList_mem [simp]: "ReadyList t \<in> ReadyList ` A \<longleftrightarrow> t \<in> A"
  by auto

lemma rings_distinct: "rings m H T q \<Longrightarrow> h \<in> H \<Longrightarrow> distinct (q h)"
  by (auto simp: rings_def is_list_def distinct_map)

lemma rings_frame:
  assumes r: "rings m H T q" and h: "h \<in> H" and l: "is_list m' h (map ReadyList ts)"
    and u: "untouched m m' A" and A: "A \<subseteq> insert h (ReadyList ` (insert t (set (q h))))"
    and t: "\<forall>k\<in>H. k \<noteq> h \<longrightarrow> t \<notin> set (q k)" and tT: "t \<in> T"
    and ts: "set ts \<subseteq> insert t (set (q h))"
  shows "rings m' H T (q(h := ts))"
proof -
  have "is_list m' k (map ReadyList (q k))" if k: "k \<in> H" "k \<noteq> h" for k
  proof -
    have "k \<notin> ReadyList ` T" "h \<notin> ReadyList ` T" "set (q k) \<inter> set (q h) = {}" "set (q h) \<subseteq> T" "set (q k) \<subseteq> T"
      using r h k by (auto simp: rings_def)
    moreover have "x \<in> insert h (ReadyList ` insert t (set (q h)))" if "x \<in> A" for x
      using A that by blast
    ultimately have "A \<inter> set (k # map ReadyList (q k)) = {}"
      using t k tT by fastforce
    moreover have "is_list m k (map ReadyList (q k))"
      using r k(1) by (auto simp: rings_def)
    ultimately show ?thesis using is_list_untouched u by blast
  qed
  moreover have "m' (ReadyList u) \<noteq> None" if "u \<in> T" for u
  proof (rule untouched_mapped [OF u])
    show "m (ReadyList u) \<noteq> None" using r that by (auto simp: rings_def)
  qed
  moreover have "set ts \<subseteq> T"
    using r h ts tT by (auto simp: rings_def)
  moreover have "set ts \<inter> set (q k) = {}" if "k \<in> H" "k \<noteq> h" for k
  proof -
    have "set (q h) \<inter> set (q k) = {}" using r h that by (auto simp: rings_def)
    with t that ts show ?thesis by blast
  qed
  ultimately show ?thesis
    using r h l by (simp add: rings_def Int_commute)
qed

lemma rings_insert:
  assumes r: "rings m H T q" and h: "h \<in> H" and t: "t \<in> T" "\<not> inq H q t"
  shows "\<exists>m'. InsertTailList m h (ReadyList t) = Some m' \<and> rings m' H T (q(h := q h @ [t]))"
proof -
  have l: "is_list m h (map ReadyList (q h))" and "h \<notin> ReadyList ` T"
    "m (ReadyList t) \<noteq> None" "ReadyList t \<noteq> NULL"
    using r h t by (auto simp: rings_def)
  moreover have "ReadyList t \<notin> set (h # map ReadyList (q h))"
    using t h \<open>h \<notin> ReadyList ` T\<close> by (auto simp: inq_def)
  ultimately obtain m' where m': "InsertTailList m h (ReadyList t) = Some m'"
    "is_list m' h (map ReadyList (q h) @ [ReadyList t])"
    "untouched m m' (insert (ReadyList t) (set (h # map ReadyList (q h))))"
    using InsertTailList_correct [OF l] by blast
  have "rings m' H T (q(h := q h @ [t]))"
    by (rule rings_frame [OF r h _ m'(3), where t = t]) (use m'(2) t h in \<open>auto simp: inq_def\<close>)
  with m'(1) show ?thesis by blast
qed

lemma rings_remove:
  assumes r: "rings m H T q" and h: "h \<in> H" and q: "q h = t # ts"
  shows "\<exists>m'. RemoveHeadList m h = Some (ReadyList t, m') \<and> rings m' H T (q(h := ts)) \<and> ReadyList t \<noteq> h
    \<and> \<not> inq H (q(h := ts)) t"
proof -
  have l: "is_list m h (ReadyList t # map ReadyList ts)"
    using r h q by (auto simp: rings_def)
  obtain m' where m': "RemoveHeadList m h = Some (ReadyList t, m')" "is_list m' h (map ReadyList ts)"
    "untouched m m' (set (h # map ReadyList ts))"
    using RemoveHeadList_correct [OF l] by blast
  have t: "t \<in> T" "ReadyList t \<noteq> h" "\<forall>k\<in>H. k \<noteq> h \<longrightarrow> t \<notin> set (q k)"
    using r h q by (fastforce simp: rings_def)+
  have "rings m' H T (q(h := ts))"
    by (rule rings_frame [OF r h m'(2) m'(3), where t = t]) (use t q in auto)
  moreover have "t \<notin> set ts"
    using rings_distinct [OF r h] q by simp
  ultimately show ?thesis using m'(1) t by (auto simp: inq_def)
qed

lemma rings_remove_empty:
  assumes "rings m H T q" "h \<in> H" "q h = []"
  shows "RemoveHeadList m h = Some (h, m)"
  using assms RemoveHeadList_empty by (fastforce simp: rings_def)

lemma inq_insert [simp]: "h \<in> H \<Longrightarrow> inq H (q(h := q h @ [t])) u \<longleftrightarrow> inq H q u \<or> u = t"
  by (auto simp: inq_def)

lemma inq_remove:
  assumes "rings m H T q" "h \<in> H" "q h = t # ts"
  shows "inq H (q(h := ts)) u \<longleftrightarrow> inq H q u \<and> u \<noteq> t"
proof -
  have "distinct (q h)" by (rule rings_distinct [OF assms(1,2)])
  moreover have "\<forall>k\<in>H. k \<noteq> h \<longrightarrow> set (q k) \<inter> set (q h) = {}"
    using assms(1,2) by (auto simp: rings_def)
  ultimately have *: "(\<exists>k\<in>H. u \<in> set (q k) \<and> (k = h \<longrightarrow> u \<in> set ts)) \<longleftrightarrow> (\<exists>k\<in>H. u \<in> set (q k)) \<and> u \<noteq> t"
    using assms(2,3) by auto
  have "inq H (q(h := ts)) u \<longleftrightarrow> (\<exists>k\<in>H. u \<in> set (q k) \<and> (k = h \<longrightarrow> u \<in> set ts))"
    using assms(3) by (auto simp: inq_def split: if_splits) (metis list.set_intros(2))
  with * show ?thesis by (simp add: inq_def)
qed

section \<open>What the invariant sees of the world\<close>

definition tstate :: "kworld \<Rightarrow> ADDR \<Rightarrow> THREAD_STATE" where "tstate w t = State (threads w t)"
definition tblock :: "kworld \<Rightarrow> ADDR \<Rightarrow> ADDR" where "tblock w t = BlockLock (threads w t)"
definition tflags :: "kworld \<Rightarrow> ADDR \<Rightarrow> DWORD" where "tflags w t = Flags (threads w t)"
definition curr :: "kworld \<Rightarrow> ADDR \<Rightarrow> ADDR" where "curr w c = CurrentThread (cpus w c)"
definition prev :: "kworld \<Rightarrow> ADDR \<Rightarrow> ADDR" where "prev w c = PreviousThread (cpus w c)"
definition idle :: "kworld \<Rightarrow> ADDR \<Rightarrow> ADDR" where "idle w c = IdleThread (cpus w c)"
definition mlock :: "kworld \<Rightarrow> ADDR \<Rightarrow> ADDR" where "mlock w a = MutexLock (mutexes w a)"
definition holder :: "kworld \<Rightarrow> ADDR \<Rightarrow> ADDR" where "holder w a = Holder (mutexes w a)"
definition depth :: "kworld \<Rightarrow> ADDR \<Rightarrow> BYTE" where "depth w a = CurrentRecursivityDepth (mutexes w a)"
definition maxdepth :: "kworld \<Rightarrow> ADDR \<Rightarrow> BYTE" where "maxdepth w a = MaxRecursivityDepth (mutexes w a)"
definition elock :: "kworld \<Rightarrow> ADDR \<Rightarrow> ADDR" where "elock w a = EventLock (events w a)"
definition etype :: "kworld \<Rightarrow> ADDR \<Rightarrow> EX_EVT_TYPE" where "etype w a = EventType (events w a)"

lemmas view_defs = tstate_def tblock_def tflags_def curr_def prev_def idle_def mlock_def holder_def
  depth_def maxdepth_def elock_def etype_def

lemmas view_fold = view_defs [symmetric]

text \<open>Every update of the world, seen through these functions.\<close>

lemma view_upd_thread:
  "tstate (upd_thread x f w) = (tstate w)(x := State (f (threads w x)))"
  "tblock (upd_thread x f w) = (tblock w)(x := BlockLock (f (threads w x)))"
  "tflags (upd_thread x f w) = (tflags w)(x := Flags (f (threads w x)))"
  "curr (upd_thread x f w) = curr w"
  "prev (upd_thread x f w) = prev w"
  "idle (upd_thread x f w) = idle w"
  "mlock (upd_thread x f w) = mlock w"
  "holder (upd_thread x f w) = holder w"
  "depth (upd_thread x f w) = depth w"
  "maxdepth (upd_thread x f w) = maxdepth w"
  "elock (upd_thread x f w) = elock w"
  "etype (upd_thread x f w) = etype w"
  "lists (upd_thread x f w) = lists w"
  "ReadyThreadsList (upd_thread x f w) = ReadyThreadsList w"
  "ReadyThreadsLock (upd_thread x f w) = ReadyThreadsLock w"
  "place (upd_thread x f w) = place w"
  "IntrOn (upd_thread x f w) = IntrOn w"
  "oldState (upd_thread x f w) = oldState w"
  by (simp_all add: upd_thread_def view_defs fun_eq_iff)

lemma view_upd_cpu:
  "tstate (upd_cpu x f w) = tstate w"
  "tblock (upd_cpu x f w) = tblock w"
  "tflags (upd_cpu x f w) = tflags w"
  "curr (upd_cpu x f w) = (curr w)(x := CurrentThread (f (cpus w x)))"
  "prev (upd_cpu x f w) = (prev w)(x := PreviousThread (f (cpus w x)))"
  "idle (upd_cpu x f w) = (idle w)(x := IdleThread (f (cpus w x)))"
  "mlock (upd_cpu x f w) = mlock w"
  "holder (upd_cpu x f w) = holder w"
  "depth (upd_cpu x f w) = depth w"
  "maxdepth (upd_cpu x f w) = maxdepth w"
  "elock (upd_cpu x f w) = elock w"
  "etype (upd_cpu x f w) = etype w"
  "lists (upd_cpu x f w) = lists w"
  "ReadyThreadsList (upd_cpu x f w) = ReadyThreadsList w"
  "ReadyThreadsLock (upd_cpu x f w) = ReadyThreadsLock w"
  "place (upd_cpu x f w) = place w"
  "IntrOn (upd_cpu x f w) = IntrOn w"
  "oldState (upd_cpu x f w) = oldState w"
  by (simp_all add: upd_cpu_def view_defs fun_eq_iff)

lemma view_upd_mutex:
  "tstate (upd_mutex x f w) = tstate w"
  "tblock (upd_mutex x f w) = tblock w"
  "tflags (upd_mutex x f w) = tflags w"
  "curr (upd_mutex x f w) = curr w"
  "prev (upd_mutex x f w) = prev w"
  "idle (upd_mutex x f w) = idle w"
  "mlock (upd_mutex x f w) = (mlock w)(x := MutexLock (f (mutexes w x)))"
  "holder (upd_mutex x f w) = (holder w)(x := Holder (f (mutexes w x)))"
  "depth (upd_mutex x f w) = (depth w)(x := CurrentRecursivityDepth (f (mutexes w x)))"
  "maxdepth (upd_mutex x f w) = (maxdepth w)(x := MaxRecursivityDepth (f (mutexes w x)))"
  "elock (upd_mutex x f w) = elock w"
  "etype (upd_mutex x f w) = etype w"
  "lists (upd_mutex x f w) = lists w"
  "ReadyThreadsList (upd_mutex x f w) = ReadyThreadsList w"
  "ReadyThreadsLock (upd_mutex x f w) = ReadyThreadsLock w"
  "place (upd_mutex x f w) = place w"
  "IntrOn (upd_mutex x f w) = IntrOn w"
  "oldState (upd_mutex x f w) = oldState w"
  by (simp_all add: upd_mutex_def view_defs fun_eq_iff)

lemma view_upd_event:
  "tstate (upd_event x f w) = tstate w"
  "tblock (upd_event x f w) = tblock w"
  "tflags (upd_event x f w) = tflags w"
  "curr (upd_event x f w) = curr w"
  "prev (upd_event x f w) = prev w"
  "idle (upd_event x f w) = idle w"
  "mlock (upd_event x f w) = mlock w"
  "holder (upd_event x f w) = holder w"
  "depth (upd_event x f w) = depth w"
  "maxdepth (upd_event x f w) = maxdepth w"
  "elock (upd_event x f w) = (elock w)(x := EventLock (f (events w x)))"
  "etype (upd_event x f w) = (etype w)(x := EventType (f (events w x)))"
  "lists (upd_event x f w) = lists w"
  "ReadyThreadsList (upd_event x f w) = ReadyThreadsList w"
  "ReadyThreadsLock (upd_event x f w) = ReadyThreadsLock w"
  "place (upd_event x f w) = place w"
  "IntrOn (upd_event x f w) = IntrOn w"
  "oldState (upd_event x f w) = oldState w"
  by (simp_all add: upd_event_def view_defs fun_eq_iff)

lemma view_lists:
  "tstate (w\<lparr>lists := m\<rparr>) = tstate w"
  "tblock (w\<lparr>lists := m\<rparr>) = tblock w"
  "tflags (w\<lparr>lists := m\<rparr>) = tflags w"
  "curr (w\<lparr>lists := m\<rparr>) = curr w"
  "prev (w\<lparr>lists := m\<rparr>) = prev w"
  "idle (w\<lparr>lists := m\<rparr>) = idle w"
  "mlock (w\<lparr>lists := m\<rparr>) = mlock w"
  "holder (w\<lparr>lists := m\<rparr>) = holder w"
  "depth (w\<lparr>lists := m\<rparr>) = depth w"
  "maxdepth (w\<lparr>lists := m\<rparr>) = maxdepth w"
  "elock (w\<lparr>lists := m\<rparr>) = elock w"
  "etype (w\<lparr>lists := m\<rparr>) = etype w"
  by (simp_all add: view_defs fun_eq_iff)

lemma view_lock:
  "tstate (w\<lparr>ReadyThreadsLock := m\<rparr>) = tstate w"
  "tblock (w\<lparr>ReadyThreadsLock := m\<rparr>) = tblock w"
  "tflags (w\<lparr>ReadyThreadsLock := m\<rparr>) = tflags w"
  "curr (w\<lparr>ReadyThreadsLock := m\<rparr>) = curr w"
  "prev (w\<lparr>ReadyThreadsLock := m\<rparr>) = prev w"
  "idle (w\<lparr>ReadyThreadsLock := m\<rparr>) = idle w"
  "mlock (w\<lparr>ReadyThreadsLock := m\<rparr>) = mlock w"
  "holder (w\<lparr>ReadyThreadsLock := m\<rparr>) = holder w"
  "depth (w\<lparr>ReadyThreadsLock := m\<rparr>) = depth w"
  "maxdepth (w\<lparr>ReadyThreadsLock := m\<rparr>) = maxdepth w"
  "elock (w\<lparr>ReadyThreadsLock := m\<rparr>) = elock w"
  "etype (w\<lparr>ReadyThreadsLock := m\<rparr>) = etype w"
  by (simp_all add: view_defs fun_eq_iff)

lemma view_intr:
  "tstate (w\<lparr>IntrOn := m\<rparr>) = tstate w"
  "tblock (w\<lparr>IntrOn := m\<rparr>) = tblock w"
  "tflags (w\<lparr>IntrOn := m\<rparr>) = tflags w"
  "curr (w\<lparr>IntrOn := m\<rparr>) = curr w"
  "prev (w\<lparr>IntrOn := m\<rparr>) = prev w"
  "idle (w\<lparr>IntrOn := m\<rparr>) = idle w"
  "mlock (w\<lparr>IntrOn := m\<rparr>) = mlock w"
  "holder (w\<lparr>IntrOn := m\<rparr>) = holder w"
  "depth (w\<lparr>IntrOn := m\<rparr>) = depth w"
  "maxdepth (w\<lparr>IntrOn := m\<rparr>) = maxdepth w"
  "elock (w\<lparr>IntrOn := m\<rparr>) = elock w"
  "etype (w\<lparr>IntrOn := m\<rparr>) = etype w"
  by (simp_all add: view_defs fun_eq_iff)

lemma view_at:
  "tstate (at t p w) = tstate w"
  "tblock (at t p w) = tblock w"
  "tflags (at t p w) = tflags w"
  "curr (at t p w) = curr w"
  "prev (at t p w) = prev w"
  "idle (at t p w) = idle w"
  "mlock (at t p w) = mlock w"
  "holder (at t p w) = holder w"
  "depth (at t p w) = depth w"
  "maxdepth (at t p w) = maxdepth w"
  "elock (at t p w) = elock w"
  "etype (at t p w) = etype w"
  "lists (at t p w) = lists w"
  "ReadyThreadsList (at t p w) = ReadyThreadsList w"
  "ReadyThreadsLock (at t p w) = ReadyThreadsLock w"
  "place (at t p w) = (place w)(t := p)"
  "IntrOn (at t p w) = IntrOn w"
  "oldState (at t p w) = oldState w"
  by (simp_all add: at_def view_defs fun_eq_iff)

lemma view_intr_disable:
  "tstate (intr_disable c t w) = tstate w"
  "tblock (intr_disable c t w) = tblock w"
  "tflags (intr_disable c t w) = tflags w"
  "curr (intr_disable c t w) = curr w"
  "prev (intr_disable c t w) = prev w"
  "idle (intr_disable c t w) = idle w"
  "mlock (intr_disable c t w) = mlock w"
  "holder (intr_disable c t w) = holder w"
  "depth (intr_disable c t w) = depth w"
  "maxdepth (intr_disable c t w) = maxdepth w"
  "elock (intr_disable c t w) = elock w"
  "etype (intr_disable c t w) = etype w"
  "lists (intr_disable c t w) = lists w"
  "ReadyThreadsList (intr_disable c t w) = ReadyThreadsList w"
  "ReadyThreadsLock (intr_disable c t w) = ReadyThreadsLock w"
  "place (intr_disable c t w) = place w"
  "IntrOn (intr_disable c t w) = (IntrOn w)(c := False)"
  "oldState (intr_disable c t w) = (oldState w)(t := IntrOn w c)"
  by (simp_all add: intr_disable_def view_defs fun_eq_iff)

lemma view_intr_restore:
  "tstate (intr_restore c t w) = tstate w"
  "tblock (intr_restore c t w) = tblock w"
  "tflags (intr_restore c t w) = tflags w"
  "curr (intr_restore c t w) = curr w"
  "prev (intr_restore c t w) = prev w"
  "idle (intr_restore c t w) = idle w"
  "mlock (intr_restore c t w) = mlock w"
  "holder (intr_restore c t w) = holder w"
  "depth (intr_restore c t w) = depth w"
  "maxdepth (intr_restore c t w) = maxdepth w"
  "elock (intr_restore c t w) = elock w"
  "etype (intr_restore c t w) = etype w"
  "lists (intr_restore c t w) = lists w"
  "ReadyThreadsList (intr_restore c t w) = ReadyThreadsList w"
  "ReadyThreadsLock (intr_restore c t w) = ReadyThreadsLock w"
  "place (intr_restore c t w) = place w"
  "IntrOn (intr_restore c t w) = (IntrOn w)(c := oldState w t)"
  "oldState (intr_restore c t w) = oldState w"
  by (simp_all add: intr_restore_def view_defs fun_eq_iff)

lemmas view_simps = view_upd_thread view_upd_cpu view_upd_mutex view_upd_event view_lists view_lock view_intr view_at view_intr_disable view_intr_restore

section \<open>The invariant\<close>

text \<open>The processors, threads, mutexes and events of a system.\<close>

record kconf =
  Cs :: "ADDR set"
  Ts :: "ADDR set"
  Ms :: "ADDR set"
  Es :: "ADDR set"

definition heads :: "kconf \<Rightarrow> kworld \<Rightarrow> ADDR set" where
  "heads K w = insert (ReadyThreadsList w) (MutexWaitingList ` Ms K \<union> EventWaitingList ` Es K)"

definition conf_ok :: "kconf \<Rightarrow> kworld \<Rightarrow> bool" where
  "conf_ok K w \<longleftrightarrow> NULL \<notin> Cs K \<and> NULL \<notin> Ts K \<and> NULL \<notin> Ms K \<and> NULL \<notin> Es K
     \<and> ReadyThreadsList w \<notin> MutexWaitingList ` Ms K \<union> EventWaitingList ` Es K
     \<and> MutexWaitingList ` Ms K \<inter> EventWaitingList ` Es K = {}"

definition oncpu :: "kconf \<Rightarrow> kworld \<Rightarrow> ADDR \<Rightarrow> bool" where
  "oncpu K w t \<longleftrightarrow> (\<exists>c\<in>Cs K. curr w c = t)"

definition idles :: "kconf \<Rightarrow> kworld \<Rightarrow> ADDR set" where
  "idles K w = idle w ` Cs K"

text \<open>What a place says about its thread: where it will return to after the schedule, whether it is
  about to block, which thread it is unblocking, which locks it holds.\<close>

fun cont_of :: "place \<Rightarrow> cont option" where
  "cont_of (Resume k) = Some k"
| "cont_of (Cleanup k) = Some k"
| "cont_of (TakeBlockLock k) = Some k"
| "cont_of (InBlock k) = Some k"
| "cont_of (BlockLocking k) = Some k"
| "cont_of _ = None"

fun blocks :: "place \<Rightarrow> cont option" where
  "blocks (TakeBlockLock k) = Some k"
| "blocks (InBlock k) = Some k"
| "blocks (BlockLocking k) = Some k"
| "blocks _ = None"

fun wait_head :: "cont \<Rightarrow> ADDR option" where
  "wait_head (BlockedOnMutex a) = Some (MutexWaitingList a)"
| "wait_head (BlockedOnEvent a) = Some (EventWaitingList a)"
| "wait_head _ = None"

fun unblocks :: "place \<Rightarrow> ADDR option" where
  "unblocks (Unblocking t r) = Some t"
| "unblocks (UnblockReady t r) = Some t"
| "unblocks _ = None"

fun holds_mutex :: "place \<Rightarrow> ADDR option" where
  "holds_mutex (TakeBlockLock (BlockedOnMutex a)) = Some a"
| "holds_mutex (Unblocking t (FromMutex a)) = Some a"
| "holds_mutex (UnblockReady t (FromMutex a)) = Some a"
| "holds_mutex (UnblockRelease t (FromMutex a)) = Some a"
| "holds_mutex _ = None"

fun holds_event :: "place \<Rightarrow> ADDR option" where
  "holds_event (TakeBlockLock (BlockedOnEvent a)) = Some a"
| "holds_event (Unblocking t (FromSignal a r)) = Some a"
| "holds_event (UnblockReady t (FromSignal a r)) = Some a"
| "holds_event (UnblockRelease t (FromSignal a r)) = Some a"
| "holds_event (Signalling a r) = Some a"
| "holds_event _ = None"

fun holds_ready :: "place \<Rightarrow> bool" where
  "holds_ready (Resume k) = True"
| "holds_ready _ = False"

text \<open>The mutexes and events a place speaks of exist, and no thread is exiting.\<close>

fun cont_ok :: "kconf \<Rightarrow> bool \<Rightarrow> cont \<Rightarrow> bool" where
  "cont_ok K i YieldDone = True"
| "cont_ok K i (BlockedOnMutex a) = (\<not> i \<and> a \<in> Ms K)"
| "cont_ok K i (BlockedOnEvent a) = (\<not> i \<and> a \<in> Es K)"
| "cont_ok K i IdleLoop = i"
| "cont_ok K i ThreadGone = False"

fun uret_ok :: "kconf \<Rightarrow> uret \<Rightarrow> bool" where
  "uret_ok K (FromMutex a) = (a \<in> Ms K)"
| "uret_ok K (FromSignal a r) = (a \<in> Es K \<and> r = SignalDone)"
| "uret_ok K UnblockDone = True"

fun place_ok :: "kconf \<Rightarrow> bool \<Rightarrow> place \<Rightarrow> bool" where
  "place_ok K i Client = True"
| "place_ok K i (InYield f) = True"
| "place_ok K i (Resume k) = cont_ok K i k"
| "place_ok K i (Cleanup k) = cont_ok K i k"
| "place_ok K i (TakeBlockLock k) = (cont_ok K i k \<and> k \<noteq> YieldDone)"
| "place_ok K i (InBlock k) = (cont_ok K i k \<and> k \<noteq> YieldDone)"
| "place_ok K i (BlockLocking k) = (cont_ok K i k \<and> k \<noteq> YieldDone)"
| "place_ok K i (MutexLocking a) = (\<not> i \<and> a \<in> Ms K)"
| "place_ok K i (MutexRelocking a) = (\<not> i \<and> a \<in> Ms K)"
| "place_ok K i (MutexReleasing a) = (\<not> i \<and> a \<in> Ms K)"
| "place_ok K i (EventTest a) = (\<not> i \<and> a \<in> Es K)"
| "place_ok K i (EventLocking a) = (\<not> i \<and> a \<in> Es K)"
| "place_ok K i (SignalLocking a r) = (a \<in> Es K \<and> r = SignalDone)"
| "place_ok K i (Signalling a r) = (a \<in> Es K \<and> r = SignalDone)"
| "place_ok K i (Unblocking t r) = uret_ok K r"
| "place_ok K i (UnblockReady t r) = uret_ok K r"
| "place_ok K i (UnblockRelease t r) = uret_ok K r"
| "place_ok K i ExitLocking = False"

text \<open>\<open>waits\<close>: the thread is on its way into the blocked state, or blocked and switched out.\<close>

definition waits :: "kconf \<Rightarrow> kworld \<Rightarrow> ADDR \<Rightarrow> cont \<Rightarrow> bool" where
  "waits K w t k \<longleftrightarrow> (if oncpu K w t then blocks (place w t) = Some k
     else place w t = Resume k \<and> tstate w t = ThreadStateBlocked)"

definition cpus_ok :: "kconf \<Rightarrow> kworld \<Rightarrow> bool" where
  "cpus_ok K w \<longleftrightarrow> (\<forall>c\<in>Cs K. curr w c \<in> Ts K \<and> idle w c \<in> Ts K)
     \<and> inj_on (curr w) (Cs K) \<and> inj_on (idle w) (Cs K)
     \<and> (\<forall>c\<in>Cs K. \<forall>d\<in>Cs K. c \<noteq> d \<longrightarrow> curr w c \<noteq> idle w d)
     \<and> (\<forall>c\<in>Cs K. place w (curr w c) \<noteq> Client \<longrightarrow> \<not> IntrOn w c)"

definition threads_ok :: "kconf \<Rightarrow> kworld \<Rightarrow> bool" where
  "threads_ok K w \<longleftrightarrow> (\<forall>t\<in>Ts K. place_ok K (t \<in> idles K w) (place w t)
     \<and> tflags w t \<noteq> THREAD_FLAG_FORCE_TERMINATE_PENDING \<and> tstate w t \<noteq> ThreadStateDying
     \<and> (\<not> oncpu K w t \<longrightarrow> (\<exists>k. place w t = Resume k)))"

definition ready_ok :: "kconf \<Rightarrow> kworld \<Rightarrow> (ADDR \<Rightarrow> ADDR list) \<Rightarrow> bool" where
  "ready_ok K w q \<longleftrightarrow> (\<forall>t\<in>set (q (ReadyThreadsList w)).
     tstate w t = ThreadStateReady \<and> \<not> oncpu K w t \<and> t \<notin> idles K w)"

definition wait_ok :: "kconf \<Rightarrow> kworld \<Rightarrow> (ADDR \<Rightarrow> ADDR list) \<Rightarrow> bool" where
  "wait_ok K w q \<longleftrightarrow> (\<forall>h\<in>heads K w. h \<noteq> ReadyThreadsList w \<longrightarrow>
     (\<forall>t\<in>set (q h). t \<notin> idles K w \<and> (\<exists>k. wait_head k = Some h \<and> waits K w t k)))"

text \<open>A thread that is being unblocked is in no list, and only one processor unblocks it; \<open>N\<close> are the
  threads that have been created and not yet started.\<close>

definition limbo :: "kconf \<Rightarrow> kworld \<Rightarrow> (ADDR \<Rightarrow> ADDR list) \<Rightarrow> ADDR set \<Rightarrow> ADDR \<Rightarrow> bool" where
  "limbo K w q N t \<longleftrightarrow> t \<in> Ts K \<and> t \<notin> idles K w \<and> t \<notin> N \<and> \<not> inq (heads K w) q t
     \<and> (\<exists>k. waits K w t k \<and> place w t \<noteq> TakeBlockLock k)"

definition fresh :: "kconf \<Rightarrow> kworld \<Rightarrow> (ADDR \<Rightarrow> ADDR list) \<Rightarrow> ADDR \<Rightarrow> bool" where
  "fresh K w q t \<longleftrightarrow> t \<in> Ts K \<and> t \<notin> idles K w \<and> \<not> inq (heads K w) q t \<and> \<not> oncpu K w t
     \<and> tstate w t = ThreadStateBlocked"

definition limbo_ok :: "kconf \<Rightarrow> kworld \<Rightarrow> (ADDR \<Rightarrow> ADDR list) \<Rightarrow> ADDR set \<Rightarrow> bool" where
  "limbo_ok K w q N \<longleftrightarrow>
     (\<forall>c\<in>Cs K. \<forall>t. unblocks (place w (curr w c)) = Some t \<longrightarrow> limbo K w q N t)
     \<and> (\<forall>c\<in>Cs K. \<forall>d\<in>Cs K. \<forall>t. c \<noteq> d \<longrightarrow> unblocks (place w (curr w c)) = Some t \<longrightarrow> unblocks (place w (curr w d)) \<noteq> Some t)
     \<and> (\<forall>t\<in>N. fresh K w q t)"

text \<open>Why a processor holds the block lock of a thread, and the places that hold one.\<close>

definition block_why :: "kconf \<Rightarrow> kworld \<Rightarrow> ADDR \<Rightarrow> ADDR \<Rightarrow> bool" where
  "block_why K w t c \<longleftrightarrow> (curr w c = t \<and> (\<exists>k. place w t = InBlock k \<or> place w t = BlockLocking k))
      \<or> (prev w c = t \<and> (t = curr w c \<or> \<not> oncpu K w t) \<and> tstate w t = ThreadStateBlocked
           \<and> (\<exists>k. place w (curr w c) = Resume k \<or> place w (curr w c) = Cleanup k))
      \<or> (\<exists>r. place w (curr w c) = UnblockReady t r \<or> place w (curr w c) = UnblockRelease t r)"

definition block_place :: "kconf \<Rightarrow> kworld \<Rightarrow> ADDR \<Rightarrow> bool" where
  "block_place K w c \<longleftrightarrow> (case place w (curr w c) of
     Resume k \<Rightarrow> prev w c \<in> Ts K
   | Cleanup k \<Rightarrow> prev w c \<in> Ts K
   | InBlock k \<Rightarrow> tblock w (curr w c) = c
   | BlockLocking k \<Rightarrow> tblock w (curr w c) = c \<and> tstate w (curr w c) = ThreadStateBlocked
   | UnblockReady t r \<Rightarrow> t \<in> Ts K \<and> tblock w t = c
   | UnblockRelease t r \<Rightarrow> t \<in> Ts K \<and> tblock w t = c
   | _ \<Rightarrow> True)"

definition block_ok :: "kconf \<Rightarrow> kworld \<Rightarrow> bool" where
  "block_ok K w \<longleftrightarrow>
     (\<forall>t\<in>Ts K. tblock w t \<noteq> NULL \<longrightarrow> tblock w t \<in> Cs K \<and> block_why K w t (tblock w t))
     \<and> (\<forall>c\<in>Cs K. tblock w (idle w c) \<noteq> NULL \<longrightarrow> tblock w (idle w c) = c)
     \<and> (\<forall>c\<in>Cs K. block_place K w c)"

definition lock_ok :: "ADDR set \<Rightarrow> ADDR \<Rightarrow> (ADDR \<Rightarrow> bool) \<Rightarrow> bool" where
  "lock_ok C l f \<longleftrightarrow> (l \<noteq> NULL \<longrightarrow> l \<in> C) \<and> (\<forall>c\<in>C. l = c \<longleftrightarrow> f c)"

definition locks_ok :: "kconf \<Rightarrow> kworld \<Rightarrow> bool" where
  "locks_ok K w \<longleftrightarrow> lock_ok (Cs K) (ReadyThreadsLock w) (\<lambda>c. holds_ready (place w (curr w c)))
     \<and> (\<forall>a\<in>Ms K. lock_ok (Cs K) (mlock w a) (\<lambda>c. holds_mutex (place w (curr w c)) = Some a))
     \<and> (\<forall>a\<in>Es K. lock_ok (Cs K) (elock w a) (\<lambda>c. holds_event (place w (curr w c)) = Some a))"

lemma lock_keep: "lock_ok C l f \<Longrightarrow> (\<And>d. d \<in> C \<Longrightarrow> g d = f d) \<Longrightarrow> lock_ok C l g"
  by (simp add: lock_ok_def)

lemma lock_take:
  "lock_ok C NULL f \<Longrightarrow> c \<in> C \<Longrightarrow> NULL \<notin> C \<Longrightarrow> g c \<Longrightarrow> (\<And>d. d \<in> C \<Longrightarrow> d \<noteq> c \<Longrightarrow> g d = f d) \<Longrightarrow> lock_ok C c g"
  unfolding lock_ok_def by metis

lemma lock_drop:
  "lock_ok C l f \<Longrightarrow> f c \<Longrightarrow> c \<in> C \<Longrightarrow> NULL \<notin> C \<Longrightarrow> \<not> g c \<Longrightarrow> (\<And>d. d \<in> C \<Longrightarrow> d \<noteq> c \<Longrightarrow> g d = f d) \<Longrightarrow> lock_ok C NULL g"
  unfolding lock_ok_def by metis

text \<open>No thread is lost: a thread that is switched out, or about to block on an object, is the idle
  thread, or in a list, or being unblocked, or not yet started.\<close>

definition kept_ok :: "kconf \<Rightarrow> kworld \<Rightarrow> (ADDR \<Rightarrow> ADDR list) \<Rightarrow> ADDR set \<Rightarrow> bool" where
  "kept_ok K w q N \<longleftrightarrow> (\<forall>t\<in>Ts K. t \<notin> idles K w \<longrightarrow> (\<not> oncpu K w t \<or> blocks (place w t) \<noteq> None) \<longrightarrow>
     inq (heads K w) q t \<or> t \<in> N \<or> (\<exists>c\<in>Cs K. unblocks (place w (curr w c)) = Some t))"

definition sinv :: "kconf \<Rightarrow> kworld \<Rightarrow> (ADDR \<Rightarrow> ADDR list) \<Rightarrow> ADDR set \<Rightarrow> bool" where
  "sinv K w q N \<longleftrightarrow> conf_ok K w \<and> rings (lists w) (heads K w) (Ts K) q \<and> cpus_ok K w \<and> threads_ok K w
     \<and> ready_ok K w q \<and> wait_ok K w q \<and> limbo_ok K w q N \<and> block_ok K w \<and> locks_ok K w \<and> kept_ok K w q N"

section \<open>Moves without a switch\<close>

text \<open>The world changes, the processors keep their threads.\<close>

definition no_switch :: "kworld \<Rightarrow> kworld \<Rightarrow> bool" where
  "no_switch w w' \<longleftrightarrow> curr w' = curr w \<and> prev w' = prev w \<and> idle w' = idle w
     \<and> ReadyThreadsList w' = ReadyThreadsList w \<and> tflags w' = tflags w"

lemma no_switch_simps:
  assumes "no_switch w w'"
  shows "curr w' = curr w" "prev w' = prev w" "idle w' = idle w" "ReadyThreadsList w' = ReadyThreadsList w"
    "tflags w' = tflags w" "oncpu K w' u = oncpu K w u" "idles K w' = idles K w" "heads K w' = heads K w"
    "conf_ok K w' = conf_ok K w"
  using assms by (simp_all add: no_switch_def oncpu_def idles_def heads_def conf_ok_def)

lemma curr_inj: "sinv K w q N \<Longrightarrow> c \<in> Cs K \<Longrightarrow> d \<in> Cs K \<Longrightarrow> curr w d = curr w c \<Longrightarrow> d = c"
  by (auto simp: sinv_def cpus_ok_def inj_on_def)

lemma oncpu_curr [simp]: "c \<in> Cs K \<Longrightarrow> oncpu K w (curr w c)"
  by (auto simp: oncpu_def)

lemma curr_thread: "sinv K w q N \<Longrightarrow> c \<in> Cs K \<Longrightarrow> curr w c \<in> Ts K \<and> curr w c \<noteq> NULL \<and> c \<noteq> NULL"
  by (auto simp: sinv_def cpus_ok_def conf_ok_def)

lemma sinvD:
  assumes "sinv K w q N"
  shows "conf_ok K w" "rings (lists w) (heads K w) (Ts K) q" "cpus_ok K w" "threads_ok K w"
    "ready_ok K w q" "wait_ok K w q" "limbo_ok K w q N" "block_ok K w" "locks_ok K w" "kept_ok K w q N"
  using assms by (simp_all add: sinv_def)

text \<open>The part of the invariant that a move to another place of the current thread keeps whatever
  else it does.\<close>

lemma move_cpus:
  assumes s: "sinv K w q N" and c: "c \<in> Cs K" and n: "no_switch w w'"
    and p: "place w' = (place w)(curr w c := p')"
    and i: "\<And>d. d \<noteq> c \<Longrightarrow> IntrOn w' d = IntrOn w d" "p' \<noteq> Client \<Longrightarrow> \<not> IntrOn w' c"
  shows "cpus_ok K w'"
proof -
  have "\<not> IntrOn w' d" if "d \<in> Cs K" "place w' (curr w d) \<noteq> Client" for d
  proof (cases "d = c")
    case True
    with that p i(2) show ?thesis by simp
  next
    case False
    then have "curr w d \<noteq> curr w c" using curr_inj [OF s c that(1)] by blast
    with that p i(1) [OF False] s show ?thesis by (auto simp: sinv_def cpus_ok_def)
  qed
  with s show ?thesis by (simp add: sinv_def cpus_ok_def no_switch_simps [OF n])
qed

lemma move_threads:
  assumes s: "sinv K w q N" and c: "c \<in> Cs K" and n: "no_switch w w'"
    and p: "place w' = (place w)(curr w c := p')" "place_ok K (curr w c \<in> idles K w) p'"
    and d: "\<And>u. tstate w' u = tstate w u \<or> tstate w' u \<noteq> ThreadStateDying"
  shows "threads_ok K w'"
proof -
  have "place_ok K (u \<in> idles K w) (place w' u) \<and> tflags w u \<noteq> THREAD_FLAG_FORCE_TERMINATE_PENDING
      \<and> tstate w' u \<noteq> ThreadStateDying \<and> (\<not> oncpu K w u \<longrightarrow> (\<exists>k. place w' u = Resume k))" if "u \<in> Ts K" for u
    using s c p(2) d [of u] that by (cases "u = curr w c") (auto simp: sinv_def threads_ok_def p(1))
  then show ?thesis by (simp add: threads_ok_def no_switch_simps [OF n])
qed

lemma move_waits:
  assumes c: "c \<in> Cs K" and n: "no_switch w w'"
    and p: "place w' = (place w)(curr w c := p')" "blocks p' = blocks (place w (curr w c))"
    and d: "\<And>u. oncpu K w u \<or> tstate w' u = tstate w u"
  shows "waits K w' u k = waits K w u k"
  using oncpu_curr [OF c, of w] p(2) d [of u] by (auto simp: waits_def no_switch_simps [OF n] p(1))

definition calm :: "place \<Rightarrow> bool" where
  "calm p \<longleftrightarrow> cont_of p = None \<and> unblocks p = None \<and> (\<forall>t r. p \<noteq> UnblockRelease t r)"

lemma calmD:
  assumes "calm p"
  shows "cont_of p = None" "blocks p = None" "unblocks p = None" "\<not> holds_ready p"
    "p \<noteq> UnblockRelease t r" "p \<noteq> UnblockReady t r" "p \<noteq> Unblocking t r" "p \<noteq> InBlock k" "p \<noteq> BlockLocking k"
    "p \<noteq> TakeBlockLock k" "p \<noteq> Resume k" "p \<noteq> Cleanup k"
  using assms by (cases p; auto simp: calm_def)+

definition quiet :: "place \<Rightarrow> bool" where
  "quiet p \<longleftrightarrow> cont_of p = None \<and> unblocks p = None \<and> holds_mutex p = None \<and> holds_event p = None
     \<and> (\<forall>t r. p \<noteq> UnblockRelease t r)"

lemma quietD:
  assumes "quiet p"
  shows "cont_of p = None" "blocks p = None" "unblocks p = None" "holds_mutex p = None" "holds_event p = None"
    "\<not> holds_ready p" "p \<noteq> UnblockRelease t r" "p \<noteq> UnblockReady t r" "p \<noteq> Unblocking t r" "p \<noteq> InBlock k" "p \<noteq> BlockLocking k"
    "p \<noteq> TakeBlockLock k" "p \<noteq> Resume k" "p \<noteq> Cleanup k"
  using assms by (cases p; auto simp: quiet_def)+

lemma calm_move:
  assumes s: "sinv K w q N" and c: "c \<in> Cs K" and n: "no_switch w w'"
    and p: "calm (place w (curr w c))" "calm p'" "place_ok K (curr w c \<in> idles K w) p'"
    and w': "place w' = (place w)(curr w c := p')" "tstate w' = tstate w" "tblock w' = tblock w"
      "lists w' = lists w" "locks_ok K w'"
    and i: "\<And>d. d \<noteq> c \<Longrightarrow> IntrOn w' d = IntrOn w d" "p' \<noteq> Client \<Longrightarrow> \<not> IntrOn w' c"
  shows "sinv K w' q N"
proof -
  note q = calmD [OF p(1)] and q' = calmD [OF p(2)] and n [simp] = no_switch_simps [OF n]
  have wt: "waits K w' u k = waits K w u k" for u k
    by (rule move_waits [OF c assms(3) w'(1)]) (simp_all add: q q' w')
  have ub: "unblocks (place w' u) = unblocks (place w u)" "blocks (place w' u) = blocks (place w u)"
    "place w' u = TakeBlockLock k \<longleftrightarrow> place w u = TakeBlockLock k" 
    "place w' u = InBlock k \<longleftrightarrow> place w u = InBlock k" 
    "place w' u = BlockLocking k \<longleftrightarrow> place w u = BlockLocking k" 
    "place w' u = Resume k \<longleftrightarrow> place w u = Resume k" 
    "place w' u = Cleanup k \<longleftrightarrow> place w u = Cleanup k" 
    "place w' u = UnblockReady t r \<longleftrightarrow> place w u = UnblockReady t r" 
    "place w' u = UnblockRelease t r \<longleftrightarrow> place w u = UnblockRelease t r" for u k t r
    using q q' by (simp_all add: w'(1))
  have bp: "block_place K w' d = block_place K w d" for d
    using q q' by (auto simp: block_place_def w' split: place.splits)
  show ?thesis unfolding sinv_def
  proof (intro conjI)
    show "conf_ok K w'" "rings (lists w') (heads K w') (Ts K) q" using sinvD(1,2) [OF s] by (simp_all add: w'(2-4))
    show "cpus_ok K w'" by (rule move_cpus [OF s c assms(3) w'(1) i])
    show "threads_ok K w'" by (rule move_threads [OF s c assms(3) w'(1) p(3)]) (simp add: w')
    show "ready_ok K w' q" using sinvD(5) [OF s] unfolding ready_ok_def by (simp only: w'(2-4) n)
    show "wait_ok K w' q" using sinvD(6) [OF s] unfolding wait_ok_def by (simp only: wt n)
    show "limbo_ok K w' q N" using sinvD(7) [OF s] unfolding limbo_ok_def limbo_def fresh_def by (simp only: ub wt w'(2-4) n)
    show "block_ok K w'" using sinvD(8) [OF s] unfolding block_ok_def block_why_def bp by (simp only: ub w'(2-4) n)
    show "locks_ok K w'" by (rule w'(5))
    show "kept_ok K w' q N" using sinvD(10) [OF s] unfolding kept_ok_def by (simp only: ub n)
  qed
qed

lemma quiet_move:
  assumes s: "sinv K w q N" and c: "c \<in> Cs K" and n: "no_switch w w'"
    and p: "quiet (place w (curr w c))" "quiet p'" "place_ok K (curr w c \<in> idles K w) p'"
    and w': "place w' = (place w)(curr w c := p')" "tstate w' = tstate w" "tblock w' = tblock w"
      "mlock w' = mlock w" "elock w' = elock w" "lists w' = lists w" "ReadyThreadsLock w' = ReadyThreadsLock w"
    and i: "\<And>d. d \<noteq> c \<Longrightarrow> IntrOn w' d = IntrOn w d" "p' \<noteq> Client \<Longrightarrow> \<not> IntrOn w' c"
  shows "sinv K w' q N"
proof -
  note q = quietD [OF p(1)] and q' = quietD [OF p(2)]
  have "holds_mutex (place w' u) = holds_mutex (place w u)" "holds_event (place w' u) = holds_event (place w u)"
    "holds_ready (place w' u) = holds_ready (place w u)" for u
    using q q' by (simp_all add: w'(1))
  then have "locks_ok K w'"
    using sinvD(9) [OF s] unfolding locks_ok_def by (simp add: w'(2-) no_switch_simps [OF n])
  then show ?thesis
    using p(1,2) by (intro calm_move [OF s c n _ _ p(3) w'(1-3,6)] i) (simp_all add: quiet_def calm_def)
qed

end
