(* ===== verification/Sched_Moves.thy ===== *)
theory Sched_Moves
  imports Sched_Inv
begin

text \<open>
  Each kind of move of a processor keeps the invariant of \<open>Sched_Inv\<close>: the moves are stated on what the
  invariant sees of the world, so that the steps of \<open>Sched\<close> are instances of them.
\<close>

lemma waitsE:
  assumes "waits K w t k"
  shows "(oncpu K w t \<and> blocks (place w t) = Some k) \<or> (\<not> oncpu K w t \<and> place w t = Resume k \<and> tstate w t = ThreadStateBlocked)"
  using assms by (auto simp: waits_def split: if_splits)

lemma not_queued:
  assumes s: "sinv K w q N" and c: "c \<in> Cs K" and b: "blocks (place w (curr w c)) = None"
  shows "\<not> inq (heads K w) q (curr w c)" "d \<in> Cs K \<Longrightarrow> unblocks (place w (curr w d)) \<noteq> Some (curr w c)"
    "curr w c \<notin> N"
proof -
  have "oncpu K w (curr w c)" using c by simp
  with b have nw: "\<not> waits K w (curr w c) k" for k by (auto simp: waits_def)
  have "curr w c \<notin> set (q h)" if "h \<in> heads K w" for h
    using sinvD(5,6) [OF s] that nw c by (cases "h = ReadyThreadsList w") (auto simp: ready_ok_def wait_ok_def)
  then show "\<not> inq (heads K w) q (curr w c)" by (auto simp: inq_def)
  show "unblocks (place w (curr w d)) \<noteq> Some (curr w c)" if "d \<in> Cs K"
    using sinvD(7) [OF s] that nw by (auto simp: limbo_ok_def limbo_def)
  show "curr w c \<notin> N" using sinvD(7) [OF s] c by (auto simp: limbo_ok_def fresh_def)
qed

text \<open>No block lock is held by a processor that is at another kind of place.\<close>

fun with_block_lock :: "place \<Rightarrow> bool" where
  "with_block_lock (InBlock k) = True"
| "with_block_lock (BlockLocking k) = True"
| "with_block_lock (Resume k) = True"
| "with_block_lock (Cleanup k) = True"
| "with_block_lock (UnblockReady t r) = True"
| "with_block_lock (UnblockRelease t r) = True"
| "with_block_lock _ = False"

lemma no_block_lock:
  assumes s: "sinv K w q N" and c: "c \<in> Cs K" and t: "t \<in> Ts K"
    and p: "\<not> with_block_lock (place w (curr w c))"
  shows "tblock w t \<noteq> c"
proof
  assume b: "tblock w t = c"
  moreover have "c \<noteq> NULL" using curr_thread [OF s c] by simp
  ultimately have "block_why K w t c" using sinvD(8) [OF s] t by (auto simp: block_ok_def)
  then show False using p by (auto simp: block_why_def)
qed

lemma other_curr: "sinv K w q N \<Longrightarrow> c \<in> Cs K \<Longrightarrow> d \<in> Cs K \<Longrightarrow> d \<noteq> c \<Longrightarrow> curr w d \<noteq> curr w c"
  using curr_inj by blast

lemma other_idle: "sinv K w q N \<Longrightarrow> c \<in> Cs K \<Longrightarrow> d \<in> Cs K \<Longrightarrow> d \<noteq> c \<Longrightarrow> idle w d \<noteq> curr w c"
  unfolding sinv_def cpus_ok_def by metis

lemma idle_thread: "sinv K w q N \<Longrightarrow> d \<in> Cs K \<Longrightarrow> idle w d \<in> Ts K"
  by (simp add: sinv_def cpus_ok_def)

lemma block_move:
  assumes s: "sinv K w q N" and c: "c \<in> Cs K" and n: "no_switch w w'"
    and p: "place w' = (place w)(curr w c := p')"
    and F: "\<And>u. u \<in> Ts K \<Longrightarrow> tblock w u \<noteq> NULL \<Longrightarrow> tblock w u \<noteq> c \<Longrightarrow> tblock w' u = tblock w u \<and> tstate w' u = tstate w u"
    and G: "\<And>u. u \<in> Ts K \<Longrightarrow> tblock w' u = tblock w u \<or> tblock w' u = NULL \<or> tblock w' u = c"
    and W: "\<And>u. u \<in> Ts K \<Longrightarrow> tblock w' u = c \<Longrightarrow> block_why K w' u c"
    and P: "block_place K w' c"
    and I: "\<And>d. d \<in> Cs K \<Longrightarrow> d \<noteq> c \<Longrightarrow> tblock w' (idle w d) \<noteq> c"
  shows "block_ok K w'"
  unfolding block_ok_def
proof (intro conjI ballI impI)
  note b = sinvD(8) [OF s, unfolded block_ok_def] and n' = no_switch_simps [OF n]
  fix u assume u: "u \<in> Ts K" "tblock w' u \<noteq> NULL"
  show "tblock w' u \<in> Cs K" using G [OF u(1)] u b c by auto
  show "block_why K w' u (tblock w' u)"
  proof (cases "tblock w' u = c")
    case True
    with W [OF u(1)] show ?thesis by simp
  next
    case False
    with G [OF u(1)] u(2) have e: "tblock w' u = tblock w u" by blast
    with b u have bw: "block_why K w u (tblock w u)" "tblock w u \<in> Cs K" by auto
    with False e have "curr w (tblock w u) \<noteq> curr w c" using other_curr [OF s c] by metis
    with bw F [OF u(1)] False u(2) show ?thesis unfolding e by (auto simp: block_why_def p n')
  qed
next
  note b = sinvD(8) [OF s, unfolded block_ok_def] and n' = no_switch_simps [OF n]
  fix d assume d: "d \<in> Cs K" "tblock w' (idle w' d) \<noteq> NULL"
  have "tblock w' (idle w d) = tblock w (idle w d) \<or> tblock w' (idle w d) = c"
    using G [OF idle_thread [OF s d(1)]] d by (auto simp: n')
  moreover have "tblock w (idle w d) \<noteq> NULL \<longrightarrow> tblock w (idle w d) = d"
    using b d(1) by blast
  ultimately show "tblock w' (idle w' d) = d"
    using d I [OF d(1)] by (cases "d = c") (auto simp: n')
next
  note b = sinvD(8) [OF s, unfolded block_ok_def] and n' = no_switch_simps [OF n]
  fix d assume d: "d \<in> Cs K"
  show "block_place K w' d"
  proof (cases "d = c")
    case False
    have e: "place w' (curr w d) = place w (curr w d)" using other_curr [OF s c d False] by (simp add: p)
    have "block_place K w d" "d \<noteq> NULL" "curr w d \<in> Ts K" using b d curr_thread [OF s d] by auto
    then show ?thesis using F False by (auto simp: block_place_def n' e split: place.splits)
  qed (simp add: P)
qed

lemma limbo_move:
  assumes s: "sinv K w q N" and n: "no_switch w w'"
    and ub: "\<And>u. unblocks (place w' u) = unblocks (place w u)"
    and wt: "\<And>u k. waits K w' u k = waits K w u k"
    and tk: "\<And>u k. place w' u = TakeBlockLock k \<Longrightarrow> place w u = TakeBlockLock k"
    and st: "\<And>u. \<not> oncpu K w u \<Longrightarrow> tstate w' u = tstate w u"
  shows "limbo_ok K w' q N"
proof -
  have "limbo K w' q N u" if "limbo K w q N u" for u
    using that tk unfolding limbo_def no_switch_simps [OF n] wt by blast
  moreover have "fresh K w' q u" if "fresh K w q u" for u
    using that st unfolding fresh_def no_switch_simps [OF n] by simp
  ultimately show ?thesis
    using sinvD(7) [OF s] unfolding limbo_ok_def no_switch_simps [OF n] ub by blast
qed

text \<open>\<^verbatim>\<open>ThreadTakeBlockLock\<close>.\<close>

lemma take_block_lock_move:
  assumes s: "sinv K w q N" and c: "c \<in> Cs K" and n: "no_switch w w'"
    and p: "place w (curr w c) = TakeBlockLock k" and b: "tblock w (curr w c) = NULL"
    and w': "place w' = (place w)(curr w c := InBlock k)" "tstate w' = tstate w" "tblock w' = (tblock w)(curr w c := c)"
      "lists w' = lists w" "IntrOn w' = IntrOn w" "locks_ok K w'"
  shows "sinv K w' q N"
proof -
  note n' = no_switch_simps [OF n]
  have ub: "unblocks (place w' u) = unblocks (place w u)" "blocks (place w' u) = blocks (place w u)" for u
    by (simp_all add: w'(1) p)
  have wt: "waits K w' u k' = waits K w u k'" for u k'
    by (rule move_waits [OF c n w'(1)]) (simp_all add: p w')
  have ok: "place_ok K (curr w c \<in> idles K w) (InBlock k)"
    using sinvD(4) [OF s] curr_thread [OF s c] p by (auto simp: threads_ok_def)
  have off: "\<not> IntrOn w c" using sinvD(3) [OF s] c p by (auto simp: cpus_ok_def)
  have nb: "tblock w u \<noteq> c" if "u \<in> Ts K" for u
    by (rule no_block_lock [OF s c that]) (simp_all add: p)
  have "block_ok K w'"
  proof (rule block_move [OF s c n w'(1)])
    show "block_why K w' u c" if "u \<in> Ts K" "tblock w' u = c" for u
      using that nb by (auto simp: w' block_why_def n' split: if_splits)
    show "tblock w' (idle w d) \<noteq> c" if "d \<in> Cs K" "d \<noteq> c" for d
      using that nb [OF idle_thread [OF s that(1)]] other_idle [OF s c that] by (simp add: w')
  qed (use b in \<open>auto simp: w' block_place_def n'\<close>)
  moreover have "limbo_ok K w' q N"
    by (rule limbo_move [OF s n ub(1) wt]) (auto simp: w' split: if_splits)
  moreover have "cpus_ok K w'" by (rule move_cpus [OF s c n w'(1)]) (simp_all add: w' off)
  moreover have "threads_ok K w'" by (rule move_threads [OF s c n w'(1) ok]) (simp add: w')
  moreover have "ready_ok K w' q" using sinvD(5) [OF s] unfolding ready_ok_def by (simp only: w'(2) n')
  moreover have "wait_ok K w' q" using sinvD(6) [OF s] unfolding wait_ok_def by (simp only: wt n')
  moreover have "kept_ok K w' q N" using sinvD(10) [OF s] unfolding kept_ok_def by (simp only: ub n')
  ultimately show ?thesis using sinvD(1,2) [OF s] w'(6) by (simp add: sinv_def w'(2-4) n')
qed

text \<open>\<^verbatim>\<open>ThreadBlock\<close> up to the ready lock.\<close>

lemma block_enter_move:
  assumes s: "sinv K w q N" and c: "c \<in> Cs K" and n: "no_switch w w'"
    and p: "place w (curr w c) = InBlock k"
    and w': "place w' = (place w)(curr w c := BlockLocking k)" "tstate w' = (tstate w)(curr w c := ThreadStateBlocked)"
      "tblock w' = tblock w" "lists w' = lists w" "IntrOn w' = IntrOn w" "mlock w' = mlock w" "elock w' = elock w"
      "ReadyThreadsLock w' = ReadyThreadsLock w"
  shows "sinv K w' q N"
proof -
  note n' = no_switch_simps [OF n]
  have ub: "unblocks (place w' u) = unblocks (place w u)" "blocks (place w' u) = blocks (place w u)"
    "holds_mutex (place w' u) = holds_mutex (place w u)" "holds_event (place w' u) = holds_event (place w u)"
    "holds_ready (place w' u) = holds_ready (place w u)" for u
    by (simp_all add: w'(1) p)
  have st: "oncpu K w u \<or> tstate w' u = tstate w u" for u
    using c by (auto simp: w' oncpu_def)
  have wt: "waits K w' u k' = waits K w u k'" for u k'
    by (rule move_waits [OF c n w'(1) _ st]) (simp_all add: p)
  have ok: "place_ok K (curr w c \<in> idles K w) (BlockLocking k)"
    using sinvD(4) [OF s] curr_thread [OF s c] p by (auto simp: threads_ok_def)
  have off: "\<not> IntrOn w c" using sinvD(3) [OF s] c p by (auto simp: cpus_ok_def)
  have bt: "tblock w (curr w c) = c" using sinvD(8) [OF s] c p by (auto simp: block_ok_def block_place_def)
  have bw: "u = curr w c" if "u \<in> Ts K" "tblock w u = c" for u
    using sinvD(8) [OF s] that curr_thread [OF s c] p by (auto simp: block_ok_def block_why_def)
  have "block_ok K w'"
  proof (rule block_move [OF s c n w'(1)])
    show "block_why K w' u c" if "u \<in> Ts K" "tblock w' u = c" for u
      using bw [OF that(1)] that by (auto simp: w' block_why_def n')
    show "tblock w' (idle w d) \<noteq> c" if "d \<in> Cs K" "d \<noteq> c" for d
      using bw [OF idle_thread [OF s that(1)]] other_idle [OF s c that] by (auto simp: w')
  qed (use bt in \<open>auto simp: w' block_place_def n'\<close>)
  moreover have "limbo_ok K w' q N"
    by (rule limbo_move [OF s n ub(1) wt]) (use st in \<open>auto simp: w'(1) split: if_splits\<close>)
  moreover have "cpus_ok K w'" by (rule move_cpus [OF s c n w'(1)]) (simp_all add: w' off)
  moreover have "threads_ok K w'" by (rule move_threads [OF s c n w'(1) ok]) (simp add: w')
  moreover have "ready_ok K w' q"
    using sinvD(5) [OF s] st unfolding ready_ok_def n' by metis
  moreover have "wait_ok K w' q" using sinvD(6) [OF s] unfolding wait_ok_def by (simp only: wt n')
  moreover have "kept_ok K w' q N" using sinvD(10) [OF s] unfolding kept_ok_def by (simp only: ub n')
  moreover have "locks_ok K w'" using sinvD(9) [OF s] unfolding locks_ok_def by (simp add: ub w'(6-) n')
  ultimately show ?thesis using sinvD(1,2) [OF s] by (simp add: sinv_def w'(2-4) n')
qed

text \<open>The release of the ready lock, and the end of \<^verbatim>\<open>ThreadCleanupPostSchedule\<close>.\<close>

lemma cleanup_move:
  assumes s: "sinv K w q N" and c: "c \<in> Cs K" and n: "no_switch w w'"
    and p: "place w (curr w c) = Resume k"
    and w': "place w' = (place w)(curr w c := Cleanup k)" "tstate w' = tstate w"
      "tblock w' = tblock w" "lists w' = lists w" "IntrOn w' = IntrOn w" "mlock w' = mlock w" "elock w' = elock w"
      "ReadyThreadsLock w' = NULL"
  shows "sinv K w' q N"
proof -
  note n' = no_switch_simps [OF n]
  have ub: "unblocks (place w' u) = unblocks (place w u)" "blocks (place w' u) = blocks (place w u)"
    "holds_mutex (place w' u) = holds_mutex (place w u)" "holds_event (place w' u) = holds_event (place w u)" for u
    by (simp_all add: w'(1) p)
  have wt: "waits K w' u k' = waits K w u k'" for u k'
    by (rule move_waits [OF c n w'(1)]) (simp_all add: p w')
  have ok: "place_ok K (curr w c \<in> idles K w) (Cleanup k)"
    using sinvD(4) [OF s] curr_thread [OF s c] p by (auto simp: threads_ok_def)
  have off: "\<not> IntrOn w c" using sinvD(3) [OF s] c p by (auto simp: cpus_ok_def)
  have bw: "block_why K w u c" if "u \<in> Ts K" "tblock w u = c" for u
    using sinvD(8) [OF s] that curr_thread [OF s c] by (auto simp: block_ok_def)
  have "block_ok K w'"
  proof (rule block_move [OF s c n w'(1)])
    show "block_why K w' u c" if "u \<in> Ts K" "tblock w' u = c" for u
      using bw [OF that(1)] that p by (auto simp: w' block_why_def n')
    show "tblock w' (idle w d) \<noteq> c" if "d \<in> Cs K" "d \<noteq> c" for d
      using sinvD(8) [OF s] that curr_thread [OF s c] by (auto simp: w' block_ok_def)
    have "prev w c \<in> Ts K" using sinvD(8) [OF s] c p by (auto simp: block_ok_def block_place_def)
    then show "block_place K w' c" by (simp add: w' block_place_def n')
  qed (auto simp: w')
  moreover have "limbo_ok K w' q N"
    by (rule limbo_move [OF s n ub(1) wt]) (auto simp: w' split: if_splits)
  moreover have "cpus_ok K w'" by (rule move_cpus [OF s c n w'(1)]) (simp_all add: w' off)
  moreover have "threads_ok K w'" by (rule move_threads [OF s c n w'(1) ok]) (simp add: w')
  moreover have "ready_ok K w' q" using sinvD(5) [OF s] unfolding ready_ok_def by (simp only: w'(2) n')
  moreover have "wait_ok K w' q" using sinvD(6) [OF s] unfolding wait_ok_def by (simp only: wt n')
  moreover have "kept_ok K w' q N" using sinvD(10) [OF s] unfolding kept_ok_def by (simp only: ub n')
  moreover have "locks_ok K w'"
  proof -
    have "lock_ok (Cs K) NULL (\<lambda>d. holds_ready (place w' (curr w d)))"
    proof (rule lock_drop [OF _ _ c])
      show "lock_ok (Cs K) (ReadyThreadsLock w) (\<lambda>d. holds_ready (place w (curr w d)))"
        using sinvD(9) [OF s] by (simp add: locks_ok_def)
      show "holds_ready (place w' (curr w d)) = holds_ready (place w (curr w d))" if "d \<in> Cs K" "d \<noteq> c" for d
        using other_curr [OF s c that] by (simp add: w'(1))
    qed (use sinvD(1) [OF s] p in \<open>simp_all add: w'(1) conf_ok_def\<close>)
    then show ?thesis using sinvD(9) [OF s] unfolding locks_ok_def by (simp add: n' ub w'(6-))
  qed
  ultimately show ?thesis using sinvD(1,2) [OF s] by (simp add: sinv_def w'(2-4) n')
qed

lemma cleanup_prev_move:
  assumes s: "sinv K w q N" and c: "c \<in> Cs K" and n: "no_switch w w'"
    and p: "place w (curr w c) = Cleanup k" "quiet p'" "place_ok K (curr w c \<in> idles K w) p'"
    and w': "place w' = (place w)(curr w c := p')" "tstate w' = tstate w"
      "tblock w' = (if tblock w (prev w c) = c then (tblock w)(prev w c := NULL) else tblock w)"
      "lists w' = lists w" "mlock w' = mlock w" "elock w' = elock w" "ReadyThreadsLock w' = ReadyThreadsLock w"
    and i: "\<And>d. d \<noteq> c \<Longrightarrow> IntrOn w' d = IntrOn w d" "p' \<noteq> Client \<Longrightarrow> \<not> IntrOn w' c"
  shows "sinv K w' q N"
proof -
  note n' = no_switch_simps [OF n] and qt = quietD [OF p(2)]
  have ub: "unblocks (place w' u) = unblocks (place w u)" "blocks (place w' u) = blocks (place w u)"
    "holds_mutex (place w' u) = holds_mutex (place w u)" "holds_event (place w' u) = holds_event (place w u)"
    "holds_ready (place w' u) = holds_ready (place w u)" for u
    using qt by (simp_all add: w'(1) p(1))
  have wt: "waits K w' u k' = waits K w u k'" for u k'
    by (rule move_waits [OF c n w'(1)]) (simp_all add: p(1) qt w')
  have bw: "u = prev w c" if "u \<in> Ts K" "tblock w u = c" for u
    using sinvD(8) [OF s] that curr_thread [OF s c] p(1) by (auto simp: block_ok_def block_why_def)
  have nb: "tblock w' u \<noteq> c" if "u \<in> Ts K" for u
    using bw [OF that] curr_thread [OF s c] by (auto simp: w'(3))
  have "block_ok K w'"
  proof (rule block_move [OF s c n w'(1)])
    show "tblock w' (idle w d) \<noteq> c" if "d \<in> Cs K" "d \<noteq> c" for d
      by (rule nb [OF idle_thread [OF s that(1)]])
    show "block_place K w' c" using qt by (auto simp: block_place_def w'(1) n' split: place.splits)
  qed (use nb in \<open>auto simp: w'(2,3)\<close>)
  moreover have "limbo_ok K w' q N"
    by (rule limbo_move [OF s n ub(1) wt]) (use qt in \<open>auto simp: w' split: if_splits\<close>)
  moreover have "cpus_ok K w'" by (rule move_cpus [OF s c n w'(1) i])
  moreover have "threads_ok K w'" by (rule move_threads [OF s c n w'(1) p(3)]) (simp add: w')
  moreover have "ready_ok K w' q" using sinvD(5) [OF s] unfolding ready_ok_def by (simp only: w'(2) n')
  moreover have "wait_ok K w' q" using sinvD(6) [OF s] unfolding wait_ok_def by (simp only: wt n')
  moreover have "kept_ok K w' q N" using sinvD(10) [OF s] unfolding kept_ok_def by (simp only: ub n')
  moreover have "locks_ok K w'" using sinvD(9) [OF s] unfolding locks_ok_def by (simp add: ub w'(5-7) n')
  ultimately show ?thesis using sinvD(1,2) [OF s] by (simp add: sinv_def w'(4) n')
qed

lemma place_ok_curr: "sinv K w q N \<Longrightarrow> c \<in> Cs K \<Longrightarrow> place_ok K (curr w c \<in> idles K w) (place w (curr w c))"
  using curr_thread by (auto simp: sinv_def threads_ok_def)

lemma intr_off: "sinv K w q N \<Longrightarrow> c \<in> Cs K \<Longrightarrow> place w (curr w c) \<noteq> Client \<Longrightarrow> \<not> IntrOn w c"
  by (simp add: sinv_def cpus_ok_def)

lemma block_why_of: "sinv K w q N \<Longrightarrow> c \<in> Cs K \<Longrightarrow> u \<in> Ts K \<Longrightarrow> tblock w u = c \<Longrightarrow> block_why K w u c"
  using curr_thread [of K w q N c] by (auto simp: sinv_def block_ok_def)

text \<open>A thread enters the waiting list \<open>h\<close> of an object.\<close>

lemma wait_insert_move:
  assumes s: "sinv K w q N" and c: "c \<in> Cs K" and n: "no_switch w w'"
    and p: "quiet (place w (curr w c))" "place_ok K (curr w c \<in> idles K w) (TakeBlockLock k)"
    and h: "wait_head k = Some h" "h \<in> heads K w" "h \<noteq> ReadyThreadsList w" "curr w c \<notin> idles K w"
    and w': "place w' = (place w)(curr w c := TakeBlockLock k)" "tstate w' = tstate w" "tblock w' = tblock w"
      "IntrOn w' = IntrOn w" "locks_ok K w'" "rings (lists w') (heads K w) (Ts K) (q(h := q h @ [curr w c]))"
      "\<not> IntrOn w c"
  shows "sinv K w' (q(h := q h @ [curr w c])) N"
proof -
  note n' = no_switch_simps [OF n] and qt = quietD [OF p(1)]
  let ?q = "q(h := q h @ [curr w c])"
  note nq = not_queued [OF s c qt(2)]
  have ub: "unblocks (place w' u) = unblocks (place w u)" for u
    using qt by (simp add: w'(1))
  have wt: "waits K w' u k' = waits K w u k'" if "u \<noteq> curr w c" for u k'
    using that by (simp add: waits_def n' w'(1,2))
  have wt0: "waits K w' (curr w c) k" using c by (simp add: waits_def n' w'(1))
  have iq: "inq (heads K w) ?q u \<longleftrightarrow> inq (heads K w) q u \<or> u = curr w c" for u
    using h(2) by simp
  have nb: "tblock w u \<noteq> c" if "u \<in> Ts K" for u
    by (rule no_block_lock [OF s c that]) (use qt in \<open>cases "place w (curr w c)"; simp\<close>)
  have "block_ok K w'"
  proof (rule block_move [OF s c n w'(1)])
    show "tblock w' (idle w d) \<noteq> c" if "d \<in> Cs K" for d
      using nb [OF idle_thread [OF s that]] by (simp add: w')
  qed (use nb in \<open>auto simp: w' block_place_def n'\<close>)
  moreover have "limbo_ok K w' ?q N"
  proof -
    have "limbo K w' ?q N u" if "limbo K w q N u" "u \<noteq> curr w c" for u
      using that unfolding limbo_def n' iq wt [OF that(2)] by (simp add: w'(1))
    moreover have "fresh K w' ?q u" if "fresh K w q u" for u
      using that c unfolding fresh_def n' iq w'(2) by auto
    ultimately show ?thesis
      using sinvD(7) [OF s] nq unfolding limbo_ok_def n' ub by metis
  qed
  moreover have "cpus_ok K w'" by (rule move_cpus [OF s c n w'(1)]) (simp_all add: w')
  moreover have "threads_ok K w'" by (rule move_threads [OF s c n w'(1) p(2)]) (simp add: w')
  moreover have "ready_ok K w' ?q" using sinvD(5) [OF s] h(3) unfolding ready_ok_def n' w'(2) by simp
  moreover have "wait_ok K w' ?q"
  proof -
    have "\<exists>k. wait_head k = Some g \<and> waits K w' u k" "u \<notin> idles K w"
      if g: "g \<in> heads K w" "g \<noteq> ReadyThreadsList w" "u \<in> set (?q g)" for g u
    proof -
      have "(u = curr w c \<and> g = h) \<or> (u \<in> set (q g) \<and> u \<noteq> curr w c)"
        using g nq(1) by (auto simp: inq_def split: if_splits)
      then show "\<exists>k. wait_head k = Some g \<and> waits K w' u k" "u \<notin> idles K w"
        using sinvD(6) [OF s] g wt wt0 h by (auto simp: wait_ok_def)
    qed
    then show ?thesis unfolding wait_ok_def n' by blast
  qed
  moreover have "kept_ok K w' ?q N"
    using sinvD(10) [OF s] unfolding kept_ok_def n' ub iq by (auto simp: w'(1))
  ultimately show ?thesis using sinvD(1) [OF s] w'(5,6) by (simp add: sinv_def n')
qed

text \<open>A thread leaves its list to be unblocked; \<open>q'\<close> and \<open>N'\<close> are what is left.\<close>

lemma unblock_start_move:
  assumes s: "sinv K w q N" and c: "c \<in> Cs K" and n: "no_switch w w'"
    and p: "blocks (place w (curr w c)) = None" "unblocks (place w (curr w c)) = None"
      "\<not> with_block_lock (place w (curr w c))" "uret_ok K r"
    and t: "t \<in> Ts K" "t \<notin> idles K w" "\<exists>k. waits K w t k \<and> place w t \<noteq> TakeBlockLock k" "t \<notin> N'"
      "\<forall>d\<in>Cs K. unblocks (place w (curr w d)) \<noteq> Some t"
    and q': "\<And>u. inq (heads K w) q' u = (inq (heads K w) q u \<and> u \<noteq> t)" "\<And>g. set (q' g) \<subseteq> set (q g)" "N' \<subseteq> N"
      "N \<subseteq> insert t N'"
    and w': "place w' = (place w)(curr w c := Unblocking t r)" "tstate w' = tstate w" "tblock w' = tblock w"
      "\<And>d. d \<noteq> c \<Longrightarrow> IntrOn w' d = IntrOn w d" "\<not> IntrOn w' c" "locks_ok K w'" "rings (lists w') (heads K w) (Ts K) q'"
  shows "sinv K w' q' N'"
proof -
  note n' = no_switch_simps [OF n]
  have ub: "unblocks (place w' u) = (if u = curr w c then Some t else unblocks (place w u))" for u
    by (simp add: w'(1))
  have bl: "blocks (place w' u) = blocks (place w u)" for u
    using p by (simp add: w'(1))
  have wt: "waits K w' u k' = waits K w u k'" for u k'
    by (rule move_waits [OF c n w'(1)]) (simp_all add: p w')
  have tk: "place w' u = TakeBlockLock k \<longleftrightarrow> place w u = TakeBlockLock k" for u k
    using p(1) by (auto simp: w'(1))
  have nb: "tblock w u \<noteq> c" if "u \<in> Ts K" for u
    by (rule no_block_lock [OF s c that p(3)])
  have "block_ok K w'"
  proof (rule block_move [OF s c n w'(1)])
    show "tblock w' (idle w d) \<noteq> c" if "d \<in> Cs K" for d
      using nb [OF idle_thread [OF s that]] by (simp add: w')
  qed (use nb in \<open>auto simp: w' block_place_def n'\<close>)
  moreover have "limbo_ok K w' q' N'"
  proof -
    have lt: "limbo K w' q' N' t"
      using t(1-4) q'(1) unfolding limbo_def n' wt tk by simp
    moreover have "limbo K w' q' N' u" if "limbo K w q N u" for u
      using that q'(3) unfolding limbo_def n' wt tk q'(1) by blast
    moreover have "fresh K w' q' u" if "fresh K w q u" for u
      using that unfolding fresh_def n' q'(1) w'(2) by blast
    ultimately show ?thesis
      using sinvD(7) [OF s] t(5) q'(3) other_curr [OF s c]
      unfolding limbo_ok_def n' ub by (auto split: if_splits) metis
  qed
  moreover have "cpus_ok K w'" by (rule move_cpus [OF s c n w'(1,4)]) (simp_all add: w'(5))
  moreover have "threads_ok K w'" by (rule move_threads [OF s c n w'(1)]) (simp_all add: w' p)
  moreover have "ready_ok K w' q'" using sinvD(5) [OF s] q'(2) unfolding ready_ok_def n' w'(2) by blast
  moreover have "wait_ok K w' q'" using sinvD(6) [OF s] q'(2) unfolding wait_ok_def wt n' by blast
  moreover have "kept_ok K w' q' N'"
  proof -
    have u1: "unblocks (place w' (curr w c)) = Some t" by (simp add: ub)
    have u2: "unblocks (place w' (curr w d)) = Some u" if "unblocks (place w (curr w d)) = Some u" for d u
      using that p(2) by (auto simp: ub)
    have "u = t \<or> u \<in> N'" if "u \<in> N" for u using q'(4) that by blast
    with u1 u2 sinvD(10) [OF s] c show ?thesis unfolding kept_ok_def n' bl q'(1) by metis
  qed
  ultimately show ?thesis using sinvD(1) [OF s] w'(6,7) by (simp add: sinv_def n')
qed

text \<open>\<^verbatim>\<open>ThreadUnblock\<close> with the block lock of the thread taken.\<close>

lemma unblocked_is_blocked:
  assumes s: "sinv K w q N" and c: "c \<in> Cs K" and p: "unblocks (place w (curr w c)) = Some t"
    and b: "tblock w t = NULL \<or> tblock w t = c"
  shows "\<not> oncpu K w t \<and> tstate w t = ThreadStateBlocked \<and> (\<exists>k. place w t = Resume k)"
proof -
  have l: "limbo K w q N t" using sinvD(7) [OF s] c p by (auto simp: limbo_ok_def)
  then obtain k where k: "waits K w t k" "place w t \<noteq> TakeBlockLock k" by (auto simp: limbo_def)
  have "\<not> oncpu K w t"
  proof
    assume o: "oncpu K w t"
    then obtain d where d: "d \<in> Cs K" "curr w d = t" by (auto simp: oncpu_def)
    have "blocks (place w t) = Some k" using k(1) o by (simp add: waits_def)
    with k(2) have "place w t = InBlock k \<or> place w t = BlockLocking k"
      by (cases "place w t") auto
    with d sinvD(8) [OF s] have "tblock w t = d" by (auto simp: block_ok_def block_place_def)
    with b d curr_thread [OF s d(1)] have "d = c" by auto
    with d p \<open>place w t = InBlock k \<or> place w t = BlockLocking k\<close> show False by auto
  qed
  with k(1) show ?thesis by (simp add: waits_def)
qed

lemma unblock_take_move:
  assumes s: "sinv K w q N" and c: "c \<in> Cs K" and n: "no_switch w w'"
    and p: "place w (curr w c) = Unblocking t r" and b: "tblock w t = NULL"
    and w': "place w' = (place w)(curr w c := UnblockReady t r)" "tstate w' = tstate w" "tblock w' = (tblock w)(t := c)"
      "lists w' = lists w" "IntrOn w' = IntrOn w" "mlock w' = mlock w" "elock w' = elock w"
      "ReadyThreadsLock w' = ReadyThreadsLock w"
  shows "sinv K w' q N"
proof -
  note n' = no_switch_simps [OF n]
  have l: "t \<in> Ts K" "t \<notin> idles K w" using sinvD(7) [OF s] c p by (auto simp: limbo_ok_def limbo_def)
  have ub: "unblocks (place w' u) = unblocks (place w u)" "blocks (place w' u) = blocks (place w u)"
    "holds_ready (place w' u) = holds_ready (place w u)" for u
    by (simp_all add: w'(1) p)
  have hl: "holds_mutex (place w' u) = holds_mutex (place w u)" "holds_event (place w' u) = holds_event (place w u)" for u
    by (cases r; simp add: w'(1) p)+
  have wt: "waits K w' u k' = waits K w u k'" for u k'
    by (rule move_waits [OF c n w'(1)]) (simp_all add: p w')
  have ok: "place_ok K (curr w c \<in> idles K w) (UnblockReady t r)"
    using place_ok_curr [OF s c] p by simp
  have nb: "tblock w u \<noteq> c" if "u \<in> Ts K" for u
    by (rule no_block_lock [OF s c that]) (simp add: p)
  have "block_ok K w'"
  proof (rule block_move [OF s c n w'(1)])
    show "tblock w' (idle w d) \<noteq> c" if "d \<in> Cs K" for d
      using nb [OF idle_thread [OF s that]] l(2) that by (auto simp: w' idles_def)
    show "block_why K w' u c" if "u \<in> Ts K" "tblock w' u = c" for u
      using that nb [OF that(1)] by (auto simp: w' block_why_def n' split: if_splits)
  qed (use nb b l in \<open>auto simp: w' block_place_def n'\<close>)
  moreover have "limbo_ok K w' q N"
    by (rule limbo_move [OF s n ub(1) wt]) (auto simp: w' split: if_splits)
  moreover have "cpus_ok K w'" by (rule move_cpus [OF s c n w'(1)]) (use intr_off [OF s c] p in \<open>simp_all add: w'\<close>)
  moreover have "threads_ok K w'" by (rule move_threads [OF s c n w'(1) ok]) (simp add: w')
  moreover have "ready_ok K w' q" using sinvD(5) [OF s] unfolding ready_ok_def by (simp only: w'(2) n')
  moreover have "wait_ok K w' q" using sinvD(6) [OF s] unfolding wait_ok_def by (simp only: wt n')
  moreover have "kept_ok K w' q N" using sinvD(10) [OF s] unfolding kept_ok_def by (simp only: ub n')
  moreover have "locks_ok K w'" using sinvD(9) [OF s] unfolding locks_ok_def by (simp add: ub hl w'(6-) n')
  ultimately show ?thesis using sinvD(1,2) [OF s] by (simp add: sinv_def w'(2-4) n')
qed

text \<open>The thread goes to the end of the ready list.\<close>

lemma unblock_ready_move:
  assumes s: "sinv K w q N" and c: "c \<in> Cs K" and n: "no_switch w w'"
    and p: "place w (curr w c) = UnblockReady t r"
    and w': "place w' = (place w)(curr w c := UnblockRelease t r)" "tstate w' = (tstate w)(t := ThreadStateReady)"
      "tblock w' = tblock w" "IntrOn w' = IntrOn w" "mlock w' = mlock w" "elock w' = elock w"
      "ReadyThreadsLock w' = ReadyThreadsLock w"
      "rings (lists w') (heads K w) (Ts K) (q(ReadyThreadsList w := q (ReadyThreadsList w) @ [t]))"
  shows "sinv K w' (q(ReadyThreadsList w := q (ReadyThreadsList w) @ [t])) N"
proof -
  note n' = no_switch_simps [OF n]
  let ?q = "q(ReadyThreadsList w := q (ReadyThreadsList w) @ [t])"
  have b: "t \<in> Ts K" "tblock w t = c" using sinvD(8) [OF s] c p by (auto simp: block_ok_def block_place_def)
  have lm: "limbo K w q N t" using sinvD(7) [OF s] c p by (auto simp: limbo_ok_def)
  then have l: "t \<notin> idles K w" "\<not> inq (heads K w) q t" "t \<notin> N" by (auto simp: limbo_def)
  have off: "\<not> oncpu K w t" using unblocked_is_blocked [OF s c, of t] p b by simp
  have h: "ReadyThreadsList w \<in> heads K w" by (simp add: heads_def)
  have iq: "inq (heads K w) ?q u \<longleftrightarrow> inq (heads K w) q u \<or> u = t" for u
    using h by simp
  have ub: "unblocks (place w' u) = (if u = curr w c then None else unblocks (place w u))" for u
    by (simp add: w'(1))
  have bl: "blocks (place w' u) = blocks (place w u)" "holds_ready (place w' u) = holds_ready (place w u)" for u
    by (simp_all add: w'(1) p)
  have hl: "holds_mutex (place w' u) = holds_mutex (place w u)" "holds_event (place w' u) = holds_event (place w u)" for u
    by (cases r; simp add: w'(1) p)+
  have wt: "waits K w' u k' = waits K w u k'" if "u \<noteq> t" for u k'
    using that by (auto simp: waits_def n' w'(1,2) p split: if_splits)
  have tk: "place w' u = TakeBlockLock k \<longleftrightarrow> place w u = TakeBlockLock k" for u k
    using p by (auto simp: w'(1))
  have ok: "place_ok K (curr w c \<in> idles K w) (UnblockRelease t r)"
    using place_ok_curr [OF s c] p by simp
  have bw: "u = t" if "u \<in> Ts K" "tblock w u = c" for u
    using block_why_of [OF s c that] p by (auto simp: block_why_def)
  have "block_ok K w'"
  proof (rule block_move [OF s c n w'(1)])
    show "tblock w' (idle w d) \<noteq> c" if "d \<in> Cs K" for d
      using bw [OF idle_thread [OF s that]] l(1) that by (auto simp: w' idles_def)
    show "block_why K w' u c" if "u \<in> Ts K" "tblock w' u = c" for u
      using bw [OF that(1)] that by (auto simp: w' block_why_def n')
  qed (use b in \<open>auto simp: w' block_place_def n'\<close>)
  moreover have "limbo_ok K w' ?q N"
  proof -
    have "limbo K w' ?q N u" if "limbo K w q N u" "u \<noteq> t" for u
      using that unfolding limbo_def n' iq wt [OF that(2)] tk by simp
    moreover have "fresh K w' ?q u" if "fresh K w q u" "u \<noteq> t" for u
      using that unfolding fresh_def n' iq by (simp add: w'(2))
    moreover have "unblocks (place w (curr w d)) \<noteq> Some t" if "d \<in> Cs K" "curr w d \<noteq> curr w c" for d
      using sinvD(7) [OF s] that c p unfolding limbo_ok_def by (metis unblocks.simps(2))
    ultimately show ?thesis
      using sinvD(7) [OF s] l(3) unfolding limbo_ok_def n' ub by (smt (verit) option.distinct(1))
  qed
  moreover have "cpus_ok K w'" by (rule move_cpus [OF s c n w'(1)]) (use intr_off [OF s c] p in \<open>simp_all add: w'\<close>)
  moreover have "threads_ok K w'" by (rule move_threads [OF s c n w'(1) ok]) (simp add: w')
  moreover have "ready_ok K w' ?q" using sinvD(5) [OF s] off l(1) unfolding ready_ok_def n' by (auto simp: w'(2))
  moreover have "wait_ok K w' ?q"
    using sinvD(6) [OF s] l(2) wt unfolding wait_ok_def n' inq_def by (auto split: if_splits) metis+
  moreover have "kept_ok K w' ?q N"
    using sinvD(10) [OF s] c p unfolding kept_ok_def n' ub iq bl
    by (metis option.inject unblocks.simps(2))
  moreover have "locks_ok K w'" using sinvD(9) [OF s] unfolding locks_ok_def by (simp add: bl hl w'(5-7) n')
  ultimately show ?thesis using sinvD(1) [OF s] w'(8) by (simp add: sinv_def n')
qed

text \<open>The end of \<^verbatim>\<open>ThreadUnblock\<close>.\<close>

lemma unblock_end_move:
  assumes s: "sinv K w q N" and c: "c \<in> Cs K" and n: "no_switch w w'"
    and p: "place w (curr w c) = UnblockRelease t r" "blocks p' = None" "unblocks p' = None" "\<not> with_block_lock p'"
      "place_ok K (curr w c \<in> idles K w) p'"
    and w': "place w' = (place w)(curr w c := p')" "tstate w' = tstate w" "tblock w' = (tblock w)(t := NULL)"
      "lists w' = lists w" "locks_ok K w'"
    and i: "\<And>d. d \<noteq> c \<Longrightarrow> IntrOn w' d = IntrOn w d" "p' \<noteq> Client \<Longrightarrow> \<not> IntrOn w' c"
  shows "sinv K w' q N"
proof -
  note n' = no_switch_simps [OF n]
  have b: "t \<in> Ts K" "tblock w t = c" using sinvD(8) [OF s] c p by (auto simp: block_ok_def block_place_def)
  have ub: "unblocks (place w' u) = unblocks (place w u)" "blocks (place w' u) = blocks (place w u)" for u
    using p by (simp_all add: w'(1))
  have wt: "waits K w' u k' = waits K w u k'" for u k'
    by (rule move_waits [OF c n w'(1)]) (simp_all add: p w')
  have bw: "u = t" if "u \<in> Ts K" "tblock w u = c" for u
    using block_why_of [OF s c that] p by (auto simp: block_why_def)
  have nb: "tblock w' u \<noteq> c" if "u \<in> Ts K" for u
    using bw [OF that] curr_thread [OF s c] by (auto simp: w'(3))
  have "block_ok K w'"
  proof (rule block_move [OF s c n w'(1)])
    show "tblock w' (idle w d) \<noteq> c" if "d \<in> Cs K" for d
      by (rule nb [OF idle_thread [OF s that]])
    show "block_place K w' c" using p by (cases p') (auto simp: block_place_def w'(1) n')
  qed (use nb b in \<open>auto simp: w'(2,3)\<close>)
  moreover have "limbo_ok K w' q N"
    by (rule limbo_move [OF s n ub(1) wt]) (use p in \<open>auto simp: w' split: if_splits\<close>)
  moreover have "cpus_ok K w'" by (rule move_cpus [OF s c n w'(1) i])
  moreover have "threads_ok K w'" by (rule move_threads [OF s c n w'(1) p(5)]) (simp add: w')
  moreover have "ready_ok K w' q" using sinvD(5) [OF s] unfolding ready_ok_def by (simp only: w'(2) n')
  moreover have "wait_ok K w' q" using sinvD(6) [OF s] unfolding wait_ok_def by (simp only: wt n')
  moreover have "kept_ok K w' q N" using sinvD(10) [OF s] unfolding kept_ok_def by (simp only: ub n')
  ultimately show ?thesis using sinvD(1,2) [OF s] w'(5) by (simp add: sinv_def w'(4) n')
qed

text \<open>The idle thread takes its block lock.\<close>

lemma idle_block_move:
  assumes s: "sinv K w q N" and c: "c \<in> Cs K" and n: "no_switch w w'"
    and p: "quiet (place w (curr w c))" "curr w c \<in> idles K w"
    and w': "place w' = (place w)(curr w c := TakeBlockLock IdleLoop)" "tstate w' = tstate w" "tblock w' = tblock w"
      "lists w' = lists w" "mlock w' = mlock w" "elock w' = elock w" "ReadyThreadsLock w' = ReadyThreadsLock w"
    and i: "\<And>d. d \<noteq> c \<Longrightarrow> IntrOn w' d = IntrOn w d" "\<not> IntrOn w' c"
  shows "sinv K w' q N"
proof -
  note n' = no_switch_simps [OF n] and qt = quietD [OF p(1)]
  have ub: "unblocks (place w' u) = unblocks (place w u)" 
    "holds_mutex (place w' u) = holds_mutex (place w u)" "holds_event (place w' u) = holds_event (place w u)"
    "holds_ready (place w' u) = holds_ready (place w u)" for u
    using qt by (simp_all add: w'(1))
  have wt: "waits K w' u k' = waits K w u k'" if "u \<noteq> curr w c" for u k'
    using that by (simp add: waits_def n' w'(1,2))
  have nb: "tblock w u \<noteq> c" if "u \<in> Ts K" for u
    by (rule no_block_lock [OF s c that]) (use qt in \<open>cases "place w (curr w c)"; simp\<close>)
  have "block_ok K w'"
  proof (rule block_move [OF s c n w'(1)])
    show "tblock w' (idle w d) \<noteq> c" if "d \<in> Cs K" for d
      using nb [OF idle_thread [OF s that]] by (simp add: w')
  qed (use nb in \<open>auto simp: w' block_place_def n'\<close>)
  moreover have "limbo_ok K w' q N"
  proof -
    have "limbo K w' q N u" if "limbo K w q N u" for u
    proof -
      have "u \<noteq> curr w c" using that p(2) by (auto simp: limbo_def)
      with that show ?thesis unfolding limbo_def n' by (simp add: wt w'(1))
    qed
    moreover have "fresh K w' q u" if "fresh K w q u" for u
      using that unfolding fresh_def n' w'(2) by auto
    ultimately show ?thesis
      using sinvD(7) [OF s] unfolding limbo_ok_def n' ub by blast
  qed
  moreover have "cpus_ok K w'" by (rule move_cpus [OF s c n w'(1) i(1)]) (use i(2) in simp_all)
  moreover have "threads_ok K w'" by (rule move_threads [OF s c n w'(1)]) (simp_all add: w' p(2))
  moreover have "ready_ok K w' q" using sinvD(5) [OF s] unfolding ready_ok_def by (simp only: w'(2) n')
  moreover have "wait_ok K w' q" using sinvD(6) [OF s] p(2) wt unfolding wait_ok_def n' by metis
  moreover have "kept_ok K w' q N" using sinvD(10) [OF s] p(2) unfolding kept_ok_def n' ub by (auto simp: w'(1))
  moreover have "locks_ok K w'" using sinvD(9) [OF s] unfolding locks_ok_def by (simp add: ub w'(5-7) n')
  ultimately show ?thesis using sinvD(1,2) [OF s] by (simp add: sinv_def w'(4) n')
qed

section \<open>The switch\<close>

lemma idle_not_queued:
  assumes s: "sinv K w q N" and t: "t \<in> idles K w"
  shows "\<not> inq (heads K w) q t"
  using sinvD(5,6) [OF s] t by (auto simp: inq_def ready_ok_def wait_ok_def)

lemma queued_place:
  assumes s: "sinv K w q N" and t: "t \<in> set (q (ReadyThreadsList w))"
  shows "t \<in> Ts K" "\<not> oncpu K w t" "t \<notin> idles K w" "tstate w t = ThreadStateReady" "\<exists>k. place w t = Resume k"
proof -
  show r: "\<not> oncpu K w t" "t \<notin> idles K w" "tstate w t = ThreadStateReady"
    using sinvD(5) [OF s] t by (auto simp: ready_ok_def)
  show "t \<in> Ts K" using sinvD(2) [OF s] t by (auto simp: rings_def heads_def)
  with r(1) sinvD(4) [OF s] show "\<exists>k. place w t = Resume k" by (auto simp: threads_ok_def)
qed

lemma idle_place:
  assumes s: "sinv K w q N" and c: "c \<in> Cs K" and i: "idle w c \<noteq> curr w c"
  shows "\<not> oncpu K w (idle w c)" "\<exists>k. place w (idle w c) = Resume k"
proof -
  show r: "\<not> oncpu K w (idle w c)"
    using other_idle [OF s _ c] i by (auto simp: oncpu_def) metis
  with idle_thread [OF s c] sinvD(4) [OF s] show "\<exists>k. place w (idle w c) = Resume k" by (auto simp: threads_ok_def)
qed

lemma curr_is_idle: "sinv K w q N \<Longrightarrow> c \<in> Cs K \<Longrightarrow> curr w c \<in> idles K w \<longleftrightarrow> curr w c = idle w c"
  using other_idle unfolding idles_def by fastforce

text \<open>
  The thread of \<open>c\<close> gives up the processor, either yielding (\<open>y\<close>), already in the ready list unless it
  is the idle thread, or blocked; \<open>nx\<close> is taken from the ready list, or is the idle thread. \<open>q1\<close> are the
  lists before \<open>nx\<close> is removed.
\<close>

definition gives_up :: "kconf \<Rightarrow> kworld \<Rightarrow> (ADDR \<Rightarrow> ADDR list) \<Rightarrow> ADDR \<Rightarrow> bool \<Rightarrow> cont \<Rightarrow> THREAD_STATE \<Rightarrow> (ADDR \<Rightarrow> ADDR list) \<Rightarrow> bool" where
  "gives_up K w q c y k st q1 \<longleftrightarrow> (let t = curr w c; R = ReadyThreadsList w in
     if y then (\<exists>f. place w t = InYield f) \<and> st = ThreadStateReady \<and> k = YieldDone
       \<and> q1 = (if t \<in> idles K w then q else q(R := q R @ [t]))
     else place w t = BlockLocking k \<and> st = ThreadStateBlocked \<and> q1 = q)"

definition next_thread :: "ADDR \<Rightarrow> kworld \<Rightarrow> (ADDR \<Rightarrow> ADDR list) \<Rightarrow> ADDR \<Rightarrow> (ADDR \<Rightarrow> ADDR list) \<Rightarrow> bool" where
  "next_thread c w q nx q' \<longleftrightarrow>
     (\<exists>ts. (q (ReadyThreadsList w) = nx # ts \<and> q' = q(ReadyThreadsList w := ts))
       \<or> (q (ReadyThreadsList w) = [] \<and> nx = idle w c \<and> q' = q))"

definition switched :: "kworld \<Rightarrow> ADDR \<Rightarrow> cont \<Rightarrow> THREAD_STATE \<Rightarrow> ADDR \<Rightarrow> kworld \<Rightarrow> bool" where
  "switched w c k st nx w' \<longleftrightarrow> curr w' = (curr w)(c := nx) \<and> prev w' = (prev w)(c := curr w c) \<and> idle w' = idle w
     \<and> place w' = (place w)(curr w c := Resume k) \<and> tstate w' = (tstate w)(curr w c := st) \<and> tblock w' = tblock w
     \<and> tflags w' = tflags w \<and> mlock w' = mlock w \<and> elock w' = elock w \<and> ReadyThreadsLock w' = c
     \<and> ReadyThreadsList w' = ReadyThreadsList w \<and> IntrOn w' = IntrOn w"

definition switch :: "kconf \<Rightarrow> kworld \<Rightarrow> (ADDR \<Rightarrow> ADDR list) \<Rightarrow> ADDR set \<Rightarrow> ADDR \<Rightarrow> bool \<Rightarrow> cont \<Rightarrow> THREAD_STATE
    \<Rightarrow> (ADDR \<Rightarrow> ADDR list) \<Rightarrow> ADDR \<Rightarrow> (ADDR \<Rightarrow> ADDR list) \<Rightarrow> kworld \<Rightarrow> bool" where
  "switch K w q N c y k st q1 nx q' w' \<longleftrightarrow> sinv K w q N \<and> c \<in> Cs K \<and> ReadyThreadsLock w = NULL
     \<and> gives_up K w q c y k st q1 \<and> (\<exists>m. rings m (heads K w) (Ts K) q1) \<and> next_thread c w q1 nx q'
     \<and> rings (lists w') (heads K w) (Ts K) q' \<and> switched w c k st nx w'"

lemma switchD:
  assumes "switch K w q N c y k st q1 nx q' w'"
  shows "sinv K w q N" "c \<in> Cs K" "ReadyThreadsLock w = NULL" "gives_up K w q c y k st q1"
    "next_thread c w q1 nx q'" "rings (lists w') (heads K w) (Ts K) q'" "switched w c k st nx w'"
  using assms by (auto simp: switch_def)

lemma switched_simps:
  assumes "switched w c k st nx w'"
  shows "curr w' = (curr w)(c := nx)" "prev w' = (prev w)(c := curr w c)" "idle w' = idle w"
    "place w' = (place w)(curr w c := Resume k)" "tstate w' = (tstate w)(curr w c := st)" "tblock w' = tblock w"
    "tflags w' = tflags w" "mlock w' = mlock w" "elock w' = elock w" "ReadyThreadsLock w' = c"
    "ReadyThreadsList w' = ReadyThreadsList w" "IntrOn w' = IntrOn w"
    "idles K w' = idles K w" "heads K w' = heads K w" "conf_ok K w' = conf_ok K w"
  using assms by (simp_all add: switched_def idles_def heads_def conf_ok_def)

text \<open>The lists before and after.\<close>

lemma switch_lists:
  assumes x: "switch K w q N c y k st q1 nx q' w'"
  shows "inq (heads K w) q1 u \<longleftrightarrow> inq (heads K w) q u \<or> (u = curr w c \<and> y \<and> curr w c \<notin> idles K w)"
    "inq (heads K w) q' u \<longleftrightarrow> inq (heads K w) q1 u \<and> u \<noteq> nx"
    "h \<noteq> ReadyThreadsList w \<Longrightarrow> q' h = q h"
    "u \<in> set (q1 (ReadyThreadsList w)) \<Longrightarrow> u \<in> set (q (ReadyThreadsList w)) \<or> (u = curr w c \<and> y \<and> curr w c \<notin> idles K w)"
    "u \<in> set (q' (ReadyThreadsList w)) \<Longrightarrow> u \<in> set (q1 (ReadyThreadsList w)) \<and> u \<noteq> nx"
proof -
  let ?R = "ReadyThreadsList w"
  note d = switchD [OF x]
  have R: "?R \<in> heads K w" by (simp add: heads_def)
  show i1: "inq (heads K w) q1 u \<longleftrightarrow> inq (heads K w) q u \<or> (u = curr w c \<and> y \<and> curr w c \<notin> idles K w)" for u
    using d(4) R by (auto simp: gives_up_def Let_def split: if_splits)
  obtain m where r: "rings m (heads K w) (Ts K) q1" using x by (auto simp: switch_def)
  show "inq (heads K w) q' u \<longleftrightarrow> inq (heads K w) q1 u \<and> u \<noteq> nx"
  proof (cases "q1 ?R = []")
    case True
    with d(2,5) have "q' = q1" "nx \<in> idles K w" by (auto simp: next_thread_def idles_def)
    with idle_not_queued [OF d(1)] i1 show ?thesis by auto
  next
    case False
    with d(5) obtain ts where e: "q1 ?R = nx # ts" "q' = q1(?R := ts)" by (auto simp: next_thread_def)
    show ?thesis unfolding e(2) by (rule inq_remove [OF r R e(1)])
  qed
  show "q' h = q h" if "h \<noteq> ?R"
    using d(4,5) that by (auto simp: gives_up_def Let_def next_thread_def split: if_splits)
  show "u \<in> set (q1 ?R) \<Longrightarrow> u \<in> set (q ?R) \<or> (u = curr w c \<and> y \<and> curr w c \<notin> idles K w)"
    using d(4) by (auto simp: gives_up_def Let_def split: if_splits)
  show "u \<in> set (q' ?R) \<Longrightarrow> u \<in> set (q1 ?R) \<and> u \<noteq> nx"
    using d(5) rings_distinct [OF r R] by (auto simp: next_thread_def)
qed

text \<open>The thread that is left.\<close>

lemma switch_old:
  assumes x: "switch K w q N c y k st q1 nx q' w'"
  shows "unblocks (place w (curr w c)) = None" "holds_mutex (place w (curr w c)) = None"
    "holds_event (place w (curr w c)) = None" "place w (curr w c) \<noteq> Client"
    "place w (curr w c) \<noteq> UnblockReady u r" "place w (curr w c) \<noteq> UnblockRelease u r"
    "y \<Longrightarrow> \<not> inq (heads K w) q (curr w c)" "y \<Longrightarrow> d \<in> Cs K \<Longrightarrow> unblocks (place w (curr w d)) \<noteq> Some (curr w c)"
    "cont_ok K (curr w c \<in> idles K w) k"
proof -
  note d = switchD [OF x]
  show "unblocks (place w (curr w c)) = None" "holds_mutex (place w (curr w c)) = None"
    "holds_event (place w (curr w c)) = None" "place w (curr w c) \<noteq> Client"
    "place w (curr w c) \<noteq> UnblockReady u r" "place w (curr w c) \<noteq> UnblockRelease u r"
    using d(4) by (auto simp: gives_up_def Let_def split: if_splits)
  show "y \<Longrightarrow> \<not> inq (heads K w) q (curr w c)" "y \<Longrightarrow> d \<in> Cs K \<Longrightarrow> unblocks (place w (curr w d)) \<noteq> Some (curr w c)"
    using not_queued [OF d(1,2)] d(4) by (auto simp: gives_up_def Let_def)
  show "cont_ok K (curr w c \<in> idles K w) k"
    using place_ok_curr [OF d(1,2)] d(4) by (auto simp: gives_up_def Let_def split: if_splits)
qed

text \<open>The thread that is picked.\<close>

lemma switch_next:
  assumes x: "switch K w q N c y k st q1 nx q' w'"
  shows "nx = curr w c \<and> (y \<or> curr w c \<in> idles K w)
      \<or> nx \<noteq> curr w c \<and> (nx \<in> set (q (ReadyThreadsList w)) \<or> nx = idle w c)"
    "nx \<in> Ts K" "nx \<noteq> curr w c \<Longrightarrow> \<not> oncpu K w nx" "\<exists>k. place w' nx = Resume k"
    "d \<in> Cs K \<Longrightarrow> nx = idle w d \<Longrightarrow> d = c"
proof -
  let ?R = "ReadyThreadsList w"
  note d = switchD [OF x] and s = switchD(1) [OF x] and c = switchD(2) [OF x]
  have "nx \<in> set (q1 ?R) \<or> nx = idle w c" using d(5) by (auto simp: next_thread_def)
  then show nxq: "nx = curr w c \<and> (y \<or> curr w c \<in> idles K w)
      \<or> nx \<noteq> curr w c \<and> (nx \<in> set (q ?R) \<or> nx = idle w c)"
    using switch_lists(4) [OF x, of nx] queued_place(2) [OF s, of "curr w c"] c curr_is_idle [OF s c] by auto
  show "nx \<in> Ts K" using nxq queued_place(1) [OF s] idle_thread [OF s c] curr_thread [OF s c] by blast
  have nxo: "\<not> oncpu K w nx" "\<exists>k. place w nx = Resume k" if "nx \<noteq> curr w c"
    using nxq that queued_place [OF s] idle_place [OF s c] by auto
  then show "nx \<noteq> curr w c \<Longrightarrow> \<not> oncpu K w nx" by simp
  show "\<exists>k. place w' nx = Resume k" using nxo(2) by (auto simp: switched_simps [OF d(7)])
  show "d = c" if e: "d \<in> Cs K" "nx = idle w d" for d
  proof -
    have "nx \<notin> set (q ?R)" using queued_place(3) [OF s] e by (auto simp: idles_def)
    then have "nx = curr w c \<or> nx = idle w c" using nxq by blast
    then show ?thesis
      using other_idle [OF s c e(1)] sinvD(3) [OF s] c e by (auto simp: cpus_ok_def inj_on_def)
  qed
qed

lemma switch_oncpu:
  assumes x: "switch K w q N c y k st q1 nx q' w'"
  shows "oncpu K w' u \<longleftrightarrow> u = nx \<or> (u \<noteq> curr w c \<and> oncpu K w u)"
    "d \<in> Cs K \<Longrightarrow> d \<noteq> c \<Longrightarrow> curr w' d = curr w d"
    "d \<in> Cs K \<Longrightarrow> d \<noteq> c \<Longrightarrow> place w' (curr w' d) = place w (curr w d)"
    "d \<in> Cs K \<Longrightarrow> unblocks (place w' (curr w' d)) = unblocks (place w (curr w d))"
proof -
  note d = switchD [OF x]
  note w' = switched_simps [OF d(7)]
  show "oncpu K w' u \<longleftrightarrow> u = nx \<or> (u \<noteq> curr w c \<and> oncpu K w u)"
    using d(2) other_curr [OF d(1,2)] by (auto simp: oncpu_def w') metis
  show "d \<in> Cs K \<Longrightarrow> d \<noteq> c \<Longrightarrow> curr w' d = curr w d" by (simp add: w')
  show pc: "d \<in> Cs K \<Longrightarrow> d \<noteq> c \<Longrightarrow> place w' (curr w' d) = place w (curr w d)"
    using other_curr [OF d(1,2)] by (auto simp: w')
  show "d \<in> Cs K \<Longrightarrow> unblocks (place w' (curr w' d)) = unblocks (place w (curr w d))"
    using pc switch_next(4) [OF x] switch_old(1) [OF x] by (cases "d = c") (auto simp: w'(1))
qed

lemma switch_waits:
  assumes x: "switch K w q N c y k st q1 nx q' w'" and u: "waits K w u k'" "u \<noteq> nx"
  shows "waits K w' u k'"
proof (cases "u = curr w c")
  case True
  with u switchD(2,4) [OF x] have "k' = k" "\<not> y" "st = ThreadStateBlocked"
    by (auto simp: waits_def gives_up_def Let_def split: if_splits)
  with True u show ?thesis using switch_oncpu(1) [OF x, of u] by (simp add: waits_def switched_simps [OF switchD(7) [OF x]])
next
  case False
  with u switch_oncpu(1) [OF x, of u] show ?thesis by (simp add: waits_def switched_simps [OF switchD(7) [OF x]])
qed

lemma switch_cpus:
  assumes x: "switch K w q N c y k st q1 nx q' w'"
  shows "cpus_ok K w'"
  unfolding cpus_ok_def
proof (intro conjI)
  note s = switchD(1) [OF x] and c = switchD(2) [OF x] and w' = switched_simps [OF switchD(7) [OF x]]
  show "\<forall>d\<in>Cs K. curr w' d \<in> Ts K \<and> idle w' d \<in> Ts K"
    using sinvD(3) [OF s] switch_next(2) [OF x] by (auto simp: cpus_ok_def w')
  have "curr w d \<noteq> nx" if "d \<in> Cs K" "d \<noteq> c" for d
    using other_curr [OF s c that] switch_next(3) [OF x] that by (cases "nx = curr w c") (auto simp: oncpu_def)
  with curr_inj [OF s] show "inj_on (curr w') (Cs K)"
    by (auto simp: inj_on_def w')
  show "inj_on (idle w') (Cs K)" using sinvD(3) [OF s] by (simp add: cpus_ok_def w')
  show "\<forall>d\<in>Cs K. \<forall>e\<in>Cs K. d \<noteq> e \<longrightarrow> curr w' d \<noteq> idle w' e"
    using sinvD(3) [OF s] switch_next(5) [OF x] by (auto simp: cpus_ok_def w')
  show "\<forall>d\<in>Cs K. place w' (curr w' d) \<noteq> Client \<longrightarrow> \<not> IntrOn w' d"
  proof (intro ballI impI)
    fix d assume d: "d \<in> Cs K" "place w' (curr w' d) \<noteq> Client"
    then show "\<not> IntrOn w' d"
      using switch_oncpu(3) [OF x d(1)] intr_off [OF s d(1)] switch_old(4) [OF x] by (cases "d = c") (auto simp: w'(12))
  qed
qed

lemma switch_queues:
  assumes x: "switch K w q N c y k st q1 nx q' w'"
  shows "threads_ok K w'" "ready_ok K w' q'" "wait_ok K w' q'"
proof -
  note d = switchD [OF x] and s = switchD(1) [OF x] and c = switchD(2) [OF x]
  note w' = switched_simps [OF d(7)] and oc = switch_oncpu(1) [OF x]
  have st: "st \<noteq> ThreadStateDying" and yst: "y \<Longrightarrow> st = ThreadStateReady"
    using d(4) by (auto simp: gives_up_def Let_def split: if_splits)
  from st show "threads_ok K w'"
    using sinvD(4) [OF s] switch_old(9) [OF x] oc unfolding threads_ok_def w'(13,7) by (auto simp: w')
  have "tstate w' u = ThreadStateReady \<and> \<not> oncpu K w' u \<and> u \<notin> idles K w" if u: "u \<in> set (q' (ReadyThreadsList w))" for u
  proof -
    have "u \<noteq> nx" "u \<in> set (q (ReadyThreadsList w)) \<or> (u = curr w c \<and> y \<and> curr w c \<notin> idles K w)"
      using switch_lists(5) [OF x u] switch_lists(4) [OF x, of u] by auto
    moreover have "u \<noteq> curr w c" if "u \<in> set (q (ReadyThreadsList w))"
      using queued_place(2) [OF s that] oncpu_curr [OF c, of w] by auto
    ultimately show ?thesis
      using yst oc [of u] queued_place [OF s, of u] by (auto simp: w'(5))
  qed
  then show "ready_ok K w' q'" by (simp add: ready_ok_def w')
  have "u \<notin> idles K w \<and> (\<exists>k. wait_head k = Some h \<and> waits K w' u k)"
    if h: "h \<in> heads K w" "h \<noteq> ReadyThreadsList w" "u \<in> set (q' h)" for h u
  proof -
    have "u \<in> set (q h)" using h switch_lists(3) [OF x] by simp
    moreover have "u \<noteq> nx" using switch_lists(2) [OF x, of u] h by (auto simp: inq_def)
    ultimately show ?thesis using sinvD(6) [OF s] h switch_waits [OF x] unfolding wait_ok_def by blast
  qed
  then show "wait_ok K w' q'" by (simp add: wait_ok_def w')
qed

lemma switch_limbo:
  assumes x: "switch K w q N c y k st q1 nx q' w'"
  shows "limbo_ok K w' q' N"
proof -
  note s = switchD(1) [OF x] and c = switchD(2) [OF x] and w' = switched_simps [OF switchD(7) [OF x]]
  note sl = switch_lists(1,2) [OF x] and nxq = switch_next(1) [OF x]
  have R: "ReadyThreadsList w \<in> heads K w" by (simp add: heads_def)
  have l1: "limbo K w' q' N u" if u: "limbo K w q N u" "y \<Longrightarrow> u \<noteq> curr w c" for u
  proof -
    have "u \<noteq> nx" using u nxq c R by (auto simp: limbo_def idles_def inq_def)
    moreover from u(1) obtain k' where "waits K w u k'" "place w u \<noteq> TakeBlockLock k'" by (auto simp: limbo_def)
    moreover from this(2) have "place w' u \<noteq> TakeBlockLock k'" by (simp add: w')
    ultimately show ?thesis using u switch_waits [OF x, of u k'] sl unfolding limbo_def w'(13,14) by auto
  qed
  have f1: "fresh K w' q' u" if u: "fresh K w q u" for u
  proof -
    have "u \<noteq> curr w c" "u \<noteq> nx" using u oncpu_curr [OF c, of w] nxq R c by (auto simp: fresh_def inq_def idles_def)
    with u show ?thesis unfolding fresh_def w'(13,14) sl switch_oncpu(1) [OF x] by (simp add: w')
  qed
  show ?thesis
    using sinvD(7) [OF s] l1 f1 switch_old(8) [OF x] unfolding limbo_ok_def by (simp add: switch_oncpu(4) [OF x]) metis
qed

lemma switch_block:
  assumes x: "switch K w q N c y k st q1 nx q' w'"
  shows "block_ok K w'"
proof -
  note d = switchD [OF x] and s = switchD(1) [OF x] and c = switchD(2) [OF x]
  note w' = switched_simps [OF d(7)] and oc = switch_oncpu(1) [OF x] and pc = switch_oncpu(2,3) [OF x]
  note b = sinvD(8) [OF s, unfolded block_ok_def]
  obtain k' where nxp: "place w' nx = Resume k'" using switch_next(4) [OF x] by blast
  have bc: "u = curr w c \<and> \<not> y \<and> st = ThreadStateBlocked" if "u \<in> Ts K" "tblock w u = c" for u
    using block_why_of [OF s c that] d(4) switch_old(5,6) [OF x] by (auto simp: block_why_def gives_up_def Let_def split: if_splits)
  have "block_why K w' u (tblock w u)" if u: "u \<in> Ts K" "tblock w u \<noteq> NULL" for u
  proof (cases "tblock w u = c")
    case True
    with bc [OF u(1)] have "u = curr w c" "st = ThreadStateBlocked" by auto
    with oc [of "curr w c"] nxp show ?thesis unfolding True by (auto simp: block_why_def w')
  next
    case False
    from b u have e: "tblock w u \<in> Cs K" "block_why K w u (tblock w u)" by auto
    have "u \<noteq> nx" if "\<not> oncpu K w u" "tstate w u = ThreadStateBlocked"
    proof
      assume "u = nx"
      with that switch_next(1) [OF x] queued_place(4) [OF s, of u] oncpu_curr [OF c, of w] have "u = idle w c" by auto
      with b c u False show False by auto
    qed
    moreover have "curr w (tblock w u) \<noteq> curr w c" using other_curr [OF s c e(1) False] by simp
    ultimately show ?thesis using e(2) pc [OF e(1) False] oc [of u] oncpu_curr [OF c, of w]
      by (auto simp: block_why_def w'(2,4,5) False)
  qed
  moreover have "block_place K w' e" if e: "e \<in> Cs K" for e
  proof (cases "e = c")
    case True
    with nxp curr_thread [OF s c] show ?thesis by (simp add: block_place_def w'(1,2))
  next
    case False
    have "tstate w' (curr w e) = tstate w (curr w e)" using other_curr [OF s c e False] by (simp add: w')
    moreover have "block_place K w e" using b e by blast
    ultimately show ?thesis using pc [OF e False] False
      by (cases "place w (curr w e)") (simp_all add: block_place_def w'(2,6))
  qed
  ultimately show ?thesis using b unfolding block_ok_def by (simp add: w'(3,6))
qed

lemma switch_locks:
  assumes x: "switch K w q N c y k st q1 nx q' w'"
  shows "locks_ok K w'"
proof -
  note s = switchD(1) [OF x] and c = switchD(2) [OF x] and w' = switched_simps [OF switchD(7) [OF x]]
  note pc = switch_oncpu(3) [OF x] and P = switch_old [OF x]
  obtain k' where nxp: "place w' nx = Resume k'" using switch_next(4) [OF x] by blast
  have "lock_ok (Cs K) c (\<lambda>d. holds_ready (place w' (curr w' d)))"
    by (rule lock_take [OF _ c, where f = "\<lambda>d. holds_ready (place w (curr w d))"])
      (use sinvD(1,9) [OF s] switchD(3) [OF x] pc nxp in \<open>auto simp: locks_ok_def conf_ok_def w'(1)\<close>)
  moreover have "lock_ok (Cs K) (mlock w a) (\<lambda>d. holds_mutex (place w' (curr w' d)) = Some a)" if "a \<in> Ms K" for a
    by (rule lock_keep [where f = "\<lambda>d. holds_mutex (place w (curr w d)) = Some a"])
      (use sinvD(9) [OF s] that pc nxp P(2) in \<open>auto simp: locks_ok_def w'(1)\<close>)
  moreover have "lock_ok (Cs K) (elock w a) (\<lambda>d. holds_event (place w' (curr w' d)) = Some a)" if "a \<in> Es K" for a
    by (rule lock_keep [where f = "\<lambda>d. holds_event (place w (curr w d)) = Some a"])
      (use sinvD(9) [OF s] that pc nxp P(3) in \<open>auto simp: locks_ok_def w'(1)\<close>)
  ultimately show ?thesis by (simp add: locks_ok_def w'(8-10))
qed

lemma switch_kept:
  assumes x: "switch K w q N c y k st q1 nx q' w'"
  shows "kept_ok K w' q' N"
proof -
  note d = switchD [OF x] and s = switchD(1) [OF x] and c = switchD(2) [OF x]
  note w' = switched_simps [OF d(7)] and oc = switch_oncpu(1) [OF x]
  have "inq (heads K w) q' u \<or> u \<in> N \<or> (\<exists>d\<in>Cs K. unblocks (place w' (curr w' d)) = Some u)"
    if u: "u \<in> Ts K" "u \<notin> idles K w" "\<not> oncpu K w' u \<or> blocks (place w' u) \<noteq> None" for u
  proof -
    have nn: "u \<noteq> nx" using u(3) oc switch_next(4) [OF x] by auto
    have "\<not> oncpu K w u \<or> blocks (place w u) \<noteq> None \<or> u = curr w c" using u(3) oc by (auto simp: w')
    then have "inq (heads K w) q1 u \<or> u \<in> N \<or> (\<exists>d\<in>Cs K. unblocks (place w (curr w d)) = Some u)"
      using sinvD(10) [OF s] u(1,2) d(4) switch_lists(1) [OF x, of u] unfolding kept_ok_def
      by (cases "u = curr w c") (auto simp: gives_up_def Let_def split: if_splits)
    then show ?thesis using nn switch_lists(2) [OF x] switch_oncpu(4) [OF x] by auto
  qed
  then show ?thesis unfolding kept_ok_def w'(13,14) by blast
qed

lemma schedule_move:
  assumes x: "switch K w q N c y k st q1 nx q' w'"
  shows "sinv K w' q' N"
  using switch_cpus [OF x] switch_queues [OF x] switch_limbo [OF x] switch_block [OF x] switch_locks [OF x]
    switch_kept [OF x] sinvD(1) [OF switchD(1) [OF x]] switchD(6) [OF x]
  by (simp add: sinv_def switched_simps [OF switchD(7) [OF x]])

end
