(* ===== verification/Sched_Steps.thy ===== *)
theory Sched_Steps
  imports Sched_Moves
begin

text \<open>
  The steps of \<open>kstep\<close> other than those of the mutex: from a state of the invariants no assertion of
  the code fails, and the invariants hold again. Beside the invariant of the scheduler
  (\<open>sinv\<close>) this theory states the one of the mutexes (\<open>minv\<close>).
\<close>

section \<open>The mutex\<close>

text \<open>
  \<open>held t a\<close> counts the acquisitions of mutex \<open>a\<close> that have returned to thread \<open>t\<close> and have not been
  released. What a place means for a mutex: the thread waits for it, is about to release it, or is
  about to look at it for the first time.
\<close>

fun mwait :: "place \<Rightarrow> ADDR option" where
  "mwait (Resume (BlockedOnMutex a)) = Some a"
| "mwait (Cleanup (BlockedOnMutex a)) = Some a"
| "mwait (TakeBlockLock (BlockedOnMutex a)) = Some a"
| "mwait (InBlock (BlockedOnMutex a)) = Some a"
| "mwait (BlockLocking (BlockedOnMutex a)) = Some a"
| "mwait (MutexRelocking a) = Some a"
| "mwait _ = None"

definition mrole :: "ADDR \<Rightarrow> place \<Rightarrow> bool \<times> bool \<times> bool" where
  "mrole a p = (mwait p = Some a, p = MutexReleasing a, p = MutexLocking a)"

definition mutex_ok :: "kconf \<Rightarrow> kworld \<Rightarrow> (ADDR \<Rightarrow> ADDR list) \<Rightarrow> (ADDR \<Rightarrow> ADDR \<Rightarrow> nat) \<Rightarrow> ADDR \<Rightarrow> bool" where
  "mutex_ok K w q held a \<longleftrightarrow>
     (let W = set (q (MutexWaitingList a)); H = holder w a in
       (W \<noteq> {} \<longrightarrow> H \<noteq> NULL) \<and> H \<notin> W
     \<and> (\<forall>t\<in>Ts K. mwait (place w t) = Some a \<longrightarrow> t \<in> W \<or> H = t)
     \<and> (\<forall>t\<in>Ts K. held t a > 0 \<longrightarrow> H = t \<and> unat (depth w a) = held t a \<and> mrole a (place w t) = (False, False, False))
     \<and> (\<forall>t\<in>Ts K. place w t = MutexReleasing a \<longrightarrow> H = t)
     \<and> (\<forall>t\<in>Ts K. place w t = MutexLocking a \<longrightarrow> H \<noteq> t)
     \<and> (H \<noteq> NULL \<longrightarrow> H \<in> Ts K \<and> (held H a > 0 \<or> mwait (place w H) = Some a \<or> place w H = MutexReleasing a)
          \<and> (held H a = 0 \<longrightarrow> depth w a = 1)))"

definition minv :: "kconf \<Rightarrow> kworld \<Rightarrow> (ADDR \<Rightarrow> ADDR list) \<Rightarrow> (ADDR \<Rightarrow> ADDR \<Rightarrow> nat) \<Rightarrow> bool" where
  "minv K w q held \<longleftrightarrow> (\<forall>a\<in>Ms K. mutex_ok K w q held a)"

lemma mutex_frame:
  assumes "mutex_ok K w q held a" "holder w' a = holder w a" "depth w' a = depth w a"
    "q' (MutexWaitingList a) = q (MutexWaitingList a)" "\<And>t. held' t a = held t a"
    "\<And>t. mrole a (place w' t) = mrole a (place w t)"
  shows "mutex_ok K w' q' held' a"
proof -
  have e: "mwait (place w' t) = Some a \<longleftrightarrow> mwait (place w t) = Some a"
    "place w' t = MutexReleasing a \<longleftrightarrow> place w t = MutexReleasing a"
    "place w' t = MutexLocking a \<longleftrightarrow> place w t = MutexLocking a" for t
    using assms(6) [of t] by (auto simp: mrole_def)
  show ?thesis
    using assms(1) unfolding mutex_ok_def Let_def assms(2-6) e .
qed

lemma minv_frame:
  assumes "minv K w q held" "holder w' = holder w" "depth w' = depth w"
    "\<And>a. a \<in> Ms K \<Longrightarrow> q' (MutexWaitingList a) = q (MutexWaitingList a)"
    "\<And>t a. a \<in> Ms K \<Longrightarrow> mrole a (place w' t) = mrole a (place w t)"
  shows "minv K w' q' held"
  unfolding minv_def
proof
  fix a assume a: "a \<in> Ms K"
  show "mutex_ok K w' q' held a"
    by (rule mutex_frame [of K w q held]) (use assms a in \<open>auto simp: minv_def\<close>)
qed

section \<open>The scheduler picks the next thread\<close>

definition same_mutexes :: "kworld \<Rightarrow> kworld \<Rightarrow> bool" where
  "same_mutexes w w' \<longleftrightarrow> holder w' = holder w \<and> depth w' = depth w \<and> maxdepth w' = maxdepth w"

lemma GetReadyThread_correct:
  assumes r: "rings (lists w) H T q" "ReadyThreadsList w \<in> H"
    and a: "\<not> IntrOn w c" "ReadyThreadsLock w = c"
    and st: "\<And>t. t \<in> set (q (ReadyThreadsList w)) \<Longrightarrow> tstate w t = ThreadStateReady"
  shows "\<exists>nx q' m. next_thread c w q nx q' \<and> ThreadGetReadyThread c w = Some (nx, w\<lparr>lists := m\<rparr>) \<and> rings m H T q'"
proof (cases "q (ReadyThreadsList w)")
  case Nil
  have "ThreadGetReadyThread c w = Some (idle w c, w\<lparr>lists := lists w\<rparr>)"
    using rings_remove_empty [OF r Nil] a by (simp add: ThreadGetReadyThread_def idle_def)
  moreover have "next_thread c w q (idle w c) q" using Nil by (simp add: next_thread_def)
  ultimately show ?thesis using r(1) by blast
next
  case (Cons nx ts)
  obtain m where m: "RemoveHeadList (lists w) (ReadyThreadsList w) = Some (ReadyList nx, m)"
    "rings m H T (q(ReadyThreadsList w := ts))" "ReadyList nx \<noteq> ReadyThreadsList w"
    using rings_remove [OF r Cons] by blast
  have "tstate w nx = ThreadStateReady" using st Cons by simp
  then have "ThreadGetReadyThread c w = Some (nx, w\<lparr>lists := m\<rparr>)"
    using m a by (simp add: ThreadGetReadyThread_def tstate_def)
  moreover have "next_thread c w q nx (q(ReadyThreadsList w := ts))"
    using Cons by (auto simp: next_thread_def)
  ultimately show ?thesis using m(2) by blast
qed

lemma ThreadSchedule_correct:
  assumes r: "rings (lists w) H T q" "ReadyThreadsList w \<in> H" "NULL \<notin> T" "idle w c \<in> T"
    and a: "\<not> IntrOn w c" "ReadyThreadsLock w = c" "curr w c \<noteq> NULL"
    and st: "\<And>t. t \<in> set (q (ReadyThreadsList w)) \<Longrightarrow> tstate w t = ThreadStateReady"
  shows "\<exists>nx q' w'. next_thread c w q nx q' \<and> ThreadSchedule c k w = Some w' \<and> rings (lists w') H T q'
    \<and> curr w' = (curr w)(c := nx) \<and> prev w' = (prev w)(c := curr w c) \<and> idle w' = idle w
    \<and> place w' = (place w)(curr w c := Resume k) \<and> tstate w' = tstate w \<and> tblock w' = tblock w
    \<and> tflags w' = tflags w \<and> mlock w' = mlock w \<and> elock w' = elock w \<and> ReadyThreadsLock w' = c
    \<and> ReadyThreadsList w' = ReadyThreadsList w \<and> IntrOn w' = IntrOn w \<and> same_mutexes w w'"
proof -
  let ?w = "upd_cpu c (PreviousThread_update (\<lambda>_. cur w c)) w"
  have e: "lists ?w = lists w" "ReadyThreadsList ?w = ReadyThreadsList w" "IntrOn ?w = IntrOn w"
    "ReadyThreadsLock ?w = ReadyThreadsLock w" "tstate ?w = tstate w" "idle ?w = idle w"
    by (simp_all add: view_simps view_fold)
  obtain nx q' m where nx: "next_thread c ?w q nx q'" "ThreadGetReadyThread c ?w = Some (nx, ?w\<lparr>lists := m\<rparr>)" "rings m H T q'"
    using GetReadyThread_correct [of ?w H T q c] r a st unfolding e by blast
  have n1: "next_thread c w q nx q'" using nx(1) by (simp add: next_thread_def e)
  have "nx \<in> T"
  proof (cases "q (ReadyThreadsList w) = []")
    case True then show ?thesis using n1 r(4) by (auto simp: next_thread_def)
  next
    case False
    then have "nx \<in> set (q (ReadyThreadsList w))" using n1 by (auto simp: next_thread_def)
    then show ?thesis using r(1,2) by (auto simp: rings_def)
  qed
  then have "nx \<noteq> NULL" using r(3) by blast
  have c1: "cur w c = curr w c" by (simp add: curr_def)
  show ?thesis
  proof (cases "nx = curr w c")
    case True
    let ?v = "upd_thread (curr w c) (UninterruptedTicks_update (\<lambda>n. n + 1))
        (at (curr w c) (Resume k) (?w\<lparr>lists := m\<rparr>))"
    have "ThreadSchedule c k w = Some ?v"
      using a nx(2) True by (simp add: ThreadSchedule_def c1 Let_def)
    moreover have "(curr w)(c := nx) = curr w" using True by simp
    ultimately show ?thesis using n1 nx(3) a(2)
      by (intro exI [of _ nx] exI [of _ q'] exI [of _ ?v]) (simp add: view_simps view_fold same_mutexes_def)
  next
    case False
    let ?v = "upd_cpu c (CurrentThread_update (\<lambda>_. nx))
        (upd_thread (curr w c) (UninterruptedTicks_update (\<lambda>_. 0)) (at (curr w c) (Resume k) (?w\<lparr>lists := m\<rparr>)))"
    have "ThreadSchedule c k w = Some ?v"
      using a nx(2) False \<open>nx \<noteq> NULL\<close> by (simp add: ThreadSchedule_def c1 Let_def)
    then show ?thesis using n1 nx(3) a(2)
      by (intro exI [of _ nx] exI [of _ q'] exI [of _ ?v]) (simp add: view_simps view_fold same_mutexes_def)
  qed
qed

section \<open>The steps\<close>

definition good :: "kconf \<Rightarrow> (ADDR \<Rightarrow> ADDR \<Rightarrow> nat) \<Rightarrow> ADDR set \<Rightarrow> kworld option \<Rightarrow> bool" where
  "good K held N r \<longleftrightarrow> (\<exists>w' q'. r = Some w' \<and> sinv K w' q' N \<and> minv K w' q' held)"

lemma goodI: "sinv K w' q' N \<Longrightarrow> minv K w' q' held \<Longrightarrow> good K held N (Some w')"
  by (auto simp: good_def)

lemma good_acquire:
  assumes "sinv K w q N" "minv K w q held" "l \<noteq> c" "l = NULL \<Longrightarrow> good K held N r"
  shows "good K held N (acquire c l w r)"
  using assms by (auto simp: acquire_def intro: goodI)

lemma ready_lock_other:
  assumes "sinv K w q N" "c \<in> Cs K" "\<not> holds_ready (place w (curr w c))"
  shows "ReadyThreadsLock w \<noteq> c"
  using assms by (auto simp: sinv_def locks_ok_def lock_ok_def)

lemma mutex_lock_other:
  assumes "sinv K w q N" "c \<in> Cs K" "a \<in> Ms K" "holds_mutex (place w (curr w c)) \<noteq> Some a"
  shows "mlock w a \<noteq> c"
  using assms by (auto simp: sinv_def locks_ok_def lock_ok_def)

lemma event_lock_other:
  assumes "sinv K w q N" "c \<in> Cs K" "a \<in> Es K" "holds_event (place w (curr w c)) \<noteq> Some a"
  shows "elock w a \<noteq> c"
  using assms by (auto simp: sinv_def locks_ok_def lock_ok_def)

lemma mutex_lock_own:
  assumes "sinv K w q N" "c \<in> Cs K" "a \<in> Ms K" "holds_mutex (place w (curr w c)) = Some a"
  shows "mlock w a = c"
  using assms by (auto simp: sinv_def locks_ok_def lock_ok_def)

lemma event_lock_own:
  assumes "sinv K w q N" "c \<in> Cs K" "a \<in> Es K" "holds_event (place w (curr w c)) = Some a"
  shows "elock w a = c"
  using assms by (auto simp: sinv_def locks_ok_def lock_ok_def)

lemma head_neq:
  assumes "sinv K w q N" "a \<in> Ms K"
  shows "MutexWaitingList a \<noteq> ReadyThreadsList w" "MutexWaitingList a \<in> heads K w"
  using sinvD(1) [OF assms(1)] assms(2) unfolding conf_ok_def heads_def by (metis UnCI imageI, blast)

lemma ehead_neq:
  assumes "sinv K w q N" "a \<in> Es K"
  shows "EventWaitingList a \<noteq> ReadyThreadsList w" "EventWaitingList a \<in> heads K w"
    "b \<in> Ms K \<Longrightarrow> MutexWaitingList b \<noteq> EventWaitingList a"
  using sinvD(1) [OF assms(1)] assms(2) unfolding conf_ok_def heads_def
  by (metis UnCI imageI, blast, metis disjoint_iff imageI)

lemma mrole_none: "mwait p = None \<Longrightarrow> (\<And>b. p \<noteq> MutexReleasing b \<and> p \<noteq> MutexLocking b) \<Longrightarrow> mrole a p = (False, False, False)"
  by (simp add: mrole_def)

lemma switch_good:
  assumes s: "sinv K w q N" and m: "minv K w q held" and c: "c \<in> Cs K"
    and y: "gives_up K w q c y k st q1" and l: "ReadyThreadsLock w = NULL"
    and v: "rings (lists v) (heads K w) (Ts K) q1" "curr v = curr w" "prev v = prev w" "idle v = idle w" "place v = place w"
      "tstate v = (tstate w)(curr w c := st)" "tblock v = tblock w" "tflags v = tflags w" "mlock v = mlock w" "elock v = elock w"
      "ReadyThreadsLock v = c" "ReadyThreadsList v = ReadyThreadsList w" "IntrOn v = IntrOn w" "same_mutexes w v"
  shows "good K held N (ThreadSchedule c k v)"
proof -
  have T: "NULL \<notin> Ts K" "idle v c \<in> Ts K" "curr v c \<noteq> NULL" "\<not> IntrOn v c" "ReadyThreadsList v \<in> heads K w"
    using sinvD(1) [OF s] idle_thread [OF s c] curr_thread [OF s c] intr_off [OF s c] y
    by (auto simp: v conf_ok_def heads_def gives_up_def Let_def split: if_splits)
  have st: "tstate v u = ThreadStateReady" if "u \<in> set (q1 (ReadyThreadsList v))" for u
    using that y queued_place(2,4) [OF s, of u] oncpu_curr [OF c, of w]
    by (auto simp: v gives_up_def Let_def split: if_splits)
  obtain nx q' w' where x: "next_thread c v q1 nx q'" "ThreadSchedule c k v = Some w'"
    and w': "rings (lists w') (heads K w) (Ts K) q'" "curr w' = (curr v)(c := nx)" "prev w' = (prev v)(c := curr v c)" "idle w' = idle v"
    "place w' = (place v)(curr v c := Resume k)" "tstate w' = tstate v" "tblock w' = tblock v"
    "tflags w' = tflags v" "mlock w' = mlock v" "elock w' = elock v" "ReadyThreadsLock w' = c"
    "ReadyThreadsList w' = ReadyThreadsList v" "IntrOn w' = IntrOn v" "same_mutexes v w'"
    using ThreadSchedule_correct [OF v(1) T(5,1,2,4) v(11) T(3) st, where k = k] by auto
  have nx: "next_thread c w q1 nx q'" using x(1) by (simp add: next_thread_def v)
  have "switched w c k st nx w'" by (simp add: switched_def w' v)
  then have sw: "switch K w q N c y k st q1 nx q' w'"
    using s c l y v(1) nx w'(1) by (auto simp: switch_def)
  have "minv K w' q' held"
  proof (rule minv_frame [OF m])
    show "holder w' = holder w" "depth w' = depth w" using w'(14) v(14) by (simp_all add: same_mutexes_def)
    show "q' (MutexWaitingList a) = q (MutexWaitingList a)" if "a \<in> Ms K" for a
      by (rule switch_lists(3) [OF sw head_neq(1) [OF s that]])
    show "mrole a (place w' u) = mrole a (place w u)" for u a
      using y by (cases k) (auto simp: w' v gives_up_def Let_def mrole_def split: if_splits)
  qed
  with schedule_move [OF sw] x(2) show ?thesis by (auto simp: good_def)
qed

lemma yield_step:
  assumes s: "sinv K w q N" and m: "minv K w q held" and c: "c \<in> Cs K" and p: "place w (curr w c) = InYield f"
  shows "good K held N (ThreadYield_schedule c f w)"
  unfolding ThreadYield_schedule_def
proof (rule good_acquire [OF s m])
  show "ReadyThreadsLock w \<noteq> c" by (rule ready_lock_other [OF s c]) (simp add: p)
  assume l: "ReadyThreadsLock w = NULL"
  let ?t = "curr w c" and ?R = "ReadyThreadsList w"
  have cc: "cur w c = curr w c" "IdleThread (cpus w c) = idle w c" by (simp_all add: view_defs)
  let ?v = "\<lambda>m. upd_thread ?t (State_update (\<lambda>_. ThreadStateReady)) (let w = w\<lparr>ReadyThreadsLock := c, lists := m\<rparr>
      in if \<not> f then upd_thread ?t (TickCountEarly_update (\<lambda>n. n + 1)) w else w)"
  have g: "good K held N (ThreadSchedule c YieldDone (?v m'))"
    if "rings m' (heads K w) (Ts K) (if ?t \<in> idles K w then q else q(?R := q ?R @ [?t]))" for m'
    by (rule switch_good [OF s m c, where y = True and st = ThreadStateReady, OF _ l])
      (use that p in \<open>auto simp: gives_up_def Let_def view_simps view_fold same_mutexes_def\<close>)
  show "good K held N (do {
      let w = w\<lparr>ReadyThreadsLock := c\<rparr>;
      let t = cur w c;
      w \<leftarrow> (if t \<noteq> IdleThread (cpus w c) then do {
            m \<leftarrow> InsertTailList (lists w) (ReadyThreadsList w) (ReadyList t);
            Some (w\<lparr>lists := m\<rparr>)
          } else Some w);
      let w = (if \<not> f then upd_thread t (TickCountEarly_update (\<lambda>n. n + 1)) w else w);
      ThreadSchedule c YieldDone (upd_thread t (State_update (\<lambda>_. ThreadStateReady)) w)
    })"
  proof (cases "?t = idle w c")
    case True
    then have "?t \<in> idles K w" using curr_is_idle [OF s c] by simp
    moreover have "w\<lparr>lists := lists w, ReadyThreadsLock := c\<rparr> = w\<lparr>ReadyThreadsLock := c\<rparr>" by (cases w) simp
    ultimately show ?thesis using g [of "lists w"] sinvD(2) [OF s] True by (cases f) (simp_all add: cc Let_def)
  next
    case False
    then have i: "?t \<notin> idles K w" using curr_is_idle [OF s c] by simp
    have "?t \<in> Ts K" "\<not> inq (heads K w) q ?t"
      using curr_thread [OF s c] not_queued(1) [OF s c] p by auto
    then obtain m' where "InsertTailList (lists w) ?R (ReadyList ?t) = Some m'" "rings m' (heads K w) (Ts K) (q(?R := q ?R @ [?t]))"
      using rings_insert [OF sinvD(2) [OF s]] by (auto simp: heads_def)
    with g [of m'] i False show ?thesis by (cases f) (simp_all add: cc Let_def)
  qed
qed

lemma block_step:
  assumes s: "sinv K w q N" and m: "minv K w q held" and c: "c \<in> Cs K" and p: "place w (curr w c) = BlockLocking k"
  shows "good K held N (ThreadBlock_schedule c k w)"
  unfolding ThreadBlock_schedule_def
proof (rule good_acquire [OF s m])
  show "ReadyThreadsLock w \<noteq> c" by (rule ready_lock_other [OF s c]) (simp add: p)
  assume l: "ReadyThreadsLock w = NULL"
  have b: "tstate w (curr w c) = ThreadStateBlocked"
    using sinvD(8) [OF s] c p by (auto simp: block_ok_def block_place_def)
  then have "(tstate w)(curr w c := ThreadStateBlocked) = tstate w" by (metis fun_upd_triv)
  then show "good K held N (ThreadSchedule c k (w\<lparr>ReadyThreadsLock := c\<rparr>))"
    by (intro switch_good [OF s m c, where y = False and st = ThreadStateBlocked and ?q1.0 = q, OF _ l])
      (use sinvD(2) [OF s] p in \<open>simp_all add: gives_up_def view_lock same_mutexes_def\<close>)
qed

lemma no_switchI:
  assumes "curr w' = curr w" "prev w' = prev w" "idle w' = idle w" "ReadyThreadsList w' = ReadyThreadsList w" "tflags w' = tflags w"
  shows "no_switch w w'"
  using assms by (simp add: no_switch_def)

text \<open>How a move of processor \<open>c\<close> may change a lock: not at all, by taking it, or by dropping it.\<close>

definition lock_move :: "ADDR \<Rightarrow> ADDR \<Rightarrow> ADDR \<Rightarrow> bool \<Rightarrow> bool \<Rightarrow> bool" where
  "lock_move c l l' h h' \<longleftrightarrow> (l' = l \<and> h' = h) \<or> (l = NULL \<and> l' = c \<and> h') \<or> (h \<and> l' = NULL \<and> \<not> h')"

lemma lock_ok_move:
  assumes "lock_ok C l f" "c \<in> C" "NULL \<notin> C" "lock_move c l l' (f c) (g c)" "\<And>d. d \<in> C \<Longrightarrow> d \<noteq> c \<Longrightarrow> g d = f d"
  shows "lock_ok C l' g"
  using assms(4) unfolding lock_move_def
proof (elim disjE conjE)
  assume "l' = l" "g c = f c" then show ?thesis using assms by (metis lock_keep)
next
  assume "l = NULL" "l' = c" "g c" then show ?thesis using lock_take [of C f c g] assms by simp
next
  assume "f c" "l' = NULL" "\<not> g c" then show ?thesis using lock_drop [of C l f c g] assms by simp
qed

lemma locks_move:
  assumes s: "sinv K w q N" and c: "c \<in> Cs K" and n: "no_switch w w'"
    and p: "place w' = (place w)(curr w c := p')" "holds_ready p' = holds_ready (place w (curr w c))"
      "ReadyThreadsLock w' = ReadyThreadsLock w"
    and m: "\<And>a. a \<in> Ms K \<Longrightarrow> lock_move c (mlock w a) (mlock w' a) (holds_mutex (place w (curr w c)) = Some a) (holds_mutex p' = Some a)"
    and e: "\<And>a. a \<in> Es K \<Longrightarrow> lock_move c (elock w a) (elock w' a) (holds_event (place w (curr w c)) = Some a) (holds_event p' = Some a)"
  shows "locks_ok K w'"
proof -
  note l = sinvD(9) [OF s, unfolded locks_ok_def] and n' = no_switch_simps [OF n]
  have o: "place w' (curr w d) = place w (curr w d)" if "d \<in> Cs K" "d \<noteq> c" for d
    using other_curr [OF s c that] by (simp add: p)
  have pc: "place w' (curr w c) = p'" by (simp add: p)
  have C: "NULL \<notin> Cs K" using sinvD(1) [OF s] by (simp add: conf_ok_def)
  show ?thesis unfolding locks_ok_def n'
  proof (intro conjI ballI)
    show "lock_ok (Cs K) (ReadyThreadsLock w') (\<lambda>d. holds_ready (place w' (curr w d)))"
      by (rule lock_ok_move [OF conjunct1 [OF l] c C]) (simp_all add: o pc p(2,3) lock_move_def)
    show "lock_ok (Cs K) (mlock w' a) (\<lambda>d. holds_mutex (place w' (curr w d)) = Some a)" if "a \<in> Ms K" for a
      by (rule lock_ok_move [OF _ c C, of "mlock w a" "\<lambda>d. holds_mutex (place w (curr w d)) = Some a"])
        (use l that m [OF that] in \<open>simp_all add: o pc\<close>)
    show "lock_ok (Cs K) (elock w' a) (\<lambda>d. holds_event (place w' (curr w d)) = Some a)" if "a \<in> Es K" for a
      by (rule lock_ok_move [OF _ c C, of "elock w a" "\<lambda>d. holds_event (place w (curr w d)) = Some a"])
        (use l that e [OF that] in \<open>simp_all add: o pc\<close>)
  qed
qed

lemma lock_move_same [simp]: "lock_move c l l h h"
  by (simp add: lock_move_def)

lemma resume_step:
  assumes s: "sinv K w q N" and m: "minv K w q held" and c: "c \<in> Cs K" and p: "place w (curr w c) = Resume k"
  shows "good K held N (ThreadCleanupPostSchedule_release c k w)"
proof -
  have a: "\<not> IntrOn w c" "ReadyThreadsLock w = c"
    using intr_off [OF s c] p sinvD(9) [OF s] c by (auto simp: locks_ok_def lock_ok_def)
  let ?v = "at (curr w c) (Cleanup k) ((upd_cpu c (RunningThreadTicks_update (\<lambda>_. 0)) w)\<lparr>ReadyThreadsLock := NULL\<rparr>)"
  have e: "ThreadCleanupPostSchedule_release c k w = Some ?v"
    using a by (simp add: ThreadCleanupPostSchedule_release_def view_simps view_fold Let_def)
  have n: "no_switch w ?v" by (rule no_switchI) (simp_all add: view_simps view_fold)
  have "sinv K ?v q N"
    by (rule cleanup_move [OF s c n p]) (simp_all add: view_simps view_fold)
  moreover have "minv K ?v q held"
    by (rule minv_frame [OF m]) (use p in \<open>cases k; simp add: view_simps view_fold mrole_def\<close>)+
  ultimately show ?thesis unfolding e by (rule goodI)
qed

lemma cleanup_prev_effect:
  assumes s: "sinv K w q N" and c: "c \<in> Cs K" and p: "place w (curr w c) = Cleanup k"
  shows "ThreadCleanupPostSchedule_prev c w = Some (if tblock w (prev w c) = c
      then upd_thread (prev w c) (BlockLock_update (\<lambda>_. NULL)) w else w)"
proof -
  have t: "prev w c \<in> Ts K" using sinvD(8) [OF s] c p by (auto simp: block_ok_def block_place_def)
  then have "prev w c \<noteq> NULL" "tstate w (prev w c) \<noteq> ThreadStateDying"
    using sinvD(1,4) [OF s] by (auto simp: conf_ok_def threads_ok_def)
  moreover have "tstate w (prev w c) = ThreadStateBlocked" if "tblock w (prev w c) = c"
    using block_why_of [OF s c t that] p by (auto simp: block_why_def)
  ultimately show ?thesis by (simp add: ThreadCleanupPostSchedule_prev_def Let_def view_fold)
qed

lemma cleanup_step:
  assumes s: "sinv K w q N" and m: "minv K w q held" and c: "c \<in> Cs K" and p: "place w (curr w c) = Cleanup k"
  shows "good K held N (do { w \<leftarrow> ThreadCleanupPostSchedule_prev c w; schedule_returns c (cur w c) k w })"
proof -
  define v where "v = (if tblock w (prev w c) = c then upd_thread (prev w c) (BlockLock_update (\<lambda>_. NULL)) w else w)"
  have vv: "curr v = curr w" "prev v = prev w" "idle v = idle w" "ReadyThreadsList v = ReadyThreadsList w" "tflags v = tflags w"
    "place v = place w" "tstate v = tstate w" "tblock v = (if tblock w (prev w c) = c then (tblock w)(prev w c := NULL) else tblock w)"
    "lists v = lists w" "mlock v = mlock w" "elock v = elock w" "ReadyThreadsLock v = ReadyThreadsLock w" "IntrOn v = IntrOn w"
    "holder v = holder w" "depth v = depth w" "etype v = etype w"
    by (simp_all add: v_def view_simps view_fold)
  have l: "ReadyThreadsLock w \<noteq> c" by (rule ready_lock_other [OF s c]) (simp add: p)
  have off: "\<not> IntrOn w c" using intr_off [OF s c] p by simp
  have ok: "cont_ok K (curr w c \<in> idles K w) k" using place_ok_curr [OF s c] p by simp
  have mv: "good K held N (Some w')"
    if w': "no_switch w w'" "place w' = (place w)(curr w c := p')" "quiet p'" "place_ok K (curr w c \<in> idles K w) p'"
      "tstate w' = tstate w" "tblock w' = tblock v" "lists w' = lists w" "mlock w' = mlock w" "elock w' = elock w"
      "ReadyThreadsLock w' = ReadyThreadsLock w" "\<And>d. d \<noteq> c \<Longrightarrow> IntrOn w' d = IntrOn w d" "p' \<noteq> Client \<Longrightarrow> \<not> IntrOn w' c"
      "holder w' = holder w" "depth w' = depth w" "\<And>a. mrole a p' = mrole a (Cleanup k)" for w' p'
  proof -
    have "sinv K w' q N"
      by (rule cleanup_prev_move [OF s c w'(1) p w'(3,4,2)]) (use w' in \<open>simp_all add: vv\<close>)
    moreover have "minv K w' q held"
      by (rule minv_frame [OF m]) (use w' p in simp_all)
    ultimately show ?thesis by (rule goodI)
  qed
  have "good K held N (schedule_returns c (curr w c) k v)"
  proof (cases k)
    case YieldDone
    show ?thesis unfolding schedule_returns_def YieldDone using l vv(12)
      by (simp, intro mv) (auto simp: no_switch_def view_simps vv quiet_def mrole_def YieldDone)
  next
    case (BlockedOnMutex a)
    show ?thesis unfolding schedule_returns_def BlockedOnMutex using l vv(12) ok
      by (simp, intro mv) (auto simp: no_switch_def view_simps vv quiet_def mrole_def BlockedOnMutex off)
  next
    case (BlockedOnEvent a)
    show ?thesis unfolding schedule_returns_def BlockedOnEvent using l vv(12) ok
      by (simp split: if_split, intro conjI impI mv) (auto simp: no_switch_def view_simps vv quiet_def mrole_def BlockedOnEvent off)
  next
    case IdleLoop
    show ?thesis unfolding schedule_returns_def IdleLoop using l vv(12)
      by (simp, intro mv) (auto simp: no_switch_def view_simps vv quiet_def mrole_def IdleLoop)
  qed (use ok in simp)
  then show ?thesis using cleanup_prev_effect [OF s c p] vv(1) by (simp add: v_def [symmetric] curr_def [symmetric])
qed

lemma take_block_lock_step:
  assumes s: "sinv K w q N" and m: "minv K w q held" and c: "c \<in> Cs K" and p: "place w (curr w c) = TakeBlockLock k"
  shows "good K held N (ThreadTakeBlockLock c k w)"
proof -
  have cc: "cur w c = curr w c" by (simp add: curr_def)
  have t: "curr w c \<in> Ts K" using curr_thread [OF s c] by simp
  have ok: "cont_ok K (curr w c \<in> idles K w) k" using place_ok_curr [OF s c] p by simp
  have nb: "tblock w (curr w c) \<noteq> c" by (rule no_block_lock [OF s c t]) (simp add: p)
  let ?u = "upd_thread (curr w c) (BlockLock_update (\<lambda>_. c)) w"
  have "good K held N (do { v \<leftarrow> release_object c k ?u; Some (at (curr w c) (InBlock k) v) })"
    if b: "tblock w (curr w c) = NULL"
  proof -
    have mv: "good K held N (Some (at (curr w c) (InBlock k) v))"
      if v: "no_switch w v" "place v = place w" "tstate v = tstate w" "tblock v = (tblock w)(curr w c := c)" "lists v = lists w"
        "IntrOn v = IntrOn w" "ReadyThreadsLock v = ReadyThreadsLock w" "holder v = holder w" "depth v = depth w"
        "\<And>a. a \<in> Ms K \<Longrightarrow> lock_move c (mlock w a) (mlock v a) (holds_mutex (TakeBlockLock k) = Some a) False"
        "\<And>a. a \<in> Es K \<Longrightarrow> lock_move c (elock w a) (elock v a) (holds_event (TakeBlockLock k) = Some a) False" for v
    proof -
      let ?v = "at (curr w c) (InBlock k) v"
      have n: "no_switch w ?v" using v(1) by (simp add: no_switch_def view_at)
      have "locks_ok K ?v"
        by (rule locks_move [OF s c n, where p' = "InBlock k"]) (use v p in \<open>simp_all add: view_at\<close>)
      then have "sinv K ?v q N"
        by (intro take_block_lock_move [OF s c n p b]) (use v in \<open>simp_all add: view_at\<close>)
      moreover have "minv K ?v q held"
        by (rule minv_frame [OF m]) (use v p in \<open>cases k; simp add: view_at mrole_def\<close>)+
      ultimately show ?thesis by (rule goodI)
    qed
    have own: "mlock w a = c" if "k = BlockedOnMutex a" for a
      using mutex_lock_own [OF s c, of a] p ok that by simp
    have eown: "elock w a = c" if "k = BlockedOnEvent a" for a
      using event_lock_own [OF s c, of a] p ok that by simp
    show ?thesis
    proof (cases k)
      case (BlockedOnMutex a)
      have "release_object c k ?u = Some (upd_mutex a (MutexLock_update (\<lambda>_. NULL)) ?u)"
        using own [OF BlockedOnMutex] BlockedOnMutex by (simp add: release_object_def view_fold view_simps)
      then show ?thesis
        by (simp, intro mv) (auto simp: no_switch_def view_simps view_fold BlockedOnMutex lock_move_def)
    next
      case (BlockedOnEvent a)
      have "release_object c k ?u = Some (upd_event a (EventLock_update (\<lambda>_. NULL)) ?u)"
        using eown [OF BlockedOnEvent] BlockedOnEvent by (simp add: release_object_def view_fold view_simps)
      then show ?thesis
        by (simp, intro mv) (auto simp: no_switch_def view_simps view_fold BlockedOnEvent lock_move_def)
    next
      case IdleLoop
      then have "release_object c k ?u = Some ?u" by (simp add: release_object_def)
      then show ?thesis
        by (simp, intro mv) (auto simp: no_switch_def view_simps view_fold IdleLoop)
    next
      case YieldDone
      then have "release_object c k ?u = Some ?u" by (simp add: release_object_def)
      then show ?thesis
        by (simp, intro mv) (auto simp: no_switch_def view_simps view_fold YieldDone)
    qed (use ok in simp)
  qed
  then have "good K held N (acquire c (tblock w (curr w c)) w
      (do { v \<leftarrow> release_object c k ?u; Some (at (curr w c) (InBlock k) v) }))"
    by (rule good_acquire [OF s m nb])
  then show ?thesis by (simp add: ThreadTakeBlockLock_def Let_def cc view_fold)
qed

lemma block_enter_step:
  assumes s: "sinv K w q N" and m: "minv K w q held" and c: "c \<in> Cs K" and p: "place w (curr w c) = InBlock k"
  shows "good K held N (ThreadBlock_enter c k w)"
proof -
  have a: "\<not> IntrOn w c" "tblock w (curr w c) = c" "tflags w (curr w c) \<noteq> THREAD_FLAG_FORCE_TERMINATE_PENDING"
    using intr_off [OF s c] p sinvD(4,8) [OF s] c curr_thread [OF s c]
    by (auto simp: block_ok_def block_place_def threads_ok_def)
  let ?v = "at (curr w c) (BlockLocking k) (upd_thread (curr w c)
      (\<lambda>T. T\<lparr>TickCountEarly := TickCountEarly T + 1, State := ThreadStateBlocked\<rparr>) w)"
  have e: "ThreadBlock_enter c k w = Some ?v"
    using a by (simp add: ThreadBlock_enter_def view_fold Let_def)
  have n: "no_switch w ?v" by (rule no_switchI) (simp_all add: view_simps view_fold)
  have "sinv K ?v q N"
    by (rule block_enter_move [OF s c n p]) (simp_all add: view_simps view_fold)
  moreover have "minv K ?v q held"
    by (rule minv_frame [OF m]) (use p in \<open>cases k; simp add: view_simps view_fold mrole_def\<close>)+
  ultimately show ?thesis unfolding e by (rule goodI)
qed

lemma unblock_enter_step:
  assumes s: "sinv K w q N" and m: "minv K w q held" and c: "c \<in> Cs K" and p: "place w (curr w c) = Unblocking t r"
  shows "good K held N (ThreadUnblock_enter c t r w)"
proof -
  have t: "t \<in> Ts K" "t \<noteq> NULL"
    using sinvD(1,7) [OF s] c p by (auto simp: limbo_ok_def limbo_def conf_ok_def)
  have nb: "tblock w t \<noteq> c" by (rule no_block_lock [OF s c t(1)]) (simp add: p)
  let ?u = "upd_thread t (BlockLock_update (\<lambda>_. c)) w"
  let ?v = "at (curr w c) (UnblockReady t r) ?u"
  have "good K held N (do { ASSERT (State (threads ?u t) = ThreadStateBlocked); Some (at (cur ?u c) (UnblockReady t r) ?u) })"
    if b: "tblock w t = NULL"
  proof -
    have "tstate w t = ThreadStateBlocked" using unblocked_is_blocked [OF s c, of t] p b by simp
    moreover have n: "no_switch w ?v" by (rule no_switchI) (simp_all add: view_simps view_fold)
    have "sinv K ?v q N"
      by (rule unblock_take_move [OF s c n p b]) (simp_all add: view_simps view_fold)
    moreover have "minv K ?v q held"
      by (rule minv_frame [OF m]) (use p in \<open>simp_all add: view_simps view_fold mrole_def\<close>)
    ultimately show ?thesis by (simp add: view_simps view_fold goodI)
  qed
  then have "good K held N (acquire c (tblock w t) w
      (do { ASSERT (State (threads ?u t) = ThreadStateBlocked); Some (at (cur ?u c) (UnblockReady t r) ?u) }))"
    by (rule good_acquire [OF s m nb])
  then show ?thesis using t by (simp add: ThreadUnblock_enter_def Let_def view_fold)
qed

lemma unblock_ready_step:
  assumes s: "sinv K w q N" and m: "minv K w q held" and c: "c \<in> Cs K" and p: "place w (curr w c) = UnblockReady t r"
  shows "good K held N (ThreadUnblock_ready c t r w)"
  unfolding ThreadUnblock_ready_def
proof (rule good_acquire [OF s m])
  let ?R = "ReadyThreadsList w"
  show "ReadyThreadsLock w \<noteq> c" by (rule ready_lock_other [OF s c]) (simp add: p)
  have t: "t \<in> Ts K" "\<not> inq (heads K w) q t"
    using sinvD(7) [OF s] c p by (auto simp: limbo_ok_def limbo_def)
  have R: "?R \<in> heads K w" by (simp add: heads_def)
  obtain m' where m': "InsertTailList (lists w) ?R (ReadyList t) = Some m'" "rings m' (heads K w) (Ts K) (q(?R := q ?R @ [t]))"
    using rings_insert [OF sinvD(2) [OF s] R t] by blast
  let ?v = "at (curr w c) (UnblockRelease t r) (upd_thread t (State_update (\<lambda>_. ThreadStateReady)) (w\<lparr>lists := m'\<rparr>))"
  have n: "no_switch w ?v" by (rule no_switchI) (simp_all add: view_simps view_fold)
  have "sinv K ?v (q(?R := q ?R @ [t])) N"
    by (rule unblock_ready_move [OF s c n p]) (use m' in \<open>simp_all add: view_simps view_fold\<close>)
  moreover have "minv K ?v (q(?R := q ?R @ [t])) held"
    by (rule minv_frame [OF m]) (use p head_neq(1) [OF s] in \<open>simp_all add: view_simps view_fold mrole_def\<close>)
  ultimately show "good K held N (do { m \<leftarrow> InsertTailList (lists w) ?R (ReadyList t);
      Some (at (cur w c) (UnblockRelease t r) (upd_thread t (State_update (\<lambda>_. ThreadStateReady)) (w\<lparr>lists := m\<rparr>))) })"
    using m'(1) by (simp add: view_fold goodI)
qed

lemma unblock_end_step:
  assumes s: "sinv K w q N" and m: "minv K w q held" and c: "c \<in> Cs K" and p: "place w (curr w c) = UnblockRelease t r"
  shows "good K held N (do { w \<leftarrow> ThreadUnblock_end c t w; unblock_returns c r w })"
proof -
  have b: "tblock w t = c" using sinvD(8) [OF s] c p by (auto simp: block_ok_def block_place_def)
  have ok: "uret_ok K r" using place_ok_curr [OF s c] p by simp
  have off: "\<not> IntrOn w c" using intr_off [OF s c] p by simp
  let ?u = "upd_thread t (BlockLock_update (\<lambda>_. NULL)) w"
  have e: "ThreadUnblock_end c t w = Some ?u" using b by (simp add: ThreadUnblock_end_def view_fold)
  have mv: "good K held N (Some w')"
    if w': "no_switch w w'" "place w' = (place w)(curr w c := p')" "blocks p' = None" "unblocks p' = None" "\<not> with_block_lock p'"
      "place_ok K (curr w c \<in> idles K w) p'" "tstate w' = tstate w" "tblock w' = (tblock w)(t := NULL)" "lists w' = lists w"
      "\<And>d. d \<noteq> c \<Longrightarrow> IntrOn w' d = IntrOn w d" "p' \<noteq> Client \<Longrightarrow> \<not> IntrOn w' c" "holder w' = holder w" "depth w' = depth w"
      "\<And>a. mrole a p' = (False, False, False)" "\<not> holds_ready p'" "ReadyThreadsLock w' = ReadyThreadsLock w"
      "\<And>a. a \<in> Ms K \<Longrightarrow> lock_move c (mlock w a) (mlock w' a) (holds_mutex (UnblockRelease t r) = Some a) (holds_mutex p' = Some a)"
      "\<And>a. a \<in> Es K \<Longrightarrow> lock_move c (elock w a) (elock w' a) (holds_event (UnblockRelease t r) = Some a) (holds_event p' = Some a)" for w' p'
  proof -
    have "locks_ok K w'"
      by (rule locks_move [OF s c w'(1,2)]) (use w' p in simp_all)
    then have "sinv K w' q N"
      by (intro unblock_end_move [OF s c w'(1) p w'(3-6) w'(2)]) (use w' in simp_all)
    moreover have "minv K w' q held"
      by (rule minv_frame [OF m]) (use w' p in \<open>simp_all add: mrole_def\<close>)
    ultimately show ?thesis by (rule goodI)
  qed
  have "good K held N (unblock_returns c r ?u)"
  proof (cases r)
    case (FromMutex a)
    have "mlock w a = c" using mutex_lock_own [OF s c, of a] p ok FromMutex by simp
    then show ?thesis unfolding unblock_returns_def FromMutex MutexRelease_end_def
      by (simp add: Let_def view_fold view_simps, intro mv)
        (auto simp: no_switch_def view_simps view_fold FromMutex lock_move_def mrole_def)
  next
    case (FromSignal a r')
    have o: "elock w a = c" using event_lock_own [OF s c, of a] p ok FromSignal by simp
    have r': "r' = SignalDone" "a \<in> Es K" using ok FromSignal by auto
    show ?thesis
    proof (cases "etype w a = ExEventTypeSynchronization")
      case True
      with o show ?thesis unfolding unblock_returns_def FromSignal ExEventSignal_end_def
        by (simp add: Let_def view_fold view_simps r', intro mv)
          (auto simp: no_switch_def view_simps view_fold FromSignal r' lock_move_def mrole_def)
    next
      case False
      then show ?thesis unfolding unblock_returns_def FromSignal
        by (simp add: Let_def view_fold view_simps r', intro mv)
          (auto simp: no_switch_def view_simps view_fold FromSignal r' lock_move_def mrole_def off)
    qed
  next
    case UnblockDone
    then show ?thesis unfolding unblock_returns_def
      by (simp add: Let_def view_fold view_simps, intro mv)
        (auto simp: no_switch_def view_simps view_fold lock_move_def mrole_def)
  qed
  then show ?thesis by (simp add: e)
qed

lemma quiet_good:
  assumes s: "sinv K w q N" and m: "minv K w q held" and c: "c \<in> Cs K"
    and p: "quiet (place w (curr w c))" "quiet p'" "place_ok K (curr w c \<in> idles K w) p'"
    and w': "no_switch w w'" "place w' = (place w)(curr w c := p')" "tstate w' = tstate w" "tblock w' = tblock w"
      "mlock w' = mlock w" "elock w' = elock w" "lists w' = lists w" "ReadyThreadsLock w' = ReadyThreadsLock w"
      "\<And>d. d \<noteq> c \<Longrightarrow> IntrOn w' d = IntrOn w d" "p' \<noteq> Client \<Longrightarrow> \<not> IntrOn w' c" "holder w' = holder w" "depth w' = depth w"
      "\<And>a. mrole a p' = mrole a (place w (curr w c))"
  shows "good K held N (Some w')"
proof -
  have "sinv K w' q N" by (rule quiet_move [OF s c w'(1) p w'(2-8) w'(9,10)])
  moreover have "minv K w' q held" by (rule minv_frame [OF m]) (use w' in simp_all)
  ultimately show ?thesis by (rule goodI)
qed

lemma event_test_step:
  assumes s: "sinv K w q N" and m: "minv K w q held" and c: "c \<in> Cs K" and p: "place w (curr w c) = EventTest a"
  shows "good K held N (ExEventWaitForSignal_test c a w)"
proof -
  have ok: "a \<in> Es K" "curr w c \<notin> idles K w" using place_ok_curr [OF s c] p by auto
  have off: "\<not> IntrOn w c" using intr_off [OF s c] p by simp
  show ?thesis unfolding ExEventWaitForSignal_test_def Let_def
    by (simp add: view_fold split: if_split, intro conjI impI quiet_good [OF s m c])
      (auto simp: no_switch_def view_simps view_fold quiet_def mrole_def p ok off)
qed

lemma event_insert_step:
  assumes s: "sinv K w q N" and m: "minv K w q held" and c: "c \<in> Cs K" and p: "place w (curr w c) = EventLocking a"
  shows "good K held N (ExEventWaitForSignal_insert c a w)"
proof -
  have ok: "a \<in> Es K" "curr w c \<notin> idles K w" using place_ok_curr [OF s c] p by auto
  have off: "\<not> IntrOn w c" using intr_off [OF s c] p by simp
  let ?h = "EventWaitingList a" and ?t = "curr w c"
  note h = ehead_neq [OF s ok(1)]
  have t: "?t \<in> Ts K" "\<not> inq (heads K w) q ?t" using curr_thread [OF s c] not_queued(1) [OF s c] p by auto
  obtain m' where m': "InsertTailList (lists w) ?h (ReadyList ?t) = Some m'" "rings m' (heads K w) (Ts K) (q(?h := q ?h @ [?t]))"
    using rings_insert [OF sinvD(2) [OF s] h(2) t] by blast
  let ?v = "at ?t (TakeBlockLock (BlockedOnEvent a)) ((upd_event a (EventLock_update (\<lambda>_. c)) w)\<lparr>lists := m'\<rparr>)"
  have n: "no_switch w ?v" by (rule no_switchI) (simp_all add: view_simps view_fold)
  have g: "good K held N (Some ?v)" if l: "elock w a = NULL"
  proof -
    have "locks_ok K ?v"
      by (rule locks_move [OF s c n, where p' = "TakeBlockLock (BlockedOnEvent a)"])
        (use l p in \<open>auto simp: view_simps view_fold lock_move_def\<close>)
    then have "sinv K ?v (q(?h := q ?h @ [?t])) N"
      by (intro wait_insert_move [OF s c n, where k = "BlockedOnEvent a"])
        (use m' h ok off in \<open>simp_all add: view_simps view_fold quiet_def p\<close>)
    moreover have "minv K ?v (q(?h := q ?h @ [?t])) held"
      by (rule minv_frame [OF m]) (use h(3) p in \<open>simp_all add: view_simps view_fold mrole_def\<close>)
    ultimately show ?thesis by (rule goodI)
  qed
  have "elock w a \<noteq> c" by (rule event_lock_other [OF s c ok(1)]) (simp add: p)
  from good_acquire [OF s m this g] m'(1) show ?thesis
    by (simp add: ExEventWaitForSignal_insert_def Let_def view_fold view_simps)
qed

text \<open>The first thread of a waiting list is taken out to be unblocked.\<close>

lemma remove_waiting:
  assumes s: "sinv K w q N" and h: "h \<in> heads K w" "h \<noteq> ReadyThreadsList w" and q: "q h = t # ts"
    and nt: "\<And>d k. d \<in> Cs K \<Longrightarrow> wait_head k = Some h \<Longrightarrow> place w (curr w d) \<noteq> TakeBlockLock k"
  shows "t \<in> Ts K" "t \<notin> idles K w" "\<exists>k. waits K w t k \<and> place w t \<noteq> TakeBlockLock k" "t \<notin> N"
    "\<forall>d\<in>Cs K. unblocks (place w (curr w d)) \<noteq> Some t"
    "\<And>u. inq (heads K w) (q(h := ts)) u = (inq (heads K w) q u \<and> u \<noteq> t)" "\<And>g. set ((q(h := ts)) g) \<subseteq> set (q g)"
proof -
  note r = sinvD(2) [OF s]
  have tq: "t \<in> set (q h)" using q by simp
  have iq: "inq (heads K w) q t" using h(1) q unfolding inq_def by (metis list.set_intros(1))
  show "t \<in> Ts K" using r h q by (auto simp: rings_def)
  obtain k where k: "wait_head k = Some h" "waits K w t k" and i: "t \<notin> idles K w"
    using sinvD(6) [OF s] h tq unfolding wait_ok_def by blast
  show "t \<notin> idles K w" by fact
  have "place w t \<noteq> TakeBlockLock k"
  proof
    assume a: "place w t = TakeBlockLock k"
    then have "oncpu K w t" using k(2) by (auto simp: waits_def split: if_splits)
    then obtain d where "d \<in> Cs K" "curr w d = t" by (auto simp: oncpu_def)
    with nt k(1) a show False by blast
  qed
  with k(2) show "\<exists>k. waits K w t k \<and> place w t \<noteq> TakeBlockLock k" by blast
  show "t \<notin> N" using sinvD(7) [OF s] iq by (auto simp: limbo_ok_def fresh_def)
  show "\<forall>d\<in>Cs K. unblocks (place w (curr w d)) \<noteq> Some t"
    using sinvD(7) [OF s] iq by (auto simp: limbo_ok_def limbo_def)
  show "inq (heads K w) (q(h := ts)) u = (inq (heads K w) q u \<and> u \<noteq> t)" for u
    by (rule inq_remove [OF r h(1) q])
  show "set ((q(h := ts)) g) \<subseteq> set (q g)" for g using q by auto
qed

lemma signal_loop_step:
  assumes s: "sinv K w q N" and m: "minv K w q held" and c: "c \<in> Cs K" and a: "a \<in> Es K"
    and p: "(place w (curr w c) = SignalLocking a SignalDone \<and> elock w a = NULL) \<or> place w (curr w c) = Signalling a SignalDone"
    and u: "no_switch w u" "place u = place w" "tstate u = tstate w" "tblock u = tblock w" "lists u = lists w" "IntrOn u = IntrOn w"
      "mlock u = mlock w" "elock u = (elock w)(a := c)" "ReadyThreadsLock u = ReadyThreadsLock w" "holder u = holder w" "depth u = depth w"
  shows "good K held N (ExEventSignal_loop c a SignalDone u)"
proof -
  let ?h = "EventWaitingList a" and ?t = "curr w c"
  note h = ehead_neq [OF s a] and n' = no_switch_simps [OF u(1)] and r = sinvD(2) [OF s]
  have off: "\<not> IntrOn w c" using intr_off [OF s c] p by auto
  have cu: "cur u c = ?t" using n'(1) by (metis curr_def)
  have hl: "holds_mutex (place w ?t) = None" "\<not> holds_ready (place w ?t)"
    "calm (place w ?t)" "unblocks (place w ?t) = None" "blocks (place w ?t) = None" "\<not> with_block_lock (place w ?t)"
    "mrole b (place w ?t) = (False, False, False)" for b
    using p by (auto simp: calm_def mrole_def)
  have lk: "lock_move c (elock w b) (((elock w)(a := c)) b) (holds_event (place w ?t) = Some b) (a = b)" for b
    using p event_lock_own [OF s c a] by (auto simp: lock_move_def)
  have ld: "lock_move c (elock w b) (((elock w)(a := NULL)) b) (holds_event (place w ?t) = Some b) False" for b
    using p by (auto simp: lock_move_def)
  show ?thesis
  proof (cases "q ?h")
    case Nil
    let ?v = "at ?t Client (intr_restore c ?t (upd_event a (EventLock_update (\<lambda>_. NULL)) u))"
    have u5: "u\<lparr>lists := lists w\<rparr> = u" using u(5) by (cases u) simp
    have e: "ExEventSignal_loop c a SignalDone u = Some ?v"
      using rings_remove_empty [OF r h(2) Nil] u(5,8) cu
      by (simp add: ExEventSignal_loop_def ExEventSignal_end_def view_fold Let_def u5)
    have n: "no_switch w ?v" using u(1) by (simp add: no_switch_def view_simps)
    have "locks_ok K ?v"
      by (rule locks_move [OF s c n, where p' = Client]) (use u hl ld in \<open>simp_all add: view_simps\<close>)
    then have "sinv K ?v q N"
      by (intro calm_move [OF s c n hl(3), where p' = Client]) (use u in \<open>simp_all add: view_simps calm_def\<close>)
    moreover have "minv K ?v q held"
      by (rule minv_frame [OF m]) (use u hl in \<open>simp_all add: view_simps view_fold mrole_def\<close>)
    ultimately show ?thesis unfolding e by (rule goodI)
  next
    case (Cons t ts)
    obtain m' where m': "RemoveHeadList (lists w) ?h = Some (ReadyList t, m')" "rings m' (heads K w) (Ts K) (q(?h := ts))" "ReadyList t \<noteq> ?h"
      using rings_remove [OF r h(2) Cons] by blast
    let ?p = "Unblocking t (FromSignal a SignalDone)"
    let ?v = "at ?t ?p (u\<lparr>lists := m'\<rparr>)"
    have e: "ExEventSignal_loop c a SignalDone u = Some ?v"
      using m' u(5) cu by (simp add: ExEventSignal_loop_def)
    have n: "no_switch w ?v" using u(1) by (simp add: no_switch_def view_simps)
    have nt: "place w (curr w d) \<noteq> TakeBlockLock k" if d: "d \<in> Cs K" "wait_head k = Some ?h" for d k
    proof
      assume pd: "place w (curr w d) = TakeBlockLock k"
      have "k = BlockedOnEvent a"
        using place_ok_curr [OF s d(1)] pd d(2) h(3) by (cases k) (auto simp: EventWaitingList_def)
      then have "elock w a = d" using event_lock_own [OF s d(1) a] pd by simp
      then have "place w ?t = Signalling a SignalDone" using p curr_thread [OF s d(1)] by auto
      then have "d = c" using event_lock_own [OF s c a] \<open>elock w a = d\<close> by simp
      with pd \<open>place w ?t = Signalling a SignalDone\<close> show False by simp
    qed
    note rw = remove_waiting [OF s h(2,1) Cons nt]
    have lo: "locks_ok K ?v"
      by (rule locks_move [OF s c n, where p' = ?p]) (use u hl lk in \<open>simp_all add: view_simps\<close>)
    have "sinv K ?v (q(?h := ts)) N"
    proof (rule unblock_start_move [OF s c n hl(5,4,6) _ rw(1-7)])
      show "locks_ok K ?v" by (rule lo)
      show "rings (lists ?v) (heads K w) (Ts K) (q(?h := ts))" using m'(2) by (simp add: view_simps)
      show "N \<subseteq> insert t N" by blast
    qed (use u off a in \<open>simp_all add: view_simps\<close>)
    moreover have "minv K ?v (q(?h := ts)) held"
      by (rule minv_frame [OF m]) (use u hl h(3) in \<open>simp_all add: view_simps view_fold mrole_def\<close>)
    ultimately show ?thesis unfolding e by (rule goodI)
  qed
qed

lemma signal_first_step:
  assumes s: "sinv K w q N" and m: "minv K w q held" and c: "c \<in> Cs K" and p: "place w (curr w c) = SignalLocking a r"
  shows "good K held N (ExEventSignal_first c a r w)"
proof -
  have a: "a \<in> Es K" "r = SignalDone" using place_ok_curr [OF s c] p by auto
  have "elock w a \<noteq> c" by (rule event_lock_other [OF s c a(1)]) (simp add: p)
  moreover have "good K held N (ExEventSignal_loop c a r (upd_event a (\<lambda>E. E\<lparr>EventLock := c, Signaled := 1\<rparr>) w))" if "elock w a = NULL"
    unfolding a(2) by (rule signal_loop_step [OF s m c a(1)]) (use p that a in \<open>simp_all add: no_switch_def view_simps view_fold\<close>)
  ultimately show ?thesis unfolding ExEventSignal_first_def view_fold by (rule good_acquire [OF s m])
qed

lemma signalling_step:
  assumes s: "sinv K w q N" and m: "minv K w q held" and c: "c \<in> Cs K" and p: "place w (curr w c) = Signalling a r"
  shows "good K held N (ExEventSignal_loop c a r w)"
proof -
  have a: "a \<in> Es K" "r = SignalDone" using place_ok_curr [OF s c] p by auto
  have "elock w a = c" using event_lock_own [OF s c a(1)] p by simp
  then have "(elock w)(a := c) = elock w" by auto
  then show ?thesis
    unfolding a(2) by (intro signal_loop_step [OF s m c a(1)]) (use p a in \<open>simp_all add: no_switch_def\<close>)
qed

end
