(* ===== verification/Sched_Mutex.thy ===== *)
theory Sched_Mutex
  imports Sched_Steps
begin

text \<open>
  The steps of the mutex (\<open>MutexAcquire_first\<close>, \<open>MutexAcquire_again\<close>, \<open>MutexRelease_hand_over\<close>) keep the
  invariants of the scheduler and of the mutexes.
\<close>

section \<open>The steps of the mutex\<close>

lemma mutex_okD:
  assumes "mutex_ok K w q held a"
  shows "holder w a = NULL \<Longrightarrow> q (MutexWaitingList a) = []" "holder w a \<notin> set (q (MutexWaitingList a))"
    "t \<in> Ts K \<Longrightarrow> mwait (place w t) = Some a \<Longrightarrow> t \<in> set (q (MutexWaitingList a)) \<or> holder w a = t"
    "t \<in> Ts K \<Longrightarrow> held t a > 0 \<Longrightarrow> holder w a = t \<and> unat (depth w a) = held t a"
    "t \<in> Ts K \<Longrightarrow> held t a > 0 \<Longrightarrow> mrole a (place w t) = (False, False, False)"
    "t \<in> Ts K \<Longrightarrow> place w t = MutexReleasing a \<Longrightarrow> holder w a = t"
    "t \<in> Ts K \<Longrightarrow> place w t = MutexLocking a \<Longrightarrow> holder w a \<noteq> t"
    "holder w a \<noteq> NULL \<Longrightarrow> holder w a \<in> Ts K"
    "holder w a \<noteq> NULL \<Longrightarrow> held (holder w a) a > 0 \<or> mwait (place w (holder w a)) = Some a \<or> place w (holder w a) = MutexReleasing a"
    "holder w a \<noteq> NULL \<Longrightarrow> held (holder w a) a = 0 \<Longrightarrow> depth w a = 1"
  using assms by (auto simp: mutex_ok_def Let_def)

lemma mutex_okI:
  assumes "q (MutexWaitingList a) \<noteq> [] \<Longrightarrow> holder w a \<noteq> NULL" "holder w a \<notin> set (q (MutexWaitingList a))"
    "\<And>t. t \<in> Ts K \<Longrightarrow> mwait (place w t) = Some a \<Longrightarrow> t \<in> set (q (MutexWaitingList a)) \<or> holder w a = t"
    "\<And>t. t \<in> Ts K \<Longrightarrow> held t a > 0 \<Longrightarrow> holder w a = t \<and> unat (depth w a) = held t a \<and> mrole a (place w t) = (False, False, False)"
    "\<And>t. t \<in> Ts K \<Longrightarrow> place w t = MutexReleasing a \<Longrightarrow> holder w a = t"
    "\<And>t. t \<in> Ts K \<Longrightarrow> place w t = MutexLocking a \<Longrightarrow> holder w a \<noteq> t"
    "holder w a \<noteq> NULL \<Longrightarrow> holder w a \<in> Ts K \<and> (held (holder w a) a > 0 \<or> mwait (place w (holder w a)) = Some a \<or> place w (holder w a) = MutexReleasing a)
       \<and> (held (holder w a) a = 0 \<longrightarrow> depth w a = 1)"
  shows "mutex_ok K w q held a"
  unfolding mutex_ok_def Let_def using assms by (intro conjI ballI impI) auto

lemma queued_mwait:
  assumes s: "sinv K w q N" and a: "a \<in> Ms K" and t: "t \<in> set (q (MutexWaitingList a))"
  shows "mwait (place w t) = Some a" "t \<in> Ts K" "t \<noteq> NULL"
proof -
  note h = head_neq [OF s a]
  obtain k where k: "wait_head k = Some (MutexWaitingList a)" "waits K w t k"
    using sinvD(6) [OF s] h t unfolding wait_ok_def by blast
  show T: "t \<in> Ts K" using sinvD(2) [OF s] h t by (auto simp: rings_def)
  then show "t \<noteq> NULL" using sinvD(1) [OF s] by (auto simp: conf_ok_def)
  have p: "cont_of (place w t) = Some k \<and> (blocks (place w t) = Some k \<or> place w t = Resume k)"
    using waitsE [OF k(2)] by (cases "place w t") auto
  have "place_ok K (t \<in> idles K w) (place w t)" using sinvD(4) [OF s] T by (auto simp: threads_ok_def)
  then have "cont_ok K (t \<in> idles K w) k" using p by (cases "place w t") auto
  then have "k = BlockedOnMutex a"
  proof (cases k)
    case (BlockedOnMutex b) then show ?thesis using k(1) by (simp add: MutexWaitingList_def)
  next
    case (BlockedOnEvent b)
    with \<open>cont_ok K _ k\<close> have "b \<in> Es K" by simp
    with ehead_neq(3) [OF s _ a, of b] k(1) BlockedOnEvent show ?thesis by simp
  qed (use k(1) in simp_all)
  then show "mwait (place w t) = Some a" using p by (cases "place w t") auto
qed

definition bump :: "ADDR \<Rightarrow> ADDR \<Rightarrow> (ADDR \<Rightarrow> ADDR \<Rightarrow> nat) \<Rightarrow> ADDR \<Rightarrow> ADDR \<Rightarrow> nat" where
  "bump t a held = held(t := (held t)(a := Suc (held t a)))"

lemma bump_apply: "bump t a held u b = (if u = t \<and> b = a then Suc (held t a) else held u b)"
  by (auto simp: bump_def)

lemma minv_one:
  assumes m: "minv K w q held" and a: "mutex_ok K w' q' held' a"
    and f: "\<And>b. b \<in> Ms K \<Longrightarrow> b \<noteq> a \<Longrightarrow> holder w' b = holder w b \<and> depth w' b = depth w b
        \<and> q' (MutexWaitingList b) = q (MutexWaitingList b) \<and> (\<forall>t. held' t b = held t b \<and> mrole b (place w' t) = mrole b (place w t))"
  shows "minv K w' q' held'"
  unfolding minv_def
proof
  fix b assume b: "b \<in> Ms K"
  show "mutex_ok K w' q' held' b"
  proof (cases "b = a")
    case False
    with b m have "mutex_ok K w q held b" by (simp add: minv_def)
    then show ?thesis by (rule mutex_frame) (use f [OF b False] in auto)
  qed (simp add: a)
qed

lemma mutex_taken:
  assumes s: "sinv K w q N" and m: "minv K w q held" and c: "c \<in> Cs K" and a: "a \<in> Ms K"
    and p: "(place w (curr w c) = MutexLocking a \<and> holder w a = NULL) \<or> (place w (curr w c) = MutexRelocking a \<and> holder w a = curr w c)"
    and w': "place w' = (place w)(curr w c := Client)" "holder w' = (holder w)(a := curr w c)" "depth w' = (depth w)(a := 1)"
  shows "minv K w' q (bump (curr w c) a held)"
proof (rule minv_one [OF m])
  let ?t = "curr w c"
  have o: "mutex_ok K w q held a" using m a by (simp add: minv_def)
  note d = mutex_okD [OF o]
  have t: "?t \<in> Ts K" "?t \<noteq> NULL" using curr_thread [OF s c] by auto
  have h0: "held u a = 0" if "u \<in> Ts K" for u
  proof (rule ccontr)
    assume "held u a \<noteq> 0"
    then have "holder w a = u" "mrole a (place w u) = (False, False, False)" using d(4,5) [OF that] by auto
    with p t that sinvD(1) [OF s] show False by (auto simp: mrole_def conf_ok_def)
  qed
  have nt: "u \<noteq> NULL" if "u \<in> Ts K" for u using that sinvD(1) [OF s] by (auto simp: conf_ok_def)
  have qt: "?t \<notin> set (q (MutexWaitingList a))" using queued_mwait(1) [OF s a, of ?t] d(2) p by auto
  show "mutex_ok K w' q (bump ?t a held) a"
  proof (rule mutex_okI)
    show "mwait (place w' u) = Some a \<Longrightarrow> u \<in> set (q (MutexWaitingList a)) \<or> holder w' a = u" if "u \<in> Ts K" for u
      using d(3) [OF that] p nt [OF that] by (auto simp: w' split: if_splits)
    show "place w' u = MutexReleasing a \<Longrightarrow> holder w' a = u" if "u \<in> Ts K" for u
      using d(6) [OF that] p nt [OF that] by (auto simp: w' split: if_splits)
    show "bump ?t a held u a > 0 \<Longrightarrow> holder w' a = u \<and> unat (depth w' a) = bump ?t a held u a \<and> mrole a (place w' u) = (False, False, False)"
      if "u \<in> Ts K" for u
      using h0 [OF that] h0 [OF t(1)] by (auto simp: bump_apply w' mrole_def split: if_splits)
  qed (use t qt in \<open>auto simp: w' bump_apply split: if_splits\<close>)
  show "holder w' b = holder w b \<and> depth w' b = depth w b \<and> q (MutexWaitingList b) = q (MutexWaitingList b)
     \<and> (\<forall>u. bump ?t a held u b = held u b \<and> mrole b (place w' u) = mrole b (place w u))" if "b \<noteq> a" for b
    using that p by (auto simp: w' bump_apply mrole_def)
qed

text \<open>The result of a step that may complete an acquisition.\<close>

definition acquired :: "kconf \<Rightarrow> (ADDR \<Rightarrow> ADDR \<Rightarrow> nat) \<Rightarrow> ADDR set \<Rightarrow> ADDR \<Rightarrow> ADDR \<Rightarrow> kworld option \<Rightarrow> bool" where
  "acquired K held N t a r \<longleftrightarrow> (\<exists>w' q'. r = Some w' \<and> sinv K w' q' N
     \<and> minv K w' q' (if place w' t = Client then bump t a held else held))"

lemma mutex_client:
  assumes s: "sinv K w q N" and m: "minv K w q held" and c: "c \<in> Cs K" and a: "a \<in> Ms K" and l: "mlock w a = NULL"
    and p: "(place w (curr w c) = MutexLocking a \<and> holder w a = NULL) \<or> (place w (curr w c) = MutexRelocking a \<and> holder w a = curr w c)"
    and u: "no_switch w u" "place u = place w" "tstate u = tstate w" "tblock u = tblock w" "lists u = lists w" "IntrOn u = IntrOn w"
      "mlock u = (mlock w)(a := c)" "elock u = elock w" "ReadyThreadsLock u = ReadyThreadsLock w"
      "holder u = (holder w)(a := curr w c)" "depth u = (depth w)(a := 1)"
  shows "acquired K held N (curr w c) a (MutexAcquire_loop c a u)"
proof -
  let ?t = "curr w c"
  have cu: "cur u c = ?t" using no_switch_simps(1) [OF u(1)] by (metis curr_def)
  let ?v = "at ?t Client (intr_restore c ?t (upd_mutex a (MutexLock_update (\<lambda>_. NULL)) u))"
  have e: "MutexAcquire_loop c a u = Some ?v"
    using u by (simp add: MutexAcquire_loop_def view_fold cu [unfolded view_fold] Let_def)
  have n: "no_switch w ?v" using u(1) by (simp add: no_switch_def view_simps)
  have ml: "mlock ?v = mlock w" using u(7) l by (auto simp: view_simps)
  have "sinv K ?v q N"
    by (rule quiet_move [OF s c n, where p' = Client]) (use u p ml in \<open>auto simp: view_simps quiet_def\<close>)
  moreover have "minv K ?v q (bump ?t a held)"
    by (rule mutex_taken [OF s m c a p]) (use u in \<open>simp_all add: view_simps view_fold\<close>)
  ultimately show ?thesis unfolding e acquired_def by (auto simp: view_simps)
qed

lemma acquired_acquire:
  assumes "sinv K w q N" "minv K w q held" "l \<noteq> c" "place w t \<noteq> Client" "l = NULL \<Longrightarrow> acquired K held N t a r"
  shows "acquired K held N t a (acquire c l w r)"
  using assms by (auto simp: acquire_def acquired_def)

lemma mutex_again_step:
  assumes s: "sinv K w q N" and m: "minv K w q held" and c: "c \<in> Cs K" and p: "place w (curr w c) = MutexRelocking a"
  shows "acquired K held N (curr w c) a (MutexAcquire_again c a w)"
proof -
  have a: "a \<in> Ms K" using place_ok_curr [OF s c] p by simp
  have t: "curr w c \<in> Ts K" "curr w c \<noteq> NULL" using curr_thread [OF s c] by auto
  have o: "mutex_ok K w q held a" using m a by (simp add: minv_def)
  have "curr w c \<notin> set (q (MutexWaitingList a))"
    using not_queued(1) [OF s c] p head_neq(2) [OF s a] by (auto simp: inq_def)
  then have h: "holder w a = curr w c" using mutex_okD(3) [OF o t(1)] p by simp
  have "held (curr w c) a = 0" using mutex_okD(5) [OF o t(1)] p by (auto simp: mrole_def)
  then have "depth w a = 1" using mutex_okD(10) [OF o] h t by simp
  with h have e: "(holder w)(a := curr w c) = holder w" "(depth w)(a := 1) = depth w" by auto
  have "mlock w a \<noteq> c" by (rule mutex_lock_other [OF s c a]) (simp add: p)
  moreover have "acquired K held N (curr w c) a (MutexAcquire_loop c a (upd_mutex a (MutexLock_update (\<lambda>_. c)) w))"
    if "mlock w a = NULL"
    by (rule mutex_client [OF s m c a that]) (use p h e in \<open>auto simp: no_switch_def view_simps view_fold\<close>)
  ultimately show ?thesis unfolding MutexAcquire_again_def view_fold
    by (intro acquired_acquire [OF s m]) (simp_all add: p)
qed

lemma mutex_none_held:
  assumes o: "mutex_ok K w q held a" and t: "t \<in> Ts K" "holder w a = t" "mrole a (place w t) \<noteq> (False, False, False)" and u: "u \<in> Ts K"
  shows "held u a = 0"
proof (rule ccontr)
  assume "held u a \<noteq> 0"
  then have "holder w a = u" "mrole a (place w u) = (False, False, False)" using mutex_okD(4,5) [OF o u] by auto
  with t show False by simp
qed

lemma mutex_head_inj: "MutexWaitingList a = MutexWaitingList b \<longleftrightarrow> a = b"
  by (simp add: MutexWaitingList_def)

lemma mutex_wait_minv:
  assumes m: "minv K w q held" and a: "a \<in> Ms K" and t: "t \<in> Ts K" and p: "place w t = MutexLocking a" and h: "holder w a \<noteq> NULL"
    and w': "place w' = (place w)(t := TakeBlockLock (BlockedOnMutex a))" "holder w' = holder w" "depth w' = depth w"
  shows "minv K w' (q(MutexWaitingList a := q (MutexWaitingList a) @ [t])) held"
proof (rule minv_one [OF m])
  have o: "mutex_ok K w q held a" using m a by (simp add: minv_def)
  note d = mutex_okD [OF o]
  have ht: "holder w a \<noteq> t" using d(7) [OF t p] .
  show "mutex_ok K w' (q(MutexWaitingList a := q (MutexWaitingList a) @ [t])) held a"
  proof (rule mutex_okI)
    show "0 < held u a \<Longrightarrow> holder w' a = u \<and> unat (depth w' a) = held u a \<and> mrole a (place w' u) = (False, False, False)"
      if "u \<in> Ts K" for u
      using d(4,5) [OF that] ht by (auto simp: w' split: if_splits)
    show "mwait (place w' u) = Some a \<Longrightarrow> u \<in> set ((q(MutexWaitingList a := q (MutexWaitingList a) @ [t])) (MutexWaitingList a)) \<or> holder w' a = u"
      if "u \<in> Ts K" for u using d(3) [OF that] by (auto simp: w' split: if_splits)
    show "holder w' a \<noteq> NULL \<Longrightarrow> holder w' a \<in> Ts K \<and>
      (0 < held (holder w' a) a \<or> mwait (place w' (holder w' a)) = Some a \<or> place w' (holder w' a) = MutexReleasing a) \<and>
      (held (holder w' a) a = 0 \<longrightarrow> depth w' a = 1)"
      using d(8-10) ht by (simp add: w')
  qed (use d(2,6,7) ht h in \<open>auto simp: w' split: if_splits\<close>)
qed (use p in \<open>auto simp: w' mutex_head_inj mrole_def\<close>)

lemma mutex_first_step:
  assumes s: "sinv K w q N" and m: "minv K w q held" and c: "c \<in> Cs K" and p: "place w (curr w c) = MutexLocking a"
  shows "acquired K held N (curr w c) a (MutexAcquire_first c a w)"
proof -
  let ?h = "MutexWaitingList a" and ?t = "curr w c"
  have ok: "a \<in> Ms K" "?t \<notin> idles K w" using place_ok_curr [OF s c] p by auto
  have off: "\<not> IntrOn w c" using intr_off [OF s c] p by simp
  have o: "mutex_ok K w q held a" using m ok by (simp add: minv_def)
  have t: "?t \<in> Ts K" "\<not> inq (heads K w) q ?t" using curr_thread [OF s c] not_queued(1) [OF s c] p by auto
  let ?u = "upd_mutex a (MutexLock_update (\<lambda>_. c)) w"
  let ?f = "if holder ?u a = NULL then upd_mutex a (\<lambda>M. M\<lparr>Holder := ?t, CurrentRecursivityDepth := 1\<rparr>) ?u else ?u"
  have g: "acquired K held N ?t a (MutexAcquire_loop c a ?f)" if l: "mlock w a = NULL"
  proof (cases "holder w a = NULL")
    case True
    then show ?thesis
      by (intro mutex_client [OF s m c ok(1) l]) (use p True in \<open>auto simp: no_switch_def view_simps view_fold\<close>)
  next
    case False
    note h = head_neq [OF s ok(1)]
    obtain m' where m': "InsertTailList (lists w) ?h (ReadyList ?t) = Some m'" "rings m' (heads K w) (Ts K) (q(?h := q ?h @ [?t]))"
      using rings_insert [OF sinvD(2) [OF s] h(2) t] by blast
    let ?v = "at ?t (TakeBlockLock (BlockedOnMutex a)) (?u\<lparr>lists := m'\<rparr>)"
    have n: "no_switch w ?v" by (rule no_switchI) (simp_all add: view_simps view_fold)
    have "locks_ok K ?v"
      by (rule locks_move [OF s c n, where p' = "TakeBlockLock (BlockedOnMutex a)"])
        (use l p in \<open>auto simp: view_simps view_fold lock_move_def\<close>)
    then have "sinv K ?v (q(?h := q ?h @ [?t])) N"
      by (intro wait_insert_move [OF s c n, where k = "BlockedOnMutex a"])
        (use m' h ok off in \<open>simp_all add: view_simps view_fold quiet_def p\<close>)
    moreover have "minv K ?v (q(?h := q ?h @ [?t])) held"
      by (rule mutex_wait_minv [OF m ok(1) t(1) p False]) (simp_all add: view_simps view_fold)
    moreover have "MutexAcquire_loop c a ?f = Some ?v"
      using m'(1) False mutex_okD(7) [OF o t(1) p] by (simp add: MutexAcquire_loop_def Let_def view_fold view_simps)
    ultimately show ?thesis by (auto simp: acquired_def view_simps)
  qed
  have "mlock w a \<noteq> c" by (rule mutex_lock_other [OF s c ok(1)]) (simp add: p)
  from acquired_acquire [OF s m this _ g] show ?thesis
    by (simp add: MutexAcquire_first_def Let_def view_fold view_simps p cong: if_cong)
qed

text \<open>The hand-over: the first waiting thread becomes the holder, or there is none.\<close>

lemma mutex_release_minv:
  assumes s: "sinv K w q N" and m: "minv K w q held" and a: "a \<in> Ms K" and t: "t \<in> Ts K" and p: "place w t = MutexReleasing a"
    and w': "place w' = (place w)(t := p')" "\<And>b. mrole b p' = (False, False, False)"
    and h: "case q (MutexWaitingList a) of [] \<Rightarrow> holder w' = (holder w)(a := NULL) \<and> depth w' = depth w \<and> q' = q
       | x # xs \<Rightarrow> holder w' = (holder w)(a := x) \<and> depth w' = (depth w)(a := 1) \<and> q' = q(MutexWaitingList a := xs)"
  shows "minv K w' q' held"
proof (rule minv_one [OF m])
  let ?h = "MutexWaitingList a"
  have o: "mutex_ok K w q held a" using m a by (simp add: minv_def)
  note d = mutex_okD [OF o]
  have ht: "holder w a = t" using d(6) [OF t p] .
  have h0: "held u a = 0" if "u \<in> Ts K" for u
    by (rule mutex_none_held [OF o t ht _ that]) (simp add: p mrole_def)
  have p'0: "mwait p' \<noteq> Some a" "p' \<noteq> MutexReleasing a" "p' \<noteq> MutexLocking a" using w'(2) [of a] by (auto simp: mrole_def)
  have wq: "u \<in> set (q ?h)" if "u \<in> Ts K" "mwait (place w' u) = Some a" for u
    using d(3) [OF that(1)] that ht p p'0 by (auto simp: w' split: if_splits)
  have rl: "place w' u \<noteq> MutexReleasing a" if "u \<in> Ts K" for u
    using d(6) [OF that] ht p'0 by (auto simp: w')
  have nt: "NULL \<notin> Ts K" using sinvD(1) [OF s] by (simp add: conf_ok_def)
  show "mutex_ok K w' q' held a"
  proof (cases "q ?h")
    case Nil
    then have e: "holder w' a = NULL" "q' = q" using h by auto
    show ?thesis
      by (rule mutex_okI) (use wq Nil e nt h0 rl in \<open>auto\<close>)
  next
    case (Cons x xs)
    then have e: "holder w' a = x" "depth w' a = 1" "q' ?h = xs" using h by auto
    have x: "x \<in> Ts K" "mwait (place w x) = Some a" "x \<noteq> NULL" "x \<noteq> t"
      using queued_mwait [OF s a, of x] Cons p by auto
    have "distinct (q ?h)" by (rule rings_distinct [OF sinvD(2) [OF s] head_neq(2) [OF s a]])
    then have "x \<notin> set xs" using Cons by simp
    moreover have "place w' u = MutexLocking a \<Longrightarrow> u \<noteq> x" for u using x by (auto simp: w')
    ultimately show ?thesis
      by (intro mutex_okI) (use wq Cons e x h0 rl in \<open>auto simp: w'\<close>)
  qed
  show "holder w' b = holder w b \<and> depth w' b = depth w b \<and> q' (MutexWaitingList b) = q (MutexWaitingList b)
     \<and> (\<forall>u. held u b = held u b \<and> mrole b (place w' u) = mrole b (place w u))" if "b \<noteq> a" for b
    using that h p w'(2) by (cases "q ?h") (auto simp: w'(1) mutex_head_inj mrole_def)
qed

lemma mutex_release_step:
  assumes s: "sinv K w q N" and m: "minv K w q held" and c: "c \<in> Cs K" and p: "place w (curr w c) = MutexReleasing a"
  shows "good K held N (MutexRelease_hand_over c a w)"
proof -
  let ?h = "MutexWaitingList a" and ?t = "curr w c"
  have ok: "a \<in> Ms K" "?t \<notin> idles K w" using place_ok_curr [OF s c] p by auto
  have off: "\<not> IntrOn w c" using intr_off [OF s c] p by simp
  have t: "?t \<in> Ts K" using curr_thread [OF s c] by simp
  note h = head_neq [OF s ok(1)] and r = sinvD(2) [OF s]
  let ?u = "upd_mutex a (MutexLock_update (\<lambda>_. c)) w"
  have g: "good K held N (do {
     (pEntry, m) \<leftarrow> RemoveHeadList (lists ?u) ?h;
     if pEntry \<noteq> ?h then
       Some (at ?t (Unblocking (THREAD_of pEntry) (FromMutex a))
         (upd_mutex a (\<lambda>M. M\<lparr>Holder := THREAD_of pEntry, CurrentRecursivityDepth := 1\<rparr>) (?u\<lparr>lists := m\<rparr>)))
     else MutexRelease_end c a (upd_mutex a (Holder_update (\<lambda>_. NULL)) (?u\<lparr>lists := m\<rparr>))
   })" (is "good K held N ?r") if l: "mlock w a = NULL"
  proof (cases "q ?h")
    case Nil
    let ?x = "upd_mutex a (Holder_update (\<lambda>_. NULL)) (?u\<lparr>lists := lists w\<rparr>)"
    let ?v = "at ?t Client (intr_restore c ?t (upd_mutex a (MutexLock_update (\<lambda>_. NULL)) ?x))"
    have e: "?r = Some ?v" using rings_remove_empty [OF r h(2) Nil]
      by (simp add: MutexRelease_end_def Let_def view_fold view_simps)
    have n: "no_switch w ?v" by (rule no_switchI) (simp_all add: view_simps view_fold)
    have ml: "mlock ?v = mlock w" using l by (auto simp: view_simps)
    have "sinv K ?v q N"
      by (rule quiet_move [OF s c n, where p' = Client]) (use p ml in \<open>auto simp: view_simps quiet_def\<close>)
    moreover have "minv K ?v q held"
      by (rule mutex_release_minv [OF s m ok(1) t p, where p' = Client]) (simp_all add: view_simps view_fold Nil mrole_def)
    ultimately show ?thesis unfolding e by (rule goodI)
  next
    case (Cons x xs)
    obtain m' where m': "RemoveHeadList (lists w) ?h = Some (ReadyList x, m')" "rings m' (heads K w) (Ts K) (q(?h := xs))" "ReadyList x \<noteq> ?h"
      using rings_remove [OF r h(2) Cons] by blast
    let ?p = "Unblocking x (FromMutex a)"
    let ?v = "at ?t ?p (upd_mutex a (\<lambda>M. M\<lparr>Holder := x, CurrentRecursivityDepth := 1\<rparr>) (?u\<lparr>lists := m'\<rparr>))"
    have e: "?r = Some ?v" using m' by (simp add: view_simps)
    have n: "no_switch w ?v" by (rule no_switchI) (simp_all add: view_simps view_fold)
    have nt: "place w (curr w d) \<noteq> TakeBlockLock k" if d: "d \<in> Cs K" "wait_head k = Some ?h" for d k
    proof
      assume pd: "place w (curr w d) = TakeBlockLock k"
      have "k = BlockedOnMutex a"
      proof (cases k)
        case (BlockedOnEvent b)
        with place_ok_curr [OF s d(1)] pd have "b \<in> Es K" by simp
        with ehead_neq(3) [OF s _ ok(1), of b] d(2) BlockedOnEvent show ?thesis by simp
      qed (use d(2) in \<open>simp_all add: mutex_head_inj\<close>)
      then have "mlock w a = d" using mutex_lock_own [OF s d(1) ok(1)] pd by simp
      then show False using l curr_thread [OF s d(1)] by simp
    qed
    note rw = remove_waiting [OF s h(2,1) Cons nt]
    have pp: "blocks (place w ?t) = None" "unblocks (place w ?t) = None" "\<not> with_block_lock (place w ?t)" by (simp_all add: p)
    have lo: "locks_ok K ?v"
      by (rule locks_move [OF s c n, where p' = ?p]) (use l p in \<open>auto simp: view_simps view_fold lock_move_def\<close>)
    have "sinv K ?v (q(?h := xs)) N"
    proof (rule unblock_start_move [OF s c n pp _ rw(1-7)])
      show "locks_ok K ?v" by (rule lo)
      show "rings (lists ?v) (heads K w) (Ts K) (q(?h := xs))" using m'(2) by (simp add: view_simps)
      show "N \<subseteq> insert x N" by blast
    qed (use off ok in \<open>simp_all add: view_simps\<close>)
    moreover have "minv K ?v (q(?h := xs)) held"
      by (rule mutex_release_minv [OF s m ok(1) t p, where p' = ?p]) (simp_all add: view_simps view_fold Cons mrole_def)
    ultimately show ?thesis unfolding e by (rule goodI)
  qed
  have "mlock w a \<noteq> c" by (rule mutex_lock_other [OF s c ok(1)]) (simp add: p)
  from good_acquire [OF s m this g] show ?thesis
    by (simp add: MutexRelease_hand_over_def Let_def view_fold view_simps cong: if_cong)
qed

end
