(* ===== verification/Sched_Reach.thy ===== *)
theory Sched_Reach
  imports Sched_Mutex
begin

text \<open>
  Every run of the scheduler, the mutexes and the events: the moves of the processors, the states they
  reach from the start, and what holds in all of them. The last section runs a small concrete system.
\<close>

section \<open>Every step\<close>

text \<open>The mutex whose acquisition a thread completes when it goes back to its client from here.\<close>

fun acquiring :: "place \<Rightarrow> ADDR option" where
  "acquiring (MutexLocking a) = Some a"
| "acquiring (MutexRelocking a) = Some a"
| "acquiring _ = None"

definition step_held :: "kworld \<Rightarrow> ADDR \<Rightarrow> kworld \<Rightarrow> (ADDR \<Rightarrow> ADDR \<Rightarrow> nat) \<Rightarrow> ADDR \<Rightarrow> ADDR \<Rightarrow> nat" where
  "step_held w c w' held = (case acquiring (place w (cur w c)) of
     Some a \<Rightarrow> if place w' (cur w c) = Client then bump (cur w c) a held else held
   | None \<Rightarrow> held)"

lemma kstep_ok:
  assumes s: "sinv K w q N" and m: "minv K w q held" and c: "c \<in> Cs K"
  shows "\<exists>w' q'. kstep c w = Some w' \<and> sinv K w' q' N \<and> minv K w' q' (step_held w c w' held)"
proof -
  have g: ?thesis if "good K held N (kstep c w)" "acquiring (place w (curr w c)) = None"
    using that by (auto simp: good_def step_held_def view_fold)
  have a: ?thesis if ac: "acquired K held N (curr w c) a (kstep c w)" "acquiring (place w (curr w c)) = Some a" for a
  proof -
    obtain w' q' where "kstep c w = Some w'" "sinv K w' q' N" "minv K w' q' (if place w' (curr w c) = Client then bump (curr w c) a held else held)"
      using ac(1) unfolding acquired_def by blast
    moreover have "step_held w c w' held = (if place w' (curr w c) = Client then bump (curr w c) a held else held)"
      using ac(2) by (simp add: step_held_def view_fold)
    ultimately show ?thesis by metis
  qed
  have cc: "cur w c = curr w c" by (simp add: curr_def)
  note k = kstep_def [of c w, unfolded cc]
  show ?thesis
  proof (cases "place w (curr w c)")
    case Client then show ?thesis using s m by (intro g) (auto simp: k intro: goodI)
  next
    case (InYield f) then show ?thesis using yield_step [OF s m c] by (intro g) (simp_all add: k)
  next
    case (Resume x) then show ?thesis using resume_step [OF s m c] by (intro g) (simp_all add: k)
  next
    case (Cleanup x) then show ?thesis using cleanup_step [OF s m c] by (intro g) (simp_all add: k)
  next
    case (TakeBlockLock x) then show ?thesis using take_block_lock_step [OF s m c] by (intro g) (simp_all add: k)
  next
    case (InBlock x) then show ?thesis using block_enter_step [OF s m c] by (intro g) (simp_all add: k)
  next
    case (BlockLocking x) then show ?thesis using block_step [OF s m c] by (intro g) (simp_all add: k)
  next
    case (MutexLocking x) then show ?thesis using mutex_first_step [OF s m c] by (intro a [of x]) (simp_all add: k)
  next
    case (MutexRelocking x) then show ?thesis using mutex_again_step [OF s m c] by (intro a [of x]) (simp_all add: k)
  next
    case (MutexReleasing x) then show ?thesis using mutex_release_step [OF s m c] by (intro g) (simp_all add: k)
  next
    case (EventTest x) then show ?thesis using event_test_step [OF s m c] by (intro g) (simp_all add: k)
  next
    case (EventLocking x) then show ?thesis using event_insert_step [OF s m c] by (intro g) (simp_all add: k)
  next
    case (SignalLocking x r) then show ?thesis using signal_first_step [OF s m c] by (intro g) (simp_all add: k)
  next
    case (Signalling x r) then show ?thesis using signalling_step [OF s m c] by (intro g) (simp_all add: k)
  next
    case (Unblocking x r) then show ?thesis using unblock_enter_step [OF s m c] by (intro g) (simp_all add: k)
  next
    case (UnblockReady x r) then show ?thesis using unblock_ready_step [OF s m c] by (intro g) (simp_all add: k)
  next
    case (UnblockRelease x r) then show ?thesis using unblock_end_step [OF s m c] by (intro g) (simp_all add: k)
  next
    case ExitLocking then show ?thesis using place_ok_curr [OF s c] by simp
  qed
qed

section \<open>The calls\<close>

text \<open>A call of a client that leaves the mutexes alone and goes to a place without any lock.\<close>

lemma client_call:
  assumes s: "sinv K w q N" and m: "minv K w q held" and c: "c \<in> Cs K" and p: "place w (curr w c) = Client"
    and p': "quiet p'" "place_ok K (curr w c \<in> idles K w) p'" "\<And>a. mrole a p' = (False, False, False)"
    and u: "no_switch w u" "place u = place w" "tstate u = tstate w" "tblock u = tblock w"
      "mlock u = mlock w" "elock u = elock w" "lists u = lists w" "ReadyThreadsLock u = ReadyThreadsLock w"
      "\<And>d. d \<noteq> c \<Longrightarrow> IntrOn u d = IntrOn w d" "p' \<noteq> Client \<Longrightarrow> \<not> IntrOn u c" "holder u = holder w" "depth u = depth w"
  shows "good K held N (Some (at (curr w c) p' u))"
  by (rule quiet_good [OF s m c]) (use p p' u in \<open>simp_all add: view_simps quiet_def mrole_def no_switch_def\<close>)

lemma yield_call:
  assumes s: "sinv K w q N" and m: "minv K w q held" and c: "c \<in> Cs K" and p: "place w (curr w c) = Client"
    and u: "no_switch w u" "place u = place w" "tstate u = tstate w" "tblock u = tblock w"
      "mlock u = mlock w" "elock u = elock w" "lists u = lists w" "ReadyThreadsLock u = ReadyThreadsLock w"
      "\<And>d. d \<noteq> c \<Longrightarrow> IntrOn u d = IntrOn w d" "\<not> IntrOn u c" "holder u = holder w" "depth u = depth w"
  shows "good K held N (ThreadYield_enter c u)"
proof -
  have e: "curr u = curr w" "tflags u = tflags w" using no_switch_simps [OF u(1)] by simp_all
  have t: "curr w c \<noteq> NULL" "tflags w (curr w c) \<noteq> THREAD_FLAG_FORCE_TERMINATE_PENDING"
    using curr_thread [OF s c] sinvD(4) [OF s] by (auto simp: threads_ok_def)
  show ?thesis using t unfolding ThreadYield_enter_def Let_def
    by (simp add: view_fold view_simps e, intro client_call [OF s m c p])
      (use u in \<open>simp_all add: view_simps view_fold quiet_def mrole_def no_switch_def\<close>)
qed

lemma ThreadYield_call:
  assumes s: "sinv K w q N" and m: "minv K w q held" and c: "c \<in> Cs K" and p: "place w (curr w c) = Client"
  shows "good K held N (ThreadYield c w)"
  unfolding ThreadYield_def by (rule yield_call [OF s m c p]) (simp_all add: no_switch_def view_simps)

lemma ThreadTick_frame:
  assumes "\<not> IntrOn w c"
  shows "\<exists>u. ThreadTick c w = Some u \<and> no_switch w u \<and> place u = place w \<and> tstate u = tstate w \<and> tblock u = tblock w
    \<and> mlock u = mlock w \<and> elock u = elock w \<and> lists u = lists w \<and> ReadyThreadsLock u = ReadyThreadsLock w
    \<and> IntrOn u = IntrOn w \<and> holder u = holder w \<and> depth u = depth w"
proof -
  define u1 where "u1 = (if IdleThread (cpus w c) = cur w c then upd_cpu c (IdleTicks_update (\<lambda>n. n + 1)) w
              else upd_cpu c (KernelTicks_update (\<lambda>n. n + 1)) w)"
  define u2 where "u2 = upd_cpu c (RunningThreadTicks_update (\<lambda>n. n + 1)) (upd_thread (cur w c) (TickCountCompleted_update (\<lambda>n. n + 1)) u1)"
  define u where "u = (if RunningThreadTicks (cpus u2 c) \<ge> THREAD_TIME_SLICE
     then upd_cpu c (YieldOnInterruptReturn_update (\<lambda>_. True)) u2 else u2)"
  have "ThreadTick c w = Some u"
    using assms by (simp add: ThreadTick_def Let_def u1_def [symmetric] u2_def [symmetric] u_def)
  moreover have "curr u = curr w" "prev u = prev w" "idle u = idle w" "ReadyThreadsList u = ReadyThreadsList w" "tflags u = tflags w"
    "place u = place w" "tstate u = tstate w" "tblock u = tblock w"
    "mlock u = mlock w" "elock u = elock w" "lists u = lists w" "ReadyThreadsLock u = ReadyThreadsLock w"
    "IntrOn u = IntrOn w" "holder u = holder w" "depth u = depth w"
    by (auto simp: u_def u2_def u1_def view_simps view_fold fun_eq_iff)
  ultimately show ?thesis by (simp add: no_switch_def)
qed

lemma timer_call:
  assumes s: "sinv K w q N" and m: "minv K w q held" and c: "c \<in> Cs K" and p: "place w (curr w c) = Client"
  shows "good K held N (timer_interrupt c w)"
proof -
  have i: "\<not> IntrOn (intr_disable c (curr w c) w) c" by (simp add: view_simps)
  obtain u where e: "ThreadTick c (intr_disable c (curr w c) w) = Some u"
    and u: "no_switch w u" "place u = place w" "tstate u = tstate w" "tblock u = tblock w"
      "mlock u = mlock w" "elock u = elock w" "lists u = lists w" "ReadyThreadsLock u = ReadyThreadsLock w"
      "\<And>d. d \<noteq> c \<Longrightarrow> IntrOn u d = IntrOn w d" "\<not> IntrOn u c" "holder u = holder w" "depth u = depth w"
    using ThreadTick_frame [OF i] by (auto simp: view_simps no_switch_def)
  have "good K held N (Some (intr_restore c (curr w c) u))"
    by (rule quiet_good [OF s m c, where p' = Client]) (use p u in \<open>auto simp: view_simps quiet_def no_switch_def\<close>)
  then show ?thesis using yield_call [OF s m c p u] by (simp add: timer_interrupt_def view_fold e)
qed

lemma event_calls:
  assumes s: "sinv K w q N" and m: "minv K w q held" and c: "c \<in> Cs K" and p: "place w (curr w c) = Client" and a: "a \<in> Es K"
  shows "good K held N (ExEventSignal c a w)" "good K held N (ExEventClearSignal a w)"
    "curr w c \<notin> idles K w \<Longrightarrow> good K held N (ExEventWaitForSignal c a w)"
proof -
  have n: "a \<noteq> NULL" "curr w c \<noteq> NULL" using sinvD(1) [OF s] a curr_thread [OF s c] by (auto simp: conf_ok_def)
  show "good K held N (ExEventSignal c a w)"
    using n a by (simp add: ExEventSignal_def view_fold, intro client_call [OF s m c p])
      (simp_all add: view_simps view_fold quiet_def mrole_def no_switch_def)
  show "good K held N (ExEventClearSignal a w)"
    using n by (simp add: ExEventClearSignal_def, intro quiet_good [OF s m c, where p' = Client])
      (use p in \<open>auto simp: view_simps view_fold quiet_def no_switch_def\<close>)
  show "good K held N (ExEventWaitForSignal c a w)" if "curr w c \<notin> idles K w"
    using n a that by (simp add: ExEventWaitForSignal_def Let_def view_fold, intro client_call [OF s m c p])
      (simp_all add: view_simps view_fold quiet_def mrole_def no_switch_def)
qed

text \<open>The count of a thread's acquisitions after it acquires or releases once more.\<close>

definition unbump :: "ADDR \<Rightarrow> ADDR \<Rightarrow> (ADDR \<Rightarrow> ADDR \<Rightarrow> nat) \<Rightarrow> ADDR \<Rightarrow> ADDR \<Rightarrow> nat" where
  "unbump t a held = held(t := (held t)(a := held t a - 1))"

lemma unbump_apply: "unbump t a held u b = (if u = t \<and> b = a then held t a - 1 else held u b)"
  by (auto simp: unbump_def)

lemma client_holder:
  assumes o: "mutex_ok K w q held a" and t: "t \<in> Ts K" "t \<noteq> NULL" and p: "place w t = Client"
  shows "holder w a = t \<longleftrightarrow> held t a > 0"
  using mutex_okD(4) [OF o t(1)] mutex_okD(9) [OF o] t p by auto

lemma others_hold_nothing:
  assumes o: "mutex_ok K w q held a" and h: "holder w a = t" and u: "u \<in> Ts K" "u \<noteq> t"
  shows "held u a = 0"
  using mutex_okD(4) [OF o u(1)] h u by auto

text \<open>The recursive cases: the depth and the count change together.\<close>

lemma mutex_recursive_minv:
  assumes m: "minv K w q held" and a: "a \<in> Ms K" and t: "t \<in> Ts K" "held t a > 0" and n: "n > 0" "unat d = n"
    and w': "place w' = place w" "holder w' = holder w" "depth w' = (depth w)(a := d)"
    and h': "\<And>u b. held' u b = (if u = t \<and> b = a then n else held u b)"
  shows "minv K w' q held'"
proof (rule minv_one [OF m])
  have o: "mutex_ok K w q held a" using m a by (simp add: minv_def)
  note d = mutex_okD [OF o]
  have ht: "holder w a = t" using d(4) [OF t] by simp
  have h0: "held u a = 0" if "u \<in> Ts K" "u \<noteq> t" for u by (rule others_hold_nothing [OF o ht that])
  show "mutex_ok K w' q held' a"
  proof (rule mutex_okI)
    show "0 < held' u a \<Longrightarrow> holder w' a = u \<and> unat (depth w' a) = held' u a \<and> mrole a (place w' u) = (False, False, False)"
      if "u \<in> Ts K" for u
      using h0 [OF that] d(5) [OF t] n ht by (auto simp: w' h' split: if_splits)
    show "holder w' a \<noteq> NULL \<Longrightarrow> holder w' a \<in> Ts K \<and>
      (0 < held' (holder w' a) a \<or> mwait (place w' (holder w' a)) = Some a \<or> place w' (holder w' a) = MutexReleasing a) \<and>
      (held' (holder w' a) a = 0 \<longrightarrow> depth w' a = 1)"
      using n ht t by (simp add: w' h')
  qed (use d(1,2,3,6,7) in \<open>auto simp: w'\<close>)
qed (auto simp: w' h')

text \<open>Places that a thread may go to with respect to a mutex it has nothing to do with.\<close>

lemma mutex_locking_minv:
  assumes m: "minv K w q held" and a: "a \<in> Ms K" and t: "t \<in> Ts K" and p: "place w t = Client" "holder w a \<noteq> t"
    and w': "place w' = (place w)(t := MutexLocking a)" "holder w' = holder w" "depth w' = depth w"
  shows "minv K w' q held"
proof (rule minv_one [OF m])
  have o: "mutex_ok K w q held a" using m a by (simp add: minv_def)
  note d = mutex_okD [OF o]
  show "mutex_ok K w' q held a"
  proof (rule mutex_okI)
    show "0 < held u a \<Longrightarrow> holder w' a = u \<and> unat (depth w' a) = held u a \<and> mrole a (place w' u) = (False, False, False)"
      if "u \<in> Ts K" for u
      using d(4,5) [OF that] p by (auto simp: w' split: if_splits)
    show "mwait (place w' u) = Some a \<Longrightarrow> u \<in> set (q (MutexWaitingList a)) \<or> holder w' a = u" if "u \<in> Ts K" for u
      using d(3) [OF that] by (auto simp: w' split: if_splits)
  qed (use d(1,2,6-10) p in \<open>auto simp: w' split: if_splits\<close>)
qed (use p in \<open>auto simp: w' mrole_def\<close>)

lemma mutex_releasing_minv:
  assumes s: "sinv K w q N" and m: "minv K w q held" and a: "a \<in> Ms K" and t: "t \<in> Ts K" "held t a = 1" and p: "place w t = Client"
    and w': "place w' = (place w)(t := MutexReleasing a)" "holder w' = holder w" "depth w' = depth w"
  shows "minv K w' q (unbump t a held)"
proof (rule minv_one [OF m])
  have o: "mutex_ok K w q held a" using m a by (simp add: minv_def)
  note d = mutex_okD [OF o]
  have ht: "holder w a = t" "unat (depth w a) = 1" using d(4) [OF t(1)] t by auto
  then have d1: "depth w a = 1" by (metis unat_1 unsigned_word_eqI)
  have h0: "unbump t a held u a = 0" if "u \<in> Ts K" for u
    using others_hold_nothing [OF o ht(1) that] t by (auto simp: unbump_apply)
  show "mutex_ok K w' q (unbump t a held) a"
  proof (rule mutex_okI)
    show "mwait (place w' u) = Some a \<Longrightarrow> u \<in> set (q (MutexWaitingList a)) \<or> holder w' a = u" if "u \<in> Ts K" for u
      using d(3) [OF that] by (auto simp: w' split: if_splits)
    show "place w' u = MutexReleasing a \<Longrightarrow> holder w' a = u" if "u \<in> Ts K" for u
      using d(6) [OF that] ht(1) by (cases "u = t") (simp_all add: w')
    show "place w' u = MutexLocking a \<Longrightarrow> holder w' a \<noteq> u" if "u \<in> Ts K" for u
      using d(7) [OF that] by (cases "u = t") (simp_all add: w')
    show "0 < unbump t a held u a \<Longrightarrow> holder w' a = u \<and> unat (depth w' a) = unbump t a held u a \<and> mrole a (place w' u) = (False, False, False)"
      if "u \<in> Ts K" for u using h0 [OF that] by simp
  qed (use d(1,2) ht(1) d1 t in \<open>auto simp: w'\<close>)
qed (use p in \<open>auto simp: w' mrole_def unbump_apply\<close>)

lemma MutexAcquire_call:
  assumes s: "sinv K w q N" and m: "minv K w q held" and c: "c \<in> Cs K" and p: "place w (curr w c) = Client"
    and a: "a \<in> Ms K" "curr w c \<notin> idles K w" "held (curr w c) a < unat (maxdepth w a)"
  shows "good K (if held (curr w c) a > 0 then bump (curr w c) a held else held) N (MutexAcquire c a w)"
proof -
  let ?t = "curr w c"
  have n: "a \<noteq> NULL" using sinvD(1) [OF s] a by (auto simp: conf_ok_def)
  have t: "?t \<in> Ts K" "?t \<noteq> NULL" using curr_thread [OF s c] by auto
  have o: "mutex_ok K w q held a" using m a by (simp add: minv_def)
  note h = client_holder [OF o t p]
  show ?thesis
  proof (cases "holder w a = ?t")
    case True
    then have hp: "held ?t a > 0" "unat (depth w a) = held ?t a" using h mutex_okD(4) [OF o t(1)] by auto
    then have lt: "depth w a < maxdepth w a" using a(3) by (simp add: word_less_nat_alt)
    have "unat (maxdepth w a) < 2 ^ LENGTH(8)" by (rule unsigned_less)
    then have "Suc (unat (depth w a)) < 2 ^ LENGTH(8)" using hp(2) a(3) by linarith
    then have sd: "unat (depth w a + 1) = Suc (unat (depth w a))"
      by (simp add: unat_word_ariths)
    let ?v = "upd_mutex a (CurrentRecursivityDepth_update (\<lambda>d. d + 1)) w"
    have e: "MutexAcquire c a w = Some ?v" using n t True lt by (simp add: MutexAcquire_def Let_def view_fold)
    have nv: "no_switch w ?v" by (rule no_switchI) (simp_all add: view_simps)
    have "sinv K ?v q N"
      by (rule quiet_move [OF s c nv, where p' = Client]) (use p in \<open>auto simp: view_simps view_fold quiet_def\<close>)
    moreover have "minv K ?v q (bump ?t a held)"
      by (rule mutex_recursive_minv [OF m a(1) t(1) hp(1), where n = "Suc (held ?t a)" and d = "depth w a + 1"])
        (use hp sd in \<open>simp_all add: view_simps view_fold bump_apply\<close>)
    ultimately show ?thesis unfolding e using hp by (simp add: goodI)
  next
    case False
    let ?v = "at ?t (MutexLocking a) (intr_disable c ?t w)"
    have e: "MutexAcquire c a w = Some ?v" using n t False by (simp add: MutexAcquire_def Let_def view_fold)
    have nv: "no_switch w ?v" by (rule no_switchI) (simp_all add: view_simps)
    have "sinv K ?v q N"
      by (rule quiet_move [OF s c nv, where p' = "MutexLocking a"]) (use p a in \<open>auto simp: view_simps view_fold quiet_def\<close>)
    moreover have "minv K ?v q held"
      by (rule mutex_locking_minv [OF m a(1) t(1) p False]) (simp_all add: view_simps)
    ultimately show ?thesis unfolding e using False h by (simp add: goodI)
  qed
qed

lemma MutexRelease_call:
  assumes s: "sinv K w q N" and m: "minv K w q held" and c: "c \<in> Cs K" and p: "place w (curr w c) = Client"
    and a: "a \<in> Ms K" "curr w c \<notin> idles K w" "held (curr w c) a > 0"
  shows "good K (unbump (curr w c) a held) N (MutexRelease c a w)"
proof -
  let ?t = "curr w c"
  have n: "a \<noteq> NULL" using sinvD(1) [OF s] a by (auto simp: conf_ok_def)
  have t: "?t \<in> Ts K" "?t \<noteq> NULL" using curr_thread [OF s c] by auto
  have o: "mutex_ok K w q held a" using m a by (simp add: minv_def)
  have hp: "holder w a = ?t" "unat (depth w a) = held ?t a" using mutex_okD(4) [OF o t(1) a(3)] by auto
  show ?thesis
  proof (cases "depth w a > 1")
    case True
    then have g: "held ?t a > 1" using hp by (simp add: word_less_nat_alt)
    then have sd: "unat (depth w a - 1) = held ?t a - 1" using hp by (metis unat_1 unat_minus_one less_zeroE unat_0)
    let ?v = "upd_mutex a (CurrentRecursivityDepth_update (\<lambda>d. d - 1)) w"
    have e: "MutexRelease c a w = Some ?v" using n hp True by (simp add: MutexRelease_def view_fold)
    have nv: "no_switch w ?v" by (rule no_switchI) (simp_all add: view_simps)
    have "sinv K ?v q N"
      by (rule quiet_move [OF s c nv, where p' = Client]) (use p in \<open>auto simp: view_simps view_fold quiet_def\<close>)
    moreover have "minv K ?v q (unbump ?t a held)"
      by (rule mutex_recursive_minv [OF m a(1) t(1) a(3), where n = "held ?t a - 1" and d = "depth w a - 1"])
        (use g sd in \<open>simp_all add: view_simps view_fold unbump_apply\<close>)
    ultimately show ?thesis unfolding e by (rule goodI)
  next
    case False
    then have g: "held ?t a = 1" using hp a(3) by (simp add: word_less_nat_alt)
    let ?v = "at ?t (MutexReleasing a) (intr_disable c ?t w)"
    have e: "MutexRelease c a w = Some ?v" using n hp False by (simp add: MutexRelease_def view_fold)
    have nv: "no_switch w ?v" by (rule no_switchI) (simp_all add: view_simps)
    have "sinv K ?v q N"
      by (rule quiet_move [OF s c nv, where p' = "MutexReleasing a"]) (use p a in \<open>auto simp: view_simps view_fold quiet_def\<close>)
    moreover have "minv K ?v q (unbump ?t a held)"
      by (rule mutex_releasing_minv [OF s m a(1) t(1) g p]) (simp_all add: view_simps)
    ultimately show ?thesis unfolding e by (rule goodI)
  qed
qed

lemma ThreadUnblock_call:
  assumes s: "sinv K w q N" and m: "minv K w q held" and c: "c \<in> Cs K" and p: "place w (curr w c) = Client" and t: "t \<in> N"
  shows "good K held (N - {t}) (ThreadUnblock c t w)"
proof -
  have f: "fresh K w q t" using sinvD(7) [OF s] t by (auto simp: limbo_ok_def)
  then have T: "t \<in> Ts K" "t \<notin> idles K w" "\<not> inq (heads K w) q t" "\<not> oncpu K w t" "tstate w t = ThreadStateBlocked"
    by (auto simp: fresh_def)
  have nn: "t \<noteq> NULL" using T(1) sinvD(1) [OF s] by (auto simp: conf_ok_def)
  obtain k where k: "place w t = Resume k" using sinvD(4) [OF s] T by (auto simp: threads_ok_def)
  then have wt: "\<exists>k. waits K w t k \<and> place w t \<noteq> TakeBlockLock k" using T by (auto simp: waits_def)
  have ub: "\<forall>d\<in>Cs K. unblocks (place w (curr w d)) \<noteq> Some t"
    using sinvD(7) [OF s] t by (auto simp: limbo_ok_def limbo_def)
  have iq: "inq (heads K w) q u = (inq (heads K w) q u \<and> u \<noteq> t)" for u using T(3) by auto
  let ?v = "at (curr w c) (Unblocking t UnblockDone) (intr_disable c (curr w c) w)"
  have e: "ThreadUnblock c t w = Some ?v" using nn by (simp add: ThreadUnblock_def view_fold)
  have nv: "no_switch w ?v" by (rule no_switchI) (simp_all add: view_simps)
  have lo: "locks_ok K ?v"
    by (rule locks_move [OF s c nv, where p' = "Unblocking t UnblockDone"]) (use p in \<open>auto simp: view_simps lock_move_def\<close>)
  have "sinv K ?v q (N - {t})"
  proof (rule unblock_start_move [OF s c nv _ _ _ _ T(1,2) wt _ ub iq])
    show "locks_ok K ?v" by (rule lo)
  qed (use p sinvD(2) [OF s] in \<open>auto simp: view_simps\<close>)
  moreover have "minv K ?v q held"
    by (rule minv_frame [OF m]) (use p in \<open>simp_all add: view_simps mrole_def\<close>)
  ultimately show ?thesis unfolding e by (rule goodI)
qed

lemma IdleThread_call:
  assumes s: "sinv K w q N" and m: "minv K w q held" and c: "c \<in> Cs K" and p: "place w (curr w c) = Client"
    and i: "curr w c = idle w c"
  shows "good K held N (IdleThread_loop c w)"
proof -
  let ?v = "at (curr w c) (TakeBlockLock IdleLoop) (w\<lparr>IntrOn := (IntrOn w)(c := False)\<rparr>)"
  have e: "IdleThread_loop c w = Some ?v" by (simp add: IdleThread_loop_def Let_def view_fold)
  have nv: "no_switch w ?v" by (rule no_switchI) (simp_all add: view_simps)
  have "sinv K ?v q N"
    by (rule idle_block_move [OF s c nv]) (use p i curr_is_idle [OF s c] in \<open>simp_all add: view_simps quiet_def\<close>)
  moreover have "minv K ?v q held"
    by (rule minv_frame [OF m]) (use p in \<open>simp_all add: view_simps mrole_def\<close>)
  ultimately show ?thesis unfolding e by (rule goodI)
qed

section \<open>Runs of the system\<close>

text \<open>
  What processor \<open>c\<close> may do next: a step of the code its thread is in, or, when its thread is with its
  client, a call or the timer interrupt. The conditions on the calls are the ones the code documents
  or asserts for its callers: the idle thread never blocks on an object, a mutex is released by a thread
  that holds it and acquired again only up to its recursion depth, a thread is started once.
\<close>

datatype kmove = Step | Yield | Timer | Idle | Start ADDR | Acquire ADDR | Release ADDR | Signal ADDR | Clear ADDR | Wait ADDR

type_synonym kheld = "ADDR \<Rightarrow> ADDR \<Rightarrow> nat"

definition kmove_ok :: "kconf \<Rightarrow> kworld \<Rightarrow> kheld \<Rightarrow> ADDR set \<Rightarrow> ADDR \<Rightarrow> kmove \<Rightarrow> bool" where
  "kmove_ok K w held N c x \<longleftrightarrow> (let t = cur w c in (x \<noteq> Step \<longrightarrow> place w t = Client) \<and> (case x of
     Step \<Rightarrow> True
   | Yield \<Rightarrow> True
   | Timer \<Rightarrow> IntrOn w c
   | Idle \<Rightarrow> t = IdleThread (cpus w c)
   | Start u \<Rightarrow> u \<in> N
   | Acquire a \<Rightarrow> a \<in> Ms K \<and> t \<notin> idles K w \<and> held t a < unat (MaxRecursivityDepth (mutexes w a))
   | Release a \<Rightarrow> a \<in> Ms K \<and> t \<notin> idles K w \<and> held t a > 0
   | Signal a \<Rightarrow> a \<in> Es K
   | Clear a \<Rightarrow> a \<in> Es K
   | Wait a \<Rightarrow> a \<in> Es K \<and> t \<notin> idles K w))"

definition do_move :: "ADDR \<Rightarrow> kmove \<Rightarrow> kworld \<Rightarrow> kworld option" where
  "do_move c x w = (case x of
     Step \<Rightarrow> kstep c w
   | Yield \<Rightarrow> ThreadYield c w
   | Timer \<Rightarrow> timer_interrupt c w
   | Idle \<Rightarrow> IdleThread_loop c w
   | Start t \<Rightarrow> ThreadUnblock c t w
   | Acquire a \<Rightarrow> MutexAcquire c a w
   | Release a \<Rightarrow> MutexRelease c a w
   | Signal a \<Rightarrow> ExEventSignal c a w
   | Clear a \<Rightarrow> ExEventClearSignal a w
   | Wait a \<Rightarrow> ExEventWaitForSignal c a w)"

text \<open>The acquisitions that have returned, and the threads not yet started, after the move.\<close>

definition kmove_held :: "ADDR \<Rightarrow> kmove \<Rightarrow> kworld \<Rightarrow> kworld \<Rightarrow> kheld \<Rightarrow> kheld" where
  "kmove_held c x w w' held = (let t = cur w c in case x of
     Step \<Rightarrow> step_held w c w' held
   | Acquire a \<Rightarrow> if held t a > 0 then bump t a held else held
   | Release a \<Rightarrow> unbump t a held
   | _ \<Rightarrow> held)"

definition kmove_new :: "kmove \<Rightarrow> ADDR set \<Rightarrow> ADDR set" where
  "kmove_new x N = (case x of Start t \<Rightarrow> N - {t} | _ \<Rightarrow> N)"

text \<open>
  The start: every processor runs a thread of its own, all lists are empty, all locks are free, all
  other threads have been set up to begin with \<^verbatim>\<open>ThreadCleanupPostSchedule\<close>.
\<close>

definition kstart :: "kconf \<Rightarrow> kworld \<Rightarrow> ADDR set \<Rightarrow> bool" where
  "kstart K w N \<longleftrightarrow> conf_ok K w \<and> rings (lists w) (heads K w) (Ts K) (\<lambda>_. []) \<and> cpus_ok K w
     \<and> (\<forall>c\<in>Cs K. place w (curr w c) = Client)
     \<and> (\<forall>t\<in>Ts K. tblock w t = NULL \<and> tflags w t \<noteq> THREAD_FLAG_FORCE_TERMINATE_PENDING \<and> tstate w t \<noteq> ThreadStateDying
          \<and> (\<not> oncpu K w t \<longrightarrow> place w t = Resume YieldDone)
          \<and> (t \<in> N \<longleftrightarrow> \<not> oncpu K w t \<and> t \<notin> idles K w) \<and> (t \<in> N \<longrightarrow> tstate w t = ThreadStateBlocked))
     \<and> N \<subseteq> Ts K \<and> ReadyThreadsLock w = NULL \<and> (\<forall>a\<in>Ms K. mlock w a = NULL \<and> holder w a = NULL) \<and> (\<forall>a\<in>Es K. elock w a = NULL)"

inductive kreach :: "kconf \<Rightarrow> kworld \<Rightarrow> kheld \<Rightarrow> ADDR set \<Rightarrow> bool" for K where
  start: "kstart K w N \<Longrightarrow> kreach K w (\<lambda>_ _. 0) N"
| move: "kreach K w held N \<Longrightarrow> c \<in> Cs K \<Longrightarrow> kmove_ok K w held N c x \<Longrightarrow> do_move c x w = Some w'
    \<Longrightarrow> kreach K w' (kmove_held c x w w' held) (kmove_new x N)"

lemma kstart_sinv:
  assumes k: "kstart K w N"
  shows "sinv K w (\<lambda>_. []) N"
proof -
  let ?q = "\<lambda>_. [] :: ADDR list"
  have c: "conf_ok K w" "rings (lists w) (heads K w) (Ts K) ?q" "cpus_ok K w" using k by (simp_all add: kstart_def)
  have C: "NULL \<notin> Cs K" using c(1) by (simp add: conf_ok_def)
  have p: "place w (curr w d) = Client" if "d \<in> Cs K" for d using k that by (simp add: kstart_def)
  have on: "place w t = Client" if "oncpu K w t" for t using that p by (auto simp: oncpu_def)
  have t: "tblock w t = NULL \<and> tflags w t \<noteq> THREAD_FLAG_FORCE_TERMINATE_PENDING \<and> tstate w t \<noteq> ThreadStateDying
          \<and> (\<not> oncpu K w t \<longrightarrow> place w t = Resume YieldDone)
          \<and> (t \<in> N \<longleftrightarrow> \<not> oncpu K w t \<and> t \<notin> idles K w) \<and> (t \<in> N \<longrightarrow> tstate w t = ThreadStateBlocked)" if "t \<in> Ts K" for t
    using k that by (simp add: kstart_def)
  have n: "\<not> inq (heads K w) ?q u" for u by (simp add: inq_def)
  show ?thesis unfolding sinv_def
  proof (intro conjI c)
    show "threads_ok K w" unfolding threads_ok_def
    proof
      fix u assume "u \<in> Ts K"
      with t [of u] on [of u] show "place_ok K (u \<in> idles K w) (place w u) \<and> tflags w u \<noteq> THREAD_FLAG_FORCE_TERMINATE_PENDING
        \<and> tstate w u \<noteq> ThreadStateDying \<and> (\<not> oncpu K w u \<longrightarrow> (\<exists>k. place w u = Resume k))"
        by (cases "oncpu K w u") simp_all
    qed
    show "ready_ok K w ?q" "wait_ok K w ?q" by (simp_all add: ready_ok_def wait_ok_def)
    have "fresh K w ?q u" if "u \<in> N" for u
    proof -
      have "u \<in> Ts K" using k that by (auto simp: kstart_def)
      with t [of u] that n show ?thesis by (simp add: fresh_def)
    qed
    then show "limbo_ok K w ?q N" using p by (simp add: limbo_ok_def)
    have "tblock w (idle w d) = NULL" if "d \<in> Cs K" for d
      using t [of "idle w d"] c(3) that by (simp add: cpus_ok_def)
    then show "block_ok K w" using t p by (simp add: block_ok_def block_place_def)
    show "locks_ok K w" using k p C by (auto simp: kstart_def locks_ok_def lock_ok_def)
    show "kept_ok K w ?q N" using t on by (auto simp: kept_ok_def)
  qed
qed

lemma kstart_minv:
  assumes k: "kstart K w N"
  shows "minv K w (\<lambda>_. []) (\<lambda>_ _. 0)"
  unfolding minv_def
proof (intro ballI mutex_okI)
  fix a t assume a: "a \<in> Ms K" and t: "t \<in> Ts K"
  have "place w t = Client \<or> place w t = Resume YieldDone"
    using k t by (auto simp: kstart_def oncpu_def)
  then show "mwait (place w t) = Some a \<Longrightarrow> t \<in> set [] \<or> holder w a = t"
    "place w t = MutexReleasing a \<Longrightarrow> holder w a = t" "place w t = MutexLocking a \<Longrightarrow> holder w a \<noteq> t"
    by auto
qed (use k in \<open>auto simp: kstart_def\<close>)

lemma kmove_correct:
  assumes s: "sinv K w q N" and m: "minv K w q held" and c: "c \<in> Cs K" and x: "kmove_ok K w held N c x"
  shows "\<exists>w' q'. do_move c x w = Some w' \<and> sinv K w' q' (kmove_new x N) \<and> minv K w' q' (kmove_held c x w w' held)"
proof -
  have p: "place w (curr w c) = Client" if "x \<noteq> Step" using x that by (simp add: kmove_ok_def Let_def view_fold)
  note k = do_move_def kmove_new_def kmove_held_def kmove_ok_def Let_def view_fold
  have g: ?thesis if gd: "good K h (kmove_new x N) (do_move c x w)" "\<And>w'. kmove_held c x w w' held = h" for h
    using gd by (auto simp: good_def)
  show ?thesis
  proof (cases x)
    case Step then show ?thesis using kstep_ok [OF s m c] by (simp add: k)
  next
    case Yield then show ?thesis using ThreadYield_call [OF s m c p] by (intro g [of held]) (simp_all add: k)
  next
    case Timer then show ?thesis using timer_call [OF s m c p] by (intro g [of held]) (simp_all add: k)
  next
    case Idle then show ?thesis using IdleThread_call [OF s m c p] x by (intro g [of held]) (simp_all add: k)
  next
    case (Start t) then show ?thesis using ThreadUnblock_call [OF s m c p, of t] x by (intro g [of held]) (simp_all add: k)
  next
    case (Acquire a) then show ?thesis
      using MutexAcquire_call [OF s m c p, of a] x
      by (intro g [of "if held (curr w c) a > 0 then bump (curr w c) a held else held"]) (simp_all add: k)
  next
    case (Release a) then show ?thesis
      using MutexRelease_call [OF s m c p, of a] x by (intro g [of "unbump (curr w c) a held"]) (simp_all add: k)
  next
    case (Signal a) then show ?thesis using event_calls(1) [OF s m c p, of a] x by (intro g [of held]) (simp_all add: k)
  next
    case (Clear a) then show ?thesis using event_calls(2) [OF s m c p, of a] x by (intro g [of held]) (simp_all add: k)
  next
    case (Wait a) then show ?thesis using event_calls(3) [OF s m c p, of a] x by (intro g [of held]) (simp_all add: k)
  qed
qed

lemma kreach_inv:
  assumes "kreach K w held N"
  shows "\<exists>q. sinv K w q N \<and> minv K w q held"
  using assms
proof (induction rule: kreach.induct)
  case (start w N)
  then show ?case using kstart_sinv kstart_minv by blast
next
  case (move w held N c x w')
  then obtain q where "sinv K w q N" "minv K w q held" by blast
  from kmove_correct [OF this move(2,3)] move(4) show ?case by auto
qed

section \<open>A concrete system\<close>

definition kruns :: "kconf \<Rightarrow> (ADDR \<times> kmove) list \<Rightarrow> kworld \<times> kheld \<times> ADDR set \<Rightarrow> (kworld \<times> kheld \<times> ADDR set) option" where
  "kruns K xs s = fold (\<lambda>(c, x) s. do {
     (w, held, N) \<leftarrow> s;
     ASSERT (c \<in> Cs K \<and> kmove_ok K w held N c x);
     w' \<leftarrow> do_move c x w;
     Some (w', kmove_held c x w w' held, kmove_new x N)
   }) xs (Some s)"

lemma fold_None: "fold (\<lambda>(c, x) s. do {
     (w, held, N) \<leftarrow> s;
     ASSERT (c \<in> Cs K \<and> kmove_ok K w held N c x);
     w' \<leftarrow> do_move c x w;
     Some (w', kmove_held c x w w' held, kmove_new x N)
   }) xs None = None"
  by (induction xs) auto

lemma kruns_reach:
  assumes "kruns K xs (w, held, N) = Some (w', held', N')" "kreach K w held N"
  shows "kreach K w' held' N'"
  using assms
proof (induction xs arbitrary: w held N)
  case Nil then show ?case by (simp add: kruns_def)
next
  case (Cons m xs)
  obtain c x where m: "m = (c, x)" by force
  show ?case
  proof (cases "c \<in> Cs K \<and> kmove_ok K w held N c x")
    case True
    with Cons.prems(1) obtain v where v: "do_move c x w = Some v"
      by (cases "do_move c x w") (simp_all add: kruns_def m fold_None)
    with True Cons.prems(1) have "kruns K xs (v, kmove_held c x w v held, kmove_new x N) = Some (w', held', N')"
      by (simp add: kruns_def m)
    then show ?thesis using Cons.IH kreach.move [OF Cons.prems(2)] True v by blast
  next
    case False then show ?thesis using Cons.prems(1) by (simp add: kruns_def m fold_None)
  qed
qed

definition K0 :: kconf where
  "K0 = \<lparr>Cs = {16, 32}, Ts = {0x1000, 0x2000, 0x3000, 0x4000, 0x5000}, Ms = {0x6000}, Es = {0x7000}\<rparr>"

definition w0 :: kworld where
  "w0 = \<lparr>threads = (\<lambda>t. \<lparr>State = (if t = 0x5000 then ThreadStateBlocked else if t = 0x3000 \<or> t = 0x4000 then ThreadStateReady else ThreadStateRunning),
       Flags = 0, ExitStatus = 0, ReferenceCount = 2, BlockLock = NULL, TickCountCompleted = 0, UninterruptedTicks = 0, TickCountEarly = 0\<rparr>),
     cpus = (\<lambda>c. \<lparr>RunningThreadTicks = 0, IdleThread = (if c = 16 then 0x3000 else 0x4000), CurrentThread = (if c = 16 then 0x1000 else 0x2000),
       PreviousThread = NULL, YieldOnInterruptReturn = False, IdleTicks = 0, KernelTicks = 0\<rparr>),
     mutexes = (\<lambda>_. \<lparr>MutexLock = NULL, CurrentRecursivityDepth = 0, MaxRecursivityDepth = 1, Holder = NULL\<rparr>),
     events = (\<lambda>_. \<lparr>EventLock = NULL, EventType = ExEventTypeNotification, Signaled = 0\<rparr>),
     lists = map_of (map (\<lambda>a. (a, \<lparr>Flink = a, Blink = a\<rparr>)) [0x8000, 0x6048, 0x7040, 0x10F0, 0x20F0, 0x30F0, 0x40F0, 0x50F0, 0x1080, 0x2080]),
     ReadyThreadsList = 0x8000, ReadyThreadsLock = NULL,
     place = (\<lambda>t. if t = 0x1000 \<or> t = 0x2000 then Client else Resume YieldDone),
     IntrOn = (\<lambda>_. True), oldState = (\<lambda>_. True)\<rparr>"

lemma w0_start: "kstart K0 w0 {0x5000}"
  by (simp add: kstart_def K0_def w0_def conf_ok_def rings_def heads_def cpus_ok_def oncpu_def idles_def view_defs
      MutexWaitingList_def EventWaitingList_def ReadyList_def is_list_def links_def rd_Flink_def rd_Blink_def THREAD_FLAG_FORCE_TERMINATE_PENDING_def)


text \<open>Two runs: processor 16 takes the mutex and processor 32 blocks on it; a new thread is started and
  the thread of processor 16 yields.\<close>

definition mutex_run :: "(ADDR \<times> kmove) list" where
  "mutex_run = [(16, Acquire 0x6000), (16, Step), (32, Acquire 0x6000), (32, Step), (32, Step), (32, Step), (32, Step)]"

definition yield_run :: "(ADDR \<times> kmove) list" where
  "yield_run = [(32, Start 0x5000), (32, Step), (32, Step), (32, Step), (16, Yield)]"

lemma run_result:
  assumes "map_option (\<lambda>(w, held, N). f w held N) (kruns K0 xs (w0, \<lambda>_ _. 0, {0x5000})) = Some r"
  shows "\<exists>w held N. kreach K0 w held N \<and> f w held N = r"
proof -
  obtain w held N where k: "kruns K0 xs (w0, \<lambda>_ _. 0, {0x5000}) = Some (w, held, N)" "f w held N = r"
    using assms by auto
  then show ?thesis using kruns_reach [OF k(1) kreach.start [OF w0_start]] by blast
qed

lemma mutex_run_result: "\<exists>w held N. kreach K0 w held N \<and>
    (held 0x1000 0x6000, State (threads w 0x2000), cur w 16, cur w 32, place w 0x1000, 0x1000 \<in> idles K0 w)
    = (1, ThreadStateBlocked, 0x1000, 0x4000, Client, False)"
  by (rule run_result [where xs = mutex_run]) code_simp

lemma mutex_run_result2: "\<exists>w held N. kreach K0 w held N \<and>
    (cur w 16, cur w 32, IdleThread (cpus w 16), IdleThread (cpus w 32), 0x2000 \<in> N) = (0x1000, 0x4000, 0x3000, 0x4000, False)"
  by (rule run_result [where xs = mutex_run]) code_simp

lemma yield_run_result: "\<exists>w held N. kreach K0 w held N \<and>
    (cur w 16, place w (cur w 16), ReadyThreadsLock w, IdleThread (cpus w 16), ReadyThreadsList w, lists w 0x8000, lists w 0x50F0)
    = (0x1000, InYield False, NULL, 0x3000, 0x8000, Some \<lparr>Flink = 0x50F0, Blink = 0x50F0\<rparr>, Some \<lparr>Flink = 0x8000, Blink = 0x8000\<rparr>)"
  by (rule run_result [where xs = yield_run]) code_simp

section \<open>What holds in every reachable state\<close>

text \<open>C1. The scheduler, the mutexes and the events are safe on any number of processors: in every reachable
  state whatever a processor may do next succeeds (no assertion of \<^verbatim>\<open>thread.c\<close>, \<^verbatim>\<open>mutex.c\<close>,
  \<^verbatim>\<open>ex_event.c\<close> or of the lists under them fails), and no two processors run the same thread.\<close>

theorem scheduler_safe:
  assumes "kreach K w held N" and "c \<in> Cs K"
  shows "(\<forall>x. kmove_ok K w held N c x \<longrightarrow> (\<exists>w'. do_move c x w = Some w')) \<and> (\<forall>d\<in>Cs K. d \<noteq> c \<longrightarrow> cur w d \<noteq> cur w c)"
proof -
  obtain q where q: "sinv K w q N" "minv K w q held" using kreach_inv [OF assms(1)] by blast
  have "\<forall>x. kmove_ok K w held N c x \<longrightarrow> (\<exists>w'. do_move c x w = Some w')"
    using kmove_correct [OF q assms(2)] by blast
  moreover have "\<forall>d\<in>Cs K. d \<noteq> c \<longrightarrow> cur w d \<noteq> cur w c"
    using other_curr [OF q(1) assms(2)] by (simp add: view_fold)
  ultimately show ?thesis by blast
qed

theorem scheduler_safe_witness:
  "\<exists>w held N. kreach K0 w held N \<and> State (threads w 0x2000) = ThreadStateBlocked \<and> cur w 32 \<noteq> cur w 16
    \<and> (\<exists>w'. do_move 16 (Release 0x6000) w = Some w')"
proof -
  obtain w held N where r: "kreach K0 w held N" "held 0x1000 0x6000 = 1" "State (threads w 0x2000) = ThreadStateBlocked"
    "cur w 16 = 0x1000" "place w 0x1000 = Client" "0x1000 \<notin> idles K0 w"
    using mutex_run_result by auto
  have c: "16 \<in> Cs K0" "32 \<in> Cs K0" "(32::ADDR) \<noteq> 16" by (simp_all add: K0_def)
  have "kmove_ok K0 w held N 16 (Release 0x6000)"
    using r by (simp add: kmove_ok_def Let_def K0_def)
  then show ?thesis using scheduler_safe [OF r(1) c(1)] c(2,3) r(1,3) by blast
qed

text \<open>C3. No thread is ever lost. The ready list and the waiting lists of all mutexes and events are proper
  rings; a thread that has been started is running, or the idle thread of a processor, or in one of these
  lists, or just being unblocked; no thread is in two lists; and the threads of the ready list are ready and
  not running.\<close>

theorem no_thread_lost:
  assumes "kreach K w held N"
  shows "\<exists>q. (\<forall>h\<in>heads K w. is_list (lists w) h (map ReadyList (q h)))
    \<and> (\<forall>t\<in>Ts K - N. (\<exists>c\<in>Cs K. cur w c = t \<or> IdleThread (cpus w c) = t \<or> unblocks (place w (cur w c)) = Some t) \<or> (\<exists>h\<in>heads K w. t \<in> set (q h)))
    \<and> (\<forall>t\<in>set (q (ReadyThreadsList w)). State (threads w t) = ThreadStateReady \<and> (\<forall>c\<in>Cs K. cur w c \<noteq> t))
    \<and> (\<forall>t. \<forall>h\<in>heads K w. \<forall>k\<in>heads K w. t \<in> set (q h) \<longrightarrow> t \<in> set (q k) \<longrightarrow> h = k)"
proof -
  obtain q where q: "sinv K w q N" "minv K w q held" using kreach_inv [OF assms(1)] by blast
  show ?thesis
  proof (intro exI [of _ q] conjI)
    show "\<forall>h\<in>heads K w. is_list (lists w) h (map ReadyList (q h))" using sinvD(2) [OF q(1)] by (simp add: rings_def)
    show "\<forall>t\<in>Ts K - N. (\<exists>c\<in>Cs K. cur w c = t \<or> IdleThread (cpus w c) = t \<or> unblocks (place w (cur w c)) = Some t) \<or> (\<exists>h\<in>heads K w. t \<in> set (q h))"
    proof
      fix t assume "t \<in> Ts K - N"
      with sinvD(10) [OF q(1)] have "t \<in> idles K w \<or> oncpu K w t \<or> inq (heads K w) q t \<or> (\<exists>c\<in>Cs K. unblocks (place w (curr w c)) = Some t)"
        by (auto simp: kept_ok_def)
      then show "(\<exists>c\<in>Cs K. cur w c = t \<or> IdleThread (cpus w c) = t \<or> unblocks (place w (cur w c)) = Some t) \<or> (\<exists>h\<in>heads K w. t \<in> set (q h))"
        by (auto simp: idles_def oncpu_def inq_def view_fold)
    qed
    show "\<forall>t\<in>set (q (ReadyThreadsList w)). State (threads w t) = ThreadStateReady \<and> (\<forall>c\<in>Cs K. cur w c \<noteq> t)"
      using sinvD(5) [OF q(1)] unfolding ready_ok_def view_fold oncpu_def by blast
    show "\<forall>t. \<forall>h\<in>heads K w. \<forall>k\<in>heads K w. t \<in> set (q h) \<longrightarrow> t \<in> set (q k) \<longrightarrow> h = k"
      using sinvD(2) [OF q(1)] unfolding rings_def by blast
  qed
qed


theorem no_thread_lost_witness:
  "\<exists>w held N. kreach K0 w held N \<and> cur w 32 = 0x4000
    \<and> (\<exists>q. is_list (lists w) (MutexWaitingList 0x6000) (map ReadyList (q (MutexWaitingList 0x6000)))
      \<and> ((\<exists>h\<in>heads K0 w. 0x2000 \<in> set (q h)) \<or> (\<exists>c\<in>Cs K0. unblocks (place w (cur w c)) = Some 0x2000)))"
proof -
  obtain w held N where r: "kreach K0 w held N" "cur w 16 = 0x1000" "cur w 32 = 0x4000" "IdleThread (cpus w 16) = 0x3000" "IdleThread (cpus w 32) = 0x4000" "0x2000 \<notin> N"
    using mutex_run_result2 by auto
  have "0x2000 \<in> Ts K0 - N" using r by (simp add: K0_def)
  moreover have "cur w c \<noteq> 0x2000 \<and> IdleThread (cpus w c) \<noteq> 0x2000" if "c \<in> Cs K0" for c
    using that r by (auto simp: K0_def)
  moreover have "MutexWaitingList 0x6000 \<in> heads K0 w" by (simp add: heads_def K0_def)
  ultimately show ?thesis using no_thread_lost [OF r(1)] r(1,3) by blast
qed

text \<open>C2. Mutual exclusion of \<^verbatim>\<open>MutexAcquire\<close> and \<^verbatim>\<open>MutexRelease\<close>: while a thread has acquired a mutex
  (\<open>held\<close> counts the acquisitions that have returned and are not released yet) it is the holder the mutex
  records, the recursion depth is the number of its acquisitions, and no other thread has acquired it.\<close>

theorem mutex_mutual_exclusion:
  assumes "kreach K w held N" and "a \<in> Ms K" and "t \<in> Ts K" and "held t a > 0"
  shows "Holder (mutexes w a) = t \<and> unat (CurrentRecursivityDepth (mutexes w a)) = held t a \<and> (\<forall>u\<in>Ts K. u \<noteq> t \<longrightarrow> held u a = 0)"
proof -
  obtain q where q: "sinv K w q N" "minv K w q held" using kreach_inv [OF assms(1)] by blast
  then have o: "mutex_ok K w q held a" using assms(2) by (simp add: minv_def)
  then show ?thesis using mutex_okD(4) [OF o assms(3,4)] others_hold_nothing [OF o] by (simp add: view_fold)
qed


theorem mutex_mutual_exclusion_witness:
  "\<exists>w held N. kreach K0 w held N \<and> Holder (mutexes w 0x6000) = 0x1000 \<and> CurrentRecursivityDepth (mutexes w 0x6000) = 1 \<and> held 0x2000 0x6000 = 0"
proof -
  obtain w held N where r: "kreach K0 w held N" "held 0x1000 0x6000 = 1" using mutex_run_result by auto
  have "0x6000 \<in> Ms K0" "0x1000 \<in> Ts K0" "0x2000 \<in> Ts K0" "held 0x1000 0x6000 > 0" using r by (simp_all add: K0_def)
  note m = mutex_mutual_exclusion [OF r(1) this(1,2,4)] and this(3)
  moreover from m r(2) have "CurrentRecursivityDepth (mutexes w 0x6000) = 1" by (metis unat_1 unsigned_word_eqI)
  moreover have "(0x2000::ADDR) \<noteq> 0x1000" by simp
  ultimately show ?thesis using r(1) by blast
qed

text \<open>C4. Round robin: a thread that yields while others are ready goes to the end of the ready list, and the
  processor goes on with the thread at its head; no other processor is touched.\<close>

theorem yield_round_robin:
  assumes "kreach K w held N" and c: "c \<in> Cs K" and "place w (cur w c) = InYield f" and l: "ReadyThreadsLock w = NULL"
    and x: "is_list (lists w) (ReadyThreadsList w) (map ReadyList (x # xs))" and "cur w c \<noteq> IdleThread (cpus w c)"
  shows "\<exists>w'. kstep c w = Some w' \<and> cur w' c = x \<and> is_list (lists w') (ReadyThreadsList w') (map ReadyList (xs @ [cur w c]))
    \<and> State (threads w' (cur w c)) = ThreadStateReady \<and> (\<forall>d. d \<noteq> c \<longrightarrow> cur w' d = cur w d)"
proof -
  obtain q where s: "sinv K w q N" using kreach_inv [OF assms(1)] by blast
  let ?R = "ReadyThreadsList w" and ?t = "curr w c"
  have cc: "cur w c = ?t" "IdleThread (cpus w c) = idle w c" by (simp_all add: view_fold)
  have p: "place w ?t = InYield f" and ni: "?t \<noteq> idle w c" using assms(3,6) cc by simp_all
  have R: "?R \<in> heads K w" by (simp add: heads_def)
  have "is_list (lists w) ?R (map ReadyList (q ?R))" using sinvD(2) [OF s] R by (simp add: rings_def)
  then have "map ReadyList (q ?R) = map ReadyList (x # xs)" using is_list_unique x by blast
  then have qR: "q ?R = x # xs" by (metis list.inj_map_strong ReadyList_inj)
  have t: "?t \<in> Ts K" "\<not> inq (heads K w) q ?t" using curr_thread [OF s c] not_queued(1) [OF s c] p by auto
  obtain m where m: "InsertTailList (lists w) ?R (ReadyList ?t) = Some m" "rings m (heads K w) (Ts K) (q(?R := q ?R @ [?t]))"
    using rings_insert [OF sinvD(2) [OF s] R t] by blast
  define v where "v = upd_thread ?t (State_update (\<lambda>_. ThreadStateReady)) (if \<not> f then upd_thread ?t (TickCountEarly_update (\<lambda>n. n + 1))
    (w\<lparr>ReadyThreadsLock := c, lists := m\<rparr>) else w\<lparr>ReadyThreadsLock := c, lists := m\<rparr>)"
  have e: "kstep c w = ThreadSchedule c YieldDone v"
    using m(1) ni l curr_thread [OF s c] by (simp add: kstep_def cc p ThreadYield_schedule_def acquire_def Let_def v_def)
  have vv: "lists v = m" "ReadyThreadsList v = ?R" "IntrOn v = IntrOn w" "ReadyThreadsLock v = c" "curr v = curr w" "idle v = idle w"
    "tstate v = (tstate w)(?t := ThreadStateReady)" by (simp_all add: v_def view_simps view_fold)
  have T: "NULL \<notin> Ts K" "idle w c \<in> Ts K" "?t \<noteq> NULL" "\<not> IntrOn w c"
    using sinvD(1) [OF s] idle_thread [OF s c] curr_thread [OF s c] intr_off [OF s c] p by (auto simp: conf_ok_def)
  have st: "tstate v u = ThreadStateReady" if "u \<in> set ((q(?R := q ?R @ [?t])) (ReadyThreadsList v))" for u
    using that queued_place(4) [OF s, of u] by (auto simp: vv)
  obtain nx q' w' where w': "next_thread c v (q(?R := q ?R @ [?t])) nx q'" "ThreadSchedule c YieldDone v = Some w'"
    "rings (lists w') (heads K w) (Ts K) q'" "curr w' = (curr v)(c := nx)" "tstate w' = tstate v" "ReadyThreadsList w' = ReadyThreadsList v"
    using ThreadSchedule_correct [of v "heads K w" "Ts K" "q(?R := q ?R @ [?t])" c YieldDone] m(2) R T st unfolding vv by blast
  have "nx = x" "q' ?R = xs @ [?t]" using w'(1) qR by (auto simp: next_thread_def vv)
  moreover have "is_list (lists w') ?R (map ReadyList (q' ?R))" using w'(3) R by (simp add: rings_def)
  ultimately show ?thesis using w' by (simp add: e vv cc view_fold)
qed


theorem yield_round_robin_witness:
  "\<exists>w w'. cur w 16 = 0x1000 \<and> kstep 16 w = Some w' \<and> cur w' 16 = 0x5000 \<and> is_list (lists w') (ReadyThreadsList w') [ReadyList 0x1000]"
proof -
  obtain w held N where r: "kreach K0 w held N" "cur w 16 = 0x1000" "place w (cur w 16) = InYield False" "ReadyThreadsLock w = NULL"
    "cur w 16 \<noteq> IdleThread (cpus w 16)"
    and l: "ReadyThreadsList w = 0x8000" "lists w 0x8000 = Some \<lparr>Flink = 0x50F0, Blink = 0x50F0\<rparr>" "lists w 0x50F0 = Some \<lparr>Flink = 0x8000, Blink = 0x8000\<rparr>"
    using yield_run_result by auto
  have i: "is_list (lists w) (ReadyThreadsList w) (map ReadyList [0x5000])" and c: "16 \<in> Cs K0"
    using l by (simp_all add: is_list_def links_def rd_Flink_def rd_Blink_def ReadyList_def K0_def)
  from yield_round_robin [OF r(1) c r(3,4) i r(5)] r(2) show ?thesis by auto
qed

text \<open>A thread that is to be terminated while it blocks on a mutex dies inside the waiting list: the holder's
  \<^verbatim>\<open>MutexRelease\<close> then hands the mutex to the dead thread and fails the assertion of \<^verbatim>\<open>ThreadUnblock\<close>.\<close>

definition runs :: "(kworld \<Rightarrow> kworld option) list \<Rightarrow> kworld \<Rightarrow> kworld option" where
  "runs fs w = fold (\<lambda>f r. r \<bind> f) fs (Some w)"

lemma terminated_waiter_breaks_release:
  "\<exists>w. runs [MutexAcquire 16 0x6000, kstep 16, MutexAcquire 32 0x6000, kstep 32, ThreadTerminate 0x2000, kstep 32, kstep 32, kstep 32,
      kstep 32, MutexRelease 16 0x6000, kstep 16] w0 = Some w
    \<and> State (threads w 0x2000) = ThreadStateDying \<and> Holder (mutexes w 0x6000) = 0x2000 \<and> kstep 16 w = None"
proof -
  have "map_option (\<lambda>w. (State (threads w 0x2000), Holder (mutexes w 0x6000), kstep 16 w = None))
      (runs [MutexAcquire 16 0x6000, kstep 16, MutexAcquire 32 0x6000, kstep 32, ThreadTerminate 0x2000, kstep 32, kstep 32, kstep 32,
      kstep 32, MutexRelease 16 0x6000, kstep 16] w0) = Some (ThreadStateDying, 0x2000, True)" by code_simp
  then show ?thesis by auto
qed

end
