(* ===== verification/Sched_Sleep.thy ===== *)
theory Sched_Sleep
  imports Sched_Reach
begin

text \<open>
  What becomes of a thread that found an event not signaled: \<^verbatim>\<open>ExEventWaitForSignal\<close> of
  \<^verbatim>\<open>HAL9000/src/ex_event.c\<close> between the test of the flag and the next call of \<^verbatim>\<open>ExEventSignal\<close>.
\<close>

section \<open>Threads that only a signaller can wake\<close>

text \<open>The places of a thread from the failed test of event \<open>a\<close> on, up to the sleep.\<close>

definition sleep_places :: "ADDR \<Rightarrow> place set" where
  "sleep_places a = {EventLocking a, TakeBlockLock (BlockedOnEvent a), InBlock (BlockedOnEvent a),
     BlockLocking (BlockedOnEvent a), Resume (BlockedOnEvent a)}"

text \<open>A processor that executes this place is inside \<^verbatim>\<open>ExEventSignal\<close> of event \<open>a\<close>, or unblocks thread \<open>t\<close>.\<close>

fun signals_from :: "ADDR \<Rightarrow> uret \<Rightarrow> bool" where
  "signals_from a (FromSignal b r) = (b = a)"
| "signals_from a _ = False"

fun wakes :: "ADDR \<Rightarrow> ADDR \<Rightarrow> place \<Rightarrow> bool" where
  "wakes a t (SignalLocking b r) = (b = a)"
| "wakes a t (Signalling b r) = (b = a)"
| "wakes a t (Unblocking u r) = (u = t \<or> signals_from a r)"
| "wakes a t (UnblockReady u r) = (u = t \<or> signals_from a r)"
| "wakes a t (UnblockRelease u r) = (u = t \<or> signals_from a r)"
| "wakes a t _ = False"

definition sleeping :: "kconf \<Rightarrow> ADDR set \<Rightarrow> ADDR \<Rightarrow> ADDR \<Rightarrow> kworld \<Rightarrow> bool" where
  "sleeping K N a t w \<longleftrightarrow> t \<in> Ts K \<and> t \<notin> N \<and> place w t \<in> sleep_places a
     \<and> (place w t = BlockLocking (BlockedOnEvent a) \<or> place w t = Resume (BlockedOnEvent a) \<longrightarrow> tstate w t = ThreadStateBlocked)
     \<and> (place w t = Resume (BlockedOnEvent a) \<longrightarrow> \<not> oncpu K w t)
     \<and> (\<forall>c\<in>Cs K. \<not> wakes a t (place w (curr w c)))"

lemma sleepingD:
  assumes "sleeping K N a t w"
  shows "t \<in> Ts K" "t \<notin> N" "place w t \<in> sleep_places a"
    "place w t = BlockLocking (BlockedOnEvent a) \<or> place w t = Resume (BlockedOnEvent a) \<Longrightarrow> tstate w t = ThreadStateBlocked"
    "place w t = Resume (BlockedOnEvent a) \<Longrightarrow> \<not> oncpu K w t"
    "c \<in> Cs K \<Longrightarrow> \<not> wakes a t (place w (curr w c))"
  using assms by (simp_all add: sleeping_def)

lemma sleeping_not_idle:
  assumes s: "sinv K w q N" and l: "sleeping K N a t w"
  shows "t \<notin> idles K w"
proof -
  have "place_ok K (t \<in> idles K w) (place w t)" using sinvD(4) [OF s] sleepingD(1) [OF l] by (simp add: threads_ok_def)
  then show ?thesis using sleepingD(3) [OF l] by (auto simp: sleep_places_def)
qed

text \<open>The first thread of another waiting list is another thread.\<close>

lemma sleeping_other_list:
  assumes s: "sinv K w q N" and l: "sleeping K N a t w" and h: "h \<in> heads K w" "h \<noteq> ReadyThreadsList w" "h \<noteq> EventWaitingList a"
  shows "t \<notin> set (q h)"
proof
  assume "t \<in> set (q h)"
  then obtain k where k: "wait_head k = Some h" "waits K w t k" using sinvD(6) [OF s] h(1,2) by (auto simp: wait_ok_def)
  then have "k = BlockedOnEvent a" using sleepingD(3,5) [OF l] by (auto simp: waits_def sleep_places_def split: if_splits)
  then show False using k(1) h(3) by simp
qed

lemma removed_other:
  assumes s: "sinv K w q N" and l: "sleeping K N a t w" and h: "h \<in> heads K w" "h \<noteq> ReadyThreadsList w" "h \<noteq> EventWaitingList a"
    and r: "RemoveHeadList (lists w) h = Some (p, m)" "p \<noteq> h"
  shows "THREAD_of p \<noteq> t"
proof (cases "q h")
  case Nil
  then show ?thesis using rings_remove_empty [OF sinvD(2) [OF s] h(1)] r by simp
next
  case (Cons u us)
  then have "p = ReadyList u" using rings_remove [OF sinvD(2) [OF s] h(1) Cons] r(1) by auto
  then show ?thesis using sleeping_other_list [OF s l h] Cons by auto
qed

section \<open>One move\<close>

text \<open>A move of another thread that does not switch.\<close>

definition steady :: "ADDR \<Rightarrow> ADDR \<Rightarrow> ADDR \<Rightarrow> kworld \<Rightarrow> kworld \<Rightarrow> bool" where
  "steady c a t w w' \<longleftrightarrow> curr w' = curr w \<and> tstate w' t = tstate w t
     \<and> (\<forall>u. u \<noteq> curr w c \<longrightarrow> place w' u = place w u) \<and> \<not> wakes a t (place w' (curr w c))"

lemma steady_sleeping:
  assumes l: "sleeping K N a t w" and d: "steady c a t w w'" and c: "curr w c \<noteq> t" and N: "N' \<subseteq> N"
  shows "sleeping K N' a t w'"
proof -
  have "place w' t = place w t" "oncpu K w' t = oncpu K w t" using d c by (auto simp: steady_def oncpu_def)
  moreover have "\<not> wakes a t (place w' (curr w' e))" if "e \<in> Cs K" for e
    using d sleepingD(6) [OF l that] by (cases "curr w e = curr w c") (simp_all add: steady_def)
  ultimately show ?thesis using l d N by (auto simp: sleeping_def steady_def)
qed

lemma ThreadSchedule_picks:
  assumes "ThreadSchedule c k w = Some w'"
  shows "\<exists>nx. curr w' = (curr w)(c := nx) \<and> place w' = (place w)(curr w c := Resume k) \<and> tstate w' = tstate w
    \<and> (nx = idle w c \<or> tstate w nx = ThreadStateReady)"
proof -
  let ?v = "upd_cpu c (PreviousThread_update (\<lambda>_. cur w c)) w"
  obtain nx u where r: "ThreadGetReadyThread c ?v = Some (nx, u)"
    using assms by (auto simp: ThreadSchedule_def Let_def split: bind_splits)
  then obtain m where u: "u = ?v\<lparr>lists := m\<rparr>" "nx = idle w c \<or> tstate w nx = ThreadStateReady"
    by (auto simp: ThreadGetReadyThread_def Let_def view_defs upd_cpu_def split: bind_splits if_splits)
  have cc: "cur w c = curr w c" by (simp add: curr_def)
  show ?thesis
    using assms r u(2) unfolding ThreadSchedule_def Let_def
    by (auto simp: u(1) cc view_simps view_fold split: bind_splits if_splits intro!: exI [of _ nx])
qed

text \<open>A switch, of another thread or of \<open>t\<close> itself when it goes to sleep.\<close>

lemma switch_sleeping:
  assumes s: "sinv K w q N" and l: "sleeping K N a t w" and c: "c \<in> Cs K" and nx: "nx \<in> Ts K" "nx \<noteq> t"
    and w': "curr w' = (curr w)(c := nx)" "place w' = (place w)(curr w c := Resume k)" "tstate w' t = tstate w t"
    and x: "curr w c = t \<Longrightarrow> k = BlockedOnEvent a \<and> tstate w t = ThreadStateBlocked"
  shows "sleeping K N a t w'"
proof -
  have "\<not> wakes a t (place w' (curr w' e))" if e: "e \<in> Cs K" for e
  proof (cases "e = c")
    case False
    then have "curr w e \<noteq> curr w c" using curr_inj [OF s c e] by blast
    then show ?thesis using sleepingD(6) [OF l e] False by (simp add: w')
  next
    case True
    consider "nx = curr w c" | d where "nx \<noteq> curr w c" "d \<in> Cs K" "curr w d = nx" | "nx \<noteq> curr w c" "\<not> oncpu K w nx"
      by (auto simp: oncpu_def)
    then show ?thesis
    proof cases
      case 2 then show ?thesis using sleepingD(6) [OF l] True by (auto simp: w')
    next
      case 3
      then obtain k' where "place w nx = Resume k'" using sinvD(4) [OF s] nx(1) by (auto simp: threads_ok_def)
      then show ?thesis using 3 True by (simp add: w')
    qed (simp add: w' True)
  qed
  moreover have "\<not> oncpu K w' t" if "place w' t = Resume (BlockedOnEvent a)"
  proof
    assume "oncpu K w' t"
    then obtain e where e: "e \<in> Cs K" "curr w' e = t" by (auto simp: oncpu_def)
    then have d: "e \<noteq> c" "curr w e = t" using nx(2) by (auto simp: w' split: if_splits)
    show False
    proof (cases "curr w c = t")
      case True then show ?thesis using curr_inj [OF s c e(1)] d by simp
    next
      case False then show ?thesis using that sleepingD(5) [OF l] d e(1) by (auto simp: w' oncpu_def)
    qed
  qed
  ultimately show ?thesis using l x by (auto simp: sleeping_def w' sleep_places_def)
qed

text \<open>The thread a processor switches to is not asleep.\<close>

lemma picked_other:
  assumes s: "sinv K w q N" and l: "sleeping K N a t w" and c: "c \<in> Cs K" and s': "sinv K w' q' N'"
    and w': "curr w' = (curr w)(c := nx)" and x: "curr w c \<noteq> t \<or> tstate w t = ThreadStateBlocked"
    and nx: "nx = idle w c \<or> tstate w nx = ThreadStateReady \<or> nx = curr w c \<and> nx \<noteq> t"
  shows "nx \<in> Ts K \<and> nx \<noteq> t"
proof
  show "nx \<in> Ts K" using sinvD(3) [OF s'] c by (auto simp: cpus_ok_def w')
  show "nx \<noteq> t"
  proof
    assume e: "nx = t"
    then have r: "tstate w t = ThreadStateReady" using nx sleeping_not_idle [OF s l] c by (auto simp: idles_def)
    have "oncpu K w t"
    proof (rule ccontr)
      assume "\<not> oncpu K w t"
      then obtain k where "place w t = Resume k" using sinvD(4) [OF s] sleepingD(1) [OF l] by (auto simp: threads_ok_def)
      then show False using sleepingD(3,4) [OF l] r by (auto simp: sleep_places_def)
    qed
    then obtain d where d: "d \<in> Cs K" "curr w d = t" by (auto simp: oncpu_def)
    then have "d \<noteq> c" using x r by auto
    then have "curr w' d = curr w' c" using d e by (simp add: w')
    then show False using curr_inj [OF s' c d(1)] \<open>d \<noteq> c\<close> by blast
  qed
qed

lemma spin_steady: "\<not> wakes a t (place w (curr w c)) \<Longrightarrow> steady c a t w w"
  by (simp add: steady_def)

lemma acquire_cases:
  assumes "acquire c h w r = Some w'"
  obtains "w' = w" | "r = Some w'"
  using assms unfolding acquire_def by (metis option.distinct(1) option.inject)

text \<open>The steps of another thread that keep the processor.\<close>

lemma cleanup_steady:
  assumes "ThreadCleanupPostSchedule_prev c w = Some u" "schedule_returns c (cur u c) k u = Some w'"
  shows "steady c a t w w'"
proof -
  have "curr u = curr w \<and> tstate u = tstate w \<and> place u = place w"
    using assms(1) by (auto simp: ThreadCleanupPostSchedule_prev_def RfcDereference_thread_def Let_def view_simps view_fold
        split: if_splits bind_splits)
  moreover have "steady c a t u w'"
    using assms(2) by (auto simp: schedule_returns_def steady_def view_simps view_fold split: if_splits bind_splits cont.splits)
  ultimately show ?thesis by (simp add: steady_def)
qed

lemma release_steady: "ThreadCleanupPostSchedule_release c k w = Some w' \<Longrightarrow> steady c a t w w'"
  by (auto simp: ThreadCleanupPostSchedule_release_def steady_def Let_def view_simps view_fold split: bind_splits)

lemma take_steady:
  assumes "ThreadTakeBlockLock c k w = Some w'" "\<not> wakes a t (place w (curr w c))"
  shows "steady c a t w w'"
  using assms by (auto simp: ThreadTakeBlockLock_def release_object_def steady_def Let_def view_simps view_fold
      elim!: acquire_cases split: bind_splits cont.splits)

lemma block_enter_steady:
  assumes "ThreadBlock_enter c k w = Some w'" "tflags w (curr w c) \<noteq> THREAD_FLAG_FORCE_TERMINATE_PENDING" "curr w c \<noteq> t"
  shows "steady c a t w w'"
  using assms by (auto simp: ThreadBlock_enter_def steady_def Let_def view_simps view_fold split: bind_splits if_splits)

lemma mutex_loop_steady:
  assumes "MutexAcquire_loop c b w = Some w'"
  shows "steady c a t w w'"
  using assms by (auto simp: MutexAcquire_loop_def steady_def Let_def view_simps view_fold split: bind_splits if_splits)

lemma mutex_steady:
  assumes "MutexAcquire_first c b w = Some w' \<or> MutexAcquire_again c b w = Some w'" "\<not> wakes a t (place w (curr w c))"
  shows "steady c a t w w'"
proof -
  have "steady c a t w w'" if "MutexAcquire_loop c b u = Some w'" "curr u = curr w" "place u = place w" "tstate u = tstate w" for u
    using mutex_loop_steady [OF that(1), of a t] that(2-4) by (simp add: steady_def)
  then show ?thesis
    using assms by (auto simp: MutexAcquire_first_def MutexAcquire_again_def Let_def view_simps view_fold spin_steady
      elim!: acquire_cases split: if_splits)
qed

lemma release_end_steady: "MutexRelease_end c b w = Some w' \<Longrightarrow> steady c a t w w'"
  by (auto simp: MutexRelease_end_def steady_def Let_def view_simps view_fold split: bind_splits)

lemma signal_end_steady: "ExEventSignal_end c b r w = Some w' \<Longrightarrow> steady c a t w w'"
  by (cases r) (auto simp: ExEventSignal_end_def steady_def Let_def view_simps view_fold split: bind_splits)

lemma steady_trans_left:
  "steady c a t u w' \<Longrightarrow> curr u = curr w \<Longrightarrow> tstate u t = tstate w t \<Longrightarrow> place u = place w \<Longrightarrow> steady c a t w w'"
  by (simp add: steady_def)

lemma mutex_heads:
  assumes "sinv K w q N" "b \<in> Ms K" "a \<in> Es K"
  shows "MutexWaitingList b \<in> heads K w" "MutexWaitingList b \<noteq> ReadyThreadsList w" "MutexWaitingList b \<noteq> EventWaitingList a"
proof -
  have "ReadyThreadsList w \<notin> MutexWaitingList ` Ms K" "MutexWaitingList ` Ms K \<inter> EventWaitingList ` Es K = {}"
    using sinvD(1) [OF assms(1)] by (simp_all add: conf_ok_def)
  then show "MutexWaitingList b \<in> heads K w" "MutexWaitingList b \<noteq> ReadyThreadsList w" "MutexWaitingList b \<noteq> EventWaitingList a"
    using assms(2,3) by (force simp: heads_def)+
qed

lemma event_heads:
  assumes "sinv K w q N" "b \<in> Es K"
  shows "EventWaitingList b \<in> heads K w" "EventWaitingList b \<noteq> ReadyThreadsList w"
proof -
  have "ReadyThreadsList w \<notin> EventWaitingList ` Es K" using sinvD(1) [OF assms(1)] by (simp add: conf_ok_def)
  then show "EventWaitingList b \<in> heads K w" "EventWaitingList b \<noteq> ReadyThreadsList w" using assms(2) by (force simp: heads_def)+
qed

lemma hand_over_steady:
  assumes s: "sinv K w q N" and l: "sleeping K N a t w" and b: "b \<in> Ms K" "a \<in> Es K" and c: "\<not> wakes a t (place w (curr w c))"
    and e: "MutexRelease_hand_over c b w = Some w'"
  shows "steady c a t w w'"
  using e unfolding MutexRelease_hand_over_def
proof (rule acquire_cases)
  let ?h = "MutexWaitingList b" and ?u = "upd_mutex b (MutexLock_update (\<lambda>_. c)) w"
  have h: "?h \<in> heads K w" "?h \<noteq> ReadyThreadsList w" "?h \<noteq> EventWaitingList a"
    using mutex_heads [OF s b] by simp_all
  assume "do { let w = ?u; (pEntry, m) \<leftarrow> RemoveHeadList (lists w) ?h; let w = w\<lparr>lists := m\<rparr>;
     if pEntry \<noteq> ?h then do { let pThread = THREAD_of pEntry;
       Some (at (cur w c) (Unblocking pThread (FromMutex b)) (upd_mutex b (\<lambda>M. M\<lparr>Holder := pThread, CurrentRecursivityDepth := 1\<rparr>) w)) }
     else MutexRelease_end c b (upd_mutex b (Holder_update (\<lambda>_. NULL)) w) } = Some w'"
  then obtain p m where r: "RemoveHeadList (lists w) ?h = Some (p, m)"
    and w': "(if p \<noteq> ?h then Some (at (curr w c) (Unblocking (THREAD_of p) (FromMutex b))
         (upd_mutex b (\<lambda>M. M\<lparr>Holder := THREAD_of p, CurrentRecursivityDepth := 1\<rparr>) (?u\<lparr>lists := m\<rparr>)))
      else MutexRelease_end c b (upd_mutex b (Holder_update (\<lambda>_. NULL)) (?u\<lparr>lists := m\<rparr>))) = Some w'"
    by (auto simp: Let_def view_simps view_fold cong: if_cong split: bind_splits)
  show ?thesis
  proof (cases "p = ?h")
    case True
    then have "steady c a t (upd_mutex b (Holder_update (\<lambda>_. NULL)) (?u\<lparr>lists := m\<rparr>)) w'"
      using w' release_end_steady by simp
    then show ?thesis by (rule steady_trans_left) (simp_all add: view_simps)
  next
    case False
    have "THREAD_of p \<noteq> t" by (rule removed_other [OF s l h r False])
    then show ?thesis using w' False by (auto simp: steady_def view_simps)
  qed
qed (use c spin_steady in simp)

lemma signal_loop_steady:
  assumes s: "sinv K w q N" and l: "sleeping K N a t w" and b: "b \<in> Es K" "b \<noteq> a"
    and u: "lists u = lists w" "curr u = curr w" "tstate u = tstate w" "place u = place w"
    and e: "ExEventSignal_loop c b r u = Some w'"
  shows "steady c a t w w'"
proof -
  let ?h = "EventWaitingList b"
  have h: "?h \<in> heads K w" "?h \<noteq> ReadyThreadsList w" "?h \<noteq> EventWaitingList a"
    using event_heads [OF s b(1)] b(2) by (simp_all add: EventWaitingList_def)
  obtain p m where r: "RemoveHeadList (lists w) ?h = Some (p, m)"
    and w': "(if p \<noteq> ?h then Some (at (curr w c) (Unblocking (THREAD_of p) (FromSignal b r)) (u\<lparr>lists := m\<rparr>))
      else ExEventSignal_end c b r (u\<lparr>lists := m\<rparr>)) = Some w'"
    using e by (auto simp: ExEventSignal_loop_def Let_def view_simps view_fold u cong: if_cong split: bind_splits)
  show ?thesis
  proof (cases "p = ?h")
    case True
    then have "steady c a t (u\<lparr>lists := m\<rparr>) w'" using w' signal_end_steady by simp
    then show ?thesis by (rule steady_trans_left) (simp_all add: view_simps u)
  next
    case False
    have "THREAD_of p \<noteq> t" by (rule removed_other [OF s l h r False])
    then show ?thesis using w' False b(2) by (auto simp: steady_def view_simps u)
  qed
qed

lemma event_steady:
  assumes "ExEventWaitForSignal_test c b w = Some w' \<or> ExEventWaitForSignal_insert c b w = Some w'" "\<not> wakes a t (place w (curr w c))"
  shows "steady c a t w w'"
  using assms by (auto simp: ExEventWaitForSignal_test_def ExEventWaitForSignal_insert_def steady_def Let_def view_simps view_fold
      elim!: acquire_cases split: bind_splits if_splits)

lemma unblock_steady:
  assumes "ThreadUnblock_enter c u r w = Some w' \<or> ThreadUnblock_ready c u r w = Some w'" "u \<noteq> t" "\<not> signals_from a r"
    "\<not> wakes a t (place w (curr w c))"
  shows "steady c a t w w'"
  using assms by (auto simp: ThreadUnblock_enter_def ThreadUnblock_ready_def steady_def Let_def view_simps view_fold
      elim!: acquire_cases split: bind_splits if_splits)

lemma unblock_end_steady:
  assumes "ThreadUnblock_end c u w = Some v" "unblock_returns c r v = Some w'" "\<not> signals_from a r"
  shows "steady c a t w w'"
proof -
  have v: "curr v = curr w" "tstate v = tstate w" "place v = place w"
    using assms(1) by (auto simp: ThreadUnblock_end_def view_simps view_fold split: bind_splits)
  have "steady c a t v w'"
  proof (cases r)
    case (FromMutex b) then show ?thesis using assms(2) release_end_steady by (simp add: unblock_returns_def)
  next
    case (FromSignal b x)
    then show ?thesis using assms(2,3) signal_end_steady [of c b x v w' a t]
      by (auto simp: unblock_returns_def steady_def view_simps view_fold split: if_splits)
  next
    case UnblockDone then show ?thesis using assms(2) by (auto simp: unblock_returns_def steady_def view_simps view_fold)
  qed
  then show ?thesis by (rule steady_trans_left) (simp_all add: v)
qed

text \<open>Every step.\<close>

lemma sleeping_event: "sinv K w q N \<Longrightarrow> sleeping K N a t w \<Longrightarrow> a \<in> Es K"
  using sinvD(4) sleepingD(1,3) by (fastforce simp: threads_ok_def sleep_places_def)

lemma yield_schedule_picks:
  assumes "ThreadYield_schedule c f w = Some w'"
  shows "w' = w \<or> (\<exists>nx. curr w' = (curr w)(c := nx) \<and> place w' = (place w)(curr w c := Resume YieldDone)
    \<and> tstate w' = (tstate w)(curr w c := ThreadStateReady) \<and> (nx = idle w c \<or> nx = curr w c \<or> tstate w nx = ThreadStateReady))"
  using assms unfolding ThreadYield_schedule_def
proof (rule acquire_cases)
  assume e: "do { let w = w\<lparr>ReadyThreadsLock := c\<rparr>; let t = cur w c;
     w \<leftarrow> (if t \<noteq> IdleThread (cpus w c) then do { m \<leftarrow> InsertTailList (lists w) (ReadyThreadsList w) (ReadyList t); Some (w\<lparr>lists := m\<rparr>) } else Some w);
     let w = (if \<not> f then upd_thread t (TickCountEarly_update (\<lambda>n. n + 1)) w else w);
     ThreadSchedule c YieldDone (upd_thread t (State_update (\<lambda>_. ThreadStateReady)) w) } = Some w'"
  have g: ?thesis if u: "curr u = curr w" "tstate u = tstate w" "place u = place w" "idle u = idle w"
    and sch: "ThreadSchedule c YieldDone (upd_thread (curr w c) (State_update (\<lambda>_. ThreadStateReady))
      (if \<not> f then upd_thread (curr w c) (TickCountEarly_update (\<lambda>n. n + 1)) u else u)) = Some w'" for u
  proof -
    from ThreadSchedule_picks [OF sch] obtain nx where nx: "curr w' = (curr w)(c := nx)" "place w' = (place w)(curr w c := Resume YieldDone)"
      "tstate w' = (tstate w)(curr w c := ThreadStateReady)" "nx = idle w c \<or> ((tstate w)(curr w c := ThreadStateReady)) nx = ThreadStateReady"
      by (cases f) (auto simp: view_simps view_fold u)
    then have "nx = idle w c \<or> nx = curr w c \<or> tstate w nx = ThreadStateReady" by (simp split: if_splits)
    with nx show ?thesis by blast
  qed
  show ?thesis
  proof (cases "curr w c = idle w c")
    case True
    then show ?thesis using e
      by (intro g [of "w\<lparr>ReadyThreadsLock := c\<rparr>"]) (simp_all add: Let_def view_simps view_fold cong: if_cong)
  next
    case False
    then obtain m where "InsertTailList (lists w) (ReadyThreadsList w) (ReadyList (curr w c)) = Some m"
      using e by (auto simp: Let_def view_simps view_fold split: bind_splits)
    then show ?thesis using e False
      by (intro g [of "w\<lparr>ReadyThreadsLock := c, lists := m\<rparr>"]) (simp_all add: Let_def view_simps view_fold cong: if_cong)
  qed
qed simp

lemma block_schedule_picks:
  assumes "ThreadBlock_schedule c k w = Some w'"
  shows "w' = w \<or> (\<exists>nx. curr w' = (curr w)(c := nx) \<and> place w' = (place w)(curr w c := Resume k)
    \<and> tstate w' = tstate w \<and> (nx = idle w c \<or> tstate w nx = ThreadStateReady))"
  using assms unfolding ThreadBlock_schedule_def
proof (rule acquire_cases)
  assume "ThreadSchedule c k (w\<lparr>ReadyThreadsLock := c\<rparr>) = Some w'"
  from ThreadSchedule_picks [OF this] show ?thesis by (simp add: view_simps)
qed simp

lemma other_step:
  assumes s: "sinv K w q N" and s': "sinv K w' q' N'" and l: "sleeping K N a t w" and c: "c \<in> Cs K" "curr w c \<noteq> t"
    and e: "kstep c w = Some w'"
  shows "sleeping K N a t w'"
proof -
  have cc: "cur w c = curr w c" by (simp add: curr_def)
  note e = e [unfolded kstep_def cc]
  have st: ?thesis if "steady c a t w w'" by (rule steady_sleeping [OF l that c(2)]) simp
  have ok: "place_ok K (curr w c \<in> idles K w) (place w (curr w c))" by (rule place_ok_curr [OF s c(1)])
  have wk: "\<not> wakes a t (place w (curr w c))" by (rule sleepingD(6) [OF l c(1)])
  have fl: "tflags w (curr w c) \<noteq> THREAD_FLAG_FORCE_TERMINATE_PENDING"
    using sinvD(4) [OF s] curr_thread [OF s c(1)] by (simp add: threads_ok_def)
  show ?thesis
  proof (cases "place w (curr w c)")
    case (InYield f)
    then have "ThreadYield_schedule c f w = Some w'" using e by simp
    from yield_schedule_picks [OF this] consider "w' = w" | nx where "curr w' = (curr w)(c := nx)" "place w' = (place w)(curr w c := Resume YieldDone)"
        "tstate w' = (tstate w)(curr w c := ThreadStateReady)" "nx = idle w c \<or> nx = curr w c \<or> tstate w nx = ThreadStateReady" by blast
    then show ?thesis
    proof cases
      case w': 2
      have "nx \<in> Ts K \<and> nx \<noteq> t" by (rule picked_other [OF s l c(1) s' w'(1)]) (use w'(4) c(2) in auto)
      then show ?thesis using c(2) w' by (intro switch_sleeping [OF s l c(1) _ _ w'(1,2)]) auto
    qed (use l in simp)
  next
    case (BlockLocking k)
    then have "ThreadBlock_schedule c k w = Some w'" using e by simp
    from block_schedule_picks [OF this] consider "w' = w" | nx where "curr w' = (curr w)(c := nx)" "place w' = (place w)(curr w c := Resume k)"
        "tstate w' = tstate w" "nx = idle w c \<or> tstate w nx = ThreadStateReady" by blast
    then show ?thesis
    proof cases
      case w': 2
      have "nx \<in> Ts K \<and> nx \<noteq> t" by (rule picked_other [OF s l c(1) s' w'(1)]) (use w'(4) c(2) in auto)
      then show ?thesis using c(2) w' by (intro switch_sleeping [OF s l c(1) _ _ w'(1,2)]) auto
    qed (use l in simp)
  next
    case Client then show ?thesis using e l by simp
  next
    case (Resume k) then show ?thesis using e release_steady by (intro st) simp
  next
    case (Cleanup k) then show ?thesis using e cleanup_steady by (intro st) (auto split: bind_splits)
  next
    case (TakeBlockLock k) then show ?thesis using e take_steady wk by (intro st) simp
  next
    case (InBlock k) then show ?thesis using e block_enter_steady fl c(2) by (intro st) simp
  next
    case (MutexLocking b) then show ?thesis using e mutex_steady [of c b w w' a t] wk by (intro st) simp
  next
    case (MutexRelocking b) then show ?thesis using e mutex_steady [of c b w w' a t] wk by (intro st) simp
  next
    case (MutexReleasing b)
    then show ?thesis using e ok wk by (intro st hand_over_steady [OF s l, where b = b] sleeping_event [OF s l]) simp_all
  next
    case (EventTest b) then show ?thesis using e event_steady [of c b w w' a t] wk by (intro st) simp
  next
    case (EventLocking b) then show ?thesis using e event_steady [of c b w w' a t] wk by (intro st) simp
  next
    case (SignalLocking b r)
    then have "ExEventSignal_first c b r w = Some w'" "b \<in> Es K" "b \<noteq> a" using e ok wk by simp_all
    then have "w' = w \<or> ExEventSignal_loop c b r (upd_event b (\<lambda>E. E\<lparr>EventLock := c, Signaled := 1\<rparr>) w) = Some w'"
      unfolding ExEventSignal_first_def by (blast elim: acquire_cases)
    moreover note signal_loop_steady [OF s l \<open>b \<in> Es K\<close> \<open>b \<noteq> a\<close>, of "upd_event b (\<lambda>E. E\<lparr>EventLock := c, Signaled := 1\<rparr>) w" c r w']
    ultimately show ?thesis using l st by (auto simp: view_simps)
  next
    case (Signalling b r)
    then show ?thesis using e ok wk by (intro st signal_loop_steady [OF s l, where b = b and r = r and u = w]) simp_all
  next
    case (Unblocking u r) then show ?thesis using e unblock_steady [of c u r w w' t a] wk by (intro st) simp
  next
    case (UnblockReady u r) then show ?thesis using e unblock_steady [of c u r w w' t a] wk by (intro st) simp
  next
    case (UnblockRelease u r) then show ?thesis using e unblock_end_steady wk by (intro st) (auto split: bind_splits)
  next
    case ExitLocking then show ?thesis using ok by simp
  qed
qed

text \<open>The steps of the thread itself.\<close>

lemma own_step:
  assumes s: "sinv K w q N" and s': "sinv K w' q' N'" and l: "sleeping K N a t w" and c: "c \<in> Cs K" "curr w c = t"
    and e: "kstep c w = Some w'"
  shows "sleeping K N a t w'"
proof -
  let ?k = "BlockedOnEvent a"
  have cc: "cur w c = t" using c(2) by (simp add: curr_def)
  note e = e [unfolded kstep_def cc]
  have oc: "oncpu K w t" using c by (auto simp: oncpu_def)
  have fl: "tflags w t \<noteq> THREAD_FLAG_FORCE_TERMINATE_PENDING"
    using sinvD(4) [OF s] sleepingD(1) [OF l] by (simp add: threads_ok_def)
  have mv: "w' = w \<or> curr w' = curr w \<and> place w' = (place w)(t := p) \<Longrightarrow> p \<in> sleep_places a - {Resume ?k}
      \<Longrightarrow> p = BlockLocking ?k \<longrightarrow> w' = w \<or> tstate w' t = ThreadStateBlocked \<Longrightarrow> ?thesis" for p
  proof (elim disjE)
    assume p: "p \<in> sleep_places a - {Resume ?k}" "p = BlockLocking ?k \<longrightarrow> w' = w \<or> tstate w' t = ThreadStateBlocked"
      and w': "curr w' = curr w \<and> place w' = (place w)(t := p)"
    have np: "\<not> wakes a t p" using p(1) by (auto simp: sleep_places_def)
    have "\<not> wakes a t (place w' (curr w' d))" if "d \<in> Cs K" for d
      using w' np sleepingD(6) [OF l that] by simp
    moreover have "p = BlockLocking ?k \<longrightarrow> tstate w' t = ThreadStateBlocked"
    proof
      assume b: "p = BlockLocking ?k"
      have "w' = w \<Longrightarrow> tstate w t = ThreadStateBlocked" using sleepingD(4) [OF l] b w' by (metis fun_upd_same)
      then show "tstate w' t = ThreadStateBlocked" using p(2) b by auto
    qed
    ultimately show ?thesis using l w' p(1) by (auto simp: sleeping_def)
  qed (use l in simp)
  consider "place w t = EventLocking a" | "place w t = TakeBlockLock ?k" | "place w t = InBlock ?k" | "place w t = BlockLocking ?k" | "place w t = Resume ?k"
    using sleepingD(3) [OF l] by (auto simp: sleep_places_def)
  then show ?thesis
  proof cases
    case 1
    then have "w' = w \<or> curr w' = curr w \<and> place w' = (place w)(t := TakeBlockLock ?k)"
      using e c(2) by (auto simp: ExEventWaitForSignal_insert_def Let_def view_simps view_fold elim!: acquire_cases split: bind_splits)
    then show ?thesis by (rule mv) (simp_all add: sleep_places_def)
  next
    case 2
    then have "w' = w \<or> curr w' = curr w \<and> place w' = (place w)(t := InBlock ?k)"
      using e c(2) by (auto simp: ThreadTakeBlockLock_def release_object_def Let_def view_simps view_fold elim!: acquire_cases split: bind_splits)
    then show ?thesis by (rule mv) (simp_all add: sleep_places_def)
  next
    case 3
    then have "curr w' = curr w \<and> place w' = (place w)(t := BlockLocking ?k)" "tstate w' t = ThreadStateBlocked"
      using e c(2) fl by (auto simp: ThreadBlock_enter_def Let_def view_simps view_fold split: bind_splits if_splits)
    then show ?thesis by (intro mv [of "BlockLocking ?k"]) (simp_all add: sleep_places_def)
  next
    case 4
    then have "ThreadBlock_schedule c ?k w = Some w'" using e by simp
    from block_schedule_picks [OF this] consider "w' = w" | nx where "curr w' = (curr w)(c := nx)" "place w' = (place w)(curr w c := Resume ?k)"
      "tstate w' = tstate w" "nx = idle w c \<or> tstate w nx = ThreadStateReady" by blast
    then show ?thesis
    proof cases
      case w': 2
      have b: "tstate w t = ThreadStateBlocked" using sleepingD(4) [OF l] 4 by simp
      have "nx \<in> Ts K \<and> nx \<noteq> t" by (rule picked_other [OF s l c(1) s' w'(1)]) (use w'(4) b in auto)
      then show ?thesis using c(2) w' b by (intro switch_sleeping [OF s l c(1) _ _ w'(1,2)]) auto
    qed (use l in simp)
  next
    case 5 then show ?thesis using sleepingD(5) [OF l] oc by simp
  qed
qed

text \<open>Every move but a call of \<^verbatim>\<open>ExEventSignal\<close> for the event.\<close>

lemma move_sleeping:
  assumes s: "sinv K w q N" and s': "sinv K w' q' N'" and l: "sleeping K N a t w" and c: "c \<in> Cs K"
    and ok: "kmove_ok K w held N c x" and x: "x \<noteq> Signal a" and e: "do_move c x w = Some w'"
  shows "sleeping K (kmove_new x N) a t w'"
proof (cases "x = Step")
  case True
  then show ?thesis
    using other_step [OF s s' l c] own_step [OF s s' l c] e by (cases "curr w c = t") (simp_all add: do_move_def kmove_new_def)
next
  case False
  have p: "place w (curr w c) = Client" using ok False by (simp add: kmove_ok_def Let_def view_fold)
  then have ct: "curr w c \<noteq> t" using sleepingD(3) [OF l] by (auto simp: sleep_places_def)
  have fl: "tflags w (curr w c) \<noteq> THREAD_FLAG_FORCE_TERMINATE_PENDING"
    using sinvD(4) [OF s] curr_thread [OF s c] by (simp add: threads_ok_def)
  have N: "kmove_new x N \<subseteq> N" by (auto simp: kmove_new_def split: kmove.splits)
  have yield: "steady c a t w v" if "ThreadYield_enter c u = Some v" "curr u = curr w" "tstate u = tstate w" "place u = place w" "tflags u = tflags w" for u v
    using that fl by (auto simp: ThreadYield_enter_def steady_def Let_def view_simps view_fold split: bind_splits if_splits)
  have "steady c a t w w'"
  proof (cases x)
    case Yield
    then show ?thesis using e by (intro yield [of "intr_disable c (curr w c) w"]) (simp_all add: do_move_def ThreadYield_def view_simps view_fold)
  next
    case Timer
    have i: "\<not> IntrOn (intr_disable c (curr w c) w) c" by (simp add: view_simps)
    obtain u where u: "ThreadTick c (intr_disable c (curr w c) w) = Some u" "no_switch (intr_disable c (curr w c) w) u"
      "place u = place w" "tstate u = tstate w" using ThreadTick_frame [OF i] by (auto simp: view_simps)
    then have n: "curr u = curr w" "tflags u = tflags w" using no_switch_simps [OF u(2)] by (simp_all add: view_simps)
    have "ThreadYield_enter c u = Some w' \<or> w' = intr_restore c (curr w c) u"
      using e Timer u(1) by (auto simp: do_move_def timer_interrupt_def Let_def view_fold split: if_splits)
    then show ?thesis using yield n u(3,4) p by (auto simp: steady_def view_simps)
  next
    case (Start u)
    then have "u \<noteq> t" using ok sleepingD(2) [OF l] by (auto simp: kmove_ok_def Let_def)
    then show ?thesis using e Start by (auto simp: do_move_def ThreadUnblock_def steady_def view_simps view_fold split: bind_splits)
  next
    case (Signal b)
    then show ?thesis using e x by (auto simp: do_move_def ExEventSignal_def steady_def view_simps view_fold split: bind_splits)
  next
    case (Acquire b) then show ?thesis
      using e p by (auto simp: do_move_def MutexAcquire_def steady_def Let_def view_simps view_fold split: bind_splits if_splits)
  next
    case (Release b) then show ?thesis
      using e p by (auto simp: do_move_def MutexRelease_def steady_def view_simps view_fold split: bind_splits if_splits)
  next
    case (Wait b) then show ?thesis
      using e by (auto simp: do_move_def ExEventWaitForSignal_def steady_def Let_def view_simps view_fold split: bind_splits)
  next
    case (Clear b) then show ?thesis
      using e p by (auto simp: do_move_def ExEventClearSignal_def steady_def view_simps view_fold split: bind_splits)
  next
    case Idle then show ?thesis using e by (auto simp: do_move_def IdleThread_loop_def steady_def Let_def view_simps view_fold)
  qed (use False in simp)
  then show ?thesis by (rule steady_sleeping [OF l _ ct N])
qed

section \<open>Runs\<close>

text \<open>The calls of \<^verbatim>\<open>ExEventSignal\<close> for the event in a sequence of moves.\<close>

definition signal_calls :: "ADDR \<Rightarrow> (ADDR \<times> kmove) list \<Rightarrow> nat" where
  "signal_calls a xs = length (filter (\<lambda>(c, x). x = Signal a) xs)"

lemma run_sleeping:
  assumes "kreach K w held N" "sleeping K N a t w" "kruns K xs (w, held, N) = Some (w', held', N')" "signal_calls a xs = 0"
  shows "sleeping K N' a t w'"
  using assms
proof (induction xs arbitrary: w held N)
  case Nil then show ?case by (simp add: kruns_def)
next
  case (Cons m xs)
  obtain c x where m: "m = (c, x)" by force
  have "c \<in> Cs K \<and> kmove_ok K w held N c x"
    by (rule ccontr) (use Cons.prems(3) in \<open>simp add: kruns_def m fold_None\<close>)
  then have ok: "c \<in> Cs K" "kmove_ok K w held N c x" by blast+
  then obtain v where v: "do_move c x w = Some v"
    using Cons.prems(3) by (cases "do_move c x w") (simp_all add: kruns_def m fold_None)
  with ok Cons.prems(3) have r: "kruns K xs (v, kmove_held c x w v held, kmove_new x N) = Some (w', held', N')"
    by (simp add: kruns_def m)
  have kv: "kreach K v (kmove_held c x w v held) (kmove_new x N)" by (rule kreach.move [OF Cons.prems(1) ok v])
  obtain q q' where "sinv K w q N" "sinv K v q' (kmove_new x N)" using kreach_inv [OF Cons.prems(1)] kreach_inv [OF kv] by blast
  moreover have "x \<noteq> Signal a" "signal_calls a xs = 0" using Cons.prems(4) by (auto simp: signal_calls_def m split: if_splits)
  ultimately have "sleeping K (kmove_new x N) a t v" using move_sleeping Cons.prems(2) ok v by blast
  then show ?case using Cons.IH [OF kv _ r] \<open>signal_calls a xs = 0\<close> by blast
qed

section \<open>Lost wake-ups\<close>

text \<open>C5. A wake-up of an executive event can be lost: \<^verbatim>\<open>ExEventWaitForSignal\<close> tests the flag of the event before it takes
  the lock of the event, and does not test it again before it sleeps. Take any reachable state in which a thread has
  found the flag clear and is about to take the lock, or is anywhere between there and its sleep, and no processor is inside
  \<^verbatim>\<open>ExEventSignal\<close> of this event or unblocking the thread; the flag may have been set in the meantime. Then in every
  continuation, however long, in which nobody calls \<^verbatim>\<open>ExEventSignal\<close> of this event again, the thread never returns from
  \<^verbatim>\<open>ExEventWaitForSignal\<close>, and once it is switched out it stays blocked and no processor runs it. Only a later
  signal can wake it.\<close>

theorem ex_event_lost_wakeup:
  assumes "kreach K w held N" "t \<in> Ts K" "place w t \<in> sleep_places a"
    and "t \<notin> N" "place w t \<in> {BlockLocking (BlockedOnEvent a), Resume (BlockedOnEvent a)} \<longrightarrow> State (threads w t) = ThreadStateBlocked"
    and "place w t = Resume (BlockedOnEvent a) \<longrightarrow> (\<forall>c\<in>Cs K. cur w c \<noteq> t)"
    and "\<forall>c\<in>Cs K. \<not> wakes a t (place w (cur w c))"
    and "kruns K xs (w, held, N) = Some (w', held', N')" "signal_calls a xs = 0"
  shows "place w' t \<in> sleep_places a
    \<and> (place w' t = Resume (BlockedOnEvent a) \<longrightarrow> State (threads w' t) = ThreadStateBlocked \<and> (\<forall>c\<in>Cs K. cur w' c \<noteq> t))"
proof -
  have "sleeping K N a t w"
    using assms(2-7) by (auto simp: sleeping_def oncpu_def view_defs)
  then have "sleeping K N' a t w'" using run_sleeping [OF assms(1) _ assms(8,9)] by blast
  then show ?thesis by (auto simp: sleeping_def oncpu_def view_defs)
qed

text \<open>In the sample system thread 0x1000 tests the event, and processor 32 signals it before thread 0x1000 has taken the
  lock. The thread goes to sleep on the signaled event.\<close>

definition signal_run :: "(ADDR \<times> kmove) list" where
  "signal_run = [(16, Wait 0x7000), (16, Step), (32, Signal 0x7000), (32, Step)]"

definition sleep_run :: "(ADDR \<times> kmove) list" where
  "sleep_run = [(16, Step), (16, Step), (16, Step), (16, Step), (16, Step), (16, Step)]"

theorem ex_event_lost_wakeup_witness:
  "\<exists>w held N w' held' N'. kreach K0 w held N \<and> Signaled (events w 0x7000) = 1 \<and> place w 0x1000 = EventLocking 0x7000
    \<and> kruns K0 sleep_run (w, held, N) = Some (w', held', N') \<and> Signaled (events w' 0x7000) = 1
    \<and> State (threads w' 0x1000) = ThreadStateBlocked \<and> cur w' 16 \<noteq> 0x1000 \<and> cur w' 32 \<noteq> 0x1000
    \<and> place w' (cur w' 16) = Client \<and> place w' (cur w' 32) = Client"
proof -
  have c: "map_option (\<lambda>(w, held, N). (Signaled (events w 0x7000), place w 0x1000, 0x1000 \<in> N, cur w 16, cur w 32, place w 0x2000,
        map_option (\<lambda>(w', held', N'). (Signaled (events w' 0x7000), place w' 0x1000, place w' (cur w' 16), place w' (cur w' 32))) (kruns K0 sleep_run (w, held, N))))
      (kruns K0 signal_run (w0, \<lambda>_ _. 0, {0x5000}))
    = Some (1, EventLocking 0x7000, False, 0x1000, 0x2000, Client, Some (1, Resume (BlockedOnEvent 0x7000), Client, Client))" by code_simp
  then obtain w held N w' held' N' where r: "kruns K0 signal_run (w0, \<lambda>_ _. 0, {0x5000}) = Some (w, held, N)"
    "kruns K0 sleep_run (w, held, N) = Some (w', held', N')"
    and v: "Signaled (events w 0x7000) = 1" "place w 0x1000 = EventLocking 0x7000" "0x1000 \<notin> N" "cur w 16 = 0x1000" "cur w 32 = 0x2000"
      "place w 0x2000 = Client" "Signaled (events w' 0x7000) = 1" "place w' 0x1000 = Resume (BlockedOnEvent 0x7000)"
      "place w' (cur w' 16) = Client" "place w' (cur w' 32) = Client" by auto
  have k: "kreach K0 w held N" by (rule kruns_reach [OF r(1) kreach.start [OF w0_start]])
  have h: "0x1000 \<in> Ts K0" "Cs K0 = {16, 32}" "place w 0x1000 \<in> sleep_places 0x7000" "signal_calls 0x7000 sleep_run = 0"
    using v(2) by (simp_all add: K0_def sleep_places_def signal_calls_def sleep_run_def)
  have "State (threads w' 0x1000) = ThreadStateBlocked \<and> (\<forall>c\<in>Cs K0. cur w' c \<noteq> 0x1000)"
    using ex_event_lost_wakeup [OF k h(1,3) v(3) _ _ _ r(2) h(4)] v h(2) by simp
  then show ?thesis using k r(2) v h(2) by blast
qed

end
