(* ===== verification/Spec2Isabelle.thy ===== *)
theory Spec2Isabelle
  imports Prelude CL_List CL_Bitmap CL_Memory CL_String CL_Strutils CL_Printf CL_HashTable CL_Lock CL_RwLock CL_Event CL_Heap_Ops CL_Stack CL_Utils Pmm Vm_Reservation_Reach Iomu_Vpb Fat_Volume Sched_Sleep
begin

text \<open>
  HAL9000 is a 64-bit, multiprocessor teaching kernel. This development models its support library
  CommonLib (\<^verbatim>\<open>src/CommonLib\<close>) and the kernel services built directly on it (\<^verbatim>\<open>src/HAL9000\<close>): the
  physical memory manager, the reservation of virtual addresses, the allocation of process identifiers,
  the list of volumes, the scheduler with the blocking mutex and event, and the path of file data from the FAT32
  driver (\<^verbatim>\<open>src/FAT32\<close>) through the volume and the disk to the bytes of the ATA controller.

  \<^bold>\<open>Parts and their theories.\<close> The theories follow the layers of the program; each imports the ones
  whose operations its code calls.

  \<^item> \<open>Prelude\<close>: the integer types of \<^verbatim>\<open>inc/data_type.h\<close> (words of 8 to 64 bits), the status codes of
    \<^verbatim>\<open>inc/status.h\<close>, \<^verbatim>\<open>ASSERT\<close>, flags and alignment of \<^verbatim>\<open>inc/base.h\<close>, the byte memory shared by the string and
    memory routines, and lemmas on words and lists.
  \<^item> \<open>CL_List\<close> (\<^verbatim>\<open>list.c\<close>): the doubly linked ring over a memory of \<^verbatim>\<open>LIST_ENTRY\<close> cells. \<open>is_list m h xs\<close> says
    that the ring of head \<open>h\<close> holds the entries \<open>xs\<close>; every operation refines the operation on \<open>xs\<close> and
    leaves other rings alone. The locale \<open>key_compare\<close> is the contract of the compare functions of the
    ordered list.
  \<^item> \<open>CL_Bitmap\<close> (\<^verbatim>\<open>bitmap.c\<close>): bits in a byte buffer; scans are first fit. The locale \<open>run_allocator\<close> is what an
    allocator of runs promises; the bitmap is an instance of it, and \<open>Pmm\<close> rests on it.
  \<^item> \<open>CL_Memory\<close> (\<^verbatim>\<open>cl_memory.c\<close>), \<open>CL_String\<close> and \<open>CL_Printf\<close> (\<^verbatim>\<open>cl_string.c\<close>), \<open>CL_Strutils\<close> (\<^verbatim>\<open>strutils.c\<close>):
    loops over bytes of a memory in which every access to an address that is not mapped fails. Formatted
    output is related to an abstract rendering of formats.
  \<^item> \<open>CL_HashTable\<close> (\<^verbatim>\<open>hash_table.c\<close>): buckets are rings of \<open>CL_List\<close> ordered by key; the table refines a finite
    set of keyed elements. The locale \<open>hash_function\<close> is interpreted for both hash functions of the library.
  \<^item> \<open>CL_Lock\<close> (\<^verbatim>\<open>spinlock.c\<close>, \<^verbatim>\<open>monlock.c\<close>, \<^verbatim>\<open>lock_common.c\<close>), \<open>CL_RwLock\<close> (\<^verbatim>\<open>rw_spinlock.c\<close>), \<open>CL_Event\<close>
    (\<^verbatim>\<open>event.c\<close>, \<^verbatim>\<open>checkin_queue.c\<close>): one interlocked access per step, any number of processors, all
    interleavings. The locale \<open>cpu_lock\<close> gives mutual exclusion to both kinds of lock.
  \<^item> \<open>CL_Heap\<close>, \<open>CL_Heap_Ops\<close> (\<^verbatim>\<open>cl_heap.c\<close>): a typed memory of block entries and tails; the blocks in address
    order are the abstract state. The first theory has the definitions and the invariant, the second the
    search for a hole, allocation, release and extension.
  \<^item> \<open>CL_Stack\<close> (\<^verbatim>\<open>stack_dynamic.c\<close>, \<^verbatim>\<open>stack_interface.c\<close>): the table of function pointers of a stack type is the
    locale \<open>stack_functions\<close>, interpreted for the dynamic stack. \<open>CL_Utils\<close> (\<^verbatim>\<open>ref_cnt.c\<close>, \<^verbatim>\<open>intutils.c\<close>): the
    reference counter under any interleaving, percentages and byte order.
  \<^item> \<open>Pmm\<close> (\<^verbatim>\<open>pmm.c\<close>, and the identifiers of \<^verbatim>\<open>process.c\<close>): page frames are bits of a bitmap; the memory map of the
    BIOS decides which frames start free.
  \<^item> \<open>Vm_Reservation\<close> (\<^verbatim>\<open>vm_reservation_space.c\<close>, the check of user buffers in \<^verbatim>\<open>vmm.c\<close>): the array of
    reservations in the reserved area, their commit bitmaps and the bump pointer of free addresses.
    \<open>Vm_Reservation_Ops\<close> has the invariant and what each operation does to it, \<open>Vm_Reservation_Reach\<close> the
    states reached by any sequence of allocations and releases.
  \<^item> \<open>Iomu_Vpb\<close> (\<^verbatim>\<open>iomu.c\<close>): the ordered list of volumes and the letters they get.
  \<^item> \<open>Sched\<close> (\<^verbatim>\<open>thread.c\<close>, \<^verbatim>\<open>mutex.c\<close>, \<^verbatim>\<open>ex_event.c\<close>, the end of the interrupt handler of \<^verbatim>\<open>isr.c\<close>): the world is the
    threads, the scheduling data of each processor, the mutexes, the events, one list memory for all
    their rings and the place each thread has reached; \<open>kstep c\<close> is the next step of the thread that
    processor \<open>c\<close> runs. \<open>Sched_Inv\<close> states the invariant \<open>sinv\<close>, \<open>Sched_Moves\<close> shows that each kind of
    move keeps it, \<open>Sched_Steps\<close> and \<open>Sched_Mutex\<close> show that every step of the code is such a move and
    fails no assertion, \<open>Sched_Reach\<close> defines the runs and draws the conclusions. \<open>Sched_Sleep\<close> follows a thread that has found an
    event not signaled through every continuation without another signal.

  \<^item> \<open>Storage\<close> (\<^verbatim>\<open>io_devices.c\<close>, \<^verbatim>\<open>volume_dispatch.c\<close>, \<^verbatim>\<open>disk_dispatch.c\<close>, \<^verbatim>\<open>ata_dispatch.c\<close>): a read or write request with the
    checks of each driver on its way. The locale \<open>sector_device\<close> is what the file system relies on, interpreted for the volume.
  \<^item> \<open>Fat_Utils\<close> (\<^verbatim>\<open>fat_utils.c\<close>) and \<open>Fat_Files\<close> (\<^verbatim>\<open>fat_operations.c\<close>): cluster chains in the file allocation table, the search for
    a free cluster, directory entries, dates, mounting, reading and writing. The bytes on the disk are the state. \<open>Fat_Chain\<close> has
    the layout of a volume, the links between clusters and what extending a chain does to them, \<open>Fat_File_Ops\<close> the bytes of a file
    and what reading and writing do to them, \<open>Fat_Volume\<close> the conclusions and sample volumes.

  \<^bold>\<open>Conventions.\<close> A result \<open>None\<close> is a failed assertion, a fault on memory that is not mapped, or a loop that does not
  return; \<open>Some\<close> carries the status code and the outputs of the C function. Theorems that an operation
  returns are stated with \<open>Some\<close>. Machine integers are words of their width and wrap around. Pointers to structures
  are addresses; a structure with links is linked at the address of its \<^verbatim>\<open>LIST_ENTRY\<close> field. Static data of a
  C file is a record passed to and returned by its operations. Callbacks (compare, hash, free and
  list functions) are parameters of the definitions, with their contract as a locale or a hypothesis.

  \<^bold>\<open>Atomicity and interleaving.\<close> In \<open>CL_Lock\<close>, \<open>CL_RwLock\<close> and \<open>CL_Event\<close> a step is one access to shared memory. In
  \<open>Sched\<close> a spinlock is the processor that holds it, and the code under one lock that takes no other
  lock is one step; \<open>lock_mutual_exclusion\<close> is the reason. \<open>Pmm\<close>, the identifiers and the volume list run
  under a lock for the whole operation and are modelled sequentially. Memory is sequentially consistent.

  \<^bold>\<open>Loops, bounds and fuel.\<close> Loops are functions with a termination proof or \<open>partial_function (option)\<close>; there
  is no fuel. Counters keep their C width. The size hypotheses of the theorems (no wrap-around of
  an address, strings shorter than 2 to the 32, at most 24 volumes) are the ones the code
  itself needs, and the witnesses show that they can be met.

  \<^bold>\<open>What the theorems show.\<close> Lists, bitmaps and the hash table refine sequences, sets of runs and finite sets; strings
  and numbers are printed, copied, compared and split as specified, with round trips; locks exclude,
  events and the check-in queue release exactly whom they should; page frames and process identifiers are
  never handed out twice and frames that are free are found; heap blocks and address regions handed out by
  the kernel are disjoint, accesses are granted exactly on committed pages with the rights of the region, and
  a released region grants nothing; volume letters resolve. For the scheduler, on
  any number of processors and in all runs in which no thread is terminated: no assertion fails, no thread runs twice or is lost, yielding is round robin, mutexes exclude
  and hand over in order. For files: a volume is mounted with a sound layout, what is written to a file is read back,
  other files keep their clusters and bytes, and a chain grows by a cluster that was free. Some theorems state where the code departs from its intent: a lost wake-up of
  the executive event, reads past the end of the hash table and of the check-in queue, regions
  that are not aligned, overlapping moves, short strings in bounded comparisons, user buffers that
  straddle a page that is not committed, reservations that overlap, a heap that fails an assertion when its search restarts at one of the last
  blocks, strings that differ in more than case and compare equal, a search for free clusters that
  misses some, and a read at the end of a file.

  \<^bold>\<open>Not modelled.\<close> Page tables, TLB and address spaces (\<^verbatim>\<open>mmu.c\<close>, most of \<^verbatim>\<open>vmm.c\<close>), the creation
  of threads and processes with their stacks, the registration of drivers and IRPs other than reads and writes, the search,
  creation and listing of directory entries in FAT32, the registers of the ATA controller, the network
  and other drivers, ACPI, PCI and the platform devices, console and log output, the boot loader and the
  start of the other processors: these are dominated by hardware registers, assembly, vendored code and function pointers of
  drivers. Termination of threads is modelled as steps but not admitted in the runs of \<open>Sched_Reach\<close>,
  because it breaks the invariant: \<open>terminated_waiter_breaks_release\<close> shows a thread that dies inside the waiting list
  of a mutex.
\<close>

end
